(* ===== verification/Prelude.thy ===== *)
theory Prelude
  imports Complex_Main "HOL-Library.AList" "HOL-Library.Char_ord" "HOL-Library.List_Lexorder" "HOL-Library.Word"
begin

unbundle bit_operations_syntax

text \<open>
  What every component shares.

  \<^item> A JavaScript \<open>Map\<close> is an association list with distinct keys, in insertion order:
    \<open>get\<close> is \<open>map_of\<close>, \<open>set\<close> is \<open>AList.update\<close> (it keeps the position of a key that is
    there and appends a new one, as \<open>Map.prototype.set\<close> does) and \<open>delete\<close> is
    \<open>AList.delete\<close>. A plain object is kept the same way.
  \<^item> A JavaScript \<open>Set\<close> is a list without repetitions, in insertion order.
  \<^item> A function that may throw returns \<open>'e + 'a\<close>; \<open>res_bind\<close> and \<open>res_fold\<close> stop at the
    first error, as an exception does.

  The simplification rules on maps are collected in \<open>jsmap\<close>, those on sets in \<open>jsset\<close>.
\<close>

named_theorems jsmap
named_theorems jsset

subsection \<open>Maps in insertion order\<close>

type_synonym ('k, 'v) jmap = "('k \<times> 'v) list"

declare map_of_eq_Some_iff [simp del] Some_eq_map_of_iff [simp del]

abbreviation jm_get :: "('k, 'v) jmap \<Rightarrow> 'k \<Rightarrow> 'v option" where
  "jm_get m k \<equiv> map_of m k"

abbreviation jm_set :: "'k \<Rightarrow> 'v \<Rightarrow> ('k, 'v) jmap \<Rightarrow> ('k, 'v) jmap" where
  "jm_set k v m \<equiv> AList.update k v m"

abbreviation jm_del :: "'k \<Rightarrow> ('k, 'v) jmap \<Rightarrow> ('k, 'v) jmap" where
  "jm_del k m \<equiv> AList.delete k m"

abbreviation jm_has :: "('k, 'v) jmap \<Rightarrow> 'k \<Rightarrow> bool" where
  "jm_has m k \<equiv> map_of m k \<noteq> None"

abbreviation jm_keys :: "('k, 'v) jmap \<Rightarrow> 'k list" where
  "jm_keys m \<equiv> map fst m"

abbreviation jm_vals :: "('k, 'v) jmap \<Rightarrow> 'v list" where
  "jm_vals m \<equiv> map snd m"

abbreviation jm_ok :: "('k, 'v) jmap \<Rightarrow> bool" where
  "jm_ok m \<equiv> distinct (map fst m)"

lemma jm_get_set [simp, jsmap]: "map_of (jm_set k v m) x = (if x = k then Some v else map_of m x)"
  by (simp add: update_conv')

lemma jm_get_del [simp, jsmap]: "map_of (jm_del k m) x = (if x = k then None else map_of m x)"
  by (simp add: delete_conv')

lemma jm_ok_set [simp, intro]: "jm_ok m \<Longrightarrow> jm_ok (jm_set k v m)"
  by (rule distinct_update)

lemma jm_ok_del [simp, intro]: "jm_ok m \<Longrightarrow> jm_ok (jm_del k m)"
  by (rule distinct_delete)

lemma jm_keys_set: "jm_keys (jm_set k v m) = (if k \<in> set (jm_keys m) then jm_keys m else jm_keys m @ [k])"
  by (induction m) auto

lemma set_jm_keys_set [simp]: "set (jm_keys (jm_set k v m)) = insert k (set (jm_keys m))"
  by (auto simp: jm_keys_set)

lemma jm_keys_del: "jm_keys (jm_del k m) = removeAll k (jm_keys m)"
  by (induction m) auto

lemma jm_has_iff: "jm_has m k \<longleftrightarrow> k \<in> set (jm_keys m)"
  by (simp add: map_of_eq_None_iff)

lemma jm_get_mem: "jm_ok m \<Longrightarrow> map_of m k = Some v \<longleftrightarrow> (k, v) \<in> set m"
  by (simp add: map_of_eq_Some_iff)

lemma jm_mem_set: "jm_ok m \<Longrightarrow> (k', v') \<in> set (jm_set k v m) \<longleftrightarrow>
    (if k' = k then v' = v else (k', v') \<in> set m)"
  by (metis jm_get_mem jm_get_set jm_ok_set option.inject)

lemma jm_mem_del: "(k', v') \<in> set (jm_del k m) \<longleftrightarrow> k' \<noteq> k \<and> (k', v') \<in> set m"
  by (induction m) auto

lemma jm_set_same_length: "jm_has m k \<Longrightarrow> length (jm_set k v m) = length m"
  by (induction m) (auto split: if_splits)

lemma jm_set_new: "\<not> jm_has m k \<Longrightarrow> jm_set k v m = m @ [(k, v)]"
  by (induction m) (auto split: if_splits)

lemma jm_set_length_le: "length (jm_set k v m) \<le> Suc (length m)"
  by (induction m) auto

lemma jm_del_absent: "\<not> jm_has m k \<Longrightarrow> jm_del k m = m"
  by (induction m) (auto split: if_splits)

lemma jm_del_length: "jm_ok m \<Longrightarrow> jm_has m k \<Longrightarrow> length m = Suc (length (jm_del k m))"
proof (induction m)
  case (Cons p m)
  show ?case
  proof (cases "fst p = k")
    case True
    with Cons.prems have "\<not> jm_has m k" by (auto simp: map_of_eq_None_iff)
    with True show ?thesis by (cases p) (simp add: jm_del_absent)
  next
    case False
    with Cons show ?thesis by (cases p) auto
  qed
qed simp

lemma jm_del_length_le: "length (jm_del k m) \<le> length m"
  by (induction m) auto

lemma jm_del_set_del: "jm_del k (jm_set k v m) = jm_del k m"
  by (induction m) auto

text \<open>Sums over the values of a map, for the counters a component keeps beside it.\<close>

definition jm_sum :: "('v \<Rightarrow> int) \<Rightarrow> ('k, 'v) jmap \<Rightarrow> int" where
  "jm_sum f m = (\<Sum>p\<leftarrow>m. f (snd p))"

lemma jm_sum_Nil [simp]: "jm_sum f [] = 0"
  by (simp add: jm_sum_def)

lemma jm_sum_Cons [simp]: "jm_sum f ((k, v) # m) = f v + jm_sum f m"
  by (simp add: jm_sum_def)

lemma jm_sum_append [simp]: "jm_sum f (m @ m') = jm_sum f m + jm_sum f m'"
  by (simp add: jm_sum_def)

lemma jm_sum_set: "jm_ok m \<Longrightarrow>
    jm_sum f (jm_set k v m) = jm_sum f m + f v - (case jm_get m k of None \<Rightarrow> 0 | Some w \<Rightarrow> f w)"
proof (induction m)
  case (Cons p m)
  obtain a b where p: "p = (a, b)" by (cases p)
  show ?case
  proof (cases "a = k")
    case True
    with p show ?thesis by simp
  next
    case False
    with Cons p show ?thesis by (auto split: option.splits)
  qed
qed simp

lemma jm_sum_del: "jm_ok m \<Longrightarrow>
    jm_sum f (jm_del k m) = jm_sum f m - (case jm_get m k of None \<Rightarrow> 0 | Some w \<Rightarrow> f w)"
proof (induction m)
  case (Cons p m)
  obtain a b where p: "p = (a, b)" by (cases p)
  show ?case
  proof (cases "a = k")
    case True
    with Cons.prems p have "\<not> jm_has m k" by (auto simp: map_of_eq_None_iff)
    with True p show ?thesis by (simp add: jm_del_absent)
  next
    case False
    with Cons p show ?thesis by (auto split: option.splits)
  qed
qed simp

lemma jm_sum_nonneg: "(\<And>k v. (k, v) \<in> set m \<Longrightarrow> 0 \<le> f v) \<Longrightarrow> 0 \<le> jm_sum f m"
  by (induction m) force+

lemma jm_sum_member_le:
  "(\<And>k v. (k, v) \<in> set m \<Longrightarrow> 0 \<le> f v) \<Longrightarrow> (k, v) \<in> set m \<Longrightarrow> f v \<le> jm_sum f m"
proof (induction m)
  case (Cons p m)
  obtain a b where p: "p = (a, b)" by (cases p)
  have rest: "0 \<le> jm_sum f m" using Cons.prems(1) p by (intro jm_sum_nonneg) auto
  show ?case
  proof (cases "(k, v) = (a, b)")
    case True
    with rest p show ?thesis by simp
  next
    case False
    then have "f v \<le> jm_sum f m" using Cons p by force
    moreover have "0 \<le> f b" using Cons.prems(1) p by auto
    ultimately show ?thesis using p by simp
  qed
qed simp

subsection \<open>Sets in insertion order\<close>

definition js_add :: "'a \<Rightarrow> 'a list \<Rightarrow> 'a list" where
  "js_add x xs = (if x \<in> set xs then xs else xs @ [x])"

definition js_del :: "'a \<Rightarrow> 'a list \<Rightarrow> 'a list" where
  "js_del x xs = removeAll x xs"

fun js_unique_acc :: "'a list \<Rightarrow> 'a list \<Rightarrow> 'a list" where
  "js_unique_acc acc [] = acc"
| "js_unique_acc acc (x # xs) = js_unique_acc (js_add x acc) xs"

text \<open>\<open>[...new Set(values)]\<close>: the first occurrence of each value, in order.\<close>

definition js_unique :: "'a list \<Rightarrow> 'a list" where
  "js_unique xs = js_unique_acc [] xs"

lemma set_js_add [simp, jsset]: "set (js_add x xs) = insert x (set xs)"
  by (auto simp: js_add_def)

lemma set_js_del [simp, jsset]: "set (js_del x xs) = set xs - {x}"
  by (auto simp: js_del_def)

lemma distinct_js_add [simp, intro]: "distinct xs \<Longrightarrow> distinct (js_add x xs)"
  by (simp add: js_add_def)

lemma distinct_js_del [simp, intro]: "distinct xs \<Longrightarrow> distinct (js_del x xs)"
  by (simp add: js_del_def distinct_removeAll)

lemma length_js_del_le: "length (js_del x xs) \<le> length xs"
  by (simp add: js_del_def)

lemma set_js_unique_acc: "set (js_unique_acc acc xs) = set acc \<union> set xs"
  by (induction xs arbitrary: acc) auto

lemma distinct_js_unique_acc: "distinct acc \<Longrightarrow> distinct (js_unique_acc acc xs)"
  by (induction xs arbitrary: acc) auto

lemma set_js_unique [simp, jsset]: "set (js_unique xs) = set xs"
  by (simp add: js_unique_def set_js_unique_acc)

lemma distinct_js_unique [simp, intro]: "distinct (js_unique xs)"
  by (simp add: js_unique_def distinct_js_unique_acc)

lemma js_unique_acc_distinct: "distinct (acc @ xs) \<Longrightarrow> js_unique_acc acc xs = acc @ xs"
  by (induction xs arbitrary: acc) (auto simp: js_add_def)

lemma js_unique_id: "distinct xs \<Longrightarrow> js_unique xs = xs"
  by (simp add: js_unique_def js_unique_acc_distinct)

lemma keys_set: "jm_keys (jm_set k v m) = js_add k (jm_keys m)"
  by (simp add: js_add_def update_keys)

subsection \<open>Arrays\<close>

text \<open>\<open>xs[i] = v\<close>: an index past the end extends the array, the gap reading as \<open>hole\<close>.\<close>

definition js_put :: "'a \<Rightarrow> 'a list \<Rightarrow> nat \<Rightarrow> 'a \<Rightarrow> 'a list" where
  "js_put hole xs i v = (if i < length xs then xs[i := v] else xs @ replicate (i - length xs) hole @ [v])"

text \<open>\<open>xs[i]\<close>, which is \<open>hole\<close> outside the array.\<close>

definition js_at :: "'a \<Rightarrow> 'a list \<Rightarrow> nat \<Rightarrow> 'a" where
  "js_at hole xs i = (if i < length xs then xs ! i else hole)"

lemma js_at_put [simp]: "js_at hole (js_put hole xs i v) j = (if j = i then v else js_at hole xs j)"
  by (auto simp: js_at_def js_put_def nth_append nth_list_update)

lemma length_js_put [simp]: "length (js_put hole xs i v) = max (length xs) (Suc i)"
  by (auto simp: js_put_def)

lemma count_list_pos: "0 < count_list xs x \<longleftrightarrow> x \<in> set xs"
  by (induction xs) auto

lemma count_list_update:
  "i < length xs \<Longrightarrow>
   int (count_list (xs[i := v]) x) = int (count_list xs x) - (if xs ! i = x then 1 else 0) + (if v = x then 1 else 0)"
proof (induction xs arbitrary: i)
  case (Cons y ys)
  show ?case
  proof (cases i)
    case (Suc j)
    with Cons.prems have "j < length ys" by simp
    from Cons.IH [OF this] Suc show ?thesis by (auto split: if_splits)
  qed simp
qed simp

text \<open>
  How many slots of an array of dictionary codes hold a code; code 0 marks an empty slot and is not counted.
\<close>

definition slots :: "nat list \<Rightarrow> nat \<Rightarrow> nat" where
  "slots codes c = (if c = 0 then 0 else count_list codes c)"

lemma count_list_replicate_other: "x \<noteq> y \<Longrightarrow> count_list (replicate n x) y = 0"
  by (induction n) auto

definition swap_count :: "nat \<Rightarrow> nat \<Rightarrow> (nat \<Rightarrow> nat) \<Rightarrow> nat \<Rightarrow> nat" where
  "swap_count old new cnt =
     (let cnt1 = (if old = 0 then cnt else cnt(old := cnt old - 1)) in if new = 0 then cnt1 else cnt1(new := cnt1 new + 1))"

lemma slots_update:
  assumes "row < length codes" and "codes ! row = old"
  shows "slots (codes[row := new]) = swap_count old new (slots codes)"
proof
  fix c
  have n: "count_list (codes[row := new]) x = count_list codes x - (if old = x then 1 else 0) + (if new = x then 1 else 0)" for x
  proof -
    have "0 < count_list codes old" using assms by (auto simp: count_list_pos)
    moreover have "int (count_list (codes[row := new]) x) =
        int (count_list codes x) - (if old = x then 1 else 0) + (if new = x then 1 else 0)"
      using count_list_update [OF assms(1), of new x] assms(2) by simp
    ultimately show ?thesis by (cases "old = x"; cases "new = x"; simp; linarith)
  qed
  define codes' where "codes' = codes[row := new]"
  have "slots codes' c = swap_count old new (slots codes) c"
    by (simp add: swap_count_def slots_def Let_def n [folded codes'_def])
  then show "slots (codes[row := new]) c = swap_count old new (slots codes) c" by (simp only: codes'_def)
qed

lemma slots_pos: "0 < c \<Longrightarrow> 0 < slots codes c \<longleftrightarrow> c \<in> set codes"
  by (simp add: slots_def count_list_pos)

subsection \<open>The 32-bit FNV-1a hash\<close>

definition fnv1a :: "string \<Rightarrow> 32 word" where
  "fnv1a s = foldl (\<lambda>h c. (h XOR of_nat (of_char c)) * 0x01000193) 0x811c9dc5 s"

definition hex_digit :: "nat \<Rightarrow> char" where
  "hex_digit n = (if n < 10 then char_of (48 + n) else char_of (87 + n))"

text \<open>\<open>toString(16).padStart(8, "0")\<close> of a 32-bit number.\<close>

definition hex8 :: "32 word \<Rightarrow> string" where
  "hex8 w = map (\<lambda>i. hex_digit (unat w div 16 ^ (7 - i) mod 16)) [0..<8]"

lemma hex_digit_inj: "a < 16 \<Longrightarrow> b < 16 \<Longrightarrow> hex_digit a = hex_digit b \<Longrightarrow> a = b"
proof -
  assume "a < 16" "b < 16" "hex_digit a = hex_digit b"
  then have "(of_char (hex_digit a) :: nat) = of_char (hex_digit b)" "a < 16" "b < 16" by simp_all
  then show "a = b" by (auto simp: hex_digit_def of_char_of split: if_splits)
qed

subsection \<open>Results of functions that may throw\<close>

fun res_bind :: "'e + 'a \<Rightarrow> ('a \<Rightarrow> 'e + 'b) \<Rightarrow> 'e + 'b" where
  "res_bind (Inl e) f = Inl e"
| "res_bind (Inr x) f = f x"

fun res_fold :: "('s \<Rightarrow> 'a \<Rightarrow> 'e + 's) \<Rightarrow> 's \<Rightarrow> 'a list \<Rightarrow> 'e + 's" where
  "res_fold f s [] = Inr s"
| "res_fold f s (x # xs) = res_bind (f s x) (\<lambda>s'. res_fold f s' xs)"

fun res_map :: "('a \<Rightarrow> 'e + 'b) \<Rightarrow> 'a list \<Rightarrow> 'e + 'b list" where
  "res_map f [] = Inr []"
| "res_map f (x # xs) = res_bind (f x) (\<lambda>y. res_bind (res_map f xs) (\<lambda>ys. Inr (y # ys)))"

lemma res_bind_Inr: "res_bind r f = Inr y \<longleftrightarrow> (\<exists>x. r = Inr x \<and> f x = Inr y)"
  by (cases r) auto

lemma res_bind_Inl: "res_bind r f = Inl e \<longleftrightarrow> r = Inl e \<or> (\<exists>x. r = Inr x \<and> f x = Inl e)"
  by (cases r) auto

lemma res_fold_invariant:
  assumes "res_fold f s xs = Inr s'" and "P s"
    and step: "\<And>s x s'. x \<in> set xs \<Longrightarrow> P s \<Longrightarrow> f s x = Inr s' \<Longrightarrow> P s'"
  shows "P s'"
  using assms
proof (induction xs arbitrary: s)
  case (Cons x xs)
  from Cons.prems(1) obtain t where t: "f s x = Inr t" "res_fold f t xs = Inr s'"
    by (auto simp: res_bind_Inr)
  with Cons.prems(2,3) have "P t" by auto
  with Cons.IH [OF t(2)] Cons.prems(3) show ?case by auto
qed simp

lemma res_fold_append:
  "res_fold f s (xs @ ys) = res_bind (res_fold f s xs) (\<lambda>s'. res_fold f s' ys)"
proof (induction xs arbitrary: s)
  case (Cons x xs)
  show ?case by (cases "f s x") (simp_all add: Cons.IH)
qed simp

lemma res_fold_total:
  assumes "\<And>s x. x \<in> set xs \<Longrightarrow> (\<exists>s'. f s x = Inr s') \<longleftrightarrow> Q x"
  shows "(\<exists>s'. res_fold f s xs = Inr s') \<longleftrightarrow> (\<forall>x\<in>set xs. Q x)"
  using assms
proof (induction xs arbitrary: s)
  case (Cons x xs)
  have x: "(\<exists>s'. f s x = Inr s') \<longleftrightarrow> Q x" using Cons.prems by simp
  show ?case
  proof (cases "f s x")
    case (Inl e)
    with x show ?thesis by auto
  next
    case (Inr t)
    with x Cons.IH [of t] Cons.prems show ?thesis by auto
  qed
qed simp

lemma res_map_Inr_length: "res_map f xs = Inr ys \<Longrightarrow> length ys = length xs"
  by (induction xs arbitrary: ys) (auto simp: res_bind_Inr)

subsection \<open>Strings\<close>

text \<open>\<open>split(c)\<close> of a string: an empty string gives one empty part.\<close>

fun split_on :: "char \<Rightarrow> string \<Rightarrow> string list" where
  "split_on c [] = [[]]"
| "split_on c (x # xs) =
     (if x = c then [] # split_on c xs
      else (case split_on c xs of [] \<Rightarrow> [[x]] | w # ws \<Rightarrow> (x # w) # ws))"

fun join_with :: "string \<Rightarrow> string list \<Rightarrow> string" where
  "join_with sep [] = []"
| "join_with sep [w] = w"
| "join_with sep (w # ws) = w @ sep @ join_with sep ws"

lemma split_on_not_Nil [simp]: "split_on c s \<noteq> []"
  by (induction s) (auto split: list.splits)

lemma join_split_on: "join_with [c] (split_on c s) = s"
proof (induction s)
  case (Cons x xs)
  obtain w ws where s: "split_on c xs = w # ws" by (cases "split_on c xs") auto
  with Cons.IH show ?case by (cases ws) auto
qed simp

lemma split_on_no_sep: "w \<in> set (split_on c s) \<Longrightarrow> c \<notin> set w"
  by (induction s arbitrary: w) (auto split: list.splits if_splits)

definition is_js_space :: "char \<Rightarrow> bool" where
  "is_js_space c \<longleftrightarrow> of_char c \<in> {9, 10, 11, 12, 13, 32, 160 :: nat}"

definition js_trim :: "string \<Rightarrow> string" where
  "js_trim s = rev (dropWhile is_js_space (rev (dropWhile is_js_space s)))"

definition starts_with :: "string \<Rightarrow> string \<Rightarrow> bool" where
  "starts_with p s \<longleftrightarrow> take (length p) s = p"

definition ends_with :: "string \<Rightarrow> string \<Rightarrow> bool" where
  "ends_with p s \<longleftrightarrow> starts_with (rev p) (rev s)"

fun contains_str :: "string \<Rightarrow> string \<Rightarrow> bool" where
  "contains_str p [] = (p = [])"
| "contains_str p (c # s) = (starts_with p (c # s) \<or> contains_str p s)"

lemma starts_with_append [simp]: "starts_with p (p @ s)"
  by (simp add: starts_with_def)

lemma starts_with_iff: "starts_with p s \<longleftrightarrow> (\<exists>t. s = p @ t)"
  by (auto simp: starts_with_def) (metis append_take_drop_id)

subsection \<open>Array.prototype.sort with a comparator\<close>

text \<open>
  The engine's sort is stable and, for a comparator that is a consistent total preorder, its
  result is the one stable sorted permutation, which insertion computes too. A comparator
  is a function to \<open>int\<close> whose sign is read.
\<close>

fun js_insert :: "('a \<Rightarrow> 'a \<Rightarrow> int) \<Rightarrow> 'a \<Rightarrow> 'a list \<Rightarrow> 'a list" where
  "js_insert cmp x [] = [x]"
| "js_insert cmp x (y # ys) = (if cmp x y \<le> 0 then x # y # ys else y # js_insert cmp x ys)"

fun js_sort :: "('a \<Rightarrow> 'a \<Rightarrow> int) \<Rightarrow> 'a list \<Rightarrow> 'a list" where
  "js_sort cmp [] = []"
| "js_sort cmp (x # xs) = js_insert cmp x (js_sort cmp xs)"

lemma set_js_insert [simp]: "set (js_insert cmp x xs) = insert x (set xs)"
  by (induction xs) auto

lemma set_js_sort [simp]: "set (js_sort cmp xs) = set xs"
  by (induction xs) auto

lemma length_js_insert [simp]: "length (js_insert cmp x xs) = Suc (length xs)"
  by (induction xs) auto

lemma length_js_sort [simp]: "length (js_sort cmp xs) = length xs"
  by (induction xs) auto

lemma distinct_js_insert: "distinct (js_insert cmp x xs) \<longleftrightarrow> x \<notin> set xs \<and> distinct xs"
  by (induction xs) auto

lemma distinct_js_sort [simp]: "distinct (js_sort cmp xs) = distinct xs"
  by (induction xs) (auto simp: distinct_js_insert)

end
