(* ===== verification/JsNum.thy ===== *)
theory JsNum
  imports Prelude
begin

text \<open>
  JavaScript numbers: IEEE 754 binary64. A finite double is the rational it denotes; the
  arithmetic of the source is the exact operation followed by \<open>fround\<close>, round to nearest,
  ties to even, with overflow to an infinity and gradual underflow. The two zeros are one
  value here: no operation of the modelled code separates them but \<open>Object.is\<close>, whose
  answer on them is the same as that of the comparison that follows it.
  \<open>fround_of_int\<close> gives the range in which integer arithmetic is exact.
\<close>

datatype jsnum = NaN | PInf | NInf | Fin rat

definition pow2 :: "int \<Rightarrow> rat" where
  "pow2 e = (if 0 \<le> e then 2 ^ nat e else 1 / 2 ^ nat (- e))"

definition round_half_even :: "rat \<Rightarrow> int" where
  "round_half_even q =
     (let f = \<lfloor>q\<rfloor>; d = q - of_int f in
      if d < 1 / 2 then f else if 1 / 2 < d then f + 1 else if even f then f else f + 1)"

text \<open>The exponent of the last place of a double near \<open>r\<close>: the least one for which 53 bits are enough.\<close>

definition exponents :: "int list" where
  "exponents = [-1074..971]"

lemma exponents_nth: "i < 2046 \<Longrightarrow> exponents ! i = -1074 + int i"
  unfolding exponents_def by (subst nth_upto) auto

lemma length_exponents [simp]: "length exponents = 2046"
  unfolding exponents_def by (subst length_upto) simp

lemma set_exponents: "set exponents = {-1074..971}"
  unfolding exponents_def by (rule set_upto)

definition quantum :: "rat \<Rightarrow> int option" where
  "quantum r = find (\<lambda>e. \<bar>r\<bar> < pow2 (e + 53)) exponents"

definition infinity_of :: "rat \<Rightarrow> jsnum" where
  "infinity_of r = (if 0 < r then PInf else NInf)"

definition fround :: "rat \<Rightarrow> jsnum" where
  "fround r =
     (case quantum r of
        None \<Rightarrow> infinity_of r
      | Some e \<Rightarrow>
          (let v = of_int (round_half_even (r / pow2 e)) * pow2 e in
           if \<bar>v\<bar> < pow2 1024 then Fin v else infinity_of r))"

lemma pow2_pos [simp]: "0 < pow2 e"
  by (simp add: pow2_def)

lemma pow2_nonzero [simp]: "pow2 e \<noteq> 0"
  using pow2_pos [of e] by linarith

lemma pow2_of_nat [simp]: "pow2 (int n) = 2 ^ n"
  by (simp add: pow2_def)

lemma pow2_mono: "a \<le> b \<Longrightarrow> pow2 a \<le> pow2 b"
proof -
  assume ab: "a \<le> b"
  consider "0 \<le> a" | "a < 0" "0 \<le> b" | "b < 0" by linarith
  then show ?thesis
  proof cases
    case 1
    with ab have "nat a \<le> nat b" by simp
    with 1 ab show ?thesis by (simp add: pow2_def power_increasing)
  next
    case 2
    have "(1::rat) \<le> 2 ^ nat (- a) * 2 ^ nat b"
      by (simp flip: power_add)
    with 2 show ?thesis by (simp add: pow2_def field_simps)
  next
    case 3
    with ab have "nat (- b) \<le> nat (- a)" by simp
    with 3 ab show ?thesis
      by (simp add: pow2_def frac_le power_increasing)
  qed
qed

lemma round_half_even_of_int [simp]: "round_half_even (of_int z) = z"
  by (simp add: round_half_even_def)

lemma quantum_Some:
  "quantum r = Some e \<Longrightarrow> \<bar>r\<bar> < pow2 (e + 53) \<and> -1074 \<le> e \<and> e \<le> 971 \<and>
     (\<forall>e'. -1074 \<le> e' \<and> e' < e \<longrightarrow> pow2 (e' + 53) \<le> \<bar>r\<bar>)"
proof -
  assume "quantum r = Some e"
  then obtain i where i: "i < 2046" "e = exponents ! i"
    "\<bar>r\<bar> < pow2 (e + 53)" "\<forall>j<i. \<not> \<bar>r\<bar> < pow2 (exponents ! j + 53)"
    unfolding quantum_def find_Some_iff by auto
  from i have e: "e = -1074 + int i" by (simp add: exponents_nth)
  have "pow2 (e' + 53) \<le> \<bar>r\<bar>" if "-1074 \<le> e'" "e' < e" for e'
  proof -
    from that e have "nat (e' + 1074) < i" by linarith
    with i(4) have "\<not> \<bar>r\<bar> < pow2 (exponents ! nat (e' + 1074) + 53)" by blast
    moreover have "exponents ! nat (e' + 1074) = e'"
      using that e i(1) by (subst exponents_nth) auto
    ultimately show ?thesis by simp
  qed
  with e i show ?thesis by auto
qed

lemma quantum_le:
  assumes "\<bar>r\<bar> < pow2 (e + 53)" and "-1074 \<le> e" and "e \<le> 971"
  obtains e' where "quantum r = Some e'" and "e' \<le> e"
proof (cases "quantum r")
  case None
  with assms have False by (auto simp: quantum_def find_None_iff set_exponents)
  then show ?thesis ..
next
  case (Some e')
  with quantum_Some [OF Some] assms(1,2) have "e' \<le> e" by (meson leI leD)
  with Some show ?thesis by (rule that)
qed

lemma of_int_div_pow2:
  assumes "e \<le> 0"
  obtains m where "(of_int z :: rat) / pow2 e = of_int m"
proof
  show "(of_int z :: rat) / pow2 e = of_int (z * 2 ^ nat (- e))"
    using assms by (cases "e = 0") (auto simp: pow2_def)
qed

text \<open>Every integer of at most 53 bits is a double, so rounding keeps it.\<close>

lemma fround_of_int: "\<bar>z\<bar> \<le> 2 ^ 53 \<Longrightarrow> fround (of_int z) = Fin (of_int z)"
proof -
  assume z: "\<bar>z\<bar> \<le> 2 ^ 53"
  then have zr: "\<bar>of_int z :: rat\<bar> \<le> 2 ^ 53"
    by (metis of_int_abs of_int_le_iff of_int_numeral of_int_power)
  then have lt: "\<bar>of_int z :: rat\<bar> < pow2 (1 + 53)" by (simp add: pow2_def)
  obtain e where e: "quantum (of_int z) = Some e" "e \<le> 1"
    using quantum_le [OF lt] by auto
  have "\<exists>m. (of_int z :: rat) / pow2 e = of_int m"
  proof (cases "e \<le> 0")
    case True
    then show ?thesis by (rule of_int_div_pow2) blast
  next
    case False
    with e(2) have e1: "e = 1" by simp
    have "-1074 \<le> (0::int) \<and> 0 < e \<longrightarrow> pow2 (0 + 53) \<le> \<bar>of_int z :: rat\<bar>"
      using quantum_Some [OF e(1)] by blast
    with e1 have "pow2 53 \<le> \<bar>of_int z :: rat\<bar>" by simp
    with zr have "\<bar>of_int z :: rat\<bar> = of_int (2 ^ 53)" by (simp add: pow2_def)
    then have "\<bar>z\<bar> = 2 ^ 53" by (simp only: of_int_eq_iff flip: of_int_abs)
    then have "z = 2 ^ 53 \<or> z = - (2 ^ 53)" by linarith
    then have "z = 2 * (z div 2)" by (elim disjE) simp_all
    then have "(of_int z :: rat) = 2 * of_int (z div 2)"
      by (metis of_int_mult of_int_numeral)
    then have "(of_int z :: rat) / pow2 e = of_int (z div 2)"
      using e1 by (simp add: pow2_def)
    then show ?thesis by blast
  qed
  then obtain m where m: "(of_int z :: rat) / pow2 e = of_int m" by blast
  then have v: "of_int (round_half_even (of_int z / pow2 e)) * pow2 e = (of_int z :: rat)"
    by (simp add: field_simps)
  have "\<bar>of_int z :: rat\<bar> < pow2 1024"
    using lt pow2_mono [of 54 1024] by simp
  with v e(1) show ?thesis by (simp add: fround_def Let_def)
qed

subsection \<open>Arithmetic and comparison\<close>

fun num_neg :: "jsnum \<Rightarrow> jsnum" where
  "num_neg NaN = NaN"
| "num_neg PInf = NInf"
| "num_neg NInf = PInf"
| "num_neg (Fin a) = Fin (- a)"

fun num_add :: "jsnum \<Rightarrow> jsnum \<Rightarrow> jsnum" where
  "num_add (Fin a) (Fin b) = fround (a + b)"
| "num_add NaN _ = NaN"
| "num_add _ NaN = NaN"
| "num_add PInf NInf = NaN"
| "num_add NInf PInf = NaN"
| "num_add PInf _ = PInf"
| "num_add _ PInf = PInf"
| "num_add NInf _ = NInf"
| "num_add _ NInf = NInf"

definition num_sub :: "jsnum \<Rightarrow> jsnum \<Rightarrow> jsnum" where
  "num_sub a b = num_add a (num_neg b)"

definition num_pos :: "jsnum \<Rightarrow> bool" where
  "num_pos n = (case n of PInf \<Rightarrow> True | Fin a \<Rightarrow> 0 < a | _ \<Rightarrow> False)"

definition num_is_neg :: "jsnum \<Rightarrow> bool" where
  "num_is_neg n = (case n of NInf \<Rightarrow> True | Fin a \<Rightarrow> a < 0 | _ \<Rightarrow> False)"

definition num_zero :: "jsnum \<Rightarrow> bool" where
  "num_zero n = (n = Fin 0)"

definition signed_inf :: "bool \<Rightarrow> jsnum" where
  "signed_inf pos = (if pos then PInf else NInf)"

fun num_mul :: "jsnum \<Rightarrow> jsnum \<Rightarrow> jsnum" where
  "num_mul (Fin a) (Fin b) = fround (a * b)"
| "num_mul a b =
     (if a = NaN \<or> b = NaN \<or> num_zero a \<or> num_zero b then NaN
      else signed_inf (num_pos a = num_pos b))"

fun num_div :: "jsnum \<Rightarrow> jsnum \<Rightarrow> jsnum" where
  "num_div (Fin a) (Fin b) =
     (if b = 0 then (if a = 0 then NaN else signed_inf (0 < a)) else fround (a / b))"
| "num_div (Fin a) b = (if b = NaN then NaN else Fin 0)"
| "num_div a (Fin b) = (if a = NaN then NaN else signed_inf (num_pos a = (0 \<le> b)))"
| "num_div _ _ = NaN"

fun num_lt :: "jsnum \<Rightarrow> jsnum \<Rightarrow> bool" where
  "num_lt (Fin a) (Fin b) = (a < b)"
| "num_lt NaN _ = False"
| "num_lt _ NaN = False"
| "num_lt NInf b = (b \<noteq> NInf)"
| "num_lt _ NInf = False"
| "num_lt PInf _ = False"
| "num_lt _ PInf = True"

text \<open>The comparisons \<open>==\<close> and \<open><=\<close> on numbers: false when either side is \<open>NaN\<close>.\<close>

definition num_eq :: "jsnum \<Rightarrow> jsnum \<Rightarrow> bool" where
  "num_eq a b \<longleftrightarrow> a \<noteq> NaN \<and> a = b"

definition num_le :: "jsnum \<Rightarrow> jsnum \<Rightarrow> bool" where
  "num_le a b \<longleftrightarrow> num_lt a b \<or> num_eq a b"

definition num_finite :: "jsnum \<Rightarrow> bool" where
  "num_finite n = (case n of Fin _ \<Rightarrow> True | _ \<Rightarrow> False)"

definition num_is_integer :: "jsnum \<Rightarrow> bool" where
  "num_is_integer n = (case n of Fin a \<Rightarrow> a = of_int \<lfloor>a\<rfloor> | _ \<Rightarrow> False)"

text \<open>\<open>a - b\<close> read for its sign only, as a sort comparator's result is; \<open>NaN\<close> counts as 0.\<close>

definition num_cmp :: "jsnum \<Rightarrow> jsnum \<Rightarrow> int" where
  "num_cmp a b = (if num_lt a b then -1 else if num_lt b a then 1 else 0)"

definition num_of_int :: "int \<Rightarrow> jsnum" where
  "num_of_int z = Fin (of_int z)"

definition num_of_nat :: "nat \<Rightarrow> jsnum" where
  "num_of_nat n = num_of_int (int n)"

text \<open>The integers JavaScript counts with exactly.\<close>

definition safe_int :: "int \<Rightarrow> bool" where
  "safe_int z \<longleftrightarrow> \<bar>z\<bar> \<le> 2 ^ 53"

lemma num_add_of_int: "safe_int (a + b) \<Longrightarrow> num_add (num_of_int a) (num_of_int b) = num_of_int (a + b)"
  using fround_of_int [of "a + b"] by (simp add: num_of_int_def safe_int_def)

lemma num_sub_of_int: "safe_int (a - b) \<Longrightarrow> num_sub (num_of_int a) (num_of_int b) = num_of_int (a - b)"
  using fround_of_int [of "a - b"] by (simp add: num_of_int_def num_sub_def safe_int_def)

lemma num_finite_of_int [simp]: "num_finite (num_of_int z)"
  by (simp add: num_finite_def num_of_int_def)

lemma num_of_int_eq_iff [simp]: "num_of_int a = num_of_int b \<longleftrightarrow> a = b"
  by (simp add: num_of_int_def)

lemma num_lt_irrefl [simp]: "\<not> num_lt a a"
  by (cases a) auto

lemma num_lt_trans: "num_lt a b \<Longrightarrow> num_lt b c \<Longrightarrow> num_lt a c"
  by (cases a; cases b; cases c) auto

lemma num_lt_total: "a \<noteq> NaN \<Longrightarrow> b \<noteq> NaN \<Longrightarrow> num_lt a b \<or> a = b \<or> num_lt b a"
  by (cases a; cases b) auto

lemma num_cmp_antisym: "num_cmp b a = - num_cmp a b"
  using num_lt_trans [of a b a] by (auto simp: num_cmp_def)

end
