(* ===== verification/JsValue.thy ===== *)
theory JsValue
  imports JsNum
begin

text \<open>
  The values the database stores and its queries are made of: JSON values and
  \<open>undefined\<close>. A number is a \<open>jsnum\<close>; a string is a list of 8-bit code units; an object is an
  association list of its own properties in insertion order (JavaScript moves
  integer-like keys to the front of that order; inherited properties and class
  instances such as \<open>Date\<close> are outside the model).

  What depends on the host is a field of the record \<open>host\<close>: the collation behind
  \<open>localeCompare\<close>, the decimal text of a number and its inverse, \<open>Date.parse\<close>, the regular
  expression engine, \<open>toLowerCase\<close>, \<open>JSON.parse\<close> and the platform's compression adapter.

  Then the path operations of src/src/query.js (\<open>getPathValue\<close>) and of src/src/store.js
  (\<open>setPath\<close>, \<open>unsetPath\<close>, \<open>pickPaths\<close>, \<open>mergePlainObjects\<close>).
\<close>

datatype jsv =
    JUndef
  | JNull
  | JBool bool
  | JNum jsnum
  | JStr string
  | JArr "jsv list"
  | JObj "(string \<times> jsv) list"

type_synonym jobj = "(string \<times> jsv) list"

record host =
  localeCompare :: "string \<Rightarrow> string \<Rightarrow> int"
  numToStr :: "jsnum \<Rightarrow> string"
  strToNum :: "string \<Rightarrow> jsnum"
  dateParse :: "string \<Rightarrow> jsnum"
  regexTest :: "string \<Rightarrow> string \<Rightarrow> string \<Rightarrow> bool"
  toLower :: "string \<Rightarrow> string"
  jsonParse :: "string \<Rightarrow> jsv"
  encodeUtf8 :: "string \<Rightarrow> nat list"
  decodeUtf8 :: "nat list \<Rightarrow> string"
  compress :: "nat list \<Rightarrow> nat list"
  decompress :: "nat list \<Rightarrow> nat list"

subsection \<open>Kinds of values\<close>

fun js_typeof :: "jsv \<Rightarrow> string" where
  "js_typeof JUndef = ''undefined''"
| "js_typeof JNull = ''object''"
| "js_typeof (JBool b) = ''boolean''"
| "js_typeof (JNum n) = ''number''"
| "js_typeof (JStr s) = ''string''"
| "js_typeof (JArr xs) = ''object''"
| "js_typeof (JObj kvs) = ''object''"

fun is_obj :: "jsv \<Rightarrow> bool" where
  "is_obj (JObj kvs) = True"
| "is_obj _ = False"

fun is_arr :: "jsv \<Rightarrow> bool" where
  "is_arr (JArr xs) = True"
| "is_arr _ = False"

fun is_str :: "jsv \<Rightarrow> bool" where
  "is_str (JStr s) = True"
| "is_str _ = False"

definition nullish :: "jsv \<Rightarrow> bool" where
  "nullish v \<longleftrightarrow> v = JUndef \<or> v = JNull"

text \<open>\<open>Boolean(value)\<close>.\<close>

fun truthy :: "jsv \<Rightarrow> bool" where
  "truthy JUndef = False"
| "truthy JNull = False"
| "truthy (JBool b) = b"
| "truthy (JNum n) = (n \<noteq> NaN \<and> n \<noteq> Fin 0)"
| "truthy (JStr s) = (s \<noteq> [])"
| "truthy _ = True"

text \<open>\<open>Object.entries\<close> of a plain object.\<close>

fun entries_of :: "jsv \<Rightarrow> jobj" where
  "entries_of (JObj kvs) = kvs"
| "entries_of _ = []"

fun elems_of :: "jsv \<Rightarrow> jsv list" where
  "elems_of (JArr xs) = xs"
| "elems_of _ = []"

subsection \<open>Property access\<close>

definition is_digit :: "char \<Rightarrow> bool" where
  "is_digit c \<longleftrightarrow> 48 \<le> (of_char c :: nat) \<and> (of_char c :: nat) \<le> 57"

definition digits_value :: "string \<Rightarrow> nat" where
  "digits_value s = foldl (\<lambda>n c. 10 * n + (of_char c - 48)) 0 s"

text \<open>A property name that is an array index in canonical form.\<close>

definition array_index :: "string \<Rightarrow> nat option" where
  "array_index s =
     (if s \<noteq> [] \<and> list_all is_digit s \<and> (s = ''0'' \<or> hd s \<noteq> CHR ''0'')
      then Some (digits_value s) else None)"

definition oget :: "jobj \<Rightarrow> string \<Rightarrow> jsv" where
  "oget kvs k = (case map_of kvs k of None \<Rightarrow> JUndef | Some v \<Rightarrow> v)"

fun jprop :: "jsv \<Rightarrow> string \<Rightarrow> jsv" where
  "jprop (JObj kvs) k = oget kvs k"
| "jprop (JArr xs) k =
     (if k = ''length'' then JNum (num_of_nat (length xs))
      else (case array_index k of
              None \<Rightarrow> JUndef
            | Some i \<Rightarrow> if i < length xs then xs ! i else JUndef))"
| "jprop _ k = JUndef"

fun walk_path :: "jsv \<Rightarrow> string list \<Rightarrow> jsv" where
  "walk_path cursor [] = cursor"
| "walk_path cursor (part # parts) = walk_path (jprop cursor part) parts"

definition getPathValue :: "jsv \<Rightarrow> string \<Rightarrow> jsv" where
  "getPathValue source path =
     (if nullish source then JUndef
      else if path = ''_id'' then jprop source ''_id''
      else if path = ''id'' then jprop source ''id''
      else walk_path source (split_on CHR ''.'' path))"

lemma walk_path_nonobject: "\<not> is_obj v \<Longrightarrow> \<not> is_arr v \<Longrightarrow> parts \<noteq> [] \<Longrightarrow> walk_path v parts = JUndef"
proof (induction parts arbitrary: v)
  case (Cons p ps)
  then have "jprop v p = JUndef" by (cases v) auto
  with Cons show ?case by (cases "ps = []") auto
qed simp

lemma walk_path_append: "walk_path v (ps @ qs) = walk_path (walk_path v ps) qs"
  by (induction ps arbitrary: v) auto

lemma oget_set [simp]: "oget (jm_set k v kvs) k' = (if k' = k then v else oget kvs k')"
  by (simp add: oget_def)

lemma oget_del [simp]: "oget (jm_del k kvs) k' = (if k' = k then JUndef else oget kvs k')"
  by (simp add: oget_def)

lemma getPathValue_dotted:
  "\<not> nullish v \<Longrightarrow> getPathValue v path = walk_path v (split_on CHR ''.'' path)"
  by (auto simp: getPathValue_def)

subsection \<open>Copies\<close>

text \<open>
  \<open>JSON.parse(JSON.stringify(value))\<close> of a value that is not \<open>undefined\<close>: properties that are
  \<open>undefined\<close> are left out, \<open>undefined\<close> elements and non-finite numbers become \<open>null\<close>.
  \<open>structuredClone\<close> of a value of the model is the value.
\<close>

fun json_clone :: "jsv \<Rightarrow> jsv" where
  "json_clone (JArr xs) = JArr (map (\<lambda>x. if x = JUndef then JNull else json_clone x) xs)"
| "json_clone (JObj kvs) =
     JObj (map (\<lambda>(k, v). (k, json_clone v)) (filter (\<lambda>(k, v). v \<noteq> JUndef) kvs))"
| "json_clone (JNum n) = (if num_finite n then JNum n else JNull)"
| "json_clone v = v"

text \<open>The values that JSON text can carry.\<close>

fun json_value :: "jsv \<Rightarrow> bool" where
  "json_value JUndef = False"
| "json_value (JNum n) = num_finite n"
| "json_value (JArr xs) = list_all json_value xs"
| "json_value (JObj kvs) = (jm_ok kvs \<and> list_all (\<lambda>(k, v). json_value v) kvs)"
| "json_value _ = True"

lemma json_value_JObj_iff:
  "json_value (JObj kvs) \<longleftrightarrow> jm_ok kvs \<and> (\<forall>k v. (k, v) \<in> set kvs \<longrightarrow> json_value v)"
  by (auto simp: list_all_iff)

lemma json_clone_id: "json_value v \<Longrightarrow> json_clone v = v"
proof (induction v rule: json_clone.induct)
  case (1 xs)
  then have "\<And>x. x \<in> set xs \<Longrightarrow> (if x = JUndef then JNull else json_clone x) = x"
    by (auto simp: list_all_iff)
  then show ?case by (simp add: map_idI)
next
  case (2 kvs)
  have "filter (\<lambda>(k, v). v \<noteq> JUndef) kvs = kvs"
    using 2(2) by (auto simp: list_all_iff intro!: filter_True)
  moreover have "map (\<lambda>(k, v). (k, json_clone v)) kvs = kvs"
  proof (rule map_idI)
    fix p assume p: "p \<in> set kvs"
    obtain k v where kv: "p = (k, v)" by (cases p)
    with p 2(2) have v: "json_value v" by (auto simp: list_all_iff)
    then have "p \<in> set (filter (\<lambda>(k, v). v \<noteq> JUndef) kvs)" using p kv by auto
    with 2(1) kv v have "json_clone v = v" by blast
    with kv show "(\<lambda>(k, v). (k, json_clone v)) p = p" by simp
  qed
  ultimately show ?case by simp
qed auto

subsection \<open>Paths of src/src/store.js\<close>

text \<open>\<open>pathParts\<close>: split at dots, trim each part, drop the empty ones.\<close>

definition pathParts :: "string \<Rightarrow> string list" where
  "pathParts path = filter (\<lambda>p. p \<noteq> []) (map js_trim (split_on CHR ''.'' path))"

fun set_parts :: "jobj \<Rightarrow> string list \<Rightarrow> jsv \<Rightarrow> jobj" where
  "set_parts kvs [] v = kvs"
| "set_parts kvs [k] v = jm_set k v kvs"
| "set_parts kvs (k # ks) v =
     jm_set k (JObj (set_parts (entries_of (oget kvs k)) ks v)) kvs"

text \<open>\<open>setPath\<close>: a path with no part leaves the value; a value that is no object becomes one.\<close>

definition setPath :: "jsv \<Rightarrow> string \<Rightarrow> jsv \<Rightarrow> jsv" where
  "setPath obj path v =
     (case pathParts path of [] \<Rightarrow> obj | parts \<Rightarrow> JObj (set_parts (entries_of obj) parts v))"

text \<open>
  \<open>unsetPathParts\<close>: the value without the path and whether it changed; an object left empty on
  the way is removed too.
\<close>

fun unset_parts :: "jsv \<Rightarrow> string list \<Rightarrow> jsv \<times> bool" where
  "unset_parts (JObj kvs) (key # ks) =
     (case map_of kvs key of
        None \<Rightarrow> (JObj kvs, False)
      | Some child \<Rightarrow>
          (if ks = [] then (JObj (jm_del key kvs), True)
           else (case unset_parts child ks of
                   (child', False) \<Rightarrow> (JObj kvs, False)
                 | (child', True) \<Rightarrow>
                     (if child' = JObj [] then (JObj (jm_del key kvs), True)
                      else (JObj (jm_set key child' kvs), True)))))"
| "unset_parts v ks = (v, False)"

definition unsetPath :: "jsv \<Rightarrow> string \<Rightarrow> jsv" where
  "unsetPath obj path =
     (case pathParts path of
        [] \<Rightarrow> obj
      | parts \<Rightarrow> (if is_obj obj then fst (unset_parts obj parts) else obj))"

definition pickPaths :: "jsv \<Rightarrow> string list \<Rightarrow> jsv" where
  "pickPaths v paths =
     foldl (\<lambda>out path. let current = getPathValue v path in
              if current = JUndef then out else setPath out path (json_clone current))
       (JObj []) paths"

definition unsetPaths :: "jsv \<Rightarrow> string list \<Rightarrow> jsv" where
  "unsetPaths v paths = foldl unsetPath (json_clone v) paths"

text \<open>
  \<open>mergePlainObjects\<close>: the overlay's entries written over the base, objects merged in depth.
\<close>

fun merge_entries :: "jobj \<Rightarrow> jobj \<Rightarrow> jobj" where
  "merge_entries out [] = out"
| "merge_entries out ((k, JObj sub) # rest) =
     (case map_of out k of
        Some (JObj base) \<Rightarrow> merge_entries (jm_set k (JObj (merge_entries base sub)) out) rest
      | _ \<Rightarrow> merge_entries (jm_set k (JObj sub) out) rest)"
| "merge_entries out ((k, v) # rest) = merge_entries (jm_set k v out) rest"

definition mergePlainObjects :: "jsv \<Rightarrow> jsv \<Rightarrow> jsv" where
  "mergePlainObjects base overlay = JObj (merge_entries (entries_of base) (entries_of overlay))"

subsection \<open>Integers among the values\<close>

text \<open>The share of one value in a sum of integers.\<close>

definition int_part :: "jsv \<Rightarrow> int" where
  "int_part v = (case v of JNum (Fin x) \<Rightarrow> \<lfloor>x\<rfloor> | _ \<Rightarrow> 0)"

definition small_int :: "int \<Rightarrow> jsv \<Rightarrow> bool" where
  "small_int B v \<longleftrightarrow> (\<forall>n. v = JNum n \<longrightarrow> (\<exists>z. n = num_of_int z \<and> \<bar>z\<bar> \<le> B))"

lemma int_part_of_int [simp]: "int_part (JNum (num_of_int z)) = z"
  by (simp add: int_part_def num_of_int_def)

lemma int_part_bound:
  assumes "small_int B v" and "0 \<le> B" shows "\<bar>int_part v\<bar> \<le> B"
proof (cases v)
  case (JNum n)
  with assms(1) obtain z where "n = num_of_int z" "\<bar>z\<bar> \<le> B" by (auto simp: small_int_def)
  with JNum show ?thesis by simp
qed (use assms(2) in \<open>simp_all add: int_part_def\<close>)

end
