(* ===== verification/Clock.thy ===== *)
theory Clock
  imports JsValue
begin

text \<open>
  The logical clock of src/src/clock.js and the contract of a last-writer-wins store.

  A timestamp is a counter and the id of the node that drew it; \<open>gt\<close> orders timestamps, a
  missing one being \<open>None\<close>. The locale \<open>strict_total\<close> states the order the clock promises and
  the locale \<open>lww_store\<close> what a store owes when it decides by that order alone:
  \<open>lww_convergence\<close> then says that the order in which operations arrive does not matter.
\<close>

record ts =
  tc :: nat
  tn :: string

record clock =
  clk_c :: nat
  clk_n :: string

definition makeClock :: "string \<Rightarrow> clock" where
  "makeClock node = \<lparr>clk_c = 0, clk_n = node\<rparr>"

definition nextTs :: "clock \<Rightarrow> ts \<times> clock" where
  "nextTs clk =
     (let clk' = clk\<lparr>clk_c := clk_c clk + 1\<rparr>
      in (\<lparr>tc = clk_c clk', tn = clk_n clk'\<rparr>, clk'))"

definition touch :: "clock \<Rightarrow> ts option \<Rightarrow> clock" where
  "touch clk t =
     (case t of
        None \<Rightarrow> clk
      | Some t \<Rightarrow> if clk_c clk < tc t then clk\<lparr>clk_c := tc t\<rparr> else clk)"

text \<open>\<open>gt a b\<close>: a missing \<open>a\<close> is greater than anything, as the code has it.\<close>

fun gt :: "ts option \<Rightarrow> ts option \<Rightarrow> bool" where
  "gt None b = True"
| "gt (Some a) None = True"
| "gt (Some a) (Some b) = (if tc a \<noteq> tc b then tc b < tc a else tn b < tn a)"

subsection \<open>The order of timestamps\<close>

locale strict_total =
  fixes newer :: "'t \<Rightarrow> 't \<Rightarrow> bool"
  assumes irrefl: "\<not> newer a a"
    and trans: "newer a b \<Longrightarrow> newer b c \<Longrightarrow> newer a c"
    and total: "newer a b \<or> a = b \<or> newer b a"
begin

lemma asym: "newer a b \<Longrightarrow> \<not> newer b a"
  using irrefl trans by blast

lemma not_newer_trans: "\<not> newer a b \<Longrightarrow> newer c b \<Longrightarrow> newer c a"
  using irrefl trans total by blast

lemma not_newer_iff: "\<not> newer a b \<longleftrightarrow> a = b \<or> newer b a"
  using irrefl trans total by blast

text \<open>The latest of some timestamps, and none when there are none.\<close>

fun latest :: "'t option \<Rightarrow> 't list \<Rightarrow> 't option" where
  "latest acc [] = acc"
| "latest acc (t # ts) =
     latest (case acc of None \<Rightarrow> Some t | Some u \<Rightarrow> if newer t u then Some t else Some u) ts"

definition top_of :: "'t set \<Rightarrow> 't \<Rightarrow> bool" where
  "top_of T t \<longleftrightarrow> t \<in> T \<and> (\<forall>u\<in>T. u \<noteq> t \<longrightarrow> newer t u)"

lemma top_of_unique: "top_of T a \<Longrightarrow> top_of T b \<Longrightarrow> a = b"
  unfolding top_of_def by (metis asym)

lemma latest_top:
  "top_of (set_option acc \<union> set ts) t \<Longrightarrow> latest acc ts = Some t"
proof (induction ts arbitrary: acc)
  case Nil
  then show ?case by (cases acc) (auto simp: top_of_def)
next
  case (Cons u ts)
  have "top_of (set_option (case acc of None \<Rightarrow> Some u | Some v \<Rightarrow> if newer u v then Some u else Some v)
      \<union> set ts) t"
  proof (cases acc)
    case None
    with Cons.prems show ?thesis by simp
  next
    case (Some v)
    have t: "t \<in> insert v (insert u (set ts))" "\<And>w. w \<in> insert v (insert u (set ts)) \<Longrightarrow> w \<noteq> t \<Longrightarrow> newer t w"
      using Cons.prems Some by (auto simp: top_of_def)
    show ?thesis
    proof (cases "newer u v")
      case True
      then have "t \<noteq> v" using t(2) [of u] irrefl asym by auto
      with t True Some show ?thesis by (auto simp: top_of_def)
    next
      case False
      then have "t = u \<Longrightarrow> u = v" using t(2) [of v] by auto
      with t False Some show ?thesis by (auto simp: top_of_def)
    qed
  qed
  then show ?case by (simp add: Cons.IH)
qed

lemma ex_top: "finite T \<Longrightarrow> T \<noteq> {} \<Longrightarrow> \<exists>t. top_of T t"
proof (induction rule: finite_ne_induct)
  case (insert a T)
  then obtain t where t: "top_of T t" by blast
  show ?case
  proof (cases "newer a t")
    case True
    with t have "top_of (insert a T) a" unfolding top_of_def by (metis insert_iff trans)
    then show ?thesis ..
  next
    case False
    with t have "top_of (insert a T) t"
      unfolding top_of_def using not_newer_iff by auto
    then show ?thesis ..
  qed
qed (auto simp: top_of_def)

end

text \<open>
  The contract of a keyed last-writer-wins store: \<open>step\<close> applies one operation; \<open>stamp\<close> is the
  timestamp that decided a key's present content and \<open>view\<close> that content. An operation
  whose timestamp is newer takes the key over, any other leaves it, and no operation touches
  another key.
\<close>

locale lww_store = strict_total newer
  for newer :: "'t \<Rightarrow> 't \<Rightarrow> bool" +
  fixes invar :: "'s \<Rightarrow> bool"
    and step :: "'s \<Rightarrow> 'op \<Rightarrow> 's"
    and valid :: "'op \<Rightarrow> bool"
    and key :: "'op \<Rightarrow> 'k"
    and time :: "'op \<Rightarrow> 't"
    and written :: "'op \<Rightarrow> 'v"
    and stamp :: "'s \<Rightarrow> 'k \<Rightarrow> 't option"
    and view :: "'s \<Rightarrow> 'k \<Rightarrow> 'v"
  assumes step_invar: "invar s \<Longrightarrow> valid p \<Longrightarrow> invar (step s p)"
    and step_accept: "invar s \<Longrightarrow> valid p \<Longrightarrow>
      (case stamp s (key p) of None \<Rightarrow> True | Some u \<Rightarrow> newer (time p) u) \<Longrightarrow>
      stamp (step s p) (key p) = Some (time p) \<and> view (step s p) (key p) = written p"
    and step_reject: "invar s \<Longrightarrow> valid p \<Longrightarrow> stamp s (key p) = Some u \<Longrightarrow> \<not> newer (time p) u \<Longrightarrow>
      stamp (step s p) (key p) = Some u \<and> view (step s p) (key p) = view s (key p)"
    and step_other: "invar s \<Longrightarrow> valid p \<Longrightarrow> k \<noteq> key p \<Longrightarrow>
      stamp (step s p) k = stamp s k \<and> view (step s p) k = view s k"
begin

definition ops_for :: "'k \<Rightarrow> 'op list \<Rightarrow> 'op list" where
  "ops_for k ps = filter (\<lambda>p. key p = k) ps"

lemma foldl_invar: "invar s \<Longrightarrow> \<forall>p\<in>set ps. valid p \<Longrightarrow> invar (foldl step s ps)"
  by (induction ps arbitrary: s) (auto simp: step_invar)

lemma stamp_foldl:
  "invar s \<Longrightarrow> \<forall>p\<in>set ps. valid p \<Longrightarrow>
   stamp (foldl step s ps) k = latest (stamp s k) (map time (ops_for k ps))"
proof (induction ps arbitrary: s)
  case (Cons p ps)
  have p: "valid p" and ps: "\<forall>p\<in>set ps. valid p" using Cons.prems(2) by auto
  have i: "invar (step s p)" using Cons.prems(1) p by (rule step_invar)
  show ?case
  proof (cases "key p = k")
    case False
    then have "stamp (step s p) k = stamp s k"
      using step_other [OF Cons.prems(1) p] by metis
    with Cons.IH [OF i ps] False show ?thesis by (simp add: ops_for_def)
  next
    case True
    have "stamp (step s p) k =
        (case stamp s k of None \<Rightarrow> Some (time p) | Some u \<Rightarrow> if newer (time p) u then Some (time p) else Some u)"
      using step_accept [OF Cons.prems(1) p] step_reject [OF Cons.prems(1) p] True
      by (auto split: option.splits)
    with Cons.IH [OF i ps] True show ?thesis by (simp add: ops_for_def)
  qed
qed (simp add: ops_for_def)

text \<open>After any run a key shows what the operation with the newest timestamp wrote.\<close>

lemma view_foldl:
  assumes "invar s" and "\<forall>p\<in>set ps. valid p"
    and inj: "\<forall>p\<in>set ps. \<forall>q\<in>set ps. key p = k \<and> key q = k \<and> time p = time q \<longrightarrow> written p = written q"
    and "p \<in> set ps" and "key p = k" and "stamp (foldl step s ps) k = Some (time p)"
    and "\<forall>u. stamp s k = Some u \<longrightarrow> u \<noteq> time p"
  shows "view (foldl step s ps) k = written p"
  using assms
proof (induction ps arbitrary: p rule: rev_induct)
  case (snoc q ps)
  let ?s = "foldl step s ps"
  have q: "valid q" and ps: "\<forall>p\<in>set ps. valid p" using snoc.prems(2) by auto
  have i: "invar ?s" using snoc.prems(1) ps by (rule foldl_invar)
  note final = snoc.prems(6)
  show ?case
  proof (cases "key q = k \<and> (case stamp ?s k of None \<Rightarrow> True | Some u \<Rightarrow> newer (time q) u)")
    case True
    with step_accept [OF i q] have "stamp (step ?s q) k = Some (time q)" "view (step ?s q) k = written q"
      by auto
    with final have "time q = time p" by simp
    with snoc.prems(3,4,5) True have "written q = written p" by auto
    with \<open>view (step ?s q) k = written q\<close> show ?thesis by simp
  next
    case False
    have same: "stamp (step ?s q) k = stamp ?s k \<and> view (step ?s q) k = view ?s k"
    proof (cases "key q = k")
      case True
      with False obtain u where "stamp ?s k = Some u" "\<not> newer (time q) u" by (auto split: option.splits)
      with step_reject [OF i q] True show ?thesis by metis
    next
      case False
      with step_other [OF i q] show ?thesis by metis
    qed
    with final have st: "stamp ?s k = Some (time p)" by simp
    have "\<exists>r\<in>set ps. key r = k \<and> time r = time p"
    proof (rule ccontr)
      assume none: "\<not> ?thesis"
      have "latest (stamp s k) (map time (ops_for k ps)) = Some (time p)"
        using stamp_foldl [OF snoc.prems(1) ps] st by simp
      moreover have "latest acc ts = Some t \<Longrightarrow> acc = Some t \<or> t \<in> set ts" for acc ts t
        by (induction ts arbitrary: acc) (auto split: option.splits if_splits)
      ultimately have "stamp s k = Some (time p) \<or> time p \<in> set (map time (ops_for k ps))" by blast
      with none snoc.prems(7) show False by (auto simp: ops_for_def)
    qed
    then obtain r where r: "r \<in> set ps" "key r = k" "time r = time p" by blast
    have "view ?s k = written r"
    proof (rule snoc.IH [OF snoc.prems(1) ps _ r(1,2)])
      show "\<forall>p\<in>set ps. \<forall>q\<in>set ps. key p = k \<and> key q = k \<and> time p = time q \<longrightarrow> written p = written q"
        using snoc.prems(3) by (metis in_set_conv_decomp_first Un_iff set_append)
      show "stamp ?s k = Some (time r)" using st r(3) by simp
      show "\<forall>u. stamp s k = Some u \<longrightarrow> u \<noteq> time r" using snoc.prems(7) r(3) by simp
    qed
    also have "written r = written p"
      using snoc.prems(3) snoc.prems(4,5) r by (metis UnCI set_append)
    finally show ?thesis using same by simp
  qed
qed simp

text \<open>
  Strong eventual consistency: two runs from one state, over the same operations in any order and with
  any repetition, agree on every key.
\<close>

lemma lww_convergence:
  assumes inv: "invar s" and same: "set ps = set qs" and val: "\<forall>p\<in>set ps. valid p"
    and inj: "\<forall>p\<in>set ps. \<forall>q\<in>set ps. key p = key q \<and> time p = time q \<longrightarrow> written p = written q"
    and fresh: "stamp s k = None"
  shows "stamp (foldl step s ps) k = stamp (foldl step s qs) k \<and>
         (\<forall>p\<in>set ps. key p = k \<longrightarrow> view (foldl step s ps) k = view (foldl step s qs) k)"
proof -
  let ?T = "time ` {p \<in> set ps. key p = k}"
  have val': "\<forall>p\<in>set qs. valid p" using val same by simp
  have ts: "set (map time (ops_for k ps)) = ?T" "set (map time (ops_for k qs)) = ?T"
    using same by (auto simp: ops_for_def)
  show ?thesis
  proof (cases "?T = {}")
    case True
    then have "ops_for k ps = []" "ops_for k qs = []" using same by (auto simp: ops_for_def filter_empty_conv)
    with True show ?thesis using stamp_foldl [OF inv val] stamp_foldl [OF inv val'] by auto
  next
    case False
    obtain t where t: "top_of ?T t" using ex_top [OF _ False] by auto
    have lp: "stamp (foldl step s ps) k = Some t" and lq: "stamp (foldl step s qs) k = Some t"
      using stamp_foldl [OF inv val, of k] stamp_foldl [OF inv val', of k] t ts fresh
      by (auto intro!: latest_top)
    from t obtain p where p: "p \<in> set ps" "key p = k" "time p = t" by (auto simp: top_of_def)
    have "view (foldl step s ps) k = written p"
      by (rule view_foldl [OF inv val _ p(1,2)]) (use fresh inj p(3) lp in \<open>metis | simp\<close>)+
    moreover have "view (foldl step s qs) k = written p"
      by (rule view_foldl [OF inv val' _ _ p(2)]) (use fresh inj p(1,3) lq same in \<open>metis | simp\<close>)+
    ultimately show ?thesis using lp lq by simp
  qed
qed

end

definition ts_newer :: "ts \<Rightarrow> ts \<Rightarrow> bool" where
  "ts_newer a b \<longleftrightarrow> gt (Some a) (Some b)"

lemma ts_newer_total: "ts_newer a b \<or> a = b \<or> ts_newer b a"
  by (cases a; cases b) (auto simp: ts_newer_def)

interpretation ts_order: strict_total ts_newer
proof (unfold_locales, goal_cases)
  case (1 a) show ?case by (simp add: ts_newer_def)
next
  case (2 a b c) then show ?case by (auto simp: ts_newer_def split: if_splits)
next
  case (3 a b) show ?case by (rule ts_newer_total)
qed

lemma touch_ge: "clk_c clk \<le> clk_c (touch clk t)"
  by (auto simp: touch_def split: option.splits)

lemma touch_covers: "tc t \<le> clk_c (touch clk (Some t))"
  by (simp add: touch_def)

lemma touch_node [simp]: "clk_n (touch clk t) = clk_n clk"
  by (auto simp: touch_def split: option.splits)



end
