(* ===== verification/Patch.thy ===== *)
theory Patch
  imports JsValue
begin

text \<open>
  The object patches of src/src/patch.js: \<open>$set\<close> writes values at dot-notation paths, \<open>$unset\<close>
  removes them, and the object's \<open>_id\<close> cannot be reached by either. Every \<open>throw\<close> of the code is a
  constructor of \<open>patch_error\<close>.
\<close>

datatype patch_error =
    PatchNotObject
  | UnsupportedPatchKey string
  | SetNotObject
  | UnsetNotPaths
  | EmptyPath
  | InvalidPath string
  | ProtectedRoot string

definition PROTECTED_ROOTS :: "string list" where
  "PROTECTED_ROOTS = [''_id'']"

definition assertPatchPath :: "jsv \<Rightarrow> patch_error + string list" where
  "assertPatchPath path =
     (case path of
        JStr s \<Rightarrow>
          (if s = [] then Inl EmptyPath
           else let parts = split_on CHR ''.'' s in
             if list_ex (\<lambda>p. p = []) parts then Inl (InvalidPath s)
             else if hd parts \<in> set PROTECTED_ROOTS then Inl (ProtectedRoot (hd parts))
             else Inr parts)
      | _ \<Rightarrow> Inl EmptyPath)"

text \<open>The cursor walk of \<open>setPath\<close>: a step that finds no plain object puts an empty one there.\<close>

fun patch_set :: "jobj \<Rightarrow> string list \<Rightarrow> jsv \<Rightarrow> jobj" where
  "patch_set target [] v = target"
| "patch_set target [k] v = jm_set k v target"
| "patch_set target (k # ks) v =
     jm_set k (JObj (patch_set (entries_of (oget target k)) ks v)) target"

text \<open>The cursor walk of \<open>unsetPath\<close>: it returns where it meets something that is no plain object.\<close>

fun patch_unset :: "jobj \<Rightarrow> string list \<Rightarrow> jobj" where
  "patch_unset target [] = target"
| "patch_unset target [k] = jm_del k target"
| "patch_unset target (k # ks) =
     (case map_of target k of
        Some (JObj child) \<Rightarrow> jm_set k (JObj (patch_unset child ks)) target
      | _ \<Rightarrow> target)"

definition patch_setPath :: "jobj \<Rightarrow> string \<times> jsv \<Rightarrow> patch_error + jobj" where
  "patch_setPath target = (\<lambda>(path, v).
     res_bind (assertPatchPath (JStr path)) (\<lambda>parts. Inr (patch_set target parts v)))"

definition patch_unsetPath :: "jobj \<Rightarrow> jsv \<Rightarrow> patch_error + jobj" where
  "patch_unsetPath target path =
     res_bind (assertPatchPath path) (\<lambda>parts. Inr (patch_unset target parts))"

definition assertSupportedPatchKeys :: "jobj \<Rightarrow> patch_error + unit" where
  "assertSupportedPatchKeys patch =
     (case find (\<lambda>k. k \<noteq> ''$set'' \<and> k \<noteq> ''$unset'') (map fst patch) of
        None \<Rightarrow> Inr ()
      | Some k \<Rightarrow> Inl (UnsupportedPatchKey k))"

definition unset_paths :: "jsv \<Rightarrow> patch_error + jsv list" where
  "unset_paths v =
     (case v of
        JUndef \<Rightarrow> Inr []
      | JArr xs \<Rightarrow> Inr xs
      | JObj kvs \<Rightarrow> Inr (map (\<lambda>(k, _). JStr k) kvs)
      | _ \<Rightarrow> Inl UnsetNotPaths)"

text \<open>\<open>patch.$set ?? {}\<close>, which has to be a plain object.\<close>

definition set_entries :: "jsv \<Rightarrow> patch_error + jobj" where
  "set_entries v =
     (case v of
        JUndef \<Rightarrow> Inr []
      | JNull \<Rightarrow> Inr []
      | JObj kvs \<Rightarrow> Inr kvs
      | _ \<Rightarrow> Inl SetNotObject)"

definition applyPatchToObject :: "jobj option \<Rightarrow> jsv \<Rightarrow> patch_error + jobj" where
  "applyPatchToObject current patch =
     (case patch of
        JObj kvs \<Rightarrow>
          res_bind (assertSupportedPatchKeys kvs) (\<lambda>_.
          let base = jm_del ''_id'' (case current of None \<Rightarrow> [] | Some c \<Rightarrow> c) in
          res_bind (set_entries (oget kvs ''$set'')) (\<lambda>entries.
          res_bind (res_fold patch_setPath base entries) (\<lambda>mid.
          res_bind (unset_paths (oget kvs ''$unset'')) (\<lambda>paths.
          res_fold patch_unsetPath mid paths))))
      | _ \<Rightarrow> Inl PatchNotObject)"

definition patchUnsetsPath :: "jsv \<Rightarrow> string \<Rightarrow> patch_error + bool" where
  "patchUnsetsPath patch path =
     (if path = [] \<or> \<not> is_obj patch then Inr False
      else res_bind (unset_paths (jprop patch ''$unset'')) (\<lambda>ps. Inr (JStr path \<in> set ps)))"

subsection \<open>Reading what a patch wrote\<close>

text \<open>The value at a path through plain objects.\<close>

fun look :: "jobj \<Rightarrow> string list \<Rightarrow> jsv option" where
  "look kvs [] = Some (JObj kvs)"
| "look kvs [k] = map_of kvs k"
| "look kvs (k # ks) =
     (case map_of kvs k of Some (JObj child) \<Rightarrow> look child ks | _ \<Rightarrow> None)"

definition diverge :: "string list \<Rightarrow> string list \<Rightarrow> bool" where
  "diverge p q \<longleftrightarrow> take (length p) q \<noteq> p \<and> take (length q) p \<noteq> q"

lemma diverge_Cons: "diverge (a # p) (b # q) \<longleftrightarrow> a \<noteq> b \<or> diverge p q"
  by (auto simp: diverge_def)

lemma diverge_Nil [simp]: "\<not> diverge [] q" "\<not> diverge p []"
  by (auto simp: diverge_def)

lemma look_patch_set: "ks \<noteq> [] \<Longrightarrow> look (patch_set t ks v) ks = Some v"
  by (induction t ks v rule: patch_set.induct) auto

lemma look_empty: "ks \<noteq> [] \<Longrightarrow> look [] ks = None"
  by (cases "([] :: jobj, ks)" rule: look.cases) auto

lemma look_Cons: "ks \<noteq> [] \<Longrightarrow>
    look kvs (k # ks) = look (entries_of (oget kvs k)) ks"
  by (cases ks) (auto simp: oget_def look_empty split: option.splits jsv.splits)

lemma look_patch_set_other: "diverge ks q \<Longrightarrow> look (patch_set t ks v) q = look t q"
proof (induction t ks v arbitrary: q rule: patch_set.induct)
  case (2 t k v)
  then obtain k' q' where q: "q = k' # q'" by (cases q) auto
  with 2 show ?case by (cases "q' = []") (auto simp: diverge_Cons look_Cons)
next
  case (3 t k k2 ks v)
  then obtain k' q' where q: "q = k' # q'" by (cases q) auto
  with 3 show ?case by (cases "q' = []") (auto simp: diverge_Cons look_Cons)
qed auto

lemma look_patch_unset: "ks \<noteq> [] \<Longrightarrow> look (patch_unset t ks) ks = None"
proof (induction t ks rule: patch_unset.induct)
  case (3 t k k2 ks)
  show ?case
  proof (cases "map_of t k")
    case (Some c)
    with 3 show ?thesis by (cases c) (auto simp: look_Cons oget_def look_empty)
  qed (simp add: look_Cons oget_def look_empty)
qed auto

lemma look_patch_unset_other: "diverge ks q \<Longrightarrow> look (patch_unset t ks) q = look t q"
proof (induction t ks arbitrary: q rule: patch_unset.induct)
  case (2 t k)
  then obtain k' q' where q: "q = k' # q'" by (cases q) auto
  with 2 show ?case by (cases "q' = []") (auto simp: diverge_Cons look_Cons)
next
  case (3 t k k2 ks)
  then obtain k' q' where q: "q = k' # q'" by (cases q) auto
  show ?case
  proof (cases "map_of t k")
    case (Some c)
    with 3 q show ?thesis
      by (cases c; cases "q' = []") (auto simp: diverge_Cons look_Cons oget_def)
  qed simp
qed auto

lemma assertPatchPath_parts:
  "assertPatchPath p = Inr parts \<Longrightarrow> parts \<noteq> [] \<and> hd parts \<noteq> ''_id'' \<and> (\<forall>x\<in>set parts. x \<noteq> [])"
  by (auto simp: assertPatchPath_def PROTECTED_ROOTS_def Let_def list_ex_iff split: jsv.splits if_splits)

lemma assertPatchPath_str:
  "assertPatchPath p = Inr parts \<Longrightarrow> \<exists>s. p = JStr s \<and> parts = split_on CHR ''.'' s"
  by (auto simp: assertPatchPath_def Let_def split: jsv.splits if_splits)

lemma patch_set_root: "hd ks \<noteq> r \<Longrightarrow> map_of (patch_set t ks v) r = map_of t r"
  by (induction t ks v rule: patch_set.induct) auto

lemma patch_unset_root: "hd ks \<noteq> r \<Longrightarrow> map_of (patch_unset t ks) r = map_of t r"
  by (induction t ks rule: patch_unset.induct) (auto split: option.splits jsv.splits)

lemma patch_setPath_id: "patch_setPath t (p, v) = Inr t' \<Longrightarrow> map_of t' ''_id'' = map_of t ''_id''"
  using patch_set_root assertPatchPath_parts by (auto simp: patch_setPath_def res_bind_Inr)

lemma patch_unsetPath_id: "patch_unsetPath t p = Inr t' \<Longrightarrow> map_of t' ''_id'' = map_of t ''_id''"
  using patch_unset_root assertPatchPath_parts by (auto simp: patch_unsetPath_def res_bind_Inr)

lemma patch_setPath_look:
  "patch_setPath t pv = Inr t' \<Longrightarrow> diverge (split_on CHR ''.'' (fst pv)) q \<Longrightarrow> look t' q = look t q"
  by (auto simp: patch_setPath_def res_bind_Inr look_patch_set_other split: prod.splits dest!: assertPatchPath_str)

lemma patch_unsetPath_look:
  "patch_unsetPath t p = Inr t' \<Longrightarrow> \<forall>s. p = JStr s \<longrightarrow> diverge (split_on CHR ''.'' s) q \<Longrightarrow>
   look t' q = look t q"
  by (auto simp: patch_unsetPath_def res_bind_Inr look_patch_unset_other dest!: assertPatchPath_str)

lemma applyPatch_cases:
  assumes "applyPatchToObject current (JObj kvs) = Inr next"
  obtains entries mid paths where
    "\<forall>k\<in>set (map fst kvs). k = ''$set'' \<or> k = ''$unset''"
    "set_entries (oget kvs ''$set'') = Inr entries"
    "unset_paths (oget kvs ''$unset'') = Inr paths"
    "res_fold patch_setPath (jm_del ''_id'' (case current of None \<Rightarrow> [] | Some c \<Rightarrow> c)) entries = Inr mid"
    "res_fold patch_unsetPath mid paths = Inr next"
  using assms
  by (auto simp: applyPatchToObject_def res_bind_Inr Let_def assertSupportedPatchKeys_def find_None_iff
      split: option.splits)

subsection \<open>Properties\<close>

text \<open>C20: A patch never writes or keeps the object's identity: whatever the patch sets or unsets, the object it
produces has no \<open>_id\<close> of its own, so the caller's id stays the object's id.\<close>

theorem patch_protects_id:
  assumes "applyPatchToObject current patch = Inr next"
  shows "map_of next ''_id'' = None"
proof -
  obtain kvs where p: "patch = JObj kvs"
    using assms by (cases patch) (auto simp: applyPatchToObject_def)
  from assms [unfolded p] obtain entries mid paths where
    s: "res_fold patch_setPath (jm_del ''_id'' (case current of None \<Rightarrow> [] | Some c \<Rightarrow> c)) entries = Inr mid"
    and u: "res_fold patch_unsetPath mid paths = Inr next"
    by (rule applyPatch_cases)
  have "map_of mid ''_id'' = None"
    by (rule res_fold_invariant [OF s]) (auto simp: patch_setPath_id)
  with u show ?thesis
    by (rule res_fold_invariant) (auto simp: patch_unsetPath_id)
qed

theorem patch_protects_id_witness:
  "\<exists>next. applyPatchToObject (Some [(''_id'', JStr ''x''), (''a'', JNull)])
      (JObj [(''$set'', JObj [(''b.c'', JBool True)])]) = Inr next \<and> map_of next ''_id'' = None"
proof -
  have "applyPatchToObject (Some [(''_id'', JStr ''x''), (''a'', JNull)])
      (JObj [(''$set'', JObj [(''b.c'', JBool True)])])
    = Inr [(''a'', JNull), (''b'', JObj [(''c'', JBool True)])]"
    by code_simp
  with patch_protects_id [OF this] show ?thesis by blast
qed



text \<open>Exactly which patches are rejected: a patch succeeds if and only if it is a plain object with no key but
\<open>$set\<close> and \<open>$unset\<close>, \<open>$set\<close> is a plain object (or absent), \<open>$unset\<close> an array or object (or absent), and every path
in them is a non-empty dot-notation path with no empty part that does not start at \<open>_id\<close>.\<close>

theorem patch_accepted_iff:
  "(\<exists>next. applyPatchToObject current patch = Inr next) \<longleftrightarrow>
   (\<exists>kvs entries paths. patch = JObj kvs \<and> list_all (\<lambda>k. k = ''$set'' \<or> k = ''$unset'') (map fst kvs) \<and>
      set_entries (oget kvs ''$set'') = Inr entries \<and> unset_paths (oget kvs ''$unset'') = Inr paths \<and>
      list_all (\<lambda>p. \<exists>parts. assertPatchPath (JStr p) = Inr parts) (map fst entries) \<and>
      list_all (\<lambda>p. \<exists>parts. assertPatchPath p = Inr parts) paths)"
proof -
  have sets: "(\<exists>t'. res_fold patch_setPath t es = Inr t') \<longleftrightarrow>
      list_all (\<lambda>p. \<exists>parts. assertPatchPath (JStr p) = Inr parts) (map fst es)" for t es
  proof -
    have "(\<exists>t'. res_fold patch_setPath t es = Inr t') \<longleftrightarrow>
        (\<forall>(p, v)\<in>set es. \<exists>parts. assertPatchPath (JStr p) = Inr parts)"
      by (rule res_fold_total) (auto simp: patch_setPath_def res_bind_Inr)
    then show ?thesis by (auto simp: list_all_iff)
  qed
  have unsets: "(\<exists>t'. res_fold patch_unsetPath t ps = Inr t') \<longleftrightarrow>
      list_all (\<lambda>p. \<exists>parts. assertPatchPath p = Inr parts) ps" for t ps
    unfolding list_all_iff by (rule res_fold_total) (auto simp: patch_unsetPath_def res_bind_Inr)
  show ?thesis
  proof (cases patch)
    case (JObj kvs)
    have "(\<exists>next. applyPatchToObject current (JObj kvs) = Inr next) \<longleftrightarrow>
        assertSupportedPatchKeys kvs = Inr () \<and>
        (\<exists>entries paths. set_entries (oget kvs ''$set'') = Inr entries \<and>
          unset_paths (oget kvs ''$unset'') = Inr paths \<and>
          (\<exists>mid. res_fold patch_setPath (jm_del ''_id'' (case current of None \<Rightarrow> [] | Some c \<Rightarrow> c)) entries = Inr mid \<and>
             (\<exists>next. res_fold patch_unsetPath mid paths = Inr next)))"
      by (auto simp: applyPatchToObject_def res_bind_Inr Let_def)
    also have "assertSupportedPatchKeys kvs = Inr () \<longleftrightarrow>
        list_all (\<lambda>k. k = ''$set'' \<or> k = ''$unset'') (map fst kvs)"
      by (auto simp: list_all_iff assertSupportedPatchKeys_def find_None_iff find_Some_iff split: option.splits)
    finally show ?thesis using JObj sets unsets by auto
  qed (auto simp: applyPatchToObject_def)
qed

end
