(* ===== verification/JsText.thy ===== *)
theory JsText
  imports JsValue
begin

text \<open>
  The text JavaScript gives a value: \<open>String(value)\<close>, \<open>Number(value)\<close>, \<open>JSON.stringify\<close> and the \<open>stableKey\<close> of
  src/src/query.js, which is the JSON text of the value with every object's keys sorted. The number
  texts and the collation are those of the host.
\<close>

subsection \<open>JSON.stringify\<close>

definition json_char :: "char \<Rightarrow> string" where
  "json_char c =
     (let n = (of_char c :: nat) in
      if n = 34 then [char_of (92 :: nat), char_of (34 :: nat)]
      else if n = 92 then [char_of (92 :: nat), char_of (92 :: nat)]
      else if n = 8 then [char_of (92 :: nat), CHR ''b'']
      else if n = 9 then [char_of (92 :: nat), CHR ''t'']
      else if n = 10 then [char_of (92 :: nat), CHR ''n'']
      else if n = 12 then [char_of (92 :: nat), CHR ''f'']
      else if n = 13 then [char_of (92 :: nat), CHR ''r'']
      else if n < 32 then [char_of (92 :: nat)] @ ''u00'' @ [hex_digit (n div 16), hex_digit (n mod 16)]
      else [c])"

definition json_quote :: "string \<Rightarrow> string" where
  "json_quote s = [char_of (34 :: nat)] @ concat (map json_char s) @ [char_of (34 :: nat)]"

text \<open>The text of a value that is not \<open>undefined\<close>; properties that are \<open>undefined\<close> are left out.\<close>

fun json_text :: "host \<Rightarrow> jsv \<Rightarrow> string" where
  "json_text h JUndef = ''null''"
| "json_text h JNull = ''null''"
| "json_text h (JBool b) = (if b then ''true'' else ''false'')"
| "json_text h (JNum n) = (if num_finite n then numToStr h n else ''null'')"
| "json_text h (JStr s) = json_quote s"
| "json_text h (JArr xs) = ''['' @ join_with '','' (map (json_text h) xs) @ '']''"
| "json_text h (JObj kvs) =
     ''{'' @ join_with '','' (map (\<lambda>(k, v). json_quote k @ '':'' @ json_text h v)
                              (filter (\<lambda>(k, v). v \<noteq> JUndef) kvs)) @ ''}''"

definition json_stringify :: "host \<Rightarrow> jsv \<Rightarrow> string option" where
  "json_stringify h v = (if v = JUndef then None else Some (json_text h v))"

text \<open>A result that is put in a template string: \<open>undefined\<close> shows as its name.\<close>

definition shown :: "string option \<Rightarrow> string" where
  "shown s = (case s of None \<Rightarrow> ''undefined'' | Some t \<Rightarrow> t)"

subsection \<open>stableKey\<close>

fun sortForKey :: "host \<Rightarrow> jsv \<Rightarrow> jsv" where
  "sortForKey h (JArr xs) = JArr (map (sortForKey h) xs)"
| "sortForKey h (JObj kvs) =
     JObj (map (\<lambda>(k, v). (k, sortForKey h v)) (js_sort (\<lambda>a b. localeCompare h (fst a) (fst b)) kvs))"
| "sortForKey h v = v"

definition stableKey :: "host \<Rightarrow> jsv \<Rightarrow> string option" where
  "stableKey h v = json_stringify h (sortForKey h v)"

lemma sortForKey_not_undef [simp]: "sortForKey h v = JUndef \<longleftrightarrow> v = JUndef"
  by (cases v) auto

text \<open>Two values are the same to the directory of values and to the indexes when their stable keys are equal.\<close>

definition same_key :: "host \<Rightarrow> jsv \<Rightarrow> jsv \<Rightarrow> bool" where
  "same_key h v w \<longleftrightarrow> stableKey h v = stableKey h w"

lemma same_key_refl [simp]: "same_key h v v"
  by (simp add: same_key_def)

lemma same_key_text: "same_key h v w \<Longrightarrow> json_text h (sortForKey h v) = json_text h (sortForKey h w)"
  by (auto simp: same_key_def stableKey_def json_stringify_def split: if_splits)

lemma same_key_undef: "same_key h v w \<Longrightarrow> v = JUndef \<longleftrightarrow> w = JUndef"
  by (auto simp: same_key_def stableKey_def json_stringify_def split: if_splits)

lemma same_key_JArr:
  assumes "list_all2 (same_key h) xs ys"
  shows "same_key h (JArr xs) (JArr ys)"
proof -
  have "map (json_text h) (map (sortForKey h) xs) = map (json_text h) (map (sortForKey h) ys)"
    using assms by (induction rule: list_all2_induct) (simp_all add: same_key_text)
  then show ?thesis by (simp add: same_key_def stableKey_def json_stringify_def)
qed

lemma js_insert_rel:
  assumes "list_all2 (rel_prod (=) R) kvs kws" and "rel_prod (=) R p q"
  shows "list_all2 (rel_prod (=) R) (js_insert (\<lambda>a b. c (fst a) (fst b)) p kvs)
           (js_insert (\<lambda>a b. c (fst a) (fst b)) q kws)"
  using assms by (induction rule: list_all2_induct) (auto simp: rel_prod.simps)

lemma js_sort_rel:
  "list_all2 (rel_prod (=) R) kvs kws \<Longrightarrow>
   list_all2 (rel_prod (=) R) (js_sort (\<lambda>a b. c (fst a) (fst b)) kvs) (js_sort (\<lambda>a b. c (fst a) (fst b)) kws)"
  by (induction rule: list_all2_induct) (auto intro: js_insert_rel)

lemma same_key_JObj:
  assumes "list_all2 (rel_prod (=) (same_key h)) kvs kws"
  shows "same_key h (JObj kvs) (JObj kws)"
proof -
  let ?sort = "js_sort (\<lambda>a b. localeCompare h (fst a) (fst b))"
  let ?line = "map (\<lambda>(k, v). json_quote k @ '':'' @ json_text h v)"
  let ?defined = "filter (\<lambda>(k, v). v \<noteq> JUndef)"
  have "?line (?defined (map (\<lambda>(k, v). (k, sortForKey h v)) (?sort kvs))) =
      ?line (?defined (map (\<lambda>(k, v). (k, sortForKey h v)) (?sort kws)))"
    using js_sort_rel [OF assms]
  proof (induction rule: list_all2_induct)
    case (Cons p ps q qs)
    then obtain k v w where "p = (k, v)" "q = (k, w)" "same_key h v w" by (cases p; cases q) auto
    with Cons same_key_undef [of h v w] show ?case by (simp add: same_key_text)
  qed simp
  then show ?thesis by (simp add: same_key_def stableKey_def json_stringify_def)
qed

subsection \<open>String(value) and Number(value)\<close>

fun js_to_string :: "host \<Rightarrow> jsv \<Rightarrow> string" where
  "js_to_string h JUndef = ''undefined''"
| "js_to_string h JNull = ''null''"
| "js_to_string h (JBool b) = (if b then ''true'' else ''false'')"
| "js_to_string h (JNum n) = numToStr h n"
| "js_to_string h (JStr s) = s"
| "js_to_string h (JArr xs) =
     join_with '','' (map (\<lambda>x. if nullish x then [] else js_to_string h x) xs)"
| "js_to_string h (JObj kvs) = ''[object Object]''"

fun js_to_number :: "host \<Rightarrow> jsv \<Rightarrow> jsnum" where
  "js_to_number h JUndef = NaN"
| "js_to_number h JNull = Fin 0"
| "js_to_number h (JBool b) = Fin (if b then 1 else 0)"
| "js_to_number h (JNum n) = n"
| "js_to_number h (JStr s) = strToNum h s"
| "js_to_number h (JArr xs) = strToNum h (js_to_string h (JArr xs))"
| "js_to_number h (JObj kvs) = NaN"

text \<open>\<open>ToPrimitive\<close>: arrays and objects turn into their text.\<close>

definition to_primitive :: "host \<Rightarrow> jsv \<Rightarrow> jsv" where
  "to_primitive h v = (if is_obj v \<or> is_arr v then JStr (js_to_string h v) else v)"

text \<open>The relational operator \<open><\<close> (no order when a side is \<open>NaN\<close>), and \<open><=\<close>.\<close>

definition js_less :: "host \<Rightarrow> jsv \<Rightarrow> jsv \<Rightarrow> bool" where
  "js_less h a b =
     (case (to_primitive h a, to_primitive h b) of
        (JStr s, JStr t) \<Rightarrow> s < t
      | (p, q) \<Rightarrow> num_lt (js_to_number h p) (js_to_number h q))"

definition js_less_eq :: "host \<Rightarrow> jsv \<Rightarrow> jsv \<Rightarrow> bool" where
  "js_less_eq h a b =
     (case (to_primitive h a, to_primitive h b) of
        (JStr s, JStr t) \<Rightarrow> s \<le> t
      | (p, q) \<Rightarrow> num_le (js_to_number h p) (js_to_number h q))"

text \<open>
  \<open>===\<close> on primitive values; arrays and objects are compared by identity in JavaScript, and two
  values of the model are never the same object.
\<close>

fun strict_eq :: "jsv \<Rightarrow> jsv \<Rightarrow> bool" where
  "strict_eq JUndef JUndef = True"
| "strict_eq JNull JNull = True"
| "strict_eq (JBool a) (JBool b) = (a = b)"
| "strict_eq (JNum a) (JNum b) = num_eq a b"
| "strict_eq (JStr a) (JStr b) = (a = b)"
| "strict_eq _ _ = False"

text \<open>\<open>Object.is\<close> on primitive values.\<close>

fun same_value :: "jsv \<Rightarrow> jsv \<Rightarrow> bool" where
  "same_value JUndef JUndef = True"
| "same_value JNull JNull = True"
| "same_value (JBool a) (JBool b) = (a = b)"
| "same_value (JNum a) (JNum b) = (a = b)"
| "same_value (JStr a) (JStr b) = (a = b)"
| "same_value _ _ = False"

text \<open>\<open>==\<close> on primitive values.\<close>

fun loose_eq :: "host \<Rightarrow> jsv \<Rightarrow> jsv \<Rightarrow> bool" where
  "loose_eq h (JStr a) (JStr b) = (a = b)"
| "loose_eq h a b =
     (if nullish a \<or> nullish b then nullish a \<and> nullish b
      else num_eq (js_to_number h a) (js_to_number h b))"

lemma strict_eq_same_value: "strict_eq a b \<Longrightarrow> same_value a b"
  by (cases "(a, b)" rule: strict_eq.cases) (auto simp: num_eq_def)

lemma same_value_iff: "same_value a b \<longleftrightarrow> a = b \<and> \<not> is_arr a \<and> \<not> is_obj a"
  by (cases "(a, b)" rule: same_value.cases) auto

subsection \<open>A host\<close>

text \<open>
  A host for the witnesses: collation by code unit, decimal integers, no dates, regular expressions that are
  substrings, ASCII lower case, the identity as UTF-8 and as compression.
\<close>

fun nat_digits :: "nat \<Rightarrow> nat \<Rightarrow> string" where
  "nat_digits 0 n = []"
| "nat_digits (Suc fuel) n =
     (if n < 10 then [char_of (48 + n)] else nat_digits fuel (n div 10) @ [char_of (48 + n mod 10)])"

definition plain_number :: "jsnum \<Rightarrow> string" where
  "plain_number n =
     (case n of
        NaN \<Rightarrow> ''NaN'' | PInf \<Rightarrow> ''Infinity'' | NInf \<Rightarrow> ''-Infinity''
      | Fin q \<Rightarrow> (if q < 0 then ''-'' else []) @ nat_digits 400 (nat \<bar>\<lfloor>q\<rfloor>\<bar>))"

definition plain_lower :: "char \<Rightarrow> char" where
  "plain_lower c = (let n = (of_char c :: nat) in if 65 \<le> n \<and> n \<le> 90 then char_of (n + 32) else c)"

definition plain_host :: host where
  "plain_host =
     \<lparr>localeCompare = (\<lambda>a b. if a = b then 0 else if a < b then - 1 else 1),
      numToStr = plain_number,
      strToNum = (\<lambda>s. if s \<noteq> [] \<and> list_all is_digit s then num_of_nat (digits_value s) else if s = [] then Fin 0 else NaN),
      dateParse = (\<lambda>s. NaN),
      regexTest = (\<lambda>source flags s. contains_str source s),
      toLower = map plain_lower,
      jsonParse = (\<lambda>s. JUndef),
      encodeUtf8 = map of_char,
      decodeUtf8 = map char_of,
      compress = (\<lambda>bs. bs),
      decompress = (\<lambda>bs. bs)\<rparr>"

end
