(* ===== verification/Query.thy ===== *)
theory Query
  imports JsText
begin

text \<open>
  The query language of src/src/query.js: \<open>matchesQuery\<close> with its logical keys, \<open>matchesConstraint\<close> with
  every operator, loose equality, null tests, sort comparison and the paging helpers.

  Values are JSON values and \<open>undefined\<close>, so the branches for \<open>RegExp\<close>, \<open>Date\<close> and function operands are
  those a JSON query takes: \<open>$cb\<close> and \<open>$where\<close> never hold and \<open>$regex\<close> builds its expression from strings
  (\<open>regexTest\<close> of the host; an invalid pattern, at which \<open>RegExp\<close> throws, is outside the model).
\<close>

definition rhsOperators :: "string list" where
  "rhsOperators =
     [''$cb'', ''$deepEquals'', ''$eq'', ''$equal'', ''$ne'', ''$not'', ''$nor'', ''$and'', ''$or'', ''$any'',
      ''$all'', ''$null'', ''$in'', ''$likeI'', ''$like'', ''$startsWith'', ''$endsWith'', ''$elemMatch'',
      ''$contains'', ''$nin'', ''$regex'', ''$gte'', ''$gt'', ''$lt'', ''$lte'', ''$before'', ''$after'',
      ''$type'', ''$size'', ''$mod'', ''$between'', ''$exists'']"

definition queryControls :: "string list" where
  "queryControls =
     [''$aggregate'', ''$cursor'', ''$limit'', ''$offset'', ''$page'', ''$pageSize'', ''$refDepth'', ''$skip'',
      ''$sort'', ''$vector'']"

subsection \<open>Comparisons\<close>

definition isNullishConstraint :: "jsv \<Rightarrow> bool" where
  "isNullishConstraint v \<longleftrightarrow> v = JStr [] \<or> v = JNull \<or> v = JUndef"

fun nullOperator :: "jsv \<Rightarrow> bool" where
  "nullOperator (JStr s) = (s = [])"
| "nullOperator JNull = True"
| "nullOperator JUndef = True"
| "nullOperator (JArr xs) = list_all nullOperator xs"
| "nullOperator _ = False"

definition existsOperator :: "jsv \<Rightarrow> jsv \<Rightarrow> bool" where
  "existsOperator v expected \<longleftrightarrow> (\<not> nullish v) = truthy expected"

fun equal_val :: "host \<Rightarrow> jsv \<Rightarrow> jsv \<Rightarrow> bool" where
  "equal_val h (JArr xs) right = list_ex (\<lambda>e. equal_val h e right) xs"
| "equal_val h left right =
     (if same_value left right then True
      else if isNullishConstraint right then nullOperator left
      else if isNullishConstraint left then False
      else if is_obj left \<or> is_obj right \<or> is_arr right then stableKey h left = stableKey h right
      else loose_eq h left right)"

definition compareSortValues :: "host \<Rightarrow> jsv \<Rightarrow> jsv \<Rightarrow> int" where
  "compareSortValues h left right =
     (if same_value left right then 0
      else if nullish left then 1
      else if nullish right then -1
      else (case (left, right) of
              (JNum a, JNum b) \<Rightarrow> num_cmp a b
            | _ \<Rightarrow> localeCompare h (js_to_string h left) (js_to_string h right)))"

subsection \<open>Operators without sub-queries\<close>

definition values_of :: "jsv \<Rightarrow> jsv list" where
  "values_of v = (case v of JArr xs \<Rightarrow> xs | _ \<Rightarrow> [v])"

definition stringList :: "jsv \<Rightarrow> string list" where
  "stringList v = List.map_filter (\<lambda>x. case x of JStr s \<Rightarrow> Some s | _ \<Rightarrow> None) (values_of v)"

definition likeOperator :: "host \<Rightarrow> jsv \<Rightarrow> jsv \<Rightarrow> bool \<Rightarrow> bool" where
  "likeOperator h actual expected ignoreCase =
     (let lower = (if ignoreCase then toLower h else (\<lambda>s. s)); needle = lower (js_to_string h expected)
      in list_ex (\<lambda>s. contains_str needle (lower s)) (stringList actual))"

definition contains :: "host \<Rightarrow> jsv \<Rightarrow> jsv \<Rightarrow> bool" where
  "contains h actual expected =
     (case actual of
        JStr s \<Rightarrow> contains_str (js_to_string h expected) s
      | JArr xs \<Rightarrow> list_ex (\<lambda>e. equal_val h e expected) xs
      | _ \<Rightarrow> False)"

definition resolveOperand :: "host \<Rightarrow> jsv \<Rightarrow> jsv" where
  "resolveOperand h v =
     (if is_obj v \<and> jprop v ''$date'' \<noteq> JUndef
      then JNum (dateParse h (js_to_string h (jprop v ''$date''))) else v)"

definition dateComparable :: "host \<Rightarrow> jsv \<Rightarrow> jsv" where
  "dateComparable h v = (case v of JStr s \<Rightarrow> JNum (dateParse h s) | _ \<Rightarrow> v)"

definition beforeAfter :: "host \<Rightarrow> jsv \<Rightarrow> jsv \<Rightarrow> bool \<Rightarrow> bool" where
  "beforeAfter h actual operand before =
     (case (dateComparable h actual, dateComparable h (resolveOperand h operand)) of
        (JNum l, JNum r) \<Rightarrow>
          num_finite l \<and> num_finite r \<and> (if before then num_le l r else num_le r l)
      | _ \<Rightarrow> False)"

definition op_gt :: "host \<Rightarrow> jsv \<Rightarrow> jsv \<Rightarrow> bool" where
  "op_gt h actual operand \<longleftrightarrow> \<not> nullOperator actual \<and> js_less h (resolveOperand h operand) actual"

definition op_gte :: "host \<Rightarrow> jsv \<Rightarrow> jsv \<Rightarrow> bool" where
  "op_gte h actual operand \<longleftrightarrow> \<not> nullOperator actual \<and> js_less_eq h (resolveOperand h operand) actual"

definition op_lt :: "host \<Rightarrow> jsv \<Rightarrow> jsv \<Rightarrow> bool" where
  "op_lt h actual operand \<longleftrightarrow> \<not> nullOperator actual \<and> js_less h actual (resolveOperand h operand)"

definition op_lte :: "host \<Rightarrow> jsv \<Rightarrow> jsv \<Rightarrow> bool" where
  "op_lte h actual operand \<longleftrightarrow> \<not> nullOperator actual \<and> js_less_eq h actual (resolveOperand h operand)"

definition typeOf :: "jsv \<Rightarrow> string" where
  "typeOf v = (if is_arr v then ''array'' else js_typeof v)"

definition sizeOf :: "jsv \<Rightarrow> jsnum" where
  "sizeOf v =
     (case v of
        JStr s \<Rightarrow> num_of_nat (length s)
      | JArr xs \<Rightarrow> num_of_nat (length xs)
      | JObj kvs \<Rightarrow> num_of_nat (length kvs)
      | _ \<Rightarrow> NaN)"

text \<open>The remainder operator \<open>%\<close>: the sign of the dividend, \<open>NaN\<close> for a zero divisor.\<close>

fun num_rem :: "jsnum \<Rightarrow> jsnum \<Rightarrow> jsnum" where
  "num_rem (Fin a) (Fin b) =
     (if b = 0 then NaN
      else let q = a / b; t = (if 0 \<le> q then \<lfloor>q\<rfloor> else \<lceil>q\<rceil>) in Fin (a - b * of_int t))"
| "num_rem (Fin a) b = (if b = NaN then NaN else Fin a)"
| "num_rem _ _ = NaN"

definition op_mod :: "host \<Rightarrow> jsv \<Rightarrow> jsv \<Rightarrow> bool" where
  "op_mod h actual operand =
     (case operand of
        JArr (m # r # _) \<Rightarrow> loose_eq h (JNum (num_rem (js_to_number h actual) (js_to_number h m))) (to_primitive h r)
      | _ \<Rightarrow> False)"

text \<open>The pattern and the flags of a regular expression.\<close>

definition or_else :: "host \<Rightarrow> jsv \<Rightarrow> jsv \<Rightarrow> string" where
  "or_else h a b = (if truthy a then js_to_string h a else if truthy b then js_to_string h b else [])"

definition regexFromLegacySpec :: "host \<Rightarrow> jobj \<Rightarrow> string \<times> string" where
  "regexFromLegacySpec h spec =
     (case oget spec ''$regex'' of
        JObj r \<Rightarrow>
          (if is_str (oget r ''pattern'')
           then (js_to_string h (oget r ''pattern''), or_else h (oget r ''flags'') (oget spec ''$options''))
           else (js_to_string h (JObj r), or_else h (oget spec ''$options'') JUndef))
      | v \<Rightarrow> (js_to_string h v, or_else h (oget spec ''$options'') JUndef))"

definition regexFromOperand :: "host \<Rightarrow> jsv \<Rightarrow> (string \<times> string) option" where
  "regexFromOperand h operand =
     (case operand of
        JStr s \<Rightarrow> Some (s, [])
      | JObj r \<Rightarrow>
          (if is_str (oget r ''pattern'')
           then Some (js_to_string h (oget r ''pattern''), or_else h (oget r ''flags'') JUndef) else None)
      | _ \<Rightarrow> None)"

definition regexMatches :: "host \<Rightarrow> jsv \<Rightarrow> (string \<times> string) option \<Rightarrow> bool" where
  "regexMatches h actual regex =
     (case regex of
        None \<Rightarrow> False
      | Some (pattern, flags) \<Rightarrow>
          list_ex (\<lambda>v. regexTest h pattern flags (js_to_string h v)) (values_of actual))"

subsection \<open>matchesQuery and matchesConstraint\<close>

definition logicalConstraints :: "jsv \<Rightarrow> jsv list" where
  "logicalConstraints v =
     (case v of
        JArr xs \<Rightarrow> xs
      | JObj kvs \<Rightarrow> map (\<lambda>(k, c). JObj [(k, c)]) kvs
      | _ \<Rightarrow> [])"

lemma size_elem: "x \<in> set (elems_of v) \<Longrightarrow> size x < size v"
  by (cases v) (auto simp: less_Suc_eq_le dest: size_list_estimation' [where f = size, OF _ order_refl])

lemma size_field: "(k, v) \<in> set kvs \<Longrightarrow> size v + 2 \<le> size_list (size_prod (\<lambda>_. 0) size) kvs"
  by (induction kvs) auto

lemma size_oget: "size (oget kvs k) \<le> size_list (size_prod (\<lambda>_. 0) size) kvs"
  by (auto simp: oget_def split: option.splits dest!: map_of_SomeD size_field)

lemma size_constraint: "c \<in> set (logicalConstraints e) \<Longrightarrow> size c \<le> size e"
proof (cases e)
  case (JArr xs)
  then show "c \<in> set (logicalConstraints e) \<Longrightarrow> size c \<le> size e"
    using size_elem [of c e] by (simp add: logicalConstraints_def)
next
  case (JObj kvs)
  then show "c \<in> set (logicalConstraints e) \<Longrightarrow> size c \<le> size e"
    by (auto simp: logicalConstraints_def dest!: size_field)
qed (auto simp: logicalConstraints_def)

lemma size_ops: "3 * size_list (size_prod (\<lambda>_. 0) size) kvs + 1 < 3 * size (JObj kvs) + 2"
  by simp

lemma size_op_head: "3 * size (v :: jsv) + 3 < 3 * size_list (size_prod (\<lambda>_. 0) size) ((k, v) # kvs) + 1"
  by simp

lemma size_op_tail: "3 * size_list (size_prod (\<lambda>_. 0) size) kvs + 1 <
    3 * size_list (size_prod (\<lambda>_. 0) size) ((k, v :: jsv) # kvs) + 1"
  by simp

lemma size_constraints: "oget kvs k = JArr cs \<Longrightarrow> c \<in> set cs \<Longrightarrow> size c < size (JObj kvs)"
  using size_oget [of kvs k] size_elem [of c "JArr cs"] by simp

lemma size_arr: "c \<in> set cs \<Longrightarrow> size c < size (JArr cs)"
  using size_elem [of c "JArr cs"] by simp

lemma size_sub5: "3 * size (oget kvs k) + 2 < 3 * size (JObj kvs) + 5"
  using size_oget [of kvs k] by simp

lemma size_entry: "p \<in> set kvs \<Longrightarrow> (k, v) = p \<Longrightarrow> size v + 2 < size (JObj kvs)"
  using size_field [of k v kvs] by simp

text \<open>
  The loop of \<open>matchesConstraint\<close> over the operators of an object: the first key that is no operator makes the
  whole object a value to compare with; the first operator that fails ends it.
\<close>

function (sequential) matchesQuery :: "host \<Rightarrow> jsv \<Rightarrow> jsv \<Rightarrow> bool"
  and matchesEntry :: "host \<Rightarrow> jsv \<Rightarrow> string \<Rightarrow> jsv \<Rightarrow> bool"
  and matchesConstraint :: "host \<Rightarrow> jsv \<Rightarrow> jsv \<Rightarrow> bool"
  and matchesOperators :: "host \<Rightarrow> jsv \<Rightarrow> jsv \<Rightarrow> jobj \<Rightarrow> bool"
  and matchesOperator :: "host \<Rightarrow> string \<Rightarrow> jsv \<Rightarrow> jsv \<Rightarrow> bool"
where
  "matchesQuery h obj q =
     (case q of
        JUndef \<Rightarrow> True
      | JObj kvs \<Rightarrow> list_all (\<lambda>(path, expected). path \<in> set queryControls \<or> matchesEntry h obj path expected) kvs
      | _ \<Rightarrow> False)"
| "matchesEntry h obj path expected =
     (if path = ''$and'' then list_all (\<lambda>c. matchesQuery h obj c) (logicalConstraints expected)
      else if path = ''$or'' then list_ex (\<lambda>c. matchesQuery h obj c) (logicalConstraints expected)
      else if path = ''$nor'' then \<not> list_ex (\<lambda>c. matchesQuery h obj c) (logicalConstraints expected)
      else if path = ''$not'' then \<not> matchesQuery h obj expected
      else if path = ''$count'' then
        (case expected of
           JObj kvs \<Rightarrow>
             (case oget kvs ''$constraints'' of
                JArr cs \<Rightarrow>
                  matchesConstraint h (JNum (num_of_nat (length (filter (\<lambda>c. matchesQuery h obj c) cs))))
                    (oget kvs ''$constraint'')
              | _ \<Rightarrow> False)
         | _ \<Rightarrow> False)
      else if path = ''$where'' then False
      else matchesConstraint h (getPathValue obj path) expected)"
| "matchesConstraint h actual expected =
     (if strict_eq expected actual then True
      else (case expected of
              JArr xs \<Rightarrow> list_ex (\<lambda>v. list_ex (\<lambda>c. matchesConstraint h v c) xs) (values_of actual)
            | JObj kvs \<Rightarrow>
                (if oget kvs ''$regex'' \<noteq> JUndef
                 then regexMatches h actual (Some (regexFromLegacySpec h kvs))
                 else matchesOperators h actual expected kvs)
            | _ \<Rightarrow>
                (if is_arr actual then list_ex (\<lambda>e. equal_val h e expected) (elems_of actual)
                 else if isNullishConstraint expected then nullOperator actual
                 else equal_val h actual expected)))"
| "matchesOperators h actual expected [] = True"
| "matchesOperators h actual expected ((operator, operand) # rest) =
     (if operator \<notin> set rhsOperators then equal_val h actual expected
      else if \<not> matchesOperator h operator actual operand then False
      else matchesOperators h actual expected rest)"
| "matchesOperator h operator actual operand =
     (if operator = ''$cb'' then False
      else if operator = ''$deepEquals'' then stableKey h actual = stableKey h operand
      else if operator = ''$eq'' \<or> operator = ''$equal'' then equal_val h actual operand
      else if operator = ''$ne'' \<or> operator = ''$not'' then \<not> matchesConstraint h actual operand
      else if operator = ''$nor'' then
        \<not> (is_arr operand \<and>
             list_ex (\<lambda>v. list_ex (\<lambda>c. matchesConstraint h v c) (elems_of operand)) (values_of actual))
      else if operator = ''$and'' \<or> operator = ''$all'' then
        is_arr operand \<and> list_all (\<lambda>c. matchesConstraint h actual c) (elems_of operand)
      else if operator = ''$or'' \<or> operator = ''$any'' \<or> operator = ''$in'' then
        is_arr operand \<and>
          list_ex (\<lambda>v. list_ex (\<lambda>c. matchesConstraint h v c) (elems_of operand)) (values_of actual)
      else if operator = ''$null'' then (if truthy operand then nullOperator actual else \<not> nullOperator actual)
      else if operator = ''$likeI'' then likeOperator h actual operand True
      else if operator = ''$like'' then likeOperator h actual operand False
      else if operator = ''$startsWith'' then
        list_ex (\<lambda>s. starts_with (js_to_string h operand) s) (stringList actual)
      else if operator = ''$endsWith'' then
        list_ex (\<lambda>s. ends_with (js_to_string h operand) s) (stringList actual)
      else if operator = ''$elemMatch'' then
        is_arr actual \<and> list_ex (\<lambda>e. matchesQuery h e operand) (elems_of actual)
      else if operator = ''$contains'' then contains h actual operand
      else if operator = ''$nin'' then
        \<not> (is_arr operand \<and>
             list_ex (\<lambda>v. list_ex (\<lambda>c. matchesConstraint h v c) (elems_of operand)) (values_of actual))
      else if operator = ''$regex'' then regexMatches h actual (regexFromOperand h operand)
      else if operator = ''$gte'' then op_gte h actual operand
      else if operator = ''$gt'' then op_gt h actual operand
      else if operator = ''$lt'' then op_lt h actual operand
      else if operator = ''$lte'' then op_lte h actual operand
      else if operator = ''$before'' then beforeAfter h actual operand True
      else if operator = ''$after'' then beforeAfter h actual operand False
      else if operator = ''$type'' then operand = JStr (typeOf actual)
      else if operator = ''$size'' then num_eq (sizeOf actual) (js_to_number h operand)
      else if operator = ''$mod'' then op_mod h actual operand
      else if operator = ''$between'' then
        (case operand of
           JArr (lo # hi # _) \<Rightarrow> op_gt h actual lo \<and> op_lt h actual hi
         | _ \<Rightarrow> False)
      else if operator = ''$exists'' then existsOperator actual operand
      else False)"
  by pat_completeness auto
termination
  apply (relation "measure (\<lambda>x. case x of
        Inl (Inl (h, obj, q)) \<Rightarrow> 3 * size q + 2
      | Inl (Inr (h, obj, path, e)) \<Rightarrow> 3 * size e + 5
      | Inr (Inl (h, a, e)) \<Rightarrow> 3 * size e + 2
      | Inr (Inr (Inl (h, a, e, kvs))) \<Rightarrow> 3 * size_list (size_prod (\<lambda>_. 0) size) kvs + 1
      | Inr (Inr (Inr (h, p, a, x))) \<Rightarrow> 3 * size x + 3)")
                     apply (rule wf_measure)
                    apply (simp_all only: in_measure sum.case prod.case)
                   apply (auto dest!: size_field) [1]
                  apply (linarith | (drule size_constraint, linarith) | (drule size_constraints, assumption, linarith)
      | rule size_sub5 | (drule size_arr, linarith) | (drule size_elem, linarith)
      | rule size_ops size_op_head size_op_tail)+
  done

declare matchesQuery.simps [simp del] matchesEntry.simps [simp del] matchesConstraint.simps [simp del]
  matchesOperators.simps(2) [simp del] matchesOperator.simps [simp del]

subsection \<open>Controls, sort orders and pages\<close>

definition stripQueryControls :: "jsv \<Rightarrow> jsv" where
  "stripQueryControls q =
     (case q of
        JUndef \<Rightarrow> JObj []
      | JObj kvs \<Rightarrow> JObj (filter (\<lambda>(k, v). k \<notin> set queryControls) kvs)
      | _ \<Rightarrow> q)"

definition splitQueryControls :: "jsv \<Rightarrow> jobj \<times> jobj" where
  "splitQueryControls q =
     (filter (\<lambda>(k, v). k \<notin> set queryControls) (entries_of q),
      filter (\<lambda>(k, v). k \<in> set queryControls) (entries_of q))"

record sort_spec =
  sortBy :: string
  sortDesc :: bool

definition parseQuerySort :: "jsv \<Rightarrow> sort_spec option" where
  "parseQuerySort v =
     (case v of
        JStr [] \<Rightarrow> None
      | JStr (c # s) \<Rightarrow>
          (if c = CHR ''-'' then Some \<lparr>sortBy = s, sortDesc = True\<rparr>
           else Some \<lparr>sortBy = (if c = CHR ''+'' then s else c # s), sortDesc = False\<rparr>)
      | JObj ((field, direction) # _) \<Rightarrow>
          (if field = [] then None
           else Some \<lparr>sortBy = field,
                      sortDesc = (direction = JNum (num_of_int (-1)) \<or> direction = JStr ''desc'')\<rparr>)
      | _ \<Rightarrow> None)"

definition queryInteger :: "host \<Rightarrow> jsv \<Rightarrow> nat option" where
  "queryInteger h v =
     (if nullish v \<or> v = JStr [] then None
      else (case js_to_number h v of
              Fin r \<Rightarrow> if 0 \<le> r then Some (nat \<lfloor>r\<rfloor>) else None
            | _ \<Rightarrow> None))"

fun firstQueryInteger :: "host \<Rightarrow> jsv list \<Rightarrow> nat option" where
  "firstQueryInteger h [] = None"
| "firstQueryInteger h (v # vs) =
     (case queryInteger h v of Some n \<Rightarrow> Some n | None \<Rightarrow> firstQueryInteger h vs)"

definition queryPageOffset :: "host \<Rightarrow> jsv \<Rightarrow> nat option \<Rightarrow> nat option" where
  "queryPageOffset h page pageSize =
     (case (queryInteger h page, pageSize) of
        (Some p, Some n) \<Rightarrow> Some ((p - 1) * n)
      | _ \<Rightarrow> None)"

subsection \<open>The query language's own laws\<close>

lemma matchesQuery_JObj:
  "matchesQuery h obj (JObj kvs) =
     (\<forall>(k, v)\<in>set kvs. k \<in> set queryControls \<or> matchesEntry h obj k v)"
  by (auto simp: matchesQuery.simps list_all_iff)

lemma matchesQuery_undef [simp]: "matchesQuery h obj JUndef"
  by (simp add: matchesQuery.simps)

lemma matchesQuery_empty [simp]: "matchesQuery h obj (JObj [])"
  by (simp add: matchesQuery_JObj)

lemma matchesQuery_not_object: "\<not> is_obj q \<Longrightarrow> q \<noteq> JUndef \<Longrightarrow> \<not> matchesQuery h obj q"
  by (cases q) (auto simp: matchesQuery.simps)

lemma queryControls_logic [simp]:
  "''$and'' \<notin> set queryControls" "''$or'' \<notin> set queryControls"
  "''$nor'' \<notin> set queryControls" "''$not'' \<notin> set queryControls"
  by (simp_all add: queryControls_def)

lemma matchesEntry_and: "matchesEntry h obj ''$and'' e = list_all (matchesQuery h obj) (logicalConstraints e)"
  by (simp add: matchesEntry.simps)

lemma matchesEntry_or: "matchesEntry h obj ''$or'' e = list_ex (matchesQuery h obj) (logicalConstraints e)"
  by (simp add: matchesEntry.simps)

lemma matchesQuery_and: "matchesQuery h obj (JObj [(''$and'', JArr qs)]) = (\<forall>q\<in>set qs. matchesQuery h obj q)"
  by (simp add: matchesQuery_JObj matchesEntry_and logicalConstraints_def list_all_iff)

lemma matchesQuery_or: "matchesQuery h obj (JObj [(''$or'', JArr qs)]) = (\<exists>q\<in>set qs. matchesQuery h obj q)"
  by (simp add: matchesQuery_JObj matchesEntry_or logicalConstraints_def list_ex_iff)

lemma matchesQuery_strip: "matchesQuery h obj (stripQueryControls q) = matchesQuery h obj q"
  by (cases q) (auto simp: stripQueryControls_def matchesQuery_JObj matchesQuery_not_object)

lemma dollar_path: "\<not> starts_with ''$'' path \<Longrightarrow> (path = CHR ''$'' # s) = False"
  by (auto simp: starts_with_def)

lemma field_path: "\<not> starts_with ''$'' path \<Longrightarrow>
    path \<notin> set queryControls \<and> matchesEntry h obj path e = matchesConstraint h (getPathValue obj path) e"
  by (simp only: matchesEntry.simps queryControls_def dollar_path if_False list.set insert_iff empty_iff simp_thms)

lemma matchesQuery_field: "\<not> starts_with ''$'' path \<Longrightarrow>
    matchesQuery h obj (JObj [(path, e)]) = matchesConstraint h (getPathValue obj path) e"
  by (simp add: matchesQuery_JObj field_path)

end
