(* ===== verification/Permissions.thy ===== *)
theory Permissions
  imports Query
begin

text \<open>
  The permission rules of src/src/permissions.js: a user's rules are normalised (a malformed list counts as no
  rules), a rule permits an operation code on the objects its query matches, collection grants and the
  administrator bypass go before the rules, and \<open>mergeReadPermissionQuery\<close> turns the read rules into a query.
  \<open>merged_query_sound\<close> is the contract between the two: the query that is run returns an object only if \<open>canRead\<close>
  grants it.
\<close>

datatype perm_error =
    PermissionsNotArray
  | RuleNotObject
  | RuleQueryNotObject
  | RuleQueryControl string
  | CollectionPermissionsNotObject
  | CollectionPermissionKey string
  | CollectionNamesInvalid string

record rule =
  r_name :: "string option"
  r_query :: jobj
  r_perm :: string

definition VALID_PERMS :: "char list" where
  "VALID_PERMS = ''crud''"

definition QUERY_CONTROLS :: "string list" where
  "QUERY_CONTROLS =
     [''$aggregate'', ''$cursor'', ''$limit'', ''$offset'', ''$page'', ''$pageSize'', ''$refDepth'', ''$skip'',
      ''$sort'', ''$vector'']"

fun keep_perms :: "string \<Rightarrow> string \<Rightarrow> string" where
  "keep_perms chars [] = chars"
| "keep_perms chars (ch # raw) =
     (if ch \<notin> set VALID_PERMS \<or> ch \<in> set chars then keep_perms chars raw else keep_perms (chars @ [ch]) raw)"

definition normalizePerm :: "host \<Rightarrow> jsv \<Rightarrow> string" where
  "normalizePerm h v =
     (let raw = (case v of JStr s \<Rightarrow> toLower h (js_trim s) | _ \<Rightarrow> [])
      in if raw = ''*'' then ''*'' else keep_perms [] raw)"

text \<open>A rule without permissions is dropped (\<open>null\<close> in the code, filtered out by the caller).\<close>

definition normalizeRule :: "host \<Rightarrow> jsv \<Rightarrow> perm_error + rule option" where
  "normalizeRule h v =
     (case v of
        JObj kvs \<Rightarrow>
          (let perm = normalizePerm h (oget kvs ''perm'') in
           if perm = [] then Inr None
           else (case (if oget kvs ''query'' = JUndef then JObj [] else oget kvs ''query'') of
                   JObj q \<Rightarrow>
                     (case find (\<lambda>k. k \<in> set QUERY_CONTROLS) (map fst q) of
                        Some k \<Rightarrow> Inl (RuleQueryControl k)
                      | None \<Rightarrow>
                          Inr (Some \<lparr>r_name = (case oget kvs ''name'' of JStr s \<Rightarrow> if s = [] then None else Some s | _ \<Rightarrow> None),
                                     r_query = q, r_perm = perm\<rparr>))
                 | _ \<Rightarrow> Inl RuleQueryNotObject))
      | _ \<Rightarrow> Inl RuleNotObject)"

definition normalizePermissions :: "host \<Rightarrow> jsv \<Rightarrow> perm_error + rule list" where
  "normalizePermissions h v =
     (case v of
        JUndef \<Rightarrow> Inr []
      | JNull \<Rightarrow> Inr []
      | JArr xs \<Rightarrow> res_bind (res_map (normalizeRule h) xs) (\<lambda>rs. Inr (List.map_filter (\<lambda>r. r) rs))
      | _ \<Rightarrow> Inl PermissionsNotArray)"

definition normalizeNames :: "jobj \<Rightarrow> string \<Rightarrow> perm_error + string list" where
  "normalizeNames kvs key =
     (case (if oget kvs key = JUndef then JArr [] else oget kvs key) of
        JArr xs \<Rightarrow>
          res_bind (res_map (\<lambda>x. case x of
                        JStr s \<Rightarrow> if js_trim s = [] then Inl (CollectionNamesInvalid key) else Inr s
                      | _ \<Rightarrow> Inl (CollectionNamesInvalid key)) xs)
            (\<lambda>names. Inr (js_unique names))
      | _ \<Rightarrow> Inl (CollectionNamesInvalid key))"

definition normalizeCollectionPermissions :: "jsv \<Rightarrow> perm_error + string list \<times> string list" where
  "normalizeCollectionPermissions v =
     (case v of
        JUndef \<Rightarrow> Inr ([], [])
      | JObj kvs \<Rightarrow>
          (case find (\<lambda>k. k \<noteq> ''read'' \<and> k \<noteq> ''write'') (map fst kvs) of
             Some k \<Rightarrow> Inl (CollectionPermissionKey k)
           | None \<Rightarrow>
               res_bind (normalizeNames kvs ''read'') (\<lambda>rd.
               res_bind (normalizeNames kvs ''write'') (\<lambda>wr. Inr (rd, wr))))
      | _ \<Rightarrow> Inl CollectionPermissionsNotObject)"

subsection \<open>Decisions\<close>

text \<open>The caller of an operation: \<open>None\<close> is an internal call without a user.\<close>

type_synonym principal = "jobj option"

definition isPermissionBypass :: "principal \<Rightarrow> bool" where
  "isPermissionBypass user =
     (case user of
        None \<Rightarrow> False
      | Some u \<Rightarrow>
          oget u ''admin'' = JBool True \<or>
          (oget u ''globalUser'' = JBool True \<and> oget u ''role'' = JStr ''admin''))"

definition hasCollectionPermission :: "principal \<Rightarrow> string \<Rightarrow> string option \<Rightarrow> bool" where
  "hasCollectionPermission user operation collection =
     (case user of
        None \<Rightarrow> True
      | Some u \<Rightarrow>
          if isPermissionBypass user then True
          else (case collection of
                  None \<Rightarrow> False
                | Some c \<Rightarrow>
                    c \<noteq> [] \<and>
                    (case jprop (oget u ''collectionPermissions'') operation of
                       JArr names \<Rightarrow> JStr c \<in> set names
                     | _ \<Rightarrow> False)))"

definition rulesFor :: "host \<Rightarrow> principal \<Rightarrow> rule list" where
  "rulesFor h user =
     (case user of
        None \<Rightarrow> [\<lparr>r_name = None, r_query = [], r_perm = ''*''\<rparr>]
      | Some u \<Rightarrow>
          if isPermissionBypass user then [\<lparr>r_name = None, r_query = [], r_perm = ''*''\<rparr>]
          else (case normalizePermissions h (oget u ''permissions'') of Inl e \<Rightarrow> [] | Inr rs \<Rightarrow> rs))"

definition permits :: "rule \<Rightarrow> string \<Rightarrow> bool" where
  "permits r code \<longleftrightarrow> r_perm r = ''*'' \<or> contains_str code (r_perm r)"

definition isAllowAllRule :: "rule \<Rightarrow> bool" where
  "isAllowAllRule r \<longleftrightarrow> r_perm r = ''*'' \<and> r_query r = []"

definition matchesPermissionQuery :: "host \<Rightarrow> rule \<Rightarrow> jsv \<Rightarrow> bool" where
  "matchesPermissionQuery h r obj \<longleftrightarrow>
     isAllowAllRule r \<or> (truthy obj \<and> matchesQuery h obj (JObj (r_query r)))"

definition OP_CODES :: "string \<Rightarrow> string" where
  "OP_CODES operation =
     (if operation = ''create'' then ''c'' else if operation = ''read'' then ''r''
      else if operation = ''update'' then ''u'' else if operation = ''delete'' then ''d'' else operation)"

definition can :: "host \<Rightarrow> principal \<Rightarrow> string \<Rightarrow> jsv \<Rightarrow> string option \<Rightarrow> bool" where
  "can h user operation obj collection =
     (let code = OP_CODES operation;
          action = (if code = ''r'' then Some ''read'' else if code \<in> {''c'', ''u'', ''d''} then Some ''write'' else None)
      in (case action of None \<Rightarrow> False | Some a \<Rightarrow> hasCollectionPermission user a collection) \<or>
         list_ex (\<lambda>r. permits r code \<and> matchesPermissionQuery h r obj) (rulesFor h user))"

definition canCreate :: "host \<Rightarrow> principal \<Rightarrow> jsv \<Rightarrow> string option \<Rightarrow> bool" where
  "canCreate h user obj collection = can h user ''create'' obj collection"

definition canRead :: "host \<Rightarrow> principal \<Rightarrow> jsv \<Rightarrow> string option \<Rightarrow> bool" where
  "canRead h user obj collection = can h user ''read'' obj collection"

definition canUpdate :: "host \<Rightarrow> principal \<Rightarrow> jsv \<Rightarrow> jsv \<Rightarrow> string option \<Rightarrow> bool" where
  "canUpdate h user before after collection =
     (can h user ''update'' before collection \<and> can h user ''update'' after collection)"

definition canDelete :: "host \<Rightarrow> principal \<Rightarrow> jsv \<Rightarrow> string option \<Rightarrow> bool" where
  "canDelete h user obj collection = can h user ''delete'' obj collection"

definition readRules :: "host \<Rightarrow> principal \<Rightarrow> rule list" where
  "readRules h user = filter (\<lambda>r. permits r ''r'') (rulesFor h user)"

text \<open>The merged query; \<open>None\<close> when reading is denied altogether.\<close>

definition mergeReadPermissionQuery :: "host \<Rightarrow> jsv \<Rightarrow> principal \<Rightarrow> string option \<Rightarrow> jsv option" where
  "mergeReadPermissionQuery h criteria user collection =
     (let own = (if truthy criteria then criteria else JObj []); rules = readRules h user in
      if hasCollectionPermission user ''read'' collection then Some own
      else if list_ex isAllowAllRule rules then Some own
      else if rules = [] then None
      else let authQuery = (case rules of
                              [r] \<Rightarrow> JObj (r_query r)
                            | _ \<Rightarrow> JObj [(''$or'', JArr (map (\<lambda>r. JObj (r_query r)) rules))])
           in if own = JObj [] then Some authQuery
              else Some (JObj [(''$and'', JArr [criteria, authQuery])]))"

subsection \<open>Properties\<close>

lemma normalizeRule_perm: "normalizeRule h v = Inr (Some r) \<Longrightarrow> r_perm r \<noteq> []"
  by (auto simp: normalizeRule_def Let_def split: jsv.splits option.splits if_splits)

lemma keep_perms_valid: "set chars \<subseteq> set VALID_PERMS \<Longrightarrow> distinct chars \<Longrightarrow>
    set (keep_perms chars raw) \<subseteq> set VALID_PERMS \<and> distinct (keep_perms chars raw)"
  by (induction raw arbitrary: chars) auto

lemma authQuery_matches:
  assumes "rules \<noteq> []"
  shows "matchesQuery h obj (case rules of [r] \<Rightarrow> JObj (r_query r)
      | _ \<Rightarrow> JObj [(''$or'', JArr (map (\<lambda>r. JObj (r_query r)) rules))]) \<longleftrightarrow>
    (\<exists>r\<in>set rules. matchesQuery h obj (JObj (r_query r)))"
  using assms by (auto simp: matchesQuery_or split: list.splits)

lemma can_read_iff:
  "canRead h user obj collection \<longleftrightarrow>
     hasCollectionPermission user ''read'' collection \<or>
     (\<exists>r\<in>set (readRules h user). matchesPermissionQuery h r obj)"
  by (auto simp: canRead_def can_def OP_CODES_def readRules_def list_ex_iff)

text \<open>C10: Queries cannot read past the permissions: the query built from a user's criteria and read rules
matches a stored object exactly when the criteria match it and \<open>canRead\<close> grants it, and when no query is built
the user may read no object.\<close>

theorem merged_query_sound:
  assumes obj: "truthy obj" and crit: "is_obj criteria \<or> criteria = JUndef"
  shows "case mergeReadPermissionQuery h criteria user collection of
           Some q \<Rightarrow> matchesQuery h obj q \<longleftrightarrow> matchesQuery h obj criteria \<and> canRead h user obj collection
         | None \<Rightarrow> \<not> canRead h user obj collection"
proof -
  let ?own = "if truthy criteria then criteria else JObj []"
  let ?rules = "readRules h user"
  have own: "matchesQuery h obj ?own = matchesQuery h obj criteria"
    using crit by (cases criteria) auto
  show ?thesis
  proof (cases "hasCollectionPermission user ''read'' collection \<or> list_ex isAllowAllRule ?rules")
    case True
    then have "canRead h user obj collection"
      by (auto simp: can_read_iff list_ex_iff matchesPermissionQuery_def)
    with True own show ?thesis by (auto simp: mergeReadPermissionQuery_def Let_def)
  next
    case False
    have rd: "canRead h user obj collection \<longleftrightarrow> (\<exists>r\<in>set ?rules. matchesQuery h obj (JObj (r_query r)))"
      using False obj by (auto simp: can_read_iff matchesPermissionQuery_def list_ex_iff)
    show ?thesis
    proof (cases "?rules = []")
      case True
      with False rd show ?thesis by (simp add: mergeReadPermissionQuery_def Let_def)
    next
      case ne: False
      show ?thesis
      proof (cases "?own = JObj []")
        case True
        with own have "matchesQuery h obj criteria" by simp
        with True False ne rd show ?thesis
          by (auto simp: mergeReadPermissionQuery_def Let_def authQuery_matches)
      next
        case own': False
        with False ne rd show ?thesis
          by (simp add: mergeReadPermissionQuery_def Let_def matchesQuery_and authQuery_matches)
      qed
    qed
  qed
qed

theorem merged_query_sound_witness:
  "matchesQuery plain_host (JObj [(''a'', JBool True), (''b'', JNull)]) (JObj [(''a'', JBool True)]) \<and>
   canRead plain_host
     (Some [(''permissions'', JArr [JObj [(''perm'', JStr ''R''), (''query'', JObj [(''a'', JBool True)])]])])
     (JObj [(''a'', JBool True), (''b'', JNull)]) (Some ''c'')"
proof -
  let ?user = "Some [(''permissions'', JArr [JObj [(''perm'', JStr ''R''), (''query'', JObj [(''a'', JBool True)])]])]"
  let ?obj = "JObj [(''a'', JBool True), (''b'', JNull)]"
  have q: "mergeReadPermissionQuery plain_host (JObj []) ?user (Some ''c'') = Some (JObj [(''a'', JBool True)])"
    by code_simp
  have m: "matchesQuery plain_host ?obj (JObj [(''a'', JBool True)])"
    by code_simp
  show ?thesis
    using merged_query_sound [of ?obj "JObj []" plain_host ?user "Some ''c''"] q m by simp
qed

end
