(* ===== verification/RowStore.thy ===== *)
theory RowStore
  imports JsText
begin

text \<open>
  The interface between a collection and its physical row store (src/src/store.js, \<open>createPhysicalStore\<close>): the
  collection only calls \<open>rebuild\<close>, \<open>removeObject\<close>, \<open>clear\<close> and \<open>read\<close>. Both engines, the row store of
  object-store.js and the columnar store of shape.js, promise the laws of the locale \<open>row_store\<close>; the locale derives
  that any run of operations behaves like a finite map from ids to rows.

  The engines share equal values between rows, so what is read back is the value written up to an equivalence
  \<open>same\<close>; \<open>agree\<close> extends it to rows, whose field order an engine may change.
\<close>

definition agree :: "(jsv \<Rightarrow> jsv \<Rightarrow> bool) \<Rightarrow> jobj \<Rightarrow> jobj \<Rightarrow> bool" where
  "agree same row live \<longleftrightarrow> (\<forall>f. rel_option same (map_of row f) (map_of live f))"

lemma agree_refl: "(\<And>v. same v v) \<Longrightarrow> agree same row row"
  by (simp add: agree_def option.rel_refl)

lemma agree_mono: "agree R row live \<Longrightarrow> (\<And>w v. R w v \<Longrightarrow> S w v) \<Longrightarrow> agree S row live"
  unfolding agree_def by (blast intro: option.rel_mono_strong)

datatype 'k row_op = Rebuild 'k jobj | Remove 'k | Clear

fun row_step :: "('s \<Rightarrow> 'k \<Rightarrow> jobj \<Rightarrow> 's) \<Rightarrow> ('s \<Rightarrow> 'k \<Rightarrow> 's) \<Rightarrow> ('s \<Rightarrow> 's) \<Rightarrow> 's \<Rightarrow> 'k row_op \<Rightarrow> 's" where
  "row_step rebuild removeObject clear s (Rebuild k live) = rebuild s k live"
| "row_step rebuild removeObject clear s (Remove k) = removeObject s k"
| "row_step rebuild removeObject clear s Clear = clear s"

text \<open>The map the operations describe.\<close>

fun row_spec :: "('k \<Rightarrow> jobj option) \<Rightarrow> 'k row_op \<Rightarrow> 'k \<Rightarrow> jobj option" where
  "row_spec f (Rebuild k live) = f(k := if live = [] then None else Some live)"
| "row_spec f (Remove k) = f(k := None)"
| "row_spec f Clear = (\<lambda>k. None)"

locale row_store =
  fixes empty :: 's
    and rebuild :: "'s \<Rightarrow> 'k \<Rightarrow> jobj \<Rightarrow> 's"
    and removeObject :: "'s \<Rightarrow> 'k \<Rightarrow> 's"
    and clear :: "'s \<Rightarrow> 's"
    and read :: "'s \<Rightarrow> 'k \<Rightarrow> jobj option"
    and invar :: "'s \<Rightarrow> bool"
    and fits :: "'s \<Rightarrow> 'k \<Rightarrow> jobj \<Rightarrow> bool"
    and same :: "jsv \<Rightarrow> jsv \<Rightarrow> bool"
  assumes invar_empty: "invar empty"
    and invar_rebuild: "invar s \<Longrightarrow> fits s k live \<Longrightarrow> invar (rebuild s k live)"
    and invar_remove: "invar s \<Longrightarrow> invar (removeObject s k)"
    and invar_clear: "invar s \<Longrightarrow> invar (clear s)"
    and read_empty: "read empty k = None"
    and read_rebuild: "invar s \<Longrightarrow> fits s k live \<Longrightarrow>
      (if live = [] then read (rebuild s k live) k = None
       else \<exists>row. read (rebuild s k live) k = Some row \<and> agree same row live)"
    and read_rebuild_other: "invar s \<Longrightarrow> fits s k live \<Longrightarrow> k' \<noteq> k \<Longrightarrow> read (rebuild s k live) k' = read s k'"
    and read_remove: "invar s \<Longrightarrow> read (removeObject s k) k' = (if k' = k then None else read s k')"
    and read_clear: "invar s \<Longrightarrow> read (clear s) k = None"
begin

abbreviation step :: "'s \<Rightarrow> 'k row_op \<Rightarrow> 's" where
  "step \<equiv> row_step rebuild removeObject clear"

fun fits_op :: "'s \<Rightarrow> 'k row_op \<Rightarrow> bool" where
  "fits_op s (Rebuild k live) = fits s k live"
| "fits_op s _ = True"

fun fits_all :: "'s \<Rightarrow> 'k row_op list \<Rightarrow> bool" where
  "fits_all s [] = True"
| "fits_all s (p # ps) = (fits_op s p \<and> fits_all (step s p) ps)"

lemma invar_step: "invar s \<Longrightarrow> fits_op s p \<Longrightarrow> invar (step s p)"
  by (cases p) (simp_all add: invar_rebuild invar_remove invar_clear)

lemma invar_run: "invar s \<Longrightarrow> fits_all s ps \<Longrightarrow> invar (foldl step s ps)"
  by (induction ps arbitrary: s) (simp_all add: invar_step)

lemma step_refines:
  assumes "invar s" and "fits_op s p" and "rel_option (agree same) (read s k) (f k)"
  shows "rel_option (agree same) (read (step s p) k) (row_spec f p k)"
proof (cases p)
  case (Rebuild k' live)
  show ?thesis
  proof (cases "k = k'")
    case True
    with read_rebuild [of s k' live] Rebuild assms show ?thesis by (auto split: if_splits)
  next
    case False
    with read_rebuild_other [of s k' live k] Rebuild assms show ?thesis by simp
  qed
next
  case (Remove k')
  with read_remove [of s k' k] assms show ?thesis by simp
next
  case Clear
  with read_clear [of s k] assms show ?thesis by simp
qed

text \<open>Any run reads back what it describes.\<close>

lemma run_refines:
  assumes "invar s" and "fits_all s ps" and "\<And>k. rel_option (agree same) (read s k) (f k)"
  shows "rel_option (agree same) (read (foldl step s ps) k) (foldl row_spec f ps k)"
  using assms
proof (induction ps arbitrary: s f)
  case (Cons p ps)
  show ?case
    unfolding foldl.simps
    by (rule Cons.IH) (use Cons.prems step_refines invar_step in auto)
qed simp

lemma run_from_empty:
  "fits_all empty ps \<Longrightarrow>
   rel_option (agree same) (read (foldl step empty ps) k) (foldl row_spec (\<lambda>k. None) ps k)"
  by (rule run_refines) (simp_all add: invar_empty read_empty)

end

end
