(* ===== verification/ObjectStore.thy ===== *)
theory ObjectStore
  imports RowStore
begin

text \<open>
  The row store of src/src/object-store.js and its value directory, which keeps one copy of a string (or, on request,
  of a structured value) that several rows hold: a value is promoted into the pool when the candidate counter of its
  path has seen it often enough, and every row remembers the pool keys it holds references to.

  Frozen and cloned values are the values themselves here; what is kept is who holds how many references and what is
  returned. A path that is the empty string counts under \<open>$\<close>, as in the code.
\<close>

record vd_entry =
  ve_value :: jsv
  ve_refs :: int
  ve_bytes :: nat

record vdir =
  vd_enabled :: bool
  vd_minRefs :: nat
  vd_maxEntries :: nat
  vd_maxCandidates :: nat
  vd_maxCandidatesPerPath :: nat
  vd_maxPaths :: nat
  vd_maxStringLength :: nat
  vd_maxKeyBytes :: nat
  vd_poolStructuredValues :: bool
  vd_maxNestedContainerEntries :: nat
  vd_pool :: "(string, vd_entry) jmap"
  vd_paths :: "(string, (string, nat) jmap) jmap"
  vd_count :: int

definition positiveInt :: "host \<Rightarrow> jsv \<Rightarrow> nat \<Rightarrow> nat" where
  "positiveInt h v fallback =
     (case js_to_number h v of Fin q \<Rightarrow> if 0 \<le> q then nat \<lfloor>q\<rfloor> else fallback | _ \<Rightarrow> fallback)"

text \<open>An option that is missing has its default.\<close>

definition vd_option :: "host \<Rightarrow> jobj \<Rightarrow> string \<Rightarrow> nat \<Rightarrow> nat" where
  "vd_option h options name dflt =
     (case map_of options name of None \<Rightarrow> dflt | Some v \<Rightarrow> positiveInt h v dflt)"

definition newValueDirectory :: "host \<Rightarrow> jobj \<Rightarrow> vdir" where
  "newValueDirectory h options =
     \<lparr>vd_enabled = (map_of options ''enabled'' \<noteq> Some (JBool False)),
      vd_minRefs = vd_option h options ''minRefs'' 2,
      vd_maxEntries = vd_option h options ''maxEntries'' 100000,
      vd_maxCandidates = vd_option h options ''maxCandidates'' 4096,
      vd_maxCandidatesPerPath = vd_option h options ''maxCandidatesPerPath'' 256,
      vd_maxPaths = vd_option h options ''maxPaths'' 1024,
      vd_maxStringLength = vd_option h options ''maxStringLength'' 256,
      vd_maxKeyBytes = vd_option h options ''maxKeyBytes'' 512,
      vd_poolStructuredValues = (map_of options ''poolStructuredValues'' = Some (JBool True)),
      vd_maxNestedContainerEntries = vd_option h options ''maxNestedContainerEntries'' 64,
      vd_pool = [], vd_paths = [], vd_count = 0\<rparr>"

fun estimateValue :: "jsv \<Rightarrow> nat" where
  "estimateValue JUndef = 0"
| "estimateValue JNull = 0"
| "estimateValue (JBool b) = 1"
| "estimateValue (JNum n) = 8"
| "estimateValue (JStr s) = length s * 2"
| "estimateValue (JArr xs) = 24 + sum_list (map (\<lambda>x. 8 + estimateValue x) xs)"
| "estimateValue (JObj kvs) = 32 + sum_list (map (\<lambda>(k, v). length k * 2 + 8 + estimateValue v) kvs)"

definition keyFor :: "host \<Rightarrow> vdir \<Rightarrow> jsv \<Rightarrow> string option" where
  "keyFor h d v =
     (case v of
        JStr s \<Rightarrow> if vd_maxStringLength d < length s then None else Some (''string:'' @ s)
      | JArr xs \<Rightarrow>
          if \<not> vd_poolStructuredValues d then None
          else (case stableKey h v of
                  None \<Rightarrow> None
                | Some key \<Rightarrow> if key = [] \<or> vd_maxKeyBytes d < length key then None else Some (''array:'' @ key))
      | JObj kvs \<Rightarrow>
          if \<not> vd_poolStructuredValues d then None
          else (case stableKey h v of
                  None \<Rightarrow> None
                | Some key \<Rightarrow> if key = [] \<or> vd_maxKeyBytes d < length key then None else Some (''object:'' @ key))
      | _ \<Rightarrow> None)"

definition path_name :: "string \<Rightarrow> string" where
  "path_name path = (if path = [] then ''$'' else path)"

text \<open>\<open>candidatesForPath\<close>: the candidates of a path (they are created on demand) and whether there are any.\<close>

definition candidatesForPath :: "string \<Rightarrow> vdir \<Rightarrow> (string, nat) jmap option \<times> vdir" where
  "candidatesForPath path d =
     (case jm_get (vd_paths d) (path_name path) of
        Some cs \<Rightarrow> (Some cs, d)
      | None \<Rightarrow>
          if vd_maxPaths d \<le> length (vd_paths d) then (None, d)
          else (Some [], d\<lparr>vd_paths := jm_set (path_name path) [] (vd_paths d)\<rparr>))"

text \<open>The oldest candidate of the first path that has one is dropped.\<close>

fun drop_first :: "(string, (string, nat) jmap) jmap \<Rightarrow> (string, (string, nat) jmap) jmap option" where
  "drop_first [] = None"
| "drop_first ((p, []) # ps) = map_option (Cons (p, [])) (drop_first ps)"
| "drop_first ((p, (k, n) # cs) # ps) = Some ((p, jm_del k ((k, n) # cs)) # ps)"

definition dropOldestCandidate :: "vdir \<Rightarrow> vdir option" where
  "dropOldestCandidate d =
     map_option (\<lambda>ps. d\<lparr>vd_paths := ps, vd_count := vd_count d - 1\<rparr>) (drop_first (vd_paths d))"

definition candidate_total :: "(string, (string, nat) jmap) jmap \<Rightarrow> nat" where
  "candidate_total ps = sum_list (map (\<lambda>p. length (snd p)) ps)"

lemma drop_first_smaller: "drop_first ps = Some ps' \<Longrightarrow> candidate_total ps' < candidate_total ps"
proof (induction ps arbitrary: ps' rule: drop_first.induct)
  case (3 p k n cs ps)
  then show ?case using jm_del_length_le [of k cs] by (auto simp: candidate_total_def)
qed (auto simp: candidate_total_def)

text \<open>The loop that makes room among the candidates.\<close>

function make_room :: "vdir \<Rightarrow> vdir" where
  "make_room d =
     (if vd_count d < int (vd_maxCandidates d) then d
      else (case dropOldestCandidate d of None \<Rightarrow> d | Some d' \<Rightarrow> make_room d'))"
  by pat_completeness auto
termination
  by (relation "measure (\<lambda>d. candidate_total (vd_paths d))")
    (auto simp: dropOldestCandidate_def dest: drop_first_smaller)

declare make_room.simps [simp del]

definition path_candidates :: "vdir \<Rightarrow> string \<Rightarrow> (string, nat) jmap" where
  "path_candidates d p = (case jm_get (vd_paths d) p of None \<Rightarrow> [] | Some cs \<Rightarrow> cs)"

definition rememberCandidate :: "string \<Rightarrow> string \<Rightarrow> nat \<Rightarrow> vdir \<Rightarrow> vdir" where
  "rememberCandidate p key count d =
     (if vd_maxCandidates d = 0 \<or> vd_maxCandidatesPerPath d = 0 then d
      else if jm_has (path_candidates d p) key
      then d\<lparr>vd_paths := jm_set p (jm_set key count (path_candidates d p)) (vd_paths d)\<rparr>
      else let d1 = make_room d in
           if int (vd_maxCandidates d1) \<le> vd_count d1 then d1
           else let d2 = (if vd_maxCandidatesPerPath d1 \<le> length (path_candidates d1 p)
                          then (case path_candidates d1 p of
                                  [] \<Rightarrow> d1
                                | (oldest, n) # cs \<Rightarrow>
                                    d1\<lparr>vd_paths := jm_set p (jm_del oldest ((oldest, n) # cs)) (vd_paths d1),
                                       vd_count := vd_count d1 - 1\<rparr>)
                          else d1)
                in if vd_count d2 < int (vd_maxCandidates d2) \<and>
                      length (path_candidates d2 p) < vd_maxCandidatesPerPath d2
                   then d2\<lparr>vd_paths := jm_set p (jm_set key count (path_candidates d2 p)) (vd_paths d2),
                           vd_count := vd_count d2 + 1\<rparr>
                   else d2)"

definition shouldPromote :: "string \<Rightarrow> string \<Rightarrow> vdir \<Rightarrow> bool \<times> vdir" where
  "shouldPromote path key d =
     (if vd_maxEntries d \<le> length (vd_pool d) then (False, d)
      else (case candidatesForPath path d of
              (None, d') \<Rightarrow> (False, d')
            | (Some cs, d') \<Rightarrow>
                let count = (case jm_get cs key of None \<Rightarrow> 0 | Some n \<Rightarrow> n) + 1 in
                if vd_minRefs d' \<le> count then (True, d')
                else (False, rememberCandidate (path_name path) key count d')))"

definition deleteCandidate :: "string \<Rightarrow> string \<Rightarrow> vdir \<Rightarrow> vdir" where
  "deleteCandidate path key d =
     (case jm_get (vd_paths d) (path_name path) of
        None \<Rightarrow> d
      | Some cs \<Rightarrow>
          if jm_has cs key
          then d\<lparr>vd_paths := jm_set (path_name path) (jm_del key cs) (vd_paths d), vd_count := vd_count d - 1\<rparr>
          else d)"

text \<open>
  The part of \<open>store\<close> that pools: the pooled value, when the value has a key that is in the pool or has just been
  promoted.
\<close>

definition pool_value :: "host \<Rightarrow> jsv \<Rightarrow> string list \<Rightarrow> string \<Rightarrow> vdir \<Rightarrow> (jsv \<times> string list) option \<times> vdir" where
  "pool_value h v refs path d =
     (case keyFor h d v of
        None \<Rightarrow> (None, d)
      | Some key \<Rightarrow>
          (case jm_get (vd_pool d) key of
             Some e \<Rightarrow>
               (Some (ve_value e, refs @ [key]),
                d\<lparr>vd_pool := jm_set key (e\<lparr>ve_refs := ve_refs e + 1\<rparr>) (vd_pool d)\<rparr>)
           | None \<Rightarrow>
               (case shouldPromote path key d of
                  (True, d') \<Rightarrow>
                    (Some (v, refs @ [key]),
                     deleteCandidate path key
                       (d'\<lparr>vd_pool := jm_set key \<lparr>ve_value = v, ve_refs = 1, ve_bytes = estimateValue v\<rparr> (vd_pool d')\<rparr>))
                | (False, d') \<Rightarrow> (None, d'))))"

function (sequential) vd_store :: "host \<Rightarrow> bool \<Rightarrow> jsv \<Rightarrow> string list \<Rightarrow> string \<Rightarrow> vdir \<Rightarrow> jsv \<times> string list \<times> vdir"
  and cloneWithNestedPooling :: "host \<Rightarrow> bool \<Rightarrow> jsv \<Rightarrow> string list \<Rightarrow> string \<Rightarrow> vdir \<Rightarrow> jsv \<times> string list \<times> vdir"
  and store_items :: "host \<Rightarrow> bool \<Rightarrow> jsv list \<Rightarrow> string list \<Rightarrow> string \<Rightarrow> vdir \<Rightarrow> jsv list \<times> string list \<times> vdir"
  and store_entries :: "host \<Rightarrow> bool \<Rightarrow> jobj \<Rightarrow> string list \<Rightarrow> string \<Rightarrow> vdir \<Rightarrow> jobj \<times> string list \<times> vdir"
where
  "vd_store h trusted v refs path d =
     (if \<not> vd_enabled d then (v, refs, d)
      else (case pool_value h v refs path d of
              (Some (stored, refs'), d') \<Rightarrow> (stored, refs', d')
            | (None, d') \<Rightarrow> cloneWithNestedPooling h trusted v refs path d'))"
| "cloneWithNestedPooling h trusted (JArr xs) refs path d =
     (if trusted \<and> \<not> vd_poolStructuredValues d then (JArr xs, refs, d)
      else if vd_maxNestedContainerEntries d < length xs then (JArr xs, refs, d)
      else (case store_items h trusted xs refs path d of (ys, refs', d') \<Rightarrow> (JArr ys, refs', d')))"
| "cloneWithNestedPooling h trusted (JObj kvs) refs path d =
     (if trusted \<and> \<not> vd_poolStructuredValues d then (JObj kvs, refs, d)
      else if vd_maxNestedContainerEntries d < length kvs then (JObj kvs, refs, d)
      else (case store_entries h trusted kvs refs path d of (ys, refs', d') \<Rightarrow> (JObj ys, refs', d')))"
| "cloneWithNestedPooling h trusted v refs path d = (v, refs, d)"
| "store_items h trusted [] refs path d = ([], refs, d)"
| "store_items h trusted (x # xs) refs path d =
     (case vd_store h trusted x refs (path @ ''[]'') d of
        (y, refs', d') \<Rightarrow>
          (case store_items h trusted xs refs' path d' of (ys, refs'', d'') \<Rightarrow> (y # ys, refs'', d'')))"
| "store_entries h trusted [] refs path d = ([], refs, d)"
| "store_entries h trusted ((k, x) # kvs) refs path d =
     (case vd_store h trusted x refs (path @ ''.'' @ k) d of
        (y, refs', d') \<Rightarrow>
          (case store_entries h trusted kvs refs' path d' of (ys, refs'', d'') \<Rightarrow> ((k, y) # ys, refs'', d'')))"

  by pat_completeness auto
termination
  by (relation "measure (\<lambda>x. case x of
        Inl (Inl (h, t, v, r, p, d)) \<Rightarrow> 2 * size v + 1
      | Inl (Inr (h, t, v, r, p, d)) \<Rightarrow> 2 * size v
      | Inr (Inl (h, t, xs, r, p, d)) \<Rightarrow> 2 * size_list size xs + 1
      | Inr (Inr (h, t, kvs, r, p, d)) \<Rightarrow> 2 * size_list (size_prod (\<lambda>k. 0) size) kvs + 1)") auto

definition release :: "vdir \<Rightarrow> string \<Rightarrow> vdir" where
  "release d key =
     (case jm_get (vd_pool d) key of
        None \<Rightarrow> d
      | Some e \<Rightarrow>
          if ve_refs e - 1 \<le> 0 then d\<lparr>vd_pool := jm_del key (vd_pool d)\<rparr>
          else d\<lparr>vd_pool := jm_set key (e\<lparr>ve_refs := ve_refs e - 1\<rparr>) (vd_pool d)\<rparr>)"

definition releaseAll :: "vdir \<Rightarrow> string list \<Rightarrow> vdir" where
  "releaseAll d refs = foldl release d refs"

definition vd_clear :: "vdir \<Rightarrow> vdir" where
  "vd_clear d = d\<lparr>vd_pool := [], vd_paths := [], vd_count := 0\<rparr>"

definition vd_bytes :: "vdir \<Rightarrow> nat" where
  "vd_bytes d =
     sum_list (map (\<lambda>(key, e). length key * 2 + ve_bytes e) (vd_pool d)) +
     sum_list (map (\<lambda>(p, cs). sum_list (map (\<lambda>(key, n). length key * 2 + 8) cs)) (vd_paths d))"

definition vd_stats_refs :: "vdir \<Rightarrow> int" where
  "vd_stats_refs d = sum_list (map (\<lambda>(key, e). ve_refs e) (vd_pool d))"

subsection \<open>Rows\<close>

record orow =
  or_value :: jobj
  or_refs :: "string list"

record 'k ostore =
  os_rows :: "('k, orow) jmap"
  os_dir :: vdir

definition newObjectRowStore :: "host \<Rightarrow> jobj \<Rightarrow> 'k ostore" where
  "newObjectRowStore h options =
     \<lparr>os_rows = [], os_dir = newValueDirectory h (entries_of (oget options ''valueDirectory''))\<rparr>"

fun store_row :: "host \<Rightarrow> bool \<Rightarrow> jobj \<Rightarrow> jobj \<Rightarrow> string list \<Rightarrow> vdir \<Rightarrow> jobj \<times> string list \<times> vdir" where
  "store_row h trusted [] row refs d = (row, refs, d)"
| "store_row h trusted ((key, item) # live) row refs d =
     (case vd_store h trusted item refs key d of
        (stored, refs', d') \<Rightarrow> store_row h trusted live (jm_set key stored row) refs' d')"

definition os_release :: "'k ostore \<Rightarrow> 'k \<Rightarrow> vdir" where
  "os_release s k =
     (case jm_get (os_rows s) k of None \<Rightarrow> os_dir s | Some old \<Rightarrow> releaseAll (os_dir s) (or_refs old))"

definition os_rebuild :: "host \<Rightarrow> bool \<Rightarrow> 'k ostore \<Rightarrow> 'k \<Rightarrow> jobj \<Rightarrow> 'k ostore" where
  "os_rebuild h trusted s k live =
     (let d = os_release s k; rows = jm_del k (os_rows s) in
      if live = [] then \<lparr>os_rows = rows, os_dir = d\<rparr>
      else (case store_row h trusted live [] [] d of
              (row, refs, d') \<Rightarrow> \<lparr>os_rows = jm_set k \<lparr>or_value = row, or_refs = refs\<rparr> rows, os_dir = d'\<rparr>))"

definition os_removeObject :: "'k ostore \<Rightarrow> 'k \<Rightarrow> 'k ostore" where
  "os_removeObject s k =
     (case jm_get (os_rows s) k of
        None \<Rightarrow> s
      | Some old \<Rightarrow> \<lparr>os_rows = jm_del k (os_rows s), os_dir = releaseAll (os_dir s) (or_refs old)\<rparr>)"

definition os_clear :: "'k ostore \<Rightarrow> 'k ostore" where
  "os_clear s = \<lparr>os_rows = [], os_dir = vd_clear (os_dir s)\<rparr>"

definition os_read :: "'k ostore \<Rightarrow> 'k \<Rightarrow> jobj option" where
  "os_read s k = map_option or_value (jm_get (os_rows s) k)"

definition os_bytes :: "'k ostore \<Rightarrow> nat" where
  "os_bytes s = sum_list (map (\<lambda>(k, row). estimateValue (JObj (or_value row))) (os_rows s)) + vd_bytes (os_dir s)"

subsection \<open>The candidates\<close>

definition cand_ok :: "vdir \<Rightarrow> bool" where
  "cand_ok d \<longleftrightarrow>
     jm_ok (vd_paths d) \<and> length (vd_paths d) \<le> vd_maxPaths d \<and>
     (\<forall>p cs. jm_get (vd_paths d) p = Some cs \<longrightarrow> jm_ok cs \<and> length cs \<le> vd_maxCandidatesPerPath d) \<and>
     vd_count d = jm_sum (\<lambda>cs. int (length cs)) (vd_paths d) \<and> vd_count d \<le> int (vd_maxCandidates d)"

definition vd_config :: "vdir \<Rightarrow> vdir" where
  "vd_config d = d\<lparr>vd_pool := [], vd_paths := [], vd_count := 0\<rparr>"

lemma vd_config_eq:
  "vd_config d = vd_config d' \<longleftrightarrow>
     vd_enabled d = vd_enabled d' \<and> vd_minRefs d = vd_minRefs d' \<and> vd_maxEntries d = vd_maxEntries d' \<and>
     vd_maxCandidates d = vd_maxCandidates d' \<and> vd_maxCandidatesPerPath d = vd_maxCandidatesPerPath d' \<and>
     vd_maxPaths d = vd_maxPaths d' \<and> vd_maxStringLength d = vd_maxStringLength d' \<and>
     vd_maxKeyBytes d = vd_maxKeyBytes d' \<and> vd_poolStructuredValues d = vd_poolStructuredValues d' \<and>
     vd_maxNestedContainerEntries d = vd_maxNestedContainerEntries d'"
  by (cases d; cases d') (simp add: vd_config_def)

text \<open>What a step on the candidates leaves alone.\<close>

definition cand_step :: "vdir \<Rightarrow> vdir \<Rightarrow> bool" where
  "cand_step d d' \<longleftrightarrow> cand_ok d' \<and> vd_pool d' = vd_pool d \<and> vd_config d' = vd_config d"

lemma cand_step_refl: "cand_ok d \<Longrightarrow> cand_step d d"
  by (simp add: cand_step_def)

lemma cand_step_trans: "cand_step d d' \<Longrightarrow> cand_step d' d'' \<Longrightarrow> cand_step d d''"
  by (simp add: cand_step_def)

lemma candidatesForPath_step: "cand_ok d \<Longrightarrow> candidatesForPath p d = (r, d') \<Longrightarrow> cand_step d d'"
  by (auto simp: candidatesForPath_def cand_step_def cand_ok_def vd_config_def jm_sum_set jm_set_new
      split: option.splits if_splits)

lemma drop_first_ok:
  assumes "drop_first ps = Some ps'" and "jm_ok ps" and "\<And>p cs. jm_get ps p = Some cs \<Longrightarrow> jm_ok cs \<and> length cs \<le> m"
  shows "map fst ps' = map fst ps \<and> jm_sum (\<lambda>cs. int (length cs)) ps' = jm_sum (\<lambda>cs. int (length cs)) ps - 1 \<and>
    (\<forall>p cs. jm_get ps' p = Some cs \<longrightarrow> jm_ok cs \<and> length cs \<le> m)"
  using assms
proof (induction ps arbitrary: ps' rule: drop_first.induct)
  case (2 p ps)
  from 2(2) obtain qs where qs: "drop_first ps = Some qs" "ps' = (p, []) # qs" by auto
  have "\<And>q cs. jm_get ps q = Some cs \<Longrightarrow> jm_ok cs \<and> length cs \<le> m"
    using 2(3,4) by (metis jm_get_mem distinct.simps(2) list.set_intros(2) list.simps(9))
  with 2(1) [OF qs(1)] 2(3) qs(2) show ?case by auto
next
  case (3 p k n cs ps)
  have cs: "jm_ok ((k, n) # cs)" "length ((k, n) # cs) \<le> m" using 3(3) [of p "(k, n) # cs"] by auto
  have "jm_del k ((k, n) # cs) = cs" using cs(1) by (auto intro: jm_del_absent simp: map_of_eq_None_iff)
  moreover have "q \<noteq> p \<Longrightarrow> jm_get ps q = Some ds \<Longrightarrow> jm_ok ds \<and> length ds \<le> m" for q ds
    using 3(3) [of q ds] by simp
  ultimately show ?case using 3(1) cs by (auto split: if_split_asm)
qed auto

lemma dropOldest_step:
  assumes "cand_ok d" and "dropOldestCandidate d = Some d'"
  shows "cand_step d d' \<and> map fst (vd_paths d') = map fst (vd_paths d)"
proof -
  from assms(2) obtain ps where ps: "drop_first (vd_paths d) = Some ps"
    "d' = d\<lparr>vd_paths := ps, vd_count := vd_count d - 1\<rparr>"
    by (auto simp: dropOldestCandidate_def)
  have "jm_ok (vd_paths d)" "\<And>p cs. jm_get (vd_paths d) p = Some cs \<Longrightarrow> jm_ok cs \<and> length cs \<le> vd_maxCandidatesPerPath d"
    using assms(1) by (auto simp: cand_ok_def)
  from drop_first_ok [OF ps(1) this] have f: "map fst ps = map fst (vd_paths d)"
    "jm_sum (\<lambda>cs. int (length cs)) ps = jm_sum (\<lambda>cs. int (length cs)) (vd_paths d) - 1"
    "\<And>p cs. jm_get ps p = Some cs \<Longrightarrow> jm_ok cs \<and> length cs \<le> vd_maxCandidatesPerPath d" by auto
  then have "length ps = length (vd_paths d)" by (metis length_map)
  with f assms(1) ps(2) show ?thesis by (auto simp: cand_step_def cand_ok_def vd_config_def)
qed

lemma make_room_step:
  "cand_ok d \<Longrightarrow> cand_step d (make_room d) \<and> map fst (vd_paths (make_room d)) = map fst (vd_paths d)"
proof (induction d rule: make_room.induct)
  case (1 d)
  show ?case
  proof (cases "vd_count d < int (vd_maxCandidates d)")
    case True
    with 1(2) show ?thesis by (simp add: make_room.simps [of d] cand_step_refl)
  next
    case big: False
    show ?thesis
    proof (cases "dropOldestCandidate d")
      case None
      with 1(2) show ?thesis by (simp add: make_room.simps [of d] cand_step_refl)
    next
      case (Some d')
      note d' = dropOldest_step [OF 1(2) Some]
      then have "cand_ok d'" by (simp add: cand_step_def)
      with 1(1) [OF big Some] d' have "cand_step d (make_room d')" "map fst (vd_paths (make_room d')) = map fst (vd_paths d)"
        using cand_step_trans by auto
      with big Some show ?thesis by (simp add: make_room.simps [of d])
    qed
  qed
qed

lemma cand_ok_set:
  assumes "cand_ok d" and "jm_get (vd_paths d) p = Some cs" and "jm_ok cs'" and "length cs' \<le> vd_maxCandidatesPerPath d"
    and "n = vd_count d + int (length cs') - int (length cs)" and "n \<le> int (vd_maxCandidates d)"
  shows "cand_ok (d\<lparr>vd_paths := jm_set p cs' (vd_paths d), vd_count := n\<rparr>)"
  using assms by (auto simp: cand_ok_def jm_sum_set jm_set_same_length)

lemma cand_step_set:
  assumes "cand_ok d" and "jm_get (vd_paths d) p = Some cs" and "jm_ok cs'" and "length cs' \<le> vd_maxCandidatesPerPath d"
    and "n = vd_count d + int (length cs') - int (length cs)" and "n \<le> int (vd_maxCandidates d)"
  shows "cand_step d (d\<lparr>vd_paths := jm_set p cs' (vd_paths d), vd_count := n\<rparr>)"
  using cand_ok_set [OF assms] by (simp add: cand_step_def vd_config_def)

lemma drop_first_keys:
  "drop_first ps = Some ps' \<Longrightarrow> jm_get ps' p = Some cs' \<Longrightarrow>
   \<exists>cs. jm_get ps p = Some cs \<and> set (map fst cs') \<subseteq> set (map fst cs)"
proof (induction ps arbitrary: ps' rule: drop_first.induct)
  case (3 q k n cs ps)
  then show ?case by (force simp: jm_mem_del split: if_splits)
qed (auto split: if_splits)

lemma make_room_keys: "jm_has (path_candidates (make_room d) p) k \<Longrightarrow> jm_has (path_candidates d p) k"
proof (induction d rule: make_room.induct)
  case (1 d)
  show ?case
  proof (cases "vd_count d < int (vd_maxCandidates d)")
    case big: False
    show ?thesis
    proof (cases "dropOldestCandidate d")
      case (Some d')
      with 1 big have "jm_has (path_candidates d' p) k" by (simp add: make_room.simps [of d])
      then obtain cs where cs: "jm_get (vd_paths d') p = Some cs" "jm_has cs k"
        by (auto simp: path_candidates_def split: option.splits)
      then have "k \<in> set (map fst cs)" by (simp only: jm_has_iff)
      moreover have "drop_first (vd_paths d) = Some (vd_paths d')"
        using Some by (auto simp: dropOldestCandidate_def)
      from drop_first_keys [OF this cs(1)] obtain csa
        where csa: "jm_get (vd_paths d) p = Some csa" "set (map fst cs) \<subseteq> set (map fst csa)" by blast
      ultimately have "jm_has csa k" unfolding jm_has_iff by blast
      with csa show ?thesis by (simp add: path_candidates_def)
    qed (use 1 big in \<open>simp add: make_room.simps [of d]\<close>)
  qed (use 1 in \<open>simp add: make_room.simps [of d]\<close>)
qed

lemma rememberCandidate_step:
  assumes "cand_ok d" and "jm_has (vd_paths d) p"
  shows "cand_step d (rememberCandidate p key count d)"
proof -
  obtain cs where cs: "jm_get (vd_paths d) p = Some cs" using assms(2) by auto
  have ok: "jm_ok cs" "length cs \<le> vd_maxCandidatesPerPath d" using assms(1) cs by (auto simp: cand_ok_def)
  have pc: "path_candidates d p = cs" using cs by (simp add: path_candidates_def)
  show ?thesis
  proof (cases "vd_maxCandidates d = 0 \<or> vd_maxCandidatesPerPath d = 0")
    case True
    then show ?thesis using assms(1) by (simp add: rememberCandidate_def cand_step_refl)
  next
    case pos: False
    show ?thesis
    proof (cases "jm_has cs key")
      case True
      have "cand_step d (d\<lparr>vd_paths := jm_set p (jm_set key count cs) (vd_paths d), vd_count := vd_count d\<rparr>)"
        by (rule cand_step_set [OF assms(1) cs]) (use ok True assms(1) in \<open>auto simp: jm_set_same_length cand_ok_def\<close>)
      with True pos pc show ?thesis by (simp add: rememberCandidate_def)
    next
      case new: False
      define d1 where "d1 = make_room d"
      have s1: "cand_step d d1" "map fst (vd_paths d1) = map fst (vd_paths d)"
        using make_room_step [OF assms(1)] by (auto simp: d1_def)
      have ok1: "cand_ok d1" using s1 by (simp add: cand_step_def)
      show ?thesis
      proof (cases "int (vd_maxCandidates d1) \<le> vd_count d1")
        case True
        with s1 new pos pc show ?thesis by (simp add: rememberCandidate_def d1_def [symmetric] Let_def)
      next
        case room: False
        define d2 where "d2 = (if vd_maxCandidatesPerPath d1 \<le> length (path_candidates d1 p)
             then (case path_candidates d1 p of [] \<Rightarrow> d1 | (oldest, n) # cs \<Rightarrow>
               d1\<lparr>vd_paths := jm_set p (jm_del oldest ((oldest, n) # cs)) (vd_paths d1), vd_count := vd_count d1 - 1\<rparr>)
             else d1)"
        have "set (map fst (vd_paths d1)) = set (map fst (vd_paths d))" using s1(2) by simp
        with assms(2) have "jm_has (vd_paths d1) p" by (simp only: jm_has_iff)
        then obtain cs1 where cs1: "jm_get (vd_paths d1) p = Some cs1" by auto
        have okc1: "jm_ok cs1" "length cs1 \<le> vd_maxCandidatesPerPath d1" using ok1 cs1 by (auto simp: cand_ok_def)
        have s2: "cand_step d1 d2 \<and> jm_has (vd_paths d2) p"
        proof (cases "vd_maxCandidatesPerPath d1 \<le> length cs1 \<and> cs1 \<noteq> []")
          case True
          then obtain oldest n rest where c: "cs1 = (oldest, n) # rest" by (cases cs1) auto
          have del: "jm_del oldest ((oldest, n) # rest) = rest"
            using okc1(1) c by (auto intro: jm_del_absent simp: map_of_eq_None_iff)
          have "cand_step d1 (d1\<lparr>vd_paths := jm_set p rest (vd_paths d1), vd_count := vd_count d1 - 1\<rparr>)"
            by (rule cand_step_set [OF ok1 cs1]) (use okc1 c ok1 in \<open>auto simp: cand_ok_def\<close>)
          with True c del cs1 show ?thesis by (simp add: d2_def path_candidates_def)
        next
          case False
          with cs1 have "d2 = d1" by (auto simp: d2_def path_candidates_def split: list.splits)
          with ok1 cs1 show ?thesis by (simp add: cand_step_refl)
        qed
        then obtain cs2 where cs2: "jm_get (vd_paths d2) p = Some cs2" by auto
        have ok2: "cand_ok d2" using s2 by (simp add: cand_step_def)
        have okc2: "jm_ok cs2" using ok2 cs2 by (auto simp: cand_ok_def)
        have pc2: "path_candidates d2 p = cs2" using cs2 by (simp add: path_candidates_def)
        define d3 where "d3 = (if vd_count d2 < int (vd_maxCandidates d2) \<and> length cs2 < vd_maxCandidatesPerPath d2
             then d2\<lparr>vd_paths := jm_set p (jm_set key count cs2) (vd_paths d2), vd_count := vd_count d2 + 1\<rparr> else d2)"
        have absent1: "\<not> jm_has cs1 key"
        proof -
          have "path_candidates d1 p = cs1" using cs1 by (simp add: path_candidates_def)
          moreover have "\<not> jm_has (path_candidates d1 p) key"
            using make_room_keys [of d p key] new pc by (metis d1_def)
          ultimately show ?thesis by simp
        qed
        have absent: "\<not> jm_has cs2 key"
          using absent1 cs1 cs2 by (auto simp: d2_def path_candidates_def split: list.splits if_splits)
        have "cand_step d2 d3"
        proof (cases "vd_count d2 < int (vd_maxCandidates d2) \<and> length cs2 < vd_maxCandidatesPerPath d2")
          case True
          have "cand_step d2 (d2\<lparr>vd_paths := jm_set p (jm_set key count cs2) (vd_paths d2), vd_count := vd_count d2 + 1\<rparr>)"
            by (rule cand_step_set [OF ok2 cs2]) (use okc2 True absent in \<open>auto simp: jm_set_new\<close>)
          with True show ?thesis by (simp add: d3_def)
        qed (use ok2 in \<open>auto simp: d3_def cand_step_refl\<close>)
        with s1 s2 have "cand_step d d3" using cand_step_trans by blast
        moreover have "rememberCandidate p key count d = d3"
          using room new pos pc
          by (simp add: rememberCandidate_def d1_def [symmetric] d2_def [symmetric] Let_def pc2 d3_def)
        ultimately show ?thesis by simp
      qed
    qed
  qed
qed

lemma candidatesForPath_has:
  "candidatesForPath p d = (Some cs, d') \<Longrightarrow> jm_get (vd_paths d') (path_name p) = Some cs"
  by (auto simp: candidatesForPath_def split: option.splits if_splits)

lemma shouldPromote_step:
  assumes "cand_ok d" and "shouldPromote path key d = (b, d')"
  shows "cand_step d d' \<and> (b \<longrightarrow> length (vd_pool d') < vd_maxEntries d')"
proof -
  obtain r d1 where r: "candidatesForPath path d = (r, d1)" by (cases "candidatesForPath path d")
  have s1: "cand_step d d1" using candidatesForPath_step [OF assms(1) r] .
  show ?thesis
  proof (cases "vd_maxEntries d \<le> length (vd_pool d)")
    case True
    with assms show ?thesis by (simp add: shouldPromote_def cand_step_refl)
  next
    case room: False
    show ?thesis
    proof (cases r)
      case None
      with r room assms s1 show ?thesis by (simp add: shouldPromote_def)
    next
      case (Some cs)
      have "jm_has (vd_paths d1) (path_name path)" using candidatesForPath_has r Some by auto
      moreover have "cand_ok d1" using s1 by (simp add: cand_step_def)
      ultimately have s2: "cand_step d1 (rememberCandidate (path_name path) key c d1)" for c
        by (simp add: rememberCandidate_step)
      have "vd_pool d1 = vd_pool d" "vd_maxEntries d1 = vd_maxEntries d"
        using s1 by (auto simp: cand_step_def vd_config_eq)
      with Some r room assms(2) s1 cand_step_trans [OF s1 s2] show ?thesis
        by (auto simp: shouldPromote_def Let_def split: if_splits)
    qed
  qed
qed

lemma deleteCandidate_step: "cand_ok d \<Longrightarrow> cand_step d (deleteCandidate path key d)"
proof (cases "jm_get (vd_paths d) (path_name path)")
  case (Some cs)
  assume ok: "cand_ok d"
  then have cs: "jm_ok cs" "length cs \<le> vd_maxCandidatesPerPath d" using Some by (auto simp: cand_ok_def)
  show ?thesis
  proof (cases "jm_has cs key")
    case True
    have "cand_step d (d\<lparr>vd_paths := jm_set (path_name path) (jm_del key cs) (vd_paths d), vd_count := vd_count d - 1\<rparr>)"
      by (rule cand_step_set [OF ok Some])
        (use cs jm_del_length [OF cs(1) True] ok in \<open>auto simp: cand_ok_def\<close>)
    with Some True show ?thesis by (simp add: deleteCandidate_def)
  qed (use Some ok in \<open>simp add: deleteCandidate_def cand_step_refl\<close>)
qed (simp add: deleteCandidate_def cand_step_refl)

subsection \<open>The pool\<close>

definition pool_ok :: "host \<Rightarrow> vdir \<Rightarrow> bool" where
  "pool_ok h d \<longleftrightarrow>
     jm_ok (vd_pool d) \<and> length (vd_pool d) \<le> vd_maxEntries d \<and>
     (\<forall>key e. jm_get (vd_pool d) key = Some e \<longrightarrow> 0 < ve_refs e \<and> keyFor h d (ve_value e) = Some key)"

definition vd_ok :: "host \<Rightarrow> vdir \<Rightarrow> bool" where
  "vd_ok h d \<longleftrightarrow> cand_ok d \<and> pool_ok h d"

definition vd_refs :: "vdir \<Rightarrow> string \<Rightarrow> int" where
  "vd_refs d key = (case jm_get (vd_pool d) key of None \<Rightarrow> 0 | Some e \<Rightarrow> ve_refs e)"

lemma keyFor_config: "vd_config d = vd_config d' \<Longrightarrow> keyFor h d v = keyFor h d' v"
  by (auto simp: keyFor_def vd_config_eq split: jsv.splits option.splits)

lemma keyFor_same: "keyFor h d v = Some key \<Longrightarrow> keyFor h d w = Some key \<Longrightarrow> same_key h v w"
  by (auto simp: keyFor_def same_key_def split: jsv.splits option.splits if_splits)

lemma keyFor_string: "\<not> vd_poolStructuredValues d \<Longrightarrow> keyFor h d v = Some key \<Longrightarrow> \<exists>s. v = JStr s \<and> key = ''string:'' @ s"
  by (auto simp: keyFor_def split: jsv.splits if_splits)

lemma cand_ok_pool [simp]: "cand_ok (d\<lparr>vd_pool := p\<rparr>) = cand_ok d"
  by (simp add: cand_ok_def)

lemma vd_config_pool [simp]: "vd_config (d\<lparr>vd_pool := p\<rparr>) = vd_config d"
  by (simp add: vd_config_def)

lemma pool_ok_step: "cand_step d d' \<Longrightarrow> pool_ok h d \<Longrightarrow> pool_ok h d'"
  using keyFor_config [of d' d h] by (auto simp: pool_ok_def cand_step_def vd_config_eq)

lemma vd_refs_pool: "vd_pool d' = vd_pool d \<Longrightarrow> vd_refs d' key = vd_refs d key"
  by (simp add: vd_refs_def)

text \<open>A step of the directory that hands out the references \<open>new\<close>.\<close>

definition vd_step :: "host \<Rightarrow> vdir \<Rightarrow> string list \<Rightarrow> vdir \<Rightarrow> bool" where
  "vd_step h d new d' \<longleftrightarrow>
     vd_ok h d' \<and> vd_config d' = vd_config d \<and> (\<forall>k. vd_refs d' k = vd_refs d k + int (count_list new k))"

lemma vd_step_refl: "vd_ok h d \<Longrightarrow> vd_step h d [] d"
  by (simp add: vd_step_def)

lemma vd_step_trans: "vd_step h d new d' \<Longrightarrow> vd_step h d' new' d'' \<Longrightarrow> vd_step h d (new @ new') d''"
  by (simp add: vd_step_def)

lemma vd_step_cand: "cand_step d d' \<Longrightarrow> vd_ok h d \<Longrightarrow> vd_step h d [] d'"
  using pool_ok_step by (auto simp: vd_step_def vd_ok_def cand_step_def vd_refs_def)

lemma vd_step_put:
  assumes "vd_ok h d" and "keyFor h d v = Some key" and "0 < n" and "n = vd_refs d key + 1"
    and "jm_has (vd_pool d) key \<or> length (vd_pool d) < vd_maxEntries d"
  shows "vd_step h d [key] (d\<lparr>vd_pool := jm_set key \<lparr>ve_value = v, ve_refs = n, ve_bytes = b\<rparr> (vd_pool d)\<rparr>)"
proof -
  have len: "length (jm_set key e (vd_pool d)) \<le> vd_maxEntries d" for e
    using assms(1,5) jm_set_same_length [of "vd_pool d" key e] jm_set_length_le [of key e "vd_pool d"]
    by (fastforce simp: vd_ok_def pool_ok_def)
  have "keyFor h (d\<lparr>vd_pool := p\<rparr>) w = keyFor h d w" for p w
    by (rule keyFor_config) simp
  with assms len show ?thesis
    by (auto simp: vd_step_def vd_ok_def pool_ok_def vd_refs_def)
qed

lemma pool_value_step:
  assumes "vd_ok h d" and "pool_value h v refs path d = (r, d')"
  shows "case r of
           None \<Rightarrow> vd_step h d [] d'
         | Some (w, refs') \<Rightarrow> \<exists>key. refs' = refs @ [key] \<and> vd_step h d [key] d' \<and>
             keyFor h d v = Some key \<and> keyFor h d w = Some key"
proof (cases "keyFor h d v")
  case None
  with assms show ?thesis by (auto simp: pool_value_def vd_step_refl)
next
  case key: (Some key)
  show ?thesis
  proof (cases "jm_get (vd_pool d) key")
    case (Some e)
    have e: "keyFor h d (ve_value e) = Some key" "0 < ve_refs e" using assms(1) Some by (auto simp: vd_ok_def pool_ok_def)
    have eq: "e\<lparr>ve_refs := ve_refs e + 1\<rparr> = \<lparr>ve_value = ve_value e, ve_refs = ve_refs e + 1, ve_bytes = ve_bytes e\<rparr>"
      by (cases e) simp
    have "vd_step h d [key] (d\<lparr>vd_pool := jm_set key (e\<lparr>ve_refs := ve_refs e + 1\<rparr>) (vd_pool d)\<rparr>)"
      unfolding eq by (rule vd_step_put [OF assms(1)]) (use e Some in \<open>auto simp: vd_refs_def\<close>)
    then show ?thesis using assms(2) key Some e by (auto simp: pool_value_def)
  next
    case new: None
    obtain b d1 where p: "shouldPromote path key d = (b, d1)" by (cases "shouldPromote path key d")
    have s1: "cand_step d d1" "b \<Longrightarrow> length (vd_pool d1) < vd_maxEntries d1"
      using shouldPromote_step [OF _ p] assms(1) by (auto simp: vd_ok_def)
    have v1: "vd_step h d [] d1" using vd_step_cand [OF s1(1) assms(1)] .
    then have ok1: "vd_ok h d1" "keyFor h d1 v = Some key" "jm_get (vd_pool d1) key = None"
      using key new s1(1) keyFor_config [of d1 d] by (auto simp: vd_step_def cand_step_def)
    show ?thesis
    proof (cases b)
      case True
      let ?d2 = "d1\<lparr>vd_pool := jm_set key \<lparr>ve_value = v, ve_refs = 1, ve_bytes = estimateValue v\<rparr> (vd_pool d1)\<rparr>"
      have v2: "vd_step h d1 [key] ?d2"
        by (rule vd_step_put [OF ok1(1,2)]) (use ok1 s1 True in \<open>auto simp: vd_refs_def\<close>)
      then have ok2: "vd_ok h ?d2" by (simp add: vd_step_def)
      then have "vd_step h ?d2 [] (deleteCandidate path key ?d2)"
        by (intro vd_step_cand deleteCandidate_step) (simp_all add: vd_ok_def)
      with vd_step_trans [OF v1 vd_step_trans [OF v2]] assms(2) key new p True
      show ?thesis by (auto simp: pool_value_def)
    next
      case False
      with assms(2) key new p v1 show ?thesis by (auto simp: pool_value_def)
    qed
  qed
qed

text \<open>
  \<open>store\<close> hands back the value it was given up to the order of keys, and exactly it when only strings are pooled;
  every pool key it adds to \<open>refs\<close> is one more reference counted.
\<close>

definition stored_as :: "host \<Rightarrow> vdir \<Rightarrow> jsv \<Rightarrow> jsv \<Rightarrow> bool" where
  "stored_as h d w v \<longleftrightarrow> same_key h w v \<and> (\<not> vd_poolStructuredValues d \<longrightarrow> w = v)"

lemma stored_as_refl [simp]: "stored_as h d v v"
  by (simp add: stored_as_def)

lemma stored_as_config: "vd_config d = vd_config d' \<Longrightarrow> stored_as h d = stored_as h d'"
  by (intro ext) (auto simp: stored_as_def vd_config_eq)

lemma stored_as_JArr: "list_all2 (stored_as h d) ys xs \<Longrightarrow> stored_as h d (JArr ys) (JArr xs)"
proof -
  assume a: "list_all2 (stored_as h d) ys xs"
  then have "list_all2 (same_key h) ys xs" by (rule list_all2_mono) (simp add: stored_as_def)
  moreover have "\<not> vd_poolStructuredValues d \<Longrightarrow> list_all2 (=) ys xs"
    using a by (rule list_all2_mono) (simp add: stored_as_def)
  ultimately show ?thesis by (simp add: stored_as_def same_key_JArr list_all2_eq)
qed

lemma stored_as_JObj:
  "list_all2 (rel_prod (=) (stored_as h d)) kws kvs \<Longrightarrow> stored_as h d (JObj kws) (JObj kvs)"
proof -
  assume a: "list_all2 (rel_prod (=) (stored_as h d)) kws kvs"
  then have "list_all2 (rel_prod (=) (same_key h)) kws kvs"
    by (rule list_all2_mono) (auto simp: stored_as_def rel_prod.simps)
  moreover have "\<not> vd_poolStructuredValues d \<Longrightarrow> list_all2 (=) kws kvs"
    using a by (rule list_all2_mono) (auto simp: stored_as_def rel_prod.simps)
  ultimately show ?thesis by (simp add: stored_as_def same_key_JObj list_all2_eq)
qed

lemma vd_store_spec:
  "vd_ok h d \<Longrightarrow> vd_store h trusted v refs path d = (w, refs', d') \<Longrightarrow>
     \<exists>new. refs' = refs @ new \<and> vd_step h d new d' \<and> stored_as h d w v"
  "vd_ok h d \<Longrightarrow> cloneWithNestedPooling h trusted v refs path d = (w, refs', d') \<Longrightarrow>
     \<exists>new. refs' = refs @ new \<and> vd_step h d new d' \<and> stored_as h d w v"
  "vd_ok h d \<Longrightarrow> store_items h trusted xs refs path d = (ys, refs', d') \<Longrightarrow>
     \<exists>new. refs' = refs @ new \<and> vd_step h d new d' \<and> list_all2 (stored_as h d) ys xs"
  "vd_ok h d \<Longrightarrow> store_entries h trusted kvs refs path d = (kws, refs', d') \<Longrightarrow>
     \<exists>new. refs' = refs @ new \<and> vd_step h d new d' \<and> list_all2 (rel_prod (=) (stored_as h d)) kws kvs"
proof (induction h trusted v refs path d and h trusted v refs path d and h trusted xs refs path d and
    h trusted kvs refs path d arbitrary: w refs' d' and w refs' d' and ys refs' d' and kws refs' d'
    rule: vd_store_cloneWithNestedPooling_store_items_store_entries.induct)
  case (1 h trusted v refs path d)
  show ?case
  proof (cases "vd_enabled d")
    case False
    with 1(2,3) show ?thesis by (auto simp: vd_step_refl)
  next
    case True
    obtain r d1 where r: "pool_value h v refs path d = (r, d1)" by (cases "pool_value h v refs path d")
    note pv = pool_value_step [OF 1(2) r]
    show ?thesis
    proof (cases r)
      case None
      with pv have v1: "vd_step h d [] d1" by simp
      then have ok1: "vd_ok h d1" "vd_config d1 = vd_config d" by (auto simp: vd_step_def)
      have eq: "cloneWithNestedPooling h trusted v refs path d1 = (w, refs', d')" using 1(3) True r None by simp
      have "\<exists>new. refs' = refs @ new \<and> vd_step h d1 new d' \<and> stored_as h d1 w v"
        by (rule 1(1) [OF _ _ _ ok1(1) eq]) (use True r None in simp_all)
      then obtain new where "refs' = refs @ new" "vd_step h d1 new d'" "stored_as h d1 w v" by auto
      with vd_step_trans [OF v1, of new d'] stored_as_config [OF ok1(2)] show ?thesis by auto
    next
      case (Some p)
      obtain u rs where p: "p = (u, rs)" by (cases p)
      with pv Some obtain key where key: "rs = refs @ [key]" "vd_step h d [key] d1"
        "keyFor h d v = Some key" "keyFor h d u = Some key" by auto
      have "stored_as h d u v"
        using keyFor_same [OF key(4,3)] keyFor_string [of d h u key] keyFor_string [of d h v key] key(3,4)
        by (auto simp: stored_as_def)
      with key 1(3) True r Some p show ?thesis by auto
    qed
  qed
next
  case (2 h trusted xs refs path d)
  show ?case
  proof (cases "trusted \<and> \<not> vd_poolStructuredValues d \<or> vd_maxNestedContainerEntries d < length xs")
    case True
    with 2(2,3) show ?thesis by (auto simp: vd_step_refl split: if_splits)
  next
    case False
    obtain ys rs d1 where s: "store_items h trusted xs refs path d = (ys, rs, d1)"
      by (cases "store_items h trusted xs refs path d")
    with 2 False stored_as_JArr show ?thesis by auto
  qed
next
  case (3 h trusted kvs refs path d)
  show ?case
  proof (cases "trusted \<and> \<not> vd_poolStructuredValues d \<or> vd_maxNestedContainerEntries d < length kvs")
    case True
    with 3(2,3) show ?thesis by (auto simp: vd_step_refl split: if_splits)
  next
    case False
    obtain ys rs d1 where s: "store_entries h trusted kvs refs path d = (ys, rs, d1)"
      by (cases "store_entries h trusted kvs refs path d")
    with 3 False stored_as_JObj show ?thesis by auto
  qed
next
  case (6 h trusted x xs refs path d)
  obtain y rs d1 where s: "vd_store h trusted x refs (path @ ''[]'') d = (y, rs, d1)"
    by (cases "vd_store h trusted x refs (path @ ''[]'') d")
  obtain zs rs2 d2 where t: "store_items h trusted xs rs path d1 = (zs, rs2, d2)"
    by (cases "store_items h trusted xs rs path d1")
  from 6(1) [OF 6(3) s] obtain new where n: "rs = refs @ new" "vd_step h d new d1" "stored_as h d y x" by auto
  then have ok1: "vd_ok h d1" "vd_config d1 = vd_config d" by (auto simp: vd_step_def)
  from 6(2) [OF s [symmetric] refl ok1(1) t] obtain new' where "rs2 = rs @ new'" "vd_step h d1 new' d2"
    "list_all2 (stored_as h d1) zs xs" by auto
  with n ok1 s t 6(4) vd_step_trans [OF n(2)] stored_as_config [OF ok1(2)] show ?case
    by auto
next
  case (8 h trusted k x kvs refs path d)
  obtain y rs d1 where s: "vd_store h trusted x refs (path @ ''.'' @ k) d = (y, rs, d1)"
    by (cases "vd_store h trusted x refs (path @ ''.'' @ k) d")
  obtain zs rs2 d2 where t: "store_entries h trusted kvs rs path d1 = (zs, rs2, d2)"
    by (cases "store_entries h trusted kvs rs path d1")
  from 8(1) [OF 8(3) s] obtain new where n: "rs = refs @ new" "vd_step h d new d1" "stored_as h d y x" by auto
  then have ok1: "vd_ok h d1" "vd_config d1 = vd_config d" by (auto simp: vd_step_def)
  from 8(2) [OF s [symmetric] refl ok1(1) t] obtain new' where "rs2 = rs @ new'" "vd_step h d1 new' d2"
    "list_all2 (rel_prod (=) (stored_as h d1)) zs kvs" by auto
  with n ok1 s t 8(4) vd_step_trans [OF n(2)] stored_as_config [OF ok1(2)] show ?case
    by auto
qed (auto simp: vd_step_refl)

lemma release_config [simp]: "vd_config (release d key) = vd_config d"
  by (simp add: release_def split: option.splits)

lemma release_ok: "vd_ok h d \<Longrightarrow> vd_ok h (release d key)"
proof -
  assume ok: "vd_ok h d"
  have k: "keyFor h (d\<lparr>vd_pool := p\<rparr>) w = keyFor h d w" for p w
    by (rule keyFor_config) simp
  show ?thesis
  proof (cases "jm_get (vd_pool d) key")
    case (Some e)
    with ok k jm_del_length_le [of key "vd_pool d"] show ?thesis
      by (auto simp: release_def vd_ok_def pool_ok_def jm_set_same_length)
  qed (use ok in \<open>simp add: release_def\<close>)
qed

lemma release_refs:
  "vd_ok h d \<Longrightarrow> 0 < vd_refs d key \<Longrightarrow> vd_refs (release d key) k = vd_refs d k - (if k = key then 1 else 0)"
  by (auto simp: release_def vd_refs_def vd_ok_def pool_ok_def split: option.splits) force+

lemma releaseAll_step:
  "vd_ok h d \<Longrightarrow> (\<forall>k. int (count_list refs k) \<le> vd_refs d k) \<Longrightarrow>
   vd_ok h (releaseAll d refs) \<and> vd_config (releaseAll d refs) = vd_config d \<and>
   (\<forall>k. vd_refs (releaseAll d refs) k = vd_refs d k - int (count_list refs k))"
proof (induction refs arbitrary: d)
  case (Cons key refs)
  have "int (count_list (key # refs) key) \<le> vd_refs d key" using Cons.prems(2) by blast
  then have pos: "0 < vd_refs d key" by simp
  note r = release_refs [OF Cons.prems(1) pos]
  have "\<forall>k. int (count_list refs k) \<le> vd_refs (release d key) k"
  proof
    fix k
    have "int (count_list (key # refs) k) \<le> vd_refs d k" using Cons.prems(2) by blast
    then show "int (count_list refs k) \<le> vd_refs (release d key) k" by (simp add: r split: if_splits)
  qed
  from Cons.IH [OF release_ok [OF Cons.prems(1)] this] r show ?case
    by (auto simp: releaseAll_def)
qed (simp add: releaseAll_def)

subsection \<open>The rows\<close>

definition row_refs :: "('k, orow) jmap \<Rightarrow> string \<Rightarrow> int" where
  "row_refs rows key = jm_sum (\<lambda>row. int (count_list (or_refs row) key)) rows"

text \<open>
  The invariant of the store: the directory is well formed and its reference counts are exactly the references the
  rows hold.
\<close>

definition os_ok :: "host \<Rightarrow> 'k ostore \<Rightarrow> bool" where
  "os_ok h s \<longleftrightarrow>
     jm_ok (os_rows s) \<and> vd_ok h (os_dir s) \<and> (\<forall>key. vd_refs (os_dir s) key = row_refs (os_rows s) key)"

lemma newValueDirectory_ok: "vd_ok h (newValueDirectory h options)"
  by (simp add: newValueDirectory_def vd_ok_def cand_ok_def pool_ok_def)

lemma vd_clear_ok: "vd_ok h (vd_clear d)"
  by (simp add: vd_clear_def vd_ok_def cand_ok_def pool_ok_def)

lemma vd_refs_empty [simp]: "vd_refs (vd_clear d) key = 0" "vd_refs (newValueDirectory h options) key = 0"
  by (simp_all add: vd_refs_def vd_clear_def newValueDirectory_def)

lemma newObjectRowStore_ok: "os_ok h (newObjectRowStore h options)"
  by (simp add: newObjectRowStore_def os_ok_def newValueDirectory_ok row_refs_def)

lemma os_clear_ok: "os_ok h (os_clear s)"
  by (simp add: os_clear_def os_ok_def vd_clear_ok row_refs_def)

lemma row_refs_del:
  assumes "jm_ok rows"
  shows "row_refs (jm_del k rows) key =
    row_refs rows key - (case jm_get rows k of None \<Rightarrow> 0 | Some row \<Rightarrow> int (count_list (or_refs row) key))"
  using jm_sum_del [OF assms] by (simp add: row_refs_def)

lemma row_refs_nonneg: "0 \<le> row_refs rows key"
  unfolding row_refs_def by (rule jm_sum_nonneg) simp

lemma os_release_step:
  assumes "os_ok h s"
  shows "vd_ok h (os_release s k) \<and> vd_config (os_release s k) = vd_config (os_dir s) \<and>
    (\<forall>key. vd_refs (os_release s k) key = row_refs (jm_del k (os_rows s)) key)"
proof (cases "jm_get (os_rows s) k")
  case None
  with assms show ?thesis by (simp add: os_release_def os_ok_def jm_del_absent)
next
  case (Some old)
  have ok: "jm_ok (os_rows s)" "vd_ok h (os_dir s)" "\<And>key. vd_refs (os_dir s) key = row_refs (os_rows s) key"
    using assms by (auto simp: os_ok_def)
  have del: "row_refs (jm_del k (os_rows s)) key = row_refs (os_rows s) key - int (count_list (or_refs old) key)" for key
    using row_refs_del [OF ok(1)] Some by simp
  have "int (count_list (or_refs old) key) \<le> vd_refs (os_dir s) key" for key
    using del [of key] row_refs_nonneg [of "jm_del k (os_rows s)" key] ok(3) by simp
  with releaseAll_step [OF ok(2), of "or_refs old"] ok(3) del Some show ?thesis by (simp add: os_release_def)
qed

lemma os_removeObject_ok: "os_ok h s \<Longrightarrow> os_ok h (os_removeObject s k)"
  using os_release_step [of h s k]
  by (auto simp: os_removeObject_def os_release_def os_ok_def split: option.splits)

lemma store_row_spec:
  assumes "vd_ok h d" and "store_row h trusted live row refs d = (row', refs', d')"
  shows "\<exists>new. refs' = refs @ new \<and> vd_step h d new d' \<and>
    (jm_ok live \<longrightarrow>
      (\<forall>f. (case jm_get live f of None \<Rightarrow> jm_get row' f = jm_get row f
        | Some v \<Rightarrow> \<exists>w. jm_get row' f = Some w \<and> stored_as h d w v)))"
  using assms
proof (induction h trusted live row refs d arbitrary: row' refs' d' rule: store_row.induct)
  case (1 h trusted row refs d)
  then show ?case by (auto simp: vd_step_refl)
next
  case (2 h trusted key item live row refs d)
  obtain w rs d1 where s: "vd_store h trusted item refs key d = (w, rs, d1)" by (cases "vd_store h trusted item refs key d")
  from vd_store_spec(1) [OF 2(2) s] obtain new where n: "rs = refs @ new" "vd_step h d new d1" "stored_as h d w item" by auto
  then have ok1: "vd_ok h d1" "vd_config d1 = vd_config d" by (auto simp: vd_step_def)
  have rest: "store_row h trusted live (jm_set key w row) rs d1 = (row', refs', d')" using 2(3) s by simp
  from 2(1) [OF s [symmetric] refl ok1(1) rest] obtain new' where m: "refs' = rs @ new'" "vd_step h d1 new' d'"
    "jm_ok live \<longrightarrow> (\<forall>f. (case jm_get live f of None \<Rightarrow> jm_get row' f = jm_get (jm_set key w row) f
        | Some v \<Rightarrow> \<exists>w. jm_get row' f = Some w \<and> stored_as h d1 w v))" by auto
  have "case jm_get ((key, item) # live) f of None \<Rightarrow> jm_get row' f = jm_get row f
      | Some v \<Rightarrow> \<exists>w. jm_get row' f = Some w \<and> stored_as h d w v" if ok: "jm_ok ((key, item) # live)" for f
  proof (cases "f = key")
    case True
    from ok have "jm_get live key = None" by (simp add: map_of_eq_None_iff)
    moreover have "jm_ok live" using ok by simp
    ultimately have "jm_get row' key = Some w" using m(3) [THEN mp, THEN spec, of key] by simp
    with True n(3) show ?thesis by simp
  next
    case False
    with m(3) [THEN mp, THEN spec, of f] ok stored_as_config [OF ok1(2)] show ?thesis
      by (cases "jm_get live f") auto
  qed
  with n m vd_step_trans [OF n(2) m(2)] show ?case by auto
qed

lemma os_rebuild_spec:
  assumes "os_ok h s" and "jm_ok live"
  shows "os_ok h (os_rebuild h trusted s k live) \<and>
    vd_config (os_dir (os_rebuild h trusted s k live)) = vd_config (os_dir s) \<and>
    (\<forall>k'. k' \<noteq> k \<longrightarrow> os_read (os_rebuild h trusted s k live) k' = os_read s k') \<and>
    (if live = [] then os_read (os_rebuild h trusted s k live) k = None
     else \<exists>row. os_read (os_rebuild h trusted s k live) k = Some row \<and> agree (stored_as h (os_dir s)) row live)"
proof -
  let ?d = "os_release s k"
  have rel: "vd_ok h ?d" "vd_config ?d = vd_config (os_dir s)" "\<And>key. vd_refs ?d key = row_refs (jm_del k (os_rows s)) key"
    using os_release_step [OF assms(1), of k] by auto
  have rows: "jm_ok (os_rows s)" using assms(1) by (simp add: os_ok_def)
  show ?thesis
  proof (cases "live = []")
    case True
    with rel rows show ?thesis by (auto simp: os_rebuild_def os_ok_def os_read_def Let_def)
  next
    case False
    obtain row refs d' where r: "store_row h trusted live [] [] ?d = (row, refs, d')"
      by (cases "store_row h trusted live [] [] ?d")
    from store_row_spec [OF rel(1) r] obtain new where n: "refs = new" "vd_step h ?d new d'"
      "\<forall>f. (case jm_get live f of None \<Rightarrow> jm_get row f = jm_get [] f
         | Some v \<Rightarrow> \<exists>w. jm_get row f = Some w \<and> stored_as h ?d w v)" using assms(2) by auto
    have refs: "row_refs (jm_set k \<lparr>or_value = row, or_refs = refs\<rparr> (jm_del k (os_rows s))) key =
        row_refs (jm_del k (os_rows s)) key + int (count_list refs key)" for key
      using rows by (simp add: row_refs_def jm_sum_set)
    have "agree (stored_as h (os_dir s)) row live"
      unfolding agree_def
    proof
      fix f
      show "rel_option (stored_as h (os_dir s)) (jm_get row f) (jm_get live f)"
        using spec [OF n(3), of f] stored_as_config [OF rel(2)] by (cases "jm_get live f") auto
    qed
    with False r n rel refs rows show ?thesis
      by (auto simp: os_rebuild_def os_ok_def os_read_def Let_def vd_step_def)
  qed
qed

text \<open>The row store keeps its contract, whatever the options, with writes that are trusted or not.\<close>

definition os_fits :: "'k ostore \<Rightarrow> 'k \<Rightarrow> jobj \<Rightarrow> bool" where
  "os_fits s k live \<longleftrightarrow> jm_ok live"

interpretation object_rows: row_store "newObjectRowStore h options :: 'k ostore" "os_rebuild h trusted" os_removeObject
    os_clear os_read "os_ok h" os_fits "same_key h"
proof (unfold_locales, goal_cases)
  case 1 show ?case by (rule newObjectRowStore_ok)
next
  case (2 s k live) then show ?case by (simp add: os_fits_def os_rebuild_spec)
next
  case (3 s k) then show ?case by (rule os_removeObject_ok)
next
  case (4 s) show ?case by (rule os_clear_ok)
next
  case (5 k) show ?case by (simp add: newObjectRowStore_def os_read_def)
next
  case (6 s k live)
  have "agree (stored_as h (os_dir s)) row live \<Longrightarrow> agree (same_key h) row live" for row
    by (erule agree_mono) (simp add: stored_as_def)
  with 6 os_rebuild_spec [of h s live trusted k] show ?case by (auto simp: os_fits_def)
next
  case (7 s k live k') then show ?case using os_rebuild_spec [of h s live trusted k] by (auto simp: os_fits_def)
next
  case (8 s k k') then show ?case by (auto simp: os_removeObject_def os_read_def split: option.splits)
next
  case (9 s k) show ?case by (simp add: os_clear_def os_read_def)
qed

subsection \<open>Properties\<close>

fun row_op_ok :: "'k row_op \<Rightarrow> bool" where
  "row_op_ok (Rebuild k live) = jm_ok live"
| "row_op_ok _ = True"

abbreviation os_run :: "host \<Rightarrow> bool \<Rightarrow> jobj \<Rightarrow> 'k row_op list \<Rightarrow> 'k ostore" where
  "os_run h trusted options ops \<equiv>
     foldl (row_step (os_rebuild h trusted) os_removeObject os_clear) (newObjectRowStore h options) ops"

lemma object_fits_all: "list_all row_op_ok ops \<Longrightarrow> object_rows.fits_all h trusted s ops"
proof (induction ops arbitrary: s)
  case (Cons p ops)
  then show ?case by (cases p; simp; simp add: os_fits_def)
qed simp

lemma os_run_ok: "list_all row_op_ok ops \<Longrightarrow> os_ok h (os_run h trusted options ops)"
  by (rule object_rows.invar_run [OF newObjectRowStore_ok object_fits_all])

lemma os_step_config:
  assumes "os_ok h s" and "row_op_ok p"
  shows "vd_config (os_dir (row_step (os_rebuild h trusted) os_removeObject os_clear s p)) = vd_config (os_dir s)"
proof (cases p)
  case (Rebuild k live)
  with assms os_rebuild_spec [of h s live trusted k] show ?thesis by simp
next
  case (Remove k)
  with os_release_step [OF assms(1), of k] show ?thesis
    by (auto simp: os_removeObject_def os_release_def split: option.splits)
next
  case Clear
  then show ?thesis by (simp add: os_clear_def vd_clear_def vd_config_def)
qed

lemma os_run_config:
  assumes "list_all row_op_ok ops"
  shows "vd_config (os_dir (os_run h trusted options ops)) =
    vd_config (newValueDirectory h (entries_of (oget options ''valueDirectory'')))"
  using assms
proof (induction ops rule: rev_induct)
  case Nil
  show ?case by (simp add: newObjectRowStore_def)
next
  case (snoc p ops)
  with os_step_config [OF os_run_ok, of ops p] show ?case by simp
qed

text \<open>C17: The object engine is a map from ids to rows: after any run of rebuilds (with distinct field names), removals and clears, trusted
or not and under any value-directory options, reading an id gives the fields of its last rebuild, each with the
stable key it was written with, and nothing when it was removed, cleared or rebuilt with no field.\<close>

theorem object_rows_refine:
  assumes "list_all row_op_ok ops"
  shows "rel_option (agree (same_key h)) (os_read (os_run h trusted options ops) k)
    (foldl row_spec (\<lambda>k. None) ops k)"
  using assms by (intro object_rows.run_from_empty object_fits_all)

theorem object_rows_refine_witness:
  "rel_option (agree (same_key plain_host))
    (os_read (os_run plain_host False []
      [Rebuild (1 :: nat) [(''a'', JStr ''x'')], Rebuild 2 [(''a'', JStr ''x''), (''b'', JNull)], Remove 1]) 2)
    (Some [(''a'', JStr ''x''), (''b'', JNull)])"
  using object_rows_refine [of "[Rebuild (1 :: nat) [(''a'', JStr ''x'')],
      Rebuild 2 [(''a'', JStr ''x''), (''b'', JNull)], Remove 1]" plain_host False "[]" 2]
  by simp

text \<open>Without pooling of structured values the object engine returns exactly what was written: a row rebuilt in any
reachable state has, field by field, the values it was given, however many strings it shares with other rows.\<close>

theorem object_rows_exact:
  assumes "list_all row_op_ok ops" and "jm_ok live" and "live \<noteq> []"
    and "oget (entries_of (oget options ''valueDirectory'')) ''poolStructuredValues'' \<noteq> JBool True"
    and "os_rebuild h trusted (os_run h trusted options ops) k live = s"
  shows "\<exists>row. os_read s k = Some row \<and> map_of row = map_of live"
proof -
  let ?s = "os_run h trusted options ops"
  have plain: "\<not> vd_poolStructuredValues (os_dir ?s)"
    using os_run_config [OF assms(1), of h trusted options] assms(4)
    by (auto simp: vd_config_eq newValueDirectory_def oget_def split: option.splits)
  have ok: "os_ok h ?s" by (rule os_run_ok [OF assms(1)])
  from os_rebuild_spec [OF ok assms(2), of trusted k] assms(3,5)
  obtain row where row: "os_read s k = Some row" "agree (stored_as h (os_dir ?s)) row live" by auto
  have "agree (=) row live" using row(2) by (rule agree_mono) (use plain in \<open>simp add: stored_as_def\<close>)
  then have "map_of row = map_of live" by (auto simp: agree_def option.rel_eq)
  with row(1) show ?thesis by blast
qed

theorem object_rows_exact_witness:
  "\<exists>row. os_read (os_rebuild plain_host True (os_run plain_host True [] [Rebuild (1 :: nat) [(''a'', JStr ''x'')]]) 2
      [(''a'', JStr ''x''), (''c'', JArr [JStr ''x''])]) 2 = Some row \<and>
    map_of row = map_of [(''a'', JStr ''x''), (''c'', JArr [JStr ''x''])]"
  by (rule object_rows_exact [OF _ _ _ _ refl]) (simp_all add: oget_def)

text \<open>C22: Shared values are reclaimed exactly: in every reachable state the reference count of a pooled value is the number of
references the rows hold, it is positive, and a value no row refers to is not in the pool; so a store without rows has an
empty pool.\<close>

theorem object_refs_exact:
  assumes "list_all row_op_ok ops" and "s = os_run h trusted options ops"
  shows "(case jm_get (vd_pool (os_dir s)) key of
            Some e \<Rightarrow> ve_refs e = row_refs (os_rows s) key \<and> 0 < ve_refs e
          | None \<Rightarrow> row_refs (os_rows s) key = 0) \<and>
         (os_rows s = [] \<longrightarrow> vd_pool (os_dir s) = [])"
proof -
  have ok: "os_ok h s" using os_run_ok [OF assms(1)] assms(2) by simp
  have each: "case jm_get (vd_pool (os_dir s)) k of
      Some e \<Rightarrow> ve_refs e = row_refs (os_rows s) k \<and> 0 < ve_refs e | None \<Rightarrow> row_refs (os_rows s) k = 0" for k
  proof -
    have "vd_refs (os_dir s) k = row_refs (os_rows s) k" using ok by (simp add: os_ok_def)
    moreover have "jm_get (vd_pool (os_dir s)) k = Some e \<Longrightarrow> 0 < ve_refs e" for e
      using ok by (auto simp: os_ok_def vd_ok_def pool_ok_def)
    ultimately show ?thesis by (auto simp: vd_refs_def split: option.splits)
  qed
  moreover have "vd_pool (os_dir s) = []" if "os_rows s = []"
  proof -
    have "jm_get (vd_pool (os_dir s)) k = None" for k
      using each [of k] that by (auto simp: row_refs_def split: option.splits)
    then show ?thesis by (cases "vd_pool (os_dir s)") (auto split: if_splits, metis option.distinct(1))
  qed
  ultimately show ?thesis by blast
qed

theorem object_refs_exact_witness:
  "(case jm_get (vd_pool (os_dir (os_run plain_host False []
        [Rebuild (1 :: nat) [(''a'', JStr ''x'')], Rebuild 2 [(''a'', JStr ''x'')], Rebuild 3 [(''a'', JStr ''x'')]])))
      ''string:x'' of
     Some e \<Rightarrow> ve_refs e = 2 | None \<Rightarrow> False)"
proof -
  let ?ops = "[Rebuild (1 :: nat) [(''a'', JStr ''x'')], Rebuild 2 [(''a'', JStr ''x'')], Rebuild 3 [(''a'', JStr ''x'')]]"
  have "row_refs (os_rows (os_run plain_host False [] ?ops)) ''string:x'' = 2"
    by (simp add: newObjectRowStore_def newValueDirectory_def vd_option_def oget_def os_rebuild_def os_release_def
        pool_value_def keyFor_def shouldPromote_def candidatesForPath_def rememberCandidate_def make_room.simps
        path_candidates_def deleteCandidate_def path_name_def row_refs_def)
  with object_refs_exact [of ?ops, OF _ refl, of plain_host False "[]" "''string:x''"] show ?thesis
    by (auto split: option.splits)
qed

text \<open>The value directory stays within its limits in every reachable state: at most \<open>maxEntries\<close> pooled values,
at most \<open>maxPaths\<close> tracked paths, and a candidate counter that is exact, never negative and at most \<open>maxCandidates\<close>.\<close>

theorem object_directory_bounds:
  assumes "list_all row_op_ok ops" and "d = os_dir (os_run h trusted options ops)"
    and "dopts = entries_of (oget options ''valueDirectory'')"
  shows "length (vd_pool d) \<le> vd_option h dopts ''maxEntries'' 100000 \<and>
    length (vd_paths d) \<le> vd_option h dopts ''maxPaths'' 1024 \<and>
    vd_count d = int (candidate_total (vd_paths d)) \<and>
    candidate_total (vd_paths d) \<le> vd_option h dopts ''maxCandidates'' 4096"
proof -
  have ok: "vd_ok h d" using os_run_ok [OF assms(1), of h trusted options] assms(2) by (simp add: os_ok_def)
  have "jm_sum (\<lambda>cs. int (length cs)) ps = int (candidate_total ps)" for ps :: "(string, (string, nat) jmap) jmap"
    by (induction ps) (auto simp: candidate_total_def)
  with ok os_run_config [OF assms(1), of h trusted options] assms(2,3) show ?thesis
    by (simp add: vd_ok_def cand_ok_def pool_ok_def vd_config_eq newValueDirectory_def)
qed

theorem object_directory_bounds_witness:
  "length (vd_pool (os_dir (os_run plain_host False
      [(''valueDirectory'', JObj [(''maxEntries'', JNum (Fin 1))])]
      [Rebuild (1 :: nat) [(''a'', JStr ''x'')], Rebuild 2 [(''a'', JStr ''x'')]]))) \<le> 1"
proof -
  let ?options = "[(''valueDirectory'', JObj [(''maxEntries'', JNum (Fin 1))])]"
  have "vd_option plain_host (entries_of (oget ?options ''valueDirectory'')) ''maxEntries'' 100000 = 1"
    by (simp add: vd_option_def positiveInt_def oget_def)
  with object_directory_bounds [of "[Rebuild (1 :: nat) [(''a'', JStr ''x'')], Rebuild 2 [(''a'', JStr ''x'')]]",
      OF _ refl refl, of plain_host False ?options]
  show ?thesis by simp
qed

end
