(* ===== verification/ShapeStore.thy ===== *)
theory ShapeStore
  imports RowStore
begin

text \<open>
  The columnar row store of src/src/shape.js. Rows with the same set of field names share a shape; a shape keeps
  one dictionary-encoded column per field and a map from ids to row numbers, with a free list; the store maps ids to
  the shape that holds them. A shape is found by a 32-bit hash of its layout.

  A column's slot that was never written reads as code 0, the code of \<open>undefined\<close>; a popped free list is a list taken from
  its head. The stable key of a column carries the kind of the value in front.
\<close>

definition valueKind :: "jsv \<Rightarrow> string" where
  "valueKind v = (case v of JNull \<Rightarrow> ''null'' | JArr xs \<Rightarrow> ''array'' | _ \<Rightarrow> js_typeof v)"

definition shape_key :: "host \<Rightarrow> jsv \<Rightarrow> string" where
  "shape_key h v = valueKind v @ '':'' @ shown (json_stringify h (sortForKey h v))"

definition layoutOf :: "jobj \<Rightarrow> string list" where
  "layoutOf entries =
     js_sort (\<lambda>a b. if a < b then - 1 else if b < a then 1 else 0) (js_unique (map fst entries))"

text \<open>\<open>JSON.stringify\<close> of a layout, a list of \<open>{name}\<close>.\<close>

definition layout_text :: "string list \<Rightarrow> string" where
  "layout_text flds =
     ''['' @ join_with '','' (map (\<lambda>f. ''{'' @ json_quote ''name'' @ '':'' @ json_quote f @ ''}'') flds) @ '']''"

definition shapeId :: "string list \<Rightarrow> string" where
  "shapeId flds = hex8 (fnv1a (layout_text flds))"

subsection \<open>Columns\<close>

record vcolumn =
  vc_codes :: "nat list"
  vc_keys :: "(string, nat) jmap"
  vc_values :: "jsv list"
  vc_refs :: "int list"
  vc_free :: "nat list"

definition newValueColumn :: vcolumn where
  "newValueColumn = \<lparr>vc_codes = replicate 8 0, vc_keys = [], vc_values = [JUndef], vc_refs = [0], vc_free = []\<rparr>"

function grow_cap :: "nat \<Rightarrow> nat \<Rightarrow> nat" where
  "grow_cap row cap = (if row < cap \<or> cap = 0 then cap else grow_cap row (cap * 2))"
  by pat_completeness auto
termination by (relation "measure (\<lambda>(row, cap). Suc row - cap)") auto

declare grow_cap.simps [simp del]

definition col_ensure :: "vcolumn \<Rightarrow> nat \<Rightarrow> vcolumn" where
  "col_ensure col row =
     (if row < length (vc_codes col) then col
      else let cap = grow_cap row (if vc_codes col = [] then 8 else length (vc_codes col))
           in col\<lparr>vc_codes := vc_codes col @ replicate (cap - length (vc_codes col)) 0\<rparr>)"

definition col_release :: "host \<Rightarrow> vcolumn \<Rightarrow> nat \<Rightarrow> vcolumn" where
  "col_release h col code =
     (let n = js_at 0 (vc_refs col) code - 1; col' = col\<lparr>vc_refs := js_put 0 (vc_refs col) code n\<rparr> in
      if 0 < n then col'
      else let key = shape_key h (js_at JUndef (vc_values col') code) in
        col'\<lparr>vc_keys := jm_del key (vc_keys col'), vc_values := js_put JUndef (vc_values col') code JUndef,
             vc_refs := js_put 0 (vc_refs col') code 0, vc_free := code # vc_free col'\<rparr>)"

definition col_codeFor :: "host \<Rightarrow> vcolumn \<Rightarrow> jsv \<Rightarrow> nat \<times> vcolumn" where
  "col_codeFor h col v =
     (let key = shape_key h v;
          fresh = (case vc_free col of
                     [] \<Rightarrow> (length (vc_values col), [])
                   | c # cs \<Rightarrow> (if c = 0 then length (vc_values col) else c, cs));
          alloc = (fst fresh,
                   col\<lparr>vc_keys := jm_set key (fst fresh) (vc_keys col),
                       vc_values := js_put JUndef (vc_values col) (fst fresh) v,
                       vc_refs := js_put 0 (vc_refs col) (fst fresh) 0, vc_free := snd fresh\<rparr>)
      in case jm_get (vc_keys col) key of
           Some code \<Rightarrow> if code \<noteq> 0 then (code, col) else alloc
         | None \<Rightarrow> alloc)"

definition col_set :: "host \<Rightarrow> vcolumn \<Rightarrow> nat \<Rightarrow> jsv \<Rightarrow> vcolumn" where
  "col_set h col row v =
     (let col1 = col_ensure col row;
          oldCode = js_at 0 (vc_codes col1) row;
          col2 = (if oldCode \<noteq> 0 then col_release h col1 oldCode else col1)
      in case col_codeFor h col2 v of
           (nextCode, col3) \<Rightarrow>
             col3\<lparr>vc_refs := js_put 0 (vc_refs col3) nextCode (js_at 0 (vc_refs col3) nextCode + 1),
                  vc_codes := js_put 0 (vc_codes col3) row nextCode\<rparr>)"

definition col_get :: "vcolumn \<Rightarrow> nat \<Rightarrow> jsv" where
  "col_get col row = js_at JUndef (vc_values col) (js_at 0 (vc_codes col) row)"

definition col_clear :: "host \<Rightarrow> vcolumn \<Rightarrow> nat \<Rightarrow> vcolumn" where
  "col_clear h col row =
     (let code = js_at 0 (vc_codes col) row in
      if code = 0 then col
      else let col' = col_release h col code in col'\<lparr>vc_codes := js_put 0 (vc_codes col') row 0\<rparr>)"

subsection \<open>Shapes\<close>

record 'k shape =
  sh_id :: string
  sh_fields :: "string list"
  sh_columns :: "(string, vcolumn) jmap"
  sh_rows :: "('k, nat) jmap"
  sh_free :: "nat list"
  sh_length :: nat

definition newShape :: "string list \<Rightarrow> 'k shape" where
  "newShape flds =
     \<lparr>sh_id = shapeId flds, sh_fields = flds,
      sh_columns = foldl (\<lambda>cols f. jm_set f newValueColumn cols) [] flds,
      sh_rows = [], sh_free = [], sh_length = 0\<rparr>"

definition hasField :: "'k shape \<Rightarrow> string \<Rightarrow> bool" where
  "hasField sh name \<longleftrightarrow> name \<in> set (sh_fields sh)"

definition sh_column :: "'k shape \<Rightarrow> string \<Rightarrow> vcolumn" where
  "sh_column sh f = (case jm_get (sh_columns sh) f of Some col \<Rightarrow> col | None \<Rightarrow> newValueColumn)"

text \<open>A loop over the flds that updates each field's column.\<close>

definition each_column :: "(string \<Rightarrow> vcolumn \<Rightarrow> vcolumn) \<Rightarrow> 'k shape \<Rightarrow> 'k shape" where
  "each_column g sh =
     sh\<lparr>sh_columns := foldl (\<lambda>cols f. case jm_get cols f of None \<Rightarrow> cols | Some col \<Rightarrow> jm_set f (g f col) cols)
                        (sh_columns sh) (sh_fields sh)\<rparr>"

definition sh_push :: "host \<Rightarrow> 'k shape \<Rightarrow> 'k \<Rightarrow> jobj \<Rightarrow> 'k shape" where
  "sh_push h sh k vals =
     (let r = (case sh_free sh of [] \<Rightarrow> (sh_length sh, [], sh_length sh + 1) | x # xs \<Rightarrow> (x, xs, sh_length sh));
          row = fst r;
          sh1 = sh\<lparr>sh_free := fst (snd r), sh_length := snd (snd r)\<rparr>;
          sh2 = each_column (\<lambda>f col. col_ensure col row) sh1;
          sh3 = sh2\<lparr>sh_rows := jm_set k row (sh_rows sh2)\<rparr>
      in each_column (\<lambda>f col. col_set h col row (oget vals f)) sh3)"

definition sh_set :: "host \<Rightarrow> 'k shape \<Rightarrow> 'k \<Rightarrow> string \<Rightarrow> jsv \<Rightarrow> 'k shape \<times> bool" where
  "sh_set h sh k name v =
     (case jm_get (sh_rows sh) k of
        None \<Rightarrow> (sh, False)
      | Some row \<Rightarrow>
          if \<not> hasField sh name then (sh, False)
          else (sh\<lparr>sh_columns := jm_set name (col_set h (sh_column sh name) row v) (sh_columns sh)\<rparr>, True))"

definition sh_remove :: "host \<Rightarrow> 'k shape \<Rightarrow> 'k \<Rightarrow> 'k shape" where
  "sh_remove h sh k =
     (case jm_get (sh_rows sh) k of
        None \<Rightarrow> sh
      | Some row \<Rightarrow>
          let sh1 = each_column (\<lambda>f col. col_clear h col row) sh
          in sh1\<lparr>sh_rows := jm_del k (sh_rows sh1), sh_free := row # sh_free sh1\<rparr>)"

definition sh_read :: "'k shape \<Rightarrow> 'k \<Rightarrow> jobj option" where
  "sh_read sh k =
     (case jm_get (sh_rows sh) k of
        None \<Rightarrow> None
      | Some row \<Rightarrow> Some (foldl (\<lambda>out f. jm_set f (col_get (sh_column sh f) row) out) [] (sh_fields sh)))"

subsection \<open>The store\<close>

record 'k sstore =
  ss_shapes :: "(string, 'k shape) jmap"
  ss_loc :: "('k, string) jmap"

definition newShapeStore :: "'k sstore" where
  "newShapeStore = \<lparr>ss_shapes = [], ss_loc = []\<rparr>"

definition ensureShape :: "'k sstore \<Rightarrow> string list \<Rightarrow> 'k shape \<times> 'k sstore" where
  "ensureShape s layout =
     (case jm_get (ss_shapes s) (shapeId layout) of
        Some sh \<Rightarrow> (sh, s)
      | None \<Rightarrow> let sh = newShape layout in (sh, s\<lparr>ss_shapes := jm_set (shapeId layout) sh (ss_shapes s)\<rparr>))"

definition ss_removeObject :: "host \<Rightarrow> 'k sstore \<Rightarrow> 'k \<Rightarrow> 'k sstore" where
  "ss_removeObject h s k =
     (case jm_get (ss_loc s) k of
        None \<Rightarrow> s
      | Some i \<Rightarrow>
          (case jm_get (ss_shapes s) i of
             None \<Rightarrow> s
           | Some sh \<Rightarrow>
               let sh' = sh_remove h sh k in
               \<lparr>ss_shapes = (if sh_rows sh' = [] then jm_del i (ss_shapes s) else jm_set i sh' (ss_shapes s)),
                ss_loc = jm_del k (ss_loc s)\<rparr>))"

definition ss_rebuild :: "host \<Rightarrow> 'k sstore \<Rightarrow> 'k \<Rightarrow> jobj \<Rightarrow> 'k sstore" where
  "ss_rebuild h s k live =
     (let s1 = ss_removeObject h s k in
      if live = [] then s1
      else (case ensureShape s1 (layoutOf live) of
              (sh, s2) \<Rightarrow>
                \<lparr>ss_shapes = jm_set (shapeId (layoutOf live)) (sh_push h sh k live) (ss_shapes s2),
                 ss_loc = jm_set k (sh_id sh) (ss_loc s2)\<rparr>))"

definition writeField :: "host \<Rightarrow> 'k sstore \<Rightarrow> 'k \<Rightarrow> string \<Rightarrow> jsv \<Rightarrow> jobj \<Rightarrow> 'k sstore" where
  "writeField h s k field v live =
     (case jm_get (ss_loc s) k of
        None \<Rightarrow> ss_rebuild h s k live
      | Some i \<Rightarrow>
          (case jm_get (ss_shapes s) i of
             None \<Rightarrow> ss_rebuild h s k live
           | Some sh \<Rightarrow>
               if hasField sh field then s\<lparr>ss_shapes := jm_set i (fst (sh_set h sh k field v)) (ss_shapes s)\<rparr>
               else ss_rebuild h s k live))"

definition ss_clear :: "'k sstore \<Rightarrow> 'k sstore" where
  "ss_clear s = \<lparr>ss_shapes = [], ss_loc = []\<rparr>"

definition ss_read :: "'k sstore \<Rightarrow> 'k \<Rightarrow> jobj option" where
  "ss_read s k =
     (case jm_get (ss_loc s) k of
        None \<Rightarrow> None
      | Some i \<Rightarrow> (case jm_get (ss_shapes s) i of None \<Rightarrow> None | Some sh \<Rightarrow> sh_read sh k))"

text \<open>The estimates the statistics report.\<close>

definition estBytes :: "host \<Rightarrow> jsv \<Rightarrow> nat" where
  "estBytes h v =
     (case v of
        JUndef \<Rightarrow> 0 | JNull \<Rightarrow> 0 | JNum n \<Rightarrow> 8 | JBool b \<Rightarrow> 1 | JStr s \<Rightarrow> length s * 2
      | _ \<Rightarrow> length (json_text h v) * 2)"

definition col_bytes :: "host \<Rightarrow> vcolumn \<Rightarrow> nat" where
  "col_bytes h col =
     length (vc_codes col) * 8 + sum_list (map (estBytes h) (filter (\<lambda>v. v \<noteq> JUndef) (vc_values col)))"

definition sh_bytes :: "host \<Rightarrow> 'k shape \<Rightarrow> nat" where
  "sh_bytes h sh = sum_list (map (\<lambda>f. col_bytes h (sh_column sh f)) (sh_fields sh))"

subsection \<open>Columns keep what is written\<close>

text \<open>
  The dictionary of a column, relative to the number of slots \<open>cnt c\<close> that hold a code: reference counts, the map from keys
  to codes and the free list all say the same.
\<close>

definition refs_ok :: "(nat \<Rightarrow> nat) \<Rightarrow> vcolumn \<Rightarrow> bool" where
  "refs_ok cnt col \<longleftrightarrow>
     0 < length (vc_values col) \<and> length (vc_refs col) = length (vc_values col) \<and>
     js_at JUndef (vc_values col) 0 = JUndef \<and>
     (\<forall>c. 0 < c \<longrightarrow> js_at 0 (vc_refs col) c = int (cnt c)) \<and>
     (\<forall>c. length (vc_values col) \<le> c \<longrightarrow> cnt c = 0)"

definition keys_ok :: "host \<Rightarrow> (nat \<Rightarrow> nat) \<Rightarrow> vcolumn \<Rightarrow> bool" where
  "keys_ok h cnt col \<longleftrightarrow>
     (\<forall>key c. jm_get (vc_keys col) key = Some c \<longleftrightarrow>
        0 < c \<and> 0 < cnt c \<and> shape_key h (js_at JUndef (vc_values col) c) = key)"

definition free_ok :: "(nat \<Rightarrow> nat) \<Rightarrow> vcolumn \<Rightarrow> bool" where
  "free_ok cnt col \<longleftrightarrow>
     distinct (vc_free col) \<and> set (vc_free col) = {c. 0 < c \<and> c < length (vc_values col) \<and> cnt c = 0}"

definition dict_ok :: "host \<Rightarrow> (nat \<Rightarrow> nat) \<Rightarrow> vcolumn \<Rightarrow> bool" where
  "dict_ok h cnt col \<longleftrightarrow> refs_ok cnt col \<and> keys_ok h cnt col \<and> free_ok cnt col"

definition col_ok :: "host \<Rightarrow> vcolumn \<Rightarrow> bool" where
  "col_ok h col \<longleftrightarrow> dict_ok h (slots (vc_codes col)) col"

lemma dict_ok_codes [simp]: "dict_ok h cnt (col\<lparr>vc_codes := codes\<rparr>) = dict_ok h cnt col"
  by (simp add: dict_ok_def refs_ok_def keys_ok_def free_ok_def)

lemma col_ok_new: "col_ok h newValueColumn"
  by (auto simp: col_ok_def dict_ok_def refs_ok_def keys_ok_def free_ok_def slots_def newValueColumn_def js_at_def
      numeral_eq_Suc)

lemma grow_cap_gt: "0 < cap \<Longrightarrow> row < grow_cap row cap"
proof (induction row cap rule: grow_cap.induct)
  case (1 row cap)
  then show ?case by (cases "row < cap") (auto simp: grow_cap.simps [of row cap])
qed

lemma grow_cap_ge: "cap \<le> grow_cap row cap"
proof (induction row cap rule: grow_cap.induct)
  case (1 row cap)
  then show ?case by (cases "row < cap \<or> cap = 0") (auto simp: grow_cap.simps [of row cap])
qed

lemma col_ensure_spec:
  "\<exists>n. col_ensure col row = col\<lparr>vc_codes := vc_codes col @ replicate n 0\<rparr> \<and> row < length (vc_codes (col_ensure col row))"
proof (cases "row < length (vc_codes col)")
  case True
  then show ?thesis by (intro exI [of _ 0]) (simp add: col_ensure_def)
next
  case False
  let ?m = "if vc_codes col = [] then 8 else length (vc_codes col)"
  have "row < grow_cap row ?m" "?m \<le> grow_cap row ?m" by (simp_all add: grow_cap_gt grow_cap_ge)
  then show ?thesis using False by (intro exI [of _ "grow_cap row ?m - length (vc_codes col)"]) (auto simp: col_ensure_def Let_def)
qed

lemma col_ensure_ok: "col_ok h col \<Longrightarrow> col_ok h (col_ensure col row)"
proof -
  assume ok: "col_ok h col"
  obtain n where n: "col_ensure col row = col\<lparr>vc_codes := vc_codes col @ replicate n 0\<rparr>" using col_ensure_spec by blast
  then have "slots (vc_codes (col_ensure col row)) = slots (vc_codes col)"
    by (auto simp: slots_def count_list_replicate_other)
  with ok n show ?thesis by (simp add: col_ok_def)
qed

lemma col_ensure_get [simp]: "col_get (col_ensure col row) r = col_get col r"
proof -
  obtain n where n: "col_ensure col row = col\<lparr>vc_codes := vc_codes col @ replicate n 0\<rparr>" using col_ensure_spec by blast
  show ?thesis by (auto simp: n col_get_def js_at_def nth_append)
qed

lemma refs_ok_lt: "refs_ok cnt col \<Longrightarrow> 0 < cnt c \<Longrightarrow> c < length (vc_values col)"
  unfolding refs_ok_def by (metis less_irrefl not_le)

lemma free_ok_cong:
  "free_ok cnt col \<Longrightarrow> (\<And>c. cnt' c = 0 \<longleftrightarrow> cnt c = 0) \<Longrightarrow> vc_free col' = vc_free col \<Longrightarrow>
   length (vc_values col') = length (vc_values col) \<Longrightarrow> free_ok cnt' col'"
  by (simp add: free_ok_def)

lemma keys_ok_unique:
  "keys_ok h cnt col \<Longrightarrow> 0 < c \<Longrightarrow> 0 < cnt c \<Longrightarrow> 0 < c' \<Longrightarrow> 0 < cnt c' \<Longrightarrow>
   shape_key h (js_at JUndef (vc_values col) c) = shape_key h (js_at JUndef (vc_values col) c') \<Longrightarrow> c = c'"
  unfolding keys_ok_def by (metis option.inject)

lemma col_release_ok:
  assumes "dict_ok h cnt col" and "0 < c" and "0 < cnt c"
  shows "dict_ok h (cnt(c := cnt c - 1)) (col_release h col c) \<and> vc_codes (col_release h col c) = vc_codes col \<and>
    (\<forall>c'. c' = 0 \<or> 0 < (cnt(c := cnt c - 1)) c' \<longrightarrow>
       js_at JUndef (vc_values (col_release h col c)) c' = js_at JUndef (vc_values col) c')"
proof -
  have ok: "refs_ok cnt col" "keys_ok h cnt col" "free_ok cnt col" using assms(1) by (auto simp: dict_ok_def)
  have lt: "c < length (vc_values col)" using refs_ok_lt [OF ok(1) assms(3)] .
  have refs: "js_at 0 (vc_refs col) c = int (cnt c)" using ok(1) assms by (simp add: refs_ok_def)
  show ?thesis
  proof (cases "cnt c = 1")
    case False
    then have r: "col_release h col c = col\<lparr>vc_refs := js_put 0 (vc_refs col) c (int (cnt c) - 1)\<rparr>"
      using refs assms(3) by (simp add: col_release_def Let_def)
    have "refs_ok (cnt(c := cnt c - 1)) (col_release h col c)"
      using ok(1) lt False assms unfolding refs_ok_def r by (simp add: max_absorb1 Suc_leI)
    moreover have "keys_ok h (cnt(c := cnt c - 1)) (col_release h col c)"
      using ok(2) False assms by (simp add: r keys_ok_def)
    moreover have "free_ok (cnt(c := cnt c - 1)) (col_release h col c)"
      by (rule free_ok_cong [OF ok(3)]) (use False assms(3) in \<open>simp_all add: r\<close>)
    ultimately show ?thesis by (simp add: dict_ok_def r)
  next
    case True
    let ?key = "shape_key h (js_at JUndef (vc_values col) c)"
    let ?col = "col\<lparr>vc_refs := js_put 0 (js_put 0 (vc_refs col) c 0) c 0, vc_keys := jm_del ?key (vc_keys col),
      vc_values := js_put JUndef (vc_values col) c JUndef, vc_free := c # vc_free col\<rparr>"
    have r: "col_release h col c = ?col" using refs True by (simp add: col_release_def Let_def)
    have "refs_ok (cnt(c := cnt c - 1)) ?col"
      using ok(1) lt True assms unfolding refs_ok_def by (simp add: max_absorb1 Suc_leI)
    moreover have "keys_ok h (cnt(c := cnt c - 1)) ?col"
    proof -
      have "(jm_get (jm_del ?key (vc_keys col)) key = Some c') \<longleftrightarrow> 0 < c' \<and> c' \<noteq> c \<and> 0 < cnt c' \<and>
          shape_key h (js_at JUndef (vc_values col) c') = key" for key c'
      proof (cases "c' = c \<or> key = ?key")
        case False
        then show ?thesis using ok(2) by (simp add: keys_ok_def)
      next
        case True
        then show ?thesis
        proof
          assume "c' = c"
          then show ?thesis using ok(2) by (simp add: keys_ok_def)
        next
          assume "key = ?key"
          then show ?thesis using keys_ok_unique [OF ok(2) assms(2,3), of c'] by auto
        qed
      qed
      then show ?thesis using True by (simp add: keys_ok_def del: jm_get_del)
    qed
    moreover have "free_ok (cnt(c := cnt c - 1)) ?col"
    proof -
      have f: "c' \<in> set (vc_free col) \<longleftrightarrow> 0 < c' \<and> c' < length (vc_values col) \<and> cnt c' = 0" for c'
        using ok(3) by (simp add: free_ok_def)
      have "set (c # vc_free col) = {c'. 0 < c' \<and> c' < max (length (vc_values col)) (Suc c) \<and> (cnt(c := cnt c - 1)) c' = 0}"
      proof (rule set_eqI)
        fix c'
        from f [of c'] lt True assms(2) show "c' \<in> set (c # vc_free col) \<longleftrightarrow>
            c' \<in> {c'. 0 < c' \<and> c' < max (length (vc_values col)) (Suc c) \<and> (cnt(c := cnt c - 1)) c' = 0}"
          by auto
      qed
      moreover have "c \<notin> set (vc_free col)" using f [of c] True by simp
      ultimately show ?thesis using ok(3) by (simp add: free_ok_def)
    qed
    ultimately show ?thesis using True assms(2) by (auto simp: dict_ok_def r)
  qed
qed

definition col_acquire :: "host \<Rightarrow> vcolumn \<Rightarrow> jsv \<Rightarrow> nat \<times> vcolumn" where
  "col_acquire h col v =
     (case col_codeFor h col v of
        (code, col') \<Rightarrow> (code, col'\<lparr>vc_refs := js_put 0 (vc_refs col') code (js_at 0 (vc_refs col') code + 1)\<rparr>))"

lemma col_acquire_ok:
  assumes "dict_ok h cnt col" and "col_acquire h col v = (code, col')"
  shows "0 < code \<and> dict_ok h (cnt(code := cnt code + 1)) col' \<and> vc_codes col' = vc_codes col \<and>
    shape_key h (js_at JUndef (vc_values col') code) = shape_key h v \<and>
    (\<forall>c. c = 0 \<or> 0 < cnt c \<longrightarrow> js_at JUndef (vc_values col') c = js_at JUndef (vc_values col) c)"
proof -
  have ok: "refs_ok cnt col" "keys_ok h cnt col" "free_ok cnt col" using assms(1) by (auto simp: dict_ok_def)
  show ?thesis
  proof (cases "jm_get (vc_keys col) (shape_key h v)")
    case (Some c)
    then have c: "0 < c" "0 < cnt c" "shape_key h (js_at JUndef (vc_values col) c) = shape_key h v"
      using ok(2) by (auto simp: keys_ok_def)
    then have lt: "c < length (vc_values col)" using refs_ok_lt [OF ok(1)] by blast
    have r: "code = c" "col' = col\<lparr>vc_refs := js_put 0 (vc_refs col) c (int (cnt c) + 1)\<rparr>"
      using assms(2) Some c ok(1) by (auto simp: col_acquire_def col_codeFor_def Let_def refs_ok_def)
    have "refs_ok (cnt(c := cnt c + 1)) col'" using ok(1) lt unfolding refs_ok_def r by (simp add: max_absorb1 Suc_leI)
    moreover have "keys_ok h (cnt(c := cnt c + 1)) col'" using ok(2) c by (auto simp: r keys_ok_def)
    moreover have "free_ok (cnt(c := cnt c + 1)) col'"
      by (rule free_ok_cong [OF ok(3)]) (use c in \<open>simp_all add: r\<close>)
    ultimately show ?thesis using c by (simp add: r dict_ok_def)
  next
    case None
    define fresh where "fresh = (case vc_free col of [] \<Rightarrow> (length (vc_values col), [])
        | c # cs \<Rightarrow> (if c = 0 then length (vc_values col) else c, cs))"
    define c where "c = fst fresh"
    have c: "0 < c" "c \<le> length (vc_values col)" "cnt c = 0" "snd fresh = removeAll c (vc_free col)"
    proof -
      have "0 < c \<and> c \<le> length (vc_values col) \<and> cnt c = 0 \<and> snd fresh = removeAll c (vc_free col)"
      proof (cases "vc_free col")
        case Nil
        with ok(1) show ?thesis by (auto simp: c_def fresh_def refs_ok_def)
      next
        case (Cons x xs)
        with ok(3) have "0 < x" "x < length (vc_values col)" "cnt x = 0" "x \<notin> set xs" by (auto simp: free_ok_def)
        with Cons show ?thesis by (simp add: c_def fresh_def removeAll_id)
      qed
      then show "0 < c" "c \<le> length (vc_values col)" "cnt c = 0" "snd fresh = removeAll c (vc_free col)" by auto
    qed
    have r: "code = c" "col' = col\<lparr>vc_keys := jm_set (shape_key h v) c (vc_keys col),
        vc_values := js_put JUndef (vc_values col) c v, vc_refs := js_put 0 (js_put 0 (vc_refs col) c 0) c 1,
        vc_free := removeAll c (vc_free col)\<rparr>"
      using assms(2) None c(4) by (auto simp: col_acquire_def col_codeFor_def Let_def fresh_def [symmetric] c_def [symmetric])
    have "refs_ok (cnt(c := cnt c + 1)) col'" using ok(1) c by (auto simp: r refs_ok_def max_def)
    moreover have "keys_ok h (cnt(c := cnt c + 1)) col'"
    proof -
      have "\<not> (0 < c' \<and> 0 < cnt c' \<and> shape_key h (js_at JUndef (vc_values col) c') = shape_key h v)" for c'
        using None ok(2) unfolding keys_ok_def by (metis option.distinct(1))
      note none = this
      have "(jm_get (jm_set (shape_key h v) c (vc_keys col)) key = Some c') \<longleftrightarrow>
          (if c' = c then key = shape_key h v else jm_get (vc_keys col) key = Some c')" for key c'
      proof (cases "key = shape_key h v")
        case True
        then show ?thesis using None by auto
      next
        case False
        then show ?thesis using ok(2) c(3) by (simp add: keys_ok_def)
      qed
      then show ?thesis using ok(2) c by (simp add: r keys_ok_def) metis
    qed
    moreover have "free_ok (cnt(c := cnt c + 1)) col'"
    proof -
      have "set (removeAll c (vc_free col)) = {c'. 0 < c' \<and> c' < max (length (vc_values col)) (Suc c) \<and> (cnt(c := cnt c + 1)) c' = 0}"
      proof (rule set_eqI)
        fix c'
        have "c' \<in> set (vc_free col) \<longleftrightarrow> 0 < c' \<and> c' < length (vc_values col) \<and> cnt c' = 0"
          using ok(3) by (simp add: free_ok_def)
        with c show "c' \<in> set (removeAll c (vc_free col)) \<longleftrightarrow>
            c' \<in> {c'. 0 < c' \<and> c' < max (length (vc_values col)) (Suc c) \<and> (cnt(c := cnt c + 1)) c' = 0}"
          by auto
      qed
      with ok(3) show ?thesis by (simp add: r free_ok_def distinct_removeAll)
    qed
    ultimately show ?thesis using c by (auto simp: r dict_ok_def)
  qed
qed

lemma col_set_ok:
  assumes "col_ok h col"
  shows "col_ok h (col_set h col row v) \<and> shape_key h (col_get (col_set h col row v) row) = shape_key h v \<and>
    (\<forall>r. r \<noteq> row \<longrightarrow> col_get (col_set h col row v) r = col_get col r)"
proof -
  define col1 where "col1 = col_ensure col row"
  define old where "old = js_at 0 (vc_codes col1) row"
  define col2 where "col2 = (if old \<noteq> 0 then col_release h col1 old else col1)"
  define cnt2 where "cnt2 = (if old \<noteq> 0 then (slots (vc_codes col1))(old := slots (vc_codes col1) old - 1) else slots (vc_codes col1))"
  obtain code col3 where a: "col_acquire h col2 v = (code, col3)" by (cases "col_acquire h col2 v")
  have lt: "row < length (vc_codes col1)" using col_ensure_spec col1_def by blast
  have ok1: "dict_ok h (slots (vc_codes col1)) col1" using col_ensure_ok [OF assms] by (simp add: col_ok_def col1_def)
  have old_nth: "old = vc_codes col1 ! row" using lt by (simp add: old_def js_at_def)
  have pos: "old \<noteq> 0 \<Longrightarrow> 0 < slots (vc_codes col1) old"
    using lt by (simp add: slots_pos old_nth)
  have ok2: "dict_ok h cnt2 col2" "vc_codes col2 = vc_codes col1"
    "\<And>c. c = 0 \<or> 0 < cnt2 c \<Longrightarrow> js_at JUndef (vc_values col2) c = js_at JUndef (vc_values col1) c"
    using col_release_ok [OF ok1, of old] pos ok1 by (auto simp: col2_def cnt2_def split: if_splits)
  note q = col_acquire_ok [OF ok2(1) a]
  have set_eq: "col_set h col row v = col3\<lparr>vc_codes := (vc_codes col1)[row := code]\<rparr>"
  proof -
    obtain c4 col4 where f: "col_codeFor h col2 v = (c4, col4)" by (cases "col_codeFor h col2 v")
    with a have col3: "c4 = code" "col3 = col4\<lparr>vc_refs := js_put 0 (vc_refs col4) code (js_at 0 (vc_refs col4) code + 1)\<rparr>"
      by (auto simp: col_acquire_def)
    have "vc_codes col4 = vc_codes col1" using q ok2(2) col3 by simp
    with f col3 lt show ?thesis
      unfolding col_set_def Let_def col1_def [symmetric] old_def [symmetric] col2_def [symmetric]
      by (simp add: js_put_def [of _ "vc_codes col1"])
  qed
  have "slots (vc_codes (col_set h col row v)) = cnt2(code := cnt2 code + 1)"
    using slots_update [OF lt old_nth [symmetric], of code] q by (simp add: set_eq swap_count_def cnt2_def Let_def)
  with q have "col_ok h (col_set h col row v)" by (simp add: col_ok_def set_eq)
  moreover have "shape_key h (col_get (col_set h col row v) row) = shape_key h v"
    using q lt by (simp add: col_get_def set_eq js_at_def [of 0])
  moreover have "col_get (col_set h col row v) r = col_get col r" if "r \<noteq> row" for r
  proof -
    let ?c = "js_at 0 (vc_codes col1) r"
    have code: "js_at 0 ((vc_codes col1)[row := code]) r = ?c" using that by (simp add: js_at_def)
    have "?c = 0 \<or> 0 < cnt2 ?c"
    proof (cases "?c = 0")
      case False
      then have r: "r < length (vc_codes col1)" "vc_codes col1 ! r = ?c" by (auto simp: js_at_def split: if_splits)
      have "?c \<in> set ((vc_codes col1)[row := 0])"
        using r that by (metis length_list_update nth_list_update_neq nth_mem)
      with False have "0 < slots ((vc_codes col1)[row := 0]) ?c" by (simp add: slots_pos)
      moreover have "swap_count old 0 (slots (vc_codes col1)) = cnt2" by (simp add: cnt2_def swap_count_def)
      ultimately have "0 < cnt2 ?c" using slots_update [OF lt old_nth [symmetric], of 0] by simp
      then show ?thesis by simp
    qed simp
    with q [THEN conjunct2, THEN conjunct2, THEN conjunct2, THEN conjunct2, THEN spec, of ?c] ok2(3) [of ?c]
    have "js_at JUndef (vc_values col3) ?c = js_at JUndef (vc_values col1) ?c" by simp
    moreover have "col_get col1 r = col_get col r" by (simp add: col1_def)
    ultimately show ?thesis using code by (simp add: col_get_def set_eq)
  qed
  ultimately show ?thesis by blast
qed

lemma col_clear_ok:
  assumes "col_ok h col"
  shows "col_ok h (col_clear h col row) \<and> (\<forall>r. r \<noteq> row \<longrightarrow> col_get (col_clear h col row) r = col_get col r)"
proof (cases "js_at 0 (vc_codes col) row = 0")
  case True
  with assms show ?thesis by (simp add: col_clear_def)
next
  case False
  define old where "old = js_at 0 (vc_codes col) row"
  have lt: "row < length (vc_codes col)" and old_nth: "old = vc_codes col ! row" and nz: "0 < old"
    using False by (auto simp: js_at_def old_def split: if_splits)
  have pos: "0 < slots (vc_codes col) old" using lt nz by (simp add: slots_pos old_nth)
  have ok: "dict_ok h (slots (vc_codes col)) col" using assms by (simp add: col_ok_def)
  note q = col_release_ok [OF ok nz pos]
  have eq: "col_clear h col row = (col_release h col old)\<lparr>vc_codes := (vc_codes col)[row := 0]\<rparr>"
    using nz q lt by (simp add: col_clear_def Let_def old_def [symmetric] js_put_def)
  have sl: "slots (vc_codes (col_clear h col row)) = (slots (vc_codes col))(old := slots (vc_codes col) old - 1)"
    using slots_update [OF lt old_nth [symmetric], of 0] nz by (simp add: eq swap_count_def)
  have "col_get (col_clear h col row) r = col_get col r" if "r \<noteq> row" for r
  proof -
    let ?c = "js_at 0 (vc_codes col) r"
    have code: "js_at 0 ((vc_codes col)[row := 0]) r = ?c" using that by (simp add: js_at_def)
    have "?c = 0 \<or> 0 < slots (vc_codes (col_clear h col row)) ?c"
    proof (cases "?c = 0")
      case False
      then have r: "r < length (vc_codes col)" "vc_codes col ! r = ?c" by (auto simp: js_at_def split: if_splits)
      have "?c \<in> set ((vc_codes col)[row := 0])"
        using r that by (metis length_list_update nth_list_update_neq nth_mem)
      with False show ?thesis by (simp add: slots_pos eq)
    qed simp
    then have "?c = 0 \<or> 0 < ((slots (vc_codes col))(old := slots (vc_codes col) old - 1)) ?c" by (simp only: sl)
    with q have "js_at JUndef (vc_values (col_release h col old)) ?c = js_at JUndef (vc_values col) ?c" by blast
    with code show ?thesis by (simp add: col_get_def eq)
  qed
  with q sl show ?thesis by (simp add: col_ok_def eq)
qed

subsection \<open>Shapes keep their rows\<close>

lemma foldl_columns_keep:
  "f \<notin> set fs \<Longrightarrow>
   jm_get (foldl (\<lambda>cols f. case jm_get cols f of None \<Rightarrow> cols | Some col \<Rightarrow> jm_set f (g f col) cols) cols fs) f =
   jm_get cols f"
  by (induction fs arbitrary: cols) (auto split: option.split)

lemma foldl_columns:
  "distinct fs \<Longrightarrow> f \<in> set fs \<Longrightarrow>
   jm_get (foldl (\<lambda>cols f. case jm_get cols f of None \<Rightarrow> cols | Some col \<Rightarrow> jm_set f (g f col) cols) cols fs) f =
   map_option (g f) (jm_get cols f)"
proof (induction fs arbitrary: cols)
  case (Cons x fs)
  show ?case
  proof (cases "f = x")
    case True
    with Cons.prems show ?thesis by (simp add: foldl_columns_keep split: option.split)
  next
    case False
    with Cons show ?thesis by (auto split: option.split)
  qed
qed simp

lemma foldl_new_columns:
  "jm_get (foldl (\<lambda>cols f. jm_set f c cols) cols fs) f = (if f \<in> set fs then Some c else jm_get cols f)"
  by (induction fs arbitrary: cols) auto

lemma foldl_read: "map_of (foldl (\<lambda>out f. jm_set f (g f) out) out fs) f = (if f \<in> set fs then Some (g f) else map_of out f)"
  by (induction fs arbitrary: out) auto

definition sh_ok :: "host \<Rightarrow> 'k shape \<Rightarrow> bool" where
  "sh_ok h sh \<longleftrightarrow>
     distinct (sh_fields sh) \<and> (\<forall>f\<in>set (sh_fields sh). \<exists>col. jm_get (sh_columns sh) f = Some col \<and> col_ok h col) \<and>
     jm_ok (sh_rows sh) \<and> distinct (map snd (sh_rows sh)) \<and> distinct (sh_free sh) \<and>
     (\<forall>r\<in>set (sh_free sh). r < sh_length sh \<and> r \<notin> snd ` set (sh_rows sh)) \<and>
     (\<forall>r\<in>snd ` set (sh_rows sh). r < sh_length sh)"

lemma sh_column_each:
  assumes "sh_ok h sh" and "f \<in> set (sh_fields sh)"
  shows "sh_column (each_column g sh) f = g f (sh_column sh f)"
  using assms foldl_columns [of "sh_fields sh" f g "sh_columns sh"]
  by (auto simp: sh_ok_def sh_column_def each_column_def)

lemma each_column_simps [simp]:
  "sh_fields (each_column g sh) = sh_fields sh" "sh_rows (each_column g sh) = sh_rows sh"
  "sh_free (each_column g sh) = sh_free sh" "sh_length (each_column g sh) = sh_length sh" "sh_id (each_column g sh) = sh_id sh"
  by (simp_all add: each_column_def)

lemma each_column_ok:
  assumes "sh_ok h sh" and "\<And>f col. col_ok h col \<Longrightarrow> col_ok h (g f col)"
  shows "sh_ok h (each_column g sh)"
proof -
  have "\<exists>col. jm_get (sh_columns (each_column g sh)) f = Some col \<and> col_ok h col" if "f \<in> set (sh_fields sh)" for f
    using assms that foldl_columns [of "sh_fields sh" f g "sh_columns sh"] by (auto simp: sh_ok_def each_column_def)
  with assms(1) show ?thesis by (auto simp: sh_ok_def)
qed

lemma sh_column_ok: "sh_ok h sh \<Longrightarrow> f \<in> set (sh_fields sh) \<Longrightarrow> col_ok h (sh_column sh f)"
  by (auto simp: sh_ok_def sh_column_def)

lemma newShape_ok: "distinct fs \<Longrightarrow> sh_ok h (newShape fs)"
  by (simp add: newShape_def sh_ok_def foldl_new_columns col_ok_new)

lemma sh_read_field:
  "sh_read sh k = Some row \<Longrightarrow> jm_get (sh_rows sh) k = Some r \<Longrightarrow>
   map_of row f = (if f \<in> set (sh_fields sh) then Some (col_get (sh_column sh f) r) else None)"
  by (auto simp: sh_read_def foldl_read)

lemma sh_read_cong:
  assumes "sh_fields sh' = sh_fields sh" and "jm_get (sh_rows sh') k = jm_get (sh_rows sh) k"
    and "\<And>f r. f \<in> set (sh_fields sh) \<Longrightarrow> jm_get (sh_rows sh) k = Some r \<Longrightarrow>
      col_get (sh_column sh' f) r = col_get (sh_column sh f) r"
  shows "sh_read sh' k = sh_read sh k"
proof -
  have "foldl (\<lambda>out f. jm_set f (g f) out) out fs = foldl (\<lambda>out f. jm_set f (g' f) out) out fs"
    if "\<forall>f\<in>set fs. g f = g' f" for g g' :: "string \<Rightarrow> jsv" and out fs
    using that by (induction fs arbitrary: out) auto
  with assms show ?thesis by (auto simp: sh_read_def split: option.split)
qed

lemma row_unique:
  "jm_ok rows \<Longrightarrow> distinct (map snd rows) \<Longrightarrow> jm_get rows k = Some r \<Longrightarrow> jm_get rows k' = Some r \<Longrightarrow> k = k'"
proof (induction rows)
  case (Cons p rows)
  then show ?case by (cases p) (auto split: if_splits dest!: map_of_SomeD intro: rev_image_eqI)
qed simp

lemma distinct_vals_del: "distinct (map snd m) \<Longrightarrow> distinct (map snd (jm_del k m))"
proof (induction m)
  case (Cons p m)
  have "snd ` set (jm_del k m) \<subseteq> snd ` set m" by (auto simp: jm_mem_del)
  with Cons show ?case by auto
qed simp

lemma sh_remove_spec:
  assumes "sh_ok h sh"
  shows "sh_ok h (sh_remove h sh k) \<and> sh_rows (sh_remove h sh k) = jm_del k (sh_rows sh) \<and>
    sh_fields (sh_remove h sh k) = sh_fields sh \<and> sh_id (sh_remove h sh k) = sh_id sh \<and>
    (\<forall>k'. k' \<noteq> k \<longrightarrow> sh_read (sh_remove h sh k) k' = sh_read sh k')"
proof (cases "jm_get (sh_rows sh) k")
  case None
  with assms show ?thesis by (simp add: sh_remove_def jm_del_absent)
next
  case (Some row)
  let ?sh1 = "each_column (\<lambda>f col. col_clear h col row) sh"
  have ok1: "sh_ok h ?sh1" using assms col_clear_ok by (intro each_column_ok) auto
  have r: "sh_remove h sh k = ?sh1\<lparr>sh_rows := jm_del k (sh_rows sh), sh_free := row # sh_free sh\<rparr>"
    using Some by (simp add: sh_remove_def Let_def)
  have rows: "jm_ok (sh_rows sh)" "distinct (map snd (sh_rows sh))" using assms by (auto simp: sh_ok_def)
  have row: "row \<in> snd ` set (sh_rows sh)" using Some by (force dest: map_of_SomeD)
  have sub: "set (jm_del k (sh_rows sh)) \<subseteq> set (sh_rows sh)" by (auto simp: jm_mem_del)
  have gone: "row \<notin> snd ` set (jm_del k (sh_rows sh))"
  proof
    assume "row \<in> snd ` set (jm_del k (sh_rows sh))"
    then obtain k' where "k' \<noteq> k" "(k', row) \<in> set (sh_rows sh)" by (auto simp: jm_mem_del)
    with rows Some row_unique [OF rows, of k' row k] show False by (simp add: jm_get_mem [OF rows(1)])
  qed
  have "distinct (map snd (jm_del k (sh_rows sh)))"
    using rows(2) by (rule distinct_vals_del)
  moreover have "\<forall>r\<in>set (row # sh_free sh). r < sh_length sh \<and> r \<notin> snd ` set (jm_del k (sh_rows sh))"
    using assms row gone image_mono [OF sub, of snd] unfolding sh_ok_def by (metis set_ConsD subsetD)
  moreover have "\<forall>r\<in>snd ` set (jm_del k (sh_rows sh)). r < sh_length sh"
    using assms image_mono [OF sub, of snd] unfolding sh_ok_def by blast
  moreover have "distinct (row # sh_free sh)" using assms row by (auto simp: sh_ok_def)
  ultimately have "sh_ok h (sh_remove h sh k)"
    using ok1 rows(1) unfolding r sh_ok_def by simp
  moreover have "sh_read (sh_remove h sh k) k' = sh_read sh k'" if "k' \<noteq> k" for k'
  proof (rule sh_read_cong)
    fix f r
    assume f: "f \<in> set (sh_fields sh)" and k': "jm_get (sh_rows sh) k' = Some r"
    have "r \<noteq> row" using row_unique [OF rows, of k' row k] k' Some that by auto
    moreover have "sh_column (sh_remove h sh k) f = col_clear h (sh_column sh f) row"
      using sh_column_each [OF assms f] by (simp add: r sh_column_def)
    ultimately show "col_get (sh_column (sh_remove h sh k) f) r = col_get (sh_column sh f) r"
      using col_clear_ok [OF sh_column_ok [OF assms f]] by auto
  qed (use that in \<open>simp_all add: r\<close>)
  ultimately show ?thesis by (simp add: r)
qed

lemma sh_push_spec:
  assumes "sh_ok h sh" and "\<not> jm_has (sh_rows sh) k"
  shows "sh_ok h (sh_push h sh k vals) \<and> (\<exists>r. sh_rows (sh_push h sh k vals) = jm_set k r (sh_rows sh)) \<and>
    sh_fields (sh_push h sh k vals) = sh_fields sh \<and> sh_id (sh_push h sh k vals) = sh_id sh \<and>
    (\<exists>row. sh_read (sh_push h sh k vals) k = Some row \<and>
       (\<forall>f. if f \<in> set (sh_fields sh) then \<exists>w. map_of row f = Some w \<and> shape_key h w = shape_key h (oget vals f)
            else map_of row f = None)) \<and>
    (\<forall>k'. k' \<noteq> k \<longrightarrow> sh_read (sh_push h sh k vals) k' = sh_read sh k')"
proof -
  define a where "a = (case sh_free sh of [] \<Rightarrow> (sh_length sh, [], sh_length sh + 1) | x # xs \<Rightarrow> (x, xs, sh_length sh))"
  define r where "r = fst a"
  let ?sh1 = "sh\<lparr>sh_free := fst (snd a), sh_length := snd (snd a)\<rparr>"
  let ?sh2 = "each_column (\<lambda>f col. col_ensure col r) ?sh1"
  let ?sh3 = "?sh2\<lparr>sh_rows := jm_set k r (sh_rows sh)\<rparr>"
  have r: "r \<notin> snd ` set (sh_rows sh)" "r \<notin> set (fst (snd a))" "r < snd (snd a)" "sh_length sh \<le> snd (snd a)"
    "set (fst (snd a)) \<subseteq> set (sh_free sh)" "distinct (fst (snd a))"
    using assms(1) by (auto simp: r_def a_def sh_ok_def split: list.split)
  have ok1: "sh_ok h ?sh1"
    using assms(1) r unfolding sh_ok_def by (auto intro: less_le_trans)
  have ok2: "sh_ok h ?sh2" using ok1 col_ensure_ok by (intro each_column_ok) auto
  have new: "jm_set k r (sh_rows sh) = sh_rows sh @ [(k, r)]" using assms(2) by (rule jm_set_new)
  have k: "k \<notin> fst ` set (sh_rows sh)" using assms(2) by (simp add: map_of_eq_None_iff)
  have ok3: "sh_ok h ?sh3"
    using ok2 r k by (auto simp: sh_ok_def new)
  have p: "sh_push h sh k vals = each_column (\<lambda>f col. col_set h col r (oget vals f)) ?sh3"
    by (simp add: sh_push_def Let_def a_def [symmetric] r_def [symmetric])
  have ok: "sh_ok h (sh_push h sh k vals)"
    unfolding p using ok3 col_set_ok by (intro each_column_ok) auto
  have col: "sh_column (sh_push h sh k vals) f = col_set h (col_ensure (sh_column sh f) r) r (oget vals f)"
    if "f \<in> set (sh_fields sh)" for f
  proof -
    have "sh_column (sh_push h sh k vals) f = col_set h (sh_column ?sh3 f) r (oget vals f)"
      unfolding p using that by (intro sh_column_each [OF ok3]) simp
    moreover have "sh_column ?sh3 f = sh_column ?sh2 f" by (simp add: sh_column_def)
    moreover have "sh_column ?sh2 f = col_ensure (sh_column ?sh1 f) r" using that by (intro sh_column_each [OF ok1]) simp
    moreover have "sh_column ?sh1 f = sh_column sh f" by (simp add: sh_column_def)
    ultimately show ?thesis by simp
  qed
  have colset: "shape_key h (col_get (sh_column (sh_push h sh k vals) f) r) = shape_key h (oget vals f)"
    "r' \<noteq> r \<Longrightarrow> col_get (sh_column (sh_push h sh k vals) f) r' = col_get (sh_column sh f) r'"
    if "f \<in> set (sh_fields sh)" for f r'
    using col_set_ok [OF col_ensure_ok [OF sh_column_ok [OF assms(1) that]], of r r "oget vals f"] col [OF that] by auto
  have rows: "sh_rows (sh_push h sh k vals) = jm_set k r (sh_rows sh)" by (simp add: p)
  have fs: "sh_fields (sh_push h sh k vals) = sh_fields sh" by (simp add: p)
  have own: "\<exists>row. sh_read (sh_push h sh k vals) k = Some row \<and>
       (\<forall>f. if f \<in> set (sh_fields sh) then \<exists>w. map_of row f = Some w \<and> shape_key h w = shape_key h (oget vals f)
            else map_of row f = None)"
  proof -
    have g: "jm_get (sh_rows (sh_push h sh k vals)) k = Some r" by (simp add: rows)
    then obtain row where row: "sh_read (sh_push h sh k vals) k = Some row" by (simp add: sh_read_def)
    from sh_read_field [OF row g] have "map_of row f =
        (if f \<in> set (sh_fields sh) then Some (col_get (sh_column (sh_push h sh k vals) f) r) else None)" for f
      by (simp add: fs)
    with row colset(1) show ?thesis by auto
  qed
  have others: "sh_read (sh_push h sh k vals) k' = sh_read sh k'" if "k' \<noteq> k" for k'
  proof (rule sh_read_cong [OF fs])
    fix f r'
    assume f: "f \<in> set (sh_fields sh)" and k': "jm_get (sh_rows sh) k' = Some r'"
    have "r' \<noteq> r" using k' r(1) by (force dest: map_of_SomeD)
    with colset(2) [OF f] show "col_get (sh_column (sh_push h sh k vals) f) r' = col_get (sh_column sh f) r'" by simp
  qed (use that in \<open>simp add: rows\<close>)
  show ?thesis using ok rows fs own others by (auto simp: p)
qed

subsection \<open>The store keeps its rows\<close>

definition ss_ok :: "host \<Rightarrow> 'k sstore \<Rightarrow> bool" where
  "ss_ok h s \<longleftrightarrow>
     (\<forall>i sh. jm_get (ss_shapes s) i = Some sh \<longrightarrow> sh_ok h sh \<and> sh_id sh = i) \<and>
     (\<forall>k i. jm_get (ss_loc s) k = Some i \<longleftrightarrow> (\<exists>sh. jm_get (ss_shapes s) i = Some sh \<and> jm_has (sh_rows sh) k))"

text \<open>
  A layout fits when the shape that is stored under its hash, if any, has just that layout: two layouts in use do not
  collide.
\<close>

definition ss_fits :: "'k sstore \<Rightarrow> 'k \<Rightarrow> jobj \<Rightarrow> bool" where
  "ss_fits s k live \<longleftrightarrow>
     jm_ok live \<and>
     (case jm_get (ss_shapes s) (shapeId (layoutOf live)) of None \<Rightarrow> True | Some sh \<Rightarrow> sh_fields sh = layoutOf live)"

lemma layoutOf_ok: "distinct (layoutOf live)" "set (layoutOf live) = fst ` set live"
  by (simp_all add: layoutOf_def)

lemma ss_removeObject_spec:
  assumes "ss_ok h s"
  shows "ss_ok h (ss_removeObject h s k) \<and> jm_get (ss_loc (ss_removeObject h s k)) k = None \<and>
    (\<forall>k'. ss_read (ss_removeObject h s k) k' = (if k' = k then None else ss_read s k')) \<and>
    (\<forall>i sh'. jm_get (ss_shapes (ss_removeObject h s k)) i = Some sh' \<longrightarrow>
       (\<exists>sh. jm_get (ss_shapes s) i = Some sh \<and> sh_fields sh' = sh_fields sh))"
proof (cases "jm_get (ss_loc s) k")
  case None
  with assms show ?thesis by (auto simp: ss_removeObject_def ss_read_def)
next
  case (Some i)
  then obtain sh where sh: "jm_get (ss_shapes s) i = Some sh" "jm_has (sh_rows sh) k"
    using assms by (auto simp: ss_ok_def)
  have sho: "sh_ok h sh" "sh_id sh = i" using assms sh(1) by (auto simp: ss_ok_def)
  define sh' where "sh' = sh_remove h sh k"
  have sh': "sh_ok h sh'" "sh_rows sh' = jm_del k (sh_rows sh)" "sh_fields sh' = sh_fields sh" "sh_id sh' = i"
    "\<And>k'. k' \<noteq> k \<Longrightarrow> sh_read sh' k' = sh_read sh k'"
    using sh_remove_spec [OF sho(1), of k] sho(2) by (auto simp: sh'_def)
  have r: "ss_removeObject h s k =
      \<lparr>ss_shapes = (if sh_rows sh' = [] then jm_del i (ss_shapes s) else jm_set i sh' (ss_shapes s)),
       ss_loc = jm_del k (ss_loc s)\<rparr>"
    using Some sh by (simp add: ss_removeObject_def Let_def sh'_def)
  have in_sh': "jm_has (sh_rows sh') k' \<longleftrightarrow> k' \<noteq> k \<and> jm_has (sh_rows sh) k'" for k'
    by (simp add: sh'(2))
  have empty: "sh_rows sh' = [] \<Longrightarrow> k' \<noteq> k \<Longrightarrow> \<not> jm_has (sh_rows sh) k'" for k'
    using in_sh' [of k'] by simp
  have loc: "jm_get (ss_loc s) k' = Some i' \<longleftrightarrow> (\<exists>sh. jm_get (ss_shapes s) i' = Some sh \<and> jm_has (sh_rows sh) k')" for k' i'
    using assms by (simp add: ss_ok_def)
  have "ss_ok h (ss_removeObject h s k)"
  proof -
    have "(k' \<noteq> k \<and> jm_get (ss_loc s) k' = Some i') \<longleftrightarrow>
        (\<exists>sh. jm_get (ss_shapes (ss_removeObject h s k)) i' = Some sh \<and> jm_has (sh_rows sh) k')" for k' i'
    proof (cases "i' = i")
      case True
      with loc [of k' i'] in_sh' [of k'] sh empty [of k'] show ?thesis by (cases "k' = k") (auto simp: r)
    next
      case False
      moreover from loc [of k i'] Some False have "\<not> (\<exists>sh. jm_get (ss_shapes s) i' = Some sh \<and> jm_has (sh_rows sh) k)" by simp
      ultimately show ?thesis using loc [of k' i'] by (cases "k' = k") (auto simp: r)
    qed
    note iff = this
    have "jm_get (ss_loc (ss_removeObject h s k)) k' = Some i' \<longleftrightarrow> k' \<noteq> k \<and> jm_get (ss_loc s) k' = Some i'" for k' i'
      by (simp add: r)
    moreover have "\<forall>i sh. jm_get (ss_shapes (ss_removeObject h s k)) i = Some sh \<longrightarrow> sh_ok h sh \<and> sh_id sh = i"
      using assms sh' by (auto simp: ss_ok_def r split: if_splits)
    ultimately show ?thesis unfolding ss_ok_def by (simp only: iff) simp
  qed
  moreover have "ss_read (ss_removeObject h s k) k' = (if k' = k then None else ss_read s k')" for k'
  proof (cases "k' = k")
    case False
    show ?thesis
    proof (cases "jm_get (ss_loc s) k' = Some i")
      case True
      then have "jm_has (sh_rows sh) k'" using loc [of k' i] sh by auto
      with empty False have "sh_rows sh' \<noteq> []" by blast
      with True False sh sh'(5) show ?thesis by (simp add: ss_read_def r)
    next
      case other: False
      with False sh show ?thesis by (auto simp: ss_read_def r split: option.split)
    qed
  qed (simp add: ss_read_def r)
  ultimately show ?thesis using sh sh'(3) by (auto simp: r split: if_splits)
qed

lemma shape_key_same: "shape_key h v = shape_key h w \<Longrightarrow> same_key h v w"
proof -
  assume eq: "shape_key h v = shape_key h w"
  have kind: "CHR '':'' \<notin> set (valueKind v)" for v by (cases v) (simp_all add: valueKind_def)
  have split: "a @ CHR '':'' # x = b @ CHR '':'' # y \<Longrightarrow> CHR '':'' \<notin> set a \<Longrightarrow> CHR '':'' \<notin> set b \<Longrightarrow> a = b \<and> x = y" for a b x y :: string
  proof (induction a arbitrary: b)
    case (Cons c a)
    then show ?case by (cases b) auto
  next
    case Nil
    then show ?case by (cases b) auto
  qed
  have "valueKind v = valueKind w \<and> shown (json_stringify h (sortForKey h v)) = shown (json_stringify h (sortForKey h w))"
    using eq kind by (intro split) (simp_all add: shape_key_def)
  moreover have "valueKind v = ''undefined'' \<longleftrightarrow> v = JUndef" for v by (cases v) (simp_all add: valueKind_def)
  ultimately have "v = JUndef \<longleftrightarrow> w = JUndef" "shown (json_stringify h (sortForKey h v)) = shown (json_stringify h (sortForKey h w))"
    by metis+
  then show ?thesis
    by (cases "v = JUndef") (simp_all add: same_key_def stableKey_def json_stringify_def shown_def)
qed

lemma ss_rebuild_spec:
  assumes ok: "ss_ok h s" and fits: "ss_fits s k live"
  shows "ss_ok h (ss_rebuild h s k live) \<and> (\<forall>k'. k' \<noteq> k \<longrightarrow> ss_read (ss_rebuild h s k live) k' = ss_read s k') \<and>
    (if live = [] then ss_read (ss_rebuild h s k live) k = None
     else \<exists>row. ss_read (ss_rebuild h s k live) k = Some row \<and> agree (same_key h) row live)"
proof -
  define s1 where "s1 = ss_removeObject h s k"
  have s1: "ss_ok h s1" "jm_get (ss_loc s1) k = None" "\<And>k'. ss_read s1 k' = (if k' = k then None else ss_read s k')"
    "\<And>i sh'. jm_get (ss_shapes s1) i = Some sh' \<Longrightarrow> \<exists>sh. jm_get (ss_shapes s) i = Some sh \<and> sh_fields sh' = sh_fields sh"
    using ss_removeObject_spec [OF ok, of k] by (auto simp: s1_def)
  show ?thesis
  proof (cases "live = []")
    case True
    with s1 show ?thesis by (simp add: ss_rebuild_def s1_def [symmetric])
  next
    case False
    let ?i = "shapeId (layoutOf live)"
    obtain sh s2 where e: "ensureShape s1 (layoutOf live) = (sh, s2)" by (cases "ensureShape s1 (layoutOf live)")
    have sh: "sh_ok h sh" "sh_id sh = ?i" "sh_fields sh = layoutOf live" "ss_loc s2 = ss_loc s1"
      "jm_get (ss_shapes s2) ?i = Some sh" "\<And>i. i \<noteq> ?i \<Longrightarrow> jm_get (ss_shapes s2) i = jm_get (ss_shapes s1) i"
      "\<And>k'. jm_has (sh_rows sh) k' \<longleftrightarrow> jm_get (ss_loc s1) k' = Some ?i"
      "\<And>k'. jm_get (ss_loc s1) k' = Some ?i \<Longrightarrow> jm_get (ss_shapes s1) ?i = Some sh"
    proof -
      have "sh_ok h sh \<and> sh_id sh = ?i \<and> sh_fields sh = layoutOf live \<and> ss_loc s2 = ss_loc s1 \<and>
          jm_get (ss_shapes s2) ?i = Some sh \<and> (\<forall>i. i \<noteq> ?i \<longrightarrow> jm_get (ss_shapes s2) i = jm_get (ss_shapes s1) i) \<and>
          (\<forall>k'. (jm_has (sh_rows sh) k' \<longleftrightarrow> jm_get (ss_loc s1) k' = Some ?i) \<and>
             (jm_get (ss_loc s1) k' = Some ?i \<longrightarrow> jm_get (ss_shapes s1) ?i = Some sh))"
      proof (cases "jm_get (ss_shapes s1) ?i")
        case None
        then have "sh = newShape (layoutOf live)" "s2 = s1\<lparr>ss_shapes := jm_set ?i sh (ss_shapes s1)\<rparr>"
          using e by (auto simp: ensureShape_def Let_def)
        moreover have "jm_get (ss_loc s1) k' \<noteq> Some ?i" for k' using s1(1) None by (simp add: ss_ok_def)
        ultimately show ?thesis using newShape_ok [OF layoutOf_ok(1)] by (simp add: newShape_def)
      next
        case (Some sh0)
        then have "sh = sh0" "s2 = s1" using e by (auto simp: ensureShape_def)
        moreover have "sh_ok h sh0" "sh_id sh0 = ?i" using s1(1) Some by (auto simp: ss_ok_def)
        moreover have "sh_fields sh0 = layoutOf live" using s1(4) [OF Some] fits by (auto simp: ss_fits_def)
        moreover have "jm_has (sh_rows sh0) k' \<longleftrightarrow> jm_get (ss_loc s1) k' = Some ?i" for k'
          using s1(1) Some by (simp add: ss_ok_def)
        ultimately show ?thesis using Some by blast
      qed
      then show "sh_ok h sh" "sh_id sh = ?i" "sh_fields sh = layoutOf live" "ss_loc s2 = ss_loc s1"
        "jm_get (ss_shapes s2) ?i = Some sh" "\<And>i. i \<noteq> ?i \<Longrightarrow> jm_get (ss_shapes s2) i = jm_get (ss_shapes s1) i"
        "\<And>k'. jm_has (sh_rows sh) k' \<longleftrightarrow> jm_get (ss_loc s1) k' = Some ?i"
        "\<And>k'. jm_get (ss_loc s1) k' = Some ?i \<Longrightarrow> jm_get (ss_shapes s1) ?i = Some sh" by auto
    qed
    have absent: "\<not> jm_has (sh_rows sh) k" using sh(7) s1(2) by simp
    note p = sh_push_spec [OF sh(1) absent, of live]
    define sh' where "sh' = sh_push h sh k live"
    have r: "ss_rebuild h s k live =
        \<lparr>ss_shapes = jm_set ?i sh' (ss_shapes s2), ss_loc = jm_set k ?i (ss_loc s1)\<rparr>"
      using False e sh(2,4) by (simp add: ss_rebuild_def s1_def [symmetric] sh'_def)
    have in_sh': "jm_has (sh_rows sh') k' \<longleftrightarrow> k' = k \<or> jm_has (sh_rows sh) k'" for k'
      using p by (auto simp: sh'_def)
    have "ss_ok h (ss_rebuild h s k live)"
      unfolding ss_ok_def
    proof (intro conjI allI impI)
      fix i sh0 assume "jm_get (ss_shapes (ss_rebuild h s k live)) i = Some sh0"
      with p sh sh(6) [of i] s1(1) show "sh_ok h sh0" "sh_id sh0 = i"
        by (auto simp: r sh'_def ss_ok_def split: if_splits)
    next
      fix k' i
      have "jm_get (ss_loc s1) k' = Some i \<longleftrightarrow> (\<exists>sh. jm_get (ss_shapes s1) i = Some sh \<and> jm_has (sh_rows sh) k')"
        using s1(1) by (simp add: ss_ok_def)
      with in_sh' [of k'] sh(7) [of k'] sh(6) [of i] s1(2)
      show "jm_get (ss_loc (ss_rebuild h s k live)) k' = Some i \<longleftrightarrow>
          (\<exists>sh. jm_get (ss_shapes (ss_rebuild h s k live)) i = Some sh \<and> jm_has (sh_rows sh) k')"
        by (cases "i = ?i"; cases "k' = k") (auto simp: r ss_ok_def)
    qed
    moreover have "ss_read (ss_rebuild h s k live) k' = ss_read s k'" if "k' \<noteq> k" for k'
    proof (cases "jm_get (ss_loc s1) k' = Some ?i")
      case True
      with p that sh(8) [OF True] s1(3) [of k'] show ?thesis by (simp add: ss_read_def r sh'_def)
    next
      case other: False
      with that s1(3) [of k'] sh(6) show ?thesis by (auto simp: ss_read_def r split: option.split)
    qed
    moreover have "\<exists>row. ss_read (ss_rebuild h s k live) k = Some row \<and> agree (same_key h) row live"
    proof -
      from p obtain row where row: "sh_read sh' k = Some row"
        "\<And>f. if f \<in> set (sh_fields sh) then \<exists>w. map_of row f = Some w \<and> shape_key h w = shape_key h (oget live f)
            else map_of row f = None" by (auto simp: sh'_def)
      have "rel_option (same_key h) (map_of row f) (map_of live f)" for f
      proof (cases "map_of live f")
        case None
        then have "f \<notin> set (sh_fields sh)" by (simp add: sh(3) layoutOf_ok map_of_eq_None_iff)
        with row(2) [of f] None show ?thesis by simp
      next
        case (Some v)
        then have "f \<in> set (sh_fields sh)" by (force simp: sh(3) layoutOf_ok dest: map_of_SomeD)
        with row(2) [of f] Some shape_key_same show ?thesis by (auto simp: oget_def)
      qed
      with row(1) show ?thesis by (simp add: ss_read_def r agree_def)
    qed
    ultimately show ?thesis using False by simp
  qed
qed

interpretation shape_rows: row_store "newShapeStore :: 'k sstore" "ss_rebuild h" "ss_removeObject h" ss_clear ss_read
    "ss_ok h" ss_fits "same_key h"
proof (unfold_locales, goal_cases)
  case 1 show ?case by (simp add: newShapeStore_def ss_ok_def)
next
  case (2 s k live) then show ?case by (simp add: ss_rebuild_spec)
next
  case (3 s k) then show ?case by (simp add: ss_removeObject_spec)
next
  case (4 s) show ?case by (simp add: ss_clear_def ss_ok_def)
next
  case (5 k) show ?case by (simp add: newShapeStore_def ss_read_def)
next
  case (6 s k live)
  from ss_rebuild_spec [OF 6] show ?case by blast
next
  case (7 s k live k')
  from ss_rebuild_spec [OF 7(1,2)] 7(3) show ?case by blast
next
  case (8 s k k')
  from ss_removeObject_spec [OF 8] show ?case by blast
next
  case (9 s k) show ?case by (simp add: ss_clear_def ss_read_def)
qed

subsection \<open>Properties\<close>

abbreviation ss_run :: "host \<Rightarrow> 'k sstore \<Rightarrow> 'k row_op list \<Rightarrow> 'k sstore" where
  "ss_run h \<equiv> foldl (row_step (ss_rebuild h) (ss_removeObject h) ss_clear)"

text \<open>No two layouts of the run, or of the shapes it meets, share a hash: each rebuild fits the store it reaches.\<close>

fun no_collision :: "host \<Rightarrow> 'k sstore \<Rightarrow> 'k row_op list \<Rightarrow> bool" where
  "no_collision h s [] = True"
| "no_collision h s (Rebuild k live # ops) = (ss_fits s k live \<and> no_collision h (ss_rebuild h s k live) ops)"
| "no_collision h s (Remove k # ops) = no_collision h (ss_removeObject h s k) ops"
| "no_collision h s (Clear # ops) = no_collision h (ss_clear s) ops"

lemma shape_fits_all: "no_collision h s ops \<Longrightarrow> shape_rows.fits_all h s ops"
  by (induction h s ops rule: no_collision.induct) simp_all

text \<open>C18: The columnar engine is a map from ids to rows too: as long as no two layouts of the run share a 32-bit hash,
reading an id after any run of rebuilds, removals and clears gives the fields of its last rebuild, each with the stable key it
was written with, and nothing when it was removed, cleared or rebuilt with no field.\<close>

theorem shape_rows_refine:
  assumes "no_collision h newShapeStore ops"
  shows "rel_option (agree (same_key h)) (ss_read (ss_run h newShapeStore ops) k) (foldl row_spec (\<lambda>k. None) ops k)"
  using assms by (intro shape_rows.run_from_empty shape_fits_all)

theorem shape_rows_refine_witness:
  "rel_option (agree (same_key plain_host))
    (ss_read (ss_run plain_host newShapeStore
      [Rebuild (1 :: nat) [(''a'', JStr ''x'')], Rebuild 2 [(''a'', JStr ''x'')], Remove 1]) 2)
    (Some [(''a'', JStr ''x'')])"
proof -
  have "sh_fields (sh_push h sh k vals) = sh_fields sh" for h and sh :: "nat shape" and k vals
    by (simp add: sh_push_def Let_def)
  then have "no_collision plain_host newShapeStore
      [Rebuild (1 :: nat) [(''a'', JStr ''x'')], Rebuild 2 [(''a'', JStr ''x'')], Remove 1]"
    by (simp add: ss_fits_def newShapeStore_def ss_rebuild_def ss_removeObject_def ensureShape_def layoutOf_def
        js_unique_def js_add_def newShape_def Let_def)
  from shape_rows_refine [OF this, of 2] show ?thesis by simp
qed

lemma layout_collision: "shapeId [''b'', ''u'', ''w''] = shapeId [''code'', ''i'', ''owner'', ''t'']"
proof -
  have "fnv1a (layout_text [''b'', ''u'', ''w'']) = fnv1a (layout_text [''code'', ''i'', ''owner'', ''t''])"
    by code_simp
  then show ?thesis by (simp only: shapeId_def)
qed

text \<open>C23: The condition is needed: the layouts \<open>{b, u, w}\<close> and \<open>{code, i, owner, t}\<close> have the same hash, and a row of the
second layout written while a row of the first is stored is lost: it reads back with the fields of the other layout, all
\<open>undefined\<close>.\<close>

theorem shape_collision_loses_row:
  "ss_read (ss_rebuild h (ss_rebuild h newShapeStore (1 :: nat) [(''b'', x), (''u'', y), (''w'', z)]) 2
      [(''code'', c), (''i'', i), (''owner'', ow), (''t'', t)]) 2 =
    Some [(''b'', JUndef), (''u'', JUndef), (''w'', JUndef)]"
proof -
  let ?A = "[''b'', ''u'', ''w'']" and ?B = "[''code'', ''i'', ''owner'', ''t'']"
  have lay: "layoutOf [(''b'', x), (''u'', y), (''w'', z)] = ?A"
    "layoutOf [(''code'', c), (''i'', i), (''owner'', ow), (''t'', t)] = ?B"
    by (simp_all add: layoutOf_def js_unique_def js_add_def)
  define sh where "sh = sh_push h (newShape ?A) (1 :: nat) [(''b'', x), (''u'', y), (''w'', z)]"
  define s1 where "s1 = ss_rebuild h newShapeStore (1 :: nat) [(''b'', x), (''u'', y), (''w'', z)]"
  have ok0: "sh_ok h (newShape ?A :: nat shape)" by (rule newShape_ok) simp
  have none: "\<not> jm_has (sh_rows (newShape ?A)) (1 :: nat)" by (simp add: newShape_def)
  note p = sh_push_spec [OF ok0 none, of "[(''b'', x), (''u'', y), (''w'', z)]", folded sh_def]
  have s1: "s1 = \<lparr>ss_shapes = [(shapeId ?A, sh)], ss_loc = [(1, shapeId ?A)]\<rparr>"
    by (simp add: s1_def ss_rebuild_def ss_removeObject_def newShapeStore_def ensureShape_def lay sh_def Let_def)
      (simp add: newShape_def)
  have fs: "sh_fields sh = ?A" using p by (simp add: newShape_def)
  have ok: "sh_ok h sh" using p by blast
  have "sh_rows sh = [(1, r)] \<Longrightarrow> \<not> jm_has (sh_rows sh) 2" for r by simp
  then have absent: "\<not> jm_has (sh_rows sh) 2" using p by (auto simp: newShape_def)
  let ?vals = "[(''code'', c), (''i'', i), (''owner'', ow), (''t'', t)]"
  define sh' where "sh' = sh_push h sh 2 ?vals"
  note q = sh_push_spec [OF ok absent, of ?vals, folded sh'_def, unfolded fs]
  have kind: "shape_key h v = shape_key h JUndef \<Longrightarrow> v = JUndef" for v
    using shape_key_same [of h v JUndef] same_key_undef [of h v JUndef] by blast
  from q obtain row where row: "sh_read sh' 2 = Some row"
    "\<forall>f. if f \<in> set ?A then \<exists>w. map_of row f = Some w \<and> shape_key h w = shape_key h (oget ?vals f)
       else map_of row f = None" by blast
  have undef: "map_of row ''b'' = Some JUndef" "map_of row ''u'' = Some JUndef" "map_of row ''w'' = Some JUndef"
    using row(2) [THEN spec, of "''b''"] row(2) [THEN spec, of "''u''"] row(2) [THEN spec, of "''w''"] kind
    by (auto simp: oget_def)
  have "sh_fields sh' = ?A" using q by blast
  with row(1) obtain g where "row = foldl (\<lambda>out f. jm_set f (g f) out) [] ?A"
    by (auto simp: sh_read_def split: option.splits)
  then have "row = [(''b'', g ''b''), (''u'', g ''u''), (''w'', g ''w'')]" by simp
  with undef have row_eq: "row = [(''b'', JUndef), (''u'', JUndef), (''w'', JUndef)]" by simp
  have "ss_rebuild h s1 2 ?vals = \<lparr>ss_shapes = [(shapeId ?A, sh')], ss_loc = [(1, shapeId ?A), (2, sh_id sh)]\<rparr>"
    by (simp add: s1 ss_rebuild_def ss_removeObject_def ensureShape_def lay layout_collision [symmetric] sh'_def)
  moreover have "sh_id sh = shapeId ?A" using p by (simp add: newShape_def)
  ultimately have "ss_read (ss_rebuild h s1 2 ?vals) 2 = Some [(''b'', JUndef), (''u'', JUndef), (''w'', JUndef)]"
    using row(1) row_eq by (simp add: ss_read_def)
  then show ?thesis by (simp only: s1_def)
qed

end
