(* ===== verification/RidQueue.thy ===== *)
theory RidQueue
  imports Prelude
begin

text \<open>
  The set of rows whose index entries are out of date, \<open>RidBitmapQueue\<close> of src/src/store.js: a bitmap that grows by
  doubling, a queue that remembers the order of insertion and a counter. \<open>take\<close> moves the head past the rows it
  returns and leaves their bits set, \<open>delete\<close> clears a bit and leaves the queue, so the queue may hold rows that are
  not dirty any more, and one row twice.

  A row id is a natural number here; the code refuses anything else. A bit is a truth value.
\<close>

record rid_queue =
  rq_bits :: "bool list"
  rq_queue :: "nat list"
  rq_head :: nat
  rq_size :: int

definition newRidQueue :: rid_queue where
  "newRidQueue = \<lparr>rq_bits = [], rq_queue = [], rq_head = 0, rq_size = 0\<rparr>"

function grow_bits :: "nat \<Rightarrow> nat \<Rightarrow> nat" where
  "grow_bits rid n = (if n = 0 \<or> rid < n then n else grow_bits rid (n * 2))"
  by pat_completeness auto
termination by (relation "measure (\<lambda>(rid, n). Suc rid - n)") auto

declare grow_bits.simps [simp del]

definition rq_ensure :: "rid_queue \<Rightarrow> nat \<Rightarrow> rid_queue" where
  "rq_ensure q rid =
     (if rid < length (rq_bits q) then q
      else let n = grow_bits rid (if rq_bits q = [] then 1024 else length (rq_bits q))
           in q\<lparr>rq_bits := rq_bits q @ replicate (n - length (rq_bits q)) False\<rparr>)"

definition compactQueue :: "rid_queue \<Rightarrow> rid_queue" where
  "compactQueue q =
     (if rq_size q = 0 then q\<lparr>rq_queue := [], rq_head := 0\<rparr>
      else if rq_head q < 4096 \<or> rq_head q * 2 < length (rq_queue q) then q
      else q\<lparr>rq_queue := drop (rq_head q) (rq_queue q), rq_head := 0\<rparr>)"

definition rq_has :: "rid_queue \<Rightarrow> nat \<Rightarrow> bool" where
  "rq_has q rid \<longleftrightarrow> js_at False (rq_bits q) rid"

definition rq_add :: "rid_queue \<Rightarrow> nat \<Rightarrow> rid_queue \<times> bool" where
  "rq_add q rid =
     (let q1 = rq_ensure q rid in
      if rq_bits q1 ! rid then (q1, False)
      else (q1\<lparr>rq_bits := (rq_bits q1)[rid := True], rq_size := rq_size q1 + 1, rq_queue := rq_queue q1 @ [rid]\<rparr>, True))"

definition rq_delete :: "rid_queue \<Rightarrow> nat \<Rightarrow> rid_queue \<times> bool" where
  "rq_delete q rid =
     (if length (rq_bits q) \<le> rid \<or> \<not> rq_bits q ! rid then (q, False)
      else let q1 = q\<lparr>rq_bits := (rq_bits q)[rid := False], rq_size := rq_size q - 1\<rparr>
           in (if rq_size q1 = 0 then compactQueue q1 else q1, True))"

definition rq_clear :: "rid_queue \<Rightarrow> rid_queue" where
  "rq_clear q = \<lparr>rq_bits = map (\<lambda>b. False) (rq_bits q), rq_queue = [], rq_head = 0, rq_size = 0\<rparr>"

text \<open>The loop of \<open>take\<close>: how far the head moves and what it collects.\<close>

fun take_loop :: "rid_queue \<Rightarrow> nat \<Rightarrow> nat list \<Rightarrow> nat \<Rightarrow> nat list \<Rightarrow> nat list \<times> nat" where
  "take_loop q mx [] head out = (out, head)"
| "take_loop q mx (rid # rest) head out =
     (if mx \<le> length out then (out, head)
      else take_loop q mx rest (head + 1) (if rq_has q rid then out @ [rid] else out))"

definition rq_take :: "rid_queue \<Rightarrow> nat \<Rightarrow> nat list \<times> rid_queue" where
  "rq_take q mx =
     (if mx = 0 \<or> rq_size q \<le> 0 then ([], q)
      else (case take_loop q mx (drop (rq_head q) (rq_queue q)) (rq_head q) [] of
              (out, head) \<Rightarrow> (out, compactQueue (q\<lparr>rq_head := head\<rparr>))))"

definition rq_list :: "rid_queue \<Rightarrow> nat list" where
  "rq_list q = filter (rq_has q) (drop (rq_head q) (rq_queue q))"

subsection \<open>The invariant\<close>

definition rq_waiting :: "rid_queue \<Rightarrow> nat list" where
  "rq_waiting q = drop (rq_head q) (rq_queue q)"

text \<open>
  The counter is the number of set bits; every dirty row waits in the queue, but for the rows \<open>taken\<close> that a running
  batch holds.
\<close>

definition rq_ok :: "nat set \<Rightarrow> rid_queue \<Rightarrow> bool" where
  "rq_ok taken q \<longleftrightarrow>
     rq_head q \<le> length (rq_queue q) \<and> rq_size q = int (count_list (rq_bits q) True) \<and> {r. rq_has q r} \<subseteq> set (rq_waiting q) \<union> taken"

lemma grow_bits_gt: "0 < n \<Longrightarrow> rid < grow_bits rid n \<and> n \<le> grow_bits rid n"
proof (induction rid n rule: grow_bits.induct)
  case (1 rid n)
  then show ?case by (cases "rid < n") (auto simp: grow_bits.simps [of rid n])
qed

lemma rq_ensure_spec:
  "\<exists>n. rq_ensure q rid = q\<lparr>rq_bits := rq_bits q @ replicate n False\<rparr> \<and> rid < length (rq_bits (rq_ensure q rid))"
proof (cases "rid < length (rq_bits q)")
  case True
  then show ?thesis by (intro exI [of _ 0]) (simp add: rq_ensure_def)
next
  case False
  let ?m = "if rq_bits q = [] then 1024 else length (rq_bits q)"
  have "rid < grow_bits rid ?m \<and> ?m \<le> grow_bits rid ?m" by (rule grow_bits_gt) simp
  then show ?thesis using False
    by (intro exI [of _ "grow_bits rid ?m - length (rq_bits q)"]) (auto simp: rq_ensure_def Let_def)
qed

lemma count_True_replicate: "count_list (xs @ replicate n False) True = count_list xs True"
  by (induction xs) (auto intro: replicate_eqI simp: count_list_0_iff)

lemma rq_has_ensure [simp]: "rq_has (rq_ensure q rid) r = rq_has q r"
proof -
  obtain n where "rq_ensure q rid = q\<lparr>rq_bits := rq_bits q @ replicate n False\<rparr>" using rq_ensure_spec by blast
  then show ?thesis by (auto simp: rq_has_def js_at_def nth_append)
qed

lemma rq_ok_ensure:
  "rq_ok T q \<Longrightarrow> rq_ok T (rq_ensure q rid) \<and> rq_waiting (rq_ensure q rid) = rq_waiting q"
proof -
  assume ok: "rq_ok T q"
  obtain n where e: "rq_ensure q rid = q\<lparr>rq_bits := rq_bits q @ replicate n False\<rparr>" using rq_ensure_spec by blast
  then have w: "rq_waiting (rq_ensure q rid) = rq_waiting q" by (simp add: rq_waiting_def)
  have "rq_size (rq_ensure q rid) = int (count_list (rq_bits (rq_ensure q rid)) True)"
    using ok e by (simp add: rq_ok_def count_True_replicate)
  moreover have "rq_head (rq_ensure q rid) = rq_head q" "rq_queue (rq_ensure q rid) = rq_queue q" by (simp_all add: e)
  ultimately show ?thesis using ok w by (simp add: rq_ok_def)
qed

lemma rq_size_nonneg: "rq_ok T q \<Longrightarrow> 0 \<le> rq_size q"
  by (simp add: rq_ok_def)

lemma rq_size_zero: "rq_ok T q \<Longrightarrow> rq_size q = 0 \<longleftrightarrow> (\<forall>r. \<not> rq_has q r)"
proof -
  assume "rq_ok T q"
  then have "rq_size q = 0 \<longleftrightarrow> True \<notin> set (rq_bits q)" by (auto simp: rq_ok_def count_list_0_iff)
  also have "\<dots> \<longleftrightarrow> (\<forall>r. \<not> rq_has q r)" by (auto simp: rq_has_def js_at_def in_set_conv_nth)
  finally show ?thesis .
qed

lemma compactQueue_ok: "rq_ok T q \<Longrightarrow> rq_ok T (compactQueue q)"
  using rq_size_zero [of T q]
  by (auto simp: compactQueue_def rq_ok_def rq_waiting_def rq_has_def)

lemma rq_has_compact [simp]: "rq_has (compactQueue q) r = rq_has q r"
  by (simp add: compactQueue_def rq_has_def)

lemma rq_add_ok:
  assumes "rq_ok T q"
  shows "rq_ok T (fst (rq_add q rid)) \<and> (\<forall>r. rq_has (fst (rq_add q rid)) r \<longleftrightarrow> r = rid \<or> rq_has q r) \<and>
    (snd (rq_add q rid) \<longleftrightarrow> \<not> rq_has q rid)"
proof -
  let ?q = "rq_ensure q rid"
  have lt: "rid < length (rq_bits ?q)" using rq_ensure_spec by blast
  have ok: "rq_ok T ?q" using rq_ok_ensure [OF assms] by blast
  have has: "rq_bits ?q ! rid \<longleftrightarrow> rq_has q rid" using rq_has_ensure [of q rid rid] lt by (simp add: rq_has_def js_at_def)
  show ?thesis
  proof (cases "rq_has q rid")
    case True
    with ok has show ?thesis by (auto simp: rq_add_def Let_def)
  next
    case False
    let ?q' = "?q\<lparr>rq_bits := (rq_bits ?q)[rid := True], rq_size := rq_size ?q + 1, rq_queue := rq_queue ?q @ [rid]\<rparr>"
    have r: "rq_add q rid = (?q', True)" using False has by (simp add: rq_add_def Let_def)
    have h: "rq_has ?q' r \<longleftrightarrow> r = rid \<or> rq_has q r" for r
      using lt rq_has_ensure [of q rid r] by (auto simp: rq_has_def js_at_def nth_list_update)
    have "int (count_list ((rq_bits ?q)[rid := True]) True) = int (count_list (rq_bits ?q) True) + 1"
      using count_list_update [OF lt, of True True] False has by simp
    moreover have "rq_waiting ?q' = rq_waiting ?q @ [rid]" using ok by (simp add: rq_waiting_def rq_ok_def)
    ultimately have "rq_ok T ?q'" using ok h by (auto simp: rq_ok_def)
    with h r False show ?thesis by auto
  qed
qed

lemma rq_delete_ok:
  assumes "rq_ok T q"
  shows "rq_ok (T - {rid}) (fst (rq_delete q rid)) \<and> (\<forall>r. rq_has (fst (rq_delete q rid)) r \<longleftrightarrow> r \<noteq> rid \<and> rq_has q r) \<and>
    (snd (rq_delete q rid) \<longleftrightarrow> rq_has q rid)"
proof (cases "rq_has q rid")
  case False
  then have r: "rq_delete q rid = (q, False)" by (auto simp: rq_delete_def rq_has_def js_at_def)
  have "rq_ok (T - {rid}) q" using assms False by (auto simp: rq_ok_def)
  with r False show ?thesis by auto
next
  case True
  then have lt: "rid < length (rq_bits q)" and bit: "rq_bits q ! rid" by (auto simp: rq_has_def js_at_def split: if_splits)
  define q1 where "q1 = q\<lparr>rq_bits := (rq_bits q)[rid := False], rq_size := rq_size q - 1\<rparr>"
  have h: "rq_has q1 r \<longleftrightarrow> r \<noteq> rid \<and> rq_has q r" for r
    using lt by (auto simp: q1_def rq_has_def js_at_def nth_list_update)
  have "int (count_list ((rq_bits q)[rid := False]) True) = int (count_list (rq_bits q) True) - 1"
    using count_list_update [OF lt, of False True] bit by simp
  then have ok: "rq_ok (T - {rid}) q1" using assms h by (auto simp: q1_def rq_ok_def rq_waiting_def)
  have r: "rq_delete q rid = (if rq_size q1 = 0 then compactQueue q1 else q1, True)"
    using lt bit by (simp add: rq_delete_def Let_def q1_def)
  have "rq_ok (T - {rid}) (fst (rq_delete q rid))" using ok compactQueue_ok [OF ok] by (simp add: r)
  moreover have "rq_has (fst (rq_delete q rid)) x \<longleftrightarrow> x \<noteq> rid \<and> rq_has q x" for x
    using h [of x] by (simp only: r fst_conv if_distrib [of "\<lambda>q. rq_has q x"] rq_has_compact if_cancel)
  ultimately show ?thesis using True by (simp add: r)
qed

lemma rq_deletes_ok:
  "rq_ok T q \<Longrightarrow>
   rq_ok (T - set rs) (foldl (\<lambda>q r. fst (rq_delete q r)) q rs) \<and>
   (\<forall>r. rq_has (foldl (\<lambda>q r. fst (rq_delete q r)) q rs) r \<longleftrightarrow> r \<notin> set rs \<and> rq_has q r)"
proof (induction rs arbitrary: T q)
  case (Cons x rs)
  have d: "rq_ok (T - {x}) (fst (rq_delete q x))" "\<forall>r. rq_has (fst (rq_delete q x)) r \<longleftrightarrow> r \<noteq> x \<and> rq_has q r"
    using rq_delete_ok [OF Cons.prems] by auto
  have "T - set (x # rs) = T - {x} - set rs" by auto
  with Cons.IH [OF d(1)] d(2) show ?case by auto
qed simp

lemma take_loop_spec:
  "take_loop q mx rest head out = (out', head') \<Longrightarrow>
   \<exists>pre post. rest = pre @ post \<and> head' = head + length pre \<and> out' = out @ filter (rq_has q) pre \<and>
     (post = [] \<or> mx \<le> length out') \<and> (length out \<le> mx \<longrightarrow> length out' \<le> mx)"
proof (induction q mx rest head out rule: take_loop.induct)
  case (1 q mx head out)
  then show ?case by auto
next
  case (2 q mx rid rest head out)
  show ?case
  proof (cases "mx \<le> length out")
    case True
    with 2(2) show ?thesis by (intro exI [of _ "[]"] exI [of _ "rid # rest"]) auto
  next
    case False
    then have "take_loop q mx rest (head + 1) (if rq_has q rid then out @ [rid] else out) = (out', head')"
      using 2(2) by simp
    from 2(1) [OF False this] obtain pre post where p: "rest = pre @ post" "head' = head + 1 + length pre"
      "out' = (if rq_has q rid then out @ [rid] else out) @ filter (rq_has q) pre" "post = [] \<or> mx \<le> length out'"
      "length (if rq_has q rid then out @ [rid] else out) \<le> mx \<longrightarrow> length out' \<le> mx" by blast
    show ?thesis
    proof (rule exI [of _ "rid # pre"], rule exI [of _ post], intro conjI)
      show "out' = out @ filter (rq_has q) (rid # pre)" by (simp add: p(3))
      show "length out \<le> mx \<longrightarrow> length out' \<le> mx" using p(5) False by (simp split: if_splits)
    qed (use p in simp_all)
  qed
qed

lemma rq_take_has [simp]: "rq_take q mx = (out, q') \<Longrightarrow> rq_has q' r = rq_has q r"
  by (auto simp: rq_take_def rq_has_def compactQueue_def split: if_splits prod.splits)

lemma rq_take_members: "rq_take q mx = (out, q') \<Longrightarrow> r \<in> set out \<Longrightarrow> rq_has q r"
  by (auto simp: rq_take_def split: if_splits prod.splits dest!: take_loop_spec)

lemma rq_take_size: "rq_take q mx = (out, q') \<Longrightarrow> rq_size q' = rq_size q"
  by (auto simp: rq_take_def compactQueue_def split: if_splits prod.splits)

lemma rq_take_ok:
  assumes "rq_ok {} q" and "rq_take q mx = (out, q')"
  shows "rq_ok (set out) q' \<and> length out \<le> mx \<and> (rq_size q \<noteq> 0 \<and> mx \<noteq> 0 \<longrightarrow> out \<noteq> [])"
proof (cases "mx = 0 \<or> rq_size q \<le> 0")
  case True
  with assms rq_size_nonneg [OF assms(1)] show ?thesis by (auto simp: rq_take_def)
next
  case False
  obtain out1 head where t: "take_loop q mx (rq_waiting q) (rq_head q) [] = (out1, head)"
    by (cases "take_loop q mx (rq_waiting q) (rq_head q) []")
  then have r: "out = out1" "q' = compactQueue (q\<lparr>rq_head := head\<rparr>)"
    using assms(2) False by (auto simp: rq_take_def rq_waiting_def)
  from take_loop_spec [OF t] obtain pre post where p: "rq_waiting q = pre @ post" "head = rq_head q + length pre"
    "out1 = filter (rq_has q) pre" "post = [] \<or> mx \<le> length out1" "length out1 \<le> mx" by auto
  have len: "length (rq_queue q) = rq_head q + length (rq_waiting q)" using assms(1) by (simp add: rq_ok_def rq_waiting_def)
  have w: "rq_waiting (q\<lparr>rq_head := head\<rparr>) = post"
    using p(1,2) by (simp add: rq_waiting_def) (metis append_eq_conv_conj drop_drop add.commute)
  have "rq_ok (set out) (q\<lparr>rq_head := head\<rparr>)"
  proof -
    have "rq_has (q\<lparr>rq_head := head\<rparr>) r = rq_has q r" for r by (simp add: rq_has_def)
    moreover have "{r. rq_has q r} \<subseteq> set pre \<union> set post" using assms(1) p(1) by (auto simp: rq_ok_def)
    ultimately show ?thesis using assms(1) w r(1) p len by (auto simp: rq_ok_def)
  qed
  moreover have "out \<noteq> []"
  proof
    assume "out = []"
    then have "post = []" using p(4) r(1) False by auto
    with \<open>out = []\<close> p(1,3) r(1) have "\<forall>x\<in>set (rq_waiting q). \<not> rq_has q x" by (simp add: filter_empty_conv)
    then have "\<forall>x. \<not> rq_has q x" using assms(1) by (auto simp: rq_ok_def)
    with rq_size_zero [OF assms(1)] False show False by simp
  qed
  ultimately show ?thesis using compactQueue_ok r p(5) by blast
qed

subsection \<open>Draining\<close>

text \<open>
  The loop of \<open>_runDirtyIndexCatchup\<close>, seen from the queue: batches are taken until none is left, each row of a batch is
  processed and then deleted. The result is the rows in the order they are processed.
\<close>

definition rq_delete_all :: "rid_queue \<Rightarrow> nat list \<Rightarrow> rid_queue" where
  "rq_delete_all q rs = foldl (\<lambda>q r. fst (rq_delete q r)) q rs"

lemma rq_delete_size_le: "rq_size (fst (rq_delete q r)) \<le> rq_size q"
  by (simp add: rq_delete_def compactQueue_def Let_def)

lemma rq_delete_all_size_le: "rq_size (rq_delete_all q rs) \<le> rq_size q"
proof (induction rs arbitrary: q)
  case (Cons r rs)
  show ?case using Cons [of "fst (rq_delete q r)"] rq_delete_size_le [of q r] by (simp add: rq_delete_all_def)
qed (simp add: rq_delete_all_def)

lemma rq_delete_size_less: "rq_has q r \<Longrightarrow> rq_size (fst (rq_delete q r)) < rq_size q"
  by (auto simp: rq_delete_def compactQueue_def Let_def rq_has_def js_at_def split: if_splits)

function rq_drain :: "nat \<Rightarrow> rid_queue \<Rightarrow> nat list \<times> rid_queue" where
  "rq_drain mx q =
     (if rq_size q = 0 then ([], q)
      else (case rq_take q mx of
              ([], q1) \<Rightarrow> ([], rq_clear q1)
            | (r # rs, q1) \<Rightarrow>
                (case rq_drain mx (rq_delete_all q1 (r # rs)) of (handled, q2) \<Rightarrow> (r # rs @ handled, q2))))"
  by pat_completeness auto
termination
proof (relation "measure (\<lambda>(mx, q). nat (rq_size q))", goal_cases)
  case (2 mx q x q1 r rs)
  then have t: "rq_take q mx = (r # rs, q1)" by simp
  then have "0 < rq_size q" by (auto simp: rq_take_def split: if_splits)
  moreover have "rq_has q1 r" using rq_take_members [OF t, of r] rq_take_has [OF t, of r] by simp
  then have "rq_size (fst (rq_delete q1 r)) < rq_size q" using rq_delete_size_less rq_take_size [OF t] by fastforce
  then have "rq_size (rq_delete_all q1 (r # rs)) < rq_size q"
    using rq_delete_all_size_le [of "fst (rq_delete q1 r)" rs] by (simp add: rq_delete_all_def)
  ultimately show ?case by simp
qed simp

declare rq_drain.simps [simp del]

lemma rq_drain_complete:
  "rq_ok {} q \<Longrightarrow> 0 < mx \<Longrightarrow> rq_drain mx q = (handled, q') \<Longrightarrow>
   {r. rq_has q r} = set handled \<and> rq_ok {} q' \<and> rq_size q' = 0"
proof (induction mx q arbitrary: handled q' rule: rq_drain.induct)
  case (1 mx q)
  show ?case
  proof (cases "rq_size q = 0")
    case True
    with 1(4) have "handled = []" "q' = q" by (auto simp: rq_drain.simps [of mx q])
    with True rq_size_zero [OF 1(2)] 1(2) show ?thesis by auto
  next
    case False
    obtain out q1 where t: "rq_take q mx = (out, q1)" by (cases "rq_take q mx")
    note tk = rq_take_ok [OF 1(2) t]
    with False 1(3) obtain r rs where out: "out = r # rs" by (cases out) auto
    obtain handled1 q2 where d: "rq_drain mx (rq_delete_all q1 (r # rs)) = (handled1, q2)"
      by (cases "rq_drain mx (rq_delete_all q1 (r # rs))")
    have del: "rq_ok {} (rq_delete_all q1 (r # rs))" "\<And>x. rq_has (rq_delete_all q1 (r # rs)) x \<longleftrightarrow> x \<notin> set (r # rs) \<and> rq_has q1 x"
      using rq_deletes_ok [of "set out" q1 "r # rs"] tk out by (auto simp: rq_delete_all_def)
    have "{x. rq_has (rq_delete_all q1 (r # rs)) x} = set handled1 \<and> rq_ok {} q2 \<and> rq_size q2 = 0"
      by (rule 1(1) [OF False t [symmetric] out del(1) 1(3) d])
    moreover have "handled = r # rs @ handled1" "q' = q2" using 1(4) False t out d by (auto simp: rq_drain.simps [of mx q])
    moreover have "rq_has q1 x = rq_has q x" for x by (rule rq_take_has [OF t])
    moreover have "x \<in> set out \<Longrightarrow> rq_has q x" for x by (rule rq_take_members [OF t])
    ultimately show ?thesis using del(2) out by auto
  qed
qed

subsection \<open>Properties\<close>

datatype rq_op = QAdd nat | QDelete nat | QClear

fun rq_step :: "rid_queue \<Rightarrow> rq_op \<Rightarrow> rid_queue" where
  "rq_step q (QAdd r) = fst (rq_add q r)"
| "rq_step q (QDelete r) = fst (rq_delete q r)"
| "rq_step q QClear = rq_clear q"

fun rq_spec :: "nat set \<Rightarrow> rq_op \<Rightarrow> nat set" where
  "rq_spec S (QAdd r) = insert r S"
| "rq_spec S (QDelete r) = S - {r}"
| "rq_spec S QClear = {}"

lemma rq_clear_ok: "rq_ok {} (rq_clear q) \<and> {r. rq_has (rq_clear q) r} = {}"
proof -
  have "\<not> rq_has (rq_clear q) r" for r by (simp add: rq_has_def rq_clear_def js_at_def)
  moreover have "count_list (map (\<lambda>b. False) bs) True = 0" for bs :: "bool list" by (simp add: count_list_0_iff)
  ultimately show ?thesis by (simp add: rq_ok_def) (simp add: rq_clear_def)
qed

lemma rq_step_ok: "rq_ok {} q \<Longrightarrow> rq_ok {} (rq_step q p) \<and> {r. rq_has (rq_step q p) r} = rq_spec {r. rq_has q r} p"
proof (cases p)
  case (QAdd x)
  assume "rq_ok {} q"
  with rq_add_ok [of "{}" q x] QAdd show ?thesis by auto
next
  case (QDelete x)
  assume "rq_ok {} q"
  with rq_delete_ok [of "{}" q x] QDelete show ?thesis by auto
next
  case QClear
  with rq_clear_ok show ?thesis by simp
qed

lemma rq_run_ok:
  "rq_ok {} (foldl rq_step newRidQueue ps) \<and> {r. rq_has (foldl rq_step newRidQueue ps) r} = foldl rq_spec {} ps"
proof (induction ps rule: rev_induct)
  case Nil
  show ?case by (simp add: newRidQueue_def rq_ok_def rq_has_def js_at_def)
next
  case (snoc p ps)
  with rq_step_ok [of "foldl rq_step newRidQueue ps" p] show ?case by simp
qed

text \<open>C24: No out-of-date row is forgotten: after any sequence of marks, unmarks and clears, the catch-up loop processes exactly the rows
that are marked at that moment (each at least once), in batches of any positive size, and it ends with none marked.\<close>

theorem rid_queue_drain:
  assumes "0 < mx" and "rq_drain mx (foldl rq_step newRidQueue ps) = (handled, q')"
  shows "set handled = foldl rq_spec {} ps \<and> rq_size q' = 0 \<and> {r. rq_has q' r} = {}"
proof -
  have ok: "rq_ok {} (foldl rq_step newRidQueue ps)" "{r. rq_has (foldl rq_step newRidQueue ps) r} = foldl rq_spec {} ps"
    using rq_run_ok by auto
  from rq_drain_complete [OF ok(1) assms] have d: "{r. rq_has (foldl rq_step newRidQueue ps) r} = set handled"
    "rq_ok {} q'" "rq_size q' = 0" by auto
  with ok(2) rq_size_zero [OF d(2)] show ?thesis by auto
qed

theorem rid_queue_drain_witness:
  "\<exists>handled q'. rq_drain 1 (foldl rq_step newRidQueue [QAdd 3, QAdd 5, QDelete 3, QAdd 3, QDelete 5]) = (handled, q') \<and>
     set handled = {3} \<and> rq_size q' = 0"
proof -
  let ?ops = "[QAdd 3, QAdd 5, QDelete 3, QAdd 3, QDelete 5]"
  obtain handled q' where d: "rq_drain 1 (foldl rq_step newRidQueue ?ops) = (handled, q')"
    by (meson prod.exhaust)
  have "foldl rq_spec {} ?ops = {3}" by auto
  with rid_queue_drain [OF zero_less_one d] have "set handled = {3} \<and> rq_size q' = 0" by (simp only:)
  with d show ?thesis by blast
qed

end
