(* ===== verification/TypedColumn.thy ===== *)
theory TypedColumn
  imports JsText
begin

text \<open>
  The typed column of src/src/store.js, \<open>TypedRidColumn\<close>: one value per row id, kept in parallel arrays by type (numbers,
  booleans, interned strings, nulls) and an overflow map for arrays, objects and numbers that are not finite; counters and
  the sum of the numbers are kept beside it. While a column is being built its changes wait in \<open>pending\<close> and
  are replayed when the scan's result is installed.

  A bit of a \<open>Uint8Array\<close> is a truth value. Every array has the same length, which only \<open>_ensure\<close> changes.
\<close>

datatype col_state = CAbsent | CNull | CScalar jsv | CNonScalar jsv

definition isScalarColumnValue :: "jsv \<Rightarrow> bool" where
  "isScalarColumnValue v = (case v of JNum n \<Rightarrow> num_finite n | JStr s \<Rightarrow> True | JBool b \<Rightarrow> True | _ \<Rightarrow> False)"

definition columnScalarState :: "jsv \<Rightarrow> col_state" where
  "columnScalarState v =
     (if isScalarColumnValue v then CScalar v
      else if v = JNull then CNull
      else if v \<noteq> JUndef then CNonScalar v
      else CAbsent)"

datatype col_status = Ready | Building | Failed

record tcol =
  co_path :: string
  co_numberValues :: "jsnum list"
  co_numberPresent :: "bool list"
  co_booleanValues :: "bool list"
  co_booleanPresent :: "bool list"
  co_stringCodes :: "nat list"
  co_nulls :: "bool list"
  co_strings :: "string option list"
  co_stringIds :: "(string, nat) jmap"
  co_stringRefs :: "int list"
  co_freeStringCodes :: "nat list"
  co_overflow :: "(nat, jsv) jmap"
  co_pending :: "(nat, col_state) jmap option"
  co_status :: col_status
  co_buildId :: nat
  co_numberSum :: jsnum
  co_numberCount :: int
  co_scalarCount :: int
  co_nullCount :: int

definition newTypedColumn :: "string \<Rightarrow> tcol" where
  "newTypedColumn path =
     \<lparr>co_path = path, co_numberValues = [], co_numberPresent = [], co_booleanValues = [], co_booleanPresent = [],
      co_stringCodes = [], co_nulls = [], co_strings = [], co_stringIds = [], co_stringRefs = [],
      co_freeStringCodes = [], co_overflow = [], co_pending = None, co_status = Ready, co_buildId = 0,
      co_numberSum = Fin 0, co_numberCount = 0, co_scalarCount = 0, co_nullCount = 0\<rparr>"

definition col_ready :: "tcol \<Rightarrow> bool" where
  "col_ready col \<longleftrightarrow> co_status col = Ready"

definition col_entries :: "tcol \<Rightarrow> int" where
  "col_entries col = co_scalarCount col + co_nullCount col + int (length (co_overflow col))"

definition hasScalar :: "tcol \<Rightarrow> nat \<Rightarrow> bool" where
  "hasScalar col rid \<longleftrightarrow>
     js_at False (co_numberPresent col) rid \<or> js_at False (co_booleanPresent col) rid \<or> js_at 0 (co_stringCodes col) rid \<noteq> 0"

definition hasNonScalar :: "tcol \<Rightarrow> nat \<Rightarrow> bool" where
  "hasNonScalar col rid \<longleftrightarrow> jm_has (co_overflow col) rid"

definition hasValue :: "tcol \<Rightarrow> nat \<Rightarrow> bool" where
  "hasValue col rid \<longleftrightarrow> hasScalar col rid \<or> hasNonScalar col rid \<or> js_at False (co_nulls col) rid"

definition string_at :: "tcol \<Rightarrow> nat \<Rightarrow> jsv" where
  "string_at col code = (case js_at None (co_strings col) (code - 1) of None \<Rightarrow> JUndef | Some s \<Rightarrow> JStr s)"

definition valueFor :: "tcol \<Rightarrow> nat \<Rightarrow> jsv" where
  "valueFor col rid =
     (if js_at False (co_numberPresent col) rid then JNum (js_at NaN (co_numberValues col) rid)
      else if js_at False (co_booleanPresent col) rid then JBool (js_at False (co_booleanValues col) rid)
      else if js_at 0 (co_stringCodes col) rid \<noteq> 0 then string_at col (js_at 0 (co_stringCodes col) rid)
      else if js_at False (co_nulls col) rid then JNull
      else (case jm_get (co_overflow col) rid of Some v \<Rightarrow> json_clone v | None \<Rightarrow> JUndef))"

subsection \<open>Clearing a row\<close>

definition clear_number :: "nat \<Rightarrow> tcol \<Rightarrow> tcol" where
  "clear_number rid col =
     (if js_at False (co_numberPresent col) rid
      then col\<lparr>co_numberPresent := (co_numberPresent col)[rid := False],
               co_numberSum := num_sub (co_numberSum col) (js_at NaN (co_numberValues col) rid),
               co_numberValues := (co_numberValues col)[rid := Fin 0],
               co_numberCount := co_numberCount col - 1, co_scalarCount := co_scalarCount col - 1\<rparr>
      else col)"

definition clear_boolean :: "nat \<Rightarrow> tcol \<Rightarrow> tcol" where
  "clear_boolean rid col =
     (if js_at False (co_booleanPresent col) rid
      then col\<lparr>co_booleanPresent := (co_booleanPresent col)[rid := False],
               co_booleanValues := (co_booleanValues col)[rid := False], co_scalarCount := co_scalarCount col - 1\<rparr>
      else col)"

text \<open>A string that loses its last row is forgotten and its code can be used again.\<close>

definition drop_string :: "nat \<Rightarrow> tcol \<Rightarrow> tcol" where
  "drop_string code col =
     (let r = js_at 0 (co_stringRefs col) (code - 1);
          refs = (if r = 0 then 1 else r) - 1;
          col1 = col\<lparr>co_stringRefs := js_put 0 (co_stringRefs col) (code - 1) refs\<rparr>
      in if refs \<noteq> 0 then col1
         else col1\<lparr>co_stringIds :=
                     (case js_at None (co_strings col1) (code - 1) of
                        None \<Rightarrow> co_stringIds col1
                      | Some s \<Rightarrow> if jm_get (co_stringIds col1) s = Some code then jm_del s (co_stringIds col1)
                                  else co_stringIds col1),
                   co_strings := js_put None (co_strings col1) (code - 1) None,
                   co_freeStringCodes := code # co_freeStringCodes col1\<rparr>)"

definition clear_string :: "nat \<Rightarrow> tcol \<Rightarrow> tcol" where
  "clear_string rid col =
     (let code = js_at 0 (co_stringCodes col) rid in
      if code = 0 then col
      else let col1 = drop_string code col
           in col1\<lparr>co_stringCodes := (co_stringCodes col1)[rid := 0], co_scalarCount := co_scalarCount col1 - 1\<rparr>)"

definition clear_null :: "nat \<Rightarrow> tcol \<Rightarrow> tcol" where
  "clear_null rid col =
     (if js_at False (co_nulls col) rid
      then col\<lparr>co_nulls := (co_nulls col)[rid := False], co_nullCount := co_nullCount col - 1\<rparr>
      else col)"

definition clearRid :: "nat \<Rightarrow> tcol \<Rightarrow> tcol" where
  "clearRid rid col =
     (let col1 = clear_null rid (clear_string rid (clear_boolean rid (clear_number rid col)))
      in col1\<lparr>co_overflow := jm_del rid (co_overflow col1)\<rparr>)"

subsection \<open>Writing a row\<close>

definition stringCode :: "string \<Rightarrow> tcol \<Rightarrow> nat \<times> tcol" where
  "stringCode s col =
     (let fresh = (case co_freeStringCodes col of
                     [] \<Rightarrow> (length (co_strings col) + 1, [])
                   | c # cs \<Rightarrow> (if c = 0 then length (co_strings col) + 1 else c, cs));
          alloc = (fst fresh,
                   col\<lparr>co_freeStringCodes := snd fresh,
                       co_strings := js_put None (co_strings col) (fst fresh - 1) (Some s),
                       co_stringRefs := js_put 0 (co_stringRefs col) (fst fresh - 1) 1,
                       co_stringIds := jm_set s (fst fresh) (co_stringIds col)\<rparr>)
      in case jm_get (co_stringIds col) s of
           Some code \<Rightarrow>
             if code \<noteq> 0
             then (code, col\<lparr>co_stringRefs := js_put 0 (co_stringRefs col) (code - 1) (js_at 0 (co_stringRefs col) (code - 1) + 1)\<rparr>)
             else alloc
         | None \<Rightarrow> alloc)"

definition setScalar :: "nat \<Rightarrow> jsv \<Rightarrow> tcol \<Rightarrow> tcol" where
  "setScalar rid v col =
     (case v of
        JNum n \<Rightarrow>
          col\<lparr>co_numberValues := (co_numberValues col)[rid := n],
              co_numberPresent := (co_numberPresent col)[rid := True],
              co_numberSum := num_add (co_numberSum col) n,
              co_numberCount := co_numberCount col + 1, co_scalarCount := co_scalarCount col + 1\<rparr>
      | JBool b \<Rightarrow>
          col\<lparr>co_booleanValues := (co_booleanValues col)[rid := b],
              co_booleanPresent := (co_booleanPresent col)[rid := True], co_scalarCount := co_scalarCount col + 1\<rparr>
      | JStr s \<Rightarrow>
          (case stringCode s col of
             (code, col1) \<Rightarrow>
               col1\<lparr>co_stringCodes := (co_stringCodes col1)[rid := code], co_scalarCount := co_scalarCount col1 + 1\<rparr>)
      | _ \<Rightarrow> col)"

definition resetIfEmpty :: "tcol \<Rightarrow> tcol" where
  "resetIfEmpty col =
     (if co_scalarCount col \<noteq> 0 \<or> co_nullCount col \<noteq> 0 \<or> co_overflow col \<noteq> [] then col
      else col\<lparr>co_numberValues := [], co_numberPresent := [], co_booleanValues := [], co_booleanPresent := [],
               co_stringCodes := [], co_nulls := [], co_strings := [], co_stringIds := [], co_stringRefs := [],
               co_freeStringCodes := [], co_numberSum := Fin 0, co_numberCount := 0, co_scalarCount := 0,
               co_nullCount := 0\<rparr>)"

function grow_column :: "nat \<Rightarrow> nat \<Rightarrow> nat" where
  "grow_column rid n = (if n = 0 \<or> rid < n then n else grow_column rid (n * 2))"
  by pat_completeness auto
termination by (relation "measure (\<lambda>(rid, n). Suc rid - n)") auto

declare grow_column.simps [simp del]

definition growTypedArray :: "'a \<Rightarrow> 'a list \<Rightarrow> nat \<Rightarrow> 'a list" where
  "growTypedArray zero current n = current @ replicate (n - length current) zero"

definition co_ensure :: "nat \<Rightarrow> tcol \<Rightarrow> tcol" where
  "co_ensure rid col =
     (if rid < length (co_numberValues col) then col
      else let n = grow_column rid (if co_numberValues col = [] then 1024 else length (co_numberValues col))
           in col\<lparr>co_numberValues := growTypedArray (Fin 0) (co_numberValues col) n,
                  co_numberPresent := growTypedArray False (co_numberPresent col) n,
                  co_booleanValues := growTypedArray False (co_booleanValues col) n,
                  co_booleanPresent := growTypedArray False (co_booleanPresent col) n,
                  co_stringCodes := growTypedArray 0 (co_stringCodes col) n,
                  co_nulls := growTypedArray False (co_nulls col) n\<rparr>)"

definition applyState :: "nat \<Rightarrow> col_state \<Rightarrow> tcol \<Rightarrow> tcol" where
  "applyState rid st col =
     (let col1 = clearRid rid col in
      case st of
        CAbsent \<Rightarrow> resetIfEmpty col1
      | CNull \<Rightarrow>
          let col2 = co_ensure rid col1
          in col2\<lparr>co_nulls := (co_nulls col2)[rid := True], co_nullCount := co_nullCount col2 + 1\<rparr>
      | CScalar v \<Rightarrow> setScalar rid v (co_ensure rid col1)
      | CNonScalar v \<Rightarrow>
          let col2 = co_ensure rid col1
          in col2\<lparr>co_overflow := jm_set rid (json_clone v) (co_overflow col2)\<rparr>)"

definition updateScalarState :: "nat \<Rightarrow> col_state \<Rightarrow> tcol \<Rightarrow> tcol" where
  "updateScalarState rid st col =
     (if co_status col = Building
      then col\<lparr>co_pending := Some (jm_set rid st (case co_pending col of None \<Rightarrow> [] | Some p \<Rightarrow> p))\<rparr>
      else applyState rid st col)"

definition col_remove :: "nat \<Rightarrow> tcol \<Rightarrow> tcol" where
  "col_remove rid col = updateScalarState rid CAbsent col"

subsection \<open>Builds\<close>

definition startBuild :: "tcol \<Rightarrow> nat \<times> tcol" where
  "startBuild col =
     (co_buildId col + 1, col\<lparr>co_status := Building, co_pending := Some [], co_buildId := co_buildId col + 1\<rparr>)"

definition col_install :: "tcol \<Rightarrow> nat \<Rightarrow> tcol \<Rightarrow> tcol \<times> bool" where
  "col_install source buildId col =
     (if buildId \<noteq> co_buildId col then (col, False)
      else let col1 = source\<lparr>co_path := co_path col, co_pending := co_pending col, co_status := co_status col,
                             co_buildId := co_buildId col\<rparr>;
               col2 = foldl (\<lambda>c (rid, st). applyState rid st c) col1 (case co_pending col of None \<Rightarrow> [] | Some p \<Rightarrow> p)
           in (col2\<lparr>co_pending := None, co_status := Ready\<rparr>, True))"

definition col_fail :: "nat \<Rightarrow> tcol \<Rightarrow> tcol" where
  "col_fail buildId col =
     (if buildId \<noteq> co_buildId col then col else col\<lparr>co_status := Failed, co_pending := None\<rparr>)"

subsection \<open>The table of strings\<close>

definition strings_ok :: "(nat \<Rightarrow> nat) \<Rightarrow> tcol \<Rightarrow> bool" where
  "strings_ok cnt col \<longleftrightarrow>
     length (co_stringRefs col) = length (co_strings col) \<and>
     (\<forall>c. 0 < c \<longrightarrow> js_at 0 (co_stringRefs col) (c - 1) = int (cnt c)) \<and>
     (\<forall>c. length (co_strings col) < c \<longrightarrow> cnt c = 0) \<and>
     (\<forall>c. 0 < c \<and> 0 < cnt c \<longrightarrow> js_at None (co_strings col) (c - 1) \<noteq> None)"

definition ids_ok :: "(nat \<Rightarrow> nat) \<Rightarrow> tcol \<Rightarrow> bool" where
  "ids_ok cnt col \<longleftrightarrow>
     (\<forall>s c. jm_get (co_stringIds col) s = Some c \<longleftrightarrow>
        0 < c \<and> 0 < cnt c \<and> js_at None (co_strings col) (c - 1) = Some s)"

definition free_codes_ok :: "(nat \<Rightarrow> nat) \<Rightarrow> tcol \<Rightarrow> bool" where
  "free_codes_ok cnt col \<longleftrightarrow>
     distinct (co_freeStringCodes col) \<and>
     (\<forall>c. c \<in> set (co_freeStringCodes col) \<longleftrightarrow> 0 < c \<and> c \<le> length (co_strings col) \<and> cnt c = 0)"

definition table_ok :: "(nat \<Rightarrow> nat) \<Rightarrow> tcol \<Rightarrow> bool" where
  "table_ok cnt col \<longleftrightarrow> strings_ok cnt col \<and> ids_ok cnt col \<and> free_codes_ok cnt col"

text \<open>The part of a column that is not its table of strings.\<close>

definition outside_table :: "tcol \<Rightarrow> tcol" where
  "outside_table col = col\<lparr>co_strings := [], co_stringIds := [], co_stringRefs := [], co_freeStringCodes := []\<rparr>"

lemma strings_ok_le: "strings_ok cnt col \<Longrightarrow> 0 < cnt c \<Longrightarrow> c \<le> length (co_strings col)"
  unfolding strings_ok_def by (metis less_irrefl not_le)

lemma ids_ok_unique:
  "ids_ok cnt col \<Longrightarrow> 0 < c \<Longrightarrow> 0 < cnt c \<Longrightarrow> 0 < c' \<Longrightarrow> 0 < cnt c' \<Longrightarrow>
   js_at None (co_strings col) (c - 1) = Some s \<Longrightarrow> js_at None (co_strings col) (c' - 1) = Some s \<Longrightarrow> c = c'"
  unfolding ids_ok_def by (metis option.inject)

lemma pred_eq: "0 < c \<Longrightarrow> 0 < c' \<Longrightarrow> (c' - 1 = c - 1) = (c' = (c :: nat))"
  by auto

lemma drop_string_ok:
  assumes "table_ok cnt col" and "0 < c" and "0 < cnt c"
  shows "table_ok (cnt(c := cnt c - 1)) (drop_string c col) \<and> outside_table (drop_string c col) = outside_table col \<and>
    (\<forall>c'. 0 < c' \<longrightarrow> 0 < (cnt(c := cnt c - 1)) c' \<longrightarrow>
       js_at None (co_strings (drop_string c col)) (c' - 1) = js_at None (co_strings col) (c' - 1))"
proof -
  have ok: "strings_ok cnt col" "ids_ok cnt col" "free_codes_ok cnt col" using assms(1) by (auto simp: table_ok_def)
  have le: "c \<le> length (co_strings col)" using strings_ok_le [OF ok(1) assms(3)] .
  have refs: "js_at 0 (co_stringRefs col) (c - 1) = int (cnt c)" using ok(1) assms(2) by (simp add: strings_ok_def)
  obtain s where s: "js_at None (co_strings col) (c - 1) = Some s"
    using ok(1) assms(2,3) by (auto simp: strings_ok_def)
  show ?thesis
  proof (cases "cnt c = 1")
    case False
    define col1 where "col1 = col\<lparr>co_stringRefs := js_put 0 (co_stringRefs col) (c - 1) (int (cnt c) - 1)\<rparr>"
    have r: "drop_string c col = col1" using refs False assms(3) by (simp add: drop_string_def Let_def col1_def)
    have "strings_ok (cnt(c := cnt c - 1)) col1"
    proof -
      have "js_at 0 (co_stringRefs col1) (c' - 1) = int ((cnt(c := cnt c - 1)) c')" if "0 < c'" for c'
        using ok(1) that assms(2,3) pred_eq [OF assms(2) that] by (simp add: col1_def strings_ok_def)
      then show ?thesis using ok(1) le assms(2,3) unfolding strings_ok_def
        by (simp add: col1_def max_absorb1)
    qed
    moreover have "ids_ok (cnt(c := cnt c - 1)) col1"
      using ok(2) False assms(3) by (simp add: ids_ok_def col1_def)
    moreover have "free_codes_ok (cnt(c := cnt c - 1)) col1"
      using ok(3) False assms(3) by (simp add: free_codes_ok_def col1_def)
    ultimately show ?thesis by (simp add: table_ok_def r) (simp add: col1_def outside_table_def)
  next
    case True
    have here: "jm_get (co_stringIds col) s = Some c" using ok(2) assms(2,3) s by (simp add: ids_ok_def)
    define col1 where "col1 = col\<lparr>co_stringRefs := js_put 0 (co_stringRefs col) (c - 1) 0,
      co_stringIds := jm_del s (co_stringIds col), co_strings := js_put None (co_strings col) (c - 1) None,
      co_freeStringCodes := c # co_freeStringCodes col\<rparr>"
    have r: "drop_string c col = col1" using refs True s here by (simp add: drop_string_def Let_def col1_def)
    have "strings_ok (cnt(c := cnt c - 1)) col1"
    proof -
      have "js_at 0 (co_stringRefs col1) (c' - 1) = int ((cnt(c := cnt c - 1)) c') \<and>
          (0 < (cnt(c := cnt c - 1)) c' \<longrightarrow> js_at None (co_strings col1) (c' - 1) \<noteq> None)" if "0 < c'" for c'
        using ok(1) that True pred_eq [OF assms(2) that] by (simp add: col1_def strings_ok_def)
      then show ?thesis using ok(1) le assms(2,3) unfolding strings_ok_def
        by (simp add: col1_def max_absorb1)
    qed
    moreover have "ids_ok (cnt(c := cnt c - 1)) col1"
      unfolding ids_ok_def
    proof (intro allI)
      fix t c'
      have old: "jm_get (co_stringIds col) t = Some c' \<longleftrightarrow>
          0 < c' \<and> 0 < cnt c' \<and> js_at None (co_strings col) (c' - 1) = Some t"
        using ok(2) by (simp add: ids_ok_def)
      show "jm_get (co_stringIds col1) t = Some c' \<longleftrightarrow>
          0 < c' \<and> 0 < (cnt(c := cnt c - 1)) c' \<and> js_at None (co_strings col1) (c' - 1) = Some t"
      proof (cases "c' = c \<or> c' = 0")
        case True
        with old s \<open>cnt c = 1\<close> show ?thesis by (auto simp: col1_def)
      next
        case False
        then have pos: "0 < c'" "c' - 1 \<noteq> c - 1" using assms(2) by auto
        show ?thesis
        proof (cases "t = s")
          case True
          with ids_ok_unique [OF ok(2) assms(2,3), of c' s] s False pos show ?thesis by (auto simp: col1_def)
        next
          case other: False
          with old False pos show ?thesis by (simp add: col1_def)
        qed
      qed
    qed
    moreover have "free_codes_ok (cnt(c := cnt c - 1)) col1"
    proof -
      have f: "c' \<in> set (co_freeStringCodes col) \<longleftrightarrow> 0 < c' \<and> c' \<le> length (co_strings col) \<and> cnt c' = 0" for c'
        using ok(3) by (simp add: free_codes_ok_def)
      have len: "length (co_strings col1) = length (co_strings col)" using le assms(2) by (simp add: col1_def)
      have "c' \<in> set (co_freeStringCodes col1) \<longleftrightarrow> 0 < c' \<and> c' \<le> length (co_strings col) \<and> (cnt(c := cnt c - 1)) c' = 0" for c'
        using f [of c'] True le assms(2) by (cases "c' = c") (simp_all add: col1_def)
      moreover have "distinct (co_freeStringCodes col1)"
        using ok(3) f [of c] True by (simp add: col1_def free_codes_ok_def)
      ultimately show ?thesis unfolding free_codes_ok_def len by blast
    qed
    moreover have "0 < c' \<Longrightarrow> c' \<noteq> c \<Longrightarrow> js_at None (co_strings col1) (c' - 1) = js_at None (co_strings col) (c' - 1)" for c'
      using assms(2) by (auto simp: col1_def)
    ultimately show ?thesis using True
      by (auto simp: table_ok_def r) (simp add: col1_def outside_table_def)
  qed
qed

lemma stringCode_ok:
  assumes "table_ok cnt col" and "stringCode s col = (c, col')"
  shows "0 < c \<and> table_ok (cnt(c := cnt c + 1)) col' \<and> outside_table col' = outside_table col \<and>
    js_at None (co_strings col') (c - 1) = Some s \<and>
    (\<forall>c'. 0 < c' \<longrightarrow> 0 < cnt c' \<longrightarrow> js_at None (co_strings col') (c' - 1) = js_at None (co_strings col) (c' - 1))"
proof -
  have ok: "strings_ok cnt col" "ids_ok cnt col" "free_codes_ok cnt col" using assms(1) by (auto simp: table_ok_def)
  show ?thesis
  proof (cases "jm_get (co_stringIds col) s")
    case (Some k)
    then have k: "0 < k" "0 < cnt k" "js_at None (co_strings col) (k - 1) = Some s" using ok(2) by (auto simp: ids_ok_def)
    have refs: "js_at 0 (co_stringRefs col) (k - 1) = int (cnt k)" using ok(1) k(1) by (simp add: strings_ok_def)
    have le: "k \<le> length (co_strings col)" using strings_ok_le [OF ok(1) k(2)] .
    have r: "c = k" "col' = col\<lparr>co_stringRefs := js_put 0 (co_stringRefs col) (k - 1) (int (cnt k) + 1)\<rparr>"
      using assms(2) Some k refs by (auto simp: stringCode_def Let_def)
    have "strings_ok (cnt(k := cnt k + 1)) col'"
    proof -
      have "js_at 0 (co_stringRefs col') (c' - 1) = int ((cnt(k := cnt k + 1)) c')" if "0 < c'" for c'
        using ok(1) that pred_eq [OF k(1) that] by (simp add: r strings_ok_def)
      moreover have "js_at None (co_strings col) (c' - 1) \<noteq> None" if "0 < c'" "0 < (cnt(k := cnt k + 1)) c'" for c'
        using ok(1) that k(2,3) by (cases "c' = k") (auto simp: strings_ok_def)
      ultimately show ?thesis using ok(1) le k unfolding strings_ok_def by (simp add: r max_absorb1)
    qed
    moreover have "ids_ok (cnt(k := cnt k + 1)) col'" using ok(2) k by (auto simp: r ids_ok_def)
    moreover have "free_codes_ok (cnt(k := cnt k + 1)) col'" using ok(3) k by (simp add: r free_codes_ok_def)
    ultimately show ?thesis using k by (simp add: r table_ok_def outside_table_def)
  next
    case None
    define fresh where "fresh = (case co_freeStringCodes col of [] \<Rightarrow> (length (co_strings col) + 1, [])
        | c # cs \<Rightarrow> (if c = 0 then length (co_strings col) + 1 else c, cs))"
    define k where "k = fst fresh"
    have k: "0 < k \<and> k \<le> length (co_strings col) + 1 \<and> cnt k = 0 \<and> snd fresh = removeAll k (co_freeStringCodes col)"
    proof (cases "co_freeStringCodes col")
      case Nil
      with ok(1) show ?thesis by (simp add: k_def fresh_def strings_ok_def)
    next
      case (Cons x xs)
      with ok(3) have "0 < x \<and> x \<le> length (co_strings col) \<and> cnt x = 0" "x \<notin> set xs"
        by (auto simp: free_codes_ok_def)
      with Cons show ?thesis by (simp add: k_def fresh_def removeAll_id)
    qed
    have r: "c = k" "col' = col\<lparr>co_freeStringCodes := removeAll k (co_freeStringCodes col),
        co_strings := js_put None (co_strings col) (k - 1) (Some s),
        co_stringRefs := js_put 0 (co_stringRefs col) (k - 1) 1, co_stringIds := jm_set s k (co_stringIds col)\<rparr>"
      using assms(2) None k by (auto simp: stringCode_def Let_def fresh_def [symmetric] k_def [symmetric])
    have len: "length (co_strings col') = max (length (co_strings col)) k" using k by (simp add: r)
    have "strings_ok (cnt(k := cnt k + 1)) col'"
    proof -
      have "js_at 0 (co_stringRefs col') (c' - 1) = int ((cnt(k := cnt k + 1)) c') \<and>
          (0 < (cnt(k := cnt k + 1)) c' \<longrightarrow> js_at None (co_strings col') (c' - 1) \<noteq> None)" if "0 < c'" for c'
        using ok(1) that pred_eq [of k c'] k by (simp add: r strings_ok_def)
      moreover have "length (co_stringRefs col') = length (co_strings col')" using ok(1) by (simp add: r strings_ok_def)
      moreover have "(cnt(k := cnt k + 1)) c' = 0" if "length (co_strings col') < c'" for c'
        using ok(1) that by (simp add: len strings_ok_def)
      ultimately show ?thesis unfolding strings_ok_def by blast
    qed
    moreover have "ids_ok (cnt(k := cnt k + 1)) col'"
      unfolding ids_ok_def
    proof (intro allI)
      fix t c'
      have old: "jm_get (co_stringIds col) t = Some c' \<longleftrightarrow>
          0 < c' \<and> 0 < cnt c' \<and> js_at None (co_strings col) (c' - 1) = Some t"
        and none: "\<not> (0 < c' \<and> 0 < cnt c' \<and> js_at None (co_strings col) (c' - 1) = Some s)"
        using ok(2) None unfolding ids_ok_def by (metis, metis option.distinct(1))
      show "jm_get (co_stringIds col') t = Some c' \<longleftrightarrow>
          0 < c' \<and> 0 < (cnt(k := cnt k + 1)) c' \<and> js_at None (co_strings col') (c' - 1) = Some t"
      proof (cases "c' = k \<or> c' = 0")
        case True
        with old none k show ?thesis by (cases "t = s") (auto simp: r)
      next
        case False
        then have "0 < c'" "c' - 1 \<noteq> k - 1" using k by auto
        with old none False show ?thesis by (cases "t = s") (auto simp: r)
      qed
    qed
    moreover have "free_codes_ok (cnt(k := cnt k + 1)) col'"
    proof -
      have f: "c' \<in> set (co_freeStringCodes col) \<longleftrightarrow> 0 < c' \<and> c' \<le> length (co_strings col) \<and> cnt c' = 0" for c'
        using ok(3) by (simp add: free_codes_ok_def)
      have "c' \<in> set (co_freeStringCodes col') \<longleftrightarrow>
          0 < c' \<and> c' \<le> length (co_strings col') \<and> (cnt(k := cnt k + 1)) c' = 0" for c'
        using f [of c'] k by (cases "c' = k") (auto simp: r)
      moreover have "distinct (co_freeStringCodes col')" using ok(3) by (simp add: r free_codes_ok_def distinct_removeAll)
      ultimately show ?thesis by (simp add: free_codes_ok_def)
    qed
    moreover have "js_at None (co_strings col') (c' - 1) = js_at None (co_strings col) (c' - 1)" if "0 < c'" "0 < cnt c'" for c'
      using that k pred_eq [of k c'] by (auto simp: r)
    ultimately show ?thesis using k by (simp add: r table_ok_def outside_table_def)
  qed
qed

subsection \<open>What a row holds\<close>

text \<open>The content of a row, component by component.\<close>

definition co_string :: "tcol \<Rightarrow> nat \<Rightarrow> string option" where
  "co_string col rid =
     (if js_at 0 (co_stringCodes col) rid = 0 then None
      else js_at None (co_strings col) (js_at 0 (co_stringCodes col) rid - 1))"

definition co_number :: "tcol \<Rightarrow> nat \<Rightarrow> jsnum option" where
  "co_number col rid =
     (if js_at False (co_numberPresent col) rid then Some (js_at NaN (co_numberValues col) rid) else None)"

definition co_boolean :: "tcol \<Rightarrow> nat \<Rightarrow> bool option" where
  "co_boolean col rid =
     (if js_at False (co_booleanPresent col) rid then Some (js_at False (co_booleanValues col) rid) else None)"

type_synonym cell = "jsnum option \<times> bool option \<times> string option \<times> bool \<times> jsv option"

definition co_cell :: "tcol \<Rightarrow> nat \<Rightarrow> cell" where
  "co_cell col rid =
     (co_number col rid, co_boolean col rid, co_string col rid, js_at False (co_nulls col) rid, jm_get (co_overflow col) rid)"

definition cell_of :: "col_state \<Rightarrow> cell" where
  "cell_of st =
     (case st of
        CAbsent \<Rightarrow> (None, None, None, False, None)
      | CNull \<Rightarrow> (None, None, None, True, None)
      | CScalar (JNum n) \<Rightarrow> (Some n, None, None, False, None)
      | CScalar (JBool b) \<Rightarrow> (None, Some b, None, False, None)
      | CScalar (JStr s) \<Rightarrow> (None, None, Some s, False, None)
      | CScalar _ \<Rightarrow> (None, None, None, False, None)
      | CNonScalar v \<Rightarrow> (None, None, None, False, Some (json_clone v)))"

definition trues :: "bool list \<Rightarrow> int" where
  "trues bs = int (count_list bs True)"

definition coded :: "nat list \<Rightarrow> int" where
  "coded codes = int (length codes) - int (count_list codes 0)"

definition sized :: "nat \<Rightarrow> tcol \<Rightarrow> bool" where
  "sized n col \<longleftrightarrow>
     length (co_numberValues col) = n \<and> length (co_numberPresent col) = n \<and> length (co_booleanValues col) = n \<and>
     length (co_booleanPresent col) = n \<and> length (co_stringCodes col) = n \<and> length (co_nulls col) = n"

text \<open>The invariant: equal lengths, an exact table of strings, exact counters.\<close>

definition co_ok :: "tcol \<Rightarrow> bool" where
  "co_ok col \<longleftrightarrow>
     sized (length (co_numberValues col)) col \<and> table_ok (slots (co_stringCodes col)) col \<and>
     co_numberCount col = trues (co_numberPresent col) \<and> co_nullCount col = trues (co_nulls col) \<and>
     co_scalarCount col = trues (co_numberPresent col) + trues (co_booleanPresent col) + coded (co_stringCodes col) \<and>
     jm_ok (co_overflow col)"

lemma trues_update:
  "rid < length bs \<Longrightarrow> trues (bs[rid := b]) = trues bs - (if bs ! rid then 1 else 0) + (if b then 1 else 0)"
  using count_list_update [of rid bs b True] by (simp add: trues_def)

lemma coded_update:
  "rid < length cs \<Longrightarrow> coded (cs[rid := c]) = coded cs - (if cs ! rid = 0 then 0 else 1) + (if c = 0 then 0 else 1)"
  using count_list_update [of rid cs c 0] by (simp add: coded_def)

lemma js_at_update: "js_at d (xs[i := v]) j = (if j = i \<and> i < length xs then v else js_at d xs j)"
  by (auto simp: js_at_def)

lemma trues_nonneg: "0 \<le> trues bs" by (simp add: trues_def)

lemma coded_nonneg: "0 \<le> coded cs"
proof -
  have "count_list cs 0 \<le> length cs" by (induction cs) auto
  then show ?thesis by (simp add: coded_def)
qed

lemma outside_tableD:
  assumes "outside_table col' = outside_table col"
  shows "co_numberValues col' = co_numberValues col" "co_numberPresent col' = co_numberPresent col"
    "co_booleanValues col' = co_booleanValues col" "co_booleanPresent col' = co_booleanPresent col"
    "co_stringCodes col' = co_stringCodes col" "co_nulls col' = co_nulls col" "co_overflow col' = co_overflow col"
    "co_numberCount col' = co_numberCount col" "co_scalarCount col' = co_scalarCount col" "co_nullCount col' = co_nullCount col"
    "co_numberSum col' = co_numberSum col" "co_pending col' = co_pending col" "co_status col' = co_status col"
    "co_buildId col' = co_buildId col" "co_path col' = co_path col"
  using assms by (cases col; cases col'; simp add: outside_table_def)+

lemma co_ok_fields: "co_ok col \<Longrightarrow> sized (length (co_numberValues col)) col" "co_ok col \<Longrightarrow> table_ok (slots (co_stringCodes col)) col"
  by (simp_all add: co_ok_def)

lemma table_ok_updates [simp]:
  "table_ok cnt (col\<lparr>co_numberValues := x0\<rparr>) = table_ok cnt col"
  "table_ok cnt (col\<lparr>co_numberPresent := x1\<rparr>) = table_ok cnt col"
  "table_ok cnt (col\<lparr>co_booleanValues := x2\<rparr>) = table_ok cnt col"
  "table_ok cnt (col\<lparr>co_booleanPresent := x3\<rparr>) = table_ok cnt col"
  "table_ok cnt (col\<lparr>co_stringCodes := x4\<rparr>) = table_ok cnt col"
  "table_ok cnt (col\<lparr>co_nulls := x5\<rparr>) = table_ok cnt col"
  "table_ok cnt (col\<lparr>co_overflow := x6\<rparr>) = table_ok cnt col"
  "table_ok cnt (col\<lparr>co_numberCount := x7\<rparr>) = table_ok cnt col"
  "table_ok cnt (col\<lparr>co_scalarCount := x8\<rparr>) = table_ok cnt col"
  "table_ok cnt (col\<lparr>co_nullCount := x9\<rparr>) = table_ok cnt col"
  "table_ok cnt (col\<lparr>co_numberSum := x10\<rparr>) = table_ok cnt col"
  "table_ok cnt (col\<lparr>co_pending := x11\<rparr>) = table_ok cnt col"
  "table_ok cnt (col\<lparr>co_status := x12\<rparr>) = table_ok cnt col"
  "table_ok cnt (col\<lparr>co_buildId := x13\<rparr>) = table_ok cnt col"
  "table_ok cnt (col\<lparr>co_path := x14\<rparr>) = table_ok cnt col"
  by (simp_all add: table_ok_def strings_ok_def ids_ok_def free_codes_ok_def)

lemma js_at_lt: "js_at False bs i \<Longrightarrow> i < length bs"
  by (simp add: js_at_def split: if_splits)

lemma clear_number_ok:
  assumes "co_ok col"
  shows "co_ok (clear_number rid col) \<and> co_number (clear_number rid col) rid = None \<and>
    (\<forall>r. r \<noteq> rid \<longrightarrow> co_number (clear_number rid col) r = co_number col r) \<and>
    co_boolean (clear_number rid col) = co_boolean col \<and> co_string (clear_number rid col) = co_string col \<and>
    co_nulls (clear_number rid col) = co_nulls col \<and> co_overflow (clear_number rid col) = co_overflow col"
proof (cases "js_at False (co_numberPresent col) rid")
  case True
  have lt: "rid < length (co_numberPresent col)" "co_numberPresent col ! rid" using True by (auto simp: js_at_def split: if_splits)
  then have "trues ((co_numberPresent col)[rid := False]) = trues (co_numberPresent col) - 1" by (simp add: trues_update)
  with assms have "co_ok (clear_number rid col)"
    using True by (auto simp: clear_number_def co_ok_def sized_def)
  with True lt show ?thesis
    by (auto simp: clear_number_def co_number_def co_boolean_def co_string_def js_at_update fun_eq_iff)
qed (use assms in \<open>auto simp: clear_number_def co_number_def\<close>)

lemma clear_boolean_ok:
  assumes "co_ok col"
  shows "co_ok (clear_boolean rid col) \<and> co_boolean (clear_boolean rid col) rid = None \<and>
    (\<forall>r. r \<noteq> rid \<longrightarrow> co_boolean (clear_boolean rid col) r = co_boolean col r) \<and>
    co_number (clear_boolean rid col) = co_number col \<and> co_string (clear_boolean rid col) = co_string col \<and>
    co_nulls (clear_boolean rid col) = co_nulls col \<and> co_overflow (clear_boolean rid col) = co_overflow col"
proof (cases "js_at False (co_booleanPresent col) rid")
  case True
  have lt: "rid < length (co_booleanPresent col)" "co_booleanPresent col ! rid" using True by (auto simp: js_at_def split: if_splits)
  then have "trues ((co_booleanPresent col)[rid := False]) = trues (co_booleanPresent col) - 1" by (simp add: trues_update)
  with assms have "co_ok (clear_boolean rid col)"
    using True by (auto simp: clear_boolean_def co_ok_def sized_def)
  with True lt show ?thesis
    by (auto simp: clear_boolean_def co_number_def co_boolean_def co_string_def js_at_update fun_eq_iff)
qed (use assms in \<open>auto simp: clear_boolean_def co_boolean_def\<close>)

lemma clear_null_ok:
  assumes "co_ok col"
  shows "co_ok (clear_null rid col) \<and> \<not> js_at False (co_nulls (clear_null rid col)) rid \<and>
    (\<forall>r. r \<noteq> rid \<longrightarrow> js_at False (co_nulls (clear_null rid col)) r = js_at False (co_nulls col) r) \<and>
    co_number (clear_null rid col) = co_number col \<and> co_string (clear_null rid col) = co_string col \<and>
    co_boolean (clear_null rid col) = co_boolean col \<and> co_overflow (clear_null rid col) = co_overflow col"
proof (cases "js_at False (co_nulls col) rid")
  case True
  have lt: "rid < length (co_nulls col)" "co_nulls col ! rid" using True by (auto simp: js_at_def split: if_splits)
  then have "trues ((co_nulls col)[rid := False]) = trues (co_nulls col) - 1" by (simp add: trues_update)
  with assms have "co_ok (clear_null rid col)"
    using True by (auto simp: clear_null_def co_ok_def sized_def)
  with True lt show ?thesis
    by (auto simp: clear_null_def co_number_def co_boolean_def co_string_def js_at_update fun_eq_iff)
qed (use assms in \<open>auto simp: clear_null_def\<close>)

lemma clear_string_ok:
  assumes "co_ok col"
  shows "co_ok (clear_string rid col) \<and> co_string (clear_string rid col) rid = None \<and>
    (\<forall>r. r \<noteq> rid \<longrightarrow> co_string (clear_string rid col) r = co_string col r) \<and>
    co_number (clear_string rid col) = co_number col \<and> co_boolean (clear_string rid col) = co_boolean col \<and>
    co_nulls (clear_string rid col) = co_nulls col \<and> co_overflow (clear_string rid col) = co_overflow col"
proof (cases "js_at 0 (co_stringCodes col) rid = 0")
  case True
  with assms show ?thesis by (simp add: clear_string_def co_string_def Let_def)
next
  case False
  define code where "code = js_at 0 (co_stringCodes col) rid"
  have lt: "rid < length (co_stringCodes col)" "co_stringCodes col ! rid = code" "0 < code"
    using False by (auto simp: js_at_def code_def split: if_splits)
  have pos: "0 < slots (co_stringCodes col) code" using lt nth_mem by (fastforce simp: slots_pos)
  note d = drop_string_ok [OF co_ok_fields(2) [OF assms] lt(3) pos]
  define col1 where "col1 = drop_string code col"
  have o: "outside_table col1 = outside_table col" using d by (simp add: col1_def)
  note same = outside_tableD [OF o]
  have r: "clear_string rid col = col1\<lparr>co_stringCodes := (co_stringCodes col)[rid := 0], co_scalarCount := co_scalarCount col - 1\<rparr>"
    using False same by (simp add: clear_string_def Let_def code_def [symmetric] col1_def [symmetric])
  have sl: "slots ((co_stringCodes col)[rid := 0]) = (slots (co_stringCodes col))(code := slots (co_stringCodes col) code - 1)"
    using slots_update [OF lt(1,2), of 0] lt(3) by (simp add: swap_count_def)
  have "coded ((co_stringCodes col)[rid := 0]) = coded (co_stringCodes col) - 1" using lt by (simp add: coded_update)
  moreover have "table_ok (slots ((co_stringCodes col)[rid := 0])) col1" using d by (simp add: sl col1_def)
  ultimately have ok: "co_ok (clear_string rid col)"
    using assms by (simp add: r co_ok_def sized_def same)
  have "co_string (clear_string rid col) r' = co_string col r'" if "r' \<noteq> rid" for r'
  proof (cases "js_at 0 (co_stringCodes col) r' = 0")
    case True
    with that show ?thesis by (simp add: r co_string_def js_at_update)
  next
    case False
    let ?c = "js_at 0 (co_stringCodes col) r'"
    have "r' < length (co_stringCodes col)" "co_stringCodes col ! r' = ?c" using False by (auto simp: js_at_def split: if_splits)
    then have "?c \<in> set ((co_stringCodes col)[rid := 0])"
      using that by (metis length_list_update nth_list_update_neq nth_mem)
    then have "0 < ((slots (co_stringCodes col))(code := slots (co_stringCodes col) code - 1)) ?c"
      using False by (simp only: sl [symmetric] slots_pos)
    with d False have "js_at None (co_strings col1) (?c - 1) = js_at None (co_strings col) (?c - 1)"
      unfolding col1_def by blast
    with that False show ?thesis by (simp add: r co_string_def js_at_update)
  qed
  moreover have "co_string (clear_string rid col) rid = None" using lt by (simp add: r co_string_def js_at_update)
  moreover have "co_number (clear_string rid col) = co_number col" "co_boolean (clear_string rid col) = co_boolean col"
    by (simp_all add: r co_number_def co_boolean_def same fun_eq_iff)
  ultimately show ?thesis using ok by (simp add: r same)
qed

lemma clearRid_ok:
  assumes "co_ok col"
  shows "co_ok (clearRid rid col) \<and> co_cell (clearRid rid col) r = (if r = rid then cell_of CAbsent else co_cell col r)"
proof -
  define c1 where "c1 = clear_number rid col"
  define c2 where "c2 = clear_boolean rid c1"
  define c3 where "c3 = clear_string rid c2"
  define c4 where "c4 = clear_null rid c3"
  note s1 = clear_number_ok [OF assms, of rid, folded c1_def]
  then have ok1: "co_ok c1" by blast
  note s2 = clear_boolean_ok [OF ok1, of rid, folded c2_def]
  then have ok2: "co_ok c2" by blast
  note s3 = clear_string_ok [OF ok2, of rid, folded c3_def]
  then have ok3: "co_ok c3" by blast
  note s4 = clear_null_ok [OF ok3, of rid, folded c4_def]
  then have ok4: "co_ok c4" by blast
  have r: "clearRid rid col = c4\<lparr>co_overflow := jm_del rid (co_overflow col)\<rparr>"
    using s1 s2 s3 s4 by (simp add: clearRid_def Let_def c1_def c2_def c3_def c4_def)
  have "co_ok (clearRid rid col)" using ok4 assms by (simp add: r co_ok_def sized_def)
  moreover have "co_cell (clearRid rid col) r = (if r = rid then cell_of CAbsent else co_cell col r)"
  proof -
    have "co_cell (clearRid rid col) r =
        (co_number c4 r, co_boolean c4 r, co_string c4 r, js_at False (co_nulls c4) r, jm_get (jm_del rid (co_overflow col)) r)"
      by (simp add: r co_cell_def co_number_def co_boolean_def co_string_def)
    moreover have "co_number c4 r = (if r = rid then None else co_number col r)" using s1 s2 s3 s4 by simp
    moreover have "co_boolean c4 r = (if r = rid then None else co_boolean col r)" using s1 s2 s3 s4 by simp
    moreover have "co_string c4 r = (if r = rid then None else co_string col r)" using s1 s2 s3 s4 by simp
    moreover have "js_at False (co_nulls c4) r = (if r = rid then False else js_at False (co_nulls col) r)" using s1 s2 s3 s4 by simp
    ultimately show ?thesis by (simp add: co_cell_def cell_of_def)
  qed
  ultimately show ?thesis by blast
qed

lemma grow_column_gt: "0 < n \<Longrightarrow> rid < grow_column rid n \<and> n \<le> grow_column rid n"
proof (induction rid n rule: grow_column.induct)
  case (1 rid n)
  then show ?case by (cases "rid < n") (auto simp: grow_column.simps [of rid n])
qed

lemma count_list_growth: "x \<noteq> zero \<Longrightarrow> count_list (growTypedArray zero xs n) x = count_list xs x"
  by (simp add: growTypedArray_def count_list_replicate_other)

lemma js_at_growth: "js_at d (growTypedArray zero xs n) i = (if i < length xs then xs ! i else if i < n then zero else d)"
  by (auto simp: js_at_def growTypedArray_def nth_append)

lemma length_growth [simp]: "length (growTypedArray zero xs n) = max (length xs) n"
  by (simp add: growTypedArray_def)

lemma coded_growth: "coded (growTypedArray 0 cs n) = coded cs"
proof -
  have "count_list (replicate k (0 :: nat)) 0 = k" for k by (induction k) auto
  then show ?thesis by (simp add: coded_def growTypedArray_def)
qed

lemma slots_growth: "slots (growTypedArray 0 cs n) = slots cs"
  by (simp add: slots_def fun_eq_iff count_list_growth)

lemma co_ensure_ok:
  assumes "co_ok col"
  shows "co_ok (co_ensure rid col) \<and> rid < length (co_numberValues (co_ensure rid col)) \<and>
    co_cell (co_ensure rid col) = co_cell col \<and> co_status (co_ensure rid col) = co_status col"
proof (cases "rid < length (co_numberValues col)")
  case True
  with assms show ?thesis by (simp add: co_ensure_def)
next
  case False
  define n where "n = grow_column rid (if co_numberValues col = [] then 1024 else length (co_numberValues col))"
  have n: "rid < n" "length (co_numberValues col) \<le> n"
    using grow_column_gt [of "if co_numberValues col = [] then 1024 else length (co_numberValues col)" rid]
    by (auto simp: n_def split: if_splits)
  have r: "co_ensure rid col = col\<lparr>co_numberValues := growTypedArray (Fin 0) (co_numberValues col) n,
      co_numberPresent := growTypedArray False (co_numberPresent col) n,
      co_booleanValues := growTypedArray False (co_booleanValues col) n,
      co_booleanPresent := growTypedArray False (co_booleanPresent col) n,
      co_stringCodes := growTypedArray 0 (co_stringCodes col) n, co_nulls := growTypedArray False (co_nulls col) n\<rparr>"
    using False by (simp add: co_ensure_def Let_def n_def)
  have flag: "js_at False (growTypedArray False bs n) i = js_at False bs i" for bs i
    by (simp add: js_at_growth) (simp add: js_at_def)
  have code: "js_at 0 (growTypedArray 0 cs n) i = js_at 0 cs i" for cs :: "nat list" and i
    by (simp add: js_at_growth) (simp add: js_at_def)
  have "co_ok (co_ensure rid col)"
    using assms by (simp add: r co_ok_def sized_def trues_def count_list_growth coded_growth slots_growth)
  moreover have "co_number (co_ensure rid col) = co_number col"
  proof
    fix i
    have "js_at False (co_numberPresent col) i \<Longrightarrow> i < length (co_numberValues col)"
      using assms js_at_lt [of "co_numberPresent col" i] by (simp add: co_ok_def sized_def)
    then show "co_number (co_ensure rid col) i = co_number col i"
      by (simp add: r co_number_def flag js_at_growth) (simp add: js_at_def)
  qed
  moreover have "co_boolean (co_ensure rid col) = co_boolean col" "co_string (co_ensure rid col) = co_string col"
    by (simp_all add: r co_boolean_def co_string_def flag code fun_eq_iff)
  ultimately show ?thesis using n by (simp add: co_cell_def fun_eq_iff r flag)
qed

lemma setScalar_ok:
  assumes "co_ok col" and "rid < length (co_numberValues col)" and "co_cell col rid = cell_of CAbsent" and "isScalarColumnValue v"
  shows "co_ok (setScalar rid v col) \<and> co_cell (setScalar rid v col) r = (if r = rid then cell_of (CScalar v) else co_cell col r)"
proof -
  have sz: "length (co_numberPresent col) = length (co_numberValues col)" "length (co_booleanValues col) = length (co_numberValues col)"
    "length (co_booleanPresent col) = length (co_numberValues col)" "length (co_stringCodes col) = length (co_numberValues col)"
    "length (co_nulls col) = length (co_numberValues col)"
    using assms(1) by (auto simp: co_ok_def sized_def)
  have empty: "\<not> co_numberPresent col ! rid" "\<not> co_booleanPresent col ! rid"
    using assms(2,3) sz by (auto simp: co_cell_def cell_of_def co_number_def co_boolean_def js_at_def split: if_splits)
  have rest: "co_number col rid = None" "co_boolean col rid = None" "co_string col rid = None"
    "\<not> js_at False (co_nulls col) rid" "jm_get (co_overflow col) rid = None"
    using assms(3) by (auto simp: co_cell_def cell_of_def)
  show ?thesis
  proof (cases v)
    case (JNum n)
    let ?col = "setScalar rid v col"
    have "trues ((co_numberPresent col)[rid := True]) = trues (co_numberPresent col) + 1"
      using assms(2) sz empty by (simp add: trues_update)
    then have "co_ok ?col" using assms(1) by (simp add: JNum setScalar_def co_ok_def sized_def)
    moreover have "co_number ?col r = (if r = rid then Some n else co_number col r)"
      using assms(2) sz by (simp add: JNum setScalar_def co_number_def js_at_update)
    moreover have "co_boolean ?col r = co_boolean col r" "co_string ?col r = co_string col r"
      by (simp_all add: JNum setScalar_def co_boolean_def co_string_def)
    ultimately show ?thesis using rest by (simp add: co_cell_def cell_of_def JNum) (simp add: setScalar_def)
  next
    case (JBool b)
    let ?col = "setScalar rid v col"
    have "trues ((co_booleanPresent col)[rid := True]) = trues (co_booleanPresent col) + 1"
      using assms(2) sz empty by (simp add: trues_update)
    then have "co_ok ?col" using assms(1) by (simp add: JBool setScalar_def co_ok_def sized_def)
    moreover have "co_boolean ?col r = (if r = rid then Some b else co_boolean col r)"
      using assms(2) sz by (simp add: JBool setScalar_def co_boolean_def js_at_update)
    moreover have "co_number ?col r = co_number col r" "co_string ?col r = co_string col r"
      by (simp_all add: JBool setScalar_def co_number_def co_string_def)
    ultimately show ?thesis using rest by (simp add: co_cell_def cell_of_def JBool) (simp add: setScalar_def)
  next
    case (JStr s)
    let ?col = "setScalar rid v col"
    obtain c col1 where c: "stringCode s col = (c, col1)" by (cases "stringCode s col")
    note d = stringCode_ok [OF co_ok_fields(2) [OF assms(1)] c]
    have o: "outside_table col1 = outside_table col" using d by blast
    note same = outside_tableD [OF o]
    have code0: "co_stringCodes col ! rid = 0"
    proof (rule ccontr)
      assume nz: "co_stringCodes col ! rid \<noteq> 0"
      then have "co_stringCodes col ! rid \<in> set (co_stringCodes col)" using assms(2) sz by (simp add: nth_mem)
      with nz have "0 < slots (co_stringCodes col) (co_stringCodes col ! rid)" by (simp add: slots_pos)
      with co_ok_fields(2) [OF assms(1)] nz have "js_at None (co_strings col) (co_stringCodes col ! rid - 1) \<noteq> None"
        by (auto simp: table_ok_def strings_ok_def)
      with rest(3) nz assms(2) sz show False by (simp add: co_string_def js_at_def [of 0])
    qed
    have r0: "?col = col1\<lparr>co_stringCodes := (co_stringCodes col)[rid := c], co_scalarCount := co_scalarCount col + 1\<rparr>"
      using c by (simp add: JStr setScalar_def same)
    have sl: "slots ((co_stringCodes col)[rid := c]) = (slots (co_stringCodes col))(c := slots (co_stringCodes col) c + 1)"
      using slots_update [OF _ code0, of c] assms(2) sz d by (simp add: swap_count_def Let_def)
    have "coded ((co_stringCodes col)[rid := c]) = coded (co_stringCodes col) + 1"
      using assms(2) sz code0 d by (simp add: coded_update)
    moreover have "table_ok (slots ((co_stringCodes col)[rid := c])) col1" using d by (simp only: sl)
    ultimately have ok: "co_ok ?col" using assms(1) by (simp add: r0 co_ok_def sized_def same)
    have "co_string ?col r = (if r = rid then Some s else co_string col r)"
    proof (cases "r = rid")
      case True
      with assms(2) sz d show ?thesis by (simp add: r0 co_string_def js_at_update)
    next
      case other: False
      show ?thesis
      proof (cases "js_at 0 (co_stringCodes col) r = 0")
        case True
        with other show ?thesis by (simp add: r0 co_string_def js_at_update)
      next
        case False
        then have "js_at 0 (co_stringCodes col) r \<in> set (co_stringCodes col)" by (auto simp: js_at_def split: if_splits)
        with False have "0 < slots (co_stringCodes col) (js_at 0 (co_stringCodes col) r)" by (simp add: slots_pos)
        with d False have "js_at None (co_strings col1) (js_at 0 (co_stringCodes col) r - 1) =
            js_at None (co_strings col) (js_at 0 (co_stringCodes col) r - 1)" by blast
        with other False show ?thesis by (simp add: r0 co_string_def js_at_update)
      qed
    qed
    moreover have "co_number ?col r = co_number col r" "co_boolean ?col r = co_boolean col r"
      by (simp_all add: r0 co_number_def co_boolean_def same)
    ultimately show ?thesis using ok rest by (simp add: co_cell_def cell_of_def JStr) (simp add: r0 [unfolded JStr] same)
  qed (use assms(4) in \<open>simp_all add: isScalarColumnValue_def\<close>)
qed

lemma cell_empty:
  assumes "co_ok col" and "co_scalarCount col = 0" and "co_nullCount col = 0" and "co_overflow col = []"
  shows "co_cell col r = cell_of CAbsent"
proof -
  have z: "trues (co_numberPresent col) = 0" "trues (co_booleanPresent col) = 0" "coded (co_stringCodes col) = 0" "trues (co_nulls col) = 0"
    using assms trues_nonneg [of "co_numberPresent col"] trues_nonneg [of "co_booleanPresent col"] coded_nonneg [of "co_stringCodes col"]
    by (auto simp: co_ok_def)
  have off: "trues bs = 0 \<Longrightarrow> \<not> js_at False bs r" for bs
    by (auto simp: trues_def js_at_def count_list_0_iff) (metis nth_mem)
  have "coded cs = 0 \<Longrightarrow> js_at 0 cs r = 0" for cs
  proof -
    assume c: "coded cs = 0"
    have "length (filter (\<lambda>c. c = 0) xs) = count_list xs (0 :: nat)" for xs by (induction xs) auto
    with c have "length (filter (\<lambda>c. c = 0) cs) = length cs" by (simp add: coded_def)
    then have "filter (\<lambda>c. c = 0) cs = cs" by (metis filter_True length_filter_less less_irrefl)
    then show "js_at 0 cs r = 0" by (auto simp: js_at_def filter_id_conv)
  qed
  with z off assms(4) show ?thesis by (simp add: co_cell_def cell_of_def co_number_def co_boolean_def co_string_def)
qed

lemma resetIfEmpty_ok:
  assumes "co_ok col"
  shows "co_ok (resetIfEmpty col) \<and> co_cell (resetIfEmpty col) = co_cell col"
proof (cases "co_scalarCount col \<noteq> 0 \<or> co_nullCount col \<noteq> 0 \<or> co_overflow col \<noteq> []")
  case True
  then have "resetIfEmpty col = col" by (simp add: resetIfEmpty_def)
  with assms show ?thesis by simp
next
  case False
  then have "co_ok (resetIfEmpty col)"
    by (auto simp: resetIfEmpty_def co_ok_def sized_def trues_def coded_def table_ok_def strings_ok_def ids_ok_def
        free_codes_ok_def slots_def js_at_def)
  moreover have "co_cell (resetIfEmpty col) r = co_cell col r" for r
    using cell_empty [OF assms, of r] False
    by (auto simp: resetIfEmpty_def co_cell_def cell_of_def co_number_def co_boolean_def co_string_def js_at_def)
  ultimately show ?thesis by auto
qed

fun state_ok :: "col_state \<Rightarrow> bool" where
  "state_ok (CScalar v) = isScalarColumnValue v"
| "state_ok _ = True"

lemma columnScalarState_ok: "state_ok (columnScalarState v)"
  by (simp add: columnScalarState_def)

lemma applyState_ok:
  assumes "co_ok col" and "state_ok st"
  shows "co_ok (applyState rid st col) \<and> co_cell (applyState rid st col) r = (if r = rid then cell_of st else co_cell col r)"
proof -
  define c1 where "c1 = clearRid rid col"
  have ok1: "co_ok c1" "\<And>r. co_cell c1 r = (if r = rid then cell_of CAbsent else co_cell col r)"
    using clearRid_ok [OF assms(1), of rid] by (auto simp: c1_def)
  define c2 where "c2 = co_ensure rid c1"
  have ok2: "co_ok c2" "rid < length (co_numberValues c2)" "co_cell c2 = co_cell c1"
    using co_ensure_ok [OF ok1(1), of rid] by (auto simp: c2_def)
  have empty: "co_cell c2 rid = cell_of CAbsent" using ok1(2) ok2(3) by simp
  show ?thesis
  proof (cases st)
    case CAbsent
    with resetIfEmpty_ok [OF ok1(1)] ok1(2) show ?thesis by (simp add: applyState_def c1_def)
  next
    case CNull
    have rr: "applyState rid CNull col = c2\<lparr>co_nulls := (co_nulls c2)[rid := True], co_nullCount := co_nullCount c2 + 1\<rparr>"
      by (simp add: applyState_def Let_def c1_def c2_def)
    have lt: "rid < length (co_nulls c2)" using ok2 by (simp add: co_ok_def sized_def)
    have "\<not> co_nulls c2 ! rid" using empty lt by (simp add: co_cell_def cell_of_def js_at_def)
    with lt have "trues ((co_nulls c2)[rid := True]) = trues (co_nulls c2) + 1" by (simp add: trues_update)
    with ok2(1) have "co_ok (applyState rid st col)" by (simp add: CNull rr co_ok_def sized_def)
    moreover have "co_number (applyState rid st col) r = co_number c2 r" "co_boolean (applyState rid st col) r = co_boolean c2 r"
      "co_string (applyState rid st col) r = co_string c2 r"
      by (simp_all add: CNull rr co_number_def co_boolean_def co_string_def)
    then have "co_cell (applyState rid st col) r = (if r = rid then cell_of st else co_cell c2 r)"
      using empty lt by (simp add: CNull rr co_cell_def cell_of_def js_at_update)
    ultimately show ?thesis using ok1(2) ok2(3) by simp
  next
    case (CScalar v)
    then have "isScalarColumnValue v" using assms(2) by simp
    from setScalar_ok [OF ok2(1,2) empty this] ok1(2) ok2(3) CScalar show ?thesis
      by (simp add: applyState_def c1_def c2_def)
  next
    case (CNonScalar v)
    have rr: "applyState rid (CNonScalar v) col = c2\<lparr>co_overflow := jm_set rid (json_clone v) (co_overflow c2)\<rparr>"
      by (simp add: applyState_def Let_def c1_def c2_def)
    have "co_ok (applyState rid st col)" using ok2(1) by (simp add: CNonScalar rr co_ok_def sized_def)
    moreover have "co_number (applyState rid st col) r = co_number c2 r" "co_boolean (applyState rid st col) r = co_boolean c2 r"
      "co_string (applyState rid st col) r = co_string c2 r"
      by (simp_all add: CNonScalar rr co_number_def co_boolean_def co_string_def)
    then have "co_cell (applyState rid st col) r = (if r = rid then cell_of st else co_cell c2 r)"
      using empty by (simp add: CNonScalar rr co_cell_def cell_of_def)
    ultimately show ?thesis using ok1(2) ok2(3) by simp
  qed
qed

text \<open>What \<open>valueFor\<close> returns, from the components.\<close>

fun cell_value :: "cell \<Rightarrow> jsv" where
  "cell_value (Some n, _, _, _, _) = JNum n"
| "cell_value (None, Some b, _, _, _) = JBool b"
| "cell_value (None, None, Some s, _, _) = JStr s"
| "cell_value (None, None, None, z, v) = (if z then JNull else (case v of None \<Rightarrow> JUndef | Some v \<Rightarrow> json_clone v))"

lemma co_string_Some:
  assumes "co_ok col" and "js_at 0 (co_stringCodes col) rid \<noteq> 0"
  shows "\<exists>s. js_at None (co_strings col) (js_at 0 (co_stringCodes col) rid - 1) = Some s"
proof -
  have "js_at 0 (co_stringCodes col) rid \<in> set (co_stringCodes col)" using assms(2) by (auto simp: js_at_def split: if_splits)
  with assms(2) have "0 < slots (co_stringCodes col) (js_at 0 (co_stringCodes col) rid)" by (simp add: slots_pos)
  with assms show ?thesis by (auto simp: co_ok_def table_ok_def strings_ok_def)
qed

lemma valueFor_cell: "co_ok col \<Longrightarrow> valueFor col rid = cell_value (co_cell col rid)"
  using co_string_Some [of col rid]
  by (auto simp: valueFor_def co_cell_def co_number_def co_boolean_def co_string_def string_at_def split: option.splits)

lemma hasValue_cell: "co_ok col \<Longrightarrow> hasValue col rid \<longleftrightarrow> co_cell col rid \<noteq> cell_of CAbsent"
  using co_string_Some [of col rid]
  by (auto simp: hasValue_def hasScalar_def hasNonScalar_def co_cell_def cell_of_def co_number_def co_boolean_def co_string_def)

lemma json_clone_idem: "json_clone (json_clone v) = json_clone v"
proof (induction v rule: json_clone.induct)
  case (1 xs)
  have not_undef: "x \<noteq> JUndef \<Longrightarrow> json_clone x \<noteq> JUndef" for x by (cases x) auto
  from 1 show ?case by (auto simp: not_undef)
next
  case (2 kvs)
  have not_undef: "x \<noteq> JUndef \<Longrightarrow> json_clone x \<noteq> JUndef" for x by (cases x) auto
  let ?d = "filter (\<lambda>(k, v). v \<noteq> JUndef) kvs"
  have "filter (\<lambda>(k, v). v \<noteq> JUndef) (map (\<lambda>(k, v). (k, json_clone v)) ?d) = map (\<lambda>(k, v). (k, json_clone v)) ?d"
    by (rule filter_True) (auto simp: not_undef)
  with 2 show ?case by (auto simp del: filter_map)
next
  case (3 n)
  then show ?case by simp
qed auto

lemma cell_value_of: "cell_value (cell_of (columnScalarState v)) = json_clone v"
proof -
  have "\<not> isScalarColumnValue v \<Longrightarrow> v \<noteq> JNull \<Longrightarrow> v \<noteq> JUndef \<Longrightarrow> cell_value (cell_of (CNonScalar v)) = json_clone v"
    by (simp add: cell_of_def json_clone_idem)
  then show ?thesis
    by (cases v) (auto simp: columnScalarState_def isScalarColumnValue_def cell_of_def)
qed

subsection \<open>What a write leaves alone\<close>

definition build_part :: "tcol \<Rightarrow> col_status \<times> (nat, col_state) jmap option \<times> nat" where
  "build_part col = (co_status col, co_pending col, co_buildId col)"

lemma drop_string_build [simp]: "build_part (drop_string c col) = build_part col"
  by (simp add: drop_string_def Let_def build_part_def)

lemma stringCode_build: "stringCode s col = (c, col') \<Longrightarrow> build_part col' = build_part col"
  by (auto simp: stringCode_def Let_def build_part_def split: option.splits if_splits)

lemma clearRid_build [simp]: "build_part (clearRid rid col) = build_part col"
proof -
  have "build_part (clear_number rid c) = build_part c" "build_part (clear_boolean rid c) = build_part c"
    "build_part (clear_null rid c) = build_part c" for c
    by (simp_all add: clear_number_def clear_boolean_def clear_null_def build_part_def)
  moreover have "build_part (clear_string rid c) = build_part c" for c
    using drop_string_build [of "js_at 0 (co_stringCodes c) rid" c]
    by (simp add: clear_string_def Let_def build_part_def)
  moreover have "build_part (clearRid rid col) =
      build_part (clear_null rid (clear_string rid (clear_boolean rid (clear_number rid col))))"
    by (simp add: clearRid_def Let_def build_part_def)
  ultimately show ?thesis by simp
qed

lemma setScalar_build: "build_part (setScalar rid v col) = build_part col"
proof (cases v)
  case (JStr s)
  obtain c col' where "stringCode s col = (c, col')" by (cases "stringCode s col")
  with stringCode_build [OF this] JStr show ?thesis by (simp add: setScalar_def build_part_def)
qed (simp_all add: setScalar_def build_part_def)

lemma applyState_build: "build_part (applyState rid st col) = build_part col"
proof -
  have e: "build_part (co_ensure rid c) = build_part c" for c by (simp add: co_ensure_def Let_def build_part_def)
  have r: "build_part (resetIfEmpty c) = build_part c" for c by (simp add: resetIfEmpty_def build_part_def)
  show ?thesis
    using clearRid_build [of rid col] e [of "clearRid rid col"] r setScalar_build
    by (cases st) (simp_all add: applyState_def Let_def, simp_all add: build_part_def)
qed

lemma applyState_status [simp]: "co_status (applyState rid st col) = co_status col"
  using applyState_build [of rid st col] by (simp add: build_part_def)

subsection \<open>Runs\<close>

definition col_put :: "tcol \<Rightarrow> nat \<times> jsv \<Rightarrow> tcol" where
  "col_put col u = updateScalarState (fst u) (columnScalarState (snd u)) col"

definition last_value :: "(nat \<times> jsv) list \<Rightarrow> nat \<Rightarrow> jsv" where
  "last_value us = foldl (\<lambda>f u. f(fst u := snd u)) (\<lambda>r. JUndef) us"

lemma last_value_snoc: "last_value (us @ [u]) = (last_value us)(fst u := snd u)"
  by (simp add: last_value_def)

lemma newTypedColumn_ok: "co_ok (newTypedColumn path) \<and> co_cell (newTypedColumn path) r = cell_of CAbsent"
  by (simp add: newTypedColumn_def co_ok_def sized_def trues_def coded_def table_ok_def strings_ok_def ids_ok_def
      free_codes_ok_def slots_def js_at_def co_cell_def cell_of_def co_number_def co_boolean_def co_string_def)

lemma col_run_ok:
  "co_ok (foldl col_put (newTypedColumn path) us) \<and> co_status (foldl col_put (newTypedColumn path) us) = Ready \<and>
   (\<forall>r. co_cell (foldl col_put (newTypedColumn path) us) r = cell_of (columnScalarState (last_value us r)))"
proof (induction us rule: rev_induct)
  case Nil
  show ?case using newTypedColumn_ok
    by (simp add: last_value_def columnScalarState_def isScalarColumnValue_def) (simp add: newTypedColumn_def)
next
  case (snoc u us)
  let ?c = "foldl col_put (newTypedColumn path) us"
  have ready: "co_status ?c = Ready" using snoc by blast
  have "co_status c = Ready \<Longrightarrow> col_put c u = applyState (fst u) (columnScalarState (snd u)) c" for c
    by (simp add: col_put_def updateScalarState_def)
  note step = this [OF ready]
  have "co_ok ?c" using snoc by blast
  from applyState_ok [OF this columnScalarState_ok, of "fst u" "snd u"] snoc ready
  show ?case by (simp add: last_value_snoc step)
qed

text \<open>C25: A column is a faithful copy of the field it indexes: after any run of changes each row holds a deep copy of the
value it was given last, and a row counts as having a value exactly when that value is not \<open>undefined\<close>.\<close>

theorem column_holds_values:
  "valueFor (foldl col_put (newTypedColumn path) us) r = json_clone (last_value us r) \<and>
   (hasValue (foldl col_put (newTypedColumn path) us) r \<longleftrightarrow> last_value us r \<noteq> JUndef)"
proof -
  let ?c = "foldl col_put (newTypedColumn path) us"
  have ok: "co_ok ?c" "co_cell ?c r = cell_of (columnScalarState (last_value us r))" using col_run_ok by auto
  have "cell_of (columnScalarState v) = cell_of CAbsent \<longleftrightarrow> v = JUndef" for v
    by (cases v) (auto simp: columnScalarState_def isScalarColumnValue_def cell_of_def)
  with ok show ?thesis by (simp add: valueFor_cell hasValue_cell cell_value_of)
qed

lemma trues_card: "trues bs = int (card {i. js_at False bs i})"
proof -
  have "count_list xs True = length (filter (\<lambda>b. b) xs)" for xs by (induction xs) auto
  then have "count_list bs True = card {i. i < length bs \<and> bs ! i}" by (simp add: length_filter_conv_card)
  moreover have "{i. i < length bs \<and> bs ! i} = {i. js_at False bs i}" by (auto simp: js_at_def)
  ultimately show ?thesis by (simp add: trues_def)
qed

lemma coded_card: "coded cs = int (card {i. js_at 0 cs i \<noteq> 0})"
proof -
  have "length xs = count_list xs 0 + length (filter (\<lambda>c. c \<noteq> 0) xs)" for xs :: "nat list" by (induction xs) auto
  from this [of cs] have "coded cs = int (card {i. i < length cs \<and> cs ! i \<noteq> 0})"
    by (simp add: coded_def length_filter_conv_card)
  moreover have "{i. i < length cs \<and> cs ! i \<noteq> 0} = {i. js_at 0 cs i \<noteq> 0}" by (auto simp: js_at_def)
  ultimately show ?thesis by simp
qed

lemma finite_js_at: "finite {i. js_at False bs i}" "finite {i. js_at 0 cs i \<noteq> (0 :: nat)}"
proof -
  have "{i. js_at False bs i} \<subseteq> {..<length bs}" "{i. js_at 0 cs i \<noteq> 0} \<subseteq> {..<length cs}"
    by (auto simp: js_at_def split: if_splits)
  then show "finite {i. js_at False bs i}" "finite {i. js_at 0 cs i \<noteq> 0}" by (auto intro: finite_subset)
qed

text \<open>The kind of value a row has, from the arrays.\<close>

lemma column_kinds:
  "(js_at False (co_numberPresent (foldl col_put (newTypedColumn path) us)) r \<longleftrightarrow> (\<exists>n. last_value us r = JNum n \<and> num_finite n)) \<and>
   (js_at False (co_booleanPresent (foldl col_put (newTypedColumn path) us)) r \<longleftrightarrow> (\<exists>b. last_value us r = JBool b)) \<and>
   (js_at 0 (co_stringCodes (foldl col_put (newTypedColumn path) us)) r \<noteq> 0 \<longleftrightarrow> (\<exists>s. last_value us r = JStr s)) \<and>
   (js_at False (co_nulls (foldl col_put (newTypedColumn path) us)) r \<longleftrightarrow> last_value us r = JNull) \<and>
   (jm_has (co_overflow (foldl col_put (newTypedColumn path) us)) r \<longleftrightarrow> is_arr (last_value us r) \<or> is_obj (last_value us r) \<or>
      (\<exists>n. last_value us r = JNum n \<and> \<not> num_finite n))"
proof -
  define c where "c = foldl col_put (newTypedColumn path) us"
  have ok: "co_ok c" and cell: "co_cell c r = cell_of (columnScalarState (last_value us r))"
    using col_run_ok by (auto simp: c_def)
  have n: "js_at False (co_numberPresent c) r \<longleftrightarrow> co_number c r \<noteq> None" by (simp add: co_number_def)
  have b: "js_at False (co_booleanPresent c) r \<longleftrightarrow> co_boolean c r \<noteq> None" by (simp add: co_boolean_def)
  have s: "js_at 0 (co_stringCodes c) r \<noteq> 0 \<longleftrightarrow> co_string c r \<noteq> None"
    using co_string_Some [OF ok, of r] by (auto simp: co_string_def)
  from cell show ?thesis
    unfolding c_def [symmetric] n b s
    by (cases "last_value us r")
      (auto simp: co_cell_def cell_of_def columnScalarState_def isScalarColumnValue_def split: if_splits)
qed

lemma column_counts:
  "col_entries (foldl col_put (newTypedColumn path) us) = int (card {r. last_value us r \<noteq> JUndef}) \<and>
   co_numberCount (foldl col_put (newTypedColumn path) us) =
     int (card {r. \<exists>n. last_value us r = JNum n \<and> num_finite n})"
proof -
  define c where "c = foldl col_put (newTypedColumn path) us"
  have ok: "co_ok c" and cell: "\<And>r. co_cell c r = cell_of (columnScalarState (last_value us r))"
    using col_run_ok by (auto simp: c_def)
  let ?N = "{r. js_at False (co_numberPresent c) r}" and ?B = "{r. js_at False (co_booleanPresent c) r}"
    and ?S = "{r. js_at 0 (co_stringCodes c) r \<noteq> 0}" and ?Z = "{r. js_at False (co_nulls c) r}" and ?O = "{r. jm_has (co_overflow c) r}"
  note kinds = column_kinds [of path us, folded c_def]
  have fin: "finite ?N" "finite ?B" "finite ?S" "finite ?Z" "finite ?O"
    using finite_js_at(1) finite_js_at(2) [of "co_stringCodes c"] finite_dom_map_of [of "co_overflow c"]
    by (simp_all add: dom_def)
  have "{r. last_value us r \<noteq> JUndef} = ?N \<union> (?B \<union> (?S \<union> (?Z \<union> ?O)))"
  proof (rule set_eqI)
    fix r
    show "r \<in> {r. last_value us r \<noteq> JUndef} \<longleftrightarrow> r \<in> ?N \<union> (?B \<union> (?S \<union> (?Z \<union> ?O)))"
      using kinds [of r] by (cases "last_value us r") auto
  qed
  moreover have apart: "?Z \<inter> ?O = {}" "?S \<inter> (?Z \<union> ?O) = {}" "?B \<inter> (?S \<union> (?Z \<union> ?O)) = {}" "?N \<inter> (?B \<union> (?S \<union> (?Z \<union> ?O))) = {}"
  proof -
    have "\<not> (js_at False (co_nulls c) r \<and> jm_has (co_overflow c) r)"
      "\<not> (js_at 0 (co_stringCodes c) r \<noteq> 0 \<and> (js_at False (co_nulls c) r \<or> jm_has (co_overflow c) r))"
      "\<not> (js_at False (co_booleanPresent c) r \<and>
          (js_at 0 (co_stringCodes c) r \<noteq> 0 \<or> js_at False (co_nulls c) r \<or> jm_has (co_overflow c) r))"
      "\<not> (js_at False (co_numberPresent c) r \<and> (js_at False (co_booleanPresent c) r \<or>
          js_at 0 (co_stringCodes c) r \<noteq> 0 \<or> js_at False (co_nulls c) r \<or> jm_has (co_overflow c) r))" for r
      using kinds [of r] by (cases "last_value us r"; simp)+
    then show "?Z \<inter> ?O = {}" "?S \<inter> (?Z \<union> ?O) = {}" "?B \<inter> (?S \<union> (?Z \<union> ?O)) = {}" "?N \<inter> (?B \<union> (?S \<union> (?Z \<union> ?O))) = {}"
      by blast+
  qed
  ultimately have "card {r. last_value us r \<noteq> JUndef} = card ?N + (card ?B + (card ?S + (card ?Z + card ?O)))"
    using fin by (simp add: card_Un_disjoint)
  moreover have "card ?O = length (co_overflow c)"
  proof -
    have "?O = fst ` set (co_overflow c)" by (auto simp: jm_has_iff simp del: not_None_eq)
    then show ?thesis using ok by (simp add: co_ok_def) (metis card_image distinct_card distinct_map length_map set_map)
  qed
  ultimately have "col_entries c = int (card {r. last_value us r \<noteq> JUndef})"
    using ok by (simp add: col_entries_def co_ok_def trues_card coded_card)
  moreover have "co_numberCount c = int (card {r. \<exists>n. last_value us r = JNum n \<and> num_finite n})"
    using ok kinds by (simp add: co_ok_def trues_card)
  ultimately show ?thesis by (simp add: c_def)
qed

text \<open>C26: The counters of a column are exact: after any run of changes \<open>entries\<close> is the number of rows whose value is not
\<open>undefined\<close>, and the number counter the number of rows that hold a finite number.\<close>

theorem column_counts_exact:
  "col_entries (foldl col_put (newTypedColumn path) us) = int (card {r. last_value us r \<noteq> JUndef}) \<and>
   co_numberCount (foldl col_put (newTypedColumn path) us) =
     int (card {r. \<exists>n. last_value us r = JNum n \<and> num_finite n})"
  by (rule column_counts)

subsection \<open>The sum of the numbers\<close>

lemma clearRid_sum:
  "co_numberSum (clearRid rid col) =
     (case co_number col rid of None \<Rightarrow> co_numberSum col | Some n \<Rightarrow> num_sub (co_numberSum col) n)"
proof -
  have n: "co_numberSum (clear_null rid c) = co_numberSum c" "co_numberSum (clear_boolean rid c) = co_numberSum c" for c
    by (simp_all add: clear_null_def clear_boolean_def)
  have s: "co_numberSum (clear_string rid c) = co_numberSum c" for c
    by (simp add: clear_string_def drop_string_def Let_def)
  have "co_numberSum (clearRid rid col) = co_numberSum (clear_number rid col)" by (simp add: clearRid_def Let_def n s)
  then show ?thesis by (simp add: clear_number_def co_number_def)
qed

lemma applyState_sum:
  "co_numberSum (applyState rid st col) =
     (let col1 = clearRid rid col; s = co_numberSum col1
      in case st of
           CScalar (JNum n) \<Rightarrow> num_add s n
         | CAbsent \<Rightarrow> (if co_scalarCount col1 \<noteq> 0 \<or> co_nullCount col1 \<noteq> 0 \<or> co_overflow col1 \<noteq> [] then s else Fin 0)
         | _ \<Rightarrow> s)"
proof -
  have e: "co_numberSum (co_ensure rid c) = co_numberSum c" for c by (simp add: co_ensure_def Let_def)
  have s: "stringCode x c = (code, c') \<Longrightarrow> co_numberSum c' = co_numberSum c" for x c code c'
    by (auto simp: stringCode_def Let_def split: option.splits list.splits if_splits)
  have "co_numberSum (setScalar rid v c) = (case v of JNum n \<Rightarrow> num_add (co_numberSum c) n | _ \<Rightarrow> co_numberSum c)" for v c
    by (cases v) (auto simp: setScalar_def split: prod.splits dest: s)
  then show ?thesis by (cases st) (simp_all add: applyState_def Let_def resetIfEmpty_def e split: jsv.split)
qed

lemma last_value_mem: "last_value us r = JUndef \<or> (r, last_value us r) \<in> set us"
  by (induction us rule: rev_induct) (auto simp: last_value_snoc last_value_def)

lemma int_sum_bound:
  assumes "\<And>r. \<bar>f r\<bar> \<le> (B :: int)" and "int N * B \<le> 2 ^ 53" and "0 \<le> B"
  shows "safe_int (\<Sum>r<N. f r)"
proof -
  have "\<bar>\<Sum>r<N. f r\<bar> \<le> (\<Sum>r<N. \<bar>f r\<bar>)" by (rule sum_abs)
  also have "\<dots> \<le> (\<Sum>r<N. B)" by (rule sum_mono) (rule assms(1))
  finally show ?thesis using assms(2) by (simp add: safe_int_def)
qed

lemma sum_fun_upd:
  assumes "k < (N :: nat)"
  shows "(\<Sum>r<N. g ((f(k := v)) r)) = (\<Sum>r<N. g (f r)) - g (f k) + (g v :: int)"
proof -
  have "(\<Sum>r<N. g (h r)) = g (h k) + (\<Sum>r\<in>{..<N} - {k}. g (h r))" for h
    using assms by (simp add: sum.remove)
  moreover have "(\<Sum>r\<in>{..<N} - {k}. g ((f(k := v)) r)) = (\<Sum>r\<in>{..<N} - {k}. g (f r))" by (rule sum.cong) auto
  ultimately show ?thesis by simp
qed

text \<open>C27: The running sum of a column does not drift on integers: when every number written is an integer of magnitude at
most \<open>B\<close>, the rows are below \<open>N\<close> and \<open>N * B\<close> is at most \<open>2 ^ 53\<close>, then after any run of changes \<open>numberSum\<close> is exactly
the sum of the values the rows hold.\<close>

theorem column_sum_exact:
  assumes "0 \<le> B" and "int N * B \<le> 2 ^ 53" and "\<forall>u \<in> set us. fst u < N \<and> small_int B (snd u)"
  shows "co_numberSum (foldl col_put (newTypedColumn path) us) = num_of_int (\<Sum>r<N. int_part (last_value us r))"
  using assms(3)
proof (induction us rule: rev_induct)
  case Nil
  show ?case by (simp add: newTypedColumn_def last_value_def int_part_def num_of_int_def)
next
  case (snoc u us)
  obtain rid v where u: "u = (rid, v)" by (cases u)
  define c where "c = foldl col_put (newTypedColumn path) us"
  define st where "st = columnScalarState v"
  define f where "f = last_value us"
  define S where "S = (\<Sum>r<N. int_part (f r))"
  have ok: "co_ok c" "co_status c = Ready" "\<And>r. co_cell c r = cell_of (columnScalarState (f r))"
    using col_run_ok by (auto simp: c_def f_def)
  have IH: "co_numberSum c = num_of_int S" using snoc by (simp add: c_def S_def f_def)
  have rid: "rid < N" "small_int B v" using snoc.prems by (auto simp: u)
  have small: "small_int B (f r)" for r
    using last_value_mem [of us r] snoc.prems by (auto simp: f_def small_int_def)
  have bound: "safe_int (\<Sum>r<N. int_part ((f(rid := w)) r))" if "small_int B w" for w
    by (rule int_sum_bound [OF _ assms(2,1)]) (use small that assms(1) in \<open>auto intro: int_part_bound\<close>)
  have upd: "(\<Sum>r<N. int_part ((f(rid := w)) r)) = S - int_part (f rid) + int_part w" for w
    unfolding S_def by (rule sum_fun_upd [OF rid(1)])
  have zero: "small_int B JUndef" "int_part JUndef = 0" by (simp_all add: small_int_def int_part_def)
  have old: "co_number c rid = (case f rid of JNum n \<Rightarrow> Some n | _ \<Rightarrow> None)"
    using ok(3) [of rid] small [of rid]
    by (cases "f rid") (auto simp: co_cell_def cell_of_def columnScalarState_def isScalarColumnValue_def small_int_def)
  have cleared: "co_numberSum (clearRid rid c) = num_of_int (S - int_part (f rid))"
  proof (cases "\<exists>n. f rid = JNum n")
    case True
    then obtain z where z: "f rid = JNum (num_of_int z)" using small [of rid] by (auto simp: small_int_def)
    then show ?thesis using old bound [OF zero(1)] upd [of JUndef] zero(2) IH
      by (simp add: clearRid_sum num_sub_of_int)
  next
    case False
    then have "co_number c rid = None" "int_part (f rid) = 0" using old by (auto simp: int_part_def split: jsv.splits)
    then show ?thesis using IH by (simp add: clearRid_sum)
  qed
  have put: "co_status c = Ready \<Longrightarrow> col_put c u = applyState rid st c" for c
    by (simp add: col_put_def updateScalarState_def u st_def)
  have "co_numberSum (applyState rid st c) = num_of_int (S - int_part (f rid) + int_part v)"
  proof (cases "\<exists>n. v = JNum n")
    case True
    then obtain z where z: "v = JNum (num_of_int z)" using rid(2) by (auto simp: small_int_def)
    then have "st = CScalar (JNum (num_of_int z))" by (simp add: st_def columnScalarState_def isScalarColumnValue_def)
    then show ?thesis using cleared bound [OF rid(2)] upd [of v] z
      by (simp add: applyState_sum Let_def num_add_of_int)
  next
    case False
    then have v: "int_part v = 0" by (auto simp: int_part_def split: jsv.splits)
    show ?thesis
    proof (cases "st = CAbsent \<and> \<not> (co_scalarCount (clearRid rid c) \<noteq> 0 \<or> co_nullCount (clearRid rid c) \<noteq> 0 \<or> co_overflow (clearRid rid c) \<noteq> [])")
      case True
      have okc: "co_ok (clearRid rid c)" "\<And>r. co_cell (clearRid rid c) r = (if r = rid then cell_of CAbsent else co_cell c r)"
        using clearRid_ok [OF ok(1), of rid] by auto
      have "int_part (f r) = 0" if "r \<noteq> rid" for r
        using cell_empty [OF okc(1), of r] True okc(2) [of r] ok(3) [of r] that small [of r]
        by (cases "f r") (auto simp: cell_of_def columnScalarState_def isScalarColumnValue_def int_part_def small_int_def)
      then have "int_part ((f(rid := JUndef)) r) = 0" for r using zero(2) by simp
      then have "(\<Sum>r<N. int_part ((f(rid := JUndef)) r)) = 0" by (simp only: sum.neutral_const)
      with upd [of JUndef] zero(2) v have "S - int_part (f rid) + int_part v = 0" by simp
      with True show ?thesis by (simp add: applyState_sum Let_def num_of_int_def)
    next
      case False
      then have "co_numberSum (applyState rid st c) = co_numberSum (clearRid rid c)"
        using \<open>\<nexists>n. v = JNum n\<close>
        by (auto simp: applyState_sum Let_def st_def columnScalarState_def split: jsv.splits)
      with cleared v show ?thesis by simp
    qed
  qed
  then have "co_numberSum (col_put c u) = num_of_int (\<Sum>r<N. int_part ((f(rid := v)) r))"
    by (simp only: put [OF ok(2)] upd)
  then show ?case by (simp add: c_def f_def u last_value_snoc)
qed

theorem column_sum_exact_witness:
  "co_numberSum (foldl col_put (newTypedColumn ''age'')
     [(0, JNum (num_of_int 7)), (2, JStr ''x''), (1, JNum (num_of_int 5)), (0, JNum (num_of_int 30))]) = num_of_int 35"
  using column_sum_exact [of 30 3 "[(0, JNum (num_of_int 7)), (2, JStr ''x''), (1, JNum (num_of_int 5)), (0, JNum (num_of_int 30))]" "''age''"]
  by (simp add: small_int_def last_value_def lessThan_Suc numeral_3_eq_3 int_part_def [of "JStr _"])

subsection \<open>Building a column\<close>

lemma replay_ok:
  assumes "jm_ok p" and "co_ok col" and "\<forall>(rid, st) \<in> set p. state_ok st"
  shows "co_ok (foldl (\<lambda>c (rid, st). applyState rid st c) col p) \<and>
    co_cell (foldl (\<lambda>c (rid, st). applyState rid st c) col p) r =
      (case jm_get p r of Some st \<Rightarrow> cell_of st | None \<Rightarrow> co_cell col r)"
  using assms
proof (induction p arbitrary: col)
  case (Cons x p)
  obtain rid st where x: "x = (rid, st)" by (cases x)
  have s: "co_ok (applyState rid st col)" "\<And>r. co_cell (applyState rid st col) r = (if r = rid then cell_of st else co_cell col r)"
    using applyState_ok [OF Cons.prems(2), of st rid] Cons.prems(3) by (auto simp: x)
  have new: "jm_get p rid = None" using Cons.prems(1) by (simp add: x map_of_eq_None_iff)
  from Cons.IH [OF _ s(1)] Cons.prems s(2) new show ?case by (auto simp: x split: option.split)
qed simp

lemma pending_run:
  assumes "co_status col = Building" and "co_pending col = Some p"
  shows "foldl col_put col us =
    col\<lparr>co_pending := Some (foldl (\<lambda>p u. jm_set (fst u) (columnScalarState (snd u)) p) p us)\<rparr>"
  using assms
proof (induction us arbitrary: col p)
  case (Cons u us)
  have "col_put col u = col\<lparr>co_pending := Some (jm_set (fst u) (columnScalarState (snd u)) p)\<rparr>"
    using Cons.prems by (simp add: col_put_def updateScalarState_def)
  with Cons.IH [of "col\<lparr>co_pending := Some (jm_set (fst u) (columnScalarState (snd u)) p)\<rparr>"] Cons.prems show ?case by simp
qed simp

lemma pending_states:
  "jm_ok (foldl (\<lambda>p u. jm_set (fst u) (columnScalarState (snd u)) p) [] us) \<and>
   (\<forall>r. jm_get (foldl (\<lambda>p u. jm_set (fst u) (columnScalarState (snd u)) p) [] us) r =
      (if r \<in> fst ` set us then Some (columnScalarState (last_value us r)) else None))"
  by (induction us rule: rev_induct) (auto simp: last_value_snoc)

text \<open>A column built in the background loses no change: when the scan's result is installed for the build that was
started, a row changed while the scan ran holds the value it was given last, every other row the value that was scanned, and
the column is ready; the result of an older build is refused and changes nothing.\<close>

theorem column_build_exact:
  assumes "startBuild col = (b, building)" and "running = foldl col_put building us"
    and "source = foldl col_put (newTypedColumn path) scanned"
  shows "(\<exists>built. col_install source b running = (built, True) \<and> co_status built = Ready \<and>
       (\<forall>r. valueFor built r = json_clone (if r \<in> fst ` set us then last_value us r else last_value scanned r))) \<and>
    (b' \<noteq> b \<longrightarrow> col_install source b' running = (running, False) \<and> col_fail b' running = running)"
proof -
  have b: "b = co_buildId col + 1" "building = col\<lparr>co_status := Building, co_pending := Some [], co_buildId := b\<rparr>"
    using assms(1) by (auto simp: startBuild_def)
  define p where "p = foldl (\<lambda>p u. jm_set (fst u) (columnScalarState (snd u)) p) [] us"
  have run: "running = building\<lparr>co_pending := Some p\<rparr>"
    using pending_run [of building "[]" us] by (simp add: assms(2) b(2) p_def)
  have p: "jm_ok p" "\<And>r. jm_get p r = (if r \<in> fst ` set us then Some (columnScalarState (last_value us r)) else None)"
    using pending_states [of us] by (auto simp: p_def)
  have states: "\<forall>(rid, st) \<in> set p. state_ok st"
  proof clarify
    fix rid st assume "(rid, st) \<in> set p"
    then have "jm_get p rid = Some st" using p(1) by simp
    then show "state_ok st" using p(2) [of rid] by (auto simp: columnScalarState_ok split: if_splits)
  qed
  define col1 where "col1 = source\<lparr>co_path := co_path running, co_pending := co_pending running,
    co_status := co_status running, co_buildId := co_buildId running\<rparr>"
  have src: "co_ok source" "\<And>r. co_cell source r = cell_of (columnScalarState (last_value scanned r))"
    using col_run_ok [of path scanned] by (auto simp: assms(3))
  have swap: "co_cell (c\<lparr>co_path := a1, co_pending := a2, co_status := a3, co_buildId := a4\<rparr>) r = co_cell c r"
    "co_ok (c\<lparr>co_path := a1, co_pending := a2, co_status := a3, co_buildId := a4\<rparr>) = co_ok c" for c a1 a2 a3 a4 r
    by (simp_all add: co_cell_def co_number_def co_boolean_def co_string_def co_ok_def sized_def)
  have ok1: "co_ok col1" "\<And>r. co_cell col1 r = co_cell source r" using src swap by (simp_all add: col1_def)
  define col2 where "col2 = foldl (\<lambda>c (rid, st). applyState rid st c) col1 p"
  have col2: "co_ok col2" "\<And>r. co_cell col2 r = (case jm_get p r of Some st \<Rightarrow> cell_of st | None \<Rightarrow> co_cell source r)"
    using replay_ok [OF p(1) ok1(1) states] ok1(2) by (simp_all add: col2_def split: option.split)
  define built where "built = col2\<lparr>co_pending := None, co_status := Ready\<rparr>"
  have "col_install source b running = (built, True)"
    by (simp add: col_install_def Let_def built_def col2_def col1_def run b(2))
  moreover have "valueFor built r = json_clone (if r \<in> fst ` set us then last_value us r else last_value scanned r)" for r
  proof -
    have "valueFor built r = valueFor col2 r" by (simp add: built_def valueFor_def string_at_def)
    also have "\<dots> = cell_value (co_cell col2 r)" by (rule valueFor_cell [OF col2(1)])
    also have "co_cell col2 r = cell_of (columnScalarState (if r \<in> fst ` set us then last_value us r else last_value scanned r))"
      using col2(2) [of r] p(2) [of r] src(2) [of r] by simp
    finally show ?thesis by (simp only: cell_value_of)
  qed
  ultimately show ?thesis by (auto simp: built_def run b(2) col_install_def col_fail_def)
qed

theorem column_build_exact_witness:
  "\<exists>built. col_install (foldl col_put (newTypedColumn ''n'') [(0, JStr ''old''), (1, JNull)]) 1
       (foldl col_put (snd (startBuild (newTypedColumn ''n''))) [(0, JStr ''new'')]) = (built, True) \<and>
     valueFor built 0 = JStr ''new'' \<and> valueFor built 1 = JNull"
proof -
  have b: "startBuild (newTypedColumn ''n'') = (1, snd (startBuild (newTypedColumn ''n'')))"
    by (simp add: startBuild_def newTypedColumn_def)
  obtain built where built: "col_install (foldl col_put (newTypedColumn ''n'') [(0, JStr ''old''), (1, JNull)]) 1
       (foldl col_put (snd (startBuild (newTypedColumn ''n''))) [(0, JStr ''new'')]) = (built, True)"
    and v: "\<And>r. valueFor built r = json_clone (if r \<in> fst ` set [(0, JStr ''new'')] then last_value [(0, JStr ''new'')] r
       else last_value [(0, JStr ''old''), (1, JNull)] r)"
    using column_build_exact [OF b refl refl, of "''n''" "[(0, JStr ''old''), (1, JNull)]" "[(0, JStr ''new'')]" 0] by blast
  from v [of 0] v [of 1] have "valueFor built 0 = JStr ''new'' \<and> valueFor built 1 = JNull" by (simp add: last_value_def)
  with built show ?thesis by blast
qed

end
