(* ===== verification/RidSets.thy ===== *)
theory RidSets
  imports Prelude
begin

text \<open>
  Sets of row ids, as src/src/store.js keeps them: the set operations of its last part (\<open>setIntersection\<close>,
  \<open>countIntersection\<close>, \<open>countIntersectingSets\<close>, \<open>setUnion\<close>) and a \<open>Map\<close> from keys to sets in which an empty set is
  deleted, the shape both a field index and the shard map of a collection have.
\<close>

subsection \<open>Sets\<close>

definition setIntersection :: "'a list \<Rightarrow> 'a list \<Rightarrow> 'a list" where
  "setIntersection left right =
     (let (small, large) = (if length right < length left then (right, left) else (left, right))
      in filter (\<lambda>x. x \<in> set large) small)"

definition countIntersection :: "'a list \<Rightarrow> 'a list \<Rightarrow> nat" where
  "countIntersection left right =
     (let (small, large) = (if length right < length left then (right, left) else (left, right))
      in foldl (\<lambda>count x. if x \<in> set large then count + 1 else count) 0 small)"

definition smallerSet :: "'a list \<Rightarrow> 'a list \<Rightarrow> 'a list" where
  "smallerSet left right = (if length left \<le> length right then left else right)"

text \<open>The arguments that are no set are left out; without one the count is 0.\<close>

definition countIntersectingSets :: "'a list option list \<Rightarrow> nat" where
  "countIntersectingSets sets =
     (case List.map_filter (\<lambda>s. s) sets of
        [] \<Rightarrow> 0
      | [only] \<Rightarrow> length only
      | [left, right] \<Rightarrow> countIntersection left right
      | s # ss \<Rightarrow>
          let smallest = foldl (\<lambda>best x. if length x < length best then x else best) s ss
          in length (filter (\<lambda>x. list_all (\<lambda>other. x \<in> set other) (s # ss)) smallest))"

definition setUnion :: "'a list \<Rightarrow> 'a list \<Rightarrow> 'a list" where
  "setUnion left right = foldl (\<lambda>out x. js_add x out) left right"

lemma set_setIntersection [simp]: "set (setIntersection a b) = set a \<inter> set b"
  by (auto simp: setIntersection_def)

lemma distinct_setIntersection [simp]: "distinct a \<Longrightarrow> distinct b \<Longrightarrow> distinct (setIntersection a b)"
  by (simp add: setIntersection_def)

lemma setUnion_props: "set (setUnion a b) = set a \<union> set b \<and> (distinct a \<longrightarrow> distinct (setUnion a b))"
  unfolding setUnion_def by (induction b arbitrary: a) simp_all

lemma set_setUnion [simp]: "set (setUnion a b) = set a \<union> set b"
  by (rule setUnion_props [THEN conjunct1])

lemma distinct_setUnion [simp]: "distinct a \<Longrightarrow> distinct (setUnion a b)"
  by (simp add: setUnion_props)

lemma count_fold: "foldl (\<lambda>count x. if P x then count + 1 else count) n xs = n + length (filter P xs)"
  by (induction xs arbitrary: n) auto

lemma length_filter_card: "distinct xs \<Longrightarrow> length (filter P xs) = card (set xs \<inter> {x. P x})"
  using distinct_card [OF distinct_filter, of xs P] by (simp add: set_filter Int_def)

lemma countIntersection_card: "distinct a \<Longrightarrow> distinct b \<Longrightarrow> countIntersection a b = card (set a \<inter> set b)"
  by (simp add: countIntersection_def count_fold length_filter_card Int_commute)

lemma fold_smallest_mem: "foldl (\<lambda>best x. if length x < length best then x else best) s ss \<in> set (s # ss)"
  by (induction ss arbitrary: s) (auto split: if_splits)

lemma countIntersectingSets_card:
  assumes "List.map_filter (\<lambda>s. s) sets = s # ss" and "\<forall>x \<in> set (s # ss). distinct x"
  shows "countIntersectingSets sets = card (\<Inter> (set ` set (s # ss)))"
proof -
  consider "ss = []" | b where "ss = [b]" | b c cs where "ss = b # c # cs" by (metis neq_Nil_conv)
  then show ?thesis
  proof cases
    case 1
    with assms show ?thesis by (simp add: countIntersectingSets_def distinct_card)
  next
    case 2
    with assms show ?thesis by (simp add: countIntersectingSets_def countIntersection_card)
  next
    case 3
    define m where "m = foldl (\<lambda>best x. if length x < length best then x else best) s ss"
    have m: "m \<in> set (s # ss)" unfolding m_def by (rule fold_smallest_mem)
    have d: "distinct m" using assms(2) m by blast
    have "countIntersectingSets sets = length (filter (\<lambda>x. list_all (\<lambda>other. x \<in> set other) (s # ss)) m)"
      using assms(1) 3 by (simp add: countIntersectingSets_def m_def Let_def)
    also have "\<dots> = card (set m \<inter> {x. list_all (\<lambda>other. x \<in> set other) (s # ss)})"
      by (rule length_filter_card [OF d])
    also have "set m \<inter> {x. list_all (\<lambda>other. x \<in> set other) (s # ss)} = \<Inter> (set ` set (s # ss))"
      using m by (fastforce simp: list_all_iff)
    finally show ?thesis .
  qed
qed

subsection \<open>Maps to sets\<close>

type_synonym ('k, 'a) bag = "('k, 'a list) jmap"

definition bag_get :: "('k, 'a) bag \<Rightarrow> 'k \<Rightarrow> 'a list" where
  "bag_get m k = (case jm_get m k of None \<Rightarrow> [] | Some xs \<Rightarrow> xs)"

definition bag_add :: "'k \<Rightarrow> 'a \<Rightarrow> ('k, 'a) bag \<Rightarrow> ('k, 'a) bag" where
  "bag_add k x m = jm_set k (js_add x (bag_get m k)) m"

definition bag_del :: "'k \<Rightarrow> 'a \<Rightarrow> ('k, 'a) bag \<Rightarrow> ('k, 'a) bag" where
  "bag_del k x m =
     (case jm_get m k of
        None \<Rightarrow> m
      | Some xs \<Rightarrow> if js_del x xs = [] then jm_del k m else jm_set k (js_del x xs) m)"

definition bag_ok :: "('k, 'a) bag \<Rightarrow> bool" where
  "bag_ok m \<longleftrightarrow> jm_ok m \<and> (\<forall>k xs. jm_get m k = Some xs \<longrightarrow> xs \<noteq> [] \<and> distinct xs)"

lemma js_add_not_Nil [simp]: "js_add x xs \<noteq> []"
  by (auto simp: js_add_def)

lemma bag_get_set [simp]: "bag_get (jm_set k xs m) k' = (if k' = k then xs else bag_get m k')"
  by (simp add: bag_get_def)

lemma bag_get_del [simp]: "bag_get (jm_del k m) k' = (if k' = k then [] else bag_get m k')"
  by (simp add: bag_get_def)

lemma bag_add_get: "set (bag_get (bag_add k x m) k') = (if k' = k then insert x (set (bag_get m k)) else set (bag_get m k'))"
  by (simp add: bag_add_def)

lemma bag_del_get: "set (bag_get (bag_del k x m) k') = (if k' = k then set (bag_get m k) - {x} else set (bag_get m k'))"
proof (cases "jm_get m k")
  case None
  then have "bag_get m k = []" by (simp add: bag_get_def)
  with None show ?thesis by (simp add: bag_del_def)
next
  case (Some xs)
  then have xs: "bag_get m k = xs" by (simp add: bag_get_def)
  have "js_del x xs = [] \<Longrightarrow> set xs - {x} = {}" using set_js_del [of x xs] by simp
  with Some xs show ?thesis by (simp add: bag_del_def)
qed

lemma bag_ok_Nil [simp]: "bag_ok []"
  by (simp add: bag_ok_def)

lemma bag_get_distinct: "bag_ok m \<Longrightarrow> distinct (bag_get m k)"
  by (auto simp: bag_ok_def bag_get_def split: option.split)

lemma bag_ok_add [simp]: "bag_ok m \<Longrightarrow> bag_ok (bag_add k x m)"
  using bag_get_distinct [of m k] by (auto simp: bag_ok_def bag_add_def)

lemma bag_ok_del [simp]: "bag_ok m \<Longrightarrow> bag_ok (bag_del k x m)"
  by (auto simp: bag_ok_def bag_del_def split: option.split)

lemma bag_keys:
  assumes "bag_ok m" shows "k \<in> set (jm_keys m) \<longleftrightarrow> bag_get m k \<noteq> []"
proof (cases "jm_get m k")
  case None
  then have "k \<notin> set (jm_keys m)" by (simp add: map_of_eq_None_iff)
  with None show ?thesis by (simp add: bag_get_def)
next
  case (Some xs)
  then have "k \<in> set (jm_keys m)" by (metis map_of_eq_None_iff option.distinct(1) set_map)
  with Some assms show ?thesis by (simp add: bag_ok_def bag_get_def)
qed

definition bag_add_all :: "'k list \<Rightarrow> 'a \<Rightarrow> ('k, 'a) bag \<Rightarrow> ('k, 'a) bag" where
  "bag_add_all ks x m = foldl (\<lambda>m k. bag_add k x m) m ks"

definition bag_del_all :: "'k list \<Rightarrow> 'a \<Rightarrow> ('k, 'a) bag \<Rightarrow> ('k, 'a) bag" where
  "bag_del_all ks x m = foldl (\<lambda>m k. bag_del k x m) m ks"

lemma bag_add_all_get:
  "set (bag_get (bag_add_all ks x m) k) = (if k \<in> set ks then insert x (set (bag_get m k)) else set (bag_get m k))"
  unfolding bag_add_all_def by (induction ks arbitrary: m) (auto simp: bag_add_get)

lemma bag_del_all_get:
  "set (bag_get (bag_del_all ks x m) k) = (if k \<in> set ks then set (bag_get m k) - {x} else set (bag_get m k))"
  unfolding bag_del_all_def by (induction ks arbitrary: m) (auto simp: bag_del_get)

lemma bag_add_all_ok [simp]: "bag_ok m \<Longrightarrow> bag_ok (bag_add_all ks x m)"
  unfolding bag_add_all_def by (induction ks arbitrary: m) auto

lemma bag_del_all_ok [simp]: "bag_ok m \<Longrightarrow> bag_ok (bag_del_all ks x m)"
  unfolding bag_del_all_def by (induction ks arbitrary: m) auto

end
