(* ===== verification/FieldIndex.thy ===== *)
theory FieldIndex
  imports Query RidSets
begin

text \<open>
  The field index of src/src/store.js, \<open>FieldIndex\<close>: for one path, the rows by indexed value (\<open>lookup\<close>), the rows by whole
  value in sort order (\<open>ordered\<close>, with a cache of the sorted keys), the value of each row (\<open>forward\<close>), and the rows
  whose value makes \<open>$contains\<close> unanswerable from \<open>lookup\<close>; then which constraints an index can answer
  (\<open>indexableConstraintValues\<close> and its helpers). A \<open>Set\<close> of rows is a list without repetitions.

  The invariant \<open>fi_ok\<close> says that every part is determined by \<open>forward\<close>.
\<close>

subsection \<open>Keys\<close>

definition isScalarIndexValue :: "jsv \<Rightarrow> bool" where
  "isScalarIndexValue v = (case v of JStr s \<Rightarrow> True | JNum n \<Rightarrow> True | JBool b \<Rightarrow> True | _ \<Rightarrow> False)"

fun indexedStoredValues :: "jsv \<Rightarrow> jsv list" where
  "indexedStoredValues (JArr xs) = concat (map indexedStoredValues xs)"
| "indexedStoredValues v = (if isScalarIndexValue v then [v] else [])"

definition indexValueKey :: "host \<Rightarrow> jsv \<Rightarrow> string" where
  "indexValueKey h v = js_typeof v @ '':'' @ shown (json_stringify h v)"

definition orderedValueKey :: "host \<Rightarrow> jsv \<Rightarrow> string" where
  "orderedValueKey h v = js_typeof v @ '':'' @ shown (stableKey h v)"

definition uniqueIndexValues :: "host \<Rightarrow> jsv list \<Rightarrow> jsv list" where
  "uniqueIndexValues h vs = jm_vals (foldl (\<lambda>m v. jm_set (indexValueKey h v) v m) [] vs)"

subsection \<open>Which constraints an index answers\<close>

definition indexableEqualityValue :: "jsv \<Rightarrow> jsv list option" where
  "indexableEqualityValue v = (if isScalarIndexValue v then Some [v] else None)"

definition indexableValueList :: "jsv list \<Rightarrow> jsv list option" where
  "indexableValueList vs =
     foldr (\<lambda>v acc. case (indexableEqualityValue v, acc) of (Some xs, Some ys) \<Rightarrow> Some (xs @ ys) | _ \<Rightarrow> None) vs (Some [])"

definition array_at :: "jobj \<Rightarrow> string \<Rightarrow> jsv list option" where
  "array_at kvs k = (case map_of kvs k of Some (JArr vs) \<Rightarrow> Some vs | _ \<Rightarrow> None)"

lemma array_at_size [termination_simp]:
  assumes "array_at kvs k = Some vs"
  shows "size_list size vs < size_list (size_prod (\<lambda>x. 0) size) kvs"
proof -
  have "map_of kvs k = Some (JArr vs)" using assms by (auto simp: array_at_def split: option.splits jsv.splits)
  then have "(k, JArr vs) \<in> set kvs" by (rule map_of_SomeD)
  then show ?thesis by (induction kvs) auto
qed

text \<open>\<open>$eq\<close>, \<open>$equal\<close>, \<open>$in\<close>, \<open>$or\<close> and \<open>$any\<close>, the first that is there; \<open>indexableDisjunctionValues\<close> is the second function.\<close>

function (sequential) indexableConstraintValues :: "jsv \<Rightarrow> jsv list option"
  and indexableDisjunctionValues :: "jsv list \<Rightarrow> jsv list option" where
  "indexableConstraintValues (JObj kvs) =
     (case map_of kvs ''$eq'' of
        Some v \<Rightarrow> indexableEqualityValue v
      | None \<Rightarrow>
     (case map_of kvs ''$equal'' of
        Some v \<Rightarrow> indexableEqualityValue v
      | None \<Rightarrow>
     (case array_at kvs ''$in'' of
        Some vs \<Rightarrow> indexableValueList vs
      | None \<Rightarrow>
     (case array_at kvs ''$or'' of
        Some cs \<Rightarrow> indexableDisjunctionValues cs
      | None \<Rightarrow>
     (case array_at kvs ''$any'' of
        Some cs \<Rightarrow> indexableDisjunctionValues cs
      | None \<Rightarrow> None)))))"
| "indexableConstraintValues (JArr vs) = indexableValueList vs"
| "indexableConstraintValues v = indexableEqualityValue v"
| "indexableDisjunctionValues [] = Some []"
| "indexableDisjunctionValues (c # cs) =
     (case indexableConstraintValues c of
        None \<Rightarrow> None
      | Some vs \<Rightarrow> (case indexableDisjunctionValues cs of None \<Rightarrow> None | Some ws \<Rightarrow> Some (vs @ ws)))"
  by pat_completeness auto
termination
  by (relation "measure (\<lambda>x. case x of Inl v \<Rightarrow> size v | Inr vs \<Rightarrow> Suc (size_list size vs))")
    (auto dest!: array_at_size)

definition indexableContainsValue :: "jsv \<Rightarrow> jsv option" where
  "indexableContainsValue c =
     (case c of
        JObj [(k, v)] \<Rightarrow> if k = ''$contains'' \<and> isScalarIndexValue v then Some v else None
      | _ \<Rightarrow> None)"

subsection \<open>The index\<close>

record obucket =
  ob_value :: jsv
  ob_ids :: "nat list"

record findex =
  fi_path :: string
  fi_lookup :: "(string, nat) bag"
  fi_ordered :: "(string, obucket) jmap"
  fi_forward :: "(nat, jsv) jmap"
  fi_containsString :: "nat list"
  fi_containsScalar :: "nat list"
  fi_containsNested :: "nat list"
  fi_sortedKeys :: "string list option"

definition newFieldIndex :: "string \<Rightarrow> findex" where
  "newFieldIndex path =
     \<lparr>fi_path = path, fi_lookup = [], fi_ordered = [], fi_forward = [], fi_containsString = [],
      fi_containsScalar = [], fi_containsNested = [], fi_sortedKeys = None\<rparr>"

definition lookupEntries :: "findex \<Rightarrow> nat" where
  "lookupEntries fi = foldl (\<lambda>total ids. total + length ids) 0 (jm_vals (fi_lookup fi))"

definition orderedEntries :: "findex \<Rightarrow> nat" where
  "orderedEntries fi = foldl (\<lambda>total b. total + length (ob_ids b)) 0 (jm_vals (fi_ordered fi))"

definition addOrdered :: "host \<Rightarrow> nat \<Rightarrow> jsv \<Rightarrow> findex \<Rightarrow> findex" where
  "addOrdered h rid v fi =
     (let key = orderedValueKey h v in
      case jm_get (fi_ordered fi) key of
        None \<Rightarrow> fi\<lparr>fi_ordered := jm_set key \<lparr>ob_value = v, ob_ids = [rid]\<rparr> (fi_ordered fi), fi_sortedKeys := None\<rparr>
      | Some b \<Rightarrow> fi\<lparr>fi_ordered := jm_set key (b\<lparr>ob_ids := js_add rid (ob_ids b)\<rparr>) (fi_ordered fi)\<rparr>)"

definition removeOrdered :: "host \<Rightarrow> nat \<Rightarrow> jsv \<Rightarrow> findex \<Rightarrow> findex" where
  "removeOrdered h rid v fi =
     (let key = orderedValueKey h v in
      case jm_get (fi_ordered fi) key of
        None \<Rightarrow> fi
      | Some b \<Rightarrow>
          if js_del rid (ob_ids b) = []
          then fi\<lparr>fi_ordered := jm_del key (fi_ordered fi), fi_sortedKeys := None\<rparr>
          else fi\<lparr>fi_ordered := jm_set key (b\<lparr>ob_ids := js_del rid (ob_ids b)\<rparr>) (fi_ordered fi)\<rparr>)"

definition has_nested_array :: "jsv \<Rightarrow> bool" where
  "has_nested_array v = (case v of JArr xs \<Rightarrow> list_ex is_arr xs | _ \<Rightarrow> False)"

definition is_plain_scalar :: "jsv \<Rightarrow> bool" where
  "is_plain_scalar v = (case v of JNum n \<Rightarrow> True | JBool b \<Rightarrow> True | _ \<Rightarrow> False)"

definition addContainsState :: "nat \<Rightarrow> jsv \<Rightarrow> findex \<Rightarrow> findex" where
  "addContainsState rid v fi =
     (if is_str v then fi\<lparr>fi_containsString := js_add rid (fi_containsString fi)\<rparr>
      else if is_plain_scalar v then fi\<lparr>fi_containsScalar := js_add rid (fi_containsScalar fi)\<rparr>
      else if has_nested_array v then fi\<lparr>fi_containsNested := js_add rid (fi_containsNested fi)\<rparr>
      else fi)"

definition removeContainsState :: "nat \<Rightarrow> jsv \<Rightarrow> findex \<Rightarrow> findex" where
  "removeContainsState rid v fi =
     (if is_str v then fi\<lparr>fi_containsString := js_del rid (fi_containsString fi)\<rparr>
      else if is_plain_scalar v then fi\<lparr>fi_containsScalar := js_del rid (fi_containsScalar fi)\<rparr>
      else if has_nested_array v then fi\<lparr>fi_containsNested := js_del rid (fi_containsNested fi)\<rparr>
      else fi)"

definition addValue :: "host \<Rightarrow> nat \<Rightarrow> jsv \<Rightarrow> findex \<Rightarrow> findex" where
  "addValue h rid v fi =
     (let fi1 = fi\<lparr>fi_forward := jm_set rid v (fi_forward fi),
                   fi_lookup := bag_add_all (map (indexValueKey h) (indexedStoredValues v)) rid (fi_lookup fi)\<rparr>
      in addContainsState rid v (addOrdered h rid v fi1))"

definition removeValue :: "host \<Rightarrow> nat \<Rightarrow> jsv \<Rightarrow> findex \<Rightarrow> findex" where
  "removeValue h rid v fi =
     (let fi1 = fi\<lparr>fi_forward := jm_del rid (fi_forward fi),
                   fi_lookup := bag_del_all (map (indexValueKey h) (indexedStoredValues v)) rid (fi_lookup fi)\<rparr>
      in removeContainsState rid v (removeOrdered h rid v fi1))"

definition removeRid :: "host \<Rightarrow> nat \<Rightarrow> findex \<Rightarrow> findex" where
  "removeRid h rid fi = (case jm_get (fi_forward fi) rid of None \<Rightarrow> fi | Some v \<Rightarrow> removeValue h rid v fi)"

subsection \<open>Reading the index\<close>

definition idsForValues :: "host \<Rightarrow> findex \<Rightarrow> jsv list \<Rightarrow> nat list" where
  "idsForValues h fi vs =
     (case uniqueIndexValues h vs of
        [v] \<Rightarrow> bag_get (fi_lookup fi) (indexValueKey h v)
      | us \<Rightarrow> foldl (\<lambda>ids v. setUnion ids (bag_get (fi_lookup fi) (indexValueKey h v))) [] us)"

definition idsForContains :: "host \<Rightarrow> findex \<Rightarrow> jsv \<Rightarrow> nat list option" where
  "idsForContains h fi v =
     (if \<not> isScalarIndexValue v then None
      else if fi_containsString fi \<noteq> [] \<or> fi_containsScalar fi \<noteq> [] \<or> fi_containsNested fi \<noteq> [] then None
      else Some (bag_get (fi_lookup fi) (indexValueKey h v)))"

definition valueForRid :: "findex \<Rightarrow> nat \<Rightarrow> jsv" where
  "valueForRid fi rid = (case jm_get (fi_forward fi) rid of None \<Rightarrow> JUndef | Some v \<Rightarrow> v)"

definition iterateGroups :: "findex \<Rightarrow> nat list option \<Rightarrow> (jsv \<times> nat list) list" where
  "iterateGroups fi filterIds =
     filter (\<lambda>(v, ids). ids \<noteq> [])
       (map (\<lambda>b. (ob_value b, case filterIds of None \<Rightarrow> ob_ids b | Some f \<Rightarrow> setIntersection f (ob_ids b)))
          (jm_vals (fi_ordered fi)))"

definition iterateGroupCounts :: "findex \<Rightarrow> nat list option \<Rightarrow> nat list option \<Rightarrow> (jsv \<times> nat) list" where
  "iterateGroupCounts fi filterIds scopeIds =
     filter (\<lambda>(v, count). 0 < count)
       (map (\<lambda>b. (ob_value b, countIntersectingSets [Some (ob_ids b), filterIds, scopeIds])) (jm_vals (fi_ordered fi)))"

definition compare_ordered :: "host \<Rightarrow> string \<times> obucket \<Rightarrow> string \<times> obucket \<Rightarrow> int" where
  "compare_ordered h left right =
     (let compared = compareSortValues h (ob_value (snd left)) (ob_value (snd right))
      in if compared \<noteq> 0 then compared else localeCompare h (fst left) (fst right))"

definition sortedOrderedKeys :: "host \<Rightarrow> findex \<Rightarrow> string list \<times> findex" where
  "sortedOrderedKeys h fi =
     (case fi_sortedKeys fi of
        Some keys \<Rightarrow> (keys, fi)
      | None \<Rightarrow> let keys = map fst (js_sort (compare_ordered h) (fi_ordered fi)) in (keys, fi\<lparr>fi_sortedKeys := Some keys\<rparr>))"

definition orderedIds :: "host \<Rightarrow> bool \<Rightarrow> findex \<Rightarrow> nat list \<times> findex" where
  "orderedIds h desc fi =
     (case sortedOrderedKeys h fi of
        (keys, fi1) \<Rightarrow>
          (concat (map (\<lambda>key. case jm_get (fi_ordered fi1) key of None \<Rightarrow> [] | Some b \<Rightarrow> ob_ids b)
                     (if desc then rev keys else keys)), fi1))"

text \<open>The loop of \<open>find\<close>: \<open>limit\<close> is \<open>None\<close> for \<open>Infinity\<close>.\<close>

fun find_loop :: "(nat \<Rightarrow> bool) \<Rightarrow> (nat \<Rightarrow> 'r option) \<Rightarrow> ('r \<Rightarrow> bool) \<Rightarrow> nat \<Rightarrow> nat option \<Rightarrow> nat list \<Rightarrow> nat \<Rightarrow> 'r list \<Rightarrow> 'r list" where
  "find_loop wanted read matches offset limit [] skipped results = results"
| "find_loop wanted read matches offset limit (rid # rids) skipped results =
     (if \<not> wanted rid then find_loop wanted read matches offset limit rids skipped results
      else (case read rid of
              None \<Rightarrow> find_loop wanted read matches offset limit rids skipped results
            | Some object \<Rightarrow>
                if \<not> matches object then find_loop wanted read matches offset limit rids skipped results
                else if skipped < offset then find_loop wanted read matches offset limit rids (skipped + 1) results
                else let out = results @ [object] in
                     if (case limit of None \<Rightarrow> False | Some l \<Rightarrow> l \<le> length out) then out
                     else find_loop wanted read matches offset limit rids skipped out))"

definition index_find :: "host \<Rightarrow> findex \<Rightarrow> nat list option \<Rightarrow> (nat \<Rightarrow> bool) option \<Rightarrow> bool \<Rightarrow> nat \<Rightarrow> nat option \<Rightarrow>
    (nat \<Rightarrow> 'r option) \<Rightarrow> ('r \<Rightarrow> bool) \<Rightarrow> 'r list \<times> findex" where
  "index_find h fi candidateIds includeRid desc offset limit read matches =
     (if limit = Some 0 then ([], fi)
      else (case orderedIds h desc fi of
              (rids, fi1) \<Rightarrow>
                (find_loop (\<lambda>rid. (case candidateIds of None \<Rightarrow> True | Some c \<Rightarrow> rid \<in> set c) \<and>
                                  (case includeRid of None \<Rightarrow> True | Some p \<Rightarrow> p rid))
                   read matches offset limit rids 0 [], fi1)))"

subsection \<open>The invariant\<close>

definition ordered_bag :: "(string, obucket) jmap \<Rightarrow> (string, nat) bag" where
  "ordered_bag m = map (\<lambda>(k, b). (k, ob_ids b)) m"

definition rows_with :: "(nat, jsv) jmap \<Rightarrow> (jsv \<Rightarrow> bool) \<Rightarrow> nat set" where
  "rows_with fw P = {rid. \<exists>v. jm_get fw rid = Some v \<and> P v}"

text \<open>Every part of the index is what \<open>forward\<close> says.\<close>

definition lookup_ok :: "host \<Rightarrow> findex \<Rightarrow> bool" where
  "lookup_ok h fi \<longleftrightarrow> bag_ok (fi_lookup fi) \<and>
     (\<forall>key. set (bag_get (fi_lookup fi) key) =
        rows_with (fi_forward fi) (\<lambda>v. key \<in> indexValueKey h ` set (indexedStoredValues v)))"

definition ordered_ok :: "host \<Rightarrow> findex \<Rightarrow> bool" where
  "ordered_ok h fi \<longleftrightarrow> bag_ok (ordered_bag (fi_ordered fi)) \<and>
     (\<forall>key. set (bag_get (ordered_bag (fi_ordered fi)) key) = rows_with (fi_forward fi) (\<lambda>v. orderedValueKey h v = key)) \<and>
     (\<forall>key b. jm_get (fi_ordered fi) key = Some b \<longrightarrow> orderedValueKey h (ob_value b) = key)"

definition contains_ok :: "findex \<Rightarrow> bool" where
  "contains_ok fi \<longleftrightarrow>
     set (fi_containsString fi) = rows_with (fi_forward fi) is_str \<and>
     set (fi_containsScalar fi) = rows_with (fi_forward fi) is_plain_scalar \<and>
     set (fi_containsNested fi) = rows_with (fi_forward fi) has_nested_array"

definition sorted_ok :: "host \<Rightarrow> findex \<Rightarrow> bool" where
  "sorted_ok h fi \<longleftrightarrow>
     (\<forall>keys. fi_sortedKeys fi = Some keys \<longrightarrow> keys = map fst (js_sort (compare_ordered h) (fi_ordered fi)))"

definition fi_ok :: "host \<Rightarrow> findex \<Rightarrow> bool" where
  "fi_ok h fi \<longleftrightarrow> jm_ok (fi_forward fi) \<and> lookup_ok h fi \<and> ordered_ok h fi \<and> contains_ok fi \<and> sorted_ok h fi"

lemma rows_with_set:
  "rows_with (jm_set rid v fw) P = (if P v then insert rid (rows_with fw P) else rows_with fw P - {rid})"
  by (auto simp: rows_with_def)

lemma rows_with_del: "rows_with (jm_del rid fw) P = rows_with fw P - {rid}"
  by (auto simp: rows_with_def)

lemma rows_without: "jm_get fw rid = None \<Longrightarrow> rid \<notin> rows_with fw P"
  by (auto simp: rows_with_def)

lemma rows_with_mem: "jm_get fw rid = Some v \<Longrightarrow> rid \<in> rows_with fw P \<longleftrightarrow> P v"
  by (auto simp: rows_with_def)

lemma ordered_bag_get: "bag_get (ordered_bag m) k = (case jm_get m k of None \<Rightarrow> [] | Some b \<Rightarrow> ob_ids b)"
proof -
  have "jm_get (ordered_bag m) k = map_option ob_ids (jm_get m k)"
    unfolding ordered_bag_def by (induction m) auto
  then show ?thesis by (simp add: bag_get_def split: option.split)
qed

lemma ordered_bag_set: "ordered_bag (jm_set k b m) = jm_set k (ob_ids b) (ordered_bag m)"
  unfolding ordered_bag_def by (induction m) auto

lemma ordered_bag_del: "ordered_bag (jm_del k m) = jm_del k (ordered_bag m)"
  unfolding ordered_bag_def by (induction m) (auto simp: delete_simps)

lemma ordered_bag_None: "jm_get (ordered_bag m) k = map_option ob_ids (jm_get m k)"
  unfolding ordered_bag_def by (induction m) auto

text \<open>The sort looks at the keys and the values only.\<close>

definition ordered_view :: "(string, obucket) jmap \<Rightarrow> (string, jsv) jmap" where
  "ordered_view m = map (\<lambda>(k, b). (k, ob_value b)) m"

definition sort_of_view :: "host \<Rightarrow> (string, jsv) jmap \<Rightarrow> string list" where
  "sort_of_view h m =
     map fst (js_sort (\<lambda>l r. let compared = compareSortValues h (snd l) (snd r)
                             in if compared \<noteq> 0 then compared else localeCompare h (fst l) (fst r)) m)"

lemma js_insert_map: "(\<And>a b. cmp' (f a) (f b) = cmp a b) \<Longrightarrow> js_insert cmp' (f x) (map f xs) = map f (js_insert cmp x xs)"
  by (induction xs) auto

lemma js_sort_map: "(\<And>a b. cmp' (f a) (f b) = cmp a b) \<Longrightarrow> js_sort cmp' (map f xs) = map f (js_sort cmp xs)"
  by (induction xs) (auto simp: js_insert_map)

lemma sorted_keys_view: "map fst (js_sort (compare_ordered h) m) = sort_of_view h (ordered_view m)"
proof -
  have "js_sort (\<lambda>l r. let compared = compareSortValues h (snd l) (snd r)
          in if compared \<noteq> 0 then compared else localeCompare h (fst l) (fst r)) (ordered_view m) =
      map (\<lambda>(k, b). (k, ob_value b)) (js_sort (compare_ordered h) m)"
    unfolding ordered_view_def by (rule js_sort_map) (auto simp: compare_ordered_def Let_def)
  then show ?thesis by (simp add: sort_of_view_def comp_def case_prod_beta)
qed

lemma jm_set_same: "jm_get m k = Some v \<Longrightarrow> jm_set k v m = m"
  by (induction m) auto

lemma ordered_view_set: "ordered_view (jm_set k b m) = jm_set k (ob_value b) (ordered_view m)"
  unfolding ordered_view_def by (induction m) auto

lemma ordered_view_get: "jm_get (ordered_view m) k = map_option ob_value (jm_get m k)"
  unfolding ordered_view_def by (induction m) auto

lemma ordered_view_ids: "jm_get m k = Some b \<Longrightarrow> ordered_view (jm_set k (b\<lparr>ob_ids := ids\<rparr>) m) = ordered_view m"
  by (simp add: ordered_view_set jm_set_same ordered_view_get)

lemma sorted_ok_view: "sorted_ok h fi \<longleftrightarrow> (\<forall>keys. fi_sortedKeys fi = Some keys \<longrightarrow> keys = sort_of_view h (ordered_view (fi_ordered fi)))"
  by (simp add: sorted_ok_def sorted_keys_view)

subsection \<open>Adding and removing a value\<close>

lemma addOrdered_ok:
  assumes "ordered_ok h fi" and "sorted_ok h fi"
    and "fw = jm_set rid v (fi_forward fi)" and "jm_get (fi_forward fi) rid = None"
  shows "ordered_ok h (addOrdered h rid v (fi\<lparr>fi_forward := fw, fi_lookup := lk\<rparr>)) \<and>
    sorted_ok h (addOrdered h rid v (fi\<lparr>fi_forward := fw, fi_lookup := lk\<rparr>))"
proof -
  let ?key = "orderedValueKey h v"
  define fi' where "fi' = addOrdered h rid v (fi\<lparr>fi_forward := fw, fi_lookup := lk\<rparr>)"
  have bag: "ordered_bag (fi_ordered fi') = bag_add ?key rid (ordered_bag (fi_ordered fi))"
    by (cases "jm_get (fi_ordered fi) ?key")
      (simp_all add: fi'_def addOrdered_def Let_def ordered_bag_set bag_add_def ordered_bag_get js_add_def)
  have fwd: "fi_forward fi' = fw"
    by (simp add: fi'_def addOrdered_def Let_def split: option.split)
  have val: "orderedValueKey h (ob_value b) = key" if "jm_get (fi_ordered fi') key = Some b" for key b
    using that assms(1)
    by (cases "jm_get (fi_ordered fi) ?key")
      (auto simp: fi'_def addOrdered_def Let_def ordered_ok_def split: if_splits)
  have "ordered_ok h fi'"
  proof -
    have "set (bag_get (ordered_bag (fi_ordered fi')) key) = rows_with fw (\<lambda>v. orderedValueKey h v = key)" for key
    proof -
      have old: "set (bag_get (ordered_bag (fi_ordered fi)) k) = rows_with (fi_forward fi) (\<lambda>v. orderedValueKey h v = k)" for k
        using assms(1) by (simp add: ordered_ok_def)
      show ?thesis
        using rows_without [OF assms(4), of "\<lambda>v. orderedValueKey h v = key"]
        by (simp only: bag bag_add_get old assms(3) rows_with_set) auto
    qed
    moreover have "bag_ok (ordered_bag (fi_ordered fi'))" using assms(1) by (simp add: bag ordered_ok_def)
    ultimately show ?thesis using val by (simp add: ordered_ok_def fwd)
  qed
  moreover have "sorted_ok h fi'"
    using assms(2)
    by (cases "jm_get (fi_ordered fi) ?key")
      (simp_all add: sorted_ok_view fi'_def addOrdered_def Let_def ordered_view_ids)
  ultimately show ?thesis by (simp add: fi'_def)
qed

lemma removeOrdered_ok:
  assumes "ordered_ok h fi" and "sorted_ok h fi" and "jm_get (fi_forward fi) rid = Some v"
    and "fw = jm_del rid (fi_forward fi)"
  shows "ordered_ok h (removeOrdered h rid v (fi\<lparr>fi_forward := fw, fi_lookup := lk\<rparr>)) \<and>
    sorted_ok h (removeOrdered h rid v (fi\<lparr>fi_forward := fw, fi_lookup := lk\<rparr>))"
proof -
  let ?key = "orderedValueKey h v"
  define fi' where "fi' = removeOrdered h rid v (fi\<lparr>fi_forward := fw, fi_lookup := lk\<rparr>)"
  have bag: "ordered_bag (fi_ordered fi') = bag_del ?key rid (ordered_bag (fi_ordered fi))"
    by (cases "jm_get (fi_ordered fi) ?key")
      (simp_all add: fi'_def removeOrdered_def Let_def ordered_bag_set ordered_bag_del bag_del_def ordered_bag_None)
  have fwd: "fi_forward fi' = fw"
    by (simp add: fi'_def removeOrdered_def Let_def split: option.split)
  have val: "orderedValueKey h (ob_value b) = key" if "jm_get (fi_ordered fi') key = Some b" for key b
    using that assms(1)
    by (cases "jm_get (fi_ordered fi) ?key")
      (auto simp: fi'_def removeOrdered_def Let_def ordered_ok_def split: if_splits)
  have "ordered_ok h fi'"
  proof -
    have "set (bag_get (ordered_bag (fi_ordered fi')) key) = rows_with fw (\<lambda>v. orderedValueKey h v = key)" for key
    proof -
      have old: "set (bag_get (ordered_bag (fi_ordered fi)) k) = rows_with (fi_forward fi) (\<lambda>v. orderedValueKey h v = k)" for k
        using assms(1) by (simp add: ordered_ok_def)
      show ?thesis
        using rows_with_mem [OF assms(3), of "\<lambda>v. orderedValueKey h v = key"]
        by (simp only: bag bag_del_get old assms(4) rows_with_del) auto
    qed
    moreover have "bag_ok (ordered_bag (fi_ordered fi'))" using assms(1) by (simp add: bag ordered_ok_def)
    ultimately show ?thesis using val by (simp add: ordered_ok_def fwd)
  qed
  moreover have "sorted_ok h fi'"
    using assms(2)
    by (cases "jm_get (fi_ordered fi) ?key")
      (simp_all add: sorted_ok_view fi'_def removeOrdered_def Let_def ordered_view_ids)
  ultimately show ?thesis by (simp add: fi'_def)
qed

lemma contains_kinds:
  "\<not> (is_str v \<and> is_plain_scalar v)" "\<not> (is_str v \<and> has_nested_array v)" "\<not> (is_plain_scalar v \<and> has_nested_array v)"
  by (cases v; simp add: is_plain_scalar_def has_nested_array_def)+

lemma contains_keeps:
  "ordered_ok h (addContainsState rid v fi) = ordered_ok h fi" "sorted_ok h (addContainsState rid v fi) = sorted_ok h fi"
  "lookup_ok h (addContainsState rid v fi) = lookup_ok h fi" "fi_forward (addContainsState rid v fi) = fi_forward fi"
  "ordered_ok h (removeContainsState rid v fi) = ordered_ok h fi" "sorted_ok h (removeContainsState rid v fi) = sorted_ok h fi"
  "lookup_ok h (removeContainsState rid v fi) = lookup_ok h fi" "fi_forward (removeContainsState rid v fi) = fi_forward fi"
  by (simp_all add: addContainsState_def removeContainsState_def ordered_ok_def sorted_ok_def lookup_ok_def)

lemma ordered_keeps:
  "lookup_ok h (addOrdered h' rid v fi) = lookup_ok h fi" "fi_forward (addOrdered h' rid v fi) = fi_forward fi"
  "lookup_ok h (removeOrdered h' rid v fi) = lookup_ok h fi" "fi_forward (removeOrdered h' rid v fi) = fi_forward fi"
  "fi_containsString (addOrdered h' rid v fi) = fi_containsString fi" "fi_containsScalar (addOrdered h' rid v fi) = fi_containsScalar fi"
  "fi_containsNested (addOrdered h' rid v fi) = fi_containsNested fi"
  "fi_containsString (removeOrdered h' rid v fi) = fi_containsString fi" "fi_containsScalar (removeOrdered h' rid v fi) = fi_containsScalar fi"
  "fi_containsNested (removeOrdered h' rid v fi) = fi_containsNested fi"
  by (simp_all add: addOrdered_def removeOrdered_def Let_def lookup_ok_def split: option.split)

lemma addValue_ok:
  assumes "fi_ok h fi" and "jm_get (fi_forward fi) rid = None"
  shows "fi_ok h (addValue h rid v fi) \<and> fi_forward (addValue h rid v fi) = jm_set rid v (fi_forward fi)"
proof -
  define fw where "fw = jm_set rid v (fi_forward fi)"
  define lk where "lk = bag_add_all (map (indexValueKey h) (indexedStoredValues v)) rid (fi_lookup fi)"
  define fi1 where "fi1 = fi\<lparr>fi_forward := fw, fi_lookup := lk\<rparr>"
  define fi2 where "fi2 = addOrdered h rid v fi1"
  have r: "addValue h rid v fi = addContainsState rid v fi2"
    by (simp add: addValue_def fi2_def fi1_def fw_def lk_def)
  have ok: "lookup_ok h fi" "ordered_ok h fi" "contains_ok fi" "sorted_ok h fi" "jm_ok (fi_forward fi)"
    using assms(1) by (auto simp: fi_ok_def)
  have o: "ordered_ok h fi2" "sorted_ok h fi2"
    using addOrdered_ok [OF ok(2,4) fw_def assms(2), of lk] by (auto simp: fi2_def fi1_def)
  have "lookup_ok h fi1"
  proof -
    have "set (bag_get lk key) = rows_with fw (\<lambda>v. key \<in> indexValueKey h ` set (indexedStoredValues v))" for key
    proof -
      have old: "set (bag_get (fi_lookup fi) key) = rows_with (fi_forward fi) (\<lambda>v. key \<in> indexValueKey h ` set (indexedStoredValues v))"
        using ok(1) by (simp add: lookup_ok_def)
      show ?thesis
        using rows_without [OF assms(2), of "\<lambda>v. key \<in> indexValueKey h ` set (indexedStoredValues v)"]
        by (simp only: lk_def bag_add_all_get old fw_def rows_with_set set_map) auto
    qed
    moreover have "bag_ok lk" using ok(1) by (simp add: lk_def lookup_ok_def)
    ultimately show ?thesis by (simp add: lookup_ok_def fi1_def)
  qed
  then have l: "lookup_ok h fi2" by (simp add: fi2_def ordered_keeps)
  have f2: "fi_forward fi2 = fw" by (simp add: fi2_def ordered_keeps fi1_def)
  have c: "contains_ok (addContainsState rid v fi2)"
  proof -
    have cs: "set (fi_containsString fi2) = rows_with (fi_forward fi) is_str"
      "set (fi_containsScalar fi2) = rows_with (fi_forward fi) is_plain_scalar"
      "set (fi_containsNested fi2) = rows_with (fi_forward fi) has_nested_array"
      using ok(3) by (simp_all add: contains_ok_def fi2_def ordered_keeps fi1_def)
    have n: "rid \<notin> rows_with (fi_forward fi) P" for P using rows_without [OF assms(2)] .
    show ?thesis
      using contains_kinds [of v] n
      by (simp add: contains_ok_def addContainsState_def f2 cs fw_def rows_with_set)
  qed
  have "jm_ok (fi_forward (addContainsState rid v fi2))" using ok(5) by (simp add: contains_keeps f2 fw_def)
  then show ?thesis using o l c by (simp add: r fi_ok_def contains_keeps f2) (simp add: fw_def)
qed

lemma removeValue_ok:
  assumes "fi_ok h fi" and "jm_get (fi_forward fi) rid = Some v"
  shows "fi_ok h (removeValue h rid v fi) \<and> fi_forward (removeValue h rid v fi) = jm_del rid (fi_forward fi)"
proof -
  define fw where "fw = jm_del rid (fi_forward fi)"
  define lk where "lk = bag_del_all (map (indexValueKey h) (indexedStoredValues v)) rid (fi_lookup fi)"
  define fi1 where "fi1 = fi\<lparr>fi_forward := fw, fi_lookup := lk\<rparr>"
  define fi2 where "fi2 = removeOrdered h rid v fi1"
  have r: "removeValue h rid v fi = removeContainsState rid v fi2"
    by (simp add: removeValue_def fi2_def fi1_def fw_def lk_def)
  have ok: "lookup_ok h fi" "ordered_ok h fi" "contains_ok fi" "sorted_ok h fi" "jm_ok (fi_forward fi)"
    using assms(1) by (auto simp: fi_ok_def)
  have o: "ordered_ok h fi2" "sorted_ok h fi2"
    using removeOrdered_ok [OF ok(2,4) assms(2) fw_def, of lk] by (auto simp: fi2_def fi1_def)
  have "lookup_ok h fi1"
  proof -
    have "set (bag_get lk key) = rows_with fw (\<lambda>v. key \<in> indexValueKey h ` set (indexedStoredValues v))" for key
    proof -
      have old: "set (bag_get (fi_lookup fi) key) = rows_with (fi_forward fi) (\<lambda>v. key \<in> indexValueKey h ` set (indexedStoredValues v))"
        using ok(1) by (simp add: lookup_ok_def)
      show ?thesis
        using rows_with_mem [OF assms(2), of "\<lambda>v. key \<in> indexValueKey h ` set (indexedStoredValues v)"]
        by (simp only: lk_def bag_del_all_get old fw_def rows_with_del set_map) auto
    qed
    moreover have "bag_ok lk" using ok(1) by (simp add: lk_def lookup_ok_def)
    ultimately show ?thesis by (simp add: lookup_ok_def fi1_def)
  qed
  then have l: "lookup_ok h fi2" by (simp add: fi2_def ordered_keeps)
  have f2: "fi_forward fi2 = fw" by (simp add: fi2_def ordered_keeps fi1_def)
  have c: "contains_ok (removeContainsState rid v fi2)"
  proof -
    have cs: "set (fi_containsString fi2) = rows_with (fi_forward fi) is_str"
      "set (fi_containsScalar fi2) = rows_with (fi_forward fi) is_plain_scalar"
      "set (fi_containsNested fi2) = rows_with (fi_forward fi) has_nested_array"
      using ok(3) by (simp_all add: contains_ok_def fi2_def ordered_keeps fi1_def)
    have n: "rid \<in> rows_with (fi_forward fi) P \<longleftrightarrow> P v" for P by (rule rows_with_mem [OF assms(2)])
    show ?thesis
      using contains_kinds [of v] n
      by (simp add: contains_ok_def removeContainsState_def f2 cs fw_def rows_with_del)
  qed
  have "jm_ok (fi_forward (removeContainsState rid v fi2))" using ok(5) by (simp add: contains_keeps f2 fw_def)
  then show ?thesis using o l c by (simp add: r fi_ok_def contains_keeps f2) (simp add: fw_def)
qed

subsection \<open>Runs\<close>

text \<open>What the collection does to an index: a row gets a value (after the old one is removed), or loses it.\<close>

datatype index_op = IPut nat jsv | IDrop nat

fun index_step :: "host \<Rightarrow> findex \<Rightarrow> index_op \<Rightarrow> findex" where
  "index_step h fi (IPut rid v) = addValue h rid v (removeRid h rid fi)"
| "index_step h fi (IDrop rid) = removeRid h rid fi"

fun index_spec :: "(nat \<Rightarrow> jsv option) \<Rightarrow> index_op \<Rightarrow> nat \<Rightarrow> jsv option" where
  "index_spec f (IPut rid v) = f(rid := Some v)"
| "index_spec f (IDrop rid) = f(rid := None)"

definition index_run :: "host \<Rightarrow> string \<Rightarrow> index_op list \<Rightarrow> findex" where
  "index_run h path ops = foldl (index_step h) (newFieldIndex path) ops"

definition indexed_values :: "index_op list \<Rightarrow> nat \<Rightarrow> jsv option" where
  "indexed_values ops = foldl index_spec (\<lambda>rid. None) ops"

lemma newFieldIndex_ok: "fi_ok h (newFieldIndex path)"
  by (simp add: fi_ok_def newFieldIndex_def lookup_ok_def ordered_ok_def contains_ok_def sorted_ok_def
      rows_with_def bag_get_def ordered_bag_def)

lemma removeRid_ok:
  assumes "fi_ok h fi"
  shows "fi_ok h (removeRid h rid fi) \<and> jm_get (fi_forward (removeRid h rid fi)) = (jm_get (fi_forward fi))(rid := None)"
proof (cases "jm_get (fi_forward fi) rid")
  case None
  with assms show ?thesis by (simp add: removeRid_def fun_upd_idem)
next
  case (Some v)
  with removeValue_ok [OF assms this] show ?thesis by (auto simp: removeRid_def)
qed

lemma index_run_ok:
  "fi_ok h (index_run h path ops) \<and> jm_get (fi_forward (index_run h path ops)) = indexed_values ops"
proof (induction ops rule: rev_induct)
  case Nil
  show ?case using newFieldIndex_ok by (simp add: index_run_def indexed_values_def) (simp add: newFieldIndex_def fun_eq_iff)
next
  case (snoc op ops)
  define fi where "fi = index_run h path ops"
  have ok: "fi_ok h fi" "jm_get (fi_forward fi) = indexed_values ops" using snoc by (auto simp: fi_def)
  have step: "index_run h path (ops @ [op]) = index_step h fi op" "indexed_values (ops @ [op]) = index_spec (indexed_values ops) op"
    by (simp_all add: index_run_def indexed_values_def fi_def)
  show ?case
  proof (cases op)
    case (IPut rid v)
    have r: "fi_ok h (removeRid h rid fi)" "jm_get (fi_forward (removeRid h rid fi)) rid = None"
      "jm_get (fi_forward (removeRid h rid fi)) = (indexed_values ops)(rid := None)"
      using removeRid_ok [OF ok(1), of rid] ok(2) by auto
    from addValue_ok [OF r(1,2), of v] r(3) show ?thesis unfolding step unfolding IPut by (simp add: fun_eq_iff)
  next
    case (IDrop rid)
    from removeRid_ok [OF ok(1), of rid] ok(2) show ?thesis unfolding step unfolding IDrop by simp
  qed
qed

lemma jm_set_mem: "p \<in> set (jm_set k v m) \<Longrightarrow> p = (k, v) \<or> p \<in> set m"
  by (induction m) (auto split: if_splits)

lemma keyed_fold:
  assumes "\<forall>p \<in> set m. key (snd p) = fst p"
  shows "(\<forall>p \<in> set (foldl (\<lambda>m v. jm_set (key v) v m) m vs). key (snd p) = fst p) \<and>
    set (jm_keys (foldl (\<lambda>m v. jm_set (key v) v m) m vs)) = set (jm_keys m) \<union> key ` set vs"
  using assms
proof (induction vs arbitrary: m)
  case (Cons v vs)
  have "\<forall>p \<in> set (jm_set (key v) v m). key (snd p) = fst p" using Cons.prems by (auto dest!: jm_set_mem)
  from Cons.IH [OF this] show ?case by (simp add: keys_set)
qed simp

lemma uniqueIndexValues_keys:
  "indexValueKey h ` set (uniqueIndexValues h vs) = indexValueKey h ` set vs"
proof -
  define m where "m = foldl (\<lambda>m v. jm_set (indexValueKey h v) v m) [] vs"
  have m: "\<forall>p \<in> set m. indexValueKey h (snd p) = fst p" "set (jm_keys m) = indexValueKey h ` set vs"
    using keyed_fold [of "[]" "indexValueKey h" vs] by (simp_all add: m_def)
  have "indexValueKey h ` set (jm_vals m) = set (jm_keys m)"
    using m(1) by (simp add: image_image)
  with m(2) show ?thesis by (simp add: uniqueIndexValues_def m_def)
qed

lemma idsForValues_set:
  assumes "lookup_ok h fi"
  shows "set (idsForValues h fi vs) =
    rows_with (fi_forward fi) (\<lambda>v. \<exists>w \<in> set (indexedStoredValues v). \<exists>u \<in> set vs. indexValueKey h w = indexValueKey h u)"
proof -
  have union: "set (foldl (\<lambda>ids v. setUnion ids (bag_get (fi_lookup fi) (indexValueKey h v))) ids us) =
      set ids \<union> (\<Union>u \<in> set us. set (bag_get (fi_lookup fi) (indexValueKey h u)))" for ids us
    by (induction us arbitrary: ids) auto
  have "set (idsForValues h fi vs) = (\<Union>u \<in> set (uniqueIndexValues h vs). set (bag_get (fi_lookup fi) (indexValueKey h u)))"
    using union [of "[]" "uniqueIndexValues h vs"] by (auto simp: idsForValues_def split: list.split)
  also have "\<dots> = (\<Union>k \<in> indexValueKey h ` set (uniqueIndexValues h vs). set (bag_get (fi_lookup fi) k))" by simp
  also have "\<dots> = (\<Union>k \<in> indexValueKey h ` set vs. set (bag_get (fi_lookup fi) k))"
    by (simp only: uniqueIndexValues_keys)
  also have "\<dots> = rows_with (fi_forward fi) (\<lambda>v. \<exists>w \<in> set (indexedStoredValues v). \<exists>u \<in> set vs. indexValueKey h w = indexValueKey h u)"
    (is "?l = rows_with ?fw ?P")
  proof (rule set_eqI)
    fix rid
    have "rid \<in> set (bag_get (fi_lookup fi) k) \<longleftrightarrow> (\<exists>v. jm_get ?fw rid = Some v \<and> k \<in> indexValueKey h ` set (indexedStoredValues v))" for k
      using assms by (simp add: lookup_ok_def rows_with_def)
    then have "rid \<in> ?l \<longleftrightarrow> (\<exists>u \<in> set vs. \<exists>v. jm_get ?fw rid = Some v \<and> indexValueKey h u \<in> indexValueKey h ` set (indexedStoredValues v))"
      by simp
    also have "\<dots> \<longleftrightarrow> rid \<in> rows_with ?fw ?P"
    proof (cases "jm_get ?fw rid")
      case (Some v)
      have "(\<exists>u \<in> set vs. indexValueKey h u \<in> indexValueKey h ` S) \<longleftrightarrow> (\<exists>w \<in> S. \<exists>u \<in> set vs. indexValueKey h w = indexValueKey h u)" for S
      proof
        assume "\<exists>u \<in> set vs. indexValueKey h u \<in> indexValueKey h ` S"
        then obtain u w where "u \<in> set vs" "w \<in> S" "indexValueKey h w = indexValueKey h u" by (metis imageE)
        then show "\<exists>w \<in> S. \<exists>u \<in> set vs. indexValueKey h w = indexValueKey h u" by blast
      next
        assume "\<exists>w \<in> S. \<exists>u \<in> set vs. indexValueKey h w = indexValueKey h u"
        then obtain u w where "u \<in> set vs" "w \<in> S" "indexValueKey h w = indexValueKey h u" by blast
        then show "\<exists>u \<in> set vs. indexValueKey h u \<in> indexValueKey h ` S" by (metis imageI)
      qed
      with Some show ?thesis by (simp add: rows_with_def)
    qed (simp add: rows_with_def)
    finally show "rid \<in> ?l \<longleftrightarrow> rid \<in> rows_with ?fw ?P" .
  qed
  finally show ?thesis .
qed

text \<open>C16: A field index answers exactly: after any run of changes the ids it returns for a list of values are those of the
rows whose present value is one of them, or is an array that holds one of them at any depth, values being told apart by type
and JSON text; a \<open>$contains\<close> it answers it answers the same way.\<close>

theorem index_lookup_exact:
  "set (idsForValues h (index_run h path ops) vs) =
     {rid. \<exists>v. indexed_values ops rid = Some v \<and>
        (\<exists>w \<in> set (indexedStoredValues v). \<exists>u \<in> set vs. indexValueKey h w = indexValueKey h u)} \<and>
   (idsForContains h (index_run h path ops) u = Some ids \<longrightarrow>
      set ids = {rid. \<exists>v. indexed_values ops rid = Some v \<and> (\<exists>w \<in> set (indexedStoredValues v). indexValueKey h w = indexValueKey h u)} \<and>
      (\<forall>rid v. indexed_values ops rid = Some v \<longrightarrow> \<not> isScalarIndexValue v))"
proof -
  have ok: "fi_ok h (index_run h path ops)" "jm_get (fi_forward (index_run h path ops)) = indexed_values ops"
    using index_run_ok by blast+
  have l: "lookup_ok h (index_run h path ops)" "contains_ok (index_run h path ops)" using ok(1) by (simp_all add: fi_ok_def)
  have fw: "rows_with (fi_forward (index_run h path ops)) P = {rid. \<exists>v. indexed_values ops rid = Some v \<and> P v}" for P
    using ok(2) by (simp add: rows_with_def)
  have "set ids = {rid. \<exists>v. indexed_values ops rid = Some v \<and> (\<exists>w \<in> set (indexedStoredValues v). indexValueKey h w = indexValueKey h u)} \<and>
      (\<forall>rid v. indexed_values ops rid = Some v \<longrightarrow> \<not> isScalarIndexValue v)"
    if some: "idsForContains h (index_run h path ops) u = Some ids"
  proof -
    have c: "ids = bag_get (fi_lookup (index_run h path ops)) (indexValueKey h u)"
      "fi_containsString (index_run h path ops) = []" "fi_containsScalar (index_run h path ops) = []"
      using some by (auto simp: idsForContains_def split: if_splits)
    have "set ids = rows_with (fi_forward (index_run h path ops))
        (\<lambda>v. indexValueKey h u \<in> indexValueKey h ` set (indexedStoredValues v))"
      using l(1) by (simp only: c(1) lookup_ok_def)
    then have "set ids = {rid. \<exists>v. indexed_values ops rid = Some v \<and> (\<exists>w \<in> set (indexedStoredValues v). indexValueKey h w = indexValueKey h u)}"
      unfolding fw image_iff by (simp add: eq_commute)
    moreover have "rows_with (fi_forward (index_run h path ops)) is_str = {}" "rows_with (fi_forward (index_run h path ops)) is_plain_scalar = {}"
      using l(2) c(2,3) by (simp_all add: contains_ok_def)
    then have none: "\<not> is_str v \<and> \<not> is_plain_scalar v" if "indexed_values ops rid = Some v" for rid v
      using that unfolding fw by blast
    have "\<not> isScalarIndexValue v" if "indexed_values ops rid = Some v" for rid v
      using none [OF that] by (cases v) (simp_all add: isScalarIndexValue_def is_plain_scalar_def)
    ultimately show ?thesis by blast
  qed
  then show ?thesis using idsForValues_set [OF l(1), of vs] by (simp add: fw)
qed

theorem index_lookup_exact_witness:
  "idsForContains plain_host (index_run plain_host ''tags'' [IPut 0 (JArr [JStr ''a'', JStr ''b'']), IPut 1 (JArr [JStr ''b''])]) (JStr ''a'')
     = Some [0] \<and>
   set [0 :: nat] = {rid. \<exists>v. indexed_values [IPut 0 (JArr [JStr ''a'', JStr ''b'']), IPut 1 (JArr [JStr ''b''])] rid = Some v \<and>
     (\<exists>w \<in> set (indexedStoredValues v). indexValueKey plain_host w = indexValueKey plain_host (JStr ''a''))}"
proof -
  have "idsForContains plain_host (index_run plain_host ''tags'' [IPut 0 (JArr [JStr ''a'', JStr ''b'']), IPut 1 (JArr [JStr ''b''])]) (JStr ''a'')
     = Some [0]"
    by code_simp
  with index_lookup_exact [of plain_host "''tags''" "[IPut 0 (JArr [JStr ''a'', JStr ''b'']), IPut 1 (JArr [JStr ''b''])]" "[]" "JStr ''a''" "[0]"]
  show ?thesis by blast
qed

end
