(* ===== verification/Grouping.thy ===== *)
theory Grouping
  imports Prelude
begin

text \<open>
  Grouping a sequence of rows into buckets kept in a \<open>Map\<close>, the loop that every aggregation of the source runs: take the
  key of the row, look its bucket up or make one, step the bucket. \<open>group_fold_buckets\<close> says what the loop computes: one
  bucket per key, in the order of first appearance, that has seen exactly the rows with that key, in their order.
\<close>

definition bucket_step :: "('r \<Rightarrow> 'k) \<Rightarrow> ('r \<Rightarrow> 'b) \<Rightarrow> ('b \<Rightarrow> 'r \<Rightarrow> 'b) \<Rightarrow> ('k, 'b) jmap \<Rightarrow> 'r \<Rightarrow> ('k, 'b) jmap" where
  "bucket_step key mk step buckets row =
     (let bucket = (case jm_get buckets (key row) of None \<Rightarrow> mk row | Some b \<Rightarrow> b)
      in jm_set (key row) (step bucket row) buckets)"

definition group_fold :: "('r \<Rightarrow> 'k) \<Rightarrow> ('r \<Rightarrow> 'b) \<Rightarrow> ('b \<Rightarrow> 'r \<Rightarrow> 'b) \<Rightarrow> 'r list \<Rightarrow> ('k, 'b) jmap" where
  "group_fold key mk step rows = foldl (bucket_step key mk step) [] rows"

text \<open>What the rows of one key make of its bucket.\<close>

definition bucket_of :: "('r \<Rightarrow> 'b) \<Rightarrow> ('b \<Rightarrow> 'r \<Rightarrow> 'b) \<Rightarrow> 'r list \<Rightarrow> 'b" where
  "bucket_of mk step rows = foldl step (mk (hd rows)) rows"

lemma js_unique_acc_snoc: "js_unique_acc acc (xs @ [x]) = js_add x (js_unique_acc acc xs)"
  by (induction xs arbitrary: acc) auto

lemma js_unique_snoc: "js_unique (xs @ [x]) = js_add x (js_unique xs)"
  by (simp add: js_unique_def js_unique_acc_snoc)

lemma group_fold_snoc: "group_fold key mk step (rows @ [r]) = bucket_step key mk step (group_fold key mk step rows) r"
  by (simp add: group_fold_def)

lemma group_fold_keys: "jm_keys (group_fold key mk step rows) = js_unique (map key rows)"
proof (induction rows rule: rev_induct)
  case Nil
  show ?case by (simp add: group_fold_def js_unique_def)
next
  case (snoc r rows)
  then show ?case by (simp add: group_fold_snoc js_unique_snoc bucket_step_def Let_def keys_set)
qed

lemma group_fold_get:
  "jm_get (group_fold key mk step rows) k =
     (let mine = filter (\<lambda>r. key r = k) rows in if mine = [] then None else Some (bucket_of mk step mine))"
proof (induction rows rule: rev_induct)
  case Nil
  show ?case by (simp add: group_fold_def)
next
  case (snoc r rows)
  then show ?case by (auto simp: group_fold_snoc bucket_step_def Let_def bucket_of_def)
qed

lemma jm_as_map: "jm_ok m \<Longrightarrow> m = map (\<lambda>k. (k, the (jm_get m k))) (jm_keys m)"
proof (induction m)
  case (Cons p m)
  obtain k v where p: "p = (k, v)" by (cases p)
  have "the (jm_get (p # m) x) = the (jm_get m x)" if "x \<in> set (jm_keys m)" for x
    using Cons.prems that by (auto simp: p)
  then have "map (\<lambda>k. (k, the (jm_get (p # m) k))) (jm_keys m) = map (\<lambda>k. (k, the (jm_get m k))) (jm_keys m)" by simp
  with Cons p show ?case by simp
qed simp

lemma group_fold_buckets:
  "group_fold key mk step rows =
     map (\<lambda>k. (k, bucket_of mk step (filter (\<lambda>r. key r = k) rows))) (js_unique (map key rows))"
proof -
  let ?m = "group_fold key mk step rows"
  have k: "jm_keys ?m = js_unique (map key rows)" by (rule group_fold_keys)
  then have "?m = map (\<lambda>k. (k, the (jm_get ?m k))) (js_unique (map key rows))"
    using jm_as_map [of ?m] by simp
  also have "\<dots> = map (\<lambda>k. (k, bucket_of mk step (filter (\<lambda>r. key r = k) rows))) (js_unique (map key rows))"
    by (rule map_cong) (auto simp: group_fold_get Let_def filter_empty_conv)
  finally show ?thesis .
qed

subsection \<open>Grouping in two phases\<close>

text \<open>The first occurrences of a concatenation.\<close>

lemma js_unique_acc_append: "js_unique_acc acc (xs @ ys) = js_unique_acc (js_unique_acc acc xs) ys"
  by (induction xs arbitrary: acc) auto

lemma js_unique_acc_unique: "js_unique_acc acc (js_unique xs) = js_unique_acc acc xs"
proof (induction xs rule: rev_induct)
  case (snoc x xs)
  show ?case
  proof (cases "x \<in> set xs")
    case True
    then have "js_unique (xs @ [x]) = js_unique xs" by (simp add: js_unique_snoc js_add_def)
    moreover have "js_unique_acc acc (xs @ [x]) = js_unique_acc acc xs"
      using True by (simp add: js_unique_acc_snoc js_add_def set_js_unique_acc)
    ultimately show ?thesis using snoc by simp
  next
    case False
    then have "js_unique (xs @ [x]) = js_unique xs @ [x]" by (simp add: js_unique_snoc js_add_def)
    with snoc show ?thesis by (simp add: js_unique_acc_snoc)
  qed
qed (simp add: js_unique_def)

lemma js_unique_concat: "js_unique (concat (map js_unique xss)) = js_unique (concat xss)"
proof -
  have "js_unique_acc acc (concat (map js_unique xss)) = js_unique_acc acc (concat xss)" for acc
    by (induction xss arbitrary: acc) (simp_all add: js_unique_acc_append js_unique_acc_unique)
  then show ?thesis by (simp add: js_unique_def)
qed

lemma filter_unique: "distinct ks \<Longrightarrow> filter (\<lambda>k. k = x) ks = (if x \<in> set ks then [x] else [])"
  by (induction ks) auto

lemma concat_filter_empty: "concat xss = concat (filter (\<lambda>xs. xs \<noteq> []) xss)"
  by (induction xss) auto

end
