(* ===== verification/Aggregate.thy ===== *)
theory Aggregate
  imports Query Grouping
begin

text \<open>
  Aggregation of src/src/aggregate.js: the specification (\<open>$aggregate\<close>) and the errors it can have, the partial aggregate
  of a set of rows, the merge of partial aggregates from several shards, the sort and the page; then the legacy form with
  \<open>sum\<close>, \<open>avg\<close>, \<open>min\<close> and \<open>max\<close> lists.

  \<open>structuredClone\<close> of a value of the model is the value. A bucket's field states are kept by result key; sums and counts
  are JavaScript numbers.
\<close>

datatype agg_error =
    SpecNotObject
  | BadGroupBy
  | BadGroupByEntry
  | FieldsNotObject
  | FieldNotObject string
  | FieldNotSingle string
  | UnknownOperator string string
  | BadCountOperand string
  | BadOperand string string
  | SortNotObject
  | BadSortDirection string
  | BadPositiveInteger string

datatype agg_op = OpSum | OpMin | OpMax | OpAvg | OpCount

record agg_field =
  af_key :: string
  af_op :: agg_op
  af_operand :: jsv

record agg_spec =
  as_groupBy :: "string list"
  as_fields :: "agg_field list"
  as_sort :: "(string \<times> int) list"
  as_page :: nat
  as_pageSize :: nat

definition aggregateOperators :: "(string \<times> agg_op) list" where
  "aggregateOperators = [(''$sum'', OpSum), (''$min'', OpMin), (''$max'', OpMax), (''$avg'', OpAvg), (''$count'', OpCount)]"

definition isObjectDbAggregateSpec :: "jsv \<Rightarrow> bool" where
  "isObjectDbAggregateSpec spec \<longleftrightarrow> is_obj spec \<and> jprop spec ''fields'' \<noteq> JUndef"

subsection \<open>The specification\<close>

fun groupBy_entry :: "jsv \<Rightarrow> agg_error + string" where
  "groupBy_entry (JStr path) = (if path = [] then Inl BadGroupByEntry else Inr path)"
| "groupBy_entry _ = Inl BadGroupByEntry"

definition normalizeGroupBy :: "jsv \<Rightarrow> agg_error + string list" where
  "normalizeGroupBy groupBy =
     (if nullish groupBy then Inr []
      else (case groupBy of
              JStr path \<Rightarrow> if path \<noteq> [] then Inr [path] else Inl BadGroupBy
            | JArr paths \<Rightarrow> res_map groupBy_entry paths
            | _ \<Rightarrow> Inl BadGroupBy))"

definition is_path :: "jsv \<Rightarrow> bool" where
  "is_path v \<longleftrightarrow> is_str v \<and> v \<noteq> JStr []"

definition normalizeField :: "string \<times> jsv \<Rightarrow> agg_error + agg_field" where
  "normalizeField entry =
     (case entry of (resultKey, definition) \<Rightarrow>
        if \<not> is_obj definition then Inl (FieldNotObject resultKey)
        else (case entries_of definition of
                [(operator, operand)] \<Rightarrow>
                  (case map_of aggregateOperators operator of
                     None \<Rightarrow> Inl (UnknownOperator resultKey operator)
                   | Some OpCount \<Rightarrow>
                       if operand \<noteq> JBool True \<and> \<not> is_path operand then Inl (BadCountOperand resultKey)
                       else Inr \<lparr>af_key = resultKey, af_op = OpCount, af_operand = operand\<rparr>
                   | Some op \<Rightarrow>
                       if \<not> is_path operand then Inl (BadOperand resultKey operator)
                       else Inr \<lparr>af_key = resultKey, af_op = op, af_operand = operand\<rparr>)
              | _ \<Rightarrow> Inl (FieldNotSingle resultKey)))"

definition normalizeFields :: "jsv \<Rightarrow> agg_error + agg_field list" where
  "normalizeFields fs = (if \<not> is_obj fs then Inl FieldsNotObject else res_map normalizeField (entries_of fs))"

fun sort_entry :: "string \<times> jsv \<Rightarrow> agg_error + string \<times> int" where
  "sort_entry (path, direction) =
     (if direction = JNum (Fin 1) then Inr (path, 1)
      else if direction = JNum (Fin (- 1)) then Inr (path, - 1)
      else Inl (BadSortDirection path))"

definition normalizeSort :: "jsv \<Rightarrow> agg_error + (string \<times> int) list" where
  "normalizeSort order =
     (if nullish order then Inr []
      else if \<not> is_obj order then Inl SortNotObject
      else res_map sort_entry (entries_of order))"

definition normalizePositiveInteger :: "host \<Rightarrow> jsv \<Rightarrow> string \<Rightarrow> nat \<Rightarrow> agg_error + nat" where
  "normalizePositiveInteger h v name fallback =
     (if nullish v then Inr fallback
      else (case js_to_number h v of
              Fin q \<Rightarrow> if q \<noteq> of_int \<lfloor>q\<rfloor> \<or> q < 1 then Inl (BadPositiveInteger name) else Inr (nat \<lfloor>q\<rfloor>)
            | _ \<Rightarrow> Inl (BadPositiveInteger name)))"

definition normalizeAggregateSpec :: "host \<Rightarrow> jsv \<Rightarrow> agg_error + agg_spec" where
  "normalizeAggregateSpec h spec =
     (if \<not> is_obj spec then Inl SpecNotObject
      else res_bind (normalizeGroupBy (jprop spec ''groupBy'')) (\<lambda>groupBy.
           res_bind (normalizeFields (jprop spec ''fields'')) (\<lambda>fs.
           res_bind (normalizeSort (jprop spec ''$sort'')) (\<lambda>order.
           res_bind (normalizePositiveInteger h (jprop spec ''$page'') ''$aggregate.$page'' 1) (\<lambda>page.
           res_bind (normalizePositiveInteger h (jprop spec ''$pageSize'') ''$aggregate.$pageSize'' 20) (\<lambda>pageSize.
             Inr \<lparr>as_groupBy = groupBy, as_fields = fs, as_sort = order, as_page = page, as_pageSize = pageSize\<rparr>))))))"

subsection \<open>The state of a field\<close>

datatype fstate = FSum jsnum | FAvg jsnum jsnum | FValue jsv | FCount jsnum

definition fieldState :: "agg_field \<Rightarrow> fstate" where
  "fieldState f =
     (case af_op f of
        OpSum \<Rightarrow> FSum (Fin 0)
      | OpAvg \<Rightarrow> FAvg (Fin 0) (Fin 0)
      | OpMin \<Rightarrow> FValue JUndef
      | OpMax \<Rightarrow> FValue JUndef
      | OpCount \<Rightarrow> FCount (Fin 0))"

type_synonym fstates = "(string, fstate) jmap"

definition makeFieldState :: "agg_field list \<Rightarrow> fstates" where
  "makeFieldState fs = foldl (\<lambda>st f. jm_set (af_key f) (fieldState f) st) [] fs"

definition cloneResultValue :: "jsv \<Rightarrow> jsv" where
  "cloneResultValue v = v"

definition isComparable :: "jsv \<Rightarrow> bool" where
  "isComparable v = (case v of JNum n \<Rightarrow> num_finite n | JStr s \<Rightarrow> True | JBool b \<Rightarrow> True | _ \<Rightarrow> False)"

definition sameTypeLessThan :: "host \<Rightarrow> jsv \<Rightarrow> jsv \<Rightarrow> bool" where
  "sameTypeLessThan h left right \<longleftrightarrow> js_typeof left = js_typeof right \<and> compareSortValues h left right < 0"

definition operand_path :: "agg_field \<Rightarrow> string" where
  "operand_path f = (case af_operand f of JStr s \<Rightarrow> s | _ \<Rightarrow> [])"

text \<open>\<open>if (typeof value === "number" && Number.isFinite(value)) sum += value\<close>.\<close>

definition add_finite :: "jsnum \<Rightarrow> jsv \<Rightarrow> jsnum" where
  "add_finite s v = (case v of JNum n \<Rightarrow> if num_finite n then num_add s n else s | _ \<Rightarrow> s)"

definition is_finite_number :: "jsv \<Rightarrow> bool" where
  "is_finite_number v = (case v of JNum n \<Rightarrow> num_finite n | _ \<Rightarrow> False)"

definition keep_min :: "host \<Rightarrow> jsv \<Rightarrow> jsv \<Rightarrow> jsv" where
  "keep_min h kept v =
     (if \<not> isComparable v then kept
      else if kept = JUndef \<or> sameTypeLessThan h v kept then cloneResultValue v else kept)"

definition keep_max :: "host \<Rightarrow> jsv \<Rightarrow> jsv \<Rightarrow> jsv" where
  "keep_max h kept v =
     (if \<not> isComparable v then kept
      else if kept = JUndef \<or> sameTypeLessThan h kept v then cloneResultValue v else kept)"

definition stepField :: "host \<Rightarrow> fstate \<Rightarrow> agg_field \<Rightarrow> jsv \<Rightarrow> fstate" where
  "stepField h st f row =
     (let v = getPathValue row (operand_path f) in
      case (af_op f, st) of
        (OpSum, FSum s) \<Rightarrow> FSum (add_finite s v)
      | (OpAvg, FAvg s c) \<Rightarrow> if is_finite_number v then FAvg (add_finite s v) (num_add c (Fin 1)) else FAvg s c
      | (OpMin, FValue kept) \<Rightarrow> FValue (keep_min h kept v)
      | (OpMax, FValue kept) \<Rightarrow> FValue (keep_max h kept v)
      | (OpCount, FCount c) \<Rightarrow>
          if af_operand f = JBool True \<or> \<not> nullish v then FCount (num_add c (Fin 1)) else FCount c
      | _ \<Rightarrow> st)"

definition avg_value :: "jsnum \<Rightarrow> jsnum \<Rightarrow> jsv" where
  "avg_value s c = (if truthy (JNum c) then JNum (num_div s c) else JNull)"

definition finishField :: "fstate \<Rightarrow> agg_field \<Rightarrow> jsv" where
  "finishField st f =
     (case st of
        FSum s \<Rightarrow> JNum s
      | FAvg s c \<Rightarrow> avg_value s c
      | FValue v \<Rightarrow> if v = JUndef then JNull else cloneResultValue v
      | FCount c \<Rightarrow> JNum c)"

definition avgSumKey :: "string \<Rightarrow> string" where
  "avgSumKey resultKey = ''$partial.'' @ resultKey @ ''.sum''"

definition avgCountKey :: "string \<Rightarrow> string" where
  "avgCountKey resultKey = ''$partial.'' @ resultKey @ ''.count''"

definition writePartialField :: "jobj \<Rightarrow> fstate \<Rightarrow> agg_field \<Rightarrow> jobj" where
  "writePartialField out st f =
     (case st of
        FSum s \<Rightarrow> jm_set (af_key f) (JNum s) out
      | FAvg s c \<Rightarrow> jm_set (avgCountKey (af_key f)) (JNum c) (jm_set (avgSumKey (af_key f)) (JNum s) out)
      | FValue v \<Rightarrow> jm_set (af_key f) (if v = JUndef then JNull else cloneResultValue v) out
      | FCount c \<Rightarrow> jm_set (af_key f) (JNum c) out)"

definition mergePartialField :: "host \<Rightarrow> fstate \<Rightarrow> agg_field \<Rightarrow> jobj \<Rightarrow> fstate" where
  "mergePartialField h st f row =
     (let v = oget row (af_key f) in
      case (af_op f, st) of
        (OpSum, FSum s) \<Rightarrow> FSum (add_finite s v)
      | (OpAvg, FAvg s c) \<Rightarrow>
          FAvg (add_finite s (oget row (avgSumKey (af_key f)))) (add_finite c (oget row (avgCountKey (af_key f))))
      | (OpMin, FValue kept) \<Rightarrow> FValue (keep_min h kept v)
      | (OpMax, FValue kept) \<Rightarrow> FValue (keep_max h kept v)
      | (OpCount, FCount c) \<Rightarrow> FCount (add_finite c v)
      | _ \<Rightarrow> st)"

subsection \<open>Partial aggregates\<close>

record bucket =
  bk_groupValues :: jobj
  bk_fields :: fstates

definition stored_value :: "jsv \<Rightarrow> jsv" where
  "stored_value v = (if v = JUndef then JNull else v)"

text \<open>The group values of a row, by path, and the key of its bucket; \<open>look\<close> reads a path in the row.\<close>

definition group_values :: "('r \<Rightarrow> string \<Rightarrow> jsv) \<Rightarrow> string list \<Rightarrow> 'r \<Rightarrow> jobj" where
  "group_values look groupBy row =
     foldl (\<lambda>out path. jm_set path (cloneResultValue (stored_value (look row path))) out) [] groupBy"

definition group_key :: "host \<Rightarrow> ('r \<Rightarrow> string \<Rightarrow> jsv) \<Rightarrow> string list \<Rightarrow> 'r \<Rightarrow> string option" where
  "group_key h look groupBy row = stableKey h (JArr (map (\<lambda>path. stored_value (look row path)) groupBy))"

definition new_bucket :: "('r \<Rightarrow> string \<Rightarrow> jsv) \<Rightarrow> agg_spec \<Rightarrow> 'r \<Rightarrow> bucket" where
  "new_bucket look n row =
     \<lparr>bk_groupValues = group_values look (as_groupBy n) row, bk_fields = makeFieldState (as_fields n)\<rparr>"

text \<open>\<open>for (const field of normalized.fields) step(bucket.fields[field.resultKey], field, row)\<close>.\<close>

definition step_fields :: "(fstate \<Rightarrow> agg_field \<Rightarrow> 'r \<Rightarrow> fstate) \<Rightarrow> agg_field list \<Rightarrow> fstates \<Rightarrow> 'r \<Rightarrow> fstates" where
  "step_fields step fs sts row =
     foldl (\<lambda>sts f. case jm_get sts (af_key f) of None \<Rightarrow> sts | Some st \<Rightarrow> jm_set (af_key f) (step st f row) sts) sts fs"

definition step_bucket :: "(fstate \<Rightarrow> agg_field \<Rightarrow> 'r \<Rightarrow> fstate) \<Rightarrow> agg_spec \<Rightarrow> bucket \<Rightarrow> 'r \<Rightarrow> bucket" where
  "step_bucket step n b row = b\<lparr>bk_fields := step_fields step (as_fields n) (bk_fields b) row\<rparr>"

definition cloneGroupValues :: "jobj \<Rightarrow> jobj" where
  "cloneGroupValues kvs = map (\<lambda>(k, v). (k, cloneResultValue v)) kvs"

definition field_state :: "bucket \<Rightarrow> agg_field \<Rightarrow> fstate" where
  "field_state b f = (case jm_get (bk_fields b) (af_key f) of None \<Rightarrow> fieldState f | Some st \<Rightarrow> st)"

definition partial_row :: "agg_spec \<Rightarrow> bucket \<Rightarrow> jobj" where
  "partial_row n b =
     foldl (\<lambda>out f. writePartialField out (field_state b f) f) (cloneGroupValues (bk_groupValues b)) (as_fields n)"

definition partial_buckets :: "host \<Rightarrow> agg_spec \<Rightarrow> jsv list \<Rightarrow> (string option, bucket) jmap" where
  "partial_buckets h n rows =
     group_fold (group_key h getPathValue (as_groupBy n)) (new_bucket getPathValue n) (step_bucket (stepField h) n) rows"

definition aggregatePartialObjects :: "host \<Rightarrow> jsv list \<Rightarrow> jsv \<Rightarrow> agg_error + jobj list" where
  "aggregatePartialObjects h rows spec =
     res_bind (normalizeAggregateSpec h spec) (\<lambda>n.
       Inr (if rows = [] then [] else map (partial_row n) (jm_vals (partial_buckets h n rows))))"

subsection \<open>Merging\<close>

definition aggregatePartialBuckets :: "host \<Rightarrow> jobj list \<Rightarrow> agg_spec \<Rightarrow> (string option, bucket) jmap option" where
  "aggregatePartialBuckets h rows n =
     (if rows = [] then None
      else Some (group_fold (group_key h oget (as_groupBy n)) (new_bucket oget n) (step_bucket (mergePartialField h) n) rows))"

definition finished_row :: "agg_spec \<Rightarrow> bucket \<Rightarrow> jobj" where
  "finished_row n b =
     foldl (\<lambda>out f. jm_set (af_key f) (finishField (field_state b f) f) out) (cloneGroupValues (bk_groupValues b)) (as_fields n)"

fun makeComparator :: "host \<Rightarrow> (string \<times> int) list \<Rightarrow> jobj \<Rightarrow> jobj \<Rightarrow> int" where
  "makeComparator h [] left right = 0"
| "makeComparator h ((path, direction) # order) left right =
     (let l = oget left path; r = oget right path in
      if nullish l \<and> nullish r then makeComparator h order left right
      else if nullish l then 1
      else if nullish r then - 1
      else let compared = compareSortValues h l r in
           if compared \<noteq> 0 then compared * direction else makeComparator h order left right)"

definition page_of :: "agg_spec \<Rightarrow> 'a list \<Rightarrow> 'a list" where
  "page_of n rows = take (as_pageSize n) (drop ((as_page n - 1) * as_pageSize n) rows)"

definition finish_rows :: "host \<Rightarrow> agg_spec \<Rightarrow> jobj list \<Rightarrow> jobj list" where
  "finish_rows h n result = page_of n (if as_sort n \<noteq> [] then js_sort (makeComparator h (as_sort n)) result else result)"

definition mergeAggregatePartials :: "host \<Rightarrow> jobj list \<Rightarrow> jsv \<Rightarrow> agg_error + jobj list" where
  "mergeAggregatePartials h rows spec =
     res_bind (normalizeAggregateSpec h spec) (\<lambda>n.
       case aggregatePartialBuckets h rows n of
         None \<Rightarrow> Inr []
       | Some buckets \<Rightarrow> Inr (finish_rows h n (map (finished_row n) (jm_vals buckets))))"

definition aggregateObjects :: "host \<Rightarrow> jsv list \<Rightarrow> jsv \<Rightarrow> agg_error + jobj list" where
  "aggregateObjects h rows spec =
     res_bind (aggregatePartialObjects h rows spec) (\<lambda>partials. mergeAggregatePartials h partials spec)"

subsection \<open>The legacy form\<close>

record legacy_metrics =
  lm_sum :: "string list"
  lm_avg :: "string list"
  lm_min :: "string list"
  lm_max :: "string list"

definition asArray :: "jsv \<Rightarrow> jsv list" where
  "asArray v = (if \<not> truthy v then [] else (case v of JArr xs \<Rightarrow> xs | _ \<Rightarrow> [v]))"

text \<open>A metric names a property, so it is read as a string.\<close>

definition normalizeLegacyMetrics :: "host \<Rightarrow> jsv \<Rightarrow> legacy_metrics" where
  "normalizeLegacyMetrics h spec =
     (let names = (\<lambda>key. map (js_to_string h) (asArray (jprop spec key)))
      in \<lparr>lm_sum = names ''sum'', lm_avg = names ''avg'', lm_min = names ''min'', lm_max = names ''max''\<rparr>)"

record legacy_bucket =
  lb_key :: jsv
  lb_count :: jsnum
  lb_sum :: "(string, jsnum) jmap"
  lb_avg :: "(string, jsnum \<times> jsnum) jmap"
  lb_min :: "(string, jsv) jmap"
  lb_max :: "(string, jsv) jmap"

definition from_entries :: "(string \<times> 'v) list \<Rightarrow> (string, 'v) jmap" where
  "from_entries kvs = foldl (\<lambda>m (k, v). jm_set k v m) [] kvs"

definition makeLegacyBucket :: "jsv \<Rightarrow> legacy_metrics \<Rightarrow> legacy_bucket" where
  "makeLegacyBucket key m =
     \<lparr>lb_key = cloneResultValue key, lb_count = Fin 0,
      lb_sum = from_entries (map (\<lambda>f. (f, Fin 0)) (lm_sum m)),
      lb_avg = from_entries (map (\<lambda>f. (f, (Fin 0, Fin 0))) (lm_avg m)),
      lb_min = from_entries (map (\<lambda>f. (f, JUndef)) (lm_min m)),
      lb_max = from_entries (map (\<lambda>f. (f, JUndef)) (lm_max m))\<rparr>"

text \<open>One metric of one row: the entry of the field is replaced by \<open>upd\<close> of it and the value.\<close>

definition step_metric :: "('s \<Rightarrow> jsv \<Rightarrow> 's) \<Rightarrow> jsv \<Rightarrow> (string, 's) jmap \<Rightarrow> string \<Rightarrow> (string, 's) jmap" where
  "step_metric upd object m f =
     (case jm_get m f of None \<Rightarrow> m | Some s \<Rightarrow> jm_set f (upd s (getPathValue object f)) m)"

definition add_number :: "jsnum \<Rightarrow> jsv \<Rightarrow> jsnum" where
  "add_number s v = (case v of JNum n \<Rightarrow> num_add s n | _ \<Rightarrow> s)"

definition stepLegacyBucket :: "host \<Rightarrow> legacy_metrics \<Rightarrow> legacy_bucket \<Rightarrow> jsv \<Rightarrow> legacy_bucket" where
  "stepLegacyBucket h m b object =
     b\<lparr>lb_count := num_add (lb_count b) (Fin 1),
       lb_sum := foldl (step_metric add_number object) (lb_sum b) (lm_sum m),
       lb_avg := foldl (step_metric (\<lambda>(s, c) v. case v of JNum n \<Rightarrow> (num_add s n, num_add c (Fin 1)) | _ \<Rightarrow> (s, c)) object)
                   (lb_avg b) (lm_avg m),
       lb_min := foldl (step_metric (\<lambda>kept v. if v \<noteq> JUndef \<and> (kept = JUndef \<or> compareSortValues h v kept < 0)
                                              then cloneResultValue v else kept) object) (lb_min b) (lm_min m),
       lb_max := foldl (step_metric (\<lambda>kept v. if v \<noteq> JUndef \<and> (kept = JUndef \<or> 0 < compareSortValues h v kept)
                                              then cloneResultValue v else kept) object) (lb_max b) (lm_max m)\<rparr>"

definition finishLegacyBucket :: "legacy_metrics \<Rightarrow> legacy_bucket \<Rightarrow> jobj" where
  "finishLegacyBucket m b =
     [(''count'', JNum (lb_count b))] @
     (if lb_key b \<noteq> JUndef then [(''key'', cloneResultValue (lb_key b))] else []) @
     (if lm_sum m \<noteq> [] then [(''sum'', JObj (map (\<lambda>(f, s). (f, JNum s)) (lb_sum b)))] else []) @
     (if lm_avg m \<noteq> [] then [(''avg'', JObj (map (\<lambda>(f, (s, c)). (f, avg_value s c)) (lb_avg b)))] else []) @
     (if lm_min m \<noteq> [] then [(''min'', cloneResultValue (JObj (lb_min b)))] else []) @
     (if lm_max m \<noteq> [] then [(''max'', cloneResultValue (JObj (lb_max b)))] else [])"

text \<open>One object without \<open>groupBy\<close>, a list of objects with it.\<close>

definition aggregateLegacyObjects :: "host \<Rightarrow> jsv list \<Rightarrow> jsv \<Rightarrow> jsv" where
  "aggregateLegacyObjects h rows spec =
     (let groupBy = jprop spec ''groupBy'';
          m = normalizeLegacyMetrics h spec;
          value = (\<lambda>object. if truthy groupBy then getPathValue object (js_to_string h groupBy) else JUndef);
          key = (\<lambda>object. if truthy groupBy then stableKey h (value object) else Some ''__all__'');
          groups = group_fold key (\<lambda>object. makeLegacyBucket (value object) m) (stepLegacyBucket h m) rows
      in if \<not> truthy groupBy
         then JObj (finishLegacyBucket m (case jm_get groups (Some ''__all__'') of
                                            None \<Rightarrow> makeLegacyBucket JUndef m | Some b \<Rightarrow> b))
         else JArr (map (\<lambda>b. JObj (finishLegacyBucket m b)) (jm_vals groups)))"

definition aggregateRows :: "host \<Rightarrow> jsv list \<Rightarrow> jsv \<Rightarrow> agg_error + jsv" where
  "aggregateRows h rows spec =
     (if isObjectDbAggregateSpec spec
      then res_bind (aggregateObjects h rows spec) (\<lambda>out. Inr (JArr (map JObj out)))
      else Inr (aggregateLegacyObjects h rows spec))"

end
