(* ===== verification/AggregateMerge.thy ===== *)
theory AggregateMerge
  imports Aggregate
begin

text \<open>
  What the two phases of src/src/aggregate.js compute together. \<open>merged_buckets\<close>: merging the partial aggregates of any
  split of the rows gives, for each group, the state one pass over the group's rows gives. The operators are monoid
  homomorphisms only under conditions, which \<open>mergeable\<close> states: sums of integers that stay exact, minima of one
  type, and result keys that do not clash (\<open>no_clash\<close>).
\<close>

subsection \<open>The fields of a bucket\<close>

definition result_keys :: "agg_spec \<Rightarrow> string list" where
  "result_keys n = map af_key (as_fields n)"

text \<open>The keys a partial row has beside the group's.\<close>

definition write_keys :: "agg_field \<Rightarrow> string list" where
  "write_keys f = (if af_op f = OpAvg then [avgSumKey (af_key f), avgCountKey (af_key f)] else [af_key f])"

definition partial_keys :: "agg_spec \<Rightarrow> string list" where
  "partial_keys n = concat (map write_keys (as_fields n))"

definition no_clash :: "agg_spec \<Rightarrow> bool" where
  "no_clash n \<longleftrightarrow> distinct (result_keys n) \<and> distinct (partial_keys n) \<and> set (partial_keys n) \<inter> set (as_groupBy n) = {}"

lemma makeFieldState_map:
  "distinct (map af_key fs) \<Longrightarrow> makeFieldState fs = map (\<lambda>f. (af_key f, fieldState f)) fs"
proof (induction fs rule: rev_induct)
  case (snoc f fs)
  then have new: "af_key f \<notin> af_key ` set fs" by simp
  from snoc have "makeFieldState fs = map (\<lambda>f. (af_key f, fieldState f)) fs" by simp
  then have "makeFieldState (fs @ [f]) = jm_set (af_key f) (fieldState f) (map (\<lambda>f. (af_key f, fieldState f)) fs)"
    by (simp add: makeFieldState_def)
  also have "\<dots> = map (\<lambda>f. (af_key f, fieldState f)) (fs @ [f])"
    using new by (subst jm_set_new) (auto simp: map_of_eq_None_iff)
  finally show ?case .
qed (simp add: makeFieldState_def)

lemma map_set_at:
  assumes "distinct (map k fs)" and "g \<in> set fs"
  shows "jm_set (k g) v (map (\<lambda>f. (k f, s f)) fs) = map (\<lambda>f. (k f, (s(g := v)) f)) fs"
  using assms
proof (induction fs)
  case (Cons f fs)
  show ?case
  proof (cases "f = g")
    case True
    then have "\<forall>x \<in> set fs. x \<noteq> g" using Cons.prems by auto
    then have "map (\<lambda>f. (k f, (s(g := v)) f)) fs = map (\<lambda>f. (k f, s f)) fs" by simp
    with True show ?thesis by simp
  next
    case False
    then have g: "g \<in> set fs" using Cons.prems by simp
    then have "k f \<noteq> k g" using Cons.prems(1) by (metis distinct.simps(2) image_eqI list.simps(9) list.set_map)
    with False g Cons show ?thesis by simp
  qed
qed simp

lemma map_get_at:
  assumes "distinct (map k fs)" and "g \<in> set fs"
  shows "jm_get (map (\<lambda>f. (k f, s f)) fs) (k g) = Some (s g)"
proof -
  have "(k g, s g) \<in> set (map (\<lambda>f. (k f, s f)) fs)" using assms(2) by auto
  moreover have "map fst (map (\<lambda>f. (k f, s f)) fs) = map k fs" by simp
  ultimately show ?thesis using assms(1) by (metis map_of_is_SomeI)
qed

lemma step_fields_sub:
  assumes "distinct (map af_key fs)" and "distinct gs" and "set gs \<subseteq> set fs"
  shows "step_fields step gs (map (\<lambda>f. (af_key f, s f)) fs) row =
    map (\<lambda>f. (af_key f, if f \<in> set gs then step (s f) f row else s f)) fs"
  using assms(2,3) unfolding step_fields_def
proof (induction gs arbitrary: s)
  case (Cons g gs)
  have g: "g \<in> set fs" "g \<notin> set gs" using Cons.prems by auto
  have "(if f \<in> set gs then step ((s(g := step (s g) g row)) f) f row else (s(g := step (s g) g row)) f) =
      (if f \<in> set (g # gs) then step (s f) f row else s f)" for f
    using g by auto
  with Cons.IH [of "s(g := step (s g) g row)"] Cons.prems g assms(1) show ?case
    by (simp add: map_get_at map_set_at cong: if_cong)
qed simp

lemma step_fields_map:
  assumes "distinct (map af_key fs)"
  shows "step_fields step fs (map (\<lambda>f. (af_key f, s f)) fs) row = map (\<lambda>f. (af_key f, step (s f) f row)) fs"
  using step_fields_sub [OF assms, of fs step s row] assms by (simp add: distinct_map cong: map_cong)

definition canonical_bucket :: "('r \<Rightarrow> string \<Rightarrow> jsv) \<Rightarrow> (fstate \<Rightarrow> agg_field \<Rightarrow> 'r \<Rightarrow> fstate) \<Rightarrow> agg_spec \<Rightarrow> 'r list \<Rightarrow> bucket" where
  "canonical_bucket look step n rows =
     \<lparr>bk_groupValues = group_values look (as_groupBy n) (hd rows),
      bk_fields = map (\<lambda>f. (af_key f, foldl (\<lambda>st r. step st f r) (fieldState f) rows)) (as_fields n)\<rparr>"

lemma bucket_of_canonical:
  assumes "distinct (result_keys n)"
  shows "bucket_of (new_bucket look n) (step_bucket step n) rows = canonical_bucket look step n rows"
proof -
  have "foldl (step_bucket step n)
      \<lparr>bk_groupValues = gv, bk_fields = map (\<lambda>f. (af_key f, s f)) (as_fields n)\<rparr> rows =
      \<lparr>bk_groupValues = gv, bk_fields = map (\<lambda>f. (af_key f, foldl (\<lambda>st r. step st f r) (s f) rows)) (as_fields n)\<rparr>" for gv s
  proof (induction rows arbitrary: s)
    case (Cons r rows)
    with assms step_fields_map [of "as_fields n" step s r] show ?case
      by (simp add: step_bucket_def result_keys_def)
  qed simp
  from this [of "group_values look (as_groupBy n) (hd rows)" fieldState] show ?thesis
    using assms makeFieldState_map [of "as_fields n"]
    by (simp add: bucket_of_def new_bucket_def canonical_bucket_def result_keys_def)
qed

lemma field_state_canonical:
  assumes "distinct (result_keys n)" and "f \<in> set (as_fields n)"
  shows "field_state (canonical_bucket look step n rows) f = foldl (\<lambda>st r. step st f r) (fieldState f) rows"
  using map_get_at [of af_key "as_fields n" f "\<lambda>f. foldl (\<lambda>st r. step st f r) (fieldState f) rows"] assms by (simp add: field_state_def canonical_bucket_def result_keys_def)

subsection \<open>A partial row\<close>

lemma group_values_get:
  "path \<in> set gb \<Longrightarrow> oget (group_values look gb row) path = stored_value (look row path)"
proof -
  have "oget (foldl (\<lambda>out path. jm_set path (cloneResultValue (stored_value (look row path))) out) out gb) path =
      (if path \<in> set gb then stored_value (look row path) else oget out path)" for out
    by (induction gb arbitrary: out) (auto simp: cloneResultValue_def)
  then show "path \<in> set gb \<Longrightarrow> ?thesis" by (simp add: group_values_def)
qed

lemma clone_group_id [simp]: "cloneGroupValues kvs = kvs"
  by (simp add: cloneGroupValues_def cloneResultValue_def)

text \<open>A state that belongs to the operator of its field.\<close>

definition typed_state :: "agg_field \<Rightarrow> fstate \<Rightarrow> bool" where
  "typed_state f st = (case (af_op f, st) of
     (OpSum, FSum _) \<Rightarrow> True | (OpAvg, FAvg _ _) \<Rightarrow> True | (OpMin, FValue _) \<Rightarrow> True | (OpMax, FValue _) \<Rightarrow> True
   | (OpCount, FCount _) \<Rightarrow> True | _ \<Rightarrow> False)"

lemma typed_step: "typed_state f st \<Longrightarrow> typed_state f (stepField h st f row)"
  by (cases st; cases "af_op f") (auto simp: typed_state_def stepField_def Let_def)

lemma typed_fold: "typed_state f (foldl (\<lambda>st r. stepField h st f r) (fieldState f) rows)"
proof (induction rows rule: rev_induct)
  case Nil
  show ?case by (cases "af_op f") (auto simp: typed_state_def fieldState_def)
next
  case (snoc r rows)
  then show ?case by (simp add: typed_step)
qed

lemma avg_keys_differ: "avgSumKey k \<noteq> avgCountKey k"
  by (simp add: avgSumKey_def avgCountKey_def)

text \<open>What a partial row says of one field.\<close>

definition shows_state :: "jobj \<Rightarrow> agg_field \<Rightarrow> fstate \<Rightarrow> bool" where
  "shows_state row f st =
     (case st of
        FSum s \<Rightarrow> oget row (af_key f) = JNum s
      | FAvg s c \<Rightarrow> oget row (avgSumKey (af_key f)) = JNum s \<and> oget row (avgCountKey (af_key f)) = JNum c
      | FValue v \<Rightarrow> oget row (af_key f) = stored_value v
      | FCount c \<Rightarrow> oget row (af_key f) = JNum c)"

lemma write_other: "typed_state f st \<Longrightarrow> k \<notin> set (write_keys f) \<Longrightarrow> oget (writePartialField out st f) k = oget out k"
  by (cases st; cases "af_op f") (auto simp: typed_state_def write_keys_def writePartialField_def)

lemma write_shows: "typed_state f st \<Longrightarrow> shows_state (writePartialField out st f) f st"
  using avg_keys_differ [of "af_key f"]
  by (cases st; cases "af_op f")
    (auto simp: typed_state_def shows_state_def writePartialField_def stored_value_def cloneResultValue_def)

lemma shows_other:
  "typed_state g st' \<Longrightarrow> typed_state f st \<Longrightarrow> set (write_keys f) \<inter> set (write_keys g) = {} \<Longrightarrow>
   shows_state (writePartialField out st' g) f st = shows_state out f st"
  by (cases st; cases "af_op f") (auto simp: typed_state_def shows_state_def write_other write_keys_def)

lemma partial_row_get:
  assumes "no_clash n" and typed: "\<And>f. f \<in> set (as_fields n) \<Longrightarrow> typed_state f (field_state b f)"
  shows "path \<in> set (as_groupBy n) \<Longrightarrow> oget (partial_row n b) path = oget (bk_groupValues b) path"
    and "f \<in> set (as_fields n) \<Longrightarrow> shows_state (partial_row n b) f (field_state b f)"
proof -
  have other: "(\<And>f. f \<in> set fs \<Longrightarrow> typed_state f (field_state b f)) \<Longrightarrow> k \<notin> set (concat (map write_keys fs)) \<Longrightarrow>
      oget (foldl (\<lambda>out f. writePartialField out (field_state b f) f) out fs) k = oget out k" for fs out k
    by (induction fs arbitrary: out) (simp_all add: write_other)
  show "path \<in> set (as_groupBy n) \<Longrightarrow> oget (partial_row n b) path = oget (bk_groupValues b) path"
    using other [of "as_fields n" path] typed assms(1) by (auto simp: partial_row_def no_clash_def partial_keys_def)
  have shown: "(\<And>f. f \<in> set fs \<Longrightarrow> typed_state f (field_state b f)) \<Longrightarrow> distinct (concat (map write_keys fs)) \<Longrightarrow> f \<in> set fs \<Longrightarrow>
      shows_state (foldl (\<lambda>out f. writePartialField out (field_state b f) f) out fs) f (field_state b f)" for fs out
  proof (induction fs arbitrary: out rule: rev_induct)
    case (snoc g fs)
    show ?case
    proof (cases "f = g")
      case True
      with snoc.prems show ?thesis by (simp add: write_shows)
    next
      case False
      with snoc.prems have f: "f \<in> set fs" by simp
      then have "set (write_keys f) \<inter> set (write_keys g) = {}" using snoc.prems(2) by auto
      with snoc f show ?thesis by (simp add: shows_other)
    qed
  qed simp
  show "f \<in> set (as_fields n) \<Longrightarrow> shows_state (partial_row n b) f (field_state b f)"
    using shown [of "as_fields n"] typed assms(1) by (simp add: partial_row_def no_clash_def partial_keys_def)
qed

subsection \<open>The operators are homomorphisms\<close>

text \<open>The collation of the host orders strings consistently, as \<open>Intl.Collator\<close> does.\<close>

definition collation :: "host \<Rightarrow> bool" where
  "collation h \<longleftrightarrow>
     (\<forall>s t. localeCompare h s t < 0 \<longleftrightarrow> 0 < localeCompare h t s) \<and>
     (\<forall>s t u. localeCompare h s t \<le> 0 \<longrightarrow> localeCompare h t u \<le> 0 \<longrightarrow> localeCompare h s u \<le> 0)"

lemma plain_collation: "collation plain_host"
  by (auto simp: collation_def plain_host_def split: if_splits)

text \<open>Keeping the least of a sequence, for an order in which incomparability is transitive.\<close>

definition keep :: "(jsv \<Rightarrow> jsv \<Rightarrow> bool) \<Rightarrow> jsv \<Rightarrow> jsv \<Rightarrow> jsv" where
  "keep lt kept v = (if \<not> isComparable v then kept else if kept = JUndef \<or> lt v kept then v else kept)"

definition weak_order :: "(jsv \<Rightarrow> jsv \<Rightarrow> bool) \<Rightarrow> jsv set \<Rightarrow> bool" where
  "weak_order lt C \<longleftrightarrow>
     (\<forall>x \<in> C. \<forall>y \<in> C. \<forall>z \<in> C. (lt x y \<longrightarrow> lt y z \<longrightarrow> lt x z) \<and> (\<not> lt x y \<longrightarrow> \<not> lt y z \<longrightarrow> \<not> lt x z))"

lemma weak_orderD:
  assumes "weak_order lt C" and "x \<in> C" and "y \<in> C" and "z \<in> C"
  shows "lt x y \<Longrightarrow> lt y z \<Longrightarrow> lt x z" and "\<not> lt x y \<Longrightarrow> \<not> lt y z \<Longrightarrow> \<not> lt x z"
  using assms unfolding weak_order_def by blast+

lemma keep_assoc:
  assumes "weak_order lt C" and "a = JUndef \<or> a \<in> C" and "b = JUndef \<or> b \<in> C" and "isComparable y \<longrightarrow> y \<in> C"
    and "\<forall>c \<in> C. isComparable c"
  shows "keep lt (keep lt a b) y = keep lt a (keep lt b y)"
proof -
  have u: "\<not> isComparable JUndef" by (simp add: isComparable_def)
  show ?thesis
  proof (cases "\<not> isComparable y \<or> a = JUndef \<or> b = JUndef")
    case True
    then show ?thesis using u assms(2,3,5) by (auto simp: keep_def)
  next
    case False
    then have m: "a \<in> C" "b \<in> C" "y \<in> C" "a \<noteq> JUndef" "b \<noteq> JUndef" "isComparable y" "isComparable b" using assms by auto
    show ?thesis
      using m weak_orderD(1) [OF assms(1) m(3,2,1)] weak_orderD(2) [OF assms(1) m(3,2,1)]
      by (auto simp: keep_def)
  qed
qed

lemma keep_fold_in: "(\<forall>v \<in> set vs. isComparable v \<longrightarrow> v \<in> C) \<Longrightarrow> a = JUndef \<or> a \<in> C \<Longrightarrow>
    foldl (keep lt) a vs = JUndef \<or> foldl (keep lt) a vs \<in> C"
  by (induction vs arbitrary: a) (auto simp: keep_def)

lemma keep_fold:
  assumes "weak_order lt C" and "a = JUndef \<or> a \<in> C" and "\<forall>v \<in> set vs. isComparable v \<longrightarrow> v \<in> C"
    and "\<forall>c \<in> C. isComparable c"
  shows "keep lt a (stored_value (foldl (keep lt) JUndef vs)) = foldl (keep lt) a vs"
proof -
  have null: "keep lt x (stored_value y) = keep lt x y" for x y
    by (simp add: keep_def stored_value_def isComparable_def)
  have "keep lt a (foldl (keep lt) JUndef vs) = foldl (keep lt) a vs"
    using assms(3)
  proof (induction vs rule: rev_induct)
    case Nil
    show ?case by (simp add: keep_def isComparable_def)
  next
    case (snoc v vs)
    have b: "foldl (keep lt) JUndef vs = JUndef \<or> foldl (keep lt) JUndef vs \<in> C"
      using keep_fold_in [of vs C JUndef lt] snoc.prems by simp
    have "isComparable v \<longrightarrow> v \<in> C" using snoc.prems by simp
    from keep_assoc [OF assms(1,2) b this assms(4)] snoc show ?case by simp
  qed
  with null show ?thesis by simp
qed

lemma keep_min_keep: "keep_min h = keep (sameTypeLessThan h)"
  by (intro ext) (simp add: keep_min_def keep_def cloneResultValue_def)

lemma keep_max_keep: "keep_max h = keep (\<lambda>v w. sameTypeLessThan h w v)"
  by (intro ext) (simp add: keep_max_def keep_def cloneResultValue_def)

definition comparables :: "string \<Rightarrow> jsv set" where
  "comparables t = {v. isComparable v \<and> js_typeof v = t}"

lemma compare_same_type:
  assumes "collation h" and "v \<in> comparables t" and "w \<in> comparables t"
  shows "compareSortValues h v w =
    (case (v, w) of (JNum a, JNum b) \<Rightarrow> num_cmp a b | _ \<Rightarrow> localeCompare h (js_to_string h v) (js_to_string h w))"
proof -
  have refl: "localeCompare h s s = 0" for s
  proof -
    have "localeCompare h s s < 0 \<longleftrightarrow> 0 < localeCompare h s s" using assms(1) by (simp add: collation_def)
    then show ?thesis by linarith
  qed
  have "num_cmp n n = 0" for n by (simp add: num_cmp_def)
  with refl assms(2,3) show ?thesis
    by (cases v; cases w)
      (auto simp: comparables_def isComparable_def compareSortValues_def same_value_iff nullish_def)
qed

lemma num_cmp_fin: "num_finite a \<Longrightarrow> num_finite b \<Longrightarrow> num_cmp a b < 0 \<longleftrightarrow> num_lt a b"
  by (cases a; cases b) (auto simp: num_cmp_def num_finite_def)

lemma number_type:
  assumes "v \<in> comparables t" and "w \<in> comparables t" and "v = JNum a"
  shows "num_finite a \<and> (\<exists>b. w = JNum b \<and> num_finite b)"
  using assms by (cases w) (auto simp: comparables_def isComparable_def)

lemma min_weak_order:
  assumes "collation h" shows "weak_order (sameTypeLessThan h) (comparables t)"
proof -
  have le: "localeCompare h a b \<le> 0 \<Longrightarrow> localeCompare h b c \<le> 0 \<Longrightarrow> localeCompare h a c \<le> 0"
    and anti: "localeCompare h a b < 0 \<longleftrightarrow> 0 < localeCompare h b a" for a b c
    using assms unfolding collation_def by blast+
  have trans: "localeCompare h a b < 0 \<Longrightarrow> localeCompare h b c < 0 \<Longrightarrow> localeCompare h a c < 0" for a b c
  proof -
    assume ab: "localeCompare h a b < 0" and bc: "localeCompare h b c < 0"
    show "localeCompare h a c < 0"
    proof (rule ccontr)
      assume "\<not> localeCompare h a c < 0"
      then have "localeCompare h c a \<le> 0" using anti [of a c] anti [of c a] by linarith
      with ab have "localeCompare h c b \<le> 0" using le [of c a b] by simp
      with bc anti [of b c] show False by simp
    qed
  qed
  have neg: "\<not> localeCompare h a b < 0 \<Longrightarrow> \<not> localeCompare h b c < 0 \<Longrightarrow> \<not> localeCompare h a c < 0" for a b c
  proof -
    assume "\<not> localeCompare h a b < 0" "\<not> localeCompare h b c < 0"
    then have "localeCompare h b a \<le> 0" "localeCompare h c b \<le> 0" using anti [of a b] anti [of b c] anti [of b a] anti [of c b]
      by linarith+
    then have "localeCompare h c a \<le> 0" using le [of c b a] by simp
    then show "\<not> localeCompare h a c < 0" using anti [of a c] by linarith
  qed
  show ?thesis
    unfolding weak_order_def
  proof (intro ballI)
    fix x y z assume m: "x \<in> comparables t" "y \<in> comparables t" "z \<in> comparables t"
    have e: "sameTypeLessThan h v w \<longleftrightarrow>
        (case (v, w) of (JNum a, JNum b) \<Rightarrow> num_cmp a b | _ \<Rightarrow> localeCompare h (js_to_string h v) (js_to_string h w)) < 0"
      if "v \<in> comparables t" "w \<in> comparables t" for v w
      using compare_same_type [OF assms that] that by (simp add: sameTypeLessThan_def comparables_def)
    note e = e [OF m(1,2)] e [OF m(2,3)] e [OF m(1,3)]
    show "(sameTypeLessThan h x y \<longrightarrow> sameTypeLessThan h y z \<longrightarrow> sameTypeLessThan h x z) \<and>
      (\<not> sameTypeLessThan h x y \<longrightarrow> \<not> sameTypeLessThan h y z \<longrightarrow> \<not> sameTypeLessThan h x z)"
    proof (cases "\<exists>a. x = JNum a")
      case True
      then obtain a where x: "x = JNum a" ..
      obtain b where b: "y = JNum b" "num_finite b" "num_finite a" using number_type [OF m(1,2) x] by auto
      obtain c where c: "z = JNum c" "num_finite c" using number_type [OF m(1,3) x] by auto
      note yz = x b c
      have "(num_lt a b \<longrightarrow> num_lt b c \<longrightarrow> num_lt a c) \<and> (\<not> num_lt a b \<longrightarrow> \<not> num_lt b c \<longrightarrow> \<not> num_lt a c)"
        using yz by (cases a; cases b; cases c) (auto simp: num_finite_def)
      moreover have "sameTypeLessThan h x y = num_lt a b" "sameTypeLessThan h y z = num_lt b c" "sameTypeLessThan h x z = num_lt a c"
        unfolding e using yz by (simp_all add: num_cmp_fin)
      ultimately show ?thesis by simp
    next
      case False
      then have "\<nexists>b. y = JNum b" using number_type [OF m(2,1)] by auto
      with False have "sameTypeLessThan h x y \<longleftrightarrow> localeCompare h (js_to_string h x) (js_to_string h y) < 0"
        "sameTypeLessThan h y z \<longleftrightarrow> localeCompare h (js_to_string h y) (js_to_string h z) < 0"
        "sameTypeLessThan h x z \<longleftrightarrow> localeCompare h (js_to_string h x) (js_to_string h z) < 0"
        unfolding e by (auto split: jsv.split)
      with trans neg show ?thesis by blast
    qed
  qed
qed

lemma max_weak_order: "collation h \<Longrightarrow> weak_order (\<lambda>v w. sameTypeLessThan h w v) (comparables t)"
  using min_weak_order [of h t] unfolding weak_order_def by blast

text \<open>Sums and counts.\<close>

lemma add_finite_int:
  assumes "small_int B v" and "safe_int (a + int_part v)"
  shows "add_finite (num_of_int a) v = num_of_int (a + int_part v)"
proof (cases v)
  case (JNum n)
  with assms(1) obtain z where z: "n = num_of_int z" by (auto simp: small_int_def)
  with JNum assms(2) show ?thesis by (simp add: add_finite_def num_add_of_int)
qed (simp_all add: add_finite_def int_part_def)

lemma sum_parts_bound: "\<forall>v \<in> set vs. small_int B v \<Longrightarrow> 0 \<le> B \<Longrightarrow> \<bar>\<Sum>v\<leftarrow>vs. int_part v\<bar> \<le> int (length vs) * B"
proof (induction vs)
  case (Cons v vs)
  then have "\<bar>int_part v\<bar> \<le> B" "\<bar>\<Sum>v\<leftarrow>vs. int_part v\<bar> \<le> int (length vs) * B" by (simp_all add: int_part_bound)
  then have "\<bar>int_part v + (\<Sum>v\<leftarrow>vs. int_part v)\<bar> \<le> B + int (length vs) * B" by linarith
  then show ?case by (simp add: algebra_simps)
qed simp

lemma safe_int_le: "\<bar>z\<bar> \<le> m \<Longrightarrow> m \<le> 2 ^ 53 \<Longrightarrow> safe_int z"
  by (simp add: safe_int_def)

lemma fold_add_finite:
  assumes "\<forall>v \<in> set vs. small_int B v" and "0 \<le> B" and "int (length vs) * B \<le> 2 ^ 53"
  shows "foldl add_finite (Fin 0) vs = num_of_int (\<Sum>v\<leftarrow>vs. int_part v)"
  using assms(1,3)
proof (induction vs rule: rev_induct)
  case Nil
  show ?case by (simp add: num_of_int_def)
next
  case (snoc v vs)
  have le: "int (length vs) * B \<le> int (length (vs @ [v])) * B" using assms(2) by (simp add: algebra_simps)
  with snoc have IH: "foldl add_finite (Fin 0) vs = num_of_int (\<Sum>v\<leftarrow>vs. int_part v)" by simp
  have "safe_int ((\<Sum>v\<leftarrow>vs. int_part v) + int_part v)"
    using sum_parts_bound [of "vs @ [v]" B] snoc.prems assms(2) by (simp add: safe_int_le [OF _ snoc.prems(2)])
  with IH snoc.prems add_finite_int [of B v "\<Sum>v\<leftarrow>vs. int_part v"] show ?case by simp
qed

lemma merge_sum:
  assumes "\<forall>v \<in> set (us @ vs). small_int B v" and "0 \<le> B" and "int (length (us @ vs)) * B \<le> 2 ^ 53"
  shows "add_finite (foldl add_finite (Fin 0) us) (JNum (foldl add_finite (Fin 0) vs)) = foldl add_finite (Fin 0) (us @ vs)"
proof -
  have "int (length us) * B \<le> 2 ^ 53" "int (length vs) * B \<le> 2 ^ 53"
    using assms(2,3) by (simp_all add: algebra_simps add_increasing2 order_trans [rotated])
  then have "foldl add_finite (Fin 0) us = num_of_int (\<Sum>v\<leftarrow>us. int_part v)"
    "foldl add_finite (Fin 0) vs = num_of_int (\<Sum>v\<leftarrow>vs. int_part v)"
    using assms fold_add_finite [of us B] fold_add_finite [of vs B] by simp_all
  moreover have "safe_int ((\<Sum>v\<leftarrow>us. int_part v) + (\<Sum>v\<leftarrow>vs. int_part v))"
    using sum_parts_bound [OF assms(1,2)] assms(3) by (simp add: safe_int_def)
  ultimately show ?thesis
    using fold_add_finite [OF assms] by (simp add: add_finite_def num_add_of_int)
qed

text \<open>Counting is the sum of ones.\<close>

lemma num_add_one: "num_add c (Fin 1) = add_finite c (JNum (num_of_int 1))"
  by (simp add: add_finite_def num_of_int_def num_finite_def)

definition one_if :: "bool \<Rightarrow> jsv" where
  "one_if b = (if b then JNum (num_of_int 1) else JNull)"

lemma small_one_if: "1 \<le> B \<Longrightarrow> small_int B (one_if b)"
  by (auto simp: small_int_def one_if_def)

lemma add_one_if: "add_finite c (one_if b) = (if b then num_add c (Fin 1) else c)"
  unfolding num_add_one by (simp add: one_if_def add_finite_def)

text \<open>The condition on the rows under which splitting them makes no difference.\<close>

definition mergeable :: "agg_spec \<Rightarrow> int \<Rightarrow> jsv list \<Rightarrow> bool" where
  "mergeable n B rows \<longleftrightarrow>
     1 \<le> B \<and> int (length rows) * B \<le> 2 ^ 53 \<and>
     (\<forall>f \<in> set (as_fields n).
        (af_op f = OpSum \<or> af_op f = OpAvg \<longrightarrow> (\<forall>r \<in> set rows. small_int B (getPathValue r (operand_path f)))) \<and>
        (af_op f = OpMin \<or> af_op f = OpMax \<longrightarrow>
           (\<exists>t. \<forall>r \<in> set rows. isComparable (getPathValue r (operand_path f)) \<longrightarrow>
              js_typeof (getPathValue r (operand_path f)) = t)))"

definition field_fold :: "host \<Rightarrow> agg_field \<Rightarrow> jsv list \<Rightarrow> fstate" where
  "field_fold h f rows = foldl (\<lambda>st r. stepField h st f r) (fieldState f) rows"

definition path_values :: "agg_field \<Rightarrow> jsv list \<Rightarrow> jsv list" where
  "path_values f rows = map (\<lambda>r. getPathValue r (operand_path f)) rows"

lemma field_fold_snoc: "field_fold h f (rows @ [r]) = stepField h (field_fold h f rows) f r"
  by (simp add: field_fold_def)

lemma field_fold_state:
  "field_fold h f rows =
    (case af_op f of
       OpSum \<Rightarrow> FSum (foldl add_finite (Fin 0) (path_values f rows))
     | OpAvg \<Rightarrow> FAvg (foldl add_finite (Fin 0) (path_values f rows))
         (foldl add_finite (Fin 0) (map (\<lambda>v. one_if (is_finite_number v)) (path_values f rows)))
     | OpMin \<Rightarrow> FValue (foldl (keep_min h) JUndef (path_values f rows))
     | OpMax \<Rightarrow> FValue (foldl (keep_max h) JUndef (path_values f rows))
     | OpCount \<Rightarrow> FCount (foldl add_finite (Fin 0)
         (map (\<lambda>v. one_if (af_operand f = JBool True \<or> \<not> nullish v)) (path_values f rows))))"
proof (induction rows rule: rev_induct)
  case Nil
  show ?case by (simp add: field_fold_def fieldState_def path_values_def split: agg_op.split)
next
  case (snoc r rows)
  have idle: "\<not> is_finite_number v \<Longrightarrow> add_finite s v = s" for s v
    by (cases v) (auto simp: is_finite_number_def add_finite_def)
  show ?case
    using idle by (cases "af_op f") (simp_all add: field_fold_snoc snoc stepField_def Let_def path_values_def add_one_if)
qed

lemma one_type:
  assumes "\<forall>r \<in> set (us @ ys). isComparable (getPathValue r (operand_path f)) \<longrightarrow> js_typeof (getPathValue r (operand_path f)) = t"
  shows "\<forall>v \<in> set (path_values f us @ path_values f ys). isComparable v \<longrightarrow> v \<in> comparables t"
proof (intro ballI impI)
  fix v assume v: "v \<in> set (path_values f us @ path_values f ys)" "isComparable v"
  then obtain r where "r \<in> set (us @ ys)" "v = getPathValue r (operand_path f)" by (auto simp: path_values_def)
  with assms v(2) show "v \<in> comparables t" by (simp add: comparables_def)
qed

lemma merge_field:
  assumes "collation h" and "mergeable n B (us @ ys)" and "f \<in> set (as_fields n)" and "shows_state row f (field_fold h f ys)"
  shows "mergePartialField h (field_fold h f us) f row = field_fold h f (us @ ys)"
proof -
  have len: "length (path_values f rs) = length rs" for rs by (simp add: path_values_def)
  have app: "path_values f (us @ ys) = path_values f us @ path_values f ys" by (simp add: path_values_def)
  have B: "1 \<le> B" "int (length (us @ ys)) * B \<le> 2 ^ 53" using assms(2) by (auto simp: mergeable_def)
  have ones: "add_finite (foldl add_finite (Fin 0) (map (\<lambda>v. one_if (P v)) (path_values f us)))
        (JNum (foldl add_finite (Fin 0) (map (\<lambda>v. one_if (P v)) (path_values f ys)))) =
      foldl add_finite (Fin 0) (map (\<lambda>v. one_if (P v)) (path_values f (us @ ys)))" for P
    using merge_sum [of "map (\<lambda>v. one_if (P v)) (path_values f us)" "map (\<lambda>v. one_if (P v)) (path_values f ys)" B] B
    by (simp add: app small_one_if len image_iff ball_Un)
  show ?thesis
  proof (cases "af_op f")
    case OpSum
    then have "\<forall>v \<in> set (path_values f us @ path_values f ys). small_int B v"
      using assms(2,3) by (auto simp: mergeable_def path_values_def)
    with merge_sum [of "path_values f us" "path_values f ys" B] B len OpSum assms(4) app show ?thesis
      by (simp add: field_fold_state mergePartialField_def shows_state_def)
  next
    case OpAvg
    then have "\<forall>v \<in> set (path_values f us @ path_values f ys). small_int B v"
      using assms(2,3) by (auto simp: mergeable_def path_values_def)
    with merge_sum [of "path_values f us" "path_values f ys" B] ones B len OpAvg assms(4) app show ?thesis
      by (simp add: field_fold_state mergePartialField_def shows_state_def)
  next
    case OpCount
    with ones assms(4) show ?thesis by (simp add: field_fold_state mergePartialField_def shows_state_def)
  next
    case OpMin
    then obtain t where "\<forall>r \<in> set (us @ ys). isComparable (getPathValue r (operand_path f)) \<longrightarrow>
        js_typeof (getPathValue r (operand_path f)) = t"
      using assms(2,3) unfolding mergeable_def by blast
    from one_type [OF this] have t: "\<forall>v \<in> set (path_values f us @ path_values f ys). isComparable v \<longrightarrow> v \<in> comparables t" .
    have "foldl (keep_min h) JUndef (path_values f us) = JUndef \<or> foldl (keep_min h) JUndef (path_values f us) \<in> comparables t"
      unfolding keep_min_keep by (rule keep_fold_in) (use t in auto)
    then have "keep_min h (foldl (keep_min h) JUndef (path_values f us)) (stored_value (foldl (keep_min h) JUndef (path_values f ys))) =
        foldl (keep_min h) (foldl (keep_min h) JUndef (path_values f us)) (path_values f ys)"
      unfolding keep_min_keep
      by (rule keep_fold [OF min_weak_order [OF assms(1)]]) (use t in \<open>auto simp: comparables_def\<close>)
    with OpMin assms(4) app show ?thesis by (simp add: field_fold_state mergePartialField_def shows_state_def)
  next
    case OpMax
    then obtain t where "\<forall>r \<in> set (us @ ys). isComparable (getPathValue r (operand_path f)) \<longrightarrow>
        js_typeof (getPathValue r (operand_path f)) = t"
      using assms(2,3) unfolding mergeable_def by blast
    from one_type [OF this] have t: "\<forall>v \<in> set (path_values f us @ path_values f ys). isComparable v \<longrightarrow> v \<in> comparables t" .
    have "foldl (keep_max h) JUndef (path_values f us) = JUndef \<or> foldl (keep_max h) JUndef (path_values f us) \<in> comparables t"
      unfolding keep_max_keep by (rule keep_fold_in) (use t in auto)
    then have "keep_max h (foldl (keep_max h) JUndef (path_values f us)) (stored_value (foldl (keep_max h) JUndef (path_values f ys))) =
        foldl (keep_max h) (foldl (keep_max h) JUndef (path_values f us)) (path_values f ys)"
      unfolding keep_max_keep
      by (rule keep_fold [OF max_weak_order [OF assms(1)]]) (use t in \<open>auto simp: comparables_def\<close>)
    with OpMax assms(4) app show ?thesis by (simp add: field_fold_state mergePartialField_def shows_state_def)
  qed
qed

subsection \<open>Two phases\<close>

definition rows_key :: "host \<Rightarrow> agg_spec \<Rightarrow> jsv \<Rightarrow> string option" where
  "rows_key h n = group_key h getPathValue (as_groupBy n)"

text \<open>The bucket one pass makes of the rows of one group, and the partial row it becomes.\<close>

definition group_bucket :: "host \<Rightarrow> agg_spec \<Rightarrow> jsv list \<Rightarrow> bucket" where
  "group_bucket h n rows = canonical_bucket getPathValue (stepField h) n rows"

definition group_row :: "host \<Rightarrow> agg_spec \<Rightarrow> jsv list \<Rightarrow> jobj" where
  "group_row h n rows = partial_row n (group_bucket h n rows)"

definition all_buckets :: "host \<Rightarrow> agg_spec \<Rightarrow> jsv list \<Rightarrow> bucket list" where
  "all_buckets h n rows =
     map (\<lambda>k. group_bucket h n (filter (\<lambda>r. rows_key h n r = k) rows)) (js_unique (map (rows_key h n) rows))"

lemma field_state_group:
  "distinct (result_keys n) \<Longrightarrow> f \<in> set (as_fields n) \<Longrightarrow> field_state (group_bucket h n rows) f = field_fold h f rows"
  by (simp add: group_bucket_def field_fold_def field_state_canonical)

lemma partials_are_groups:
  assumes "no_clash n"
  shows "map (partial_row n) (jm_vals (partial_buckets h n rows)) =
    map (\<lambda>k. group_row h n (filter (\<lambda>r. rows_key h n r = k) rows)) (js_unique (map (rows_key h n) rows))"
proof -
  have "distinct (result_keys n)" using assms by (simp add: no_clash_def)
  then show ?thesis
    by (simp add: partial_buckets_def group_fold_buckets bucket_of_canonical group_row_def group_bucket_def rows_key_def comp_def)
qed

lemma group_row_values:
  assumes "no_clash n"
  shows "path \<in> set (as_groupBy n) \<Longrightarrow> oget (group_row h n rows) path = stored_value (getPathValue (hd rows) path)"
    and "f \<in> set (as_fields n) \<Longrightarrow> shows_state (group_row h n rows) f (field_fold h f rows)"
proof -
  have d: "distinct (result_keys n)" using assms by (simp add: no_clash_def)
  have typed: "typed_state f (field_state (group_bucket h n rows) f)" if "f \<in> set (as_fields n)" for f
    using typed_fold [of f h rows] field_state_group [OF d that, of h rows] by (simp add: field_fold_def)
  show "path \<in> set (as_groupBy n) \<Longrightarrow> oget (group_row h n rows) path = stored_value (getPathValue (hd rows) path)"
    using partial_row_get(1) [OF assms typed] group_values_get [of path "as_groupBy n" getPathValue "hd rows"]
    by (simp add: group_row_def group_bucket_def canonical_bucket_def)
  show "f \<in> set (as_fields n) \<Longrightarrow> shows_state (group_row h n rows) f (field_fold h f rows)"
    using partial_row_get(2) [OF assms typed, of f] field_state_group [OF d, of f h rows] by (simp add: group_row_def)
qed

lemma stored_idem [simp]: "stored_value (stored_value v) = stored_value v"
  by (simp add: stored_value_def)

lemma group_row_key:
  assumes "no_clash n"
  shows "group_key h oget (as_groupBy n) (group_row h n rows) = rows_key h n (hd rows)"
    and "group_values oget (as_groupBy n) (group_row h n rows) = group_values getPathValue (as_groupBy n) (hd rows)"
proof -
  have v: "stored_value (oget (group_row h n rows) path) = stored_value (getPathValue (hd rows) path)"
    if "path \<in> set (as_groupBy n)" for path
    using group_row_values(1) [OF assms that] by simp
  then show "group_key h oget (as_groupBy n) (group_row h n rows) = rows_key h n (hd rows)"
    by (simp add: group_key_def rows_key_def cong: map_cong)
  show "group_values oget (as_groupBy n) (group_row h n rows) = group_values getPathValue (as_groupBy n) (hd rows)"
    unfolding group_values_def by (rule foldl_cong) (simp_all add: v)
qed

lemma merge_fold:
  assumes "collation h" and "no_clash n" and "mergeable n B (concat yss)" and "f \<in> set (as_fields n)"
  shows "foldl (\<lambda>st r. mergePartialField h st f r) (fieldState f) (map (group_row h n) yss) = field_fold h f (concat yss)"
  using assms(3)
proof (induction yss rule: rev_induct)
  case Nil
  show ?case by (simp add: field_fold_def)
next
  case (snoc ys yss)
  have B: "1 \<le> B" "int (length (concat yss)) * B \<le> 2 ^ 53"
  proof -
    show B1: "1 \<le> B" using snoc.prems by (simp add: mergeable_def)
    have "int (length (concat yss)) * B \<le> int (length (concat (yss @ [ys]))) * B" using B1 by (simp add: algebra_simps)
    also have "\<dots> \<le> 2 ^ 53" using snoc.prems by (simp only: mergeable_def)
    finally show "int (length (concat yss)) * B \<le> 2 ^ 53" .
  qed
  have sub: "set (concat yss) \<subseteq> set (concat (yss @ [ys]))" by simp
  have "mergeable n B (concat yss)"
    using snoc.prems B sub unfolding mergeable_def by blast
  with snoc.IH merge_field [OF assms(1) _ assms(4) group_row_values(2) [OF assms(2,4)], of B "concat yss" ys] snoc.prems
  show ?case by simp
qed

lemma filter_keys_concat:
  "filter P (concat (map (\<lambda>xs. map (g xs) (ks xs)) xss)) = concat (map (\<lambda>xs. map (g xs) (filter (\<lambda>k. P (g xs k)) (ks xs))) xss)"
  by (simp add: filter_concat filter_map comp_def)

text \<open>Merging the partial rows of any split gives the buckets of one pass.\<close>

lemma merged_buckets:
  assumes "collation h" and "no_clash n" and "mergeable n B (concat xss)"
  shows "jm_vals (group_fold (group_key h oget (as_groupBy n)) (new_bucket oget n) (step_bucket (mergePartialField h) n)
      (concat (map (\<lambda>rows. map (partial_row n) (jm_vals (partial_buckets h n rows))) xss))) =
    all_buckets h n (concat xss)"
proof -
  let ?key = "rows_key h n"
  define of_key where "of_key xs k = filter (\<lambda>r. ?key r = k) xs" for xs k
  define prows where "prows = concat (map (\<lambda>xs. map (\<lambda>k. group_row h n (of_key xs k)) (js_unique (map ?key xs))) xss)"
  have d: "distinct (result_keys n)" using assms(2) by (simp add: no_clash_def)
  have hd_key: "?key (hd (of_key xs k)) = k" if "k \<in> set (js_unique (map ?key xs))" for xs k
  proof -
    have "of_key xs k \<noteq> []" using that by (auto simp: of_key_def filter_empty_conv)
    then have "hd (of_key xs k) \<in> set (of_key xs k)" by (rule hd_in_set)
    then show ?thesis by (simp add: of_key_def)
  qed
  have keys: "map (group_key h oget (as_groupBy n)) prows = concat (map js_unique (map (map ?key) xss))"
    unfolding prows_def map_concat map_map comp_def group_row_key(1) [OF assms(2)]
    by (intro arg_cong [of _ _ concat] map_cong refl map_idI) (rule hd_key)
  have one: "bucket_of (new_bucket oget n) (step_bucket (mergePartialField h) n) (filter (\<lambda>p. group_key h oget (as_groupBy n) p = k) prows) =
      group_bucket h n (of_key (concat xss) k)" if k: "k \<in> set (js_unique (map ?key (concat xss)))" for k
  proof -
    define yss where "yss = filter (\<lambda>ys. ys \<noteq> []) (map (\<lambda>xs. of_key xs k) xss)"
    have part: "map (\<lambda>k. group_row h n (of_key xs k)) (filter (\<lambda>k'. ?key (hd (of_key xs k')) = k) (js_unique (map ?key xs))) =
        map (group_row h n) (filter (\<lambda>ys. ys \<noteq> []) [of_key xs k])" for xs
    proof -
      have "filter (\<lambda>k'. ?key (hd (of_key xs k')) = k) (js_unique (map ?key xs)) = filter (\<lambda>k'. k' = k) (js_unique (map ?key xs))"
        by (rule filter_cong) (auto simp: hd_key)
      also have "\<dots> = (if k \<in> ?key ` set xs then [k] else [])" by (simp add: filter_unique)
      finally show ?thesis by (auto simp: of_key_def filter_empty_conv)
    qed
    have "filter (\<lambda>p. group_key h oget (as_groupBy n) p = k) prows =
        concat (map (\<lambda>xs. map (group_row h n) (filter (\<lambda>ys. ys \<noteq> []) [of_key xs k])) xss)"
      unfolding prows_def filter_keys_concat group_row_key(1) [OF assms(2)] part ..
    also have "\<dots> = map (group_row h n) yss"
      unfolding yss_def by (induction xss) simp_all
    finally have mine: "filter (\<lambda>p. group_key h oget (as_groupBy n) p = k) prows = map (group_row h n) yss" .
    have whole: "concat yss = of_key (concat xss) k"
      unfolding yss_def of_key_def by (induction xss) auto
    have "of_key (concat xss) k \<noteq> []" using k by (auto simp: of_key_def filter_empty_conv)
    with whole have ne: "yss \<noteq> []" by auto
    then have hd: "hd (map (group_row h n) yss) = group_row h n (hd yss)" "hd (concat yss) = hd (hd yss)"
    proof -
      obtain y ys where y: "yss = y # ys" using ne by (cases yss) auto
      then have "y \<in> set yss" by simp
      then have "y \<noteq> []" by (auto simp: yss_def)
      with y show "hd (map (group_row h n) yss) = group_row h n (hd yss)" "hd (concat yss) = hd (hd yss)" by auto
    qed
    have sub: "set (concat yss) \<subseteq> set (concat xss)" "length (concat yss) \<le> length (concat xss)"
      unfolding whole of_key_def by auto
    have "mergeable n B (concat yss)"
    proof -
      have B: "1 \<le> B" "int (length (concat xss)) * B \<le> 2 ^ 53" using assms(3) unfolding mergeable_def by blast+
      have "int (length (concat yss)) * B \<le> int (length (concat xss)) * B" using sub(2) B(1) by (intro mult_right_mono) simp_all
      also note B(2)
      finally have "int (length (concat yss)) * B \<le> 2 ^ 53" .
      with assms(3) sub(1) show ?thesis unfolding mergeable_def by blast
    qed
    note merge = merge_fold [OF assms(1,2) this]
    have "bucket_of (new_bucket oget n) (step_bucket (mergePartialField h) n) (map (group_row h n) yss) =
        \<lparr>bk_groupValues = group_values oget (as_groupBy n) (group_row h n (hd yss)),
         bk_fields = map (\<lambda>f. (af_key f, field_fold h f (concat yss))) (as_fields n)\<rparr>"
      using merge by (simp add: bucket_of_canonical [OF d] canonical_bucket_def hd(1) cong: map_cong)
    also have "\<dots> = group_bucket h n (concat yss)"
      by (simp add: group_bucket_def canonical_bucket_def group_row_key(2) [OF assms(2)] hd(2) field_fold_def)
    finally show ?thesis by (simp add: mine whole)
  qed
  have "js_unique (map (group_key h oget (as_groupBy n)) prows) = js_unique (map ?key (concat xss))"
    by (simp only: keys js_unique_concat map_concat)
  moreover have "concat (map (\<lambda>rows. map (partial_row n) (jm_vals (partial_buckets h n rows))) xss) = prows"
    by (simp only: partials_are_groups [OF assms(2)] prows_def of_key_def)
  ultimately show ?thesis
    using one by (simp add: group_fold_buckets all_buckets_def of_key_def comp_def cong: map_cong)
qed

lemma merge_result:
  assumes "normalizeAggregateSpec h spec = Inr n"
  shows "mergeAggregatePartials h ps spec = Inr (finish_rows h n (map (finished_row n)
    (jm_vals (group_fold (group_key h oget (as_groupBy n)) (new_bucket oget n) (step_bucket (mergePartialField h) n) ps))))"
  using assms
  by (simp add: mergeAggregatePartials_def aggregatePartialBuckets_def finish_rows_def page_of_def group_fold_def)

lemma partial_result:
  assumes "normalizeAggregateSpec h spec = Inr n"
  shows "aggregatePartialObjects h rows spec = Inr (map (partial_row n) (jm_vals (partial_buckets h n rows)))"
  using assms by (simp add: aggregatePartialObjects_def partial_buckets_def group_fold_def)

lemma merge_partials:
  assumes "normalizeAggregateSpec h spec = Inr n" and "collation h" and "no_clash n" and "mergeable n B (concat shards)"
    and "list_all2 (\<lambda>rows ps. aggregatePartialObjects h rows spec = Inr ps) shards partials"
  shows "mergeAggregatePartials h (concat partials) spec = aggregateObjects h (concat shards) spec"
proof -
  let ?partial = "\<lambda>rows. map (partial_row n) (jm_vals (partial_buckets h n rows))"
  have "partials = map ?partial shards"
    using assms(5) by (induction rule: list_all2_induct) (simp_all add: partial_result [OF assms(1)])
  then have "mergeAggregatePartials h (concat partials) spec =
      Inr (finish_rows h n (map (finished_row n) (all_buckets h n (concat shards))))"
    using merged_buckets [OF assms(2-4)] by (simp only: merge_result [OF assms(1)])
  moreover have "aggregateObjects h (concat shards) spec =
      Inr (finish_rows h n (map (finished_row n) (all_buckets h n (concat shards))))"
  proof -
    have one: "mergeable n B (concat [concat shards])" using assms(4) by simp
    have "aggregateObjects h (concat shards) spec =
        mergeAggregatePartials h (concat (map ?partial [concat shards])) spec"
      by (simp add: aggregateObjects_def partial_result [OF assms(1)])
    then show ?thesis using merged_buckets [OF assms(2,3) one] by (simp only: merge_result [OF assms(1)]) simp
  qed
  ultimately show ?thesis by simp
qed

text \<open>C8: Aggregating in two phases is exact: when every shard computes the partial aggregate of its rows and the partial
rows of all shards are merged, the result is the aggregate of all the rows, whatever the split, as long as the result keys do
not clash, the sums are integers within the range doubles count exactly, and a minimum or maximum is over values of one
type.\<close>

theorem distributed_aggregate:
  assumes "normalizeAggregateSpec h spec = Inr n" and "collation h" and "no_clash n" and "mergeable n B (concat shards)"
    and "list_all2 (\<lambda>rows ps. aggregatePartialObjects h rows spec = Inr ps) shards partials"
  shows "mergeAggregatePartials h (concat partials) spec = aggregateObjects h (concat shards) spec"
  using assms by (rule merge_partials)

definition example_spec :: jsv where
  "example_spec = JObj [(''groupBy'', JStr ''g''),
     (''fields'', JObj [(''n'', JObj [(''$count'', JBool True)]), (''t'', JObj [(''$sum'', JStr ''x'')]),
                        (''low'', JObj [(''$min'', JStr ''x'')])])]"

definition example_row :: "string \<Rightarrow> int \<Rightarrow> jsv" where
  "example_row g x = JObj [(''g'', JStr g), (''x'', JNum (num_of_int x))]"

theorem distributed_aggregate_witness:
  "\<exists>p1 p2. aggregatePartialObjects plain_host [example_row ''a'' 4, example_row ''b'' 5] example_spec = Inr p1 \<and>
     aggregatePartialObjects plain_host [example_row ''a'' 2] example_spec = Inr p2 \<and>
     mergeAggregatePartials plain_host (p1 @ p2) example_spec =
       aggregateObjects plain_host [example_row ''a'' 4, example_row ''b'' 5, example_row ''a'' 2] example_spec"
proof -
  define n where "n = \<lparr>as_groupBy = [''g''],
    as_fields = [\<lparr>af_key = ''n'', af_op = OpCount, af_operand = JBool True\<rparr>, \<lparr>af_key = ''t'', af_op = OpSum, af_operand = JStr ''x''\<rparr>,
      \<lparr>af_key = ''low'', af_op = OpMin, af_operand = JStr ''x''\<rparr>], as_sort = [], as_page = 1, as_pageSize = 20\<rparr>"
  have norm: "normalizeAggregateSpec plain_host example_spec = Inr n"
    by (simp add: normalizeAggregateSpec_def example_spec_def oget_def normalizeGroupBy_def nullish_def
        normalizeFields_def normalizeField_def aggregateOperators_def is_path_def normalizeSort_def
        normalizePositiveInteger_def n_def)
  have clash: "no_clash n" by (simp add: no_clash_def result_keys_def partial_keys_def write_keys_def n_def)
  let ?rows = "[[example_row ''a'' 4, example_row ''b'' 5], [example_row ''a'' 2]]"
  have path: "getPathValue (example_row g x) ''x'' = JNum (num_of_int x)" for g x
    by (simp add: getPathValue_def example_row_def nullish_def oget_def)
  have ok: "mergeable n 10 (concat ?rows)"
    by (auto simp: mergeable_def n_def operand_path_def path small_int_def)
  let ?p = "\<lambda>rows. map (partial_row n) (jm_vals (partial_buckets plain_host n rows))"
  have "list_all2 (\<lambda>rows ps. aggregatePartialObjects plain_host rows example_spec = Inr ps) ?rows (map ?p ?rows)"
    by (simp add: partial_result [OF norm])
  from distributed_aggregate [OF norm plain_collation clash ok this] show ?thesis
    by (simp add: partial_result [OF norm])
qed

end
