(* ===== verification/IndexOrder.thy ===== *)
theory IndexOrder
  imports FieldIndex AggregateMerge
begin

text \<open>
  What a field index of src/src/store.js says of groups and of order: \<open>iterateGroups\<close> partitions the rows by value, and
  \<open>find\<close> pages through the matching rows in the order of their values.
\<close>

subsection \<open>Groups\<close>

lemma ordered_entry:
  assumes "ordered_ok h fi" and "(key, b) \<in> set (fi_ordered fi)"
  shows "orderedValueKey h (ob_value b) = key" "ob_ids b \<noteq> []" "distinct (ob_ids b)"
    "set (ob_ids b) = rows_with (fi_forward fi) (\<lambda>v. orderedValueKey h v = key)"
proof -
  have bag: "bag_ok (ordered_bag (fi_ordered fi))" using assms(1) by (simp add: ordered_ok_def)
  have keys: "jm_keys (ordered_bag m) = jm_keys m" for m unfolding ordered_bag_def by (induction m) auto
  have "jm_ok (ordered_bag (fi_ordered fi))" using bag by (simp only: bag_ok_def)
  then have "jm_ok (fi_ordered fi)" by (simp only: keys)
  with assms(2) have get: "jm_get (fi_ordered fi) key = Some b" by simp
  then have bget: "jm_get (ordered_bag (fi_ordered fi)) key = Some (ob_ids b)" by (simp add: ordered_bag_None)
  with bag show "ob_ids b \<noteq> []" "distinct (ob_ids b)" by (simp_all add: bag_ok_def)
  from get assms(1) show "orderedValueKey h (ob_value b) = key" by (simp add: ordered_ok_def)
  have "bag_get (ordered_bag (fi_ordered fi)) key = ob_ids b" using bget by (simp add: bag_get_def)
  with assms(1) show "set (ob_ids b) = rows_with (fi_forward fi) (\<lambda>v. orderedValueKey h v = key)"
    by (metis ordered_ok_def)
qed

lemma ordered_covers:
  assumes "ordered_ok h fi" and "jm_get (fi_forward fi) rid = Some v"
  shows "\<exists>b. (orderedValueKey h v, b) \<in> set (fi_ordered fi) \<and> rid \<in> set (ob_ids b)"
proof -
  have "rid \<in> set (bag_get (ordered_bag (fi_ordered fi)) (orderedValueKey h v))"
    using assms by (auto simp: ordered_ok_def rows_with_def)
  then obtain b where "jm_get (fi_ordered fi) (orderedValueKey h v) = Some b" "rid \<in> set (ob_ids b)"
    by (cases "jm_get (fi_ordered fi) (orderedValueKey h v)") (simp_all add: ordered_bag_get)
  then show ?thesis by (auto dest: map_of_SomeD)
qed

lemma ordered_keys_distinct: "ordered_ok h fi \<Longrightarrow> jm_ok (fi_ordered fi)"
proof -
  assume "ordered_ok h fi"
  then have "jm_ok (ordered_bag (fi_ordered fi))" by (simp add: ordered_ok_def bag_ok_def)
  moreover have "jm_keys (ordered_bag m) = jm_keys m" for m unfolding ordered_bag_def by (induction m) auto
  ultimately show ?thesis by simp
qed

lemma iterateGroups_all:
  assumes "ordered_ok h fi"
  shows "iterateGroups fi None = map (\<lambda>(key, b). (ob_value b, ob_ids b)) (fi_ordered fi)"
proof -
  have "filter (\<lambda>(v, ids). ids \<noteq> []) (map (\<lambda>b. (ob_value b, ob_ids b)) (jm_vals m)) = map (\<lambda>(key, b). (ob_value b, ob_ids b)) m"
    if "\<forall>(key, b) \<in> set m. ob_ids b \<noteq> []" for m :: "(string, obucket) jmap"
    using that by (induction m) auto
  moreover have "\<forall>(key, b) \<in> set (fi_ordered fi). ob_ids b \<noteq> []" using ordered_entry(2) [OF assms] by blast
  ultimately show ?thesis by (simp add: iterateGroups_def)
qed

text \<open>The groups of an index partition the rows: after any run of changes every row is in exactly one group, a group holds
exactly the rows whose value has the group value's stable key, no two groups share one, and the count a group reports under a
filter is the number of its rows the filter lets through.\<close>

theorem index_groups_exact:
  "(\<forall>(v, ids) \<in> set (iterateGroups (index_run h path ops) None).
      ids \<noteq> [] \<and> distinct ids \<and>
      set ids = {rid. \<exists>w. indexed_values ops rid = Some w \<and> orderedValueKey h w = orderedValueKey h v}) \<and>
   distinct (map (\<lambda>(v, ids). orderedValueKey h v) (iterateGroups (index_run h path ops) None)) \<and>
   (\<Union>(v, ids) \<in> set (iterateGroups (index_run h path ops) None). set ids) = dom (indexed_values ops) \<and>
   (distinct flt \<longrightarrow>
      (\<forall>(v, count) \<in> set (iterateGroupCounts (index_run h path ops) (Some flt) None).
         count = card {rid \<in> set flt. \<exists>w. indexed_values ops rid = Some w \<and> orderedValueKey h w = orderedValueKey h v}))"
proof -
  define fi where "fi = index_run h path ops"
  have ok: "ordered_ok h fi" and fw: "jm_get (fi_forward fi) = indexed_values ops"
    using index_run_ok [of h path ops] by (simp_all add: fi_def fi_ok_def)
  have rows: "rows_with (fi_forward fi) P = {rid. \<exists>w. indexed_values ops rid = Some w \<and> P w}" for P
    by (simp add: rows_with_def fw)
  note all = iterateGroups_all [OF ok]
  have entry: "ids \<noteq> [] \<and> distinct ids \<and> set ids = {rid. \<exists>w. indexed_values ops rid = Some w \<and> orderedValueKey h w = orderedValueKey h v}"
    if "(v, ids) \<in> set (iterateGroups fi None)" for v ids
  proof -
    from that obtain key b where b: "(key, b) \<in> set (fi_ordered fi)" "v = ob_value b" "ids = ob_ids b" by (auto simp: all)
    with ordered_entry [OF ok b(1)] show ?thesis by (simp add: rows)
  qed
  moreover have "distinct (map (\<lambda>(v, ids). orderedValueKey h v) (iterateGroups fi None))"
  proof -
    have "map (\<lambda>(v, ids). orderedValueKey h v) (iterateGroups fi None) = jm_keys (fi_ordered fi)"
      unfolding all map_map by (rule map_cong [OF refl]) (use ordered_entry(1) [OF ok] in auto)
    with ordered_keys_distinct [OF ok] show ?thesis by simp
  qed
  moreover have "(\<Union>(v, ids) \<in> set (iterateGroups fi None). set ids) = dom (indexed_values ops)"
  proof (rule set_eqI)
    fix rid
    show "rid \<in> (\<Union>(v, ids) \<in> set (iterateGroups fi None). set ids) \<longleftrightarrow> rid \<in> dom (indexed_values ops)"
    proof
      assume "rid \<in> (\<Union>(v, ids) \<in> set (iterateGroups fi None). set ids)"
      then obtain v ids where "(v, ids) \<in> set (iterateGroups fi None)" "rid \<in> set ids" by auto
      with entry show "rid \<in> dom (indexed_values ops)" by auto
    next
      assume "rid \<in> dom (indexed_values ops)"
      then obtain v where "jm_get (fi_forward fi) rid = Some v" by (auto simp: fw)
      from ordered_covers [OF ok this] obtain b where b: "(orderedValueKey h v, b) \<in> set (fi_ordered fi)" "rid \<in> set (ob_ids b)"
        by blast
      from b(1) have "(ob_value b, ob_ids b) \<in> set (iterateGroups fi None)" unfolding all by force
      with b(2) show "rid \<in> (\<Union>(v, ids) \<in> set (iterateGroups fi None). set ids)" by auto
    qed
  qed
  moreover have "count = card {rid \<in> set flt. \<exists>w. indexed_values ops rid = Some w \<and> orderedValueKey h w = orderedValueKey h v}"
    if flt: "distinct flt" and mem: "(v, count) \<in> set (iterateGroupCounts fi (Some flt) None)" for v count
  proof -
    from mem obtain key b where b: "(key, b) \<in> set (fi_ordered fi)" "v = ob_value b"
      "count = countIntersectingSets [Some (ob_ids b), Some flt, None]" by (auto simp: iterateGroupCounts_def)
    have "countIntersectingSets [Some (ob_ids b), Some flt, None] = countIntersection (ob_ids b) flt"
      by (simp add: countIntersectingSets_def map_filter_simps)
    also have "\<dots> = card (set (ob_ids b) \<inter> set flt)"
      using ordered_entry(3) [OF ok b(1)] flt by (rule countIntersection_card)
    also have "set (ob_ids b) \<inter> set flt = {rid \<in> set flt. \<exists>w. indexed_values ops rid = Some w \<and> orderedValueKey h w = orderedValueKey h v}"
      using ordered_entry(1,4) [OF ok b(1)] by (auto simp: rows b(2))
    finally show ?thesis by (simp add: b(3))
  qed
  ultimately show ?thesis unfolding fi_def [symmetric] by blast
qed

theorem index_groups_exact_witness:
  "iterateGroupCounts (index_run plain_host ''g'' [IPut 0 (JStr ''a''), IPut 1 (JStr ''b''), IPut 2 (JStr ''a'')]) (Some [0, 1, 7]) None
     = [(JStr ''a'', 1), (JStr ''b'', 1)] \<and>
   (1 :: nat) = card {rid \<in> set [0, 1, 7]. \<exists>w. indexed_values [IPut 0 (JStr ''a''), IPut 1 (JStr ''b''), IPut 2 (JStr ''a'')] rid = Some w \<and>
     orderedValueKey plain_host w = orderedValueKey plain_host (JStr ''a'')}"
proof -
  have c: "iterateGroupCounts (index_run plain_host ''g'' [IPut 0 (JStr ''a''), IPut 1 (JStr ''b''), IPut 2 (JStr ''a'')]) (Some [0, 1, 7]) None
     = [(JStr ''a'', 1), (JStr ''b'', 1)]"
    by code_simp
  have "distinct [0 :: nat, 1, 7]" by simp
  with index_groups_exact [of plain_host "''g''" "[IPut 0 (JStr ''a''), IPut 1 (JStr ''b''), IPut 2 (JStr ''a'')]" "[0, 1, 7]"]
  have "\<forall>(v, count) \<in> set [(JStr ''a'', 1 :: nat), (JStr ''b'', 1)].
      count = card {rid \<in> set [0, 1, 7]. \<exists>w. indexed_values [IPut 0 (JStr ''a''), IPut 1 (JStr ''b''), IPut 2 (JStr ''a'')] rid = Some w \<and>
        orderedValueKey plain_host w = orderedValueKey plain_host v}"
    unfolding c by blast
  then have "(1 :: nat) = card {rid \<in> set [0, 1, 7]. \<exists>w. indexed_values [IPut 0 (JStr ''a''), IPut 1 (JStr ''b''), IPut 2 (JStr ''a'')] rid = Some w \<and>
        orderedValueKey plain_host w = orderedValueKey plain_host (JStr ''a'')}"
    by (simp only: list.set ball_simps case_prod_conv)
  with c show ?thesis by blast
qed

subsection \<open>Order\<close>

lemma find_loop_page:
  assumes "\<forall>l. limit = Some l \<longrightarrow> length results < l" and "skipped \<le> offset" and "skipped < offset \<Longrightarrow> results = []"
  shows "find_loop wanted read matches offset limit rids skipped results =
    results @ (case limit of None \<Rightarrow> id | Some l \<Rightarrow> take (l - length results))
      (drop (offset - skipped) (filter matches (List.map_filter read (filter wanted rids))))"
  using assms
proof (induction rids arbitrary: skipped results)
  case Nil
  show ?case by (simp add: map_filter_simps split: option.split)
next
  case (Cons rid rids)
  show ?case
  proof (cases "wanted rid \<and> (\<exists>x. read rid = Some x \<and> matches x)")
    case False
    then have "find_loop wanted read matches offset limit (rid # rids) skipped results =
        find_loop wanted read matches offset limit rids skipped results" by (auto split: option.split)
    moreover have "filter matches (List.map_filter read (filter wanted (rid # rids))) =
        filter matches (List.map_filter read (filter wanted rids))"
      using False by (auto simp: map_filter_simps split: option.split)
    ultimately show ?thesis using Cons by simp
  next
    case True
    then obtain x where x: "wanted rid" "read rid = Some x" "matches x" by blast
    then have rest: "filter matches (List.map_filter read (filter wanted (rid # rids))) =
        x # filter matches (List.map_filter read (filter wanted rids))" by (simp add: map_filter_simps)
    show ?thesis
    proof (cases "skipped < offset")
      case True
      then have "find_loop wanted read matches offset limit (rid # rids) skipped results =
          find_loop wanted read matches offset limit rids (skipped + 1) results" using x by simp
      moreover have "offset - skipped = Suc (offset - (skipped + 1))" using True by simp
      ultimately show ?thesis using Cons.IH [of results "skipped + 1"] Cons.prems True rest by simp
    next
      case False
      then have off: "offset - skipped = 0" by simp
      show ?thesis
      proof (cases "limit = Some (length results + 1)")
        case True
        then show ?thesis using x False rest off by simp
      next
        case more: False
        then have go: "\<not> (case limit of None \<Rightarrow> False | Some l \<Rightarrow> l \<le> length (results @ [x]))"
          using Cons.prems(1) by (auto split: option.split)
        then have "find_loop wanted read matches offset limit (rid # rids) skipped results =
            find_loop wanted read matches offset limit rids skipped (results @ [x])" using x False by simp
        also have e: "\<dots> = (results @ [x]) @ (case limit of None \<Rightarrow> id | Some l \<Rightarrow> take (l - length (results @ [x])))
            (drop (offset - skipped) (filter matches (List.map_filter read (filter wanted rids))))"
          by (rule Cons.IH) (use go False Cons.prems(2) in auto)
        finally have e: "find_loop wanted read matches offset limit (rid # rids) skipped results =
            (results @ [x]) @ (case limit of None \<Rightarrow> id | Some l \<Rightarrow> take (l - length (results @ [x])))
              (drop (offset - skipped) (filter matches (List.map_filter read (filter wanted rids))))" .
        have "(case limit of None \<Rightarrow> id | Some l \<Rightarrow> take (l - length results)) (x # ys) =
            x # (case limit of None \<Rightarrow> id | Some l \<Rightarrow> take (l - length (results @ [x]))) ys" for ys
          using go by (cases limit) (simp_all add: take_Cons')
        then show ?thesis unfolding e rest off by simp
      qed
    qed
  qed
qed

text \<open>A comparator that orders a set of elements consistently.\<close>

definition consistent :: "('a \<Rightarrow> 'a \<Rightarrow> int) \<Rightarrow> 'a set \<Rightarrow> bool" where
  "consistent cmp A \<longleftrightarrow>
     (\<forall>x \<in> A. \<forall>y \<in> A. cmp x y \<le> 0 \<or> cmp y x \<le> 0) \<and>
     (\<forall>x \<in> A. \<forall>y \<in> A. \<forall>z \<in> A. cmp x y \<le> 0 \<longrightarrow> cmp y z \<le> 0 \<longrightarrow> cmp x z \<le> 0)"

lemma js_insert_sorted:
  assumes "consistent cmp A" and "x \<in> A" and "set xs \<subseteq> A" and "sorted_wrt (\<lambda>a b. cmp a b \<le> 0) xs"
  shows "sorted_wrt (\<lambda>a b. cmp a b \<le> 0) (js_insert cmp x xs)"
  using assms(3,4)
proof (induction xs)
  case (Cons y ys)
  have y: "y \<in> A" "set ys \<subseteq> A" using Cons.prems(1) by auto
  show ?case
  proof (cases "cmp x y \<le> 0")
    case True
    have "cmp x z \<le> 0" if "z \<in> set ys" for z
    proof -
      have "cmp y z \<le> 0" "z \<in> A" using Cons.prems(2) that y(2) by auto
      moreover have "\<forall>x \<in> A. \<forall>y \<in> A. \<forall>z \<in> A. cmp x y \<le> 0 \<longrightarrow> cmp y z \<le> 0 \<longrightarrow> cmp x z \<le> 0"
        using assms(1) unfolding consistent_def by (rule conjunct2)
      ultimately show ?thesis using True assms(2) y(1) by blast
    qed
    with True Cons.prems(2) show ?thesis by auto
  next
    case False
    moreover have "\<forall>x \<in> A. \<forall>y \<in> A. cmp x y \<le> 0 \<or> cmp y x \<le> 0" using assms(1) unfolding consistent_def by (rule conjunct1)
    ultimately have "cmp y x \<le> 0" using assms(2) y(1) by blast
    with False Cons y show ?thesis by auto
  qed
qed simp

lemma js_sort_sorted:
  assumes "consistent cmp A" and "set xs \<subseteq> A" shows "sorted_wrt (\<lambda>a b. cmp a b \<le> 0) (js_sort cmp xs)"
  using assms(2)
proof (induction xs)
  case (Cons x xs)
  then show ?case using js_insert_sorted [OF assms(1), of x "js_sort cmp xs"] by simp
qed simp

lemma lex_consistent:
  assumes "\<forall>x \<in> A. \<forall>y \<in> A. c x y < 0 \<longleftrightarrow> 0 < c y x" and "\<forall>x \<in> A. \<forall>y \<in> A. \<forall>z \<in> A. c x y \<le> 0 \<longrightarrow> c y z \<le> 0 \<longrightarrow> c x z \<le> 0"
    and "\<forall>x \<in> A. \<forall>y \<in> A. d x y < 0 \<longleftrightarrow> 0 < d y x" and "\<forall>x \<in> A. \<forall>y \<in> A. \<forall>z \<in> A. d x y \<le> 0 \<longrightarrow> d y z \<le> 0 \<longrightarrow> d x z \<le> 0"
    and lex: "\<And>x y. lx x y = (if c x y \<noteq> 0 then c x y else d x y :: int)"
  shows "consistent lx A"
proof -
  have le: "lx x y \<le> 0 \<longleftrightarrow> c x y < 0 \<or> c x y = 0 \<and> d x y \<le> 0" for x y
    using lex [of x y] by (cases "c x y = 0") (simp_all, linarith)
  have ca: "c x y < 0 \<longleftrightarrow> 0 < c y x" "d x y < 0 \<longleftrightarrow> 0 < d y x" if "x \<in> A" "y \<in> A" for x y
    using assms(1,3) that by blast+
  have ct: "c x y \<le> 0 \<Longrightarrow> c y z \<le> 0 \<Longrightarrow> c x z \<le> 0" "d x y \<le> 0 \<Longrightarrow> d y z \<le> 0 \<Longrightarrow> d x z \<le> 0"
    if "x \<in> A" "y \<in> A" "z \<in> A" for x y z
    using assms(2,4) that by blast+
  have "lx x y \<le> 0 \<or> lx y x \<le> 0" if "x \<in> A" "y \<in> A" for x y
    unfolding le using ca [OF that] ca [OF that(2,1)] by linarith
  moreover have "lx x z \<le> 0" if m: "x \<in> A" "y \<in> A" "z \<in> A" and l: "lx x y \<le> 0" "lx y z \<le> 0" for x y z
  proof -
    have xy: "c x y \<le> 0" "c y z \<le> 0" using l unfolding le by linarith+
    then have "c x z \<le> 0" by (rule ct(1) [OF m])
    moreover have "d x z \<le> 0" if "c x z = 0"
    proof -
      have zx: "c z x \<le> 0" using ca(1) [OF m(1,3)] that by linarith
      have "c y x \<le> 0" by (rule ct(1) [OF m(2,3,1) xy(2) zx])
      then have "c x y = 0" using xy(1) ca(1) [OF m(1,2)] by linarith
      moreover have "c z y \<le> 0" by (rule ct(1) [OF m(3,1,2) zx xy(1)])
      then have "c y z = 0" using xy(2) ca(1) [OF m(2,3)] by linarith
      ultimately have "d x y \<le> 0" "d y z \<le> 0" using l unfolding le by linarith+
      then show ?thesis by (rule ct(2) [OF m])
    qed
    ultimately show ?thesis unfolding le by linarith
  qed
  ultimately show ?thesis unfolding consistent_def by blast
qed

lemma compare_total:
  assumes "collation h" and "v \<in> comparables t" and "w \<in> comparables t"
  shows "compareSortValues h v w < 0 \<longleftrightarrow> 0 < compareSortValues h w v"
proof -
  have anti: "localeCompare h a b < 0 \<longleftrightarrow> 0 < localeCompare h b a" for a b
    using assms(1) unfolding collation_def by blast
  have nums: "num_cmp a b < 0 \<longleftrightarrow> 0 < num_cmp b a" if "num_finite a" "num_finite b" for a b
    using that by (cases a; cases b) (auto simp: num_cmp_def num_finite_def)
  show ?thesis
    unfolding compare_same_type [OF assms] compare_same_type [OF assms(1,3,2)]
    using assms(2,3) anti nums by (cases v; cases w) (auto simp: comparables_def isComparable_def)
qed

lemma compare_consistent:
  assumes "collation h"
  shows "consistent (compareSortValues h) (comparables t)"
proof -
  have s: "sameTypeLessThan h v w \<longleftrightarrow> compareSortValues h v w < 0" if "v \<in> comparables t" "w \<in> comparables t" for v w
    using that by (simp add: sameTypeLessThan_def comparables_def)
  have le: "compareSortValues h v w \<le> 0 \<longleftrightarrow> \<not> sameTypeLessThan h w v" if "v \<in> comparables t" "w \<in> comparables t" for v w
    using compare_total [OF assms that(2,1)] s [OF that(2,1)] by linarith
  show ?thesis
    unfolding consistent_def
  proof (intro conjI ballI impI)
    fix v w assume "v \<in> comparables t" "w \<in> comparables t"
    then show "compareSortValues h v w \<le> 0 \<or> compareSortValues h w v \<le> 0"
      using compare_total [OF assms] by (metis linorder_not_less order_less_imp_le)
  next
    fix u v w assume m: "u \<in> comparables t" "v \<in> comparables t" "w \<in> comparables t"
      and "compareSortValues h u v \<le> 0" "compareSortValues h v w \<le> 0"
    then show "compareSortValues h u w \<le> 0"
      using weak_orderD(2) [OF min_weak_order [OF assms] m(3,2,1)] by (simp add: le)
  qed
qed

lemma sorted_wrt_concat:
  assumes "sorted_wrt (\<lambda>a b. \<forall>x \<in> set (f a). \<forall>y \<in> set (f b). P x y) ks" and "\<forall>k \<in> set ks. sorted_wrt P (f k)"
  shows "sorted_wrt P (concat (map f ks))"
  using assms by (induction ks) (auto simp: sorted_wrt_append)

lemma sorted_wrt_all: "(\<And>a b. a \<in> set xs \<Longrightarrow> b \<in> set xs \<Longrightarrow> P a b) \<Longrightarrow> sorted_wrt P xs"
  by (induction xs) auto

lemma sorted_wrt_members: "sorted_wrt R xs \<Longrightarrow> set xs \<subseteq> S \<Longrightarrow> sorted_wrt (\<lambda>p q. p \<in> S \<and> q \<in> S \<and> R p q) xs"
  by (induction xs) auto

lemma distinct_concat_map:
  assumes "distinct ks" and "\<forall>k \<in> set ks. distinct (f k)" and "\<forall>k \<in> set ks. \<forall>k' \<in> set ks. k \<noteq> k' \<longrightarrow> set (f k) \<inter> set (f k') = {}"
  shows "distinct (concat (map f ks))"
  using assms by (induction ks) auto

lemma distinct_map_sort: "distinct (map f (js_sort cmp xs)) = distinct (map f xs)"
proof -
  have ins: "distinct (map f (js_insert cmp x xs)) \<longleftrightarrow> f x \<notin> f ` set xs \<and> distinct (map f xs)" for x xs
    by (induction xs) auto
  show ?thesis by (induction xs) (auto simp: ins)
qed

text \<open>The values a run has written; a bucket's value is one of them.\<close>

definition written_values :: "index_op list \<Rightarrow> jsv set" where
  "written_values ops = {v. \<exists>rid. IPut rid v \<in> set ops}"

lemma removeRid_buckets: "(k, b) \<in> set (fi_ordered (removeRid h rid fi)) \<Longrightarrow> \<exists>b'. (k, b') \<in> set (fi_ordered fi) \<and> ob_value b' = ob_value b"
  by (auto simp: removeRid_def removeValue_def removeOrdered_def removeContainsState_def Let_def
      jm_mem_del split: option.splits if_splits dest!: jm_set_mem dest: map_of_SomeD)

lemma addValue_buckets:
  "(k, b) \<in> set (fi_ordered (addValue h rid v fi)) \<Longrightarrow> ob_value b = v \<or> (\<exists>b'. (k, b') \<in> set (fi_ordered fi) \<and> ob_value b' = ob_value b)"
  by (auto simp: addValue_def addOrdered_def addContainsState_def Let_def
      split: option.splits if_splits dest!: jm_set_mem dest: map_of_SomeD)

lemma bucket_values: "(k, b) \<in> set (fi_ordered (index_run h path ops)) \<Longrightarrow> ob_value b \<in> written_values ops"
proof (induction ops arbitrary: k b rule: rev_induct)
  case Nil
  then show ?case by (simp add: index_run_def newFieldIndex_def)
next
  case (snoc op ops)
  have step: "index_run h path (ops @ [op]) = index_step h (index_run h path ops) op" by (simp add: index_run_def)
  have old: "written_values ops \<subseteq> written_values (ops @ [op])" by (auto simp: written_values_def)
  show ?case
  proof (cases op)
    case (IPut rid v)
    then have "v \<in> written_values (ops @ [op])" by (auto simp: written_values_def)
    with snoc.prems IPut old show ?thesis unfolding step
      by (auto dest!: addValue_buckets removeRid_buckets) (metis snoc.IH subsetD)
  next
    case (IDrop rid)
    with snoc.prems old show ?thesis unfolding step
      by (auto dest!: removeRid_buckets) (metis snoc.IH subsetD)
  qed
qed

lemma indexed_written: "indexed_values ops rid = Some v \<Longrightarrow> v \<in> written_values ops"
proof (induction ops rule: rev_induct)
  case (snoc op ops)
  then show ?case by (cases op) (auto simp: indexed_values_def written_values_def split: if_splits)
qed (simp add: indexed_values_def)

lemma compare_refl: "compareSortValues h v v \<le> 0" if "v \<in> comparables t"
  using that by (cases v) (auto simp: comparables_def isComparable_def compareSortValues_def same_value_iff)

text \<open>C28: Paging through a sorted index is paging through the sorted rows: when the indexed values are of one comparable
type and are told apart by their stable keys, \<open>find\<close> returns the page that skips \<open>offset\<close> matches and takes \<open>limit\<close> of the
matching rows, in an enumeration that has every indexed row exactly once and is ascending, or descending, by value.\<close>

theorem index_find_ordered:
  assumes "collation h" and "\<forall>v \<in> written_values ops. v \<in> comparables t"
    and "\<forall>v \<in> written_values ops. \<forall>w \<in> written_values ops. orderedValueKey h v = orderedValueKey h w \<longrightarrow> v = w"
    and "index_find h (index_run h path ops) cands include desc offset limit read matches = (page, fi')"
  shows "\<exists>rids. distinct rids \<and> set rids = dom (indexed_values ops) \<and>
    sorted_wrt (\<lambda>a b. \<forall>v w. indexed_values ops (if desc then b else a) = Some v \<longrightarrow>
      indexed_values ops (if desc then a else b) = Some w \<longrightarrow> compareSortValues h v w \<le> 0) rids \<and>
    page = (case limit of None \<Rightarrow> id | Some l \<Rightarrow> take l) (drop offset (filter matches (List.map_filter read
      (filter (\<lambda>rid. (case cands of None \<Rightarrow> True | Some c \<Rightarrow> rid \<in> set c) \<and> (case include of None \<Rightarrow> True | Some p \<Rightarrow> p rid)) rids))))"
proof -
  define fi where "fi = index_run h path ops"
  have ok: "fi_ok h fi" and fw: "jm_get (fi_forward fi) = indexed_values ops"
    using index_run_ok [of h path ops] by (simp_all add: fi_def)
  then have o: "ordered_ok h fi" "sorted_ok h fi" by (simp_all add: fi_ok_def)
  define es where "es = js_sort (compare_ordered h) (fi_ordered fi)"
  have mem: "set es = set (fi_ordered fi)" by (simp add: es_def)
  have keys: "distinct (map fst es)" using ordered_keys_distinct [OF o(1)] by (simp add: es_def distinct_map_sort)
  define V :: "(string \<times> obucket) set" where "V = {p. ob_value (snd p) \<in> written_values ops \<and> fst p = orderedValueKey h (ob_value (snd p))}"
  have inV: "set (fi_ordered fi) \<subseteq> V"
    using bucket_values ordered_entry(1) [OF o(1)] by (auto simp: V_def fi_def)
  have cv: "compareSortValues h (ob_value (snd p)) (ob_value (snd q)) \<le> 0" if "compare_ordered h p q \<le> 0" for p q
    using that by (auto simp: compare_ordered_def Let_def split: if_splits)
  have sorted: "sorted_wrt (\<lambda>p q. compareSortValues h (ob_value (snd p)) (ob_value (snd q)) \<le> 0) es"
  proof -
    have "consistent (compare_ordered h) V"
    proof (rule lex_consistent)
      show "\<forall>x \<in> V. \<forall>y \<in> V. compareSortValues h (ob_value (snd x)) (ob_value (snd y)) < 0 \<longleftrightarrow> 0 < compareSortValues h (ob_value (snd y)) (ob_value (snd x))"
        using compare_total [OF assms(1), of _ t] assms(2) by (simp add: V_def)
      show "\<forall>x \<in> V. \<forall>y \<in> V. \<forall>z \<in> V. compareSortValues h (ob_value (snd x)) (ob_value (snd y)) \<le> 0 \<longrightarrow>
          compareSortValues h (ob_value (snd y)) (ob_value (snd z)) \<le> 0 \<longrightarrow> compareSortValues h (ob_value (snd x)) (ob_value (snd z)) \<le> 0"
        using compare_consistent [OF assms(1), of t] assms(2) unfolding consistent_def V_def by blast
      show "\<forall>x \<in> V. \<forall>y \<in> V. localeCompare h (fst x) (fst y) < 0 \<longleftrightarrow> 0 < localeCompare h (fst y) (fst x)"
        using assms(1) unfolding collation_def by blast
      show "\<forall>x \<in> V. \<forall>y \<in> V. \<forall>z \<in> V. localeCompare h (fst x) (fst y) \<le> 0 \<longrightarrow>
          localeCompare h (fst y) (fst z) \<le> 0 \<longrightarrow> localeCompare h (fst x) (fst z) \<le> 0"
        using assms(1) unfolding collation_def by blast
    qed (simp add: compare_ordered_def Let_def)
    from js_sort_sorted [OF this inV] show ?thesis
      unfolding es_def by (rule sorted_wrt_mono_rel [rotated]) (use cv in blast)
  qed
  define xs where "xs = (if desc then rev es else es)"
  define rids where "rids = concat (map (\<lambda>p. ob_ids (snd p)) xs)"
  have xs: "set xs = set (fi_ordered fi)" "distinct xs" using mem keys by (auto simp: xs_def distinct_map)
  have sk: "sortedOrderedKeys h fi = (map fst es, fi\<lparr>fi_sortedKeys := Some (map fst es)\<rparr>)"
    using o(2) by (cases "fi_sortedKeys fi") (simp_all add: sortedOrderedKeys_def sorted_ok_def es_def Let_def)
  have ids: "fst (orderedIds h desc fi) = rids"
  proof -
    have "jm_get (fi_ordered fi) (fst p) = Some (snd p)" if "p \<in> set xs" for p
    proof -
      have "(fst p, snd p) \<in> set (fi_ordered fi)" using that xs(1) by simp
      then show ?thesis by (rule map_of_is_SomeI [OF ordered_keys_distinct [OF o(1)]])
    qed
    then have "map (\<lambda>key. case jm_get (fi_ordered fi) key of None \<Rightarrow> [] | Some b \<Rightarrow> ob_ids b) (map fst xs) = map (\<lambda>p. ob_ids (snd p)) xs"
      by simp
    moreover have "(if desc then rev (map fst es) else map fst es) = map fst xs" by (simp add: xs_def rev_map)
    ultimately show ?thesis by (simp add: orderedIds_def sk rids_def comp_def cong: map_cong)
  qed
  have entry: "set (ob_ids (snd p)) = {rid. \<exists>w. indexed_values ops rid = Some w \<and> orderedValueKey h w = fst p}" "distinct (ob_ids (snd p))"
    if "p \<in> set xs" for p
    using that xs(1) ordered_entry(3,4) [OF o(1), of "fst p" "snd p"] by (simp_all add: rows_with_def fw)
  have "set rids = dom (indexed_values ops)"
  proof (rule set_eqI)
    fix rid
    show "rid \<in> set rids \<longleftrightarrow> rid \<in> dom (indexed_values ops)"
    proof
      assume "rid \<in> set rids"
      then obtain p where "p \<in> set xs" "rid \<in> set (ob_ids (snd p))" by (auto simp: rids_def)
      with entry show "rid \<in> dom (indexed_values ops)" by auto
    next
      assume "rid \<in> dom (indexed_values ops)"
      then obtain v where "jm_get (fi_forward fi) rid = Some v" by (auto simp: fw)
      from ordered_covers [OF o(1) this] show "rid \<in> set rids" unfolding rids_def using xs(1) by force
    qed
  qed
  moreover have "distinct rids"
    unfolding rids_def
  proof (rule distinct_concat_map [OF xs(2)])
    show "\<forall>p \<in> set xs. distinct (ob_ids (snd p))" using entry by blast
    have "p = q" if "p \<in> set xs" "q \<in> set xs" "fst p = fst q" for p q
      using that xs(1) ordered_keys_distinct [OF o(1)] by (metis distinct_map inj_onD)
    then show "\<forall>p \<in> set xs. \<forall>q \<in> set xs. p \<noteq> q \<longrightarrow> set (ob_ids (snd p)) \<inter> set (ob_ids (snd q)) = {}"
      using entry(1) by fastforce
  qed
  moreover have "sorted_wrt (\<lambda>a b. \<forall>v w. indexed_values ops (if desc then b else a) = Some v \<longrightarrow>
      indexed_values ops (if desc then a else b) = Some w \<longrightarrow> compareSortValues h v w \<le> 0) rids"
  proof -
    have val: "v = ob_value (snd p)" if "p \<in> set xs" "rid \<in> set (ob_ids (snd p))" "indexed_values ops rid = Some v" for p rid v
    proof -
      have "orderedValueKey h v = fst p" using entry(1) [OF that(1)] that(2,3) by auto
      moreover have "p \<in> V" using inV that(1) xs(1) by blast
      ultimately show ?thesis using assms(3) indexed_written [OF that(3)] by (auto simp: V_def)
    qed
    define R where "R = (\<lambda>p q. compareSortValues h (ob_value (snd (if desc then q else p))) (ob_value (snd (if desc then p else q :: string \<times> obucket))) \<le> 0)"
    have "sorted_wrt R xs" using sorted by (auto simp: R_def xs_def sorted_wrt_rev)
    then have "sorted_wrt (\<lambda>p q. p \<in> set xs \<and> q \<in> set xs \<and> R p q) xs"
      by (rule sorted_wrt_members) simp
    then have "sorted_wrt (\<lambda>p q. \<forall>a \<in> set (ob_ids (snd p)). \<forall>b \<in> set (ob_ids (snd q)). \<forall>v w.
        indexed_values ops (if desc then b else a) = Some v \<longrightarrow> indexed_values ops (if desc then a else b) = Some w \<longrightarrow>
        compareSortValues h v w \<le> 0) xs"
      by (rule sorted_wrt_mono_rel [rotated]) (use val in \<open>auto simp: R_def split: if_splits\<close>)
    then show ?thesis
      unfolding rids_def
    proof (rule sorted_wrt_concat)
      have "compareSortValues h v w \<le> 0"
        if "p \<in> set xs" "a \<in> set (ob_ids (snd p))" "b \<in> set (ob_ids (snd p))" "indexed_values ops a = Some v" "indexed_values ops b = Some w" for p a b v w
        using val [OF that(1,2,4)] val [OF that(1,3,5)] compare_refl assms(2) indexed_written [OF that(4)] by blast
      then show "\<forall>k \<in> set xs. sorted_wrt (\<lambda>a b. \<forall>v w. indexed_values ops (if desc then b else a) = Some v \<longrightarrow>
          indexed_values ops (if desc then a else b) = Some w \<longrightarrow> compareSortValues h v w \<le> 0) (ob_ids (snd k))"
        by (intro ballI sorted_wrt_all) (auto split: if_splits)
    qed
  qed
  moreover have "page = (case limit of None \<Rightarrow> id | Some l \<Rightarrow> take l) (drop offset (filter matches (List.map_filter read
      (filter (\<lambda>rid. (case cands of None \<Rightarrow> True | Some c \<Rightarrow> rid \<in> set c) \<and> (case include of None \<Rightarrow> True | Some p \<Rightarrow> p rid)) rids))))"
  proof (cases "limit = Some 0")
    case True
    with assms(4) show ?thesis by (simp add: index_find_def)
  next
    case False
    have "page = find_loop (\<lambda>rid. (case cands of None \<Rightarrow> True | Some c \<Rightarrow> rid \<in> set c) \<and> (case include of None \<Rightarrow> True | Some p \<Rightarrow> p rid))
        read matches offset limit rids 0 []"
      using assms(4) False ids unfolding fi_def [symmetric] by (auto simp: index_find_def split: prod.splits)
    with False show ?thesis by (subst (asm) find_loop_page) (auto split: option.split)
  qed
  ultimately show ?thesis by blast
qed

theorem index_find_ordered_witness:
  "\<exists>rids. distinct rids \<and> set rids = {0, 1, 2} \<and>
     fst (index_find plain_host (index_run plain_host ''n'' [IPut 0 (JStr ''b''), IPut 1 (JStr ''c''), IPut 2 (JStr ''a'')])
       None None True 1 (Some 2) (\<lambda>rid. Some rid) (\<lambda>rid. True)) = take 2 (drop 1 rids)"
proof -
  let ?ops = "[IPut 0 (JStr ''b''), IPut 1 (JStr ''c''), IPut 2 (JStr ''a'')]"
  obtain page fi' where f: "index_find plain_host (index_run plain_host ''n'' ?ops) None None True 1 (Some 2) (\<lambda>rid. Some rid) (\<lambda>rid. True) = (page, fi')"
    by (metis surj_pair)
  have w: "written_values ?ops = {JStr ''b'', JStr ''c'', JStr ''a''}" by (auto simp: written_values_def)
  have t: "\<forall>v \<in> written_values ?ops. v \<in> comparables ''string''" unfolding w by (simp add: comparables_def isComparable_def)
  have k: "\<forall>v \<in> written_values ?ops. \<forall>w \<in> written_values ?ops. orderedValueKey plain_host v = orderedValueKey plain_host w \<longrightarrow> v = w"
    unfolding w by (simp add: orderedValueKey_def stableKey_def json_stringify_def shown_def json_quote_def json_char_def Let_def)
  have d: "dom (indexed_values ?ops) = {0, 1, 2}" by (auto simp: indexed_values_def dom_def split: if_splits)
  have "List.map_filter Some xs = xs" for xs :: "nat list" by (induction xs) (simp_all add: map_filter_simps)
  then show ?thesis using index_find_ordered [OF plain_collation t k f] unfolding d f by auto
qed

end
