(* ===== verification/ColumnAggregate.thy ===== *)
theory ColumnAggregate
  imports TypedColumn IndexOrder
begin

text \<open>
  The aggregates src/src/store.js computes from typed columns and field indexes instead of rows: the flat and grouped column
  scans, the forward-index scan, the group index and the column summaries, with the rows they write
  (\<open>scanFlatColumnAggregate\<close> to \<open>finishGroupedColumnAggregate\<close>). Field states and buckets are those of \<open>Aggregate\<close>: the two
  source files keep the same shapes.

  A plan passes the columns of every path it needs; a path that is not among them is a column without a value.
\<close>

definition col_at :: "(string, tcol) jmap \<Rightarrow> string \<Rightarrow> tcol" where
  "col_at cols path = (case jm_get cols path of None \<Rightarrow> newTypedColumn path | Some c \<Rightarrow> c)"

datatype id_source = IdSet "nat list" | IdSeq "nat list"

fun ids_of :: "id_source \<Rightarrow> nat list" where
  "ids_of (IdSet ids) = ids"
| "ids_of (IdSeq ids) = ids"

fun idSetSize :: "id_source \<Rightarrow> nat option" where
  "idSetSize (IdSet ids) = Some (length ids)"
| "idSetSize (IdSeq ids) = None"

definition isRowCountField :: "agg_field \<Rightarrow> bool" where
  "isRowCountField f \<longleftrightarrow> af_op f = OpCount \<and> af_operand f = JBool True"

definition isRowCountOnlyAggregate :: "agg_spec \<Rightarrow> bool" where
  "isRowCountOnlyAggregate n \<longleftrightarrow> as_fields n \<noteq> [] \<and> list_all isRowCountField (as_fields n)"

definition flatFieldState :: "agg_field \<Rightarrow> fstate" where
  "flatFieldState f =
     (case af_op f of
        OpSum \<Rightarrow> FSum (Fin 0)
      | OpAvg \<Rightarrow> FAvg (Fin 0) (Fin 0)
      | OpMin \<Rightarrow> FValue JUndef
      | OpMax \<Rightarrow> FValue JUndef
      | OpCount \<Rightarrow> FCount (Fin 0))"

definition flat_states :: "agg_spec \<Rightarrow> fstates" where
  "flat_states n = from_entries (map (\<lambda>f. (af_key f, flatFieldState f)) (as_fields n))"

definition isComparableAggregateValue :: "jsv \<Rightarrow> bool" where
  "isComparableAggregateValue v = (case v of JNum n \<Rightarrow> num_finite n | JStr s \<Rightarrow> True | JBool b \<Rightarrow> True | _ \<Rightarrow> False)"

definition sameAggregateTypeLessThan :: "host \<Rightarrow> jsv \<Rightarrow> jsv \<Rightarrow> bool" where
  "sameAggregateTypeLessThan h left right \<longleftrightarrow> js_typeof left = js_typeof right \<and> compareSortValues h left right < 0"

definition stepFlatField :: "host \<Rightarrow> (string, tcol) jmap \<Rightarrow> fstate \<Rightarrow> agg_field \<Rightarrow> nat \<Rightarrow> fstate" where
  "stepFlatField h cols st f rid =
     (let col = col_at cols (operand_path f); v = valueFor col rid in
      case (af_op f, st) of
        (OpSum, FSum s) \<Rightarrow> FSum (add_finite s v)
      | (OpAvg, FAvg s c) \<Rightarrow> if is_finite_number v then FAvg (add_finite s v) (num_add c (Fin 1)) else FAvg s c
      | (OpCount, FCount c) \<Rightarrow>
          if af_operand f = JBool True \<or> hasScalar col rid \<or> hasNonScalar col rid then FCount (num_add c (Fin 1)) else FCount c
      | (OpMin, FValue kept) \<Rightarrow>
          FValue (if \<not> isComparableAggregateValue v then kept
                  else if kept = JUndef \<or> sameAggregateTypeLessThan h v kept then v else kept)
      | (OpMax, FValue kept) \<Rightarrow>
          FValue (if \<not> isComparableAggregateValue v then kept
                  else if kept = JUndef \<or> sameAggregateTypeLessThan h kept v then v else kept)
      | _ \<Rightarrow> st)"

record flat_scan =
  fs_rowsSeen :: nat
  fs_state :: fstates

definition add_count :: "nat \<Rightarrow> fstates \<Rightarrow> agg_field \<Rightarrow> fstates" where
  "add_count count sts f =
     (case jm_get sts (af_key f) of Some (FCount c) \<Rightarrow> jm_set (af_key f) (FCount (num_add c (num_of_nat count))) sts | _ \<Rightarrow> sts)"

text \<open>A set of ids has its size at hand: row counts are added at once and the ids are scanned only for the other fields.\<close>

definition scanFlatColumnAggregate :: "host \<Rightarrow> id_source \<Rightarrow> agg_spec \<Rightarrow> (string, tcol) jmap \<Rightarrow> flat_scan" where
  "scanFlatColumnAggregate h ids n cols =
     (case idSetSize ids of
        Some rowCount \<Rightarrow>
          let counted = foldl (add_count rowCount) (flat_states n) (filter isRowCountField (as_fields n));
              fieldsNeedingIds = filter (\<lambda>f. \<not> isRowCountField f) (as_fields n)
          in \<lparr>fs_rowsSeen = rowCount,
              fs_state = (if fieldsNeedingIds = [] then counted
                          else foldl (step_fields (stepFlatField h cols) fieldsNeedingIds) counted (ids_of ids))\<rparr>
      | None \<Rightarrow>
          \<lparr>fs_rowsSeen = length (ids_of ids),
           fs_state = foldl (step_fields (stepFlatField h cols) (as_fields n)) (flat_states n) (ids_of ids)\<rparr>)"

definition partialAvgSumKey :: "string \<Rightarrow> string" where
  "partialAvgSumKey resultKey = ''$partial.'' @ resultKey @ ''.sum''"

definition partialAvgCountKey :: "string \<Rightarrow> string" where
  "partialAvgCountKey resultKey = ''$partial.'' @ resultKey @ ''.count''"

definition writeFlatField :: "jobj \<Rightarrow> fstate \<Rightarrow> agg_field \<Rightarrow> bool \<Rightarrow> jobj" where
  "writeFlatField row st f partial =
     (case st of
        FSum s \<Rightarrow> jm_set (af_key f) (JNum s) row
      | FAvg s c \<Rightarrow>
          if partial
          then jm_set (partialAvgCountKey (af_key f)) (JNum c) (jm_set (partialAvgSumKey (af_key f)) (JNum s) row)
          else jm_set (af_key f) (avg_value s c) row
      | FCount c \<Rightarrow> jm_set (af_key f) (JNum c) row
      | FValue v \<Rightarrow> jm_set (af_key f) (if v = JUndef then JNull else v) row)"

definition state_at :: "fstates \<Rightarrow> agg_field \<Rightarrow> fstate" where
  "state_at sts f = (case jm_get sts (af_key f) of None \<Rightarrow> flatFieldState f | Some st \<Rightarrow> st)"

definition write_fields :: "agg_spec \<Rightarrow> fstates \<Rightarrow> bool \<Rightarrow> jobj \<Rightarrow> jobj" where
  "write_fields n sts partial row = foldl (\<lambda>row f. writeFlatField row (state_at sts f) f partial) row (as_fields n)"

definition wants_partial :: "jsv \<Rightarrow> bool" where
  "wants_partial spec \<longleftrightarrow> jprop spec ''$partial'' = JBool True"

definition finishFlatColumnAggregate :: "flat_scan \<Rightarrow> jsv \<Rightarrow> agg_spec \<Rightarrow> jobj list" where
  "finishFlatColumnAggregate scan spec n =
     (if fs_rowsSeen scan = 0 then [] else [write_fields n (fs_state scan) (wants_partial spec) []])"

record grouped_scan =
  gs_rowsSeen :: nat
  gs_groups :: "bucket list"

definition column_group_value :: "(string, tcol) jmap \<Rightarrow> nat \<Rightarrow> string \<Rightarrow> jsv" where
  "column_group_value cols rid path = (if hasScalar (col_at cols path) rid then valueFor (col_at cols path) rid else JNull)"

definition new_group :: "agg_spec \<Rightarrow> jobj \<Rightarrow> bucket" where
  "new_group n groupValues = \<lparr>bk_groupValues = groupValues, bk_fields = flat_states n\<rparr>"

text \<open>The scan gives up (\<open>None\<close>) when a group value is an array, an object or a number that is not finite.\<close>

definition scanGroupedColumnAggregate :: "host \<Rightarrow> nat list \<Rightarrow> agg_spec \<Rightarrow> (string, tcol) jmap \<Rightarrow> grouped_scan option" where
  "scanGroupedColumnAggregate h ids n cols =
     (if list_ex (\<lambda>rid. list_ex (\<lambda>path. hasNonScalar (col_at cols path) rid) (as_groupBy n)) ids then None
      else Some \<lparr>gs_rowsSeen = length ids,
                 gs_groups = jm_vals (group_fold
                   (\<lambda>rid. stableKey h (JArr (map (column_group_value cols rid) (as_groupBy n))))
                   (\<lambda>rid. new_group n (from_entries (map (\<lambda>path. (path, column_group_value cols rid path)) (as_groupBy n))))
                   (step_bucket (stepFlatField h cols) n) ids)\<rparr>)"

definition forward_value :: "findex \<Rightarrow> nat \<Rightarrow> jsv" where
  "forward_value groupIndex rid = stored_value (valueForRid groupIndex rid)"

definition scanForwardGroupedColumnAggregate ::
    "host \<Rightarrow> nat list \<Rightarrow> agg_spec \<Rightarrow> string \<Rightarrow> findex \<Rightarrow> (string, tcol) jmap \<Rightarrow> grouped_scan" where
  "scanForwardGroupedColumnAggregate h ids n groupBy groupIndex cols =
     \<lparr>gs_rowsSeen = length ids,
      gs_groups = jm_vals (group_fold
        (\<lambda>rid. stableKey h (JArr [forward_value groupIndex rid]))
        (\<lambda>rid. new_group n [(groupBy, forward_value groupIndex rid)])
        (step_bucket (stepFlatField h cols) n) ids)\<rparr>"

definition finishGroupedColumnAggregate :: "host \<Rightarrow> grouped_scan \<Rightarrow> jsv \<Rightarrow> agg_spec \<Rightarrow> agg_error + jobj list" where
  "finishGroupedColumnAggregate h scan spec n =
     (if gs_rowsSeen scan = 0 then Inr []
      else let partialRows = map (\<lambda>g. write_fields n (bk_fields g) True (bk_groupValues g)) (gs_groups scan)
           in if wants_partial spec then Inr partialRows else mergeAggregatePartials h partialRows spec)"

text \<open>The groups of an index: by their counts alone when only rows are counted, by a scan of each group otherwise.\<close>

definition rowCountOnlyState :: "agg_spec \<Rightarrow> nat \<Rightarrow> fstates" where
  "rowCountOnlyState n count =
     foldl (\<lambda>sts f. jm_set (af_key f) (FCount (num_of_nat count)) sts) (flat_states n) (as_fields n)"

definition aggregateGroupCounts ::
    "host \<Rightarrow> findex \<Rightarrow> string \<Rightarrow> agg_spec \<Rightarrow> nat list option \<Rightarrow> nat list option \<Rightarrow> jsv \<Rightarrow> agg_error + jobj list" where
  "aggregateGroupCounts h groupIndex groupBy n filterIds scopeIds spec =
     (let counted = filter (\<lambda>(v, count). 0 < count) (iterateGroupCounts groupIndex filterIds scopeIds)
      in finishGroupedColumnAggregate h
           \<lparr>gs_rowsSeen = foldl (\<lambda>total (v, count). total + count) 0 counted,
            gs_groups = map (\<lambda>(v, count). \<lparr>bk_groupValues = [(groupBy, stored_value v)], bk_fields = rowCountOnlyState n count\<rparr>) counted\<rparr>
           spec n)"

definition aggregateGroupScan ::
    "host \<Rightarrow> findex \<Rightarrow> string \<Rightarrow> agg_spec \<Rightarrow> (string, tcol) jmap \<Rightarrow> nat list option \<Rightarrow> jsv \<Rightarrow> agg_error + jobj list" where
  "aggregateGroupScan h groupIndex groupBy n cols filterIds spec =
     (let scanned = filter (\<lambda>(v, scan). fs_rowsSeen scan \<noteq> 0)
            (map (\<lambda>(v, ids). (v, scanFlatColumnAggregate h (IdSet ids) n cols)) (iterateGroups groupIndex filterIds))
      in finishGroupedColumnAggregate h
           \<lparr>gs_rowsSeen = foldl (\<lambda>total (v, scan). total + fs_rowsSeen scan) 0 scanned,
            gs_groups = map (\<lambda>(v, scan). \<lparr>bk_groupValues = [(groupBy, stored_value v)], bk_fields = fs_state scan\<rparr>) scanned\<rparr>
           spec n)"

text \<open>The summary of whole columns: their running sums and counters, for the live rows.\<close>

definition summary_state :: "nat \<Rightarrow> (string, tcol) jmap \<Rightarrow> fstates \<Rightarrow> agg_field \<Rightarrow> fstates" where
  "summary_state liveCount cols sts f =
     (let col = col_at cols (operand_path f) in
      case af_op f of
        OpSum \<Rightarrow> jm_set (af_key f) (FSum (co_numberSum col)) sts
      | OpAvg \<Rightarrow> jm_set (af_key f) (FAvg (co_numberSum col) (num_of_int (co_numberCount col))) sts
      | OpCount \<Rightarrow> jm_set (af_key f)
          (FCount (if af_operand f = JBool True then num_of_nat liveCount else num_of_int (col_entries col))) sts
      | _ \<Rightarrow> sts)"

definition aggregateFlatFromColumnSummary :: "nat \<Rightarrow> jsv \<Rightarrow> agg_spec \<Rightarrow> (string, tcol) jmap \<Rightarrow> jobj list" where
  "aggregateFlatFromColumnSummary liveCount spec n cols =
     (if liveCount = 0 then []
      else finishFlatColumnAggregate
        \<lparr>fs_rowsSeen = liveCount, fs_state = foldl (summary_state liveCount cols) [] (as_fields n)\<rparr> spec n)"

subsection \<open>Columns that hold the rows\<close>

text \<open>The columns of some paths hold what the rows have there: each is the result of a run of changes that last wrote, for
each of the ids, the value of the row.\<close>

definition columns_hold :: "(string, tcol) jmap \<Rightarrow> (nat \<Rightarrow> jsv) \<Rightarrow> nat list \<Rightarrow> string list \<Rightarrow> bool" where
  "columns_hold cols row ids paths \<longleftrightarrow>
     (\<forall>path \<in> set paths. \<exists>us. jm_get cols path = Some (foldl col_put (newTypedColumn path) us) \<and>
        (\<forall>rid \<in> set ids. last_value us rid = getPathValue (row rid) path))"

definition metric_paths :: "agg_spec \<Rightarrow> string list" where
  "metric_paths n = map operand_path (filter (\<lambda>f. \<not> isRowCountField f) (as_fields n))"

lemma hold_values:
  assumes "columns_hold cols row ids paths" and "path \<in> set paths" and "rid \<in> set ids"
  shows "valueFor (col_at cols path) rid = json_clone (getPathValue (row rid) path)"
    and "hasScalar (col_at cols path) rid \<longleftrightarrow> isScalarColumnValue (getPathValue (row rid) path)"
    and "hasNonScalar (col_at cols path) rid \<longleftrightarrow>
      \<not> isScalarColumnValue (getPathValue (row rid) path) \<and> \<not> nullish (getPathValue (row rid) path)"
proof -
  obtain us where us: "jm_get cols path = Some (foldl col_put (newTypedColumn path) us)"
    "last_value us rid = getPathValue (row rid) path"
    using assms unfolding columns_hold_def by blast
  have ok: "co_ok (foldl col_put (newTypedColumn path) us)"
    "co_cell (foldl col_put (newTypedColumn path) us) rid = cell_of (columnScalarState (getPathValue (row rid) path))"
    using col_run_ok [of path us] us(2) by auto
  have at: "col_at cols path = foldl col_put (newTypedColumn path) us" using us(1) by (simp add: col_at_def)
  show "valueFor (col_at cols path) rid = json_clone (getPathValue (row rid) path)"
    using ok by (simp add: at valueFor_cell cell_value_of)
  note k = column_kinds [of path us rid, unfolded us(2)]
  show "hasScalar (col_at cols path) rid \<longleftrightarrow> isScalarColumnValue (getPathValue (row rid) path)"
    using k unfolding at hasScalar_def by (cases "getPathValue (row rid) path") (simp_all add: isScalarColumnValue_def)
  show "hasNonScalar (col_at cols path) rid \<longleftrightarrow>
      \<not> isScalarColumnValue (getPathValue (row rid) path) \<and> \<not> nullish (getPathValue (row rid) path)"
    using k unfolding at hasNonScalar_def
    by (cases "getPathValue (row rid) path") (simp_all add: isScalarColumnValue_def nullish_def)
qed

lemma flat_states_make: "flat_states n = makeFieldState (as_fields n)"
proof -
  have "flatFieldState = fieldState" by (intro ext) (simp add: flatFieldState_def fieldState_def)
  moreover have "foldl (\<lambda>m (k, v). jm_set k v m) m (map (\<lambda>f. (af_key f, s f)) fs) = foldl (\<lambda>st f. jm_set (af_key f) (s f) st) m fs" for m s fs
    by (induction fs arbitrary: m) auto
  ultimately show ?thesis by (simp add: flat_states_def from_entries_def makeFieldState_def)
qed

lemma stepFlat_step:
  assumes "columns_hold cols row ids (metric_paths n)" and "f \<in> set (as_fields n)" and "rid \<in> set ids"
  shows "stepFlatField h cols st f rid = stepField h st f (row rid)"
proof (cases "isRowCountField f")
  case True
  then show ?thesis by (cases st) (simp_all add: isRowCountField_def stepFlatField_def stepField_def Let_def)
next
  case False
  with assms(2) have p: "operand_path f \<in> set (metric_paths n)" by (auto simp: metric_paths_def)
  note v = hold_values [OF assms(1) p assms(3)]
  let ?v = "getPathValue (row rid) (operand_path f)"
  have same: "add_finite s (json_clone ?v) = add_finite s ?v" "is_finite_number (json_clone ?v) = is_finite_number ?v"
    "isComparable ?v \<Longrightarrow> json_clone ?v = ?v" "isComparableAggregateValue (json_clone ?v) = isComparable ?v" for s
    by (cases ?v; simp add: add_finite_def is_finite_number_def isComparable_def isComparableAggregateValue_def)+
  have lt: "sameAggregateTypeLessThan h = sameTypeLessThan h"
    by (intro ext) (simp add: sameAggregateTypeLessThan_def sameTypeLessThan_def)
  show ?thesis
    using False same v
    by (cases "af_op f"; cases st)
      (auto simp: isRowCountField_def stepFlatField_def stepField_def Let_def keep_min_def keep_max_def cloneResultValue_def lt
        nullish_def isScalarColumnValue_def)
qed

lemma group_fold_cong:
  assumes "\<And>r. r \<in> set rows \<Longrightarrow> key r = key' r" and "\<And>r. r \<in> set rows \<Longrightarrow> mk r = mk' r"
    and "\<And>r b. r \<in> set rows \<Longrightarrow> step b r = step' b r"
  shows "group_fold key mk step rows = group_fold key' mk' step' rows"
  unfolding group_fold_def by (rule foldl_cong) (simp_all add: bucket_step_def assms cong: option.case_cong)

lemma group_fold_map:
  "group_fold key mk step (map row ids) = group_fold (\<lambda>i. key (row i)) (\<lambda>i. mk (row i)) (\<lambda>b i. step b (row i)) ids"
proof -
  have "foldl (bucket_step key mk step) m (map row ids) =
      foldl (bucket_step (\<lambda>i. key (row i)) (\<lambda>i. mk (row i)) (\<lambda>b i. step b (row i))) m ids" for m
    by (induction ids arbitrary: m) (simp_all add: bucket_step_def)
  then show ?thesis by (simp add: group_fold_def)
qed

lemma step_fields_cong:
  "(\<And>f st. f \<in> set fs \<Longrightarrow> step st f r = step' st f r') \<Longrightarrow> step_fields step fs sts r = step_fields step' fs sts r'"
  unfolding step_fields_def by (rule foldl_cong) (auto split: option.split)

lemma write_partial: "write_fields n (bk_fields g) True (bk_groupValues g) = partial_row n g"
proof -
  have "flatFieldState = fieldState" by (intro ext) (simp add: flatFieldState_def fieldState_def)
  then have "state_at (bk_fields g) = field_state g" by (intro ext) (simp add: state_at_def field_state_def split: option.split)
  moreover have "writeFlatField row st f True = writePartialField row st f" for row st f
    by (cases st) (simp_all add: writeFlatField_def writePartialField_def partialAvgSumKey_def partialAvgCountKey_def
        avgSumKey_def avgCountKey_def cloneResultValue_def)
  ultimately show ?thesis by (simp add: write_fields_def partial_row_def)
qed

lemma finish_groups:
  assumes "normalizeAggregateSpec h spec = Inr n" and "gs_rowsSeen scan = length ids"
    and "gs_groups scan = jm_vals (partial_buckets h n (map row ids))"
  shows "finishGroupedColumnAggregate h scan spec n =
    (if wants_partial spec then aggregatePartialObjects h (map row ids) spec else aggregateObjects h (map row ids) spec)"
proof (cases "ids = []")
  case True
  then show ?thesis using assms
    by (simp add: finishGroupedColumnAggregate_def aggregateObjects_def aggregatePartialObjects_def
        mergeAggregatePartials_def aggregatePartialBuckets_def)
next
  case False
  then show ?thesis using assms
    by (simp add: finishGroupedColumnAggregate_def aggregateObjects_def aggregatePartialObjects_def Let_def write_partial comp_def)
qed

text \<open>C29: The grouped column scan is the aggregate of the rows: when it does not give up and the columns hold the rows, its
rows are exactly those \<open>aggregateObjects\<close> computes by reading the rows, order, sort and page included, and for a partial
request those of \<open>aggregatePartialObjects\<close>; and it gives up only on a group value that is an array, an object or a number
that is not finite.\<close>

theorem grouped_scan_equivalence:
  assumes "normalizeAggregateSpec h spec = Inr n" and "columns_hold cols row ids (as_groupBy n @ metric_paths n)"
  shows "(case scanGroupedColumnAggregate h ids n cols of
      Some scan \<Rightarrow> finishGroupedColumnAggregate h scan spec n =
        (if wants_partial spec then aggregatePartialObjects h (map row ids) spec else aggregateObjects h (map row ids) spec)
    | None \<Rightarrow> (\<exists>rid \<in> set ids. \<exists>path \<in> set (as_groupBy n).
        \<not> isScalarColumnValue (getPathValue (row rid) path) \<and> \<not> nullish (getPathValue (row rid) path)))"
proof -
  have hold: "columns_hold cols row ids (as_groupBy n)" "columns_hold cols row ids (metric_paths n)"
    using assms(2) by (simp_all add: columns_hold_def ball_Un)
  show ?thesis
  proof (cases "list_ex (\<lambda>rid. list_ex (\<lambda>path. hasNonScalar (col_at cols path) rid) (as_groupBy n)) ids")
    case True
    then have "\<exists>rid \<in> set ids. \<exists>path \<in> set (as_groupBy n). hasNonScalar (col_at cols path) rid" by (simp add: list_ex_iff)
    with hold_values(3) [OF hold(1)] have "\<exists>rid \<in> set ids. \<exists>path \<in> set (as_groupBy n).
        \<not> isScalarColumnValue (getPathValue (row rid) path) \<and> \<not> nullish (getPathValue (row rid) path)" by blast
    with True show ?thesis by (simp add: scanGroupedColumnAggregate_def)
  next
    case False
    then have scalar: "\<not> hasNonScalar (col_at cols path) rid" if "rid \<in> set ids" "path \<in> set (as_groupBy n)" for rid path
      using that by (auto simp: list_ex_iff)
    have grp: "column_group_value cols rid path = stored_value (getPathValue (row rid) path)"
      if "rid \<in> set ids" "path \<in> set (as_groupBy n)" for rid path
      using hold_values [OF hold(1) that(2,1)] scalar [OF that]
      by (cases "getPathValue (row rid) path") (auto simp: column_group_value_def stored_value_def isScalarColumnValue_def nullish_def)
    define groups where "groups = group_fold
        (\<lambda>rid. stableKey h (JArr (map (column_group_value cols rid) (as_groupBy n))))
        (\<lambda>rid. new_group n (from_entries (map (\<lambda>path. (path, column_group_value cols rid path)) (as_groupBy n))))
        (step_bucket (stepFlatField h cols) n) ids"
    have "groups = partial_buckets h n (map row ids)"
      unfolding groups_def partial_buckets_def group_fold_map
    proof (rule group_fold_cong)
      fix rid assume rid: "rid \<in> set ids"
      show "stableKey h (JArr (map (column_group_value cols rid) (as_groupBy n))) = group_key h getPathValue (as_groupBy n) (row rid)"
        using grp [OF rid] by (simp add: group_key_def cong: map_cong)
      have fold: "foldl (\<lambda>m (k, v). jm_set k v m) m (map (\<lambda>path. (path, g path)) ps) = foldl (\<lambda>out path. jm_set path (g path) out) m ps"
        for m g ps by (induction ps arbitrary: m) auto
      have "from_entries (map (\<lambda>path. (path, column_group_value cols rid path)) (as_groupBy n)) = group_values getPathValue (as_groupBy n) (row rid)"
        unfolding from_entries_def fold group_values_def by (rule foldl_cong) (simp_all add: grp [OF rid] cloneResultValue_def)
      then show "new_group n (from_entries (map (\<lambda>path. (path, column_group_value cols rid path)) (as_groupBy n))) = new_bucket getPathValue n (row rid)"
        by (simp add: new_group_def new_bucket_def flat_states_make)
      have "step_fields (stepFlatField h cols) (as_fields n) sts rid = step_fields (stepField h) (as_fields n) sts (row rid)" for sts
        by (rule step_fields_cong) (rule stepFlat_step [OF hold(2) _ rid])
      then show "step_bucket (stepFlatField h cols) n b rid = step_bucket (stepField h) n b (row rid)" for b
        by (simp add: step_bucket_def)
    qed
    then have "scanGroupedColumnAggregate h ids n cols = Some \<lparr>gs_rowsSeen = length ids, gs_groups = jm_vals (partial_buckets h n (map row ids))\<rparr>"
      using False by (simp add: scanGroupedColumnAggregate_def groups_def)
    moreover have "finishGroupedColumnAggregate h \<lparr>gs_rowsSeen = length ids, gs_groups = jm_vals (partial_buckets h n (map row ids))\<rparr> spec n =
        (if wants_partial spec then aggregatePartialObjects h (map row ids) spec else aggregateObjects h (map row ids) spec)"
      by (rule finish_groups [OF assms(1)]) simp_all
    ultimately show ?thesis by (simp only: option.case)
  qed
qed

theorem grouped_scan_equivalence_witness:
  "\<exists>scan. scanGroupedColumnAggregate plain_host [0, 1] \<lparr>as_groupBy = [''g''], as_fields = [\<lparr>af_key = ''n'', af_op = OpCount, af_operand = JBool True\<rparr>],
         as_sort = [], as_page = 1, as_pageSize = 20\<rparr>
       [(''g'', foldl col_put (newTypedColumn ''g'') [(0, JStr ''a''), (1, JStr ''b'')])] = Some scan \<and>
     finishGroupedColumnAggregate plain_host scan
       (JObj [(''groupBy'', JStr ''g''), (''fields'', JObj [(''n'', JObj [(''$count'', JBool True)])])])
       \<lparr>as_groupBy = [''g''], as_fields = [\<lparr>af_key = ''n'', af_op = OpCount, af_operand = JBool True\<rparr>],
         as_sort = [], as_page = 1, as_pageSize = 20\<rparr> =
     aggregateObjects plain_host [JObj [(''g'', JStr ''a'')], JObj [(''g'', JStr ''b'')]]
       (JObj [(''groupBy'', JStr ''g''), (''fields'', JObj [(''n'', JObj [(''$count'', JBool True)])])])"
proof -
  define spec where "spec = JObj [(''groupBy'', JStr ''g''), (''fields'', JObj [(''n'', JObj [(''$count'', JBool True)])])]"
  define n where "n = \<lparr>as_groupBy = [''g''], as_fields = [\<lparr>af_key = ''n'', af_op = OpCount, af_operand = JBool True\<rparr>],
    as_sort = [], as_page = 1, as_pageSize = 20\<rparr>"
  define row where "row = (\<lambda>rid :: nat. JObj [(''g'', JStr (if rid = 0 then ''a'' else ''b''))])"
  define cols where "cols = [(''g'', foldl col_put (newTypedColumn ''g'') [(0, JStr ''a''), (1, JStr ''b'')])]"
  have norm: "normalizeAggregateSpec plain_host spec = Inr n"
    by (simp add: normalizeAggregateSpec_def spec_def oget_def normalizeGroupBy_def nullish_def
        normalizeFields_def normalizeField_def aggregateOperators_def is_path_def normalizeSort_def
        normalizePositiveInteger_def n_def)
  have path: "getPathValue (row rid) ''g'' = JStr (if rid = 0 then ''a'' else ''b'')" for rid
    by (simp add: getPathValue_def row_def nullish_def oget_def)
  have "jm_get cols ''g'' = Some (foldl col_put (newTypedColumn ''g'') [(0, JStr ''a''), (1, JStr ''b'')]) \<and>
      (\<forall>rid \<in> set [0, 1]. last_value [(0, JStr ''a''), (1, JStr ''b'')] rid = getPathValue (row rid) ''g'')"
    by (simp add: cols_def last_value_def path)
  then have hold: "columns_hold cols row [0, 1] (as_groupBy n @ metric_paths n)"
    unfolding columns_hold_def n_def metric_paths_def by (auto simp: isRowCountField_def simp del: foldl_Cons)
  have rows: "map row [0, 1] = [JObj [(''g'', JStr ''a'')], JObj [(''g'', JStr ''b'')]]" by (simp add: row_def)
  note eq = grouped_scan_equivalence [OF norm hold]
  have scalar: "isScalarColumnValue (getPathValue (row rid) ''g'')" for rid by (simp add: path isScalarColumnValue_def)
  obtain scan where scan: "scanGroupedColumnAggregate plain_host [0, 1] n cols = Some scan"
    using eq scalar by (cases "scanGroupedColumnAggregate plain_host [0, 1] n cols") (simp_all add: n_def)
  have "\<not> wants_partial spec" by (simp add: wants_partial_def spec_def oget_def)
  with eq have "finishGroupedColumnAggregate plain_host scan spec n = aggregateObjects plain_host (map row [0, 1]) spec"
    by (simp only: scan option.case if_False)
  with scan show ?thesis unfolding rows n_def [symmetric] cols_def [symmetric] spec_def [symmetric] by blast
qed

subsection \<open>The flat scan\<close>

lemma normalize_pageSize: "normalizeAggregateSpec h spec = Inr n \<Longrightarrow> 1 \<le> as_page n \<and> 1 \<le> as_pageSize n"
proof -
  have pos: "normalizePositiveInteger h v name fallback = Inr k \<Longrightarrow> 1 \<le> fallback \<Longrightarrow> 1 \<le> k" for v name fallback k
    by (auto simp: normalizePositiveInteger_def split: if_splits jsnum.splits)
  show "normalizeAggregateSpec h spec = Inr n \<Longrightarrow> 1 \<le> as_page n \<and> 1 \<le> as_pageSize n"
    by (auto simp: normalizeAggregateSpec_def res_bind_Inr split: if_splits dest!: pos)
qed

lemma flat_fold:
  assumes "columns_hold cols row (ids_of ids) (metric_paths n)" and "distinct (result_keys n)" and "int (length (ids_of ids)) \<le> 2 ^ 53"
  shows "fs_rowsSeen (scanFlatColumnAggregate h ids n cols) = length (ids_of ids) \<and>
    fs_state (scanFlatColumnAggregate h ids n cols) =
      map (\<lambda>f. (af_key f, field_fold h f (map row (ids_of ids)))) (as_fields n)"
proof -
  have d: "distinct (map af_key (as_fields n))" "distinct (as_fields n)"
    using assms(2) by (simp_all add: result_keys_def distinct_map)
  have start: "flat_states n = map (\<lambda>f. (af_key f, fieldState f)) (as_fields n)"
    using makeFieldState_map [OF d(1)] by (simp add: flat_states_make)
  have run: "foldl (step_fields (stepFlatField h cols) gs) (map (\<lambda>f. (af_key f, s f)) (as_fields n)) rids =
      map (\<lambda>f. (af_key f, if f \<in> set gs then foldl (\<lambda>st r. stepField h st f r) (s f) (map row rids) else s f)) (as_fields n)"
    if "distinct gs" "set gs \<subseteq> set (as_fields n)" "set rids \<subseteq> set (ids_of ids)" for gs s rids
    using that(3)
  proof (induction rids arbitrary: s)
    case (Cons rid rids)
    have "step_fields (stepFlatField h cols) gs (map (\<lambda>f. (af_key f, s f)) (as_fields n)) rid =
        map (\<lambda>f. (af_key f, if f \<in> set gs then stepFlatField h cols (s f) f rid else s f)) (as_fields n)"
      by (rule step_fields_sub [OF d(1) that(1,2)])
    also have "\<dots> = map (\<lambda>f. (af_key f, if f \<in> set gs then stepField h (s f) f (row rid) else s f)) (as_fields n)"
      using stepFlat_step [OF assms(1)] Cons.prems by auto
    finally show ?case
      using Cons.IH [of "\<lambda>f. if f \<in> set gs then stepField h (s f) f (row rid) else s f"] Cons.prems by simp
  qed simp
  show ?thesis
  proof (cases ids)
    case (IdSeq rids)
    then show ?thesis
      using run [OF d(2) subset_refl, of rids fieldState] start
      by (simp add: scanFlatColumnAggregate_def field_fold_def cong: map_cong)
  next
    case (IdSet rids)
    let ?N = "length rids"
    define s1 where "s1 f = (if isRowCountField f then FCount (num_of_nat ?N) else fieldState f)" for f
    have zero: "num_add (Fin 0) (num_of_nat k) = num_of_nat k" if "k \<le> ?N" for k
      using num_add_of_int [of 0 "int k"] that assms(3) IdSet by (simp add: num_of_nat_def safe_int_def num_of_int_def)
    have counted: "foldl (add_count ?N) (map (\<lambda>f. (af_key f, s f)) (as_fields n)) gs =
        map (\<lambda>f. (af_key f, if f \<in> set gs then FCount (num_of_nat ?N) else s f)) (as_fields n)"
      if "distinct gs" "set gs \<subseteq> set (as_fields n)" "\<forall>g \<in> set gs. s g = FCount (Fin 0)" for gs s
      using that
    proof (induction gs arbitrary: s)
      case (Cons g gs)
      have g: "g \<in> set (as_fields n)" "g \<notin> set gs" "s g = FCount (Fin 0)" using Cons.prems by auto
      have "add_count ?N (map (\<lambda>f. (af_key f, s f)) (as_fields n)) g =
          map (\<lambda>f. (af_key f, (s(g := FCount (num_of_nat ?N))) f)) (as_fields n)"
        using g zero by (simp add: add_count_def map_get_at [OF d(1)] map_set_at [OF d(1)])
      with Cons.IH [of "s(g := FCount (num_of_nat ?N))"] Cons.prems g show ?case
        by (auto simp: fun_upd_def cong: map_cong if_cong)
    qed simp
    have c: "foldl (add_count ?N) (flat_states n) (filter isRowCountField (as_fields n)) = map (\<lambda>f. (af_key f, s1 f)) (as_fields n)"
      unfolding start by (subst counted) (use d(2) in \<open>auto simp: s1_def isRowCountField_def fieldState_def\<close>)
    have count: "field_fold h f (map row rids) = FCount (num_of_nat ?N)" if "isRowCountField f" for f
    proof -
      have "foldl add_finite (Fin 0) (map (\<lambda>v. one_if True) (path_values f (map row rids))) = num_of_int (\<Sum>v\<leftarrow>map (\<lambda>v. one_if True) (path_values f (map row rids)). int_part v)"
        using assms(3) IdSet by (intro fold_add_finite [of _ 1]) (auto simp: small_int_def one_if_def path_values_def)
      also have "(\<Sum>v\<leftarrow>map (\<lambda>v. one_if True) (path_values f (map row rids)). int_part v) = int ?N"
        by (simp add: one_if_def path_values_def comp_def sum_list_triv)
      finally show ?thesis using that
        by (simp add: field_fold_state isRowCountField_def num_of_nat_def cong: map_cong)
    qed
    define gs where "gs = filter (\<lambda>f. \<not> isRowCountField f) (as_fields n)"
    have "(if gs = [] then map (\<lambda>f. (af_key f, s1 f)) (as_fields n)
        else foldl (step_fields (stepFlatField h cols) gs) (map (\<lambda>f. (af_key f, s1 f)) (as_fields n)) rids) =
        map (\<lambda>f. (af_key f, if f \<in> set gs then foldl (\<lambda>st r. stepField h st f r) (s1 f) (map row rids) else s1 f)) (as_fields n)"
    proof (cases "gs = []")
      case False
      have "distinct gs" "set gs \<subseteq> set (as_fields n)" using d(2) by (auto simp: gs_def)
      from run [OF this, of rids s1] False IdSet show ?thesis by simp
    qed simp
    also have "\<dots> = map (\<lambda>f. (af_key f, field_fold h f (map row rids))) (as_fields n)"
      by (rule map_cong) (auto simp: gs_def s1_def count, simp add: field_fold_def)
    finally have "fs_state (scanFlatColumnAggregate h ids n cols) = map (\<lambda>f. (af_key f, field_fold h f (map row rids))) (as_fields n)"
      by (simp only: scanFlatColumnAggregate_def IdSet c Let_def gs_def [symmetric] idSetSize.simps option.case ids_of.simps
          flat_scan.select_convs)
    then show ?thesis by (simp add: scanFlatColumnAggregate_def IdSet Let_def)
  qed
qed

lemma all_buckets_flat:
  assumes "as_groupBy n = []" and "rows \<noteq> []"
  shows "all_buckets h n rows = [group_bucket h n rows]"
proof -
  have k: "rows_key h n r = rows_key h n r'" for r r' using assms(1) by (simp add: rows_key_def group_key_def)
  obtain r rs where rows: "rows = r # rs" using assms(2) by (cases rows) auto
  have "map (rows_key h n) rows = replicate (length rows) (rows_key h n r)"
    by (rule replicate_eqI) (auto simp: k)
  moreover have "js_unique_acc [x] (replicate m x) = [x]" for m and x :: "string option"
    by (induction m) (simp_all add: js_add_def)
  ultimately have "js_unique (map (rows_key h n) rows) = [rows_key h n r]"
    using assms(2) by (simp add: rows js_unique_def js_add_def)
  moreover have "filter (\<lambda>r'. rows_key h n r' = rows_key h n r) rows = rows" using k by (simp add: filter_id_conv)
  ultimately show ?thesis by (simp add: all_buckets_def)
qed

text \<open>C30: The flat column scan is the aggregate of the rows: on the first page, when the columns hold the rows and the sums stay
exact, the single row it writes (none for no row) is the result of \<open>aggregateObjects\<close> on the rows, whether the ids come as a
set, whose size is added at once, or one by one.\<close>

theorem flat_scan_equivalence:
  assumes "normalizeAggregateSpec h spec = Inr n" and "as_groupBy n = []" and "as_page n = 1" and "\<not> wants_partial spec"
    and "columns_hold cols row (ids_of ids) (metric_paths n)" and "collation h" and "no_clash n"
    and "mergeable n B (map row (ids_of ids))"
  shows "Inr (finishFlatColumnAggregate (scanFlatColumnAggregate h ids n cols) spec n) = aggregateObjects h (map row (ids_of ids)) spec"
proof -
  let ?rows = "map row (ids_of ids)"
  have d: "distinct (result_keys n)" using assms(7) by (simp add: no_clash_def)
  have B: "1 \<le> B" "int (length ?rows) * B \<le> 2 ^ 53" using assms(8) by (auto simp only: mergeable_def)
  have "int (length ?rows) * 1 \<le> int (length ?rows) * B" using B(1) by (intro mult_left_mono) simp_all
  with B(2) have N: "int (length (ids_of ids)) \<le> 2 ^ 53" by simp
  note scan = flat_fold [OF assms(5) d N, of h]
  have agg: "aggregateObjects h ?rows spec = Inr (finish_rows h n (map (finished_row n) (all_buckets h n ?rows)))"
  proof -
    have one: "mergeable n B (concat [?rows])" using assms(8) by simp
    have "aggregateObjects h ?rows spec = mergeAggregatePartials h (concat (map (\<lambda>rows. map (partial_row n) (jm_vals (partial_buckets h n rows))) [?rows])) spec"
      by (simp add: aggregateObjects_def partial_result [OF assms(1)])
    then show ?thesis using merged_buckets [OF assms(6,7) one] by (simp only: merge_result [OF assms(1)]) simp
  qed
  show ?thesis
  proof (cases "ids_of ids = []")
    case True
    then show ?thesis using scan unfolding agg
      by (simp add: finishFlatColumnAggregate_def all_buckets_def js_unique_def finish_rows_def page_of_def)
  next
    case False
    have row: "write_fields n (fs_state (scanFlatColumnAggregate h ids n cols)) False [] = finished_row n (group_bucket h n ?rows)"
    proof -
      have "writeFlatField out (state_at (map (\<lambda>f. (af_key f, field_fold h f ?rows)) (as_fields n)) f) f False =
          jm_set (af_key f) (finishField (field_state (group_bucket h n ?rows) f) f) out" if "f \<in> set (as_fields n)" for f out
        using map_get_at [of af_key "as_fields n" f "\<lambda>f. field_fold h f ?rows"] d that field_state_group [OF d that, of h ?rows]
        by (cases "field_fold h f ?rows")
          (simp_all add: state_at_def result_keys_def writeFlatField_def finishField_def cloneResultValue_def)
      moreover have "bk_groupValues (group_bucket h n ?rows) = []"
        using assms(2) by (simp add: group_bucket_def canonical_bucket_def group_values_def)
      ultimately show ?thesis using scan
        unfolding write_fields_def finished_row_def by (intro foldl_cong) simp_all
    qed
    have "finish_rows h n [r] = [r]" for r
      using assms(3) normalize_pageSize [OF assms(1)] by (cases "as_pageSize n") (simp_all add: finish_rows_def page_of_def)
    with row scan False assms(4) show ?thesis
      by (simp add: agg all_buckets_flat [OF assms(2)] finishFlatColumnAggregate_def)
  qed
qed

theorem flat_scan_equivalence_witness:
  "Inr (finishFlatColumnAggregate (scanFlatColumnAggregate plain_host (IdSet [0, 1])
        \<lparr>as_groupBy = [], as_fields = [\<lparr>af_key = ''n'', af_op = OpCount, af_operand = JBool True\<rparr>], as_sort = [], as_page = 1, as_pageSize = 20\<rparr> [])
      (JObj [(''fields'', JObj [(''n'', JObj [(''$count'', JBool True)])])])
      \<lparr>as_groupBy = [], as_fields = [\<lparr>af_key = ''n'', af_op = OpCount, af_operand = JBool True\<rparr>], as_sort = [], as_page = 1, as_pageSize = 20\<rparr>) =
    aggregateObjects plain_host [JObj [], JObj []] (JObj [(''fields'', JObj [(''n'', JObj [(''$count'', JBool True)])])])"
proof -
  define spec where "spec = JObj [(''fields'', JObj [(''n'', JObj [(''$count'', JBool True)])])]"
  define n where "n = \<lparr>as_groupBy = [], as_fields = [\<lparr>af_key = ''n'', af_op = OpCount, af_operand = JBool True\<rparr>],
    as_sort = [], as_page = 1, as_pageSize = 20\<rparr>"
  define ids where "ids = IdSet [0, 1]"
  have norm: "normalizeAggregateSpec plain_host spec = Inr n"
    by (simp add: normalizeAggregateSpec_def spec_def oget_def normalizeGroupBy_def nullish_def
        normalizeFields_def normalizeField_def aggregateOperators_def is_path_def normalizeSort_def
        normalizePositiveInteger_def n_def)
  have "as_groupBy n = []" "as_page n = 1" "\<not> wants_partial spec" "columns_hold [] (\<lambda>rid. JObj []) (ids_of ids) (metric_paths n)"
    "no_clash n" "mergeable n 1 (map (\<lambda>rid. JObj []) (ids_of ids))"
    by (simp_all add: n_def spec_def wants_partial_def oget_def columns_hold_def metric_paths_def isRowCountField_def
        no_clash_def result_keys_def partial_keys_def write_keys_def mergeable_def ids_def)
  from flat_scan_equivalence [OF norm this(1-4) plain_collation this(5,6)] show ?thesis
    unfolding n_def [symmetric] spec_def [symmetric] ids_def [symmetric] by (simp add: ids_def)
qed

subsection \<open>The summary\<close>

text \<open>The column summary counts nulls: \<open>$count\<close> of a path is answered with the column's \<open>entries\<close>, which includes the rows
whose value is \<open>null\<close>, while the aggregate of the rows and the column scan count the values that are not \<open>null\<close>. On two rows
of which one is \<open>null\<close> the summary says 2 and the aggregate of the rows says 1.\<close>

theorem summary_counts_nulls:
  "aggregateFlatFromColumnSummary 2 (JObj [(''fields'', JObj [(''n'', JObj [(''$count'', JStr ''x'')])])])
     \<lparr>as_groupBy = [], as_fields = [\<lparr>af_key = ''n'', af_op = OpCount, af_operand = JStr ''x''\<rparr>], as_sort = [], as_page = 1, as_pageSize = 20\<rparr>
     [(''x'', foldl col_put (newTypedColumn ''x'') [(0, JNum (num_of_int 5)), (1, JNull)])] = [[(''n'', JNum (num_of_int 2))]] \<and>
   aggregateObjects plain_host [JObj [(''x'', JNum (num_of_int 5))], JObj [(''x'', JNull)]]
     (JObj [(''fields'', JObj [(''n'', JObj [(''$count'', JStr ''x'')])])]) = Inr [[(''n'', JNum (num_of_int 1))]]"
proof -
  define us where "us = [(0 :: nat, JNum (num_of_int 5)), (1, JNull)]"
  define c where "c = foldl col_put (newTypedColumn ''x'') us"
  define spec where "spec = JObj [(''fields'', JObj [(''n'', JObj [(''$count'', JStr ''x'')])])]"
  define f where "f = \<lparr>af_key = ''n'', af_op = OpCount, af_operand = JStr ''x''\<rparr>"
  define n where "n = \<lparr>as_groupBy = [], as_fields = [f], as_sort = [], as_page = 1, as_pageSize = 20\<rparr>"
  have "{r. last_value us r \<noteq> JUndef} = {0, 1}" by (auto simp: us_def last_value_def)
  then have "col_entries c = 2" using column_counts [of "''x''" us] by (simp add: c_def)
  then have "aggregateFlatFromColumnSummary 2 spec n [(''x'', c)] = [[(''n'', JNum (num_of_int 2))]]"
    by (simp add: aggregateFlatFromColumnSummary_def finishFlatColumnAggregate_def summary_state_def n_def f_def Let_def
        operand_path_def col_at_def write_fields_def writeFlatField_def state_at_def)
  moreover have "aggregateObjects plain_host [JObj [(''x'', JNum (num_of_int 5))], JObj [(''x'', JNull)]] spec =
      Inr [[(''n'', JNum (num_of_int 1))]]"
  proof -
    let ?rows = "[JObj [(''x'', JNum (num_of_int 5))], JObj [(''x'', JNull)]]"
    have norm: "normalizeAggregateSpec plain_host spec = Inr n"
      by (simp add: normalizeAggregateSpec_def spec_def oget_def normalizeGroupBy_def nullish_def
          normalizeFields_def normalizeField_def aggregateOperators_def is_path_def normalizeSort_def
          normalizePositiveInteger_def n_def f_def)
    have clash: "no_clash n" by (simp add: n_def f_def no_clash_def result_keys_def partial_keys_def write_keys_def)
    have ok: "mergeable n 1 (concat [?rows])" by (simp add: mergeable_def n_def f_def)
    have "aggregateObjects plain_host ?rows spec =
        mergeAggregatePartials plain_host (concat (map (\<lambda>rows. map (partial_row n) (jm_vals (partial_buckets plain_host n rows))) [?rows])) spec"
      by (simp add: aggregateObjects_def partial_result [OF norm])
    then have "aggregateObjects plain_host ?rows spec = Inr (finish_rows plain_host n (map (finished_row n) [group_bucket plain_host n ?rows]))"
      using merged_buckets [OF plain_collation clash ok] all_buckets_flat [of n ?rows plain_host]
      by (simp only: merge_result [OF norm]) (simp add: n_def)
    moreover have "field_fold plain_host f ?rows = FCount (num_of_int 1)"
      using num_add_of_int [of 0 1]
      by (simp add: field_fold_state f_def path_values_def operand_path_def getPathValue_def oget_def nullish_def one_if_def
          add_finite_def safe_int_def num_of_int_def num_finite_def)
    ultimately show ?thesis
      using field_state_group [of n f plain_host ?rows]
      by (simp add: finish_rows_def page_of_def finished_row_def n_def f_def result_keys_def finishField_def
          group_bucket_def canonical_bucket_def group_values_def)
  qed
  ultimately show ?thesis by (simp add: spec_def n_def f_def c_def us_def)
qed

end
