(* ===== verification/QueryPlan.thy ===== *)
theory QueryPlan
  imports ColumnAggregate
begin

text \<open>
  How a query is answered: src/src/query-planner.js, which chooses a path from what the indexes and columns can do, and the parts of
  \<open>Collection\<close> in src/src/store.js that supply the ids (\<open>_ridsForCriteria\<close>, \<open>_partialRidsForCriteria\<close>), run the plan
  (\<open>find\<close>, \<open>findForQuery\<close>, \<open>count\<close>, \<open>aggregate\<close>) and fall back to the scan.

  The record \<open>view\<close> is what these operations read of a collection; they change nothing but the cached order of an index. Options
  that are callbacks are predicates; \<open>limit\<close> is \<open>None\<close> for \<open>Infinity\<close>.
\<close>

record view =
  vw_readForQuery :: "nat \<Rightarrow> jsv option"
  vw_read :: "nat \<Rightarrow> jsv option"
  vw_readId :: "string \<Rightarrow> jsv option"
  vw_idOf :: "nat \<Rightarrow> string option"
  vw_ridOf :: "string \<Rightarrow> nat option"
  vw_has :: "string \<Rightarrow> bool"
  vw_live :: "nat list"
  vw_liveCount :: nat
  vw_indexes :: "(string, findex) jmap"
  vw_columns :: "(string, tcol) jmap"
  vw_dirty :: "nat list"

record find_options =
  op_sortBy :: "string option"
  op_desc :: bool
  op_offset :: nat
  op_limit :: "nat option"
  op_includeId :: "(string option \<Rightarrow> bool) option"
  op_includeIds :: "nat list option"

subsection \<open>Ids from the indexes\<close>

definition hasDirtyIndexes :: "view \<Rightarrow> bool" where
  "hasDirtyIndexes c \<longleftrightarrow> vw_dirty c \<noteq> []"

definition isEmptyCriteria :: "jsv \<Rightarrow> bool" where
  "isEmptyCriteria q \<longleftrightarrow> q = JObj []"

definition hasObjectCriteria :: "jsv \<Rightarrow> bool" where
  "hasObjectCriteria q \<longleftrightarrow> is_obj q \<and> q \<noteq> JObj []"

definition ridsForObjectIdConstraint :: "host \<Rightarrow> view \<Rightarrow> jsv \<Rightarrow> nat list option" where
  "ridsForObjectIdConstraint h c expected =
     (case indexableConstraintValues expected of
        None \<Rightarrow> None
      | Some vs \<Rightarrow>
          Some (foldl (\<lambda>rids v. let s = js_to_string h v in
                  case vw_ridOf c s of Some rid \<Rightarrow> if vw_has c s then js_add rid rids else rids | None \<Rightarrow> rids) [] vs))"

text \<open>Rows whose index entries are out of date are taken out of the index's answer and matched one by one.\<close>

definition dirtyAwareIndexedRids :: "host \<Rightarrow> view \<Rightarrow> string \<Rightarrow> jsv \<Rightarrow> nat list option \<Rightarrow> nat list option" where
  "dirtyAwareIndexedRids h c path expected indexed =
     (case indexed of
        None \<Rightarrow> None
      | Some ids \<Rightarrow>
          if vw_dirty c = [] then Some ids
          else Some (foldl (\<lambda>out rid. case vw_readForQuery c rid of
                              Some object \<Rightarrow> if matchesQuery h object (JObj [(path, expected)]) then js_add rid out else out
                            | None \<Rightarrow> out)
                       (filter (\<lambda>rid. rid \<notin> set (vw_dirty c)) ids) (vw_dirty c)))"

definition ridsForFieldConstraint :: "host \<Rightarrow> view \<Rightarrow> string \<Rightarrow> jsv \<Rightarrow> nat list option" where
  "ridsForFieldConstraint h c path expected =
     (if path = ''_id'' then ridsForObjectIdConstraint h c expected
      else (case jm_get (vw_indexes c) path of
              None \<Rightarrow> None
            | Some index \<Rightarrow>
                (case indexableContainsValue expected of
                   Some v \<Rightarrow> dirtyAwareIndexedRids h c path expected (idsForContains h index v)
                 | None \<Rightarrow>
                     (case indexableConstraintValues expected of
                        None \<Rightarrow> None
                      | Some vs \<Rightarrow> dirtyAwareIndexedRids h c path expected (Some (idsForValues h index vs))))))"

definition meet :: "nat list option \<Rightarrow> nat list \<Rightarrow> nat list option" where
  "meet current rids = Some (case current of None \<Rightarrow> rids | Some cur \<Rightarrow> setIntersection cur rids)"

text \<open>
  \<open>_ridsForCriteria\<close>: the rows that satisfy all entries of the query, \<open>None\<close> when some entry is not answered by an index (or
  no entry says anything). The second function is its loop over the entries from the result so far, the third maps it over
  the children of \<open>$and\<close> (without the empty ones) or \<open>$or\<close> and is \<open>None\<close> when one of them is.
\<close>

function (sequential) ridsForCriteria :: "(string \<Rightarrow> jsv \<Rightarrow> nat list option) \<Rightarrow> jsv \<Rightarrow> nat list option"
  and rids_entries :: "(string \<Rightarrow> jsv \<Rightarrow> nat list option) \<Rightarrow> jobj \<Rightarrow> nat list option \<Rightarrow> nat list option"
  and rids_children :: "(string \<Rightarrow> jsv \<Rightarrow> nat list option) \<Rightarrow> bool \<Rightarrow> jsv list \<Rightarrow> nat list list option"
where
  "ridsForCriteria leaf q = (case q of JObj kvs \<Rightarrow> rids_entries leaf kvs None | _ \<Rightarrow> None)"
| "rids_entries leaf [] current = current"
| "rids_entries leaf ((path, expected) # rest) current =
     (if path = ''$and'' \<and> is_arr expected
      then (case rids_children leaf True (elems_of expected) of
              None \<Rightarrow> None
            | Some [] \<Rightarrow> rids_entries leaf rest current
            | Some (s # ss) \<Rightarrow> rids_entries leaf rest (meet current (foldl setIntersection s ss)))
      else if path = ''$or'' \<and> is_arr expected
      then (case rids_children leaf False (elems_of expected) of
              None \<Rightarrow> None
            | Some [] \<Rightarrow> rids_entries leaf rest (meet current [])
            | Some (s # ss) \<Rightarrow> rids_entries leaf rest (meet current (foldl setUnion s ss)))
      else if starts_with ''$'' path then None
      else (case leaf path expected of
              None \<Rightarrow> None
            | Some rids \<Rightarrow> rids_entries leaf rest (meet current rids)))"
| "rids_children leaf skipEmpty [] = Some []"
| "rids_children leaf skipEmpty (child # children) =
     (if skipEmpty \<and> isEmptyCriteria child then rids_children leaf skipEmpty children
      else (case ridsForCriteria leaf child of
              None \<Rightarrow> None
            | Some rids \<Rightarrow>
                (case rids_children leaf skipEmpty children of None \<Rightarrow> None | Some sets \<Rightarrow> Some (rids # sets))))"
  by pat_completeness auto
termination
proof (relation "measure (\<lambda>x. case x of
        Inl (leaf, q) \<Rightarrow> 2 * size q
      | Inr (Inl (leaf, kvs, current)) \<Rightarrow> 2 * size_list (size_prod (\<lambda>_. 0) size) kvs + 1
      | Inr (Inr (leaf, skip, cs)) \<Rightarrow> 2 * size_list size cs + 1)", goal_cases)
  case (3 leaf path expected rest current)
  then show ?case by (cases expected) auto
next
  case (6 leaf path expected rest current)
  then show ?case by (cases expected) auto
qed auto

text \<open>\<open>_partialRidsForCriteria\<close>: what the indexes can say of some of the entries.\<close>

function (sequential) partialRidsForCriteria :: "(string \<Rightarrow> jsv \<Rightarrow> nat list option) \<Rightarrow> jsv \<Rightarrow> nat list option"
  and partial_entries :: "(string \<Rightarrow> jsv \<Rightarrow> nat list option) \<Rightarrow> jobj \<Rightarrow> nat list option \<Rightarrow> nat list option"
  and partial_children :: "(string \<Rightarrow> jsv \<Rightarrow> nat list option) \<Rightarrow> jsv list \<Rightarrow> nat list option \<Rightarrow> nat list option"
where
  "partialRidsForCriteria leaf q = (case q of JObj kvs \<Rightarrow> partial_entries leaf kvs None | _ \<Rightarrow> None)"
| "partial_entries leaf [] current = current"
| "partial_entries leaf ((path, expected) # rest) current =
     (if path = ''$and'' \<and> is_arr expected
      then partial_entries leaf rest (partial_children leaf (elems_of expected) current)
      else if path = ''$or'' \<and> is_arr expected
      then partial_entries leaf rest
             (case ridsForCriteria leaf (JObj [(''$or'', expected)]) of None \<Rightarrow> current | Some rids \<Rightarrow> meet current rids)
      else if starts_with ''$'' path then partial_entries leaf rest current
      else partial_entries leaf rest (case leaf path expected of None \<Rightarrow> current | Some rids \<Rightarrow> meet current rids))"
| "partial_children leaf [] current = current"
| "partial_children leaf (child # children) current =
     (if isEmptyCriteria child then partial_children leaf children current
      else (case ridsForCriteria leaf child of
              Some rids \<Rightarrow> partial_children leaf children (meet current rids)
            | None \<Rightarrow>
                (case partialRidsForCriteria leaf child of
                   Some rids \<Rightarrow> partial_children leaf children (meet current rids)
                 | None \<Rightarrow> partial_children leaf children current)))"
  by pat_completeness auto
termination
proof (relation "measure (\<lambda>x. case x of
        Inl (leaf, q) \<Rightarrow> 2 * size q
      | Inr (Inl (leaf, kvs, current)) \<Rightarrow> 2 * size_list (size_prod (\<lambda>_. 0) size) kvs + 1
      | Inr (Inr (leaf, cs, current)) \<Rightarrow> 2 * size_list size cs + 1)", goal_cases)
  case (3 leaf path expected rest current)
  then show ?case by (cases expected) auto
qed auto

subsection \<open>Plans\<close>

datatype read_path = IndexExact | IndexPartial | OrderedIndex | Scan

record id_plan =
  ip_ids :: "nat list option"
  ip_exact :: bool
  ip_verify :: bool
  ip_scopeIds :: "nat list option"

record read_plan =
  rp_path :: read_path
  rp_idPlan :: "id_plan option"
  rp_reason :: string

definition publicReadPath :: "read_path \<Rightarrow> string" where
  "publicReadPath path =
     (case path of
        IndexExact \<Rightarrow> ''index-full'' | IndexPartial \<Rightarrow> ''index-partial'' | OrderedIndex \<Rightarrow> ''ordered-index'' | Scan \<Rightarrow> ''scan'')"

definition combineQueryPaths :: "string list \<Rightarrow> string" where
  "combineQueryPaths paths =
     join_with '','' (foldl (\<lambda>out part. let v = js_trim part in if v = [] then out else js_add v out) []
                       (concat (map (split_on CHR '','') paths)))"

definition allIdsPlan :: id_plan where
  "allIdsPlan = \<lparr>ip_ids = None, ip_exact = True, ip_verify = False, ip_scopeIds = None\<rparr>"

text \<open>What the planner asks of a collection.\<close>

record adapter =
  ad_idsForCriteria :: "jsv \<Rightarrow> nat list option"
  ad_partialIdsForCriteria :: "jsv \<Rightarrow> nat list option"
  ad_hasOrderedIndex :: "string \<Rightarrow> bool"
  ad_hasGroupIndex :: "string \<Rightarrow> bool"
  ad_hasGroupForwardIndex :: "string \<Rightarrow> bool"
  ad_fieldIndex :: "string \<Rightarrow> findex option"
  ad_column :: "string \<Rightarrow> tcol option"
  ad_idsForAll :: "(string option \<Rightarrow> bool) \<Rightarrow> nat list"
  ad_filterIds :: "nat list \<Rightarrow> (string option \<Rightarrow> bool) \<Rightarrow> nat list"

definition filterRidSet :: "view \<Rightarrow> nat list \<Rightarrow> (string option \<Rightarrow> bool) \<Rightarrow> nat list" where
  "filterRidSet c rids includeId = filter (\<lambda>rid. includeId (vw_idOf c rid)) rids"

definition ridSetForAll :: "view \<Rightarrow> (string option \<Rightarrow> bool) \<Rightarrow> nat list" where
  "ridSetForAll c includeId = filter (\<lambda>rid. includeId (vw_idOf c rid)) (vw_live c)"

definition plannerAdapter :: "host \<Rightarrow> view \<Rightarrow> adapter" where
  "plannerAdapter h c =
     \<lparr>ad_idsForCriteria = ridsForCriteria (ridsForFieldConstraint h c),
      ad_partialIdsForCriteria = partialRidsForCriteria (ridsForFieldConstraint h c),
      ad_hasOrderedIndex = (\<lambda>path. \<not> hasDirtyIndexes c \<and> jm_has (vw_indexes c) path),
      ad_hasGroupIndex = (\<lambda>path. \<not> hasDirtyIndexes c \<and> jm_has (vw_indexes c) path),
      ad_hasGroupForwardIndex = (\<lambda>path. \<not> hasDirtyIndexes c \<and> jm_has (vw_indexes c) path),
      ad_fieldIndex = jm_get (vw_indexes c),
      ad_column = (\<lambda>path. if hasDirtyIndexes c then None else jm_get (vw_columns c) path),
      ad_idsForAll = ridSetForAll c,
      ad_filterIds = filterRidSet c\<rparr>"

definition planIndexedIds :: "jsv \<Rightarrow> adapter \<Rightarrow> id_plan option" where
  "planIndexedIds criteria ad =
     (case ad_idsForCriteria ad criteria of
        Some ids \<Rightarrow> Some \<lparr>ip_ids = Some ids, ip_exact = True, ip_verify = False, ip_scopeIds = None\<rparr>
      | None \<Rightarrow>
          (case ad_partialIdsForCriteria ad criteria of
             Some ids \<Rightarrow> Some \<lparr>ip_ids = Some ids, ip_exact = False, ip_verify = True, ip_scopeIds = None\<rparr>
           | None \<Rightarrow> None))"

definition planRead :: "jsv \<Rightarrow> string option \<Rightarrow> adapter \<Rightarrow> read_plan" where
  "planRead criteria orderBy ad =
     (let hasCriteria = hasObjectCriteria criteria;
          idPlan = (if hasCriteria then planIndexedIds criteria ad else Some allIdsPlan)
      in if (case orderBy of None \<Rightarrow> False | Some by \<Rightarrow> ad_hasOrderedIndex ad by)
         then \<lparr>rp_path = OrderedIndex, rp_idPlan = idPlan, rp_reason = ''sort field has an ordered field index''\<rparr>
         else if \<not> hasCriteria then \<lparr>rp_path = Scan, rp_idPlan = idPlan, rp_reason = ''no criteria''\<rparr>
         else (case idPlan of
                 Some ip \<Rightarrow>
                   if ip_exact ip
                   then \<lparr>rp_path = IndexExact, rp_idPlan = idPlan, rp_reason = ''all criteria are satisfied by field indexes''\<rparr>
                   else \<lparr>rp_path = IndexPartial, rp_idPlan = idPlan, rp_reason = ''field indexes narrow part of the criteria''\<rparr>
               | None \<Rightarrow> \<lparr>rp_path = Scan, rp_idPlan = Some allIdsPlan, rp_reason = ''criteria are not indexable''\<rparr>))"

definition planCount :: "jsv \<Rightarrow> string option \<Rightarrow> adapter \<Rightarrow> read_plan" where
  "planCount criteria orderBy ad =
     (let read = planRead criteria orderBy ad in
      if rp_path read = OrderedIndex
      then if \<not> hasObjectCriteria criteria then read\<lparr>rp_path := Scan, rp_idPlan := Some allIdsPlan\<rparr>
           else (case planIndexedIds criteria ad of
                   Some ip \<Rightarrow> read\<lparr>rp_path := (if ip_exact ip then IndexExact else IndexPartial), rp_idPlan := Some ip\<rparr>
                 | None \<Rightarrow> read\<lparr>rp_path := Scan, rp_idPlan := Some allIdsPlan\<rparr>)
      else read)"

datatype agg_path = ColumnSummary | ColumnScan | GroupForwardIndex | GroupIndex | GroupColumnScan | AggScan

record agg_plan =
  ap_path :: agg_path
  ap_normalized :: agg_spec
  ap_columns :: "(string, tcol) jmap"
  ap_groupBy :: "string option"
  ap_groupIndex :: "findex option"
  ap_idPlan :: "id_plan option"
  ap_reason :: string

definition publicAggregatePath :: "agg_path \<Rightarrow> string" where
  "publicAggregatePath path =
     (case path of
        ColumnSummary \<Rightarrow> ''aggregate-column-summary'' | ColumnScan \<Rightarrow> ''aggregate-column-scan''
      | GroupForwardIndex \<Rightarrow> ''aggregate-group-forward-index'' | GroupIndex \<Rightarrow> ''aggregate-group-index''
      | GroupColumnScan \<Rightarrow> ''aggregate-group-column-scan'' | AggScan \<Rightarrow> ''aggregate-scan'')"

definition aggregateScanPlan :: "agg_spec \<Rightarrow> string \<Rightarrow> agg_plan" where
  "aggregateScanPlan n reason =
     \<lparr>ap_path = AggScan, ap_normalized = n, ap_columns = [], ap_groupBy = None, ap_groupIndex = None, ap_idPlan = None, ap_reason = reason\<rparr>"

definition unique_paths :: "string list \<Rightarrow> string list" where
  "unique_paths paths = js_unique (filter (\<lambda>p. p \<noteq> []) paths)"

text \<open>The ready columns of the paths, or the first path without one.\<close>

fun ready_loop :: "adapter \<Rightarrow> string list \<Rightarrow> (string, tcol) jmap \<Rightarrow> string + (string, tcol) jmap" where
  "ready_loop ad [] cols = Inr cols"
| "ready_loop ad (path # paths) cols =
     (case ad_column ad path of
        None \<Rightarrow> Inl path
      | Some col \<Rightarrow> if \<not> col_ready col then Inl path else ready_loop ad paths (jm_set path col cols))"

definition readyColumns :: "string list \<Rightarrow> adapter \<Rightarrow> string + (string, tcol) jmap" where
  "readyColumns paths ad = ready_loop ad (unique_paths paths) []"

definition metricColumnPaths :: "agg_spec \<Rightarrow> string list" where
  "metricColumnPaths n =
     concat (map (\<lambda>f. if af_op f = OpCount \<and> af_operand f = JBool True then [] else [operand_path f]) (as_fields n))"

definition canUseColumnSummary :: "agg_spec \<Rightarrow> bool" where
  "canUseColumnSummary n \<longleftrightarrow> list_all (\<lambda>f. af_op f = OpSum \<or> af_op f = OpAvg \<or> af_op f = OpCount) (as_fields n)"

definition mergeColumnMaps :: "(string, tcol) jmap \<Rightarrow> (string, tcol) jmap \<Rightarrow> (string, tcol) jmap" where
  "mergeColumnMaps left right = foldl (\<lambda>m (path, col). jm_set path col m) left right"

definition aggregateIdPlan :: "jsv \<Rightarrow> (string option \<Rightarrow> bool) option \<Rightarrow> nat list option \<Rightarrow> adapter \<Rightarrow> id_plan option" where
  "aggregateIdPlan criteria includeId includeIds ad =
     (if \<not> hasObjectCriteria criteria
      then (case (includeIds, includeId) of
              (Some ids, Some p) \<Rightarrow> Some \<lparr>ip_ids = Some (ad_filterIds ad ids p), ip_exact = True, ip_verify = False, ip_scopeIds = None\<rparr>
            | (Some ids, None) \<Rightarrow> Some \<lparr>ip_ids = Some ids, ip_exact = True, ip_verify = False, ip_scopeIds = None\<rparr>
            | (None, Some p) \<Rightarrow> Some \<lparr>ip_ids = Some (ad_idsForAll ad p), ip_exact = True, ip_verify = False, ip_scopeIds = None\<rparr>
            | (None, None) \<Rightarrow> Some allIdsPlan)
      else (case planIndexedIds criteria ad of
              None \<Rightarrow> None
            | Some indexed \<Rightarrow>
                (case includeIds of
                   Some scope \<Rightarrow> Some (indexed\<lparr>ip_scopeIds := Some scope\<rparr>)
                 | None \<Rightarrow>
                     (case includeId of
                        None \<Rightarrow> Some indexed
                      | Some p \<Rightarrow>
                          Some (indexed\<lparr>ip_ids := Some (ad_filterIds ad (case ip_ids indexed of None \<Rightarrow> [] | Some ids \<Rightarrow> ids) p)\<rparr>)))))"

definition planAggregate :: "host \<Rightarrow> jsv \<Rightarrow> jsv \<Rightarrow> find_options \<Rightarrow> adapter \<Rightarrow> agg_error + agg_plan" where
  "planAggregate h criteria spec options ad =
     res_bind (normalizeAggregateSpec h spec) (\<lambda>n.
       let includeId = op_includeId options; includeIds = op_includeIds options;
           idPlan = aggregateIdPlan criteria includeId includeIds ad
       in Inr (case readyColumns (metricColumnPaths n) ad of
            Inl missing \<Rightarrow> aggregateScanPlan n (''missing or building column index for '' @ missing)
          | Inr columns \<Rightarrow>
              let plan = \<lparr>ap_path = ColumnScan, ap_normalized = n, ap_columns = columns, ap_groupBy = None, ap_groupIndex = None,
                          ap_idPlan = idPlan, ap_reason = ''flat aggregate can scan column values over planned ids''\<rparr>
              in case as_groupBy n of
                [] \<Rightarrow>
                  if \<not> hasObjectCriteria criteria \<and> includeId = None \<and> includeIds = None \<and> canUseColumnSummary n
                  then plan\<lparr>ap_path := ColumnSummary, ap_idPlan := None,
                            ap_reason := ''flat aggregate can be answered from column summaries''\<rparr>
                  else if idPlan = None then aggregateScanPlan n ''criteria cannot be narrowed by indexes''
                  else plan
              | first # others \<Rightarrow>
                  if idPlan = None then aggregateScanPlan n ''criteria cannot be narrowed by indexes''
                  else if others = [] \<and> \<not> isRowCountOnlyAggregate n \<and>
                          (case idPlan of Some ip \<Rightarrow> ip_exact ip \<and> ip_ids ip \<noteq> None | None \<Rightarrow> False) \<and> ad_hasGroupForwardIndex ad first
                  then plan\<lparr>ap_path := GroupForwardIndex, ap_groupBy := Some first, ap_groupIndex := ad_fieldIndex ad first,
                            ap_reason := ''groupBy field can be read from the field index forward map and metrics have column indexes''\<rparr>
                  else if others = [] \<and> ad_hasGroupIndex ad first
                  then plan\<lparr>ap_path := GroupIndex, ap_groupBy := Some first, ap_groupIndex := ad_fieldIndex ad first,
                            ap_reason := ''groupBy field has a field index and metrics have column indexes''\<rparr>
                  else (case readyColumns (as_groupBy n) ad of
                          Inl missing \<Rightarrow> aggregateScanPlan n (''missing or building group column index for '' @ missing)
                        | Inr groupColumns \<Rightarrow>
                            plan\<lparr>ap_path := GroupColumnScan, ap_columns := mergeColumnMaps columns groupColumns,
                                 ap_reason := ''group fields and metric fields have ready column indexes''\<rparr>)))"

subsection \<open>Running a plan\<close>

definition ridsForPlan :: "host \<Rightarrow> view \<Rightarrow> id_plan option \<Rightarrow> jsv \<Rightarrow> nat list" where
  "ridsForPlan h c plan criteria =
     (let rids = (case plan of None \<Rightarrow> vw_live c | Some ip \<Rightarrow> (case ip_ids ip of None \<Rightarrow> vw_live c | Some ids \<Rightarrow> ids))
      in filter (\<lambda>rid.
           (case plan of Some ip \<Rightarrow> (case ip_scopeIds ip of Some scope \<Rightarrow> rid \<in> set scope | None \<Rightarrow> True) | None \<Rightarrow> True) \<and>
           (case plan of
              Some ip \<Rightarrow> ip_verify ip \<longrightarrow>
                (case vw_readForQuery c rid of Some object \<Rightarrow> matchesQuery h object criteria | None \<Rightarrow> False)
            | None \<Rightarrow> True)) rids)"

definition ridSetForPlan :: "host \<Rightarrow> view \<Rightarrow> id_plan option \<Rightarrow> jsv \<Rightarrow> nat list option" where
  "ridSetForPlan h c plan criteria =
     (case plan of
        None \<Rightarrow> None
      | Some ip \<Rightarrow>
          (case ip_ids ip of
             None \<Rightarrow> None
           | Some ids \<Rightarrow>
               if \<not> ip_verify ip
               then Some (case ip_scopeIds ip of Some scope \<Rightarrow> setIntersection ids scope | None \<Rightarrow> ids)
               else Some (js_unique (ridsForPlan h c plan criteria))))"

definition allowed :: "view \<Rightarrow> (string option \<Rightarrow> bool) option \<Rightarrow> nat \<Rightarrow> bool" where
  "allowed c includeId rid = (case includeId of None \<Rightarrow> True | Some p \<Rightarrow> p (vw_idOf c rid))"

definition in_scope :: "nat list option \<Rightarrow> nat \<Rightarrow> bool" where
  "in_scope includeIds rid = (case includeIds of None \<Rightarrow> True | Some ids \<Rightarrow> rid \<in> set ids)"

definition sortObjects :: "host \<Rightarrow> string \<Rightarrow> bool \<Rightarrow> jsv list \<Rightarrow> jsv list" where
  "sortObjects h by desc objects =
     js_sort (\<lambda>left right. compareSortValues h (getPathValue left by) (getPathValue right by) * (if desc then - 1 else 1)) objects"

definition slice :: "nat \<Rightarrow> nat option \<Rightarrow> 'a list \<Rightarrow> 'a list" where
  "slice offset limit xs = (case limit of None \<Rightarrow> drop offset xs | Some l \<Rightarrow> take l (drop offset xs))"

text \<open>\<open>obj._id\<close> of a row that was read.\<close>

definition object_id :: "host \<Rightarrow> jsv \<Rightarrow> string" where
  "object_id h object = js_to_string h (jprop object ''_id'')"

definition read_by_id :: "host \<Rightarrow> view \<Rightarrow> jsv list \<Rightarrow> jsv list" where
  "read_by_id h c objects = List.map_filter (\<lambda>object. vw_readId c (object_id h object)) objects"

definition findWithOrderedIndex :: "host \<Rightarrow> view \<Rightarrow> jsv \<Rightarrow> find_options \<Rightarrow> read_plan \<Rightarrow> jsv list option" where
  "findWithOrderedIndex h c criteria options plan =
     (case op_sortBy options of
        None \<Rightarrow> None
      | Some by \<Rightarrow>
          (case jm_get (vw_indexes c) by of
             None \<Rightarrow> None
           | Some index \<Rightarrow>
               let filterProven = (case rp_idPlan plan of Some ip \<Rightarrow> \<not> ip_verify ip \<and> rp_path plan \<noteq> Scan | None \<Rightarrow> False);
                   includeRid = map_option (\<lambda>p rid. p (vw_idOf c rid)) (op_includeId options)
               in Some (read_by_id h c (fst (index_find h index
                    (case rp_idPlan plan of None \<Rightarrow> None | Some ip \<Rightarrow> ip_ids ip) includeRid
                    (op_desc options) (op_offset options) (op_limit options) (vw_readForQuery c)
                    (\<lambda>object. filterProven \<or> matchesQuery h object criteria))))))"

text \<open>The loop of \<open>find\<close> without a sort: \<open>proven\<close> says which rids count towards the page, \<open>read\<close> makes the result.\<close>

fun page_loop :: "(nat \<Rightarrow> bool) \<Rightarrow> (nat \<Rightarrow> 'r option) \<Rightarrow> nat \<Rightarrow> nat option \<Rightarrow> nat list \<Rightarrow> nat \<Rightarrow> 'r list \<Rightarrow> 'r list" where
  "page_loop proven read offset limit [] skipped results = results"
| "page_loop proven read offset limit (rid # rids) skipped results =
     (if \<not> proven rid then page_loop proven read offset limit rids skipped results
      else if skipped < offset then page_loop proven read offset limit rids (skipped + 1) results
      else let out = (case read rid of None \<Rightarrow> results | Some x \<Rightarrow> results @ [x]) in
           if (case limit of None \<Rightarrow> False | Some l \<Rightarrow> l \<le> length out) then out
           else page_loop proven read offset limit rids skipped out)"

definition row_matches :: "host \<Rightarrow> view \<Rightarrow> jsv \<Rightarrow> nat \<Rightarrow> bool" where
  "row_matches h c criteria rid =
     (case vw_readForQuery c rid of Some object \<Rightarrow> matchesQuery h object criteria | None \<Rightarrow> False)"

definition matched_objects :: "host \<Rightarrow> view \<Rightarrow> jsv \<Rightarrow> nat list \<Rightarrow> jsv list" where
  "matched_objects h c criteria rids = List.map_filter (vw_readForQuery c) (filter (row_matches h c criteria) rids)"

definition find_rows :: "host \<Rightarrow> view \<Rightarrow> jsv \<Rightarrow> find_options \<Rightarrow> jsv list" where
  "find_rows h c query options =
     (let criteria = stripQueryControls query;
          plan = planRead criteria (op_sortBy options) (plannerAdapter h c)
      in case op_sortBy options of
           None \<Rightarrow>
             if op_limit options = Some 0 then []
             else let verifyScan = (rp_path plan = Scan \<and> \<not> isEmptyCriteria criteria)
                  in page_loop (\<lambda>rid. allowed c (op_includeId options) rid \<and> (verifyScan \<longrightarrow> row_matches h c criteria rid))
                       (vw_read c) (op_offset options) (op_limit options) (ridsForPlan h c (rp_idPlan plan) criteria) 0 []
         | Some by \<Rightarrow>
             (case (if rp_path plan = OrderedIndex then findWithOrderedIndex h c criteria options plan else None) of
                Some indexed \<Rightarrow> indexed
              | None \<Rightarrow>
                  read_by_id h c (slice (op_offset options) (op_limit options) (sortObjects h by (op_desc options)
                    (matched_objects h c criteria
                      (filter (allowed c (op_includeId options)) (ridsForPlan h c (rp_idPlan plan) criteria)))))))"

definition findForQuery :: "host \<Rightarrow> view \<Rightarrow> jsv \<Rightarrow> find_options \<Rightarrow> jsv list" where
  "findForQuery h c query options =
     (let criteria = stripQueryControls query;
          plan = planRead criteria (op_sortBy options) (plannerAdapter h c);
          rids = filter (\<lambda>rid. in_scope (op_includeIds options) rid \<and> allowed c (op_includeId options) rid)
                   (ridsForPlan h c (rp_idPlan plan) criteria)
      in case op_sortBy options of
           None \<Rightarrow>
             if op_limit options = Some 0 then []
             else let verifyScan = (rp_path plan = Scan \<and> \<not> isEmptyCriteria criteria)
                  in page_loop (\<lambda>rid. vw_readForQuery c rid \<noteq> None \<and> (verifyScan \<longrightarrow> row_matches h c criteria rid))
                       (vw_readForQuery c) (op_offset options) (op_limit options) rids 0 []
         | Some by \<Rightarrow>
             slice (op_offset options) (op_limit options)
               (sortObjects h by (op_desc options) (matched_objects h c criteria rids)))"

definition count_rows :: "host \<Rightarrow> view \<Rightarrow> jsv \<Rightarrow> find_options \<Rightarrow> nat" where
  "count_rows h c query options =
     (let criteria = stripQueryControls query; includeId = op_includeId options; includeIds = op_includeIds options
      in if \<not> hasObjectCriteria criteria
         then (case (includeIds, includeId) of
                 (Some ids, Some p) \<Rightarrow> length (filter (\<lambda>rid. p (vw_idOf c rid)) ids)
               | (Some ids, None) \<Rightarrow> length ids
               | (None, Some p) \<Rightarrow> length (filter (\<lambda>rid. p (vw_idOf c rid)) (vw_live c))
               | (None, None) \<Rightarrow> vw_liveCount c)
         else let plan = planCount criteria (op_sortBy options) (plannerAdapter h c)
              in case (case rp_idPlan plan of
                         Some ip \<Rightarrow> if rp_path plan = IndexExact \<and> \<not> ip_verify ip then ip_ids ip else None | None \<Rightarrow> None) of
                   Some ids \<Rightarrow>
                     (case (includeIds, includeId) of
                        (Some scope, Some p) \<Rightarrow>
                          length (filter (\<lambda>rid. rid \<in> set ids \<and> rid \<in> set scope \<and> p (vw_idOf c rid)) (smallerSet ids scope))
                      | (Some scope, None) \<Rightarrow> countIntersection ids scope
                      | (None, None) \<Rightarrow> length ids
                      | (None, Some p) \<Rightarrow> length (filter (\<lambda>rid. p (vw_idOf c rid)) ids))
                 | None \<Rightarrow>
                     let verifyScan = (rp_path plan = Scan \<and> \<not> isEmptyCriteria criteria)
                     in length (filter (\<lambda>rid. in_scope includeIds rid \<and> allowed c includeId rid \<and>
                                          (verifyScan \<longrightarrow> row_matches h c criteria rid))
                                 (ridsForPlan h c (rp_idPlan plan) criteria)))"

subsection \<open>Aggregates over a plan\<close>

definition aggregateGroupIndex :: "host \<Rightarrow> view \<Rightarrow> agg_plan \<Rightarrow> jsv \<Rightarrow> jsv \<Rightarrow> agg_error + jobj list" where
  "aggregateGroupIndex h c plan criteria spec =
     (case (ap_groupIndex plan, ap_groupBy plan) of
        (Some index, Some groupBy) \<Rightarrow>
          let verify = (case ap_idPlan plan of Some ip \<Rightarrow> ip_verify ip | None \<Rightarrow> False) in
          if isRowCountOnlyAggregate (ap_normalized plan)
          then aggregateGroupCounts h index groupBy (ap_normalized plan)
                 (if verify then ridSetForPlan h c (ap_idPlan plan) criteria
                  else (case ap_idPlan plan of Some ip \<Rightarrow> ip_ids ip | None \<Rightarrow> None))
                 (if verify then None else (case ap_idPlan plan of Some ip \<Rightarrow> ip_scopeIds ip | None \<Rightarrow> None)) spec
          else aggregateGroupScan h index groupBy (ap_normalized plan) (ap_columns plan)
                 (ridSetForPlan h c (ap_idPlan plan) criteria) spec
      | _ \<Rightarrow> Inr [])"

definition aggregateGroupForwardIndex :: "host \<Rightarrow> view \<Rightarrow> agg_plan \<Rightarrow> jsv \<Rightarrow> jsv \<Rightarrow> agg_error + jobj list" where
  "aggregateGroupForwardIndex h c plan criteria spec =
     (case (ap_groupIndex plan, ap_groupBy plan) of
        (Some index, Some groupBy) \<Rightarrow>
          finishGroupedColumnAggregate h
            (scanForwardGroupedColumnAggregate h (ridsForPlan h c (ap_idPlan plan) criteria) (ap_normalized plan) groupBy index (ap_columns plan))
            spec (ap_normalized plan)
      | _ \<Rightarrow> Inr [])"

text \<open>\<open>None\<close> is \<open>null\<close>: the plan gives no answer and the rows are read.\<close>

definition executeAggregatePlan :: "host \<Rightarrow> view \<Rightarrow> agg_plan \<Rightarrow> jsv \<Rightarrow> jsv \<Rightarrow> (agg_error + jobj list) option" where
  "executeAggregatePlan h c plan criteria spec =
     (case ap_path plan of
        ColumnSummary \<Rightarrow> Some (Inr (aggregateFlatFromColumnSummary (vw_liveCount c) spec (ap_normalized plan) (ap_columns plan)))
      | ColumnScan \<Rightarrow>
          Some (Inr (finishFlatColumnAggregate
            (scanFlatColumnAggregate h (IdSeq (ridsForPlan h c (ap_idPlan plan) criteria)) (ap_normalized plan) (ap_columns plan))
            spec (ap_normalized plan)))
      | GroupForwardIndex \<Rightarrow> Some (aggregateGroupForwardIndex h c plan criteria spec)
      | GroupIndex \<Rightarrow> Some (aggregateGroupIndex h c plan criteria spec)
      | GroupColumnScan \<Rightarrow>
          map_option (\<lambda>grouped. finishGroupedColumnAggregate h grouped spec (ap_normalized plan))
            (scanGroupedColumnAggregate h (ridsForPlan h c (ap_idPlan plan) criteria) (ap_normalized plan) (ap_columns plan))
      | AggScan \<Rightarrow> None)"

definition aggregate_rows :: "host \<Rightarrow> view \<Rightarrow> jsv \<Rightarrow> jsv \<Rightarrow> find_options \<Rightarrow> agg_error + jsv" where
  "aggregate_rows h c query spec options =
     (if isObjectDbAggregateSpec spec
      then let criteria = stripQueryControls query in
           res_bind (planAggregate h criteria spec options (plannerAdapter h c)) (\<lambda>plan.
           res_bind (case executeAggregatePlan h c plan criteria spec of
                       Some indexed \<Rightarrow> indexed
                     | None \<Rightarrow>
                         let rows = findForQuery h c criteria options
                         in if wants_partial spec then aggregatePartialObjects h rows spec else aggregateObjects h rows spec)
             (\<lambda>out. Inr (JArr (map JObj out))))
      else Inr (aggregateLegacyObjects h (findForQuery h c query options) spec))"

definition readPath :: "host \<Rightarrow> view \<Rightarrow> jsv \<Rightarrow> find_options \<Rightarrow> read_path" where
  "readPath h c criteria options = rp_path (planRead (stripQueryControls criteria) (op_sortBy options) (plannerAdapter h c))"

definition aggregatePath :: "host \<Rightarrow> view \<Rightarrow> jsv \<Rightarrow> jsv \<Rightarrow> find_options \<Rightarrow> agg_error + agg_path" where
  "aggregatePath h c criteria spec options =
     (if \<not> isObjectDbAggregateSpec spec then Inr AggScan
      else res_bind (planAggregate h (stripQueryControls criteria) spec options (plannerAdapter h c)) (\<lambda>plan. Inr (ap_path plan)))"

end
