(* ===== verification/PlanExact.thy ===== *)
theory PlanExact
  imports QueryPlan
begin

text \<open>
  Why an indexed answer is the answer of the scan. The locale \<open>index_leaf\<close> is the interface between the planner and the
  indexes: for the constraints of a fragment, the ids a leaf returns are those of the rows that match. From it follows that the
  ids of a whole criteria tree are exact and those of a partial plan a superset. It is interpreted on the field indexes of a
  collection; the fragment (\<open>constraint_ok\<close>) has indexed values and operands of one type per path, because the index tells
  values apart by type and the scan compares them loosely.
\<close>

subsection \<open>JSON text is injective on strings\<close>

text \<open>Reading back one escaped character.\<close>

definition hex_value :: "char \<Rightarrow> nat" where
  "hex_value c = (let n = (of_char c :: nat) in if n < 58 then n - 48 else n - 87)"

fun json_unchar :: "string \<Rightarrow> (char \<times> string) option" where
  "json_unchar [] = None"
| "json_unchar (c # s) =
     (if (of_char c :: nat) \<noteq> 92 then Some (c, s)
      else (case s of
              [] \<Rightarrow> None
            | e # r \<Rightarrow>
                if (of_char e :: nat) = 117
                then (case r of z # z' # a # b # t \<Rightarrow> Some (char_of (16 * hex_value a + hex_value b), t) | _ \<Rightarrow> None)
                else Some (if (of_char e :: nat) = 98 then char_of (8 :: nat) else if (of_char e :: nat) = 116 then char_of (9 :: nat)
                           else if (of_char e :: nat) = 110 then char_of (10 :: nat) else if (of_char e :: nat) = 102 then char_of (12 :: nat)
                           else if (of_char e :: nat) = 114 then char_of (13 :: nat) else e, r)))"

lemma hex_value_digit: "k < 16 \<Longrightarrow> hex_value (hex_digit k) = k"
  by (simp add: hex_value_def hex_digit_def Let_def)

lemma hex_small: "n < 32 \<Longrightarrow> 16 * hex_value (hex_digit (n div 16)) + hex_value (hex_digit (n mod 16)) = n"
  by (simp add: hex_value_digit)

lemma json_unchar_char: "json_unchar (json_char c @ s) = Some (c, s)"
proof -
  define n where "n = (of_char c :: nat)"
  have c: "c = char_of n" by (simp add: n_def)
  have lt: "n < 256" by (simp add: n_def)
  show ?thesis
  proof (cases "n < 32 \<and> n \<noteq> 8 \<and> n \<noteq> 9 \<and> n \<noteq> 10 \<and> n \<noteq> 12 \<and> n \<noteq> 13")
    case True
    then have "json_char c = [char_of (92 :: nat)] @ ''u00'' @ [hex_digit (n div 16), hex_digit (n mod 16)]"
      by (simp add: json_char_def n_def [symmetric])
    then show ?thesis using hex_small [of n] True by (simp add: c)
  next
    case False
    then consider "n = 34" | "n = 92" | "n = 8" | "n = 9" | "n = 10" | "n = 12" | "n = 13"
      | "n \<noteq> 34" "n \<noteq> 92" "32 \<le> n" by linarith
    then show ?thesis
      by cases (simp_all add: json_char_def n_def [symmetric], simp_all add: c)
  qed
qed

lemma json_char_inj: "json_char c @ s = json_char d @ t \<Longrightarrow> c = d \<and> s = t"
  by (metis json_unchar_char option.inject prod.inject)

lemma json_char_not_Nil [simp]: "json_char c \<noteq> []"
  using json_unchar_char [of c "[]"] by auto

lemma json_chars_inj: "concat (map json_char s) = concat (map json_char t) \<Longrightarrow> s = t"
proof (induction s arbitrary: t)
  case Nil
  then show ?case by (cases t) auto
next
  case (Cons c s)
  then obtain d t' where t: "t = d # t'" by (cases t) auto
  with Cons.prems json_char_inj [of c _ d] have "c = d \<and> concat (map json_char s) = concat (map json_char t')" by simp
  with Cons.IH t show ?case by simp
qed

lemma json_quote_inj: "json_quote s = json_quote t \<longleftrightarrow> s = t"
  by (auto simp: json_quote_def dest: json_chars_inj)

subsection \<open>Text constraints\<close>

text \<open>A constraint that asks for one of some texts, and the texts.\<close>

definition texts_of :: "jsv list \<Rightarrow> string list option" where
  "texts_of vs = (if list_all (\<lambda>v. is_str v \<and> v \<noteq> JStr []) vs
     then Some (map (\<lambda>v. case v of JStr s \<Rightarrow> s | _ \<Rightarrow> []) vs) else None)"

definition text_operand :: "jsv \<Rightarrow> string list option" where
  "text_operand e =
     (case e of
        JStr s \<Rightarrow> texts_of [e]
      | JObj [(k, v)] \<Rightarrow>
          if k = ''$eq'' \<or> k = ''$equal'' then texts_of [v]
          else if k = ''$in'' then (case v of JArr vs \<Rightarrow> texts_of vs | _ \<Rightarrow> None) else None
      | _ \<Rightarrow> None)"

definition text_value :: "jsv \<Rightarrow> bool" where
  "text_value v \<longleftrightarrow> nullish v \<or> is_str v"

lemma is_str_D: "is_str v \<Longrightarrow> \<exists>s. v = JStr s"
  by (cases v) simp_all

lemma texts_of_map: "texts_of vs = Some ss \<Longrightarrow> vs = map JStr ss \<and> [] \<notin> set ss"
proof -
  assume a: "texts_of vs = Some ss"
  have all: "list_all (\<lambda>v. is_str v \<and> v \<noteq> JStr []) vs" using a by (simp add: texts_of_def split: if_splits)
  have ss: "ss = map (\<lambda>v. case v of JStr s \<Rightarrow> s | _ \<Rightarrow> []) vs" using a by (simp add: texts_of_def split: if_splits)
  show ?thesis unfolding ss using all by (induction vs) (auto dest!: is_str_D)
qed

lemma text_operand_cases:
  assumes "text_operand e = Some ss"
  obtains (single) s where "e = JStr s" "ss = [s]" "s \<noteq> []"
    | (eq) k s where "e = JObj [(k, JStr s)]" "ss = [s]" "s \<noteq> []" "k = ''$eq'' \<or> k = ''$equal''"
    | (member) "e = JObj [(''$in'', JArr (map JStr ss))]" "[] \<notin> set ss"
proof (cases e)
  case (JStr s)
  then show ?thesis using assms texts_of_map [of "[e]" ss] single by (auto simp: text_operand_def)
next
  case (JObj kvs)
  then obtain k v where kvs: "kvs = [(k, v)]" using assms by (auto simp: text_operand_def split: list.splits)
  show ?thesis
  proof (cases "k = ''$eq'' \<or> k = ''$equal''")
    case True
    with assms JObj kvs have "texts_of [v] = Some ss" by (simp add: text_operand_def)
    then have vs: "[v] = map JStr ss \<and> [] \<notin> set ss" by (rule texts_of_map)
    then obtain s where s: "ss = [s]" by (cases ss) simp_all
    have "s \<noteq> []" using vs s by (cases s) simp_all
    then show ?thesis by (rule eq [of k s, rotated 2]) (use vs s True JObj kvs in simp_all)
  next
    case False
    with assms JObj kvs have "(if k = ''$in'' then (case v of JArr vs \<Rightarrow> texts_of vs | _ \<Rightarrow> None) else None) = Some ss"
      by (simp add: text_operand_def)
    then obtain vs where "k = ''$in''" "v = JArr vs" "texts_of vs = Some ss" by (cases "k = ''$in''"; cases v) simp_all
    with texts_of_map [of vs ss] show ?thesis using member JObj kvs by simp
  qed
qed (use assms in \<open>auto simp: text_operand_def\<close>)

lemma equal_text:
  assumes "text_value v" "s \<noteq> []"
  shows "equal_val h v (JStr s) \<longleftrightarrow> v = JStr s"
  using assms by (cases v) (auto simp: text_value_def isNullishConstraint_def nullish_def)

lemma matches_text:
  assumes "text_value v" "s \<noteq> []"
  shows "matchesConstraint h v (JStr s) \<longleftrightarrow> v = JStr s"
  using assms equal_text [OF assms, of h]
  by (cases v) (auto simp: matchesConstraint.simps text_value_def isNullishConstraint_def nullish_def)

lemma rhs_text: "''$eq'' \<in> set rhsOperators" "''$equal'' \<in> set rhsOperators" "''$in'' \<in> set rhsOperators"
  by (simp_all add: rhsOperators_def)

lemma matches_text_operand:
  assumes v: "text_value v" and e: "text_operand e = Some ss"
  shows "matchesConstraint h v e \<longleftrightarrow> v \<in> JStr ` set ss"
  using e
proof (cases rule: text_operand_cases)
  case (single s)
  then show ?thesis using matches_text [OF v, of s h] by auto
next
  case (eq k s)
  have "strict_eq e v = False" using v eq(1) by (cases v) (auto simp: text_value_def nullish_def)
  then have "matchesConstraint h v e \<longleftrightarrow> equal_val h v (JStr s)"
    using eq rhs_text by (auto simp: matchesConstraint.simps [of h v] matchesOperators.simps oget_def matchesOperator.simps)
  then show ?thesis using equal_text [OF v eq(3), of h] eq by auto
next
  case member
  have "strict_eq e v = False" using v member(1) by (cases v) (auto simp: text_value_def nullish_def)
  moreover have "values_of v = [v]" using v by (cases v) (auto simp: text_value_def values_of_def nullish_def)
  ultimately have "matchesConstraint h v e \<longleftrightarrow> (\<exists>s\<in>set ss. matchesConstraint h v (JStr s))"
    using member rhs_text
    by (auto simp: matchesConstraint.simps [of h v "JObj _"] matchesOperators.simps oget_def matchesOperator.simps list_ex_iff)
  also have "\<dots> \<longleftrightarrow> (\<exists>s\<in>set ss. v = JStr s)"
  proof (rule bex_cong [OF refl])
    fix s
    assume "s \<in> set ss"
    then have "s \<noteq> []" using member(2) by blast
    then show "matchesConstraint h v (JStr s) \<longleftrightarrow> v = JStr s" by (rule matches_text [OF v])
  qed
  also have "\<dots> \<longleftrightarrow> v \<in> JStr ` set ss" by blast
  finally show ?thesis .
qed

lemma indexable_texts: "indexableValueList (map JStr ss) = Some (map JStr ss)"
  by (induction ss) (auto simp: indexableValueList_def indexableEqualityValue_def isScalarIndexValue_def)

lemma indexable_text_operand: "text_operand e = Some ss \<Longrightarrow>
    indexableConstraintValues e = Some (map JStr ss) \<and> indexableContainsValue e = None"
  by (erule text_operand_cases)
    (auto simp: indexableEqualityValue_def isScalarIndexValue_def array_at_def indexable_texts indexableContainsValue_def)

subsection \<open>The interface\<close>

text \<open>A property of every constraint of the query that a leaf is asked about.\<close>

function leaves_ok :: "(string \<Rightarrow> jsv \<Rightarrow> bool) \<Rightarrow> jsv \<Rightarrow> bool" where
  "leaves_ok P q =
     (case q of
        JObj kvs \<Rightarrow>
          list_all (\<lambda>(path, e).
            if (path = ''$and'' \<or> path = ''$or'') \<and> is_arr e then list_all (leaves_ok P) (elems_of e)
            else starts_with ''$'' path \<or> P path e) kvs
      | _ \<Rightarrow> True)"
  by auto
termination
proof (relation "measure (\<lambda>(P, q). size q)", goal_cases)
  case (2 P q kvs p path e c)
  then show ?case using size_elem [of c e] size_field [of path e kvs] by simp
qed simp

declare leaves_ok.simps [simp del]

definition entry_ok :: "(string \<Rightarrow> jsv \<Rightarrow> bool) \<Rightarrow> string \<Rightarrow> jsv \<Rightarrow> bool" where
  "entry_ok P path e \<longleftrightarrow>
     (if (path = ''$and'' \<or> path = ''$or'') \<and> is_arr e then list_all (leaves_ok P) (elems_of e)
      else starts_with ''$'' path \<or> P path e)"

lemma leaves_ok_JObj: "leaves_ok P (JObj kvs) = list_all (\<lambda>(path, e). entry_ok P path e) kvs"
  by (simp add: leaves_ok.simps entry_ok_def case_prod_unfold)

locale index_leaf =
  fixes leaf :: "string \<Rightarrow> jsv \<Rightarrow> nat list option" and rows :: "nat set" and object_of :: "nat \<Rightarrow> jsv"
    and h :: host and ok :: "string \<Rightarrow> jsv \<Rightarrow> bool"
  assumes leaf_exact: "ok path e \<Longrightarrow> leaf path e = Some ids \<Longrightarrow>
    distinct ids \<and> set ids = {rid \<in> rows. matchesConstraint h (getPathValue (object_of rid) path) e}"
begin

definition base :: "nat list option \<Rightarrow> nat set" where
  "base current = (case current of None \<Rightarrow> rows | Some c \<Rightarrow> set c)"

definition good :: "nat list option \<Rightarrow> bool" where
  "good current = (case current of None \<Rightarrow> True | Some c \<Rightarrow> distinct c \<and> set c \<subseteq> rows)"

definition selects :: "nat list \<Rightarrow> jsv \<Rightarrow> bool" where
  "selects ids q \<longleftrightarrow> distinct ids \<and> set ids = {rid \<in> rows. matchesQuery h (object_of rid) q}"

lemma meet_props: "good current \<Longrightarrow> distinct ids \<Longrightarrow> set ids \<subseteq> rows \<Longrightarrow>
    good (meet current ids) \<and> base (meet current ids) = base current \<inter> set ids"
  by (cases current) (auto simp: good_def base_def meet_def)

lemma fold_inter: "list_all distinct ss \<Longrightarrow> distinct s \<Longrightarrow>
    distinct (foldl setIntersection s ss) \<and> set (foldl setIntersection s ss) = set s \<inter> (\<Inter>t\<in>set ss. set t)"
  by (induction ss arbitrary: s) auto

lemma fold_union: "distinct s \<Longrightarrow>
    distinct (foldl setUnion s ss) \<and> set (foldl setUnion s ss) = set s \<union> (\<Union>t\<in>set ss. set t)"
  by (induction ss arbitrary: s) auto

lemma empty_criteria: "isEmptyCriteria c \<Longrightarrow> matchesQuery h obj c"
  by (simp add: isEmptyCriteria_def)

text \<open>The answer for the children of \<open>$and\<close> and \<open>$or\<close>.\<close>

definition child_sets :: "bool \<Rightarrow> jsv list \<Rightarrow> nat list list \<Rightarrow> bool" where
  "child_sets skip cs sets \<longleftrightarrow> list_all distinct sets \<and> (\<forall>s\<in>set sets. set s \<subseteq> rows) \<and>
     (if skip then \<forall>rid\<in>rows. (\<forall>s\<in>set sets. rid \<in> set s) \<longleftrightarrow> (\<forall>c\<in>set cs. matchesQuery h (object_of rid) c)
      else \<forall>rid\<in>rows. (\<exists>s\<in>set sets. rid \<in> set s) \<longleftrightarrow> (\<exists>c\<in>set cs. matchesQuery h (object_of rid) c))"

lemma child_sets_skip: "isEmptyCriteria c \<Longrightarrow> child_sets True cs sets \<Longrightarrow> child_sets True (c # cs) sets"
  by (simp add: child_sets_def empty_criteria)

lemma child_sets_Cons: "selects s c \<Longrightarrow> child_sets skip cs sets \<Longrightarrow> child_sets skip (c # cs) (s # sets)"
  by (cases skip) (auto simp: child_sets_def selects_def)

lemma child_sets_and:
  assumes "child_sets True cs (s # ss)"
  shows "distinct (foldl setIntersection s ss) \<and>
    set (foldl setIntersection s ss) = {rid \<in> rows. matchesQuery h (object_of rid) (JObj [(''$and'', JArr cs)])}"
proof -
  have "distinct s" "list_all distinct ss" using assms by (simp_all add: child_sets_def)
  note inter = fold_inter [OF this(2,1)]
  have "rid \<in> set s \<inter> (\<Inter>t\<in>set ss. set t) \<longleftrightarrow> rid \<in> rows \<and> (\<forall>c\<in>set cs. matchesQuery h (object_of rid) c)" for rid
    using assms by (fastforce simp: child_sets_def)
  then show ?thesis using inter by (auto simp: matchesQuery_and)
qed

lemma child_sets_or:
  assumes "child_sets False cs (s # ss)"
  shows "distinct (foldl setUnion s ss) \<and>
    set (foldl setUnion s ss) = {rid \<in> rows. matchesQuery h (object_of rid) (JObj [(''$or'', JArr cs)])}"
proof -
  have "distinct s" using assms by (simp add: child_sets_def)
  note union = fold_union [OF this, of ss]
  have "rid \<in> set s \<union> (\<Union>t\<in>set ss. set t) \<longleftrightarrow> rid \<in> rows \<and> (\<exists>c\<in>set cs. matchesQuery h (object_of rid) c)" for rid
    using assms by (fastforce simp: child_sets_def)
  then show ?thesis using union by (auto simp: matchesQuery_or)
qed

lemma matchesQuery_Cons:
  "matchesQuery h obj (JObj ((path, e) # rest)) \<longleftrightarrow>
     matchesQuery h obj (JObj [(path, e)]) \<and> matchesQuery h obj (JObj rest)"
  by (simp add: matchesQuery_JObj)

definition rows_for :: "nat list option \<Rightarrow> jobj \<Rightarrow> nat set" where
  "rows_for current kvs = {rid \<in> base current \<inter> rows. matchesQuery h (object_of rid) (JObj kvs)}"

lemma rows_for_Nil: "good current \<Longrightarrow> rows_for current [] = base current"
  by (cases current) (auto simp: rows_for_def base_def good_def)

lemma rows_for_meet:
  "good current \<Longrightarrow> distinct ids \<Longrightarrow> set ids = {rid \<in> rows. matchesQuery h (object_of rid) (JObj [(path, e)])} \<Longrightarrow>
   good (meet current ids) \<and> rows_for (meet current ids) rest = rows_for current ((path, e) # rest)"
  using meet_props [of current ids] matchesQuery_Cons [of _ path e rest] by (auto simp: rows_for_def)

lemma leaf_selects: "ok path e \<Longrightarrow> \<not> starts_with ''$'' path \<Longrightarrow> leaf path e = Some ids \<Longrightarrow> selects ids (JObj [(path, e)])"
  using leaf_exact [of path e ids] by (simp add: selects_def matchesQuery_field)

text \<open>A whole criteria tree is answered exactly.\<close>

lemma ridsForCriteria_exact:
  "l = leaf \<Longrightarrow> leaves_ok ok q \<Longrightarrow> ridsForCriteria l q = Some ids \<Longrightarrow> selects ids q"
  "l = leaf \<Longrightarrow> list_all (\<lambda>(path, e). entry_ok ok path e) kvs \<Longrightarrow> good current \<Longrightarrow> rids_entries l kvs current = Some ids \<Longrightarrow>
     distinct ids \<and> set ids = rows_for current kvs"
  "l = leaf \<Longrightarrow> list_all (leaves_ok ok) cs \<Longrightarrow> rids_children l skip cs = Some sets \<Longrightarrow> child_sets skip cs sets"
proof (induction l q and l kvs current and l skip cs arbitrary: ids and ids and sets
    rule: ridsForCriteria_rids_entries_rids_children.induct)
  case (1 l q)
  then obtain kvs where q: "q = JObj kvs" by (cases q) simp_all
  have "distinct ids \<and> set ids = rows_for None kvs"
    using 1 q by (simp add: leaves_ok_JObj good_def)
  then show ?case by (simp add: selects_def q rows_for_def base_def)
next
  case (2 l current)
  then show ?case using rows_for_Nil [of current] by (simp add: good_def base_def)
next
  case (3 l path e rest current)
  have l: "l = leaf" by (rule "3.prems"(1))
  have rest: "list_all (\<lambda>(path, e). entry_ok ok path e) rest" and entry: "entry_ok ok path e" using "3.prems"(2) by simp_all
  consider (conj) "path = ''$and'' \<and> is_arr e" | (disj) "path = ''$or'' \<and> is_arr e"
    | (dollar) "\<not> ((path = ''$and'' \<or> path = ''$or'') \<and> is_arr e)" "starts_with ''$'' path"
    | (field) "\<not> starts_with ''$'' path"
    by blast
  then show ?case
  proof cases
    case conj
    then obtain cs where e: "e = JArr cs" by (cases e) simp_all
    have cs: "list_all (leaves_ok ok) cs" using entry conj e by (simp add: entry_ok_def)
    obtain sets where sets: "rids_children leaf True cs = Some sets"
      using "3.prems"(4) conj e l by (auto split: option.splits)
    have ch: "child_sets True cs sets" using "3.IH"(1) [OF conj, of sets] cs sets e l by simp
    show ?thesis
    proof (cases sets)
      case Nil
      have "\<forall>rid\<in>rows. \<forall>c\<in>set cs. matchesQuery h (object_of rid) c" using ch Nil by (simp add: child_sets_def)
      then have "rows_for current ((path, e) # rest) = rows_for current rest"
        using matchesQuery_Cons [of _ path e rest] by (auto simp: rows_for_def conj e matchesQuery_and)
      then show ?thesis using "3.IH"(2) [OF conj] "3.prems" conj e sets Nil rest by simp
    next
      case (Cons s ss)
      note both = child_sets_and [OF ch [unfolded Cons]]
      note m = rows_for_meet [OF "3.prems"(3) both [THEN conjunct1] both [THEN conjunct2], of rest]
      show ?thesis using "3.IH"(3) [OF conj] "3.prems" conj e sets Cons rest m by simp
    qed
  next
    case disj
    then obtain cs where e: "e = JArr cs" by (cases e) simp_all
    have cs: "list_all (leaves_ok ok) cs" using entry disj e by (simp add: entry_ok_def)
    obtain sets where sets: "rids_children leaf False cs = Some sets"
      using "3.prems"(4) disj e l by (auto split: option.splits)
    have not: "\<not> (path = ''$and'' \<and> is_arr e)" using disj by simp
    have ch: "child_sets False cs sets" using "3.IH"(4) [OF not disj, of sets] cs sets e l by simp
    show ?thesis
    proof (cases sets)
      case Nil
      have "{rid \<in> rows. matchesQuery h (object_of rid) (JObj [(path, e)])} = set []"
        using ch Nil disj e by (simp add: child_sets_def matchesQuery_or)
      from rows_for_meet [OF "3.prems"(3) distinct.simps(1) [THEN iffD2, OF TrueI] this [symmetric], of rest]
      show ?thesis using "3.IH"(5) [OF not disj] "3.prems" disj e sets Nil rest by simp
    next
      case (Cons s ss)
      note both = child_sets_or [OF ch [unfolded Cons]]
      note m = rows_for_meet [OF "3.prems"(3) both [THEN conjunct1] both [THEN conjunct2], of rest]
      show ?thesis using "3.IH"(6) [OF not disj] "3.prems" disj e sets Cons rest m by simp
    qed
  next
    case dollar
    then show ?thesis using "3.prems"(4) by (auto split: if_splits)
  next
    case field
    have path: "path \<noteq> ''$and''" "path \<noteq> ''$or''" using field by (auto simp: starts_with_def)
    then obtain rids where rids: "leaf path e = Some rids" using "3.prems"(4) field l by (auto split: option.splits)
    have "ok path e" using entry path field by (simp add: entry_ok_def)
    from leaf_selects [OF this field rids] have sel: "distinct rids" "set rids = {rid \<in> rows. matchesQuery h (object_of rid) (JObj [(path, e)])}"
      by (simp_all add: selects_def)
    note m = rows_for_meet [OF "3.prems"(3) sel, of rest]
    show ?thesis using "3.IH"(7) "3.prems" path field rids rest m by simp
  qed
next
  case (4 l skip)
  then show ?case by (simp add: child_sets_def)
next
  case (5 l skip c cs)
  have l: "l = leaf" by (rule "5.prems"(1))
  have ok: "leaves_ok ok c" "list_all (leaves_ok ok) cs" using "5.prems"(2) by simp_all
  show ?case
  proof (cases "skip \<and> isEmptyCriteria c")
    case True
    then show ?thesis using "5.IH"(1) [OF True, of sets] "5.prems" ok child_sets_skip [of c cs sets] by simp
  next
    case False
    then obtain rids where rids: "ridsForCriteria l c = Some rids" using "5.prems"(3) False by (auto split: option.splits)
    then obtain sets' where sets: "rids_children l skip cs = Some sets'" "sets = rids # sets'"
      using "5.prems"(3) False rids by (auto split: option.splits)
    have "selects rids c" using "5.IH"(2) [OF False, of rids] l ok rids by simp
    moreover have "child_sets skip cs sets'" using "5.IH"(3) [OF False rids, of sets'] l ok sets by simp
    ultimately show ?thesis using child_sets_Cons sets(2) by simp
  qed
qed

text \<open>What the indexes say of a part of the criteria misses no row.\<close>

definition covers :: "nat list option \<Rightarrow> nat set \<Rightarrow> bool" where
  "covers out rids \<longleftrightarrow> good out \<and> rids \<subseteq> base out"

lemma covers_meet: "good out \<Longrightarrow> selects ids q \<Longrightarrow>
    covers (meet out ids) {rid \<in> base out \<inter> rows. matchesQuery h (object_of rid) q}"
  using meet_props [of out ids] by (cases out) (auto simp: covers_def selects_def base_def)

lemma selects_sub: "selects ids q \<Longrightarrow> distinct ids \<and> set ids \<subseteq> rows"
  by (auto simp: selects_def)

lemma covers_self: "good current \<Longrightarrow> covers current (base current \<inter> rows)"
  by (auto simp: covers_def)

lemma covers_mono: "covers out rids \<Longrightarrow> rids' \<subseteq> rids \<Longrightarrow> covers out rids'"
  by (auto simp: covers_def)

lemma covers_found:
  assumes "good current" "\<And>rids. found = Some rids \<Longrightarrow> selects rids q"
  shows "covers (case found of None \<Rightarrow> current | Some rids \<Rightarrow> meet current rids)
    {rid \<in> base current \<inter> rows. matchesQuery h (object_of rid) q}"
proof (cases found)
  case None
  have "covers current {rid \<in> base current \<inter> rows. matchesQuery h (object_of rid) q}"
    by (rule covers_mono [OF covers_self [OF assms(1)]]) blast
  then show ?thesis using None by simp
next
  case (Some rids)
  then show ?thesis using covers_meet [OF assms(1) assms(2)] by simp
qed

lemma partialRids_covers:
  "l = leaf \<Longrightarrow> leaves_ok ok q \<Longrightarrow> partialRidsForCriteria l q = Some ids \<Longrightarrow>
     distinct ids \<and> set ids \<subseteq> rows \<and> {rid \<in> rows. matchesQuery h (object_of rid) q} \<subseteq> set ids"
  "l = leaf \<Longrightarrow> list_all (\<lambda>(path, e). entry_ok ok path e) kvs \<Longrightarrow> good current \<Longrightarrow>
     covers (partial_entries l kvs current) (rows_for current kvs)"
  "l = leaf \<Longrightarrow> list_all (leaves_ok ok) cs \<Longrightarrow> good current \<Longrightarrow>
     covers (partial_children l cs current) {rid \<in> base current \<inter> rows. \<forall>c\<in>set cs. matchesQuery h (object_of rid) c}"
proof (induction l q and l kvs current and l cs current arbitrary: ids and and
    rule: partialRidsForCriteria_partial_entries_partial_children.induct)
  case (1 l q)
  then obtain kvs where q: "q = JObj kvs" by (cases q) simp_all
  have "covers (Some ids) (rows_for None kvs)"
    using 1 q by (simp add: leaves_ok_JObj good_def)
  then show ?case by (auto simp: covers_def good_def q rows_for_def base_def)
next
  case (2 l current)
  then show ?case using rows_for_Nil [of current] by (simp add: covers_def)
next
  case (3 l path e rest current)
  have l: "l = leaf" by (rule "3.prems"(1))
  have rest: "list_all (\<lambda>(path, e). entry_ok ok path e) rest" and entry: "entry_ok ok path e" using "3.prems"(2) by simp_all
  have chain: "covers (partial_entries l rest out) (rows_for current ((path, e) # rest))"
    if "good out \<Longrightarrow> covers (partial_entries l rest out) (rows_for out rest)"
      "covers out {rid \<in> base current \<inter> rows. matchesQuery h (object_of rid) (JObj [(path, e)])}" for out
  proof -
    have "rows_for current ((path, e) # rest) \<subseteq> rows_for out rest"
      using that(2) matchesQuery_Cons [of _ path e rest] by (auto simp: rows_for_def covers_def)
    with that show ?thesis by (auto simp: covers_def)
  qed
  consider (conj) "path = ''$and'' \<and> is_arr e" | (disj) "path = ''$or'' \<and> is_arr e"
    | (dollar) "\<not> ((path = ''$and'' \<or> path = ''$or'') \<and> is_arr e)" "starts_with ''$'' path"
    | (field) "\<not> starts_with ''$'' path"
    by blast
  then show ?case
  proof cases
    case conj
    then obtain cs where e: "e = JArr cs" by (cases e) simp_all
    have cs: "list_all (leaves_ok ok) cs" using entry conj e by (simp add: entry_ok_def)
    have "covers (partial_children l cs current) {rid \<in> base current \<inter> rows. matchesQuery h (object_of rid) (JObj [(path, e)])}"
      using "3.IH"(1) [OF conj] "3.prems" cs conj e by (simp add: matchesQuery_and)
    from chain [OF _ this] "3.IH"(2) [OF conj] show ?thesis using conj e l rest by simp
  next
    case disj
    then have not: "\<not> (path = ''$and'' \<and> is_arr e)" by simp
    define out where "out = (case ridsForCriteria leaf (JObj [(''$or'', e)]) of None \<Rightarrow> current | Some rids \<Rightarrow> meet current rids)"
    have "entry_ok ok ''$or'' e" using entry disj by simp
    then have sel: "ridsForCriteria leaf (JObj [(''$or'', e)]) = Some rids \<Longrightarrow> selects rids (JObj [(path, e)])" for rids
      using ridsForCriteria_exact(1) [OF refl, of "JObj [(''$or'', e)]" rids] disj by (simp add: leaves_ok_JObj)
    have "covers out {rid \<in> base current \<inter> rows. matchesQuery h (object_of rid) (JObj [(path, e)])}"
      unfolding out_def by (rule covers_found [OF "3.prems"(3)]) (rule sel)
    from chain [OF _ this] "3.IH"(3) [OF not disj] show ?thesis using disj l rest by (simp add: out_def)
  next
    case dollar
    then have not: "\<not> (path = ''$and'' \<and> is_arr e)" "\<not> (path = ''$or'' \<and> is_arr e)" by blast+
    have "covers current {rid \<in> base current \<inter> rows. matchesQuery h (object_of rid) (JObj [(path, e)])}"
      by (rule covers_mono [OF covers_self [OF "3.prems"(3)]]) blast
    then have "covers (partial_entries l rest current) (rows_for current ((path, e) # rest))"
      using chain "3.IH"(4) [OF not dollar(2)] l rest by blast
    then show ?thesis using not dollar(2) by (simp only: partial_entries.simps if_False if_True)
  next
    case field
    have path: "path \<noteq> ''$and''" "path \<noteq> ''$or''" using field by (auto simp: starts_with_def)
    define out where "out = (case leaf path e of None \<Rightarrow> current | Some rids \<Rightarrow> meet current rids)"
    have "ok path e" using entry path field by (simp add: entry_ok_def)
    note sel = leaf_selects [OF this field]
    have "covers out {rid \<in> base current \<inter> rows. matchesQuery h (object_of rid) (JObj [(path, e)])}"
      unfolding out_def by (rule covers_found [OF "3.prems"(3)]) (rule sel)
    from chain [OF _ this] "3.IH"(5) show ?thesis using path field l rest by (simp add: out_def)
  qed
next
  case (4 l current)
  then show ?case using covers_self [of current] by (simp add: Int_def)
next
  case (5 l c cs current)
  have l: "l = leaf" by (rule "5.prems"(1))
  have ok: "leaves_ok ok c" "list_all (leaves_ok ok) cs" using "5.prems"(2) by simp_all
  have chain: "covers (partial_children l cs out) {rid \<in> base current \<inter> rows. \<forall>c\<in>set (c # cs). matchesQuery h (object_of rid) c}"
    if "good out \<Longrightarrow> covers (partial_children l cs out) {rid \<in> base out \<inter> rows. \<forall>c\<in>set cs. matchesQuery h (object_of rid) c}"
      "covers out {rid \<in> base current \<inter> rows. matchesQuery h (object_of rid) c}" for out
    using that by (auto simp: covers_def)
  have self: "covers current {rid \<in> base current \<inter> rows. matchesQuery h (object_of rid) c}"
    by (rule covers_mono [OF covers_self [OF "5.prems"(3)]]) blast
  show ?case
  proof (cases "isEmptyCriteria c")
    case True
    from chain [OF _ self] "5.IH"(1) [OF True] show ?thesis using True l ok by simp
  next
    case False
    note empty = this
    show ?thesis
    proof (cases "ridsForCriteria leaf c")
      case (Some rids)
      have "selects rids c" using ridsForCriteria_exact(1) [OF refl ok(1) Some] .
      from covers_meet [OF "5.prems"(3) this]
      have "covers (meet current rids) {rid \<in> base current \<inter> rows. matchesQuery h (object_of rid) c}" .
      then have "covers (partial_children l cs (meet current rids)) {rid \<in> base current \<inter> rows. \<forall>c\<in>set (c # cs). matchesQuery h (object_of rid) c}"
        by (rule chain [rotated]) (rule "5.IH"(5) [OF empty Some [folded l] l ok(2)])
      then show ?thesis using Some l empty by (simp del: ridsForCriteria.simps)
    next
      case None
      show ?thesis
      proof (cases "partialRidsForCriteria leaf c")
        case (Some rids)
        have p: "distinct rids" "set rids \<subseteq> rows" "{rid \<in> rows. matchesQuery h (object_of rid) c} \<subseteq> set rids"
          using "5.IH"(2) [OF empty, of rids] None Some l ok by (simp_all del: ridsForCriteria.simps partialRidsForCriteria.simps)
        have "covers (meet current rids) {rid \<in> base current \<inter> rows. matchesQuery h (object_of rid) c}"
          using meet_props [OF "5.prems"(3) p(1,2)] p(3) by (auto simp: covers_def)
        then have "covers (partial_children l cs (meet current rids)) {rid \<in> base current \<inter> rows. \<forall>c\<in>set (c # cs). matchesQuery h (object_of rid) c}"
          by (rule chain [rotated]) (rule "5.IH"(4) [OF empty None [folded l] Some [folded l] l ok(2)])
        then show ?thesis using None Some l empty by (simp del: ridsForCriteria.simps partialRidsForCriteria.simps)
      next
        case N2: None
        have "covers (partial_children l cs current) {rid \<in> base current \<inter> rows. \<forall>c\<in>set (c # cs). matchesQuery h (object_of rid) c}"
          by (rule chain [OF _ self]) (rule "5.IH"(3) [OF empty None [folded l] N2 [folded l] l ok(2)])
        then show ?thesis using None N2 l empty by (simp del: ridsForCriteria.simps partialRidsForCriteria.simps)
      qed
    qed
  qed
qed

end

subsection \<open>The field indexes of a collection\<close>

definition row_ids :: "view \<Rightarrow> nat set" where
  "row_ids c = {rid. vw_readForQuery c rid \<noteq> None}"

definition row_of :: "view \<Rightarrow> nat \<Rightarrow> jsv" where
  "row_of c rid = (case vw_readForQuery c rid of Some object \<Rightarrow> object | None \<Rightarrow> JUndef)"

text \<open>An index in step with the rows that are not marked dirty.\<close>

definition index_fresh :: "host \<Rightarrow> view \<Rightarrow> string \<Rightarrow> findex \<Rightarrow> bool" where
  "index_fresh h c path index \<longleftrightarrow> fi_ok h index \<and>
     (\<forall>rid. rid \<notin> set (vw_dirty c) \<longrightarrow>
        jm_get (fi_forward index) rid = map_option (\<lambda>object. getPathValue object path) (vw_readForQuery c rid))"

definition view_ok :: "host \<Rightarrow> view \<Rightarrow> bool" where
  "view_ok h c \<longleftrightarrow>
     distinct (vw_live c) \<and> set (vw_live c) = row_ids c \<and> vw_liveCount c = length (vw_live c) \<and>
     (\<forall>rid \<in> row_ids c. vw_read c rid \<noteq> None) \<and>
     (\<forall>path index. jm_get (vw_indexes c) path = Some index \<longrightarrow> index_fresh h c path index) \<and>
     (\<forall>rid \<in> row_ids c. is_str (getPathValue (row_of c rid) ''_id'')) \<and>
     (\<forall>s rid. (vw_ridOf c s = Some rid \<and> vw_has c s) \<longleftrightarrow> (rid \<in> row_ids c \<and> getPathValue (row_of c rid) ''_id'' = JStr s))"

text \<open>A path whose values are texts or missing, asked for one of some texts.\<close>

definition text_constraint :: "view \<Rightarrow> string \<Rightarrow> jsv \<Rightarrow> bool" where
  "text_constraint c path e \<longleftrightarrow> \<not> starts_with ''$'' path \<and> text_operand e \<noteq> None \<and>
     (\<forall>rid \<in> row_ids c. text_value (getPathValue (row_of c rid) path))"

definition answerable :: "host \<Rightarrow> view \<Rightarrow> string \<Rightarrow> jsv \<Rightarrow> bool" where
  "answerable h c path e \<longleftrightarrow> view_ok h c \<and> (ridsForFieldConstraint h c path e \<noteq> None \<longrightarrow> text_constraint c path e)"

lemma index_key_text: "indexValueKey h w = indexValueKey h (JStr s) \<longleftrightarrow> w = JStr s"
proof
  assume eq: "indexValueKey h w = indexValueKey h (JStr s)"
  show "w = JStr s"
  proof (cases w)
    case (JStr t)
    then show ?thesis using eq by (simp add: indexValueKey_def json_stringify_def shown_def json_quote_inj)
  qed (use eq in \<open>auto simp: indexValueKey_def\<close>)
qed simp

lemma distinct_idsForValues: "lookup_ok h fi \<Longrightarrow> distinct (idsForValues h fi vs)"
proof -
  assume ok: "lookup_ok h fi"
  have one: "distinct (bag_get (fi_lookup fi) key)" for key using ok bag_get_distinct by (auto simp: lookup_ok_def)
  have "distinct ids \<Longrightarrow> distinct (foldl (\<lambda>ids v. setUnion ids (bag_get (fi_lookup fi) (indexValueKey h v))) ids us)" for ids us
    by (induction us arbitrary: ids) auto
  then show ?thesis using one by (auto simp: idsForValues_def split: list.split)
qed

lemma stored_text: "text_value v \<Longrightarrow> w \<in> set (indexedStoredValues v) \<longleftrightarrow> is_str v \<and> w = v"
  by (cases v) (auto simp: text_value_def isScalarIndexValue_def nullish_def)

lemma idsForValues_text:
  assumes fresh: "index_fresh h c path index"
    and clean: "rid \<notin> set (vw_dirty c)" and texts: "\<forall>rid \<in> row_ids c. text_value (getPathValue (row_of c rid) path)"
  shows "rid \<in> set (idsForValues h index (map JStr ss)) \<longleftrightarrow> rid \<in> row_ids c \<and> getPathValue (row_of c rid) path \<in> JStr ` set ss"
proof (cases "vw_readForQuery c rid")
  case None
  then have "jm_get (fi_forward index) rid = None" using fresh clean by (simp add: index_fresh_def)
  then show ?thesis using fresh None by (simp add: index_fresh_def fi_ok_def idsForValues_set rows_with_def row_ids_def)
next
  case (Some object)
  then have fw: "jm_get (fi_forward index) rid = Some (getPathValue object path)" using fresh clean by (simp add: index_fresh_def)
  have row: "rid \<in> row_ids c" "row_of c rid = object" using Some by (simp_all add: row_ids_def row_of_def)
  then have t: "text_value (getPathValue object path)" using texts by blast
  have "rid \<in> set (idsForValues h index (map JStr ss)) \<longleftrightarrow>
      (\<exists>w \<in> set (indexedStoredValues (getPathValue object path)). \<exists>u \<in> set (map JStr ss). indexValueKey h w = indexValueKey h u)"
    using fresh fw by (simp add: index_fresh_def fi_ok_def idsForValues_set rows_with_def)
  also have "\<dots> \<longleftrightarrow> getPathValue object path \<in> JStr ` set ss"
    using stored_text [OF t] is_str_D [of "getPathValue object path"] by (auto simp: index_key_text)
  finally show ?thesis using row by simp
qed

lemma dirty_fold: "distinct out \<Longrightarrow>
    distinct (foldl (\<lambda>out rid. if P rid then js_add rid out else out) out rids) \<and>
    set (foldl (\<lambda>out rid. if P rid then js_add rid out else out) out rids) = set out \<union> {rid \<in> set rids. P rid}"
  by (induction rids arbitrary: out) auto

lemma dirtyAware_exact:
  assumes ids: "distinct ids" and path: "\<not> starts_with ''$'' path"
    and clean: "\<And>rid. rid \<notin> set (vw_dirty c) \<Longrightarrow>
      rid \<in> set ids \<longleftrightarrow> rid \<in> row_ids c \<and> matchesConstraint h (getPathValue (row_of c rid) path) e"
    and out: "dirtyAwareIndexedRids h c path e (Some ids) = Some out"
  shows "distinct out \<and> set out = {rid \<in> row_ids c. matchesConstraint h (getPathValue (row_of c rid) path) e}"
proof (cases "vw_dirty c = []")
  case True
  then show ?thesis using out clean ids by (auto simp: dirtyAwareIndexedRids_def)
next
  case False
  define P where "P rid = (rid \<in> row_ids c \<and> matchesConstraint h (getPathValue (row_of c rid) path) e)" for rid
  have step: "(case vw_readForQuery c rid of
       Some object \<Rightarrow> if matchesQuery h object (JObj [(path, e)]) then js_add rid out else out | None \<Rightarrow> out) =
     (if P rid then js_add rid out else out)" for rid out
    by (cases "vw_readForQuery c rid") (simp_all add: P_def row_ids_def row_of_def matchesQuery_field [OF path])
  have "out = foldl (\<lambda>out rid. if P rid then js_add rid out else out)
      (filter (\<lambda>rid. rid \<notin> set (vw_dirty c)) ids) (vw_dirty c)"
    using out False by (simp add: dirtyAwareIndexedRids_def step)
  then have "distinct out \<and> set out = set (filter (\<lambda>rid. rid \<notin> set (vw_dirty c)) ids) \<union> {rid \<in> set (vw_dirty c). P rid}"
    using dirty_fold [of "filter (\<lambda>rid. rid \<notin> set (vw_dirty c)) ids" P] ids by simp
  then show ?thesis using clean by (auto simp: P_def)
qed

lemma idConstraint_exact:
  assumes ok: "view_ok h c" and e: "text_operand e = Some ss" and out: "ridsForObjectIdConstraint h c e = Some out"
  shows "distinct out \<and> set out = {rid \<in> row_ids c. matchesConstraint h (getPathValue (row_of c rid) ''_id'') e}"
proof -
  define hit where "hit s rid \<longleftrightarrow> vw_ridOf c s = Some rid \<and> vw_has c s" for s rid
  have step: "set (foldl (\<lambda>rids v. let s = js_to_string h v in
        case vw_ridOf c s of Some rid \<Rightarrow> if vw_has c s then js_add rid rids else rids | None \<Rightarrow> rids) rids (map JStr ss)) =
      set rids \<union> {rid. \<exists>s\<in>set ss. hit s rid} \<and>
    (distinct rids \<longrightarrow> distinct (foldl (\<lambda>rids v. let s = js_to_string h v in
        case vw_ridOf c s of Some rid \<Rightarrow> if vw_has c s then js_add rid rids else rids | None \<Rightarrow> rids) rids (map JStr ss)))" for rids
  proof (induction ss arbitrary: rids)
    case (Cons s ss)
    then show ?case by (cases "vw_ridOf c s") (auto simp: hit_def)
  qed simp
  have "out = foldl (\<lambda>rids v. let s = js_to_string h v in
        case vw_ridOf c s of Some rid \<Rightarrow> if vw_has c s then js_add rid rids else rids | None \<Rightarrow> rids) [] (map JStr ss)"
    using out indexable_text_operand [OF e] by (simp add: ridsForObjectIdConstraint_def)
  with step [of "[]"] have o1: "distinct out" "set out = {rid. \<exists>s\<in>set ss. hit s rid}" by simp_all
  have hits: "hit s rid \<longleftrightarrow> rid \<in> row_ids c \<and> getPathValue (row_of c rid) ''_id'' = JStr s" for s rid
    using ok by (simp add: view_ok_def hit_def)
  have "matchesConstraint h (getPathValue (row_of c rid) ''_id'') e \<longleftrightarrow> getPathValue (row_of c rid) ''_id'' \<in> JStr ` set ss"
    if "rid \<in> row_ids c" for rid
  proof -
    have "text_value (getPathValue (row_of c rid) ''_id'')" using ok that by (simp add: view_ok_def text_value_def)
    from matches_text_operand [OF this e] show ?thesis .
  qed
  then show ?thesis using o1 hits by auto
qed

lemma fieldConstraint_exact:
  assumes ans: "answerable h c path e" and out: "ridsForFieldConstraint h c path e = Some out"
  shows "distinct out \<and> set out = {rid \<in> row_ids c. matchesConstraint h (getPathValue (row_of c rid) path) e}"
proof -
  have ok: "view_ok h c" and tc: "text_constraint c path e" using ans out by (auto simp: answerable_def)
  obtain ss where e: "text_operand e = Some ss" using tc by (auto simp: text_constraint_def)
  show ?thesis
  proof (cases "path = ''_id''")
    case True
    then show ?thesis using idConstraint_exact [OF ok e] out by (simp add: ridsForFieldConstraint_def)
  next
    case False
    then obtain index where index: "jm_get (vw_indexes c) path = Some index"
      and da: "dirtyAwareIndexedRids h c path e (Some (idsForValues h index (map JStr ss))) = Some out"
      using out indexable_text_operand [OF e] by (auto simp: ridsForFieldConstraint_def split: option.splits)
    have fresh: "index_fresh h c path index" using ok index by (simp add: view_ok_def)
    have texts: "\<forall>rid \<in> row_ids c. text_value (getPathValue (row_of c rid) path)" using tc by (simp add: text_constraint_def)
    have path: "\<not> starts_with ''$'' path" using tc by (simp add: text_constraint_def)
    have dist: "distinct (idsForValues h index (map JStr ss))"
      using fresh distinct_idsForValues by (simp add: index_fresh_def fi_ok_def)
    show ?thesis
    proof (rule dirtyAware_exact [OF dist path _ da])
      fix rid
      assume "rid \<notin> set (vw_dirty c)"
      from idsForValues_text [OF fresh this texts, of ss]
      show "rid \<in> set (idsForValues h index (map JStr ss)) \<longleftrightarrow>
          rid \<in> row_ids c \<and> matchesConstraint h (getPathValue (row_of c rid) path) e"
        using matches_text_operand [OF _ e] texts by blast
    qed
  qed
qed

interpretation il: index_leaf "ridsForFieldConstraint h c" "row_ids c" "row_of c" h "answerable h c" for h c
  by unfold_locales (rule fieldConstraint_exact)

subsection \<open>Plans\<close>

definition matching :: "host \<Rightarrow> view \<Rightarrow> jsv \<Rightarrow> nat set" where
  "matching h c q = {rid \<in> row_ids c. matchesQuery h (row_of c rid) q}"

lemma row_matches_row: "row_matches h c q rid \<longleftrightarrow> rid \<in> matching h c q"
  by (auto simp: row_matches_def matching_def row_ids_def row_of_def split: option.split)

lemma planner_ids: "ad_idsForCriteria (plannerAdapter h c) = ridsForCriteria (ridsForFieldConstraint h c)"
  "ad_partialIdsForCriteria (plannerAdapter h c) = partialRidsForCriteria (ridsForFieldConstraint h c)"
  by (simp_all add: plannerAdapter_def)

lemma indexed_plan:
  assumes ok: "leaves_ok (answerable h c) q" and plan: "planIndexedIds q (plannerAdapter h c) = Some ip"
  obtains ids where "ip_ids ip = Some ids" "ip_scopeIds ip = None" "distinct ids" "set ids \<subseteq> row_ids c"
    "ip_verify ip \<longleftrightarrow> \<not> ip_exact ip" "matching h c q \<subseteq> set ids" "ip_exact ip \<Longrightarrow> set ids = matching h c q"
proof (cases "ridsForCriteria (ridsForFieldConstraint h c) q")
  case (Some ids)
  then have "il.selects c h ids q" using il.ridsForCriteria_exact(1) [OF refl ok] by blast
  then show ?thesis using plan Some that [of ids]
    by (auto simp: planIndexedIds_def planner_ids il.selects_def matching_def simp del: ridsForCriteria.simps)
next
  case None
  then obtain ids where part: "partialRidsForCriteria (ridsForFieldConstraint h c) q = Some ids"
    and ip: "ip = \<lparr>ip_ids = Some ids, ip_exact = False, ip_verify = True, ip_scopeIds = None\<rparr>"
    using plan by (auto simp: planIndexedIds_def planner_ids simp del: ridsForCriteria.simps partialRidsForCriteria.simps
        split: option.splits)
  from il.partialRids_covers(1) [OF refl ok part] show ?thesis
    using that [of ids] ip by (simp add: matching_def)
qed

lemma indexed_rids:
  assumes ok: "leaves_ok (answerable h c) q" and plan: "planIndexedIds q (plannerAdapter h c) = Some ip"
  shows "distinct (ridsForPlan h c (Some ip) q) \<and> set (ridsForPlan h c (Some ip) q) = matching h c q"
proof -
  obtain ids where ids: "ip_ids ip = Some ids" "ip_scopeIds ip = None" "distinct ids" "set ids \<subseteq> row_ids c"
    "ip_verify ip \<longleftrightarrow> \<not> ip_exact ip" "matching h c q \<subseteq> set ids" "ip_exact ip \<Longrightarrow> set ids = matching h c q"
    using indexed_plan [OF ok plan] by metis
  have rows: "ridsForPlan h c (Some ip) q = filter (\<lambda>rid. ip_verify ip \<longrightarrow> row_matches h c q rid) ids"
    using ids(1,2) by (simp add: ridsForPlan_def row_matches_def)
  show ?thesis using ids unfolding rows by (cases "ip_exact ip") (auto simp: row_matches_row)
qed

lemma all_rids: "view_ok h c \<Longrightarrow> distinct (ridsForPlan h c (Some allIdsPlan) q) \<and> set (ridsForPlan h c (Some allIdsPlan) q) = row_ids c"
  "view_ok h c \<Longrightarrow> distinct (ridsForPlan h c None q) \<and> set (ridsForPlan h c None q) = row_ids c"
  by (simp_all add: ridsForPlan_def allIdsPlan_def view_ok_def)

lemma matching_sub: "matching h c q \<subseteq> row_ids c"
  by (auto simp: matching_def)

lemma matching_empty: "isEmptyCriteria q \<Longrightarrow> matching h c q = row_ids c"
  by (auto simp: matching_def isEmptyCriteria_def)

lemma planned_rids:
  assumes ok: "view_ok h c" "leaves_ok (answerable h c) q"
  defines "plan sb \<equiv> planRead q sb (plannerAdapter h c)"
  defines "rids sb \<equiv> ridsForPlan h c (rp_idPlan (plan sb)) q"
  shows "distinct (rids sb) \<and> set (filter (row_matches h c q) (rids sb)) = matching h c q"
    and "set (filter (\<lambda>rid. rp_path (plan None) = Scan \<and> \<not> isEmptyCriteria q \<longrightarrow> row_matches h c q rid) (rids None)) = matching h c q"
proof -
  consider ip where "hasObjectCriteria q" "planIndexedIds q (plannerAdapter h c) = Some ip"
    | "hasObjectCriteria q" "planIndexedIds q (plannerAdapter h c) = None" | "\<not> hasObjectCriteria q"
    by (cases "planIndexedIds q (plannerAdapter h c)") auto
  then have "distinct (rids sb) \<and> set (filter (row_matches h c q) (rids sb)) = matching h c q \<and>
    set (filter (\<lambda>rid. rp_path (plan None) = Scan \<and> \<not> isEmptyCriteria q \<longrightarrow> row_matches h c q rid) (rids None)) = matching h c q"
  proof cases
    case (1 ip)
    have "rp_idPlan (plan sb) = Some ip" for sb using 1 by (simp add: plan_def planRead_def Let_def)
    then have r: "rids sb = ridsForPlan h c (Some ip) q" for sb by (simp add: rids_def)
    show ?thesis using indexed_rids [OF ok(2) 1(2)] by (auto simp: r row_matches_row)
  next
    case 2
    have "rp_idPlan (plan sb) = None \<or> rp_idPlan (plan sb) = Some allIdsPlan" for sb
      using 2 by (simp add: plan_def planRead_def Let_def)
    then have r: "distinct (rids sb) \<and> set (rids sb) = row_ids c" for sb
      using all_rids [OF ok(1), of q] by (metis rids_def)
    have "rp_path (plan None) = Scan" using 2 by (simp add: plan_def planRead_def Let_def)
    moreover have "\<not> isEmptyCriteria q" using 2 by (simp add: hasObjectCriteria_def isEmptyCriteria_def)
    ultimately show ?thesis using r matching_sub [of h c q] by (auto simp: row_matches_row)
  next
    case 3
    have "rp_idPlan (plan sb) = Some allIdsPlan" for sb using 3 by (simp add: plan_def planRead_def Let_def)
    then have r: "distinct (rids sb) \<and> set (rids sb) = row_ids c" for sb
      using all_rids(1) [OF ok(1), of q] by (simp add: rids_def)
    have "rp_path (plan None) = Scan" using 3 by (simp add: plan_def planRead_def Let_def)
    then show ?thesis using r matching_sub [of h c q] matching_empty [of q h c] by (auto simp: row_matches_row)
  qed
  then show "distinct (rids sb) \<and> set (filter (row_matches h c q) (rids sb)) = matching h c q"
    and "set (filter (\<lambda>rid. rp_path (plan None) = Scan \<and> \<not> isEmptyCriteria q \<longrightarrow> row_matches h c q rid) (rids None)) = matching h c q"
    by blast+
qed

text \<open>The loop over a plan's rows takes the page.\<close>

lemma page_loop_slice:
  assumes "\<And>rid. rid \<in> set rids \<Longrightarrow> proven rid \<Longrightarrow> read rid = Some (f rid)"
    "skipped \<le> offset" "\<And>l. limit = Some l \<Longrightarrow> length results < l"
  shows "page_loop proven read offset limit rids skipped results =
    results @ map f (slice (offset - skipped) (map_option (\<lambda>l. l - length results) limit) (filter proven rids))"
  using assms
proof (induction rids arbitrary: skipped results)
  case Nil
  then show ?case by (simp add: slice_def split: option.split)
next
  case (Cons rid rids)
  show ?case
  proof (cases "proven rid")
    case False
    then show ?thesis using Cons by simp
  next
    case True
    then have read: "read rid = Some (f rid)" using Cons.prems(1) by simp
    show ?thesis
    proof (cases "skipped < offset")
      case True
      then have "offset - skipped = Suc (offset - Suc skipped)" by simp
      then show ?thesis using Cons True \<open>proven rid\<close> by (simp add: slice_def split: option.split)
    next
      case False
      then have eq: "offset = skipped" using Cons.prems(2) by simp
      show ?thesis
      proof (cases "case limit of None \<Rightarrow> False | Some l \<Rightarrow> l \<le> length (results @ [f rid])")
        case True
        then obtain l where l: "limit = Some l" "l = Suc (length results)"
          using Cons.prems(3) by (auto split: option.splits simp: le_Suc_eq)
        then show ?thesis using \<open>proven rid\<close> eq read by (simp add: slice_def)
      next
        case False
        then have lim: "\<And>l. limit = Some l \<Longrightarrow> length (results @ [f rid]) < l" by auto
        have "page_loop proven read offset limit (rid # rids) skipped results =
            page_loop proven read offset limit rids skipped (results @ [f rid])"
          using False \<open>proven rid\<close> eq read by simp
        also have "\<dots> = (results @ [f rid]) @ map f (slice (offset - skipped)
            (map_option (\<lambda>l. l - length (results @ [f rid])) limit) (filter proven rids))"
          by (rule Cons.IH) (use Cons.prems lim in auto)
        finally show ?thesis using \<open>proven rid\<close> eq lim
          by (auto simp: slice_def take_Cons' split: option.split)
      qed
    qed
  qed
qed

subsection \<open>Queries and counts\<close>

definition answer_rows :: "host \<Rightarrow> view \<Rightarrow> jsv \<Rightarrow> find_options \<Rightarrow> nat set" where
  "answer_rows h c query options =
     {rid \<in> row_ids c. in_scope (op_includeIds options) rid \<and> allowed c (op_includeId options) rid \<and>
        matchesQuery h (row_of c rid) query}"

lemma answer_matching: "answer_rows h c query options =
    {rid \<in> matching h c (stripQueryControls query). in_scope (op_includeIds options) rid \<and> allowed c (op_includeId options) rid}"
  by (auto simp: answer_rows_def matching_def matchesQuery_strip)

lemma matched_rows: "matched_objects h c q rids = map (row_of c) (filter (row_matches h c q) rids)"
  by (induction rids) (auto simp: matched_objects_def map_filter_simps row_matches_def row_of_def split: option.splits)

lemma findForQuery_exact:
  assumes "view_ok h c" "leaves_ok (answerable h c) (stripQueryControls query)"
  shows "\<exists>rids. distinct rids \<and> set rids = answer_rows h c query options \<and>
    findForQuery h c query options =
      (case op_sortBy options of
         None \<Rightarrow> map (row_of c) (slice (op_offset options) (op_limit options) rids)
       | Some by \<Rightarrow> slice (op_offset options) (op_limit options)
           (sortObjects h by (op_desc options) (map (row_of c) rids)))"
proof -
  define q where "q = stripQueryControls query"
  define plan where "plan = planRead q (op_sortBy options) (plannerAdapter h c)"
  define wanted where "wanted = (\<lambda>rid. in_scope (op_includeIds options) rid \<and> allowed c (op_includeId options) rid)"
  define rids where "rids = filter wanted (ridsForPlan h c (rp_idPlan plan) q)"
  have dist: "distinct rids" and all: "set (filter (row_matches h c q) rids) = answer_rows h c query options"
    using planned_rids(1) [OF assms, of "op_sortBy options"]
    by (auto simp: rids_def plan_def q_def wanted_def answer_matching)
  show ?thesis
  proof (cases "op_sortBy options")
    case (Some sb)
    then have "findForQuery h c query options = slice (op_offset options) (op_limit options)
        (sortObjects h sb (op_desc options) (map (row_of c) (filter (row_matches h c q) rids)))"
      by (simp add: findForQuery_def Let_def matched_rows rids_def plan_def q_def wanted_def)
    then show ?thesis using dist all Some
      by (intro exI [of _ "filter (row_matches h c q) rids"]) simp
  next
    case None
    define proven where "proven = (\<lambda>rid. vw_readForQuery c rid \<noteq> None \<and>
      (rp_path plan = Scan \<and> \<not> isEmptyCriteria q \<longrightarrow> row_matches h c q rid))"
    have sel: "set (filter proven rids) = answer_rows h c query options"
      using planned_rids(2) [OF assms] matching_sub [of h c q] None
      by (auto simp: proven_def rids_def plan_def q_def wanted_def answer_matching row_ids_def)
    have "findForQuery h c query options = map (row_of c) (slice (op_offset options) (op_limit options) (filter proven rids))"
    proof (cases "op_limit options = Some 0")
      case True
      then show ?thesis using None by (simp add: findForQuery_def slice_def Let_def)
    next
      case False
      have "findForQuery h c query options =
          page_loop proven (vw_readForQuery c) (op_offset options) (op_limit options) rids 0 []"
        using None False
        by (simp add: findForQuery_def Let_def rids_def plan_def q_def wanted_def proven_def )
      also have "\<dots> = [] @ map (row_of c) (slice (op_offset options - 0)
          (map_option (\<lambda>l. l - length ([] :: jsv list)) (op_limit options)) (filter proven rids))"
        by (rule page_loop_slice) (use False in \<open>auto simp: proven_def row_of_def split: option.splits\<close>)
      finally show ?thesis by (simp add: option.map_ident)
    qed
    then show ?thesis using dist sel None by (intro exI [of _ "filter proven rids"]) simp
  qed
qed

lemma find_rows_exact:
  assumes "view_ok h c" "leaves_ok (answerable h c) (stripQueryControls query)" "op_sortBy options = None"
    "op_includeIds options = None"
  shows "\<exists>rids. distinct rids \<and> set rids = answer_rows h c query options \<and>
    find_rows h c query options = map (\<lambda>rid. the (vw_read c rid)) (slice (op_offset options) (op_limit options) rids)"
proof -
  define q where "q = stripQueryControls query"
  define plan where "plan = planRead q None (plannerAdapter h c)"
  define rids where "rids = ridsForPlan h c (rp_idPlan plan) q"
  define proven where "proven = (\<lambda>rid. allowed c (op_includeId options) rid \<and>
      (rp_path plan = Scan \<and> \<not> isEmptyCriteria q \<longrightarrow> row_matches h c q rid))"
  have dist: "distinct rids" using planned_rids(1) [OF assms(1,2), of None] by (simp add: rids_def plan_def q_def)
  have sel: "set (filter proven rids) = answer_rows h c query options"
    using planned_rids(2) [OF assms(1,2)] assms(4)
    by (auto simp: proven_def rids_def plan_def q_def answer_matching in_scope_def)
  have readable: "rid \<in> set rids \<Longrightarrow> proven rid \<Longrightarrow> vw_read c rid = Some (the (vw_read c rid))" for rid
  proof -
    assume "rid \<in> set rids" "proven rid"
    then have "rid \<in> row_ids c" using sel by (auto simp: answer_rows_def)
    then show ?thesis using assms(1) by (simp add: view_ok_def)
  qed
  have "find_rows h c query options =
      map (\<lambda>rid. the (vw_read c rid)) (slice (op_offset options) (op_limit options) (filter proven rids))"
  proof (cases "op_limit options = Some 0")
    case True
    then show ?thesis using assms(3) by (simp add: find_rows_def slice_def Let_def)
  next
    case False
    have "find_rows h c query options = page_loop proven (vw_read c) (op_offset options) (op_limit options) rids 0 []"
      using assms(3) False by (simp add: find_rows_def Let_def rids_def plan_def q_def proven_def)
    also have "\<dots> = [] @ map (\<lambda>rid. the (vw_read c rid)) (slice (op_offset options - 0)
        (map_option (\<lambda>l. l - length ([] :: jsv list)) (op_limit options)) (filter proven rids))"
      by (rule page_loop_slice [OF readable]) (use False in auto)
    finally show ?thesis by (simp add: option.map_ident)
  qed
  then show ?thesis using dist sel by (intro exI [of _ "filter proven rids"]) simp
qed

text \<open>A count with criteria takes the ids of an exact plan as they are.\<close>

lemma plan_count_path:
  assumes "hasObjectCriteria q"
  shows "rp_path (planCount q by ad) \<noteq> OrderedIndex \<and>
    (case planIndexedIds q ad of
       Some ip \<Rightarrow> rp_idPlan (planCount q by ad) = Some ip \<and>
         rp_path (planCount q by ad) = (if ip_exact ip then IndexExact else IndexPartial)
     | None \<Rightarrow> rp_idPlan (planCount q by ad) = Some allIdsPlan \<and> rp_path (planCount q by ad) = Scan)"
  using assms by (cases "planIndexedIds q ad"; simp add: planCount_def planRead_def Let_def)

lemma card_distinct: "distinct xs \<Longrightarrow> length (filter P xs) = card {x \<in> set xs. P x}"
  by (metis distinct_card distinct_filter set_filter)

lemma allowed_fun: "allowed c None = (\<lambda>rid. True)" "allowed c (Some p) = (\<lambda>rid. p (vw_idOf c rid))"
  by (auto simp: allowed_def)

lemma smaller_cases: "smallerSet a b = a \<or> smallerSet a b = b"
  by (simp add: smallerSet_def)

lemma count_rows_exact:
  assumes ok: "view_ok h c" "leaves_ok (answerable h c) (stripQueryControls query)"
    and object: "is_obj (stripQueryControls query)"
    and scope: "\<And>ids. op_includeIds options = Some ids \<Longrightarrow> distinct ids \<and> set ids \<subseteq> row_ids c"
  shows "count_rows h c query options = card (answer_rows h c query options)"
proof -
  define q where "q = stripQueryControls query"
  define wanted where "wanted = (\<lambda>rid. in_scope (op_includeIds options) rid \<and> allowed c (op_includeId options) rid)"
  have live: "distinct (vw_live c)" "set (vw_live c) = row_ids c" "vw_liveCount c = length (vw_live c)"
    using ok(1) by (simp_all add: view_ok_def)
  have goal: "answer_rows h c query options = {rid \<in> matching h c q. wanted rid}"
    by (simp add: answer_matching q_def wanted_def)
  have all: "{rid \<in> row_ids c. wanted rid} = {rid \<in> set ids. allowed c (op_includeId options) rid}"
    if "op_includeIds options = Some ids" for ids
    using scope [OF that] that by (auto simp: wanted_def in_scope_def)
  show ?thesis
  proof (cases "hasObjectCriteria q")
    case False
    then have "isEmptyCriteria q" using object by (auto simp: hasObjectCriteria_def isEmptyCriteria_def q_def)
    then have rows: "answer_rows h c query options = {rid \<in> row_ids c. wanted rid}"
      using goal matching_empty [of q h c] by simp
    show ?thesis
    proof (cases "op_includeIds options")
      case None
      then have "count_rows h c query options = length (filter wanted (vw_live c))"
        using False live(3) by (cases "op_includeId options")
          (simp_all add: count_rows_def q_def Let_def wanted_def in_scope_def allowed_def)
      then show ?thesis using rows card_distinct [OF live(1)] live(2) by simp
    next
      case (Some ids)
      then have "count_rows h c query options = length (filter (allowed c (op_includeId options)) ids)"
        using False by (cases "op_includeId options") (simp_all add: count_rows_def q_def Let_def allowed_fun)
      then show ?thesis using rows all [OF Some] card_distinct [of ids] scope [OF Some] by simp
    qed
  next
    case True
    define plan where "plan = planCount q (op_sortBy options) (plannerAdapter h c)"
    note path = plan_count_path [OF True, of "op_sortBy options" "plannerAdapter h c", folded plan_def]
    show ?thesis
    proof (cases "planIndexedIds q (plannerAdapter h c)")
      case None
      then have p: "rp_idPlan plan = Some allIdsPlan" "rp_path plan = Scan" using path by simp_all
      have "\<not> isEmptyCriteria q" using True by (simp add: hasObjectCriteria_def isEmptyCriteria_def)
      then have "count_rows h c query options =
          length (filter (\<lambda>rid. wanted rid \<and> row_matches h c q rid) (ridsForPlan h c (Some allIdsPlan) q))"
        using True p by (simp add: count_rows_def q_def [symmetric] plan_def [symmetric] Let_def wanted_def allIdsPlan_def conj_ac)
      also have "\<dots> = card {rid \<in> row_ids c. wanted rid \<and> row_matches h c q rid}"
        using card_distinct [of "ridsForPlan h c (Some allIdsPlan) q"] all_rids(1) [OF ok(1), of q] by simp
      also have "{rid \<in> row_ids c. wanted rid \<and> row_matches h c q rid} = answer_rows h c query options"
        using matching_sub [of h c q] by (auto simp: goal row_matches_row)
      finally show ?thesis .
    next
      case (Some ip)
      then have p: "rp_idPlan plan = Some ip" "rp_path plan = (if ip_exact ip then IndexExact else IndexPartial)"
        using path by simp_all
      obtain ids where ids: "ip_ids ip = Some ids" "ip_scopeIds ip = None" "distinct ids"
        "ip_verify ip \<longleftrightarrow> \<not> ip_exact ip" "ip_exact ip \<Longrightarrow> set ids = matching h c q"
        using indexed_plan [OF ok(2) [folded q_def] Some] by metis
      show ?thesis
      proof (cases "ip_exact ip")
        case False
        then have "count_rows h c query options = length (filter wanted (ridsForPlan h c (Some ip) q))"
          using True p by (simp add: count_rows_def q_def [symmetric] plan_def [symmetric] Let_def wanted_def)
        then show ?thesis using card_distinct [of "ridsForPlan h c (Some ip) q"]
            indexed_rids [OF ok(2) [folded q_def] Some] by (simp add: goal)
      next
        case exact: True
        have "count_rows h c query options = card {rid \<in> set ids. wanted rid}"
        proof (cases "op_includeIds options")
          case None
          then have "count_rows h c query options = length (filter wanted ids)"
            using True p exact ids by (cases "op_includeId options")
              (simp_all add: count_rows_def q_def [symmetric] plan_def [symmetric] Let_def wanted_def in_scope_def allowed_def)
          then show ?thesis using card_distinct [OF ids(3)] by simp
        next
          case scoped: (Some sc)
          note sc = scope [OF scoped]
          show ?thesis
          proof (cases "op_includeId options")
            case None
            then have "count_rows h c query options = countIntersection ids sc"
              using True p exact ids scoped
              by (simp add: count_rows_def q_def [symmetric] plan_def [symmetric] Let_def)
            moreover have "{rid \<in> set ids. wanted rid} = set ids \<inter> set sc"
              using None scoped by (auto simp: wanted_def in_scope_def allowed_def)
            ultimately show ?thesis using countIntersection_card [OF ids(3)] sc by simp
          next
            case (Some f)
            then have "count_rows h c query options =
                length (filter (\<lambda>rid. rid \<in> set ids \<and> rid \<in> set sc \<and> f (vw_idOf c rid)) (smallerSet ids sc))"
              using True p exact ids scoped
              by (simp add: count_rows_def q_def [symmetric] plan_def [symmetric] Let_def)
            also have "\<dots> = card {rid \<in> set (smallerSet ids sc). rid \<in> set ids \<and> rid \<in> set sc \<and> f (vw_idOf c rid)}"
              by (rule card_distinct) (use smaller_cases [of ids sc] ids(3) sc in auto)
            also have "{rid \<in> set (smallerSet ids sc). rid \<in> set ids \<and> rid \<in> set sc \<and> f (vw_idOf c rid)} = {rid \<in> set ids. wanted rid}"
              using smaller_cases [of ids sc] Some scoped by (auto simp: wanted_def in_scope_def allowed_def)
            finally show ?thesis .
          qed
        qed
        then show ?thesis using ids(5) [OF exact] goal by simp
      qed
    qed
  qed
qed

subsection \<open>The properties\<close>


text \<open>The count of a query is the number of rows the query finds, also when it is read off the size of an index bucket.\<close>

theorem planned_count_exact:
  assumes "view_ok h c" "leaves_ok (answerable h c) (stripQueryControls query)" "is_obj (stripQueryControls query)"
    and "\<And>ids. op_includeIds options = Some ids \<Longrightarrow> distinct ids \<and> set ids \<subseteq> {rid. vw_readForQuery c rid \<noteq> None}"
  shows "count_rows h c query options =
    card {rid. \<exists>object. vw_readForQuery c rid = Some object \<and> in_scope (op_includeIds options) rid \<and>
      allowed c (op_includeId options) rid \<and> matchesQuery h object query}"
proof -
  have "{rid. \<exists>object. vw_readForQuery c rid = Some object \<and> in_scope (op_includeIds options) rid \<and>
      allowed c (op_includeId options) rid \<and> matchesQuery h object query} = answer_rows h c query options"
    by (auto simp: answer_rows_def row_ids_def row_of_def)
  then show ?thesis using count_rows_exact [OF assms(1-3)] assms(4) by (simp add: row_ids_def)
qed

text \<open>\<open>find\<close> without a sort reads the page of the matching rows.\<close>

theorem planned_find_exact:
  assumes "view_ok h c" "leaves_ok (answerable h c) (stripQueryControls query)" "op_sortBy options = None" "op_includeIds options = None"
  shows "\<exists>rids. distinct rids \<and>
    set rids = {rid. \<exists>object. vw_readForQuery c rid = Some object \<and> allowed c (op_includeId options) rid \<and> matchesQuery h object query} \<and>
    find_rows h c query options = map (\<lambda>rid. the (vw_read c rid)) (slice (op_offset options) (op_limit options) rids)"
proof -
  have "{rid. \<exists>object. vw_readForQuery c rid = Some object \<and> allowed c (op_includeId options) rid \<and> matchesQuery h object query} =
      answer_rows h c query options"
    using assms(4) by (auto simp: answer_rows_def row_ids_def row_of_def in_scope_def)
  then show ?thesis using find_rows_exact [OF assms] by simp
qed

subsection \<open>Witnesses\<close>

text \<open>Two rows; the index still holds the old value of the second, which is marked dirty.\<close>

definition sample_row :: "nat \<Rightarrow> jsv option" where
  "sample_row rid =
     (if rid = 0 then Some (JObj [(''_id'', JStr ''x''), (''a'', JStr ''p'')])
      else if rid = 1 then Some (JObj [(''_id'', JStr ''y''), (''a'', JStr ''q'')]) else None)"

definition sample_view :: view where
  "sample_view =
     \<lparr>vw_readForQuery = sample_row, vw_read = sample_row, vw_readId = (\<lambda>id. None),
      vw_idOf = (\<lambda>rid. if rid = 0 then Some ''x'' else if rid = 1 then Some ''y'' else None),
      vw_ridOf = (\<lambda>s. if s = ''x'' then Some 0 else if s = ''y'' then Some 1 else None),
      vw_has = (\<lambda>s. s = ''x'' \<or> s = ''y''), vw_live = [0, 1], vw_liveCount = 2,
      vw_indexes = [(''a'', index_run plain_host ''a'' [IPut 0 (JStr ''p''), IPut 1 (JStr ''p'')])], vw_columns = [], vw_dirty = [1]\<rparr>"

definition sample_options :: find_options where
  "sample_options = \<lparr>op_sortBy = None, op_desc = False, op_offset = 0, op_limit = None, op_includeId = None, op_includeIds = None\<rparr>"

lemma sample_rows: "row_ids sample_view = {0, 1}"
  by (auto simp: row_ids_def sample_view_def sample_row_def)

lemma sample_paths:
  "getPathValue (row_of sample_view 0) ''_id'' = JStr ''x''" "getPathValue (row_of sample_view 0) ''a'' = JStr ''p''"
  "getPathValue (row_of sample_view 1) ''_id'' = JStr ''y''" "getPathValue (row_of sample_view 1) ''a'' = JStr ''q''"
  by code_simp+

lemma sample_view_ok: "view_ok plain_host sample_view"
proof -
  have fresh: "index_fresh plain_host sample_view ''a'' (index_run plain_host ''a'' [IPut 0 (JStr ''p''), IPut 1 (JStr ''p'')])"
  proof -
    have "indexed_values [IPut 0 (JStr ''p''), IPut 1 (JStr ''p'')] rid =
        map_option (\<lambda>object. getPathValue object ''a'') (sample_row rid)" if "rid \<noteq> 1" for rid
      using that sample_paths(2)
      by (simp add: indexed_values_def sample_row_def row_of_def sample_view_def)
    then show ?thesis using index_run_ok [of plain_host "''a''" "[IPut 0 (JStr ''p''), IPut 1 (JStr ''p'')]"]
      by (simp add: index_fresh_def sample_view_def)
  qed
  have ix: "jm_get (vw_indexes sample_view) path = Some index \<Longrightarrow> index_fresh plain_host sample_view path index" for path index
    using fresh by (simp add: sample_view_def split: if_splits)
  have ids: "(vw_ridOf sample_view s = Some rid \<and> vw_has sample_view s) \<longleftrightarrow>
      (rid \<in> row_ids sample_view \<and> getPathValue (row_of sample_view rid) ''_id'' = JStr s)" for s rid
  proof -
    have maps: "vw_ridOf sample_view = (\<lambda>s. if s = ''x'' then Some 0 else if s = ''y'' then Some 1 else None)"
      "vw_has sample_view = (\<lambda>s. s = ''x'' \<or> s = ''y'')"
      by (simp_all add: sample_view_def)
    consider "rid = 0" | "rid = 1" | "rid \<noteq> 0" "rid \<noteq> 1" by blast
    then show ?thesis unfolding maps using sample_paths by cases (auto simp: sample_rows)
  qed
  have strs: "\<forall>rid \<in> row_ids sample_view. is_str (getPathValue (row_of sample_view rid) ''_id'')"
    using sample_paths by (simp add: sample_rows)
  have reads: "\<forall>rid \<in> row_ids sample_view. vw_read sample_view rid \<noteq> None"
    by (simp add: sample_rows) (simp add: sample_view_def sample_row_def)
  have lists: "distinct (vw_live sample_view)" "set (vw_live sample_view) = row_ids sample_view"
    "vw_liveCount sample_view = length (vw_live sample_view)" "distinct (vw_dirty sample_view)"
    by (auto simp: sample_rows) (auto simp: sample_view_def)
  show ?thesis unfolding view_ok_def using ix ids strs reads lists by blast
qed

definition sample_query :: jsv where
  "sample_query = JObj [(''a'', JStr ''p'')]"

lemma sample_leaves: "leaves_ok (answerable plain_host sample_view) (stripQueryControls sample_query)"
proof -
  have strip: "stripQueryControls sample_query = sample_query" by code_simp
  have "text_constraint sample_view ''a'' (JStr ''p'')"
    using sample_paths by (simp add: text_constraint_def sample_rows starts_with_def text_operand_def texts_of_def text_value_def)
  then have "answerable plain_host sample_view ''a'' (JStr ''p'')" using sample_view_ok by (simp add: answerable_def)
  then show ?thesis unfolding strip by (simp add: sample_query_def leaves_ok_JObj entry_ok_def)
qed


theorem planned_count_exact_witness:
  "count_rows plain_host sample_view sample_query sample_options = 1 \<and>
   card {rid. \<exists>object. vw_readForQuery sample_view rid = Some object \<and> matchesQuery plain_host object sample_query} = 1"
proof -
  have "count_rows plain_host sample_view sample_query sample_options = 1" by code_simp
  moreover have "is_obj (stripQueryControls sample_query)" by code_simp
  ultimately show ?thesis using planned_count_exact [OF sample_view_ok sample_leaves, of sample_options]
    by (simp add: sample_options_def in_scope_def allowed_def)
qed

theorem planned_find_exact_witness:
  "find_rows plain_host sample_view sample_query sample_options = [the (sample_row 0)] \<and>
   (\<exists>rids. distinct rids \<and>
      set rids = {rid. \<exists>object. vw_readForQuery sample_view rid = Some object \<and> matchesQuery plain_host object sample_query} \<and>
      find_rows plain_host sample_view sample_query sample_options = map (\<lambda>rid. the (vw_read sample_view rid)) rids)"
proof -
  have "find_rows plain_host sample_view sample_query sample_options = [the (sample_row 0)]" by code_simp
  then show ?thesis using planned_find_exact [OF sample_view_ok sample_leaves, of sample_options]
    by (simp add: sample_options_def allowed_def slice_def)
qed

end
