(* ===== verification/Hooks.thy ===== *)
theory Hooks
  imports JsText
begin

text \<open>
  src/src/object-hooks.js: the hooks of a collection's metadata and their normal form, the registry of hook functions, the
  runner that resolves a chain of hooks for an operation, with its cache of plans, and the run of a chain.

  A handler is a script: it ends, throws, or calls \<open>next\<close> and goes on with the context it finds when \<open>next\<close> has ended.
  What the operation itself does is \<open>execute\<close>, which changes a state of its own. Database and collection names are
  texts; the key of a scope joins them with a NUL character.
\<close>

definition OPERATIONS :: "string list" where
  "OPERATIONS = [''create'', ''read'', ''update'', ''delete'']"

definition META_KEYS :: "string list" where
  "META_KEYS = [''enabled'', ''use''] @ OPERATIONS"

datatype hook_error =
    HooksNotObject
  | UnknownHooksKey string
  | EnabledNotBoolean
  | NamesNotArray string
  | NameNotText string
  | AlreadyRegistered string
  | BadOperations
  | UnknownOperation string
  | NotRegistered string
  | NotSupported string string
  | MetaRejected string
  | NextTwice string
  | NextMissing string
  | Thrown string

subsection \<open>Metadata\<close>

record hook_config =
  hc_enabled :: bool
  hc_names :: "(string, string list) jmap"

definition normalizeName :: "jsv \<Rightarrow> string \<Rightarrow> hook_error + string" where
  "normalizeName v label =
     (case v of
        JStr s \<Rightarrow> if js_trim s = [] then Inl (NameNotText label) else Inr (js_trim s)
      | _ \<Rightarrow> Inl (NameNotText label))"

definition normalizeHookNames :: "jsv \<Rightarrow> string \<Rightarrow> hook_error + string list" where
  "normalizeHookNames v label =
     (if nullish v then Inr []
      else (case v of
              JArr names \<Rightarrow> res_bind (res_map (\<lambda>n. normalizeName n label) names) (\<lambda>ns. Inr (js_unique ns))
            | _ \<Rightarrow> Inl (NamesNotArray label)))"

fun hook_names :: "jobj \<Rightarrow> string list \<Rightarrow> (string, string list) jmap \<Rightarrow> hook_error + (string, string list) jmap" where
  "hook_names kvs [] out = Inr out"
| "hook_names kvs (key # keys) out =
     res_bind (normalizeHookNames (oget kvs key) (''hooks.'' @ key)) (\<lambda>names.
       hook_names kvs keys (if names = [] then out else jm_set key names out))"

definition normalizeObjectHooksMeta :: "jsv \<Rightarrow> hook_error + hook_config option" where
  "normalizeObjectHooksMeta v =
     (if nullish v then Inr None
      else (case v of
              JObj kvs \<Rightarrow>
                (case find (\<lambda>key. key \<notin> set META_KEYS) (map fst kvs) of
                   Some key \<Rightarrow> Inl (UnknownHooksKey key)
                 | None \<Rightarrow>
                     (case oget kvs ''enabled'' of
                        JUndef \<Rightarrow>
                          res_bind (hook_names kvs (''use'' # OPERATIONS) [])
                            (\<lambda>names. Inr (Some \<lparr>hc_enabled = True, hc_names = names\<rparr>))
                      | JBool b \<Rightarrow>
                          res_bind (hook_names kvs (''use'' # OPERATIONS) [])
                            (\<lambda>names. Inr (Some \<lparr>hc_enabled = b, hc_names = names\<rparr>))
                      | _ \<Rightarrow> Inl EnabledNotBoolean))
            | _ \<Rightarrow> Inl HooksNotObject))"

text \<open>A configuration as the object the metadata holds, and its lists of names.\<close>

definition hooks_value :: "hook_config \<Rightarrow> jsv" where
  "hooks_value config =
     JObj ((''enabled'', JBool (hc_enabled config)) # map (\<lambda>(key, names). (key, JArr (map JStr names))) (hc_names config))"

definition names_for :: "hook_config \<Rightarrow> string \<Rightarrow> string list" where
  "names_for config key = (case jm_get (hc_names config) key of None \<Rightarrow> [] | Some names \<Rightarrow> names)"

definition configuredNames :: "hook_config \<Rightarrow> string list" where
  "configuredNames config = js_unique (names_for config ''use'' @ concat (map (names_for config) OPERATIONS))"

subsection \<open>The registry\<close>

datatype 'c script = Return 'c | Throw hook_error | CallNext 'c "'c \<Rightarrow> 'c script"

record 'c hook =
  hk_name :: string
  hk_operations :: "string list"
  hk_accepts :: "(jsv \<Rightarrow> bool) option"
  hk_handler :: "'c \<Rightarrow> 'c script"

record 'c registry =
  hr_definitions :: "(string, 'c hook) jmap"
  hr_revision :: nat

definition createObjectHookRegistry :: "'c registry" where
  "createObjectHookRegistry = \<lparr>hr_definitions = [], hr_revision = 0\<rparr>"

text \<open>\<open>None\<close> is an absent list of operations.\<close>

definition normalizeOperations :: "host \<Rightarrow> jsv \<Rightarrow> hook_error + string list" where
  "normalizeOperations h v =
     (if v = JUndef \<or> v = JStr ''all'' then Inr OPERATIONS
      else (case v of
              JArr xs \<Rightarrow>
                let normalized = js_unique (map (js_to_string h) xs) in
                (case find (\<lambda>operation. operation \<notin> set OPERATIONS) normalized of
                   Some operation \<Rightarrow> Inl (UnknownOperation operation)
                 | None \<Rightarrow> Inr normalized)
            | _ \<Rightarrow> Inl BadOperations))"

text \<open>\<open>register(name, definition)\<close>; a definition that is a function has no operations and no \<open>validateMeta\<close>.\<close>

definition register :: "host \<Rightarrow> jsv \<Rightarrow> ('c \<Rightarrow> 'c script) \<Rightarrow> jsv \<Rightarrow> (jsv \<Rightarrow> bool) option \<Rightarrow> 'c registry \<Rightarrow>
    hook_error + 'c registry" where
  "register h name handler operations accepts reg =
     res_bind (normalizeName name ''hook name'') (\<lambda>key.
       if jm_has (hr_definitions reg) key then Inl (AlreadyRegistered key)
       else res_bind (normalizeOperations h operations) (\<lambda>ops.
         Inr \<lparr>hr_definitions = jm_set key \<lparr>hk_name = key, hk_operations = ops, hk_accepts = accepts, hk_handler = handler\<rparr>
                (hr_definitions reg),
              hr_revision = hr_revision reg + 1\<rparr>))"

definition hook_get :: "'c registry \<Rightarrow> string \<Rightarrow> 'c hook option" where
  "hook_get reg name = jm_get (hr_definitions reg) name"

subsection \<open>The runner\<close>

record 'c runner =
  rn_registry :: "'c registry"
  rn_configs :: "(string, hook_config) jmap"
  rn_plans :: "(string, 'c hook list) jmap"
  rn_revision :: nat

definition scopeKey :: "string \<Rightarrow> string \<Rightarrow> string" where
  "scopeKey database collection = database @ [char_of (0 :: nat)] @ collection"

definition plan_key :: "string \<Rightarrow> string \<Rightarrow> string" where
  "plan_key scope operation = scope @ [char_of (0 :: nat)] @ operation"

fun check_names :: "'c registry \<Rightarrow> jsv \<Rightarrow> string list \<Rightarrow> hook_error + unit" where
  "check_names reg meta [] = Inr ()"
| "check_names reg meta (name # names) =
     (case hook_get reg name of
        None \<Rightarrow> Inl (NotRegistered name)
      | Some hook \<Rightarrow>
          if (case hk_accepts hook of None \<Rightarrow> False | Some accepts \<Rightarrow> \<not> accepts meta) then Inl (MetaRejected name)
          else check_names reg meta names)"

fun check_operations :: "'c registry \<Rightarrow> (string \<times> string) list \<Rightarrow> hook_error + unit" where
  "check_operations reg [] = Inr ()"
| "check_operations reg ((operation, name) # rest) =
     (if (case hook_get reg name of None \<Rightarrow> False | Some hook \<Rightarrow> operation \<in> set (hk_operations hook))
      then check_operations reg rest else Inl (NotSupported name operation))"

definition validateMeta :: "'c registry \<Rightarrow> jsv \<Rightarrow> hook_error + hook_config option" where
  "validateMeta reg meta =
     res_bind (normalizeObjectHooksMeta (jprop meta ''hooks'')) (\<lambda>config.
       case config of
         None \<Rightarrow> Inr None
       | Some cfg \<Rightarrow>
           if \<not> hc_enabled cfg then Inr config
           else res_bind (check_names reg meta (configuredNames cfg)) (\<lambda>u.
             res_bind (check_operations reg (concat (map (\<lambda>op. map (Pair op) (names_for cfg op)) OPERATIONS))) (\<lambda>u. Inr config)))"

text \<open>The two loops of \<open>_plan\<close>: the hooks of \<open>use\<close> that support the operation, then those named for it.\<close>

fun use_chain :: "'c registry \<Rightarrow> string \<Rightarrow> string list \<Rightarrow> 'c hook list \<Rightarrow> hook_error + 'c hook list" where
  "use_chain reg operation [] chain = Inr chain"
| "use_chain reg operation (name # names) chain =
     (case hook_get reg name of
        None \<Rightarrow> Inl (NotRegistered name)
      | Some hook \<Rightarrow> use_chain reg operation names (if operation \<in> set (hk_operations hook) then chain @ [hook] else chain))"

fun operation_chain :: "'c registry \<Rightarrow> string \<Rightarrow> string list \<Rightarrow> 'c hook list \<Rightarrow> hook_error + 'c hook list" where
  "operation_chain reg operation [] chain = Inr chain"
| "operation_chain reg operation (name # names) chain =
     (case hook_get reg name of
        None \<Rightarrow> Inl (NotRegistered name)
      | Some hook \<Rightarrow>
          if operation \<notin> set (hk_operations hook) then Inl (NotSupported name operation)
          else operation_chain reg operation names (if hk_name hook \<in> hk_name ` set chain then chain else chain @ [hook]))"

definition chain_for :: "'c registry \<Rightarrow> hook_config option \<Rightarrow> string \<Rightarrow> hook_error + 'c hook list" where
  "chain_for reg config operation =
     (case config of
        None \<Rightarrow> Inr []
      | Some cfg \<Rightarrow>
          if \<not> hc_enabled cfg then Inr []
          else res_bind (use_chain reg operation (names_for cfg ''use'') []) (operation_chain reg operation (names_for cfg operation)))"

fun recheck :: "'c registry \<Rightarrow> hook_config list \<Rightarrow> hook_error + unit" where
  "recheck reg [] = Inr ()"
| "recheck reg (config # configs) =
     res_bind (validateMeta reg (JObj [(''hooks'', hooks_value config)])) (\<lambda>u. recheck reg configs)"

definition runner_plan :: "string \<Rightarrow> string \<Rightarrow> string \<Rightarrow> 'c runner \<Rightarrow> (hook_error + 'c hook list) \<times> 'c runner" where
  "runner_plan database collection operation rn =
     (if hr_definitions (rn_registry rn) = [] then (Inr [], rn)
      else
        let changed = (rn_revision rn \<noteq> hr_revision (rn_registry rn));
            rn1 = (if changed then rn\<lparr>rn_revision := hr_revision (rn_registry rn), rn_plans := []\<rparr> else rn);
            scope = scopeKey database collection;
            key = plan_key scope operation
        in case (if changed then recheck (rn_registry rn) (jm_vals (rn_configs rn)) else Inr ()) of
             Inl e \<Rightarrow> (Inl e, rn1)
           | Inr u \<Rightarrow>
               (case jm_get (rn_plans rn1) key of
                  Some chain \<Rightarrow> (Inr chain, rn1)
                | None \<Rightarrow>
                    (case chain_for (rn_registry rn) (jm_get (rn_configs rn) scope) operation of
                       Inl e \<Rightarrow> (Inl e, rn1)
                     | Inr chain \<Rightarrow> (Inr chain, rn1\<lparr>rn_plans := jm_set key chain (rn_plans rn1)\<rparr>))))"

definition invalidateScope :: "string \<Rightarrow> 'c runner \<Rightarrow> 'c runner" where
  "invalidateScope scope rn = rn\<lparr>rn_plans := foldl (\<lambda>m operation. jm_del (plan_key scope operation) m) (rn_plans rn) OPERATIONS\<rparr>"

datatype hook_change = MetaChange string string jsv | DropCollection string string | DropDatabase string | OtherChange

fun runner_onChange :: "hook_change \<Rightarrow> 'c runner \<Rightarrow> hook_error + 'c runner" where
  "runner_onChange (MetaChange database collection meta) rn =
     res_bind (normalizeObjectHooksMeta (jprop meta ''hooks'')) (\<lambda>config.
       let key = scopeKey database collection in
       Inr (invalidateScope key (rn\<lparr>rn_configs := (case config of Some c \<Rightarrow> jm_set key c (rn_configs rn)
                                                    | None \<Rightarrow> jm_del key (rn_configs rn))\<rparr>)))"
| "runner_onChange (DropCollection database collection) rn =
     (let key = scopeKey database collection in Inr (invalidateScope key (rn\<lparr>rn_configs := jm_del key (rn_configs rn)\<rparr>)))"
| "runner_onChange (DropDatabase database) rn =
     (let prefix = database @ [char_of (0 :: nat)] in
      Inr (rn\<lparr>rn_configs := filter (\<lambda>(key, c). \<not> starts_with prefix key) (rn_configs rn),
              rn_plans := filter (\<lambda>(key, p). \<not> starts_with prefix key) (rn_plans rn)\<rparr>))"
| "runner_onChange OtherChange rn = Inr rn"

definition runner_register :: "host \<Rightarrow> jsv \<Rightarrow> ('c \<Rightarrow> 'c script) \<Rightarrow> jsv \<Rightarrow> (jsv \<Rightarrow> bool) option \<Rightarrow> 'c runner \<Rightarrow> hook_error + 'c runner" where
  "runner_register h name handler operations accepts rn =
     res_bind (register h name handler operations accepts (rn_registry rn)) (\<lambda>reg. Inr (rn\<lparr>rn_registry := reg\<rparr>))"

text \<open>\<open>_loadExistingCollections\<close> of the constructor.\<close>

fun load_configs :: "'c registry \<Rightarrow> (string \<times> string \<times> jsv) list \<Rightarrow> (string, hook_config) jmap \<Rightarrow> hook_error + (string, hook_config) jmap" where
  "load_configs reg [] configs = Inr configs"
| "load_configs reg ((database, collection, meta) # rest) configs =
     res_bind (validateMeta reg meta) (\<lambda>config.
       load_configs reg rest (case config of None \<Rightarrow> configs | Some c \<Rightarrow> jm_set (scopeKey database collection) c configs))"

definition newRunner :: "(string \<times> string \<times> jsv) list \<Rightarrow> 'c registry \<Rightarrow> hook_error + 'c runner" where
  "newRunner existing reg =
     res_bind (load_configs reg existing []) (\<lambda>configs.
       Inr \<lparr>rn_registry = reg, rn_configs = configs, rn_plans = [], rn_revision = hr_revision reg\<rparr>)"

definition runner_dispose :: "'c runner \<Rightarrow> 'c runner" where
  "runner_dispose rn = rn\<lparr>rn_configs := [], rn_plans := []\<rparr>"

subsection \<open>Running a chain\<close>

text \<open>
  \<open>dispatch(index)\<close> on the rest of the chain. \<open>handle\<close> follows a handler: \<open>ok\<close> is what the promise of its \<open>next\<close>
  resolved to, if it was called.
\<close>

primrec handle :: "'c script \<Rightarrow> string \<Rightarrow> ('c \<Rightarrow> 'w \<Rightarrow> (hook_error + 'r \<times> 'c) \<times> 'w) \<Rightarrow> 'r option \<Rightarrow> 'w \<Rightarrow> (hook_error + 'r \<times> 'c) \<times> 'w" where
  "handle (Return ctx) name next result w =
     (case result of None \<Rightarrow> (Inl (NextMissing name), w) | Some r \<Rightarrow> (Inr (r, ctx), w))"
| "handle (Throw e) name next result w = (Inl e, w)"
| "handle (CallNext ctx k) name next result w =
     (case result of
        Some r \<Rightarrow> (Inl (NextTwice name), w)
      | None \<Rightarrow>
          (case next ctx w of
             (Inl e, w') \<Rightarrow> (Inl e, w')
           | (Inr (r, ctx'), w') \<Rightarrow> handle (k ctx') name next (Some r) w'))"

fun dispatch :: "('c \<Rightarrow> 'w \<Rightarrow> (hook_error + 'r \<times> 'c) \<times> 'w) \<Rightarrow> 'c hook list \<Rightarrow> 'c \<Rightarrow> 'w \<Rightarrow> (hook_error + 'r \<times> 'c) \<times> 'w" where
  "dispatch execute [] ctx w = execute ctx w"
| "dispatch execute (hook # chain) ctx w =
     handle (hk_handler hook ctx) (hk_name hook) (dispatch execute chain) None w"

definition inputCount :: "jsv \<Rightarrow> nat" where
  "inputCount input =
     (case find (\<lambda>key. is_arr (jprop input key)) [''objects'', ''patches'', ''ids''] of
        None \<Rightarrow> 0 | Some key \<Rightarrow> length (elems_of (jprop input key)))"

record hook_context =
  hx_operation :: string
  hx_variant :: string
  hx_database :: string
  hx_collection :: string
  hx_input :: jsv
  hx_principal :: jsv
  hx_batch :: jsv
  hx_lookup :: jsv
  hx_state :: jobj
  hx_count :: nat
  hx_result :: jsv

text \<open>\<open>run\<close>: without a chain the operation is executed as it is.\<close>

definition runner_run :: "(jsv \<Rightarrow> 'w \<Rightarrow> (hook_error + jsv) \<times> 'w) \<Rightarrow> hook_context \<Rightarrow> hook_context runner \<Rightarrow> 'w \<Rightarrow>
    (hook_error + jsv) \<times> 'w \<times> hook_context runner" where
  "runner_run execute request rn w =
     (if hx_operation request \<notin> set OPERATIONS then (Inl (UnknownOperation (hx_operation request)), w, rn)
      else (case runner_plan (hx_database request) (hx_collection request) (hx_operation request) rn of
              (Inl e, rn') \<Rightarrow> (Inl e, w, rn')
            | (Inr chain, rn') \<Rightarrow>
                if chain = [] then (case execute (hx_input request) w of (out, w') \<Rightarrow> (out, w', rn'))
                else (case dispatch (\<lambda>ctx w. case execute (hx_input ctx) w of
                                       (Inl e, w') \<Rightarrow> (Inl e, w') | (Inr r, w') \<Rightarrow> (Inr (r, ctx\<lparr>hx_result := r\<rparr>), w'))
                             chain (request\<lparr>hx_state := [], hx_count := inputCount (hx_input request), hx_result := JUndef\<rparr>) w of
                        (Inl e, w') \<Rightarrow> (Inl e, w', rn') | (Inr (r, ctx), w') \<Rightarrow> (Inr r, w', rn'))))"

subsection \<open>The operation is executed once\<close>

text \<open>An executor that keeps a log of the contexts it was called with.\<close>

definition logged :: "('c \<Rightarrow> hook_error + 'r \<times> 'c) \<Rightarrow> 'c \<Rightarrow> 'c list \<Rightarrow> (hook_error + 'r \<times> 'c) \<times> 'c list" where
  "logged f ctx calls = (f ctx, calls @ [ctx])"

definition once :: "('c \<Rightarrow> hook_error + 'r \<times> 'c) \<Rightarrow> hook_error + 'r \<times> 'c \<Rightarrow> 'c list \<Rightarrow> 'c list \<Rightarrow> bool" where
  "once f out calls calls' \<longleftrightarrow>
     (\<exists>e. calls' = calls \<and> out = Inl e) \<or>
     (\<exists>c. calls' = calls @ [c] \<and> (\<forall>r x. out = Inr (r, x) \<longrightarrow> (\<exists>y. f c = Inr (r, y))))"

lemma handle_after:
  "handle s name next (Some r) w = (out, w') \<Longrightarrow> w' = w \<and> (\<forall>r' x. out = Inr (r', x) \<longrightarrow> r' = r)"
  by (cases s) auto

lemma handle_once:
  assumes "\<And>ctx calls out calls'. next ctx calls = (out, calls') \<Longrightarrow> once f out calls calls'"
    and "handle s name next None calls = (out, calls')"
  shows "once f out calls calls'"
proof (cases s)
  case (CallNext ctx k)
  obtain out1 calls1 where one: "next ctx calls = (out1, calls1)" by (cases "next ctx calls") auto
  have o1: "once f out1 calls calls1" by (rule assms(1) [OF one])
  show ?thesis
  proof (cases out1)
    case (Inl e)
    then show ?thesis using assms(2) CallNext one o1 by auto
  next
    case (Inr rc)
    obtain r ctx' where rc: "rc = (r, ctx')" by (cases rc)
    have "handle (k ctx') name next (Some r) calls1 = (out, calls')" using assms(2) CallNext one Inr rc by simp
    from handle_after [OF this] have a: "calls' = calls1" "\<And>r' x. out = Inr (r', x) \<Longrightarrow> r' = r" by blast+
    obtain c y where c: "calls1 = calls @ [c]" "f c = Inr (r, y)" using o1 Inr rc by (auto simp: once_def)
    have "\<forall>r' x. out = Inr (r', x) \<longrightarrow> (\<exists>y. f c = Inr (r', y))" using a(2) c(2) by metis
    then show ?thesis unfolding once_def using a(1) c(1) by simp
  qed
qed (use assms(2) in \<open>auto simp: once_def\<close>)

lemma dispatch_once: "dispatch (logged f) chain ctx calls = (out, calls') \<Longrightarrow> once f out calls calls'"
proof (induction chain arbitrary: ctx calls out calls')
  case Nil
  then show ?case by (auto simp: logged_def once_def)
next
  case (Cons hook chain)
  show ?case by (rule handle_once [OF Cons.IH]) (use Cons.prems in simp_all)
qed



subsection \<open>Normal form\<close>

lemma js_trim_idem [simp]: "js_trim (js_trim s) = js_trim s"
proof -
  have d: "dropWhile is_js_space (dropWhile is_js_space xs) = dropWhile is_js_space xs" for xs by (rule dropWhile_idem)
  define t where "t = rev (dropWhile is_js_space (rev (dropWhile is_js_space s)))"
  have "dropWhile is_js_space t = t"
  proof (cases t)
    case (Cons c cs)
    have "\<exists>us. dropWhile is_js_space s = t @ us"
      using takeWhile_dropWhile_id [of is_js_space "rev (dropWhile is_js_space s)"]
      unfolding t_def by (metis rev_append rev_rev_ident)
    then obtain us where us: "dropWhile is_js_space s = t @ us" by blast
    then have "\<not> is_js_space c" using Cons hd_dropWhile [of is_js_space s] by auto
    then show ?thesis using Cons by simp
  qed simp
  moreover have "dropWhile is_js_space (rev t) = rev t" unfolding t_def by (simp add: d)
  ultimately show ?thesis unfolding js_trim_def t_def [symmetric] by simp
qed

lemma normalizeName_again: "normalizeName v label = Inr n \<Longrightarrow> normalizeName (JStr n) label' = Inr n"
  by (cases v) (auto simp: normalizeName_def split: if_splits)

lemma res_map_all: "res_map f xs = Inr ys \<Longrightarrow> y \<in> set ys \<Longrightarrow> \<exists>x \<in> set xs. f x = Inr y"
proof (induction xs arbitrary: ys)
  case (Cons x xs)
  then show ?case by (cases "f x"; cases "res_map f xs") auto
qed simp

lemma res_map_same: "(\<And>x. x \<in> set xs \<Longrightarrow> f (g x) = Inr x) \<Longrightarrow> res_map f (map g xs) = Inr xs"
  by (induction xs) simp_all

definition names_ok :: "string list \<Rightarrow> bool" where
  "names_ok names \<longleftrightarrow> distinct names \<and> (\<forall>n \<in> set names. \<exists>v label. normalizeName v label = Inr n)"

lemma normalizeHookNames_ok: "normalizeHookNames v label = Inr names \<Longrightarrow> names_ok names"
proof (cases v)
  case (JArr xs)
  assume a: "normalizeHookNames v label = Inr names"
  then obtain ns where ns: "res_map (\<lambda>n. normalizeName n label) xs = Inr ns" "names = js_unique ns"
    using JArr by (cases "res_map (\<lambda>n. normalizeName n label) xs") (auto simp: normalizeHookNames_def nullish_def)
  have "\<exists>v label. normalizeName v label = Inr n" if "n \<in> set ns" for n using res_map_all [OF ns(1) that] by blast
  then show ?thesis using ns(2) by (simp add: names_ok_def)
qed (auto simp: normalizeHookNames_def names_ok_def nullish_def)

lemma normalizeHookNames_again: "names_ok names \<Longrightarrow> normalizeHookNames (JArr (map JStr names)) label = Inr names"
proof -
  assume ok: "names_ok names"
  have "normalizeName (JStr n) label = Inr n" if "n \<in> set names" for n
    using ok that normalizeName_again unfolding names_ok_def by blast
  then have "res_map (\<lambda>n. normalizeName n label) (map JStr names) = Inr names" by (rule res_map_same)
  then show ?thesis using ok by (simp add: normalizeHookNames_def nullish_def names_ok_def js_unique_id)
qed

text \<open>The names of a normal form sit under the known keys, in their order.\<close>

lemma hook_names_spec:
  "hook_names kvs keys out = Inr m \<Longrightarrow> distinct keys \<Longrightarrow> set keys \<inter> set (jm_keys out) = {} \<Longrightarrow>
   (\<exists>new. m = out @ new \<and> set (jm_keys new) \<subseteq> set keys \<and> (\<forall>(k, names) \<in> set new. names_ok names \<and> names \<noteq> []) \<and>
     (\<forall>kvs'. (\<forall>k \<in> set keys. oget kvs' k = (case map_of new k of None \<Rightarrow> JUndef | Some names \<Rightarrow> JArr (map JStr names))) \<longrightarrow>
        hook_names kvs' keys out = Inr m))"
proof (induction keys arbitrary: out)
  case (Cons key keys)
  obtain names where names: "normalizeHookNames (oget kvs key) (''hooks.'' @ key) = Inr names"
    using Cons.prems(1) by (cases "normalizeHookNames (oget kvs key) (''hooks.'' @ key)") auto
  show ?case
  proof (cases "names = []")
    case True
    have "hook_names kvs keys out = Inr m" using Cons.prems(1) names True by simp
    from Cons.IH [OF this] Cons.prems(2,3) obtain new where
      new: "m = out @ new" "set (jm_keys new) \<subseteq> set keys" "\<forall>(k, names) \<in> set new. names_ok names \<and> names \<noteq> []"
        "\<And>kvs'. \<forall>k \<in> set keys. oget kvs' k = (case map_of new k of None \<Rightarrow> JUndef | Some names \<Rightarrow> JArr (map JStr names)) \<Longrightarrow>
          hook_names kvs' keys out = Inr m" by auto
    have "map_of new key = None" using new(2) Cons.prems(2) by (auto simp: map_of_eq_None_iff)
    moreover have "normalizeHookNames JUndef (''hooks.'' @ key) = Inr []" by (simp add: normalizeHookNames_def nullish_def)
    ultimately show ?thesis using new by (intro exI [of _ new]) auto
  next
    case False
    have set: "jm_set key names out = out @ [(key, names)]"
      using Cons.prems(3) by (intro jm_set_new) (simp add: map_of_eq_None_iff)
    have "hook_names kvs keys (out @ [(key, names)]) = Inr m" using Cons.prems(1) names False set by simp
    from Cons.IH [OF this] Cons.prems(2,3) obtain new where
      new: "m = (out @ [(key, names)]) @ new" "set (jm_keys new) \<subseteq> set keys" "\<forall>(k, names) \<in> set new. names_ok names \<and> names \<noteq> []"
        "\<And>kvs'. \<forall>k \<in> set keys. oget kvs' k = (case map_of new k of None \<Rightarrow> JUndef | Some names \<Rightarrow> JArr (map JStr names)) \<Longrightarrow>
          hook_names kvs' keys (out @ [(key, names)]) = Inr m" by auto
    have nok: "names_ok names" using names by (rule normalizeHookNames_ok)
    have "hook_names kvs' (key # keys) out = Inr m"
      if "\<forall>k \<in> set (key # keys). oget kvs' k = (case map_of ((key, names) # new) k of None \<Rightarrow> JUndef | Some names \<Rightarrow> JArr (map JStr names))"
      for kvs'
    proof -
      have "oget kvs' key = JArr (map JStr names)" using that by simp
      moreover have "\<forall>k \<in> set keys. oget kvs' k = (case map_of new k of None \<Rightarrow> JUndef | Some names \<Rightarrow> JArr (map JStr names))"
        using that Cons.prems(2) by (auto split: if_splits)
      ultimately show ?thesis using new(4) [of kvs'] normalizeHookNames_again [OF nok] False set by simp
    qed
    then show ?thesis using new nok False by (intro exI [of _ "(key, names) # new"]) auto
  qed
qed auto

lemma distinct_use: "distinct (''use'' # OPERATIONS)"
  by (simp add: OPERATIONS_def)

lemma normalize_parts:
  assumes "normalizeObjectHooksMeta v = Inr (Some c)"
  obtains kvs where "hook_names kvs (''use'' # OPERATIONS) [] = Inr (hc_names c)"
proof (cases v)
  case (JObj kvs)
  have "hook_names kvs (''use'' # OPERATIONS) [] = Inr (hc_names c)"
    using assms JObj
    by (cases "oget kvs ''enabled''"; cases "hook_names kvs (''use'' # OPERATIONS) []")
      (auto simp: normalizeObjectHooksMeta_def nullish_def split: option.splits)
  then show ?thesis by (rule that)
qed (use assms in \<open>auto simp: normalizeObjectHooksMeta_def nullish_def split: if_splits\<close>)

text \<open>Normalising the hooks of a collection's metadata is idempotent: the stored form is read back as the same configuration.\<close>

theorem hooks_meta_stable:
  assumes "normalizeObjectHooksMeta v = Inr (Some c)"
  shows "normalizeObjectHooksMeta (hooks_value c) = Inr (Some c)"
proof -
  obtain kvs where names: "hook_names kvs (''use'' # OPERATIONS) [] = Inr (hc_names c)" by (rule normalize_parts [OF assms])
  from hook_names_spec [OF names distinct_use] obtain new where
    new: "hc_names c = new" "set (jm_keys new) \<subseteq> set (''use'' # OPERATIONS)"
      "\<And>kvs'. \<forall>k \<in> set (''use'' # OPERATIONS). oget kvs' k = (case map_of new k of None \<Rightarrow> JUndef | Some names \<Rightarrow> JArr (map JStr names)) \<Longrightarrow>
        hook_names kvs' (''use'' # OPERATIONS) [] = Inr (hc_names c)" by auto
  define kvs' where "kvs' = (''enabled'', JBool (hc_enabled c)) # map (\<lambda>(key, names). (key, JArr (map JStr names))) (hc_names c)"
  have veq: "hooks_value c = JObj kvs'" by (simp add: hooks_value_def kvs'_def)
  have "oget kvs' k = (case map_of new k of None \<Rightarrow> JUndef | Some names \<Rightarrow> JArr (map JStr names))"
    if "k \<in> set (''use'' # OPERATIONS)" for k
  proof -
    have "k \<noteq> ''enabled''" using that by (auto simp: OPERATIONS_def)
    moreover have "map_of (map (\<lambda>(key, names). (key, JArr (map JStr names))) m) k = map_option (\<lambda>names. JArr (map JStr names)) (map_of m k)" for m :: "(string, string list) jmap"
      by (induction m) auto
    ultimately show ?thesis by (simp add: oget_def kvs'_def new(1) split: option.split)
  qed
  then have hn: "hook_names kvs' (''use'' # OPERATIONS) [] = Inr (hc_names c)" using new(3) by blast
  have "fst ` set kvs' \<subseteq> set META_KEYS"
    using new(1,2) by (auto simp: kvs'_def META_KEYS_def)
  then have "find (\<lambda>key. key \<notin> set META_KEYS) (map fst kvs') = None" by (auto simp: find_None_iff)
  moreover have "oget kvs' ''enabled'' = JBool (hc_enabled c)" by (simp add: oget_def kvs'_def)
  ultimately show ?thesis using hn unfolding veq by (simp add: normalizeObjectHooksMeta_def nullish_def)
qed

theorem hooks_meta_stable_witness:
  "normalizeObjectHooksMeta (hooks_value \<lparr>hc_enabled = True, hc_names = [(''use'', [''audit'']), (''delete'', [''guard''])]\<rparr>) =
     Inr (Some \<lparr>hc_enabled = True, hc_names = [(''use'', [''audit'']), (''delete'', [''guard''])]\<rparr>)"
  by (rule hooks_meta_stable [of "JObj [(''delete'', JArr [JStr '' guard'']), (''use'', JArr [JStr ''audit'', JStr ''audit''])]"])
    code_simp

subsection \<open>The cache of plans\<close>

lemma no_nul: "list_all (\<lambda>op. char_of (0 :: nat) \<notin> set op) OPERATIONS"
  by code_simp

lemma plan_key_inj:
  assumes "plan_key s op = plan_key s' op'" "op \<in> set OPERATIONS" "op' \<in> set OPERATIONS"
  shows "s = s' \<and> op = op'"
proof -
  define z where "z = (char_of (0 :: nat) :: char)"
  have nul: "z \<notin> set op" "z \<notin> set op'" using assms(2,3) no_nul by (simp_all add: z_def list_all_iff)
  have last: "takeWhile (\<lambda>c. c \<noteq> z) (rev (t @ [z] @ o')) = rev o' \<and>
      dropWhile (\<lambda>c. c \<noteq> z) (rev (t @ [z] @ o')) = z # rev t" if "z \<notin> set o'" for t o' :: string
  proof -
    have all: "\<And>c. c \<in> set (rev o') \<Longrightarrow> c \<noteq> z" using that by auto
    have "rev (t @ [z] @ o') = rev o' @ (z # rev t)" by simp
    moreover have "takeWhile (\<lambda>c. c \<noteq> z) (rev o' @ (z # rev t)) = rev o' @ takeWhile (\<lambda>c. c \<noteq> z) (z # rev t)"
      by (rule takeWhile_append2 [OF all])
    moreover have "dropWhile (\<lambda>c. c \<noteq> z) (rev o' @ (z # rev t)) = dropWhile (\<lambda>c. c \<noteq> z) (z # rev t)"
      by (rule dropWhile_append2 [OF all])
    ultimately show ?thesis by simp
  qed
  have eq: "rev (s @ [z] @ op) = rev (s' @ [z] @ op')" using assms(1) by (simp add: plan_key_def z_def)
  have "rev op = rev op'" using last [OF nul(1), of s] last [OF nul(2), of s'] eq by metis
  moreover have "z # rev s = z # rev s'" using last [OF nul(1), of s] last [OF nul(2), of s'] eq by metis
  ultimately show ?thesis by simp
qed

text \<open>Every cached plan is the chain the registry and the configurations give now, unless the registry has changed since.\<close>

definition cache_ok :: "'c runner \<Rightarrow> bool" where
  "cache_ok rn \<longleftrightarrow>
     (rn_revision rn = hr_revision (rn_registry rn) \<longrightarrow>
       (\<forall>scope operation chain. operation \<in> set OPERATIONS \<longrightarrow> jm_get (rn_plans rn) (plan_key scope operation) = Some chain \<longrightarrow>
          chain_for (rn_registry rn) (jm_get (rn_configs rn) scope) operation = Inr chain)) \<and>
     rn_revision rn \<le> hr_revision (rn_registry rn)"

lemma invalidate_get: "jm_get (rn_plans (invalidateScope scope rn)) key =
    (if key \<in> plan_key scope ` set OPERATIONS then None else jm_get (rn_plans rn) key)"
proof -
  have "jm_get (foldl (\<lambda>m operation. jm_del (plan_key scope operation) m) m ops) key =
      (if key \<in> plan_key scope ` set ops then None else jm_get m key)" for m :: "(string, 'a hook list) jmap" and ops
    by (induction ops arbitrary: m) auto
  then show ?thesis by (simp add: invalidateScope_def)
qed

lemma invalidate_same: "rn_registry (invalidateScope scope rn) = rn_registry rn" "rn_configs (invalidateScope scope rn) = rn_configs rn"
  "rn_revision (invalidateScope scope rn) = rn_revision rn"
  by (simp_all add: invalidateScope_def)

lemma cache_ok_config:
  assumes "cache_ok rn" "\<And>scope. scope \<noteq> key \<Longrightarrow> jm_get configs scope = jm_get (rn_configs rn) scope"
  shows "cache_ok (invalidateScope key (rn\<lparr>rn_configs := configs\<rparr>))"
  unfolding cache_ok_def invalidate_same invalidate_get
proof (intro conjI impI allI)
  fix scope operation chain
  assume rev: "rn_revision (rn\<lparr>rn_configs := configs\<rparr>) = hr_revision (rn_registry (rn\<lparr>rn_configs := configs\<rparr>))"
    and op: "operation \<in> set OPERATIONS"
    and get: "(if plan_key scope operation \<in> plan_key key ` set OPERATIONS then None
      else jm_get (rn_plans (rn\<lparr>rn_configs := configs\<rparr>)) (plan_key scope operation)) = Some chain"
  then have "plan_key scope operation \<notin> plan_key key ` set OPERATIONS" by (auto split: if_splits)
  then have "scope \<noteq> key" using op by auto
  then show "chain_for (rn_registry (rn\<lparr>rn_configs := configs\<rparr>)) (jm_get (rn_configs (rn\<lparr>rn_configs := configs\<rparr>)) scope) operation = Inr chain"
    using assms rev op get by (simp add: cache_ok_def split: if_splits)
qed (use assms(1) in \<open>simp add: cache_ok_def\<close>)

lemma starts_with_longer: "starts_with p s \<Longrightarrow> starts_with p (s @ t)"
proof -
  assume "starts_with p s"
  then have t: "take (length p) s = p" by (simp add: starts_with_def)
  then have "length p \<le> length s" by (metis length_take min.cobounded1)
  then show ?thesis using t by (simp add: starts_with_def)
qed

lemma map_of_filter_key: "map_of (filter (\<lambda>(k, v). P k) m) k = (if P k then map_of m k else None)"
  by (induction m) auto

lemma runner_onChange_ok: "cache_ok rn \<Longrightarrow> runner_onChange change rn = Inr rn' \<Longrightarrow> cache_ok rn'"
proof (cases change)
  case (MetaChange database collection meta)
  assume ok: "cache_ok rn" and step: "runner_onChange change rn = Inr rn'"
  obtain config where config: "normalizeObjectHooksMeta (jprop meta ''hooks'') = Inr config"
    using step MetaChange by (cases "normalizeObjectHooksMeta (jprop meta ''hooks'')") auto
  show ?thesis
    using step MetaChange config cache_ok_config [OF ok, of "scopeKey database collection"]
    by (auto simp: Let_def split: option.splits)
next
  case (DropCollection database collection)
  assume ok: "cache_ok rn" and step: "runner_onChange change rn = Inr rn'"
  then show ?thesis using DropCollection cache_ok_config [OF ok, of "scopeKey database collection"] by (auto simp: Let_def)
next
  case (DropDatabase database)
  assume ok: "cache_ok rn" and step: "runner_onChange change rn = Inr rn'"
  have rn': "rn' = rn\<lparr>rn_configs := filter (\<lambda>(key, c). \<not> starts_with (database @ [char_of (0 :: nat)]) key) (rn_configs rn),
      rn_plans := filter (\<lambda>(key, p). \<not> starts_with (database @ [char_of (0 :: nat)]) key) (rn_plans rn)\<rparr>"
    using step DropDatabase by (simp add: Let_def)
  show ?thesis unfolding rn' cache_ok_def
    using ok starts_with_longer by (auto simp: cache_ok_def map_of_filter_key plan_key_def split: if_splits)
next
  case OtherChange
  assume ok: "cache_ok rn" and step: "runner_onChange change rn = Inr rn'"
  then show ?thesis using OtherChange by simp
qed

lemma runner_register_ok: "cache_ok rn \<Longrightarrow> runner_register h name handler operations accepts rn = Inr rn' \<Longrightarrow> cache_ok rn'"
proof -
  assume ok: "cache_ok rn" and step: "runner_register h name handler operations accepts rn = Inr rn'"
  then obtain reg where reg: "register h name handler operations accepts (rn_registry rn) = Inr reg" "rn' = rn\<lparr>rn_registry := reg\<rparr>"
    by (cases "register h name handler operations accepts (rn_registry rn)") (auto simp: runner_register_def)
  have "hr_revision reg = hr_revision (rn_registry rn) + 1"
    using reg(1) by (cases "normalizeName name ''hook name''"; cases "normalizeOperations h operations")
      (auto simp: register_def split: if_splits)
  then show ?thesis using ok reg(2) by (simp add: cache_ok_def)
qed

text \<open>The plan without a cache.\<close>

definition plan_of :: "string \<Rightarrow> string \<Rightarrow> string \<Rightarrow> 'c runner \<Rightarrow> hook_error + 'c hook list" where
  "plan_of database collection operation rn =
     (if hr_definitions (rn_registry rn) = [] then Inr []
      else if rn_revision rn \<noteq> hr_revision (rn_registry rn)
      then res_bind (recheck (rn_registry rn) (jm_vals (rn_configs rn)))
        (\<lambda>u. chain_for (rn_registry rn) (jm_get (rn_configs rn) (scopeKey database collection)) operation)
      else chain_for (rn_registry rn) (jm_get (rn_configs rn) (scopeKey database collection)) operation)"

lemma runner_plan_exact:
  assumes ok: "cache_ok rn" and op: "operation \<in> set OPERATIONS"
    and plan: "runner_plan database collection operation rn = (out, rn')"
  shows "out = plan_of database collection operation rn \<and> cache_ok rn' \<and> rn_registry rn' = rn_registry rn \<and> rn_configs rn' = rn_configs rn"
proof (cases "hr_definitions (rn_registry rn) = []")
  case True
  then show ?thesis using plan ok by (auto simp: runner_plan_def plan_of_def)
next
  case False
  define changed where "changed = (rn_revision rn \<noteq> hr_revision (rn_registry rn))"
  define rn1 where "rn1 = (if changed then rn\<lparr>rn_revision := hr_revision (rn_registry rn), rn_plans := []\<rparr> else rn)"
  define chk where "chk = (if changed then recheck (rn_registry rn) (jm_vals (rn_configs rn)) else Inr ())"
  define scope where "scope = scopeKey database collection"
  define spec where "spec = chain_for (rn_registry rn) (jm_get (rn_configs rn) scope) operation"
  have spec: "plan_of database collection operation rn = res_bind chk (\<lambda>u. spec)"
    using False by (cases changed) (simp_all add: plan_of_def changed_def chk_def spec_def scope_def)
  have rn1: "cache_ok rn1" "rn_registry rn1 = rn_registry rn" "rn_configs rn1 = rn_configs rn"
    "rn_revision rn1 = hr_revision (rn_registry rn)"
    using ok by (auto simp: rn1_def cache_ok_def changed_def)
  have step: "(case chk of
      Inl e \<Rightarrow> (Inl e, rn1)
    | Inr u \<Rightarrow> (case jm_get (rn_plans rn1) (plan_key scope operation) of
         Some chain \<Rightarrow> (Inr chain, rn1)
       | None \<Rightarrow> (case spec of Inl e \<Rightarrow> (Inl e, rn1)
           | Inr chain \<Rightarrow> (Inr chain, rn1\<lparr>rn_plans := jm_set (plan_key scope operation) chain (rn_plans rn1)\<rparr>)))) = (out, rn')"
    using plan False unfolding runner_plan_def Let_def changed_def [symmetric] rn1_def [symmetric] chk_def [symmetric]
      scope_def [symmetric] spec_def [symmetric] by simp
  show ?thesis
  proof (cases chk)
    case (Inl e)
    then show ?thesis using step spec rn1 by auto
  next
    case (Inr u)
    show ?thesis
    proof (cases "jm_get (rn_plans rn1) (plan_key scope operation)")
      case (Some chain)
      then have "spec = Inr chain" using rn1 op unfolding cache_ok_def spec_def by metis
      then show ?thesis using step spec rn1 Inr Some by auto
    next
      case None
      show ?thesis
      proof (cases spec)
        case (Inl e)
        then show ?thesis using step spec rn1 Inr None by auto
      next
        case sp: (Inr chain)
        have rn': "rn' = rn1\<lparr>rn_plans := jm_set (plan_key scope operation) chain (rn_plans rn1)\<rparr>" "out = Inr chain"
          using step Inr None sp by auto
        have "cache_ok rn'" unfolding cache_ok_def rn'(1)
        proof (intro conjI impI allI)
          fix sc op' ch
          assume o': "op' \<in> set OPERATIONS"
            and get: "jm_get (rn_plans (rn1\<lparr>rn_plans := jm_set (plan_key scope operation) chain (rn_plans rn1)\<rparr>)) (plan_key sc op') = Some ch"
          show "chain_for (rn_registry (rn1\<lparr>rn_plans := jm_set (plan_key scope operation) chain (rn_plans rn1)\<rparr>))
              (jm_get (rn_configs (rn1\<lparr>rn_plans := jm_set (plan_key scope operation) chain (rn_plans rn1)\<rparr>)) sc) op' = Inr ch"
          proof (cases "plan_key sc op' = plan_key scope operation")
            case True
            then have "sc = scope" "op' = operation" using plan_key_inj o' op by blast+
            then show ?thesis using get sp rn1 by (simp add: spec_def)
          next
            case False
            then show ?thesis using get o' rn1 by (simp add: cache_ok_def)
          qed
        qed (use rn1 in \<open>simp add: cache_ok_def\<close>)
        then show ?thesis using rn' rn1 spec Inr sp by simp
      qed
    qed
  qed
qed

text \<open>Runs of a runner.\<close>

inductive runner_reachable :: "'c runner \<Rightarrow> bool" where
  start: "newRunner existing reg = Inr rn \<Longrightarrow> runner_reachable rn"
| change: "runner_reachable rn \<Longrightarrow> runner_onChange change rn = Inr rn' \<Longrightarrow> runner_reachable rn'"
| registered: "runner_reachable rn \<Longrightarrow> runner_register h name handler operations accepts rn = Inr rn' \<Longrightarrow> runner_reachable rn'"
| planned: "runner_reachable rn \<Longrightarrow> operation \<in> set OPERATIONS \<Longrightarrow> runner_plan database collection operation rn = (out, rn') \<Longrightarrow>
    runner_reachable rn'"
| disposed: "runner_reachable rn \<Longrightarrow> runner_reachable (runner_dispose rn)"

lemma reachable_cache_ok: "runner_reachable rn \<Longrightarrow> cache_ok rn"
proof (induction rule: runner_reachable.induct)
  case (start existing reg rn)
  then show ?case by (cases "load_configs reg existing []") (auto simp: newRunner_def cache_ok_def)
next
  case (change rn change rn')
  then show ?case using runner_onChange_ok by blast
next
  case (registered rn h name handler operations accepts rn')
  then show ?case using runner_register_ok by blast
next
  case (planned rn operation database collection out rn')
  then show ?case using runner_plan_exact by blast
next
  case (disposed rn)
  then show ?case by (simp add: runner_dispose_def cache_ok_def)
qed

text \<open>C32: A cached plan is never stale: in every state a runner can reach, by registrations, metadata changes, drops and plans in
any order, the chain it returns for an operation is the one the registry and the collection's present configuration give.\<close>

theorem hook_plan_never_stale:
  assumes "runner_reachable rn" "operation \<in> set OPERATIONS"
  shows "fst (runner_plan database collection operation rn) = plan_of database collection operation rn"
  using runner_plan_exact [OF reachable_cache_ok [OF assms(1)] assms(2)]
  by (cases "runner_plan database collection operation rn") simp

text \<open>After a plan has been cached, a change of the metadata switches the hook off.\<close>

theorem hook_plan_never_stale_witness:
  "\<exists>rn :: unit runner. runner_reachable rn \<and>
     map hk_name (projr (fst (runner_plan ''d'' ''c'' ''create'' rn))) = [''audit''] \<and>
     (\<exists>rn'. runner_onChange (MetaChange ''d'' ''c'' (JObj [])) (snd (runner_plan ''d'' ''c'' ''create'' rn)) = Inr rn' \<and>
        fst (runner_plan ''d'' ''c'' ''create'' rn') = Inr [])"
proof -
  define reg :: "unit registry" where "reg = projr (register plain_host (JStr ''audit'') (\<lambda>c. CallNext c Return) JUndef None createObjectHookRegistry)"
  have reg: "reg = \<lparr>hr_definitions = [(''audit'', \<lparr>hk_name = ''audit'', hk_operations = OPERATIONS, hk_accepts = None,
      hk_handler = (\<lambda>c. CallNext c Return)\<rparr>)], hr_revision = 1\<rparr>"
  proof -
    have "normalizeName (JStr ''audit'') ''hook name'' = Inr ''audit''" by code_simp
    then show ?thesis by (simp add: reg_def register_def createObjectHookRegistry_def normalizeOperations_def)
  qed
  define rn :: "unit runner" where "rn = \<lparr>rn_registry = reg, rn_configs = [(scopeKey ''d'' ''c'', \<lparr>hc_enabled = True, hc_names = [(''use'', [''audit''])]\<rparr>)],
    rn_plans = [], rn_revision = 1\<rparr>"
  define meta where "meta = JObj [(''hooks'', JObj [(''use'', JArr [JStr ''audit''])])]"
  have norm: "normalizeObjectHooksMeta (jprop meta ''hooks'') = Inr (Some \<lparr>hc_enabled = True, hc_names = [(''use'', [''audit''])]\<rparr>)"
    unfolding meta_def by code_simp
  have names: "configuredNames \<lparr>hc_enabled = True, hc_names = [(''use'', [''audit''])]\<rparr> = [''audit'']" by code_simp
  have "newRunner [(''d'', ''c'', meta)] reg = Inr rn"
    using norm names by (simp add: newRunner_def validateMeta_def hook_get_def reg rn_def names_for_def OPERATIONS_def)
  then have reach: "runner_reachable rn" by (rule runner_reachable.start)
  have empty: "normalizeObjectHooksMeta JUndef = Inr None" by (simp add: normalizeObjectHooksMeta_def nullish_def)
  have ops: "''create'' \<in> set OPERATIONS" by (simp add: OPERATIONS_def)
  have one: "fst (runner_plan ''d'' ''c'' ''create'' rn) = plan_of ''d'' ''c'' ''create'' rn"
    by (rule hook_plan_never_stale [OF reach ops])
  have first: "map hk_name (projr (plan_of ''d'' ''c'' ''create'' rn)) = [''audit'']"
    using ops by (simp add: plan_of_def rn_def reg chain_for_def names_for_def hook_get_def)
  define rn1 where "rn1 = snd (runner_plan ''d'' ''c'' ''create'' rn)"
  have rn1: "runner_plan ''d'' ''c'' ''create'' rn = (fst (runner_plan ''d'' ''c'' ''create'' rn), rn1)" by (simp add: rn1_def)
  have reach1: "runner_reachable rn1" by (rule runner_reachable.planned [OF reach ops rn1])
  have same: "rn_configs rn1 = rn_configs rn" "rn_registry rn1 = rn_registry rn"
    using runner_plan_exact [OF reachable_cache_ok [OF reach] ops rn1] by simp_all
  obtain rn2 where rn2: "runner_onChange (MetaChange ''d'' ''c'' (JObj [])) rn1 = Inr rn2"
    using empty by (simp add: oget_def Let_def)
  have reach2: "runner_reachable rn2" by (rule runner_reachable.change [OF reach1 rn2])
  have conf: "jm_get (rn_configs rn2) (scopeKey ''d'' ''c'') = None"
    using rn2 empty by (auto simp: oget_def Let_def invalidate_same)
  have "rn_registry rn2 = reg" "rn_configs rn2 = []"
    using rn2 empty same by (auto simp: oget_def Let_def invalidate_same rn_def)
  then have "plan_of ''d'' ''c'' ''create'' rn2 = Inr []"
    by (simp add: plan_of_def chain_for_def)
  then have "fst (runner_plan ''d'' ''c'' ''create'' rn2) = Inr []" using hook_plan_never_stale [OF reach2 ops] by simp
  then show ?thesis using reach one first rn2 unfolding rn1_def by metis
qed

end
