(* ===== verification/Collection.thy ===== *)
theory Collection
  imports ObjectStore ShapeStore RidQueue QueryPlan Clock Hooks
begin

text \<open>
  The state of \<open>Collection\<close> in src/src/store.js and its writes: rows by id with their timestamps, tombstones, row numbers and
  shards; the physical store; the field indexes, columns and their builds; the rows whose index entries are out of date; vectors; the
  parts of rows kept compressed. An operation takes the state and returns it changed.

  A value that is written is an object or falsy. A row number is a natural number. The compression adapter, UTF-8 and JSON parsing are
  the host's. The graph indexes of vectors (hnsw.js), the scheduler's promises and the statistics are not part of this state: a job of
  the scheduler is a function of its own, to be run at any time.
\<close>

subsection \<open>Metadata of a collection\<close>

datatype meta_error =
    MetaNotObject
  | TieringNotObject
  | TieringMode
  | TieringBoth
  | IndexListNotArray string
  | IndexEntry string
  | HooksRejected hook_error

record tier_spec =
  ti_keep :: "string list"
  ti_offload :: "string list"
  ti_minBytes :: jsnum

record coll_meta =
  cm_extra :: jobj
  cm_indexes :: "string list"
  cm_columns :: "string list"
  cm_tiering :: "tier_spec option"
  cm_hooks :: "hook_config option"

definition index_entry :: "string \<Rightarrow> jsv \<Rightarrow> meta_error + string" where
  "index_entry label entry =
     (case entry of
        JStr s \<Rightarrow> Inr s
      | _ \<Rightarrow> (case jprop entry ''path'' of JStr s \<Rightarrow> Inr s | _ \<Rightarrow> Inl (IndexEntry label)))"

definition normalizeIndexList :: "jsv \<Rightarrow> string \<Rightarrow> meta_error + string list" where
  "normalizeIndexList v label =
     (if nullish v then Inr []
      else (case v of
              JArr xs \<Rightarrow>
                res_bind (res_map (index_entry label) xs)
                  (\<lambda>paths. Inr (js_unique (filter (\<lambda>p. p \<noteq> []) (map js_trim paths))))
            | _ \<Rightarrow> Inl (IndexListNotArray label)))"

text \<open>\<open>Math.max(0, Math.floor(Number(x) || 0))\<close>.\<close>

definition floor_bytes :: "jsnum \<Rightarrow> jsnum" where
  "floor_bytes n = (case n of Fin r \<Rightarrow> Fin (of_int (max 0 \<lfloor>r\<rfloor>)) | PInf \<Rightarrow> PInf | _ \<Rightarrow> Fin 0)"

definition normalizeTieringMeta :: "host \<Rightarrow> jsv \<Rightarrow> meta_error + tier_spec option" where
  "normalizeTieringMeta h v =
     (if nullish v \<or> v = JBool False then Inr None
      else (case v of
              JObj kvs \<Rightarrow>
                let mode = (case oget kvs ''mode'' of JUndef \<Rightarrow> ''compressedMemory'' | m \<Rightarrow> js_to_string h m)
                in if mode = ''off'' then Inr None
                   else if mode \<noteq> ''compressedMemory'' then Inl TieringMode
                   else res_bind (normalizeIndexList (oget kvs ''keep'') ''tiering.keep'') (\<lambda>keep.
                        res_bind (normalizeIndexList (oget kvs ''offload'') ''tiering.offload'') (\<lambda>offload.
                          if keep \<noteq> [] \<and> offload \<noteq> [] then Inl TieringBoth
                          else Inr (Some \<lparr>ti_keep = keep, ti_offload = offload,
                                          ti_minBytes = (if nullish (oget kvs ''minBytes'') then num_of_nat 4096
                                                         else floor_bytes (js_to_number h (oget kvs ''minBytes'')))\<rparr>)))
            | _ \<Rightarrow> Inl TieringNotObject))"

definition normalizeCollectionMeta :: "host \<Rightarrow> jsv \<Rightarrow> meta_error + coll_meta" where
  "normalizeCollectionMeta h meta =
     (case meta of
        JObj kvs \<Rightarrow>
          res_bind (normalizeIndexList (oget kvs ''indexes'') ''indexes'') (\<lambda>indexes.
          res_bind (normalizeIndexList (oget kvs ''columns'') ''columns'') (\<lambda>columns.
          res_bind (normalizeTieringMeta h (oget kvs ''tiering'')) (\<lambda>tiering.
          res_bind (case normalizeObjectHooksMeta (oget kvs ''hooks'') of Inl e \<Rightarrow> Inl (HooksRejected e) | Inr c \<Rightarrow> Inr c) (\<lambda>hooks.
            Inr \<lparr>cm_extra = filter (\<lambda>(k, v). k \<notin> {''columnIndexes'', ''tiering'', ''hooks'', ''indexes'', ''columns''}) (entries_of (json_clone meta)),
                 cm_indexes = indexes, cm_columns = columns, cm_tiering = tiering, cm_hooks = hooks\<rparr>))))
      | _ \<Rightarrow> Inl MetaNotObject)"

text \<open>The metadata of a new collection.\<close>

definition emptyMeta :: coll_meta where
  "emptyMeta = \<lparr>cm_extra = [], cm_indexes = [], cm_columns = [], cm_tiering = None, cm_hooks = None\<rparr>"

subsection \<open>Hot and cold parts of a row\<close>

definition isRemovableEmptyObject :: "jsv \<Rightarrow> bool" where
  "isRemovableEmptyObject v \<longleftrightarrow> v = JObj []"

definition or_empty :: "jsv \<Rightarrow> jsv" where
  "or_empty v = (if truthy v then v else JObj [])"

definition splitTieredValue :: "jsv \<Rightarrow> tier_spec \<Rightarrow> string list \<Rightarrow> jsv \<times> jsv option" where
  "splitTieredValue v tiering forcedHotPaths =
     (if \<not> is_obj v then (or_empty v, None)
      else let forced = js_unique forcedHotPaths in
        if ti_keep tiering \<noteq> []
        then let hotPaths = js_unique (ti_keep tiering @ forced);
                 hot = pickPaths v hotPaths;
                 cold = unsetPaths v hotPaths
             in if isRemovableEmptyObject cold then (v, None) else (hot, Some cold)
        else if ti_offload tiering = [] then (v, None)
        else let hot = unsetPaths v (ti_offload tiering);
                 cold = pickPaths v (ti_offload tiering);
                 (hot', cold') = foldl (\<lambda>(hot, cold) path.
                   let current = getPathValue v path in
                   if current = JUndef then (hot, cold) else (setPath hot path (json_clone current), unsetPath cold path))
                   (hot, cold) forced
             in if isRemovableEmptyObject cold' then (v, None) else (hot', Some cold'))"

definition queryObjectFromStoredValue :: "string \<Rightarrow> jsv \<Rightarrow> jsv" where
  "queryObjectFromStoredValue key v = JObj (jm_del ''_id'' (entries_of v) @ [(''_id'', JStr key)])"

definition normalizeShard :: "jsv \<Rightarrow> string option" where
  "normalizeShard v = (case v of JStr s \<Rightarrow> if s = [] then None else Some s | _ \<Rightarrow> None)"

subsection \<open>The physical store\<close>

datatype phys = ObjectEngine "string ostore" | ShapeEngine "string sstore"

text \<open>\<open>createPhysicalStore\<close>: \<open>None\<close> is an unsupported engine, at which it throws.\<close>

definition createPhysicalStore :: "host \<Rightarrow> jobj \<Rightarrow> phys option" where
  "createPhysicalStore h options =
     (let engine = (if truthy (oget options ''engine'') then oget options ''engine'' else JStr ''object'') in
      if engine = JStr ''shape'' then Some (ShapeEngine newShapeStore)
      else if engine = JStr ''object'' then Some (ObjectEngine (newObjectRowStore h (entries_of (oget options ''object''))))
      else None)"

fun ph_rebuild :: "host \<Rightarrow> bool \<Rightarrow> phys \<Rightarrow> string \<Rightarrow> jobj \<Rightarrow> phys" where
  "ph_rebuild h trusted (ObjectEngine s) k live = ObjectEngine (os_rebuild h trusted s k live)"
| "ph_rebuild h trusted (ShapeEngine s) k live = ShapeEngine (ss_rebuild h s k live)"

fun ph_remove :: "host \<Rightarrow> phys \<Rightarrow> string \<Rightarrow> phys" where
  "ph_remove h (ObjectEngine s) k = ObjectEngine (os_removeObject s k)"
| "ph_remove h (ShapeEngine s) k = ShapeEngine (ss_removeObject h s k)"

fun ph_clear :: "phys \<Rightarrow> phys" where
  "ph_clear (ObjectEngine s) = ObjectEngine (os_clear s)"
| "ph_clear (ShapeEngine s) = ShapeEngine (ss_clear s)"

fun ph_read :: "phys \<Rightarrow> string \<Rightarrow> jobj option" where
  "ph_read (ObjectEngine s) k = os_read s k"
| "ph_read (ShapeEngine s) k = ss_read s k"

subsection \<open>The state\<close>

record obj_meta =
  om_ts :: "ts option"
  om_deleted :: "ts option"
  om_rid :: nat
  om_shard :: "string option"

text \<open>A change a build of an index has not seen: the indexed value before and after, \<open>None\<close> where there is no row.\<close>

record field_build =
  fb_id :: nat
  fb_building :: bool
  fb_pending :: "(nat, jsv option \<times> jsv option) jmap"

record cold_entry =
  ce_bytes :: nat
  ce_packed :: "nat list"

record totals =
  tt_objects :: int
  tt_raw :: int
  tt_packed :: int

record coll =
  cl_disposed :: bool
  cl_vectorField :: "string option"
  cl_store :: phys
  cl_vectors :: "(string, jsnum list) jmap"
  cl_meta :: "(string, obj_meta) jmap"
  cl_idByRid :: "string list"
  cl_indexes :: "(string, findex) jmap"
  cl_fieldBuilds :: "(string, field_build) jmap"
  cl_columns :: "(string, tcol) jmap"
  cl_columnBuilds :: nat
  cl_dirty :: rid_queue
  cl_dirtyBuild :: bool
  cl_buildPending :: bool
  cl_shardIds :: "(string, nat) bag"
  cl_unsharded :: nat
  cl_cold :: "(nat, cold_entry) jmap"
  cl_totals :: totals
  cl_cmeta :: coll_meta
  cl_liveCount :: int
  cl_nextBuild :: nat

definition emptyCompressionTotals :: totals where
  "emptyCompressionTotals = \<lparr>tt_objects = 0, tt_raw = 0, tt_packed = 0\<rparr>"

definition newCollection :: "phys \<Rightarrow> string option \<Rightarrow> coll" where
  "newCollection store vectorField =
     \<lparr>cl_disposed = False, cl_vectorField = vectorField, cl_store = store, cl_vectors = [], cl_meta = [], cl_idByRid = [],
      cl_indexes = [], cl_fieldBuilds = [], cl_columns = [], cl_columnBuilds = 0, cl_dirty = newRidQueue, cl_dirtyBuild = False, cl_buildPending = False,
      cl_shardIds = [], cl_unsharded = 0, cl_cold = [], cl_totals = emptyCompressionTotals, cl_cmeta = emptyMeta,
      cl_liveCount = 0, cl_nextBuild = 0\<rparr>"

definition allocateRid :: "string \<Rightarrow> coll \<Rightarrow> nat \<times> coll" where
  "allocateRid key c = (length (cl_idByRid c), c\<lparr>cl_idByRid := cl_idByRid c @ [key]\<rparr>)"

definition ensureMeta :: "string \<Rightarrow> coll \<Rightarrow> obj_meta \<times> coll" where
  "ensureMeta key c =
     (case jm_get (cl_meta c) key of
        Some m \<Rightarrow> (m, c)
      | None \<Rightarrow>
          (case allocateRid key c of
             (rid, c1) \<Rightarrow>
               let m = \<lparr>om_ts = None, om_deleted = None, om_rid = rid, om_shard = None\<rparr>
               in (m, c1\<lparr>cl_meta := jm_set key m (cl_meta c1)\<rparr>)))"

definition ridForId :: "coll \<Rightarrow> string \<Rightarrow> nat option" where
  "ridForId c key = map_option om_rid (jm_get (cl_meta c) key)"

definition idForRid :: "coll \<Rightarrow> nat \<Rightarrow> string option" where
  "idForRid c rid = (if rid < length (cl_idByRid c) then Some (cl_idByRid c ! rid) else None)"

definition c_has :: "coll \<Rightarrow> string \<Rightarrow> bool" where
  "c_has c key = (case jm_get (cl_meta c) key of None \<Rightarrow> False | Some m \<Rightarrow> om_deleted m = None)"

definition liveRids :: "coll \<Rightarrow> nat list" where
  "liveRids c = map (om_rid \<circ> snd) (filter (\<lambda>(key, m). om_deleted m = None) (cl_meta c))"

subsection \<open>Reading a row\<close>

definition hydrateCompressedCold :: "host \<Rightarrow> coll \<Rightarrow> jsv \<Rightarrow> nat \<Rightarrow> jsv" where
  "hydrateCompressedCold h c v rid =
     (case jm_get (cl_cold c) rid of
        None \<Rightarrow> or_empty v
      | Some entry \<Rightarrow> mergePlainObjects (jsonParse h (decodeUtf8 h (decompress h (ce_packed entry)))) (or_empty v))"

definition hydrateColumns :: "coll \<Rightarrow> jsv \<Rightarrow> nat \<Rightarrow> string \<Rightarrow> jsv" where
  "hydrateColumns c v rid key =
     (let out = JObj (jm_set ''_id'' (JStr key) (entries_of v)) in
      if rq_has (cl_dirty c) rid then out
      else foldl (\<lambda>out (path, col). if hasValue col rid then setPath out path (valueFor col rid) else out) out (cl_columns c))"

definition hydrateStoredValue :: "host \<Rightarrow> coll \<Rightarrow> jsv \<Rightarrow> nat \<Rightarrow> string \<Rightarrow> jsv" where
  "hydrateStoredValue h c v rid key = hydrateColumns c (hydrateCompressedCold h c v rid) rid key"

definition c_readForQuery :: "host \<Rightarrow> coll \<Rightarrow> string \<Rightarrow> jsv option" where
  "c_readForQuery h c key =
     (case jm_get (cl_meta c) key of
        None \<Rightarrow> None
      | Some m \<Rightarrow>
          if om_deleted m \<noteq> None then None
          else Some (hydrateStoredValue h c (JObj (case ph_read (cl_store c) key of None \<Rightarrow> [] | Some row \<Rightarrow> row)) (om_rid m) key))"

definition readRidForQuery :: "host \<Rightarrow> coll \<Rightarrow> nat \<Rightarrow> jsv option" where
  "readRidForQuery h c rid = (case idForRid c rid of None \<Rightarrow> None | Some key \<Rightarrow> c_readForQuery h c key)"

subsection \<open>Vectors\<close>

datatype coll_error = BadVector

definition isValidVector :: "jsv \<Rightarrow> bool" where
  "isValidVector v =
     (case v of JArr xs \<Rightarrow> xs \<noteq> [] \<and> list_all (\<lambda>x. case x of JNum n \<Rightarrow> num_finite n | _ \<Rightarrow> False) xs | _ \<Rightarrow> False)"

definition cloneVector :: "jsv \<Rightarrow> jsnum list option" where
  "cloneVector v =
     (if isValidVector v then Some (map (\<lambda>x. case x of JNum n \<Rightarrow> n | _ \<Rightarrow> NaN) (elems_of v)) else None)"

datatype vector_update = VAbsent | VRemove | VSet "jsnum list"

definition extractVector :: "coll \<Rightarrow> jsv \<Rightarrow> coll_error + jsv \<times> vector_update" where
  "extractVector c v =
     (let source = or_empty v in
      case cl_vectorField c of
        None \<Rightarrow> Inr (source, VAbsent)
      | Some field \<Rightarrow>
          (case jm_get (entries_of source) field of
             None \<Rightarrow> Inr (source, VAbsent)
           | Some raw \<Rightarrow>
               let rest = JObj (jm_del field (entries_of source)) in
               if raw = JNull then Inr (rest, VRemove)
               else (case cloneVector raw of None \<Rightarrow> Inl BadVector | Some vec \<Rightarrow> Inr (rest, VSet vec))))"

definition prepareStoredValue :: "coll \<Rightarrow> jsv \<Rightarrow> coll_error + jsv \<times> vector_update" where
  "prepareStoredValue c v = extractVector c v"

definition validateWriteValue :: "coll \<Rightarrow> jsv \<Rightarrow> coll_error + jsv" where
  "validateWriteValue c v = res_bind (extractVector c v) (\<lambda>p. Inr v)"

definition getVector :: "coll \<Rightarrow> string \<Rightarrow> jsnum list option" where
  "getVector c key = jm_get (cl_vectors c) key"

definition preserveVector :: "coll \<Rightarrow> string \<Rightarrow> jsv \<Rightarrow> jsv" where
  "preserveVector c key v =
     (case cl_vectorField c of
        None \<Rightarrow> v
      | Some field \<Rightarrow>
          if jm_has (entries_of v) field then v
          else (case getVector c key of
                  None \<Rightarrow> v
                | Some vec \<Rightarrow> JObj (jm_set field (JArr (map JNum vec)) (entries_of v))))"

definition setVector :: "string \<Rightarrow> jsnum list \<Rightarrow> coll \<Rightarrow> coll" where
  "setVector key vec c = c\<lparr>cl_vectors := jm_set key vec (cl_vectors c)\<rparr>"

definition removeVector :: "string \<Rightarrow> coll \<Rightarrow> coll" where
  "removeVector key c = c\<lparr>cl_vectors := jm_del key (cl_vectors c)\<rparr>"

definition applyVectorUpdate :: "string \<Rightarrow> vector_update \<Rightarrow> coll \<Rightarrow> coll" where
  "applyVectorUpdate key update c =
     (if cl_vectorField c = None then c
      else (case update of VSet vec \<Rightarrow> setVector key vec c | _ \<Rightarrow> removeVector key c))"

subsection \<open>Writing the base value\<close>

definition baseValueForStorage :: "coll \<Rightarrow> jsv \<Rightarrow> string list option \<Rightarrow> jsv" where
  "baseValueForStorage c v paths =
     (case paths of
        Some ps \<Rightarrow> foldl unsetPath (or_empty v) ps
      | None \<Rightarrow> foldl (\<lambda>base (path, column). if col_ready column then unsetPath base path else base) (or_empty v) (cl_columns c))"

definition forcedHotTieringPaths :: "coll \<Rightarrow> string list" where
  "forcedHotTieringPaths c = js_unique (cm_indexes (cl_cmeta c) @ cm_columns (cl_cmeta c))"

definition setCompressedCold :: "nat \<Rightarrow> cold_entry option \<Rightarrow> coll \<Rightarrow> coll" where
  "setCompressedCold rid entry c =
     (let previous = jm_get (cl_cold c) rid;
          t0 = cl_totals c;
          t1 = (case previous of None \<Rightarrow> t0
                | Some p \<Rightarrow> \<lparr>tt_objects = tt_objects t0 - 1, tt_raw = tt_raw t0 - int (ce_bytes p),
                            tt_packed = tt_packed t0 - int (length (ce_packed p))\<rparr>);
          t2 = (case entry of None \<Rightarrow> t1
                | Some e \<Rightarrow> \<lparr>tt_objects = tt_objects t1 + 1, tt_raw = tt_raw t1 + int (ce_bytes e),
                            tt_packed = tt_packed t1 + int (length (ce_packed e))\<rparr>)
      in if previous = None \<and> entry = None then c
         else c\<lparr>cl_cold := (case entry of None \<Rightarrow> jm_del rid (cl_cold c) | Some e \<Rightarrow> jm_set rid e (cl_cold c)), cl_totals := t2\<rparr>)"

definition clearCompressedCold :: "nat \<Rightarrow> coll \<Rightarrow> coll" where
  "clearCompressedCold rid c = setCompressedCold rid None c"

definition tierBaseValue :: "host \<Rightarrow> nat \<Rightarrow> jsv \<Rightarrow> coll \<Rightarrow> jsv \<times> coll" where
  "tierBaseValue h rid v c =
     (case cm_tiering (cl_cmeta c) of
        None \<Rightarrow> (or_empty v, clearCompressedCold rid c)
      | Some tiering \<Rightarrow>
          (case splitTieredValue (or_empty v) tiering (forcedHotTieringPaths c) of
             (hot, None) \<Rightarrow> (or_empty v, clearCompressedCold rid c)
           | (hot, Some cold) \<Rightarrow>
               let encoded = encodeUtf8 h (shown (json_stringify h cold)) in
               if num_lt (num_of_nat (length encoded)) (ti_minBytes tiering) then (or_empty v, clearCompressedCold rid c)
               else (hot, setCompressedCold rid (Some \<lparr>ce_bytes = length encoded, ce_packed = compress h encoded\<rparr>) c)))"

definition writeBaseValue :: "host \<Rightarrow> string \<Rightarrow> nat \<Rightarrow> jsv \<Rightarrow> bool \<Rightarrow> coll \<Rightarrow> coll" where
  "writeBaseValue h key rid v trusted c =
     (case tierBaseValue h rid v c of
        (base, c1) \<Rightarrow>
          c1\<lparr>cl_store := ph_rebuild h trusted (cl_store c1) key (filter (\<lambda>(field, x). field \<noteq> ''_id'') (entries_of base))\<rparr>)"

definition rewriteBaseValueForColumns :: "host \<Rightarrow> nat \<Rightarrow> jsv \<Rightarrow> string list option \<Rightarrow> coll \<Rightarrow> coll" where
  "rewriteBaseValueForColumns h rid object paths c =
     (case idForRid c rid of
        None \<Rightarrow> c
      | Some key \<Rightarrow>
          writeBaseValue h key rid (baseValueForStorage c (JObj (jm_del ''_id'' (entries_of object))) paths) True c)"

subsection \<open>Keeping the indexes up to date\<close>

record index_delta =
  id_rid :: nat
  id_before :: "jsv option"
  id_after :: "jsv option"

definition INDEX_DEFER_MIN_ROWS :: nat where
  "INDEX_DEFER_MIN_ROWS = 5000"

definition hasIndexWork :: "coll \<Rightarrow> bool" where
  "hasIndexWork c \<longleftrightarrow> cl_indexes c \<noteq> [] \<or> cl_columns c \<noteq> [] \<or> cl_fieldBuilds c \<noteq> [] \<or> cl_columnBuilds c \<noteq> 0"

definition shouldDeferIndexDeltasForCount :: "nat \<Rightarrow> coll \<Rightarrow> bool" where
  "shouldDeferIndexDeltasForCount count c \<longleftrightarrow> INDEX_DEFER_MIN_ROWS \<le> count \<and> hasIndexWork c"

definition build_delta :: "index_delta \<Rightarrow> string \<Rightarrow> field_build \<Rightarrow> field_build" where
  "build_delta d path build =
     (if \<not> fb_building build then build
      else build\<lparr>fb_pending := jm_set (id_rid d)
        (case jm_get (fb_pending build) (id_rid d) of
           Some current \<Rightarrow> fst current
         | None \<Rightarrow> map_option (\<lambda>before. getPathValue before path) (id_before d),
         map_option (\<lambda>after. getPathValue after path) (id_after d)) (fb_pending build)\<rparr>)"

definition recordFieldBuildDelta :: "index_delta \<Rightarrow> coll \<Rightarrow> coll" where
  "recordFieldBuildDelta d c = c\<lparr>cl_fieldBuilds := map (\<lambda>(path, build). (path, build_delta d path build)) (cl_fieldBuilds c)\<rparr>"

text \<open>The state of one row in one column.\<close>

definition put_column :: "nat \<Rightarrow> jsv option \<Rightarrow> tcol \<Rightarrow> tcol" where
  "put_column rid object col =
     (case object of
        Some obj \<Rightarrow> updateScalarState rid (columnScalarState (getPathValue obj (co_path col))) col
      | None \<Rightarrow> col_remove rid col)"

definition recordColumnBuildDelta :: "index_delta \<Rightarrow> coll \<Rightarrow> coll" where
  "recordColumnBuildDelta d c =
     c\<lparr>cl_columns := map (\<lambda>(path, col). (path, if co_status col = Building then put_column (id_rid d) (id_after d) col else col)) (cl_columns c)\<rparr>"

definition markIndexDirty :: "index_delta \<Rightarrow> coll \<Rightarrow> coll" where
  "markIndexDirty d c =
     (let c1 = recordColumnBuildDelta d (recordFieldBuildDelta d c) in c1\<lparr>cl_dirty := fst (rq_add (cl_dirty c1) (id_rid d))\<rparr>)"

definition scheduleDirtyIndexCatchup :: "coll \<Rightarrow> coll" where
  "scheduleDirtyIndexCatchup c = (if cl_dirtyBuild c \<or> rq_size (cl_dirty c) = 0 then c else c\<lparr>cl_dirtyBuild := True\<rparr>)"

definition put_index :: "host \<Rightarrow> index_delta \<Rightarrow> findex \<Rightarrow> findex" where
  "put_index h d index =
     (let i1 = (case id_before d of None \<Rightarrow> index | Some before \<Rightarrow> removeValue h (id_rid d) (getPathValue before (fi_path index)) index)
      in case id_after d of None \<Rightarrow> i1 | Some after \<Rightarrow> addValue h (id_rid d) (getPathValue after (fi_path i1)) i1)"

text \<open>The body of the loop of \<open>_applyIndexDeltas\<close>.\<close>

definition apply_delta :: "host \<Rightarrow> coll \<Rightarrow> index_delta \<Rightarrow> coll" where
  "apply_delta h c d =
     (let c1 = recordColumnBuildDelta d (recordFieldBuildDelta d c) in
      if rq_has (cl_dirty c1) (id_rid d) then c1
      else c1\<lparr>cl_indexes := map (\<lambda>(path, index). (path, put_index h d index)) (cl_indexes c1),
              cl_columns := map (\<lambda>(path, col). (path, if co_status col = Building then col else put_column (id_rid d) (id_after d) col))
                (cl_columns c1)\<rparr>)"

definition applyIndexDeltas :: "host \<Rightarrow> index_delta list \<Rightarrow> coll \<Rightarrow> coll" where
  "applyIndexDeltas h deltas c =
     (if deltas = [] then c
      else if shouldDeferIndexDeltasForCount (length deltas) c
      then scheduleDirtyIndexCatchup (foldl (\<lambda>c d. markIndexDirty d c) c deltas)
      else foldl (apply_delta h) c deltas)"

definition refreshColumns :: "host \<Rightarrow> nat \<Rightarrow> jsv option \<Rightarrow> coll \<Rightarrow> coll" where
  "refreshColumns h rid after c = applyIndexDeltas h [\<lparr>id_rid = rid, id_before = None, id_after = after\<rparr>] c"

subsection \<open>Shards\<close>

definition addShardRid :: "nat \<Rightarrow> string option \<Rightarrow> coll \<Rightarrow> coll" where
  "addShardRid rid shard c =
     (case shard of
        None \<Rightarrow> c\<lparr>cl_unsharded := cl_unsharded c + 1\<rparr>
      | Some key \<Rightarrow> c\<lparr>cl_shardIds := bag_add key rid (cl_shardIds c)\<rparr>)"

definition removeShardRid :: "nat \<Rightarrow> string option \<Rightarrow> coll \<Rightarrow> coll" where
  "removeShardRid rid shard c =
     (case shard of
        None \<Rightarrow> c\<lparr>cl_unsharded := cl_unsharded c - 1\<rparr>
      | Some key \<Rightarrow> c\<lparr>cl_shardIds := bag_del key rid (cl_shardIds c)\<rparr>)"

definition idsForShards :: "jsv list \<Rightarrow> coll \<Rightarrow> nat list option" where
  "idsForShards shards c =
     (if 0 < cl_unsharded c then None
      else (case js_unique (List.map_filter normalizeShard shards) of
              [] \<Rightarrow> None
            | [name] \<Rightarrow> Some (bag_get (cl_shardIds c) name)
            | names \<Rightarrow> Some (foldl (\<lambda>rids shard. setUnion rids (bag_get (cl_shardIds c) shard)) [] names)))"

subsection \<open>Writes\<close>

record row_in =
  ri_id :: string
  ri_value :: jsv
  ri_ts :: "ts option"
  ri_shard :: jsv

definition or_shard :: "string option \<Rightarrow> string option \<Rightarrow> string option" where
  "or_shard a b = (case a of None \<Rightarrow> b | Some s \<Rightarrow> a)"

definition was_live :: "obj_meta \<Rightarrow> bool" where
  "was_live m \<longleftrightarrow> om_ts m \<noteq> None \<and> om_deleted m = None"

text \<open>
  \<open>_putObject\<close>: the delta of an accepted write, \<open>None\<close> for one that is refused. The row's place in the metadata is made before
  anything is decided, so it is there when the value is refused too.
\<close>

definition c_putObject :: "host \<Rightarrow> bool \<Rightarrow> bool \<Rightarrow> 'r row_in_scheme \<Rightarrow> coll \<Rightarrow> (coll_error + index_delta option) \<times> coll" where
  "c_putObject h trusted keepColumnFields row c =
     (case ensureMeta (ri_id row) c of
        (m, c1) \<Rightarrow>
          if om_deleted m \<noteq> None \<and> \<not> gt (ri_ts row) (om_deleted m) then (Inr None, c1)
          else
            let wasLive = was_live m;
                previousShard = (if wasLive then om_shard m else None);
                before = (if wasLive then c_readForQuery h c1 (ri_id row) else None)
            in if om_ts m \<noteq> None \<and> \<not> gt (ri_ts row) (om_ts m) then (Inr None, c1)
               else
                 let nextShard = or_shard (normalizeShard (ri_shard row)) (om_shard m) in
                 (case prepareStoredValue c1 (ri_value row) of
                    Inl e \<Rightarrow> (Inl e, c1)
                  | Inr (prepared, vector) \<Rightarrow>
                      let base = (if keepColumnFields \<or> 0 < rq_size (cl_dirty c1) then prepared else baseValueForStorage c1 prepared None);
                          c2 = c1\<lparr>cl_meta := jm_set (ri_id row)
                                 (m\<lparr>om_ts := ri_ts row, om_deleted := None, om_shard := nextShard\<rparr>) (cl_meta c1)\<rparr>;
                          c3 = applyVectorUpdate (ri_id row) vector (writeBaseValue h (ri_id row) (om_rid m) base trusted c2);
                          c4 = (if \<not> wasLive then addShardRid (om_rid m) nextShard (c3\<lparr>cl_liveCount := cl_liveCount c3 + 1\<rparr>)
                                else if previousShard \<noteq> nextShard then addShardRid (om_rid m) nextShard (removeShardRid (om_rid m) previousShard c3)
                                else c3)
                      in (Inr (Some \<lparr>id_rid = om_rid m, id_before = before,
                                     id_after = Some (queryObjectFromStoredValue (ri_id row) prepared)\<rparr>), c4)))"

text \<open>The loop of \<open>putObjects\<close>; a value it refuses ends it with an error, what was written before stays.\<close>

fun put_loop :: "host \<Rightarrow> bool \<Rightarrow> bool \<Rightarrow> 'r row_in_scheme list \<Rightarrow> coll \<Rightarrow> 'r row_in_scheme list \<Rightarrow> index_delta list \<Rightarrow>
    (coll_error + 'r row_in_scheme list \<times> index_delta list) \<times> coll" where
  "put_loop h trusted keepAll [] c applied deltas = (Inr (applied, deltas), c)"
| "put_loop h trusted keepAll (row # rows) c applied deltas =
     (case c_putObject h trusted keepAll row c of
        (Inl e, c1) \<Rightarrow> (Inl e, c1)
      | (Inr None, c1) \<Rightarrow> put_loop h trusted keepAll rows c1 applied deltas
      | (Inr (Some d), c1) \<Rightarrow> put_loop h trusted keepAll rows c1 (applied @ [row]) (deltas @ [d]))"

definition putObjects :: "host \<Rightarrow> bool \<Rightarrow> 'r row_in_scheme list \<Rightarrow> coll \<Rightarrow> (coll_error + 'r row_in_scheme list) \<times> coll" where
  "putObjects h trusted rows c =
     (case put_loop h trusted (shouldDeferIndexDeltasForCount (length rows) c) rows c [] [] of
        (Inl e, c1) \<Rightarrow> (Inl e, c1)
      | (Inr (applied, deltas), c1) \<Rightarrow> (Inr applied, applyIndexDeltas h deltas c1))"

record row_del =
  rd_id :: string
  rd_ts :: "ts option"
  rd_shard :: jsv

definition c_deleteObject :: "host \<Rightarrow> 'r row_del_scheme \<Rightarrow> coll \<Rightarrow> index_delta option \<times> coll" where
  "c_deleteObject h row c =
     (case ensureMeta (rd_id row) c of
        (m, c1) \<Rightarrow>
          let last = (case om_deleted m of None \<Rightarrow> om_ts m | Some t \<Rightarrow> Some t) in
          if last \<noteq> None \<and> \<not> gt (rd_ts row) last then (None, c1)
          else
            let wasLive = was_live m;
                before = (if wasLive then c_readForQuery h c1 (rd_id row) else None);
                c2 = c1\<lparr>cl_meta := jm_set (rd_id row)
                       (m\<lparr>om_deleted := rd_ts row, om_shard := (if truthy (rd_shard row) then normalizeShard (rd_shard row) else om_shard m)\<rparr>)
                       (cl_meta c1),
                     cl_store := ph_remove h (cl_store c1) (rd_id row)\<rparr>;
                c3 = removeVector (rd_id row) (clearCompressedCold (om_rid m) c2);
                c4 = (if wasLive then removeShardRid (om_rid m) (om_shard m) (c3\<lparr>cl_liveCount := cl_liveCount c3 - 1\<rparr>) else c3)
            in (Some \<lparr>id_rid = om_rid m, id_before = before, id_after = None\<rparr>, c4))"

fun delete_loop :: "host \<Rightarrow> 'r row_del_scheme list \<Rightarrow> coll \<Rightarrow> 'r row_del_scheme list \<Rightarrow> index_delta list \<Rightarrow> ('r row_del_scheme list \<times> index_delta list) \<times> coll" where
  "delete_loop h [] c applied deltas = ((applied, deltas), c)"
| "delete_loop h (row # rows) c applied deltas =
     (case c_deleteObject h row c of
        (None, c1) \<Rightarrow> delete_loop h rows c1 applied deltas
      | (Some d, c1) \<Rightarrow> delete_loop h rows c1 (applied @ [row]) (deltas @ [d]))"

definition deleteObjects :: "host \<Rightarrow> 'r row_del_scheme list \<Rightarrow> coll \<Rightarrow> 'r row_del_scheme list \<times> coll" where
  "deleteObjects h rows c =
     (case delete_loop h rows c [] [] of ((applied, deltas), c1) \<Rightarrow> (applied, applyIndexDeltas h deltas c1))"

subsection \<open>Snapshots\<close>

record snap_row =
  sr_id :: "string option"
  sr_value :: jsv
  sr_ts :: "ts option"
  sr_deleted :: "ts option"
  sr_shard :: jsv

definition applySnapshotObject :: "host \<Rightarrow> bool \<Rightarrow> bool \<Rightarrow> snap_row \<Rightarrow> coll \<Rightarrow> (coll_error + bool) \<times> coll" where
  "applySnapshotObject h deferDerived trusted row c =
     (case sr_id row of
        None \<Rightarrow> (Inr False, c)
      | Some key \<Rightarrow>
          (case ensureMeta key c of
             (m, c1) \<Rightarrow>
               let shard = or_shard (normalizeShard (sr_shard row)) (om_shard m) in
               if sr_deleted row \<noteq> None
               then let last = (case om_deleted m of None \<Rightarrow> om_ts m | Some t \<Rightarrow> Some t) in
                    if last \<noteq> None \<and> \<not> gt (sr_deleted row) last then (Inr False, c1)
                    else let c2 = c1\<lparr>cl_meta := jm_set key (m\<lparr>om_ts := (if sr_ts row \<noteq> None then sr_ts row else om_ts m),
                                        om_deleted := sr_deleted row, om_shard := shard\<rparr>) (cl_meta c1),
                                     cl_store := ph_remove h (cl_store c1) key\<rparr>
                         in (Inr True, refreshColumns h (om_rid m) None (removeVector key (clearCompressedCold (om_rid m) c2)))
               else if sr_ts row = None then (Inr False, c1)
               else if om_deleted m \<noteq> None \<and> \<not> gt (sr_ts row) (om_deleted m) then (Inr False, c1)
               else if om_ts m \<noteq> None \<and> \<not> gt (sr_ts row) (om_ts m) then (Inr False, c1)
               else (case prepareStoredValue c1 (or_empty (sr_value row)) of
                       Inl e \<Rightarrow> (Inl e, c1)
                     | Inr (prepared, vector) \<Rightarrow>
                         let base = (if deferDerived then prepared else baseValueForStorage c1 prepared None);
                             c2 = c1\<lparr>cl_meta := jm_set key (m\<lparr>om_ts := sr_ts row, om_deleted := None, om_shard := shard\<rparr>) (cl_meta c1)\<rparr>;
                             c3 = applyVectorUpdate key vector (writeBaseValue h key (om_rid m) base trusted c2)
                         in (Inr True, refreshColumns h (om_rid m) (Some prepared) c3))))"

fun snapshot_loop :: "host \<Rightarrow> bool \<Rightarrow> bool \<Rightarrow> snap_row list \<Rightarrow> nat \<Rightarrow> coll \<Rightarrow> (coll_error + nat) \<times> coll" where
  "snapshot_loop h deferDerived trusted [] applied c = (Inr applied, c)"
| "snapshot_loop h deferDerived trusted (row # rows) applied c =
     (case applySnapshotObject h deferDerived trusted row c of
        (Inl e, c1) \<Rightarrow> (Inl e, c1)
      | (Inr did, c1) \<Rightarrow> snapshot_loop h deferDerived trusted rows (if did then applied + 1 else applied) c1)"

text \<open>The index and column of one row of \<open>rebuildDerivedState\<close>.\<close>

definition index_row :: "host \<Rightarrow> nat \<Rightarrow> jsv \<Rightarrow> findex \<Rightarrow> findex" where
  "index_row h rid object index = addValue h rid (getPathValue object (fi_path index)) index"

definition rebuild_row :: "host \<Rightarrow> string list \<Rightarrow> coll \<times> (string, findex) jmap \<times> (string, tcol) jmap \<Rightarrow> string \<times> obj_meta \<Rightarrow>
    coll \<times> (string, findex) jmap \<times> (string, tcol) jmap" where
  "rebuild_row h columnPaths st entry =
     (case (st, entry) of
        ((c, indexes, columns), (key, m)) \<Rightarrow>
          if om_deleted m \<noteq> None then st
          else let c1 = addShardRid (om_rid m) (om_shard m) (c\<lparr>cl_liveCount := cl_liveCount c + 1\<rparr>) in
               (case c_readForQuery h c1 key of
                  None \<Rightarrow> (c1, indexes, columns)
                | Some object \<Rightarrow>
                    (rewriteBaseValueForColumns h (om_rid m) object (Some columnPaths) c1,
                     map (\<lambda>(path, index). (path, index_row h (om_rid m) object index)) indexes,
                     map (\<lambda>(path, col). (path, put_column (om_rid m) (Some object) col)) columns)))"

definition rebuildDerivedState :: "host \<Rightarrow> coll \<Rightarrow> coll" where
  "rebuildDerivedState h c =
     (let fieldPaths = cm_indexes (cl_cmeta c); columnPaths = cm_columns (cl_cmeta c);
          c0 = c\<lparr>cl_liveCount := 0, cl_shardIds := [], cl_unsharded := 0\<rparr>
      in case foldl (rebuild_row h columnPaths)
           (c0, map (\<lambda>path. (path, newFieldIndex path)) fieldPaths, map (\<lambda>path. (path, newTypedColumn path)) columnPaths) (cl_meta c) of
           (c1, indexes, columns) \<Rightarrow>
             c1\<lparr>cl_indexes := indexes, cl_fieldBuilds := [], cl_columns := columns, cl_columnBuilds := 0,
                cl_dirty := rq_clear (cl_dirty c1), cl_dirtyBuild := False\<rparr>)"

definition applySnapshotObjects :: "host \<Rightarrow> bool \<Rightarrow> bool \<Rightarrow> snap_row list \<Rightarrow> coll \<Rightarrow> (coll_error + nat) \<times> coll" where
  "applySnapshotObjects h deferDerived trusted rows c =
     (case snapshot_loop h deferDerived trusted rows 0 c of
        (Inl e, c1) \<Rightarrow> (Inl e, c1)
      | (Inr applied, c1) \<Rightarrow> (Inr applied, if 0 < applied \<and> \<not> deferDerived then rebuildDerivedState h c1 else c1))"

definition rebuildCoreState :: "coll \<Rightarrow> coll" where
  "rebuildCoreState c =
     foldl (\<lambda>c (key, m). if om_deleted m \<noteq> None then c
                         else addShardRid (om_rid m) (om_shard m) (c\<lparr>cl_liveCount := cl_liveCount c + 1\<rparr>))
       (c\<lparr>cl_liveCount := 0, cl_shardIds := [], cl_unsharded := 0\<rparr>) (cl_meta c)"

definition snapshot_entry :: "host \<Rightarrow> coll \<Rightarrow> string \<times> obj_meta \<Rightarrow> snap_row" where
  "snapshot_entry h c entry =
     (case entry of
        (key, m) \<Rightarrow>
          let shard = (case om_shard m of None \<Rightarrow> JUndef | Some s \<Rightarrow> JStr s) in
          if om_deleted m \<noteq> None
          then \<lparr>sr_id = Some key, sr_value = JUndef, sr_ts = om_ts m, sr_deleted = om_deleted m, sr_shard = shard\<rparr>
          else let object = (case c_readForQuery h c key of None \<Rightarrow> JObj [] | Some o' \<Rightarrow> o');
                   v = jm_del ''_id'' (entries_of object);
                   full = (case (getVector c key, cl_vectorField c) of
                             (Some vec, Some field) \<Rightarrow> jm_set field (JArr (map JNum vec)) v | _ \<Rightarrow> v)
               in \<lparr>sr_id = Some key, sr_value = JObj full, sr_ts = om_ts m, sr_deleted = None, sr_shard = shard\<rparr>)"

definition snapshotObjects :: "host \<Rightarrow> (string \<Rightarrow> bool) \<Rightarrow> coll \<Rightarrow> snap_row list" where
  "snapshotObjects h allow c = map (snapshot_entry h c) (filter (\<lambda>(key, m). allow key) (cl_meta c))"

definition c_dispose :: "coll \<Rightarrow> coll" where
  "c_dispose c =
     c\<lparr>cl_disposed := True, cl_indexes := [], cl_fieldBuilds := [], cl_columns := [], cl_columnBuilds := 0,
       cl_dirty := rq_clear (cl_dirty c), cl_dirtyBuild := False, cl_buildPending := False, cl_vectors := [], cl_meta := [],
       cl_idByRid := [], cl_cold := [], cl_totals := emptyCompressionTotals, cl_shardIds := [], cl_unsharded := 0,
       cl_liveCount := 0, cl_cmeta := emptyMeta, cl_store := ph_clear (cl_store c)\<rparr>"

subsection \<open>Catching up with the rows that are out of date\<close>

definition refreshReadyIndexesForRid :: "host \<Rightarrow> coll \<Rightarrow> nat \<Rightarrow> coll" where
  "refreshReadyIndexesForRid h c rid =
     (let object = readRidForQuery h c rid;
          c1 = c\<lparr>cl_indexes := map (\<lambda>(path, index).
                   (path, let i1 = removeRid h rid index in
                          case object of None \<Rightarrow> i1 | Some obj \<Rightarrow> addValue h rid (getPathValue obj (fi_path i1)) i1)) (cl_indexes c),
                 cl_columns := map (\<lambda>(path, col). (path, put_column rid object col)) (cl_columns c)\<rparr>
      in case object of None \<Rightarrow> c1 | Some obj \<Rightarrow> rewriteBaseValueForColumns h rid obj None c1)"

text \<open>One round of the loop of \<open>_runDirtyIndexCatchup\<close>.\<close>

definition catchup_round :: "host \<Rightarrow> coll \<Rightarrow> coll" where
  "catchup_round h c =
     (case rq_take (cl_dirty c) 4096 of
        (batch, q) \<Rightarrow>
          if batch = [] then c\<lparr>cl_dirty := rq_clear q\<rparr>
          else foldl (\<lambda>c rid. let c1 = refreshReadyIndexesForRid h c rid in c1\<lparr>cl_dirty := fst (rq_delete (cl_dirty c1) rid)\<rparr>)
                 (c\<lparr>cl_dirty := q\<rparr>) batch)"

text \<open>The whole job with fuel for its rounds; \<open>None\<close> when the fuel is not enough.\<close>

fun runDirtyIndexCatchup :: "host \<Rightarrow> nat \<Rightarrow> coll \<Rightarrow> coll option" where
  "runDirtyIndexCatchup h fuel c =
     (if cl_disposed c \<or> rq_size (cl_dirty c) = 0 then Some (c\<lparr>cl_dirtyBuild := False\<rparr>)
      else (case fuel of 0 \<Rightarrow> None | Suc n \<Rightarrow> runDirtyIndexCatchup h n (catchup_round h c)))"

declare runDirtyIndexCatchup.simps [simp del]

end
