(* ===== verification/CollBuild.thy ===== *)
theory CollBuild
  imports Collection
begin

text \<open>
  The index and column builds of \<open>Collection\<close> in src/src/store.js and the changes of its metadata. A background job runs in steps: it
  starts, visits the rows of the metadata one after the other, and finishes or fails; between two steps anything else may happen to the
  collection. A build of a field index is known by its number, as the code knows it by its object.
\<close>

subsection \<open>Field indexes\<close>

definition live_entry :: "coll \<Rightarrow> nat \<Rightarrow> nat option" where
  "live_entry c pos =
     (if pos < length (cl_meta c) \<and> om_deleted (snd (cl_meta c ! pos)) = None then Some (om_rid (snd (cl_meta c ! pos))) else None)"

definition index_of_rows :: "host \<Rightarrow> coll \<Rightarrow> string \<Rightarrow> findex" where
  "index_of_rows h c path =
     foldl (\<lambda>index rid. case readRidForQuery h c rid of None \<Rightarrow> index | Some object \<Rightarrow> addValue h rid (getPathValue object path) index)
       (newFieldIndex path) (liveRids c)"

definition createIndexFromMeta :: "host \<Rightarrow> string \<Rightarrow> coll \<Rightarrow> coll" where
  "createIndexFromMeta h path c =
     (let c1 = c\<lparr>cl_fieldBuilds := jm_del path (cl_fieldBuilds c)\<rparr>
      in c1\<lparr>cl_indexes := jm_set path (index_of_rows h c1 path) (cl_indexes c1)\<rparr>)"

definition createIndex :: "host \<Rightarrow> string \<Rightarrow> coll \<Rightarrow> coll" where
  "createIndex h key c =
     (let c1 = createIndexFromMeta h key c
      in c1\<lparr>cl_cmeta := (cl_cmeta c1)\<lparr>cm_indexes :=
           js_unique (filter (\<lambda>p. p \<noteq> []) (map js_trim (js_unique (cm_indexes (cl_cmeta c1) @ [key]))))\<rparr>\<rparr>)"

definition dropIndex :: "string \<Rightarrow> coll \<Rightarrow> bool \<times> coll" where
  "dropIndex key c =
     (jm_has (cl_indexes c) key \<or> jm_has (cl_fieldBuilds c) key,
      c\<lparr>cl_indexes := jm_del key (cl_indexes c), cl_fieldBuilds := jm_del key (cl_fieldBuilds c),
        cl_cmeta := (cl_cmeta c)\<lparr>cm_indexes :=
          js_unique (filter (\<lambda>p. p \<noteq> []) (map js_trim (filter (\<lambda>index. index \<noteq> key) (cm_indexes (cl_cmeta c)))))\<rparr>\<rparr>)"

datatype index_status = StReady | StBuilding | StPending | StMissing | StError

definition fieldIndexStatus :: "coll \<Rightarrow> string \<Rightarrow> index_status" where
  "fieldIndexStatus c path =
     (if jm_has (cl_indexes c) path then (if rq_size (cl_dirty c) \<noteq> 0 then StBuilding else StReady)
      else (case jm_get (cl_fieldBuilds c) path of
              None \<Rightarrow> if cl_buildPending c then StPending else StMissing
            | Some build \<Rightarrow> if fb_building build then StBuilding else StError))"

text \<open>\<open>_startFieldIndexBuild\<close>: the targets of the job.\<close>

fun startFieldIndexBuild :: "string list \<Rightarrow> coll \<Rightarrow> (string \<times> nat) list \<times> coll" where
  "startFieldIndexBuild [] c = ([], c)"
| "startFieldIndexBuild (path # paths) c =
     (let build = \<lparr>fb_id = cl_nextBuild c, fb_building = True, fb_pending = []\<rparr>;
          c1 = c\<lparr>cl_indexes := jm_del path (cl_indexes c), cl_fieldBuilds := jm_set path build (cl_fieldBuilds c),
                 cl_nextBuild := cl_nextBuild c + 1\<rparr>
      in case startFieldIndexBuild paths c1 of (targets, c2) \<Rightarrow> ((path, fb_id build) # targets, c2))"

definition is_target :: "coll \<Rightarrow> string \<times> nat \<Rightarrow> bool" where
  "is_target c target =
     (case jm_get (cl_fieldBuilds c) (fst target) of None \<Rightarrow> False | Some build \<Rightarrow> fb_id build = snd target)"

text \<open>The three parts of \<open>_runFieldIndexBuild\<close>: the visit of one row, the end of the job, its failure.\<close>

definition field_build_visit :: "host \<Rightarrow> (string \<times> nat) list \<Rightarrow> coll \<Rightarrow> nat \<Rightarrow> (string, findex) jmap \<Rightarrow> (string, findex) jmap" where
  "field_build_visit h targets c pos built =
     (case live_entry c pos of
        None \<Rightarrow> built
      | Some rid \<Rightarrow>
          (case readRidForQuery h c rid of
             None \<Rightarrow> built
           | Some object \<Rightarrow>
               foldl (\<lambda>built target.
                 if is_target c target
                 then (case jm_get built (fst target) of
                         None \<Rightarrow> built
                       | Some index \<Rightarrow> jm_set (fst target) (addValue h rid (getPathValue object (fst target)) index) built)
                 else built) built targets))"

definition replay_pending :: "host \<Rightarrow> findex \<Rightarrow> (nat, jsv option \<times> jsv option) jmap \<Rightarrow> findex" where
  "replay_pending h index pending =
     foldl (\<lambda>index (rid, before, after).
       let i1 = (case before of None \<Rightarrow> index | Some v \<Rightarrow> removeValue h rid v index)
       in case after of None \<Rightarrow> i1 | Some v \<Rightarrow> addValue h rid v i1) index pending"

definition field_build_finish :: "host \<Rightarrow> (string \<times> nat) list \<Rightarrow> (string, findex) jmap \<Rightarrow> coll \<Rightarrow> coll" where
  "field_build_finish h targets built c =
     foldl (\<lambda>c target.
       if \<not> is_target c target then c
       else (case (jm_get built (fst target), jm_get (cl_fieldBuilds c) (fst target)) of
               (Some index, Some build) \<Rightarrow>
                 c\<lparr>cl_indexes := jm_set (fst target) (replay_pending h index (fb_pending build)) (cl_indexes c),
                   cl_fieldBuilds := jm_del (fst target) (cl_fieldBuilds c)\<rparr>
             | _ \<Rightarrow> c)) c targets"

definition field_build_fail :: "(string \<times> nat) list \<Rightarrow> coll \<Rightarrow> coll" where
  "field_build_fail targets c =
     foldl (\<lambda>c target.
       if \<not> is_target c target then c
       else (case jm_get (cl_fieldBuilds c) (fst target) of
               None \<Rightarrow> c
             | Some build \<Rightarrow>
                 c\<lparr>cl_fieldBuilds := jm_set (fst target) (build\<lparr>fb_building := False, fb_pending := []\<rparr>) (cl_fieldBuilds c)\<rparr>)) c targets"

text \<open>The job without anything in between.\<close>

definition runFieldIndexBuild :: "host \<Rightarrow> (string \<times> nat) list \<Rightarrow> coll \<Rightarrow> coll" where
  "runFieldIndexBuild h targets c =
     (if cl_disposed c then c
      else field_build_finish h targets
             (foldl (\<lambda>built pos. field_build_visit h targets c pos built)
                (map (\<lambda>(path, n). (path, newFieldIndex path)) targets) [0..<length (cl_meta c)]) c)"

definition applyMetaIndexes :: "host \<Rightarrow> bool \<Rightarrow> bool \<Rightarrow> coll \<Rightarrow> (string \<times> nat) list \<times> coll" where
  "applyMetaIndexes h background rebuild c =
     (let wanted = cm_indexes (cl_cmeta c);
          c1 = c\<lparr>cl_indexes := filter (\<lambda>(path, index). path \<in> set wanted) (cl_indexes c),
                 cl_fieldBuilds := filter (\<lambda>(path, build). path \<in> set wanted) (cl_fieldBuilds c)\<rparr>;
          step = (\<lambda>(toBuild, c) path.
            if jm_has (cl_indexes c) path \<and> \<not> rebuild \<or> jm_has (cl_fieldBuilds c) path \<and> \<not> rebuild then (toBuild, c)
            else if cl_liveCount c = 0
            then (toBuild, c\<lparr>cl_fieldBuilds := jm_del path (cl_fieldBuilds c), cl_indexes := jm_set path (newFieldIndex path) (cl_indexes c)\<rparr>)
            else if background then (toBuild @ [path], c)
            else (toBuild, createIndexFromMeta h path c))
      in case foldl step ([], c1) (js_unique wanted) of (toBuild, c2) \<Rightarrow> startFieldIndexBuild toBuild c2)"

definition deferMetaIndexes :: "coll \<Rightarrow> coll" where
  "deferMetaIndexes c =
     c\<lparr>cl_indexes := [], cl_fieldBuilds := [], cl_buildPending := True,
       cl_columns := filter (\<lambda>(path, col). path \<in> set (cm_columns (cl_cmeta c))) (cl_columns c)\<rparr>"

subsection \<open>Columns\<close>

fun startColumnBuild :: "string list \<Rightarrow> coll \<Rightarrow> (string \<times> nat) list \<times> coll" where
  "startColumnBuild [] c = ([], c)"
| "startColumnBuild (path # paths) c =
     (case jm_get (cl_columns c) path of
        None \<Rightarrow> startColumnBuild paths c
      | Some col \<Rightarrow>
          (case startBuild col of
             (buildId, col') \<Rightarrow>
               (case startColumnBuild paths (c\<lparr>cl_columns := jm_set path col' (cl_columns c)\<rparr>) of
                  (targets, c1) \<Rightarrow> ((path, buildId) # targets, c1))))"

definition column_build_job :: "string list \<Rightarrow> coll \<Rightarrow> (string \<times> nat) list \<times> coll" where
  "column_build_job paths c =
     (case startColumnBuild paths c of
        (targets, c1) \<Rightarrow> (targets, if targets = [] then c1 else c1\<lparr>cl_columnBuilds := cl_columnBuilds c1 + 1\<rparr>))"

definition column_build_visit :: "host \<Rightarrow> coll \<Rightarrow> nat \<Rightarrow> (string, tcol) jmap \<Rightarrow> (string, tcol) jmap" where
  "column_build_visit h c pos built =
     (case live_entry c pos of
        None \<Rightarrow> built
      | Some rid \<Rightarrow>
          (case readRidForQuery h c rid of
             None \<Rightarrow> built
           | Some object \<Rightarrow> map (\<lambda>(path, col). (path, updateScalarState rid (columnScalarState (getPathValue object path)) col)) built))"

definition stripBaseValuesForColumns :: "host \<Rightarrow> string list \<Rightarrow> coll \<Rightarrow> coll" where
  "stripBaseValuesForColumns h paths c =
     (if paths = [] then c
      else foldl (\<lambda>c rid. case readRidForQuery h c rid of None \<Rightarrow> c | Some object \<Rightarrow> rewriteBaseValueForColumns h rid object (Some paths) c)
             c (liveRids c))"

definition column_install_all :: "(string \<times> nat) list \<Rightarrow> (string, tcol) jmap \<Rightarrow> coll \<Rightarrow> string list \<times> coll" where
  "column_install_all targets built c =
     foldl (\<lambda>(paths, c) (path, buildId).
       case (jm_get (cl_columns c) path, jm_get built path) of
         (Some target, Some column) \<Rightarrow>
           (case col_install column buildId target of
              (target', True) \<Rightarrow> (paths @ [path], c\<lparr>cl_columns := jm_set path target' (cl_columns c)\<rparr>)
            | (target', False) \<Rightarrow> (paths, c))
       | _ \<Rightarrow> (paths, c)) ([], c) targets"

definition column_build_finish :: "host \<Rightarrow> (string \<times> nat) list \<Rightarrow> (string, tcol) jmap \<Rightarrow> coll \<Rightarrow> coll" where
  "column_build_finish h targets built c =
     (case column_install_all targets built c of
        (paths, c1) \<Rightarrow> let c2 = stripBaseValuesForColumns h paths c1 in c2\<lparr>cl_columnBuilds := cl_columnBuilds c2 - 1\<rparr>)"

definition column_build_fail :: "(string \<times> nat) list \<Rightarrow> coll \<Rightarrow> coll" where
  "column_build_fail targets c =
     foldl (\<lambda>c (path, buildId). case jm_get (cl_columns c) path of
         None \<Rightarrow> c | Some col \<Rightarrow> c\<lparr>cl_columns := jm_set path (col_fail buildId col) (cl_columns c)\<rparr>)
       (c\<lparr>cl_columnBuilds := cl_columnBuilds c - 1\<rparr>) targets"

definition runColumnBuild :: "host \<Rightarrow> (string \<times> nat) list \<Rightarrow> coll \<Rightarrow> coll" where
  "runColumnBuild h targets c =
     (if cl_disposed c then c
      else column_build_finish h targets
             (foldl (\<lambda>built pos. column_build_visit h c pos built)
                (map (\<lambda>(path, n). (path, newTypedColumn path)) targets) [0..<length (cl_meta c)]) c)"

text \<open>A column of an empty collection is ready at once.\<close>

definition empty_column :: "string \<Rightarrow> tcol \<Rightarrow> tcol" where
  "empty_column path col = (case startBuild col of (buildId, col1) \<Rightarrow> fst (col_install (newTypedColumn path) buildId col1))"

definition applyMetaColumns :: "bool \<Rightarrow> coll \<Rightarrow> (string \<times> nat) list \<times> coll" where
  "applyMetaColumns rebuild c =
     (let wanted = cm_columns (cl_cmeta c);
          c1 = c\<lparr>cl_columns := filter (\<lambda>(path, col). path \<in> set wanted) (cl_columns c)\<rparr>;
          step = (\<lambda>(toBuild, c) path.
            let created = \<not> jm_has (cl_columns c) path;
                col = (case jm_get (cl_columns c) path of None \<Rightarrow> newTypedColumn path | Some col \<Rightarrow> col)
            in if cl_liveCount c = 0 then (toBuild, c\<lparr>cl_columns := jm_set path (empty_column path col) (cl_columns c)\<rparr>)
               else (if created \<or> rebuild \<or> co_status col = Failed then toBuild @ [path] else toBuild,
                     c\<lparr>cl_columns := jm_set path col (cl_columns c)\<rparr>))
      in case foldl step ([], c1) (js_unique wanted) of (toBuild, c2) \<Rightarrow> column_build_job toBuild c2)"

definition rebuildColumns :: "coll \<Rightarrow> (string \<times> nat) list \<times> coll" where
  "rebuildColumns c =
     (let paths = jm_keys (cl_columns c) in
      if paths = [] then ([], c)
      else if cl_liveCount c = 0 then ([], c\<lparr>cl_columns := map (\<lambda>(path, col). (path, empty_column (co_path col) col)) (cl_columns c)\<rparr>)
      else column_build_job paths c)"

definition scheduleIndexBuildsFromMeta :: "host \<Rightarrow> coll \<Rightarrow> (string \<times> nat) list \<times> (string \<times> nat) list \<times> coll" where
  "scheduleIndexBuildsFromMeta h c =
     (case applyMetaIndexes h True True c of
        (fieldJobs, c1) \<Rightarrow>
          (case applyMetaColumns True c1 of (columns, c2) \<Rightarrow> (fieldJobs, columns, c2\<lparr>cl_buildPending := False\<rparr>)))"

subsection \<open>Changing the metadata\<close>

definition retierBaseValues :: "host \<Rightarrow> coll \<Rightarrow> coll" where
  "retierBaseValues h c =
     foldl (\<lambda>c rid. case readRidForQuery h c rid of None \<Rightarrow> c | Some object \<Rightarrow> rewriteBaseValueForColumns h rid object None c) c (liveRids c)"

definition setMeta :: "host \<Rightarrow> jsv \<Rightarrow> bool \<Rightarrow> coll \<Rightarrow> (meta_error + (string \<times> nat) list) \<times> coll" where
  "setMeta h meta deferIndexes c =
     (case normalizeCollectionMeta h meta of
        Inl e \<Rightarrow> (Inl e, c)
      | Inr next \<Rightarrow>
          let changed = (cm_tiering next \<noteq> cm_tiering (cl_cmeta c));
              c1 = c\<lparr>cl_cmeta := next\<rparr>;
              (targets, c2) = (if deferIndexes then ([], deferMetaIndexes c1)
                               else case applyMetaIndexes h False False c1 of (fieldJobs, c') \<Rightarrow> applyMetaColumns False c')
          in (Inr targets, if changed then retierBaseValues h c2 else c2))"

text \<open>What the query operations see of a collection.\<close>

definition view_of :: "host \<Rightarrow> coll \<Rightarrow> view" where
  "view_of h c =
     \<lparr>vw_readForQuery = readRidForQuery h c, vw_read = readRidForQuery h c, vw_readId = c_readForQuery h c, vw_idOf = idForRid c,
      vw_ridOf = ridForId c, vw_has = c_has c, vw_live = liveRids c, vw_liveCount = nat (cl_liveCount c), vw_indexes = cl_indexes c,
      vw_columns = cl_columns c, vw_dirty = rq_list (cl_dirty c)\<rparr>"

end
