(* ===== verification/CollCore.thy ===== *)
theory CollCore
  imports CollBuild
begin

text \<open>
  What every write keeps of a collection's bookkeeping: each row has a number of its own that leads back to it, the count of live
  rows, the rows of each shard and the count of rows without a shard are exact. The operations on stored values, vectors, indexes and
  columns leave all of it alone (\<open>core\<close>).
\<close>

named_theorems core_simps

subsection \<open>The bookkeeping\<close>

definition core :: "coll \<Rightarrow> (string, obj_meta) jmap \<times> string list \<times> (string, nat) bag \<times> nat \<times> int \<times> string option" where
  "core c = (cl_meta c, cl_idByRid c, cl_shardIds c, cl_unsharded c, cl_liveCount c, cl_vectorField c)"

lemma core_eq: "core c = core c' \<longleftrightarrow> cl_meta c = cl_meta c' \<and> cl_idByRid c = cl_idByRid c' \<and> cl_shardIds c = cl_shardIds c' \<and>
    cl_unsharded c = cl_unsharded c' \<and> cl_liveCount c = cl_liveCount c' \<and> cl_vectorField c = cl_vectorField c'"
  by (simp add: core_def)

lemma core_setCold [core_simps]: "core (setCompressedCold rid e c) = core c"
  by (simp add: setCompressedCold_def core_def Let_def)

lemma core_clearCold [core_simps]: "core (clearCompressedCold rid c) = core c"
  by (simp add: clearCompressedCold_def core_simps)

lemma core_tier [core_simps]: "core (snd (tierBaseValue h rid v c)) = core c"
  by (auto simp: tierBaseValue_def Let_def core_simps split: option.split prod.split)

lemma core_write [core_simps]: "core (writeBaseValue h key rid v t c) = core c"
  using core_tier [of h rid v c] by (auto simp: writeBaseValue_def core_def split: prod.split)

lemma core_rewrite [core_simps]: "core (rewriteBaseValueForColumns h rid v ps c) = core c"
  by (simp add: rewriteBaseValueForColumns_def core_simps split: option.split)

lemma core_setVector [core_simps]: "core (setVector key v c) = core c" "core (removeVector key c) = core c"
  by (simp_all add: setVector_def removeVector_def core_def)

lemma core_vector [core_simps]: "core (applyVectorUpdate key u c) = core c"
  by (simp add: applyVectorUpdate_def core_simps split: vector_update.split)

lemma core_builds [core_simps]: "core (recordFieldBuildDelta d c) = core c" "core (recordColumnBuildDelta d c) = core c"
  by (simp_all add: recordFieldBuildDelta_def recordColumnBuildDelta_def core_def)

lemma core_mark [core_simps]: "core (markIndexDirty d c) = core c"
proof -
  have "core (markIndexDirty d c) = core (recordColumnBuildDelta d (recordFieldBuildDelta d c))"
    by (simp add: markIndexDirty_def core_def Let_def)
  then show ?thesis by (simp add: core_simps)
qed

lemma core_delta [core_simps]: "core (apply_delta h c d) = core c"
proof -
  have "core (apply_delta h c d) = core (recordColumnBuildDelta d (recordFieldBuildDelta d c))"
    by (simp add: apply_delta_def core_def Let_def)
  then show ?thesis by (simp add: core_simps)
qed

lemma core_fold: "(\<And>c x. core (f c x) = core c) \<Longrightarrow> core (foldl f c xs) = core c"
  by (induction xs arbitrary: c) simp_all

lemma core_deltas [core_simps]: "core (applyIndexDeltas h ds c) = core c"
proof -
  have "core (scheduleDirtyIndexCatchup c') = core c'" for c'
    by (simp add: scheduleDirtyIndexCatchup_def core_def)
  then show ?thesis by (simp add: applyIndexDeltas_def core_fold core_simps)
qed

lemma core_refresh [core_simps]: "core (refreshColumns h rid a c) = core c"
  by (simp add: refreshColumns_def core_simps)

lemma core_ready [core_simps]: "core (refreshReadyIndexesForRid h c rid) = core c"
proof -
  have "core (c\<lparr>cl_indexes := a, cl_columns := b\<rparr>) = core c" for a b by (simp add: core_def)
  then show ?thesis by (simp add: refreshReadyIndexesForRid_def Let_def core_simps split: option.split)
qed

lemma core_round [core_simps]: "core (catchup_round h c) = core c"
proof -
  have "core (let c1 = refreshReadyIndexesForRid h c' rid in c1\<lparr>cl_dirty := fst (rq_delete (cl_dirty c1) rid)\<rparr>) = core c'" for c' rid
  proof -
    have "core (c1\<lparr>cl_dirty := q\<rparr>) = core c1" for c1 q by (simp add: core_def)
    then show ?thesis by (simp add: Let_def core_simps)
  qed
  note f = core_fold [OF this]
  have "core (c\<lparr>cl_dirty := q\<rparr>) = core c" for q by (simp add: core_def)
  then show ?thesis by (simp add: catchup_round_def f split: prod.split)
qed

lemma core_createIndex [core_simps]: "core (createIndex h path c) = core c" "core (snd (dropIndex path c)) = core c"
  by (simp_all add: createIndex_def createIndexFromMeta_def dropIndex_def core_def Let_def)

subsection \<open>The invariant\<close>

definition rids_ok :: "coll \<Rightarrow> bool" where
  "rids_ok c \<longleftrightarrow> jm_ok (cl_meta c) \<and>
     (\<forall>key m. jm_get (cl_meta c) key = Some m \<longrightarrow> om_rid m < length (cl_idByRid c) \<and> cl_idByRid c ! om_rid m = key) \<and>
     (\<forall>rid < length (cl_idByRid c). \<exists>m. jm_get (cl_meta c) (cl_idByRid c ! rid) = Some m \<and> om_rid m = rid)"

definition shard_rows :: "coll \<Rightarrow> string option \<Rightarrow> nat set" where
  "shard_rows c shard = {rid. \<exists>key m. jm_get (cl_meta c) key = Some m \<and> was_live m \<and> om_shard m = shard \<and> om_rid m = rid}"

definition live_keys :: "coll \<Rightarrow> string set" where
  "live_keys c = {key. \<exists>m. jm_get (cl_meta c) key = Some m \<and> was_live m}"

definition shards_ok :: "coll \<Rightarrow> bool" where
  "shards_ok c \<longleftrightarrow> bag_ok (cl_shardIds c) \<and> (\<forall>key. set (bag_get (cl_shardIds c) key) = shard_rows c (Some key)) \<and>
     cl_unsharded c = card (shard_rows c None)"

definition core_ok :: "coll \<Rightarrow> bool" where
  "core_ok c \<longleftrightarrow> rids_ok c \<and> shards_ok c \<and> cl_liveCount c = int (card (live_keys c))"

lemma core_ok_cong: "core c = core c' \<Longrightarrow> core_ok c = core_ok c'"
  by (simp add: core_eq core_ok_def rids_ok_def shards_ok_def shard_rows_def live_keys_def)

lemma rids_okD: "rids_ok c \<Longrightarrow> jm_get (cl_meta c) key = Some m \<Longrightarrow> om_rid m < length (cl_idByRid c) \<and> cl_idByRid c ! om_rid m = key"
  by (simp add: rids_ok_def)

lemma rids_okE: "rids_ok c \<Longrightarrow> rid < length (cl_idByRid c) \<Longrightarrow> \<exists>m. jm_get (cl_meta c) (cl_idByRid c ! rid) = Some m \<and> om_rid m = rid"
  unfolding rids_ok_def by blast

lemma core_okI:
  assumes "rids_ok c" "bag_ok (cl_shardIds c)" "\<And>key. set (bag_get (cl_shardIds c) key) = shard_rows c (Some key)"
    "cl_unsharded c = card (shard_rows c None)" "cl_liveCount c = int (card (live_keys c))"
  shows "core_ok c"
  unfolding core_ok_def shards_ok_def using assms by blast

lemma core_okD:
  assumes "core_ok c"
  shows "rids_ok c" "bag_ok (cl_shardIds c)" "set (bag_get (cl_shardIds c) key) = shard_rows c (Some key)"
    "cl_unsharded c = card (shard_rows c None)" "cl_liveCount c = int (card (live_keys c))"
  using assms unfolding core_ok_def shards_ok_def by blast+

lemma finite_shard_rows: "finite (shard_rows c shard)"
proof -
  have "shard_rows c shard \<subseteq> om_rid ` snd ` set (cl_meta c)"
    by (auto simp: shard_rows_def image_iff dest!: map_of_SomeD) force
  then show ?thesis by (rule finite_subset) simp
qed

lemma finite_live_keys: "finite (live_keys c)"
proof -
  have "live_keys c \<subseteq> fst ` set (cl_meta c)" by (auto simp: live_keys_def image_iff dest!: map_of_SomeD) force
  then show ?thesis by (rule finite_subset) simp
qed

lemma ensureMeta_props:
  assumes ok: "core_ok c" and em: "ensureMeta key c = (m, c1)"
  shows "core_ok c1" "jm_get (cl_meta c1) key = Some m"
    "jm_get (cl_meta c) key = None \<Longrightarrow> \<not> was_live m \<and> om_ts m = None \<and> om_deleted m = None \<and> om_shard m = None"
    "jm_get (cl_meta c) key = Some m' \<Longrightarrow> m' = m \<and> c1 = c"
    "key' \<noteq> key \<Longrightarrow> jm_get (cl_meta c1) key' = jm_get (cl_meta c) key'"
    "c1 = c\<lparr>cl_meta := cl_meta c1, cl_idByRid := cl_idByRid c1\<rparr>"
proof -
  show "jm_get (cl_meta c1) key = Some m" "jm_get (cl_meta c) key = Some m' \<Longrightarrow> m' = m \<and> c1 = c"
    "key' \<noteq> key \<Longrightarrow> jm_get (cl_meta c1) key' = jm_get (cl_meta c) key'"
    "jm_get (cl_meta c) key = None \<Longrightarrow> \<not> was_live m \<and> om_ts m = None \<and> om_deleted m = None \<and> om_shard m = None"
    using em by (auto simp: ensureMeta_def allocateRid_def was_live_def Let_def split: option.splits)
  show "c1 = c\<lparr>cl_meta := cl_meta c1, cl_idByRid := cl_idByRid c1\<rparr>"
    using em by (auto simp: ensureMeta_def allocateRid_def Let_def split: option.splits)
  show "core_ok c1"
  proof (cases "jm_get (cl_meta c) key")
    case (Some m')
    then show ?thesis using em ok by (simp add: ensureMeta_def)
  next
    case None
    define m0 where "m0 = \<lparr>om_ts = None, om_deleted = None, om_rid = length (cl_idByRid c), om_shard = None\<rparr>"
    have c1: "c1 = c\<lparr>cl_meta := jm_set key m0 (cl_meta c), cl_idByRid := cl_idByRid c @ [key]\<rparr>"
      using em None by (auto simp: ensureMeta_def allocateRid_def m0_def Let_def)
    have dead: "\<not> was_live m0" by (simp add: m0_def was_live_def)
    have rows: "shard_rows c1 sh = shard_rows c sh" for sh
    proof -
      have "(jm_get (cl_meta c1) k = Some m \<and> was_live m) \<longleftrightarrow> (jm_get (cl_meta c) k = Some m \<and> was_live m)" for k m
        using dead None by (auto simp: c1)
      then show ?thesis unfolding shard_rows_def by blast
    qed
    have keys: "live_keys c1 = live_keys c" using dead None by (auto simp: live_keys_def c1)
    have "rids_ok c1"
      unfolding rids_ok_def
    proof (intro conjI allI impI)
      show "jm_ok (cl_meta c1)" using ok by (simp add: c1 core_ok_def rids_ok_def)
    next
      fix k m
      assume get: "jm_get (cl_meta c1) k = Some m"
      show "om_rid m < length (cl_idByRid c1)" "cl_idByRid c1 ! om_rid m = k"
      proof (atomize (full), cases "k = key")
        case True
        then have "m = m0" using get by (simp add: c1)
        then show "om_rid m < length (cl_idByRid c1) \<and> cl_idByRid c1 ! om_rid m = k" using True by (simp add: c1 m0_def)
      next
        case False
        then have "jm_get (cl_meta c) k = Some m" using get by (simp add: c1)
        then have "om_rid m < length (cl_idByRid c) \<and> cl_idByRid c ! om_rid m = k" using ok by (simp add: core_ok_def rids_ok_def)
        then show "om_rid m < length (cl_idByRid c1) \<and> cl_idByRid c1 ! om_rid m = k" by (simp add: c1 nth_append)
      qed
    next
      fix rid
      assume rid: "rid < length (cl_idByRid c1)"
      show "\<exists>m. jm_get (cl_meta c1) (cl_idByRid c1 ! rid) = Some m \<and> om_rid m = rid"
      proof (cases "rid < length (cl_idByRid c)")
        case True
        then obtain m where "jm_get (cl_meta c) (cl_idByRid c ! rid) = Some m \<and> om_rid m = rid"
          using rids_okE [OF core_okD(1) [OF ok]] by blast
        then show ?thesis using True None by (auto simp: c1 nth_append)
      next
        case False
        then have "rid = length (cl_idByRid c)" using rid by (simp add: c1)
        then show ?thesis by (simp add: c1 m0_def)
      qed
    qed
    moreover have "cl_shardIds c1 = cl_shardIds c" "cl_unsharded c1 = cl_unsharded c" "cl_liveCount c1 = cl_liveCount c"
      by (simp_all add: c1)
    ultimately show ?thesis by (intro core_okI) (simp_all only: rows keys core_okD [OF ok])
  qed
qed

subsection \<open>Changing one row\<close>

lemma rids_distinct:
  "rids_ok c \<Longrightarrow> jm_get (cl_meta c) key = Some m \<Longrightarrow> jm_get (cl_meta c) key' = Some m' \<Longrightarrow> om_rid m = om_rid m' \<Longrightarrow> key = key'"
proof -
  assume ok: "rids_ok c" and a: "jm_get (cl_meta c) key = Some m" and b: "jm_get (cl_meta c) key' = Some m'" and r: "om_rid m = om_rid m'"
  have "cl_idByRid c ! om_rid m = key" using ok a by (simp add: rids_ok_def)
  moreover have "cl_idByRid c ! om_rid m' = key'" using ok b by (simp add: rids_ok_def)
  ultimately show ?thesis using r by simp
qed

lemma rids_ok_set:
  assumes "rids_ok c" "jm_get (cl_meta c) key = Some m" "om_rid m' = om_rid m"
    "cl_meta c2 = jm_set key m' (cl_meta c)" "cl_idByRid c2 = cl_idByRid c"
  shows "rids_ok c2"
  unfolding rids_ok_def
proof (intro conjI allI impI)
  show "jm_ok (cl_meta c2)" using assms(1,4) by (simp add: rids_ok_def)
next
  fix k x
  assume "jm_get (cl_meta c2) k = Some x"
  then have "\<exists>y. jm_get (cl_meta c) k = Some y \<and> om_rid y = om_rid x"
    using assms(2,3,4) by (cases "k = key") auto
  then obtain y where y: "jm_get (cl_meta c) k = Some y" "om_rid y = om_rid x" by blast
  then have "om_rid y < length (cl_idByRid c) \<and> cl_idByRid c ! om_rid y = k" by (intro rids_okD [OF assms(1)])
  then show "om_rid x < length (cl_idByRid c2)" "cl_idByRid c2 ! om_rid x = k" using y(2) assms(5) by simp_all
next
  fix rid
  assume "rid < length (cl_idByRid c2)"
  then have "rid < length (cl_idByRid c)" using assms(5) by simp
  then obtain x where x: "jm_get (cl_meta c) (cl_idByRid c ! rid) = Some x" "om_rid x = rid"
    using rids_okE [OF assms(1)] by blast
  then show "\<exists>m. jm_get (cl_meta c2) (cl_idByRid c2 ! rid) = Some m \<and> om_rid m = rid"
    using assms(2,3,4,5) by (cases "cl_idByRid c ! rid = key") auto
qed

lemma shard_rows_set:
  assumes ok: "rids_ok c" and get: "jm_get (cl_meta c) key = Some m" and rid: "om_rid m' = om_rid m"
    and c2: "cl_meta c2 = jm_set key m' (cl_meta c)"
  shows "shard_rows c2 sh =
    (if was_live m' \<and> om_shard m' = sh then insert (om_rid m) (shard_rows c sh) else shard_rows c sh - {om_rid m})"
proof -
  have other: "k = key" if "jm_get (cl_meta c) k = Some x" "om_rid x = om_rid m" for k x
    by (rule rids_distinct [OF ok that(1) get that(2)])
  have "rid \<in> shard_rows c2 sh \<longleftrightarrow>
      (if rid = om_rid m then was_live m' \<and> om_shard m' = sh else rid \<in> shard_rows c sh)" for rid
  proof (cases "rid = om_rid m")
    case True
    have "rid \<in> shard_rows c2 sh \<longleftrightarrow> (\<exists>k x. jm_get (cl_meta c2) k = Some x \<and> was_live x \<and> om_shard x = sh \<and> om_rid x = om_rid m)"
      using True by (simp add: shard_rows_def)
    also have "\<dots> \<longleftrightarrow> was_live m' \<and> om_shard m' = sh"
    proof
      assume "\<exists>k x. jm_get (cl_meta c2) k = Some x \<and> was_live x \<and> om_shard x = sh \<and> om_rid x = om_rid m"
      then obtain k x where kx: "jm_get (cl_meta c2) k = Some x" "was_live x" "om_shard x = sh" "om_rid x = om_rid m" by blast
      then have "k = key" using other [of k x] by (auto simp: c2 split: if_splits)
      then show "was_live m' \<and> om_shard m' = sh" using kx by (simp add: c2)
    next
      assume "was_live m' \<and> om_shard m' = sh"
      then show "\<exists>k x. jm_get (cl_meta c2) k = Some x \<and> was_live x \<and> om_shard x = sh \<and> om_rid x = om_rid m"
        using rid by (intro exI [of _ key] exI [of _ m']) (simp add: c2)
    qed
    finally show ?thesis using True by simp
  next
    case False
    have "(jm_get (cl_meta c2) k = Some x \<and> om_rid x = rid) \<longleftrightarrow> (jm_get (cl_meta c) k = Some x \<and> om_rid x = rid)" for k x
      using False rid get by (auto simp: c2)
    then show ?thesis using False unfolding shard_rows_def by auto
  qed
  then have "\<And>rid. rid \<in> shard_rows c2 sh \<longleftrightarrow> rid \<in> (if was_live m' \<and> om_shard m' = sh
      then insert (om_rid m) (shard_rows c sh) else shard_rows c sh - {om_rid m})"
    by (simp split: if_split)
  then show ?thesis by (rule set_eqI)
qed

lemma live_keys_set: "cl_meta c2 = jm_set key m' (cl_meta c) \<Longrightarrow>
    live_keys c2 = (if was_live m' then insert key (live_keys c) else live_keys c - {key})"
  by (auto simp: live_keys_def)

lemma in_shard_rows: "rids_ok c \<Longrightarrow> jm_get (cl_meta c) key = Some m \<Longrightarrow> om_rid m \<in> shard_rows c sh \<longleftrightarrow> was_live m \<and> om_shard m = sh"
proof
  assume ok: "rids_ok c" and get: "jm_get (cl_meta c) key = Some m" and "om_rid m \<in> shard_rows c sh"
  then obtain k x where x: "jm_get (cl_meta c) k = Some x" "was_live x" "om_shard x = sh" "om_rid x = om_rid m"
    unfolding shard_rows_def by blast
  have "k = key" by (rule rids_distinct [OF ok x(1) get x(4)])
  then show "was_live m \<and> om_shard m = sh" using x get by simp
next
  assume "jm_get (cl_meta c) key = Some m" "was_live m \<and> om_shard m = sh"
  then show "om_rid m \<in> shard_rows c sh" unfolding shard_rows_def by blast
qed

lemma in_live_keys: "jm_get (cl_meta c) key = Some m \<Longrightarrow> key \<in> live_keys c \<longleftrightarrow> was_live m"
  by (auto simp: live_keys_def)

text \<open>The bookkeeping of \<open>_putObject\<close>: the row becomes live under its shard.\<close>

definition count_put :: "obj_meta \<Rightarrow> obj_meta \<Rightarrow> coll \<Rightarrow> coll" where
  "count_put m m' c =
     (if \<not> was_live m then addShardRid (om_rid m) (om_shard m') (c\<lparr>cl_liveCount := cl_liveCount c + 1\<rparr>)
      else if om_shard m \<noteq> om_shard m' then addShardRid (om_rid m) (om_shard m') (removeShardRid (om_rid m) (om_shard m) c)
      else c)"

definition count_delete :: "obj_meta \<Rightarrow> coll \<Rightarrow> coll" where
  "count_delete m c = (if was_live m then removeShardRid (om_rid m) (om_shard m) (c\<lparr>cl_liveCount := cl_liveCount c - 1\<rparr>) else c)"

lemma add_shard_fields:
  "cl_meta (addShardRid rid sh c) = cl_meta c" "cl_idByRid (addShardRid rid sh c) = cl_idByRid c"
  "cl_liveCount (addShardRid rid sh c) = cl_liveCount c"
  "bag_ok (cl_shardIds c) \<Longrightarrow> bag_ok (cl_shardIds (addShardRid rid sh c))"
  "set (bag_get (cl_shardIds (addShardRid rid sh c)) key) =
     (if sh = Some key then insert rid (set (bag_get (cl_shardIds c) key)) else set (bag_get (cl_shardIds c) key))"
  "cl_unsharded (addShardRid rid sh c) = (if sh = None then cl_unsharded c + 1 else cl_unsharded c)"
  by (auto simp: addShardRid_def bag_add_get split: option.split)

lemma remove_shard_fields:
  "cl_meta (removeShardRid rid sh c) = cl_meta c" "cl_idByRid (removeShardRid rid sh c) = cl_idByRid c"
  "cl_liveCount (removeShardRid rid sh c) = cl_liveCount c"
  "bag_ok (cl_shardIds c) \<Longrightarrow> bag_ok (cl_shardIds (removeShardRid rid sh c))"
  "set (bag_get (cl_shardIds (removeShardRid rid sh c)) key) =
     (if sh = Some key then set (bag_get (cl_shardIds c) key) - {rid} else set (bag_get (cl_shardIds c) key))"
  "cl_unsharded (removeShardRid rid sh c) = (if sh = None then cl_unsharded c - 1 else cl_unsharded c)"
  by (auto simp: removeShardRid_def bag_del_get split: option.split)

lemma card_shard:
  assumes "rids_ok c" "jm_get (cl_meta c) key = Some m"
  shows "card (insert (om_rid m) (shard_rows c sh)) = (if was_live m \<and> om_shard m = sh then card (shard_rows c sh) else card (shard_rows c sh) + 1)"
    "card (shard_rows c sh - {om_rid m}) = (if was_live m \<and> om_shard m = sh then card (shard_rows c sh) - 1 else card (shard_rows c sh))"
  using in_shard_rows [OF assms, of sh] finite_shard_rows [of c sh] by (auto simp: insert_absorb card_insert_if)

lemma card_shard_pos: "rids_ok c \<Longrightarrow> jm_get (cl_meta c) key = Some m \<Longrightarrow> was_live m \<Longrightarrow> 0 < card (shard_rows c (om_shard m))"
  using in_shard_rows [of c key m "om_shard m"] finite_shard_rows [of c "om_shard m"] by (auto simp: card_gt_0_iff)

lemma core_ok_put:
  assumes ok: "core_ok c" and get: "jm_get (cl_meta c) key = Some m" and live: "was_live m'" and rid: "om_rid m' = om_rid m"
    and c2: "core c2 = core (c\<lparr>cl_meta := jm_set key m' (cl_meta c)\<rparr>)"
  shows "core_ok (count_put m m' c2)"
proof -
  have f: "cl_meta c2 = jm_set key m' (cl_meta c)" "cl_idByRid c2 = cl_idByRid c" "cl_shardIds c2 = cl_shardIds c"
    "cl_unsharded c2 = cl_unsharded c" "cl_liveCount c2 = cl_liveCount c"
    using c2 by (simp_all add: core_eq)
  note r = core_okD(1) [OF ok] and sh = core_okD(2-4) [OF ok] and lc = core_okD(5) [OF ok]
  define c3 where "c3 = count_put m m' c2"
  have m3: "cl_meta c3 = jm_set key m' (cl_meta c)" "cl_idByRid c3 = cl_idByRid c"
    by (simp_all add: c3_def count_put_def add_shard_fields remove_shard_fields f)
  have rows: "shard_rows c3 s = (if om_shard m' = s then insert (om_rid m) (shard_rows c s) else shard_rows c s - {om_rid m})" for s
    using shard_rows_set [OF r get rid m3(1), of s] live by simp
  have mem: "om_rid m \<in> shard_rows c s \<longleftrightarrow> was_live m \<and> om_shard m = s" for s by (rule in_shard_rows [OF r get])
  have bag: "bag_ok (cl_shardIds c3)" using sh(1) by (simp add: c3_def count_put_def add_shard_fields remove_shard_fields f)
  have bags: "set (bag_get (cl_shardIds c3) k) = shard_rows c3 (Some k)" for k
    using mem [of "Some k"] unfolding rows
    by (auto simp: c3_def count_put_def add_shard_fields remove_shard_fields f sh(2))
  have un: "cl_unsharded c3 = card (shard_rows c3 None)"
    using card_shard [OF r get, of None] card_shard_pos [OF r get] unfolding rows
    by (auto simp: c3_def count_put_def add_shard_fields remove_shard_fields f sh(3))
  have cnt: "cl_liveCount c3 = int (card (live_keys c3))"
    using live_keys_set [OF m3(1)] live in_live_keys [OF get] finite_live_keys [of c] lc
    by (auto simp: c3_def count_put_def add_shard_fields remove_shard_fields f card_insert_if insert_absorb)
  show ?thesis unfolding c3_def [symmetric] by (rule core_okI [OF rids_ok_set [OF r get rid m3] bag bags un cnt])
qed

lemma core_ok_delete:
  assumes ok: "core_ok c" and get: "jm_get (cl_meta c) key = Some m" and dead: "\<not> was_live m'" and rid: "om_rid m' = om_rid m"
    and c2: "core c2 = core (c\<lparr>cl_meta := jm_set key m' (cl_meta c)\<rparr>)"
  shows "core_ok (count_delete m c2)"
proof -
  have f: "cl_meta c2 = jm_set key m' (cl_meta c)" "cl_idByRid c2 = cl_idByRid c" "cl_shardIds c2 = cl_shardIds c"
    "cl_unsharded c2 = cl_unsharded c" "cl_liveCount c2 = cl_liveCount c"
    using c2 by (simp_all add: core_eq)
  note r = core_okD(1) [OF ok] and sh = core_okD(2-4) [OF ok] and lc = core_okD(5) [OF ok]
  define c3 where "c3 = count_delete m c2"
  have m3: "cl_meta c3 = jm_set key m' (cl_meta c)" "cl_idByRid c3 = cl_idByRid c"
    by (simp_all add: c3_def count_delete_def remove_shard_fields f)
  have rows: "shard_rows c3 s = shard_rows c s - {om_rid m}" for s
    using shard_rows_set [OF r get rid m3(1), of s] dead by simp
  have mem: "om_rid m \<in> shard_rows c s \<longleftrightarrow> was_live m \<and> om_shard m = s" for s by (rule in_shard_rows [OF r get])
  have bag: "bag_ok (cl_shardIds c3)" using sh(1) by (simp add: c3_def count_delete_def remove_shard_fields f)
  have bags: "set (bag_get (cl_shardIds c3) k) = shard_rows c3 (Some k)" for k
    using mem [of "Some k"] unfolding rows by (auto simp: c3_def count_delete_def remove_shard_fields f sh(2))
  have un: "cl_unsharded c3 = card (shard_rows c3 None)"
    using card_shard(2) [OF r get, of None] unfolding rows by (auto simp: c3_def count_delete_def remove_shard_fields f sh(3))
  have keys: "live_keys c3 = live_keys c - {key}" using live_keys_set [OF m3(1)] dead by simp
  have cnt: "cl_liveCount c3 = int (card (live_keys c3))"
  proof (cases "was_live m")
    case True
    then have mem: "key \<in> live_keys c" using in_live_keys [OF get] by simp
    then have "0 < card (live_keys c)" using finite_live_keys [of c] card_gt_0_iff by blast
    moreover have "cl_liveCount c3 = cl_liveCount c - 1" using True by (simp add: c3_def count_delete_def remove_shard_fields f)
    ultimately show ?thesis unfolding keys using mem finite_live_keys [of c] lc by simp
  next
    case False
    then have "key \<notin> live_keys c" using in_live_keys [OF get] by simp
    moreover have "cl_liveCount c3 = cl_liveCount c" using False by (simp add: c3_def count_delete_def f)
    ultimately show ?thesis unfolding keys using lc by simp
  qed
  show ?thesis unfolding c3_def [symmetric] by (rule core_okI [OF rids_ok_set [OF r get rid m3] bag bags un cnt])
qed

subsection \<open>Writes keep the bookkeeping\<close>

lemma count_put_unfold:
  "(if \<not> was_live m then addShardRid (om_rid m) sh (c\<lparr>cl_liveCount := cl_liveCount c + 1\<rparr>)
    else if (if was_live m then om_shard m else None) \<noteq> sh
      then addShardRid (om_rid m) sh (removeShardRid (om_rid m) (if was_live m then om_shard m else None) c)
    else c) = count_put m (m\<lparr>om_ts := ts, om_deleted := None, om_shard := sh\<rparr>) c"
  by (simp add: count_put_def)

text \<open>The three ways \<open>_putObject\<close> ends.\<close>

lemma putObject_cases:
  assumes "c_putObject h trusted keepAll row c = (out, c')" "ensureMeta (ri_id row) c = (m, c1)"
  obtains (refused) "out = Inr None" "c' = c1" "om_deleted m \<noteq> None \<and> \<not> gt (ri_ts row) (om_deleted m) \<or> om_ts m \<noteq> None \<and> \<not> gt (ri_ts row) (om_ts m)"
    | (invalid) e where "out = Inl e" "c' = c1" "prepareStoredValue c1 (ri_value row) = Inl e"
    | (accepted) prepared vector base where
        "om_deleted m = None \<or> gt (ri_ts row) (om_deleted m)" "om_ts m = None \<or> gt (ri_ts row) (om_ts m)"
        "prepareStoredValue c1 (ri_value row) = Inr (prepared, vector)"
        "base = (if keepAll \<or> 0 < rq_size (cl_dirty c1) then prepared else baseValueForStorage c1 prepared None)"
        "out = Inr (Some \<lparr>id_rid = om_rid m, id_before = (if was_live m then c_readForQuery h c1 (ri_id row) else None),
           id_after = Some (queryObjectFromStoredValue (ri_id row) prepared)\<rparr>)"
        "c' = count_put m (m\<lparr>om_ts := ri_ts row, om_deleted := None, om_shard := or_shard (normalizeShard (ri_shard row)) (om_shard m)\<rparr>)
           (applyVectorUpdate (ri_id row) vector (writeBaseValue h (ri_id row) (om_rid m) base trusted
             (c1\<lparr>cl_meta := jm_set (ri_id row) (m\<lparr>om_ts := ri_ts row, om_deleted := None,
                om_shard := or_shard (normalizeShard (ri_shard row)) (om_shard m)\<rparr>) (cl_meta c1)\<rparr>)))"
proof (cases "om_deleted m \<noteq> None \<and> \<not> gt (ri_ts row) (om_deleted m)")
  case True
  then show ?thesis using refused assms by (simp add: c_putObject_def)
next
  case del: False
  show ?thesis
  proof (cases "om_ts m \<noteq> None \<and> \<not> gt (ri_ts row) (om_ts m)")
    case True
    then show ?thesis using refused assms del by (auto simp: c_putObject_def Let_def)
  next
    case False
    show ?thesis
    proof (cases "prepareStoredValue c1 (ri_value row)")
      case (Inl e)
      then show ?thesis using invalid [of e] assms del False by (auto simp: c_putObject_def Let_def)
    next
      case (Inr pv)
      obtain prepared vector where pv: "pv = (prepared, vector)" by (cases pv)
      show ?thesis
        by (rule accepted [OF _ _ _ refl])
          (use assms del False Inr pv in \<open>auto simp: c_putObject_def Let_def count_put_unfold\<close>)
    qed
  qed
qed

lemma putObject_core_ok:
  assumes ok: "core_ok c" and ts: "ri_ts row \<noteq> None" and put: "c_putObject h trusted keepAll row c = (out, c')"
  shows "core_ok c'"
proof -
  obtain m c1 where em: "ensureMeta (ri_id row) c = (m, c1)" by (cases "ensureMeta (ri_id row) c")
  note e = ensureMeta_props [OF ok em]
  from put em show ?thesis
  proof (cases rule: putObject_cases)
    case (accepted prepared vector base)
    show ?thesis unfolding accepted(6)
      by (rule core_ok_put [OF e(1,2)]) (use ts in \<open>simp_all add: was_live_def core_simps\<close>)
  qed (use e in simp_all)
qed

lemma put_loop_core_ok:
  "core_ok c \<Longrightarrow> \<forall>row \<in> set rows. ri_ts row \<noteq> None \<Longrightarrow> put_loop h trusted keepAll rows c applied deltas = (out, c') \<Longrightarrow> core_ok c'"
proof (induction rows arbitrary: c applied deltas)
  case (Cons row rows)
  obtain out1 c1 where one: "c_putObject h trusted keepAll row c = (out1, c1)" by (cases "c_putObject h trusted keepAll row c")
  have ok1: "core_ok c1" by (rule putObject_core_ok [OF Cons.prems(1) _ one]) (use Cons.prems(2) in simp)
  show ?case
  proof (cases out1)
    case (Inl e)
    then show ?thesis using Cons.prems(3) one ok1 by simp
  next
    case (Inr d)
    then show ?thesis using Cons.IH [OF ok1] Cons.prems(2,3) one by (cases d) simp_all
  qed
qed simp

lemma putObjects_core_ok:
  assumes "core_ok c" "\<forall>row \<in> set rows. ri_ts row \<noteq> None" "putObjects h trusted rows c = (out, c')"
  shows "core_ok c'"
proof -
  obtain out1 c1 where loop: "put_loop h trusted (shouldDeferIndexDeltasForCount (length rows) c) rows c [] [] = (out1, c1)"
    by (cases "put_loop h trusted (shouldDeferIndexDeltasForCount (length rows) c) rows c [] []")
  have ok1: "core_ok c1" by (rule put_loop_core_ok [OF assms(1,2) loop])
  have "core c' = core c1" using assms(3) loop by (auto simp: putObjects_def core_simps split: sum.splits)
  then show ?thesis using core_ok_cong ok1 by metis
qed

lemma deleteObject_cases:
  assumes "c_deleteObject h row c = (out, c')" "ensureMeta (rd_id row) c = (m, c1)"
  obtains (refused) "out = None" "c' = c1" "(case om_deleted m of None \<Rightarrow> om_ts m | Some t \<Rightarrow> Some t) \<noteq> None"
      "\<not> gt (rd_ts row) (case om_deleted m of None \<Rightarrow> om_ts m | Some t \<Rightarrow> Some t)"
    | (accepted)
        "(case om_deleted m of None \<Rightarrow> om_ts m | Some t \<Rightarrow> Some t) = None \<or> gt (rd_ts row) (case om_deleted m of None \<Rightarrow> om_ts m | Some t \<Rightarrow> Some t)"
        "out = Some \<lparr>id_rid = om_rid m, id_before = (if was_live m then c_readForQuery h c1 (rd_id row) else None), id_after = None\<rparr>"
        "c' = count_delete m (removeVector (rd_id row) (clearCompressedCold (om_rid m)
           (c1\<lparr>cl_meta := jm_set (rd_id row) (m\<lparr>om_deleted := rd_ts row,
                 om_shard := (if truthy (rd_shard row) then normalizeShard (rd_shard row) else om_shard m)\<rparr>) (cl_meta c1),
               cl_store := ph_remove h (cl_store c1) (rd_id row)\<rparr>)))"
proof (cases "(case om_deleted m of None \<Rightarrow> om_ts m | Some t \<Rightarrow> Some t) \<noteq> None \<and>
    \<not> gt (rd_ts row) (case om_deleted m of None \<Rightarrow> om_ts m | Some t \<Rightarrow> Some t)")
  case True
  then show ?thesis using refused assms by (simp add: c_deleteObject_def Let_def)
next
  case False
  show ?thesis
    by (rule accepted) (use assms False in \<open>auto simp: c_deleteObject_def Let_def count_delete_def\<close>)
qed

lemma deleteObject_core_ok:
  assumes ok: "core_ok c" and ts: "rd_ts row \<noteq> None" and del: "c_deleteObject h row c = (out, c')"
  shows "core_ok c'"
proof -
  obtain m c1 where em: "ensureMeta (rd_id row) c = (m, c1)" by (cases "ensureMeta (rd_id row) c")
  note e = ensureMeta_props [OF ok em]
  from del em show ?thesis
  proof (cases rule: deleteObject_cases)
    case refused
    then show ?thesis using e by simp
  next
    case accepted
    define m' where "m' = m\<lparr>om_deleted := rd_ts row, om_shard := (if truthy (rd_shard row) then normalizeShard (rd_shard row) else om_shard m)\<rparr>"
    have "core (removeVector (rd_id row) (clearCompressedCold (om_rid m) (c1\<lparr>cl_meta := jm_set (rd_id row) m' (cl_meta c1),
        cl_store := ph_remove h (cl_store c1) (rd_id row)\<rparr>))) = core (c1\<lparr>cl_meta := jm_set (rd_id row) m' (cl_meta c1)\<rparr>)"
      unfolding core_simps by (simp add: core_def)
    then show ?thesis unfolding accepted(3) m'_def [symmetric]
      by (rule core_ok_delete [OF e(1,2), rotated 2]) (use ts in \<open>simp_all add: m'_def was_live_def\<close>)
  qed
qed

lemma delete_loop_core_ok:
  "core_ok c \<Longrightarrow> \<forall>row \<in> set rows. rd_ts row \<noteq> None \<Longrightarrow> delete_loop h rows c applied deltas = (out, c') \<Longrightarrow> core_ok c'"
proof (induction rows arbitrary: c applied deltas)
  case (Cons row rows)
  obtain out1 c1 where one: "c_deleteObject h row c = (out1, c1)" by (cases "c_deleteObject h row c")
  have ok1: "core_ok c1" by (rule deleteObject_core_ok [OF Cons.prems(1) _ one]) (use Cons.prems(2) in simp)
  show ?case using Cons.IH [OF ok1] Cons.prems(2,3) one by (cases out1) simp_all
qed simp

lemma deleteObjects_core_ok:
  assumes "core_ok c" "\<forall>row \<in> set rows. rd_ts row \<noteq> None" "deleteObjects h rows c = (out, c')"
  shows "core_ok c'"
proof -
  obtain out1 c1 where loop: "delete_loop h rows c [] [] = (out1, c1)" by (cases "delete_loop h rows c [] []")
  have ok1: "core_ok c1" by (rule delete_loop_core_ok [OF assms(1,2) loop])
  have "core c' = core c1" using assms(3) loop by (auto simp: deleteObjects_def core_simps split: prod.splits)
  then show ?thesis using core_ok_cong ok1 by metis
qed

lemma newCollection_core_ok: "core_ok (newCollection s f)"
  by (simp add: newCollection_def core_ok_def rids_ok_def shards_ok_def shard_rows_def live_keys_def bag_get_def)

end
