(* ===== verification/CollRun.thy ===== *)
theory CollRun
  imports CollCore
begin

text \<open>
  Runs of a collection: any sequence of writes, snapshots, changes of indexes and metadata and steps of the background jobs keeps the
  bookkeeping of rows exact.
\<close>

subsection \<open>The jobs and the metadata leave the bookkeeping alone\<close>

lemma core_field_finish [core_simps]: "core (field_build_finish h targets built c) = core c"
proof -
  have "core (c\<lparr>cl_indexes := a, cl_fieldBuilds := b\<rparr>) = core c" for a b and c :: coll by (simp add: core_def)
  then show ?thesis by (auto simp: field_build_finish_def intro!: core_fold split: option.split)
qed

lemma core_start_field [core_simps]: "core (snd (startFieldIndexBuild paths c)) = core c"
proof (induction paths arbitrary: c)
  case (Cons path paths)
  have "core (c\<lparr>cl_indexes := a, cl_fieldBuilds := b, cl_nextBuild := n\<rparr>) = core c" for a b n by (simp add: core_def)
  then show ?case using Cons.IH by (simp add: Let_def split: prod.split) (metis snd_conv)
qed simp

lemma core_fold_pair: "(\<And>a c x. core (snd (f (a, c) x)) = core c) \<Longrightarrow> core (snd (foldl f (a, c) xs)) = core c"
proof (induction xs arbitrary: a c)
  case (Cons x xs)
  obtain a1 c1 where step: "f (a, c) x = (a1, c1)" by (cases "f (a, c) x")
  have "core c1 = core c" using Cons.prems [of a c x] step by simp
  then show ?case using Cons.IH [OF Cons.prems] step by simp
qed simp

lemma core_meta_indexes [core_simps]: "core (snd (applyMetaIndexes h background rebuild c)) = core c"
proof -
  have upd: "core (c\<lparr>cl_fieldBuilds := b, cl_indexes := a\<rparr>) = core c" "core (c\<lparr>cl_indexes := a, cl_fieldBuilds := b\<rparr>) = core c"
    for a b and c :: coll by (simp_all add: core_def)
  have cre: "core (createIndexFromMeta h path c) = core c" for path c
    by (simp add: createIndexFromMeta_def Let_def core_def)
  define wanted where "wanted = cm_indexes (cl_cmeta c)"
  define f where "f = (\<lambda>(toBuild, c) path.
            if jm_has (cl_indexes c) path \<and> \<not> rebuild \<or> jm_has (cl_fieldBuilds c) path \<and> \<not> rebuild then (toBuild, c)
            else if cl_liveCount c = 0
            then (toBuild, c\<lparr>cl_fieldBuilds := jm_del path (cl_fieldBuilds c), cl_indexes := jm_set path (newFieldIndex path) (cl_indexes c)\<rparr>)
            else if background then (toBuild @ [path], c)
            else (toBuild, createIndexFromMeta h path c))"
  have "core (snd (f (a, c') x)) = core c'" for a c' x by (simp add: f_def upd cre)
  note f = core_fold_pair [OF this]
  have "applyMetaIndexes h background rebuild c = (case foldl f ([], c\<lparr>cl_indexes := filter (\<lambda>(path, index). path \<in> set wanted) (cl_indexes c),
                 cl_fieldBuilds := filter (\<lambda>(path, build). path \<in> set wanted) (cl_fieldBuilds c)\<rparr>) (js_unique wanted) of
      (toBuild, c2) \<Rightarrow> startFieldIndexBuild toBuild c2)"
    by (simp add: applyMetaIndexes_def f_def wanted_def Let_def)
  then show ?thesis by (simp add: core_simps f upd split_beta)
qed

lemma core_defer [core_simps]: "core (deferMetaIndexes c) = core c"
  by (simp add: deferMetaIndexes_def core_def)

lemma core_columns [core_simps]: "core (c\<lparr>cl_columns := cols\<rparr>) = core c" "core (c\<lparr>cl_columnBuilds := n\<rparr>) = core c"
    "core (c\<lparr>cl_cmeta := cm\<rparr>) = core c" "core (c\<lparr>cl_dirty := q\<rparr>) = core c"
  by (simp_all add: core_def)

lemma core_start_column [core_simps]: "core (snd (startColumnBuild paths c)) = core c"
proof (induction paths arbitrary: c)
  case (Cons path paths)
  show ?case
  proof (cases "jm_get (cl_columns c) path")
    case None
    then show ?thesis using Cons.IH by simp
  next
    case (Some col)
    obtain b col' where "startBuild col = (b, col')" by (cases "startBuild col")
    moreover obtain t c1 where "startColumnBuild paths (c\<lparr>cl_columns := jm_set path col' (cl_columns c)\<rparr>) = (t, c1)"
      by (cases "startColumnBuild paths (c\<lparr>cl_columns := jm_set path col' (cl_columns c)\<rparr>)")
    ultimately show ?thesis using Some Cons.IH [of "c\<lparr>cl_columns := jm_set path col' (cl_columns c)\<rparr>"] by (simp add: core_simps)
  qed
qed simp

lemma core_column_job [core_simps]: "core (snd (column_build_job paths c)) = core c"
proof -
  obtain t c1 where "startColumnBuild paths c = (t, c1)" by (cases "startColumnBuild paths c")
  then show ?thesis using core_start_column [of paths c] by (simp add: column_build_job_def core_simps)
qed

lemma core_meta_columns [core_simps]: "core (snd (applyMetaColumns rebuild c)) = core c"
proof -
  define wanted where "wanted = cm_columns (cl_cmeta c)"
  define f where "f = (\<lambda>(toBuild, c :: coll) path.
            let created = \<not> jm_has (cl_columns c) path;
                col = (case jm_get (cl_columns c) path of None \<Rightarrow> newTypedColumn path | Some col \<Rightarrow> col)
            in if cl_liveCount c = 0 then (toBuild, c\<lparr>cl_columns := jm_set path (empty_column path col) (cl_columns c)\<rparr>)
               else (if created \<or> rebuild \<or> co_status col = Failed then toBuild @ [path] else toBuild,
                     c\<lparr>cl_columns := jm_set path col (cl_columns c)\<rparr>))"
  have "core (snd (f (a, c') x)) = core c'" for a c' x by (simp add: f_def Let_def core_simps)
  note f = core_fold_pair [OF this]
  have "applyMetaColumns rebuild c = (case foldl f ([], c\<lparr>cl_columns := filter (\<lambda>(path, col). path \<in> set wanted) (cl_columns c)\<rparr>)
      (js_unique wanted) of (toBuild, c2) \<Rightarrow> column_build_job toBuild c2)"
    by (simp add: applyMetaColumns_def f_def wanted_def Let_def)
  then show ?thesis by (simp add: core_simps f split_beta)
qed

lemma core_retier [core_simps]: "core (retierBaseValues h c) = core c"
  by (auto simp: retierBaseValues_def core_simps intro!: core_fold split: option.split)

lemma core_setMeta [core_simps]: "core (snd (setMeta h meta deferIndexes c)) = core c"
  using core_meta_columns [of False] core_meta_indexes [of h False False]
  by (auto simp: setMeta_def Let_def core_simps split_beta split: sum.split)

lemma core_strip [core_simps]: "core (stripBaseValuesForColumns h paths c) = core c"
  by (auto simp: stripBaseValuesForColumns_def core_simps intro!: core_fold split: option.split)

lemma core_column_finish [core_simps]: "core (column_build_finish h targets built c) = core c"
proof -
  define f where "f = (\<lambda>(paths, c :: coll) (path, buildId).
       case (jm_get (cl_columns c) path, jm_get built path) of
         (Some target, Some column) \<Rightarrow>
           (case col_install column buildId target of
              (target', True) \<Rightarrow> (paths @ [path], c\<lparr>cl_columns := jm_set path target' (cl_columns c)\<rparr>)
            | (target', False) \<Rightarrow> (paths, c))
       | _ \<Rightarrow> (paths, c))"
  have "core (snd (f (a, c') x)) = core c'" for a c' x
    by (auto simp: f_def core_simps split: option.split prod.split bool.split)
  then have "core (snd (column_install_all targets built c)) = core c"
    unfolding column_install_all_def f_def [symmetric] by (rule core_fold_pair)
  then show ?thesis by (simp add: column_build_finish_def Let_def core_simps split_beta)
qed

subsection \<open>Rebuilding the counts\<close>

text \<open>What a rebuild counts for the rows of a list of metadata entries.\<close>

definition live_metas :: "(string \<times> obj_meta) list \<Rightarrow> obj_meta list" where
  "live_metas es = filter (\<lambda>m. om_deleted m = None) (map snd es)"

definition count_step :: "coll \<Rightarrow> string \<times> obj_meta \<Rightarrow> coll" where
  "count_step c e = (case e of (key, m) \<Rightarrow> if om_deleted m \<noteq> None then c
                         else addShardRid (om_rid m) (om_shard m) (c\<lparr>cl_liveCount := cl_liveCount c + 1\<rparr>))"

lemma recount_fold:
  assumes "bag_ok (cl_shardIds c)"
  shows "cl_meta (foldl count_step c es) = cl_meta c" "cl_idByRid (foldl count_step c es) = cl_idByRid c"
    "cl_liveCount (foldl count_step c es) = cl_liveCount c + int (length (live_metas es))"
    "bag_ok (cl_shardIds (foldl count_step c es))"
    "set (bag_get (cl_shardIds (foldl count_step c es)) key) =
       set (bag_get (cl_shardIds c) key) \<union> om_rid ` set (filter (\<lambda>m. om_shard m = Some key) (live_metas es))"
    "cl_unsharded (foldl count_step c es) = cl_unsharded c + length (filter (\<lambda>m. om_shard m = None) (live_metas es))"
proof (atomize (full), use assms in \<open>induction es arbitrary: c\<close>)
  case Nil
  then show ?case by (simp add: live_metas_def)
next
  case (Cons e es)
  obtain k m where e: "e = (k, m)" by (cases e)
  have "bag_ok (cl_shardIds (count_step c e))" using Cons.prems by (simp add: count_step_def e add_shard_fields)
  note IH = Cons.IH [OF this]
  show ?case
  proof (cases "om_deleted m = None")
    case True
    then have "count_step c e = addShardRid (om_rid m) (om_shard m) (c\<lparr>cl_liveCount := cl_liveCount c + 1\<rparr>)"
      "live_metas (e # es) = m # live_metas es" by (simp_all add: count_step_def e live_metas_def)
    then show ?thesis using IH Cons.prems by (auto simp: add_shard_fields)
  next
    case False
    then have "count_step c e = c" "live_metas (e # es) = live_metas es" by (simp_all add: count_step_def e live_metas_def)
    then show ?thesis using IH by simp
  qed
qed

definition settled :: "coll \<Rightarrow> bool" where
  "settled c \<longleftrightarrow> (\<forall>key m. jm_get (cl_meta c) key = Some m \<longrightarrow> om_ts m \<noteq> None \<or> om_deleted m \<noteq> None)"

lemma settledD: "settled c \<Longrightarrow> jm_get (cl_meta c) key = Some m \<Longrightarrow> was_live m \<longleftrightarrow> om_deleted m = None"
  unfolding settled_def was_live_def by (metis (no_types))

lemma settledI: "(\<And>key m. jm_get (cl_meta c) key = Some m \<Longrightarrow> om_ts m \<noteq> None \<or> om_deleted m \<noteq> None) \<Longrightarrow> settled c"
  unfolding settled_def by blast

lemma settled_cong: "core c = core c' \<Longrightarrow> settled c = settled c'"
  by (simp add: core_eq settled_def)

text \<open>Counting all rows anew gives the exact bookkeeping.\<close>

lemma recount_core_ok:
  assumes rids: "rids_ok c" and settled: "settled c"
    and c1: "core c1 = core (foldl count_step (c\<lparr>cl_liveCount := 0, cl_shardIds := [], cl_unsharded := 0\<rparr>) (cl_meta c))"
  shows "core_ok c1"
proof -
  define c0 where "c0 = c\<lparr>cl_liveCount := 0, cl_shardIds := [], cl_unsharded := 0\<rparr>"
  define es where "es = filter (\<lambda>e. om_deleted (snd e) = None) (cl_meta c)"
  have lm: "live_metas (cl_meta c) = map snd es" by (simp add: live_metas_def es_def filter_map comp_def)
  have jm: "jm_ok (cl_meta c)" using rids by (simp add: rids_ok_def)
  have mem: "(k, m) \<in> set es \<longleftrightarrow> jm_get (cl_meta c) k = Some m \<and> was_live m" for k m
    using jm_get_mem [OF jm, of k m] settledD [OF settled, of k m] by (auto simp: es_def)
  have dk: "distinct (map fst es)" using jm unfolding es_def by (simp add: distinct_map_filter)
  have inj: "inj_on (om_rid \<circ> snd) (set es)"
  proof (rule inj_onI)
    fix x y assume a: "x \<in> set es" "y \<in> set es" "(om_rid \<circ> snd) x = (om_rid \<circ> snd) y"
    obtain k m k' m' where xy: "x = (k, m)" "y = (k', m')" by (cases x, cases y)
    have g: "jm_get (cl_meta c) k = Some m" "jm_get (cl_meta c) k' = Some m'" using a mem unfolding xy by blast+
    have "om_rid m = om_rid m'" using a(3) by (simp add: xy)
    then have "k = k'" by (rule rids_distinct [OF rids g])
    then show "x = y" using g by (simp add: xy)
  qed
  have des: "distinct es" using dk by (simp add: distinct_map)
  have rows: "om_rid ` set (filter (\<lambda>m. om_shard m = sh) (live_metas (cl_meta c))) = shard_rows c sh" for sh
  proof -
    have "r \<in> om_rid ` set (filter (\<lambda>m. om_shard m = sh) (live_metas (cl_meta c))) \<longleftrightarrow> (\<exists>k m. (k, m) \<in> set es \<and> om_shard m = sh \<and> om_rid m = r)" for r
      unfolding lm by (auto simp: image_iff) force+
    then show ?thesis unfolding mem shard_rows_def by blast
  qed
  have len: "length (filter (\<lambda>m. om_shard m = None) (live_metas (cl_meta c))) = card (shard_rows c None)"
  proof -
    have "inj_on (om_rid \<circ> snd) (set (filter (\<lambda>e. om_shard (snd e) = None) es))" by (rule inj_on_subset [OF inj]) auto
    then have "distinct (map (om_rid \<circ> snd) (filter (\<lambda>e. om_shard (snd e) = None) es))"
      unfolding distinct_map using des by (intro conjI distinct_filter)
    from distinct_card [OF this]
    have "card ((om_rid \<circ> snd) ` set (filter (\<lambda>e. om_shard (snd e) = None) es)) = length (filter (\<lambda>e. om_shard (snd e) = None) es)"
      by (simp only: set_map length_map)
    moreover have "(om_rid \<circ> snd) ` set (filter (\<lambda>e. om_shard (snd e) = None) es) = shard_rows c None"
      unfolding rows [symmetric] lm by (auto simp: image_iff)
    ultimately show ?thesis unfolding lm by (simp add: filter_map comp_def)
  qed
  have live: "length (live_metas (cl_meta c)) = card (live_keys c)"
  proof -
    have "set (map fst es) = live_keys c" using mem unfolding live_keys_def by (auto simp: image_iff) (metis fst_conv)
    then show ?thesis using distinct_card [OF dk] by (simp add: lm)
  qed
  have ok0: "bag_ok (cl_shardIds c0)" by (simp add: c0_def)
  note f = recount_fold [OF ok0, of "cl_meta c"]
  have c1': "cl_meta c1 = cl_meta c" "cl_idByRid c1 = cl_idByRid c" "cl_shardIds c1 = cl_shardIds (foldl count_step c0 (cl_meta c))"
    "cl_unsharded c1 = card (shard_rows c None)" "cl_liveCount c1 = int (card (live_keys c))"
    using c1 f(1,2,3,6) unfolding core_eq c0_def [symmetric] by (simp_all add: c0_def len live)
  have same: "shard_rows c1 sh = shard_rows c sh" "live_keys c1 = live_keys c" for sh
    by (simp_all add: shard_rows_def live_keys_def c1'(1))
  have "rids_ok c1" using rids by (simp add: rids_ok_def c1'(1,2))
  moreover have "set (bag_get (cl_shardIds c1) key) = shard_rows c1 (Some key)" for key
  proof -
    have "bag_get (cl_shardIds c0) key = []" by (simp add: c0_def bag_get_def)
    then show ?thesis unfolding c1'(3) same f(5) rows by simp
  qed
  ultimately show ?thesis using f(4) by (intro core_okI) (simp_all add: c1' same)
qed

subsection \<open>Snapshots\<close>

lemma rebuildCoreState_ok: "rids_ok c \<Longrightarrow> settled c \<Longrightarrow> core_ok (rebuildCoreState c)"
  by (rule recount_core_ok) (simp_all add: rebuildCoreState_def count_step_def [abs_def])

lemma core_count_cong: "core c = core c' \<Longrightarrow> core (count_step c e) = core (count_step c' e)"
  by (auto simp: core_eq count_step_def addShardRid_def split: option.split prod.split)

lemma core_rebuild_row: "core (fst (rebuild_row h columnPaths (c, indexes, columns) e)) = core (count_step c e)"
  by (auto simp: rebuild_row_def count_step_def Let_def core_simps split: prod.split option.split)

lemma core_rebuild_fold:
  "core c = core c' \<Longrightarrow> core (fst (foldl (rebuild_row h columnPaths) (c, indexes, columns) es)) = core (foldl count_step c' es)"
proof (induction es arbitrary: c c' indexes columns)
  case (Cons e es)
  obtain c1 i1 k1 where row: "rebuild_row h columnPaths (c, indexes, columns) e = (c1, i1, k1)"
    by (cases "rebuild_row h columnPaths (c, indexes, columns) e")
  have "core c1 = core (count_step c' e)"
    using core_rebuild_row [of h columnPaths c indexes columns e] core_count_cong [OF Cons.prems] row by simp
  then show ?case using Cons.IH [of c1 "count_step c' e"] row by simp
qed simp

lemma rebuildDerivedState_core:
  "core (rebuildDerivedState h c) = core (foldl count_step (c\<lparr>cl_liveCount := 0, cl_shardIds := [], cl_unsharded := 0\<rparr>) (cl_meta c))"
proof -
  define c0 where "c0 = c\<lparr>cl_liveCount := 0, cl_shardIds := [], cl_unsharded := 0\<rparr>"
  have "core (foldl count_step c0 (cl_meta c)) =
      core (fst (foldl (rebuild_row h (cm_columns (cl_cmeta c))) (c0, map (\<lambda>path. (path, newFieldIndex path)) (cm_indexes (cl_cmeta c)),
        map (\<lambda>path. (path, newTypedColumn path)) (cm_columns (cl_cmeta c))) (cl_meta c)))"
    using core_rebuild_fold [OF refl] by metis
  moreover have "core (c1\<lparr>cl_indexes := a, cl_fieldBuilds := [], cl_columns := b, cl_columnBuilds := 0, cl_dirty := q, cl_dirtyBuild := False\<rparr>) = core c1"
    for a b q c1 by (simp add: core_def)
  ultimately show "core (rebuildDerivedState h c) = core (foldl count_step c0 (cl_meta c))"
    unfolding rebuildDerivedState_def Let_def c0_def [symmetric] by (auto split: prod.split)
qed

lemma rebuildDerivedState_ok: "rids_ok c \<Longrightarrow> settled c \<Longrightarrow> core_ok (rebuildDerivedState h c)"
  by (rule recount_core_ok) (simp_all add: rebuildDerivedState_core)

lemma rebuild_frame: "cl_meta (rebuildDerivedState h c) = cl_meta c \<and> cl_vectorField (rebuildDerivedState h c) = cl_vectorField c"
proof -
  have count: "cl_meta (count_step c' e) = cl_meta c' \<and> cl_vectorField (count_step c' e) = cl_vectorField c'" for c' e
    by (auto simp: count_step_def addShardRid_def split: prod.split option.split)
  have "cl_meta (foldl count_step c' es) = cl_meta c' \<and> cl_vectorField (foldl count_step c' es) = cl_vectorField c'" for c' es
    by (induction es arbitrary: c') (simp_all add: count)
  then show ?thesis using rebuildDerivedState_core [of h c] by (simp add: core_eq)
qed

lemma ensureMeta_other: "ensureMeta key c = (m, c1) \<Longrightarrow> k \<noteq> key \<Longrightarrow> jm_get (cl_meta c1) k = jm_get (cl_meta c) k"
    "ensureMeta key c = (m, c1) \<Longrightarrow> jm_get (cl_meta c1) key = Some m"
    "ensureMeta key c = (m, c1) \<Longrightarrow> om_ts m \<noteq> None \<or> om_deleted m \<noteq> None \<Longrightarrow> c1 = c"
    "ensureMeta key c = (m, c1) \<Longrightarrow> cl_vectorField c1 = cl_vectorField c"
  by (auto simp: ensureMeta_def allocateRid_def Let_def split: option.splits)

lemma settled_set:
  assumes "settled c" "ensureMeta key c = (m, c1)" "cl_meta c2 = jm_set key m' (cl_meta c1)" "om_ts m' \<noteq> None \<or> om_deleted m' \<noteq> None"
  shows "settled c2"
proof (rule settledI)
  fix k x assume get: "jm_get (cl_meta c2) k = Some x"
  show "om_ts x \<noteq> None \<or> om_deleted x \<noteq> None"
  proof (cases "k = key")
    case True
    then show ?thesis using get assms(4) by (simp add: assms(3))
  next
    case False
    then have "jm_get (cl_meta c) k = Some x" using get ensureMeta_other(1) [OF assms(2) False] by (simp add: assms(3))
    then show ?thesis using assms(1) unfolding settled_def by blast
  qed
qed

lemma rids_ensureMeta:
  assumes "rids_ok c" "settled c" "ensureMeta key c = (m, c1)"
  shows "rids_ok c1"
proof -
  define c0 where "c0 = rebuildCoreState c"
  have c0: "core_ok c0" unfolding c0_def by (rule rebuildCoreState_ok [OF assms(1,2)])
  have "cl_meta c0 = cl_meta c" "cl_idByRid c0 = cl_idByRid c"
    using recount_fold(1,2) [of "c\<lparr>cl_liveCount := 0, cl_shardIds := [], cl_unsharded := 0\<rparr>" "cl_meta c"]
    unfolding c0_def rebuildCoreState_def count_step_def [abs_def] by simp_all
  then obtain c1' where "ensureMeta key c0 = (m, c1')" "cl_meta c1' = cl_meta c1" "cl_idByRid c1' = cl_idByRid c1"
    using assms(3) by (auto simp: ensureMeta_def allocateRid_def Let_def split: option.splits)
  then show ?thesis using core_okD(1) [OF ensureMeta_props(1) [OF c0]] unfolding rids_ok_def by metis
qed

text \<open>A row of a snapshot that says when it was written or deleted.\<close>

definition timed_row :: "snap_row \<Rightarrow> bool" where
  "timed_row row \<longleftrightarrow> sr_ts row \<noteq> None \<or> sr_deleted row \<noteq> None"

lemma prepare_no_vector: "cl_vectorField c = None \<Longrightarrow> prepareStoredValue c v = Inr (or_empty v, VAbsent)"
  by (simp add: prepareStoredValue_def extractVector_def Let_def)

lemma snapshot_step:
  assumes ok: "rids_ok c" "settled c" and vf: "cl_vectorField c = None" and timed: "timed_row row"
    and run: "applySnapshotObject h deferDerived trusted row c = (out, c')"
  shows "rids_ok c' \<and> settled c' \<and> cl_vectorField c' = None \<and> out = Inr True \<or> c' = c \<and> out = Inr False"
proof (cases "sr_id row")
  case None
  then show ?thesis using run by (simp add: applySnapshotObject_def)
next
  case (Some key)
  obtain m c1 where em: "ensureMeta key c = (m, c1)" by (cases "ensureMeta key c")
  note e = ensureMeta_other [OF em] and r1 = rids_ensureMeta [OF ok em]
  have vf1: "cl_vectorField c1 = None" using e(4) vf by simp
  have keep: "rids_ok c' \<and> settled c' \<and> cl_vectorField c' = None"
    if "core c' = core (c1\<lparr>cl_meta := jm_set key m' (cl_meta c1)\<rparr>)" "om_rid m' = om_rid m" "om_ts m' \<noteq> None \<or> om_deleted m' \<noteq> None" for m'
  proof -
    have f: "cl_meta c' = jm_set key m' (cl_meta c1)" "cl_idByRid c' = cl_idByRid c1" "cl_vectorField c' = None"
      using that(1) vf1 by (simp_all add: core_eq)
    show ?thesis using rids_ok_set [OF r1 e(2) that(2) f(1,2)] settled_set [OF ok(2) em f(1) that(3)] f(3) by blast
  qed
  define last' where "last' = (case om_deleted m of None \<Rightarrow> om_ts m | Some t \<Rightarrow> Some t)"
  define shard where "shard = or_shard (normalizeShard (sr_shard row)) (om_shard m)"
  define base where "base = (if deferDerived then or_empty (or_empty (sr_value row)) else baseValueForStorage c1 (or_empty (or_empty (sr_value row))) None)"
  have run': "(out, c') =
     (if sr_deleted row \<noteq> None
      then if last' \<noteq> None \<and> \<not> gt (sr_deleted row) last' then (Inr False, c1)
           else (Inr True, refreshColumns h (om_rid m) None (removeVector key (clearCompressedCold (om_rid m)
             (c1\<lparr>cl_meta := jm_set key (m\<lparr>om_ts := (if sr_ts row \<noteq> None then sr_ts row else om_ts m), om_deleted := sr_deleted row, om_shard := shard\<rparr>) (cl_meta c1),
                 cl_store := ph_remove h (cl_store c1) key\<rparr>))))
      else if sr_ts row = None then (Inr False, c1)
      else if om_deleted m \<noteq> None \<and> \<not> gt (sr_ts row) (om_deleted m) then (Inr False, c1)
      else if om_ts m \<noteq> None \<and> \<not> gt (sr_ts row) (om_ts m) then (Inr False, c1)
      else (Inr True, refreshColumns h (om_rid m) (Some (or_empty (or_empty (sr_value row)))) (applyVectorUpdate key VAbsent
             (writeBaseValue h key (om_rid m) base trusted
               (c1\<lparr>cl_meta := jm_set key (m\<lparr>om_ts := sr_ts row, om_deleted := None, om_shard := shard\<rparr>) (cl_meta c1)\<rparr>)))))"
    unfolding run [symmetric] applySnapshotObject_def Some option.case em prod.case Let_def prepare_no_vector [OF vf1] sum.case
      last'_def [symmetric] shard_def [symmetric] base_def [symmetric] by (rule refl)
  show ?thesis
  proof (cases "sr_deleted row = None")
    case del: True
    then have ts: "sr_ts row \<noteq> None" using timed by (simp add: timed_row_def)
    show ?thesis
    proof (cases "om_deleted m \<noteq> None \<and> \<not> gt (sr_ts row) (om_deleted m) \<or> om_ts m \<noteq> None \<and> \<not> gt (sr_ts row) (om_ts m)")
      case True
      then have "c1 = c" using e(3) by blast
      then show ?thesis using run' True del ts by (simp split: if_splits del: gt.simps)
    next
      case False
      define m' where "m' = m\<lparr>om_ts := sr_ts row, om_deleted := None, om_shard := shard\<rparr>"
      have "out = Inr True" "core c' = core (c1\<lparr>cl_meta := jm_set key m' (cl_meta c1)\<rparr>)"
        using run' False del ts unfolding m'_def by (simp_all add: core_simps del: gt.simps split: if_splits)
      then show ?thesis using keep [of m'] ts by (simp add: m'_def)
    qed
  next
    case del: False
    show ?thesis
    proof (cases "last' \<noteq> None \<and> \<not> gt (sr_deleted row) last'")
      case True
      then have "c1 = c" using e(3) by (auto simp: last'_def split: option.splits)
      then show ?thesis using run' True del by (simp del: gt.simps)
    next
      case False
      define m' where "m' = m\<lparr>om_ts := (if sr_ts row \<noteq> None then sr_ts row else om_ts m),
                                        om_deleted := sr_deleted row, om_shard := shard\<rparr>"
      have "core (c1\<lparr>cl_meta := a, cl_store := b\<rparr>) = core (c1\<lparr>cl_meta := a\<rparr>)" for a b by (simp add: core_def)
      moreover have "(out, c') = (Inr True, refreshColumns h (om_rid m) None (removeVector key (clearCompressedCold (om_rid m)
             (c1\<lparr>cl_meta := jm_set key m' (cl_meta c1), cl_store := ph_remove h (cl_store c1) key\<rparr>))))"
        unfolding run' if_P [OF del] if_not_P [OF False] m'_def by (rule refl)
      ultimately have "out = Inr True" "core c' = core (c1\<lparr>cl_meta := jm_set key m' (cl_meta c1)\<rparr>)"
        by (simp_all add: core_simps)
      then show ?thesis using keep [of m'] del by (simp add: m'_def)
    qed
  qed
qed

lemma snapshot_loop_ok:
  assumes "rids_ok c" "settled c" "cl_vectorField c = None" "\<forall>row \<in> set rows. timed_row row" "snapshot_loop h deferDerived trusted rows n c = (out, c')"
  shows "rids_ok c' \<and> settled c' \<and> cl_vectorField c' = None \<and> (\<exists>k. out = Inr k \<and> n \<le> k \<and> (k = n \<longrightarrow> c' = c))"
  using assms
proof (induction rows arbitrary: n c)
  case (Cons row rows)
  obtain out1 c1 where one: "applySnapshotObject h deferDerived trusted row c = (out1, c1)" by (cases "applySnapshotObject h deferDerived trusted row c")
  have timed: "timed_row row" "\<forall>row \<in> set rows. timed_row row" using Cons.prems(4) by simp_all
  note step = snapshot_step [OF Cons.prems(1-3) timed(1) one]
  have "\<exists>b. out1 = Inr b" using step by blast
  then obtain b where b: "out1 = Inr b" by blast
  show ?case
  proof (cases b)
    case True
    then have s: "rids_ok c1" "settled c1" "cl_vectorField c1 = None" using step b by auto
    have "snapshot_loop h deferDerived trusted rows (n + 1) c1 = (out, c')" using Cons.prems(5) one b True by simp
    from Cons.IH [OF s timed(2) this] show ?thesis by auto
  next
    case False
    then have "c1 = c" using step b by auto
    then have "snapshot_loop h deferDerived trusted rows n c = (out, c')" using Cons.prems(5) one b False by simp
    then show ?thesis by (rule Cons.IH [OF Cons.prems(1-3) timed(2)])
  qed
qed auto

subsection \<open>Runs\<close>

text \<open>What can happen to a collection: writes, snapshots, changes of indexes and metadata, and the steps at which a background job changes
  the collection (it finishes with whatever it has built).\<close>

datatype coll_op =
    CPut bool "row_in list"
  | CDelete "row_del list"
  | CSnapshot bool "snap_row list"
  | CIndex string
  | CUnindex string
  | CMeta jsv bool
  | CCatchup
  | CFieldDone "(string \<times> nat) list" "(string, findex) jmap"
  | CColumnDone "(string \<times> nat) list" "(string, tcol) jmap"

fun c_step :: "host \<Rightarrow> coll \<Rightarrow> coll_op \<Rightarrow> coll" where
  "c_step h c (CPut trusted rows) = snd (putObjects h trusted rows c)"
| "c_step h c (CDelete rows) = snd (deleteObjects h rows c)"
| "c_step h c (CSnapshot trusted rows) = snd (applySnapshotObjects h False trusted rows c)"
| "c_step h c (CIndex path) = createIndex h path c"
| "c_step h c (CUnindex path) = snd (dropIndex path c)"
| "c_step h c (CMeta meta deferIndexes) = snd (setMeta h meta deferIndexes c)"
| "c_step h c CCatchup = catchup_round h c"
| "c_step h c (CFieldDone targets built) = field_build_finish h targets built c"
| "c_step h c (CColumnDone targets built) = column_build_finish h targets built c"

text \<open>Every write says when it was made.\<close>

fun timed_op :: "coll_op \<Rightarrow> bool" where
  "timed_op (CPut trusted rows) \<longleftrightarrow> (\<forall>row \<in> set rows. ri_ts row \<noteq> None)"
| "timed_op (CDelete rows) \<longleftrightarrow> (\<forall>row \<in> set rows. rd_ts row \<noteq> None)"
| "timed_op (CSnapshot trusted rows) \<longleftrightarrow> (\<forall>row \<in> set rows. timed_row row)"
| "timed_op p \<longleftrightarrow> True"

definition c_run :: "host \<Rightarrow> phys \<Rightarrow> coll_op list \<Rightarrow> coll" where
  "c_run h store ops = foldl (c_step h) (newCollection store None) ops"

definition books_ok :: "coll \<Rightarrow> bool" where
  "books_ok c \<longleftrightarrow> core_ok c \<and> settled c \<and> cl_vectorField c = None"

lemma books_okI: "core_ok c \<Longrightarrow> settled c \<Longrightarrow> cl_vectorField c = None \<Longrightarrow> books_ok c"
  by (simp add: books_ok_def)

lemma books_okD: "books_ok c \<Longrightarrow> core_ok c" "books_ok c \<Longrightarrow> settled c" "books_ok c \<Longrightarrow> cl_vectorField c = None"
  by (simp_all add: books_ok_def)

lemma books_cong: "core c' = core c \<Longrightarrow> books_ok c \<Longrightarrow> books_ok c'"
  using core_ok_cong [of c' c] settled_cong [of c' c] by (simp add: books_ok_def core_eq)

lemma count_put_fields: "cl_meta (count_put m m' c) = cl_meta c" "cl_meta (count_delete m c) = cl_meta c"
    "cl_vectorField (count_put m m' c) = cl_vectorField c" "cl_vectorField (count_delete m c) = cl_vectorField c"
  by (auto simp: count_put_def count_delete_def addShardRid_def removeShardRid_def split: option.split)

lemma put_books:
  assumes ok: "books_ok c" and ts: "ri_ts row \<noteq> None" and put: "c_putObject h trusted keepAll row c = (out, c')"
  shows "books_ok c'" "\<exists>d. out = Inr d"
proof -
  obtain m c1 where em: "ensureMeta (ri_id row) c = (m, c1)" by (cases "ensureMeta (ri_id row) c")
  note core = putObject_core_ok [OF books_okD(1) [OF ok] ts put] and o = ensureMeta_other [OF em]
  have vf: "cl_vectorField c1 = None" using o(4) books_okD(3) [OF ok] by simp
  show "books_ok c'" "\<exists>d. out = Inr d"
  proof (atomize (full), use put em in \<open>cases rule: putObject_cases\<close>)
    case refused
    then have "om_ts m \<noteq> None \<or> om_deleted m \<noteq> None" by blast
    then show "books_ok c' \<and> (\<exists>d. out = Inr d)" using refused(1,2) o(3) ok by simp
  next
    case (invalid e)
    then show "books_ok c' \<and> (\<exists>d. out = Inr d)" using prepare_no_vector [OF vf] by simp
  next
    case (accepted prepared vector base)
    define m' where "m' = m\<lparr>om_ts := ri_ts row, om_deleted := None, om_shard := or_shard (normalizeShard (ri_shard row)) (om_shard m)\<rparr>"
    define c2 where "c2 = applyVectorUpdate (ri_id row) vector (writeBaseValue h (ri_id row) (om_rid m) base trusted
             (c1\<lparr>cl_meta := jm_set (ri_id row) m' (cl_meta c1)\<rparr>))"
    have c': "c' = count_put m m' c2" using accepted(6) by (simp only: c2_def m'_def)
    have "core c2 = core (c1\<lparr>cl_meta := jm_set (ri_id row) m' (cl_meta c1)\<rparr>)" by (simp add: c2_def core_simps)
    then have f: "cl_meta c' = jm_set (ri_id row) m' (cl_meta c1)" "cl_vectorField c' = None"
      using vf by (simp_all add: c' count_put_fields core_eq)
    have "settled c'" by (rule settled_set [OF books_okD(2) [OF ok] em f(1)]) (use ts in \<open>simp add: m'_def\<close>)
    then show "books_ok c' \<and> (\<exists>d. out = Inr d)" using books_okI [OF core] f(2) accepted(5) by blast
  qed
qed

lemma delete_books:
  assumes ok: "books_ok c" and ts: "rd_ts row \<noteq> None" and del: "c_deleteObject h row c = (out, c')"
  shows "books_ok c'"
proof -
  obtain m c1 where em: "ensureMeta (rd_id row) c = (m, c1)" by (cases "ensureMeta (rd_id row) c")
  note core = deleteObject_core_ok [OF books_okD(1) [OF ok] ts del] and o = ensureMeta_other [OF em]
  have vf: "cl_vectorField c1 = None" using o(4) books_okD(3) [OF ok] by simp
  from del em show ?thesis
  proof (cases rule: deleteObject_cases)
    case refused
    then have "om_ts m \<noteq> None \<or> om_deleted m \<noteq> None" by (auto split: option.splits)
    then show ?thesis using refused(2) o(3) ok by simp
  next
    case accepted
    define m' where "m' = m\<lparr>om_deleted := rd_ts row, om_shard := (if truthy (rd_shard row) then normalizeShard (rd_shard row) else om_shard m)\<rparr>"
    define c2 where "c2 = removeVector (rd_id row) (clearCompressedCold (om_rid m) (c1\<lparr>cl_meta := jm_set (rd_id row) m' (cl_meta c1),
        cl_store := ph_remove h (cl_store c1) (rd_id row)\<rparr>))"
    have c': "c' = count_delete m c2" using accepted(3) by (simp only: c2_def m'_def)
    have "core c2 = core (c1\<lparr>cl_meta := jm_set (rd_id row) m' (cl_meta c1)\<rparr>)" unfolding c2_def core_simps by (simp add: core_def)
    then have f: "cl_meta c' = jm_set (rd_id row) m' (cl_meta c1)" "cl_vectorField c' = None"
      using vf by (simp_all add: c' count_put_fields core_eq)
    have "settled c'" by (rule settled_set [OF books_okD(2) [OF ok] em f(1)]) (use ts in \<open>simp add: m'_def\<close>)
    then show ?thesis using books_okI [OF core] f(2) by blast
  qed
qed

lemma put_loop_books:
  "books_ok c \<Longrightarrow> \<forall>row \<in> set rows. ri_ts row \<noteq> None \<Longrightarrow> put_loop h trusted keepAll rows c applied deltas = (out, c') \<Longrightarrow>
    books_ok c' \<and> (\<exists>r. out = Inr r)"
proof (induction rows arbitrary: c applied deltas)
  case (Cons row rows)
  obtain out1 c1 where one: "c_putObject h trusted keepAll row c = (out1, c1)" by (cases "c_putObject h trusted keepAll row c")
  have ts: "ri_ts row \<noteq> None" "\<forall>row \<in> set rows. ri_ts row \<noteq> None" using Cons.prems(2) by simp_all
  note one_ok = put_books [OF Cons.prems(1) ts(1) one]
  obtain d where d: "out1 = Inr d" using one_ok(2) by blast
  show ?case using Cons.IH [OF one_ok(1) ts(2)] Cons.prems(3) one d by (cases d) simp_all
qed auto

lemma delete_loop_books:
  "books_ok c \<Longrightarrow> \<forall>row \<in> set rows. rd_ts row \<noteq> None \<Longrightarrow> delete_loop h rows c applied deltas = (out, c') \<Longrightarrow> books_ok c'"
proof (induction rows arbitrary: c applied deltas)
  case (Cons row rows)
  obtain out1 c1 where one: "c_deleteObject h row c = (out1, c1)" by (cases "c_deleteObject h row c")
  have ts: "rd_ts row \<noteq> None" "\<forall>row \<in> set rows. rd_ts row \<noteq> None" using Cons.prems(2) by simp_all
  show ?case using Cons.IH [OF delete_books [OF Cons.prems(1) ts(1) one] ts(2)] Cons.prems(3) one by (cases out1) simp_all
qed simp

lemma snapshots_books:
  assumes ok: "books_ok c" and timed: "\<forall>row \<in> set rows. timed_row row"
  shows "books_ok (snd (applySnapshotObjects h False trusted rows c))"
proof -
  obtain out c1 where loop: "snapshot_loop h False trusted rows 0 c = (out, c1)" by (cases "snapshot_loop h False trusted rows 0 c")
  note l = snapshot_loop_ok [OF core_okD(1) [OF books_okD(1) [OF ok]] books_okD(2,3) [OF ok] timed loop]
  then obtain k where k: "out = Inr k" "k = 0 \<longrightarrow> c1 = c" by blast
  show ?thesis
  proof (cases "k = 0")
    case True
    then show ?thesis using k loop ok by (simp add: applySnapshotObjects_def)
  next
    case False
    have "core_ok (rebuildDerivedState h c1)" using rebuildDerivedState_ok l by blast
    moreover have "cl_meta (rebuildDerivedState h c1) = cl_meta c1 \<and> cl_vectorField (rebuildDerivedState h c1) = cl_vectorField c1"
      by (rule rebuild_frame)
    ultimately have "books_ok (rebuildDerivedState h c1)" using l by (intro books_okI) (auto simp: settled_def)
    then show ?thesis using k loop False by (simp add: applySnapshotObjects_def)
  qed
qed

lemma c_step_books: "books_ok c \<Longrightarrow> timed_op p \<Longrightarrow> books_ok (c_step h c p)"
proof (cases p)
  case (CPut trusted rows)
  assume ok: "books_ok c" and t: "timed_op p"
  define keepAll where "keepAll = shouldDeferIndexDeltasForCount (length rows) c"
  obtain out c1 where loop: "put_loop h trusted keepAll rows c [] [] = (out, c1)" by (cases "put_loop h trusted keepAll rows c [] []")
  have l: "books_ok c1" using put_loop_books [OF ok _ loop] t CPut by simp
  have "core (snd (putObjects h trusted rows c)) = core c1"
    using loop by (auto simp: putObjects_def keepAll_def [symmetric] core_simps split: sum.split)
  then show ?thesis using books_cong l CPut by simp
next
  case (CDelete rows)
  assume ok: "books_ok c" and t: "timed_op p"
  obtain out c1 where loop: "delete_loop h rows c [] [] = (out, c1)" by (cases "delete_loop h rows c [] []")
  have l: "books_ok c1" using delete_loop_books [OF ok _ loop] t CDelete by simp
  have "core (snd (deleteObjects h rows c)) = core c1" using loop by (cases out) (simp add: deleteObjects_def core_simps)
  then show ?thesis using books_cong l CDelete by simp
next
  case (CSnapshot trusted rows)
  assume "books_ok c" "timed_op p"
  then show ?thesis using snapshots_books CSnapshot by simp
qed (auto intro: books_cong simp: core_simps)

lemma c_run_books: "\<forall>p \<in> set ops. timed_op p \<Longrightarrow> books_ok (c_run h store ops)"
proof -
  have "books_ok (newCollection store None)"
    by (rule books_okI [OF newCollection_core_ok]) (simp_all add: newCollection_def settled_def)
  moreover have "books_ok c \<Longrightarrow> \<forall>p \<in> set ops. timed_op p \<Longrightarrow> books_ok (foldl (c_step h) c ops)" for c
    by (induction ops arbitrary: c) (simp_all add: c_step_books)
  ultimately show "\<forall>p \<in> set ops. timed_op p \<Longrightarrow> books_ok (c_run h store ops)" by (simp add: c_run_def)
qed

subsection \<open>What the bookkeeping says\<close>

lemma has_live: "settled c \<Longrightarrow> c_has c key \<longleftrightarrow> key \<in> live_keys c"
  by (auto simp: c_has_def live_keys_def settledD was_live_def split: option.split dest: settledD)

lemma ids_inverse:
  assumes "rids_ok c"
  shows "ridForId c key = Some rid \<longleftrightarrow> idForRid c rid = Some key"
proof
  assume "ridForId c key = Some rid"
  then obtain m where "jm_get (cl_meta c) key = Some m" "rid = om_rid m" by (auto simp: ridForId_def)
  then show "idForRid c rid = Some key" using rids_okD [OF assms] by (simp add: idForRid_def)
next
  assume "idForRid c rid = Some key"
  then have a: "rid < length (cl_idByRid c)" "cl_idByRid c ! rid = key" by (auto simp: idForRid_def split: if_splits)
  obtain m where "jm_get (cl_meta c) (cl_idByRid c ! rid) = Some m \<and> om_rid m = rid" using rids_okE [OF assms a(1)] by blast
  then show "ridForId c key = Some rid" using a(2) by (simp add: ridForId_def)
qed

definition shardOf :: "coll \<Rightarrow> string \<Rightarrow> string option" where
  "shardOf c key = (case jm_get (cl_meta c) key of None \<Rightarrow> None | Some m \<Rightarrow> om_shard m)"

lemma shard_rows_has:
  assumes "settled c"
  shows "shard_rows c sh = {rid. \<exists>key. c_has c key \<and> ridForId c key = Some rid \<and> shardOf c key = sh}"
proof -
  have "(\<exists>key m. jm_get (cl_meta c) key = Some m \<and> was_live m \<and> om_shard m = sh \<and> om_rid m = rid) \<longleftrightarrow>
      (\<exists>key. c_has c key \<and> ridForId c key = Some rid \<and> shardOf c key = sh)" for rid
  proof
    assume "\<exists>key m. jm_get (cl_meta c) key = Some m \<and> was_live m \<and> om_shard m = sh \<and> om_rid m = rid"
    then obtain key m where "jm_get (cl_meta c) key = Some m" "was_live m" "om_shard m = sh" "om_rid m = rid" by blast
    then show "\<exists>key. c_has c key \<and> ridForId c key = Some rid \<and> shardOf c key = sh"
      by (intro exI [of _ key]) (simp add: c_has_def ridForId_def shardOf_def was_live_def)
  next
    assume "\<exists>key. c_has c key \<and> ridForId c key = Some rid \<and> shardOf c key = sh"
    then obtain key where k: "c_has c key" "ridForId c key = Some rid" "shardOf c key = sh" by blast
    then obtain m where m: "jm_get (cl_meta c) key = Some m" "om_rid m = rid" by (auto simp: ridForId_def)
    then show "\<exists>key m. jm_get (cl_meta c) key = Some m \<and> was_live m \<and> om_shard m = sh \<and> om_rid m = rid"
      using k settledD [OF assms m(1)] by (intro exI [of _ key] exI [of _ m]) (simp add: c_has_def shardOf_def)
  qed
  then show ?thesis by (simp add: shard_rows_def)
qed

lemma bag_union: "set (foldl (\<lambda>rids shard. setUnion rids (bag_get b shard)) acc names) = set acc \<union> (\<Union>n \<in> set names. set (bag_get b n))"
  by (induction names arbitrary: acc) (auto simp: set_setUnion)

lemma live_rids_core:
  assumes "rids_ok c"
  shows "distinct (liveRids c)" "set (liveRids c) = {rid. \<exists>key. c_has c key \<and> ridForId c key = Some rid}"
proof -
  have jm: "jm_ok (cl_meta c)" using assms by (simp add: rids_ok_def)
  have mem: "(k, m) \<in> set (cl_meta c) \<Longrightarrow> jm_get (cl_meta c) k = Some m" for k m using jm_get_mem [OF jm] by blast
  have inj: "inj_on (om_rid \<circ> snd) (set (cl_meta c))"
  proof (rule inj_onI)
    fix x y assume a: "x \<in> set (cl_meta c)" "y \<in> set (cl_meta c)" "(om_rid \<circ> snd) x = (om_rid \<circ> snd) y"
    obtain k m k' m' where xy: "x = (k, m)" "y = (k', m')" by (cases x, cases y)
    have g: "jm_get (cl_meta c) k = Some m" "jm_get (cl_meta c) k' = Some m'" using a mem unfolding xy by blast+
    have "om_rid m = om_rid m'" using a(3) by (simp add: xy)
    then have "k = k'" by (rule rids_distinct [OF assms g])
    then show "x = y" using g by (simp add: xy)
  qed
  have "distinct (cl_meta c)" using jm by (simp add: distinct_map)
  moreover have "inj_on (om_rid \<circ> snd) (set (filter (\<lambda>(key, m). om_deleted m = None) (cl_meta c)))" by (rule inj_on_subset [OF inj]) auto
  ultimately show "distinct (liveRids c)" unfolding liveRids_def distinct_map by (intro conjI distinct_filter)
  have "rid \<in> set (liveRids c) \<longleftrightarrow> (\<exists>k m. (k, m) \<in> set (cl_meta c) \<and> om_deleted m = None \<and> om_rid m = rid)" for rid
    unfolding liveRids_def by force
  also have "\<dots> rid \<longleftrightarrow> (\<exists>key. c_has c key \<and> ridForId c key = Some rid)" for rid
    unfolding jm_get_mem [OF jm, symmetric] by (auto simp: c_has_def ridForId_def split: option.splits)
  finally show "set (liveRids c) = {rid. \<exists>key. c_has c key \<and> ridForId c key = Some rid}" by blast
qed

lemma row_numbers_core: "\<forall>p \<in> set ops. timed_op p \<Longrightarrow> ridForId (c_run h store ops) key = Some rid \<longleftrightarrow> idForRid (c_run h store ops) rid = Some key"
  by (rule ids_inverse) (rule core_okD(1) [OF books_okD(1) [OF c_run_books]])

text \<open>A run for the examples: two rows, one of them indexed, rewritten and deleted.\<close>

definition demo_store :: phys where
  "demo_store = ShapeEngine newShapeStore"

definition demo_ops :: "coll_op list" where
  "demo_ops =
    [CPut False [\<lparr>ri_id = ''a'', ri_value = JObj [(''n'', JBool True)], ri_ts = Some \<lparr>tc = 1, tn = ''x''\<rparr>, ri_shard = JStr ''s1''\<rparr>,
       \<lparr>ri_id = ''b'', ri_value = JObj [(''n'', JBool False)], ri_ts = Some \<lparr>tc = 2, tn = ''x''\<rparr>, ri_shard = JUndef\<rparr>],
     CIndex ''n'',
     CDelete [\<lparr>rd_id = ''b'', rd_ts = Some \<lparr>tc = 3, tn = ''x''\<rparr>, rd_shard = JUndef\<rparr>],
     CCatchup]"

subsection \<open>Properties\<close>

text \<open>C33: A collection numbers its rows without gaps or doubles: whatever writes, snapshots, index and metadata changes and background jobs
  happened, the id of a row number and the number of an id are inverse to each other.\<close>

theorem row_numbers_wellformed:
  assumes "\<forall>p \<in> set ops. timed_op p"
  shows "ridForId (c_run h store ops) key = Some rid \<longleftrightarrow> idForRid (c_run h store ops) rid = Some key"
  by (rule row_numbers_core [OF assms])

theorem row_numbers_wellformed_witness:
  "ridForId (c_run plain_host demo_store demo_ops) ''b'' = Some 1 \<longleftrightarrow> idForRid (c_run plain_host demo_store demo_ops) 1 = Some ''b''"
  by (rule row_numbers_wellformed) (simp add: demo_ops_def)

text \<open>C11: The counters of a collection are exact after any run: the live count is the number of ids the collection has, the live rows are
  listed once each, and the counter of rows without a shard is the number of those rows.\<close>

theorem collection_counts_exact:
  assumes "\<forall>p \<in> set ops. timed_op p" and "c = c_run h store ops"
  shows "cl_liveCount c = int (card {key. c_has c key}) \<and> distinct (liveRids c) \<and>
    set (liveRids c) = {rid. \<exists>key. c_has c key \<and> ridForId c key = Some rid} \<and>
    cl_unsharded c = card {rid. \<exists>key. c_has c key \<and> ridForId c key = Some rid \<and> shardOf c key = None}"
proof -
  have ok: "books_ok c" using c_run_books [OF assms(1)] assms(2) by simp
  note core = core_okD [OF books_okD(1) [OF ok]] and settled = books_okD(2) [OF ok]
  have "{key. c_has c key} = live_keys c" using has_live [OF settled] by blast
  then show ?thesis using core(4,5) live_rids_core [OF core(1)] shard_rows_has [OF settled, of None] by simp
qed

theorem collection_counts_exact_witness:
  "cl_liveCount (c_run plain_host demo_store demo_ops) = int (card {key. c_has (c_run plain_host demo_store demo_ops) key})"
  using collection_counts_exact [of demo_ops, OF _ refl] by (simp add: demo_ops_def)

text \<open>C12: The rows a collection names for a list of shards are exactly the live rows of those shards; it names none (and the caller scans
  all rows) only when no shard is named or some live row belongs to no shard.\<close>

theorem shard_rows_exact:
  assumes "\<forall>p \<in> set ops. timed_op p" and "c = c_run h store ops"
  shows "case idsForShards shards c of
      None \<Rightarrow> List.map_filter normalizeShard shards = [] \<or> (\<exists>key. c_has c key \<and> shardOf c key = None)
    | Some rids \<Rightarrow> set rids =
        {rid. \<exists>key shard. c_has c key \<and> ridForId c key = Some rid \<and> shardOf c key = Some shard \<and>
           shard \<in> set (List.map_filter normalizeShard shards)}"
proof -
  have ok: "books_ok c" using c_run_books [OF assms(1)] assms(2) by simp
  note core = core_okD [OF books_okD(1) [OF ok]] and settled = books_okD(2) [OF ok]
  have bag: "set (bag_get (cl_shardIds c) n) = {rid. \<exists>key. c_has c key \<and> ridForId c key = Some rid \<and> shardOf c key = Some n}" for n
    using core(3) shard_rows_has [OF settled] by simp
  have none: "\<exists>key. c_has c key \<and> shardOf c key = None" if "0 < cl_unsharded c"
  proof -
    have "shard_rows c None \<noteq> {}" using that core(4) by auto
    then show ?thesis unfolding shard_rows_has [OF settled] by blast
  qed
  define names where "names = js_unique (List.map_filter normalizeShard shards)"
  have names: "set names = set (List.map_filter normalizeShard shards)" by (simp add: names_def)
  have empty: "names = [] \<longleftrightarrow> List.map_filter normalizeShard shards = []" using names by (metis set_empty)
  have union: "set (foldl (\<lambda>rids shard. setUnion rids (bag_get (cl_shardIds c) shard)) [] names) =
      {rid. \<exists>key shard. c_has c key \<and> ridForId c key = Some rid \<and> shardOf c key = Some shard \<and> shard \<in> set names}"
    unfolding bag_union bag by auto
  show ?thesis
  proof (cases "0 < cl_unsharded c")
    case True
    then show ?thesis using none by (simp add: idsForShards_def)
  next
    case False
    have ids: "idsForShards shards c = (case names of [] \<Rightarrow> None | [name] \<Rightarrow> Some (bag_get (cl_shardIds c) name)
        | names \<Rightarrow> Some (foldl (\<lambda>rids shard. setUnion rids (bag_get (cl_shardIds c) shard)) [] names))"
      using False by (simp add: idsForShards_def names_def)
    consider (nil) "names = []" | (one) n where "names = [n]" | (many) n1 n2 rest where "names = n1 # n2 # rest"
      by (metis list.exhaust)
    then show ?thesis
    proof cases
      case nil
      then show ?thesis using empty by (simp add: ids)
    next
      case one
      then show ?thesis unfolding names [symmetric] using bag [of n] by (auto simp: ids)
    next
      case many
      then have "idsForShards shards c = Some (foldl (\<lambda>rids shard. setUnion rids (bag_get (cl_shardIds c) shard)) [] names)"
        by (simp add: ids)
      then show ?thesis using union unfolding names by (simp only: option.case)
    qed
  qed
qed

theorem shard_rows_exact_witness:
  "case idsForShards [JStr ''s1''] (c_run plain_host demo_store demo_ops) of
      None \<Rightarrow> List.map_filter normalizeShard [JStr ''s1''] = [] \<or>
        (\<exists>key. c_has (c_run plain_host demo_store demo_ops) key \<and> shardOf (c_run plain_host demo_store demo_ops) key = None)
    | Some rids \<Rightarrow> set rids =
        {rid. \<exists>key shard. c_has (c_run plain_host demo_store demo_ops) key \<and> ridForId (c_run plain_host demo_store demo_ops) key = Some rid \<and>
           shardOf (c_run plain_host demo_store demo_ops) key = Some shard \<and> shard \<in> set (List.map_filter normalizeShard [JStr ''s1''])}"
  by (rule shard_rows_exact [OF _ refl]) (simp add: demo_ops_def)

end
