(* ===== verification/CollRows.thy ===== *)
theory CollRows
  imports CollRun PlanExact
begin

text \<open>
  The rows of a collection whose rows are stored whole: the object engine without pooling of structured values, no columns, no tiering.
  A write that is accepted changes the row it names and no other; what a row holds is what was last written. Then the convergence of
  replicas, as an instance of \<open>lww_store\<close>.
\<close>

subsection \<open>What a row holds\<close>

definition fields_of :: "jsv \<Rightarrow> string \<Rightarrow> jsv option" where
  "fields_of v = map_of (entries_of v)"

definition row_fields :: "host \<Rightarrow> coll \<Rightarrow> string \<Rightarrow> (string \<Rightarrow> jsv option) option" where
  "row_fields h c key = map_option fields_of (c_readForQuery h c key)"

text \<open>What a written value becomes.\<close>

definition written_fields :: "string \<Rightarrow> jsv \<Rightarrow> string \<Rightarrow> jsv option" where
  "written_fields key v = (fields_of v)(''_id'' \<mapsto> JStr key)"

lemma getPathValue_fields:
  assumes "fields_of (JObj kvs) = fields_of (JObj kvs')"
  shows "getPathValue (JObj kvs) path = getPathValue (JObj kvs') path"
proof -
  have pr: "jprop (JObj kvs) part = jprop (JObj kvs') part" for part
    using assms by (simp add: oget_def fields_of_def fun_eq_iff)
  have "walk_path (JObj kvs) parts = walk_path (JObj kvs') parts" if "parts \<noteq> []" for parts
    using that pr by (cases parts) simp_all
  then show ?thesis using pr by (simp add: getPathValue_def nullish_def)
qed

lemma filter_fields: "map_of (filter (\<lambda>(field, x). field \<noteq> k) kvs) = (map_of kvs)(k := None)"
  by (induction kvs) (auto simp: fun_eq_iff)

lemma del_fields: "map_of (jm_del k kvs) = (map_of kvs)(k := None)"
  by (auto simp: fun_eq_iff)

lemma or_empty_entries: "entries_of (or_empty v) = entries_of v"
  by (cases v) (auto simp: or_empty_def)

subsection \<open>Rows stored whole\<close>

definition rows_distinct :: "string ostore \<Rightarrow> bool" where
  "rows_distinct s \<longleftrightarrow> (\<forall>key row. os_read s key = Some row \<longrightarrow> jm_ok row)"

definition store_plain :: "host \<Rightarrow> phys \<Rightarrow> bool" where
  "store_plain h p = (case p of ObjectEngine s \<Rightarrow> os_ok h s \<and> rows_distinct s \<and> \<not> vd_poolStructuredValues (os_dir s) | ShapeEngine s \<Rightarrow> False)"

lemma store_row_distinct: "jm_ok row \<Longrightarrow> store_row h trusted live row refs d = (row', refs', d') \<Longrightarrow> jm_ok row'"
  by (induction h trusted live row refs d arbitrary: row' refs' d' rule: store_row.induct) (auto split: prod.splits)

lemma rows_distinct_rebuild: "rows_distinct s \<Longrightarrow> rows_distinct (os_rebuild h trusted s key live)"
proof -
  assume ok: "rows_distinct s"
  obtain row refs d where row: "store_row h trusted live [] [] (os_release s key) = (row, refs, d)" by (cases "store_row h trusted live [] [] (os_release s key)")
  have "jm_ok row" by (rule store_row_distinct [OF _ row]) simp
  then show ?thesis using ok row by (auto simp: rows_distinct_def os_rebuild_def os_read_def Let_def split: if_splits)
qed

lemma rows_distinct_remove: "rows_distinct s \<Longrightarrow> rows_distinct (os_removeObject s key)"
  by (auto simp: rows_distinct_def os_removeObject_def os_read_def split: option.splits if_splits)

definition stored_fields :: "phys \<Rightarrow> string \<Rightarrow> string \<Rightarrow> jsv option" where
  "stored_fields p key = map_of (case ph_read p key of None \<Rightarrow> [] | Some row \<Rightarrow> row)"

lemma store_plain_rebuild:
  assumes "store_plain h p" "jm_ok live"
  shows "store_plain h (ph_rebuild h trusted p key live)"
    "stored_fields (ph_rebuild h trusted p key live) k = (if k = key then map_of live else stored_fields p k)"
proof -
  obtain s where p: "p = ObjectEngine s" "os_ok h s" "\<not> vd_poolStructuredValues (os_dir s)" and rd: "rows_distinct s"
    using assms(1) by (auto simp: store_plain_def split: phys.splits)
  note r = os_rebuild_spec [OF p(2) assms(2), of trusted key]
  show "store_plain h (ph_rebuild h trusted p key live)" using r p rows_distinct_rebuild [OF rd] by (auto simp: store_plain_def vd_config_eq)
  show "stored_fields (ph_rebuild h trusted p key live) k = (if k = key then map_of live else stored_fields p k)"
  proof (cases "k = key")
    case True
    show ?thesis
    proof (cases "live = []")
      case False
      then obtain row where row: "os_read (os_rebuild h trusted s key live) key = Some row" "agree (stored_as h (os_dir s)) row live"
        using r by auto
      have "agree (=) row live" using row(2) by (rule agree_mono) (use p(3) in \<open>simp add: stored_as_def\<close>)
      then have "map_of row = map_of live" by (auto simp: agree_def option.rel_eq)
      then show ?thesis using row(1) True p(1) by (simp add: stored_fields_def)
    qed (use r True p(1) in \<open>simp add: stored_fields_def\<close>)
  qed (use r p(1) in \<open>simp add: stored_fields_def\<close>)
qed

lemma store_plain_remove:
  assumes "store_plain h p"
  shows "store_plain h (ph_remove h p key)" "k \<noteq> key \<Longrightarrow> stored_fields (ph_remove h p key) k = stored_fields p k"
proof -
  obtain s where p: "p = ObjectEngine s" "os_ok h s" "\<not> vd_poolStructuredValues (os_dir s)" and rd: "rows_distinct s"
    using assms(1) by (auto simp: store_plain_def split: phys.splits)
  have "vd_config (os_dir (os_removeObject s key)) = vd_config (os_dir s)"
    using os_step_config [OF p(2), of "Remove key" False] by simp
  then show "store_plain h (ph_remove h p key)" using os_removeObject_ok [OF p(2)] p rows_distinct_remove [OF rd] by (simp add: store_plain_def vd_config_eq)
  show "k \<noteq> key \<Longrightarrow> stored_fields (ph_remove h p key) k = stored_fields p k"
    using p(1) by (auto simp: stored_fields_def os_removeObject_def os_read_def split: option.splits)
qed

text \<open>The part of the state that decides what a row holds.\<close>

definition whole_rows :: "host \<Rightarrow> coll \<Rightarrow> bool" where
  "whole_rows h c \<longleftrightarrow> store_plain h (cl_store c) \<and> cl_columns c = [] \<and> cl_cold c = [] \<and> cm_tiering (cl_cmeta c) = None \<and> cl_vectorField c = None \<and>
     \<not> cl_disposed c"

lemma read_whole:
  assumes "whole_rows h c"
  shows "c_readForQuery h c key = (case jm_get (cl_meta c) key of
      None \<Rightarrow> None
    | Some m \<Rightarrow> if om_deleted m \<noteq> None then None
        else Some (JObj (jm_set ''_id'' (JStr key) (case ph_read (cl_store c) key of None \<Rightarrow> [] | Some row \<Rightarrow> row))))"
  using assms by (auto simp: c_readForQuery_def hydrateStoredValue_def hydrateCompressedCold_def hydrateColumns_def whole_rows_def
      or_empty_def Let_def split: option.split)

lemma row_fields_whole:
  "whole_rows h c \<Longrightarrow> row_fields h c key = (case jm_get (cl_meta c) key of
      None \<Rightarrow> None
    | Some m \<Rightarrow> if om_deleted m \<noteq> None then None else Some ((stored_fields (cl_store c) key)(''_id'' \<mapsto> JStr key)))"
  by (auto simp: row_fields_def read_whole fields_of_def stored_fields_def fun_eq_iff split: option.split)

lemma read_object: "whole_rows h c \<Longrightarrow> c_readForQuery h c key = Some v \<Longrightarrow> is_obj v \<and> getPathValue v ''_id'' = JStr key"
  by (auto simp: read_whole getPathValue_def oget_def nullish_def split: option.splits if_splits)

text \<open>What a write of a row leaves alone.\<close>

definition derived :: "coll \<Rightarrow> (string, findex) jmap \<times> (string, field_build) jmap \<times> (string, tcol) jmap \<times> nat \<times> rid_queue \<times> (nat, cold_entry) jmap \<times>
    coll_meta \<times> bool" where
  "derived c = (cl_indexes c, cl_fieldBuilds c, cl_columns c, cl_columnBuilds c, cl_dirty c, cl_cold c, cl_cmeta c, cl_disposed c)"

lemma ensureMeta_derived: "ensureMeta key c = (m, c1) \<Longrightarrow> derived c1 = derived c \<and> cl_store c1 = cl_store c"
  by (auto simp: ensureMeta_def allocateRid_def derived_def Let_def split: option.splits)

lemma whole_rows_cong: "derived c' = derived c \<Longrightarrow> store_plain h (cl_store c') \<Longrightarrow> cl_vectorField c' = cl_vectorField c \<Longrightarrow> whole_rows h c \<Longrightarrow> whole_rows h c'"
  by (simp add: whole_rows_def derived_def)

lemma derived_count: "derived (count_put m m' c) = derived c" "derived (count_delete m c) = derived c"
    "cl_store (count_put m m' c) = cl_store c" "cl_store (count_delete m c) = cl_store c"
  by (auto simp: count_put_def count_delete_def addShardRid_def removeShardRid_def derived_def split: option.split)

lemma write_whole:
  assumes "whole_rows h c"
  shows "writeBaseValue h key rid v trusted c = c\<lparr>cl_store := ph_rebuild h trusted (cl_store c) key (filter (\<lambda>(field, x). field \<noteq> ''_id'') (entries_of (or_empty v)))\<rparr>"
  using assms by (simp add: writeBaseValue_def tierBaseValue_def whole_rows_def clearCompressedCold_def setCompressedCold_def Let_def)

lemma base_whole: "cl_columns c = [] \<Longrightarrow> entries_of (baseValueForStorage c v None) = entries_of v"
  by (simp add: baseValueForStorage_def or_empty_entries)

lemma put_whole:
  assumes w: "whole_rows h c" and ok: "jm_ok (entries_of (ri_value row))"
    and put: "c_putObject h trusted keepAll row c = (Inr (Some d), c')" and em: "ensureMeta (ri_id row) c = (m, c1)"
  shows "derived c' = derived c" "whole_rows h c'"
    "cl_meta c' = jm_set (ri_id row) (m\<lparr>om_ts := ri_ts row, om_deleted := None, om_shard := or_shard (normalizeShard (ri_shard row)) (om_shard m)\<rparr>) (cl_meta c1)"
    "stored_fields (cl_store c') k = (if k = ri_id row then (fields_of (ri_value row))(''_id'' := None) else stored_fields (cl_store c) k)"
    "id_rid d = om_rid m" "id_before d = (if was_live m then c_readForQuery h c1 (ri_id row) else None)"
    "\<exists>kvs. id_after d = Some (JObj kvs) \<and> map_of kvs = written_fields (ri_id row) (ri_value row)"
    "om_deleted m = None \<or> gt (ri_ts row) (om_deleted m)" "om_ts m = None \<or> gt (ri_ts row) (om_ts m)"
proof -
  note e = ensureMeta_derived [OF em] ensureMeta_other [OF em]
  have w1: "whole_rows h c1" using whole_rows_cong [of c1 c h] e w by (simp add: whole_rows_def)
  have vf: "cl_vectorField c1 = None" "cl_columns c1 = []" using w1 by (simp_all add: whole_rows_def)
  define m' where "m' = m\<lparr>om_ts := ri_ts row, om_deleted := None, om_shard := or_shard (normalizeShard (ri_shard row)) (om_shard m)\<rparr>"
  define key where "key = ri_id row"
  define v where "v = or_empty (ri_value row)"
  from put em obtain base where a:
      "om_deleted m = None \<or> gt (ri_ts row) (om_deleted m)" "om_ts m = None \<or> gt (ri_ts row) (om_ts m)"
      "base = (if keepAll \<or> 0 < rq_size (cl_dirty c1) then v else baseValueForStorage c1 v None)"
      "d = \<lparr>id_rid = om_rid m, id_before = (if was_live m then c_readForQuery h c1 key else None), id_after = Some (queryObjectFromStoredValue key v)\<rparr>"
      "c' = count_put m m' (writeBaseValue h key (om_rid m) base trusted (c1\<lparr>cl_meta := jm_set key m' (cl_meta c1)\<rparr>))"
  proof (cases rule: putObject_cases)
    case (accepted prepared vector base)
    have pv: "prepared = v" using accepted(3) prepare_no_vector [OF vf(1)] by (simp add: v_def)
    have nv: "cl_vectorField (writeBaseValue h key (om_rid m) base trusted (c1\<lparr>cl_meta := jm_set key m' (cl_meta c1)\<rparr>)) = None"
      using core_write [of h key "om_rid m" base trusted "c1\<lparr>cl_meta := jm_set key m' (cl_meta c1)\<rparr>"] vf(1) by (simp add: core_eq)
    show ?thesis
      by (rule that [OF accepted(1,2) accepted(4) [unfolded pv]])
        (use accepted(5,6) pv nv in \<open>simp_all add: key_def m'_def applyVectorUpdate_def\<close>)
  qed simp_all
  define c2 where "c2 = c1\<lparr>cl_meta := jm_set key m' (cl_meta c1)\<rparr>"
  have w2: "whole_rows h c2" using w1 by (simp add: c2_def whole_rows_def)
  define live where "live = filter (\<lambda>(field, x). field \<noteq> ''_id'') (entries_of (or_empty base))"
  have base: "entries_of (or_empty base) = entries_of (ri_value row)"
    using base_whole [OF vf(2)] by (simp add: a(3) v_def or_empty_entries)
  have live: "jm_ok live" "map_of live = (fields_of (ri_value row))(''_id'' := None)"
    using ok unfolding live_def base by (simp_all add: distinct_map_filter filter_fields fields_of_def)
  have c': "c' = count_put m m' (c2\<lparr>cl_store := ph_rebuild h trusted (cl_store c2) key live\<rparr>)"
    using a(5) write_whole [OF w2] by (simp only: c2_def live_def)
  have st: "cl_store c2 = cl_store c" using e(1) by (simp add: c2_def)
  note r = store_plain_rebuild [OF _ live(1), of h "cl_store c2" trusted key]
  have plain: "store_plain h (cl_store c2)" using w2 by (simp add: whole_rows_def)
  show d': "derived c' = derived c" using e(1) by (simp add: c' derived_count) (simp add: derived_def c2_def)
  have vf': "cl_vectorField c' = cl_vectorField c" using vf w by (simp add: c' count_put_fields c2_def whole_rows_def)
  show "whole_rows h c'" by (rule whole_rows_cong [OF d' _ vf' w]) (use r(1) [OF plain] in \<open>simp add: c' derived_count\<close>)
  show "cl_meta c' = jm_set (ri_id row) (m\<lparr>om_ts := ri_ts row, om_deleted := None, om_shard := or_shard (normalizeShard (ri_shard row)) (om_shard m)\<rparr>) (cl_meta c1)"
    by (simp add: c' count_put_fields c2_def key_def m'_def)
  show "stored_fields (cl_store c') k = (if k = ri_id row then (fields_of (ri_value row))(''_id'' := None) else stored_fields (cl_store c) k)"
    using r(2) [OF plain, of k] by (simp add: c' derived_count live(2) st key_def)
  show "id_rid d = om_rid m" "id_before d = (if was_live m then c_readForQuery h c1 (ri_id row) else None)"
    using a(4) by (simp_all add: key_def)
  have "map_of (jm_del ''_id'' (entries_of v) @ [(''_id'', JStr key)]) = written_fields key (ri_value row)"
    by (auto simp: v_def or_empty_entries written_fields_def fields_of_def map_add_def fun_eq_iff split: option.split)
  then show "\<exists>kvs. id_after d = Some (JObj kvs) \<and> map_of kvs = written_fields (ri_id row) (ri_value row)"
    using a(4) by (simp add: queryObjectFromStoredValue_def key_def)
  show "om_deleted m = None \<or> gt (ri_ts row) (om_deleted m)" "om_ts m = None \<or> gt (ri_ts row) (om_ts m)" by (rule a(1,2))+
qed

lemma delete_whole:
  assumes w: "whole_rows h c" and del: "c_deleteObject h row c = (Some d, c')" and em: "ensureMeta (rd_id row) c = (m, c1)"
  shows "derived c' = derived c" "whole_rows h c'"
    "cl_meta c' = jm_set (rd_id row) (m\<lparr>om_deleted := rd_ts row,
       om_shard := (if truthy (rd_shard row) then normalizeShard (rd_shard row) else om_shard m)\<rparr>) (cl_meta c1)"
    "k \<noteq> rd_id row \<Longrightarrow> stored_fields (cl_store c') k = stored_fields (cl_store c) k"
    "id_rid d = om_rid m" "id_before d = (if was_live m then c_readForQuery h c1 (rd_id row) else None)" "id_after d = None"
    "(case om_deleted m of None \<Rightarrow> om_ts m | Some t \<Rightarrow> Some t) = None \<or> gt (rd_ts row) (case om_deleted m of None \<Rightarrow> om_ts m | Some t \<Rightarrow> Some t)"
proof -
  note e = ensureMeta_derived [OF em] ensureMeta_other [OF em]
  have w1: "whole_rows h c1" using whole_rows_cong [of c1 c h] e w by (simp add: whole_rows_def)
  define m' where "m' = m\<lparr>om_deleted := rd_ts row, om_shard := (if truthy (rd_shard row) then normalizeShard (rd_shard row) else om_shard m)\<rparr>"
  define key where "key = rd_id row"
  define c2 where "c2 = c1\<lparr>cl_meta := jm_set key m' (cl_meta c1), cl_store := ph_remove h (cl_store c1) key\<rparr>"
  have a: "(case om_deleted m of None \<Rightarrow> om_ts m | Some t \<Rightarrow> Some t) = None \<or> gt (rd_ts row) (case om_deleted m of None \<Rightarrow> om_ts m | Some t \<Rightarrow> Some t)"
    "d = \<lparr>id_rid = om_rid m, id_before = (if was_live m then c_readForQuery h c1 key else None), id_after = None\<rparr>"
    "c' = count_delete m (removeVector key (clearCompressedCold (om_rid m) c2))"
    by (use del em in \<open>cases rule: deleteObject_cases; simp add: c2_def m'_def key_def\<close>)+
  have "clearCompressedCold (om_rid m) c2 = c2" using w1 by (simp add: clearCompressedCold_def setCompressedCold_def c2_def whole_rows_def Let_def)
  then have c': "c' = count_delete m (removeVector key c2)" using a(3) by simp
  have plain: "store_plain h (cl_store c1)" using w1 by (simp add: whole_rows_def)
  show d': "derived c' = derived c" using e(1) by (simp add: c' derived_count) (simp add: derived_def c2_def removeVector_def)
  have vf': "cl_vectorField c' = cl_vectorField c" using w w1 by (simp add: c' count_put_fields c2_def removeVector_def whole_rows_def)
  show "whole_rows h c'"
    by (rule whole_rows_cong [OF d' _ vf' w]) (use store_plain_remove(1) [OF plain] in \<open>simp add: c' derived_count removeVector_def c2_def\<close>)
  show "cl_meta c' = jm_set (rd_id row) (m\<lparr>om_deleted := rd_ts row,
       om_shard := (if truthy (rd_shard row) then normalizeShard (rd_shard row) else om_shard m)\<rparr>) (cl_meta c1)"
    by (simp add: c' count_put_fields c2_def removeVector_def key_def m'_def)
  show "k \<noteq> rd_id row \<Longrightarrow> stored_fields (cl_store c') k = stored_fields (cl_store c) k"
    using store_plain_remove(2) [OF plain, of k key] e(1) by (simp add: c' derived_count removeVector_def c2_def key_def)
  show "id_rid d = om_rid m" "id_before d = (if was_live m then c_readForQuery h c1 (rd_id row) else None)" "id_after d = None"
    using a(2) by (simp_all add: key_def)
  show "(case om_deleted m of None \<Rightarrow> om_ts m | Some t \<Rightarrow> Some t) = None \<or> gt (rd_ts row) (case om_deleted m of None \<Rightarrow> om_ts m | Some t \<Rightarrow> Some t)"
    by (rule a(1))
qed

text \<open>A write that is refused changes nothing.\<close>

lemma put_refused:
  assumes "cl_vectorField c = None" and put: "c_putObject h trusted keepAll row c = (out, c')" and refused: "\<And>d. out \<noteq> Inr (Some d)"
    and em: "ensureMeta (ri_id row) c = (m, c1)"
  shows "out = Inr None" "c' = c" "om_deleted m \<noteq> None \<and> \<not> gt (ri_ts row) (om_deleted m) \<or> om_ts m \<noteq> None \<and> \<not> gt (ri_ts row) (om_ts m)"
proof -
  have vf: "cl_vectorField c1 = None" using ensureMeta_other(4) [OF em] assms(1) by simp
  have "out = Inr None \<and> c' = c1 \<and> (om_deleted m \<noteq> None \<and> \<not> gt (ri_ts row) (om_deleted m) \<or> om_ts m \<noteq> None \<and> \<not> gt (ri_ts row) (om_ts m))"
    using put em
  proof (cases rule: putObject_cases)
    case refused
    then show ?thesis by simp
  next
    case (invalid e)
    then show ?thesis using prepare_no_vector [OF vf] by simp
  next
    case accepted
    then show ?thesis using refused by blast
  qed
  then show "out = Inr None" "c' = c" "om_deleted m \<noteq> None \<and> \<not> gt (ri_ts row) (om_deleted m) \<or> om_ts m \<noteq> None \<and> \<not> gt (ri_ts row) (om_ts m)"
    using ensureMeta_other(3) [OF em] by blast+
qed

lemma delete_refused:
  assumes del: "c_deleteObject h row c = (None, c')" and em: "ensureMeta (rd_id row) c = (m, c1)"
  shows "c' = c" "(case om_deleted m of None \<Rightarrow> om_ts m | Some t \<Rightarrow> Some t) \<noteq> None"
    "\<not> gt (rd_ts row) (case om_deleted m of None \<Rightarrow> om_ts m | Some t \<Rightarrow> Some t)"
proof -
  have r: "c' = c1" "(case om_deleted m of None \<Rightarrow> om_ts m | Some t \<Rightarrow> Some t) \<noteq> None"
    "\<not> gt (rd_ts row) (case om_deleted m of None \<Rightarrow> om_ts m | Some t \<Rightarrow> Some t)"
    by (use del em in \<open>cases rule: deleteObject_cases; simp\<close>)+
  show "(case om_deleted m of None \<Rightarrow> om_ts m | Some t \<Rightarrow> Some t) \<noteq> None"
    "\<not> gt (rd_ts row) (case om_deleted m of None \<Rightarrow> om_ts m | Some t \<Rightarrow> Some t)" by (rule r(2,3))+
  have "om_ts m \<noteq> None \<or> om_deleted m \<noteq> None" using r(2) by (cases "om_deleted m") simp_all
  then show "c' = c" using r(1) ensureMeta_other(3) [OF em] by simp
qed

text \<open>What a write does to the rows.\<close>

lemma put_rows:
  assumes w: "whole_rows h c" and ok: "jm_ok (entries_of (ri_value row))" and put: "c_putObject h trusted keepAll row c = (Inr (Some d), c')"
  shows "row_fields h c' = (row_fields h c)(ri_id row \<mapsto> written_fields (ri_id row) (ri_value row))"
proof
  fix k
  obtain m c1 where em: "ensureMeta (ri_id row) c = (m, c1)" by (cases "ensureMeta (ri_id row) c")
  note p = put_whole [OF w ok put em]
  show "row_fields h c' k = ((row_fields h c)(ri_id row \<mapsto> written_fields (ri_id row) (ri_value row))) k"
    using ensureMeta_other(1) [OF em, of k] p(4) [of k]
    by (cases "k = ri_id row") (simp_all add: row_fields_whole [OF p(2)] row_fields_whole [OF w] p(3) written_fields_def split: option.split)
qed

lemma delete_rows:
  assumes w: "whole_rows h c" and ts: "rd_ts row \<noteq> None" and del: "c_deleteObject h row c = (Some d, c')"
  shows "row_fields h c' = (row_fields h c)(rd_id row := None)"
proof
  fix k
  obtain m c1 where em: "ensureMeta (rd_id row) c = (m, c1)" by (cases "ensureMeta (rd_id row) c")
  note p = delete_whole [OF w del em]
  show "row_fields h c' k = ((row_fields h c)(rd_id row := None)) k"
    using ensureMeta_other(1) [OF em, of k] p(4) [of k] ts
    by (cases "k = rd_id row") (auto simp: row_fields_whole [OF p(2)] row_fields_whole [OF w] p(3) split: option.split)
qed

lemma read_distinct: "whole_rows h c \<Longrightarrow> c_readForQuery h c key = Some (JObj kvs) \<Longrightarrow> jm_ok kvs"
  by (auto simp: read_whole whole_rows_def store_plain_def rows_distinct_def split: option.splits if_splits phys.splits)

text \<open>Writing back what a row holds changes nothing.\<close>

lemma rewrite_whole:
  assumes w: "whole_rows h c" and key: "idForRid c rid = Some key" and read: "c_readForQuery h c key = Some v"
  shows "whole_rows h (rewriteBaseValueForColumns h rid v None c)" "row_fields h (rewriteBaseValueForColumns h rid v None c) = row_fields h c"
    "derived (rewriteBaseValueForColumns h rid v None c) = derived c"
proof -
  obtain kvs where v: "v = JObj kvs" using read_object [OF w read] by (cases v) auto
  have kvs: "jm_ok kvs" by (rule read_distinct [OF w read [unfolded v]])
  have fields: "row_fields h c key = Some (map_of kvs)" using read v by (simp add: row_fields_def fields_of_def)
  have idf: "map_of kvs ''_id'' = Some (JStr key)"
    using fields by (auto simp: row_fields_whole [OF w] split: option.splits if_splits dest!: fun_cong [where x = "''_id''"])
  have cols: "cl_columns c = []" using w by (simp add: whole_rows_def)
  define live where "live = filter (\<lambda>(field, x). field \<noteq> ''_id'') (entries_of (or_empty (baseValueForStorage c (JObj (jm_del ''_id'' kvs)) None)))"
  have base: "entries_of (or_empty (baseValueForStorage c (JObj (jm_del ''_id'' kvs)) None)) = jm_del ''_id'' kvs"
    using base_whole [OF cols] by (simp add: or_empty_entries)
  have live: "jm_ok live" "map_of live = (map_of kvs)(''_id'' := None)"
    using kvs unfolding live_def base by (simp_all add: distinct_map_filter filter_fields del_fields)
  have c': "rewriteBaseValueForColumns h rid v None c = c\<lparr>cl_store := ph_rebuild h True (cl_store c) key live\<rparr>"
    using write_whole [OF w] by (simp add: rewriteBaseValueForColumns_def key v live_def)
  have plain: "store_plain h (cl_store c)" using w by (simp add: whole_rows_def)
  note r = store_plain_rebuild [OF plain live(1), of True key]
  show w': "whole_rows h (rewriteBaseValueForColumns h rid v None c)" using w r(1) by (simp add: c' whole_rows_def)
  show "derived (rewriteBaseValueForColumns h rid v None c) = derived c" by (simp add: c' derived_def)
  show "row_fields h (rewriteBaseValueForColumns h rid v None c) = row_fields h c"
  proof
    fix k
    show "row_fields h (rewriteBaseValueForColumns h rid v None c) k = row_fields h c k"
    proof (cases "k = key")
      case True
      have "(map_of live)(''_id'' \<mapsto> JStr key) = map_of kvs" using idf live(2) by (auto simp: fun_eq_iff)
      moreover obtain m where "jm_get (cl_meta c) key = Some m" "om_deleted m = None" using fields by (auto simp: row_fields_whole [OF w] split: option.splits if_splits)
      ultimately show ?thesis using fields r(2) [of key] unfolding True row_fields_whole [OF w'] by (simp add: c')
    next
      case False
      then show ?thesis using r(2) [of k] unfolding row_fields_whole [OF w'] row_fields_whole [OF w] by (simp add: c' split: option.split)
    qed
  qed
qed

subsection \<open>Replicas converge\<close>

text \<open>The write of one row, as an operation that replicas exchange.\<close>

datatype row_write = WPut bool row_in | WDelete row_del

fun write_step :: "host \<Rightarrow> coll \<Rightarrow> row_write \<Rightarrow> coll" where
  "write_step h c (WPut trusted row) = snd (putObjects h trusted [row] c)"
| "write_step h c (WDelete row) = snd (deleteObjects h [row] c)"

fun write_id :: "row_write \<Rightarrow> string" where
  "write_id (WPut trusted row) = ri_id row"
| "write_id (WDelete row) = rd_id row"

fun write_ts :: "row_write \<Rightarrow> ts option" where
  "write_ts (WPut trusted row) = ri_ts row"
| "write_ts (WDelete row) = rd_ts row"

definition write_time :: "row_write \<Rightarrow> ts" where
  "write_time p = the (write_ts p)"

text \<open>What the id holds after the write: its fields, or nothing.\<close>

fun write_content :: "row_write \<Rightarrow> (string \<Rightarrow> jsv option) option" where
  "write_content (WPut trusted row) = Some (written_fields (ri_id row) (ri_value row))"
| "write_content (WDelete row) = None"

fun write_ok :: "row_write \<Rightarrow> bool" where
  "write_ok (WPut trusted row) \<longleftrightarrow> ri_ts row \<noteq> None \<and> jm_ok (entries_of (ri_value row))"
| "write_ok (WDelete row) \<longleftrightarrow> rd_ts row \<noteq> None"

text \<open>The time that decided what an id holds.\<close>

definition row_stamp :: "coll \<Rightarrow> string \<Rightarrow> ts option" where
  "row_stamp c key = (case jm_get (cl_meta c) key of
      None \<Rightarrow> None | Some m \<Rightarrow> (case om_deleted m of None \<Rightarrow> om_ts m | Some t \<Rightarrow> Some t))"

text \<open>A tombstone is newer than the write it buried.\<close>

definition tombs_ok :: "coll \<Rightarrow> bool" where
  "tombs_ok c \<longleftrightarrow> (\<forall>key m d t. jm_get (cl_meta c) key = Some m \<longrightarrow> om_deleted m = Some d \<longrightarrow> om_ts m = Some t \<longrightarrow> ts_newer d t)"

definition replica_ok :: "host \<Rightarrow> coll \<Rightarrow> bool" where
  "replica_ok h c \<longleftrightarrow> whole_rows h c \<and> tombs_ok c"

lemma tombs_okD: "tombs_ok c \<Longrightarrow> jm_get (cl_meta c) key = Some m \<Longrightarrow> om_deleted m = Some d \<Longrightarrow> om_ts m = Some t \<Longrightarrow> ts_newer d t"
  unfolding tombs_ok_def by blast

lemma tombs_ok_set:
  assumes "tombs_ok c" "ensureMeta key c = (m, c1)" "cl_meta c2 = jm_set key m' (cl_meta c1)"
    "\<And>d t. om_deleted m' = Some d \<Longrightarrow> om_ts m' = Some t \<Longrightarrow> ts_newer d t"
  shows "tombs_ok c2"
  unfolding tombs_ok_def
proof (intro allI impI)
  fix k x d t
  assume x: "jm_get (cl_meta c2) k = Some x" "om_deleted x = Some d" "om_ts x = Some t"
  show "ts_newer d t"
  proof (cases "k = key")
    case True
    then show ?thesis using x assms(4) by (simp add: assms(3))
  next
    case False
    then have "jm_get (cl_meta c) k = Some x" using x(1) ensureMeta_other(1) [OF assms(2) False] by (simp add: assms(3))
    then show ?thesis using tombs_okD [OF assms(1)] x(2,3) by blast
  qed
qed

text \<open>Indexes are of no concern here: the deltas leave rows and metadata alone when there are no columns.\<close>

lemma deltas_whole:
  assumes "whole_rows h c"
  shows "whole_rows h (applyIndexDeltas h ds c)" "c_readForQuery h (applyIndexDeltas h ds c) = c_readForQuery h c"
    "cl_meta (applyIndexDeltas h ds c) = cl_meta c"
proof -
  define same where "same = (\<lambda>(c :: coll) (c' :: coll). cl_meta c' = cl_meta c \<and> cl_store c' = cl_store c \<and> cl_columns c' = cl_columns c \<and> cl_cold c' = cl_cold c \<and>
    cl_cmeta c' = cl_cmeta c \<and> cl_vectorField c' = cl_vectorField c \<and> cl_disposed c' = cl_disposed c)"
  have trans: "same a b \<Longrightarrow> same b c \<Longrightarrow> same a c" for a b c by (simp add: same_def)
  have step: "cl_columns c = [] \<Longrightarrow> same c (apply_delta h c d)" "cl_columns c = [] \<Longrightarrow> same c (markIndexDirty d c)" for c d
    by (simp_all add: same_def apply_delta_def markIndexDirty_def recordColumnBuildDelta_def recordFieldBuildDelta_def Let_def)
  have fold: "cl_columns c = [] \<Longrightarrow> same c (foldl f c ds)" if "\<And>c d. cl_columns c = [] \<Longrightarrow> same c (f c d)" for f c and ds :: "index_delta list"
  proof (induction ds arbitrary: c)
    case (Cons d ds)
    have s: "same c (f c d)" by (rule that [OF Cons.prems])
    then have "cl_columns (f c d) = []" using Cons.prems by (simp add: same_def)
    then show ?case using trans [OF s Cons.IH] by simp
  qed (simp add: same_def)
  have cols: "cl_columns c = []" using assms by (simp add: whole_rows_def)
  have "same c (applyIndexDeltas h ds c)"
    using fold [where ds = ds, OF step(1) cols] fold [where f = "\<lambda>c d. markIndexDirty d c" and ds = ds, OF step(2) cols]
    by (auto simp: applyIndexDeltas_def scheduleDirtyIndexCatchup_def same_def)
  then show w: "whole_rows h (applyIndexDeltas h ds c)" "cl_meta (applyIndexDeltas h ds c) = cl_meta c"
    using assms by (simp_all add: same_def whole_rows_def)
  show "c_readForQuery h (applyIndexDeltas h ds c) = c_readForQuery h c"
    using \<open>same c (applyIndexDeltas h ds c)\<close> by (intro ext) (simp add: read_whole [OF w(1)] read_whole [OF assms] same_def split: option.split)
qed

lemma put_single:
  assumes w: "whole_rows h c" and ok: "jm_ok (entries_of (ri_value row))"
    and em: "ensureMeta (ri_id row) c = (m, c1)"
  obtains (accepted) c2 d where "whole_rows h c2" "cl_meta c2 = jm_set (ri_id row) (m\<lparr>om_ts := ri_ts row, om_deleted := None,
        om_shard := or_shard (normalizeShard (ri_shard row)) (om_shard m)\<rparr>) (cl_meta c1)"
      "row_fields h c2 = (row_fields h c)(ri_id row \<mapsto> written_fields (ri_id row) (ri_value row))"
      "om_deleted m = None \<or> gt (ri_ts row) (om_deleted m)" "om_ts m = None \<or> gt (ri_ts row) (om_ts m)"
      "snd (putObjects h trusted [row] c) = applyIndexDeltas h [d] c2"
    | (refused) "snd (putObjects h trusted [row] c) = c"
      "om_deleted m \<noteq> None \<and> \<not> gt (ri_ts row) (om_deleted m) \<or> om_ts m \<noteq> None \<and> \<not> gt (ri_ts row) (om_ts m)"
proof -
  define keepAll where "keepAll = shouldDeferIndexDeltasForCount (length [row]) c"
  obtain out c2 where put: "c_putObject h trusted keepAll row c = (out, c2)" by (cases "c_putObject h trusted keepAll row c")
  show ?thesis
  proof (cases "\<exists>d. out = Inr (Some d)")
    case True
    then obtain d where d: "out = Inr (Some d)" by blast
    note p = put_whole [OF w ok put [unfolded d] em] and r = put_rows [OF w ok put [unfolded d]]
    have "snd (putObjects h trusted [row] c) = applyIndexDeltas h [d] c2"
      using put [unfolded keepAll_def] d by (simp add: putObjects_def)
    from accepted [OF p(2,3) r p(8,9) this] show ?thesis .
  next
    case False
    have vf: "cl_vectorField c = None" using w by (simp add: whole_rows_def)
    have "\<And>d. out \<noteq> Inr (Some d)" using False by blast
    note f = put_refused [OF vf put this em]
    have "snd (putObjects h trusted [row] c) = c" using put [unfolded keepAll_def] f(1,2) by (simp add: putObjects_def applyIndexDeltas_def)
    then show ?thesis by (rule refused [OF _ f(3)])
  qed
qed

lemma delete_single:
  assumes w: "whole_rows h c" and ts: "rd_ts row \<noteq> None" and em: "ensureMeta (rd_id row) c = (m, c1)"
  obtains (accepted) c2 d where "whole_rows h c2" "cl_meta c2 = jm_set (rd_id row) (m\<lparr>om_deleted := rd_ts row,
       om_shard := (if truthy (rd_shard row) then normalizeShard (rd_shard row) else om_shard m)\<rparr>) (cl_meta c1)"
      "row_fields h c2 = (row_fields h c)(rd_id row := None)"
      "(case om_deleted m of None \<Rightarrow> om_ts m | Some t \<Rightarrow> Some t) = None \<or> gt (rd_ts row) (case om_deleted m of None \<Rightarrow> om_ts m | Some t \<Rightarrow> Some t)"
      "snd (deleteObjects h [row] c) = applyIndexDeltas h [d] c2"
    | (refused) "snd (deleteObjects h [row] c) = c" "(case om_deleted m of None \<Rightarrow> om_ts m | Some t \<Rightarrow> Some t) \<noteq> None"
      "\<not> gt (rd_ts row) (case om_deleted m of None \<Rightarrow> om_ts m | Some t \<Rightarrow> Some t)"
proof -
  obtain out c2 where del: "c_deleteObject h row c = (out, c2)" by (cases "c_deleteObject h row c")
  show ?thesis
  proof (cases out)
    case (Some d)
    note p = delete_whole [OF w del [unfolded Some] em] and r = delete_rows [OF w ts del [unfolded Some]]
    have "snd (deleteObjects h [row] c) = applyIndexDeltas h [d] c2" using del Some by (simp add: deleteObjects_def)
    from accepted [OF p(2,3) r p(8) this] show ?thesis .
  next
    case None
    note p = delete_refused [OF del [unfolded None] em]
    have "snd (deleteObjects h [row] c) = c" using del None p(1) by (simp add: deleteObjects_def applyIndexDeltas_def)
    from refused [OF this p(2,3)] show ?thesis .
  qed
qed

lemma deltas_rows: "whole_rows h c \<Longrightarrow> row_fields h (applyIndexDeltas h ds c) = row_fields h c" "whole_rows h c \<Longrightarrow> row_stamp (applyIndexDeltas h ds c) = row_stamp c"
    "whole_rows h c \<Longrightarrow> tombs_ok (applyIndexDeltas h ds c) = tombs_ok c"
  by (auto simp: row_fields_def row_stamp_def tombs_ok_def deltas_whole fun_eq_iff)

text \<open>One write: it is accepted when it is newer than what decided the row, and then decides it; otherwise nothing changes.\<close>

lemma write_effect:
  assumes ok: "replica_ok h c" and p: "write_ok p"
  shows "replica_ok h (write_step h c p)"
    "row_stamp (write_step h c p) = (if (case row_stamp c (write_id p) of None \<Rightarrow> True | Some u \<Rightarrow> ts_newer (write_time p) u)
       then (row_stamp c)(write_id p \<mapsto> write_time p) else row_stamp c)"
    "row_fields h (write_step h c p) = (if (case row_stamp c (write_id p) of None \<Rightarrow> True | Some u \<Rightarrow> ts_newer (write_time p) u)
       then (row_fields h c)(write_id p := write_content p) else row_fields h c)"
proof -
  define key where "key = write_id p"
  define t where "t = write_time p"
  obtain m c1 where em: "ensureMeta key c = (m, c1)" by (cases "ensureMeta key c")
  have w: "whole_rows h c" and tombs: "tombs_ok c" using ok by (simp_all add: replica_ok_def)
  have new: "om_ts m = None \<and> om_deleted m = None" if "jm_get (cl_meta c) key = None"
    using that em by (auto simp: ensureMeta_def allocateRid_def Let_def)
  have old: "m = m'" if "jm_get (cl_meta c) key = Some m'" for m' using that em by (simp add: ensureMeta_def)
  have stamp: "row_stamp c key = (case om_deleted m of None \<Rightarrow> om_ts m | Some d \<Rightarrow> Some d)"
    using new old by (cases "jm_get (cl_meta c) key") (auto simp: row_stamp_def split: option.split)
  have buried: "ts_newer d u" if "om_deleted m = Some d" "om_ts m = Some u" for d u
    using new old tombs_okD [OF tombs _ that] that by (cases "jm_get (cl_meta c) key") auto
  have stamps: "row_stamp c2 = (row_stamp c)(key \<mapsto> t)"
    if "cl_meta c2 = jm_set key m' (cl_meta c1)" "(case om_deleted m' of None \<Rightarrow> om_ts m' | Some d \<Rightarrow> Some d) = Some t" for c2 m'
  proof
    fix k show "row_stamp c2 k = ((row_stamp c)(key \<mapsto> t)) k"
      using that ensureMeta_other(1) [OF em, of k] by (cases "k = key") (simp_all add: row_stamp_def)
  qed
  have main: "replica_ok h (write_step h c p) \<and>
    row_stamp (write_step h c p) = (if (case row_stamp c key of None \<Rightarrow> True | Some u \<Rightarrow> ts_newer t u) then (row_stamp c)(key \<mapsto> t) else row_stamp c) \<and>
    row_fields h (write_step h c p) = (if (case row_stamp c key of None \<Rightarrow> True | Some u \<Rightarrow> ts_newer t u) then (row_fields h c)(key := write_content p) else row_fields h c)"
  proof (cases p)
    case (WPut trusted row)
    have row: "ri_id row = key" "ri_ts row = Some t" "jm_ok (entries_of (ri_value row))"
      using p WPut by (auto simp: key_def t_def write_time_def)
    note em' = em [folded row(1)]
    from w row(3) em' show ?thesis
    proof (cases rule: put_single [where trusted = trusted])
      case (accepted c2 d)
      have acc: "case row_stamp c key of None \<Rightarrow> True | Some u \<Rightarrow> ts_newer t u"
        using accepted(4,5) by (auto simp: stamp row(2) ts_newer_def split: option.split)
      have "tombs_ok c2" by (rule tombs_ok_set [OF tombs em' accepted(2)]) simp
      then show ?thesis using acc stamps [OF accepted(2) [unfolded row(1)]] accepted(1,3,6) WPut row
        by (simp add: replica_ok_def deltas_whole deltas_rows)
    next
      case refused
      have "\<not> (case row_stamp c key of None \<Rightarrow> True | Some u \<Rightarrow> ts_newer t u)"
      proof (cases "om_deleted m")
        case None
        then obtain u where u: "om_ts m = Some u" "\<not> gt (Some t) (Some u)" using refused(2) row(2) by auto
        then show ?thesis using None unfolding stamp ts_newer_def by (simp del: gt.simps)
      next
        case (Some d)
        have "\<not> ts_newer t d"
        proof (cases "gt (Some t) (Some d)")
          case True
          then obtain u where u: "om_ts m = Some u" "\<not> ts_newer t u" using refused(2) row(2) Some by (auto simp: ts_newer_def simp del: gt.simps)
          then show ?thesis using buried [OF Some u(1)] ts_order.trans by blast
        qed (simp add: ts_newer_def del: gt.simps)
        then show ?thesis using Some by (simp add: stamp)
      qed
      then show ?thesis using refused(1) WPut ok by simp
    qed
  next
    case (WDelete row)
    have row: "rd_id row = key" "rd_ts row = Some t" "rd_ts row \<noteq> None"
      using p WDelete by (auto simp: key_def t_def write_time_def)
    note em' = em [folded row(1)]
    from w row(3) em' show ?thesis
    proof (cases rule: delete_single)
      case (accepted c2 d)
      have acc: "case row_stamp c key of None \<Rightarrow> True | Some u \<Rightarrow> ts_newer t u"
        using accepted(4) by (auto simp: stamp row(2) ts_newer_def simp del: gt.simps split: option.splits)
      have "tombs_ok c2"
      proof (rule tombs_ok_set [OF tombs em' accepted(2)])
        fix d' u assume "om_deleted (m\<lparr>om_deleted := rd_ts row, om_shard := (if truthy (rd_shard row) then normalizeShard (rd_shard row) else om_shard m)\<rparr>) = Some d'"
          "om_ts (m\<lparr>om_deleted := rd_ts row, om_shard := (if truthy (rd_shard row) then normalizeShard (rd_shard row) else om_shard m)\<rparr>) = Some u"
        then have a: "d' = t" "om_ts m = Some u" using row(2) by simp_all
        show "ts_newer d' u"
        proof (cases "om_deleted m")
          case None
          then show ?thesis using acc a by (simp add: stamp)
        next
          case (Some d)
          then show ?thesis using acc a buried [OF Some a(2)] ts_order.trans [of t d u] by (simp add: stamp)
        qed
      qed
      then show ?thesis using acc stamps [OF accepted(2) [unfolded row(1)]] accepted(1,3,5) WDelete row
        by (simp add: replica_ok_def deltas_whole deltas_rows)
    next
      case refused
      have "\<not> (case row_stamp c key of None \<Rightarrow> True | Some u \<Rightarrow> ts_newer t u)"
        using refused(2,3) row(2) unfolding stamp ts_newer_def by (cases "om_deleted m"; cases "om_ts m") (simp_all del: gt.simps)
      then show ?thesis using refused(1) WDelete ok by simp
    qed
  qed
  then show "replica_ok h (write_step h c p)"
    "row_stamp (write_step h c p) = (if (case row_stamp c (write_id p) of None \<Rightarrow> True | Some u \<Rightarrow> ts_newer (write_time p) u)
       then (row_stamp c)(write_id p \<mapsto> write_time p) else row_stamp c)"
    "row_fields h (write_step h c p) = (if (case row_stamp c (write_id p) of None \<Rightarrow> True | Some u \<Rightarrow> ts_newer (write_time p) u)
       then (row_fields h c)(write_id p := write_content p) else row_fields h c)"
    unfolding key_def t_def by blast+
qed

text \<open>A collection is a last-writer-wins store.\<close>

interpretation rows_lww: lww_store ts_newer "replica_ok h" "write_step h" write_ok write_id write_time write_content row_stamp "row_fields h" for h
proof (unfold_locales, goal_cases)
  case (1 c p)
  then show ?case by (rule write_effect(1))
next
  case (2 c p)
  then show ?case by (simp add: write_effect(2,3) split: option.splits)
next
  case (3 c p u)
  then show ?case by (simp add: write_effect(2,3))
next
  case (4 c p k)
  then show ?case by (simp add: write_effect(2,3))
qed

definition replica :: "host \<Rightarrow> jobj \<Rightarrow> row_write list \<Rightarrow> coll" where
  "replica h options ps = foldl (write_step h) (newCollection (ObjectEngine (newObjectRowStore h options)) None) ps"

definition rows_not_pooled :: "jobj \<Rightarrow> bool" where
  "rows_not_pooled options \<longleftrightarrow> oget (entries_of (oget options ''valueDirectory'')) ''poolStructuredValues'' \<noteq> JBool True"

lemma new_plain: "rows_not_pooled options \<Longrightarrow> store_plain h (ObjectEngine (newObjectRowStore h options))"
proof -
  assume "rows_not_pooled options"
  moreover have "vd_config (os_dir (newObjectRowStore h options)) = vd_config (newValueDirectory h (entries_of (oget options ''valueDirectory'')))"
    by (simp add: newObjectRowStore_def)
  moreover have "rows_distinct (newObjectRowStore h options)" by (simp add: rows_distinct_def newObjectRowStore_def os_read_def)
  ultimately show ?thesis
    using newObjectRowStore_ok [of h options]
    by (auto simp: store_plain_def rows_not_pooled_def vd_config_eq newValueDirectory_def oget_def split: option.splits)
qed

lemma new_replica:
  assumes "rows_not_pooled options"
  shows "replica_ok h (newCollection (ObjectEngine (newObjectRowStore h options)) None)"
    "row_stamp (newCollection (ObjectEngine (newObjectRowStore h options)) None) key = None"
    "row_fields h (newCollection (ObjectEngine (newObjectRowStore h options)) None) key = None"
  using new_plain [OF assms, of h]
  by (simp_all add: replica_ok_def whole_rows_def tombs_ok_def newCollection_def emptyMeta_def row_stamp_def row_fields_def c_readForQuery_def)

lemma unwritten: "replica_ok h c \<Longrightarrow> \<forall>p \<in> set ps. write_ok p \<and> write_id p \<noteq> key \<Longrightarrow> row_fields h (foldl (write_step h) c ps) key = row_fields h c key"
proof (induction ps arbitrary: c)
  case (Cons p ps)
  have p: "write_ok p" "write_id p \<noteq> key" "\<forall>p \<in> set ps. write_ok p \<and> write_id p \<noteq> key" using Cons.prems(2) by simp_all
  have "row_fields h (write_step h c p) key = row_fields h c key" using write_effect(3) [OF Cons.prems(1) p(1)] p(2) by simp
  then show ?case using Cons.IH [OF write_effect(1) [OF Cons.prems(1) p(1)] p(3)] by simp
qed simp

lemma has_fields: "c_has c key \<longleftrightarrow> row_fields h c key \<noteq> None"
  by (auto simp: c_has_def row_fields_def c_readForQuery_def split: option.split)

subsection \<open>Property\<close>

text \<open>Replicas of a collection converge: two collections that received the same writes, in any order and with any repetitions, have the
same ids and every id has the same fields in both (whatever its time of arrival, the newest write of an id decides, a delete included), as
long as two writes of one id with the same timestamp write the same.\<close>

theorem replicas_converge:
  assumes "rows_not_pooled options" and "set ps = set qs" and "\<forall>p \<in> set ps. write_ok p"
    and "\<forall>p \<in> set ps. \<forall>q \<in> set ps. write_id p = write_id q \<and> write_time p = write_time q \<longrightarrow> write_content p = write_content q"
  shows "row_fields h (replica h options ps) key = row_fields h (replica h options qs) key \<and>
    c_has (replica h options ps) key = c_has (replica h options qs) key"
proof -
  note new = new_replica [OF assms(1), of h]
  have "row_fields h (replica h options ps) key = row_fields h (replica h options qs) key"
  proof (cases "\<exists>p \<in> set ps. write_id p = key")
    case True
    then show ?thesis using rows_lww.lww_convergence [OF new(1) assms(2-4) new(2), of key] by (auto simp: replica_def)
  next
    case False
    then show ?thesis using unwritten [OF new(1), of ps key] unwritten [OF new(1), of qs key] assms(2,3) by (auto simp: replica_def)
  qed
  then show ?thesis by (simp add: has_fields [of _ key h])
qed

text \<open>A row written twice and deleted in between arrives in two orders.\<close>

definition sample_writes :: "row_write list" where
  "sample_writes =
    [WPut False \<lparr>ri_id = ''a'', ri_value = JObj [(''n'', JBool True)], ri_ts = Some \<lparr>tc = 1, tn = ''x''\<rparr>, ri_shard = JUndef\<rparr>,
     WDelete \<lparr>rd_id = ''a'', rd_ts = Some \<lparr>tc = 2, tn = ''y''\<rparr>, rd_shard = JUndef\<rparr>,
     WPut False \<lparr>ri_id = ''a'', ri_value = JObj [(''n'', JBool False)], ri_ts = Some \<lparr>tc = 2, tn = ''z''\<rparr>, ri_shard = JUndef\<rparr>]"

theorem replicas_converge_witness:
  "row_fields plain_host (replica plain_host [] sample_writes) ''a'' = row_fields plain_host (replica plain_host [] (rev sample_writes)) ''a'' \<and>
   c_has (replica plain_host [] sample_writes) ''a'' = c_has (replica plain_host [] (rev sample_writes)) ''a''"
proof (rule replicas_converge)
  show "rows_not_pooled []" by (simp add: rows_not_pooled_def oget_def)
  show "set sample_writes = set (rev sample_writes)" by simp
  show "\<forall>p \<in> set sample_writes. write_ok p" by (simp add: sample_writes_def)
  show "\<forall>p \<in> set sample_writes. \<forall>q \<in> set sample_writes.
      write_id p = write_id q \<and> write_time p = write_time q \<longrightarrow> write_content p = write_content q"
    by (simp add: sample_writes_def write_time_def)
qed

end
