(* ===== verification/CollIndex.thy ===== *)
theory CollIndex
  imports CollRows
begin

text \<open>
  The field indexes of a collection whose rows are stored whole: after any run of batches of writes, index creations, index drops and rounds
  of the catch-up job, every index is in step with the rows that are not marked dirty. So what the query planner assumes of a collection
  holds, and a query answered through the indexes is the query answered by a scan; and the catch-up job ends.
\<close>

subsection \<open>Rows by number\<close>

definition field_value :: "(string \<Rightarrow> jsv option) \<Rightarrow> string \<Rightarrow> jsv" where
  "field_value f k = (case f k of None \<Rightarrow> JUndef | Some v \<Rightarrow> v)"

definition value_at :: "(string \<Rightarrow> jsv option) \<Rightarrow> string \<Rightarrow> jsv" where
  "value_at f path =
     (if path = ''_id'' \<or> path = ''id'' then field_value f path
      else walk_path (field_value f (hd (split_on CHR ''.'' path))) (tl (split_on CHR ''.'' path)))"

lemma value_at_path: "getPathValue (JObj kvs) path = value_at (map_of kvs) path"
proof -
  have "oget kvs k = field_value (map_of kvs) k" for k by (simp add: oget_def field_value_def)
  moreover have "walk_path (JObj kvs) parts = walk_path (oget kvs (hd parts)) (tl parts)" if "parts \<noteq> []" for parts
    using that by (cases parts) simp_all
  ultimately show ?thesis by (simp add: getPathValue_def value_at_def nullish_def)
qed

definition rows_at :: "host \<Rightarrow> coll \<Rightarrow> nat \<Rightarrow> (string \<Rightarrow> jsv option) option" where
  "rows_at h c rid = map_option fields_of (readRidForQuery h c rid)"

lemma rows_at_ids: "rows_at h c rid = (case idForRid c rid of None \<Rightarrow> None | Some key \<Rightarrow> row_fields h c key)"
  by (simp add: rows_at_def readRidForQuery_def row_fields_def split: option.split)

lemma read_rid_object: "whole_rows h c \<Longrightarrow> readRidForQuery h c rid = Some v \<Longrightarrow> is_obj v"
  using read_object by (auto simp: readRidForQuery_def split: option.splits)

text \<open>After a change of one row's metadata, its number still leads to it and every other number to the same id as before.\<close>

lemma ids_after:
  assumes ok: "books_ok c" and ok': "books_ok c'" and em: "ensureMeta key c = (m, c1)"
    and meta: "cl_meta c' = jm_set key m' (cl_meta c1)" and rid: "om_rid m' = om_rid m"
  shows "idForRid c' rid = (if rid = om_rid m then Some key else idForRid c rid)"
proof -
  have inv: "ridForId c k = Some r \<longleftrightarrow> idForRid c r = Some k" "ridForId c' k = Some r \<longleftrightarrow> idForRid c' r = Some k" for k r
    using ids_inverse [OF core_okD(1) [OF books_okD(1)]] ok ok' by blast+
  have self: "ridForId c' key = Some (om_rid m)" using rid by (simp add: ridForId_def meta)
  have other: "ridForId c' k = ridForId c k" if "k \<noteq> key" for k
    using ensureMeta_other(1) [OF em that] that by (simp add: ridForId_def meta)
  show ?thesis
  proof (cases "rid = om_rid m")
    case True
    then show ?thesis using self inv(2) by simp
  next
    case False
    have "ridForId c key \<noteq> Some rid" using False em by (auto simp: ridForId_def ensureMeta_def split: option.splits)
    then have "idForRid c' rid = Some k \<longleftrightarrow> idForRid c rid = Some k" for k
      using self other [of k] False unfolding inv [symmetric] by (cases "k = key") auto
    then show ?thesis using False by (metis option.exhaust)
  qed
qed

lemma row_of_meta:
  assumes ok: "books_ok c" and em: "ensureMeta key c = (m, c1)"
  shows "rows_at h c (om_rid m) = (if was_live m then map_option fields_of (c_readForQuery h c1 key) else None)"
proof (cases "jm_get (cl_meta c) key")
  case None
  then have m: "om_rid m = length (cl_idByRid c)" "\<not> was_live m"
    using em by (auto simp: ensureMeta_def allocateRid_def was_live_def Let_def)
  then show ?thesis by (simp add: rows_at_ids idForRid_def)
next
  case (Some m')
  then have m: "m' = m" "c1 = c" using em by (simp_all add: ensureMeta_def)
  have "ridForId c key = Some (om_rid m)" using Some m by (simp add: ridForId_def)
  then have "idForRid c (om_rid m) = Some key" using ids_inverse [OF core_okD(1) [OF books_okD(1) [OF ok]]] by blast
  moreover have "was_live m \<longleftrightarrow> om_deleted m = None" using settledD [OF books_okD(2) [OF ok]] Some m by simp
  ultimately show ?thesis using Some m by (auto simp: rows_at_ids row_fields_def c_readForQuery_def)
qed

subsection \<open>The changes of a batch\<close>

definition delta_ok :: "(nat \<Rightarrow> (string \<Rightarrow> jsv option) option) \<Rightarrow> index_delta \<Rightarrow> bool" where
  "delta_ok R d \<longleftrightarrow> map_option fields_of (id_before d) = R (id_rid d) \<and>
     (\<forall>v. id_before d = Some v \<longrightarrow> is_obj v) \<and> (\<forall>v. id_after d = Some v \<longrightarrow> is_obj v)"

definition delta_rows :: "(nat \<Rightarrow> (string \<Rightarrow> jsv option) option) \<Rightarrow> index_delta \<Rightarrow> nat \<Rightarrow> (string \<Rightarrow> jsv option) option" where
  "delta_rows R d = R(id_rid d := map_option fields_of (id_after d))"

fun deltas_ok :: "(nat \<Rightarrow> (string \<Rightarrow> jsv option) option) \<Rightarrow> index_delta list \<Rightarrow> bool" where
  "deltas_ok R [] = True"
| "deltas_ok R (d # ds) = (delta_ok R d \<and> deltas_ok (delta_rows R d) ds)"

lemma deltas_ok_append: "deltas_ok R (ds @ ds') \<longleftrightarrow> deltas_ok R ds \<and> deltas_ok (foldl delta_rows R ds) ds'"
  by (induction ds arbitrary: R) simp_all

lemma foldl_delta_other: "rid \<notin> id_rid ` set ds \<Longrightarrow> foldl delta_rows R ds rid = R rid"
  by (induction ds arbitrary: R) (simp_all add: delta_rows_def)

definition stores :: "host \<Rightarrow> coll \<Rightarrow> bool" where
  "stores h c \<longleftrightarrow> books_ok c \<and> whole_rows h c"

lemma storesD: "stores h c \<Longrightarrow> books_ok c" "stores h c \<Longrightarrow> whole_rows h c"
  by (simp_all add: stores_def)

lemma put_delta:
  assumes ok: "stores h c" and row: "ri_ts row \<noteq> None" "jm_ok (entries_of (ri_value row))"
    and put: "c_putObject h trusted keepAll row c = (Inr (Some d), c')"
  shows "stores h c' \<and> derived c' = derived c \<and> delta_ok (rows_at h c) d \<and> rows_at h c' = delta_rows (rows_at h c) d"
proof -
  obtain m c1 where em: "ensureMeta (ri_id row) c = (m, c1)" by (cases "ensureMeta (ri_id row) c")
  note b = storesD(1) [OF ok] and w = storesD(2) [OF ok]
  note p = put_whole [OF w row(2) put em] and b' = put_books(1) [OF b row(1) put]
  have ids: "idForRid c' rid = (if rid = om_rid m then Some (ri_id row) else idForRid c rid)" for rid
    by (rule ids_after [OF b b' em p(3)]) simp
  obtain kvs where kvs: "id_after d = Some (JObj kvs)" "map_of kvs = written_fields (ri_id row) (ri_value row)" using p(7) by blast
  have rows: "rows_at h c' rid = delta_rows (rows_at h c) d rid" for rid
  proof (cases "rid = om_rid m")
    case True
    then show ?thesis using ids kvs p(5) put_rows [OF w row(2) put] by (simp add: rows_at_ids delta_rows_def fields_of_def)
  next
    case False
    have "k \<noteq> ri_id row" if "idForRid c rid = Some k" for k
    proof
      assume "k = ri_id row"
      then have "ridForId c (ri_id row) = Some rid" using that ids_inverse [OF core_okD(1) [OF books_okD(1) [OF b]]] by blast
      then show False using em False by (auto simp: ridForId_def ensureMeta_def)
    qed
    then show ?thesis using False ids p(5) put_rows [OF w row(2) put] by (simp add: rows_at_ids delta_rows_def split: option.split)
  qed
  have before: "is_obj v" if "id_before d = Some v" for v
  proof -
    have "was_live m" "c_readForQuery h c1 (ri_id row) = Some v" using that p(6) by (simp_all split: if_splits)
    moreover from this have "c1 = c" using ensureMeta_other(3) [OF em] by (simp add: was_live_def)
    ultimately show ?thesis using read_object [OF w] by blast
  qed
  have "map_option fields_of (id_before d) = rows_at h c (id_rid d)" using row_of_meta [OF b em] p(5,6) by simp
  then have "delta_ok (rows_at h c) d" using before kvs(1) by (simp add: delta_ok_def)
  then show ?thesis using b' p(1,2) rows by (auto simp: stores_def)
qed

lemma delete_delta:
  assumes ok: "stores h c" and ts: "rd_ts row \<noteq> None" and del: "c_deleteObject h row c = (Some d, c')"
  shows "stores h c' \<and> derived c' = derived c \<and> delta_ok (rows_at h c) d \<and> rows_at h c' = delta_rows (rows_at h c) d"
proof -
  obtain m c1 where em: "ensureMeta (rd_id row) c = (m, c1)" by (cases "ensureMeta (rd_id row) c")
  note b = storesD(1) [OF ok] and w = storesD(2) [OF ok]
  note p = delete_whole [OF w del em] and b' = delete_books [OF b ts del]
  have ids: "idForRid c' rid = (if rid = om_rid m then Some (rd_id row) else idForRid c rid)" for rid
    by (rule ids_after [OF b b' em p(3)]) simp
  have rows: "rows_at h c' rid = delta_rows (rows_at h c) d rid" for rid
  proof (cases "rid = om_rid m")
    case True
    then show ?thesis using ids p(5,7) delete_rows [OF w ts del] by (simp add: rows_at_ids delta_rows_def)
  next
    case False
    have "k \<noteq> rd_id row" if "idForRid c rid = Some k" for k
    proof
      assume "k = rd_id row"
      then have "ridForId c (rd_id row) = Some rid" using that ids_inverse [OF core_okD(1) [OF books_okD(1) [OF b]]] by blast
      then show False using em False by (auto simp: ridForId_def ensureMeta_def)
    qed
    then show ?thesis using False ids p(5,7) delete_rows [OF w ts del] by (simp add: rows_at_ids delta_rows_def split: option.split)
  qed
  have before: "is_obj v" if "id_before d = Some v" for v
  proof -
    have "was_live m" "c_readForQuery h c1 (rd_id row) = Some v" using that p(6) by (simp_all split: if_splits)
    moreover from this have "c1 = c" using ensureMeta_other(3) [OF em] by (simp add: was_live_def)
    ultimately show ?thesis using read_object [OF w] by blast
  qed
  have "map_option fields_of (id_before d) = rows_at h c (id_rid d)" using row_of_meta [OF b em] p(5,6) by simp
  then have "delta_ok (rows_at h c) d" using before p(7) by (simp add: delta_ok_def)
  then show ?thesis using b' p(1,2) rows by (auto simp: stores_def)
qed

text \<open>A batch of writes hands on deltas that describe it.\<close>

definition batch_ok :: "host \<Rightarrow> coll \<Rightarrow> index_delta list \<Rightarrow> coll \<Rightarrow> bool" where
  "batch_ok h c ds c' \<longleftrightarrow> stores h c' \<and> derived c' = derived c \<and> deltas_ok (rows_at h c) ds \<and> rows_at h c' = foldl delta_rows (rows_at h c) ds"

lemma batch_refl: "stores h c \<Longrightarrow> batch_ok h c [] c"
  by (simp add: batch_ok_def)

lemma batch_step:
  assumes "batch_ok h c ds c1" "stores h c2 \<and> derived c2 = derived c1 \<and> delta_ok (rows_at h c1) d \<and> rows_at h c2 = delta_rows (rows_at h c1) d"
  shows "batch_ok h c (ds @ [d]) c2"
  using assms by (simp add: batch_ok_def deltas_ok_append)

lemma put_loop_batch:
  "batch_ok h c0 deltas c \<Longrightarrow> \<forall>row \<in> set rows. ri_ts row \<noteq> None \<and> jm_ok (entries_of (ri_value row)) \<Longrightarrow>
    put_loop h trusted keepAll rows c applied deltas = (out, c') \<Longrightarrow> \<exists>applied' ds. out = Inr (applied', ds) \<and> batch_ok h c0 ds c'"
proof (induction rows arbitrary: c applied deltas)
  case (Cons row rows)
  obtain out1 c1 where one: "c_putObject h trusted keepAll row c = (out1, c1)" by (cases "c_putObject h trusted keepAll row c")
  have row: "ri_ts row \<noteq> None" "jm_ok (entries_of (ri_value row))" "\<forall>row \<in> set rows. ri_ts row \<noteq> None \<and> jm_ok (entries_of (ri_value row))"
    using Cons.prems(2) by simp_all
  have ok: "stores h c" using Cons.prems(1) by (simp add: batch_ok_def)
  show ?case
  proof (cases "\<exists>d. out1 = Inr (Some d)")
    case True
    then obtain d where d: "out1 = Inr (Some d)" by blast
    have step: "batch_ok h c0 (deltas @ [d]) c1" by (rule batch_step [OF Cons.prems(1) put_delta [OF ok row(1,2) one [unfolded d]]])
    have "put_loop h trusted keepAll rows c1 (applied @ [row]) (deltas @ [d]) = (out, c')" using Cons.prems(3) one d by simp
    then show ?thesis by (rule Cons.IH [OF step row(3)])
  next
    case False
    obtain m c2 where em: "ensureMeta (ri_id row) c = (m, c2)" by (cases "ensureMeta (ri_id row) c")
    have vf: "cl_vectorField c = None" using storesD(2) [OF ok] by (simp add: whole_rows_def)
    have "\<And>d. out1 \<noteq> Inr (Some d)" using False by blast
    note f = put_refused [OF vf one this em]
    have "put_loop h trusted keepAll rows c applied deltas = (out, c')" using Cons.prems(3) one f(1,2) by simp
    then show ?thesis by (rule Cons.IH [OF Cons.prems(1) row(3)])
  qed
qed auto

lemma delete_loop_batch:
  "batch_ok h c0 deltas c \<Longrightarrow> \<forall>row \<in> set rows. rd_ts row \<noteq> None \<Longrightarrow>
    delete_loop h rows c applied deltas = (out, c') \<Longrightarrow> batch_ok h c0 (snd out) c'"
proof (induction rows arbitrary: c applied deltas)
  case (Cons row rows)
  obtain out1 c1 where one: "c_deleteObject h row c = (out1, c1)" by (cases "c_deleteObject h row c")
  have row: "rd_ts row \<noteq> None" "\<forall>row \<in> set rows. rd_ts row \<noteq> None" using Cons.prems(2) by simp_all
  have ok: "stores h c" using Cons.prems(1) by (simp add: batch_ok_def)
  show ?case
  proof (cases out1)
    case (Some d)
    have step: "batch_ok h c0 (deltas @ [d]) c1" by (rule batch_step [OF Cons.prems(1) delete_delta [OF ok row(1) one [unfolded Some]]])
    have "delete_loop h rows c1 (applied @ [row]) (deltas @ [d]) = (out, c')" using Cons.prems(3) one Some by simp
    then show ?thesis by (rule Cons.IH [OF step row(2)])
  next
    case None
    obtain m c2 where em: "ensureMeta (rd_id row) c = (m, c2)" by (cases "ensureMeta (rd_id row) c")
    have "delete_loop h rows c applied deltas = (out, c')" using Cons.prems(3) one None delete_refused(1) [OF one [unfolded None] em] by simp
    then show ?thesis by (rule Cons.IH [OF Cons.prems(1) row(2)])
  qed
qed auto

subsection \<open>Indexes follow the rows\<close>

definition follows :: "host \<Rightarrow> (nat \<Rightarrow> (string \<Rightarrow> jsv option) option) \<Rightarrow> nat set \<Rightarrow> string \<times> findex \<Rightarrow> bool" where
  "follows h R dirty entry \<longleftrightarrow> fi_path (snd entry) = fst entry \<and> fi_ok h (snd entry) \<and>
     (\<forall>rid. rid \<notin> dirty \<longrightarrow> jm_get (fi_forward (snd entry)) rid = map_option (\<lambda>f. value_at f (fst entry)) (R rid))"

lemma followsI: "fi_path index = path \<Longrightarrow> fi_ok h index \<Longrightarrow>
    (\<And>rid. rid \<notin> dirty \<Longrightarrow> jm_get (fi_forward index) rid = map_option (\<lambda>f. value_at f path) (R rid)) \<Longrightarrow> follows h R dirty (path, index)"
  by (simp add: follows_def)

lemma followsD: "follows h R dirty (path, index) \<Longrightarrow> fi_path index = path" "follows h R dirty (path, index) \<Longrightarrow> fi_ok h index"
    "follows h R dirty (path, index) \<Longrightarrow> rid \<notin> dirty \<Longrightarrow> jm_get (fi_forward index) rid = map_option (\<lambda>f. value_at f path) (R rid)"
  by (simp_all add: follows_def)

lemma index_path [simp]: "fi_path (addValue h rid v fi) = fi_path fi" "fi_path (removeValue h rid v fi) = fi_path fi" "fi_path (removeRid h rid fi) = fi_path fi"
proof -
  have add: "fi_path (addContainsState rid v fi) = fi_path fi" "fi_path (removeContainsState rid v fi) = fi_path fi" for fi v
    by (simp_all add: addContainsState_def removeContainsState_def split: if_split)
  have ordered: "fi_path (addOrdered h rid v fi) = fi_path fi" "fi_path (removeOrdered h rid v fi) = fi_path fi" for fi v
    by (simp_all add: addOrdered_def removeOrdered_def Let_def split: option.split)
  show add': "fi_path (addValue h rid v fi) = fi_path fi" by (simp add: addValue_def Let_def add ordered)
  show rem: "fi_path (removeValue h rid v fi) = fi_path fi" for fi v by (simp add: removeValue_def Let_def add ordered)
  show "fi_path (removeRid h rid fi) = fi_path fi" using rem by (simp add: removeRid_def split: option.split)
qed

lemma put_index_follows:
  assumes f: "follows h R dirty (path, index)" and d: "delta_ok R d" and rid: "id_rid d \<notin> dirty"
  shows "follows h (delta_rows R d) dirty (path, put_index h d index)"
proof -
  note p = followsD(1) [OF f] and ok = followsD(2) [OF f] and fw = followsD(3) [OF f]
  define i1 where "i1 = (case id_before d of None \<Rightarrow> index | Some before \<Rightarrow> removeValue h (id_rid d) (getPathValue before (fi_path index)) index)"
  have i1: "fi_path i1 = path \<and> fi_ok h i1 \<and> jm_get (fi_forward i1) = (jm_get (fi_forward index))(id_rid d := None)"
  proof (cases "id_before d")
    case None
    then have "R (id_rid d) = None" using d by (simp add: delta_ok_def)
    then show ?thesis using None fw [OF rid] p ok by (simp add: i1_def fun_upd_idem)
  next
    case (Some v)
    then obtain kvs where v: "v = JObj kvs" using d by (cases v) (simp_all add: delta_ok_def)
    have "R (id_rid d) = Some (map_of kvs)" using d Some v by (simp add: delta_ok_def fields_of_def)
    then have "jm_get (fi_forward index) (id_rid d) = Some (getPathValue v path)" using fw [OF rid] by (simp add: v value_at_path)
    from removeValue_ok [OF ok this] show ?thesis using Some p by (auto simp: i1_def)
  qed
  define i2 where "i2 = put_index h d index"
  have i2: "i2 = (case id_after d of None \<Rightarrow> i1 | Some after \<Rightarrow> addValue h (id_rid d) (getPathValue after (fi_path i1)) i1)"
    by (simp only: i2_def put_index_def i1_def Let_def)
  have "fi_path i2 = path \<and> fi_ok h i2 \<and> jm_get (fi_forward i2) = (jm_get (fi_forward index))(id_rid d := map_option (\<lambda>f. value_at f path) (delta_rows R d (id_rid d)))"
  proof (cases "id_after d")
    case None
    then show ?thesis using i1 by (auto simp: i2 delta_rows_def fun_eq_iff)
  next
    case (Some v)
    then obtain kvs where v: "v = JObj kvs" using d by (cases v) (simp_all add: delta_ok_def)
    have "jm_get (fi_forward i1) (id_rid d) = None" using i1 by simp
    from addValue_ok [OF _ this, of h] i1 have "fi_ok h (addValue h (id_rid d) (getPathValue v path) i1)"
      "fi_forward (addValue h (id_rid d) (getPathValue v path) i1) = jm_set (id_rid d) (getPathValue v path) (fi_forward i1)" by blast+
    then show ?thesis using Some i1 by (auto simp: i2 delta_rows_def v value_at_path fields_of_def fun_eq_iff)
  qed
  then show ?thesis unfolding i2_def [symmetric] using fw by (intro followsI) (auto simp: delta_rows_def)
qed

text \<open>What a collection's indexes promise.\<close>

definition marked :: "coll \<Rightarrow> nat set" where
  "marked c = {rid. rq_has (cl_dirty c) rid}"

text \<open>The rows \<open>taken\<close> are those a running batch of the catch-up job holds.\<close>

definition indexed_in :: "host \<Rightarrow> nat set \<Rightarrow> (nat \<Rightarrow> (string \<Rightarrow> jsv option) option) \<Rightarrow> coll \<Rightarrow> bool" where
  "indexed_in h taken R c \<longleftrightarrow> jm_ok (cl_indexes c) \<and> (\<forall>entry \<in> set (cl_indexes c). follows h R (marked c) entry) \<and> rq_ok taken (cl_dirty c) \<and>
     cl_fieldBuilds c = [] \<and> cl_columns c = []"

abbreviation indexed :: "host \<Rightarrow> (nat \<Rightarrow> (string \<Rightarrow> jsv option) option) \<Rightarrow> coll \<Rightarrow> bool" where
  "indexed h R c \<equiv> indexed_in h {} R c"

lemma indexedI: "jm_ok (cl_indexes c) \<Longrightarrow> (\<And>entry. entry \<in> set (cl_indexes c) \<Longrightarrow> follows h R (marked c) entry) \<Longrightarrow> rq_ok T (cl_dirty c) \<Longrightarrow>
    cl_fieldBuilds c = [] \<Longrightarrow> cl_columns c = [] \<Longrightarrow> indexed_in h T R c"
  unfolding indexed_in_def by blast

lemma indexedD: "indexed_in h T R c \<Longrightarrow> jm_ok (cl_indexes c)" "indexed_in h T R c \<Longrightarrow> entry \<in> set (cl_indexes c) \<Longrightarrow> follows h R (marked c) entry"
    "indexed_in h T R c \<Longrightarrow> rq_ok T (cl_dirty c)" "indexed_in h T R c \<Longrightarrow> cl_fieldBuilds c = []" "indexed_in h T R c \<Longrightarrow> cl_columns c = []"
  unfolding indexed_in_def by blast+

lemma indexed_derived: "derived c' = derived c \<Longrightarrow> indexed h R c \<Longrightarrow> indexed h R c'"
  by (simp add: indexed_in_def derived_def marked_def)

lemma map_jm: "map fst (map (\<lambda>(k, v). (k, f k v)) m) = map fst m"
  by (induction m) auto

lemma record_nothing: "cl_fieldBuilds c = [] \<Longrightarrow> cl_columns c = [] \<Longrightarrow> recordColumnBuildDelta d (recordFieldBuildDelta d c) = c"
  by (simp add: recordColumnBuildDelta_def recordFieldBuildDelta_def)

lemma follows_mono: "follows h R dirty entry \<Longrightarrow> dirty \<subseteq> dirty' \<Longrightarrow> (\<And>rid. rid \<notin> dirty' \<Longrightarrow> R' rid = R rid) \<Longrightarrow> follows h R' dirty' entry"
  by (cases entry) (auto intro!: followsI dest: followsD)

lemma apply_delta_indexed:
  assumes ix: "indexed h R c" and d: "delta_ok R d"
  shows "indexed h (delta_rows R d) (apply_delta h c d)" "marked (apply_delta h c d) = marked c"
proof -
  note rec = record_nothing [OF indexedD(4,5) [OF ix], of d]
  have c1: "apply_delta h c d = (if rq_has (cl_dirty c) (id_rid d) then c
      else c\<lparr>cl_indexes := map (\<lambda>(path, index). (path, put_index h d index)) (cl_indexes c), cl_columns := []\<rparr>)"
    using indexedD(5) [OF ix] by (simp add: apply_delta_def rec Let_def)
  show marked: "marked (apply_delta h c d) = marked c" by (simp add: c1 marked_def)
  show "indexed h (delta_rows R d) (apply_delta h c d)"
  proof (cases "rq_has (cl_dirty c) (id_rid d)")
    case True
    have "follows h (delta_rows R d) (marked c) entry" if "entry \<in> set (cl_indexes c)" for entry
      by (rule follows_mono [OF indexedD(2) [OF ix that]]) (use True in \<open>auto simp: marked_def delta_rows_def\<close>)
    then show ?thesis using True ix unfolding c1 by (auto simp: indexed_in_def)
  next
    case False
    then have c1': "apply_delta h c d = c\<lparr>cl_indexes := map (\<lambda>(path, index). (path, put_index h d index)) (cl_indexes c), cl_columns := []\<rparr>"
      by (simp add: c1)
    have fol: "follows h (delta_rows R d) (marked c) (path, put_index h d index)" if "(path, index) \<in> set (cl_indexes c)" for path index
      by (rule put_index_follows [OF indexedD(2) [OF ix that] d]) (use False in \<open>simp add: marked_def\<close>)
    show ?thesis
    proof (rule indexedI)
      show "jm_ok (cl_indexes (apply_delta h c d))" using indexedD(1) [OF ix] by (simp add: c1' map_jm del: map_map)
      show "follows h (delta_rows R d) (marked (apply_delta h c d)) entry" if "entry \<in> set (cl_indexes (apply_delta h c d))" for entry
        using that fol unfolding marked by (auto simp: c1')
    qed (use indexedD [OF ix] in \<open>simp_all add: c1'\<close>)
  qed
qed

lemma apply_deltas_indexed: "indexed h R c \<Longrightarrow> deltas_ok R ds \<Longrightarrow> indexed h (foldl delta_rows R ds) (foldl (apply_delta h) c ds)"
proof (induction ds arbitrary: R c)
  case (Cons d ds)
  have d: "delta_ok R d" "deltas_ok (delta_rows R d) ds" using Cons.prems(2) by simp_all
  show ?case using Cons.IH [OF apply_delta_indexed(1) [OF Cons.prems(1) d(1)] d(2)] by simp
qed simp

lemma mark_indexed:
  assumes ix: "indexed h R c"
  shows "indexed h (delta_rows R d) (markIndexDirty d c)"
proof -
  note rec = record_nothing [OF indexedD(4,5) [OF ix], of d]
  have c1: "markIndexDirty d c = c\<lparr>cl_dirty := fst (rq_add (cl_dirty c) (id_rid d))\<rparr>" by (simp add: markIndexDirty_def rec Let_def)
  note q = rq_add_ok [OF indexedD(3) [OF ix], of "id_rid d"]
  have marked: "marked (markIndexDirty d c) = insert (id_rid d) (marked c)" using q by (auto simp: marked_def c1)
  show ?thesis
  proof (rule indexedI)
    show "follows h (delta_rows R d) (marked (markIndexDirty d c)) entry" if "entry \<in> set (cl_indexes (markIndexDirty d c))" for entry
    proof (rule follows_mono)
      show "follows h R (marked c) entry" using that indexedD(2) [OF ix] by (simp add: c1)
    qed (auto simp: marked delta_rows_def)
  qed (use indexedD [OF ix] q in \<open>simp_all add: c1\<close>)
qed

lemma marks_indexed: "indexed h R c \<Longrightarrow> indexed h (foldl delta_rows R ds) (foldl (\<lambda>c d. markIndexDirty d c) c ds)"
  by (induction ds arbitrary: R c) (simp_all add: mark_indexed)

lemma batch_indexed:
  assumes "indexed h (rows_at h c0) c" "deltas_ok (rows_at h c0) ds"
  shows "indexed h (foldl delta_rows (rows_at h c0) ds) (applyIndexDeltas h ds c)"
proof -
  have sched: "indexed h R c1 \<Longrightarrow> indexed h R (scheduleDirtyIndexCatchup c1)" for R c1
    by (simp add: scheduleDirtyIndexCatchup_def indexed_in_def marked_def)
  show ?thesis
    using apply_deltas_indexed [OF assms] sched [OF marks_indexed [OF assms(1), of ds]] assms(1)
    by (simp add: applyIndexDeltas_def)
qed

subsection \<open>The operations\<close>

definition fresh :: "host \<Rightarrow> coll \<Rightarrow> bool" where
  "fresh h c \<longleftrightarrow> stores h c \<and> indexed h (rows_at h c) c"

lemma freshD: "fresh h c \<Longrightarrow> stores h c" "fresh h c \<Longrightarrow> indexed h (rows_at h c) c"
  by (simp_all add: fresh_def)

lemma rows_at_cong: "cl_idByRid c' = cl_idByRid c \<Longrightarrow> c_readForQuery h c' = c_readForQuery h c \<Longrightarrow> rows_at h c' = rows_at h c"
  by (auto simp: rows_at_def readRidForQuery_def idForRid_def fun_eq_iff split: option.split)

lemma batch_fresh:
  assumes c: "fresh h c0" and b: "batch_ok h c0 ds c"
  shows "fresh h (applyIndexDeltas h ds c)"
proof -
  have w: "whole_rows h c" and books: "books_ok c" using b by (simp_all add: batch_ok_def stores_def)
  have ix: "indexed h (rows_at h c0) c" using indexed_derived [OF _ freshD(2) [OF c]] b by (simp add: batch_ok_def)
  have core: "core (applyIndexDeltas h ds c) = core c" by (simp add: core_simps)
  have rows: "rows_at h (applyIndexDeltas h ds c) = foldl delta_rows (rows_at h c0) ds"
    using rows_at_cong [of "applyIndexDeltas h ds c" c h] core deltas_whole(2) [OF w] b by (simp add: core_eq batch_ok_def)
  have "deltas_ok (rows_at h c0) ds" using b by (simp add: batch_ok_def)
  from batch_indexed [OF ix this] have "indexed h (rows_at h (applyIndexDeltas h ds c)) (applyIndexDeltas h ds c)" by (simp add: rows)
  then show ?thesis using books_cong [OF core books] deltas_whole(1) [OF w] by (simp add: fresh_def stores_def)
qed

lemma put_fresh:
  assumes "fresh h c" "\<forall>row \<in> set rows. ri_ts row \<noteq> None \<and> jm_ok (entries_of (ri_value row))"
  shows "fresh h (snd (putObjects h trusted rows c))"
proof -
  obtain out c1 where loop: "put_loop h trusted (shouldDeferIndexDeltasForCount (length rows) c) rows c [] [] = (out, c1)"
    by (cases "put_loop h trusted (shouldDeferIndexDeltasForCount (length rows) c) rows c [] []")
  from put_loop_batch [OF batch_refl [OF freshD(1) [OF assms(1)]] assms(2) loop]
  obtain applied ds where "out = Inr (applied, ds)" "batch_ok h c ds c1" by blast
  then show ?thesis using batch_fresh [OF assms(1)] loop by (simp add: putObjects_def)
qed

lemma delete_fresh:
  assumes "fresh h c" "\<forall>row \<in> set rows. rd_ts row \<noteq> None"
  shows "fresh h (snd (deleteObjects h rows c))"
proof -
  obtain applied ds c1 where loop: "delete_loop h rows c [] [] = ((applied, ds), c1)" by (metis prod.collapse)
  from delete_loop_batch [OF batch_refl [OF freshD(1) [OF assms(1)]] assms(2) loop] have "batch_ok h c ds c1" by simp
  then show ?thesis using batch_fresh [OF assms(1)] loop by (simp add: deleteObjects_def)
qed

text \<open>A new index is filled from the live rows.\<close>

lemma fill_index:
  assumes w: "whole_rows h c" and d: "distinct rids"
  shows "fi_path index = path \<Longrightarrow> fi_ok h index \<Longrightarrow> \<forall>rid \<in> set rids. jm_get (fi_forward index) rid = None \<Longrightarrow>
    (let filled = foldl (\<lambda>index rid. case readRidForQuery h c rid of None \<Rightarrow> index | Some object \<Rightarrow> addValue h rid (getPathValue object path) index) index rids
     in fi_path filled = path \<and> fi_ok h filled \<and>
       (\<forall>rid. jm_get (fi_forward filled) rid = (if rid \<in> set rids then map_option (\<lambda>f. value_at f path) (rows_at h c rid) else jm_get (fi_forward index) rid)))"
  using d
proof (induction rids arbitrary: index)
  case (Cons rid rids)
  define i1 where "i1 = (case readRidForQuery h c rid of None \<Rightarrow> index | Some object \<Rightarrow> addValue h rid (getPathValue object path) index)"
  have i1: "fi_path i1 = path \<and> fi_ok h i1 \<and> jm_get (fi_forward i1) = (jm_get (fi_forward index))(rid := map_option (\<lambda>f. value_at f path) (rows_at h c rid))"
  proof (cases "readRidForQuery h c rid")
    case None
    then show ?thesis using Cons.prems by (simp add: i1_def rows_at_def fun_upd_idem)
  next
    case (Some v)
    obtain kvs where v: "v = JObj kvs" using read_rid_object [OF w Some] by (cases v) auto
    have "jm_get (fi_forward index) rid = None" using Cons.prems by simp
    from addValue_ok [OF Cons.prems(2) this, of "getPathValue v path"] show ?thesis
      using Some Cons.prems by (auto simp: i1_def rows_at_def v value_at_path fields_of_def fun_eq_iff)
  qed
  have "\<forall>r \<in> set rids. jm_get (fi_forward i1) r = None" using i1 Cons.prems by auto
  then show ?case using Cons.IH [of i1] i1 Cons.prems(4) by (auto simp: Let_def i1_def [symmetric])
qed simp

lemma live_rows:
  assumes "books_ok c"
  shows "distinct (liveRids c)" "rid \<in> set (liveRids c) \<longleftrightarrow> rows_at h c rid \<noteq> None"
proof -
  note live = live_rids_core [OF core_okD(1) [OF books_okD(1) [OF assms]]]
  show "distinct (liveRids c)" by (rule live(1))
  have "rows_at h c rid \<noteq> None \<longleftrightarrow> (\<exists>key. idForRid c rid = Some key \<and> c_has c key)"
    by (auto simp: rows_at_ids has_fields [of _ _ h] split: option.split)
  also have "\<dots> \<longleftrightarrow> (\<exists>key. c_has c key \<and> ridForId c key = Some rid)"
    using ids_inverse [OF core_okD(1) [OF books_okD(1) [OF assms]]] by blast
  finally show "rid \<in> set (liveRids c) \<longleftrightarrow> rows_at h c rid \<noteq> None" unfolding live(2) by simp
qed

lemma index_of_rows_follows:
  assumes w: "whole_rows h c" and b: "books_ok c"
  shows "follows h (rows_at h c) D (path, index_of_rows h c path)"
proof -
  have "(let filled = foldl (\<lambda>index rid. case readRidForQuery h c rid of None \<Rightarrow> index | Some object \<Rightarrow> addValue h rid (getPathValue object path) index)
      (newFieldIndex path) (liveRids c)
     in fi_path filled = path \<and> fi_ok h filled \<and>
       (\<forall>rid. jm_get (fi_forward filled) rid = (if rid \<in> set (liveRids c) then map_option (\<lambda>f. value_at f path) (rows_at h c rid) else jm_get (fi_forward (newFieldIndex path)) rid)))"
    by (rule fill_index [OF w live_rows(1) [OF b]]) (simp_all add: newFieldIndex_ok, simp_all add: newFieldIndex_def)
  then have i: "fi_path (index_of_rows h c path) = path" "fi_ok h (index_of_rows h c path)"
    "jm_get (fi_forward (index_of_rows h c path)) rid = (if rid \<in> set (liveRids c) then map_option (\<lambda>f. value_at f path) (rows_at h c rid) else None)" for rid
    unfolding index_of_rows_def [symmetric] Let_def by (auto simp: newFieldIndex_def)
  show ?thesis by (rule followsI [OF i(1,2)]) (use i(3) live_rows(2) [OF b, of _ h] in auto)
qed

lemma fresh_indexes:
  assumes c: "fresh h c" and ix: "jm_ok indexes" "\<And>entry. entry \<in> set indexes \<Longrightarrow> follows h (rows_at h c) (marked c) entry"
    and c': "c' = c\<lparr>cl_indexes := indexes, cl_cmeta := (cl_cmeta c)\<lparr>cm_indexes := paths\<rparr>\<rparr>"
  shows "fresh h c'"
proof -
  have books: "books_ok c'" by (rule books_cong [OF _ storesD(1) [OF freshD(1) [OF c]]]) (simp add: c' core_def)
  have w: "whole_rows h c'" using storesD(2) [OF freshD(1) [OF c]] by (simp add: c' whole_rows_def)
  have "c_readForQuery h c' = c_readForQuery h c"
  proof
    fix k show "c_readForQuery h c' k = c_readForQuery h c k"
      unfolding read_whole [OF w] read_whole [OF storesD(2) [OF freshD(1) [OF c]]] by (simp add: c' split: option.split)
  qed
  then have rows: "rows_at h c' = rows_at h c" by (intro rows_at_cong) (simp_all add: c')
  have marked: "marked c' = marked c" by (simp add: marked_def c')
  have "indexed h (rows_at h c') c'" unfolding rows
    by (rule indexedI) (use ix indexedD [OF freshD(2) [OF c]] marked in \<open>simp_all add: c'\<close>)
  then show ?thesis using books w by (simp add: fresh_def stores_def)
qed

lemma create_fresh:
  assumes c: "fresh h c"
  shows "fresh h (createIndex h path c)"
proof (rule fresh_indexes [OF c _ _])
  define c1 where "c1 = c\<lparr>cl_fieldBuilds := jm_del path (cl_fieldBuilds c)\<rparr>"
  have c1: "c1 = c" using indexedD(4) [OF freshD(2) [OF c]] by (simp add: c1_def)
  show "createIndex h path c = c\<lparr>cl_indexes := jm_set path (index_of_rows h c path) (cl_indexes c), cl_cmeta := (cl_cmeta c)\<lparr>cm_indexes :=
      js_unique (filter (\<lambda>p. p \<noteq> []) (map js_trim (js_unique (cm_indexes (cl_cmeta c) @ [path]))))\<rparr>\<rparr>"
    unfolding createIndex_def createIndexFromMeta_def Let_def c1_def [symmetric] c1 by simp
  show "jm_ok (jm_set path (index_of_rows h c path) (cl_indexes c))" using indexedD(1) [OF freshD(2) [OF c]] by simp
  show "follows h (rows_at h c) (marked c) entry" if "entry \<in> set (jm_set path (index_of_rows h c path) (cl_indexes c))" for entry
    using jm_set_mem [OF that]
  proof
    assume "entry = (path, index_of_rows h c path)"
    then show ?thesis using index_of_rows_follows [OF storesD(2,1) [OF freshD(1) [OF c]]] by simp
  next
    assume "entry \<in> set (cl_indexes c)"
    then show ?thesis by (rule indexedD(2) [OF freshD(2) [OF c]])
  qed
qed

lemma drop_fresh:
  assumes c: "fresh h c"
  shows "fresh h (snd (dropIndex path c))"
proof (rule fresh_indexes [OF c _ _])
  show "snd (dropIndex path c) = c\<lparr>cl_indexes := jm_del path (cl_indexes c), cl_cmeta := (cl_cmeta c)\<lparr>cm_indexes :=
      js_unique (filter (\<lambda>p. p \<noteq> []) (map js_trim (filter (\<lambda>index. index \<noteq> path) (cm_indexes (cl_cmeta c)))))\<rparr>\<rparr>"
    using indexedD(4) [OF freshD(2) [OF c]] by (simp add: dropIndex_def)
  show "jm_ok (jm_del path (cl_indexes c))" using indexedD(1) [OF freshD(2) [OF c]] by simp
  show "follows h (rows_at h c) (marked c) entry" if "entry \<in> set (jm_del path (cl_indexes c))" for entry
  proof -
    have "entry \<in> set (cl_indexes c)" using that jm_mem_del [of "fst entry" "snd entry" path "cl_indexes c"] by simp
    then show ?thesis by (rule indexedD(2) [OF freshD(2) [OF c]])
  qed
qed

text \<open>One row is caught up with.\<close>

lemma refresh_follows:
  assumes f: "follows h R dirty (path, index)" and v: "case v of None \<Rightarrow> R rid = None | Some x \<Rightarrow> \<exists>kvs. x = JObj kvs \<and> R rid = Some (map_of kvs)"
  shows "follows h R (dirty - {rid}) (path, let i1 = removeRid h rid index in case v of None \<Rightarrow> i1 | Some obj \<Rightarrow> addValue h rid (getPathValue obj (fi_path i1)) i1)"
proof -
  define i1 where "i1 = removeRid h rid index"
  have i1: "fi_path i1 = path" "fi_ok h i1" "jm_get (fi_forward i1) = (jm_get (fi_forward index))(rid := None)"
    using removeRid_ok [OF followsD(2) [OF f], of rid] followsD(1) [OF f] unfolding i1_def index_path by blast+
  define i2 where "i2 = (case v of None \<Rightarrow> i1 | Some obj \<Rightarrow> addValue h rid (getPathValue obj (fi_path i1)) i1)"
  have "fi_path i2 = path \<and> fi_ok h i2 \<and> jm_get (fi_forward i2) = (jm_get (fi_forward index))(rid := map_option (\<lambda>f. value_at f path) (R rid))"
  proof (cases v)
    case None
    then show ?thesis using i1 assms(2) by (auto simp: i2_def fun_eq_iff)
  next
    case (Some x)
    then obtain kvs where x: "x = JObj kvs" "R rid = Some (map_of kvs)" using v by auto
    have "jm_get (fi_forward i1) rid = None" using i1(3) by simp
    from addValue_ok [OF i1(2) this, of "getPathValue x path"] show ?thesis
      using Some i1 x by (auto simp: i2_def value_at_path fun_eq_iff)
  qed
  then show ?thesis unfolding Let_def i1_def [symmetric] i2_def [symmetric]
    using followsD(3) [OF f] by (intro followsI) auto
qed

lemma refresh_fresh:
  assumes c: "stores h c" and ix: "indexed_in h T (rows_at h c) c" and c'_def: "c' = refreshReadyIndexesForRid h c rid"
  shows "stores h c'" "rows_at h c' = rows_at h c" "cl_dirty c' = cl_dirty c" "cl_fieldBuilds c' = []" "cl_columns c' = []" "jm_ok (cl_indexes c')"
    "entry \<in> set (cl_indexes c') \<Longrightarrow> follows h (rows_at h c) (marked c - {rid}) entry"
    "cl_disposed c' = cl_disposed c"
proof -
  note w = storesD(2) [OF c] and b = storesD(1) [OF c]
  define v where "v = readRidForQuery h c rid"
  define indexes where "indexes = map (\<lambda>(path, index). (path, let i1 = removeRid h rid index in
      case v of None \<Rightarrow> i1 | Some obj \<Rightarrow> addValue h rid (getPathValue obj (fi_path i1)) i1)) (cl_indexes c)"
  define c1 where "c1 = c\<lparr>cl_indexes := indexes, cl_columns := []\<rparr>"
  have c': "c' = (case v of None \<Rightarrow> c1 | Some obj \<Rightarrow> rewriteBaseValueForColumns h rid obj None c1)"
    using indexedD(5) [OF ix] unfolding c'_def refreshReadyIndexesForRid_def v_def [symmetric] Let_def
    by (cases v) (simp_all add: c1_def indexes_def Let_def)
  have w1: "whole_rows h c1" using w by (simp add: c1_def whole_rows_def)
  have read1: "c_readForQuery h c1 = c_readForQuery h c"
  proof
    fix k show "c_readForQuery h c1 k = c_readForQuery h c k"
      unfolding read_whole [OF w1] read_whole [OF w] by (simp add: c1_def split: option.split)
  qed
  have ids1: "idForRid c1 = idForRid c" by (simp add: c1_def idForRid_def fun_eq_iff)
  have core1: "core c1 = core c" by (simp add: c1_def core_def)
  have all: "whole_rows h c' \<and> row_fields h c' = row_fields h c \<and> derived c' = derived c1 \<and> core c' = core c"
  proof (cases v)
    case None
    then show ?thesis using c' w1 read1 core1 by (simp add: row_fields_def fun_eq_iff)
  next
    case (Some obj)
    then obtain key where key: "idForRid c1 rid = Some key" "c_readForQuery h c1 key = Some obj"
      using read1 ids1 by (auto simp: v_def readRidForQuery_def split: option.splits)
    have "c' = rewriteBaseValueForColumns h rid obj None c1" using c' Some by simp
    then show ?thesis using rewrite_whole [OF w1 key] core_rewrite [of h rid obj None c1] core1 read1 by (simp add: row_fields_def fun_eq_iff)
  qed
  have ids: "idForRid c' = idForRid c" using all by (simp add: core_eq idForRid_def fun_eq_iff)
  show "stores h c'" using all books_cong [of c' c] b by (simp add: stores_def)
  have "row_fields h c' = row_fields h c" using all by blast
  then show "rows_at h c' = rows_at h c" by (intro ext) (simp only: rows_at_ids ids)
  have d: "cl_dirty c' = cl_dirty c" "cl_fieldBuilds c' = []" "cl_columns c' = []" "cl_indexes c' = indexes" "cl_disposed c' = cl_disposed c"
    using all indexedD(4) [OF ix] by (simp_all add: derived_def c1_def)
  then show "cl_dirty c' = cl_dirty c" "cl_fieldBuilds c' = []" "cl_columns c' = []" "cl_disposed c' = cl_disposed c" by simp_all
  show "jm_ok (cl_indexes c')" using indexedD(1) [OF ix] by (simp add: d(4) indexes_def map_jm del: map_map)
  have v: "case v of None \<Rightarrow> rows_at h c rid = None | Some x \<Rightarrow> \<exists>kvs. x = JObj kvs \<and> rows_at h c rid = Some (map_of kvs)"
  proof (cases v)
    case (Some x)
    then obtain kvs where "x = JObj kvs" using read_rid_object [OF w, of rid x] by (cases x) (auto simp: v_def)
    then show ?thesis using Some by (simp add: rows_at_def v_def [symmetric] fields_of_def)
  qed (simp add: rows_at_def v_def [symmetric])
  show "follows h (rows_at h c) (marked c - {rid}) entry" if "entry \<in> set (cl_indexes c')"
  proof -
    obtain path index where e: "(path, index) \<in> set (cl_indexes c)"
        "entry = (path, let i1 = removeRid h rid index in case v of None \<Rightarrow> i1 | Some obj \<Rightarrow> addValue h rid (getPathValue obj (fi_path i1)) i1)"
      using \<open>entry \<in> set (cl_indexes c')\<close> unfolding d(4) indexes_def by auto
    show ?thesis unfolding e(2) by (rule refresh_follows [OF indexedD(2) [OF ix e(1)] v])
  qed
qed

text \<open>A batch of the catch-up job, row by row.\<close>

definition catch_row :: "host \<Rightarrow> coll \<Rightarrow> nat \<Rightarrow> coll" where
  "catch_row h c rid = (let c1 = refreshReadyIndexesForRid h c rid in c1\<lparr>cl_dirty := fst (rq_delete (cl_dirty c1) rid)\<rparr>)"

lemma rq_ok_mono: "rq_ok T q \<Longrightarrow> T \<subseteq> T' \<Longrightarrow> rq_ok T' q"
  by (auto simp: rq_ok_def)

lemma dirty_only:
  assumes "stores h c" "indexed_in h T (rows_at h c) c" "c2 = c\<lparr>cl_dirty := q\<rparr>"
  shows "stores h c2" "rows_at h c2 = rows_at h c"
proof -
  have w: "whole_rows h c2" using storesD(2) [OF assms(1)] by (simp add: assms(3) whole_rows_def)
  have "books_ok c2" by (rule books_cong [OF _ storesD(1) [OF assms(1)]]) (simp add: assms(3) core_def)
  then show "stores h c2" using w by (simp add: stores_def)
  have "c_readForQuery h c2 = c_readForQuery h c"
  proof
    fix k show "c_readForQuery h c2 k = c_readForQuery h c k"
      unfolding read_whole [OF w] read_whole [OF storesD(2) [OF assms(1)]] by (simp add: assms(3) split: option.split)
  qed
  then show "rows_at h c2 = rows_at h c" by (intro rows_at_cong) (simp_all add: assms(3))
qed

lemma catch_row_ok:
  assumes "stores h c" "indexed_in h (insert rid T) (rows_at h c) c"
  shows "stores h (catch_row h c rid)" "indexed_in h T (rows_at h c) (catch_row h c rid)" "rows_at h (catch_row h c rid) = rows_at h c"
    "cl_dirty (catch_row h c rid) = fst (rq_delete (cl_dirty c) rid)" "cl_disposed (catch_row h c rid) = cl_disposed c"
proof -
  note r = refresh_fresh [OF assms refl, where rid = rid]
  define c1 where "c1 = refreshReadyIndexesForRid h c rid"
  have c2: "catch_row h c rid = c1\<lparr>cl_dirty := fst (rq_delete (cl_dirty c) rid)\<rparr>" using r(3) by (simp add: catch_row_def Let_def c1_def)
  note q = rq_delete_ok [OF indexedD(3) [OF assms(2)], of rid]
  have marked: "marked (catch_row h c rid) = marked c - {rid}" using q by (auto simp: marked_def c2)
  have w1: "stores h c1" using r(1) by (simp add: c1_def)
  have ix1: "indexed_in h (insert rid T) (rows_at h c1) c1"
    using r(2,3,4,5,6) r(7) indexedD(3) [OF assms(2)] unfolding c1_def
    by (intro indexedI) (auto intro: follows_mono simp: marked_def)
  note d = dirty_only [OF w1 ix1 c2]
  show "stores h (catch_row h c rid)" by (rule d(1))
  show "rows_at h (catch_row h c rid) = rows_at h c" using d(2) r(2) by (simp add: c1_def)
  show "cl_dirty (catch_row h c rid) = fst (rq_delete (cl_dirty c) rid)" by (simp add: c2)
  show "cl_disposed (catch_row h c rid) = cl_disposed c" using r(8) by (simp add: c2 c1_def)
  show "indexed_in h T (rows_at h c) (catch_row h c rid)"
  proof (rule indexedI)
    show "jm_ok (cl_indexes (catch_row h c rid))" "cl_fieldBuilds (catch_row h c rid) = []" "cl_columns (catch_row h c rid) = []"
      using r(4-6) by (simp_all add: c2 c1_def)
    show "follows h (rows_at h c) (marked (catch_row h c rid)) entry" if "entry \<in> set (cl_indexes (catch_row h c rid))" for entry
      using r(7) [of entry] that unfolding marked by (simp add: c2 c1_def)
    show "rq_ok T (cl_dirty (catch_row h c rid))" using rq_ok_mono [OF conjunct1 [OF q], of T] by (auto simp: c2)
  qed
qed

lemma catchup_rows:
  "stores h c \<Longrightarrow> indexed_in h (set batch) (rows_at h c) c \<Longrightarrow>
    stores h (foldl (catch_row h) c batch) \<and> indexed h (rows_at h c) (foldl (catch_row h) c batch) \<and>
    rows_at h (foldl (catch_row h) c batch) = rows_at h c \<and> rq_size (cl_dirty (foldl (catch_row h) c batch)) \<le> rq_size (cl_dirty c) \<and>
    cl_disposed (foldl (catch_row h) c batch) = cl_disposed c"
proof (induction batch arbitrary: c)
  case (Cons rid batch)
  have ix: "indexed_in h (insert rid (set batch)) (rows_at h c) c" using Cons.prems(2) by simp
  note r = catch_row_ok [OF Cons.prems(1) ix]
  show ?case using Cons.IH [OF r(1)] r(2-5) rq_delete_size_le [of "cl_dirty c" rid] by simp
qed simp

text \<open>One round keeps the indexes in step, keeps the rows and leaves fewer rows marked.\<close>

lemma catchup_round_fresh:
  assumes c: "fresh h c" and size: "rq_size (cl_dirty c) \<noteq> 0"
  shows "fresh h (catchup_round h c)" "rows_at h (catchup_round h c) = rows_at h c" "cl_disposed (catchup_round h c) = cl_disposed c"
    "rq_size (cl_dirty (catchup_round h c)) < rq_size (cl_dirty c)"
proof -
  note ix = freshD(2) [OF c] and st = freshD(1) [OF c]
  obtain batch q where t: "rq_take (cl_dirty c) 4096 = (batch, q)" by (cases "rq_take (cl_dirty c) 4096")
  note q = rq_take_ok [OF indexedD(3) [OF ix] t]
  have "batch \<noteq> []" using q size by simp
  then obtain rid rest where b: "batch = rid # rest" by (cases batch) simp_all
  define c1 where "c1 = c\<lparr>cl_dirty := q\<rparr>"
  note d = dirty_only [OF st ix c1_def]
  have marked: "marked c1 = marked c" using rq_take_has [OF t] by (simp add: c1_def marked_def)
  have ix1: "indexed_in h (set batch) (rows_at h c1) c1"
  proof (rule indexedI)
    show "follows h (rows_at h c1) (marked c1) entry" if "entry \<in> set (cl_indexes c1)" for entry
      using indexedD(2) [OF ix, of entry] that unfolding marked d(2) by (simp add: c1_def)
  qed (use indexedD [OF ix] q in \<open>simp_all add: c1_def\<close>)
  have ix1': "indexed_in h (insert rid (set rest)) (rows_at h c1) c1" using ix1 b by simp
  note r1 = catch_row_ok [OF d(1) ix1']
  have ix2: "indexed_in h (set rest) (rows_at h (catch_row h c1 rid)) (catch_row h c1 rid)" using r1(2,3) by simp
  note r = catchup_rows [OF r1(1) ix2]
  have round: "catchup_round h c = foldl (catch_row h) (catch_row h c1 rid) rest"
    using t b by (simp add: catchup_round_def catch_row_def [abs_def] c1_def)
  show rows: "rows_at h (catchup_round h c) = rows_at h c" using r r1(3) d(2) by (simp add: round)
  show "fresh h (catchup_round h c)" using r rows r1(3) d(2) by (simp add: fresh_def round)
  show "cl_disposed (catchup_round h c) = cl_disposed c" using r r1(5) by (simp add: round c1_def)
  have "rq_has (cl_dirty c1) rid" using rq_take_members [OF t, of rid] rq_take_has [OF t, of rid] b by (simp add: c1_def)
  then have "rq_size (cl_dirty (catch_row h c1 rid)) < rq_size (cl_dirty c)"
    using rq_delete_size_less rq_take_size [OF t] r1(4) by (simp add: c1_def) fastforce
  then show "rq_size (cl_dirty (catchup_round h c)) < rq_size (cl_dirty c)" using r by (simp add: round)
qed

lemma idle_fresh:
  assumes "fresh h c"
  shows "fresh h (c\<lparr>cl_dirtyBuild := False\<rparr>)" "rows_at h (c\<lparr>cl_dirtyBuild := False\<rparr>) = rows_at h c"
proof -
  define c2 where "c2 = c\<lparr>cl_dirtyBuild := False\<rparr>"
  note st = freshD(1) [OF assms]
  have w: "whole_rows h c2" using storesD(2) [OF st] by (simp add: c2_def whole_rows_def)
  have b: "books_ok c2" by (rule books_cong [OF _ storesD(1) [OF st]]) (simp add: c2_def core_def)
  have "c_readForQuery h c2 = c_readForQuery h c"
  proof
    fix k show "c_readForQuery h c2 k = c_readForQuery h c k"
      unfolding read_whole [OF w] read_whole [OF storesD(2) [OF st]] by (simp add: c2_def split: option.split)
  qed
  then have rows: "rows_at h c2 = rows_at h c" by (intro rows_at_cong) (simp_all add: c2_def)
  have "indexed h (rows_at h c2) c2" unfolding rows using freshD(2) [OF assms] by (simp add: indexed_in_def marked_def c2_def)
  then show "fresh h (c\<lparr>cl_dirtyBuild := False\<rparr>)" "rows_at h (c\<lparr>cl_dirtyBuild := False\<rparr>) = rows_at h c"
    using w b rows by (simp_all add: fresh_def stores_def c2_def)
qed

lemma catchup_ends:
  "fresh h c \<Longrightarrow> \<not> cl_disposed c \<Longrightarrow> rq_size (cl_dirty c) \<le> int fuel \<Longrightarrow>
    \<exists>c'. runDirtyIndexCatchup h fuel c = Some c' \<and> rq_size (cl_dirty c') = 0 \<and> fresh h c' \<and> rows_at h c' = rows_at h c"
proof (induction fuel arbitrary: c)
  case (0 c)
  have "rq_size (cl_dirty c) = 0" using 0(3) rq_size_nonneg [OF indexedD(3) [OF freshD(2) [OF 0(1)]]] by simp
  then show ?case using idle_fresh [OF 0(1)] by (simp add: runDirtyIndexCatchup.simps [of h 0])
next
  case (Suc fuel c)
  show ?case
  proof (cases "rq_size (cl_dirty c) = 0")
    case True
    then show ?thesis using idle_fresh [OF Suc.prems(1)] by (simp add: runDirtyIndexCatchup.simps [of h "Suc fuel"])
  next
    case False
    note r = catchup_round_fresh [OF Suc.prems(1) False]
    have "rq_size (cl_dirty (catchup_round h c)) \<le> int fuel" using r(4) Suc.prems(3) by simp
    from Suc.IH [OF r(1) _ this] show ?thesis using r(2,3) Suc.prems(2) False
      by (simp add: runDirtyIndexCatchup.simps [of h "Suc fuel"])
  qed
qed

subsection \<open>Runs\<close>

fun whole_op :: "coll_op \<Rightarrow> bool" where
  "whole_op (CPut trusted rows) \<longleftrightarrow> (\<forall>row \<in> set rows. ri_ts row \<noteq> None \<and> jm_ok (entries_of (ri_value row)))"
| "whole_op (CDelete rows) \<longleftrightarrow> (\<forall>row \<in> set rows. rd_ts row \<noteq> None)"
| "whole_op (CIndex path) \<longleftrightarrow> True"
| "whole_op (CUnindex path) \<longleftrightarrow> True"
| "whole_op CCatchup \<longleftrightarrow> True"
| "whole_op p \<longleftrightarrow> False"

lemma idle_round_fresh:
  assumes c: "fresh h c" and size: "rq_size (cl_dirty c) = 0"
  shows "fresh h (catchup_round h c)"
proof -
  note ix = freshD(2) [OF c]
  have none: "marked c = {}" using rq_size_zero [OF indexedD(3) [OF ix]] size by (simp add: marked_def)
  have round: "catchup_round h c = c\<lparr>cl_dirty := rq_clear (cl_dirty c)\<rparr>" using size by (simp add: catchup_round_def rq_take_def)
  note d = dirty_only [OF freshD(1) [OF c] ix round]
  have marked: "marked (catchup_round h c) = {}" using rq_clear_ok by (simp add: round marked_def)
  have "indexed h (rows_at h (catchup_round h c)) (catchup_round h c)"
  proof (rule indexedI)
    show "follows h (rows_at h (catchup_round h c)) (marked (catchup_round h c)) entry" if "entry \<in> set (cl_indexes (catchup_round h c))" for entry
      using indexedD(2) [OF ix, of entry] that unfolding marked d(2) none by (simp add: round)
  qed (use indexedD [OF ix] rq_clear_ok in \<open>simp_all add: round\<close>)
  then show ?thesis using d(1) by (simp add: fresh_def)
qed

lemma step_fresh: "fresh h c \<Longrightarrow> whole_op p \<Longrightarrow> fresh h (c_step h c p)"
  by (cases p; cases "rq_size (cl_dirty c) = 0")
    (simp_all add: put_fresh delete_fresh create_fresh drop_fresh idle_round_fresh catchup_round_fresh(1))

definition whole_run :: "host \<Rightarrow> jobj \<Rightarrow> coll_op list \<Rightarrow> coll" where
  "whole_run h options ops = c_run h (ObjectEngine (newObjectRowStore h options)) ops"

lemma run_fresh:
  assumes "rows_not_pooled options" "\<forall>p \<in> set ops. whole_op p"
  shows "fresh h (whole_run h options ops)"
proof -
  define c0 where "c0 = newCollection (ObjectEngine (newObjectRowStore h options)) None"
  have "books_ok c0" unfolding c0_def
    by (rule books_okI [OF newCollection_core_ok]) (simp_all add: newCollection_def settled_def)
  moreover have "whole_rows h c0" using new_replica(1) [OF assms(1), of h] by (simp add: c0_def replica_ok_def)
  moreover have "indexed h (rows_at h c0) c0"
    by (rule indexedI) (simp_all add: c0_def newCollection_def newRidQueue_def rq_ok_def rq_has_def js_at_def)
  ultimately have "fresh h c0" by (simp add: fresh_def stores_def)
  moreover have "fresh h c \<Longrightarrow> \<forall>p \<in> set ops. whole_op p \<Longrightarrow> fresh h (foldl (c_step h) c ops)" for c
    by (induction ops arbitrary: c) (simp_all add: step_fresh)
  ultimately show ?thesis using assms(2) by (simp add: whole_run_def c_run_def c0_def)
qed

subsection \<open>What the planner assumes holds\<close>

lemma live_length:
  assumes "books_ok c"
  shows "cl_liveCount c = int (length (liveRids c))"
proof -
  note core = core_okD [OF books_okD(1) [OF assms]] and settled = books_okD(2) [OF assms]
  have jm: "jm_ok (cl_meta c)" using core(1) by (simp add: rids_ok_def)
  define es where "es = filter (\<lambda>(key, m). om_deleted m = None) (cl_meta c)"
  have "(k, m) \<in> set es \<longleftrightarrow> jm_get (cl_meta c) k = Some m \<and> was_live m" for k m
    using jm_get_mem [OF jm, of k m] settledD [OF settled, of k m] by (auto simp: es_def)
  then have "set (map fst es) = live_keys c" unfolding live_keys_def by (auto simp: image_iff) (metis fst_conv)
  moreover have "distinct (map fst es)" using jm by (simp add: es_def distinct_map_filter)
  ultimately have "card (live_keys c) = length es" using distinct_card [of "map fst es"] by simp
  then show ?thesis using core(5) by (simp add: liveRids_def es_def)
qed

lemma dirty_list: "rq_ok {} q \<Longrightarrow> set (rq_list q) = {rid. rq_has q rid}"
  by (auto simp: rq_list_def rq_ok_def rq_waiting_def)

lemma fresh_view:
  assumes c: "fresh h c"
  shows "view_ok h (view_of h c)"
proof -
  note b = storesD(1) [OF freshD(1) [OF c]] and w = storesD(2) [OF freshD(1) [OF c]] and ix = freshD(2) [OF c]
  define v where "v = view_of h c"
  have read: "vw_readForQuery v = readRidForQuery h c" "vw_read v = readRidForQuery h c" by (simp_all add: v_def view_of_def)
  have ids: "row_ids v = set (liveRids c)" using live_rows(2) [OF b, of _ h] by (auto simp: row_ids_def read rows_at_def)
  have inv: "ridForId c k = Some r \<longleftrightarrow> idForRid c r = Some k" for k r by (rule ids_inverse [OF core_okD(1) [OF books_okD(1) [OF b]]])
  have row: "\<exists>key kvs. idForRid c rid = Some key \<and> c_has c key \<and> row_of v rid = JObj kvs \<and> readRidForQuery h c rid = Some (JObj kvs) \<and>
      getPathValue (JObj kvs) ''_id'' = JStr key" if rid: "rid \<in> row_ids v" for rid
  proof -
    obtain obj where obj: "readRidForQuery h c rid = Some obj" using rid by (auto simp: row_ids_def read)
    then obtain key where key: "idForRid c rid = Some key" "c_readForQuery h c key = Some obj"
      by (auto simp: readRidForQuery_def split: option.splits)
    obtain kvs where kvs: "obj = JObj kvs" using read_object [OF w key(2)] by (cases obj) auto
    have "c_has c key" using key(2) by (simp add: has_fields [of _ _ h] row_fields_def)
    then show ?thesis using key obj kvs read_object [OF w key(2)] by (auto simp: row_of_def read)
  qed
  have "index_fresh h v path index" if get: "jm_get (vw_indexes v) path = Some index" for path index
  proof -
    have mem: "(path, index) \<in> set (cl_indexes c)" using get by (simp add: v_def view_of_def map_of_SomeD)
    note f = indexedD(2) [OF ix mem]
    have dirty: "set (vw_dirty v) = marked c" using dirty_list [OF indexedD(3) [OF ix]] by (simp add: v_def view_of_def marked_def)
    have val: "map_option (\<lambda>f. value_at f path) (rows_at h c rid) = map_option (\<lambda>object. getPathValue object path) (readRidForQuery h c rid)" for rid
    proof (cases "readRidForQuery h c rid")
      case (Some obj)
      then obtain kvs where "obj = JObj kvs" using read_rid_object [OF w Some] by (cases obj) auto
      then show ?thesis using Some by (simp add: rows_at_def value_at_path fields_of_def)
    qed (simp add: rows_at_def)
    show ?thesis unfolding index_fresh_def dirty read using followsD(2,3) [OF f] val by simp
  qed
  moreover have "(vw_ridOf v s = Some rid \<and> vw_has v s) \<longleftrightarrow> (rid \<in> row_ids v \<and> getPathValue (row_of v rid) ''_id'' = JStr s)" for s rid
  proof
    assume a: "vw_ridOf v s = Some rid \<and> vw_has v s"
    then have "ridForId c s = Some rid" "c_has c s" by (simp_all add: v_def view_of_def)
    then have "rid \<in> row_ids v" "idForRid c rid = Some s" unfolding ids live_rids_core(2) [OF core_okD(1) [OF books_okD(1) [OF b]]] inv by blast+
    then show "rid \<in> row_ids v \<and> getPathValue (row_of v rid) ''_id'' = JStr s" using row by fastforce
  next
    assume a: "rid \<in> row_ids v \<and> getPathValue (row_of v rid) ''_id'' = JStr s"
    then obtain key kvs where "idForRid c rid = Some key" "c_has c key" "row_of v rid = JObj kvs" "getPathValue (JObj kvs) ''_id'' = JStr key"
      using row by blast
    then have "key = s" "ridForId c s = Some rid" "c_has c s" using a inv by auto
    then show "vw_ridOf v s = Some rid \<and> vw_has v s" by (simp add: v_def view_of_def)
  qed
  moreover have "is_str (getPathValue (row_of v rid) ''_id'')" "vw_read v rid \<noteq> None" if "rid \<in> row_ids v" for rid
    using row [OF that] by (auto simp: read)
  moreover have "vw_live v = liveRids c" "vw_liveCount v = length (liveRids c)" using live_length [OF b] by (simp_all add: v_def view_of_def)
  ultimately show ?thesis unfolding v_def [symmetric] view_ok_def using ids live_rows(1) [OF b] by simp
qed

lemma id_answerable:
  assumes "view_ok h v" "text_operand e \<noteq> None"
  shows "answerable h v ''_id'' e"
proof -
  have "text_value (getPathValue (row_of v rid) ''_id'')" if "rid \<in> row_ids v" for rid
    using assms(1) that by (simp add: view_ok_def text_value_def)
  then show ?thesis using assms by (simp add: answerable_def text_constraint_def starts_with_def)
qed

subsection \<open>Properties\<close>


definition small_run :: "coll_op list" where
  "small_run =
    [CPut False [\<lparr>ri_id = ''a'', ri_value = JObj [(''n'', JStr ''x'')], ri_ts = Some \<lparr>tc = 1, tn = ''x''\<rparr>, ri_shard = JUndef\<rparr>,
       \<lparr>ri_id = ''b'', ri_value = JObj [(''n'', JStr ''y'')], ri_ts = Some \<lparr>tc = 2, tn = ''x''\<rparr>, ri_shard = JUndef\<rparr>],
     CIndex ''n'',
     CPut False [\<lparr>ri_id = ''a'', ri_value = JObj [(''n'', JStr ''y'')], ri_ts = Some \<lparr>tc = 3, tn = ''x''\<rparr>, ri_shard = JUndef\<rparr>],
     CDelete [\<lparr>rd_id = ''b'', rd_ts = Some \<lparr>tc = 4, tn = ''x''\<rparr>, rd_shard = JUndef\<rparr>],
     CCatchup]"

lemma small_run_ok: "rows_not_pooled []" "\<forall>p \<in> set small_run. whole_op p"
  by (simp_all add: rows_not_pooled_def oget_def small_run_def)


text \<open>C13: The catch-up job ends: from any reachable state with rows marked dirty, as many rounds as there are marked rows are enough; then no
row is marked, no row has changed, and every index holds exactly the present value of every row.\<close>

theorem catchup_completes:
  assumes "rows_not_pooled options" and "\<forall>p \<in> set ops. whole_op p" and "c = whole_run h options ops"
  shows "\<exists>c'. runDirtyIndexCatchup h (nat (rq_size (cl_dirty c))) c = Some c' \<and> rq_size (cl_dirty c') = 0 \<and>
    rows_at h c' = rows_at h c \<and>
    (\<forall>path index rid. jm_get (cl_indexes c') path = Some index \<longrightarrow>
       jm_get (fi_forward index) rid = map_option (\<lambda>f. value_at f path) (rows_at h c rid))"
proof -
  have c: "fresh h c" using run_fresh [OF assms(1,2)] assms(3) by simp
  have size: "rq_size (cl_dirty c) \<le> int (nat (rq_size (cl_dirty c)))" by simp
  have live: "\<not> cl_disposed c" using storesD(2) [OF freshD(1) [OF c]] by (simp add: whole_rows_def)
  obtain c' where c': "runDirtyIndexCatchup h (nat (rq_size (cl_dirty c))) c = Some c'" "rq_size (cl_dirty c') = 0" "fresh h c'" "rows_at h c' = rows_at h c"
    using catchup_ends [OF c live size] by blast
  have none: "marked c' = {}" using rq_size_zero [OF indexedD(3) [OF freshD(2) [OF c'(3)]]] c'(2) by (simp add: marked_def)
  have "jm_get (fi_forward index) rid = map_option (\<lambda>f. value_at f path) (rows_at h c rid)" if "jm_get (cl_indexes c') path = Some index" for path index rid
    using followsD(3) [OF indexedD(2) [OF freshD(2) [OF c'(3)] map_of_SomeD [OF that]], of rid] none c'(4) by simp
  then show ?thesis using c'(1,2,4) by blast
qed

theorem catchup_completes_witness:
  "\<exists>c'. runDirtyIndexCatchup plain_host (nat (rq_size (cl_dirty (whole_run plain_host [] small_run)))) (whole_run plain_host [] small_run) = Some c' \<and>
     rq_size (cl_dirty c') = 0"
  using catchup_completes [OF small_run_ok refl, of plain_host] by blast

end
