(* ===== verification/CollErrors.thy ===== *)
theory CollErrors
  imports CollIndex
begin

text \<open>
  Places where the collection of src/src/store.js does not do what it means to: what the code does there, stated on the model.
\<close>

subsection \<open>A row written before and after an index build scans it\<close>

lemma text_index_values: "indexedStoredValues (JStr s) = [JStr s]"
  by (simp add: isScalarIndexValue_def)

lemma unique_one: "uniqueIndexValues h [v] = [v]"
  by (simp add: uniqueIndexValues_def)

lemma lookup_frame: "fi_lookup (addContainsState rid v fi) = fi_lookup fi" "fi_lookup (removeContainsState rid v fi) = fi_lookup fi"
    "fi_lookup (addOrdered h rid v fi) = fi_lookup fi" "fi_lookup (removeOrdered h rid v fi) = fi_lookup fi"
  by (auto simp: addContainsState_def removeContainsState_def addOrdered_def removeOrdered_def Let_def split: option.split)

lemma forward_frame: "fi_forward (addContainsState rid v fi) = fi_forward fi" "fi_forward (removeContainsState rid v fi) = fi_forward fi"
    "fi_forward (addOrdered h rid v fi) = fi_forward fi" "fi_forward (removeOrdered h rid v fi) = fi_forward fi"
  by (auto simp: addContainsState_def removeContainsState_def addOrdered_def removeOrdered_def Let_def split: option.split)

lemma forward_value: "fi_forward (addValue h rid v fi) = jm_set rid v (fi_forward fi)"
  by (simp add: addValue_def Let_def forward_frame)

lemma lookup_text: "fi_lookup (addValue h rid (JStr s) fi) = bag_add (indexValueKey h (JStr s)) rid (fi_lookup fi)"
    "fi_lookup (removeValue h rid (JStr s) fi) = bag_del (indexValueKey h (JStr s)) rid (fi_lookup fi)"
  by (simp_all add: addValue_def removeValue_def Let_def lookup_frame isScalarIndexValue_def bag_add_all_def bag_del_all_def)

text \<open>C35: A row that changes before an index build reads it and again after keeps a stale key in the new index: the changes of a row during
a build are merged to the first value before and the last value after, and the replay removes only that first value, so the value the build
read in between stays in the lookup and the index answers with a row that no longer has it.\<close>

theorem field_build_keeps_stale_key:
  assumes "x \<noteq> y" and "build = \<lparr>fb_id = n, fb_building = True, fb_pending = []\<rparr>"
    and "id_rid d1 = rid" "id_before d1 = Some (JObj [(''n'', JStr x)])" "id_after d1 = Some (JObj [(''n'', JStr y)])"
    and "id_rid d2 = rid" "id_before d2 = Some (JObj [(''n'', JStr y)])" "id_after d2 = Some (JObj [(''n'', JStr z)])"
    and "scanned = addValue h rid (JStr y) (newFieldIndex ''n'')"
    and "index = replay_pending h scanned (fb_pending (build_delta d2 ''n'' (build_delta d1 ''n'' build)))"
  shows "jm_get (fi_forward index) rid = Some (JStr z) \<and> rid \<in> set (idsForValues h index [JStr y])"
proof -
  have key: "indexValueKey h (JStr x) \<noteq> indexValueKey h (JStr y)" using assms(1) by (simp add: index_key_text)
  have path: "getPathValue (JObj [(''n'', v)]) ''n'' = v" for v by (simp add: getPathValue_def nullish_def oget_def)
  have pending: "fb_pending (build_delta d2 ''n'' (build_delta d1 ''n'' build)) = [(rid, Some (JStr x), Some (JStr z))]"
    using assms(2-8) path by (simp add: build_delta_def)
  have index: "index = addValue h rid (JStr z) (removeValue h rid (JStr x) scanned)"
    using assms(10) by (simp add: pending replay_pending_def)
  have "rid \<in> set (bag_get (fi_lookup scanned) (indexValueKey h (JStr y)))"
    by (simp add: assms(9) lookup_text bag_add_get)
  then have "rid \<in> set (bag_get (fi_lookup index) (indexValueKey h (JStr y)))"
    using key by (auto simp: index lookup_text bag_add_get bag_del_get)
  then show ?thesis by (simp add: index forward_value idsForValues_def unique_one)
qed

theorem field_build_keeps_stale_key_witness:
  "\<exists>index. jm_get (fi_forward index) 0 = Some (JStr ''z'') \<and> 0 \<in> set (idsForValues plain_host index [JStr ''y''])"
  by (rule exI, rule field_build_keeps_stale_key [OF _ refl _ _ _ _ _ _ refl refl,
        of "''x''" "''y''" "\<lparr>id_rid = 0, id_before = Some (JObj [(''n'', JStr ''x'')]), id_after = Some (JObj [(''n'', JStr ''y'')])\<rparr>" 0
        "\<lparr>id_rid = 0, id_before = Some (JObj [(''n'', JStr ''y'')]), id_after = Some (JObj [(''n'', JStr ''z'')])\<rparr>" "''z''"]) simp_all

subsection \<open>A write that is rejected\<close>

text \<open>A row whose vector is not a vector is rejected, but when its id is new the collection has the id from then on: the row's place in the
metadata is made before its value is looked at, and nothing takes it away. The row reads back with its id only, and it is not counted.\<close>

theorem rejected_write_leaves_row:
  assumes "cl_vectorField c = Some field" and "jm_get (cl_meta c) (ri_id row) = None"
    and "jm_get (entries_of (or_empty (ri_value row))) field = Some raw" and "raw \<noteq> JNull" and "\<not> isValidVector raw"
    and "putObjects h trusted [row] c = (out, c')"
  shows "out = Inl BadVector \<and> \<not> c_has c (ri_id row) \<and> c_has c' (ri_id row) \<and> cl_liveCount c' = cl_liveCount c"
proof -
  define m where "m = \<lparr>om_ts = None, om_deleted = None, om_rid = length (cl_idByRid c), om_shard = None\<rparr>"
  define c1 where "c1 = c\<lparr>cl_idByRid := cl_idByRid c @ [ri_id row], cl_meta := jm_set (ri_id row) m (cl_meta c)\<rparr>"
  have em: "ensureMeta (ri_id row) c = (m, c1)"
    using assms(2) by (simp add: ensureMeta_def allocateRid_def m_def c1_def Let_def)
  have "prepareStoredValue c1 (ri_value row) = Inl BadVector"
    using assms(1,3,4,5) by (simp add: prepareStoredValue_def extractVector_def c1_def cloneVector_def Let_def)
  then have put: "c_putObject h trusted keepAll row c = (Inl BadVector, c1)" for keepAll
    unfolding c_putObject_def em prod.case by (simp add: m_def Let_def)
  then have "out = Inl BadVector" "c' = c1" using assms(6) by (simp_all add: putObjects_def)
  then show ?thesis using assms(2) by (simp add: c_has_def c1_def m_def)
qed

theorem rejected_write_leaves_row_witness:
  "\<exists>c'. c_has c' ''a'' \<and> snd (putObjects plain_host False [\<lparr>ri_id = ''a'', ri_value = JObj [(''v'', JBool True)], ri_ts = None, ri_shard = JUndef\<rparr>]
      (newCollection (ShapeEngine newShapeStore) (Some ''v''))) = c'"
proof -
  define row where "row = \<lparr>ri_id = ''a'', ri_value = JObj [(''v'', JBool True)], ri_ts = None, ri_shard = JUndef\<rparr>"
  define c where "c = newCollection (ShapeEngine newShapeStore) (Some ''v'')"
  obtain out c' where put: "putObjects plain_host False [row] c = (out, c')" by (cases "putObjects plain_host False [row] c")
  have "c_has c' (ri_id row)"
    using rejected_write_leaves_row [of c "''v''" row "JBool True" plain_host False out c', OF _ _ _ _ _ put]
    by (simp add: c_def newCollection_def row_def or_empty_def isValidVector_def)
  then show ?thesis using put by (auto simp: row_def c_def)
qed

subsection \<open>A path through an array\<close>

text \<open>Tiering a row by a path that leads through an array loses the array: the kept element is put back under an object in its place, and
the merge of the cold and the hot part, which descends into objects only, takes that object for the whole value.\<close>

theorem tiered_array_path_is_lost:
  "(case splitTieredValue (JObj [(''tags'', JArr [JStr ''a'', JStr ''b''])]) \<lparr>ti_keep = [''tags.0''], ti_offload = [], ti_minBytes = Fin 0\<rparr> [] of
      (hot, None) \<Rightarrow> hot | (hot, Some cold) \<Rightarrow> mergePlainObjects cold hot) = JObj [(''tags'', JObj [(''0'', JStr ''a'')])]"
  by code_simp

end
