(* ===== verification/DbStore.thy ===== *)
theory DbStore
  imports CollTier CollRows
begin

text \<open>
  The classes Database and Store of src/src/store.js: named databases of named collections, the tombstones of what was deleted,
  loading in bulk, and the replication entry point \<open>applyOps\<close>, which hands runs of operations on one collection to it as one batch.

  A collection is known by the names it is stored under: the sets of collections that the code keeps by identity hold names here, and
  what is deleted is taken out of them, as there. A new collection is made from the options of the store (\<open>ds_engine\<close>,
  \<open>ds_vectorField\<close>). The heap usage that \<open>startIndexWarmup\<close> reads is an argument; the vector indexes and the statistics are left out.
\<close>

datatype store_error =
    DatabaseDeleted
  | CollectionDeleted
  | DatabaseMeta
  | CollMeta meta_error
  | CollRefused coll_error

record database =
  db_collections :: "(string, coll) jmap"
  db_meta :: jsv

record dstore =
  ds_engine :: phys
  ds_vectorField :: "string option"
  ds_dbs :: "(string, database) jmap"
  ds_dbTombs :: "string list"
  ds_collTombs :: "string list"
  ds_bulkDepth :: nat
  ds_bulkDirty :: "(string \<times> string) list"
  ds_warmup :: "(string \<times> string) list"
  ds_retryTimer :: bool

text \<open>An operation as nodes exchange it.\<close>

record rop =
  op_kind :: string
  op_db :: string
  op_coll :: string
  op_id :: string
  op_value :: jsv
  op_ts :: "ts option"
  op_shard :: jsv
  op_from :: string
  op_seq :: nat

definition newDatabase :: database where
  "newDatabase = \<lparr>db_collections = [], db_meta = JObj []\<rparr>"

definition newStore :: "phys \<Rightarrow> string option \<Rightarrow> dstore" where
  "newStore engine vectorField =
     \<lparr>ds_engine = engine, ds_vectorField = vectorField, ds_dbs = [], ds_dbTombs = [], ds_collTombs = [], ds_bulkDepth = 0,
      ds_bulkDirty = [], ds_warmup = [], ds_retryTimer = False\<rparr>"

definition NUL :: char where
  "NUL = char_of (0 :: nat)"

definition storeCollectionKey :: "string \<Rightarrow> string \<Rightarrow> string" where
  "storeCollectionKey db coll = db @ [NUL] @ coll"

subsection \<open>Databases and collections\<close>

text \<open>\<open>db(name)\<close> and \<open>Database.collection(name)\<close>: get, or make and keep.\<close>

definition openDb :: "string \<Rightarrow> dstore \<Rightarrow> database \<times> dstore" where
  "openDb db s =
     (case jm_get (ds_dbs s) db of
        Some d \<Rightarrow> (d, s)
      | None \<Rightarrow> (newDatabase, s\<lparr>ds_dbs := jm_set db newDatabase (ds_dbs s)\<rparr>))"

definition getCollection :: "dstore \<Rightarrow> string \<Rightarrow> string \<Rightarrow> coll option" where
  "getCollection s db coll = (case jm_get (ds_dbs s) db of None \<Rightarrow> None | Some d \<Rightarrow> jm_get (db_collections d) coll)"

text \<open>The collection under its names is the given one from now on; its database is there.\<close>

definition putCollection :: "string \<Rightarrow> string \<Rightarrow> coll \<Rightarrow> dstore \<Rightarrow> dstore" where
  "putCollection db coll c s =
     (case openDb db s of
        (d, s1) \<Rightarrow> s1\<lparr>ds_dbs := jm_set db (d\<lparr>db_collections := jm_set coll c (db_collections d)\<rparr>) (ds_dbs s1)\<rparr>)"

definition isCollectionDeleted :: "dstore \<Rightarrow> string \<Rightarrow> string \<Rightarrow> bool" where
  "isCollectionDeleted s db coll \<longleftrightarrow> storeCollectionKey db coll \<in> set (ds_collTombs s)"

definition isDatabaseDeleted :: "dstore \<Rightarrow> string \<Rightarrow> bool" where
  "isDatabaseDeleted s db \<longleftrightarrow> db \<in> set (ds_dbTombs s)"

definition assertCollectionWritable :: "dstore \<Rightarrow> string \<Rightarrow> string \<Rightarrow> store_error option" where
  "assertCollectionWritable s db coll =
     (if isDatabaseDeleted s db then Some DatabaseDeleted
      else if isCollectionDeleted s db coll then Some CollectionDeleted else None)"

text \<open>\<open>collection(db, coll)\<close>: throws when a tombstone is in the way, otherwise the collection, which is made when it is new.\<close>

definition openCollection :: "string \<Rightarrow> string \<Rightarrow> dstore \<Rightarrow> (store_error + coll) \<times> dstore" where
  "openCollection db coll s =
     (case assertCollectionWritable s db coll of
        Some e \<Rightarrow> (Inl e, s)
      | None \<Rightarrow>
          (case openDb db s of
             (d, s1) \<Rightarrow>
               (case jm_get (db_collections d) coll of
                  Some c \<Rightarrow> (Inr c, s1)
                | None \<Rightarrow> let c = newCollection (ds_engine s1) (ds_vectorField s1) in (Inr c, putCollection db coll c s1))))"

text \<open>\<open>Database.setMeta\<close>; the result is a copy of the metadata.\<close>

definition db_setMeta :: "jsv \<Rightarrow> database \<Rightarrow> (store_error + jsv) \<times> database" where
  "db_setMeta meta d =
     (if is_obj meta then (Inr (json_clone (json_clone meta)), d\<lparr>db_meta := json_clone meta\<rparr>) else (Inl DatabaseMeta, d))"

definition setDatabaseMeta :: "string \<Rightarrow> jsv \<Rightarrow> dstore \<Rightarrow> (store_error + jsv) \<times> dstore" where
  "setDatabaseMeta db meta s =
     (case openDb db (s\<lparr>ds_dbTombs := js_del db (ds_dbTombs s)\<rparr>) of
        (d, s1) \<Rightarrow> (case db_setMeta meta d of (r, d1) \<Rightarrow> (r, s1\<lparr>ds_dbs := jm_set db d1 (ds_dbs s1)\<rparr>)))"

definition createDatabase :: "string \<Rightarrow> jsv \<Rightarrow> dstore \<Rightarrow> (store_error + jsv) \<times> dstore" where
  "createDatabase db meta s =
     (case openDb db (s\<lparr>ds_dbTombs := js_del db (ds_dbTombs s)\<rparr>) of
        (d, s1) \<Rightarrow> (case db_setMeta meta d of (r, d1) \<Rightarrow> (r, s1\<lparr>ds_dbs := jm_set db d1 (ds_dbs s1)\<rparr>)))"

definition getDatabaseMeta :: "dstore \<Rightarrow> string \<Rightarrow> jsv option" where
  "getDatabaseMeta s db = map_option (\<lambda>d. json_clone (db_meta d)) (jm_get (ds_dbs s) db)"

text \<open>\<open>_disposeCollection\<close>: what is left of the collection is no longer reachable.\<close>

definition disposeCollection :: "string \<Rightarrow> string \<Rightarrow> dstore \<Rightarrow> dstore" where
  "disposeCollection db coll s = s\<lparr>ds_bulkDirty := js_del (db, coll) (ds_bulkDirty s), ds_warmup := js_del (db, coll) (ds_warmup s)\<rparr>"

definition deleteDatabase :: "string \<Rightarrow> dstore \<Rightarrow> bool \<times> dstore" where
  "deleteDatabase db s =
     (let s1 = s\<lparr>ds_dbTombs := js_add db (ds_dbTombs s)\<rparr> in
      case jm_get (ds_dbs s1) db of
        None \<Rightarrow> (False, s1)
      | Some d \<Rightarrow>
          let s2 = foldl (\<lambda>s coll. disposeCollection db coll s) s1 (jm_keys (db_collections d))
          in (True, s2\<lparr>ds_dbs := jm_del db (ds_dbs s2)\<rparr>))"

text \<open>\<open>setCollectionMeta\<close> and \<open>createCollection\<close>, which do the same; the metadata is read back.\<close>

definition setCollectionMeta :: "host \<Rightarrow> string \<Rightarrow> string \<Rightarrow> jsv \<Rightarrow> dstore \<Rightarrow> (store_error + (string \<times> nat) list) \<times> dstore" where
  "setCollectionMeta h db coll meta s =
     (case openCollection db coll (s\<lparr>ds_collTombs := js_del (storeCollectionKey db coll) (ds_collTombs s)\<rparr>) of
        (Inl e, s1) \<Rightarrow> (Inl e, s1)
      | (Inr c, s1) \<Rightarrow>
          (case setMeta h meta (0 < ds_bulkDepth s1) c of
             (Inl e, c1) \<Rightarrow> (Inl (CollMeta e), putCollection db coll c1 s1)
           | (Inr jobs, c1) \<Rightarrow>
               let s2 = putCollection db coll c1 s1
               in (Inr jobs, if 0 < ds_bulkDepth s2 then s2\<lparr>ds_bulkDirty := js_add (db, coll) (ds_bulkDirty s2)\<rparr> else s2)))"

definition createCollection :: "host \<Rightarrow> string \<Rightarrow> string \<Rightarrow> jsv \<Rightarrow> dstore \<Rightarrow> (store_error + (string \<times> nat) list) \<times> dstore" where
  "createCollection h db coll meta s = setCollectionMeta h db coll meta s"

definition deleteCollection :: "string \<Rightarrow> string \<Rightarrow> dstore \<Rightarrow> bool \<times> dstore" where
  "deleteCollection db coll s =
     (let s1 = s\<lparr>ds_collTombs := js_add (storeCollectionKey db coll) (ds_collTombs s)\<rparr> in
      case jm_get (ds_dbs s1) db of
        None \<Rightarrow> (False, s1)
      | Some d \<Rightarrow>
          if jm_has (db_collections d) coll
          then (True, disposeCollection db coll
                        (s1\<lparr>ds_dbs := jm_set db (d\<lparr>db_collections := jm_del coll (db_collections d)\<rparr>) (ds_dbs s1)\<rparr>))
          else (False, s1))"

definition dbNames :: "dstore \<Rightarrow> string list" where
  "dbNames s = jm_keys (ds_dbs s)"

definition collectionNames :: "dstore \<Rightarrow> string \<Rightarrow> string list" where
  "collectionNames s db = (case jm_get (ds_dbs s) db of None \<Rightarrow> [] | Some d \<Rightarrow> jm_keys (db_collections d))"

definition storeIdsForShards :: "dstore \<Rightarrow> string \<Rightarrow> string \<Rightarrow> jsv list \<Rightarrow> nat list option" where
  "storeIdsForShards s db coll shards = (case getCollection s db coll of None \<Rightarrow> None | Some c \<Rightarrow> idsForShards shards c)"

subsection \<open>Applying operations\<close>

text \<open>A row of a batch carries its operation.\<close>

record put_row = row_in +
  pr_op :: rop

record del_row = row_del +
  dr_op :: rop

definition put_row_of :: "rop \<Rightarrow> put_row" where
  "put_row_of op =
     \<lparr>ri_id = op_id op, ri_value = (if op_kind op = ''touch'' then JObj [] else or_empty (op_value op)), ri_ts = op_ts op,
      ri_shard = op_shard op, pr_op = op\<rparr>"

definition del_row_of :: "rop \<Rightarrow> del_row" where
  "del_row_of op = \<lparr>rd_id = op_id op, rd_ts = op_ts op, rd_shard = op_shard op, dr_op = op\<rparr>"

definition run_kind :: "rop \<Rightarrow> string" where
  "run_kind op = (if op_kind op = ''delObj'' then ''delObj'' else ''putObj'')"

definition run_key :: "rop \<Rightarrow> string" where
  "run_key op = op_db op @ [NUL] @ op_coll op @ [NUL] @ run_kind op"

text \<open>\<open>runKey.split("\0")\<close> and the first three parts of it; a part that is missing is \<open>undefined\<close> there and empty here.\<close>

definition key_parts :: "string \<Rightarrow> string \<times> string \<times> string" where
  "key_parts key = (case split_on NUL key of a # b # c # _ \<Rightarrow> (a, b, c) | _ \<Rightarrow> ([], [], []))"

text \<open>\<open>flush\<close> of a run that is not empty.\<close>

definition flush_run :: "host \<Rightarrow> string \<Rightarrow> rop list \<Rightarrow> dstore \<Rightarrow> (store_error + rop list) \<times> dstore" where
  "flush_run h key run s =
     (case key_parts key of
        (db, coll, kind) \<Rightarrow>
          (case openCollection db coll s of
             (Inl e, s1) \<Rightarrow> (Inl e, s1)
           | (Inr c, s1) \<Rightarrow>
               if kind = ''delObj''
               then (case deleteObjects h (map del_row_of run) c of
                       (rows, c1) \<Rightarrow> (Inr (map dr_op rows), putCollection db coll c1 s1))
               else (case putObjects h False (map put_row_of run) c of
                       (Inl e, c1) \<Rightarrow> (Inl (CollRefused e), putCollection db coll c1 s1)
                     | (Inr rows, c1) \<Rightarrow> (Inr (map pr_op rows), putCollection db coll c1 s1))))"

text \<open>The loop of \<open>applyOps\<close>: what was applied, the pending run and the key it is of.\<close>

fun apply_loop :: "host \<Rightarrow> rop list \<Rightarrow> rop list \<Rightarrow> (string \<times> rop list) option \<Rightarrow> dstore \<Rightarrow> (store_error + rop list) \<times> dstore" where
  "apply_loop h [] applied None s = (Inr applied, s)"
| "apply_loop h [] applied (Some (key, run)) s =
     (case flush_run h key run s of
        (Inl e, s1) \<Rightarrow> (Inl e, s1)
      | (Inr rows, s1) \<Rightarrow> (Inr (applied @ rows), s1))"
| "apply_loop h (op # ops) applied pending s =
     (if isDatabaseDeleted s (op_db op) \<or> isCollectionDeleted s (op_db op) (op_coll op) then apply_loop h ops applied pending s
      else
        (case pending of
           None \<Rightarrow> apply_loop h ops applied (Some (run_key op, [op])) s
         | Some (key, run) \<Rightarrow>
             if key = run_key op then apply_loop h ops applied (Some (key, run @ [op])) s
             else (case flush_run h key run s of
                     (Inl e, s1) \<Rightarrow> (Inl e, s1)
                   | (Inr rows, s1) \<Rightarrow> apply_loop h ops (applied @ rows) (Some (run_key op, [op])) s1)))"

definition applyOps :: "host \<Rightarrow> rop list \<Rightarrow> dstore \<Rightarrow> (store_error + rop list) \<times> dstore" where
  "applyOps h ops s = apply_loop h ops [] None s"

subsection \<open>Loading in bulk\<close>

definition beginBulkLoad :: "dstore \<Rightarrow> dstore" where
  "beginBulkLoad s = s\<lparr>ds_bulkDepth := ds_bulkDepth s + 1\<rparr>"

definition endBulkLoad :: "dstore \<Rightarrow> dstore" where
  "endBulkLoad s =
     (if ds_bulkDepth s = 0 then s
      else let s1 = s\<lparr>ds_bulkDepth := ds_bulkDepth s - 1\<rparr> in
           if 0 < ds_bulkDepth s1 then s1
           else foldl (\<lambda>s (db, coll).
                    case getCollection s db coll of
                      None \<Rightarrow> s
                    | Some c \<Rightarrow> (putCollection db coll ((rebuildCoreState c)\<lparr>cl_buildPending := True\<rparr>) s)
                        \<lparr>ds_warmup := js_add (db, coll) (ds_warmup s)\<rparr>)
                  (s1\<lparr>ds_bulkDirty := []\<rparr>) (ds_bulkDirty s1))"

definition scheduleIndexWarmupRetry :: "dstore \<Rightarrow> dstore" where
  "scheduleIndexWarmupRetry s = (if ds_retryTimer s \<or> ds_warmup s = [] then s else s\<lparr>ds_retryTimer := True\<rparr>)"

text \<open>One collection is taken up; the jobs it starts are the result.\<close>

definition startIndexWarmup :: "host \<Rightarrow> bool \<Rightarrow> dstore \<Rightarrow> nat \<times> dstore" where
  "startIndexWarmup h heapFull s =
     (case ds_warmup s of
        [] \<Rightarrow> (0, s)
      | (db, coll) # rest \<Rightarrow>
          if heapFull then (0, scheduleIndexWarmupRetry s)
          else let s1 = s\<lparr>ds_warmup := js_del (db, coll) (ds_warmup s)\<rparr>;
                   s2 = (case getCollection s1 db coll of
                           None \<Rightarrow> s1
                         | Some c \<Rightarrow> putCollection db coll (snd (snd (scheduleIndexBuildsFromMeta h c))) s1)
               in (1, scheduleIndexWarmupRetry s2))"

text \<open>The timer of the retry fires.\<close>

definition retryIndexWarmup :: "host \<Rightarrow> bool \<Rightarrow> dstore \<Rightarrow> nat \<times> dstore" where
  "retryIndexWarmup h heapFull s = startIndexWarmup h heapFull (s\<lparr>ds_retryTimer := False\<rparr>)"

text \<open>Only the tombstone of the collection is looked at before the collection is opened, which throws when the database is deleted.\<close>

definition storeSnapshotObjects :: "host \<Rightarrow> bool \<Rightarrow> string \<Rightarrow> string \<Rightarrow> snap_row list \<Rightarrow> dstore \<Rightarrow> (store_error + nat) \<times> dstore" where
  "storeSnapshotObjects h trusted db coll rows s =
     (if isCollectionDeleted s db coll then (Inr 0, s)
      else
        (case openCollection db coll s of
           (Inl e, s1) \<Rightarrow> (Inl e, s1)
         | (Inr c, s1) \<Rightarrow>
             (case applySnapshotObjects h (0 < ds_bulkDepth s1) trusted rows c of
                (Inl e, c1) \<Rightarrow> (Inl (CollRefused e), putCollection db coll c1 s1)
              | (Inr applied, c1) \<Rightarrow>
                  let s2 = putCollection db coll c1 s1
                  in (Inr applied, if 0 < applied \<and> 0 < ds_bulkDepth s2 then s2\<lparr>ds_bulkDirty := js_add (db, coll) (ds_bulkDirty s2)\<rparr> else s2))))"

definition matchesSnapshotName :: "string \<Rightarrow> string option \<Rightarrow> bool" where
  "matchesSnapshotName name expected \<longleftrightarrow> (case expected of None \<Rightarrow> True | Some e \<Rightarrow> e = [] \<or> e = ''*'' \<or> e = name)"

definition storeSnapshot :: "host \<Rightarrow> string option \<Rightarrow> string option \<Rightarrow> (string \<Rightarrow> string \<Rightarrow> string \<Rightarrow> bool) \<Rightarrow> dstore \<Rightarrow>
    (string \<times> string \<times> snap_row list) list" where
  "storeSnapshot h database collection includeObject s =
     concat (map (\<lambda>(db, d). if matchesSnapshotName db database
         then concat (map (\<lambda>(coll, c). if matchesSnapshotName coll collection
                then [(db, coll, snapshotObjects h (includeObject db coll) c)] else []) (db_collections d))
         else []) (ds_dbs s))"

text \<open>\<open>compressionSummary\<close>, the percentages aside.\<close>

record compression_summary =
  cs_collections :: nat
  cs_live :: int
  cs_objects :: int
  cs_raw :: int
  cs_packed :: int

definition compressionSummary :: "dstore \<Rightarrow> compression_summary" where
  "compressionSummary s =
     foldl (\<lambda>sum c.
         if cm_tiering (cl_cmeta c) = None \<and> tt_objects (cl_totals c) = 0 then sum
         else \<lparr>cs_collections = cs_collections sum + 1, cs_live = cs_live sum + cl_liveCount c,
               cs_objects = cs_objects sum + tt_objects (cl_totals c), cs_raw = cs_raw sum + tt_raw (cl_totals c),
               cs_packed = cs_packed sum + tt_packed (cl_totals c)\<rparr>)
       \<lparr>cs_collections = 0, cs_live = 0, cs_objects = 0, cs_raw = 0, cs_packed = 0\<rparr>
       (concat (map (\<lambda>(db, d). jm_vals (db_collections d)) (ds_dbs s)))"

definition storeDispose :: "dstore \<Rightarrow> dstore" where
  "storeDispose s =
     (foldl (\<lambda>s (db, d). foldl (\<lambda>s coll. disposeCollection db coll s) s (jm_keys (db_collections d))) s (ds_dbs s))
       \<lparr>ds_dbs := [], ds_retryTimer := False\<rparr>"

subsection \<open>Where a collection is\<close>

lemma openDb_get:
  assumes "openDb db s = (d, s1)"
  shows "jm_get (ds_dbs s1) x = (if x = db then Some d else jm_get (ds_dbs s) x)" "getCollection s1 a b = getCollection s a b"
    "ds_dbTombs s1 = ds_dbTombs s" "ds_collTombs s1 = ds_collTombs s" "ds_engine s1 = ds_engine s" "ds_vectorField s1 = ds_vectorField s"
    "jm_get (db_collections d) coll = getCollection s db coll"
  using assms by (auto simp: openDb_def getCollection_def newDatabase_def split: option.splits if_splits)

lemma put_get:
  "getCollection (putCollection db coll c s) a b = (if a = db \<and> b = coll then Some c else getCollection s a b)"
  "jm_get (ds_dbs (putCollection db coll c s)) a = None \<longleftrightarrow> a \<noteq> db \<and> jm_get (ds_dbs s) a = None"
  "ds_dbTombs (putCollection db coll c s) = ds_dbTombs s" "ds_collTombs (putCollection db coll c s) = ds_collTombs s"
  "ds_engine (putCollection db coll c s) = ds_engine s" "ds_vectorField (putCollection db coll c s) = ds_vectorField s"
proof -
  obtain d s1 where o: "openDb db s = (d, s1)" by (cases "openDb db s")
  note g = openDb_get [OF o]
  have p: "putCollection db coll c s = s1\<lparr>ds_dbs := jm_set db (d\<lparr>db_collections := jm_set coll c (db_collections d)\<rparr>) (ds_dbs s1)\<rparr>"
    by (simp add: putCollection_def o)
  show "getCollection (putCollection db coll c s) a b = (if a = db \<and> b = coll then Some c else getCollection s a b)"
    using g(2) [of a b] g(7) [of b] by (simp add: p getCollection_def [of "s1\<lparr>ds_dbs := _\<rparr>"]) (simp add: getCollection_def)
  show "jm_get (ds_dbs (putCollection db coll c s)) a = None \<longleftrightarrow> a \<noteq> db \<and> jm_get (ds_dbs s) a = None"
    by (simp add: p g(1))
  show "ds_dbTombs (putCollection db coll c s) = ds_dbTombs s" "ds_collTombs (putCollection db coll c s) = ds_collTombs s"
    "ds_engine (putCollection db coll c s) = ds_engine s" "ds_vectorField (putCollection db coll c s) = ds_vectorField s"
    by (simp_all add: p g)
qed

lemma put_other_db: "a \<noteq> db \<Longrightarrow> jm_get (ds_dbs (putCollection db coll c s)) a = jm_get (ds_dbs s) a"
  by (simp add: putCollection_def openDb_def split: option.split)

lemma open_get:
  assumes "openCollection db coll s = (r, s1)"
  shows "ds_dbTombs s1 = ds_dbTombs s" "ds_collTombs s1 = ds_collTombs s" "ds_engine s1 = ds_engine s" "ds_vectorField s1 = ds_vectorField s"
    "r = Inl e \<Longrightarrow> s1 = s \<and> assertCollectionWritable s db coll = Some e"
    "r = Inr c \<Longrightarrow> assertCollectionWritable s db coll = None \<and> getCollection s1 db coll = Some c \<and>
       c = (case getCollection s db coll of None \<Rightarrow> newCollection (ds_engine s) (ds_vectorField s) | Some c \<Rightarrow> c)"
    "(a, b) \<noteq> (db, coll) \<Longrightarrow> getCollection s1 a b = getCollection s a b"
    "a \<noteq> db \<Longrightarrow> jm_get (ds_dbs s1) a = jm_get (ds_dbs s) a"
proof -
  obtain d t where o: "openDb db s = (d, t)" by (cases "openDb db s")
  note g = openDb_get [OF o]
  note all = assms g put_get o
  show "ds_dbTombs s1 = ds_dbTombs s" "ds_collTombs s1 = ds_collTombs s" "ds_engine s1 = ds_engine s" "ds_vectorField s1 = ds_vectorField s"
    "r = Inl e \<Longrightarrow> s1 = s \<and> assertCollectionWritable s db coll = Some e"
    "r = Inr c \<Longrightarrow> assertCollectionWritable s db coll = None \<and> getCollection s1 db coll = Some c \<and>
       c = (case getCollection s db coll of None \<Rightarrow> newCollection (ds_engine s) (ds_vectorField s) | Some c \<Rightarrow> c)"
    "(a, b) \<noteq> (db, coll) \<Longrightarrow> getCollection s1 a b = getCollection s a b"
    "a \<noteq> db \<Longrightarrow> jm_get (ds_dbs s1) a = jm_get (ds_dbs s) a"
    using all put_other_db by (auto simp: openCollection_def Let_def split: option.splits if_splits)
qed

subsection \<open>Runs of a store\<close>


datatype store_op =
    SApply "rop list"
  | SSnapshot bool string string "snap_row list"
  | SCreateDb string jsv
  | SDeleteDb string
  | SMeta string string jsv
  | SDeleteColl string string
  | SBulk bool
  | SWarmup bool
  | SColl string string coll_op

text \<open>The last one is a step of an open collection: a change of its indexes, or a step of one of its background jobs.\<close>

fun store_step :: "host \<Rightarrow> dstore \<Rightarrow> store_op \<Rightarrow> dstore" where
  "store_step h s (SApply ops) = snd (applyOps h ops s)"
| "store_step h s (SSnapshot trusted db coll rows) = snd (storeSnapshotObjects h trusted db coll rows s)"
| "store_step h s (SCreateDb db meta) = snd (createDatabase db meta s)"
| "store_step h s (SDeleteDb db) = snd (deleteDatabase db s)"
| "store_step h s (SMeta db coll meta) = snd (setCollectionMeta h db coll meta s)"
| "store_step h s (SDeleteColl db coll) = snd (deleteCollection db coll s)"
| "store_step h s (SBulk starts) = (if starts then beginBulkLoad s else endBulkLoad s)"
| "store_step h s (SWarmup heapFull) = snd (retryIndexWarmup h heapFull s)"
| "store_step h s (SColl db coll p) = (case getCollection s db coll of None \<Rightarrow> s | Some c \<Rightarrow> putCollection db coll (c_step h c p) s)"

definition plain_name :: "string \<Rightarrow> bool" where
  "plain_name name \<longleftrightarrow> NUL \<notin> set name"

fun plain_op :: "store_op \<Rightarrow> bool" where
  "plain_op (SApply ops) \<longleftrightarrow> (\<forall>op \<in> set ops. plain_name (op_db op) \<and> plain_name (op_coll op))"
| "plain_op (SSnapshot trusted db coll rows) \<longleftrightarrow> plain_name db"
| "plain_op (SMeta db coll meta) \<longleftrightarrow> plain_name db"
| "plain_op (SDeleteColl db coll) \<longleftrightarrow> plain_name db"
| "plain_op p \<longleftrightarrow> True"

text \<open>What has a tombstone is not there.\<close>

definition buried_ok :: "dstore \<Rightarrow> bool" where
  "buried_ok s \<longleftrightarrow> (\<forall>db. isDatabaseDeleted s db \<longrightarrow> jm_get (ds_dbs s) db = None) \<and>
     (\<forall>db coll. getCollection s db coll \<noteq> None \<longrightarrow> plain_name db \<and> \<not> isCollectionDeleted s db coll)"

lemma buried_okI:
  "(\<And>db. isDatabaseDeleted s db \<Longrightarrow> jm_get (ds_dbs s) db = None) \<Longrightarrow>
   (\<And>db coll. getCollection s db coll \<noteq> None \<Longrightarrow> plain_name db \<and> \<not> isCollectionDeleted s db coll) \<Longrightarrow> buried_ok s"
  unfolding buried_ok_def by blast

lemma buried_okD:
  "buried_ok s \<Longrightarrow> isDatabaseDeleted s db \<Longrightarrow> jm_get (ds_dbs s) db = None"
  "buried_ok s \<Longrightarrow> getCollection s db coll \<noteq> None \<Longrightarrow> plain_name db \<and> \<not> isCollectionDeleted s db coll"
  unfolding buried_ok_def by blast+

lemma deleted_cong:
  "ds_dbTombs s' = ds_dbTombs s \<Longrightarrow> isDatabaseDeleted s' db = isDatabaseDeleted s db"
  "ds_collTombs s' = ds_collTombs s \<Longrightarrow> isCollectionDeleted s' db coll = isCollectionDeleted s db coll"
  by (simp_all add: isDatabaseDeleted_def isCollectionDeleted_def)

lemma split_on_append: "NUL \<notin> set a \<Longrightarrow> split_on NUL (a @ [NUL] @ b) = a # split_on NUL b"
  by (induction a) (auto split: list.split)

lemma key_inj:
  assumes "plain_name db" and "plain_name db'" and "storeCollectionKey db coll = storeCollectionKey db' coll'"
  shows "db = db' \<and> coll = coll'"
proof -
  have "db # split_on NUL coll = db' # split_on NUL coll'"
    using assms split_on_append [of db coll] split_on_append [of db' coll'] by (simp add: storeCollectionKey_def plain_name_def)
  then have "db = db'" by simp
  then show ?thesis using assms(3) by (simp add: storeCollectionKey_def)
qed

lemma writable_iff: "assertCollectionWritable s db coll = None \<longleftrightarrow> \<not> isDatabaseDeleted s db \<and> \<not> isCollectionDeleted s db coll"
  by (simp add: assertCollectionWritable_def)

lemma buried_cong:
  assumes "buried_ok s" and "ds_dbTombs s' = ds_dbTombs s" and "ds_collTombs s' = ds_collTombs s"
    and "\<And>a. jm_get (ds_dbs s) a = None \<Longrightarrow> jm_get (ds_dbs s') a = None"
    and "\<And>a b. getCollection s a b = None \<Longrightarrow> getCollection s' a b = None"
  shows "buried_ok s'"
proof (rule buried_okI)
  fix db assume "isDatabaseDeleted s' db"
  then have "isDatabaseDeleted s db" by (simp only: deleted_cong(1) [OF assms(2)])
  from assms(4) [OF buried_okD(1) [OF assms(1) this]] show "jm_get (ds_dbs s') db = None" .
next
  fix db coll assume "getCollection s' db coll \<noteq> None"
  then have "getCollection s db coll \<noteq> None" using assms(5) by metis
  from buried_okD(2) [OF assms(1) this] show "plain_name db \<and> \<not> isCollectionDeleted s' db coll"
    by (simp add: deleted_cong(2) [OF assms(3)])
qed

lemma getCollection_cong: "ds_dbs s' = ds_dbs s \<Longrightarrow> getCollection s' a b = getCollection s a b"
  by (simp add: getCollection_def)

lemma buried_put:
  assumes "buried_ok s" and "plain_name db" and "assertCollectionWritable s db coll = None"
  shows "buried_ok (putCollection db coll c s)"
proof (rule buried_okI)
  note w = assms(3) [unfolded writable_iff]
  fix a assume "isDatabaseDeleted (putCollection db coll c s) a"
  then have "isDatabaseDeleted s a" by (simp only: isDatabaseDeleted_def put_get)
  then have "jm_get (ds_dbs s) a = None" "a \<noteq> db" using buried_okD(1) [OF assms(1)] w by blast+
  then show "jm_get (ds_dbs (putCollection db coll c s)) a = None" by (simp add: put_get)
next
  note w = assms(3) [unfolded writable_iff]
  fix a b assume present: "getCollection (putCollection db coll c s) a b \<noteq> None"
  have same: "isCollectionDeleted (putCollection db coll c s) a b = isCollectionDeleted s a b" by (simp only: isCollectionDeleted_def put_get)
  show "plain_name a \<and> \<not> isCollectionDeleted (putCollection db coll c s) a b"
  proof (cases "a = db \<and> b = coll")
    case True
    then show ?thesis using assms(2) w same by blast
  next
    case False
    then have "getCollection s a b \<noteq> None" using present unfolding put_get by (simp only: if_False not_False_eq_True)
    then show ?thesis using buried_okD(2) [OF assms(1)] same by blast
  qed
qed

lemma present_writable: "buried_ok s \<Longrightarrow> getCollection s db coll \<noteq> None \<Longrightarrow> plain_name db \<and> assertCollectionWritable s db coll = None"
  using buried_okD(1) [of s db] buried_okD(2) [of s db coll] by (auto simp: writable_iff getCollection_def split: option.splits)

lemma buried_update: "buried_ok s \<Longrightarrow> getCollection s db coll \<noteq> None \<Longrightarrow> buried_ok (putCollection db coll c s)"
  using present_writable buried_put by blast

lemma buried_open:
  assumes "buried_ok s" and "plain_name db" and "openCollection db coll s = (r, s1)"
  shows "buried_ok s1" "r = Inr c \<Longrightarrow> getCollection s1 db coll \<noteq> None"
proof -
  note g = open_get [OF assms(3)]
  show "buried_ok s1"
  proof (cases r)
    case (Inl e)
    then show ?thesis using g(5) assms(1) by blast
  next
    case (Inr c)
    note w = g(6) [OF Inr]
    show ?thesis
    proof (rule buried_okI)
      fix a assume "isDatabaseDeleted s1 a"
      then have "isDatabaseDeleted s a" using deleted_cong(1) [OF g(1)] by blast
      then have "jm_get (ds_dbs s) a = None" "a \<noteq> db" using buried_okD(1) [OF assms(1)] w writable_iff by blast+
      then show "jm_get (ds_dbs s1) a = None" using g(8) by metis
    next
      fix a b assume present: "getCollection s1 a b \<noteq> None"
      show "plain_name a \<and> \<not> isCollectionDeleted s1 a b"
      proof (cases "(a, b) = (db, coll)")
        case True
        then show ?thesis using w assms(2) deleted_cong(2) [OF g(2)] writable_iff by blast
      next
        case False
        then show ?thesis using present g(7) [OF False] buried_okD(2) [OF assms(1)] deleted_cong(2) [OF g(2)] by metis
      qed
    qed
  qed
  show "r = Inr c \<Longrightarrow> getCollection s1 db coll \<noteq> None" using g(6) by simp
qed

lemma kind_plain: "NUL \<notin> set (run_kind op)"
  by (simp add: run_kind_def NUL_def char_of_def)

lemma key_parts_run:
  assumes "plain_name (op_db op)" and "plain_name (op_coll op)"
  shows "key_parts (run_key op) = (op_db op, op_coll op, run_kind op)"
proof -
  have "split_on NUL (run_kind op @ [] :: string) = [run_kind op]"
    using kind_plain [of op] by (induction "run_kind op") (simp_all add: run_kind_def NUL_def char_of_def)
  then show ?thesis using assms by (simp add: key_parts_def run_key_def plain_name_def split_on_append [unfolded append_Cons append_Nil])
qed

text \<open>Where a run goes.\<close>

definition at_collection :: "rop \<Rightarrow> string \<times> string" where
  "at_collection op = (op_db op, op_coll op)"

lemma flush_frame:
  assumes "flush_run h key run s = (r, s1)" and "key_parts key = (db, coll, kind)"
  obtains t where "openCollection db coll s = (t, s1)" "\<exists>e. t = Inl e"
    | t u c where "openCollection db coll s = (Inr t, u)" "s1 = putCollection db coll c u"
  using assms by (auto simp: flush_run_def split: prod.splits sum.splits if_splits)


lemma flush_buried:
  assumes "buried_ok s" and "flush_run h key run s = (r, s1)" and "key_parts key = (db, coll, kind)" and "plain_name db"
  shows "buried_ok s1" "ds_dbTombs s1 = ds_dbTombs s" "ds_collTombs s1 = ds_collTombs s"
proof -
  have "buried_ok s1 \<and> ds_dbTombs s1 = ds_dbTombs s \<and> ds_collTombs s1 = ds_collTombs s"
    using assms(2,3)
  proof (cases rule: flush_frame)
    case (1 t)
    then show ?thesis using buried_open(1) [OF assms(1,4) 1(1)] open_get(1,2) [OF 1(1)] by blast
  next
    case (2 t u c)
    have "buried_ok u" "getCollection u db coll \<noteq> None" using buried_open [OF assms(1,4) 2(1)] by blast+
    then show ?thesis using buried_update open_get(1,2) [OF 2(1)] by (simp add: 2(2) put_get)
  qed
  then show "buried_ok s1" "ds_dbTombs s1 = ds_dbTombs s" "ds_collTombs s1 = ds_collTombs s" by blast+
qed

definition plain_key :: "string \<Rightarrow> bool" where
  "plain_key key \<longleftrightarrow> (\<exists>op. key = run_key op \<and> plain_name (op_db op) \<and> plain_name (op_coll op))"

lemma plain_keyD: "plain_key key \<Longrightarrow> \<exists>db coll kind. key_parts key = (db, coll, kind) \<and> plain_name db"
  using key_parts_run by (auto simp: plain_key_def)

lemma apply_buried:
  assumes "buried_ok s" and "\<forall>op \<in> set ops. plain_name (op_db op) \<and> plain_name (op_coll op)"
    and "\<forall>key run. pending = Some (key, run) \<longrightarrow> plain_key key" and "apply_loop h ops applied pending s = (r, s1)"
  shows "buried_ok s1 \<and> ds_dbTombs s1 = ds_dbTombs s \<and> ds_collTombs s1 = ds_collTombs s"
  using assms
proof (induction ops arbitrary: applied pending s)
  case Nil
  show ?case
  proof (cases pending)
    case None
    then show ?thesis using Nil by simp
  next
    case (Some p)
    obtain key run where p: "p = (key, run)" by (cases p)
    then have "plain_key key" using Nil(3) Some by simp
    from plain_keyD [OF this] obtain db coll kind where parts: "key_parts key = (db, coll, kind)" "plain_name db" by (elim exE conjE)
    obtain t u where f: "flush_run h key run s = (t, u)" by (cases "flush_run h key run s")
    have "s1 = u" using Nil(4) f Some p by (cases t) simp_all
    then show ?thesis using flush_buried [OF Nil(1) f parts] by blast
  qed
next
  case (Cons op ops)
  have op: "plain_name (op_db op)" "plain_name (op_coll op)" and ops: "\<forall>op \<in> set ops. plain_name (op_db op) \<and> plain_name (op_coll op)"
    using Cons.prems(2) by simp_all
  have pk: "\<forall>key run'. Some (run_key op, run) = Some (key, run') \<longrightarrow> plain_key key" for run :: "rop list"
    using op by (auto simp: plain_key_def)
  show ?case
  proof (cases "isDatabaseDeleted s (op_db op) \<or> isCollectionDeleted s (op_db op) (op_coll op)")
    case True
    then have "apply_loop h ops applied pending s = (r, s1)" using Cons.prems(4) by simp
    then show ?thesis by (rule Cons.IH [OF Cons.prems(1) ops Cons.prems(3)])
  next
    case live: False
    show ?thesis
    proof (cases pending)
      case None
      then have "apply_loop h ops applied (Some (run_key op, [op])) s = (r, s1)" using Cons.prems(4) live by simp
      then show ?thesis by (rule Cons.IH [OF Cons.prems(1) ops pk])
    next
      case (Some p)
      obtain key run where p: "p = (key, run)" by (cases p)
      show ?thesis
      proof (cases "key = run_key op")
        case True
        then have "apply_loop h ops applied (Some (run_key op, run @ [op])) s = (r, s1)" using Cons.prems(4) live Some p by simp
        then show ?thesis by (rule Cons.IH [OF Cons.prems(1) ops pk])
      next
        case False
        have "plain_key key" using Cons.prems(3) Some p by simp
        from plain_keyD [OF this] obtain db coll kind where parts: "key_parts key = (db, coll, kind)" "plain_name db" by (elim exE conjE)
        obtain t u where f: "flush_run h key run s = (t, u)" by (cases "flush_run h key run s")
        note fb = flush_buried [OF Cons.prems(1) f parts]
        show ?thesis
        proof (cases t)
          case (Inl e)
          then have "s1 = u" using Cons.prems(4) live Some p False f by simp
          then show ?thesis using fb by blast
        next
          case (Inr rows)
          then have "apply_loop h ops (applied @ rows) (Some (run_key op, [op])) u = (r, s1)" using Cons.prems(4) live Some p False f by simp
          from Cons.IH [OF fb(1) ops pk this] show ?thesis by (simp only: fb)
        qed
      qed
    qed
  qed
qed

lemma dispose_same:
  "ds_dbs (disposeCollection db coll s) = ds_dbs s" "ds_dbTombs (disposeCollection db coll s) = ds_dbTombs s"
  "ds_collTombs (disposeCollection db coll s) = ds_collTombs s"
  by (simp_all add: disposeCollection_def)

lemma dispose_all_same:
  "ds_dbs (foldl (\<lambda>s coll. disposeCollection db coll s) s colls) = ds_dbs s"
  "ds_dbTombs (foldl (\<lambda>s coll. disposeCollection db coll s) s colls) = ds_dbTombs s"
  "ds_collTombs (foldl (\<lambda>s coll. disposeCollection db coll s) s colls) = ds_collTombs s"
  by (induction colls arbitrary: s) (simp_all add: dispose_same)

text \<open>Fewer tombstones bury less.\<close>

lemma buried_unbury:
  assumes "buried_ok s" and "ds_dbs s' = ds_dbs s" and "set (ds_dbTombs s') \<subseteq> set (ds_dbTombs s)" and "set (ds_collTombs s') \<subseteq> set (ds_collTombs s)"
  shows "buried_ok s'"
proof (rule buried_okI)
  fix db assume "isDatabaseDeleted s' db"
  then have "isDatabaseDeleted s db" using assms(3) by (auto simp: isDatabaseDeleted_def)
  then show "jm_get (ds_dbs s') db = None" using buried_okD(1) [OF assms(1)] assms(2) by simp
next
  fix db coll assume "getCollection s' db coll \<noteq> None"
  then have "getCollection s db coll \<noteq> None" using getCollection_cong [OF assms(2)] by metis
  from buried_okD(2) [OF assms(1) this] show "plain_name db \<and> \<not> isCollectionDeleted s' db coll"
    using assms(4) by (auto simp: isCollectionDeleted_def)
qed

lemma create_db_buried:
  assumes "buried_ok s"
  shows "buried_ok (snd (createDatabase db meta s))"
proof -
  define s0 where "s0 = s\<lparr>ds_dbTombs := js_del db (ds_dbTombs s)\<rparr>"
  have s0: "buried_ok s0" by (rule buried_unbury [OF assms]) (auto simp: s0_def)
  have undeleted: "\<not> isDatabaseDeleted s0 db" by (simp add: isDatabaseDeleted_def s0_def)
  obtain d s1 where o: "openDb db s0 = (d, s1)" by (cases "openDb db s0")
  obtain r d1 where m: "db_setMeta meta d = (r, d1)" by (cases "db_setMeta meta d")
  have colls: "db_collections d1 = db_collections d" using m by (auto simp: db_setMeta_def split: if_splits)
  note g = openDb_get [OF o]
  define s2 where "s2 = s1\<lparr>ds_dbs := jm_set db d1 (ds_dbs s1)\<rparr>"
  have get: "getCollection s2 a b = getCollection s0 a b" for a b
    using g(2) [of a b] g(7) [of b] by (cases "a = db") (simp_all add: s2_def getCollection_def [of "s1\<lparr>ds_dbs := _\<rparr>"] colls, simp add: getCollection_def)
  have "buried_ok s2"
  proof (rule buried_okI)
    fix a assume "isDatabaseDeleted s2 a"
    then have "isDatabaseDeleted s0 a" by (simp add: isDatabaseDeleted_def s2_def g)
    moreover then have "a \<noteq> db" using undeleted by blast
    ultimately show "jm_get (ds_dbs s2) a = None" using buried_okD(1) [OF s0] by (simp add: s2_def g(1))
  next
    fix a b assume "getCollection s2 a b \<noteq> None"
    then have "getCollection s0 a b \<noteq> None" by (simp only: get) simp
    from buried_okD(2) [OF s0 this] show "plain_name a \<and> \<not> isCollectionDeleted s2 a b"
      by (simp add: isCollectionDeleted_def s2_def g)
  qed
  then show ?thesis by (simp add: createDatabase_def s0_def [symmetric] o m s2_def)
qed

lemma delete_db:
  assumes "deleteDatabase db s = (r, s')"
  shows "ds_dbTombs s' = js_add db (ds_dbTombs s)" "ds_collTombs s' = ds_collTombs s" "jm_get (ds_dbs s') a = (if a = db then None else jm_get (ds_dbs s) a)"
  using assms by (auto simp: deleteDatabase_def Let_def dispose_all_same split: option.splits)

lemma delete_db_buried:
  assumes "buried_ok s"
  shows "buried_ok (snd (deleteDatabase db s))"
proof -
  obtain r s' where d: "deleteDatabase db s = (r, s')" by (cases "deleteDatabase db s")
  note g = delete_db [OF d]
  have "buried_ok s'"
  proof (rule buried_okI)
    fix a assume "isDatabaseDeleted s' a"
    then show "jm_get (ds_dbs s') a = None" using buried_okD(1) [OF assms, of a] by (auto simp: isDatabaseDeleted_def g)
  next
    fix a b assume p: "getCollection s' a b \<noteq> None"
    then have "getCollection s a b \<noteq> None" by (simp add: getCollection_def g(3) split: option.splits if_splits)
    then show "plain_name a \<and> \<not> isCollectionDeleted s' a b" using buried_okD(2) [OF assms] by (simp add: isCollectionDeleted_def g(2))
  qed
  then show ?thesis by (simp add: d)
qed

lemma delete_coll:
  assumes "deleteCollection db coll s = (r, s')"
  shows "ds_dbTombs s' = ds_dbTombs s" "ds_collTombs s' = js_add (storeCollectionKey db coll) (ds_collTombs s)"
    "jm_get (ds_dbs s') a = None \<longleftrightarrow> jm_get (ds_dbs s) a = None"
    "getCollection s' a b = (if a = db \<and> b = coll then None else getCollection s a b)"
  using assms by (auto simp: deleteCollection_def Let_def dispose_same getCollection_def split: option.splits if_splits)

lemma delete_coll_buried:
  assumes "buried_ok s" and "plain_name db"
  shows "buried_ok (snd (deleteCollection db coll s))"
proof -
  obtain r s' where d: "deleteCollection db coll s = (r, s')" by (cases "deleteCollection db coll s")
  note g = delete_coll [OF d]
  have "buried_ok s'"
  proof (rule buried_okI)
    fix a assume "isDatabaseDeleted s' a"
    then show "jm_get (ds_dbs s') a = None" using buried_okD(1) [OF assms(1), of a] by (simp add: isDatabaseDeleted_def g)
  next
    fix a b assume p: "getCollection s' a b \<noteq> None"
    then have other: "\<not> (a = db \<and> b = coll)" "getCollection s a b \<noteq> None" by (auto simp: g(4) split: if_splits)
    then have "plain_name a" "\<not> isCollectionDeleted s a b" using buried_okD(2) [OF assms(1)] by blast+
    moreover have "storeCollectionKey a b \<noteq> storeCollectionKey db coll" using key_inj [OF \<open>plain_name a\<close> assms(2)] other(1) by blast
    ultimately show "plain_name a \<and> \<not> isCollectionDeleted s' a b" by (simp add: isCollectionDeleted_def g(2))
  qed
  then show ?thesis by (simp add: d)
qed

lemma meta_frame:
  assumes "setCollectionMeta h db coll meta s = (r, s')"
  obtains t s1 where "openCollection db coll (s\<lparr>ds_collTombs := js_del (storeCollectionKey db coll) (ds_collTombs s)\<rparr>) = (t, s1)"
    "ds_dbTombs s' = ds_dbTombs s1" "ds_collTombs s' = ds_collTombs s1"
    "s' = s1 \<or> (\<exists>c c1. t = Inr c \<and> ds_dbs s' = ds_dbs (putCollection db coll c1 s1))"
proof -
  obtain t s1 where o: "openCollection db coll (s\<lparr>ds_collTombs := js_del (storeCollectionKey db coll) (ds_collTombs s)\<rparr>) = (t, s1)"
    by (cases "openCollection db coll (s\<lparr>ds_collTombs := js_del (storeCollectionKey db coll) (ds_collTombs s)\<rparr>)")
  show ?thesis
  proof (cases t)
    case (Inl e)
    then show ?thesis using that [OF o] assms o by (simp add: setCollectionMeta_def)
  next
    case (Inr c)
    obtain u c1 where m: "setMeta h meta (0 < ds_bulkDepth s1) c = (u, c1)" by (cases "setMeta h meta (0 < ds_bulkDepth s1) c")
    have "ds_dbs s' = ds_dbs (putCollection db coll c1 s1) \<and> ds_dbTombs s' = ds_dbTombs s1 \<and> ds_collTombs s' = ds_collTombs s1"
      using assms o Inr m by (cases u) (auto simp: setCollectionMeta_def Let_def put_get)
    then show ?thesis using that [OF o] Inr by blast
  qed
qed

lemma meta_buried:
  assumes "buried_ok s" and "plain_name db" and "setCollectionMeta h db coll meta s = (r, s')"
  shows "buried_ok s'"
  using assms(3)
proof (cases rule: meta_frame)
  case (1 t s1)
  have "buried_ok (s\<lparr>ds_collTombs := js_del (storeCollectionKey db coll) (ds_collTombs s)\<rparr>)"
    by (rule buried_unbury [OF assms(1)]) auto
  note o = buried_open [OF this assms(2) 1(1)]
  show ?thesis
  proof (cases "s' = s1")
    case False
    then obtain c c1 where c: "t = Inr c" "ds_dbs s' = ds_dbs (putCollection db coll c1 s1)" using 1(4) by blast
    have p: "buried_ok (putCollection db coll c1 s1)" using buried_update [OF o(1) o(2) [OF c(1)]] .
    show ?thesis by (rule buried_unbury [OF p c(2)]) (simp_all add: 1(2,3) put_get)
  qed (use o(1) in blast)
qed

lemma snapshot_buried:
  assumes "buried_ok s" and "plain_name db"
  shows "buried_ok (snd (storeSnapshotObjects h trusted db coll rows s))" (is ?buried)
    "ds_dbTombs (snd (storeSnapshotObjects h trusted db coll rows s)) = ds_dbTombs s" (is ?dbs)
    "ds_collTombs (snd (storeSnapshotObjects h trusted db coll rows s)) = ds_collTombs s" (is ?colls)
proof -
  obtain t s1 where o: "openCollection db coll s = (t, s1)" by (cases "openCollection db coll s")
  note b = buried_open [OF assms o] and g = open_get(1,2) [OF o]
  have "?buried \<and> ?dbs \<and> ?colls"
  proof (cases "isCollectionDeleted s db coll")
    case True
    then show ?thesis using assms(1) by (simp add: storeSnapshotObjects_def)
  next
    case False
    show ?thesis
    proof (cases t)
      case (Inl e)
      then show ?thesis using False o b(1) g by (simp add: storeSnapshotObjects_def)
    next
      case (Inr c)
      obtain u c1 where a: "applySnapshotObjects h (0 < ds_bulkDepth s1) trusted rows c = (u, c1)"
        by (cases "applySnapshotObjects h (0 < ds_bulkDepth s1) trusted rows c")
      have p: "buried_ok (putCollection db coll c1 s1)" using buried_update [OF b(1) b(2) [OF Inr]] .
      have s': "ds_dbs (snd (storeSnapshotObjects h trusted db coll rows s)) = ds_dbs (putCollection db coll c1 s1) \<and>
          ds_dbTombs (snd (storeSnapshotObjects h trusted db coll rows s)) = ds_dbTombs (putCollection db coll c1 s1) \<and>
          ds_collTombs (snd (storeSnapshotObjects h trusted db coll rows s)) = ds_collTombs (putCollection db coll c1 s1)"
        using False o Inr a by (cases u) (auto simp: storeSnapshotObjects_def Let_def)
      show ?thesis using buried_unbury [OF p] s' g by (simp add: put_get)
    qed
  qed
  then show ?buried ?dbs ?colls by blast+
qed

lemma bulk_end_buried:
  assumes "buried_ok s"
  shows "buried_ok (endBulkLoad s)" (is ?buried) "ds_dbTombs (endBulkLoad s) = ds_dbTombs s" (is ?dbs) "ds_collTombs (endBulkLoad s) = ds_collTombs s" (is ?colls)
proof -
  define f where "f = (\<lambda>s (db, coll). case getCollection s db coll of
      None \<Rightarrow> s
    | Some c \<Rightarrow> (putCollection db coll ((rebuildCoreState c)\<lparr>cl_buildPending := True\<rparr>) s)\<lparr>ds_warmup := js_add (db, coll) (ds_warmup s)\<rparr>)"
  have step: "buried_ok (f s x) \<and> ds_dbTombs (f s x) = ds_dbTombs s \<and> ds_collTombs (f s x) = ds_collTombs s" if "buried_ok s" for s x
  proof (cases x)
    case (Pair db coll)
    show ?thesis
    proof (cases "getCollection s db coll")
      case None
      then show ?thesis using that by (simp add: f_def Pair)
    next
      case (Some c)
      have p: "buried_ok (putCollection db coll ((rebuildCoreState c)\<lparr>cl_buildPending := True\<rparr>) s)"
        using buried_update [OF that] Some by blast
      then show ?thesis using buried_unbury [OF p] by (simp add: f_def Pair Some put_get)
    qed
  qed
  have fold: "buried_ok s \<Longrightarrow> buried_ok (foldl f s xs) \<and> ds_dbTombs (foldl f s xs) = ds_dbTombs s \<and> ds_collTombs (foldl f s xs) = ds_collTombs s" for s xs
  proof (induction xs arbitrary: s)
    case (Cons x xs)
    then show ?case using step [OF Cons.prems, of x] by simp
  qed simp
  have "?buried \<and> ?dbs \<and> ?colls"
  proof (cases "ds_bulkDepth s \<le> 1")
    case True
    have b: "buried_ok (s\<lparr>ds_bulkDepth := 0, ds_bulkDirty := []\<rparr>)" by (rule buried_unbury [OF assms]) simp_all
    have "endBulkLoad s = (if ds_bulkDepth s = 0 then s else foldl f (s\<lparr>ds_bulkDepth := 0, ds_bulkDirty := []\<rparr>) (ds_bulkDirty s))"
      using True by (simp add: endBulkLoad_def Let_def f_def)
    then show ?thesis using fold [OF b, of "ds_bulkDirty s"] assms by simp
  next
    case False
    then have "endBulkLoad s = s\<lparr>ds_bulkDepth := ds_bulkDepth s - 1\<rparr>" by (simp add: endBulkLoad_def Let_def)
    then show ?thesis using buried_unbury [OF assms] by simp
  qed
  then show ?buried ?dbs ?colls by blast+
qed

lemma warmup_buried:
  assumes "buried_ok s"
  shows "buried_ok (snd (retryIndexWarmup h heapFull s))" (is ?buried) "ds_dbTombs (snd (retryIndexWarmup h heapFull s)) = ds_dbTombs s" (is ?dbs)
    "ds_collTombs (snd (retryIndexWarmup h heapFull s)) = ds_collTombs s" (is ?colls)
proof -
  define s' where "s' = snd (retryIndexWarmup h heapFull s)"
  have "ds_dbTombs s' = ds_dbTombs s \<and> ds_collTombs s' = ds_collTombs s \<and>
      (ds_dbs s' = ds_dbs s \<or> (\<exists>db coll c u. getCollection s db coll \<noteq> None \<and> ds_dbs u = ds_dbs s \<and> ds_dbTombs u = ds_dbTombs s \<and>
         ds_collTombs u = ds_collTombs s \<and> ds_dbs s' = ds_dbs (putCollection db coll c u)))"
  proof (cases "ds_warmup s")
    case Nil
    then show ?thesis by (simp add: s'_def retryIndexWarmup_def startIndexWarmup_def)
  next
    case (Cons x rest)
    obtain db coll where x: "x = (db, coll)" by (cases x)
    define u where "u = s\<lparr>ds_retryTimer := False, ds_warmup := js_del (db, coll) ((db, coll) # rest)\<rparr>"
    have u: "ds_dbs u = ds_dbs s" "ds_dbTombs u = ds_dbTombs s" "ds_collTombs u = ds_collTombs s" by (simp_all add: u_def)
    have r: "ds_dbs (scheduleIndexWarmupRetry t) = ds_dbs t" "ds_dbTombs (scheduleIndexWarmupRetry t) = ds_dbTombs t"
      "ds_collTombs (scheduleIndexWarmupRetry t) = ds_collTombs t" for t by (simp_all add: scheduleIndexWarmupRetry_def)
    show ?thesis
    proof (cases heapFull)
      case True
      then show ?thesis by (simp add: s'_def retryIndexWarmup_def startIndexWarmup_def Cons x r)
    next
      case False
      have s': "s' = scheduleIndexWarmupRetry (case getCollection u db coll of
            None \<Rightarrow> u | Some c \<Rightarrow> putCollection db coll (snd (snd (scheduleIndexBuildsFromMeta h c))) u)"
        unfolding s'_def u_def using False by (simp add: retryIndexWarmup_def startIndexWarmup_def Cons x Let_def)
      show ?thesis
      proof (cases "getCollection u db coll")
        case None
        then show ?thesis using u by (simp add: s' r)
      next
        case (Some c)
        then have "getCollection s db coll \<noteq> None" using getCollection_cong [OF u(1)] by simp
        then show ?thesis using Some u by (auto simp: s' r put_get)
      qed
    qed
  qed
  then have "buried_ok s' \<and> ds_dbTombs s' = ds_dbTombs s \<and> ds_collTombs s' = ds_collTombs s"
  proof (elim conjE disjE exE)
    assume same: "ds_dbTombs s' = ds_dbTombs s" "ds_collTombs s' = ds_collTombs s" "ds_dbs s' = ds_dbs s"
    then show ?thesis using buried_unbury [OF assms same(3)] by simp
  next
    fix db coll c u
    assume same: "ds_dbTombs s' = ds_dbTombs s" "ds_collTombs s' = ds_collTombs s" "getCollection s db coll \<noteq> None" "ds_dbs u = ds_dbs s"
      "ds_dbTombs u = ds_dbTombs s" "ds_collTombs u = ds_collTombs s" "ds_dbs s' = ds_dbs (putCollection db coll c u)"
    have u: "buried_ok u" by (rule buried_unbury [OF assms same(4)]) (simp_all add: same)
    have "getCollection u db coll \<noteq> None" using getCollection_cong [OF same(4)] same(3) by simp
    from buried_update [OF u this] have p: "buried_ok (putCollection db coll c u)" .
    show ?thesis using buried_unbury [OF p same(7)] same(1,2,5,6) by (simp add: put_get)
  qed
  then show ?buried ?dbs ?colls by (simp_all add: s'_def)
qed

lemma step_buried:
  assumes "buried_ok s" and "plain_op p"
  shows "buried_ok (store_step h s p)"
proof (cases p)
  case (SApply ops)
  obtain r s1 where a: "apply_loop h ops [] None s = (r, s1)" by (cases "apply_loop h ops [] None s")
  then show ?thesis using apply_buried [OF assms(1) _ _ a] assms(2) by (simp add: SApply applyOps_def)
next
  case (SMeta db coll meta)
  obtain r s1 where m: "setCollectionMeta h db coll meta s = (r, s1)" by (cases "setCollectionMeta h db coll meta s")
  then show ?thesis using meta_buried [OF assms(1) _ m] assms(2) by (simp add: SMeta)
next
  case (SBulk starts)
  have "buried_ok (beginBulkLoad s)" by (rule buried_unbury [OF assms(1)]) (simp_all add: beginBulkLoad_def)
  then show ?thesis using bulk_end_buried [OF assms(1)] by (simp add: SBulk)
next
  case (SColl db coll q)
  show ?thesis
  proof (cases "getCollection s db coll")
    case (Some c)
    have "buried_ok (putCollection db coll (c_step h c q) s)" using buried_update [OF assms(1)] Some by blast
    then show ?thesis by (simp add: SColl Some)
  qed (simp add: SColl assms(1))
qed (use assms in \<open>simp_all add: snapshot_buried create_db_buried delete_db_buried delete_coll_buried warmup_buried\<close>)

text \<open>Which steps take a tombstone away.\<close>

lemma tombs_persist:
  assumes "buried_ok s" and "plain_op p" and "plain_name db"
  shows "(\<And>meta. p \<noteq> SMeta db coll meta) \<Longrightarrow> isCollectionDeleted s db coll \<Longrightarrow> isCollectionDeleted (store_step h s p) db coll"
    "(\<And>meta. p \<noteq> SCreateDb db meta) \<Longrightarrow> isDatabaseDeleted s db \<Longrightarrow> isDatabaseDeleted (store_step h s p) db"
proof -
  have "((\<forall>meta. p \<noteq> SMeta db coll meta) \<longrightarrow> isCollectionDeleted s db coll \<longrightarrow> isCollectionDeleted (store_step h s p) db coll) \<and>
    ((\<forall>meta. p \<noteq> SCreateDb db meta) \<longrightarrow> isDatabaseDeleted s db \<longrightarrow> isDatabaseDeleted (store_step h s p) db)"
  proof (cases p)
    case (SApply ops)
    obtain r s1 where a: "apply_loop h ops [] None s = (r, s1)" by (cases "apply_loop h ops [] None s")
    then have "ds_dbTombs s1 = ds_dbTombs s \<and> ds_collTombs s1 = ds_collTombs s"
      using apply_buried [OF assms(1) _ _ a] assms(2) by (simp add: SApply)
    then show ?thesis by (simp add: SApply applyOps_def a isDatabaseDeleted_def isCollectionDeleted_def)
  next
    case (SSnapshot trusted a b rows)
    then show ?thesis using snapshot_buried(2,3) [OF assms(1), of a h trusted b rows] assms(2)
      by (simp add: isDatabaseDeleted_def isCollectionDeleted_def)
  next
    case (SCreateDb a meta)
    have "ds_collTombs (store_step h s p) = ds_collTombs s \<and> ds_dbTombs (store_step h s p) = js_del a (ds_dbTombs s)"
      by (auto simp: SCreateDb createDatabase_def openDb_def split: option.split prod.split)
    then show ?thesis by (auto simp: isDatabaseDeleted_def isCollectionDeleted_def SCreateDb)
  next
    case (SDeleteDb a)
    obtain r s1 where d: "deleteDatabase a s = (r, s1)" by (cases "deleteDatabase a s")
    show ?thesis using delete_db(1,2) [OF d] by (simp add: SDeleteDb d isDatabaseDeleted_def isCollectionDeleted_def)
  next
    case (SMeta a b meta)
    obtain r s1 where m: "setCollectionMeta h a b meta s = (r, s1)" by (cases "setCollectionMeta h a b meta s")
    have a: "plain_name a" using assms(2) by (simp add: SMeta)
    have "ds_dbTombs s1 = ds_dbTombs s \<and> ds_collTombs s1 = js_del (storeCollectionKey a b) (ds_collTombs s)"
      using m
    proof (cases rule: meta_frame)
      case (1 t u)
      then show ?thesis using open_get(1,2) [OF 1(1)] by simp
    qed
    then show ?thesis using key_inj [OF a assms(3), of b coll] key_inj [OF assms(3) a, of coll b] by (auto simp: SMeta m isDatabaseDeleted_def isCollectionDeleted_def)
  next
    case (SDeleteColl a b)
    obtain r s1 where d: "deleteCollection a b s = (r, s1)" by (cases "deleteCollection a b s")
    show ?thesis using delete_coll(1,2) [OF d] by (simp add: SDeleteColl d isDatabaseDeleted_def isCollectionDeleted_def)
  next
    case (SBulk starts)
    then show ?thesis using bulk_end_buried(2,3) [OF assms(1)] by (simp add: beginBulkLoad_def isDatabaseDeleted_def isCollectionDeleted_def)
  next
    case (SWarmup heapFull)
    then show ?thesis using warmup_buried(2,3) [OF assms(1)] by (simp add: isDatabaseDeleted_def isCollectionDeleted_def)
  next
    case (SColl a b q)
    then show ?thesis by (simp add: isDatabaseDeleted_def isCollectionDeleted_def put_get split: option.split)
  qed
  then show "(\<And>meta. p \<noteq> SMeta db coll meta) \<Longrightarrow> isCollectionDeleted s db coll \<Longrightarrow> isCollectionDeleted (store_step h s p) db coll"
    "(\<And>meta. p \<noteq> SCreateDb db meta) \<Longrightarrow> isDatabaseDeleted s db \<Longrightarrow> isDatabaseDeleted (store_step h s p) db" by blast+
qed

lemma run_buried: "buried_ok s \<Longrightarrow> \<forall>p \<in> set ops. plain_op p \<Longrightarrow> buried_ok (foldl (store_step h) s ops)"
  by (induction ops arbitrary: s) (simp_all add: step_buried)

lemma run_tombs:
  assumes "buried_ok s" and "\<forall>p \<in> set ops. plain_op p" and "plain_name db"
  shows "\<forall>p \<in> set ops. \<forall>meta. p \<noteq> SMeta db coll meta \<Longrightarrow> isCollectionDeleted s db coll \<Longrightarrow> isCollectionDeleted (foldl (store_step h) s ops) db coll"
    "\<forall>p \<in> set ops. \<forall>meta. p \<noteq> SCreateDb db meta \<Longrightarrow> isDatabaseDeleted s db \<Longrightarrow> isDatabaseDeleted (foldl (store_step h) s ops) db"
  using assms(1,2)
proof (induction ops arbitrary: s)
  case (Cons p ops)
  { case 1 then show ?case using Cons.IH(1) step_buried [of s p h] tombs_persist(1) [of s p db coll h] assms(3) by simp }
  { case 2 then show ?case using Cons.IH(2) step_buried [of s p h] tombs_persist(2) [of s p db h] assms(3) by simp }
qed simp_all

lemma new_buried: "buried_ok (newStore engine vectorField)"
  by (rule buried_okI) (simp_all add: newStore_def getCollection_def isDatabaseDeleted_def)

text \<open>C7: What was deleted stays deleted: after a collection (a database) has been deleted, no operation that replicates, no snapshot, no end
of a bulk load and no background job brings it back, whatever runs before and after, until it is created anew (names without NUL).\<close>

theorem deleted_stays_deleted:
  assumes "s = foldl (store_step h) (newStore engine vectorField) before" and "\<forall>p \<in> set before \<union> set later. plain_op p" and "plain_name db"
  shows "((\<forall>p \<in> set later. \<forall>meta. p \<noteq> SMeta db coll meta) \<longrightarrow>
      getCollection (foldl (store_step h) (snd (deleteCollection db coll s)) later) db coll = None) \<and>
    ((\<forall>p \<in> set later. \<forall>meta. p \<noteq> SCreateDb db meta) \<longrightarrow>
      db \<notin> set (dbNames (foldl (store_step h) (snd (deleteDatabase db s)) later)))"
proof -
  have s: "buried_ok s" unfolding assms(1) by (rule run_buried [OF new_buried]) (use assms(2) in blast)
  have later: "\<forall>p \<in> set later. plain_op p" using assms(2) by blast
  have "getCollection (foldl (store_step h) (snd (deleteCollection db coll s)) later) db coll = None"
    if "\<forall>p \<in> set later. \<forall>meta. p \<noteq> SMeta db coll meta"
  proof -
    have d: "buried_ok (snd (deleteCollection db coll s))" by (rule delete_coll_buried [OF s assms(3)])
    obtain r s1 where "deleteCollection db coll s = (r, s1)" by (cases "deleteCollection db coll s")
    then have "isCollectionDeleted (snd (deleteCollection db coll s)) db coll" using delete_coll(2) by (simp add: isCollectionDeleted_def)
    from run_tombs(1) [OF d later assms(3) that this] show ?thesis using buried_okD(2) [OF run_buried [OF d later]] by blast
  qed
  moreover have "db \<notin> set (dbNames (foldl (store_step h) (snd (deleteDatabase db s)) later))"
    if "\<forall>p \<in> set later. \<forall>meta. p \<noteq> SCreateDb db meta"
  proof -
    have d: "buried_ok (snd (deleteDatabase db s))" by (rule delete_db_buried [OF s])
    obtain r s1 where "deleteDatabase db s = (r, s1)" by (cases "deleteDatabase db s")
    then have "isDatabaseDeleted (snd (deleteDatabase db s)) db" using delete_db(1) by (simp add: isDatabaseDeleted_def)
    from run_tombs(2) [OF d later assms(3) that this]
    have "jm_get (ds_dbs (foldl (store_step h) (snd (deleteDatabase db s)) later)) db = None"
      using buried_okD(1) [OF run_buried [OF d later]] by blast
    then show ?thesis unfolding dbNames_def by (simp add: map_of_eq_None_iff)
  qed
  ultimately show ?thesis by blast
qed

definition late_put :: rop where
  "late_put = \<lparr>op_kind = ''putObj'', op_db = ''d'', op_coll = ''c'', op_id = ''1'', op_value = JObj [], op_ts = Some \<lparr>tc = 9, tn = ''n''\<rparr>,
     op_shard = JUndef, op_from = ''n'', op_seq = 1\<rparr>"

theorem deleted_stays_deleted_witness:
  "getCollection (foldl (store_step plain_host)
     (snd (deleteCollection ''d'' ''c'' (foldl (store_step plain_host) (newStore (ShapeEngine newShapeStore) None) [SApply [late_put]])))
     [SApply [late_put]]) ''d'' ''c'' = None"
  by (rule deleted_stays_deleted [OF refl, THEN conjunct1, THEN mp]) (simp_all add: late_put_def plain_name_def NUL_def char_of_def)

subsection \<open>A snapshot of a deleted database\<close>

text \<open>A snapshot for a database that was deleted is not skipped, as its operations are: the store throws, where for a deleted collection it
applies nothing.\<close>

theorem snapshot_of_deleted_database_throws:
  assumes "isDatabaseDeleted s db" and "\<not> isCollectionDeleted s db coll"
  shows "fst (storeSnapshotObjects h trusted db coll rows s) = Inl DatabaseDeleted \<and>
    (\<forall>op. op_db op = db \<longrightarrow> applyOps h [op] s = (Inr [], s)) \<and>
    fst (storeSnapshotObjects h trusted db coll rows (snd (deleteCollection db coll s))) = Inr 0"
proof -
  have "isCollectionDeleted (snd (deleteCollection db coll s)) db coll"
    using delete_coll(2) [of db coll s] by (cases "deleteCollection db coll s") (auto simp: isCollectionDeleted_def)
  then show ?thesis using assms
    by (auto simp: storeSnapshotObjects_def openCollection_def assertCollectionWritable_def applyOps_def)
qed

theorem snapshot_of_deleted_database_throws_witness:
  "fst (storeSnapshotObjects plain_host True ''d'' ''c'' [] (snd (deleteDatabase ''d'' (newStore (ShapeEngine newShapeStore) None)))) = Inl DatabaseDeleted"
  by (rule snapshot_of_deleted_database_throws [THEN conjunct1])
    (simp_all add: deleteDatabase_def newStore_def isDatabaseDeleted_def isCollectionDeleted_def Let_def js_add_def)

end
