(* ===== verification/StoreRows.thy ===== *)
theory StoreRows
  imports DbStore
begin

text \<open>
  What \<open>applyOps\<close> makes of the rows of a store. The rows are seen as cells, one for each database, collection and id: the timestamp that
  decided it and its fields. One operation takes its cell over when it is newer (\<open>cell_put\<close>); a batch of operations is the operations one
  after the other, however the store groups them into runs (\<open>apply_cells\<close>), so stores that received the same operations agree.

  As in CollRows the rows are stored whole: object engine without structured pooling, no vectors, columns or tiering.
\<close>

subsection \<open>Cells\<close>

type_synonym cell_key = "string \<times> string \<times> string"
type_synonym cell = "ts option \<times> (string \<Rightarrow> jsv option) option"

definition newer_than :: "ts \<Rightarrow> ts option \<Rightarrow> bool" where
  "newer_than t u = (case u of None \<Rightarrow> True | Some u \<Rightarrow> ts_newer t u)"

definition cell_put :: "'k \<Rightarrow> ts \<Rightarrow> 'v \<Rightarrow> ('k \<Rightarrow> ts option \<times> 'v) \<Rightarrow> 'k \<Rightarrow> ts option \<times> 'v" where
  "cell_put key t v f = (if newer_than t (fst (f key)) then f(key := (Some t, v)) else f)"

definition op_key :: "rop \<Rightarrow> cell_key" where
  "op_key op = (op_db op, op_coll op, op_id op)"

definition op_time :: "rop \<Rightarrow> ts" where
  "op_time op = the (op_ts op)"

text \<open>What the row holds after the operation.\<close>

definition op_content :: "rop \<Rightarrow> (string \<Rightarrow> jsv option) option" where
  "op_content op =
     (if op_kind op = ''delObj'' then None
      else Some (written_fields (op_id op) (if op_kind op = ''touch'' then JObj [] else op_value op)))"

definition op_put :: "(cell_key \<Rightarrow> cell) \<Rightarrow> rop \<Rightarrow> cell_key \<Rightarrow> cell" where
  "op_put f op = cell_put (op_key op) (op_time op) (op_content op) f"

definition op_ok :: "rop \<Rightarrow> bool" where
  "op_ok op \<longleftrightarrow> op_ts op \<noteq> None \<and> jm_ok (entries_of (op_value op)) \<and> plain_name (op_db op) \<and> plain_name (op_coll op)"

interpretation cells_lww: lww_store ts_newer "\<lambda>f. True" op_put op_ok op_key op_time op_content "\<lambda>f k. fst (f k)" "\<lambda>f k. snd (f k)"
  by unfold_locales (auto simp: op_put_def cell_put_def newer_than_def split: option.splits)

subsection \<open>One row of a batch\<close>

definition cells_of :: "host \<Rightarrow> coll \<Rightarrow> string \<Rightarrow> cell" where
  "cells_of h c key = (row_stamp c key, row_fields h c key)"

lemma cells_fun: "cells_of h c = (\<lambda>key. (row_stamp c key, row_fields h c key))"
  by (simp add: cells_of_def fun_eq_iff)

lemma write_cells:
  assumes "replica_ok h c" and "write_ok p"
  shows "cells_of h (write_step h c p) = cell_put (write_id p) (write_time p) (write_content p) (cells_of h c)"
  using write_effect(2,3) [OF assms] by (auto simp: cells_fun cell_put_def newer_than_def fun_eq_iff split: option.splits)

text \<open>Whether the columns' fields are kept is of no concern when there are no columns, nor is what else the row carries.\<close>

lemma put_plain:
  assumes "whole_rows h c"
  shows "c_putObject h trusted keepAll row c = c_putObject h trusted keepAll' (row_in.truncate row) c"
proof -
  obtain m c1 where em: "ensureMeta (ri_id row) c = (m, c1)" by (cases "ensureMeta (ri_id row) c")
  have w: "whole_rows h c1"
    using ensureMeta_derived [OF em] ensureMeta_other(4) [OF em] assms by (intro whole_rows_cong [OF _ _ _ assms]) (auto simp: whole_rows_def)
  have base: "writeBaseValue h key rid (if b then v else baseValueForStorage c1 v None) t (c1\<lparr>cl_meta := x\<rparr>) =
      writeBaseValue h key rid v t (c1\<lparr>cl_meta := x\<rparr>)" for b v t x key rid
  proof -
    have "whole_rows h (c1\<lparr>cl_meta := x\<rparr>)" using w by (simp add: whole_rows_def)
    then show ?thesis using w by (simp add: write_whole or_empty_entries base_whole whole_rows_def)
  qed
  have sel: "ri_id (row_in.truncate row) = ri_id row" "ri_value (row_in.truncate row) = ri_value row"
    "ri_ts (row_in.truncate row) = ri_ts row" "ri_shard (row_in.truncate row) = ri_shard row"
    by (simp_all add: row_in.truncate_def)
  show ?thesis unfolding c_putObject_def sel em prod.case Let_def base ..
qed

lemma delete_plain: "c_deleteObject h row c = c_deleteObject h (row_del.truncate row) c"
  unfolding c_deleteObject_def row_del.truncate_def row_del.simps ..

lemma put_cells:
  assumes ok: "replica_ok h c" and row: "ri_ts row = Some t" "jm_ok (entries_of (ri_value row))"
    and put: "c_putObject h trusted keepAll row c = (out, c')"
  shows "replica_ok h c'" "cells_of h c' = cell_put (ri_id row) t (Some (written_fields (ri_id row) (ri_value row))) (cells_of h c)"
    "\<exists>d. out = Inr d" "newer_than t (row_stamp c (ri_id row)) \<Longrightarrow> \<exists>d. out = Inr (Some d)"
proof -
  define p where "p = WPut trusted (row_in.truncate row)"
  have p: "write_ok p" "write_id p = ri_id row" "write_time p = t" "write_content p = Some (written_fields (ri_id row) (ri_value row))"
    using row by (simp_all add: p_def row_in.truncate_def write_time_def)
  have w: "whole_rows h c" using ok by (simp add: replica_ok_def)
  obtain m c1 where em: "ensureMeta (ri_id row) c = (m, c1)" by (cases "ensureMeta (ri_id row) c")
  have put1: "c_putObject h trusted (shouldDeferIndexDeltasForCount (length [row_in.truncate row]) c) (row_in.truncate row) c = (out, c')"
    using put put_plain [OF w] by metis
  have out: "(\<exists>d. out = Inr (Some d)) \<or> (out = Inr None \<and> c' = c)"
  proof (cases "\<exists>d. out = Inr (Some d)")
    case False
    have "cl_vectorField c = None" using w by (simp add: whole_rows_def)
    then show ?thesis using put_refused(1,2) [OF _ put _ em] False by blast
  qed blast
  have "whole_rows h c' \<and> (\<exists>ds. write_step h c p = applyIndexDeltas h ds c')"
    using out
  proof (elim disjE exE conjE)
    fix d assume d: "out = Inr (Some d)"
    show ?thesis using put_whole(2) [OF w row(2) put [unfolded d] em] put1 d by (auto simp: p_def putObjects_def)
  next
    assume "out = Inr None" "c' = c"
    then show ?thesis using w put1 by (auto simp: p_def putObjects_def)
  qed
  then obtain ds where c': "whole_rows h c'" "write_step h c p = applyIndexDeltas h ds c'" by blast
  have same: "cells_of h (write_step h c p) = cells_of h c'" by (simp add: cells_fun c'(2) deltas_rows [OF c'(1)])
  show "replica_ok h c'" using write_effect(1) [OF ok p(1)] c' by (simp add: replica_ok_def deltas_rows)
  show eff: "cells_of h c' = cell_put (ri_id row) t (Some (written_fields (ri_id row) (ri_value row))) (cells_of h c)"
    using write_cells [OF ok p(1)] by (simp only: same p)
  show "\<exists>d. out = Inr d" using out by blast
  show "\<exists>d. out = Inr (Some d)" if "newer_than t (row_stamp c (ri_id row))"
  proof (rule ccontr)
    assume "\<not> ?thesis"
    then have "c' = c" using out by blast
    then have "row_stamp c (ri_id row) = Some t" using eff that by (simp add: cells_fun cell_put_def fun_eq_iff split: if_splits)
    then show False using that ts_order.irrefl by (simp add: newer_than_def)
  qed
qed

lemma delete_cells:
  assumes ok: "replica_ok h c" and row: "rd_ts row = Some t" and del: "c_deleteObject h row c = (out, c')"
  shows "replica_ok h c'" "cells_of h c' = cell_put (rd_id row) t None (cells_of h c)"
    "newer_than t (row_stamp c (rd_id row)) \<Longrightarrow> out \<noteq> None"
proof -
  define p where "p = WDelete (row_del.truncate row)"
  have p: "write_ok p" "write_id p = rd_id row" "write_time p = t" "write_content p = None"
    using row by (simp_all add: p_def row_del.truncate_def write_time_def)
  have w: "whole_rows h c" using ok by (simp add: replica_ok_def)
  obtain m c1 where em: "ensureMeta (rd_id row) c = (m, c1)" by (cases "ensureMeta (rd_id row) c")
  have del1: "c_deleteObject h (row_del.truncate row) c = (out, c')" using del delete_plain by metis
  have "whole_rows h c' \<and> (\<exists>ds. write_step h c p = applyIndexDeltas h ds c') \<and> (out = None \<longrightarrow> c' = c)"
  proof (cases out)
    case None
    then show ?thesis using delete_refused(1) [OF del [unfolded None] em] w del1 by (auto simp: p_def deleteObjects_def)
  next
    case (Some d)
    then show ?thesis using delete_whole(2) [OF w del [unfolded Some] em] del1 by (auto simp: p_def deleteObjects_def)
  qed
  then obtain ds where c': "whole_rows h c'" "write_step h c p = applyIndexDeltas h ds c'" "out = None \<longrightarrow> c' = c" by blast
  have same: "cells_of h (write_step h c p) = cells_of h c'" by (simp add: cells_fun c'(2) deltas_rows [OF c'(1)])
  show "replica_ok h c'" using write_effect(1) [OF ok p(1)] c' by (simp add: replica_ok_def deltas_rows)
  show eff: "cells_of h c' = cell_put (rd_id row) t None (cells_of h c)"
    using write_cells [OF ok p(1)] by (simp only: same p)
  show "out \<noteq> None" if "newer_than t (row_stamp c (rd_id row))"
  proof
    assume "out = None"
    then have "c' = c" using c'(3) by blast
    then have "row_stamp c (rd_id row) = Some t" using eff that by (simp add: cells_fun cell_put_def fun_eq_iff split: if_splits)
    then show False using that ts_order.irrefl by (simp add: newer_than_def)
  qed
qed

subsection \<open>A batch\<close>

definition row_put :: "(string \<Rightarrow> cell) \<Rightarrow> 'r row_in_scheme \<Rightarrow> string \<Rightarrow> cell" where
  "row_put f row = cell_put (ri_id row) (the (ri_ts row)) (Some (written_fields (ri_id row) (ri_value row))) f"

definition row_delete :: "(string \<Rightarrow> cell) \<Rightarrow> 'r row_del_scheme \<Rightarrow> string \<Rightarrow> cell" where
  "row_delete f row = cell_put (rd_id row) (the (rd_ts row)) None f"

lemma put_loop_cells:
  assumes "replica_ok h c" and "\<forall>row \<in> set rows. ri_ts row \<noteq> None \<and> jm_ok (entries_of (ri_value row))"
    and "put_loop h trusted keepAll rows c applied deltas = (out, c')"
  shows "replica_ok h c' \<and> cells_of h c' = foldl row_put (cells_of h c) rows \<and> (\<exists>x. out = Inr x)"
  using assms
proof (induction rows arbitrary: c applied deltas)
  case (Cons row rows)
  obtain t where t: "ri_ts row = Some t" "jm_ok (entries_of (ri_value row))" using Cons.prems(2) by auto
  obtain o1 c1 where put: "c_putObject h trusted keepAll row c = (o1, c1)" by (cases "c_putObject h trusted keepAll row c")
  note p = put_cells [OF Cons.prems(1) t put]
  obtain d where d: "o1 = Inr d" using p(3) by blast
  have rows: "\<forall>row \<in> set rows. ri_ts row \<noteq> None \<and> jm_ok (entries_of (ri_value row))" using Cons.prems(2) by simp
  obtain a ds where rest: "put_loop h trusted keepAll rows c1 a ds = (out, c')"
    using Cons.prems(3) put d by (cases d) simp_all
  from Cons.IH [OF p(1) rows rest] show ?case by (simp add: p(2) row_put_def t(1))
qed auto

lemma delete_loop_cells:
  assumes "replica_ok h c" and "\<forall>row \<in> set rows. rd_ts row \<noteq> None" and "delete_loop h rows c applied deltas = (out, c')"
  shows "replica_ok h c' \<and> cells_of h c' = foldl row_delete (cells_of h c) rows"
  using assms
proof (induction rows arbitrary: c applied deltas)
  case (Cons row rows)
  obtain t where t: "rd_ts row = Some t" using Cons.prems(2) by auto
  obtain o1 c1 where del: "c_deleteObject h row c = (o1, c1)" by (cases "c_deleteObject h row c")
  note p = delete_cells [OF Cons.prems(1) t del]
  have rows: "\<forall>row \<in> set rows. rd_ts row \<noteq> None" using Cons.prems(2) by simp
  obtain a ds where rest: "delete_loop h rows c1 a ds = (out, c')"
    using Cons.prems(3) del by (cases o1) simp_all
  from Cons.IH [OF p(1) rows rest] show ?case by (simp add: p(2) row_delete_def t)
qed simp

lemma deltas_cells: "replica_ok h c \<Longrightarrow> replica_ok h (applyIndexDeltas h ds c) \<and> cells_of h (applyIndexDeltas h ds c) = cells_of h c"
  by (simp add: replica_ok_def cells_fun deltas_rows deltas_whole(1))

lemma putObjects_cells:
  assumes "replica_ok h c" and "\<forall>row \<in> set rows. ri_ts row \<noteq> None \<and> jm_ok (entries_of (ri_value row))" and "putObjects h trusted rows c = (out, c')"
  shows "replica_ok h c' \<and> cells_of h c' = foldl row_put (cells_of h c) rows \<and> (\<exists>x. out = Inr x)"
proof -
  define keepAll where "keepAll = shouldDeferIndexDeltasForCount (length rows) c"
  obtain o1 c1 where loop: "put_loop h trusted keepAll rows c [] [] = (o1, c1)" by (cases "put_loop h trusted keepAll rows c [] []")
  note l = put_loop_cells [OF assms(1,2) loop]
  then obtain a ds where "o1 = Inr (a, ds)" by auto
  then have "out = Inr a" "c' = applyIndexDeltas h ds c1" using assms(3) loop by (simp_all add: putObjects_def keepAll_def)
  then show ?thesis using l deltas_cells by simp
qed

lemma deleteObjects_cells:
  assumes "replica_ok h c" and "\<forall>row \<in> set rows. rd_ts row \<noteq> None" and "deleteObjects h rows c = (out, c')"
  shows "replica_ok h c' \<and> cells_of h c' = foldl row_delete (cells_of h c) rows"
proof -
  obtain a ds c1 where loop: "delete_loop h rows c [] [] = ((a, ds), c1)" by (metis prod.collapse)
  then have "c' = applyIndexDeltas h ds c1" using assms(3) by (simp add: deleteObjects_def)
  then show ?thesis using delete_loop_cells [OF assms(1,2) loop] deltas_cells by simp
qed

subsection \<open>The cells of a store\<close>

definition store_cells :: "host \<Rightarrow> dstore \<Rightarrow> cell_key \<Rightarrow> cell" where
  "store_cells h s k = (case k of (db, coll, key) \<Rightarrow> (case getCollection s db coll of None \<Rightarrow> (None, None) | Some c \<Rightarrow> cells_of h c key))"

text \<open>Every collection stores its rows whole, and so will a new one.\<close>

definition store_whole :: "host \<Rightarrow> dstore \<Rightarrow> bool" where
  "store_whole h s \<longleftrightarrow> replica_ok h (newCollection (ds_engine s) (ds_vectorField s)) \<and>
     (\<forall>db coll c. getCollection s db coll = Some c \<longrightarrow> replica_ok h c)"

lemma store_wholeD:
  "store_whole h s \<Longrightarrow> replica_ok h (newCollection (ds_engine s) (ds_vectorField s))"
  "store_whole h s \<Longrightarrow> getCollection s db coll = Some c \<Longrightarrow> replica_ok h c"
  unfolding store_whole_def by blast+

lemma new_cells: "cells_of h (newCollection engine vectorField) key = (None, None)"
  by (simp add: cells_of_def row_stamp_def row_fields_def c_readForQuery_def newCollection_def)

lemma store_put_whole:
  assumes "store_whole h s" and "replica_ok h c"
  shows "store_whole h (putCollection db coll c s)"
  using assms by (auto simp: store_whole_def put_get)

lemma store_put_cells:
  "store_cells h (putCollection db coll c s) (a, b, key) = (if a = db \<and> b = coll then cells_of h c key else store_cells h s (a, b, key))"
  by (simp add: store_cells_def put_get)

lemma open_writable: "assertCollectionWritable s db coll = None \<Longrightarrow> \<exists>c s0. openCollection db coll s = (Inr c, s0)"
  by (cases "openDb db s") (auto simp: openCollection_def Let_def split: option.split)

lemma store_open:
  assumes "store_whole h s" and "openCollection db coll s = (Inr c, s1)"
  shows "store_whole h s1" "store_cells h s1 = store_cells h s" "replica_ok h c" "cells_of h c key = store_cells h s (db, coll, key)"
proof -
  note g = open_get [OF assms(2)]
  have c: "getCollection s1 db coll = Some c" "c = (case getCollection s db coll of None \<Rightarrow> newCollection (ds_engine s) (ds_vectorField s) | Some c \<Rightarrow> c)"
    using g(6) [OF refl] by blast+
  show ok: "replica_ok h c" using store_wholeD [OF assms(1)] by (simp add: c(2) split: option.split)
  show cells: "cells_of h c key = store_cells h s (db, coll, key)" for key
    by (simp add: c(2) store_cells_def new_cells split: option.split)
  show "store_whole h s1"
    unfolding store_whole_def
  proof (intro conjI allI impI)
    show "replica_ok h (newCollection (ds_engine s1) (ds_vectorField s1))" using store_wholeD(1) [OF assms(1)] by (simp only: g(3,4))
    fix a b x assume x: "getCollection s1 a b = Some x"
    show "replica_ok h x"
    proof (cases "(a, b) = (db, coll)")
      case True
      then show ?thesis using x c(1) ok by simp
    next
      case False
      then show ?thesis using x g(7) [OF False] store_wholeD(2) [OF assms(1)] by metis
    qed
  qed
  show "store_cells h s1 = store_cells h s"
  proof
    fix k :: cell_key
    obtain a b key where k: "k = (a, b, key)" by (cases k)
    show "store_cells h s1 k = store_cells h s k"
    proof (cases "(a, b) = (db, coll)")
      case True
      then show ?thesis using c(1) cells [of key] by (simp add: k store_cells_def)
    next
      case False
      then show ?thesis using g(7) [OF False] by (simp add: k store_cells_def)
    qed
  qed
qed

text \<open>One operation of a run on the collection's cells is that operation on the store's.\<close>

lemma run_cells:
  assumes "\<forall>op \<in> set run. at_collection op = (db, coll) \<and> op_ts op \<noteq> None"
    and "\<And>f op. at_collection op = (db, coll) \<Longrightarrow> step f op = cell_put (op_id op) (op_time op) (op_content op) f"
    and "\<And>key. f key = F (db, coll, key)"
  shows "(\<lambda>(a, b, key). if a = db \<and> b = coll then foldl step f run key else F (a, b, key)) = foldl op_put F run"
  using assms(1,3)
proof (induction run arbitrary: f F)
  case Nil
  then show ?case by (auto simp: fun_eq_iff)
next
  case (Cons op run)
  have op: "op_db op = db" "op_coll op = coll" "at_collection op = (db, coll)" using Cons.prems(1) by (auto simp: at_collection_def)
  have new: "step f op key = op_put F op (db, coll, key)" for key
    by (simp add: assms(2) [OF op(3)] op_put_def op_key_def op cell_put_def Cons.prems(2))
  have others: "F (a, b, key) = op_put F op (a, b, key)" if "\<not> (a = db \<and> b = coll)" for a b key
    using that by (auto simp: op_put_def op_key_def op cell_put_def)
  have rest: "\<forall>op \<in> set run. at_collection op = (db, coll) \<and> op_ts op \<noteq> None" using Cons.prems(1) by simp
  note IH = Cons.IH [where f = "step f op" and F = "op_put F op", OF rest new]
  show ?case
  proof
    fix k :: cell_key
    obtain a b key where k: "k = (a, b, key)" by (cases k)
    show "(\<lambda>(a, b, key). if a = db \<and> b = coll then foldl step f (op # run) key else F (a, b, key)) k = foldl op_put F (op # run) k"
    proof (cases "a = db \<and> b = coll")
      case True
      then show ?thesis using fun_cong [OF IH, of k] by (simp add: k)
    next
      case False
      have "F (a, b, key) = foldl op_put (op_put F op) run (a, b, key)"
        using fun_cong [OF IH, of k] others [OF False] unfolding k prod.case if_not_P [OF False] by simp
      then show ?thesis unfolding k prod.case if_not_P [OF False] by simp
    qed
  qed
qed

text \<open>The operations of one run: on one collection and of one kind.\<close>

definition same_run :: "string \<Rightarrow> rop list \<Rightarrow> bool" where
  "same_run key run \<longleftrightarrow> run \<noteq> [] \<and> (\<forall>op \<in> set run. run_key op = key \<and> op_ok op)"

lemma flush_cells:
  assumes ok: "store_whole h s" and run: "same_run key run"
    and live: "\<forall>op \<in> set run. \<not> isDatabaseDeleted s (op_db op) \<and> \<not> isCollectionDeleted s (op_db op) (op_coll op)"
    and flush: "flush_run h key run s = (r, s1)"
  shows "store_whole h s1 \<and> store_cells h s1 = foldl op_put (store_cells h s) run \<and> (\<exists>rows. r = Inr rows) \<and>
    ds_dbTombs s1 = ds_dbTombs s \<and> ds_collTombs s1 = ds_collTombs s"
proof -
  obtain first rest where first: "run = first # rest" using run by (cases run) (auto simp: same_run_def)
  define db where "db = op_db first"
  define coll where "coll = op_coll first"
  define kind where "kind = run_kind first"
  have parts: "key_parts (run_key op) = (op_db op, op_coll op, run_kind op)" if "op \<in> set run" for op
    using run that by (intro key_parts_run) (simp_all add: same_run_def op_ok_def)
  have key: "run_key op = key" if "op \<in> set run" for op using run that by (simp add: same_run_def)
  have kp: "key_parts key = (db, coll, kind)" using parts [of first] key [of first] first by (simp add: db_def coll_def kind_def)
  have at: "at_collection op = (db, coll)" "run_kind op = kind" if "op \<in> set run" for op
    using parts [OF that] kp key [OF that] by (simp_all add: at_collection_def)
  have "assertCollectionWritable s db coll = None" using live first by (simp add: writable_iff db_def coll_def)
  then obtain c s0 where o: "openCollection db coll s = (Inr c, s0)"
    using open_writable by blast
  note so = store_open [OF ok o]
  have timed: "\<forall>op \<in> set run. at_collection op = (db, coll) \<and> op_ts op \<noteq> None" using at(1) run by (simp add: same_run_def op_ok_def)
  note all_cells = run_cells [where step = "\<lambda>f op. cell_put (op_id op) (op_time op) (op_content op) f" and f = "cells_of h c" and F = "store_cells h s", OF timed refl so(4)]
  have main: "\<exists>c1 rows. r = Inr rows \<and> s1 = putCollection db coll c1 s0 \<and> replica_ok h c1 \<and>
      (\<lambda>(a, b, key). if a = db \<and> b = coll then cells_of h c1 key else store_cells h s (a, b, key)) = foldl op_put (store_cells h s) run"
  proof (cases "kind = ''delObj''")
    case True
    obtain rows c1 where d: "deleteObjects h (map del_row_of run) c = (rows, c1)" by (cases "deleteObjects h (map del_row_of run) c")
    have "\<forall>row \<in> set (map del_row_of run). rd_ts row \<noteq> None" using timed by (simp add: del_row_of_def)
    note e = deleteObjects_cells [OF so(3) this d]
    have kinds: "op_kind op = ''delObj''" if "op \<in> set run" for op using at(2) [OF that] True by (simp add: run_kind_def split: if_splits)
    have "foldl row_delete (cells_of h c) (map del_row_of run) = foldl (\<lambda>f op. cell_put (op_id op) (op_time op) None f) (cells_of h c) run"
      by (simp add: foldl_map row_delete_def del_row_of_def op_time_def)
    also have "\<dots> = foldl (\<lambda>f op. cell_put (op_id op) (op_time op) (op_content op) f) (cells_of h c) run"
      using kinds by (intro foldl_cong) (simp_all add: op_content_def)
    finally have c1: "cells_of h c1 = foldl (\<lambda>f op. cell_put (op_id op) (op_time op) (op_content op) f) (cells_of h c) run" using e by simp
    have "r = Inr (map dr_op rows)" "s1 = putCollection db coll c1 s0" using flush o d True by (simp_all add: flush_run_def kp)
    then show ?thesis using e all_cells unfolding c1 [symmetric] by (intro exI [of _ c1]) simp
  next
    case False
    obtain out c1 where p: "putObjects h False (map put_row_of run) c = (out, c1)" by (cases "putObjects h False (map put_row_of run) c")
    have "\<forall>row \<in> set (map put_row_of run). ri_ts row \<noteq> None \<and> jm_ok (entries_of (ri_value row))"
      using run by (auto simp: same_run_def op_ok_def put_row_of_def or_empty_entries)
    note e = putObjects_cells [OF so(3) this p]
    then obtain rows where rows: "out = Inr rows" by blast
    have kinds: "op_kind op \<noteq> ''delObj''" if "op \<in> set run" for op using at(2) [OF that] False by (simp add: run_kind_def split: if_splits)
    have w: "written_fields key (or_empty v) = written_fields key v" for key v
      by (simp add: written_fields_def fields_of_def or_empty_entries)
    have "foldl row_put (cells_of h c) (map put_row_of run) = foldl (\<lambda>f op. cell_put (op_id op) (op_time op) (op_content op) f) (cells_of h c) run"
      unfolding foldl_map
      using kinds by (intro foldl_cong) (simp_all add: row_put_def put_row_of_def op_content_def op_time_def w)
    then have c1: "cells_of h c1 = foldl (\<lambda>f op. cell_put (op_id op) (op_time op) (op_content op) f) (cells_of h c) run" using e by simp
    have "r = Inr (map pr_op rows)" "s1 = putCollection db coll c1 s0" using flush o p rows False by (simp_all add: flush_run_def kp)
    then show ?thesis using e all_cells unfolding c1 [symmetric] by (intro exI [of _ c1]) simp
  qed
  then obtain c1 rows where m: "r = Inr rows" "s1 = putCollection db coll c1 s0" "replica_ok h c1"
      "(\<lambda>(a, b, key). if a = db \<and> b = coll then cells_of h c1 key else store_cells h s (a, b, key)) = foldl op_put (store_cells h s) run" by blast
  have "store_cells h s1 = (\<lambda>(a, b, key). if a = db \<and> b = coll then cells_of h c1 key else store_cells h s (a, b, key))"
    by (auto simp: fun_eq_iff m(2) store_put_cells so(2))
  then show ?thesis using m store_put_whole [OF so(1) m(3)] open_get(1,2) [OF o] by (simp add: put_get)
qed

subsection \<open>All operations\<close>

definition live_op :: "dstore \<Rightarrow> rop \<Rightarrow> bool" where
  "live_op s op \<longleftrightarrow> \<not> isDatabaseDeleted s (op_db op) \<and> \<not> isCollectionDeleted s (op_db op) (op_coll op)"

lemma live_cong: "ds_dbTombs s' = ds_dbTombs s \<Longrightarrow> ds_collTombs s' = ds_collTombs s \<Longrightarrow> live_op s' = live_op s"
  by (simp add: live_op_def fun_eq_iff isDatabaseDeleted_def isCollectionDeleted_def)

lemma apply_loop_cells:
  assumes "store_whole h s" and "\<forall>op \<in> set ops. op_ok op"
    and "case pending of None \<Rightarrow> True | Some (key, run) \<Rightarrow> same_run key run \<and> (\<forall>op \<in> set run. live_op s op)"
    and "apply_loop h ops applied pending s = (r, s1)"
  shows "store_whole h s1 \<and>
    store_cells h s1 = foldl op_put (store_cells h s) ((case pending of None \<Rightarrow> [] | Some (key, run) \<Rightarrow> run) @ filter (live_op s) ops) \<and>
    (\<exists>rows. r = Inr rows) \<and> ds_dbTombs s1 = ds_dbTombs s \<and> ds_collTombs s1 = ds_collTombs s"
  using assms
proof (induction ops arbitrary: applied pending s)
  case Nil
  show ?case
  proof (cases pending)
    case None
    then show ?thesis using Nil by auto
  next
    case (Some p)
    obtain key run where p: "p = (key, run)" by (cases p)
    obtain t u where f: "flush_run h key run s = (t, u)" by (cases "flush_run h key run s")
    have run: "same_run key run" "\<forall>op \<in> set run. \<not> isDatabaseDeleted s (op_db op) \<and> \<not> isCollectionDeleted s (op_db op) (op_coll op)"
      using Nil(3) Some p by (simp_all add: live_op_def)
    note e = flush_cells [OF Nil(1) run f]
    then obtain rows where "t = Inr rows" by blast
    then have "s1 = u" "r = Inr (applied @ rows)" using Nil(4) f Some p by simp_all
    then show ?thesis using e by (simp add: Some p)
  qed
next
  case (Cons op ops)
  have op: "op_ok op" and ops: "\<forall>op \<in> set ops. op_ok op" using Cons.prems(2) by simp_all
  have single: "same_run (run_key op) [op]" by (simp add: same_run_def op)
  show ?case
  proof (cases "live_op s op")
    case False
    then have "apply_loop h ops applied pending s = (r, s1)" using Cons.prems(4) by (simp add: live_op_def)
    then show ?thesis using Cons.IH [OF Cons.prems(1) ops Cons.prems(3)] False by simp
  next
    case live: True
    show ?thesis
    proof (cases pending)
      case None
      have "apply_loop h ops applied (Some (run_key op, [op])) s = (r, s1)" using Cons.prems(4) live None by (simp add: live_op_def)
      from Cons.IH [OF Cons.prems(1) ops _ this] single live None show ?thesis by simp
    next
      case (Some p)
      obtain key run where p: "p = (key, run)" by (cases p)
      have run: "same_run key run" "\<forall>op \<in> set run. live_op s op" using Cons.prems(3) Some p by simp_all
      show ?thesis
      proof (cases "key = run_key op")
        case True
        have "apply_loop h ops applied (Some (run_key op, run @ [op])) s = (r, s1)" using Cons.prems(4) live Some p True by (simp add: live_op_def)
        moreover have "same_run (run_key op) (run @ [op])" using run(1) True op by (simp add: same_run_def)
        ultimately show ?thesis using Cons.IH [OF Cons.prems(1) ops, of "Some (run_key op, run @ [op])"] run(2) live Some p by simp
      next
        case False
        obtain t u where f: "flush_run h key run s = (t, u)" by (cases "flush_run h key run s")
        have "\<forall>op \<in> set run. \<not> isDatabaseDeleted s (op_db op) \<and> \<not> isCollectionDeleted s (op_db op) (op_coll op)"
          using run(2) by (simp add: live_op_def)
        note e = flush_cells [OF Cons.prems(1) run(1) this f]
        then obtain rows where rows: "t = Inr rows" by blast
        have "apply_loop h ops (applied @ rows) (Some (run_key op, [op])) u = (r, s1)"
          using Cons.prems(4) live Some p False f rows by (simp add: live_op_def)
        moreover have lu: "live_op u = live_op s" using e by (intro live_cong) blast+
        moreover have "store_whole h u" using e by blast
        ultimately show ?thesis using Cons.IH [of u "Some (run_key op, [op])" "applied @ rows"] ops single live e by (simp add: Some p)
      qed
    qed
  qed
qed

lemma apply_cells:
  assumes "store_whole h s" and "\<forall>op \<in> set ops. op_ok op" and "applyOps h ops s = (r, s1)"
  shows "store_whole h s1" "store_cells h s1 = foldl op_put (store_cells h s) (filter (live_op s) ops)" "\<exists>rows. r = Inr rows"
    "ds_dbTombs s1 = ds_dbTombs s" "ds_collTombs s1 = ds_collTombs s"
proof -
  have "store_whole h s1 \<and> store_cells h s1 = foldl op_put (store_cells h s) (filter (live_op s) ops) \<and> (\<exists>rows. r = Inr rows) \<and>
      ds_dbTombs s1 = ds_dbTombs s \<and> ds_collTombs s1 = ds_collTombs s"
    using apply_loop_cells [OF assms(1,2), of None "[]" r s1] assms(3) by (simp add: applyOps_def)
  then show "store_whole h s1" "store_cells h s1 = foldl op_put (store_cells h s) (filter (live_op s) ops)" "\<exists>rows. r = Inr rows"
    "ds_dbTombs s1 = ds_dbTombs s" "ds_collTombs s1 = ds_collTombs s" by blast+
qed

subsection \<open>Stores that received the same operations\<close>

definition received :: "host \<Rightarrow> jobj \<Rightarrow> rop list list \<Rightarrow> dstore" where
  "received h options batches =
     foldl (\<lambda>s ops. snd (applyOps h ops s)) (newStore (ObjectEngine (newObjectRowStore h options)) None) batches"

lemma new_whole:
  assumes "rows_not_pooled options"
  shows "store_whole h (newStore (ObjectEngine (newObjectRowStore h options)) None)"
    "store_cells h (newStore (ObjectEngine (newObjectRowStore h options)) None) k = (None, None)"
  using new_replica(1) [OF assms, of h]
  by (simp_all add: store_whole_def newStore_def getCollection_def store_cells_def split: prod.split)

lemma batches_cells:
  assumes "store_whole h s" and "\<forall>ops \<in> set batches. \<forall>op \<in> set ops. op_ok op" and "\<And>op. live_op s op"
  shows "store_whole h (foldl (\<lambda>s ops. snd (applyOps h ops s)) s batches) \<and>
    store_cells h (foldl (\<lambda>s ops. snd (applyOps h ops s)) s batches) = foldl op_put (store_cells h s) (concat batches)"
  using assms
proof (induction batches arbitrary: s)
  case (Cons ops batches)
  obtain r s1 where a: "applyOps h ops s = (r, s1)" by (cases "applyOps h ops s")
  have ops: "\<forall>op \<in> set ops. op_ok op" "\<forall>ops \<in> set batches. \<forall>op \<in> set ops. op_ok op" using Cons.prems(2) by simp_all
  note e = apply_cells [OF Cons.prems(1) ops(1) a]
  have live: "live_op s1 op" for op using live_cong [OF e(4,5)] Cons.prems(3) by simp
  have "filter (live_op s) ops = ops" using Cons.prems(3) by simp
  then show ?case using Cons.IH [OF e(1) ops(2) live] e(2) by (simp add: a)
qed simp

text \<open>C2: Stores converge: two stores that received the same operations, in any order, in any batches and with any repetitions, hold the same
rows in every collection of every database (as long as two operations on one row with the same timestamp do the same).\<close>

theorem stores_converge:
  assumes "rows_not_pooled options" and "set (concat as) = set (concat bs)" and "\<forall>op \<in> set (concat as). op_ok op"
    and "\<forall>p \<in> set (concat as). \<forall>q \<in> set (concat as). op_key p = op_key q \<and> op_time p = op_time q \<longrightarrow> op_content p = op_content q"
  shows "store_cells h (received h options as) = store_cells h (received h options bs)"
proof
  fix k
  note new = new_whole [OF assms(1), of h]
  define s where "s = newStore (ObjectEngine (newObjectRowStore h options)) None"
  have live: "live_op s op" for op by (simp add: s_def live_op_def newStore_def isDatabaseDeleted_def isCollectionDeleted_def)
  have cells: "store_cells h (received h options batches) = foldl op_put (store_cells h s) (concat batches)"
    if "\<forall>op \<in> set (concat batches). op_ok op" for batches
    using batches_cells [OF new(1) _ live [unfolded s_def], of batches] that by (simp add: received_def s_def)
  have init: "fst (store_cells h s k) = None" using new(2) by (simp add: s_def)
  have conv: "fst (foldl op_put (store_cells h s) (concat as) k) = fst (foldl op_put (store_cells h s) (concat bs) k) \<and>
      (\<forall>p \<in> set (concat as). op_key p = k \<longrightarrow>
         snd (foldl op_put (store_cells h s) (concat as) k) = snd (foldl op_put (store_cells h s) (concat bs) k))"
    by (rule cells_lww.lww_convergence [where s = "store_cells h s" and ps = "concat as" and qs = "concat bs" and k = k, OF TrueI assms(2,3,4) init])
  have none: "foldl op_put f ps k = f k" if "\<forall>p \<in> set ps. op_key p \<noteq> k" for f ps
    using that by (induction ps arbitrary: f) (auto simp: op_put_def cell_put_def)
  have "foldl op_put (store_cells h s) (concat as) k = foldl op_put (store_cells h s) (concat bs) k"
  proof (cases "\<exists>p \<in> set (concat as). op_key p = k")
    case True
    then show ?thesis using conv by (auto simp: prod_eq_iff)
  next
    case False
    then have "\<forall>p \<in> set (concat as). op_key p \<noteq> k" "\<forall>p \<in> set (concat bs). op_key p \<noteq> k" using assms(2) by blast+
    then show ?thesis by (simp only: none)
  qed
  then show "store_cells h (received h options as) k = store_cells h (received h options bs) k"
    using cells [of as] cells [of bs] assms(2,3) by simp
qed

definition op_one :: rop where
  "op_one = \<lparr>op_kind = ''putObj'', op_db = ''d'', op_coll = ''c'', op_id = ''1'', op_value = JObj [(''n'', JBool True)],
     op_ts = Some \<lparr>tc = 1, tn = ''x''\<rparr>, op_shard = JUndef, op_from = ''x'', op_seq = 1\<rparr>"

definition op_two :: rop where
  "op_two = \<lparr>op_kind = ''delObj'', op_db = ''d'', op_coll = ''c'', op_id = ''1'', op_value = JUndef,
     op_ts = Some \<lparr>tc = 1, tn = ''y''\<rparr>, op_shard = JUndef, op_from = ''y'', op_seq = 1\<rparr>"

theorem stores_converge_witness:
  "store_cells plain_host (received plain_host [] [[op_one], [op_two, op_one]]) = store_cells plain_host (received plain_host [] [[op_two, op_one]])"
  by (rule stores_converge)
    (auto simp: rows_not_pooled_def oget_def op_one_def op_two_def op_ok_def plain_name_def NUL_def char_of_def op_time_def)

end
