(* ===== verification/ShardMap.thy ===== *)
theory ShardMap
  imports JsText
begin

text \<open>
  src/src/shard-map.js: the map that says into which shards the objects are partitioned and which peers hold each shard. A map comes in
  as JSON (\<open>jsv\<close>) and is normalised and validated into the record \<open>shard_map\<close>; \<open>map_json\<close> is that record as the JavaScript object it is.
  A change of the number of shards is published as a topology that is resharding and names the shards it comes from, and finalised
  later. The random id is an argument. \<open>shard_dir\<close> is the state of the class \<open>ShardMap\<close>, which places the objects.

  A peer is a JSON object; the functions that a peer object may carry are not part of it.
\<close>

datatype map_error =
    NoTopLevelShards
  | UnsupportedVersion
  | UnsupportedPartitioner
  | UnsupportedState
  | NoTopologyId
  | ActiveWithSource
  | NoSource
  | ShardOverlap string
  | UnfinishedResharding
  | TopologyChanged
  | NotIterable

definition GLOBAL_DATABASE :: string where
  "GLOBAL_DATABASE = ''*''"

definition GLOBAL_COLLECTION :: string where
  "GLOBAL_COLLECTION = ''*''"

definition DEFAULT_SHARD :: string where
  "DEFAULT_SHARD = ''default''"

definition SHARD_PARTITIONER :: string where
  "SHARD_PARTITIONER = ''fnv1a32-mod-v1''"

datatype topology_state = Active | Resharding

record topology_source =
  tsrc_id :: string
  tsrc_shards :: "string list"

record topology =
  tp_id :: string
  tp_state :: topology_state
  tp_partitioner :: string
  tp_source :: "topology_source option"

type_synonym shard_layout = "(string, jsv list) jmap"

text \<open>A normalised map; its version is always 2.\<close>

record shard_map =
  sm_topology :: topology
  sm_shards :: shard_layout

fun state_text :: "topology_state \<Rightarrow> string" where
  "state_text Active = ''active''"
| "state_text Resharding = ''resharding''"

subsection \<open>Normal form\<close>

text \<open>\<open>[...(config?.peers || [])]\<close>: a string is spread into its characters, what is not iterable throws.\<close>

definition cloneShard :: "jsv \<Rightarrow> map_error + jsv list" where
  "cloneShard config =
     (let peers = jprop config ''peers'' in
      if \<not> truthy peers then Inr []
      else (case peers of
              JArr xs \<Rightarrow> Inr xs
            | JStr s \<Rightarrow> Inr (map (\<lambda>c. JStr [c]) s)
            | _ \<Rightarrow> Inl NotIterable))"

definition cloneShards :: "jobj \<Rightarrow> map_error + shard_layout" where
  "cloneShards shards = res_map (\<lambda>(name, config). res_bind (cloneShard config) (\<lambda>peers. Inr (name, peers))) shards"

text \<open>\<open>shortHash\<close>: the hash of a text and of its reversal.\<close>

definition shortHash :: "string \<Rightarrow> string" where
  "shortHash s = hex8 (fnv1a s) @ hex8 (fnv1a (rev s))"

definition initialTopologyId :: "string list \<Rightarrow> string \<Rightarrow> string" where
  "initialTopologyId names partitioner =
     ''t-'' @ shortHash (''initial|'' @ partitioner @ ''|'' @ join_with ''|'' names)"

text \<open>
  \<open>normalizeTopology\<close> followed by \<open>validateTopology\<close>. The partitioner and the state are JSON until they are checked; the id is read by
  \<open>String\<close>. The checks stand in the order of the code.
\<close>

definition source_of :: "host \<Rightarrow> jsv \<Rightarrow> map_error + topology_source" where
  "source_of h src =
     (let rid = jprop src ''id''; names = jprop src ''shards'';
          sid = (if truthy rid then js_to_string h rid else [])
      in if \<not> truthy names then Inr \<lparr>tsrc_id = sid, tsrc_shards = []\<rparr>
         else (case names of
                 JArr xs \<Rightarrow> Inr \<lparr>tsrc_id = sid, tsrc_shards = sort (js_unique (map (js_to_string h) xs))\<rparr>
               | _ \<Rightarrow> Inl NotIterable))"

record raw_topology =
  rt_id :: string
  rt_state :: jsv
  rt_partitioner :: jsv
  rt_source :: "topology_source option"

definition normalizeTopology :: "host \<Rightarrow> jsv \<Rightarrow> string list \<Rightarrow> map_error + raw_topology" where
  "normalizeTopology h topology names =
     (let partitioner = (if truthy (jprop topology ''partitioner'') then jprop topology ''partitioner'' else JStr SHARD_PARTITIONER);
          tid = (if truthy (jprop topology ''id'') then js_to_string h (jprop topology ''id'')
                 else initialTopologyId names (js_to_string h partitioner));
          state = (if truthy (jprop topology ''state'') then jprop topology ''state'' else JStr (state_text Active));
          src = jprop topology ''source''
      in if truthy src
         then res_bind (source_of h src) (\<lambda>s. Inr \<lparr>rt_id = tid, rt_state = state, rt_partitioner = partitioner, rt_source = Some s\<rparr>)
         else Inr \<lparr>rt_id = tid, rt_state = state, rt_partitioner = partitioner, rt_source = None\<rparr>)"

definition validateTopology :: "raw_topology \<Rightarrow> string list \<Rightarrow> map_error + topology" where
  "validateTopology t names =
     (if rt_id t = [] then Inl NoTopologyId
      else if rt_partitioner t \<noteq> JStr SHARD_PARTITIONER then Inl UnsupportedPartitioner
      else if rt_state t = JStr (state_text Active) then
        (if rt_source t \<noteq> None then Inl ActiveWithSource
         else Inr \<lparr>tp_id = rt_id t, tp_state = Active, tp_partitioner = SHARD_PARTITIONER, tp_source = None\<rparr>)
      else if rt_state t \<noteq> JStr (state_text Resharding) then Inl UnsupportedState
      else (case rt_source t of
              None \<Rightarrow> Inl NoSource
            | Some src \<Rightarrow>
                if tsrc_id src = [] \<or> tsrc_shards src = [] then Inl NoSource
                else (case find (\<lambda>shard. shard \<in> set names) (tsrc_shards src) of
                        Some shard \<Rightarrow> Inl (ShardOverlap shard)
                      | None \<Rightarrow> Inr \<lparr>tp_id = rt_id t, tp_state = Resharding, tp_partitioner = SHARD_PARTITIONER, tp_source = Some src\<rparr>)))"

definition shards_value :: "jsv \<Rightarrow> map_error + jobj" where
  "shards_value m = (case jprop m ''shards'' of JObj shards \<Rightarrow> Inr shards | _ \<Rightarrow> Inl NoTopLevelShards)"

definition normalizeShardMap :: "host \<Rightarrow> jsv \<Rightarrow> map_error + shard_map" where
  "normalizeShardMap h m =
     res_bind (shards_value m) (\<lambda>raw.
       if jprop m ''version'' \<noteq> JUndef \<and> js_to_number h (jprop m ''version'') \<notin> {Fin 1, Fin 2} then Inl UnsupportedVersion
       else res_bind (cloneShards raw) (\<lambda>shards.
         let names = sort (jm_keys shards) in
         res_bind (normalizeTopology h (jprop m ''topology'') names) (\<lambda>t.
         res_bind (validateTopology t names) (\<lambda>topology.
           Inr \<lparr>sm_topology = topology, sm_shards = shards\<rparr>))))"

text \<open>The record as the object it stands for.\<close>

definition topology_json :: "topology \<Rightarrow> jsv" where
  "topology_json t =
     JObj ([(''id'', JStr (tp_id t)), (''state'', JStr (state_text (tp_state t))), (''partitioner'', JStr (tp_partitioner t))] @
       (case tp_source t of
          None \<Rightarrow> []
        | Some s \<Rightarrow> [(''source'', JObj [(''id'', JStr (tsrc_id s)), (''shards'', JArr (map JStr (tsrc_shards s)))])]))"

definition map_json :: "shard_map \<Rightarrow> jsv" where
  "map_json m =
     JObj [(''version'', JNum (Fin 2)), (''topology'', topology_json (sm_topology m)),
           (''shards'', JObj (map (\<lambda>(name, peers). (name, JObj [(''peers'', JArr peers)])) (sm_shards m)))]"

subsection \<open>Publishing\<close>

definition normalizeDesiredShardMap :: "host \<Rightarrow> jsv \<Rightarrow> string \<Rightarrow> map_error + shard_map" where
  "normalizeDesiredShardMap h m fallback =
     res_bind (shards_value m) (\<lambda>raw.
     res_bind (cloneShards raw) (\<lambda>shards.
       let topology = jprop m ''topology'';
           asked = jprop topology ''partitioner'';
           partitioner = (if truthy asked then asked else if fallback \<noteq> [] then JStr fallback else JStr SHARD_PARTITIONER)
       in if partitioner \<noteq> JStr SHARD_PARTITIONER then Inl UnsupportedPartitioner
          else Inr \<lparr>sm_topology = \<lparr>tp_id = (if truthy (jprop topology ''id'') then js_to_string h (jprop topology ''id'') else ''desired''),
                                  tp_state = Active, tp_partitioner = SHARD_PARTITIONER, tp_source = None\<rparr>,
                    sm_shards = shards\<rparr>))"

definition partitionSignature :: "shard_map \<Rightarrow> string \<times> nat" where
  "partitionSignature m = (tp_partitioner (sm_topology m), length (sm_shards m))"

text \<open>The signature as the text the code makes of it, \<open>n\<close> in decimal.\<close>

definition signature_text :: "string \<times> nat \<Rightarrow> string" where
  "signature_text sig = fst sig @ '':'' @ nat_digits (Suc (snd sig)) (snd sig)"

definition transitionTopologyId :: "string \<Rightarrow> string \<Rightarrow> string \<Rightarrow> string" where
  "transitionTopologyId uuid sourceId signature =
     ''t-'' @ take 8 (shortHash (sourceId @ ''|'' @ signature)) @ ''-'' @ take 12 (filter (\<lambda>c. c \<noteq> CHR ''-'') uuid)"

definition pad_start :: "nat \<Rightarrow> char \<Rightarrow> string \<Rightarrow> string" where
  "pad_start n c s = replicate (n - length s) c @ s"

definition topologyShardName :: "string \<Rightarrow> nat \<Rightarrow> string" where
  "topologyShardName topologyId index = topologyId @ ''-s'' @ pad_start 4 CHR ''0'' (nat_digits (Suc index) index)"

text \<open>
  \<open>assignPeerLayout\<close>: the peers of the desired shards go to the target names, by name when the names are the same and in order when
  they are not; a target past the desired shards gets no peers.
\<close>

definition assignPeerLayout :: "host \<Rightarrow> string list \<Rightarrow> shard_layout \<Rightarrow> shard_layout" where
  "assignPeerLayout h names desired =
     (let entries = js_sort (\<lambda>a b. localeCompare h (fst a) (fst b)) desired;
          exact = (length names = length entries \<and> list_all (jm_has desired) names);
          targets = sort names
      in foldl (\<lambda>out (name, peers). jm_set name peers out) []
           (map (\<lambda>i. (targets ! i,
                       if exact then (case jm_get desired (targets ! i) of None \<Rightarrow> [] | Some peers \<Rightarrow> peers)
                       else if i < length entries then snd (entries ! i) else []))
              [0..<length targets]))"

text \<open>\<open>Object.keys(currentMap.shards || {}).length\<close> is 0.\<close>

definition no_keys :: "jsv \<Rightarrow> bool" where
  "no_keys v = (case v of JObj kvs \<Rightarrow> kvs = [] | JArr xs \<Rightarrow> xs = [] | JStr s \<Rightarrow> s = [] | _ \<Rightarrow> True)"

definition publishShardMap :: "host \<Rightarrow> string \<Rightarrow> jsv \<Rightarrow> jsv \<Rightarrow> map_error + shard_map" where
  "publishShardMap h uuid currentMap desiredMap =
     (if \<not> truthy currentMap \<or> no_keys (jprop currentMap ''shards'') then normalizeShardMap h desiredMap
      else
        res_bind (normalizeShardMap h currentMap) (\<lambda>current.
        res_bind (normalizeDesiredShardMap h desiredMap (tp_partitioner (sm_topology current))) (\<lambda>desired.
          if tp_state (sm_topology current) = Resharding then
            (if partitionSignature current \<noteq> partitionSignature desired then Inl UnfinishedResharding
             else Inr (current\<lparr>sm_shards := assignPeerLayout h (jm_keys (sm_shards current)) (sm_shards desired)\<rparr>))
          else if partitionSignature current = partitionSignature desired then
            Inr (current\<lparr>sm_shards := assignPeerLayout h (jm_keys (sm_shards current)) (sm_shards desired)\<rparr>)
          else
            let topologyId = transitionTopologyId uuid (tp_id (sm_topology current)) (signature_text (partitionSignature desired));
                targets = map (topologyShardName topologyId) [0..<length (sm_shards desired)]
            in Inr \<lparr>sm_topology = \<lparr>tp_id = topologyId, tp_state = Resharding, tp_partitioner = tp_partitioner (sm_topology desired),
                       tp_source = Some \<lparr>tsrc_id = tp_id (sm_topology current), tsrc_shards = sort (jm_keys (sm_shards current))\<rparr>\<rparr>,
                     sm_shards = assignPeerLayout h targets (sm_shards desired)\<rparr>)))"

definition finalizeShardMap :: "host \<Rightarrow> jsv \<Rightarrow> string option \<Rightarrow> map_error + shard_map" where
  "finalizeShardMap h m expected =
     res_bind (normalizeShardMap h m) (\<lambda>normalized.
       if (case expected of None \<Rightarrow> False | Some t \<Rightarrow> t \<noteq> [] \<and> tp_id (sm_topology normalized) \<noteq> t) then Inl TopologyChanged
       else if tp_state (sm_topology normalized) \<noteq> Resharding then Inr normalized
       else Inr (normalized\<lparr>sm_topology := (sm_topology normalized)\<lparr>tp_state := Active, tp_source := None\<rparr>\<rparr>))"

definition isTopologyResharding :: "shard_map \<Rightarrow> bool" where
  "isTopologyResharding m \<longleftrightarrow> tp_state (sm_topology m) = Resharding"

definition topologySourceShards :: "shard_map \<Rightarrow> string list" where
  "topologySourceShards m =
     (if isTopologyResharding m then (case tp_source (sm_topology m) of None \<Rightarrow> [] | Some s \<Rightarrow> tsrc_shards s) else [])"

subsection \<open>The class ShardMap\<close>

text \<open>\<open>peer.url || peer.nodeId || peer.key\<close>.\<close>

definition peerKey :: "jsv \<Rightarrow> jsv" where
  "peerKey peer =
     (if truthy (jprop peer ''url'') then jprop peer ''url''
      else if truthy (jprop peer ''nodeId'') then jprop peer ''nodeId'' else jprop peer ''key'')"

record shard_dir =
  sd_shards :: "(string, (jsv, jsv) jmap) jmap"
  sd_topology :: "topology option"

definition newShardDir :: shard_dir where
  "newShardDir = \<lparr>sd_shards = [], sd_topology = None\<rparr>"

definition ensureShard :: "string \<Rightarrow> shard_dir \<Rightarrow> shard_dir" where
  "ensureShard shard d = (if jm_has (sd_shards d) shard then d else d\<lparr>sd_shards := jm_set shard [] (sd_shards d)\<rparr>)"

definition getShard :: "shard_dir \<Rightarrow> string \<Rightarrow> (jsv, jsv) jmap" where
  "getShard d shard = (case jm_get (sd_shards d) shard of None \<Rightarrow> [] | Some peers \<Rightarrow> peers)"

text \<open>\<open>addPeer\<close> answers the peer that is kept under the key, which is the old one when there is one.\<close>

definition addPeer :: "string \<Rightarrow> jsv \<Rightarrow> shard_dir \<Rightarrow> jsv \<times> shard_dir" where
  "addPeer shard peer d =
     (let d1 = ensureShard shard d in
      case jm_get (getShard d1 shard) (peerKey peer) of
        Some existing \<Rightarrow> (existing, d1)
      | None \<Rightarrow> (peer, d1\<lparr>sd_shards := jm_set shard (jm_set (peerKey peer) peer (getShard d1 shard)) (sd_shards d1)\<rparr>))"

definition removePeer :: "string \<Rightarrow> jsv \<Rightarrow> shard_dir \<Rightarrow> bool \<times> shard_dir" where
  "removePeer shard peer d =
     (case jm_get (sd_shards d) shard of
        None \<Rightarrow> (False, d)
      | Some peers \<Rightarrow> (jm_has peers (peerKey peer), d\<lparr>sd_shards := jm_set shard (jm_del (peerKey peer) peers) (sd_shards d)\<rparr>))"

definition replaceMap :: "host \<Rightarrow> jsv \<Rightarrow> shard_dir \<Rightarrow> map_error + shard_dir" where
  "replaceMap h m d =
     res_bind (normalizeShardMap h m) (\<lambda>normalized.
       Inr (foldl (\<lambda>d (shard, peers). foldl (\<lambda>d peer. snd (addPeer shard peer d)) (ensureShard shard d) peers)
              \<lparr>sd_shards = [], sd_topology = Some (sm_topology normalized)\<rparr> (sm_shards normalized)))"

text \<open>\<open>uniquePeers\<close>: the last peer under each key, in the place of the first.\<close>

definition uniquePeers :: "jsv list \<Rightarrow> jsv list" where
  "uniquePeers peers = jm_vals (foldl (\<lambda>out peer. jm_set (peerKey peer) peer out) [] peers)"

definition peersFor :: "shard_dir \<Rightarrow> string \<Rightarrow> jsv list" where
  "peersFor d shard = uniquePeers (jm_vals (getShard d DEFAULT_SHARD) @ jm_vals (getShard d shard))"

definition allPeers :: "shard_dir \<Rightarrow> jsv list" where
  "allPeers d = uniquePeers (concat (map jm_vals (jm_vals (sd_shards d))))"

definition shardsForCollection :: "shard_dir \<Rightarrow> string list" where
  "shardsForCollection d = sort (jm_keys (sd_shards d))"

definition shardForObject :: "shard_dir \<Rightarrow> string \<Rightarrow> string" where
  "shardForObject d key =
     (let shards = shardsForCollection d in
      if shards = [] then DEFAULT_SHARD else shards ! (unat (fnv1a key) mod length shards))"

text \<open>The targets \<open>syncTargets\<close> names, all of them of the global database and collection.\<close>

definition syncTargets :: "shard_dir \<Rightarrow> (string \<times> jsv list) list" where
  "syncTargets d = map (\<lambda>(shard, peers). (shard, jm_vals peers)) (sd_shards d)"

definition describePeer :: "jsv \<Rightarrow> jsv" where
  "describePeer peer =
     JObj ((if truthy (jprop peer ''url'') then [(''url'', jprop peer ''url'')] else []) @
           (if truthy (jprop peer ''nodeId'') then [(''nodeId'', jprop peer ''nodeId'')] else []) @
           (if truthy (jprop peer ''key'') \<and> \<not> truthy (jprop peer ''url'') then [(''key'', jprop peer ''key'')] else []))"

definition dirSnapshot :: "shard_dir \<Rightarrow> jsv" where
  "dirSnapshot d =
     JObj [(''version'', JNum (Fin 2)),
           (''topology'', (case sd_topology d of None \<Rightarrow> JNull | Some t \<Rightarrow> topology_json t)),
           (''shards'', JObj (map (\<lambda>(shard, peers). (shard, JObj [(''peers'', JArr (map describePeer (jm_vals peers)))])) (sd_shards d)))]"

subsection \<open>The normal form\<close>

lemma res_map_keys:
  assumes "res_map (\<lambda>(name, config). res_bind (f config) (\<lambda>peers. Inr (name, peers))) xs = Inr ys"
  shows "map fst ys = map fst xs"
  using assms
proof (induction xs arbitrary: ys)
  case (Cons x xs)
  obtain name config where x: "x = (name, config)" by (cases x)
  with Cons show ?case by (auto simp: res_bind_Inr)
qed simp

lemma cloneShards_keys: "cloneShards raw = Inr shards \<Longrightarrow> jm_keys shards = jm_keys raw"
  unfolding cloneShards_def by (rule res_map_keys)

lemma cloneShards_json: "cloneShards (map (\<lambda>(name, peers). (name, JObj [(''peers'', JArr peers)])) shards) = Inr shards"
  unfolding cloneShards_def by (induction shards) (auto simp: cloneShard_def oget_def)

definition normal_source :: "topology_source \<Rightarrow> string list \<Rightarrow> bool" where
  "normal_source s names \<longleftrightarrow> tsrc_id s \<noteq> [] \<and> tsrc_shards s \<noteq> [] \<and> sorted (tsrc_shards s) \<and> distinct (tsrc_shards s) \<and>
     set (tsrc_shards s) \<inter> set names = {}"

definition normal_topology :: "topology \<Rightarrow> string list \<Rightarrow> bool" where
  "normal_topology t names \<longleftrightarrow> tp_id t \<noteq> [] \<and> tp_partitioner t = SHARD_PARTITIONER \<and>
     (case tp_state t of Active \<Rightarrow> tp_source t = None | Resharding \<Rightarrow> \<exists>s. tp_source t = Some s \<and> normal_source s names)"

definition normal_map :: "shard_map \<Rightarrow> bool" where
  "normal_map m \<longleftrightarrow> normal_topology (sm_topology m) (jm_keys (sm_shards m))"

lemma source_sorted: "source_of h v = Inr s \<Longrightarrow> sorted (tsrc_shards s) \<and> distinct (tsrc_shards s)"
  by (auto simp: source_of_def Let_def split: if_splits jsv.splits)

lemma validate_normal:
  assumes "validateTopology t names = Inr topology"
    and "\<forall>s. rt_source t = Some s \<longrightarrow> sorted (tsrc_shards s) \<and> distinct (tsrc_shards s)"
  shows "normal_topology topology names"
  using assms
  by (auto simp: validateTopology_def normal_topology_def normal_source_def find_None_iff disjoint_iff split: if_splits option.splits)

lemma normalize_source:
  assumes "normalizeTopology h v names = Inr t" and "rt_source t = Some s"
  shows "sorted (tsrc_shards s) \<and> distinct (tsrc_shards s)"
  using assms source_sorted by (auto simp: normalizeTopology_def Let_def res_bind_Inr split: if_splits)

lemma normalize_normal:
  assumes "normalizeShardMap h v = Inr m"
  shows "normal_map m"
proof -
  obtain raw shards t topology where parts: "cloneShards raw = Inr shards"
      "normalizeTopology h (jprop v ''topology'') (sort (jm_keys shards)) = Inr t"
      "validateTopology t (sort (jm_keys shards)) = Inr topology" "m = \<lparr>sm_topology = topology, sm_shards = shards\<rparr>"
    using assms by (auto simp: normalizeShardMap_def res_bind_Inr Let_def split: if_splits)
  have "normal_topology topology (sort (jm_keys shards))"
    using normalize_source [OF parts(2)] by (intro validate_normal [OF parts(3)]) blast
  then show ?thesis by (simp add: parts(4) normal_map_def normal_topology_def normal_source_def cong: topology_state.case_cong)
qed

lemma normalize_shards:
  "normalizeShardMap h v = Inr m \<Longrightarrow> \<exists>kvs. jprop v ''shards'' = JObj kvs \<and> jm_keys (sm_shards m) = jm_keys kvs"
  by (auto simp: normalizeShardMap_def shards_value_def res_bind_Inr Let_def cloneShards_keys split: if_splits jsv.splits)

lemma normalize_keys:
  assumes "normalizeShardMap h v = Inr m" shows "jm_keys (sm_shards m) = jm_keys (entries_of (jprop v ''shards''))"
  using normalize_shards [OF assms] by (elim exE conjE) simp

lemma normalize_some:
  assumes "normalizeShardMap h v = Inr m" and "\<not> no_keys (jprop v ''shards'')" shows "entries_of (jprop v ''shards'') \<noteq> []"
  using normalize_shards [OF assms(1)] assms(2) by (elim exE conjE) (simp add: no_keys_def)

lemma strings_of: "map (js_to_string h) (map JStr xs) = xs"
  by (induction xs) auto

lemma source_json:
  assumes "normal_source s names"
  shows "source_of h (JObj [(''id'', JStr (tsrc_id s)), (''shards'', JArr (map JStr (tsrc_shards s)))]) = Inr s"
  using assms by (simp add: source_of_def normal_source_def oget_def strings_of js_unique_id sorted_sort_id del: map_map)

lemma normalize_json:
  assumes "normal_map m"
  shows "normalizeShardMap h (map_json m) = Inr m"
proof -
  have raw: "shards_value (map_json m) = Inr (map (\<lambda>(name, peers). (name, JObj [(''peers'', JArr peers)])) (sm_shards m))"
    "jprop (map_json m) ''version'' = JNum (Fin 2)" "jprop (map_json m) ''topology'' = topology_json (sm_topology m)"
    by (simp_all add: shards_value_def map_json_def oget_def)
  have topology: "normal_topology (sm_topology m) (sort (jm_keys (sm_shards m)))"
    using assms by (simp add: normal_map_def normal_topology_def normal_source_def cong: topology_state.case_cong)
  have "res_bind (normalizeTopology h (topology_json (sm_topology m)) (sort (jm_keys (sm_shards m))))
      (\<lambda>t. validateTopology t (sort (jm_keys (sm_shards m)))) = Inr (sm_topology m)"
  proof (cases "tp_state (sm_topology m)")
    case Active
    then show ?thesis using topology
      by (cases "sm_topology m") (simp add: normal_topology_def normalizeTopology_def topology_json_def validateTopology_def oget_def
          SHARD_PARTITIONER_def)
  next
    case Resharding
    then obtain s where s: "tp_source (sm_topology m) = Some s" "normal_source s (sort (jm_keys (sm_shards m)))"
      using topology by (auto simp: normal_topology_def)
    moreover have "find (\<lambda>shard. shard \<in> fst ` set (sm_shards m)) (tsrc_shards s) = None"
      using s(2) by (auto simp: normal_source_def find_None_iff)
    ultimately show ?thesis using topology Resharding source_json [OF s(2)]
      by (cases "sm_topology m") (simp add: normal_topology_def normalizeTopology_def topology_json_def validateTopology_def oget_def
          SHARD_PARTITIONER_def normal_source_def)
  qed
  then show ?thesis by (auto simp: normalizeShardMap_def raw cloneShards_json Let_def res_bind_Inr)
qed

subsection \<open>Names of the shards of a published map\<close>

lemma keys_from_pairs: "jm_keys (foldl (\<lambda>out (name, peers). jm_set name peers out) acc xs) = js_unique_acc (jm_keys acc) (map fst xs)"
  by (induction xs arbitrary: acc) (auto simp: keys_set)

lemma assign_keys: "jm_keys (assignPeerLayout h names desired) = js_unique (sort names)"
proof -
  have "map (\<lambda>i. sort names ! i) [0..<length (sort names)] = sort names" by (rule map_nth)
  then show ?thesis by (simp add: assignPeerLayout_def Let_def keys_from_pairs js_unique_def comp_def del: map_nth)
qed

lemma digits_snoc: "digits_value (s @ [c]) = 10 * digits_value s + (of_char c - 48)"
  by (simp add: digits_value_def)

lemma digits_of_nat: "n < 10 ^ fuel \<Longrightarrow> digits_value (nat_digits fuel n) = n"
proof (induction fuel arbitrary: n)
  case (Suc fuel)
  then have "n div 10 < 10 ^ fuel" by (simp add: div_less_iff_less_mult mult.commute)
  with Suc.IH show ?case by (auto simp: digits_snoc of_char_of digits_value_def [of "[x]" for x])
qed (simp add: digits_value_def)

lemma digits_pad: "digits_value (pad_start n CHR ''0'' s) = digits_value s"
proof -
  have "digits_value (replicate k CHR ''0'' @ s) = digits_value s" for k
    by (induction k) (simp_all add: digits_value_def)
  then show ?thesis by (simp add: pad_start_def)
qed

lemma nat_below_power: "n < 10 ^ Suc n"
proof (induction n)
  case (Suc n)
  then show ?case unfolding power_Suc [of _ "Suc n"] by linarith
qed simp

lemma shard_name_inj: "topologyShardName t i = topologyShardName t j \<Longrightarrow> i = j"
proof -
  assume "topologyShardName t i = topologyShardName t j"
  then have "digits_value (nat_digits (Suc i) i) = digits_value (nat_digits (Suc j) j)"
    unfolding topologyShardName_def append_assoc [symmetric] same_append_eq by (metis digits_pad)
  then show "i = j" by (simp only: digits_of_nat [OF nat_below_power])
qed

lemma contains_middle: "contains_str p (xs @ p @ ys)"
proof (induction xs)
  case Nil
  then show ?case
  proof (cases "p @ ys")
    case (Cons c cs)
    then have "starts_with p (c # cs)" by (metis starts_with_append)
    then show ?thesis using Cons by simp
  qed simp
qed simp

definition entropy :: "string \<Rightarrow> string" where
  "entropy uuid = take 12 (filter (\<lambda>c. c \<noteq> CHR ''-'') uuid)"

lemma new_name_entropy: "contains_str (entropy uuid) (topologyShardName (transitionTopologyId uuid source sig) i)"
proof -
  have "topologyShardName (transitionTopologyId uuid source sig) i = (''t-'' @ take 8 (shortHash (source @ ''|'' @ sig)) @ ''-'') @
      entropy uuid @ (''-s'' @ pad_start 4 CHR ''0'' (nat_digits (Suc i) i))"
    by (simp add: topologyShardName_def transitionTopologyId_def entropy_def)
  then show ?thesis by (simp only: contains_middle)
qed

lemma sort_empty: "sort xs = [] \<longleftrightarrow> xs = []"
  by (cases "xs = []") (simp_all only: length_0_conv [symmetric] length_sort)

lemma new_id_not_empty: "transitionTopologyId uuid source sig \<noteq> []"
  by (simp add: transitionTopologyId_def)

text \<open>The three ways a map is published: as the first one, in the partition there is, as a new topology.\<close>

lemma publish_cases:
  assumes "publishShardMap h uuid current desired = Inr m"
  obtains (first) "\<not> truthy current \<or> no_keys (jprop current ''shards'')" "normalizeShardMap h desired = Inr m"
  | (same) cur :: shard_map and des :: shard_map where "\<not> no_keys (jprop current ''shards'')" "normalizeShardMap h current = Inr cur"
      "length (sm_shards cur) = length (sm_shards des)" "jm_keys (sm_shards des) = jm_keys (entries_of (jprop desired ''shards''))"
      "m = cur\<lparr>sm_shards := assignPeerLayout h (jm_keys (sm_shards cur)) (sm_shards des)\<rparr>"
  | (change) cur :: shard_map and des :: shard_map and t where "\<not> no_keys (jprop current ''shards'')" "normalizeShardMap h current = Inr cur"
      "jm_keys (sm_shards des) = jm_keys (entries_of (jprop desired ''shards''))"
      "tp_state (sm_topology cur) = Active" "t = transitionTopologyId uuid (tp_id (sm_topology cur)) (signature_text (partitionSignature des))"
      "m = \<lparr>sm_topology = \<lparr>tp_id = t, tp_state = Resharding, tp_partitioner = SHARD_PARTITIONER,
                 tp_source = Some \<lparr>tsrc_id = tp_id (sm_topology cur), tsrc_shards = sort (jm_keys (sm_shards cur))\<rparr>\<rparr>,
             sm_shards = assignPeerLayout h (map (topologyShardName t) [0..<length (sm_shards des)]) (sm_shards des)\<rparr>"
proof (cases "\<not> truthy current \<or> no_keys (jprop current ''shards'')")
  case True
  then show ?thesis using assms first by (simp add: publishShardMap_def)
next
  case False
  then obtain cur des where parts: "normalizeShardMap h current = Inr cur"
      "normalizeDesiredShardMap h desired (tp_partitioner (sm_topology cur)) = Inr des"
    using assms by (auto simp: publishShardMap_def res_bind_Inr)
  have des: "jm_keys (sm_shards des) = jm_keys (entries_of (jprop desired ''shards''))"
      "tp_partitioner (sm_topology des) = SHARD_PARTITIONER"
    using parts(2) by (auto simp: normalizeDesiredShardMap_def shards_value_def res_bind_Inr Let_def cloneShards_keys split: if_splits jsv.splits)
  show ?thesis
  proof (cases "partitionSignature cur = partitionSignature des")
    case True
    then have "m = cur\<lparr>sm_shards := assignPeerLayout h (jm_keys (sm_shards cur)) (sm_shards des)\<rparr>"
      using assms False parts by (auto simp: publishShardMap_def split: if_splits)
    moreover have "length (sm_shards cur) = length (sm_shards des)" using True by (simp add: partitionSignature_def)
    ultimately show ?thesis using False parts(1) des(1) by (intro same [of cur des]) blast+
  next
    case neq: False
    with assms False parts have "tp_state (sm_topology cur) = Active"
      by (cases "tp_state (sm_topology cur)") (auto simp: publishShardMap_def split: if_splits)
    with assms False parts neq des show ?thesis
      by (intro change) (auto simp: publishShardMap_def Let_def split: if_splits)
  qed
qed

lemma normal_keys:
  assumes "normal_map cur" and "set (jm_keys shards) = set (jm_keys (sm_shards cur))"
  shows "normal_map (cur\<lparr>sm_shards := shards\<rparr>)"
  using assms by (simp add: normal_map_def normal_topology_def normal_source_def cong: topology_state.case_cong)

lemma publish_normal:
  assumes "publishShardMap h uuid current desired = Inr m" and "jm_ok (entries_of (jprop current ''shards''))"
    and "\<forall>name \<in> set (jm_keys (entries_of (jprop current ''shards''))). \<not> contains_str (entropy uuid) name"
  shows "normal_map m"
  using assms(1)
proof (cases rule: publish_cases)
  case first
  then show ?thesis by (simp add: normalize_normal)
next
  case (same cur des)
  have names: "set (jm_keys (assignPeerLayout h (jm_keys (sm_shards cur)) (sm_shards des))) = set (jm_keys (sm_shards cur))"
    by (simp only: assign_keys set_js_unique set_sort)
  have cur: "normal_map cur" by (rule normalize_normal [OF same(2)])
  show ?thesis unfolding same(5) by (rule normal_keys [OF cur names])
next
  case (change cur des t)
  note keys = normalize_keys [OF change(2)]
  have "sort (jm_keys (sm_shards cur)) \<noteq> []" using normalize_some [OF change(2,1)] by (simp add: keys sort_empty)
  moreover have "set (jm_keys (sm_shards cur)) \<inter> set (map (topologyShardName t) [0..<length (sm_shards des)]) = {}"
  proof -
    have "topologyShardName t i \<notin> set (jm_keys (sm_shards cur))" for i
      using assms(3) new_name_entropy unfolding keys change(5) by blast
    then have "x \<notin> topologyShardName t ` A" if "x \<in> set (jm_keys (sm_shards cur))" for x A using that by blast
    then show ?thesis by (simp only: disjoint_iff set_map set_upt) blast
  qed
  moreover have "tp_id (sm_topology cur) \<noteq> []"
    using normalize_normal [OF change(2)] by (simp add: normal_map_def normal_topology_def)
  moreover have "t \<noteq> []" unfolding change(5) by (rule new_id_not_empty)
  moreover have "distinct (jm_keys (sm_shards cur))" using keys assms(2) by simp
  ultimately show ?thesis
    unfolding normal_map_def change(6) shard_map.simps assign_keys by (simp add: normal_topology_def normal_source_def)
qed

lemma publish_count:
  assumes "publishShardMap h uuid current desired = Inr m" and "jm_ok (entries_of (jprop current ''shards''))"
  shows "length (sm_shards m) = length (entries_of (jprop desired ''shards''))"
  using assms(1)
proof (cases rule: publish_cases)
  case first
  then show ?thesis using normalize_keys by (metis length_map)
next
  case (same cur des)
  have "distinct (jm_keys (sm_shards cur))" using normalize_keys [OF same(2)] assms(2) by simp
  then have "length (jm_keys (sm_shards m)) = length (jm_keys (sm_shards cur))"
    unfolding same(5) by (simp add: assign_keys js_unique_id)
  then show ?thesis using same(3,4) by (metis length_map)
next
  case (change cur des t)
  have "distinct (map (topologyShardName t) [0..<length (sm_shards des)])"
    using shard_name_inj by (simp add: distinct_map inj_on_def)
  then have "length (jm_keys (sm_shards m)) = length (sm_shards des)"
    unfolding change(6) by (simp only: shard_map.simps assign_keys js_unique_id distinct_sort length_sort length_map length_upt diff_zero)
  then show ?thesis using change(3) by (metis length_map)
qed

text \<open>C36: A published map is in normal form: every node that receives it reads the map that was published, it has as many shards as
asked for, and finalising it gives a map in normal form with the same shards that is no longer resharding (as long as the random part of
a new id occurs in no name of the current map).\<close>

theorem published_map_normal_form:
  assumes "publishShardMap h uuid current desired = Inr m"
    and "jm_ok (entries_of (jprop current ''shards''))"
    and "\<forall>name \<in> set (jm_keys (entries_of (jprop current ''shards''))). \<not> contains_str (entropy uuid) name"
  shows "normalizeShardMap h (map_json m) = Inr m \<and> length (sm_shards m) = length (entries_of (jprop desired ''shards'')) \<and>
    (\<exists>f. finalizeShardMap h (map_json m) (Some (tp_id (sm_topology m))) = Inr f \<and> normalizeShardMap h (map_json f) = Inr f \<and>
       sm_shards f = sm_shards m \<and> \<not> isTopologyResharding f)"
proof -
  have normal: "normal_map m" using publish_normal [OF assms] .
  note read = normalize_json [OF normal, of h]
  define f where "f = (if tp_state (sm_topology m) \<noteq> Resharding then m
      else m\<lparr>sm_topology := (sm_topology m)\<lparr>tp_state := Active, tp_source := None\<rparr>\<rparr>)"
  have "finalizeShardMap h (map_json m) (Some (tp_id (sm_topology m))) = Inr f"
    by (simp add: finalizeShardMap_def read f_def)
  moreover have "normal_map f"
    using normal by (cases "tp_state (sm_topology m)") (auto simp: f_def normal_map_def normal_topology_def)
  ultimately show ?thesis
    using read publish_count [OF assms(1,2)] normalize_json by (auto simp: f_def isTopologyResharding_def)
qed

definition one_shard :: jsv where
  "one_shard = JObj [(''topology'', JObj [(''id'', JStr ''t0'')]), (''shards'', JObj [(''a'', JObj [])])]"

definition two_shards :: jsv where
  "two_shards = JObj [(''shards'', JObj [(''a'', JObj []), (''b'', JObj [])])]"

lemma publish_two: "\<exists>m. publishShardMap plain_host ''12-34'' one_shard two_shards = Inr m"
  by (simp add: publishShardMap_def one_shard_def two_shards_def no_keys_def oget_def normalizeShardMap_def shards_value_def cloneShards_def
      cloneShard_def normalizeTopology_def validateTopology_def normalizeDesiredShardMap_def Let_def partitionSignature_def SHARD_PARTITIONER_def)

theorem published_map_normal_form_witness:
  "\<exists>m. publishShardMap plain_host ''12-34'' one_shard two_shards = Inr m \<and> normalizeShardMap plain_host (map_json m) = Inr m \<and>
     length (sm_shards m) = 2"
proof -
  obtain m where m: "publishShardMap plain_host ''12-34'' one_shard two_shards = Inr m" using publish_two by blast
  have "entropy ''12-34'' = ''1234''" by (simp add: entropy_def)
  then have "normalizeShardMap plain_host (map_json m) = Inr m \<and> length (sm_shards m) = length (entries_of (jprop two_shards ''shards''))"
    using published_map_normal_form [OF m] by (simp add: one_shard_def oget_def starts_with_def)
  then show ?thesis using m by (simp add: two_shards_def oget_def)
qed

subsection \<open>Placement\<close>

lemma names_set: "fst ` set (jm_set k v m) = insert k (fst ` set m)"
  using set_jm_keys_set [of k v m] by simp

lemma ensure_keys: "set (jm_keys (sd_shards (ensureShard shard d))) = insert shard (set (jm_keys (sd_shards d)))"
  by (auto simp: ensureShard_def names_set dest: map_of_SomeD intro: rev_image_eqI)

lemma ensure_ok: "jm_ok (sd_shards d) \<Longrightarrow> jm_ok (sd_shards (ensureShard shard d))"
  by (simp add: ensureShard_def)

lemma add_keys: "set (jm_keys (sd_shards (snd (addPeer shard peer d)))) = insert shard (set (jm_keys (sd_shards d)))"
  using ensure_keys [of shard d] by (simp add: addPeer_def Let_def names_set split: option.split)

lemma add_ok: "jm_ok (sd_shards d) \<Longrightarrow> jm_ok (sd_shards (snd (addPeer shard peer d)))"
  using ensure_ok [of d shard] by (simp add: addPeer_def Let_def split: option.split)

lemma add_all:
  "set (jm_keys (sd_shards (foldl (\<lambda>d peer. snd (addPeer shard peer d)) d peers))) =
     (if peers = [] then set (jm_keys (sd_shards d)) else insert shard (set (jm_keys (sd_shards d))))"
  "jm_ok (sd_shards d) \<Longrightarrow> jm_ok (sd_shards (foldl (\<lambda>d peer. snd (addPeer shard peer d)) d peers))"
  by (induction peers arbitrary: d) (simp_all only: foldl.simps if_True if_False list.simps(3) add_keys add_ok insert_absorb2 split: if_split, auto)

lemma replace_dir:
  assumes "replaceMap h v d = Inr d'"
  shows "\<exists>m. normalizeShardMap h v = Inr m \<and> set (jm_keys (sd_shards d')) = set (jm_keys (sm_shards m)) \<and> jm_ok (sd_shards d')"
proof -
  obtain m where m: "normalizeShardMap h v = Inr m"
    "d' = foldl (\<lambda>d (shard, peers). foldl (\<lambda>d peer. snd (addPeer shard peer d)) (ensureShard shard d) peers)
            \<lparr>sd_shards = [], sd_topology = Some (sm_topology m)\<rparr> (sm_shards m)"
    using assms by (auto simp: replaceMap_def res_bind_Inr)
  have "jm_ok (sd_shards e) \<Longrightarrow>
      set (jm_keys (sd_shards (foldl (\<lambda>d (shard, peers). foldl (\<lambda>d peer. snd (addPeer shard peer d)) (ensureShard shard d) peers) e xs))) =
        set (jm_keys (sd_shards e)) \<union> set (map fst xs) \<and>
      jm_ok (sd_shards (foldl (\<lambda>d (shard, peers). foldl (\<lambda>d peer. snd (addPeer shard peer d)) (ensureShard shard d) peers) e xs))"
    for e :: shard_dir and xs :: shard_layout
  proof (induction xs arbitrary: e)
    case (Cons x xs)
    obtain shard peers where x: "x = (shard, peers)" by (cases x)
    let ?e = "foldl (\<lambda>d peer. snd (addPeer shard peer d)) (ensureShard shard e) peers"
    have "jm_ok (sd_shards ?e)" using Cons.prems by (intro add_all(2) ensure_ok)
    moreover have "set (jm_keys (sd_shards ?e)) = insert shard (set (jm_keys (sd_shards e)))"
      by (simp only: add_all(1) ensure_keys insert_absorb2 if_cancel)
    ultimately show ?case using Cons.IH [of ?e] by (simp add: x)
  qed simp
  from this [of "\<lparr>sd_shards = [], sd_topology = Some (sm_topology m)\<rparr>" "sm_shards m"] m show ?thesis by auto
qed

lemma shards_sorted: "jm_ok (sd_shards d) \<Longrightarrow> shardsForCollection d = sorted_list_of_set (set (jm_keys (sd_shards d)))"
  unfolding shardsForCollection_def by (simp only: sorted_list_of_set_sort_remdups distinct_remdups_id)

text \<open>Where an object is placed depends on nothing but the names of the shards.\<close>

lemma placement_by_names:
  assumes "jm_ok (sd_shards a)" and "jm_ok (sd_shards b)" and "set (jm_keys (sd_shards a)) = set (jm_keys (sd_shards b))"
  shows "shardForObject a key = shardForObject b key"
  using assms by (simp add: shardForObject_def shards_sorted)

lemma placement_member:
  assumes "sd_shards d \<noteq> []"
  shows "shardForObject d key \<in> set (jm_keys (sd_shards d))"
proof -
  have "shardsForCollection d \<noteq> []" using assms by (simp add: shardsForCollection_def sort_empty)
  then have "shardForObject d key \<in> set (shardsForCollection d)" by (simp add: shardForObject_def Let_def)
  then show ?thesis by (simp add: shardsForCollection_def)
qed

text \<open>C37: An object changes its shard only under a map that says so: two nodes, one with the current and one with the newly published map,
place every object in the same shard, unless the new map is resharding and names the shards of the current one as its source; in any case
a node places every object in a shard of its map.\<close>

theorem placement_changes_only_by_resharding:
  assumes "publishShardMap h uuid current desired = Inr m" and "\<not> no_keys (jprop current ''shards'')"
    and "replaceMap h current a = Inr a'" and "replaceMap h (map_json m) b = Inr b'"
  shows "(shardForObject a' key = shardForObject b' key \<or>
       isTopologyResharding m \<and> set (topologySourceShards m) = set (jm_keys (sd_shards a'))) \<and>
    shardForObject a' key \<in> set (jm_keys (sd_shards a'))"
proof -
  obtain cur where cur: "normalizeShardMap h current = Inr cur" "set (jm_keys (sd_shards a')) = set (jm_keys (sm_shards cur))"
      "jm_ok (sd_shards a')"
    using replace_dir [OF assms(3)] by blast
  obtain n where n: "normalizeShardMap h (map_json m) = Inr n" "set (jm_keys (sd_shards b')) = set (jm_keys (sm_shards n))"
      "jm_ok (sd_shards b')"
    using replace_dir [OF assms(4)] by blast
  have "jm_keys (sm_shards n) = jm_keys (sm_shards m)"
    using normalize_keys [OF n(1)] by (simp add: map_json_def oget_def comp_def case_prod_beta)
  then have b: "set (jm_keys (sd_shards b')) = set (jm_keys (sm_shards m))" by (simp only: n(2))
  have "sd_shards a' \<noteq> []" using cur(2) normalize_keys [OF cur(1)] normalize_some [OF cur(1) assms(2)]
    by (metis empty_set length_0_conv length_map set_empty)
  then have member: "shardForObject a' key \<in> set (jm_keys (sd_shards a'))" by (rule placement_member)
  show ?thesis using assms(1)
  proof (cases rule: publish_cases)
    case first
    then have "\<not> truthy current" using assms(2) by blast
    then have "no_keys (jprop current ''shards'')" by (cases current) (auto simp: no_keys_def)
    then show ?thesis using assms(2) by blast
  next
    case (same c des)
    then have "c = cur" using cur(1) by simp
    then have "set (jm_keys (sm_shards m)) = set (jm_keys (sm_shards cur))"
      unfolding same(5) by (simp add: assign_keys)
    then have "shardForObject a' key = shardForObject b' key" using b cur(2,3) n(3) by (intro placement_by_names) simp_all
    then show ?thesis using member by blast
  next
    case (change c des t)
    then have "c = cur" using cur(1) by simp
    then have "isTopologyResharding m \<and> set (topologySourceShards m) = set (jm_keys (sd_shards a'))"
      unfolding change(6) by (simp add: isTopologyResharding_def topologySourceShards_def cur(2) [simplified])
    then show ?thesis using member by blast
  qed
qed

theorem placement_changes_only_by_resharding_witness:
  "\<exists>m a b. publishShardMap plain_host ''12-34'' one_shard two_shards = Inr m \<and> replaceMap plain_host one_shard newShardDir = Inr a \<and>
     replaceMap plain_host (map_json m) newShardDir = Inr b \<and>
     (shardForObject a ''x'' = shardForObject b ''x'' \<or> isTopologyResharding m \<and> set (topologySourceShards m) = set (jm_keys (sd_shards a)))"
proof -
  obtain m where m: "publishShardMap plain_host ''12-34'' one_shard two_shards = Inr m" using publish_two by blast
  have "normal_map m" by (rule publish_normal [OF m]) (simp_all add: one_shard_def oget_def entropy_def starts_with_def)
  then obtain b where b: "replaceMap plain_host (map_json m) newShardDir = Inr b" by (simp add: replaceMap_def normalize_json)
  have "\<exists>a. replaceMap plain_host one_shard newShardDir = Inr a"
    by (simp add: replaceMap_def one_shard_def no_keys_def oget_def normalizeShardMap_def shards_value_def cloneShards_def
      cloneShard_def normalizeTopology_def validateTopology_def Let_def SHARD_PARTITIONER_def)
  then obtain a where a: "replaceMap plain_host one_shard newShardDir = Inr a" by blast
  have "\<not> no_keys (jprop one_shard ''shards'')" by (simp add: one_shard_def no_keys_def oget_def)
  from placement_changes_only_by_resharding [OF m this a b, of "''x''"] show ?thesis using m a b by blast
qed

end
