(* ===== verification/References.thy ===== *)
theory References
  imports QueryPlan
begin

text \<open>
  src/src/references.js: values that refer to an object of another collection, their expansion when they are read and the stripping of
  what was expanded when they are written, and the depth of expansion a query asks for. The object a reference leads to is read by a
  function that is an argument; the asynchronous expansion is the synchronous one with that function awaited. The methods of
  src/src/crdt.js that read with references stand at the end, over a view of the collection.
\<close>

definition MAX_REF_DEPTH :: nat where
  "MAX_REF_DEPTH = 8"

definition isReference :: "host \<Rightarrow> jsv \<Rightarrow> bool" where
  "isReference h v \<longleftrightarrow>
     is_obj v \<and> jprop v ''type'' = JStr ''reference'' \<and>
     (case jprop v ''collection'' of JStr s \<Rightarrow> s \<noteq> [] | _ \<Rightarrow> False) \<and>
     \<not> nullish (jprop v ''value'') \<and> js_to_string h (jprop v ''value'') \<noteq> []"

record ref_target =
  rt_database :: string
  rt_collection :: string
  rt_ref :: string

text \<open>The target of a reference; a database that is \<open>undefined\<close> is the empty text.\<close>

definition referenceTarget :: "host \<Rightarrow> jsv \<Rightarrow> string \<Rightarrow> ref_target option" where
  "referenceTarget h ref fallback =
     (if \<not> isReference h ref then None
      else Some \<lparr>rt_database = (if nullish (jprop ref ''database'') then fallback else js_to_string h (jprop ref ''database'')),
                 rt_collection = js_to_string h (jprop ref ''collection''), rt_ref = js_to_string h (jprop ref ''value'')\<rparr>)"

definition normalizeRefDepth :: "host \<Rightarrow> jsv \<Rightarrow> nat \<Rightarrow> nat" where
  "normalizeRefDepth h v fallback =
     (if nullish v \<or> v = JStr [] then fallback
      else (case js_to_number h v of
              Fin q \<Rightarrow> if q < 0 then fallback else min MAX_REF_DEPTH (nat \<lfloor>q\<rfloor>)
            | _ \<Rightarrow> fallback))"

subsection \<open>Stripping\<close>

text \<open>\<open>stripReferenceObjectsInner\<close>: the value without what references carry under \<open>object\<close>; the original, which the code
answers when nothing changed, is the same value.\<close>

fun stripReferenceObjects :: "host \<Rightarrow> jsv \<Rightarrow> jsv" where
  "stripReferenceObjects h (JArr xs) = JArr (map (stripReferenceObjects h) xs)"
| "stripReferenceObjects h (JObj kvs) =
     JObj (map (\<lambda>(k, v). (k, stripReferenceObjects h v))
            (filter (\<lambda>(k, v). \<not> (isReference h (JObj kvs) \<and> k = ''object'')) kvs))"
| "stripReferenceObjects h v = v"

fun has_reference :: "host \<Rightarrow> jsv \<Rightarrow> bool" where
  "has_reference h (JArr xs) = list_ex (has_reference h) xs"
| "has_reference h (JObj kvs) =
     (isReference h (JObj kvs) \<or>
      list_ex (\<lambda>(k, v). has_reference h v) (filter (\<lambda>(k, v). \<not> (isReference h (JObj kvs) \<and> k = ''object'')) kvs))"
| "has_reference h v = False"

definition prepareReferenceValue :: "host \<Rightarrow> jsv \<Rightarrow> jsv \<times> bool" where
  "prepareReferenceValue h v = (stripReferenceObjects h v, has_reference h v)"

definition cloneReferenceDescriptor :: "host \<Rightarrow> jobj \<Rightarrow> jobj" where
  "cloneReferenceDescriptor h kvs = map (\<lambda>(k, v). (k, stripReferenceObjects h v)) (filter (\<lambda>(k, v). k \<noteq> ''object'') kvs)"

subsection \<open>Expansion\<close>

definition referenceKey :: "ref_target \<Rightarrow> string" where
  "referenceKey t = rt_database t @ [char_of (0 :: nat)] @ rt_collection t @ [char_of (0 :: nat)] @ rt_ref t"

lemma size_list_elem: "x \<in> set xs \<Longrightarrow> size x < Suc (size_list size xs)"
  by (induction xs) auto

lemma size_list_entry: "(k, v) \<in> set kvs \<Longrightarrow> size v < Suc (size_list (size_prod (\<lambda>x. 0) size) kvs)"
  by (induction kvs) auto

text \<open>\<open>expandReferencesSyncInner\<close> and \<open>expandReferenceSync\<close>; every step into a fetched object lowers the depth.\<close>

function expandInner :: "host \<Rightarrow> (string \<Rightarrow> string \<Rightarrow> string \<Rightarrow> jsv) \<Rightarrow> nat \<Rightarrow> string list \<Rightarrow> string \<Rightarrow> jsv \<Rightarrow> jsv" where
  "expandInner h getObject depth seen database (JArr xs) = JArr (map (expandInner h getObject depth seen database) xs)"
| "expandInner h getObject depth seen database (JObj kvs) =
     (if isReference h (JObj kvs)
      then let clean = cloneReferenceDescriptor h kvs in
           if depth = 0 then JObj clean
           else (case referenceTarget h (JObj kvs) database of
                   None \<Rightarrow> JObj (jm_set ''object'' JNull clean)
                 | Some t \<Rightarrow>
                     if rt_database t = [] \<or> referenceKey t \<in> set seen then JObj (jm_set ''object'' JNull clean)
                     else let object = getObject (rt_database t) (rt_collection t) (rt_ref t) in
                          JObj (jm_set ''object''
                            (if truthy object then expandInner h getObject (depth - 1) (referenceKey t # seen) (rt_database t) object else JNull)
                            clean))
      else JObj (map (\<lambda>(k, v). (k, expandInner h getObject depth seen database v)) kvs))"
| "expandInner h getObject depth seen database JUndef = JUndef"
| "expandInner h getObject depth seen database JNull = JNull"
| "expandInner h getObject depth seen database (JBool b) = JBool b"
| "expandInner h getObject depth seen database (JNum n) = JNum n"
| "expandInner h getObject depth seen database (JStr s) = JStr s"
  by pat_completeness auto
termination
  by (relation "measures [\<lambda>(h, g, depth, seen, database, v). depth, \<lambda>(h, g, depth, seen, database, v). size v]") (auto simp: size_list_elem size_list_entry)

definition expandReferencesSync :: "host \<Rightarrow> (string \<Rightarrow> string \<Rightarrow> string \<Rightarrow> jsv) \<Rightarrow> string \<Rightarrow> jsv \<Rightarrow> jsv \<Rightarrow> jsv" where
  "expandReferencesSync h getObject database depth v =
     (let refDepth = normalizeRefDepth h depth 1 in
      case prepareReferenceValue h v of
        (prepared, hasReference) \<Rightarrow>
          if refDepth = 0 \<or> \<not> hasReference then prepared else expandInner h getObject refDepth [] database prepared)"

subsection \<open>The depth a query asks for\<close>

definition max_of :: "nat list \<Rightarrow> nat" where
  "max_of ns = foldr max ns 0"

definition referenceDepthForPath :: "jsv \<Rightarrow> nat" where
  "referenceDepthForPath path =
     (case path of JStr s \<Rightarrow> if s = [] then 0 else length (filter (\<lambda>part. part = ''object'') (split_on CHR ''.'' s)) | _ \<Rightarrow> 0)"

fun referenceDepthForCriteria :: "jsv \<Rightarrow> nat"
  and referenceDepthForOperatorValue :: "jsv \<Rightarrow> nat" where
  "referenceDepthForCriteria (JObj kvs) =
     max_of (map (\<lambda>(path, expected).
       if path \<in> {''$and'', ''$or'', ''$nor''} \<and> is_arr expected
       then (case expected of JArr children \<Rightarrow> max_of (map referenceDepthForCriteria children) | _ \<Rightarrow> 0)
       else if path = ''$not'' then referenceDepthForCriteria expected
       else if path = ''$count'' \<and> is_obj expected \<and> is_arr (oget (entries_of expected) ''$constraints'')
       then (case expected of
               JObj sub \<Rightarrow> max_of (map (\<lambda>(k, v). if k = ''$constraints''
                   then (case v of JArr children \<Rightarrow> max_of (map referenceDepthForCriteria children) | _ \<Rightarrow> 0) else 0) sub)
             | _ \<Rightarrow> 0)
       else max (if starts_with ''$'' path then 0 else referenceDepthForPath (JStr path)) (referenceDepthForOperatorValue expected)) kvs)"
| "referenceDepthForCriteria v = 0"
| "referenceDepthForOperatorValue (JArr xs) = max_of (map referenceDepthForOperatorValue xs)"
| "referenceDepthForOperatorValue (JObj kvs) =
     max_of (map (\<lambda>(k, item). if k = ''$elemMatch'' then referenceDepthForCriteria item else referenceDepthForOperatorValue item) kvs)"
| "referenceDepthForOperatorValue v = 0"

definition referenceDepthForQuery :: "jsv \<Rightarrow> nat" where
  "referenceDepthForQuery query = (if query = JUndef then 0 else referenceDepthForCriteria query)"

definition pathHasReferenceObject :: "jsv \<Rightarrow> bool" where
  "pathHasReferenceObject path \<longleftrightarrow> 0 < referenceDepthForPath path"

definition valueHasReferencePath :: "jsv \<Rightarrow> bool" where
  "valueHasReferencePath v \<longleftrightarrow> 0 < referenceDepthForOperatorValue v"

definition as_array :: "jsv \<Rightarrow> jsv list" where
  "as_array v = (if nullish v then [] else case v of JArr xs \<Rightarrow> xs | _ \<Rightarrow> [v])"

definition referenceDepthForAggregateSpec :: "jsv \<Rightarrow> nat" where
  "referenceDepthForAggregateSpec spec =
     (case spec of
        JObj kvs \<Rightarrow>
          max_of (map referenceDepthForPath (as_array (oget kvs ''groupBy'')) @
                  concat (map (\<lambda>metric. map referenceDepthForPath (as_array (oget kvs metric))) [''sum'', ''avg'', ''min'', ''max'']) @
                  concat (map (\<lambda>(name, definition). map (\<lambda>(operator, operand).
                      if operator = ''$count'' \<and> operand = JBool True then 0 else referenceDepthForPath operand) (entries_of definition))
                    (entries_of (oget kvs ''fields''))))
      | _ \<Rightarrow> 0)"

text \<open>The part of a query that can be asked of the rows as they are stored.\<close>

fun baseCriteriaForReferenceQuery :: "jsv \<Rightarrow> jobj" where
  "baseCriteriaForReferenceQuery (JObj kvs) =
     concat (map (\<lambda>(path, expected).
       if path = ''$and'' \<and> is_arr expected
       then (case expected of
               JArr xs \<Rightarrow>
                 let children = filter (\<lambda>child. child \<noteq> []) (map baseCriteriaForReferenceQuery xs)
                 in if children = [] then [] else [(''$and'', JArr (map JObj children))]
             | _ \<Rightarrow> [])
       else if starts_with ''$'' path then []
       else if pathHasReferenceObject (JStr path) \<or> valueHasReferencePath expected then []
       else [(path, expected)]) kvs)"
| "baseCriteriaForReferenceQuery v = []"

record reference_plan =
  rf_queryDepth :: nat
  rf_sortDepth :: nat
  rf_matchDepth :: nat
  rf_responseDepth :: nat
  rf_expansionDepth :: nat

text \<open>The options of a read with references: those of a find, and the depth asked for.\<close>

record ref_options = find_options +
  op_refDepth :: jsv

definition sort_path :: "('r) find_options_scheme \<Rightarrow> jsv" where
  "sort_path options = (case op_sortBy options of None \<Rightarrow> JUndef | Some by \<Rightarrow> JStr by)"

definition referenceReadPlan :: "host \<Rightarrow> jsv \<Rightarrow> ref_options \<Rightarrow> reference_plan" where
  "referenceReadPlan h criteria options =
     (let queryDepth = referenceDepthForQuery criteria;
          sortDepth = (if pathHasReferenceObject (sort_path options) then 1 else 0);
          matchDepth = max queryDepth sortDepth
      in \<lparr>rf_queryDepth = queryDepth, rf_sortDepth = sortDepth, rf_matchDepth = matchDepth,
          rf_responseDepth = normalizeRefDepth h (op_refDepth options) (if 0 < matchDepth then 1 else 0),
          rf_expansionDepth = max matchDepth (normalizeRefDepth h (op_refDepth options) 0)\<rparr>)"

text \<open>Pairs of the object as stored and as it was matched.\<close>

definition sortReferencePairs :: "host \<Rightarrow> (jsv \<times> jsv) list \<Rightarrow> ref_options \<Rightarrow> (jsv \<times> jsv) list" where
  "sortReferencePairs h pairs options =
     (case op_sortBy options of
        None \<Rightarrow> pairs
      | Some by \<Rightarrow>
          js_sort (\<lambda>left right. compareSortValues h (getPathValue (snd left) by) (getPathValue (snd right) by) *
            (if op_desc options then - 1 else 1)) pairs)"

definition paginateReferencePairs :: "'a list \<Rightarrow> ref_options \<Rightarrow> 'a list" where
  "paginateReferencePairs pairs options = (if op_limit options = Some 0 then [] else slice (op_offset options) (op_limit options) pairs)"

subsection \<open>Reading with references\<close>

text \<open>
  \<open>_findWithReferences\<close>, \<open>_countWithReferences\<close> and \<open>_aggregateWithReferences\<close> of src/src/crdt.js over the view of the collection, which is
  there. \<open>get\<close> reads an object of any collection.
\<close>

definition plain_options :: "'r find_options_scheme \<Rightarrow> find_options" where
  "plain_options options = find_options.truncate options"

definition candidate_options :: "'r find_options_scheme \<Rightarrow> find_options" where
  "candidate_options options =
     \<lparr>op_sortBy = None, op_desc = False, op_offset = 0, op_limit = None, op_includeId = op_includeId options, op_includeIds = None\<rparr>"

definition expandObject :: "host \<Rightarrow> (string \<Rightarrow> string \<Rightarrow> string \<Rightarrow> jsv) \<Rightarrow> string \<Rightarrow> nat \<Rightarrow> jsv \<Rightarrow> jsv" where
  "expandObject h get database depth object = expandReferencesSync h get database (JNum (num_of_nat depth)) object"

definition findWithReferences :: "host \<Rightarrow> (string \<Rightarrow> string \<Rightarrow> string \<Rightarrow> jsv) \<Rightarrow> string \<Rightarrow> view \<Rightarrow> jsv \<Rightarrow> ref_options \<Rightarrow> jsv list" where
  "findWithReferences h get database c query options =
     (let criteria = (if truthy query then query else JObj []);
          plan = referenceReadPlan h criteria options;
          matchDepth = rf_matchDepth plan; responseDepth = rf_responseDepth plan
      in if matchDepth = 0
         then map (expandObject h get database responseDepth) (find_rows h c criteria (plain_options options))
         else let candidates = find_rows h c (JObj (baseCriteriaForReferenceQuery criteria)) (candidate_options options);
                  matched = filter (\<lambda>(raw, matchObject). matchesQuery h matchObject criteria)
                              (map (\<lambda>object. (object, expandObject h get database matchDepth object)) candidates)
              in map (\<lambda>(raw, matchObject). if 0 < responseDepth then expandObject h get database responseDepth raw else raw)
                   (paginateReferencePairs (sortReferencePairs h matched options) options))"

definition countWithReferences :: "host \<Rightarrow> (string \<Rightarrow> string \<Rightarrow> string \<Rightarrow> jsv) \<Rightarrow> string \<Rightarrow> view \<Rightarrow> jsv \<Rightarrow> find_options \<Rightarrow> nat" where
  "countWithReferences h get database c query options =
     (let criteria = (if truthy query then query else JObj []);
          depth = referenceDepthForQuery criteria;
          candidates = find_rows h c (JObj (baseCriteriaForReferenceQuery criteria)) (candidate_options options)
      in length (filter (\<lambda>object. matchesQuery h (expandObject h get database depth object) criteria) candidates))"

definition aggregateWithReferences :: "host \<Rightarrow> (string \<Rightarrow> string \<Rightarrow> string \<Rightarrow> jsv) \<Rightarrow> string \<Rightarrow> view \<Rightarrow> jsv \<Rightarrow> jsv \<Rightarrow> agg_error + jsv" where
  "aggregateWithReferences h get database c query spec =
     (let depth = max (referenceDepthForQuery query) (referenceDepthForAggregateSpec spec);
          rows = findWithReferences h get database c query
            \<lparr>op_sortBy = None, op_desc = False, op_offset = 0, op_limit = None, op_includeId = None, op_includeIds = None,
             op_refDepth = JNum (num_of_nat depth)\<rparr>
      in aggregateRows h rows spec)"

definition needsReferenceRead :: "host \<Rightarrow> jsv \<Rightarrow> ref_options \<Rightarrow> bool" where
  "needsReferenceRead h query options \<longleftrightarrow>
     0 < referenceDepthForQuery query \<or> pathHasReferenceObject (sort_path options) \<or> 0 < normalizeRefDepth h (op_refDepth options) 0"

definition nodeFind :: "host \<Rightarrow> (string \<Rightarrow> string \<Rightarrow> string \<Rightarrow> jsv) \<Rightarrow> string \<Rightarrow> view \<Rightarrow> jsv \<Rightarrow> ref_options \<Rightarrow> jsv list" where
  "nodeFind h get database c query options =
     (if needsReferenceRead h query options then findWithReferences h get database c query options
      else find_rows h c query (plain_options options))"

definition nodeCount :: "host \<Rightarrow> (string \<Rightarrow> string \<Rightarrow> string \<Rightarrow> jsv) \<Rightarrow> string \<Rightarrow> view \<Rightarrow> jsv \<Rightarrow> find_options \<Rightarrow> nat" where
  "nodeCount h get database c query options =
     (if 0 < referenceDepthForQuery query then countWithReferences h get database c query options else count_rows h c query options)"

definition nodeAggregate :: "host \<Rightarrow> (string \<Rightarrow> string \<Rightarrow> string \<Rightarrow> jsv) \<Rightarrow> string \<Rightarrow> view \<Rightarrow> jsv \<Rightarrow> jsv \<Rightarrow> find_options \<Rightarrow> agg_error + jsv" where
  "nodeAggregate h get database c query spec options =
     (if 0 < referenceDepthForQuery query \<or> 0 < referenceDepthForAggregateSpec spec then aggregateWithReferences h get database c query spec
      else aggregate_rows h c query spec options)"

subsection \<open>Expansion and stripping\<close>

declare expandInner.simps(1,2) [simp del]

text \<open>What the test for a reference sees of a value.\<close>

definition same_shape :: "host \<Rightarrow> jsv \<Rightarrow> jsv \<Rightarrow> bool" where
  "same_shape h v w \<longleftrightarrow> js_to_string h v = js_to_string h w \<and> nullish v = nullish w \<and> is_str v = is_str w"

lemma shape_string: "same_shape h v w \<Longrightarrow> v = JStr s \<longleftrightarrow> w = JStr s"
  by (cases v; cases w) (auto simp: same_shape_def nullish_def)

lemma oget_map: "f JUndef = JUndef \<Longrightarrow> oget (map (\<lambda>(k, v). (k, f v)) kvs) k = f (oget kvs k)"
  by (induction kvs) (auto simp: oget_def)

lemma oget_filter: "k \<noteq> x \<Longrightarrow> oget (filter (\<lambda>(k, v). k \<noteq> x) kvs) k = oget kvs k"
  by (induction kvs) (auto simp: oget_def)

lemma reference_cong:
  assumes "\<And>k. k \<in> {''type'', ''collection'', ''value''} \<Longrightarrow> same_shape h (oget kvs k) (oget kws k)"
  shows "isReference h (JObj kvs) = isReference h (JObj kws)"
proof -
  have s: "oget kvs k = JStr s \<longleftrightarrow> oget kws k = JStr s" if "k \<in> {''type'', ''collection'', ''value''}" for k s
    using shape_string [OF assms [OF that]] .
  have "(case oget kvs ''collection'' of JStr s \<Rightarrow> s \<noteq> [] | _ \<Rightarrow> False) \<longleftrightarrow> (\<exists>s. oget kvs ''collection'' = JStr s \<and> s \<noteq> [])" for kvs
    by (auto split: jsv.split)
  then have "(case oget kvs ''collection'' of JStr s \<Rightarrow> s \<noteq> [] | _ \<Rightarrow> False) \<longleftrightarrow> (case oget kws ''collection'' of JStr s \<Rightarrow> s \<noteq> [] | _ \<Rightarrow> False)"
    using s [of "''collection''"] by auto
  moreover have "oget kvs ''type'' = JStr ''reference'' \<longleftrightarrow> oget kws ''type'' = JStr ''reference''" using s [of "''type''"] by auto
  moreover have "same_shape h (oget kvs ''value'') (oget kws ''value'')" using assms by blast
  ultimately show ?thesis by (simp add: isReference_def same_shape_def)
qed

lemma shape_refl [simp]: "same_shape h v v"
  by (simp add: same_shape_def)

lemma shape_array:
  assumes "\<And>x. x \<in> set xs \<Longrightarrow> same_shape h (f x) x"
  shows "same_shape h (JArr (map f xs)) (JArr xs)"
proof -
  have "map (\<lambda>x. if nullish x then [] else js_to_string h x) (map f xs) = map (\<lambda>x. if nullish x then [] else js_to_string h x) xs"
    using assms by (auto simp: same_shape_def)
  then have "js_to_string h (JArr (map f xs)) = js_to_string h (JArr xs)" by (simp only: js_to_string.simps)
  then show ?thesis by (simp add: same_shape_def nullish_def del: js_to_string.simps)
qed

lemma shape_object [simp]: "same_shape h (JObj kvs) (JObj kws)"
  by (simp add: same_shape_def nullish_def)

lemma strip_shape: "same_shape h (stripReferenceObjects h v) v"
  by (induction h v rule: stripReferenceObjects.induct) (auto intro: shape_array)

lemma expand_shape: "same_shape h (expandInner h g depth seen database v) v"
  by (induction h g depth seen database v rule: expandInner.induct)
    (auto simp: expandInner.simps Let_def intro: shape_array split: option.split)

lemma reference_map:
  assumes "\<And>v. same_shape h (f v) v" and "f JUndef = JUndef"
  shows "isReference h (JObj (map (\<lambda>(k, v). (k, f v)) kvs)) = isReference h (JObj kvs)"
  by (rule reference_cong) (simp add: oget_map [where f = f, OF assms(2)] assms(1))

lemma reference_without_object: "isReference h (JObj (filter (\<lambda>(k, v). k \<noteq> ''object'') kvs)) = isReference h (JObj kvs)"
  by (rule reference_cong) (auto simp: oget_filter)

lemma reference_with_object: "isReference h (JObj (jm_set ''object'' v kvs)) = isReference h (JObj kvs)"
  by (rule reference_cong) auto

lemma filter_set_object: "filter (\<lambda>(k, v). k \<noteq> x) (jm_set x w kvs) = filter (\<lambda>(k, v). k \<noteq> x) kvs"
  by (induction kvs) auto

lemma filter_map_entries: "filter (\<lambda>(k, v). P k) (map (\<lambda>(k, v). (k, f v)) kvs) = map (\<lambda>(k, v). (k, f v)) (filter (\<lambda>(k, v). P k) kvs)"
  by (induction kvs) auto

lemma strip_idem: "stripReferenceObjects h (stripReferenceObjects h v) = stripReferenceObjects h v"
proof (induction h v rule: stripReferenceObjects.induct)
  case (2 h kvs)
  let ?P = "\<lambda>k. \<not> (isReference h (JObj kvs) \<and> k = ''object'')"
  let ?kws = "map (\<lambda>(k, v). (k, stripReferenceObjects h v)) (filter (\<lambda>(k, v). ?P k) kvs)"
  have "isReference h (JObj ?kws) = isReference h (JObj (filter (\<lambda>(k, v). ?P k) kvs))"
    by (rule reference_map) (simp_all add: strip_shape)
  also have "\<dots> = isReference h (JObj kvs)" using reference_without_object [of h kvs] by (cases "isReference h (JObj kvs)") simp_all
  finally have ref: "isReference h (JObj ?kws) = isReference h (JObj kvs)" .
  have "filter (\<lambda>(k, v). ?P k) ?kws = ?kws" unfolding filter_map_entries by simp
  moreover have "map (\<lambda>(k, v). (k, stripReferenceObjects h v)) ?kws = ?kws"
    using 2 by (auto simp: comp_def)
  ultimately show ?case unfolding stripReferenceObjects.simps ref by simp
qed auto

lemma strip_expand: "stripReferenceObjects h (expandInner h g depth seen database v) = stripReferenceObjects h v"
proof (induction h g depth seen database v rule: expandInner.induct)
  case (2 h g depth seen database kvs)
  show ?case
  proof (cases "isReference h (JObj kvs)")
    case True
    let ?clean = "cloneReferenceDescriptor h kvs"
    have clean: "isReference h (JObj ?clean)"
      unfolding cloneReferenceDescriptor_def using True reference_map [OF strip_shape, of h] by (simp add: reference_without_object)
    have filtered: "filter (\<lambda>(k, v). k \<noteq> ''object'') ?clean = ?clean"
      unfolding cloneReferenceDescriptor_def filter_map_entries by simp
    have again: "map (\<lambda>(k, v). (k, stripReferenceObjects h v)) ?clean = ?clean"
      by (auto simp: cloneReferenceDescriptor_def strip_idem comp_def)
    have strip: "stripReferenceObjects h (JObj kvs) = JObj ?clean"
      using True by (simp add: cloneReferenceDescriptor_def)
    have "stripReferenceObjects h (JObj (jm_set ''object'' w ?clean)) = JObj ?clean" for w
      using clean filtered again by (simp add: reference_with_object filter_set_object)
    moreover have "stripReferenceObjects h (JObj ?clean) = JObj ?clean"
      using clean filtered again by simp
    ultimately show ?thesis using True strip
      by (auto simp: expandInner.simps(2) Let_def simp del: stripReferenceObjects.simps split: option.split)
  next
    case False
    have "isReference h (JObj (map (\<lambda>(k, v). (k, expandInner h g depth seen database v)) kvs)) = isReference h (JObj kvs)"
      by (rule reference_map) (simp_all add: expand_shape)
    then show ?thesis using False 2(2) [OF False] by (auto simp: expandInner.simps(2) comp_def)
  qed
qed (auto simp: expandInner.simps(1))

text \<open>C38: What a read expanded is stripped when it is written: stripping an expanded value gives what stripping the value itself gives, so writing
back an object as it was read stores no copy of the objects it refers to.\<close>

theorem expanded_value_strips_back:
  "stripReferenceObjects h (expandReferencesSync h getObject database depth v) = stripReferenceObjects h v"
  by (simp add: expandReferencesSync_def prepareReferenceValue_def Let_def strip_expand strip_idem)

subsection \<open>How deep an expansion goes\<close>

text \<open>How many fetched objects are nested in each other.\<close>

fun ref_nest :: "host \<Rightarrow> jsv \<Rightarrow> nat" where
  "ref_nest h (JArr xs) = max_of (map (ref_nest h) xs)"
| "ref_nest h (JObj kvs) =
     max_of (map (\<lambda>(k, v). ref_nest h v + (if isReference h (JObj kvs) \<and> k = ''object'' \<and> v \<noteq> JNull then 1 else 0)) kvs)"
| "ref_nest h v = 0"

lemma max_of_le: "max_of ns \<le> n \<longleftrightarrow> (\<forall>m \<in> set ns. m \<le> n)"
  by (induction ns) (auto simp: max_of_def)

lemma strip_nest: "ref_nest h (stripReferenceObjects h v) = 0"
proof -
  have "ref_nest h (stripReferenceObjects h v) \<le> 0"
  proof (induction h v rule: stripReferenceObjects.induct)
    case (1 h xs)
    then show ?case unfolding stripReferenceObjects.simps ref_nest.simps max_of_le by auto
  next
    case (2 h kvs)
    let ?P = "\<lambda>k. \<not> (isReference h (JObj kvs) \<and> k = ''object'')"
    let ?kws = "map (\<lambda>(k, v). (k, stripReferenceObjects h v)) (filter (\<lambda>(k, v). ?P k) kvs)"
    have "isReference h (JObj ?kws) = isReference h (JObj (filter (\<lambda>(k, v). ?P k) kvs))"
      by (rule reference_map) (simp_all add: strip_shape)
    also have "\<dots> = isReference h (JObj kvs)" using reference_without_object [of h kvs] by (cases "isReference h (JObj kvs)") simp_all
    finally have ref: "isReference h (JObj ?kws) = isReference h (JObj kvs)" .
    show ?case unfolding stripReferenceObjects.simps ref_nest.simps max_of_le ref using 2 by auto
  qed simp_all
  then show ?thesis by simp
qed

lemma nest_member: "(k, v) \<in> set kvs \<Longrightarrow> ref_nest h (JObj kvs) \<le> n \<Longrightarrow> ref_nest h v \<le> n"
  by (auto simp: max_of_le dest: bspec)

lemma clean_entries: "(k, v) \<in> set (cloneReferenceDescriptor h kvs) \<Longrightarrow> k \<noteq> ''object'' \<and> ref_nest h v = 0"
  by (auto simp: cloneReferenceDescriptor_def strip_nest)

lemma set_entry_cases: "(k, v) \<in> set (jm_set x w kvs) \<Longrightarrow> (k = x \<and> v = w) \<or> (k, v) \<in> set kvs"
  by (induction kvs) (auto split: if_splits)

lemma clean_nest:
  assumes "ref_nest h w \<le> n" and "w = JNull \<or> m = n + 1"
  shows "ref_nest h (JObj (jm_set ''object'' w (cloneReferenceDescriptor h kvs))) \<le> (if w = JNull then n else m)"
  unfolding ref_nest.simps max_of_le
  using assms clean_entries by (auto dest!: set_entry_cases)

lemma expand_nest: "ref_nest h (expandInner h g depth seen database v) \<le> depth"
proof (induction h g depth seen database v rule: expandInner.induct)
  case (1 h g depth seen database xs)
  then show ?case unfolding expandInner.simps ref_nest.simps max_of_le by auto
next
  case (2 h g depth seen database kvs)
  show ?case
  proof (cases "isReference h (JObj kvs)")
    case True
    have clean: "ref_nest h (JObj (cloneReferenceDescriptor h kvs)) \<le> 0"
      unfolding ref_nest.simps max_of_le using clean_entries by auto
    have null: "ref_nest h (JObj (jm_set ''object'' JNull (cloneReferenceDescriptor h kvs))) \<le> depth"
      using clean_nest [of h JNull 0 0 kvs] by simp
    have deep: "ref_nest h (JObj (jm_set ''object'' w (cloneReferenceDescriptor h kvs))) \<le> depth"
      if "ref_nest h w \<le> depth - 1" "depth \<noteq> 0" for w
      using clean_nest [OF that(1), of depth kvs] that(2) by (auto split: if_splits)
    show ?thesis
    proof (cases "depth = 0")
      case False
      then show ?thesis using True null deep 2(1) [OF True refl False]
        by (auto simp: expandInner.simps(2) Let_def simp del: ref_nest.simps split: option.split)
    qed (use True clean in \<open>simp add: expandInner.simps(2) del: ref_nest.simps\<close>)
  next
    case False
    have ref: "isReference h (JObj (map (\<lambda>(k, v). (k, expandInner h g depth seen database v)) kvs)) = isReference h (JObj kvs)"
      by (rule reference_map) (simp_all add: expand_shape)
    show ?thesis unfolding expandInner.simps(2) if_not_P [OF False] ref_nest.simps max_of_le ref using False 2(2) [OF False] by auto
  qed
qed simp_all

lemma depth_at_most: "fallback \<le> MAX_REF_DEPTH \<Longrightarrow> normalizeRefDepth h v fallback \<le> MAX_REF_DEPTH"
  by (auto simp: normalizeRefDepth_def split: jsnum.split)

text \<open>C39: An expansion ends whatever the objects refer to, cycles and long chains included, and nests at most as many objects in each other as
the depth asked for, never more than eight.\<close>

theorem expansion_depth_bounded:
  "ref_nest h (expandReferencesSync h getObject database depth v) \<le> normalizeRefDepth h depth 1 \<and> normalizeRefDepth h depth 1 \<le> 8"
proof -
  have "normalizeRefDepth h depth 1 \<le> 8" using depth_at_most [of 1 h depth] by (simp add: MAX_REF_DEPTH_def)
  moreover have "ref_nest h (expandReferencesSync h getObject database depth v) \<le> normalizeRefDepth h depth 1"
    using expand_nest [of h getObject "normalizeRefDepth h depth 1" "[]" database "stripReferenceObjects h v"]
    by (simp add: expandReferencesSync_def prepareReferenceValue_def Let_def strip_nest)
  ultimately show ?thesis by blast
qed

subsection \<open>Shards\<close>



end
