(* ===== verification/Node.thy ===== *)
theory Node
  imports StoreRows ShardMap References CollBuild
begin

text \<open>
  The node of src/src/crdt.js: local writes get a timestamp of the node's clock and a place in its log, the log is pulled by peers from a
  cursor and pruned behind their acknowledgements, and what a peer wrote is applied by timestamp. A pull that would miss operations is
  answered with status 410.

  The listeners are represented by the list of notifications sent to them (\<open>nd_changes\<close>). New ids are arguments. The vector indexes and
  the reads that only pass through to the store are left out.
\<close>

datatype node_error =
    StoreFailed store_error
  | WriteRefused coll_error
  | ObjectsNotArray
  | ItemNotObject nat
  | ItemWithoutId nat
  | EmptyId nat
  | DuplicateId nat string
  | AlreadyExists string
  | PeerFailed
  | LogTruncated

datatype change =
    OpsApplied "rop list"
  | DatabaseChanged string
  | DatabaseDropped string
  | MetaChanged string string
  | CollectionDropped string string
  | SnapshotApplied

record scope =
  sc_db :: string
  sc_coll :: string
  sc_shard :: string

record node =
  nd_id :: string
  nd_url :: "string option"
  nd_db :: dstore
  nd_clock :: clock
  nd_log :: "rop list"
  nd_operationLog :: bool
  nd_seq :: nat
  nd_trimmed :: nat
  nd_scopeTrimmed :: "(string, nat) jmap"
  nd_retainOps :: nat
  nd_syncBatchSize :: nat
  nd_lastSeen :: "(string, nat) jmap"
  nd_acks :: "(string, nat) jmap"
  nd_shardMap :: shard_dir
  nd_changes :: "change list"

text \<open>\<open>String(url).replace(/\/+$/, "")\<close>, \<open>null\<close> when there is no url.\<close>

definition normalizeUrl :: "host \<Rightarrow> jsv \<Rightarrow> string option" where
  "normalizeUrl h url = (if truthy url then Some (rev (dropWhile (\<lambda>c. c = CHR ''/'') (rev (js_to_string h url)))) else None)"

definition newNode :: "host \<Rightarrow> string \<Rightarrow> jsv \<Rightarrow> dstore \<Rightarrow> nat \<Rightarrow> nat \<Rightarrow> shard_dir \<Rightarrow> bool \<Rightarrow> node" where
  "newNode h ident url db retainOps syncBatchSize shardMap operationLog =
     \<lparr>nd_id = ident, nd_url = normalizeUrl h url, nd_db = db, nd_clock = makeClock ident, nd_log = [], nd_operationLog = operationLog,
      nd_seq = 0, nd_trimmed = 0, nd_scopeTrimmed = [], nd_retainOps = retainOps, nd_syncBatchSize = syncBatchSize, nd_lastSeen = [],
      nd_acks = [], nd_shardMap = shardMap, nd_changes = []\<rparr>"

definition notify :: "change \<Rightarrow> node \<Rightarrow> node" where
  "notify ch n = n\<lparr>nd_changes := nd_changes n @ [ch]\<rparr>"

definition nodeShardFor :: "node \<Rightarrow> string \<Rightarrow> string" where
  "nodeShardFor n key = shardForObject (nd_shardMap n) key"

text \<open>\<open>op.shard = op.shard || this.shardForObject(op.db, op.coll, op.id)\<close>.\<close>

definition with_shard :: "node \<Rightarrow> rop \<Rightarrow> rop" where
  "with_shard n op = (if truthy (op_shard op) then op else op\<lparr>op_shard := JStr (nodeShardFor n (op_id op))\<rparr>)"

subsection \<open>Logging and applying\<close>

definition logOp :: "rop \<Rightarrow> node \<Rightarrow> rop \<times> node" where
  "logOp op n =
     (let op1 = (with_shard n op)\<lparr>op_from := nd_id n, op_seq := nd_seq n + 1\<rparr>
      in (op1, n\<lparr>nd_seq := nd_seq n + 1, nd_log := (if nd_operationLog n then nd_log n @ [op1] else nd_log n)\<rparr>))"

fun logOps :: "rop list \<Rightarrow> node \<Rightarrow> rop list \<times> node" where
  "logOps [] n = ([], n)"
| "logOps (op # ops) n = (case logOp op n of (op1, n1) \<Rightarrow> (case logOps ops n1 of (rest, n2) \<Rightarrow> (op1 # rest, n2)))"

definition wellformed_op :: "rop \<Rightarrow> bool" where
  "wellformed_op op \<longleftrightarrow> op_db op \<noteq> [] \<and> op_coll op \<noteq> [] \<and> op_id op \<noteq> [] \<and> op_kind op \<in> {''touch'', ''putObj'', ''delObj''}"

definition nodeApplyOps :: "host \<Rightarrow> rop list \<Rightarrow> node \<Rightarrow> (store_error + rop list) \<times> node" where
  "nodeApplyOps h ops n = (case applyOps h (filter wellformed_op ops) (nd_db n) of (r, db) \<Rightarrow> (r, n\<lparr>nd_db := db\<rparr>))"

definition notifyOps :: "rop list \<Rightarrow> node \<Rightarrow> node" where
  "notifyOps ops n = (if ops = [] then n else notify (OpsApplied ops) n)"

text \<open>The operations as they were logged and those of them that were applied.\<close>

definition commitLocalOps :: "host \<Rightarrow> rop list \<Rightarrow> node \<Rightarrow> (node_error + rop list \<times> rop list) \<times> node" where
  "commitLocalOps h ops n =
     (case logOps ops n of
        (numbered, n1) \<Rightarrow>
          (case nodeApplyOps h numbered n1 of
             (Inl e, n2) \<Rightarrow> (Inl (StoreFailed e), n2)
           | (Inr applied, n2) \<Rightarrow> (Inr (numbered, applied), notifyOps applied n2)))"

definition touch_all :: "rop list \<Rightarrow> clock \<Rightarrow> clock" where
  "touch_all ops clk = foldl (\<lambda>clk op. touch clk (op_ts op)) clk ops"

definition seen_of :: "(string, nat) jmap \<Rightarrow> string \<Rightarrow> nat" where
  "seen_of m key = (case jm_get m key of None \<Rightarrow> 0 | Some s \<Rightarrow> s)"

definition raise_seen :: "string \<Rightarrow> nat \<Rightarrow> node \<Rightarrow> node" where
  "raise_seen key s n = n\<lparr>nd_lastSeen := jm_set key (max (seen_of (nd_lastSeen n) key) s) (nd_lastSeen n)\<rparr>"

definition applyRemote :: "host \<Rightarrow> rop list \<Rightarrow> string \<Rightarrow> node \<Rightarrow> (node_error + nat) \<times> node" where
  "applyRemote h ops cursorKey n =
     (let n1 = n\<lparr>nd_clock := touch_all ops (nd_clock n)\<rparr> in
      case nodeApplyOps h (map (with_shard n1) ops) n1 of
        (Inl e, n2) \<Rightarrow> (Inl (StoreFailed e), n2)
      | (Inr applied, n2) \<Rightarrow>
          (Inr (length applied), raise_seen cursorKey (if ops = [] then 0 else op_seq (last ops)) (notifyOps applied n2)))"

subsection \<open>Local writes\<close>

definition withoutObjectId :: "jsv \<Rightarrow> jobj" where
  "withoutObjectId object = jm_del ''_id'' (entries_of object)"

text \<open>\<open>_prepareWriteValue\<close>; asking for the collection makes it.\<close>

definition prepareWriteValue :: "host \<Rightarrow> string \<Rightarrow> string \<Rightarrow> jobj \<Rightarrow> node \<Rightarrow> (node_error + jsv) \<times> node" where
  "prepareWriteValue h db coll v n =
     (let prepared = stripReferenceObjects h (JObj (withoutObjectId (JObj v))) in
      case openCollection db coll (nd_db n) of
        (Inl e, s) \<Rightarrow> (Inl (StoreFailed e), n\<lparr>nd_db := s\<rparr>)
      | (Inr c, s) \<Rightarrow>
          (case validateWriteValue c prepared of
             Inl e \<Rightarrow> (Inl (WriteRefused e), n\<lparr>nd_db := s\<rparr>)
           | Inr v \<Rightarrow> (Inr v, n\<lparr>nd_db := s\<rparr>)))"

text \<open>The operations of a batch of writes, each with the next timestamp of the clock.\<close>

fun write_ops :: "host \<Rightarrow> string \<Rightarrow> string \<Rightarrow> (string \<times> jobj) list \<Rightarrow> node \<Rightarrow> (node_error + rop list) \<times> node" where
  "write_ops h db coll [] n = (Inr [], n)"
| "write_ops h db coll ((key, v) # items) n =
     (case prepareWriteValue h db coll v n of
        (Inl e, n1) \<Rightarrow> (Inl e, n1)
      | (Inr prepared, n1) \<Rightarrow>
          (case nextTs (nd_clock n1) of
             (t, clk) \<Rightarrow>
               (case write_ops h db coll items (n1\<lparr>nd_clock := clk\<rparr>) of
                  (Inl e, n2) \<Rightarrow> (Inl e, n2)
                | (Inr ops, n2) \<Rightarrow>
                    (Inr (\<lparr>op_kind = (if v = [] then ''touch'' else ''putObj''), op_db = db, op_coll = coll, op_id = key,
                           op_value = prepared, op_ts = Some t, op_shard = JUndef, op_from = [], op_seq = 0\<rparr> # ops), n2))))"

definition writeMany :: "host \<Rightarrow> string \<Rightarrow> string \<Rightarrow> (string \<times> jobj) list \<Rightarrow> node \<Rightarrow> (node_error + rop list \<times> rop list) \<times> node" where
  "writeMany h db coll items n =
     (case assertCollectionWritable (nd_db n) db coll of
        Some e \<Rightarrow> (Inl (StoreFailed e), n)
      | None \<Rightarrow>
          (case write_ops h db coll items n of
             (Inl e, n1) \<Rightarrow> (Inl e, n1)
           | (Inr ops, n1) \<Rightarrow> commitLocalOps h ops n1))"

subsection \<open>Reading and checking the arguments of bulk requests\<close>

definition nodeGet :: "host \<Rightarrow> node \<Rightarrow> string \<Rightarrow> string \<Rightarrow> string \<Rightarrow> jsv option" where
  "nodeGet h n db coll key = (case getCollection (nd_db n) db coll of None \<Rightarrow> None | Some c \<Rightarrow> c_readForQuery h c key)"

text \<open>\<open>expandReferences\<close> of the node: the objects are read from the node itself.\<close>

definition nodeExpand :: "host \<Rightarrow> node \<Rightarrow> string \<Rightarrow> nat \<Rightarrow> jsv \<Rightarrow> jsv" where
  "nodeExpand h n db depth object =
     expandReferencesSync h (\<lambda>d c i. case nodeGet h n d c i of None \<Rightarrow> JUndef | Some v \<Rightarrow> v) db (JNum (num_of_nat depth)) object"

definition nodeGetWith :: "host \<Rightarrow> node \<Rightarrow> string \<Rightarrow> string \<Rightarrow> string \<Rightarrow> jsv \<Rightarrow> jsv option" where
  "nodeGetWith h n db coll key refDepth =
     (case nodeGet h n db coll key of
        None \<Rightarrow> None
      | Some object \<Rightarrow>
          let depth = normalizeRefDepth h refDepth 0 in Some (if 0 < depth then nodeExpand h n db depth object else object))"

definition nodeGetMany :: "host \<Rightarrow> node \<Rightarrow> string \<Rightarrow> string \<Rightarrow> string list \<Rightarrow> jsv list" where
  "nodeGetMany h n db coll keys = List.map_filter (nodeGet h n db coll) keys"

fun first_repeat :: "nat \<Rightarrow> string list \<Rightarrow> string list \<Rightarrow> (nat \<times> string) option" where
  "first_repeat i seen [] = None"
| "first_repeat i seen (x # xs) = (if x \<in> set seen then Some (i, x) else first_repeat (i + 1) (x # seen) xs)"

definition assertUniqueIds :: "string list \<Rightarrow> node_error option" where
  "assertUniqueIds keys = map_option (\<lambda>(i, x). DuplicateId i x) (first_repeat 0 [] keys)"

definition unique_or :: "string list \<Rightarrow> 'a \<Rightarrow> node_error + 'a" where
  "unique_or keys x = (case assertUniqueIds keys of Some e \<Rightarrow> Inl e | None \<Rightarrow> Inr x)"

fun check_items :: "(nat \<Rightarrow> 'a \<Rightarrow> node_error + 'b) \<Rightarrow> nat \<Rightarrow> 'a list \<Rightarrow> node_error + 'b list" where
  "check_items f i [] = Inr []"
| "check_items f i (x # xs) = res_bind (f i x) (\<lambda>y. res_bind (check_items f (i + 1) xs) (\<lambda>ys. Inr (y # ys)))"

text \<open>Each object with its id as a text.\<close>

definition normalizeObjectsWithIds :: "host \<Rightarrow> jsv \<Rightarrow> node_error + (string \<times> jobj) list" where
  "normalizeObjectsWithIds h objects =
     (case objects of
        JArr xs \<Rightarrow>
          res_bind (check_items (\<lambda>i object.
              if \<not> is_obj object then Inl (ItemNotObject i)
              else if nullish (jprop object ''_id'') \<or> js_to_string h (jprop object ''_id'') = [] then Inl (ItemWithoutId i)
              else Inr (js_to_string h (jprop object ''_id''), withoutObjectId object)) 0 xs)
            (\<lambda>items. unique_or (map fst items) items)
      | _ \<Rightarrow> Inl ObjectsNotArray)"

text \<open>\<open>fresh i\<close> is the id that is made for the object at place \<open>i\<close> when it has none.\<close>

definition normalizeInsertObjects :: "host \<Rightarrow> (nat \<Rightarrow> string) \<Rightarrow> jsv list \<Rightarrow> node_error + (string \<times> jobj) list" where
  "normalizeInsertObjects h fresh objects =
     res_bind (check_items (\<lambda>i object.
         let given = jprop object ''_id''; key = (if nullish given then fresh i else js_to_string h given)
         in if key = [] then Inl (EmptyId i) else Inr (key, withoutObjectId object)) 0 objects)
       (\<lambda>items. unique_or (map fst items) items)"

definition normalizeIds :: "host \<Rightarrow> jsv \<Rightarrow> node_error + string list" where
  "normalizeIds h keys =
     (case keys of
        JArr xs \<Rightarrow>
          res_bind (check_items (\<lambda>i raw. if js_to_string h raw = [] then Inl (EmptyId i) else Inr (js_to_string h raw)) 0 xs)
            (\<lambda>names. unique_or names names)
      | _ \<Rightarrow> Inl ObjectsNotArray)"

definition assertInsertTargetsMissing :: "coll \<Rightarrow> (string \<times> jobj) list \<Rightarrow> node_error option" where
  "assertInsertTargetsMissing c items = map_option (\<lambda>(key, v). AlreadyExists key) (find (\<lambda>(key, v). c_has c key) items)"

subsection \<open>Bulk requests\<close>

definition commitInsertMany :: "host \<Rightarrow> (nat \<Rightarrow> string) \<Rightarrow> string \<Rightarrow> string \<Rightarrow> jsv list \<Rightarrow> node \<Rightarrow>
    (node_error + (string \<times> jobj) list \<times> rop list) \<times> node" where
  "commitInsertMany h fresh db coll objects n =
     (case normalizeInsertObjects h fresh objects of
        Inl e \<Rightarrow> (Inl e, n)
      | Inr items \<Rightarrow>
          (case openCollection db coll (nd_db n) of
             (Inl e, s) \<Rightarrow> (Inl (StoreFailed e), n\<lparr>nd_db := s\<rparr>)
           | (Inr c, s) \<Rightarrow>
               (case assertInsertTargetsMissing c items of
                  Some e \<Rightarrow> (Inl e, n\<lparr>nd_db := s\<rparr>)
                | None \<Rightarrow>
                    (case writeMany h db coll items (n\<lparr>nd_db := s\<rparr>) of
                       (Inl e, n1) \<Rightarrow> (Inl e, n1)
                     | (Inr (numbered, applied), n1) \<Rightarrow> (Inr (items, applied), n1)))))"

definition insertMany :: "host \<Rightarrow> (nat \<Rightarrow> string) \<Rightarrow> string \<Rightarrow> string \<Rightarrow> jsv list \<Rightarrow> node \<Rightarrow> (node_error + jsv list) \<times> node" where
  "insertMany h fresh db coll objects n =
     (case commitInsertMany h fresh db coll objects n of
        (Inl e, n1) \<Rightarrow> (Inl e, n1)
      | (Inr (items, applied), n1) \<Rightarrow>
          (Inr (map (\<lambda>(key, v). case nodeGet h n1 db coll key of Some object \<Rightarrow> object | None \<Rightarrow> JObj [(''_id'', JStr key)]) items), n1))"

text \<open>A vector that the object does not give is kept; the collection is asked for, so it is made when it is new.\<close>

fun preserve_vectors :: "string \<Rightarrow> string \<Rightarrow> (string \<times> jobj) list \<Rightarrow> node \<Rightarrow> (node_error + (string \<times> jobj) list) \<times> node" where
  "preserve_vectors db coll [] n = (Inr [], n)"
| "preserve_vectors db coll ((key, v) # items) n =
     (case openCollection db coll (nd_db n) of
        (Inl e, s) \<Rightarrow> (Inl (StoreFailed e), n\<lparr>nd_db := s\<rparr>)
      | (Inr c, s) \<Rightarrow>
          (case preserve_vectors db coll items (n\<lparr>nd_db := s\<rparr>) of
             (Inl e, n1) \<Rightarrow> (Inl e, n1)
           | (Inr rest, n1) \<Rightarrow> (Inr ((key, entries_of (preserveVector c key (JObj v))) # rest), n1)))"

definition write_kept :: "host \<Rightarrow> string \<Rightarrow> string \<Rightarrow> (string \<times> jobj) list \<Rightarrow> node \<Rightarrow> (node_error + nat \<times> jsv list) \<times> node" where
  "write_kept h db coll items n =
     (case preserve_vectors db coll items n of
        (Inl e, n1) \<Rightarrow> (Inl e, n1)
      | (Inr kept, n1) \<Rightarrow>
          (case writeMany h db coll kept n1 of
             (Inl e, n2) \<Rightarrow> (Inl e, n2)
           | (Inr done, n2) \<Rightarrow> (Inr (length items, nodeGetMany h n2 db coll (map fst items)), n2)))"

definition replaceMany :: "host \<Rightarrow> string \<Rightarrow> string \<Rightarrow> jsv \<Rightarrow> node \<Rightarrow> (node_error + nat \<times> jsv list) \<times> node" where
  "replaceMany h db coll objects n =
     (case normalizeObjectsWithIds h objects of
        Inl e \<Rightarrow> (Inl e, n)
      | Inr items \<Rightarrow> write_kept h db coll items n)"

text \<open>The object there is with the given fields over it.\<close>

definition updated_entries :: "host \<Rightarrow> node \<Rightarrow> string \<Rightarrow> string \<Rightarrow> string \<times> jobj \<Rightarrow> string \<times> jobj" where
  "updated_entries h n db coll item =
     (case item of
        (key, v) \<Rightarrow>
          (key, foldl (\<lambda>out (k, x). jm_set k x out)
                  (case nodeGet h n db coll key of Some current \<Rightarrow> withoutObjectId current | None \<Rightarrow> []) v))"

definition updateMany :: "host \<Rightarrow> string \<Rightarrow> string \<Rightarrow> jsv \<Rightarrow> node \<Rightarrow> (node_error + nat \<times> jsv list) \<times> node" where
  "updateMany h db coll objects n =
     (case normalizeObjectsWithIds h objects of
        Inl e \<Rightarrow> (Inl e, n)
      | Inr items \<Rightarrow> write_kept h db coll (map (updated_entries h n db coll) items) n)"

record removal =
  rm_deleted :: nat
  rm_ids :: "string list"
  rm_skipped :: "string list"

fun remove_ops :: "string \<Rightarrow> string \<Rightarrow> string list \<Rightarrow> node \<Rightarrow> rop list \<times> string list \<times> node" where
  "remove_ops db coll [] n = ([], [], n)"
| "remove_ops db coll (key # keys) n =
     (if (case getCollection (nd_db n) db coll of None \<Rightarrow> False | Some c \<Rightarrow> c_has c key)
      then (case nextTs (nd_clock n) of
              (t, clk) \<Rightarrow>
                (case remove_ops db coll keys (n\<lparr>nd_clock := clk\<rparr>) of
                   (ops, skipped, n1) \<Rightarrow>
                     (\<lparr>op_kind = ''delObj'', op_db = db, op_coll = coll, op_id = key, op_value = JUndef, op_ts = Some t,
                       op_shard = JUndef, op_from = [], op_seq = 0\<rparr> # ops, skipped, n1)))
      else (case remove_ops db coll keys n of (ops, skipped, n1) \<Rightarrow> (ops, key # skipped, n1)))"

definition removeMany :: "host \<Rightarrow> string \<Rightarrow> string \<Rightarrow> jsv \<Rightarrow> node \<Rightarrow> (node_error + removal) \<times> node" where
  "removeMany h db coll keys n =
     (case normalizeIds h keys of
        Inl e \<Rightarrow> (Inl e, n)
      | Inr names \<Rightarrow>
          (case remove_ops db coll names n of
             (ops, skipped, n1) \<Rightarrow>
               (case commitLocalOps h ops n1 of
                  (Inl e, n2) \<Rightarrow> (Inl e, n2)
                | (Inr (numbered, applied), n2) \<Rightarrow>
                    (Inr \<lparr>rm_deleted = length applied, rm_ids = map op_id applied, rm_skipped = skipped\<rparr>, n2))))"

end
