(* ===== verification/NodeLog.thy ===== *)
theory NodeLog
  imports Node
begin

text \<open>
  The log of a node: what peers pull from it, what their acknowledgements let the node prune, what is discarded with a deleted
  collection, and the snapshots and deletions that go with it (src/src/crdt.js). The history of a node is everything it ever
  logged; the property says that a pull of a scope never passes over a part of the history.
\<close>

subsection \<open>Scopes\<close>

definition newline :: char where
  "newline = char_of (10 :: nat)"

definition nodeScopeKey :: "string \<Rightarrow> string \<Rightarrow> string \<Rightarrow> string" where
  "nodeScopeKey db coll shard = db @ [newline] @ coll @ [newline] @ shard"

text \<open>The first three lines of the key.\<close>

definition parseScopeKey :: "string \<Rightarrow> scope" where
  "parseScopeKey key =
     (case split_on newline key of
        a # b # c # _ \<Rightarrow> \<lparr>sc_db = a, sc_coll = b, sc_shard = c\<rparr>
      | [a, b] \<Rightarrow> \<lparr>sc_db = a, sc_coll = b, sc_shard = []\<rparr>
      | [a] \<Rightarrow> \<lparr>sc_db = a, sc_coll = [], sc_shard = []\<rparr>
      | [] \<Rightarrow> \<lparr>sc_db = [], sc_coll = [], sc_shard = []\<rparr>)"

definition scopeMatches :: "scope \<Rightarrow> scope \<Rightarrow> bool" where
  "scopeMatches opScope requested \<longleftrightarrow>
     (sc_db requested = GLOBAL_DATABASE \<or> sc_db requested = sc_db opScope) \<and>
     (sc_coll requested = GLOBAL_COLLECTION \<or> sc_coll requested = sc_coll opScope) \<and> sc_shard requested = sc_shard opScope"

definition opMatchesScope :: "rop \<Rightarrow> scope \<Rightarrow> bool" where
  "opMatchesScope op sc \<longleftrightarrow>
     (sc_db sc = GLOBAL_DATABASE \<or> op_db op = sc_db sc) \<and> (sc_coll sc = GLOBAL_COLLECTION \<or> op_coll op = sc_coll sc) \<and>
     op_shard op = JStr (sc_shard sc)"

definition cursorKey :: "string \<Rightarrow> scope option \<Rightarrow> string" where
  "cursorKey peer sc =
     (case sc of None \<Rightarrow> peer
      | Some s \<Rightarrow> peer @ ''|'' @ sc_db s @ ''/'' @ sc_coll s @ ''/'' @ sc_shard s)"

text \<open>The scope of a shard; that of the default shard of everything is \<open>undefined\<close>.\<close>

definition syncScopeForShard :: "string \<Rightarrow> scope option" where
  "syncScopeForShard shard =
     (if shard = DEFAULT_SHARD then None else Some \<lparr>sc_db = GLOBAL_DATABASE, sc_coll = GLOBAL_COLLECTION, sc_shard = shard\<rparr>)"

subsection \<open>Pulling and pruning\<close>

text \<open>A limit of 0 is none.\<close>

definition opsAfter :: "nat \<Rightarrow> nat \<Rightarrow> scope option \<Rightarrow> node \<Rightarrow> rop list" where
  "opsAfter after limit sc n =
     (let found = filter (\<lambda>op. after < op_seq op \<and> (case sc of None \<Rightarrow> True | Some s \<Rightarrow> opMatchesScope op s)) (nd_log n)
      in if limit = 0 then found else take limit found)"

definition rememberScopeTrim :: "host \<Rightarrow> rop \<Rightarrow> node \<Rightarrow> node" where
  "rememberScopeTrim h op n =
     (if op_db op = [] \<or> op_coll op = [] \<or> \<not> truthy (op_shard op) then n
      else let key = nodeScopeKey (op_db op) (op_coll op) (js_to_string h (op_shard op))
           in n\<lparr>nd_scopeTrimmed := jm_set key (max (seen_of (nd_scopeTrimmed n) key) (op_seq op)) (nd_scopeTrimmed n)\<rparr>)"

definition remember_all :: "host \<Rightarrow> rop list \<Rightarrow> node \<Rightarrow> node" where
  "remember_all h ops n = foldl (\<lambda>n op. rememberScopeTrim h op n) n ops"

text \<open>The smallest acknowledgement.\<close>

definition watermark :: "node \<Rightarrow> nat option" where
  "watermark n = (case jm_vals (nd_acks n) of [] \<Rightarrow> None | a # rest \<Rightarrow> Some (foldl min a rest))"

definition prune :: "host \<Rightarrow> node \<Rightarrow> nat \<times> node" where
  "prune h n =
     (case watermark n of
        None \<Rightarrow> (0, n)
      | Some w \<Rightarrow>
          let safe = w - nd_retainOps n in
          if safe \<le> nd_trimmed n then (0, n)
          else let cut = min safe (nd_seq n); removed = cut - nd_trimmed n in
               if removed = 0 then (0, n)
               else let n1 = remember_all h (filter (\<lambda>op. op_seq op \<le> cut) (nd_log n)) (n\<lparr>nd_log := filter (\<lambda>op. cut < op_seq op) (nd_log n)\<rparr>)
                    in (removed, n1\<lparr>nd_trimmed := cut\<rparr>))"

definition receiveAck :: "host \<Rightarrow> string \<Rightarrow> nat \<Rightarrow> scope option \<Rightarrow> node \<Rightarrow> nat \<times> node" where
  "receiveAck h peer after sc n = prune h (n\<lparr>nd_acks := jm_set (cursorKey peer sc) (min after (nd_seq n)) (nd_acks n)\<rparr>)"

definition needsSnapshot :: "nat \<Rightarrow> scope option \<Rightarrow> node \<Rightarrow> bool" where
  "needsSnapshot after sc n =
     (case sc of
        None \<Rightarrow> after < nd_trimmed n
      | Some s \<Rightarrow> list_ex (\<lambda>(key, trimmed). after < trimmed \<and> scopeMatches (parseScopeKey key) s) (nd_scopeTrimmed n))"

definition discardOps :: "host \<Rightarrow> (rop \<Rightarrow> bool) \<Rightarrow> node \<Rightarrow> nat \<times> node" where
  "discardOps h matches n =
     (let removed = filter matches (nd_log n)
      in (length removed, remember_all h removed (n\<lparr>nd_log := filter (\<lambda>op. \<not> matches op) (nd_log n)\<rparr>)))"

definition removeDatabase :: "host \<Rightarrow> string \<Rightarrow> node \<Rightarrow> bool \<times> node" where
  "removeDatabase h db n =
     (let already = isDatabaseDeleted (nd_db n) db in
      case deleteDatabase db (nd_db n) of
        (removed, s) \<Rightarrow>
          let n1 = n\<lparr>nd_db := s\<rparr> in
          (removed, if removed \<or> \<not> already then notify (DatabaseDropped db) (snd (discardOps h (\<lambda>op. op_db op = db) n1)) else n1))"

definition removeCollection :: "host \<Rightarrow> string \<Rightarrow> string \<Rightarrow> node \<Rightarrow> bool \<times> node" where
  "removeCollection h db coll n =
     (let already = isCollectionDeleted (nd_db n) db coll in
      case deleteCollection db coll (nd_db n) of
        (removed, s) \<Rightarrow>
          let n1 = n\<lparr>nd_db := s\<rparr> in
          (removed, if removed \<or> \<not> already
                    then notify (CollectionDropped db coll) (snd (discardOps h (\<lambda>op. op_db op = db \<and> op_coll op = coll) n1)) else n1))"

definition nodeCreateDatabase :: "string \<Rightarrow> jsv \<Rightarrow> node \<Rightarrow> (node_error + jsv) \<times> node" where
  "nodeCreateDatabase db meta n =
     (case createDatabase db meta (nd_db n) of
        (Inl e, s) \<Rightarrow> (Inl (StoreFailed e), n\<lparr>nd_db := s\<rparr>)
      | (Inr next, s) \<Rightarrow> (Inr next, notify (DatabaseChanged db) (n\<lparr>nd_db := s\<rparr>)))"

definition nodeSetCollectionMeta :: "host \<Rightarrow> string \<Rightarrow> string \<Rightarrow> jsv \<Rightarrow> node \<Rightarrow> (node_error + unit) \<times> node" where
  "nodeSetCollectionMeta h db coll meta n =
     (case setCollectionMeta h db coll meta (nd_db n) of
        (Inl e, s) \<Rightarrow> (Inl (StoreFailed e), n\<lparr>nd_db := s\<rparr>)
      | (Inr jobs, s) \<Rightarrow> (Inr (), notify (MetaChanged db coll) (n\<lparr>nd_db := s\<rparr>)))"

definition nodeCreateCollection :: "host \<Rightarrow> string \<Rightarrow> string \<Rightarrow> jsv \<Rightarrow> node \<Rightarrow> (node_error + unit) \<times> node" where
  "nodeCreateCollection h db coll meta n =
     (case createCollection h db coll meta (nd_db n) of
        (Inl e, s) \<Rightarrow> (Inl (StoreFailed e), n\<lparr>nd_db := s\<rparr>)
      | (Inr jobs, s) \<Rightarrow> (Inr (), notify (MetaChanged db coll) (n\<lparr>nd_db := s\<rparr>)))"

text \<open>The rows of a snapshot: the clock is moved past what they carry, a row without a shard gets that of the scope or of its id.\<close>

definition touch_row :: "clock \<Rightarrow> snap_row \<Rightarrow> clock" where
  "touch_row clk row =
     (if sr_deleted row \<noteq> None then touch (if sr_ts row \<noteq> None then touch clk (sr_ts row) else clk) (sr_deleted row)
      else if sr_ts row \<noteq> None then touch clk (sr_ts row) else clk)"

definition shard_row :: "node \<Rightarrow> string option \<Rightarrow> snap_row \<Rightarrow> snap_row" where
  "shard_row n scopeShard row =
     (if truthy (sr_shard row) then row
      else row\<lparr>sr_shard := JStr (case scopeShard of
             Some s \<Rightarrow> if s = [] then nodeShardFor n (case sr_id row of None \<Rightarrow> ''undefined'' | Some i \<Rightarrow> i) else s
           | None \<Rightarrow> nodeShardFor n (case sr_id row of None \<Rightarrow> ''undefined'' | Some i \<Rightarrow> i))\<rparr>)"

definition nodeSnapshotObjects :: "host \<Rightarrow> string \<Rightarrow> string \<Rightarrow> snap_row list \<Rightarrow> nat \<Rightarrow> string option \<Rightarrow> string \<Rightarrow> node \<Rightarrow>
    (node_error + nat) \<times> node" where
  "nodeSnapshotObjects h db coll rows lastSeq scopeShard key n =
     (if db = [] \<or> coll = [] then (Inr 0, n)
      else let n1 = n\<lparr>nd_clock := foldl touch_row (nd_clock n) rows\<rparr> in
           (case storeSnapshotObjects h True db coll (map (shard_row n1 scopeShard) rows) (nd_db n1) of
              (Inl e, s) \<Rightarrow> (Inl (StoreFailed e), n1\<lparr>nd_db := s\<rparr>)
            | (Inr count, s) \<Rightarrow>
                let n2 = n1\<lparr>nd_db := s, nd_lastSeen := jm_set key lastSeq (nd_lastSeen n1)\<rparr>
                in (Inr count, if 0 < count then notify SnapshotApplied n2 else n2)))"

subsection \<open>Peers\<close>

definition isSelfPeer :: "host \<Rightarrow> node \<Rightarrow> jsv \<Rightarrow> bool" where
  "isSelfPeer h n peer \<longleftrightarrow>
     normalizeUrl h (jprop peer ''url'') = nd_url n \<or> jprop peer ''nodeId'' = JStr (nd_id n) \<or> jprop peer ''key'' = JStr (nd_id n)"

text \<open>\<open>null\<close> and the empty url are no url.\<close>

definition has_url :: "node \<Rightarrow> bool" where
  "has_url n \<longleftrightarrow> nd_url n \<noteq> None \<and> nd_url n \<noteq> Some []"

definition ownsShard :: "host \<Rightarrow> node \<Rightarrow> string \<Rightarrow> bool" where
  "ownsShard h n shard \<longleftrightarrow>
     \<not> has_url n \<or> peersFor (nd_shardMap n) shard = [] \<or> list_ex (isSelfPeer h n) (peersFor (nd_shardMap n) shard)"

definition isPrimaryForShard :: "host \<Rightarrow> node \<Rightarrow> string \<Rightarrow> bool" where
  "isPrimaryForShard h n shard \<longleftrightarrow>
     \<not> has_url n \<or> (case peersFor (nd_shardMap n) shard of [] \<Rightarrow> True | peer # rest \<Rightarrow> isSelfPeer h n peer)"

definition routingPeersForShard :: "host \<Rightarrow> node \<Rightarrow> string \<Rightarrow> jsv list" where
  "routingPeersForShard h n shard =
     filter (\<lambda>peer. truthy (jprop peer ''url'') \<and> \<not> isSelfPeer h n peer) (peersFor (nd_shardMap n) shard)"

definition ownedShardTargets :: "host \<Rightarrow> node \<Rightarrow> (string \<times> jsv list) list" where
  "ownedShardTargets h n =
     (if \<not> has_url n then syncTargets (nd_shardMap n)
      else filter (\<lambda>(shard, peers). list_ex (isSelfPeer h n) peers) (syncTargets (nd_shardMap n)))"

definition syncPeersForTarget :: "host \<Rightarrow> node \<Rightarrow> jsv list \<Rightarrow> jsv list" where
  "syncPeersForTarget h n peers = (if has_url n then filter (\<lambda>peer. \<not> isSelfPeer h n peer) peers else peers)"

subsection \<open>The history of a node\<close>

text \<open>What a node does, as far as its log is concerned: it logs the operations of its own writes, and takes acknowledgements and deletions.\<close>

datatype node_op =
    NWrite "rop list"
  | NAck string nat "scope option"
  | NDropDb string
  | NDropColl string string
  | NRemote "rop list" string

fun log_step :: "host \<Rightarrow> node \<Rightarrow> node_op \<Rightarrow> node" where
  "log_step h n (NWrite ops) = snd (commitLocalOps h ops n)"
| "log_step h n (NAck peer after sc) = snd (receiveAck h peer after sc n)"
| "log_step h n (NDropDb db) = snd (removeDatabase h db n)"
| "log_step h n (NDropColl db coll) = snd (removeCollection h db coll n)"
| "log_step h n (NRemote ops key) = snd (applyRemote h ops key n)"

fun history :: "host \<Rightarrow> node \<Rightarrow> node_op list \<Rightarrow> rop list" where
  "history h n [] = []"
| "history h n (NWrite ops # ps) = fst (logOps ops n) @ history h (log_step h n (NWrite ops)) ps"
| "history h n (p # ps) = history h (log_step h n p) ps"

text \<open>What the log part of a node is.\<close>

definition log_part :: "node \<Rightarrow> rop list \<times> nat \<times> nat \<times> (string, nat) jmap \<times> bool" where
  "log_part n = (nd_log n, nd_seq n, nd_trimmed n, nd_scopeTrimmed n, nd_operationLog n)"

lemma log_part_eq:
  "log_part n' = log_part n \<longleftrightarrow> nd_log n' = nd_log n \<and> nd_seq n' = nd_seq n \<and> nd_trimmed n' = nd_trimmed n \<and>
     nd_scopeTrimmed n' = nd_scopeTrimmed n \<and> nd_operationLog n' = nd_operationLog n"
  by (auto simp: log_part_def)

lemma apply_log_part: "nodeApplyOps h ops n = (r, n') \<Longrightarrow> log_part n' = log_part n"
  by (auto simp: nodeApplyOps_def log_part_def split: prod.splits)

lemma notify_log_part: "log_part (notify ch n) = log_part n" "log_part (notifyOps ops n) = log_part n"
  by (simp_all add: notify_def notifyOps_def log_part_def)

lemma commit_log_part: "commitLocalOps h ops n = (r, n') \<Longrightarrow> log_part n' = log_part (snd (logOps ops n))"
  by (cases "logOps ops n"; cases "nodeApplyOps h (fst (logOps ops n)) (snd (logOps ops n))"; cases "fst (nodeApplyOps h (fst (logOps ops n)) (snd (logOps ops n)))")
    (auto simp: commitLocalOps_def notify_log_part dest: apply_log_part)

lemma remote_log_part: "applyRemote h ops key n = (r, n') \<Longrightarrow> log_part n' = log_part n"
proof -
  assume remote: "applyRemote h ops key n = (r, n')"
  define n1 where "n1 = n\<lparr>nd_clock := touch_all ops (nd_clock n)\<rparr>"
  obtain t n2 where a: "nodeApplyOps h (map (with_shard n1) ops) n1 = (t, n2)" by (cases "nodeApplyOps h (map (with_shard n1) ops) n1")
  have "log_part n2 = log_part n" using apply_log_part [OF a] by (simp add: n1_def log_part_def)
  moreover have "log_part n' = log_part n2"
  proof (cases t)
    case (Inl e)
    then show ?thesis using remote a by (simp add: applyRemote_def n1_def [symmetric])
  next
    case (Inr b)
    have "n' = raise_seen key (if ops = [] then 0 else op_seq (last ops)) (notifyOps b n2)"
      using remote a Inr by (simp add: applyRemote_def n1_def [symmetric])
    then have "log_part n' = log_part (notifyOps b n2)" by (simp add: raise_seen_def log_part_def)
    then show ?thesis by (simp only: notify_log_part)
  qed
  ultimately show ?thesis by simp
qed

lemma logOps_effect:
  assumes "logOps ops n = (numbered, n')" and "nd_operationLog n"
  shows "map op_seq numbered = [Suc (nd_seq n)..<Suc (nd_seq n + length ops)] \<and> nd_seq n' = nd_seq n + length ops \<and>
    nd_log n' = nd_log n @ numbered \<and> nd_trimmed n' = nd_trimmed n \<and> nd_scopeTrimmed n' = nd_scopeTrimmed n \<and> nd_operationLog n'"
  using assms
proof (induction ops arbitrary: n numbered)
  case (Cons op ops)
  obtain op1 n1 where one: "logOp op n = (op1, n1)" by (cases "logOp op n")
  obtain rest n2 where more: "logOps ops n1 = (rest, n2)" by (cases "logOps ops n1")
  have eff: "op_seq op1 = Suc (nd_seq n)" "nd_seq n1 = Suc (nd_seq n)" "nd_log n1 = nd_log n @ [op1]" "nd_operationLog n1"
    "nd_trimmed n1 = nd_trimmed n" "nd_scopeTrimmed n1 = nd_scopeTrimmed n"
    using one Cons.prems(2) by (auto simp: logOp_def Let_def)
  have res: "numbered = op1 # rest" "n' = n2" using Cons.prems(1) one more by simp_all
  note IH = Cons.IH [OF more [folded res(2)] eff(4)]
  have up: "[Suc (nd_seq n)..<Suc (nd_seq n + length (op # ops))] = Suc (nd_seq n) # [Suc (nd_seq n1)..<Suc (nd_seq n1 + length ops)]"
    by (simp add: eff(2) upt_rec)
  show ?case using IH up by (simp add: res eff)
qed simp


text \<open>An operation as the code writes them: names without line breaks and a shard.\<close>

definition clean_op :: "rop \<Rightarrow> bool" where
  "clean_op op \<longleftrightarrow> op_db op \<noteq> [] \<and> op_coll op \<noteq> [] \<and> newline \<notin> set (op_db op) \<and> newline \<notin> set (op_coll op) \<and>
     (\<exists>s. op_shard op = JStr s \<and> s \<noteq> [] \<and> newline \<notin> set s)"

definition trim_key :: "host \<Rightarrow> rop \<Rightarrow> string" where
  "trim_key h op = nodeScopeKey (op_db op) (op_coll op) (js_to_string h (op_shard op))"

definition remembered :: "host \<Rightarrow> node \<Rightarrow> rop \<Rightarrow> bool" where
  "remembered h n op \<longleftrightarrow> (\<exists>s. jm_get (nd_scopeTrimmed n) (trim_key h op) = Some s \<and> op_seq op \<le> s)"

lemma remember_one:
  "nd_log (rememberScopeTrim h op n) = nd_log n" "nd_seq (rememberScopeTrim h op n) = nd_seq n"
  "nd_trimmed (rememberScopeTrim h op n) = nd_trimmed n" "nd_operationLog (rememberScopeTrim h op n) = nd_operationLog n"
  "remembered h n x \<Longrightarrow> remembered h (rememberScopeTrim h op n) x" "clean_op op \<Longrightarrow> remembered h (rememberScopeTrim h op n) op"
  by (auto simp: rememberScopeTrim_def Let_def remembered_def trim_key_def seen_of_def clean_op_def split: option.split)

lemma remember_all_fields:
  "nd_log (remember_all h ops n) = nd_log n" "nd_seq (remember_all h ops n) = nd_seq n"
  "nd_trimmed (remember_all h ops n) = nd_trimmed n" "nd_operationLog (remember_all h ops n) = nd_operationLog n"
  "remembered h n x \<Longrightarrow> remembered h (remember_all h ops n) x"
  unfolding remember_all_def by (induction ops arbitrary: n) (simp_all add: remember_one)

lemma remember_all_ops:
  "op \<in> set ops \<Longrightarrow> clean_op op \<Longrightarrow> remembered h (remember_all h ops n) op"
proof (induction ops arbitrary: n)
  case (Cons a ops)
  show ?case
  proof (cases "op \<in> set ops")
    case True
    then show ?thesis using Cons by (simp add: remember_all_def)
  next
    case False
    then have "op = a" using Cons.prems by simp
    then have "remembered h (rememberScopeTrim h a n) op" using remember_one(6) Cons.prems(2) by blast
    then show ?thesis using remember_all_fields(5) by (simp add: remember_all_def)
  qed
qed simp

text \<open>
  The log is the history less what was trimmed or dropped, what is missing in it is remembered for its scope, and only what is not
  behind the trim mark was dropped with its collection.
\<close>

definition log_ok :: "host \<Rightarrow> node \<Rightarrow> rop list \<Rightarrow> (rop \<Rightarrow> bool) \<Rightarrow> bool" where
  "log_ok h n H dropped \<longleftrightarrow> nd_operationLog n \<and> map op_seq H = [1..<Suc (nd_seq n)] \<and> nd_trimmed n \<le> nd_seq n \<and>
     nd_log n = filter (\<lambda>op. op \<in> set (nd_log n)) H \<and>
     (\<forall>op \<in> set H. op \<notin> set (nd_log n) \<longrightarrow> remembered h n op \<and> (op_seq op \<le> nd_trimmed n \<or> dropped op))"

lemma log_okI:
  assumes "nd_operationLog n" "map op_seq H = [1..<Suc (nd_seq n)]" "nd_trimmed n \<le> nd_seq n" "nd_log n = filter P H"
    and "\<And>op. op \<in> set H \<Longrightarrow> \<not> P op \<Longrightarrow> remembered h n op \<and> (op_seq op \<le> nd_trimmed n \<or> dropped op)"
  shows "log_ok h n H dropped"
proof -
  have "nd_log n = filter (\<lambda>op. op \<in> set (nd_log n)) H"
    unfolding assms(4) by (rule filter_cong) auto
  moreover have "op \<notin> set (nd_log n) \<Longrightarrow> op \<in> set H \<Longrightarrow> \<not> P op" for op by (simp add: assms(4))
  ultimately show ?thesis using assms(1-3,5) unfolding log_ok_def by blast
qed

lemma log_okD:
  assumes "log_ok h n H dropped"
  shows "nd_operationLog n" "map op_seq H = [1..<Suc (nd_seq n)]" "nd_trimmed n \<le> nd_seq n" "nd_log n = filter (\<lambda>op. op \<in> set (nd_log n)) H"
    "op \<in> set H \<Longrightarrow> op \<notin> set (nd_log n) \<Longrightarrow> remembered h n op \<and> (op_seq op \<le> nd_trimmed n \<or> dropped op)"
  using assms unfolding log_ok_def by blast+

lemma log_ok_cong: "log_part n' = log_part n \<Longrightarrow> log_ok h n H dropped \<Longrightarrow> log_ok h n' H dropped"
  by (simp add: log_ok_def log_part_eq remembered_def)

lemma log_ok_weaken: "log_ok h n H dropped \<Longrightarrow> (\<And>op. dropped op \<Longrightarrow> dropped' op) \<Longrightarrow> log_ok h n H dropped'"
  unfolding log_ok_def by blast

text \<open>Taking operations out of the log and remembering them.\<close>

lemma log_ok_remove:
  assumes ok: "log_ok h n H dropped" and clean: "\<forall>op \<in> set H. clean_op op"
    and seq: "nd_seq n' = nd_seq n" "nd_operationLog n' = nd_operationLog n" "nd_trimmed n \<le> nd_trimmed n'" "nd_trimmed n' \<le> nd_seq n"
    and log: "nd_log n' = filter stays (nd_log n)"
    and mem: "\<And>op. remembered h n op \<Longrightarrow> remembered h n' op" "\<And>op. op \<in> set (nd_log n) \<Longrightarrow> \<not> stays op \<Longrightarrow> clean_op op \<Longrightarrow> remembered h n' op"
    and gone: "\<And>op. op \<in> set (nd_log n) \<Longrightarrow> \<not> stays op \<Longrightarrow> op_seq op \<le> nd_trimmed n' \<or> dropped op"
  shows "log_ok h n' H dropped"
proof (rule log_okI)
  show "nd_operationLog n'" "map op_seq H = [1..<Suc (nd_seq n')]" "nd_trimmed n' \<le> nd_seq n'"
    using log_okD(1,2) [OF ok] seq by simp_all
  show "nd_log n' = filter (\<lambda>op. op \<in> set (nd_log n) \<and> stays op) H"
    unfolding log by (subst log_okD(4) [OF ok]) (simp add: conj_commute)
  fix op assume op: "op \<in> set H" "\<not> (op \<in> set (nd_log n) \<and> stays op)"
  show "remembered h n' op \<and> (op_seq op \<le> nd_trimmed n' \<or> dropped op)"
  proof (cases "op \<in> set (nd_log n)")
    case True
    then show ?thesis using op clean mem(2) gone by blast
  next
    case False
    then show ?thesis using log_okD(5) [OF ok op(1)] mem(1) seq(3) by force
  qed
qed

lemma numbered_distinct: "map op_seq H = [1..<Suc m] \<Longrightarrow> distinct H"
  by (metis distinct_map distinct_upt)

lemma write_log_ok:
  assumes ok: "log_ok h n H dropped" and w: "logOps ops n = (numbered, n1)"
  shows "log_ok h n1 (H @ numbered) dropped"
proof -
  note e = logOps_effect [OF w log_okD(1) [OF ok]]
  have seqs: "map op_seq (H @ numbered) = [1..<Suc (nd_seq n1)]"
  proof -
    have "[1..<Suc (nd_seq n + length ops)] = [1..<Suc (nd_seq n)] @ [Suc (nd_seq n)..<Suc (nd_seq n) + length ops]"
      by (metis One_nat_def Suc_le_mono add_Suc le0 upt_add_eq_append)
    then show ?thesis using e log_okD(2) [OF ok] by simp
  qed
  have new: "op \<notin> set H" if "op \<in> set numbered" for op
    using numbered_distinct [OF seqs] that by auto
  define P where "P = (\<lambda>op. op \<in> set (nd_log n) \<or> op \<in> set numbered)"
  have "filter P H = filter (\<lambda>op. op \<in> set (nd_log n)) H" using new by (intro filter_cong) (auto simp: P_def)
  then have log: "nd_log n1 = filter P (H @ numbered)" using e log_okD(4) [OF ok] by (simp add: P_def)
  show ?thesis
  proof (rule log_okI [OF _ seqs _ log])
    show "nd_operationLog n1" "nd_trimmed n1 \<le> nd_seq n1" using e log_okD(3) [OF ok] by simp_all
    fix op assume op: "op \<in> set (H @ numbered)" "\<not> P op"
    then have "remembered h n op \<and> (op_seq op \<le> nd_trimmed n \<or> dropped op)" using log_okD(5) [OF ok] by (simp add: P_def)
    then show "remembered h n1 op \<and> (op_seq op \<le> nd_trimmed n1 \<or> dropped op)" using e by (simp add: remembered_def)
  qed
qed

lemma prune_log_ok:
  assumes ok: "log_ok h n H dropped" and clean: "\<forall>op \<in> set H. clean_op op"
  shows "log_ok h (snd (prune h n)) H dropped"
proof (cases "snd (prune h n) = n")
  case False
  then obtain w where w: "watermark n = Some w" "\<not> w - nd_retainOps n \<le> nd_trimmed n" "min (w - nd_retainOps n) (nd_seq n) - nd_trimmed n \<noteq> 0"
    by (auto simp: prune_def Let_def split: option.splits if_splits)
  define cut where "cut = min (w - nd_retainOps n) (nd_seq n)"
  define n1 where "n1 = remember_all h (filter (\<lambda>op. op_seq op \<le> cut) (nd_log n)) (n\<lparr>nd_log := filter (\<lambda>op. cut < op_seq op) (nd_log n)\<rparr>)"
  have p: "snd (prune h n) = n1\<lparr>nd_trimmed := cut\<rparr>" using w by (simp add: prune_def Let_def cut_def n1_def)
  have cut: "nd_trimmed n \<le> cut" "cut \<le> nd_seq n" using w(2,3) by (simp_all add: cut_def)
  have base: "remembered h n op \<Longrightarrow> remembered h (n\<lparr>nd_log := l\<rparr>) op" for op l by (simp add: remembered_def)
  have trim: "remembered h m op \<Longrightarrow> remembered h (m\<lparr>nd_trimmed := x\<rparr>) op" for op m x by (simp add: remembered_def)
  show ?thesis unfolding p
  proof (rule log_ok_remove [OF ok clean, where stays = "\<lambda>op. cut < op_seq op"])
    show "nd_seq (n1\<lparr>nd_trimmed := cut\<rparr>) = nd_seq n" "nd_operationLog (n1\<lparr>nd_trimmed := cut\<rparr>) = nd_operationLog n"
      "nd_trimmed n \<le> nd_trimmed (n1\<lparr>nd_trimmed := cut\<rparr>)" "nd_trimmed (n1\<lparr>nd_trimmed := cut\<rparr>) \<le> nd_seq n"
      "nd_log (n1\<lparr>nd_trimmed := cut\<rparr>) = filter (\<lambda>op. cut < op_seq op) (nd_log n)"
      using cut by (simp_all add: n1_def remember_all_fields)
    show "remembered h (n1\<lparr>nd_trimmed := cut\<rparr>) op" if "remembered h n op" for op
      using that base trim remember_all_fields(5) by (simp add: n1_def)
    show "remembered h (n1\<lparr>nd_trimmed := cut\<rparr>) op" if "op \<in> set (nd_log n)" "\<not> cut < op_seq op" "clean_op op" for op
      unfolding n1_def by (rule trim, rule remember_all_ops) (use that in auto)
  qed simp
qed (use ok in simp)

lemma ack_log_ok:
  assumes "log_ok h n H dropped" and "\<forall>op \<in> set H. clean_op op"
  shows "log_ok h (snd (receiveAck h peer after sc n)) H dropped"
  unfolding receiveAck_def
  by (rule prune_log_ok [OF _ assms(2)]) (rule log_ok_cong [OF _ assms(1)], simp add: log_part_def)

lemma discard_log_ok:
  assumes ok: "log_ok h n H dropped" and clean: "\<forall>op \<in> set H. clean_op op" and gone: "\<And>op. matches op \<Longrightarrow> dropped op"
  shows "log_ok h (snd (discardOps h matches n)) H dropped"
proof -
  define n1 where "n1 = remember_all h (filter matches (nd_log n)) (n\<lparr>nd_log := filter (\<lambda>op. \<not> matches op) (nd_log n)\<rparr>)"
  have d: "snd (discardOps h matches n) = n1" by (simp add: discardOps_def n1_def Let_def)
  have base: "remembered h n op \<Longrightarrow> remembered h (n\<lparr>nd_log := l\<rparr>) op" for op l by (simp add: remembered_def)
  show ?thesis unfolding d
  proof (rule log_ok_remove [OF ok clean, where stays = "\<lambda>op. \<not> matches op"])
    show "nd_seq n1 = nd_seq n" "nd_operationLog n1 = nd_operationLog n" "nd_trimmed n \<le> nd_trimmed n1" "nd_trimmed n1 \<le> nd_seq n"
      "nd_log n1 = filter (\<lambda>op. \<not> matches op) (nd_log n)"
      using log_okD(3) [OF ok] by (simp_all add: n1_def remember_all_fields)
    show "remembered h n1 op" if "remembered h n op" for op using that base remember_all_fields(5) by (simp add: n1_def)
    show "remembered h n1 op" if "op \<in> set (nd_log n)" "\<not> \<not> matches op" "clean_op op" for op
      unfolding n1_def by (rule remember_all_ops) (use that in auto)
  qed (use gone in blast)
qed

text \<open>What a run drops.\<close>

fun drops :: "node_op \<Rightarrow> rop \<Rightarrow> bool" where
  "drops (NDropDb db) op \<longleftrightarrow> op_db op = db"
| "drops (NDropColl db coll) op \<longleftrightarrow> op_db op = db \<and> op_coll op = coll"
| "drops p op \<longleftrightarrow> False"

lemma step_log_ok:
  assumes ok: "log_ok h n H dropped" and clean: "\<forall>op \<in> set (H @ history h n [p]). clean_op op" and gone: "\<And>op. drops p op \<Longrightarrow> dropped op"
  shows "log_ok h (log_step h n p) (H @ history h n [p]) dropped"
proof (cases p)
  case (NWrite ops)
  obtain numbered n1 where l: "logOps ops n = (numbered, n1)" by (cases "logOps ops n")
  obtain r n2 where c: "commitLocalOps h ops n = (r, n2)" by (cases "commitLocalOps h ops n")
  have "log_part n2 = log_part n1" using commit_log_part [OF c] l by simp
  then show ?thesis using log_ok_cong write_log_ok [OF ok l] by (simp add: NWrite c l)
next
  case (NAck peer after sc)
  then show ?thesis using ack_log_ok [OF ok] clean by simp
next
  case (NDropDb db)
  obtain r s where d: "deleteDatabase db (nd_db n) = (r, s)" by (cases "deleteDatabase db (nd_db n)")
  have ok1: "log_ok h (n\<lparr>nd_db := s\<rparr>) H dropped" by (rule log_ok_cong [OF _ ok]) (simp add: log_part_def)
  have "log_ok h (snd (discardOps h (\<lambda>op. op_db op = db) (n\<lparr>nd_db := s\<rparr>))) H dropped"
    by (rule discard_log_ok [OF ok1]) (use clean gone NDropDb in auto)
  then show ?thesis using ok1 by (auto simp: NDropDb removeDatabase_def d Let_def intro: log_ok_cong [OF notify_log_part(1)])
next
  case (NDropColl db coll)
  obtain r s where d: "deleteCollection db coll (nd_db n) = (r, s)" by (cases "deleteCollection db coll (nd_db n)")
  have ok1: "log_ok h (n\<lparr>nd_db := s\<rparr>) H dropped" by (rule log_ok_cong [OF _ ok]) (simp add: log_part_def)
  have "log_ok h (snd (discardOps h (\<lambda>op. op_db op = db \<and> op_coll op = coll) (n\<lparr>nd_db := s\<rparr>))) H dropped"
    by (rule discard_log_ok [OF ok1]) (use clean gone NDropColl in auto)
  then show ?thesis using ok1 by (auto simp: NDropColl removeCollection_def d Let_def intro: log_ok_cong [OF notify_log_part(1)])
next
  case (NRemote ops key)
  obtain r n1 where a: "applyRemote h ops key n = (r, n1)" by (cases "applyRemote h ops key n")
  show ?thesis using log_ok_cong [OF remote_log_part [OF a] ok] by (simp add: NRemote a)
qed

lemma history_Cons: "history h n (p # ps) = history h n [p] @ history h (log_step h n p) ps"
  by (cases p) simp_all

lemma run_log_ok:
  assumes "log_ok h n H dropped" and "\<forall>op \<in> set (H @ history h n ps). clean_op op" and "\<And>p op. p \<in> set ps \<Longrightarrow> drops p op \<Longrightarrow> dropped op"
  shows "log_ok h (foldl (log_step h) n ps) (H @ history h n ps) dropped"
  using assms
proof (induction ps arbitrary: n H)
  case (Cons p ps)
  have h: "history h n (p # ps) = history h n [p] @ history h (log_step h n p) ps" by (rule history_Cons)
  have "log_ok h (log_step h n p) (H @ history h n [p]) dropped"
    by (rule step_log_ok [OF Cons.prems(1)]) (use Cons.prems(2,3) h in auto)
  note IH = Cons.IH [OF this]
  have "log_ok h (foldl (log_step h) (log_step h n p) ps) ((H @ history h n [p]) @ history h (log_step h n p) ps) dropped"
    by (rule IH) (use Cons.prems(2,3) h in auto)
  then show ?case by (simp add: h)
qed simp

lemma parse_scope: "clean_op op \<Longrightarrow> parseScopeKey (trim_key h op) = \<lparr>sc_db = op_db op, sc_coll = op_coll op, sc_shard = js_to_string h (op_shard op)\<rparr>"
proof -
  have split: "newline \<notin> set a \<Longrightarrow> split_on newline (a @ newline # b) = a # split_on newline b" for a b
    by (induction a) (auto split: list.split)
  have "newline \<notin> set a \<Longrightarrow> split_on newline a = [a]" for a by (induction a) auto
  then show "clean_op op \<Longrightarrow> parseScopeKey (trim_key h op) = \<lparr>sc_db = op_db op, sc_coll = op_coll op, sc_shard = js_to_string h (op_shard op)\<rparr>"
    by (auto simp: clean_op_def trim_key_def nodeScopeKey_def parseScopeKey_def split)
qed

text \<open>C9: A pull that is not answered with 410 passes over nothing: whatever a node wrote, received, dropped and pruned on acknowledgements,
the operations it gives a peer for a scope are exactly those of its whole history in that scope after the cursor; without a scope only
operations of collections that were dropped can be missing.\<close>

theorem pull_passes_over_nothing:
  assumes "n = foldl (log_step h) (newNode h ident url db retainOps batch shardMap True) ps"
    and "H = history h (newNode h ident url db retainOps batch shardMap True) ps" and "\<forall>op \<in> set H. clean_op op"
    and "\<not> needsSnapshot after sc n"
  shows "(case sc of
      Some s \<Rightarrow> opsAfter after 0 sc n = filter (\<lambda>op. after < op_seq op \<and> opMatchesScope op s) H
    | None \<Rightarrow> \<exists>kept. opsAfter after 0 sc n = filter (\<lambda>op. after < op_seq op \<and> op \<in> kept) H \<and>
        (\<forall>op \<in> set H. after < op_seq op \<longrightarrow> op \<notin> kept \<longrightarrow> (\<exists>p \<in> set ps. drops p op)))"
proof -
  define dropped where "dropped = (\<lambda>op. \<exists>p \<in> set ps. drops p op)"
  have "log_ok h (newNode h ident url db retainOps batch shardMap True) [] dropped"
    by (rule log_okI [where P = "\<lambda>op. True"]) (simp_all add: newNode_def)
  from run_log_ok [OF this, of ps] have ok: "log_ok h n H dropped" using assms(1-3) by (auto simp: dropped_def)
  note D = log_okD [OF ok]
  show ?thesis
  proof (cases sc)
    case None
    have "opsAfter after 0 sc n = filter (\<lambda>op. after < op_seq op \<and> op \<in> set (nd_log n)) H"
      by (simp add: opsAfter_def None) (subst D(4), simp add: conj_commute)
    moreover have "\<forall>op \<in> set H. after < op_seq op \<longrightarrow> op \<notin> set (nd_log n) \<longrightarrow> dropped op"
      using D(5) assms(4) by (fastforce simp: None needsSnapshot_def)
    ultimately show ?thesis unfolding None dropped_def option.case by blast
  next
    case (Some s)
    have there: "op \<in> set (nd_log n)" if op: "op \<in> set H" "after < op_seq op" "opMatchesScope op s" for op
    proof (rule ccontr)
      assume "op \<notin> set (nd_log n)"
      then obtain t where t: "jm_get (nd_scopeTrimmed n) (trim_key h op) = Some t" "op_seq op \<le> t"
        using D(5) [OF op(1)] by (auto simp: remembered_def)
      have "scopeMatches (parseScopeKey (trim_key h op)) s"
        using parse_scope op(1,3) assms(3) by (auto simp: scopeMatches_def opMatchesScope_def)
      then have "needsSnapshot after sc n"
        using t(2) op(2) by (auto simp: Some needsSnapshot_def list_ex_iff intro!: bexI [OF _ map_of_SomeD [OF t(1)]])
      then show False using assms(4) by blast
    qed
    have "opsAfter after 0 sc n = filter (\<lambda>op. (after < op_seq op \<and> opMatchesScope op s) \<and> op \<in> set (nd_log n)) H"
      by (simp add: opsAfter_def Some) (subst D(4), simp add: conj_ac)
    also have "\<dots> = filter (\<lambda>op. after < op_seq op \<and> opMatchesScope op s) H"
      using there by (intro filter_cong) auto
    finally show ?thesis by (simp add: Some)
  qed
qed

definition sample_node :: node where
  "sample_node = newNode plain_host ''a'' JUndef (newStore (ShapeEngine newShapeStore) None) 0 10 newShardDir True"

definition everything :: scope where
  "everything = \<lparr>sc_db = GLOBAL_DATABASE, sc_coll = GLOBAL_COLLECTION, sc_shard = DEFAULT_SHARD\<rparr>"

theorem pull_passes_over_nothing_witness:
  "opsAfter 0 0 (Some everything) (foldl (log_step plain_host) sample_node [NWrite [late_put]]) =
     filter (\<lambda>op. 0 < op_seq op \<and> opMatchesScope op everything) (history plain_host sample_node [NWrite [late_put]])"
proof -
  obtain r n1 where c: "commitLocalOps plain_host [late_put] sample_node = (r, n1)" by (cases "commitLocalOps plain_host [late_put] sample_node")
  have "log_part n1 = log_part (snd (logOps [late_put] sample_node))" by (rule commit_log_part [OF c])
  then have empty: "nd_scopeTrimmed n1 = []"
    by (simp add: log_part_def logOp_def Let_def sample_node_def newNode_def)
  have "\<forall>op \<in> set (history plain_host sample_node [NWrite [late_put]]). clean_op op"
    by (simp add: logOp_def Let_def with_shard_def late_put_def clean_op_def newline_def char_of_def nodeShardFor_def
        sample_node_def newNode_def newShardDir_def shardForObject_def shardsForCollection_def DEFAULT_SHARD_def)
  moreover have "\<not> needsSnapshot 0 (Some everything) (foldl (log_step plain_host) sample_node [NWrite [late_put]])"
    using empty by (simp add: c needsSnapshot_def)
  ultimately show ?thesis
    using pull_passes_over_nothing [OF sample_node_def [THEN arg_cong, where f = "\<lambda>n. foldl (log_step plain_host) n [NWrite [late_put]]"] refl,
        where sc = "Some everything" and after = 0] by (simp add: sample_node_def)
qed

end
