(* ===== verification/NodeSync.thy ===== *)
theory NodeSync
  imports NodeLog
begin

text \<open>
  Synchronisation with a peer (\<open>syncPeer\<close> and \<open>syncAll\<close> of src/src/crdt.js): the node pulls batches from where its cursor stands, applies
  them, moves the cursor and acknowledges, until the peer has nothing more. What a peer is is an argument: \<open>pf_pull\<close> and \<open>pf_ack\<close> act on
  a state of the world; \<open>localPeer\<close> is the peer that is a node of the same process, the world being that node. A handler of truncated
  logs gives the number of rows it restored. The loop has fuel, one unit for each pull.
\<close>

record response =
  rs_status :: nat
  rs_nodeId :: string
  rs_lastSeq :: nat
  rs_trimmed :: nat
  rs_ops :: "rop list"
  rs_batches :: "rop list list option"

record 'w peer_fns =
  pf_pull :: "jsv \<Rightarrow> nat \<Rightarrow> nat \<Rightarrow> scope option \<Rightarrow> 'w \<Rightarrow> unit + response option"
  pf_ack :: "jsv \<Rightarrow> string \<Rightarrow> nat \<Rightarrow> scope option \<Rightarrow> 'w \<Rightarrow> 'w"

type_synonym truncated_handler = "scope option \<Rightarrow> nat \<Rightarrow> response \<Rightarrow> node \<Rightarrow> node \<times> nat option"

text \<open>\<open>peer.nodeId || peer.key\<close>.\<close>

definition peer_name :: "host \<Rightarrow> jsv \<Rightarrow> string" where
  "peer_name h peer =
     (if truthy (jprop peer ''nodeId'') then js_to_string h (jprop peer ''nodeId'')
      else if truthy (jprop peer ''key'') then js_to_string h (jprop peer ''key'') else ''undefined'')"

text \<open>\<open>res.nodeId || res.node || peer.nodeId\<close>, empty when there is none.\<close>

definition remote_name :: "host \<Rightarrow> response \<Rightarrow> jsv \<Rightarrow> string" where
  "remote_name h res peer =
     (if rs_nodeId res \<noteq> [] then rs_nodeId res
      else if truthy (jprop peer ''nodeId'') then js_to_string h (jprop peer ''nodeId'') else [])"

definition bindPeer :: "string \<Rightarrow> string \<Rightarrow> jsv \<Rightarrow> node \<Rightarrow> jsv \<times> node" where
  "bindPeer nodeId previous peer n =
     (if nodeId = [] then (peer, n)
      else (JObj (jm_set ''nodeId'' (JStr nodeId) (entries_of peer)),
            if previous \<noteq> [] \<and> previous \<noteq> nodeId \<and> jm_has (nd_lastSeen n) previous
            then n\<lparr>nd_lastSeen := jm_del previous (jm_set nodeId
                     (max (seen_of (nd_lastSeen n) nodeId) (seen_of (nd_lastSeen n) previous)) (nd_lastSeen n))\<rparr>
            else n))"

text \<open>One batch: applied, the cursor moved, acknowledged.\<close>

definition take_batch :: "host \<Rightarrow> 'w peer_fns \<Rightarrow> jsv \<Rightarrow> scope option \<Rightarrow> string \<Rightarrow> nat \<Rightarrow> rop list \<Rightarrow> node \<Rightarrow> 'w \<Rightarrow>
    (node_error + nat) \<times> node \<times> 'w" where
  "take_batch h fns peer sc key seen ops n w =
     (case applyRemote h ops key n of
        (Inl e, n1) \<Rightarrow> (Inl e, n1, w)
      | (Inr count, n1) \<Rightarrow> (Inr count, raise_seen key seen n1, pf_ack fns peer (nd_id n1) seen sc w))"

fun take_batches :: "host \<Rightarrow> 'w peer_fns \<Rightarrow> jsv \<Rightarrow> scope option \<Rightarrow> string \<Rightarrow> rop list list \<Rightarrow> nat \<Rightarrow> nat \<Rightarrow> nat \<Rightarrow> node \<Rightarrow> 'w \<Rightarrow>
    (node_error + nat \<times> nat \<times> nat) \<times> node \<times> 'w" where
  "take_batches h fns peer sc key [] got tot seen n w = (Inr (got, tot, seen), n, w)"
| "take_batches h fns peer sc key (ops # batches) got tot seen n w =
     (if ops = [] then take_batches h fns peer sc key batches got tot seen n w
      else (case take_batch h fns peer sc key (op_seq (last ops)) ops n w of
              (Inl e, n1, w1) \<Rightarrow> (Inl e, n1, w1)
            | (Inr count, n1, w1) \<Rightarrow>
                take_batches h fns peer sc key batches (got + length ops) (tot + count) (op_seq (last ops)) n1 w1))"

text \<open>What a response that is not 410 brings: how many operations, the new tot, how far the cursor went.\<close>

definition take_response :: "host \<Rightarrow> 'w peer_fns \<Rightarrow> jsv \<Rightarrow> scope option \<Rightarrow> string \<Rightarrow> nat \<Rightarrow> response \<Rightarrow> nat \<Rightarrow> node \<Rightarrow> 'w \<Rightarrow>
    (node_error + nat \<times> nat \<times> nat) \<times> node \<times> 'w" where
  "take_response h fns peer sc key after res tot n w =
     (let behind = (if rs_lastSeq res = 0 then after else rs_lastSeq res) in
      case rs_batches res of
        Some batches \<Rightarrow>
          (case take_batches h fns peer sc key batches 0 tot after n w of
             (Inl e, n1, w1) \<Rightarrow> (Inl e, n1, w1)
           | (Inr (got, tot1, seen), n1, w1) \<Rightarrow>
               if got = 0
               then (Inr (0, tot1, behind), raise_seen key behind n1, pf_ack fns peer (nd_id n1) behind sc w1)
               else (Inr (got, tot1, seen), n1, w1))
      | None \<Rightarrow>
          let seen = (if rs_ops res = [] then behind else op_seq (last (rs_ops res))) in
          (case take_batch h fns peer sc key seen (rs_ops res) n w of
             (Inl e, n1, w1) \<Rightarrow> (Inl e, n1, w1)
           | (Inr count, n1, w1) \<Rightarrow> (Inr (length (rs_ops res), tot + count, seen), n1, w1)))"

text \<open>The answer to a 410: the rows are restored by the handler and the cursor must have moved.\<close>

definition recover_truncated :: "host \<Rightarrow> truncated_handler option \<Rightarrow> scope option \<Rightarrow> nat \<Rightarrow> response \<Rightarrow> string \<Rightarrow> jsv \<Rightarrow> node \<Rightarrow>
    (node_error + nat) \<times> node \<times> jsv" where
  "recover_truncated h handler sc after res key peer n =
     (let remote = remote_name h res peer in
      case bindPeer remote key peer n of
        (peer1, n1) \<Rightarrow>
          let remoteKey = cursorKey (if remote \<noteq> [] then remote else key) sc;
              before = (let s = seen_of (nd_lastSeen n1) remoteKey in if s = 0 then after else s) in
          (case (case handler of None \<Rightarrow> (n1, None) | Some f \<Rightarrow> f sc after res n1) of
             (n2, restored) \<Rightarrow>
               let seen = seen_of (nd_lastSeen n2) remoteKey;
                   rows = (case restored of None \<Rightarrow> 0 | Some r \<Rightarrow> r);
                   raised = (0 < rows \<and> seen < rs_trimmed res);
                   n3 = (if raised then n2\<lparr>nd_lastSeen := jm_set remoteKey (rs_trimmed res) (nd_lastSeen n2)\<rparr> else n2);
                   seen1 = (if raised then rs_trimmed res else seen)
               in if restored = None \<or> seen1 \<le> before then (Inl LogTruncated, n3, peer1) else (Inr rows, n3, peer1)))"

fun syncPeer :: "nat \<Rightarrow> host \<Rightarrow> 'w peer_fns \<Rightarrow> truncated_handler option \<Rightarrow> scope option \<Rightarrow> nat \<Rightarrow> jsv \<Rightarrow> node \<Rightarrow> 'w \<Rightarrow>
    ((node_error + nat) \<times> jsv \<times> node \<times> 'w) option" where
  "syncPeer 0 h fns handler sc tot peer n w = None"
| "syncPeer (Suc fuel) h fns handler sc tot peer n w =
     (let key = peer_name h peer; after = seen_of (nd_lastSeen n) (cursorKey key sc) in
      case pf_pull fns peer after (nd_syncBatchSize n) sc w of
        Inl _ \<Rightarrow> Some (Inl PeerFailed, peer, n, w)
      | Inr None \<Rightarrow> Some (Inr tot, peer, n, w)
      | Inr (Some res) \<Rightarrow>
          if rs_status res = 410
          then (case recover_truncated h handler sc after res key peer n of
                  (Inl e, n1, peer1) \<Rightarrow> Some (Inl e, peer1, n1, w)
                | (Inr rows, n1, peer1) \<Rightarrow> syncPeer fuel h fns handler sc (tot + rows) peer1 n1 w)
          else
            let remote = remote_name h res peer in
            if remote = [] \<or> remote = nd_id n then Some (Inr tot, peer, n, w)
            else
              (case bindPeer remote key peer n of
                 (peer1, n1) \<Rightarrow>
                   (case take_response h fns peer1 sc (cursorKey remote sc) after res tot n1 w of
                      (Inl e, n2, w2) \<Rightarrow> Some (Inl e, peer1, n2, w2)
                    | (Inr (got, tot1, seen), n2, w2) \<Rightarrow>
                        if got = 0 \<or> (if rs_lastSeq res = 0 then seen else rs_lastSeq res) \<le> seen
                        then Some (Inr tot1, peer1, n2, w2)
                        else syncPeer fuel h fns handler sc tot1 peer1 n2 w2)))"

text \<open>\<open>syncAll\<close>: every peer of every shard the node owns; a peer that fails is noted. The peer the sync has bound stays bound in the
shard map. The fuel is that of each peer.\<close>

definition rebind :: "string \<Rightarrow> jsv \<Rightarrow> jsv \<Rightarrow> node \<Rightarrow> node" where
  "rebind shard old new n =
     n\<lparr>nd_shardMap := (nd_shardMap n)\<lparr>sd_shards := map (\<lambda>(s, peers).
         (s, if s = shard then map (\<lambda>(k, p). (k, if p = old then new else p)) peers else peers)) (sd_shards (nd_shardMap n))\<rparr>\<rparr>"

fun sync_peers :: "nat \<Rightarrow> host \<Rightarrow> 'w peer_fns \<Rightarrow> truncated_handler option \<Rightarrow> (string \<times> jsv) list \<Rightarrow> nat \<Rightarrow> (string \<times> jsv \<times> node_error) list \<Rightarrow>
    node \<Rightarrow> 'w \<Rightarrow> (nat \<times> (string \<times> jsv \<times> node_error) list \<times> node \<times> 'w) option" where
  "sync_peers fuel h fns handler [] tot failures n w = Some (tot, failures, n, w)"
| "sync_peers fuel h fns handler ((shard, peer) # rest) tot failures n w =
     (case syncPeer fuel h fns handler (syncScopeForShard shard) 0 peer n w of
        None \<Rightarrow> None
      | Some (Inl e, peer1, n1, w1) \<Rightarrow>
          sync_peers fuel h fns handler rest tot (failures @ [(shard, peer1, e)]) (rebind shard peer peer1 n1) w1
      | Some (Inr count, peer1, n1, w1) \<Rightarrow>
          sync_peers fuel h fns handler rest (tot + count) failures (rebind shard peer peer1 n1) w1)"

definition syncAll :: "nat \<Rightarrow> host \<Rightarrow> 'w peer_fns \<Rightarrow> truncated_handler option \<Rightarrow> node \<Rightarrow> 'w \<Rightarrow>
    (nat \<times> (string \<times> jsv \<times> node_error) list \<times> node \<times> 'w) option" where
  "syncAll fuel h fns handler n w =
     sync_peers fuel h fns handler
       (concat (map (\<lambda>(shard, peers). map (Pair shard) (syncPeersForTarget h n peers)) (ownedShardTargets h n))) 0 [] n w"

subsection \<open>A node as a peer\<close>

definition localPull :: "nat \<Rightarrow> nat \<Rightarrow> scope option \<Rightarrow> node \<Rightarrow> response" where
  "localPull after limit sc n =
     (if needsSnapshot after sc n
      then \<lparr>rs_status = 410, rs_nodeId = nd_id n, rs_lastSeq = nd_seq n, rs_trimmed = nd_trimmed n, rs_ops = [], rs_batches = None\<rparr>
      else \<lparr>rs_status = 200, rs_nodeId = nd_id n, rs_lastSeq = nd_seq n, rs_trimmed = 0, rs_ops = opsAfter after limit sc n, rs_batches = None\<rparr>)"

definition localPeerFns :: "host \<Rightarrow> node peer_fns" where
  "localPeerFns h = \<lparr>pf_pull = (\<lambda>peer after limit sc n. Inr (Some (localPull after limit sc n))),
     pf_ack = (\<lambda>peer ident s sc n. snd (receiveAck h ident s sc n))\<rparr>"

text \<open>The description of the peer that \<open>localPeer(node)\<close> makes.\<close>

definition localPeer :: "node \<Rightarrow> jsv" where
  "localPeer n = JObj [(''key'', JStr (nd_id n)), (''nodeId'', JStr (nd_id n))]"


subsection \<open>What an acknowledgement leaves of the log\<close>

text \<open>The log as it is served: numbered upwards, not past the sequence number.\<close>

definition serves :: "node \<Rightarrow> bool" where
  "serves n \<longleftrightarrow> sorted_wrt (<) (map op_seq (nd_log n)) \<and> (\<forall>op \<in> set (nd_log n). op_seq op \<le> nd_seq n)"

lemma log_ok_serves:
  assumes "log_ok h n H dropped"
  shows "serves n"
proof -
  have sub: "nd_log n = filter (\<lambda>op. op \<in> set (nd_log n)) H" and seqs: "map op_seq H = [1..<Suc (nd_seq n)]"
    using log_okD(2,4) [OF assms] by blast+
  have "sorted_wrt (<) (map op_seq H)" by (simp only: seqs strict_sorted_iff sorted_upt distinct_upt simp_thms)
  then have "sorted_wrt (<) (map op_seq (nd_log n))"
    by (subst sub) (simp add: sorted_wrt_map sorted_wrt_filter)
  moreover have "op_seq op \<le> nd_seq n" if "op \<in> set (nd_log n)" for op
  proof -
    have "op \<in> set H" using sub that by (metis filter_is_subset subsetD)
    then have "op_seq op \<in> set [1..<Suc (nd_seq n)]" using seqs by (metis image_eqI image_set)
    then show ?thesis by auto
  qed
  ultimately show ?thesis by (simp add: serves_def)
qed

lemma foldl_min_le: "foldl min (a :: nat) xs \<le> a \<and> (\<forall>x \<in> set xs. foldl min a xs \<le> x)"
proof (induction xs arbitrary: a)
  case (Cons x xs)
  then show ?case using Cons.IH [of "min a x"] by auto
qed simp

lemma watermark_le: "watermark n = Some w \<Longrightarrow> a \<in> set (jm_vals (nd_acks n)) \<Longrightarrow> w \<le> a"
  using foldl_min_le [of "hd (jm_vals (nd_acks n))" "tl (jm_vals (nd_acks n))"]
  by (cases "jm_vals (nd_acks n)") (auto simp: watermark_def)

lemma jm_set_entry: "(k', v') \<in> set (jm_set k v m) \<Longrightarrow> (k', v') \<in> set m \<or> k' = k \<and> v' = v"
  by (induction m) (auto split: if_splits)

lemma remember_trim:
  assumes "(key, t) \<in> set (nd_scopeTrimmed (rememberScopeTrim h op n))"
  shows "(\<exists>t'. (key, t') \<in> set (nd_scopeTrimmed n) \<and> t \<le> max t' (op_seq op)) \<or> t \<le> op_seq op"
proof (cases "(key, t) \<in> set (nd_scopeTrimmed n)")
  case True
  then show ?thesis by (metis max.cobounded1)
next
  case False
  define k where "k = nodeScopeKey (op_db op) (op_coll op) (js_to_string h (op_shard op))"
  have t: "(key, t) \<in> set (jm_set k (max (seen_of (nd_scopeTrimmed n) k) (op_seq op)) (nd_scopeTrimmed n))"
    using assms False by (auto simp: rememberScopeTrim_def Let_def k_def split: if_splits)
  then have key: "key = k" "t = max (seen_of (nd_scopeTrimmed n) k) (op_seq op)"
    using jm_set_entry [OF t] False by auto
  show ?thesis
  proof (cases "jm_get (nd_scopeTrimmed n) k")
    case None
    then show ?thesis by (simp add: key seen_of_def)
  next
    case (Some t')
    then show ?thesis by (auto simp: key seen_of_def dest: map_of_SomeD)
  qed
qed

lemma remember_all_trim:
  assumes "(key, t) \<in> set (nd_scopeTrimmed (remember_all h ops n))" and "\<forall>op \<in> set ops. op_seq op \<le> m"
  shows "(\<exists>t'. (key, t') \<in> set (nd_scopeTrimmed n) \<and> t \<le> max t' m) \<or> t \<le> m"
  using assms
proof (induction ops arbitrary: n)
  case Nil
  then show ?case by (metis foldl_Nil max.cobounded1 remember_all_def)
next
  case (Cons op ops)
  from Cons.prems have "(key, t) \<in> set (nd_scopeTrimmed (remember_all h ops (rememberScopeTrim h op n)))" by (simp add: remember_all_def)
  from Cons.IH [OF this] Cons.prems(2)
  consider t' where "(key, t') \<in> set (nd_scopeTrimmed (rememberScopeTrim h op n))" "t \<le> max t' m" | "t \<le> m" by auto
  then show ?case
  proof cases
    case 1
    have "op_seq op \<le> m" using Cons.prems(2) by simp
    with remember_trim [OF 1(1)] 1(2) show ?thesis by (metis le_max_iff_disj max.absorb_iff2 max.assoc)
  qed simp
qed

lemma ack_effect:
  fixes n :: node and sc sc' :: "scope option" and h :: host and peer :: string and s :: nat
  assumes "serves n" and "s \<le> nd_seq n" and "\<not> needsSnapshot s sc n"
  defines "n' \<equiv> snd (receiveAck h peer s sc' n)"
  shows "nd_id n' = nd_id n" "nd_seq n' = nd_seq n" "serves n'" "opsAfter s 0 sc n' = opsAfter s 0 sc n" "\<not> needsSnapshot s sc n'"
proof -
  define n0 where "n0 = n\<lparr>nd_acks := jm_set (cursorKey peer sc') (min s (nd_seq n)) (nd_acks n)\<rparr>"
  have n': "n' = snd (prune h n0)" by (simp add: n'_def receiveAck_def n0_def)
  have same: "nd_id n0 = nd_id n" "nd_seq n0 = nd_seq n" "nd_log n0 = nd_log n" "nd_trimmed n0 = nd_trimmed n" "nd_scopeTrimmed n0 = nd_scopeTrimmed n"
    by (simp_all add: n0_def)
  have need: "needsSnapshot s sc n0 = needsSnapshot s sc n" by (simp add: needsSnapshot_def same cong: option.case_cong)
  have ops: "opsAfter s 0 sc n0 = opsAfter s 0 sc n" by (simp add: opsAfter_def same)
  have "nd_id n' = nd_id n \<and> nd_seq n' = nd_seq n \<and> serves n' \<and> opsAfter s 0 sc n' = opsAfter s 0 sc n \<and> \<not> needsSnapshot s sc n'"
  proof (cases "n' = n0")
    case True
    have "serves n0" using assms(1) by (simp add: serves_def same)
    then show ?thesis using same need ops assms(3) by (simp only: True) blast
  next
    case False
    then obtain w where w: "watermark n0 = Some w" "\<not> w - nd_retainOps n0 \<le> nd_trimmed n0"
      by (auto simp: n' prune_def Let_def split: option.splits if_splits)
    define cut where "cut = min (w - nd_retainOps n0) (nd_seq n)"
    define gone where "gone = filter (\<lambda>op. op_seq op \<le> cut) (nd_log n)"
    define n1 where "n1 = remember_all h gone (n0\<lparr>nd_log := filter (\<lambda>op. cut < op_seq op) (nd_log n)\<rparr>)"
    have res: "n' = n1\<lparr>nd_trimmed := cut\<rparr>" using w False
      by (simp add: n' prune_def Let_def cut_def n1_def gone_def same split: if_splits)
    have "(cursorKey peer sc', min s (nd_seq n)) \<in> set (nd_acks n0)" by (auto simp: n0_def intro!: map_of_SomeD)
    then have "min s (nd_seq n) \<in> set (jm_vals (nd_acks n0))" by force
    from watermark_le [OF w(1) this] have cut: "cut \<le> s" unfolding cut_def by linarith
    have id1: "nd_id (remember_all h ops m) = nd_id m" for ops m
      unfolding remember_all_def by (induction ops arbitrary: m) (simp_all add: rememberScopeTrim_def Let_def)
    have f: "nd_id n' = nd_id n" "nd_seq n' = nd_seq n" "nd_log n' = filter (\<lambda>op. cut < op_seq op) (nd_log n)" "nd_trimmed n' = cut"
      by (simp_all add: res n1_def remember_all_fields id1 same)
    have "serves n'" using assms(1) by (simp add: serves_def f sorted_wrt_map sorted_wrt_filter)
    moreover have "opsAfter s 0 sc n' = opsAfter s 0 sc n"
      using cut by (auto simp: opsAfter_def f intro!: filter_cong)
    moreover have "\<not> needsSnapshot s sc n'"
    proof (cases sc)
      case None
      then show ?thesis using cut by (simp add: needsSnapshot_def f)
    next
      case (Some x)
      have small: "t \<le> s" if t: "(key, t) \<in> set (nd_scopeTrimmed n')" and m: "scopeMatches (parseScopeKey key) x" for key t
      proof -
        have "(key, t) \<in> set (nd_scopeTrimmed (remember_all h gone (n0\<lparr>nd_log := filter (\<lambda>op. cut < op_seq op) (nd_log n)\<rparr>)))"
          using t by (simp add: res n1_def)
        from remember_all_trim [OF this, of cut]
        consider t' where "(key, t') \<in> set (nd_scopeTrimmed n)" "t \<le> max t' cut" | "t \<le> cut" by (auto simp: gone_def same)
        then show ?thesis
        proof cases
          case 1
          then have "t' \<le> s" using assms(3) m by (fastforce simp: Some needsSnapshot_def list_ex_iff)
          then show ?thesis using 1(2) cut by simp
        qed (use cut in simp)
      qed
      then show ?thesis by (fastforce simp: Some needsSnapshot_def list_ex_iff)
    qed
    ultimately show ?thesis using f(1,2) by blast
  qed
  then show "nd_id n' = nd_id n" "nd_seq n' = nd_seq n" "serves n'" "opsAfter s 0 sc n' = opsAfter s 0 sc n" "\<not> needsSnapshot s sc n'"
    by blast+
qed


subsection \<open>A node that catches up\<close>

text \<open>Operations as a node logs them.\<close>

definition logged_op :: "rop \<Rightarrow> bool" where
  "logged_op op \<longleftrightarrow> op_ok op \<and> wellformed_op op \<and> truthy (op_shard op)"

lemma with_shard_logged: "\<forall>op \<in> set ops. logged_op op \<Longrightarrow> map (with_shard n) ops = ops"
  by (simp add: map_idI with_shard_def logged_op_def)

lemma seen_set: "seen_of (jm_set key s m) key' = (if key' = key then s else seen_of m key')"
  by (simp add: seen_of_def)

lemma remote_cells:
  assumes "store_whole h (nd_db n)" and ops: "\<forall>op \<in> set ops. logged_op op"
  obtains count n' where "applyRemote h ops key n = (Inr count, n')" "store_whole h (nd_db n')"
    "store_cells h (nd_db n') = foldl op_put (store_cells h (nd_db n)) (filter (live_op (nd_db n)) ops)"
    "live_op (nd_db n') = live_op (nd_db n)" "nd_id n' = nd_id n" "nd_syncBatchSize n' = nd_syncBatchSize n"
    "seen_of (nd_lastSeen n') key = max (seen_of (nd_lastSeen n) key) (if ops = [] then 0 else op_seq (last ops))"
proof -
  define n1 where "n1 = n\<lparr>nd_clock := touch_all ops (nd_clock n)\<rparr>"
  have wf: "filter wellformed_op ops = ops" using ops by (simp add: logged_op_def filter_id_conv)
  obtain r s where a: "applyOps h ops (nd_db n) = (r, s)" by (cases "applyOps h ops (nd_db n)")
  have "\<forall>op \<in> set ops. op_ok op" using ops by (simp add: logged_op_def)
  note cells = apply_cells [OF assms(1) this a]
  obtain rows where rows: "r = Inr rows" using cells(3) by blast
  define n' where "n' = raise_seen key (if ops = [] then 0 else op_seq (last ops)) (notifyOps rows (n1\<lparr>nd_db := s\<rparr>))"
  have "nodeApplyOps h ops n1 = (Inr rows, n1\<lparr>nd_db := s\<rparr>)" using a by (simp add: nodeApplyOps_def wf n1_def rows)
  then have "applyRemote h ops key n = (Inr (length rows), n')"
    by (simp add: applyRemote_def n1_def [symmetric] with_shard_logged [OF ops] Let_def n'_def)
  moreover have f: "nd_db n' = s" "nd_id n' = nd_id n" "nd_syncBatchSize n' = nd_syncBatchSize n"
      "nd_lastSeen n' = jm_set key (max (seen_of (nd_lastSeen n) key) (if ops = [] then 0 else op_seq (last ops))) (nd_lastSeen n)"
    by (simp_all add: n'_def raise_seen_def notifyOps_def notify_def n1_def)
  moreover have "live_op s = live_op (nd_db n)" by (rule live_cong [OF cells(4,5)])
  ultimately show ?thesis using that cells(1,2) by (simp add: seen_set)
qed

lemma take_batch_local:
  assumes "store_whole h (nd_db n)" and "\<forall>op \<in> set ops. logged_op op" and "ops \<noteq> [] \<Longrightarrow> op_seq (last ops) \<le> s"
  obtains count n' where
    "take_batch h (localPeerFns h) peer sc key s ops n w = (Inr count, n', snd (receiveAck h (nd_id n) s sc w))"
    "store_whole h (nd_db n')" "store_cells h (nd_db n') = foldl op_put (store_cells h (nd_db n)) (filter (live_op (nd_db n)) ops)"
    "live_op (nd_db n') = live_op (nd_db n)" "nd_id n' = nd_id n" "nd_syncBatchSize n' = nd_syncBatchSize n"
    "seen_of (nd_lastSeen n') key = max (seen_of (nd_lastSeen n) key) s"
proof -
  obtain count n1 where r: "applyRemote h ops key n = (Inr count, n1)" "store_whole h (nd_db n1)"
    "store_cells h (nd_db n1) = foldl op_put (store_cells h (nd_db n)) (filter (live_op (nd_db n)) ops)"
    "live_op (nd_db n1) = live_op (nd_db n)" "nd_id n1 = nd_id n" "nd_syncBatchSize n1 = nd_syncBatchSize n"
    "seen_of (nd_lastSeen n1) key = max (seen_of (nd_lastSeen n) key) (if ops = [] then 0 else op_seq (last ops))"
    using remote_cells [OF assms(1,2)] .
  have f: "nd_db (raise_seen key s n1) = nd_db n1" "nd_id (raise_seen key s n1) = nd_id n1"
    "nd_syncBatchSize (raise_seen key s n1) = nd_syncBatchSize n1"
    "seen_of (nd_lastSeen (raise_seen key s n1)) key = max (seen_of (nd_lastSeen n) key) s"
    using assms(3) r(7) by (auto simp: raise_seen_def seen_set)
  show ?thesis
    by (rule that [of count "raise_seen key s n1"]) (simp_all add: take_batch_def r f localPeerFns_def)
qed

lemma sorted_after:
  assumes "sorted_wrt (<) (map op_seq xs)" and "take k xs \<noteq> []"
  shows "filter (\<lambda>op. op_seq (last (take k xs)) < op_seq op) xs = drop k xs"
proof -
  define l where "l = last (take k xs)"
  have sorted: "sorted_wrt (\<lambda>a b. op_seq a < op_seq b) (take k xs @ drop k xs)" using assms(1) by (simp add: sorted_wrt_map)
  have cross: "op_seq a < op_seq b" if "a \<in> set (take k xs)" "b \<in> set (drop k xs)" for a b
    using sorted that unfolding sorted_wrt_append by blast
  have "op_seq a \<le> op_seq l" if "a \<in> set (take k xs)" for a
  proof -
    obtain ys where ys: "take k xs = ys @ [l]" using assms(2) unfolding l_def by (metis append_butlast_last_id)
    then have "sorted_wrt (\<lambda>a b. op_seq a < op_seq b) (ys @ [l])" using sorted by (metis sorted_wrt_append)
    then show ?thesis using that ys by (auto simp: sorted_wrt_append)
  qed
  then have "filter (\<lambda>op. op_seq l < op_seq op) (take k xs) = []" by (auto simp: filter_empty_conv not_less)
  moreover have "l \<in> set (take k xs)" using assms(2) unfolding l_def by (rule last_in_set)
  then have "filter (\<lambda>op. op_seq l < op_seq op) (drop k xs) = drop k xs" using cross by (auto simp: filter_id_conv)
  ultimately have "filter (\<lambda>op. op_seq l < op_seq op) (take k xs @ drop k xs) = drop k xs" by (simp only: filter_append append_Nil)
  then show ?thesis by (simp add: l_def)
qed

lemma serves_sorted: "serves w \<Longrightarrow> sorted_wrt (<) (map op_seq (opsAfter after 0 sc w))"
  by (simp add: serves_def opsAfter_def sorted_wrt_map sorted_wrt_filter)

lemma opsAfter_mem: "op \<in> set (opsAfter after 0 sc w) \<Longrightarrow> op \<in> set (nd_log w) \<and> after < op_seq op"
  by (auto simp: opsAfter_def)

lemma opsAfter_limit: "0 < limit \<Longrightarrow> opsAfter after limit sc w = take limit (opsAfter after 0 sc w)"
  by (simp add: opsAfter_def)

lemma opsAfter_later: "after \<le> s \<Longrightarrow> opsAfter s 0 sc w = filter (\<lambda>op. s < op_seq op) (opsAfter after 0 sc w)"
  by (auto simp: opsAfter_def intro!: filter_cong)

lemma needsSnapshot_later: "\<not> needsSnapshot after sc w \<Longrightarrow> after \<le> s \<Longrightarrow> \<not> needsSnapshot s sc w"
  by (fastforce simp: needsSnapshot_def list_ex_iff split: option.splits)


lemma local_bind:
  assumes "nd_id w \<noteq> []"
  shows "peer_name h (localPeer w) = nd_id w" "rs_nodeId res = nd_id w \<Longrightarrow> remote_name h res (localPeer w) = nd_id w"
    "bindPeer (nd_id w) (nd_id w) (localPeer w) n = (localPeer w, n)"
  using assms by (simp_all add: peer_name_def remote_name_def bindPeer_def localPeer_def oget_def)

lemma local_pull:
  assumes "\<not> needsSnapshot after sc w"
  shows "pf_pull (localPeerFns h) peer after limit sc w =
    Inr (Some \<lparr>rs_status = 200, rs_nodeId = nd_id w, rs_lastSeq = nd_seq w, rs_trimmed = 0, rs_ops = opsAfter after limit sc w, rs_batches = None\<rparr>)"
  using assms by (simp add: localPeerFns_def localPull_def)

lemma take_ops:
  assumes "rs_batches res = None" and "(if rs_ops res = [] then if rs_lastSeq res = 0 then after else rs_lastSeq res else op_seq (last (rs_ops res))) = s"
    and "take_batch h fns peer sc key s (rs_ops res) n w = (Inr count, n1, w1)"
  shows "take_response h fns peer sc key after res tot n w = (Inr (length (rs_ops res), tot + count, s), n1, w1)"
  unfolding take_response_def Let_def assms(2) by (simp add: assms(1,3))

lemma sync_loop:
  assumes "length (opsAfter after 0 sc w) < fuel" and "store_whole h (nd_db n)" and "serves w" and "\<forall>op \<in> set (nd_log w). logged_op op"
    and "\<not> needsSnapshot after sc w" and "seen_of (nd_lastSeen n) (cursorKey (nd_id w) sc) = after" and "after \<le> nd_seq w"
    and "nd_id n \<noteq> nd_id w" "nd_id w \<noteq> []" and "0 < nd_syncBatchSize n"
  shows "\<exists>count n' w'. syncPeer fuel h (localPeerFns h) handler sc tot (localPeer w) n w = Some (Inr count, localPeer w, n', w') \<and>
    store_whole h (nd_db n') \<and>
    store_cells h (nd_db n') = foldl op_put (store_cells h (nd_db n)) (filter (live_op (nd_db n)) (opsAfter after 0 sc w)) \<and>
    seen_of (nd_lastSeen n') (cursorKey (nd_id w) sc) = nd_seq w"
  using assms
proof (induction fuel arbitrary: after tot n w)
  case (Suc fuel)
  define D where "D = opsAfter after 0 sc w"
  define ops where "ops = take (nd_syncBatchSize n) D"
  define key where "key = cursorKey (nd_id w) sc"
  have pulled: "opsAfter after (nd_syncBatchSize n) sc w = ops"
    using opsAfter_limit [OF Suc.prems(10)] by (simp add: ops_def D_def)
  define s where "s = (if ops = [] then (if nd_seq w = 0 then after else nd_seq w) else op_seq (last ops))"
  have sub: "op \<in> set ops \<Longrightarrow> op \<in> set (nd_log w) \<and> after < op_seq op \<and> op_seq op \<le> nd_seq w" for op
    using opsAfter_mem Suc.prems(3) unfolding ops_def D_def serves_def by (metis in_set_takeD)
  have logged: "\<forall>op \<in> set ops. logged_op op" using sub Suc.prems(4) by blast
  have s: "after \<le> s" "s \<le> nd_seq w" "ops \<noteq> [] \<Longrightarrow> op_seq (last ops) \<le> s" "ops \<noteq> [] \<Longrightarrow> after < s"
    using sub [of "last ops"] Suc.prems(7) by (auto simp: s_def)
  obtain count n1 where b: "take_batch h (localPeerFns h) (localPeer w) sc key s ops n w = (Inr count, n1, snd (receiveAck h (nd_id n) s sc w))"
    "store_whole h (nd_db n1)" "store_cells h (nd_db n1) = foldl op_put (store_cells h (nd_db n)) (filter (live_op (nd_db n)) ops)"
    "live_op (nd_db n1) = live_op (nd_db n)" "nd_id n1 = nd_id n" "nd_syncBatchSize n1 = nd_syncBatchSize n"
    "seen_of (nd_lastSeen n1) key = max (seen_of (nd_lastSeen n) key) s"
    using take_batch_local [OF Suc.prems(2) logged s(3)] by metis
  define w1 where "w1 = snd (receiveAck h (nd_id n) s sc w)"
  have seen: "seen_of (nd_lastSeen n1) key = s" using b(7) s(1) Suc.prems(6) by (simp add: key_def)
  have response: "take_response h (localPeerFns h) (localPeer w) sc key after
      \<lparr>rs_status = 200, rs_nodeId = nd_id w, rs_lastSeq = nd_seq w, rs_trimmed = 0, rs_ops = ops, rs_batches = None\<rparr> tot n w =
      (Inr (length ops, tot + count, s), n1, w1)"
    by (subst take_ops [where s = s and count = count and ?n1.0 = n1 and ?w1.0 = w1]) (simp_all add: b(1) w1_def, simp add: s_def)
  have step: "syncPeer (Suc fuel) h (localPeerFns h) handler sc tot (localPeer w) n w =
      (if ops = [] \<or> (if nd_seq w = 0 then s else nd_seq w) \<le> s then Some (Inr (tot + count), localPeer w, n1, w1)
       else syncPeer fuel h (localPeerFns h) handler sc (tot + count) (localPeer w) n1 w1)"
    using Suc.prems(6,8,9)
    by (simp add: local_bind local_pull [OF Suc.prems(5)] pulled response [unfolded key_def] Let_def del: take_batches.simps)
  have D: "sorted_wrt (<) (map op_seq D)" unfolding D_def by (rule serves_sorted [OF Suc.prems(3)])
  show ?case
  proof (cases "ops = [] \<or> (if nd_seq w = 0 then s else nd_seq w) \<le> s")
    case True
    have all: "ops = D"
    proof (cases "ops = []")
      case True
      then show ?thesis using Suc.prems(10) by (simp add: ops_def)
    next
      case False
      then have "s = nd_seq w" using True s(2,4) by (auto split: if_splits)
      have "op_seq op \<le> s" if "op \<in> set D" for op
        using that Suc.prems(3) opsAfter_mem [of op after sc w] by (auto simp: \<open>s = nd_seq w\<close> D_def serves_def)
      then have "filter (\<lambda>op. s < op_seq op) D = []" by (auto simp: filter_empty_conv not_less)
      moreover have "filter (\<lambda>op. s < op_seq op) D = drop (nd_syncBatchSize n) D"
        using sorted_after [OF D, of "nd_syncBatchSize n"] False by (simp add: s_def ops_def)
      ultimately show ?thesis by (simp add: ops_def)
    qed
    have "s = nd_seq w" using True s(2,4) Suc.prems(7) by (auto simp: s_def split: if_splits)
    then show ?thesis unfolding step using True b(2,3) seen all by (simp add: D_def key_def)
  next
    case False
    then have ne: "ops \<noteq> []" by blast
    note ack = ack_effect [OF Suc.prems(3) s(2) needsSnapshot_later [OF Suc.prems(5) s(1)], of h "nd_id n" sc, folded w1_def]
    have later: "opsAfter s 0 sc w1 = drop (nd_syncBatchSize n) D"
    proof -
      have "s = op_seq (last (take (nd_syncBatchSize n) D))" using ne by (simp add: s_def ops_def)
      moreover have "opsAfter s 0 sc w1 = filter (\<lambda>op. s < op_seq op) D" unfolding ack(4) D_def by (rule opsAfter_later [OF s(1)])
      ultimately show ?thesis using sorted_after [OF D, of "nd_syncBatchSize n"] ne by (simp add: ops_def)
    qed
    have peer: "localPeer w1 = localPeer w" by (simp add: localPeer_def ack(1))
    have log1: "op \<in> set (nd_log w1) \<Longrightarrow> op \<in> set (nd_log w)" for op
    proof -
      have rem: "nd_log (remember_all h xs m) = nd_log m" for xs m by (rule remember_all_fields(1))
      show "op \<in> set (nd_log w1) \<Longrightarrow> op \<in> set (nd_log w)"
        by (auto simp: w1_def receiveAck_def prune_def Let_def rem split: option.splits if_splits)
    qed
    have "\<exists>count' n' w'. syncPeer fuel h (localPeerFns h) handler sc (tot + count) (localPeer w1) n1 w1 = Some (Inr count', localPeer w1, n', w') \<and>
        store_whole h (nd_db n') \<and>
        store_cells h (nd_db n') = foldl op_put (store_cells h (nd_db n1)) (filter (live_op (nd_db n1)) (opsAfter s 0 sc w1)) \<and>
        seen_of (nd_lastSeen n') (cursorKey (nd_id w1) sc) = nd_seq w1"
    proof (rule Suc.IH)
      show "length (opsAfter s 0 sc w1) < fuel"
        using Suc.prems(1,10) ne unfolding later by (cases D) (auto simp: D_def [symmetric] ops_def)
      show "store_whole h (nd_db n1)" "serves w1" "\<not> needsSnapshot s sc w1" by (rule b(2) ack(3) ack(5))+
      show "\<forall>op \<in> set (nd_log w1). logged_op op" using log1 Suc.prems(4) by blast
      show "seen_of (nd_lastSeen n1) (cursorKey (nd_id w1) sc) = s" using seen by (simp add: ack(1) key_def)
      show "s \<le> nd_seq w1" "nd_id n1 \<noteq> nd_id w1" "nd_id w1 \<noteq> []" "0 < nd_syncBatchSize n1"
        using s(2) Suc.prems(8-10) by (simp_all add: ack(1,2) b(5,6))
    qed
    then obtain count' n' w' where r: "syncPeer fuel h (localPeerFns h) handler sc (tot + count) (localPeer w) n1 w1 = Some (Inr count', localPeer w, n', w')"
      "store_whole h (nd_db n')" "store_cells h (nd_db n') = foldl op_put (store_cells h (nd_db n1)) (filter (live_op (nd_db n1)) (opsAfter s 0 sc w1))"
      "seen_of (nd_lastSeen n') (cursorKey (nd_id w) sc) = nd_seq w"
      by (auto simp: peer ack(1,2))
    have "store_cells h (nd_db n') = foldl op_put (store_cells h (nd_db n)) (filter (live_op (nd_db n)) (ops @ drop (nd_syncBatchSize n) D))"
      by (simp add: r(3) b(3,4) later)
    then have "store_cells h (nd_db n') = foldl op_put (store_cells h (nd_db n)) (filter (live_op (nd_db n)) D)" by (simp add: ops_def)
    then show ?thesis unfolding step if_not_P [OF False] using r(1,2,4) by (simp add: D_def)
  qed
qed simp


text \<open>C4: A sync ends and delivers: a node that syncs with a peer whose log still serves its cursor pulls until nothing is left, with as
many pulls as there are operations and one more at most; afterwards its cursor is the sequence number of the peer and its rows are those
it had, taken over by every operation the peer had for the scope, except operations on what the node itself has deleted. That the peer
prunes its log on the acknowledgements in between loses nothing.\<close>

theorem sync_delivers:
  assumes "w = foldl (log_step h) (newNode h ident url db retainOps batch shardMap True) ps"
    and "\<forall>op \<in> set (history h (newNode h ident url db retainOps batch shardMap True) ps). clean_op op \<and> logged_op op"
    and "store_whole h (nd_db n)" and "nd_id n \<noteq> nd_id w" "nd_id w \<noteq> []" and "0 < nd_syncBatchSize n"
    and "after = seen_of (nd_lastSeen n) (cursorKey (nd_id w) sc)" "after \<le> nd_seq w" and "\<not> needsSnapshot after sc w"
    and "length (opsAfter after 0 sc w) < fuel"
  shows "\<exists>count n' w'. syncPeer fuel h (localPeerFns h) handler sc 0 (localPeer w) n w = Some (Inr count, localPeer w, n', w') \<and>
    seen_of (nd_lastSeen n') (cursorKey (nd_id w) sc) = nd_seq w \<and>
    store_cells h (nd_db n') = foldl op_put (store_cells h (nd_db n)) (filter (live_op (nd_db n)) (opsAfter after 0 sc w))"
proof -
  define start where "start = newNode h ident url db retainOps batch shardMap True"
  define dropped where "dropped = (\<lambda>op. \<exists>p \<in> set ps. drops p op)"
  have "log_ok h start [] dropped" by (rule log_okI [where P = "\<lambda>op. True"]) (simp_all add: start_def newNode_def)
  from run_log_ok [OF this, of ps] have ok: "log_ok h w (history h start ps) dropped"
    using assms(1,2) by (auto simp: dropped_def start_def)
  have "set (nd_log w) \<subseteq> set (history h start ps)" by (subst log_okD(4) [OF ok]) simp
  then have "\<forall>op \<in> set (nd_log w). logged_op op" using assms(2) by (auto simp: start_def)
  from sync_loop [OF assms(10,3) log_ok_serves [OF ok] this assms(9) assms(7) [symmetric] assms(8,4,5,6)]
  show ?thesis by blast
qed

definition plain_node :: "string \<Rightarrow> node" where
  "plain_node ident = newNode plain_host ident JUndef (newStore (ObjectEngine (newObjectRowStore plain_host [])) None) 0 10 newShardDir True"

lemma commit_id:
  assumes "commitLocalOps h ops n = (r, n')"
  shows "nd_id n' = nd_id n"
proof -
  have one: "nd_id (snd (logOps ops m)) = nd_id m" for m
    by (induction ops arbitrary: m) (auto simp: logOp_def Let_def split: prod.splits dest: arg_cong [where f = "\<lambda>p. nd_id (snd p)"])
  show ?thesis using assms one [of n]
    by (auto simp: commitLocalOps_def nodeApplyOps_def notifyOps_def notify_def split: prod.splits sum.splits if_splits)
qed

theorem sync_delivers_witness:
  "\<exists>w count n' w'. w = foldl (log_step plain_host) (plain_node ''a'') [NWrite [late_put]] \<and>
     syncPeer 5 plain_host (localPeerFns plain_host) None None 0 (localPeer w) (plain_node ''b'') w = Some (Inr count, localPeer w, n', w') \<and>
     seen_of (nd_lastSeen n') ''a'' = 1"
proof -
  obtain r w where c: "commitLocalOps plain_host [late_put] (plain_node ''a'') = (r, w)"
    by (cases "commitLocalOps plain_host [late_put] (plain_node ''a'')")
  have w: "w = foldl (log_step plain_host) (plain_node ''a'') [NWrite [late_put]]" by (simp add: c)
  have "log_part w = log_part (snd (logOps [late_put] (plain_node ''a'')))" by (rule commit_log_part [OF c])
  then have log: "length (nd_log w) = 1" "nd_seq w = 1" "nd_trimmed w = 0"
    by (simp_all add: log_part_def logOp_def Let_def plain_node_def newNode_def)
  have ident: "nd_id w = ''a''" using commit_id [OF c] by (simp add: plain_node_def newNode_def)
  have ops: "\<forall>op \<in> set (history plain_host (plain_node ''a'') [NWrite [late_put]]). clean_op op \<and> logged_op op"
    by (simp add: logOp_def Let_def with_shard_def late_put_def clean_op_def logged_op_def op_ok_def wellformed_op_def plain_name_def NUL_def
        newline_def char_of_def nodeShardFor_def plain_node_def newNode_def newShardDir_def shardForObject_def shardsForCollection_def DEFAULT_SHARD_def)
  have whole: "store_whole plain_host (nd_db (plain_node ''b''))"
    using new_whole(1) [of "[]" plain_host] by (simp add: plain_node_def newNode_def rows_not_pooled_def oget_def)
  have n: "nd_id (plain_node ''b'') \<noteq> nd_id w" "nd_id w \<noteq> []" "0 < nd_syncBatchSize (plain_node ''b'')"
      "0 = seen_of (nd_lastSeen (plain_node ''b'')) (cursorKey (nd_id w) None)"
    by (simp_all add: ident plain_node_def newNode_def seen_of_def)
  have "length (opsAfter 0 0 None w) \<le> length (nd_log w)" by (simp add: opsAfter_def)
  then have "length (opsAfter 0 0 None w) < 5" using log(1) by simp
  moreover have "\<not> needsSnapshot 0 None w" by (simp add: needsSnapshot_def log(3))
  ultimately show ?thesis
    using sync_delivers [OF w [unfolded plain_node_def] ops [unfolded plain_node_def] whole n, of 5 None] w ident log(2)
    by (auto simp: cursorKey_def)
qed

end
