(* ===== verification/StableSort.thy ===== *)
theory StableSort
  imports Prelude
begin

text \<open>
  The stable sort of JavaScript over a comparator that orders its values consistently: sorting parts first changes nothing, and a page of
  the sorted whole needs of every part only the first rows of its own sorted order.
\<close>

locale sort_order =
  fixes cmp :: "'a \<Rightarrow> 'a \<Rightarrow> int" and carrier :: "'a set"
  assumes total: "x \<in> carrier \<Longrightarrow> y \<in> carrier \<Longrightarrow> cmp x y \<le> 0 \<or> cmp y x \<le> 0"
    and trans: "x \<in> carrier \<Longrightarrow> y \<in> carrier \<Longrightarrow> z \<in> carrier \<Longrightarrow> cmp x y \<le> 0 \<Longrightarrow> cmp y z \<le> 0 \<Longrightarrow> cmp x z \<le> 0"
begin

lemma insert_all: "js_sort cmp (xs @ ys) = foldr (js_insert cmp) xs (js_sort cmp ys)"
  by (induction xs) simp_all

lemma set_insert_all: "set (foldr (js_insert cmp) xs s) = set xs \<union> set s"
  by (induction xs) auto

lemma insert_commute:
  assumes "x \<in> carrier" "y \<in> carrier" "set s \<subseteq> carrier" and "\<not> cmp x y \<le> 0"
  shows "js_insert cmp y (js_insert cmp x s) = js_insert cmp x (js_insert cmp y s)"
proof -
  have yx: "cmp y x \<le> 0" using total [OF assms(1,2)] assms(4) by blast
  show ?thesis using assms(3)
  proof (induction s)
    case Nil
    show ?case using yx assms(4) by simp
  next
    case (Cons a s)
    then have "a \<in> carrier" by simp
    then show ?case using Cons trans [OF assms(2,1), of a] yx assms(4) by auto
  qed
qed

lemma insert_all_insert:
  assumes "x \<in> carrier" "set zs \<subseteq> carrier" "set s \<subseteq> carrier"
  shows "foldr (js_insert cmp) (js_insert cmp x zs) s = js_insert cmp x (foldr (js_insert cmp) zs s)"
  using assms(2)
proof (induction zs)
  case (Cons y zs)
  show ?case
  proof (cases "cmp x y \<le> 0")
    case False
    have "set (foldr (js_insert cmp) zs s) \<subseteq> carrier" using Cons.prems assms(3) by (simp add: set_insert_all)
    then show ?thesis using insert_commute [OF assms(1) _ _ False] Cons False by simp
  qed simp
qed simp

lemma insert_all_sorted:
  assumes "set xs \<subseteq> carrier" "set s \<subseteq> carrier"
  shows "foldr (js_insert cmp) (js_sort cmp xs) s = foldr (js_insert cmp) xs s"
  using assms(1) by (induction xs) (simp_all add: insert_all_insert assms(2))

text \<open>Parts that are sorted first.\<close>

lemma sort_parts:
  assumes "\<forall>xs \<in> set xss. set xs \<subseteq> carrier"
  shows "js_sort cmp (concat (map (js_sort cmp) xss)) = js_sort cmp (concat xss)"
  using assms
proof (induction xss)
  case (Cons xs xss)
  have "set (js_sort cmp (concat xss)) \<subseteq> carrier" using Cons.prems by auto
  then show ?case using Cons by (simp add: insert_all insert_all_sorted)
qed simp

definition ordered :: "'a list \<Rightarrow> bool" where
  "ordered = sorted_wrt (\<lambda>x y. cmp x y \<le> 0)"

lemma insert_ordered:
  assumes "x \<in> carrier" "set s \<subseteq> carrier" "ordered s"
  shows "ordered (js_insert cmp x s)"
  using assms(2,3)
proof (induction s)
  case (Cons a s)
  then have a: "a \<in> carrier" and s: "\<forall>b \<in> set s. cmp a b \<le> 0" "ordered s" "set s \<subseteq> carrier" by (auto simp: ordered_def)
  show ?case
  proof (cases "cmp x a \<le> 0")
    case True
    then have "\<forall>b \<in> set s. cmp x b \<le> 0" using trans [OF assms(1) a] s by blast
    then show ?thesis using Cons.prems True by (simp add: ordered_def)
  next
    case False
    then have "cmp a x \<le> 0" using total [OF assms(1) a] by blast
    then show ?thesis using Cons.IH s False by (simp add: ordered_def)
  qed
qed (simp add: ordered_def)

lemma insert_all_ordered: "set xs \<subseteq> carrier \<Longrightarrow> set s \<subseteq> carrier \<Longrightarrow> ordered s \<Longrightarrow> ordered (foldr (js_insert cmp) xs s)"
  by (induction xs) (auto intro!: insert_ordered simp: set_insert_all)

lemma sort_ordered: "set xs \<subseteq> carrier \<Longrightarrow> ordered (js_sort cmp xs)"
  using insert_all_ordered [of xs "[]"] insert_all [of xs "[]"] by (simp add: ordered_def)

text \<open>The first rows of a sorted list are not changed by what is behind the first rows of the lists it is made of.\<close>

lemma take_insert: "take n (js_insert cmp x (take n s)) = take n (js_insert cmp x s)"
proof (induction s arbitrary: n)
  case (Cons a s)
  show ?case
  proof (cases n)
    case (Suc m)
    have "take m (a # take m s) = take m (a # s)" by (cases m) (simp_all add: min_def)
    then show ?thesis using Cons.IH [of m] by (simp add: Suc)
  qed simp
qed simp

lemma take_insert_all:
  assumes "take n s = take n s'"
  shows "take n (foldr (js_insert cmp) zs s) = take n (foldr (js_insert cmp) zs s')"
proof (induction zs)
  case (Cons z zs)
  have "take n (js_insert cmp z (foldr (js_insert cmp) zs s)) = take n (js_insert cmp z (take n (foldr (js_insert cmp) zs s)))"
    by (rule take_insert [symmetric])
  also have "\<dots> = take n (js_insert cmp z (foldr (js_insert cmp) zs s'))" unfolding Cons.IH by (rule take_insert)
  finally show ?case by simp
qed (use assms in simp)

lemma insert_split:
  assumes "z \<in> carrier" "set s \<subseteq> carrier" "ordered s"
  obtains P Q where "js_insert cmp z s = P @ z # Q" "s = P @ Q" "\<forall>q \<in> set Q. cmp z q \<le> 0"
proof -
  have "\<exists>P Q. js_insert cmp z s = P @ z # Q \<and> s = P @ Q \<and> (\<forall>q \<in> set Q. cmp z q \<le> 0)"
    using assms(2,3)
  proof (induction s)
    case Nil
    show ?case by (intro exI [of _ "[]"]) simp
  next
    case (Cons a s)
    then have a: "a \<in> carrier" and s: "\<forall>b \<in> set s. cmp a b \<le> 0" "ordered s" "set s \<subseteq> carrier" by (auto simp: ordered_def)
    show ?case
    proof (cases "cmp z a \<le> 0")
      case True
      then have "\<forall>b \<in> set (a # s). cmp z b \<le> 0" using trans [OF assms(1) a] s by auto
      then show ?thesis using True by (intro exI [of _ "[]"] exI [of _ "a # s"]) simp
    next
      case False
      from Cons.IH s obtain P Q where "js_insert cmp z s = P @ z # Q" "s = P @ Q" "\<forall>q \<in> set Q. cmp z q \<le> 0" by blast
      then show ?thesis using False by (intro exI [of _ "a # P"] exI [of _ Q]) simp
    qed
  qed
  then show ?thesis using that by blast
qed

lemma insert_before:
  assumes "cmp y z \<le> 0" "\<forall>q \<in> set Q. cmp y q \<le> 0"
  shows "\<exists>P'. js_insert cmp y (P @ z # Q) = P' @ z # Q \<and> js_insert cmp y (P @ Q) = P' @ Q \<and> length P' = Suc (length P)"
proof (induction P)
  case Nil
  show ?case using assms by (intro exI [of _ "[y]"]) (cases Q, auto)
next
  case (Cons p P)
  then obtain P' where P': "js_insert cmp y (P @ z # Q) = P' @ z # Q" "js_insert cmp y (P @ Q) = P' @ Q" "length P' = Suc (length P)" by blast
  show ?case
  proof (cases "cmp y p \<le> 0")
    case True
    then show ?thesis by (intro exI [of _ "y # p # P"]) simp
  next
    case False
    then show ?thesis using P' by (intro exI [of _ "p # P'"]) simp
  qed
qed

lemma insert_all_before:
  assumes "z \<in> carrier" "set ys \<subseteq> carrier" "set Q \<subseteq> carrier" "\<forall>y \<in> set ys. cmp y z \<le> 0" "\<forall>q \<in> set Q. cmp z q \<le> 0"
  shows "\<exists>P'. foldr (js_insert cmp) ys (P @ z # Q) = P' @ z # Q \<and> foldr (js_insert cmp) ys (P @ Q) = P' @ Q \<and> length P' = length ys + length P"
  using assms(2,4)
proof (induction ys)
  case (Cons y ys)
  then obtain P' where P': "foldr (js_insert cmp) ys (P @ z # Q) = P' @ z # Q" "foldr (js_insert cmp) ys (P @ Q) = P' @ Q"
    "length P' = length ys + length P" by auto
  have "\<forall>q \<in> set Q. cmp y q \<le> 0" using trans [of y z] Cons.prems assms(1,3,5) by (simp add: subset_iff)
  then obtain P'' where "js_insert cmp y (P' @ z # Q) = P'' @ z # Q" "js_insert cmp y (P' @ Q) = P'' @ Q" "length P'' = Suc (length P')"
    using insert_before [of y z Q P'] Cons.prems(2) by auto
  then show ?case using P' by auto
qed simp

lemma drop_last:
  assumes "set (ys @ [z]) \<subseteq> carrier" "set s \<subseteq> carrier" "ordered s" "\<forall>y \<in> set ys. cmp y z \<le> 0" "n \<le> length ys"
  shows "take n (foldr (js_insert cmp) (ys @ [z]) s) = take n (foldr (js_insert cmp) ys s)"
proof -
  have z: "z \<in> carrier" using assms(1) by simp
  obtain P Q where s: "js_insert cmp z s = P @ z # Q" "s = P @ Q" "\<forall>q \<in> set Q. cmp z q \<le> 0" using insert_split [OF z assms(2,3)] .
  have "set ys \<subseteq> carrier" "set Q \<subseteq> carrier" using assms(1,2) s(2) by auto
  then obtain P' where "foldr (js_insert cmp) ys (P @ z # Q) = P' @ z # Q" "foldr (js_insert cmp) ys (P @ Q) = P' @ Q" "length P' = length ys + length P"
    using insert_all_before [OF z _ _ assms(4) s(3)] by blast
  then have "foldr (js_insert cmp) (ys @ [z]) s = P' @ z # Q" "foldr (js_insert cmp) ys s = P' @ Q" "n \<le> length P'"
    using assms(5) by (simp_all only: foldr_append foldr_Cons foldr_Nil comp_apply id_apply s(1)) (simp_all only: s(2))
  then show ?thesis by simp
qed

lemma drop_rest:
  assumes "set zs \<subseteq> carrier" "set s \<subseteq> carrier" "ordered s" "ordered zs"
  shows "take n (foldr (js_insert cmp) zs s) = take n (foldr (js_insert cmp) (take n zs) s)"
  using assms(1,4)
proof (induction zs rule: rev_induct)
  case (snoc z zs)
  have o: "ordered zs" "\<forall>y \<in> set zs. cmp y z \<le> 0" using snoc.prems(2) by (auto simp: ordered_def sorted_wrt_append)
  show ?case
  proof (cases "n \<le> length zs")
    case True
    then show ?thesis using drop_last [OF snoc.prems(1) assms(2,3) o(2) True] snoc.IH snoc.prems(1) o(1) by simp
  qed simp
qed simp

lemma first_of_parts:
  assumes "\<forall>xs \<in> set xss. set xs \<subseteq> carrier"
  shows "take n (js_sort cmp (concat (map (\<lambda>xs. take n (js_sort cmp xs)) xss))) = take n (js_sort cmp (concat xss))"
  using assms
proof (induction xss)
  case (Cons xs xss)
  let ?rest = "js_sort cmp (concat xss)"
  let ?cut = "js_sort cmp (concat (map (\<lambda>xs. take n (js_sort cmp xs)) xss))"
  have xs: "set xs \<subseteq> carrier" and rest: "set ?rest \<subseteq> carrier" "ordered ?rest" 
    using Cons.prems by (simp_all add: UN_subset_iff sort_ordered)
  have "take n (foldr (js_insert cmp) (take n (js_sort cmp xs)) ?cut) = take n (foldr (js_insert cmp) (take n (js_sort cmp xs)) ?rest)"
    by (rule take_insert_all) (use Cons in simp)
  also have "\<dots> = take n (foldr (js_insert cmp) (js_sort cmp xs) ?rest)"
    by (rule drop_rest [symmetric]) (use xs rest in \<open>auto intro: sort_ordered\<close>)
  also have "\<dots> = take n (foldr (js_insert cmp) xs ?rest)" by (simp only: insert_all_sorted [OF xs rest(1)])
  finally show ?case by (simp add: insert_all)
qed simp

end

text \<open>The same without an order: the parts are only cut.\<close>

lemma cut_parts: "take n (concat (map (take n) xss)) = take n (concat xss)"
proof (induction xss)
  case (Cons xs xss)
  have "take (n - length xs) (concat (map (take n) xss)) = take (n - length xs) (concat xss)"
    using Cons by (metis diff_le_self min.absorb2 min.commute take_take)
  then show ?case by (cases "length xs \<le> n") simp_all
qed simp

end
