(* ===== verification/Router.thy ===== *)
theory Router
  imports NodeLog StableSort
begin

text \<open>
  Requests over a cluster (src/src/shard-router.js and src/src/cluster-secret.js): an object is handled by a node that owns its shard or
  is forwarded to one, a query is answered by the shards the node owns and by one peer for each other shard, and the answers are
  merged. The network is the argument \<open>send\<close>: the reply of a peer, or the status of the error the call throws. Local work is done first,
  remote calls fail in the order of the targets; URLs, headers that are only passed on, and timeouts are left out.
\<close>

datatype router_error =
    HttpError nat
  | AggregateFailed agg_error

subsection \<open>The secret of the cluster\<close>

type_synonym headers = "(string, string) jmap"

definition CLUSTER_SECRET_HEADER :: string where
  "CLUSTER_SECRET_HEADER = ''x-objydb-cluster-secret''"

definition FORWARDED_HEADER :: string where
  "FORWARDED_HEADER = ''x-objydb-forwarded''"

definition TARGET_SHARD_HEADER :: string where
  "TARGET_SHARD_HEADER = ''x-objydb-target-shard''"

definition normalizeClusterSecret :: "jsv \<Rightarrow> string option" where
  "normalizeClusterSecret secret = (case secret of JStr s \<Rightarrow> if s = [] then None else Some s | _ \<Rightarrow> None)"

definition clusterSecretFromRequest :: "headers \<Rightarrow> bool \<Rightarrow> string option" where
  "clusterSecretFromRequest req allowBearer =
     (case jm_get req CLUSTER_SECRET_HEADER of
        Some (c # cs) \<Rightarrow> Some (c # cs)
      | _ \<Rightarrow>
          (case jm_get req ''authorization'' of
             Some a \<Rightarrow> if allowBearer \<and> starts_with ''Bearer '' a then Some (js_trim (drop 7 a)) else None
           | None \<Rightarrow> None))"

definition clusterSecretMatches :: "string option \<Rightarrow> jsv \<Rightarrow> bool" where
  "clusterSecretMatches actual expected \<longleftrightarrow>
     (case (actual, normalizeClusterSecret expected) of (Some a, Some e) \<Rightarrow> a \<noteq> [] \<and> a = e | _ \<Rightarrow> False)"

subsection \<open>Which node handles what\<close>

record router =
  rr_node :: node
  rr_secret :: "string option"

definition targetShard :: "headers \<Rightarrow> string option" where
  "targetShard req = (case jm_get req TARGET_SHARD_HEADER of Some (c # cs) \<Rightarrow> Some (c # cs) | _ \<Rightarrow> None)"

definition isForwarded :: "router \<Rightarrow> headers \<Rightarrow> bool" where
  "isForwarded r req \<longleftrightarrow>
     jm_get req FORWARDED_HEADER = Some ''1'' \<and>
     (case rr_secret r of None \<Rightarrow> True | Some secret \<Rightarrow> clusterSecretMatches (clusterSecretFromRequest req False) (JStr secret))"

definition assertTargetShardMatches :: "headers \<Rightarrow> string \<Rightarrow> router_error option" where
  "assertTargetShardMatches req shard =
     (case targetShard req of None \<Rightarrow> None | Some t \<Rightarrow> if t \<noteq> shard then Some (HttpError 409) else None)"

definition assertOwnsTargetShard :: "host \<Rightarrow> router \<Rightarrow> string \<Rightarrow> router_error option" where
  "assertOwnsTargetShard h r shard = (if ownsShard h (rr_node r) shard then None else Some (HttpError 409))"

definition shouldHandleObjectLocally :: "host \<Rightarrow> router \<Rightarrow> headers \<Rightarrow> string \<Rightarrow> router_error + bool" where
  "shouldHandleObjectLocally h r req key =
     (let shard = nodeShardFor (rr_node r) key in
      case assertTargetShardMatches req shard of
        Some e \<Rightarrow> Inl e
      | None \<Rightarrow>
          if ownsShard h (rr_node r) shard then Inr True
          else if isForwarded r req then Inl (HttpError 409) else Inr False)"

record 'a shard_group =
  sg_local :: bool
  sg_items :: "'a list"

fun group_loop :: "host \<Rightarrow> router \<Rightarrow> headers \<Rightarrow> ('a \<Rightarrow> string) \<Rightarrow> 'a list \<Rightarrow> string list \<Rightarrow> (string, 'a shard_group) jmap \<Rightarrow>
    router_error + (string, 'a shard_group) jmap" where
  "group_loop h r req idOf [] seen groups = Inr groups"
| "group_loop h r req idOf (item # items) seen groups =
     (let key = idOf item; shard = nodeShardFor (rr_node r) key in
      if key \<in> set seen then Inl (HttpError 400)
      else case assertTargetShardMatches req shard of
        Some e \<Rightarrow> Inl e
      | None \<Rightarrow>
          (case jm_get groups shard of
             Some g \<Rightarrow> group_loop h r req idOf items (key # seen) (jm_set shard (g\<lparr>sg_items := sg_items g @ [item]\<rparr>) groups)
           | None \<Rightarrow>
               let owned = ownsShard h (rr_node r) shard in
               if \<not> owned \<and> isForwarded r req then Inl (HttpError 409)
               else group_loop h r req idOf items (key # seen) (jm_set shard \<lparr>sg_local = owned, sg_items = [item]\<rparr> groups)))"

definition groupByShard :: "host \<Rightarrow> router \<Rightarrow> headers \<Rightarrow> ('a \<Rightarrow> string) \<Rightarrow> 'a list \<Rightarrow> router_error + (string, 'a shard_group) jmap" where
  "groupByShard h r req idOf items = group_loop h r req idOf items [] []"

record target =
  tg_shard :: "string option"
  tg_local :: bool

definition queryTargets :: "host \<Rightarrow> router \<Rightarrow> target list" where
  "queryTargets h r =
     (let shards = shardsForCollection (nd_shardMap (rr_node r)) in
      if shards = [] then [\<lparr>tg_shard = None, tg_local = True\<rparr>]
      else map (\<lambda>shard. \<lparr>tg_shard = Some shard, tg_local = ownsShard h (rr_node r) shard\<rparr>) shards)"

definition local_shards :: "target list \<Rightarrow> string list" where
  "local_shards targets = filter (\<lambda>s. s \<noteq> []) (List.map_filter tg_shard (filter tg_local targets))"

subsection \<open>Forwarding\<close>

record reply =
  ry_status :: nat
  ry_body :: jsv
  ry_path :: "string option"

definition ok_status :: "nat \<Rightarrow> bool" where
  "ok_status s \<longleftrightarrow> 200 \<le> s \<and> s < 300"

text \<open>The peers are tried in order until one answers with a status that is not to be retried; the last answer stands.\<close>

fun try_peers :: "(jsv \<Rightarrow> 'm \<Rightarrow> nat + reply) \<Rightarrow> nat list \<Rightarrow> 'm \<Rightarrow> jsv list \<Rightarrow> reply \<Rightarrow> reply" where
  "try_peers send retry message [] prev = prev"
| "try_peers send retry message (peer # peers) prev =
     (case send peer message of
        Inl s \<Rightarrow> try_peers send retry message peers \<lparr>ry_status = (if s = 0 then 503 else s), ry_body = JObj [], ry_path = None\<rparr>
      | Inr answer \<Rightarrow> if ry_status answer \<in> set retry then try_peers send retry message peers answer else answer)"

definition forwardToShard :: "host \<Rightarrow> router \<Rightarrow> (jsv \<Rightarrow> 'm \<Rightarrow> nat + reply) \<Rightarrow> nat list \<Rightarrow> string \<Rightarrow> 'm \<Rightarrow> router_error + reply" where
  "forwardToShard h r send retry shard message =
     (case routingPeersForShard h (rr_node r) shard of
        [] \<Rightarrow> Inl (HttpError 503)
      | peer # peers \<Rightarrow> Inr (try_peers send retry message (peer # peers) \<lparr>ry_status = 503, ry_body = JNull, ry_path = None\<rparr>))"

definition responseObjects :: "jsv \<Rightarrow> jsv list" where
  "responseObjects body = (case body of JArr xs \<Rightarrow> xs | _ \<Rightarrow> (case jprop body ''objects'' of JArr xs \<Rightarrow> xs | _ \<Rightarrow> []))"

definition responseCount :: "jsv \<Rightarrow> nat \<Rightarrow> jsnum" where
  "responseCount body fallback = (case jprop body ''count'' of JNum n \<Rightarrow> if num_finite n then n else num_of_nat fallback | _ \<Rightarrow> num_of_nat fallback)"

text \<open>The objects of the replies in the order of the targets; the first reply that is not a success fails the request.\<close>

fun collect :: "('a \<Rightarrow> router_error + reply) \<Rightarrow> 'a list \<Rightarrow> router_error + reply list" where
  "collect forward [] = Inr []"
| "collect forward (t # ts) = res_bind (forward t) (\<lambda>answer. res_bind (collect forward ts) (\<lambda>answers. Inr (answer # answers)))"

definition forwardRemoteTargets :: "(string \<Rightarrow> router_error + reply) \<Rightarrow> target list \<Rightarrow> router_error + reply list" where
  "forwardRemoteTargets forward targets =
     collect (\<lambda>t. forward (case tg_shard t of None \<Rightarrow> [] | Some s \<Rightarrow> s)) (filter (\<lambda>t. \<not> tg_local t) targets)"

definition check_replies :: "reply list \<Rightarrow> router_error + reply list" where
  "check_replies answers =
     (case find (\<lambda>a. \<not> ok_status (ry_status a)) answers of Some a \<Rightarrow> Inl (HttpError (ry_status a)) | None \<Rightarrow> Inr answers)"

subsection \<open>Finding\<close>

record route_options =
  ro_sortBy :: "string option"
  ro_desc :: bool
  ro_offset :: nat
  ro_limit :: "nat option"
  ro_refDepth :: jsv
  ro_includeCount :: bool

record found =
  fd_count :: "jsnum option"
  fd_objects :: "jsv list"
  fd_path :: string

text \<open>What the router asks of its node: \<open>find\<close> with \<open>findShards\<close>, \<open>count\<close> with \<open>countShards\<close>, \<open>aggregate\<close> with \<open>aggregateShards\<close> and the paths,
with no shards for the whole node.\<close>

record node_reads =
  nr_find :: "jsv \<Rightarrow> route_options \<Rightarrow> string list \<Rightarrow> jsv list"
  nr_count :: "jsv \<Rightarrow> string list \<Rightarrow> nat"
  nr_path :: "jsv \<Rightarrow> route_options \<Rightarrow> string list \<Rightarrow> string"
  nr_aggregate :: "jsv \<Rightarrow> jsv \<Rightarrow> string list \<Rightarrow> agg_error + jsv"
  nr_aggregatePath :: "jsv \<Rightarrow> jsv \<Rightarrow> string list \<Rightarrow> string"

definition plain_route :: route_options where
  "plain_route = \<lparr>ro_sortBy = None, ro_desc = False, ro_offset = 0, ro_limit = None, ro_refDepth = JUndef, ro_includeCount = False\<rparr>"

definition shardFetchOptions :: "route_options \<Rightarrow> route_options" where
  "shardFetchOptions o1 =
     o1\<lparr>ro_limit := map_option (\<lambda>l. ro_offset o1 + l) (ro_limit o1), ro_offset := 0, ro_refDepth := JUndef\<rparr>"

definition routeSort :: "host \<Rightarrow> jsv list \<Rightarrow> route_options \<Rightarrow> jsv list" where
  "routeSort h objects o1 = (case ro_sortBy o1 of None \<Rightarrow> objects | Some by \<Rightarrow> sortObjects h by (ro_desc o1) objects)"

definition paginate :: "'a list \<Rightarrow> route_options \<Rightarrow> 'a list" where
  "paginate objects o1 = (if ro_limit o1 = Some 0 then [] else slice (ro_offset o1) (ro_limit o1) objects)"

definition findLocalShards :: "node_reads \<Rightarrow> jsv \<Rightarrow> route_options \<Rightarrow> string list \<Rightarrow> found" where
  "findLocalShards nr criteria o1 shards =
     (let shards1 = js_unique (filter (\<lambda>s. s \<noteq> []) shards)
      in \<lparr>fd_count = (if ro_includeCount o1 then Some (num_of_nat (nr_count nr criteria shards1)) else None),
          fd_objects = nr_find nr criteria o1 shards1, fd_path = nr_path nr criteria o1 shards1\<rparr>)"

definition findLocalShard :: "node_reads \<Rightarrow> jsv \<Rightarrow> route_options \<Rightarrow> string option \<Rightarrow> found" where
  "findLocalShard nr criteria o1 shard = findLocalShards nr criteria o1 (case shard of None \<Rightarrow> [] | Some s \<Rightarrow> [s])"

definition add_counts :: "bool \<Rightarrow> found option \<Rightarrow> reply list \<Rightarrow> jsnum option" where
  "add_counts wanted own answers =
     (if wanted
      then Some (foldl (\<lambda>n a. num_add n (responseCount (ry_body a) (length (responseObjects (ry_body a)))))
             (case own of Some f \<Rightarrow> num_add (Fin 0) (case fd_count f of Some n \<Rightarrow> n | None \<Rightarrow> NaN) | None \<Rightarrow> Fin 0) answers)
      else None)"

datatype message =
    FindMessage jsv route_options
  | AggregateMessage jsv jsv

definition route_find :: "host \<Rightarrow> router \<Rightarrow> node_reads \<Rightarrow> (jsv \<Rightarrow> message \<Rightarrow> nat + reply) \<Rightarrow> headers \<Rightarrow> jsv \<Rightarrow> route_options \<Rightarrow>
    router_error + found" where
  "route_find h r nr send req criteria o1 =
     (case targetShard req of
        Some shard \<Rightarrow>
          (case assertOwnsTargetShard h r shard of Some e \<Rightarrow> Inl e | None \<Rightarrow> Inr (findLocalShard nr criteria o1 (Some shard)))
      | None \<Rightarrow>
          let targets = queryTargets h r in
          if list_all tg_local targets then Inr (findLocalShards nr criteria o1 (local_shards targets))
          else
            let o2 = shardFetchOptions o1;
                own = (if local_shards targets = [] then None else Some (findLocalShards nr criteria o2 (local_shards targets)))
            in res_bind (forwardRemoteTargets (\<lambda>shard. forwardToShard h r send [409, 503, 504] shard (FindMessage criteria o2)) targets) (\<lambda>answers0.
               res_bind (check_replies answers0) (\<lambda>answers.
               let all = (case own of None \<Rightarrow> [] | Some f \<Rightarrow> fd_objects f) @ concat (map (\<lambda>a. responseObjects (ry_body a)) answers);
                   paths = (case own of None \<Rightarrow> [] | Some f \<Rightarrow> if fd_path f = [] then [] else [fd_path f]) @
                           filter (\<lambda>p. p \<noteq> []) (List.map_filter ry_path answers)
               in Inr \<lparr>fd_count = add_counts (ro_includeCount o1) own answers,
                       fd_objects = paginate (routeSort h all o1) o1, fd_path = combineQueryPaths paths\<rparr>)))"

subsection \<open>Aggregating\<close>

definition partialAggregateSpec :: "jsv \<Rightarrow> jsv" where
  "partialAggregateSpec spec = JObj (jm_set ''$partial'' (JBool True) (entries_of spec))"

definition agg_result :: "agg_error + 'a \<Rightarrow> router_error + 'a" where
  "agg_result x = (case x of Inl e \<Rightarrow> Inl (AggregateFailed e) | Inr y \<Rightarrow> Inr y)"

definition object_rows :: "agg_error + jobj list \<Rightarrow> agg_error + jsv" where
  "object_rows x = res_bind x (\<lambda>rows. Inr (JArr (map JObj rows)))"

definition route_aggregate :: "host \<Rightarrow> router \<Rightarrow> node_reads \<Rightarrow> (jsv \<Rightarrow> message \<Rightarrow> nat + reply) \<Rightarrow> headers \<Rightarrow> jsv \<Rightarrow> jsv \<Rightarrow>
    router_error + jsv \<times> string" where
  "route_aggregate h r nr send req criteria spec =
     (case targetShard req of
        Some shard \<Rightarrow>
          (case assertOwnsTargetShard h r shard of
             Some e \<Rightarrow> Inl e
           | None \<Rightarrow>
               if isObjectDbAggregateSpec spec
               then res_bind (agg_result (nr_aggregate nr criteria spec [shard])) (\<lambda>rows. Inr (rows, nr_aggregatePath nr criteria spec [shard]))
               else let rows = fd_objects (findLocalShard nr criteria plain_route (Some shard))
                    in res_bind (agg_result (object_rows
                         (if wants_partial spec then aggregatePartialObjects h rows spec else aggregateObjects h rows spec)))
                         (\<lambda>out. Inr (out, ''aggregate-scan'')))
      | None \<Rightarrow>
          let targets = queryTargets h r in
          if list_all tg_local targets
          then res_bind (agg_result (nr_aggregate nr criteria spec [])) (\<lambda>rows. Inr (rows, nr_aggregatePath nr criteria spec []))
          else if isObjectDbAggregateSpec spec then
            let partialSpec = partialAggregateSpec spec; shards = local_shards targets
            in res_bind (if shards = [] then Inr (JArr []) else agg_result (nr_aggregate nr criteria partialSpec shards)) (\<lambda>own.
               res_bind (forwardRemoteTargets (\<lambda>shard. forwardToShard h r send [409, 503, 504] shard (AggregateMessage criteria partialSpec)) targets) (\<lambda>answers0.
               res_bind (check_replies answers0) (\<lambda>answers.
               let partials = elems_of own @ concat (map (\<lambda>a. responseObjects (ry_body a)) answers);
                   paths = (if shards = [] then [] else [nr_aggregatePath nr criteria partialSpec shards]) @
                           filter (\<lambda>p. p \<noteq> []) (List.map_filter ry_path answers)
               in res_bind (agg_result (object_rows (mergeAggregatePartials h (map entries_of partials) spec)))
                    (\<lambda>rows. Inr (rows, combineQueryPaths paths)))))
          else
            let shards = local_shards targets;
                own = (if shards = [] then None else Some (findLocalShards nr criteria plain_route shards))
            in res_bind (forwardRemoteTargets (\<lambda>shard. forwardToShard h r send [409, 503, 504] shard (FindMessage criteria plain_route)) targets) (\<lambda>answers0.
               res_bind (check_replies answers0) (\<lambda>answers.
               let rows = (case own of None \<Rightarrow> [] | Some f \<Rightarrow> fd_objects f) @ concat (map (\<lambda>a. responseObjects (ry_body a)) answers);
                   paths = map (\<lambda>p. ''aggregate-'' @ p) ((case own of None \<Rightarrow> [] | Some f \<Rightarrow> if fd_path f = [] then [] else [fd_path f]) @
                           filter (\<lambda>p. p \<noteq> []) (List.map_filter ry_path answers));
                   path = combineQueryPaths paths
               in res_bind (agg_result (object_rows (aggregateObjects h rows spec)))
                    (\<lambda>out. Inr (out, if path = [] then ''aggregate-scan'' else path)))))"


subsection \<open>A routed query is exact\<close>

text \<open>Values a sort orders consistently: those of one type, and the missing ones, which come last.\<close>

definition sort_keys :: "host \<Rightarrow> string \<Rightarrow> jsv set" where
  "sort_keys h t = {v. collation h \<and> (v \<in> comparables t \<or> v = JUndef)}"

definition key_order :: "host \<Rightarrow> string \<Rightarrow> bool \<Rightarrow> jsv \<Rightarrow> jsv \<Rightarrow> int" where
  "key_order h by desc left right = compareSortValues h (getPathValue left by) (getPathValue right by) * (if desc then - 1 else 1)"

lemma sortObjects_order: "sortObjects h by desc = js_sort (key_order h by desc)"
  by (simp add: fun_eq_iff sortObjects_def key_order_def [abs_def])

lemma compare_anti:
  assumes "collation h" "v \<in> comparables t" "w \<in> comparables t"
  shows "compareSortValues h v w < 0 \<longleftrightarrow> 0 < compareSortValues h w v"
proof -
  have "localeCompare h a b < 0 \<longleftrightarrow> 0 < localeCompare h b a" for a b using assms(1) by (simp add: collation_def)
  moreover have "num_cmp a b < 0 \<longleftrightarrow> 0 < num_cmp b a" for a b
    using num_cmp_antisym [of a b] by linarith
  ultimately show ?thesis
    unfolding compare_same_type [OF assms] compare_same_type [OF assms(1,3,2)]
    using assms(2,3) number_type [OF assms(2,3)] number_type [OF assms(3,2)]
    by (cases v; cases w) (auto simp: comparables_def isComparable_def)
qed

lemma compare_missing:
  "v \<in> comparables t \<Longrightarrow> compareSortValues h v JUndef = - 1" "v \<in> comparables t \<Longrightarrow> compareSortValues h JUndef v = 1"
  "compareSortValues h JUndef JUndef = 0"
  by (cases v; simp add: comparables_def isComparable_def compareSortValues_def same_value_iff nullish_def)+

lemma compare_keys_total:
  assumes "v \<in> sort_keys h t" "w \<in> sort_keys h t"
  shows "compareSortValues h v w < 0 \<longleftrightarrow> 0 < compareSortValues h w v"
  using assms compare_anti [of h v t w] by (auto simp: sort_keys_def compare_missing)

lemma compare_keys_trans:
  assumes "u \<in> sort_keys h t" "v \<in> sort_keys h t" "w \<in> sort_keys h t"
    and "compareSortValues h u v \<le> 0" "compareSortValues h v w \<le> 0"
  shows "compareSortValues h u w \<le> 0"
proof -
  have col: "collation h" using assms(1) by (simp add: sort_keys_def)
  show ?thesis
  proof (cases "u = JUndef \<or> v = JUndef \<or> w = JUndef")
    case True
    then show ?thesis using assms by (auto simp: sort_keys_def compare_missing)
  next
    case False
    then have m: "u \<in> comparables t" "v \<in> comparables t" "w \<in> comparables t" using assms(1-3) by (auto simp: sort_keys_def)
    have lt: "sameTypeLessThan h a b \<longleftrightarrow> compareSortValues h a b < 0" if "a \<in> comparables t" "b \<in> comparables t" for a b
      using that by (auto simp: sameTypeLessThan_def comparables_def)
    have "\<not> sameTypeLessThan h v u" "\<not> sameTypeLessThan h w v"
      using assms(4,5) compare_anti [OF col m(2,1)] compare_anti [OF col m(3,2)] by (simp_all add: lt m)
    then have "\<not> sameTypeLessThan h w u" using weak_orderD(2) [OF min_weak_order [OF col] m(3,2,1)] by blast
    then show ?thesis using compare_anti [OF col m(3,1)] by (simp add: lt m)
  qed
qed

interpretation key_sort: sort_order "key_order h path desc" "{row. getPathValue row path \<in> sort_keys h t}" for h path desc t
proof
  fix x y :: jsv assume xy: "x \<in> {row. getPathValue row path \<in> sort_keys h t}" "y \<in> {row. getPathValue row path \<in> sort_keys h t}"
  then show "key_order h path desc x y \<le> 0 \<or> key_order h path desc y x \<le> 0"
    using compare_keys_total [of "getPathValue x path" h t "getPathValue y path"] compare_keys_total [of "getPathValue y path" h t "getPathValue x path"]
    by (auto simp: key_order_def)
next
  fix x y z :: jsv
  assume m: "x \<in> {row. getPathValue row path \<in> sort_keys h t}" "y \<in> {row. getPathValue row path \<in> sort_keys h t}"
      "z \<in> {row. getPathValue row path \<in> sort_keys h t}"
    and le: "key_order h path desc x y \<le> 0" "key_order h path desc y z \<le> 0"
  have flip: "0 \<le> compareSortValues h v w \<longleftrightarrow> compareSortValues h w v \<le> 0" if "v \<in> sort_keys h t" "w \<in> sort_keys h t" for v w
    using compare_keys_total [OF that] by linarith
  show "key_order h path desc x z \<le> 0"
    using m le flip compare_keys_trans [of "getPathValue x path" h t "getPathValue y path" "getPathValue z path"]
      compare_keys_trans [of "getPathValue z path" h t "getPathValue y path" "getPathValue x path"]
    by (auto simp: key_order_def split: if_splits)
qed


text \<open>What a shard answers: the page of its own rows that the router asked it for.\<close>

definition shard_page :: "host \<Rightarrow> route_options \<Rightarrow> jsv list \<Rightarrow> jsv list" where
  "shard_page h o1 rows = paginate (routeSort h rows (shardFetchOptions o1)) (shardFetchOptions o1)"

text \<open>The shards that are asked over the network.\<close>

definition remote_shards :: "target list \<Rightarrow> string list" where
  "remote_shards targets = map (\<lambda>t. case tg_shard t of None \<Rightarrow> [] | Some s \<Rightarrow> s) (filter (\<lambda>t. \<not> tg_local t) targets)"

lemma collect_replies:
  assumes "\<forall>shard \<in> set (remote_shards targets). \<exists>answer. forward shard = Inr answer \<and> ok_status (ry_status answer) \<and> responseObjects (ry_body answer) = page shard"
  shows "\<exists>answers. forwardRemoteTargets forward targets = Inr answers \<and> check_replies answers = Inr answers \<and>
    map (\<lambda>a. responseObjects (ry_body a)) answers = map page (remote_shards targets)"
  using assms unfolding forwardRemoteTargets_def remote_shards_def
proof (induction targets)
  case Nil
  show ?case by (simp add: check_replies_def)
next
  case (Cons t targets)
  then obtain answers where rest: "collect (\<lambda>t. forward (case tg_shard t of None \<Rightarrow> [] | Some s \<Rightarrow> s)) (filter (\<lambda>t. \<not> tg_local t) targets) = Inr answers"
      "check_replies answers = Inr answers"
      "map (\<lambda>a. responseObjects (ry_body a)) answers = map page (map (\<lambda>t. case tg_shard t of None \<Rightarrow> [] | Some s \<Rightarrow> s) (filter (\<lambda>t. \<not> tg_local t) targets))"
    by (auto split: if_splits)
  show ?case
  proof (cases "tg_local t")
    case False
    then obtain answer where "forward (case tg_shard t of None \<Rightarrow> [] | Some s \<Rightarrow> s) = Inr answer" "ok_status (ry_status answer)"
        "responseObjects (ry_body answer) = page (case tg_shard t of None \<Rightarrow> [] | Some s \<Rightarrow> s)"
      using Cons.prems by auto
    then show ?thesis using rest False by (auto simp: res_bind_Inr check_replies_def split: option.splits)
  qed (use rest in simp)
qed

lemma pages_exact:
  assumes "\<forall>path. ro_sortBy o1 = Some path \<longrightarrow> (\<forall>xs \<in> set xss. \<forall>row \<in> set xs. getPathValue row path \<in> sort_keys h t)"
  shows "paginate (routeSort h (concat (map (shard_page h o1) xss)) o1) o1 = paginate (routeSort h (concat xss) o1) o1"
proof -
  define order where "order xs = routeSort h xs o1" for xs
  have order2: "routeSort h xs (shardFetchOptions o1) = order xs" for xs by (simp add: order_def routeSort_def shardFetchOptions_def split: option.split)
  show ?thesis
  proof (cases "ro_limit o1")
    case None
    have page: "shard_page h o1 xs = order xs" for xs
      unfolding shard_page_def order2 by (simp add: paginate_def shardFetchOptions_def None slice_def)
    have "order (concat (map order xss)) = order (concat xss)"
    proof (cases "ro_sortBy o1")
      case (Some path)
      have "\<forall>xs \<in> set xss. set xs \<subseteq> {row. getPathValue row path \<in> sort_keys h t}" using assms Some by auto
      from key_sort.sort_parts [OF this, of "ro_desc o1"] show ?thesis
        by (simp add: order_def [abs_def] routeSort_def Some sortObjects_order)
    qed (simp add: order_def [abs_def] routeSort_def)
    then show ?thesis by (simp add: page [abs_def] order_def [abs_def])
  next
    case (Some l)
    define n where "n = ro_offset o1 + l"
    have page: "shard_page h o1 xs = take n (order xs)" for xs
      unfolding shard_page_def order2 by (simp add: paginate_def shardFetchOptions_def Some slice_def n_def)
    have first: "take n (order (concat (map (\<lambda>xs. take n (order xs)) xss))) = take n (order (concat xss))"
    proof (cases "ro_sortBy o1")
      case None
      then show ?thesis using cut_parts [of n xss] by (simp add: order_def routeSort_def)
    next
      case (Some path)
      have "\<forall>xs \<in> set xss. set xs \<subseteq> {row. getPathValue row path \<in> sort_keys h t}" using assms Some by auto
      from key_sort.first_of_parts [OF this, of n "ro_desc o1"] show ?thesis
        by (simp add: order_def routeSort_def Some sortObjects_order)
    qed
    have cut: "paginate xs o1 = drop (ro_offset o1) (take n xs)" for xs :: "jsv list"
      by (simp add: paginate_def slice_def Some n_def take_drop add.commute)
    show ?thesis unfolding cut order_def [symmetric] page [abs_def] first ..
  qed
qed

text \<open>C5: A routed query is exact: when the shards the node does not own are each answered by a peer with the page of its rows the router
asks for, the router's page is the page of all the rows of all shards sorted together: no row is missed because each shard sends only
its first rows, and rows with equal keys come in the order of the shards.\<close>

theorem routed_find_exact:
  assumes "targetShard req = None" and "\<not> list_all tg_local (queryTargets h r)"
    and "local_shards (queryTargets h r) \<noteq> [] \<longrightarrow>
      nr_find nr criteria (shardFetchOptions o1) (js_unique (local_shards (queryTargets h r))) = shard_page h o1 own"
    and "local_shards (queryTargets h r) = [] \<longrightarrow> own = []"
    and "\<forall>shard \<in> set (remote_shards (queryTargets h r)). \<exists>answer.
      forwardToShard h r send [409, 503, 504] shard (FindMessage criteria (shardFetchOptions o1)) = Inr answer \<and>
      ok_status (ry_status answer) \<and> responseObjects (ry_body answer) = shard_page h o1 (rows shard)"
    and "\<forall>path. ro_sortBy o1 = Some path \<longrightarrow>
      (\<forall>row \<in> set own \<union> (\<Union>shard \<in> set (remote_shards (queryTargets h r)). set (rows shard)). getPathValue row path \<in> sort_keys h t)"
  shows "\<exists>found. route_find h r nr send req criteria o1 = Inr found \<and>
    fd_objects found = paginate (routeSort h (own @ concat (map rows (remote_shards (queryTargets h r)))) o1) o1"
proof -
  define targets where "targets = queryTargets h r"
  define mine where "mine = (if local_shards targets = [] then None else Some (findLocalShards nr criteria (shardFetchOptions o1) (local_shards targets)))"
  obtain answers where answers: "forwardRemoteTargets (\<lambda>shard. forwardToShard h r send [409, 503, 504] shard (FindMessage criteria (shardFetchOptions o1))) targets = Inr answers"
      "check_replies answers = Inr answers" "map (\<lambda>a. responseObjects (ry_body a)) answers = map (\<lambda>shard. shard_page h o1 (rows shard)) (remote_shards targets)"
    using collect_replies [OF assms(5)] unfolding targets_def by blast
  have same: "filter (\<lambda>s. s \<noteq> []) (local_shards targets) = local_shards targets" by (simp add: local_shards_def)
  have nil: "shard_page h o1 [] = []"
    by (simp add: shard_page_def routeSort_def sortObjects_def paginate_def slice_def split: option.split)
  have "(case mine of None \<Rightarrow> [] | Some f \<Rightarrow> fd_objects f) = shard_page h o1 own"
    using assms(3,4) [folded targets_def] nil by (simp add: mine_def findLocalShards_def Let_def same)
  then have all: "(case mine of None \<Rightarrow> [] | Some f \<Rightarrow> fd_objects f) @ concat (map (\<lambda>a. responseObjects (ry_body a)) answers) =
      concat (map (shard_page h o1) (own # map rows (remote_shards targets)))"
    by (simp add: answers(3) comp_def)
  have "\<exists>found. route_find h r nr send req criteria o1 = Inr found \<and>
      fd_objects found = paginate (routeSort h (concat (map (shard_page h o1) (own # map rows (remote_shards targets)))) o1) o1"
    unfolding route_find_def assms(1) option.case Let_def targets_def [symmetric] if_not_P [OF assms(2) [folded targets_def]]
      mine_def [symmetric] answers(1,2) res_bind.simps all [symmetric]
    by simp
  moreover have "paginate (routeSort h (concat (map (shard_page h o1) (own # map rows (remote_shards targets)))) o1) o1 =
      paginate (routeSort h (concat (own # map rows (remote_shards targets))) o1) o1"
    by (rule pages_exact [where t = t]) (use assms(6) in \<open>auto simp: targets_def\<close>)
  ultimately show ?thesis by (simp add: targets_def)
qed


text \<open>A node that owns the shard \<open>a\<close> and knows the peer of the shard \<open>b\<close>.\<close>

definition sample_dir :: shard_dir where
  "sample_dir = \<lparr>sd_shards = [(''a'', [(JStr ''u1'', JObj [(''url'', JStr ''u1'')])]), (''b'', [(JStr ''u2'', JObj [(''url'', JStr ''u2'')])])],
     sd_topology = None\<rparr>"

definition sample_router :: router where
  "sample_router = \<lparr>rr_node = newNode plain_host ''n1'' (JStr ''u1'') (newStore (ShapeEngine newShapeStore) None) 0 10 sample_dir True, rr_secret = None\<rparr>"

definition number_row :: "int \<Rightarrow> jsv" where
  "number_row z = JObj [(''n'', JNum (num_of_int z))]"

definition sample_reads :: "jsv list \<Rightarrow> node_reads" where
  "sample_reads objects = \<lparr>nr_find = (\<lambda>criteria o1 shards. objects), nr_count = (\<lambda>criteria shards. 0), nr_path = (\<lambda>criteria o1 shards. ''scan''),
     nr_aggregate = (\<lambda>criteria spec shards. Inr (JArr objects)), nr_aggregatePath = (\<lambda>criteria spec shards. ''aggregate-scan'')\<rparr>"

definition sample_send :: "jsv list \<Rightarrow> jsv \<Rightarrow> message \<Rightarrow> nat + reply" where
  "sample_send objects peer msg = Inr \<lparr>ry_status = 200, ry_body = JArr objects, ry_path = None\<rparr>"

lemma sample_targets:
  "queryTargets plain_host sample_router = [\<lparr>tg_shard = Some ''a'', tg_local = True\<rparr>, \<lparr>tg_shard = Some ''b'', tg_local = False\<rparr>]"
  by code_simp

lemma sample_forward:
  "forwardToShard plain_host sample_router (sample_send objects) retry ''b'' msg = Inr \<lparr>ry_status = 200, ry_body = JArr objects, ry_path = None\<rparr> \<or> 200 \<in> set retry"
proof -
  have "routingPeersForShard plain_host (rr_node sample_router) ''b'' = [JObj [(''url'', JStr ''u2'')]]" by code_simp
  then show ?thesis by (simp add: forwardToShard_def sample_send_def)
qed

theorem routed_find_exact_witness:
  "\<exists>found. route_find plain_host sample_router (sample_reads [number_row 1, number_row 3]) (sample_send [number_row 2]) [] (JObj [])
      (plain_route\<lparr>ro_sortBy := Some ''n'', ro_limit := Some 2\<rparr>) = Inr found \<and> fd_objects found = [number_row 1, number_row 2]"
proof -
  let ?o = "plain_route\<lparr>ro_sortBy := Some ''n'', ro_limit := Some 2\<rparr>"
  have page: "shard_page plain_host ?o [number_row 1, number_row 3] = [number_row 1, number_row 3]" "shard_page plain_host ?o [number_row 2] = [number_row 2]"
    by code_simp+
  have all: "paginate (routeSort plain_host [number_row 1, number_row 3, number_row 2] ?o) ?o = [number_row 1, number_row 2]" by code_simp
  have keys: "getPathValue (number_row z) ''n'' \<in> sort_keys plain_host ''number''" for z
    by (simp add: number_row_def getPathValue_def nullish_def oget_def sort_keys_def plain_collation comparables_def isComparable_def)
  have remote: "remote_shards (queryTargets plain_host sample_router) = [''b'']" by (simp add: sample_targets remote_shards_def)
  have "\<exists>found. route_find plain_host sample_router (sample_reads [number_row 1, number_row 3]) (sample_send [number_row 2]) [] (JObj []) ?o = Inr found \<and>
      fd_objects found = paginate (routeSort plain_host ([number_row 1, number_row 3] @
        concat (map (\<lambda>shard. [number_row 2]) (remote_shards (queryTargets plain_host sample_router)))) ?o) ?o"
  proof (rule routed_find_exact [where t = "''number''"])
    show "\<forall>shard \<in> set (remote_shards (queryTargets plain_host sample_router)). \<exists>answer.
        forwardToShard plain_host sample_router (sample_send [number_row 2]) [409, 503, 504] shard (FindMessage (JObj []) (shardFetchOptions ?o)) = Inr answer \<and>
        ok_status (ry_status answer) \<and> responseObjects (ry_body answer) = shard_page plain_host ?o [number_row 2]"
      using sample_forward [of "[number_row 2]" "[409, 503, 504]"] by (simp add: remote page(2) ok_status_def responseObjects_def)
  qed (use keys in \<open>auto simp: targetShard_def sample_targets local_shards_def map_filter_simps sample_reads_def page(1)\<close>)
  then show ?thesis by (simp add: remote all)
qed

subsection \<open>A routed aggregate is exact\<close>

lemma partial_spec:
  assumes "is_obj spec"
  shows "normalizeAggregateSpec h (partialAggregateSpec spec) = normalizeAggregateSpec h spec"
    "isObjectDbAggregateSpec (partialAggregateSpec spec) = isObjectDbAggregateSpec spec" "wants_partial (partialAggregateSpec spec)"
  using assms by (cases spec; simp add: normalizeAggregateSpec_def partialAggregateSpec_def isObjectDbAggregateSpec_def wants_partial_def oget_set)+

text \<open>C15: A routed aggregate is exact: when the node and the peers of the other shards each answer with the partial aggregate of their rows,
the answer is the aggregate of all rows, as if one node held them, under the conditions of the two-phase aggregate.\<close>

theorem routed_aggregate_exact:
  assumes "targetShard req = None" and "\<not> list_all tg_local (queryTargets h r)" and "isObjectDbAggregateSpec spec"
    and "local_shards (queryTargets h r) \<noteq> [] \<longrightarrow> nr_aggregate nr criteria (partialAggregateSpec spec) (local_shards (queryTargets h r)) =
      object_rows (aggregatePartialObjects h own (partialAggregateSpec spec))"
    and "local_shards (queryTargets h r) = [] \<longrightarrow> own = []"
    and "\<forall>shard \<in> set (remote_shards (queryTargets h r)). \<exists>answer partials.
      forwardToShard h r send [409, 503, 504] shard (AggregateMessage criteria (partialAggregateSpec spec)) = Inr answer \<and>
      ok_status (ry_status answer) \<and> aggregatePartialObjects h (rows shard) (partialAggregateSpec spec) = Inr partials \<and>
      responseObjects (ry_body answer) = map JObj partials"
    and "normalizeAggregateSpec h spec = Inr n" and "collation h" and "no_clash n"
    and "mergeable n B (own @ concat (map rows (remote_shards (queryTargets h r))))"
  shows "\<exists>path. route_aggregate h r nr send req criteria spec =
    res_bind (agg_result (object_rows (aggregateObjects h (own @ concat (map rows (remote_shards (queryTargets h r)))) spec))) (\<lambda>out. Inr (out, path))"
proof -
  define targets where "targets = queryTargets h r"
  define part where "part xs = map (partial_row n) (jm_vals (partial_buckets h n xs))" for xs :: "jsv list"
  have spec: "is_obj spec" using assms(3) by (simp add: isObjectDbAggregateSpec_def)
  have norm: "normalizeAggregateSpec h (partialAggregateSpec spec) = Inr n" using assms(7) by (simp add: partial_spec(1) [OF spec])
  have partial: "aggregatePartialObjects h xs (partialAggregateSpec spec) = Inr (part xs)" "aggregatePartialObjects h xs spec = Inr (part xs)" for xs
    using partial_result [OF norm] partial_result [OF assms(7)] by (simp_all add: part_def)
  have "\<forall>shard \<in> set (remote_shards targets). \<exists>answer.
      forwardToShard h r send [409, 503, 504] shard (AggregateMessage criteria (partialAggregateSpec spec)) = Inr answer \<and>
      ok_status (ry_status answer) \<and> responseObjects (ry_body answer) = map JObj (part (rows shard))"
    using assms(6) by (fastforce simp: targets_def partial(1))
  from collect_replies [OF this] obtain answers where
    answers: "forwardRemoteTargets (\<lambda>shard. forwardToShard h r send [409, 503, 504] shard (AggregateMessage criteria (partialAggregateSpec spec))) targets = Inr answers"
      "check_replies answers = Inr answers" "map (\<lambda>a. responseObjects (ry_body a)) answers = map (\<lambda>shard. map JObj (part (rows shard))) (remote_shards targets)"
    by blast
  have empty: "part [] = []" using partial(2) [of "[]"] by (simp add: aggregatePartialObjects_def assms(7))
  define mine where "mine = (if local_shards targets = [] then Inr (JArr []) else agg_result (nr_aggregate nr criteria (partialAggregateSpec spec) (local_shards targets)))"
  have mine: "mine = Inr (JArr (map JObj (part own)))"
    using assms(4,5) empty by (simp add: mine_def targets_def partial agg_result_def object_rows_def)
  have "list_all2 (\<lambda>rows ps. aggregatePartialObjects h rows spec = Inr ps) (own # map rows (remote_shards targets)) (map part (own # map rows (remote_shards targets)))"
    by (simp add: partial list_all2_map1 list_all2_map2 list_all2_same)
  from merge_partials [OF assms(7-9) _ this] assms(10)
  have merge: "mergeAggregatePartials h (concat (map part (own # map rows (remote_shards targets)))) spec =
      aggregateObjects h (own @ concat (map rows (remote_shards targets))) spec"
    by (simp add: targets_def)
  have entries: "map entries_of (elems_of (JArr (map JObj (part own))) @ concat (map (\<lambda>a. responseObjects (ry_body a)) answers)) =
      concat (map part (own # map rows (remote_shards targets)))"
    by (simp add: answers(3) map_concat comp_def)
  show ?thesis
    unfolding route_aggregate_def assms(1) option.case Let_def targets_def [symmetric] if_not_P [OF assms(2) [folded targets_def]] if_P [OF assms(3)]
      mine_def [symmetric] mine answers(1,2) res_bind.simps entries merge
    by blast
qed


theorem routed_aggregate_exact_witness:
  "\<exists>own partials path. aggregatePartialObjects plain_host [example_row ''a'' 4] example_spec = Inr own \<and>
     aggregatePartialObjects plain_host [example_row ''a'' 2] example_spec = Inr partials \<and>
     route_aggregate plain_host sample_router (sample_reads (map JObj own)) (sample_send (map JObj partials)) [] (JObj []) example_spec =
       res_bind (agg_result (object_rows (aggregateObjects plain_host [example_row ''a'' 4, example_row ''a'' 2] example_spec))) (\<lambda>out. Inr (out, path))"
proof -
  obtain n where norm: "normalizeAggregateSpec plain_host example_spec = Inr n" and n: "as_groupBy n = [''g'']"
      "as_fields n = [\<lparr>af_key = ''n'', af_op = OpCount, af_operand = JBool True\<rparr>, \<lparr>af_key = ''t'', af_op = OpSum, af_operand = JStr ''x''\<rparr>,
        \<lparr>af_key = ''low'', af_op = OpMin, af_operand = JStr ''x''\<rparr>]"
    by (simp add: normalizeAggregateSpec_def example_spec_def oget_def normalizeGroupBy_def nullish_def
        normalizeFields_def normalizeField_def aggregateOperators_def is_path_def normalizeSort_def normalizePositiveInteger_def)
  have spec: "isObjectDbAggregateSpec example_spec" "is_obj example_spec"
    by (simp_all add: isObjectDbAggregateSpec_def example_spec_def oget_def)
  have clash: "no_clash n" by (simp add: no_clash_def result_keys_def partial_keys_def write_keys_def n)
  have path: "getPathValue (example_row g x) ''x'' = JNum (num_of_int x)" for g x
    by (simp add: getPathValue_def example_row_def nullish_def oget_def)
  have ok: "mergeable n 10 [example_row ''a'' 4, example_row ''a'' 2]"
    by (auto simp: mergeable_def n operand_path_def path small_int_def)
  define part where "part xs = map (partial_row n) (jm_vals (partial_buckets plain_host n xs))" for xs :: "jsv list"
  have partial: "aggregatePartialObjects plain_host xs spec' = Inr (part xs)" if "spec' = example_spec \<or> spec' = partialAggregateSpec example_spec" for xs spec'
    using that partial_result [of plain_host spec' n xs] norm partial_spec(1) [OF spec(2)] by (auto simp: part_def)
  have remote: "remote_shards (queryTargets plain_host sample_router) = [''b'']" by (simp add: sample_targets remote_shards_def)
  have "\<exists>path. route_aggregate plain_host sample_router (sample_reads (map JObj (part [example_row ''a'' 4])))
        (sample_send (map JObj (part [example_row ''a'' 2]))) [] (JObj []) example_spec =
      res_bind (agg_result (object_rows (aggregateObjects plain_host ([example_row ''a'' 4] @
        concat (map (\<lambda>shard. [example_row ''a'' 2]) (remote_shards (queryTargets plain_host sample_router)))) example_spec))) (\<lambda>out. Inr (out, path))"
  proof (rule routed_aggregate_exact [OF _ _ spec(1) _ _ _ norm plain_collation clash])
    show "\<forall>shard \<in> set (remote_shards (queryTargets plain_host sample_router)). \<exists>answer partials.
        forwardToShard plain_host sample_router (sample_send (map JObj (part [example_row ''a'' 2]))) [409, 503, 504] shard
          (AggregateMessage (JObj []) (partialAggregateSpec example_spec)) = Inr answer \<and>
        ok_status (ry_status answer) \<and> aggregatePartialObjects plain_host [example_row ''a'' 2] (partialAggregateSpec example_spec) = Inr partials \<and>
        responseObjects (ry_body answer) = map JObj partials"
      using sample_forward [of "map JObj (part [example_row ''a'' 2])" "[409, 503, 504]"] by (simp add: remote partial ok_status_def responseObjects_def)
    show "mergeable n 10 ([example_row ''a'' 4] @ concat (map (\<lambda>shard. [example_row ''a'' 2]) (remote_shards (queryTargets plain_host sample_router))))"
      using ok by (simp add: remote)
  qed (auto simp: targetShard_def sample_targets local_shards_def map_filter_simps sample_reads_def partial object_rows_def)
  then show ?thesis using partial by (auto simp: remote)
qed

end
