(* ===== verification/StorageKeys.thy ===== *)
theory StorageKeys
  imports Node
begin

text \<open>
  The names under which src/src/persistence.js keeps its data in the object storage: how a key is made from the names of a database, a
  collection, a shard and a node, and how it is read back when the storage is listed.

  Strings are lists of characters up to 255, so \<open>encodeURIComponent\<close> writes one or two bytes for a character; a percent sequence that
  \<open>decodeURIComponent\<close> rejects, or that stands for a character beyond 255, is an error here. Sequence numbers and times are natural
  numbers below \<open>2 ^ 53\<close>, which a JavaScript number holds exactly and writes in decimal.
\<close>

datatype uri_error = UriMalformed

subsection \<open>Percent encoding\<close>

definition uri_plain :: "char \<Rightarrow> bool" where
  "uri_plain c \<longleftrightarrow>
     (let n = (of_char c :: nat) in 48 \<le> n \<and> n \<le> 57 \<or> 65 \<le> n \<and> n \<le> 90 \<or> 97 \<le> n \<and> n \<le> 122) \<or> c \<in> set ''-_.!~*()'' \<or> (of_char c :: nat) = 39"

definition upper_hex :: "nat \<Rightarrow> char" where
  "upper_hex n = (if n < 10 then char_of (48 + n) else char_of (55 + n))"

definition percent :: "nat \<Rightarrow> string" where
  "percent n = [CHR ''%'', upper_hex (n div 16), upper_hex (n mod 16)]"

definition uri_char :: "char \<Rightarrow> string" where
  "uri_char c =
     (let n = (of_char c :: nat)
      in if uri_plain c then [c] else if n < 128 then percent n else percent (192 + n div 64) @ percent (128 + n mod 64))"

definition encodeURIComponent :: "string \<Rightarrow> string" where
  "encodeURIComponent s = concat (map uri_char s)"

definition unhex :: "char \<Rightarrow> nat option" where
  "unhex c =
     (let n = (of_char c :: nat)
      in if 48 \<le> n \<and> n \<le> 57 then Some (n - 48) else if 65 \<le> n \<and> n \<le> 70 then Some (n - 55)
         else if 97 \<le> n \<and> n \<le> 102 then Some (n - 87) else None)"

definition unhex2 :: "char \<Rightarrow> char \<Rightarrow> nat option" where
  "unhex2 a b = (case (unhex a, unhex b) of (Some m, Some n) \<Rightarrow> Some (16 * m + n) | _ \<Rightarrow> None)"

fun decodeURIComponent :: "string \<Rightarrow> uri_error + string" where
  "decodeURIComponent [] = Inr []"
| "decodeURIComponent (c # cs) =
     (if c \<noteq> CHR ''%'' then res_bind (decodeURIComponent cs) (\<lambda>s. Inr (c # s))
      else (case cs of
              a # b # rest \<Rightarrow>
                (case unhex2 a b of
                   None \<Rightarrow> Inl UriMalformed
                 | Some m \<Rightarrow>
                     if m < 128 then res_bind (decodeURIComponent rest) (\<lambda>s. Inr (char_of m # s))
                     else if m = 194 \<or> m = 195
                     then (case rest of
                             p # a' # b' # rest' \<Rightarrow>
                               (case unhex2 a' b' of
                                  None \<Rightarrow> Inl UriMalformed
                                | Some k \<Rightarrow>
                                    if p = CHR ''%'' \<and> 128 \<le> k \<and> k < 192
                                    then res_bind (decodeURIComponent rest') (\<lambda>s. Inr (char_of ((m - 192) * 64 + (k - 128)) # s))
                                    else Inl UriMalformed)
                           | _ \<Rightarrow> Inl UriMalformed)
                     else Inl UriMalformed)
            | _ \<Rightarrow> Inl UriMalformed))"

subsection \<open>Writing keys\<close>

definition slash :: char where
  "slash = CHR ''/''"

definition strip_left :: "string \<Rightarrow> string" where
  "strip_left s = dropWhile (\<lambda>c. c = slash) s"

text \<open>\<open>String(prefix || "").replace(/^\/+|\/+$/g, "")\<close>.\<close>

definition normalizePrefix :: "string \<Rightarrow> string" where
  "normalizePrefix s = rev (strip_left (rev (strip_left s)))"

definition rootPrefix :: "string \<Rightarrow> string" where
  "rootPrefix prefix = (if normalizePrefix prefix = [] then [] else normalizePrefix prefix @ [slash])"

definition safe :: "string \<Rightarrow> string" where
  "safe s = encodeURIComponent s"

definition decimal :: "nat \<Rightarrow> string" where
  "decimal n = nat_digits 21 n"

definition pad :: "nat \<Rightarrow> string" where
  "pad n = pad_start 16 CHR ''0'' (decimal n)"

definition databasePrefix :: "string \<Rightarrow> string \<Rightarrow> string" where
  "databasePrefix prefix db = strip_left (normalizePrefix prefix @ ''/db/'' @ safe db)"

definition collectionPrefix :: "string \<Rightarrow> string \<Rightarrow> string \<Rightarrow> string" where
  "collectionPrefix prefix db coll = strip_left (normalizePrefix prefix @ ''/db/'' @ safe db @ ''/collection/'' @ safe coll)"

definition scopePrefix :: "string \<Rightarrow> scope \<Rightarrow> string" where
  "scopePrefix prefix sc =
     strip_left (normalizePrefix prefix @ ''/db/'' @ safe (sc_db sc) @ ''/collection/'' @ safe (sc_coll sc) @ ''/shard/'' @ safe (sc_shard sc))"

definition collectionTombstoneKey :: "string \<Rightarrow> string \<Rightarrow> string \<Rightarrow> string" where
  "collectionTombstoneKey prefix db coll = databasePrefix prefix db @ ''/collection-tombstones/'' @ safe coll @ ''.json''"

definition databaseTombstoneKey :: "string \<Rightarrow> string \<Rightarrow> string" where
  "databaseTombstoneKey prefix db = strip_left (normalizePrefix prefix @ ''/database-tombstones/'' @ safe db @ ''.json'')"

text \<open>The key of a journal segment, of the metadata of a database and of a collection.\<close>

definition journalFile :: "nat \<Rightarrow> nat \<Rightarrow> nat \<Rightarrow> string \<Rightarrow> string" where
  "journalFile now first_seq last_seq uuid = decimal now @ ''-'' @ pad first_seq @ ''-'' @ pad last_seq @ ''-'' @ uuid @ ''.jsonl''"

definition journalKey :: "string \<Rightarrow> scope \<Rightarrow> string \<Rightarrow> nat \<Rightarrow> nat \<Rightarrow> nat \<Rightarrow> string \<Rightarrow> string" where
  "journalKey prefix sc ident now first_seq last_seq uuid =
     scopePrefix prefix sc @ ''/journal/'' @ safe ident @ ''/'' @ journalFile now first_seq last_seq uuid"

definition databaseMetaKey :: "string \<Rightarrow> string \<Rightarrow> string" where
  "databaseMetaKey prefix db = databasePrefix prefix db @ ''/meta.json''"

definition collectionMetaKey :: "string \<Rightarrow> string \<Rightarrow> string \<Rightarrow> string" where
  "collectionMetaKey prefix db coll = collectionPrefix prefix db coll @ ''/meta.json''"

subsection \<open>Reading keys\<close>

text \<open>The parts of a key below the root, \<open>None\<close> when it is not below the root; \<open>parts[i]\<close>, empty when it is missing.\<close>

definition key_below :: "string \<Rightarrow> string \<Rightarrow> string list option" where
  "key_below key prefix =
     (if starts_with (rootPrefix prefix) key then Some (split_on slash (drop (length (rootPrefix prefix)) key)) else None)"

definition part :: "string list \<Rightarrow> nat \<Rightarrow> string" where
  "part ps i = (if i < length ps then ps ! i else [])"

definition parseScopeFromKey :: "string \<Rightarrow> string \<Rightarrow> uri_error + scope option" where
  "parseScopeFromKey key prefix =
     (case key_below key prefix of
        None \<Rightarrow> Inr None
      | Some ps \<Rightarrow>
          if part ps 0 \<noteq> ''db'' \<or> part ps 2 \<noteq> ''collection'' \<or> part ps 4 \<noteq> ''shard'' then Inr None
          else if part ps 1 = [] \<or> part ps 3 = [] \<or> part ps 5 = [] then Inr None
          else res_bind (decodeURIComponent (part ps 1)) (\<lambda>db.
               res_bind (decodeURIComponent (part ps 3)) (\<lambda>coll.
               res_bind (decodeURIComponent (part ps 5)) (\<lambda>shard.
               Inr (Some \<lparr>sc_db = db, sc_coll = coll, sc_shard = shard\<rparr>)))))"

text \<open>\<open>/^(\d+)-(\d+)-(\d+)-.+\.jsonl$/\<close>.\<close>

definition number_dash :: "string \<Rightarrow> (nat \<times> string) option" where
  "number_dash s =
     (case dropWhile is_digit s of
        [] \<Rightarrow> None
      | c # rest \<Rightarrow> if takeWhile is_digit s \<noteq> [] \<and> c = CHR ''-'' then Some (digits_value (takeWhile is_digit s), rest) else None)"

definition line_break :: "char \<Rightarrow> bool" where
  "line_break c \<longleftrightarrow> (of_char c :: nat) = 10 \<or> (of_char c :: nat) = 13"

definition journal_match :: "string \<Rightarrow> (nat \<times> nat \<times> nat) option" where
  "journal_match file =
     (case number_dash file of
        None \<Rightarrow> None
      | Some (now, rest) \<Rightarrow>
          (case number_dash rest of
             None \<Rightarrow> None
           | Some (first_seq, rest1) \<Rightarrow>
               (case number_dash rest1 of
                  None \<Rightarrow> None
                | Some (last_seq, rest2) \<Rightarrow>
                    if ends_with ''.jsonl'' rest2 \<and> 6 < length rest2 \<and> \<not> list_ex line_break rest2 then Some (now, first_seq, last_seq) else None)))"

record journal_info =
  ji_scope :: scope
  ji_node :: string
  ji_createdAtMs :: nat
  ji_firstSeq :: nat
  ji_lastSeq :: nat
  ji_count :: nat

definition parseJournalKey :: "string \<Rightarrow> string \<Rightarrow> uri_error + journal_info option" where
  "parseJournalKey key prefix =
     res_bind (parseScopeFromKey key prefix) (\<lambda>scope.
       case (scope, key_below key prefix) of
         (Some sc, Some ps) \<Rightarrow>
           if part ps 6 \<noteq> ''journal'' \<or> part ps 7 = [] \<or> part ps 8 = [] then Inr None
           else (case (case journal_match (part ps 8) of None \<Rightarrow> (0, 0, 0) | Some m \<Rightarrow> m) of
                   (now, first_seq, last_seq) \<Rightarrow>
                     res_bind (decodeURIComponent (part ps 7)) (\<lambda>ident.
                       Inr (Some \<lparr>ji_scope = sc, ji_node = ident, ji_createdAtMs = now, ji_firstSeq = first_seq, ji_lastSeq = last_seq,
                         ji_count = (if first_seq \<le> last_seq \<and> 0 < first_seq then last_seq - first_seq + 1 else 0)\<rparr>)))
       | _ \<Rightarrow> Inr None)"

definition parseMetaFromKey :: "string \<Rightarrow> string \<Rightarrow> uri_error + (string \<times> string) option" where
  "parseMetaFromKey key prefix =
     (case key_below key prefix of
        None \<Rightarrow> Inr None
      | Some ps \<Rightarrow>
          if part ps 0 \<noteq> ''db'' \<or> part ps 2 \<noteq> ''collection'' \<or> part ps 4 \<noteq> ''meta.json'' then Inr None
          else if part ps 1 = [] \<or> part ps 3 = [] then Inr None
          else res_bind (decodeURIComponent (part ps 1)) (\<lambda>db. res_bind (decodeURIComponent (part ps 3)) (\<lambda>coll. Inr (Some (db, coll)))))"

definition without_json :: "string \<Rightarrow> string" where
  "without_json s = take (length s - 5) s"

definition parseCollectionTombstoneFromKey :: "string \<Rightarrow> string \<Rightarrow> uri_error + (string \<times> string) option" where
  "parseCollectionTombstoneFromKey key prefix =
     (case key_below key prefix of
        None \<Rightarrow> Inr None
      | Some ps \<Rightarrow>
          if part ps 0 \<noteq> ''db'' \<or> part ps 2 \<noteq> ''collection-tombstones'' \<or> \<not> ends_with ''.json'' (part ps 3) then Inr None
          else if part ps 1 = [] then Inr None
          else res_bind (decodeURIComponent (part ps 1)) (\<lambda>db.
               res_bind (decodeURIComponent (without_json (part ps 3))) (\<lambda>coll. Inr (Some (db, coll)))))"

definition parseDatabaseMetaFromKey :: "string \<Rightarrow> string \<Rightarrow> uri_error + string option" where
  "parseDatabaseMetaFromKey key prefix =
     (case key_below key prefix of
        None \<Rightarrow> Inr None
      | Some ps \<Rightarrow>
          if part ps 0 \<noteq> ''db'' \<or> part ps 2 \<noteq> ''meta.json'' then Inr None
          else if part ps 1 = [] then Inr None
          else res_bind (decodeURIComponent (part ps 1)) (\<lambda>db. Inr (Some db)))"

definition parseDatabaseTombstoneFromKey :: "string \<Rightarrow> string \<Rightarrow> uri_error + string option" where
  "parseDatabaseTombstoneFromKey key prefix =
     (case key_below key prefix of
        None \<Rightarrow> Inr None
      | Some ps \<Rightarrow>
          if part ps 0 \<noteq> ''database-tombstones'' \<or> \<not> ends_with ''.json'' (part ps 1) then Inr None
          else res_bind (decodeURIComponent (without_json (part ps 1))) (\<lambda>db. Inr (Some db)))"

subsection \<open>Percent encoding is undone\<close>

lemma unhex_upper: "n < 16 \<Longrightarrow> unhex (upper_hex n) = Some n"
  by (simp add: unhex_def upper_hex_def Let_def)

lemma unhex2_percent: "n < 256 \<Longrightarrow> unhex2 (upper_hex (n div 16)) (upper_hex (n mod 16)) = Some n"
  by (simp add: unhex2_def unhex_upper)

lemma char_code: "(of_char c :: nat) < 256"
  by (metis UNIV_I imageI lessThan_iff range_nat_of_char atLeastLessThan_iff)

lemma decode_char:
  "decodeURIComponent (uri_char c @ rest) = res_bind (decodeURIComponent rest) (\<lambda>s. Inr (c # s))"
proof -
  define n where "n = (of_char c :: nat)"
  have n: "n < 256" "char_of n = c" using char_code by (simp_all add: n_def)
  consider "uri_plain c" | "\<not> uri_plain c" "n < 128" | "\<not> uri_plain c" "128 \<le> n" by linarith
  then show ?thesis
  proof cases
    case 1
    then have "c \<noteq> CHR ''%''" by (auto simp: uri_plain_def)
    then show ?thesis using 1 by (simp add: uri_char_def)
  next
    case 2
    then have "uri_char c = percent n" by (simp add: uri_char_def Let_def n_def)
    then show ?thesis using 2(2) unhex2_percent [OF n(1)] by (simp add: percent_def n(2))
  next
    case 3
    have hi: "n div 64 = 2 \<or> n div 64 = 3" using 3(2) n(1) by auto
    have "uri_char c = percent (192 + n div 64) @ percent (128 + n mod 64)" using 3 by (simp add: uri_char_def Let_def n_def)
    moreover have "unhex2 (upper_hex ((192 + n div 64) div 16)) (upper_hex ((192 + n div 64) mod 16)) = Some (192 + n div 64)"
        "unhex2 (upper_hex ((128 + n mod 64) div 16)) (upper_hex ((128 + n mod 64) mod 16)) = Some (128 + n mod 64)"
      using hi by (auto intro!: unhex2_percent)
    moreover have "n div 64 * 64 + n mod 64 = n" by simp
    ultimately show ?thesis using hi by (auto simp: percent_def n(2))
  qed
qed

lemma decode_encode [simp]: "decodeURIComponent (safe s) = Inr s"
  unfolding safe_def by (induction s) (simp_all add: encodeURIComponent_def decode_char)

lemma safe_inj [simp]: "safe a = safe b \<longleftrightarrow> a = b"
  by (metis decode_encode sum.inject(2))

lemma safe_empty [simp]: "safe s = [] \<longleftrightarrow> s = []"
  by (cases s) (auto simp: safe_def encodeURIComponent_def uri_char_def percent_def Let_def)

lemma slash_eq [simp]:
  "slash = Char b0 b1 b2 b3 b4 b5 b6 b7 \<longleftrightarrow> b0 \<and> b1 \<and> b2 \<and> b3 \<and> \<not> b4 \<and> b5 \<and> \<not> b6 \<and> \<not> b7"
  "Char b0 b1 b2 b3 b4 b5 b6 b7 = slash \<longleftrightarrow> b0 \<and> b1 \<and> b2 \<and> b3 \<and> \<not> b4 \<and> b5 \<and> \<not> b6 \<and> \<not> b7"
  by (auto simp: slash_def)

lemma upper_hex_slash: "n < 16 \<Longrightarrow> upper_hex n \<noteq> slash"
  using unhex_upper [of n] by (auto simp: unhex_def slash_def Let_def)

lemma percent_slash: "n < 256 \<Longrightarrow> slash \<notin> set (percent n)"
proof -
  assume "n < 256"
  then have "n div 16 < 16" by simp
  then show ?thesis using upper_hex_slash [of "n div 16"] upper_hex_slash [of "n mod 16"] by (auto simp: percent_def)
qed

lemma safe_slash [simp]: "slash \<notin> set (safe s)"
proof -
  have "slash \<notin> set (uri_char c)" for c
  proof -
    define n where "n = (of_char c :: nat)"
    have n: "n < 256" using char_code by (simp add: n_def)
    have "\<not> uri_plain slash" by (simp add: uri_plain_def slash_def)
    then show ?thesis
      using percent_slash [OF n] percent_slash [of "192 + n div 64"] percent_slash [of "128 + n mod 64"] n
      by (auto simp: uri_char_def Let_def n_def [symmetric])
  qed
  then show ?thesis by (auto simp: safe_def encodeURIComponent_def)
qed

subsection \<open>Keys as parts\<close>

definition no_slash :: "string list \<Rightarrow> bool" where
  "no_slash ps \<longleftrightarrow> ps \<noteq> [] \<and> (\<forall>w \<in> set ps. slash \<notin> set w)"

definition key_of :: "string \<Rightarrow> string list \<Rightarrow> string" where
  "key_of prefix ps = rootPrefix prefix @ join_with [slash] ps"

lemma split_at_sep: "c \<notin> set a \<Longrightarrow> split_on c (a @ c # b) = a # split_on c b"
  by (induction a) auto

lemma split_no_sep: "c \<notin> set a \<Longrightarrow> split_on c a = [a]"
  by (induction a) auto

lemma split_join: "no_slash ps \<Longrightarrow> split_on slash (join_with [slash] ps) = ps"
proof (induction "[slash]" ps rule: join_with.induct)
  case (3 w v ws)
  then show ?case using split_at_sep [of slash w] by (simp add: no_slash_def)
qed (simp_all add: no_slash_def split_no_sep)

lemma key_below_key: "no_slash ps \<Longrightarrow> key_below (key_of prefix ps) prefix = Some ps"
  by (simp add: key_below_def key_of_def split_join)

lemma key_of_inj: "no_slash ps \<Longrightarrow> no_slash qs \<Longrightarrow> key_of prefix ps = key_of prefix qs \<longleftrightarrow> ps = qs"
  by (metis key_below_key option.inject)

lemma strip_left_id: "s = [] \<or> hd s \<noteq> slash \<Longrightarrow> strip_left s = s"
  by (cases s) (auto simp: strip_left_def)

lemma strip_left_hd: "strip_left s = [] \<or> hd (strip_left s) \<noteq> slash"
  by (induction s) (auto simp: strip_left_def)

lemma normalizePrefix_hd: "normalizePrefix s = [] \<or> hd (normalizePrefix s) \<noteq> slash"
proof -
  define u where "u = rev (takeWhile (\<lambda>c. c = slash) (rev (strip_left s)))"
  have u: "strip_left s = normalizePrefix s @ u"
    by (simp add: normalizePrefix_def strip_left_def [of "rev (strip_left s)"] u_def flip: rev_append)
  show ?thesis using strip_left_hd [of s] unfolding u by (cases "normalizePrefix s") auto
qed

lemma rooted: "r \<noteq> [] \<Longrightarrow> hd r \<noteq> slash \<Longrightarrow> strip_left (normalizePrefix prefix @ slash # r) = rootPrefix prefix @ r"
proof (cases "normalizePrefix prefix = []")
  case True
  assume "r \<noteq> []" "hd r \<noteq> slash"
  then show ?thesis using True strip_left_id [of r] by (simp add: rootPrefix_def strip_left_def)
next
  case False
  then show ?thesis using normalizePrefix_hd [of prefix] strip_left_id [of "normalizePrefix prefix @ slash # r"] by (simp add: rootPrefix_def)
qed

lemma prefix_parts:
  "databasePrefix prefix db = key_of prefix [''db'', safe db]"
  "collectionPrefix prefix db coll = key_of prefix [''db'', safe db, ''collection'', safe coll]"
  "scopePrefix prefix sc = key_of prefix [''db'', safe (sc_db sc), ''collection'', safe (sc_coll sc), ''shard'', safe (sc_shard sc)]"
  "databaseTombstoneKey prefix db = key_of prefix [''database-tombstones'', safe db @ ''.json'']"
  using rooted [of "CHR ''d'' # r" prefix for r]
  by (simp_all add: databasePrefix_def collectionPrefix_def scopePrefix_def databaseTombstoneKey_def key_of_def slash_def)

lemma key_parts_of:
  "collectionTombstoneKey prefix db coll = key_of prefix [''db'', safe db, ''collection-tombstones'', safe coll @ ''.json'']"
  "databaseMetaKey prefix db = key_of prefix [''db'', safe db, ''meta.json'']"
  "collectionMetaKey prefix db coll = key_of prefix [''db'', safe db, ''collection'', safe coll, ''meta.json'']"
  "journalKey prefix sc ident now a b uuid =
     key_of prefix [''db'', safe (sc_db sc), ''collection'', safe (sc_coll sc), ''shard'', safe (sc_shard sc), ''journal'', safe ident, journalFile now a b uuid]"
  by (simp_all add: collectionTombstoneKey_def databaseMetaKey_def collectionMetaKey_def journalKey_def prefix_parts key_of_def slash_def)

text \<open>Which keys a prefix takes in.\<close>

lemma join_append: "ps \<noteq> [] \<Longrightarrow> qs \<noteq> [] \<Longrightarrow> join_with sep (ps @ qs) = join_with sep ps @ sep @ join_with sep qs"
proof (induction sep ps rule: join_with.induct)
  case (2 sep w)
  then show ?case by (cases qs) simp_all
qed simp_all

lemma below_prefix:
  assumes "no_slash ps" "no_slash qs"
  shows "starts_with (key_of prefix ps @ [slash]) (key_of prefix qs) \<longleftrightarrow> (\<exists>rest. rest \<noteq> [] \<and> qs = ps @ rest)"
proof
  assume "starts_with (key_of prefix ps @ [slash]) (key_of prefix qs)"
  then obtain t where t: "join_with [slash] qs = join_with [slash] ps @ slash # t" by (auto simp: key_of_def starts_with_iff)
  have "split_on slash (join_with [slash] ps @ slash # t) = ps @ split_on slash t"
    using assms(1)
  proof (induction "[slash]" ps rule: join_with.induct)
    case (3 w v ws)
    then show ?case using split_at_sep [of slash w] by (simp add: no_slash_def)
  qed (simp_all add: no_slash_def split_at_sep)
  then have "qs = ps @ split_on slash t" using split_join [OF assms(2)] t by simp
  then show "\<exists>rest. rest \<noteq> [] \<and> qs = ps @ rest" by (intro exI [of _ "split_on slash t"]) simp
next
  assume "\<exists>rest. rest \<noteq> [] \<and> qs = ps @ rest"
  then obtain rest where "rest \<noteq> []" "qs = ps @ rest" by blast
  then show "starts_with (key_of prefix ps @ [slash]) (key_of prefix qs)"
    using join_append [of ps rest "[slash]"] assms(1) by (auto simp: key_of_def starts_with_iff no_slash_def)
qed

subsection \<open>Reading back what was written\<close>

lemma digits_all: "0 < fuel \<Longrightarrow> nat_digits fuel n \<noteq> [] \<and> list_all is_digit (nat_digits fuel n)"
proof (induction fuel arbitrary: n)
  case (Suc fuel)
  have d: "is_digit (char_of (48 + k))" if "k < 10" for k :: nat using that by (simp add: is_digit_def)
  show ?case
  proof (cases "n < 10")
    case True
    then show ?thesis using d [of n] by simp
  next
    case False
    have "list_all is_digit (nat_digits fuel (n div 10))" using Suc.IH [of "n div 10"] by (cases "0 < fuel") simp_all
    then show ?thesis using d [of "n mod 10"] False by simp
  qed
qed simp

lemma number_dash_read: "ds \<noteq> [] \<Longrightarrow> list_all is_digit ds \<Longrightarrow> number_dash (ds @ CHR ''-'' # r) = Some (digits_value ds, r)"
proof -
  assume ds: "ds \<noteq> []" "list_all is_digit ds"
  have dash: "\<not> is_digit (CHR ''-'')" by (simp add: is_digit_def)
  have "takeWhile is_digit (ds @ CHR ''-'' # r) = ds" "dropWhile is_digit (ds @ CHR ''-'' # r) = CHR ''-'' # r"
    using ds(2) dash by (simp_all add: takeWhile_append dropWhile_append list_all_iff)
  then show ?thesis using ds(1) by (simp add: number_dash_def)
qed

lemma decimal_digits: "decimal n \<noteq> []" "list_all is_digit (decimal n)" "pad n \<noteq> []" "list_all is_digit (pad n)"
proof -
  have zeros: "list_all is_digit (replicate k CHR ''0'')" for k by (induction k) (simp_all add: is_digit_def)
  show "decimal n \<noteq> []" "list_all is_digit (decimal n)" "pad n \<noteq> []" "list_all is_digit (pad n)"
    using digits_all [of 21 n] zeros by (simp_all add: decimal_def pad_def pad_start_def)
qed

lemma decimal_value: "n < 2 ^ 53 \<Longrightarrow> digits_value (decimal n) = n \<and> digits_value (pad n) = n"
  by (simp add: pad_def digits_pad) (simp add: decimal_def digits_of_nat)

definition plain_uuid :: "string \<Rightarrow> bool" where
  "plain_uuid uuid \<longleftrightarrow> uuid \<noteq> [] \<and> slash \<notin> set uuid \<and> \<not> list_ex line_break uuid"

lemma journal_match_file:
  assumes "now < 2 ^ 53" "a < 2 ^ 53" "b < 2 ^ 53" "plain_uuid uuid"
  shows "journal_match (journalFile now a b uuid) = Some (now, a, b)"
proof -
  have "ends_with ''.jsonl'' (uuid @ ''.jsonl'')" "6 < length (uuid @ ''.jsonl'')" "\<not> list_ex line_break (uuid @ ''.jsonl'')"
    using assms(4) by (simp_all add: ends_with_def starts_with_def plain_uuid_def line_break_def)
  then show ?thesis using decimal_value [OF assms(1)] decimal_value [OF assms(2)] decimal_value [OF assms(3)]
    by (simp add: journal_match_def journalFile_def number_dash_read decimal_digits)
qed

lemma digit_slash: "list_all is_digit s \<Longrightarrow> slash \<notin> set s"
  by (auto simp: list_all_iff is_digit_def slash_def)

lemma journalFile_slash: "plain_uuid uuid \<Longrightarrow> slash \<notin> set (journalFile now a b uuid) \<and> journalFile now a b uuid \<noteq> []"
  using digit_slash [OF decimal_digits(2)] digit_slash [OF decimal_digits(4)] decimal_digits(1)
  by (simp add: journalFile_def plain_uuid_def)

lemma without_json_read: "without_json (s @ ''.json'') = s" "ends_with ''.json'' (s @ ''.json'')"
  by (simp_all add: without_json_def ends_with_def starts_with_def)

text \<open>The kinds of keys, each with its parts.\<close>

datatype storage_key =
    JournalOf scope string nat nat nat string
  | DatabaseMetaOf string
  | CollectionMetaOf string string
  | CollectionTombOf string string
  | DatabaseTombOf string

fun parts_of :: "storage_key \<Rightarrow> string list" where
  "parts_of (JournalOf sc ident now a b uuid) =
     [''db'', safe (sc_db sc), ''collection'', safe (sc_coll sc), ''shard'', safe (sc_shard sc), ''journal'', safe ident, journalFile now a b uuid]"
| "parts_of (DatabaseMetaOf db) = [''db'', safe db, ''meta.json'']"
| "parts_of (CollectionMetaOf db coll) = [''db'', safe db, ''collection'', safe coll, ''meta.json'']"
| "parts_of (CollectionTombOf db coll) = [''db'', safe db, ''collection-tombstones'', safe coll @ ''.json'']"
| "parts_of (DatabaseTombOf db) = [''database-tombstones'', safe db @ ''.json'']"

definition plain_scope :: "scope \<Rightarrow> bool" where
  "plain_scope sc \<longleftrightarrow> sc_db sc \<noteq> [] \<and> sc_coll sc \<noteq> [] \<and> sc_shard sc \<noteq> []"

fun plain_storage_key :: "storage_key \<Rightarrow> bool" where
  "plain_storage_key (JournalOf sc ident now a b uuid) \<longleftrightarrow>
     plain_scope sc \<and> ident \<noteq> [] \<and> now < 2 ^ 53 \<and> a < 2 ^ 53 \<and> b < 2 ^ 53 \<and> plain_uuid uuid"
| "plain_storage_key (DatabaseMetaOf db) \<longleftrightarrow> db \<noteq> []"
| "plain_storage_key (CollectionMetaOf db coll) \<longleftrightarrow> db \<noteq> [] \<and> coll \<noteq> []"
| "plain_storage_key (CollectionTombOf db coll) \<longleftrightarrow> db \<noteq> [] \<and> coll \<noteq> []"
| "plain_storage_key (DatabaseTombOf db) \<longleftrightarrow> db \<noteq> []"

lemma parts_no_slash: "plain_storage_key k \<Longrightarrow> no_slash (parts_of k)"
  by (cases k) (simp_all add: no_slash_def journalFile_slash)

lemma parts_below: "plain_storage_key k \<Longrightarrow> key_below (key_of prefix (parts_of k)) prefix = Some (parts_of k)"
  by (rule key_below_key [OF parts_no_slash])

lemma words_differ [simp]: "safe a @ ''.json'' \<noteq> []" "safe a @ s \<noteq> [] \<longleftrightarrow> a \<noteq> [] \<or> s \<noteq> []"
  by simp_all

lemma parse_journal:
  assumes "plain_storage_key (JournalOf sc ident now a b uuid)"
  shows "parseScopeFromKey (journalKey prefix sc ident now a b uuid) prefix = Inr (Some sc)"
    "parseJournalKey (journalKey prefix sc ident now a b uuid) prefix =
       Inr (Some \<lparr>ji_scope = sc, ji_node = ident, ji_createdAtMs = now, ji_firstSeq = a, ji_lastSeq = b,
         ji_count = (if a \<le> b \<and> 0 < a then b - a + 1 else 0)\<rparr>)"
proof -
  have k: "key_below (journalKey prefix sc ident now a b uuid) prefix = Some (parts_of (JournalOf sc ident now a b uuid))"
    using parts_below [OF assms] by (simp add: key_parts_of)
  have names: "plain_scope sc" "ident \<noteq> []" and names_file: "journal_match (journalFile now a b uuid) = Some (now, a, b)" "journalFile now a b uuid \<noteq> []"
    using assms journal_match_file journalFile_slash by simp_all
  show s: "parseScopeFromKey (journalKey prefix sc ident now a b uuid) prefix = Inr (Some sc)"
    using names by (simp add: parseScopeFromKey_def k part_def plain_scope_def)
  show "parseJournalKey (journalKey prefix sc ident now a b uuid) prefix =
       Inr (Some \<lparr>ji_scope = sc, ji_node = ident, ji_createdAtMs = now, ji_firstSeq = a, ji_lastSeq = b,
         ji_count = (if a \<le> b \<and> 0 < a then b - a + 1 else 0)\<rparr>)"
    using names names_file by (simp add: parseJournalKey_def s k part_def)
qed

text \<open>Every parser reads its own keys and no others.\<close>

lemma parse_key:
  assumes "plain_storage_key k" and "key = key_of prefix (parts_of k)"
  shows "parseScopeFromKey key prefix = Inr (case k of JournalOf sc ident now a b uuid \<Rightarrow> Some sc | _ \<Rightarrow> None)"
    "parseMetaFromKey key prefix = Inr (case k of CollectionMetaOf db coll \<Rightarrow> Some (db, coll) | _ \<Rightarrow> None)"
    "parseCollectionTombstoneFromKey key prefix = Inr (case k of CollectionTombOf db coll \<Rightarrow> Some (db, coll) | _ \<Rightarrow> None)"
    "parseDatabaseMetaFromKey key prefix = Inr (case k of DatabaseMetaOf db \<Rightarrow> Some db | _ \<Rightarrow> None)"
    "parseDatabaseTombstoneFromKey key prefix = Inr (case k of DatabaseTombOf db \<Rightarrow> Some db | _ \<Rightarrow> None)"
  using parts_below [OF assms(1), of prefix, folded assms(2)] assms(1)
  by (cases k; simp add: parseScopeFromKey_def parseMetaFromKey_def parseCollectionTombstoneFromKey_def parseDatabaseMetaFromKey_def
      parseDatabaseTombstoneFromKey_def part_def plain_scope_def without_json_read)+

lemma key_of_parts:
  "key_of prefix (parts_of (JournalOf sc ident now a b uuid)) = journalKey prefix sc ident now a b uuid"
  "key_of prefix (parts_of (DatabaseMetaOf db)) = databaseMetaKey prefix db"
  "key_of prefix (parts_of (CollectionMetaOf db coll)) = collectionMetaKey prefix db coll"
  "key_of prefix (parts_of (CollectionTombOf db coll)) = collectionTombstoneKey prefix db coll"
  "key_of prefix (parts_of (DatabaseTombOf db)) = databaseTombstoneKey prefix db"
  by (simp_all add: key_parts_of prefix_parts)

text \<open>What the deletion of a database or of a collection takes in.\<close>

lemma below_database:
  assumes "plain_storage_key k"
  shows "starts_with (databasePrefix prefix db @ [slash]) (key_of prefix (parts_of k)) \<longleftrightarrow>
    (case k of JournalOf sc _ _ _ _ _ \<Rightarrow> sc_db sc = db | DatabaseMetaOf d \<Rightarrow> d = db | CollectionMetaOf d _ \<Rightarrow> d = db
     | CollectionTombOf d _ \<Rightarrow> d = db | DatabaseTombOf d \<Rightarrow> False)"
proof -
  have "no_slash [''db'', safe db]" by (simp add: no_slash_def)
  from below_prefix [OF this parts_no_slash [OF assms]] show ?thesis
    unfolding prefix_parts(1) by (cases k) auto
qed

lemma below_collection:
  assumes "plain_storage_key k"
  shows "starts_with (collectionPrefix prefix db coll @ [slash]) (key_of prefix (parts_of k)) \<longleftrightarrow>
    (case k of JournalOf sc _ _ _ _ _ \<Rightarrow> sc_db sc = db \<and> sc_coll sc = coll | CollectionMetaOf d c \<Rightarrow> d = db \<and> c = coll | _ \<Rightarrow> False)"
proof -
  have "no_slash [''db'', safe db, ''collection'', safe coll]" by (simp add: no_slash_def)
  from below_prefix [OF this parts_no_slash [OF assms]] show ?thesis
    unfolding prefix_parts(2) by (cases k) auto
qed




end
