(* ===== verification/ObjectStorage.thy ===== *)
theory ObjectStorage
  imports Prelude
begin

text \<open>
  The object storage in memory of src/src/object-storage.js: named bodies. Content types are left out; what a body is is a type parameter.
  The storage in S3 keeps the same contract through the client library and is left out.
\<close>

type_synonym 'b objects = "(string, 'b) jmap"

definition storage_put :: "string \<Rightarrow> 'b \<Rightarrow> 'b objects \<Rightarrow> 'b objects" where
  "storage_put key body objects = jm_set key body objects"

definition putIfAbsent :: "string \<Rightarrow> 'b \<Rightarrow> 'b objects \<Rightarrow> bool \<times> 'b objects" where
  "putIfAbsent key body objects = (if jm_has objects key then (False, objects) else (True, storage_put key body objects))"

definition storage_get :: "string \<Rightarrow> 'b objects \<Rightarrow> 'b option" where
  "storage_get key objects = jm_get objects key"

definition storage_list :: "string \<Rightarrow> 'b objects \<Rightarrow> string list" where
  "storage_list prefix objects = sort (filter (starts_with prefix) (jm_keys objects))"

definition storage_delete :: "string list \<Rightarrow> 'b objects \<Rightarrow> nat \<times> 'b objects" where
  "storage_delete keys objects =
     foldl (\<lambda>(count, objects) key. (if jm_has objects key then count + 1 else count, jm_del key objects)) (0, objects) keys"

definition deletePrefix :: "string \<Rightarrow> 'b objects \<Rightarrow> nat \<times> 'b objects" where
  "deletePrefix prefix objects =
     (length (filter (starts_with prefix) (jm_keys objects)), filter (\<lambda>(key, body). \<not> starts_with prefix key) objects)"

lemma get_put: "storage_get k (storage_put key body objects) = (if k = key then Some body else storage_get k objects)"
  by (simp add: storage_get_def storage_put_def)

lemma get_delete: "storage_get k (snd (storage_delete keys objects)) = (if k \<in> set keys then None else storage_get k objects)"
proof -
  have "storage_get k (snd (foldl (\<lambda>(count, objects) key. (if jm_has objects key then count + 1 else count, jm_del key objects)) (n, objects) keys)) =
      (if k \<in> set keys then None else storage_get k objects)" for n
    by (induction keys arbitrary: n objects) (auto simp: storage_get_def)
  then show ?thesis unfolding storage_delete_def by blast
qed

lemma get_deletePrefix: "storage_get k (snd (deletePrefix prefix objects)) = (if starts_with prefix k then None else storage_get k objects)"
  unfolding storage_get_def deletePrefix_def snd_conv by (induction objects) auto

lemma list_objects: "k \<in> set (storage_list prefix objects) \<longleftrightarrow> starts_with prefix k \<and> storage_get k objects \<noteq> None"
  by (auto simp: storage_list_def storage_get_def map_of_eq_None_iff)

end
