(* ===== verification/Persist.thy ===== *)
theory Persist
  imports StorageKeys ObjectStorage NodeLog
begin

text \<open>
  What the persistence manager of src/src/persistence.js keeps of the changes of its node and how it writes them: the queues of changes, the
  write-ahead log, and a flush, which takes the queues and writes them one storage operation after the other while new changes arrive.

  A flush is a list of storage operations that is worked off by steps; it may fail before any of them. What is put under a key is the value
  whose JSON text the code writes. The time and the random id of a journal segment belong to the step that writes it; the length of the JSON
  text of an operation is an argument (\<open>pc_opBytes\<close>). Byte counts kept for the statistics are left out.
\<close>

subsection \<open>Operations in chunks\<close>

fun chunk_loop :: "(rop \<Rightarrow> nat) \<Rightarrow> nat \<Rightarrow> nat \<Rightarrow> rop list \<Rightarrow> nat \<Rightarrow> rop list \<Rightarrow> rop list list" where
  "chunk_loop opBytes maxBytes maxOps current bytes [] = (if current = [] then [] else [current])"
| "chunk_loop opBytes maxBytes maxOps current bytes (op # ops) =
     (let nextBytes = bytes + (if current = [] then 0 else 1) + opBytes op in
      if current \<noteq> [] \<and> (maxOps \<le> length current \<or> maxBytes < nextBytes)
      then current # chunk_loop opBytes maxBytes maxOps [op] (2 + opBytes op) ops
      else chunk_loop opBytes maxBytes maxOps (current @ [op]) nextBytes ops)"

definition chunkOpsForRecord :: "(rop \<Rightarrow> nat) \<Rightarrow> nat \<Rightarrow> nat \<Rightarrow> rop list \<Rightarrow> rop list list" where
  "chunkOpsForRecord opBytes maxBytes maxOps ops = chunk_loop opBytes maxBytes maxOps [] 2 ops"

subsection \<open>Keys of the queues\<close>

definition persistScopeKey :: "scope \<Rightarrow> string" where
  "persistScopeKey sc = nodeScopeKey (sc_db sc) (sc_coll sc) (sc_shard sc)"

definition persistCollectionKey :: "string \<Rightarrow> string \<Rightarrow> string" where
  "persistCollectionKey db coll = db @ [newline] @ coll"

definition parseCollectionKey :: "string \<Rightarrow> string \<times> string" where
  "parseCollectionKey key = (sc_db (parseScopeKey key), sc_coll (parseScopeKey key))"

subsection \<open>The state\<close>

record persist_config =
  pc_prefix :: string
  pc_node :: string
  pc_opBatchSize :: nat
  pc_journalMaxBytes :: nat
  pc_localWal :: "(nat \<times> nat) option"
  pc_opBytes :: "rop \<Rightarrow> nat"

datatype wal_entry =
    WalOps "rop list"
  | WalDatabase string jsv
  | WalDropDatabase string
  | WalMeta string string jsv
  | WalDropCollection string string

record wal_record =
  wr_node :: string
  wr_entry :: wal_entry

record batch =
  bt_pending :: "(string, rop list) jmap"
  bt_databases :: "(string, jsv) jmap"
  bt_dbDrops :: "string list"
  bt_meta :: "(string, jsv) jmap"
  bt_collDrops :: "string list"

record manifest =
  mf_id :: string
  mf_node :: string
  mf_seq :: nat
  mf_scope :: scope
  mf_topologyId :: "string option"
  mf_databaseMeta :: jsv
  mf_collectionMeta :: jsv
  mf_cursors :: "(string, nat) jmap"
  mf_objectCount :: nat
  mf_segments :: "(string \<times> nat) list"

datatype body =
    JournalBody "rop list"
  | MetaBody jsv
  | TombBody
  | SegmentBody "snap_row list"
  | ManifestBody manifest

datatype store_action =
    DeletePrefix string
  | DeleteKey string
  | PutBody string body
  | PutJournal scope "rop list"

record dirty =
  dy_ops :: nat
  dy_version :: nat
  dy_lastSeq :: nat

record persist =
  ps_queued :: batch
  ps_dirty :: "(string, dirty) jmap"
  ps_flushing :: "(batch \<times> store_action list) option"
  ps_flushPaused :: bool
  ps_walPending :: "wal_record list"
  ps_walFlushing :: "wal_record list option"
  ps_truncating :: bool

definition empty_batch :: batch where
  "empty_batch = \<lparr>bt_pending = [], bt_databases = [], bt_dbDrops = [], bt_meta = [], bt_collDrops = []\<rparr>"

definition newPersist :: persist where
  "newPersist = \<lparr>ps_queued = empty_batch, ps_dirty = [], ps_flushing = None, ps_flushPaused = False, ps_walPending = [],
     ps_walFlushing = None, ps_truncating = False\<rparr>"

subsection \<open>Flushing\<close>

definition writeDatabaseMeta :: "string \<Rightarrow> string \<Rightarrow> jsv \<Rightarrow> store_action list" where
  "writeDatabaseMeta prefix db meta = [DeleteKey (databaseTombstoneKey prefix db), PutBody (databaseMetaKey prefix db) (MetaBody meta)]"

definition writeCollectionMeta :: "string \<Rightarrow> string \<times> string \<Rightarrow> jsv \<Rightarrow> store_action list" where
  "writeCollectionMeta prefix target meta =
     (case target of (db, coll) \<Rightarrow>
        [DeleteKey (collectionTombstoneKey prefix db coll), PutBody (collectionMetaKey prefix db coll) (MetaBody meta)])"

definition removeStoredCollection :: "string \<Rightarrow> string \<times> string \<Rightarrow> store_action list" where
  "removeStoredCollection prefix target =
     (case target of (db, coll) \<Rightarrow>
        [DeletePrefix (collectionPrefix prefix db coll @ [slash]), PutBody (collectionTombstoneKey prefix db coll) TombBody])"

definition removeStoredDatabase :: "string \<Rightarrow> string \<Rightarrow> store_action list" where
  "removeStoredDatabase prefix db = [DeletePrefix (databasePrefix prefix db @ [slash]), PutBody (databaseTombstoneKey prefix db) TombBody]"

definition writeJournalBatch :: "persist_config \<Rightarrow> scope \<Rightarrow> rop list \<Rightarrow> store_action list" where
  "writeJournalBatch cfg sc ops = map (PutJournal sc) (chunkOpsForRecord (pc_opBytes cfg) (pc_journalMaxBytes cfg) (pc_opBatchSize cfg) ops)"

text \<open>The storage operations of a flush, in the order of \<open>_flushOnce\<close>.\<close>

definition flush_actions :: "persist_config \<Rightarrow> batch \<Rightarrow> store_action list" where
  "flush_actions cfg b =
     concat (map (removeStoredDatabase (pc_prefix cfg)) (bt_dbDrops b)) @
     concat (map (\<lambda>key. removeStoredCollection (pc_prefix cfg) (parseCollectionKey key)) (bt_collDrops b)) @
     concat (map (\<lambda>(db, meta). writeDatabaseMeta (pc_prefix cfg) db meta) (bt_databases b)) @
     concat (map (\<lambda>(key, meta). writeCollectionMeta (pc_prefix cfg) (parseCollectionKey key) meta) (bt_meta b)) @
     concat (map (\<lambda>(key, ops). writeJournalBatch cfg (parseScopeKey key) ops) (bt_pending b))"

definition batch_empty :: "batch \<Rightarrow> bool" where
  "batch_empty b \<longleftrightarrow> bt_pending b = [] \<and> bt_databases b = [] \<and> bt_dbDrops b = [] \<and> bt_meta b = [] \<and> bt_collDrops b = []"

text \<open>\<open>flush\<close>: up to its first storage operation; a flush under way is joined.\<close>

definition beginFlush :: "persist_config \<Rightarrow> persist \<Rightarrow> persist" where
  "beginFlush cfg ps =
     (if ps_flushing ps \<noteq> None \<or> ps_flushPaused ps \<or> batch_empty (ps_queued ps) then ps
      else ps\<lparr>ps_queued := empty_batch, ps_flushing := Some (ps_queued ps, flush_actions cfg (ps_queued ps))\<rparr>)"

definition requeueBatches :: "(string, rop list) jmap \<Rightarrow> (string, rop list) jmap \<Rightarrow> (string, rop list) jmap" where
  "requeueBatches batches pending =
     foldl (\<lambda>pending (key, ops). jm_set key (ops @ (case jm_get pending key of None \<Rightarrow> [] | Some current \<Rightarrow> current)) pending) pending batches"

text \<open>\<open>_requeueDatabases\<close> and \<open>_requeueMetadata\<close>: what is queued by now is newer.\<close>

definition requeueMeta :: "(string, jsv) jmap \<Rightarrow> (string, jsv) jmap \<Rightarrow> (string, jsv) jmap" where
  "requeueMeta old queued = foldl (\<lambda>queued (key, meta). if jm_has queued key then queued else jm_set key meta queued) queued old"

definition requeueDrops :: "string list \<Rightarrow> string list \<Rightarrow> string list" where
  "requeueDrops old queued = foldl (\<lambda>queued key. js_add key queued) queued old"

definition requeue :: "batch \<Rightarrow> batch \<Rightarrow> batch" where
  "requeue b q =
     \<lparr>bt_pending = requeueBatches (bt_pending b) (bt_pending q), bt_databases = requeueMeta (bt_databases b) (bt_databases q),
      bt_dbDrops = requeueDrops (bt_dbDrops b) (bt_dbDrops q), bt_meta = requeueMeta (bt_meta b) (bt_meta q),
      bt_collDrops = requeueDrops (bt_collDrops b) (bt_collDrops q)\<rparr>"

subsection \<open>Changes of the node\<close>

definition queueLocalWal :: "persist_config \<Rightarrow> wal_entry \<Rightarrow> persist \<Rightarrow> persist" where
  "queueLocalWal cfg entry ps =
     (if pc_localWal cfg = None then ps else ps\<lparr>ps_walPending := ps_walPending ps @ [\<lparr>wr_node = pc_node cfg, wr_entry = entry\<rparr>]\<rparr>)"

definition queueDatabase :: "persist_config \<Rightarrow> string \<Rightarrow> jsv \<Rightarrow> persist \<Rightarrow> persist" where
  "queueDatabase cfg db meta ps =
     (if db = [] \<or> \<not> truthy meta then ps
      else let q = ps_queued ps
           in queueLocalWal cfg (WalDatabase db (json_clone meta))
                (ps\<lparr>ps_queued := q\<lparr>bt_databases := jm_set db (json_clone meta) (bt_databases q), bt_dbDrops := js_del db (bt_dbDrops q)\<rparr>\<rparr>))"

text \<open>What is pending in the log for a database or a collection goes; a record keeps its operations on others.\<close>

definition keep_ops :: "(rop \<Rightarrow> bool) \<Rightarrow> wal_record \<Rightarrow> rop list \<Rightarrow> wal_record option" where
  "keep_ops keeps r ops = (let kept = filter keeps ops in if kept = [] then None else Some (r\<lparr>wr_entry := WalOps kept\<rparr>))"

definition removePendingLocalWalForDatabase :: "string \<Rightarrow> wal_record list \<Rightarrow> wal_record list" where
  "removePendingLocalWalForDatabase db records =
     List.map_filter (\<lambda>r. case wr_entry r of
         WalOps ops \<Rightarrow> keep_ops (\<lambda>op. op_db op \<noteq> db) r ops
       | WalDatabase d _ \<Rightarrow> if d \<noteq> db then Some r else None
       | WalDropDatabase d \<Rightarrow> if d \<noteq> db then Some r else None
       | WalMeta d _ _ \<Rightarrow> if d \<noteq> db then Some r else None
       | WalDropCollection d _ \<Rightarrow> if d \<noteq> db then Some r else None) records"

definition removePendingLocalWalForCollection :: "string \<Rightarrow> string \<Rightarrow> wal_record list \<Rightarrow> wal_record list" where
  "removePendingLocalWalForCollection db coll records =
     List.map_filter (\<lambda>r. case wr_entry r of
         WalOps ops \<Rightarrow> keep_ops (\<lambda>op. op_db op \<noteq> db \<or> op_coll op \<noteq> coll) r ops
       | WalMeta d c _ \<Rightarrow> if d \<noteq> db \<or> c \<noteq> coll then Some r else None
       | WalDropCollection d c \<Rightarrow> if d \<noteq> db \<or> c \<noteq> coll then Some r else None
       | _ \<Rightarrow> Some r) records"

definition queueDatabaseDrop :: "persist_config \<Rightarrow> string \<Rightarrow> persist \<Rightarrow> persist" where
  "queueDatabaseDrop cfg db ps =
     (if db = [] then ps
      else let q = ps_queued ps
           in queueLocalWal cfg (WalDropDatabase db)
                (ps\<lparr>ps_queued := \<lparr>bt_pending = filter (\<lambda>(key, ops). sc_db (parseScopeKey key) \<noteq> db) (bt_pending q),
                       bt_databases = jm_del db (bt_databases q), bt_dbDrops = js_add db (bt_dbDrops q),
                       bt_meta = filter (\<lambda>(key, meta). fst (parseCollectionKey key) \<noteq> db) (bt_meta q),
                       bt_collDrops = filter (\<lambda>key. fst (parseCollectionKey key) \<noteq> db) (bt_collDrops q)\<rparr>,
                    ps_walPending := removePendingLocalWalForDatabase db (ps_walPending ps)\<rparr>))"

definition queueMeta :: "persist_config \<Rightarrow> string \<Rightarrow> string \<Rightarrow> jsv \<Rightarrow> persist \<Rightarrow> persist" where
  "queueMeta cfg db coll meta ps =
     (if db = [] \<or> coll = [] \<or> \<not> truthy meta then ps
      else let q = ps_queued ps
           in queueLocalWal cfg (WalMeta db coll (json_clone meta))
                (ps\<lparr>ps_queued := q\<lparr>bt_meta := jm_set (persistCollectionKey db coll) (json_clone meta) (bt_meta q)\<rparr>\<rparr>))"

definition queueCollectionDrop :: "persist_config \<Rightarrow> string \<Rightarrow> string \<Rightarrow> persist \<Rightarrow> persist" where
  "queueCollectionDrop cfg db coll ps =
     (if db = [] \<or> coll = [] then ps
      else let q = ps_queued ps; key = persistCollectionKey db coll
           in queueLocalWal cfg (WalDropCollection db coll)
                (ps\<lparr>ps_queued := q\<lparr>bt_collDrops := js_add key (bt_collDrops q), bt_meta := jm_del key (bt_meta q),
                       bt_pending := filter (\<lambda>(k, ops). \<not> (sc_db (parseScopeKey k) = db \<and> sc_coll (parseScopeKey k) = coll)) (bt_pending q)\<rparr>,
                    ps_walPending := removePendingLocalWalForCollection db coll (ps_walPending ps)\<rparr>))"

definition clone_op :: "rop \<Rightarrow> rop" where
  "clone_op op = op\<lparr>op_value := json_clone (op_value op)\<rparr>"

definition markDirty :: "string \<Rightarrow> rop \<Rightarrow> persist \<Rightarrow> persist" where
  "markDirty key op ps =
     (let d = (case jm_get (ps_dirty ps) key of None \<Rightarrow> \<lparr>dy_ops = 0, dy_version = 0, dy_lastSeq = 0\<rparr> | Some d \<Rightarrow> d)
      in ps\<lparr>ps_dirty := jm_set key
           \<lparr>dy_ops = dy_ops d + 1, dy_version = dy_version d + 1, dy_lastSeq = max (dy_lastSeq d) (op_seq op)\<rparr> (ps_dirty ps)\<rparr>)"

definition op_scope :: "host \<Rightarrow> rop \<Rightarrow> scope" where
  "op_scope h op = \<lparr>sc_db = op_db op, sc_coll = op_coll op, sc_shard = js_to_string h (op_shard op)\<rparr>"

text \<open>A full queue of a scope starts a flush.\<close>

definition queueOp :: "host \<Rightarrow> persist_config \<Rightarrow> rop \<Rightarrow> persist \<Rightarrow> rop option \<times> persist" where
  "queueOp h cfg op ps =
     (if op_db op = [] \<or> op_coll op = [] \<or> op_id op = [] \<or> \<not> truthy (op_shard op) then (None, ps)
      else let cloned = clone_op op; key = persistScopeKey (op_scope h op); q = ps_queued ps;
               pending = (case jm_get (bt_pending q) key of None \<Rightarrow> [] | Some ops \<Rightarrow> ops) @ [cloned];
               ps1 = markDirty key cloned (ps\<lparr>ps_queued := q\<lparr>bt_pending := jm_set key pending (bt_pending q)\<rparr>\<rparr>)
           in (Some cloned, if pc_opBatchSize cfg \<le> length pending then beginFlush cfg ps1 else ps1))"

fun queue_each :: "host \<Rightarrow> persist_config \<Rightarrow> rop list \<Rightarrow> persist \<Rightarrow> rop list \<times> persist" where
  "queue_each h cfg [] ps = ([], ps)"
| "queue_each h cfg (op # ops) ps =
     (case queueOp h cfg op ps of
        (queued, ps1) \<Rightarrow> (case queue_each h cfg ops ps1 of
           (rest, ps2) \<Rightarrow> ((case queued of None \<Rightarrow> rest | Some c \<Rightarrow> c # rest), ps2)))"

definition queueOps :: "host \<Rightarrow> persist_config \<Rightarrow> rop list \<Rightarrow> persist \<Rightarrow> persist" where
  "queueOps h cfg ops ps =
     (case queue_each h cfg ops ps of
        (cloned, ps1) \<Rightarrow>
          (case pc_localWal cfg of
             None \<Rightarrow> ps1
           | Some (maxBytes, maxOps) \<Rightarrow>
               foldl (\<lambda>ps chunk. queueLocalWal cfg (WalOps chunk) ps) ps1
                 (chunkOpsForRecord (pc_opBytes cfg) (if maxBytes = 0 then pc_journalMaxBytes cfg else maxBytes)
                    (if maxOps = 0 then pc_opBatchSize cfg else maxOps) cloned)))"

text \<open>The changes the node tells its listeners, with what they carry; a snapshot is not for the queues.\<close>

datatype node_change =
    CDatabase string jsv
  | CDropDatabase string
  | CDropCollection string string
  | CMeta string string jsv
  | COps "rop list"
  | CSnapshot

fun persist_onChange :: "host \<Rightarrow> persist_config \<Rightarrow> node_change \<Rightarrow> persist \<Rightarrow> persist" where
  "persist_onChange h cfg (CDatabase db meta) ps = queueDatabase cfg db meta ps"
| "persist_onChange h cfg (CDropDatabase db) ps = queueDatabaseDrop cfg db ps"
| "persist_onChange h cfg (CDropCollection db coll) ps = queueCollectionDrop cfg db coll ps"
| "persist_onChange h cfg (CMeta db coll meta) ps = queueMeta cfg db coll meta ps"
| "persist_onChange h cfg (COps ops) ps = queueOps h cfg ops ps"
| "persist_onChange h cfg CSnapshot ps = ps"

subsection \<open>The steps of the manager, its storage and its log\<close>

record disk =
  dk_objects :: "body objects"
  dk_wal :: "wal_record list"

definition ops_seqs :: "rop list \<Rightarrow> nat \<times> nat" where
  "ops_seqs ops = (case map op_seq ops of [] \<Rightarrow> (0, 0) | s # seqs \<Rightarrow> (foldl min s seqs, foldl max s seqs))"

definition writeJournalSegment :: "persist_config \<Rightarrow> scope \<Rightarrow> rop list \<Rightarrow> nat \<Rightarrow> string \<Rightarrow> body objects \<Rightarrow> body objects" where
  "writeJournalSegment cfg sc ops now uuid objects =
     (case ops_seqs ops of
        (a, b) \<Rightarrow> storage_put (journalKey (pc_prefix cfg) sc (pc_node cfg) now a b uuid) (JournalBody ops) objects)"

fun run_action :: "persist_config \<Rightarrow> nat \<Rightarrow> string \<Rightarrow> store_action \<Rightarrow> body objects \<Rightarrow> body objects" where
  "run_action cfg now uuid (DeletePrefix prefix) objects = snd (deletePrefix prefix objects)"
| "run_action cfg now uuid (DeleteKey key) objects = snd (storage_delete [key] objects)"
| "run_action cfg now uuid (PutBody key body) objects = storage_put key body objects"
| "run_action cfg now uuid (PutJournal sc ops) objects = writeJournalSegment cfg sc ops now uuid objects"

text \<open>What may happen: a change of the node; a flush begins, does its next storage operation, ends or fails; the pending records of the log
are taken, appended or, all but the first few, put back; the log is truncated, once a flush has found that it may be.\<close>

datatype persist_event =
    Change node_change
  | Flush
  | FlushStep nat string
  | FlushEnd
  | FlushFail
  | WalFlush
  | WalDone
  | WalFail nat
  | WalTruncate

definition may_truncate :: "persist_config \<Rightarrow> persist \<Rightarrow> bool" where
  "may_truncate cfg ps \<longleftrightarrow> pc_localWal cfg \<noteq> None \<and> ps_walPending ps = [] \<and> ps_walFlushing ps = None \<and> batch_empty (ps_queued ps)"

fun persist_step :: "host \<Rightarrow> persist_config \<Rightarrow> persist \<times> disk \<Rightarrow> persist_event \<Rightarrow> persist \<times> disk" where
  "persist_step h cfg (ps, dk) (Change ch) = (persist_onChange h cfg ch ps, dk)"
| "persist_step h cfg (ps, dk) Flush = (beginFlush cfg ps, dk)"
| "persist_step h cfg (ps, dk) (FlushStep now uuid) =
     (case ps_flushing ps of
        Some (b, action # rest) \<Rightarrow>
          (ps\<lparr>ps_flushing := Some (b, rest)\<rparr>, dk\<lparr>dk_objects := run_action cfg now uuid action (dk_objects dk)\<rparr>)
      | _ \<Rightarrow> (ps, dk))"
| "persist_step h cfg (ps, dk) FlushEnd =
     (case ps_flushing ps of
        Some (b, []) \<Rightarrow>
          (if ps_truncating ps then ps
           else if may_truncate cfg ps then ps\<lparr>ps_truncating := True\<rparr> else ps\<lparr>ps_flushing := None\<rparr>, dk)
      | _ \<Rightarrow> (ps, dk))"
| "persist_step h cfg (ps, dk) FlushFail =
     (case ps_flushing ps of
        Some (b, actions) \<Rightarrow> (ps\<lparr>ps_flushing := None, ps_truncating := False, ps_queued := requeue b (ps_queued ps)\<rparr>, dk)
      | None \<Rightarrow> (ps, dk))"
| "persist_step h cfg (ps, dk) WalFlush =
     (if pc_localWal cfg = None \<or> ps_walPending ps = [] \<or> ps_walFlushing ps \<noteq> None then (ps, dk)
      else (ps\<lparr>ps_walPending := [], ps_walFlushing := Some (ps_walPending ps)\<rparr>, dk))"
| "persist_step h cfg (ps, dk) WalDone =
     (case ps_walFlushing ps of
        Some records \<Rightarrow> (ps\<lparr>ps_walFlushing := None\<rparr>, dk\<lparr>dk_wal := dk_wal dk @ records\<rparr>)
      | None \<Rightarrow> (ps, dk))"
| "persist_step h cfg (ps, dk) (WalFail n) =
     (case ps_walFlushing ps of
        Some records \<Rightarrow>
          (ps\<lparr>ps_walFlushing := None, ps_walPending := records @ ps_walPending ps\<rparr>, dk\<lparr>dk_wal := dk_wal dk @ take n records\<rparr>)
      | None \<Rightarrow> (ps, dk))"
| "persist_step h cfg (ps, dk) WalTruncate =
     (if ps_truncating ps then (ps\<lparr>ps_flushing := None, ps_truncating := False\<rparr>, dk\<lparr>dk_wal := []\<rparr>) else (ps, dk))"

end
