(* ===== verification/PersistView.thy ===== *)
theory PersistView
  imports Persist
begin

text \<open>
  What the storage holds, seen as a view: the operations in its journals, the metadata and the tombstones. A batch of queued changes is an
  update of that view, every storage operation of a flush is a part of it, and whatever part of a flush has been done, doing the whole
  batch again gives what the flush was to give. So the queues, the flush under way and the storage together always hold the history.
\<close>

subsection \<open>Views\<close>

record held =
  av_ops :: "rop set"
  av_dbTombs :: "string set"
  av_collTombs :: "(string \<times> string) set"
  av_dbMeta :: "string \<Rightarrow> jsv option"
  av_collMeta :: "string \<times> string \<Rightarrow> jsv option"

definition empty_view :: held where
  "empty_view = \<lparr>av_ops = {}, av_dbTombs = {}, av_collTombs = {}, av_dbMeta = (\<lambda>db. None), av_collMeta = (\<lambda>t. None)\<rparr>"

definition at_of :: "rop \<Rightarrow> string \<times> string" where
  "at_of op = (op_db op, op_coll op)"

definition drop_dbs :: "string set \<Rightarrow> held \<Rightarrow> held" where
  "drop_dbs D v = \<lparr>av_ops = {op \<in> av_ops v. op_db op \<notin> D}, av_dbTombs = av_dbTombs v \<union> D,
     av_collTombs = {t \<in> av_collTombs v. fst t \<notin> D}, av_dbMeta = (\<lambda>db. if db \<in> D then None else av_dbMeta v db),
     av_collMeta = (\<lambda>t. if fst t \<in> D then None else av_collMeta v t)\<rparr>"

definition drop_colls :: "(string \<times> string) set \<Rightarrow> held \<Rightarrow> held" where
  "drop_colls C v = v\<lparr>av_ops := {op \<in> av_ops v. at_of op \<notin> C}, av_collTombs := av_collTombs v \<union> C,
     av_collMeta := (\<lambda>t. if t \<in> C then None else av_collMeta v t)\<rparr>"

definition set_dbs :: "(string \<Rightarrow> jsv option) \<Rightarrow> held \<Rightarrow> held" where
  "set_dbs m v = v\<lparr>av_dbTombs := av_dbTombs v - dom m, av_dbMeta := av_dbMeta v ++ m\<rparr>"

definition set_colls :: "(string \<times> string \<Rightarrow> jsv option) \<Rightarrow> held \<Rightarrow> held" where
  "set_colls m v = v\<lparr>av_collTombs := av_collTombs v - dom m, av_collMeta := av_collMeta v ++ m\<rparr>"

definition add_ops :: "rop set \<Rightarrow> held \<Rightarrow> held" where
  "add_ops ops v = v\<lparr>av_ops := av_ops v \<union> ops\<rparr>"

lemmas view_updates = drop_dbs_def drop_colls_def set_dbs_def set_colls_def add_ops_def

lemma view_eqI:
  "av_ops v = av_ops w \<Longrightarrow> av_dbTombs v = av_dbTombs w \<Longrightarrow> av_collTombs v = av_collTombs w \<Longrightarrow> av_dbMeta v = av_dbMeta w \<Longrightarrow>
    av_collMeta v = av_collMeta w \<Longrightarrow> v = (w :: held)"
  by simp

text \<open>A change of the node.\<close>

fun change_view :: "held \<Rightarrow> node_change \<Rightarrow> held" where
  "change_view v (CDatabase db meta) = set_dbs [db \<mapsto> json_clone meta] v"
| "change_view v (CDropDatabase db) = drop_dbs {db} v"
| "change_view v (CDropCollection db coll) = drop_colls {(db, coll)} v"
| "change_view v (CMeta db coll meta) = set_colls [(db, coll) \<mapsto> json_clone meta] v"
| "change_view v (COps ops) = add_ops (set ops) v"
| "change_view v CSnapshot = v"

subsection \<open>Batches\<close>

definition batch_colls :: "batch \<Rightarrow> (string \<times> string) set" where
  "batch_colls b = parseCollectionKey ` set (bt_collDrops b)"

definition batch_metas :: "batch \<Rightarrow> string \<times> string \<Rightarrow> jsv option" where
  "batch_metas b t = jm_get (bt_meta b) (persistCollectionKey (fst t) (snd t))"

definition batch_ops :: "batch \<Rightarrow> rop set" where
  "batch_ops b = (\<Union>(key, ops) \<in> set (bt_pending b). set ops)"

definition batch_view :: "batch \<Rightarrow> held \<Rightarrow> held" where
  "batch_view b v =
     add_ops (batch_ops b) (set_colls (batch_metas b) (set_dbs (jm_get (bt_databases b))
       (drop_colls (batch_colls b) (drop_dbs (set (bt_dbDrops b)) v))))"

definition line_name :: "string \<Rightarrow> bool" where
  "line_name s \<longleftrightarrow> s \<noteq> [] \<and> newline \<notin> set s"

definition line_scope :: "scope \<Rightarrow> bool" where
  "line_scope sc \<longleftrightarrow> line_name (sc_db sc) \<and> line_name (sc_coll sc) \<and> line_name (sc_shard sc)"

definition journal_op :: "host \<Rightarrow> scope \<Rightarrow> rop \<Rightarrow> bool" where
  "journal_op h sc op \<longleftrightarrow> op_scope h op = sc \<and> op_seq op < 2 ^ 53"

definition queue_ok :: "host \<Rightarrow> batch \<Rightarrow> bool" where
  "queue_ok h b \<longleftrightarrow> jm_ok (bt_databases b) \<and> jm_ok (bt_meta b) \<and> jm_ok (bt_pending b) \<and>
     (\<forall>db \<in> set (jm_keys (bt_databases b)) \<union> set (bt_dbDrops b). line_name db) \<and>
     (\<forall>key \<in> set (jm_keys (bt_meta b)) \<union> set (bt_collDrops b).
        \<exists>db coll. key = persistCollectionKey db coll \<and> line_name db \<and> line_name coll) \<and>
     (\<forall>key ops. (key, ops) \<in> set (bt_pending b) \<longrightarrow> (\<exists>sc. key = persistScopeKey sc \<and> line_scope sc \<and> (\<forall>op \<in> set ops. journal_op h sc op)))"

lemma parse_persist_scope: "line_scope sc \<Longrightarrow> parseScopeKey (persistScopeKey sc) = sc"
proof -
  assume sc: "line_scope sc"
  then have "split_on newline (persistScopeKey sc) = [sc_db sc, sc_coll sc, sc_shard sc]"
    by (simp add: persistScopeKey_def nodeScopeKey_def line_scope_def line_name_def split_at_sep split_no_sep)
  then show ?thesis by (simp add: parseScopeKey_def)
qed

lemma parse_collection: "line_name db \<Longrightarrow> line_name coll \<Longrightarrow> parseCollectionKey (persistCollectionKey db coll) = (db, coll)"
  by (simp add: parseCollectionKey_def parseScopeKey_def persistCollectionKey_def line_name_def split_at_sep split_no_sep)

lemma persist_key_inj: "line_name db' \<Longrightarrow> line_name coll' \<Longrightarrow> persistCollectionKey db coll = persistCollectionKey db' coll' \<longleftrightarrow> db = db' \<and> coll = coll'"
  by (auto simp: persistCollectionKey_def line_name_def append_eq_append_conv2 Cons_eq_append_conv append_eq_Cons_conv)

lemma batch_okD:
  assumes "queue_ok h b"
  shows "jm_ok (bt_databases b)" "jm_ok (bt_meta b)" "jm_ok (bt_pending b)"
    "db \<in> set (jm_keys (bt_databases b)) \<union> set (bt_dbDrops b) \<Longrightarrow> line_name db"
    "key \<in> set (jm_keys (bt_meta b)) \<union> set (bt_collDrops b) \<Longrightarrow> \<exists>db coll. key = persistCollectionKey db coll \<and> line_name db \<and> line_name coll"
    "(key, ops) \<in> set (bt_pending b) \<Longrightarrow> \<exists>sc. key = persistScopeKey sc \<and> line_scope sc \<and> (\<forall>op \<in> set ops. journal_op h sc op)"
  using assms unfolding queue_ok_def by blast+

lemma empty_batch_ok: "queue_ok h empty_batch" "batch_view empty_batch v = v"
  by (simp_all add: queue_ok_def empty_batch_def batch_view_def view_updates batch_ops_def batch_metas_def [abs_def] batch_colls_def)

lemma batch_empty_iff: "batch_empty b \<longleftrightarrow> b = empty_batch"
  by (cases b) (auto simp: batch_empty_def empty_batch_def)

subsection \<open>The storage operations of a flush on the view\<close>

datatype vact =
    VDropDb string
  | VTombDb string
  | VDropColl "string \<times> string"
  | VTombColl "string \<times> string"
  | VUntombDb string
  | VDbMeta string jsv
  | VUntombColl "string \<times> string"
  | VCollMeta "string \<times> string" jsv
  | VJournal scope "rop list"

fun conc :: "string \<Rightarrow> vact \<Rightarrow> store_action" where
  "conc prefix (VDropDb db) = DeletePrefix (databasePrefix prefix db @ [slash])"
| "conc prefix (VTombDb db) = PutBody (databaseTombstoneKey prefix db) TombBody"
| "conc prefix (VDropColl t) = DeletePrefix (collectionPrefix prefix (fst t) (snd t) @ [slash])"
| "conc prefix (VTombColl t) = PutBody (collectionTombstoneKey prefix (fst t) (snd t)) TombBody"
| "conc prefix (VUntombDb db) = DeleteKey (databaseTombstoneKey prefix db)"
| "conc prefix (VDbMeta db m) = PutBody (databaseMetaKey prefix db) (MetaBody m)"
| "conc prefix (VUntombColl t) = DeleteKey (collectionTombstoneKey prefix (fst t) (snd t))"
| "conc prefix (VCollMeta t m) = PutBody (collectionMetaKey prefix (fst t) (snd t)) (MetaBody m)"
| "conc prefix (VJournal sc ops) = PutJournal sc ops"

fun act_view :: "held \<Rightarrow> vact \<Rightarrow> held" where
  "act_view v (VDropDb db) =
     v\<lparr>av_ops := {op \<in> av_ops v. op_db op \<noteq> db}, av_collTombs := {t \<in> av_collTombs v. fst t \<noteq> db}, av_dbMeta := (av_dbMeta v)(db := None),
       av_collMeta := (\<lambda>t. if fst t = db then None else av_collMeta v t)\<rparr>"
| "act_view v (VTombDb db) = v\<lparr>av_dbTombs := insert db (av_dbTombs v)\<rparr>"
| "act_view v (VDropColl t) = v\<lparr>av_ops := {op \<in> av_ops v. at_of op \<noteq> t}, av_collMeta := (av_collMeta v)(t := None)\<rparr>"
| "act_view v (VTombColl t) = v\<lparr>av_collTombs := insert t (av_collTombs v)\<rparr>"
| "act_view v (VUntombDb db) = v\<lparr>av_dbTombs := av_dbTombs v - {db}\<rparr>"
| "act_view v (VDbMeta db m) = v\<lparr>av_dbMeta := (av_dbMeta v)(db \<mapsto> m)\<rparr>"
| "act_view v (VUntombColl t) = v\<lparr>av_collTombs := av_collTombs v - {t}\<rparr>"
| "act_view v (VCollMeta t m) = v\<lparr>av_collMeta := (av_collMeta v)(t \<mapsto> m)\<rparr>"
| "act_view v (VJournal sc ops) = v\<lparr>av_ops := av_ops v \<union> set ops\<rparr>"

definition batch_acts :: "persist_config \<Rightarrow> batch \<Rightarrow> vact list" where
  "batch_acts cfg b =
     concat (map (\<lambda>db. [VDropDb db, VTombDb db]) (bt_dbDrops b)) @
     concat (map (\<lambda>key. [VDropColl (parseCollectionKey key), VTombColl (parseCollectionKey key)]) (bt_collDrops b)) @
     concat (map (\<lambda>(db, meta). [VUntombDb db, VDbMeta db meta]) (bt_databases b)) @
     concat (map (\<lambda>(key, meta). [VUntombColl (parseCollectionKey key), VCollMeta (parseCollectionKey key) meta]) (bt_meta b)) @
     concat (map (\<lambda>(key, ops). map (VJournal (parseScopeKey key))
        (chunkOpsForRecord (pc_opBytes cfg) (pc_journalMaxBytes cfg) (pc_opBatchSize cfg) ops)) (bt_pending b))"

lemma flush_actions_conc: "flush_actions cfg b = map (conc (pc_prefix cfg)) (batch_acts cfg b)"
  by (simp add: flush_actions_def batch_acts_def map_concat comp_def removeStoredDatabase_def [abs_def] removeStoredCollection_def
      writeDatabaseMeta_def writeCollectionMeta_def writeJournalBatch_def case_prod_unfold)

lemma chunk_loop_concat: "concat (chunk_loop opBytes maxBytes maxOps current bytes ops) = current @ ops"
  by (induction opBytes maxBytes maxOps current bytes ops rule: chunk_loop.induct) (auto simp: Let_def)

lemma chunks_concat: "concat (chunkOpsForRecord opBytes maxBytes maxOps ops) = ops"
  by (simp add: chunkOpsForRecord_def chunk_loop_concat)

lemma chunk_mem: "chunk \<in> set (chunkOpsForRecord opBytes maxBytes maxOps ops) \<Longrightarrow> op \<in> set chunk \<Longrightarrow> op \<in> set ops"
  by (metis UN_I chunks_concat set_concat)

text \<open>The parts of the flush make the batch.\<close>

lemma fold_drop_dbs: "foldl act_view v (concat (map (\<lambda>db. [VDropDb db, VTombDb db]) dbs)) = drop_dbs (set dbs) v"
proof (induction dbs arbitrary: v)
  case (Cons db dbs)
  show ?case unfolding list.map concat.simps foldl_append Cons.IH
    by (rule view_eqI) (auto simp: drop_dbs_def fun_eq_iff)
qed (simp add: drop_dbs_def)

lemma fold_drop_colls: "foldl act_view v (concat (map (\<lambda>key. [VDropColl (f key), VTombColl (f key)]) keys)) = drop_colls (f ` set keys) v"
proof (induction keys arbitrary: v)
  case (Cons key keys)
  show ?case unfolding list.map concat.simps foldl_append Cons.IH
    by (rule view_eqI) (auto simp: drop_colls_def fun_eq_iff)
qed (simp add: drop_colls_def)

lemma fold_set_dbs: "jm_ok m \<Longrightarrow> foldl act_view v (concat (map (\<lambda>(db, meta). [VUntombDb db, VDbMeta db meta]) m)) = set_dbs (jm_get m) v"
proof (induction m arbitrary: v)
  case (Cons e m)
  obtain db meta where e: "e = (db, meta)" by (cases e)
  have "jm_get m db = None" using Cons.prems by (simp add: e map_of_eq_None_iff)
  then show ?case using Cons.prems unfolding e list.map concat.simps foldl_append prod.case
    by (subst Cons.IH) (auto intro!: view_eqI simp: set_dbs_def fun_eq_iff map_add_def split: option.splits)
qed (simp add: set_dbs_def map_add_def)

lemma fold_set_colls:
  assumes "distinct (map (f \<circ> fst) m)"
  shows "foldl act_view v (concat (map (\<lambda>(key, meta). [VUntombColl (f key), VCollMeta (f key) meta]) m)) =
    set_colls (map_of (map (\<lambda>(key, meta). (f key, meta)) m)) v"
  using assms
proof (induction m arbitrary: v)
  case (Cons e m)
  obtain key meta where e: "e = (key, meta)" by (cases e)
  have "f key \<notin> (f \<circ> fst) ` set m" using Cons.prems by (simp add: e)
  then have "map_of (map (\<lambda>(key, meta). (f key, meta)) m) (f key) = None" by (auto simp: map_of_eq_None_iff image_iff)
  then show ?case using Cons.prems unfolding e list.map concat.simps foldl_append prod.case
    by (subst Cons.IH) (auto intro!: view_eqI simp: set_colls_def fun_eq_iff map_add_def split: option.splits)
qed (simp add: set_colls_def map_add_def)

lemma fold_journals: "foldl act_view v (concat (map (\<lambda>(key, ops). map (VJournal (f key)) (g ops)) m)) =
    add_ops (\<Union>(key, ops) \<in> set m. set (concat (g ops))) v"
proof (induction m arbitrary: v)
  case (Cons e m)
  obtain key ops where e: "e = (key, ops)" by (cases e)
  have one: "foldl act_view v (map (VJournal sc) chunks) = add_ops (set (concat chunks)) v" for sc chunks v
    by (induction chunks arbitrary: v) (auto intro!: view_eqI simp: add_ops_def)
  show ?case unfolding e list.map concat.simps foldl_append prod.case Cons.IH one
    by (rule view_eqI) (auto simp: add_ops_def)
qed (simp add: add_ops_def)

lemma batch_metas_eq:
  assumes "queue_ok h b"
  shows "batch_metas b = map_of (map (\<lambda>(key, meta). (parseCollectionKey key, meta)) (bt_meta b))"
    "distinct (map (parseCollectionKey \<circ> fst) (bt_meta b))"
proof -
  have keys: "\<forall>key \<in> set (jm_keys (bt_meta b)). \<exists>db coll. key = persistCollectionKey db coll \<and> line_name db \<and> line_name coll"
    using batch_okD(5) [OF assms] by blast
  have eq: "jm_get m (persistCollectionKey (fst t) (snd t)) = map_of (map (\<lambda>(key, meta). (parseCollectionKey key, meta)) m) t"
    if "\<forall>key \<in> set (jm_keys m). \<exists>db coll. key = persistCollectionKey db coll \<and> line_name db \<and> line_name coll" for m t
    using that
  proof (induction m)
    case (Cons e m)
    obtain key meta where e: "e = (key, meta)" by (cases e)
    obtain db coll where k: "key = persistCollectionKey db coll" "line_name db" "line_name coll" using Cons.prems by (auto simp: e)
    show ?case using Cons.IH Cons.prems persist_key_inj [OF k(2,3), of "fst t" "snd t"] parse_collection [OF k(2,3)]
      by (cases t) (auto simp: e k(1))
  qed simp
  show "batch_metas b = map_of (map (\<lambda>(key, meta). (parseCollectionKey key, meta)) (bt_meta b))"
    using eq [OF keys] by (simp add: fun_eq_iff batch_metas_def)
  have "inj_on parseCollectionKey (set (jm_keys (bt_meta b)))"
  proof (rule inj_onI)
    fix x y assume xy: "x \<in> set (jm_keys (bt_meta b))" "y \<in> set (jm_keys (bt_meta b))" "parseCollectionKey x = parseCollectionKey y"
    obtain d c where x: "x = persistCollectionKey d c" "line_name d" "line_name c" using keys xy(1) by blast
    obtain d' c' where y: "y = persistCollectionKey d' c'" "line_name d'" "line_name c'" using keys xy(2) by blast
    show "x = y" using xy(3) x y parse_collection by simp
  qed
  then show "distinct (map (parseCollectionKey \<circ> fst) (bt_meta b))"
    using batch_okD(2) [OF assms] by (simp add: distinct_map comp_inj_on)
qed

lemma batch_acts_view:
  assumes "queue_ok h b"
  shows "foldl act_view v (batch_acts cfg b) = batch_view b v"
proof -
  have ops: "(\<Union>(key, ops) \<in> set (bt_pending b). set (concat (chunkOpsForRecord (pc_opBytes cfg) (pc_journalMaxBytes cfg) (pc_opBatchSize cfg) ops))) =
      batch_ops b" by (simp only: chunks_concat batch_ops_def)
  show ?thesis
    unfolding batch_acts_def foldl_append fold_drop_dbs fold_drop_colls fold_set_dbs [OF batch_okD(1) [OF assms]]
      fold_set_colls [OF batch_metas_eq(2) [OF assms]] fold_journals ops batch_view_def batch_colls_def
      batch_metas_eq(1) [OF assms] ..
qed

text \<open>Doing the batch after a part of it is doing the batch.\<close>

lemma batch_act_cases:
  assumes "queue_ok h b" and "a \<in> set (batch_acts cfg b)"
  shows "case a of
      VDropDb db \<Rightarrow> db \<in> set (bt_dbDrops b) | VTombDb db \<Rightarrow> db \<in> set (bt_dbDrops b)
    | VDropColl t \<Rightarrow> t \<in> batch_colls b | VTombColl t \<Rightarrow> t \<in> batch_colls b
    | VUntombDb db \<Rightarrow> jm_has (bt_databases b) db | VDbMeta db m \<Rightarrow> jm_get (bt_databases b) db = Some m
    | VUntombColl t \<Rightarrow> batch_metas b t \<noteq> None | VCollMeta t m \<Rightarrow> batch_metas b t = Some m
    | VJournal sc ops \<Rightarrow> set ops \<subseteq> batch_ops b \<and> line_scope sc \<and> (\<forall>op \<in> set ops. journal_op h sc op)"
proof -
  have meta: "batch_metas b (parseCollectionKey key) = Some m" if "(key, m) \<in> set (bt_meta b)" for key m
  proof -
    have "(parseCollectionKey key, m) \<in> set (map (\<lambda>(key, meta). (parseCollectionKey key, meta)) (bt_meta b))"
      using that by force
    moreover have "distinct (map fst (map (\<lambda>(key, meta). (parseCollectionKey key, meta)) (bt_meta b)))"
      using batch_metas_eq(2) [OF assms(1)] by (simp add: comp_def case_prod_unfold)
    ultimately show ?thesis by (simp add: batch_metas_eq(1) [OF assms(1)])
  qed
  have db: "jm_get (bt_databases b) k = Some m" if "(k, m) \<in> set (bt_databases b)" for k m
    using that batch_okD(1) [OF assms(1)] by (simp add: jm_get_mem)
  have journal: "set chunk \<subseteq> batch_ops b \<and> line_scope (parseScopeKey key) \<and> (\<forall>op \<in> set chunk. journal_op h (parseScopeKey key) op)"
    if "(key, ops) \<in> set (bt_pending b)" "chunk \<in> set (chunkOpsForRecord (pc_opBytes cfg) (pc_journalMaxBytes cfg) (pc_opBatchSize cfg) ops)"
    for key ops chunk
  proof -
    note mem = that
    obtain sc where sc: "key = persistScopeKey sc" "line_scope sc" "\<forall>op \<in> set ops. journal_op h sc op"
      using batch_okD(6) [OF assms(1) mem(1)] by blast
    have "set chunk \<subseteq> set ops" using chunk_mem [OF mem(2)] by blast
    then show ?thesis using sc parse_persist_scope [OF sc(2)] mem(1) by (auto simp: batch_ops_def)
  qed
  show ?thesis using assms(2) unfolding batch_acts_def
    by (auto simp: batch_colls_def dest: meta db journal [THEN conjunct1, THEN subsetD] journal [THEN conjunct2, THEN conjunct1]
        journal [THEN conjunct2, THEN conjunct2, THEN bspec])
qed

lemma batch_absorbs:
  assumes "queue_ok h b" and "a \<in> set (batch_acts cfg b)"
  shows "batch_view b (act_view v a) = batch_view b v"
  using batch_act_cases [OF assms]
  by (cases a) (auto intro!: view_eqI simp: batch_view_def view_updates fun_eq_iff map_add_def split: option.splits)

subsection \<open>Queuing\<close>

lemma get_filter: "jm_get (filter (\<lambda>(k, v). P k) m) x = (if P x then jm_get m x else None)"
  by (induction m) auto

lemma keys_filter: "jm_ok m \<Longrightarrow> jm_ok (filter (\<lambda>(k, v). P k) m)"
  by (induction m) auto

lemma batch_ops_get: "jm_ok (bt_pending b) \<Longrightarrow> batch_ops b = {op. \<exists>key ops. jm_get (bt_pending b) key = Some ops \<and> op \<in> set ops}"
  by (auto simp: batch_ops_def jm_get_mem)

lemma batch_okI:
  assumes "jm_ok (bt_databases b)" "jm_ok (bt_meta b)" "jm_ok (bt_pending b)"
    and "\<And>db. db \<in> set (jm_keys (bt_databases b)) \<union> set (bt_dbDrops b) \<Longrightarrow> line_name db"
    and "\<And>key. key \<in> set (jm_keys (bt_meta b)) \<union> set (bt_collDrops b) \<Longrightarrow> \<exists>db coll. key = persistCollectionKey db coll \<and> line_name db \<and> line_name coll"
    and "\<And>key ops. (key, ops) \<in> set (bt_pending b) \<Longrightarrow> \<exists>sc. key = persistScopeKey sc \<and> line_scope sc \<and> (\<forall>op \<in> set ops. journal_op h sc op)"
  shows "queue_ok h b"
  using assms unfolding queue_ok_def by blast

lemma keys_update: "set (jm_keys (jm_set k v m)) = insert k (set (jm_keys m))"
  by (auto simp: jm_keys_set)

lemma queue_database:
  fixes h :: host and q :: batch and db :: string and m :: jsv and v :: held
  assumes "queue_ok h q" "line_name db" "db \<notin> set (bt_dbDrops q)"
  defines "q' \<equiv> q\<lparr>bt_databases := jm_set db m (bt_databases q), bt_dbDrops := js_del db (bt_dbDrops q)\<rparr>"
  shows "queue_ok h q'" "batch_view q' v = set_dbs [db \<mapsto> m] (batch_view q v)"
proof -
  have drops: "set (js_del db (bt_dbDrops q)) = set (bt_dbDrops q)" using assms(3) by auto
  show "queue_ok h q'" unfolding q'_def
    by (rule batch_okI) (use batch_okD [OF assms(1)] assms(2) drops in \<open>auto simp: jm_keys_set split: if_splits\<close>)
  have f1: "jm_get (bt_databases q') = (jm_get (bt_databases q))(db \<mapsto> m)" by (simp add: q'_def fun_eq_iff)
  have f2: "batch_colls q' = batch_colls q" "batch_metas q' = batch_metas q" "batch_ops q' = batch_ops q"
    by (simp_all add: q'_def batch_colls_def batch_metas_def [abs_def] batch_ops_def)
  have f3: "set (bt_dbDrops q') = set (bt_dbDrops q)" using drops by (simp add: q'_def)
  show "batch_view q' v = set_dbs [db \<mapsto> m] (batch_view q v)"
    unfolding batch_view_def f1 f2 f3 by (intro view_eqI) (auto simp: view_updates)
qed

lemma queue_collection_meta:
  fixes h :: host and q :: batch and db coll :: string and m :: jsv and v :: held
  assumes "queue_ok h q" "line_name db" "line_name coll"
  defines "q' \<equiv> q\<lparr>bt_meta := jm_set (persistCollectionKey db coll) m (bt_meta q)\<rparr>"
  shows "queue_ok h q'" "batch_view q' v = set_colls [(db, coll) \<mapsto> m] (batch_view q v)"
proof -
  show "queue_ok h q'" unfolding q'_def
  proof (rule batch_okI)
    fix key assume "key \<in> set (jm_keys (bt_meta (q\<lparr>bt_meta := jm_set (persistCollectionKey db coll) m (bt_meta q)\<rparr>))) \<union>
        set (bt_collDrops (q\<lparr>bt_meta := jm_set (persistCollectionKey db coll) m (bt_meta q)\<rparr>))"
    then have "key = persistCollectionKey db coll \<or> key \<in> set (jm_keys (bt_meta q)) \<union> set (bt_collDrops q)" by (auto simp: jm_keys_set split: if_splits)
    then show "\<exists>db coll. key = persistCollectionKey db coll \<and> line_name db \<and> line_name coll" using batch_okD(5) [OF assms(1)] assms(2,3) by blast
  qed (use batch_okD(1-4,6) [OF assms(1)] in auto)
  have f1: "batch_metas q' = (batch_metas q)((db, coll) \<mapsto> m)"
    using persist_key_inj [OF assms(2,3)] by (auto simp: q'_def batch_metas_def fun_eq_iff)
  have f2: "batch_colls q' = batch_colls q" "batch_ops q' = batch_ops q" "bt_databases q' = bt_databases q" "bt_dbDrops q' = bt_dbDrops q"
    by (simp_all add: q'_def batch_colls_def batch_ops_def)
  show "batch_view q' v = set_colls [(db, coll) \<mapsto> m] (batch_view q v)"
    unfolding batch_view_def f1 f2 by (intro view_eqI) (auto simp: view_updates)
qed

lemma meta_key:
  assumes "queue_ok h q" "jm_get (bt_meta q) (persistCollectionKey (fst t) (snd t)) = Some m"
  shows "parseCollectionKey (persistCollectionKey (fst t) (snd t)) = t"
proof -
  have "persistCollectionKey (fst t) (snd t) \<in> set (jm_keys (bt_meta q))" using assms(2) by (metis jm_has_iff option.distinct(1))
  then obtain d c where k: "persistCollectionKey (fst t) (snd t) = persistCollectionKey d c" "line_name d" "line_name c"
    using batch_okD(5) [OF assms(1)] by blast
  then show ?thesis using persist_key_inj [OF k(2,3)] parse_collection [OF k(2,3)] by (cases t) auto
qed

lemma pending_at:
  assumes "queue_ok h q" "(key, ops) \<in> set (bt_pending q)" "op \<in> set ops"
  shows "op_db op = sc_db (parseScopeKey key)" "op_coll op = sc_coll (parseScopeKey key)"
proof -
  obtain sc where sc: "key = persistScopeKey sc" "line_scope sc" "\<forall>op \<in> set ops. journal_op h sc op" using batch_okD(6) [OF assms(1,2)] by blast
  then have "op_scope h op = parseScopeKey key" using assms(3) parse_persist_scope [OF sc(2)] by (simp add: journal_op_def)
  from arg_cong [OF this, of sc_db] arg_cong [OF this, of sc_coll]
  show "op_db op = sc_db (parseScopeKey key)" "op_coll op = sc_coll (parseScopeKey key)" by (simp_all add: op_scope_def)
qed

lemma queue_database_drop:
  fixes h :: host and q :: batch and db :: string and v :: held
  assumes "queue_ok h q" "line_name db"
  defines "q' \<equiv> \<lparr>bt_pending = filter (\<lambda>(key, ops). sc_db (parseScopeKey key) \<noteq> db) (bt_pending q), bt_databases = jm_del db (bt_databases q),
      bt_dbDrops = js_add db (bt_dbDrops q), bt_meta = filter (\<lambda>(key, meta). fst (parseCollectionKey key) \<noteq> db) (bt_meta q),
      bt_collDrops = filter (\<lambda>key. fst (parseCollectionKey key) \<noteq> db) (bt_collDrops q)\<rparr>"
  shows "queue_ok h q'" "batch_view q' v = drop_dbs {db} (batch_view q v)"
proof -
  note d = batch_okD [OF assms(1)]
  show "queue_ok h q'" unfolding q'_def
  proof (rule batch_okI, goal_cases)
    case 2
    then show ?case using keys_filter [OF d(2), of "\<lambda>key. fst (parseCollectionKey key) \<noteq> db"] by simp
  next
    case 3
    then show ?case using keys_filter [OF d(3), of "\<lambda>key. sc_db (parseScopeKey key) \<noteq> db"] by simp
  next
    case (4 k)
    then have "k = db \<or> k \<in> set (jm_keys (bt_databases q)) \<union> set (bt_dbDrops q)" by (auto simp: jm_keys_del)
    then show ?case using d(4) assms(2) by blast
  next
    case (5 key)
    then have "key \<in> set (jm_keys (bt_meta q)) \<union> set (bt_collDrops q)" by auto
    then show ?case using d(5) by blast
  next
    case (6 key ops)
    then show ?case using d(6) by simp
  qed (use d(1) in simp)
  have f1: "batch_ops q' = {op \<in> batch_ops q. op_db op \<noteq> db}" using pending_at(1) [OF assms(1)] by (auto simp: q'_def batch_ops_def)
  have f2: "batch_metas q' = (\<lambda>t. if fst t = db then None else batch_metas q t)"
  proof
    fix t
    have "batch_metas q' t = (if fst (parseCollectionKey (persistCollectionKey (fst t) (snd t))) \<noteq> db then batch_metas q t else None)"
      by (simp add: q'_def batch_metas_def get_filter [of "\<lambda>key. fst (parseCollectionKey key) \<noteq> db"])
    then show "batch_metas q' t = (if fst t = db then None else batch_metas q t)"
      using meta_key [OF assms(1), of t] by (cases "batch_metas q t") (auto simp: batch_metas_def)
  qed
  have f3: "batch_colls q' = {t \<in> batch_colls q. fst t \<noteq> db}" by (auto simp: q'_def batch_colls_def)
  have f4: "jm_get (bt_databases q') = (jm_get (bt_databases q))(db := None)" "set (bt_dbDrops q') = insert db (set (bt_dbDrops q))"
    by (auto simp: q'_def fun_eq_iff)
  show "batch_view q' v = drop_dbs {db} (batch_view q v)"
    unfolding batch_view_def f1 f2 f3 f4
    by (intro view_eqI) (auto simp: view_updates fun_eq_iff map_add_def at_of_def split: option.splits if_splits)
qed

lemma queue_collection_drop:
  fixes h :: host and q :: batch and db coll :: string and v :: held
  assumes "queue_ok h q" "line_name db" "line_name coll"
  defines "q' \<equiv> q\<lparr>bt_collDrops := js_add (persistCollectionKey db coll) (bt_collDrops q), bt_meta := jm_del (persistCollectionKey db coll) (bt_meta q),
      bt_pending := filter (\<lambda>(k, ops). \<not> (sc_db (parseScopeKey k) = db \<and> sc_coll (parseScopeKey k) = coll)) (bt_pending q)\<rparr>"
  shows "queue_ok h q'" "batch_view q' v = drop_colls {(db, coll)} (batch_view q v)"
proof -
  note d = batch_okD [OF assms(1)]
  show "queue_ok h q'" unfolding q'_def
  proof (rule batch_okI, goal_cases)
    case 3
    then show ?case using keys_filter [OF d(3), of "\<lambda>k. \<not> (sc_db (parseScopeKey k) = db \<and> sc_coll (parseScopeKey k) = coll)"] by simp
  next
    case (4 k)
    then show ?case using d(4) by simp
  next
    case (5 key)
    then have "key = persistCollectionKey db coll \<or> key \<in> set (jm_keys (bt_meta q)) \<union> set (bt_collDrops q)" by (auto simp: jm_keys_del)
    then show ?case using d(5) assms(2,3) by blast
  next
    case (6 key ops)
    then show ?case using d(6) by simp
  qed (use d(1,2) in simp_all)
  have f1: "batch_ops q' = {op \<in> batch_ops q. at_of op \<noteq> (db, coll)}"
    using pending_at [OF assms(1)] by (auto simp: q'_def batch_ops_def at_of_def)
  have f2: "batch_metas q' = (batch_metas q)((db, coll) := None)"
    using persist_key_inj [OF assms(2,3)] by (auto simp: q'_def batch_metas_def fun_eq_iff)
  have f3: "batch_colls q' = insert (db, coll) (batch_colls q)"
    using parse_collection [OF assms(2,3)] by (auto simp: q'_def batch_colls_def)
  have f4: "bt_databases q' = bt_databases q" "bt_dbDrops q' = bt_dbDrops q" by (simp_all add: q'_def)
  show "batch_view q' v = drop_colls {(db, coll)} (batch_view q v)"
    unfolding batch_view_def f1 f2 f3 f4
    by (intro view_eqI) (auto simp: view_updates fun_eq_iff map_add_def at_of_def split: option.splits if_splits)
qed

lemma queue_operation:
  fixes h :: host and q :: batch and op :: rop and v :: held
  assumes "queue_ok h q" and "line_scope (op_scope h op)" "op_seq op < 2 ^ 53"
  defines "key \<equiv> persistScopeKey (op_scope h op)"
  defines "q' \<equiv> q\<lparr>bt_pending := jm_set key ((case jm_get (bt_pending q) key of None \<Rightarrow> [] | Some ops \<Rightarrow> ops) @ [op]) (bt_pending q)\<rparr>"
  shows "queue_ok h q'" "batch_view q' v = add_ops {op} (batch_view q v)"
proof -
  note d = batch_okD [OF assms(1)]
  have ops: "jm_ok (bt_pending q')" using d(3) by (simp add: q'_def)
  show "queue_ok h q'"
  proof (rule batch_okI)
    fix k ops assume "(k, ops) \<in> set (bt_pending q')"
    then consider "(k, ops) \<in> set (bt_pending q)" | "k = key" "ops = (case jm_get (bt_pending q) key of None \<Rightarrow> [] | Some ops \<Rightarrow> ops) @ [op]"
      using jm_mem_set [OF d(3), of k ops key "(case jm_get (bt_pending q) key of None \<Rightarrow> [] | Some ops \<Rightarrow> ops) @ [op]"]
      by (simp add: q'_def split: if_splits)
    then show "\<exists>sc. k = persistScopeKey sc \<and> line_scope sc \<and> (\<forall>op \<in> set ops. journal_op h sc op)"
    proof cases
      case 1
      then show ?thesis using d(6) by blast
    next
      case 2
      have old: "journal_op h (op_scope h op) x" if "x \<in> set (case jm_get (bt_pending q) key of None \<Rightarrow> [] | Some ops \<Rightarrow> ops)" for x
      proof -
        note mem = that
        obtain ops0 where g: "jm_get (bt_pending q) key = Some ops0" "x \<in> set ops0"
          using mem by (cases "jm_get (bt_pending q) key") auto
        then obtain sc where sc: "key = persistScopeKey sc" "line_scope sc" "\<forall>op \<in> set ops0. journal_op h sc op"
          using d(6) jm_get_mem [OF d(3)] by blast
        then have "sc = op_scope h op" using parse_persist_scope [OF sc(2)] parse_persist_scope [OF assms(2)] by (simp add: key_def)
        then show ?thesis using sc(3) g(2) by blast
      qed
      then show ?thesis using 2 assms(2,3) by (intro exI [of _ "op_scope h op"]) (auto simp: key_def journal_op_def)
    qed
  qed (use d(1,2,4,5) ops in \<open>auto simp: q'_def\<close>)
  have f1: "batch_ops q' = insert op (batch_ops q)"
  proof (intro equalityI subsetI)
    fix x assume "x \<in> batch_ops q'"
    then show "x \<in> insert op (batch_ops q)"
      unfolding batch_ops_get [OF ops] batch_ops_get [OF d(3)] by (auto simp: q'_def split: option.splits if_splits)
  next
    fix x assume "x \<in> insert op (batch_ops q)"
    then consider "x = op" | k xs where "jm_get (bt_pending q) k = Some xs" "x \<in> set xs" unfolding batch_ops_get [OF d(3)] by blast
    then show "x \<in> batch_ops q'"
    proof cases
      case 1
      then show ?thesis unfolding batch_ops_get [OF ops] by (auto simp: q'_def intro: exI [of _ key])
    next
      case (2 k xs)
      then show ?thesis unfolding batch_ops_get [OF ops] by (cases "k = key") (auto simp: q'_def intro: exI [of _ k])
    qed
  qed
  have f2: "batch_metas q' = batch_metas q" "batch_colls q' = batch_colls q" "bt_databases q' = bt_databases q" "bt_dbDrops q' = bt_dbDrops q"
    by (simp_all add: q'_def batch_metas_def [abs_def] batch_colls_def)
  show "batch_view q' v = add_ops {op} (batch_view q v)"
    unfolding batch_view_def f1 f2 by (intro view_eqI) (auto simp: view_updates)
qed

subsection \<open>A flush that failed\<close>

text \<open>Nothing that is dropped by now is in the batch that is put back.\<close>

definition redo_safe :: "batch \<Rightarrow> batch \<Rightarrow> bool" where
  "redo_safe b q \<longleftrightarrow>
     list_all (\<lambda>db. \<not> jm_has (bt_databases b) db \<and> list_all (\<lambda>key. fst (parseCollectionKey key) \<noteq> db) (jm_keys (bt_meta b) @ bt_collDrops b) \<and>
       list_all (\<lambda>(key, ops). sc_db (parseScopeKey key) \<noteq> db) (bt_pending b)) (bt_dbDrops q) \<and>
     list_all (\<lambda>key. \<not> jm_has (bt_meta b) key \<and>
       list_all (\<lambda>(k, ops). (sc_db (parseScopeKey k), sc_coll (parseScopeKey k)) \<noteq> parseCollectionKey key) (bt_pending b)) (bt_collDrops q)"

lemma redo_safeD:
  assumes "redo_safe b q" "queue_ok h b" "queue_ok h q"
  shows "db \<in> set (bt_dbDrops q) \<Longrightarrow> jm_get (bt_databases b) db = None"
    "fst t \<in> set (bt_dbDrops q) \<Longrightarrow> batch_metas b t = None \<and> t \<notin> batch_colls b"
    "op \<in> batch_ops b \<Longrightarrow> op_db op \<notin> set (bt_dbDrops q) \<and> at_of op \<notin> batch_colls q"
    "t \<in> batch_colls q \<Longrightarrow> batch_metas b t = None"
proof -
  note r = assms(1) [unfolded redo_safe_def list_all_iff]
  have keys: "fst (parseCollectionKey key) \<noteq> db" if "db \<in> set (bt_dbDrops q)" "key \<in> set (jm_keys (bt_meta b) @ bt_collDrops b)" for db key
    using r [THEN conjunct1, THEN bspec, OF that(1)] that(2) by blast
  show "db \<in> set (bt_dbDrops q) \<Longrightarrow> jm_get (bt_databases b) db = None" using r by blast
  show "batch_metas b t = None \<and> t \<notin> batch_colls b" if "fst t \<in> set (bt_dbDrops q)"
  proof
    show "batch_metas b t = None"
    proof (rule ccontr)
      assume "batch_metas b t \<noteq> None"
      then obtain m where m: "jm_get (bt_meta b) (persistCollectionKey (fst t) (snd t)) = Some m" by (auto simp: batch_metas_def)
      then have "persistCollectionKey (fst t) (snd t) \<in> set (jm_keys (bt_meta b))" by (metis jm_has_iff option.distinct(1))
      then have "fst (parseCollectionKey (persistCollectionKey (fst t) (snd t))) \<noteq> fst t" using keys [OF that] by simp
      then show False using meta_key [OF assms(2) m] by simp
    qed
    show "t \<notin> batch_colls b" using keys [OF that] by (auto simp: batch_colls_def)
  qed
  show "op_db op \<notin> set (bt_dbDrops q) \<and> at_of op \<notin> batch_colls q" if mem: "op \<in> batch_ops b"
  proof -
    obtain key ops where k: "(key, ops) \<in> set (bt_pending b)" "op \<in> set ops" using mem by (auto simp: batch_ops_def)
    have "sc_db (parseScopeKey key) \<notin> set (bt_dbDrops q)" "(sc_db (parseScopeKey key), sc_coll (parseScopeKey key)) \<notin> batch_colls q"
      using r k(1) by (auto simp: batch_colls_def)
    then show ?thesis using pending_at [OF assms(2) k] by (simp add: at_of_def)
  qed
  show "batch_metas b t = None" if mem: "t \<in> batch_colls q"
  proof -
    obtain key where key: "key \<in> set (bt_collDrops q)" "t = parseCollectionKey key" using mem by (auto simp: batch_colls_def)
    obtain d c where k: "key = persistCollectionKey d c" "line_name d" "line_name c" using batch_okD(5) [OF assms(3)] key(1) by blast
    have "jm_get (bt_meta b) key = None" using r key(1) by blast
    then show ?thesis using key(2) k parse_collection [OF k(2,3)] by (simp add: batch_metas_def)
  qed
qed

lemma requeueBatches_get:
  "jm_ok bs \<Longrightarrow> jm_get (requeueBatches bs p) key =
     (case jm_get bs key of None \<Rightarrow> jm_get p key | Some ops \<Rightarrow> Some (ops @ (case jm_get p key of None \<Rightarrow> [] | Some c \<Rightarrow> c)))"
proof (induction bs arbitrary: p)
  case (Cons e bs)
  obtain k ops where e: "e = (k, ops)" by (cases e)
  have "jm_get bs k = None" using Cons.prems by (simp add: e map_of_eq_None_iff)
  then show ?case using Cons by (auto simp: e requeueBatches_def split: option.splits)
qed (simp add: requeueBatches_def)

lemma requeueBatches_ok: "jm_ok p \<Longrightarrow> jm_ok (requeueBatches bs p)"
  by (induction bs arbitrary: p) (auto simp: requeueBatches_def)

lemma requeueMeta_get: "jm_ok old \<Longrightarrow> jm_get (requeueMeta old q) k = (case jm_get q k of None \<Rightarrow> jm_get old k | Some m \<Rightarrow> Some m)"
proof (induction old arbitrary: q)
  case (Cons e old)
  obtain k' m where e: "e = (k', m)" by (cases e)
  have "jm_get old k' = None" using Cons.prems by (simp add: e map_of_eq_None_iff)
  then show ?case using Cons by (auto simp: e requeueMeta_def split: option.splits)
qed (simp add: requeueMeta_def split: option.splits)

lemma requeueMeta_ok: "jm_ok q \<Longrightarrow> jm_ok (requeueMeta old q)"
proof (induction old arbitrary: q)
  case (Cons e old)
  obtain k m where e: "e = (k, m)" by (cases e)
  have "jm_ok (if jm_has q k then q else jm_set k m q)" using Cons.prems jm_ok_set by (cases "jm_has q k") simp_all
  from Cons.IH [OF this] show ?case by (simp add: e requeueMeta_def)
qed (simp add: requeueMeta_def)

lemma requeueDrops_set: "set (requeueDrops old q) = set old \<union> set q"
  by (induction old arbitrary: q) (auto simp: requeueDrops_def)

lemma requeueMeta_keys: "jm_ok old \<Longrightarrow> set (jm_keys (requeueMeta old q)) = set (jm_keys old) \<union> set (jm_keys q)"
proof (rule set_eqI)
  fix k assume "jm_ok old"
  from requeueMeta_get [OF this, of q k]
  have "jm_has (requeueMeta old q) k \<longleftrightarrow> jm_has old k \<or> jm_has q k" by (simp split: option.splits)
  then show "k \<in> set (jm_keys (requeueMeta old q)) \<longleftrightarrow> k \<in> set (jm_keys old) \<union> set (jm_keys q)"
    unfolding jm_has_iff Un_iff .
qed

lemma requeue_ok:
  assumes "queue_ok h b" "queue_ok h q"
  shows "queue_ok h (requeue b q)"
proof (rule batch_okI, goal_cases)
  case (4 db)
  then have "db \<in> set (jm_keys (bt_databases b)) \<union> set (bt_dbDrops b) \<or> db \<in> set (jm_keys (bt_databases q)) \<union> set (bt_dbDrops q)"
    by (auto simp: requeue_def requeueMeta_keys batch_okD(1) [OF assms(1)] requeueDrops_set simp del: set_map)
  then show ?case using batch_okD(4) [OF assms(1)] batch_okD(4) [OF assms(2)] by blast
next
  case (5 key)
  then have "key \<in> set (jm_keys (bt_meta b)) \<union> set (bt_collDrops b) \<or> key \<in> set (jm_keys (bt_meta q)) \<union> set (bt_collDrops q)"
    by (auto simp: requeue_def requeueMeta_keys batch_okD(2) [OF assms(1)] requeueDrops_set simp del: set_map)
  then show ?case using batch_okD(5) [OF assms(1)] batch_okD(5) [OF assms(2)] by blast
next
  case (6 key ops)
  note get = jm_get_mem [OF batch_okD(3) [OF assms(1)]] jm_get_mem [OF batch_okD(3) [OF assms(2)]]
  have "jm_get (requeueBatches (bt_pending b) (bt_pending q)) key = Some ops"
    using 6 jm_get_mem [OF requeueBatches_ok [OF batch_okD(3) [OF assms(2)]]] by (simp add: requeue_def)
  note this [unfolded requeueBatches_get [OF batch_okD(3) [OF assms(1)]]]
  then consider xs where "(key, xs) \<in> set (bt_pending b)" "ops = xs" | xs where "(key, xs) \<in> set (bt_pending q)" "ops = xs"
    | xs ys where "(key, xs) \<in> set (bt_pending b)" "(key, ys) \<in> set (bt_pending q)" "ops = xs @ ys"
    using get by (auto split: option.splits)
  then show ?case
  proof cases
    case 1
    then show ?thesis using batch_okD(6) [OF assms(1)] by blast
  next
    case 2
    then show ?thesis using batch_okD(6) [OF assms(2)] by blast
  next
    case (3 xs ys)
    obtain sc where sc: "key = persistScopeKey sc" "line_scope sc" "\<forall>op \<in> set xs. journal_op h sc op" using batch_okD(6) [OF assms(1) 3(1)] by blast
    obtain sc' where sc': "key = persistScopeKey sc'" "line_scope sc'" "\<forall>op \<in> set ys. journal_op h sc' op" using batch_okD(6) [OF assms(2) 3(2)] by blast
    have "sc = sc'" using sc sc' parse_persist_scope by metis
    then show ?thesis using sc sc' 3(3) by (intro exI [of _ sc]) auto
  qed
qed (use requeueMeta_ok requeueBatches_ok batch_okD(1-3) [OF assms(2)] in \<open>simp_all add: requeue_def\<close>)

definition ops_at :: "(string, rop list) jmap \<Rightarrow> string \<Rightarrow> rop list" where
  "ops_at m key = (case jm_get m key of None \<Rightarrow> [] | Some ops \<Rightarrow> ops)"

lemma batch_ops_at:
  assumes "jm_ok (bt_pending b)"
  shows "batch_ops b = (\<Union>key. set (ops_at (bt_pending b) key))"
proof (intro equalityI subsetI)
  fix x assume "x \<in> batch_ops b"
  then obtain key ops where "jm_get (bt_pending b) key = Some ops" "x \<in> set ops" unfolding batch_ops_get [OF assms] by blast
  then show "x \<in> (\<Union>key. set (ops_at (bt_pending b) key))" by (intro UN_I [of key]) (simp_all add: ops_at_def)
next
  fix x assume "x \<in> (\<Union>key. set (ops_at (bt_pending b) key))"
  then obtain key where key: "x \<in> set (ops_at (bt_pending b) key)" by blast
  then show "x \<in> batch_ops b" unfolding batch_ops_get [OF assms] by (cases "jm_get (bt_pending b) key") (auto simp: ops_at_def)
qed

lemma requeueBatches_at: "jm_ok bs \<Longrightarrow> ops_at (requeueBatches bs p) key = ops_at bs key @ ops_at p key"
  by (simp add: ops_at_def requeueBatches_get split: option.split)

lemma requeue_view:
  assumes "queue_ok h b" "queue_ok h q" "redo_safe b q"
  shows "batch_view (requeue b q) v = batch_view q (batch_view b v)"
proof -
  note r = redo_safeD [OF assms(3,1,2)]
  have f1: "jm_get (bt_databases (requeue b q)) = jm_get (bt_databases b) ++ jm_get (bt_databases q)"
    by (simp add: fun_eq_iff requeue_def requeueMeta_get batch_okD(1) [OF assms(1)] map_add_def)
  have f2: "batch_metas (requeue b q) = batch_metas b ++ batch_metas q"
    by (rule ext) (simp add: batch_metas_def requeue_def requeueMeta_get batch_okD(2) [OF assms(1)] map_add_def split: option.split)
  have f3: "batch_colls (requeue b q) = batch_colls b \<union> batch_colls q" by (simp add: batch_colls_def requeue_def requeueDrops_set image_Un)
  have f4: "set (bt_dbDrops (requeue b q)) = set (bt_dbDrops b) \<union> set (bt_dbDrops q)" by (simp add: requeue_def requeueDrops_set)
  have ok: "jm_ok (bt_pending (requeue b q))" by (rule batch_okD(3) [OF requeue_ok [OF assms(1,2)]])
  have f5: "batch_ops (requeue b q) = batch_ops b \<union> batch_ops q"
    unfolding batch_ops_at [OF ok] batch_ops_at [OF batch_okD(3) [OF assms(1)]] batch_ops_at [OF batch_okD(3) [OF assms(2)]]
    by (auto simp: requeue_def requeueBatches_at batch_okD(3) [OF assms(1)])
  have m: "map_add (jm_get (bt_databases b)) (jm_get (bt_databases q)) db = (if db \<in> set (bt_dbDrops q) then jm_get (bt_databases q) db
      else map_add (jm_get (bt_databases b)) (jm_get (bt_databases q)) db)" for db
    using r(1) by (simp add: map_add_def split: option.splits)
  show ?thesis unfolding batch_view_def f1 f2 f3 f4 f5
  proof (rule view_eqI, goal_cases)
    case 1
    show ?case using r(3) by (auto simp: view_updates at_of_def)
  next
    case 2
    show ?case using r(1) by (auto simp: view_updates)
  next
    case 3
    show ?case using r(2,4) by (auto simp: view_updates)
  next
    case 4
    show ?case using r(1) by (auto simp: view_updates fun_eq_iff map_add_def split: option.splits)
  next
    case 5
    show ?case using r(2,4) by (auto simp: view_updates fun_eq_iff map_add_def split: option.splits)
  qed
qed

end
