(* ===== verification/PersistDisk.thy ===== *)
theory PersistDisk
  imports PersistView
begin

text \<open>
  The storage as a view: every object of it is of one of the kinds of StorageKeys, and each storage operation of a flush does to the view
  what \<open>act_view\<close> says. Then the runs of the manager: at every moment the queues, the flush under way and the storage hold the history of the
  node's changes.
\<close>

subsection \<open>Objects by kind\<close>

definition fetch :: "string \<Rightarrow> body objects \<Rightarrow> storage_key \<Rightarrow> body option" where
  "fetch prefix objects k = storage_get (key_of prefix (parts_of k)) objects"

lemma number_dash_cut: "number_dash (ds @ CHR ''-'' # r) = number_dash (ds' @ CHR ''-'' # r') \<Longrightarrow> ds \<noteq> [] \<Longrightarrow> list_all is_digit ds \<Longrightarrow> ds' \<noteq> [] \<Longrightarrow>
    list_all is_digit ds' \<Longrightarrow> r = r'"
  by (simp add: number_dash_read)

lemma journalFile_uuid:
  assumes "journalFile now a b uuid = journalFile now' a' b' uuid'"
  shows "uuid = uuid'"
proof -
  note d = decimal_digits
  have "number_dash (journalFile now a b uuid) = number_dash (journalFile now' a' b' uuid')" using assms by simp
  from number_dash_cut [OF this [unfolded journalFile_def, simplified] d(1,2) d(1,2)]
  have "pad a @ CHR ''-'' # pad b @ CHR ''-'' # uuid @ ''.jsonl'' = pad a' @ CHR ''-'' # pad b' @ CHR ''-'' # uuid' @ ''.jsonl''" by simp
  from number_dash_cut [OF arg_cong [OF this, of number_dash] d(3,4) d(3,4)]
  have "pad b @ CHR ''-'' # uuid @ ''.jsonl'' = pad b' @ CHR ''-'' # uuid' @ ''.jsonl''" by simp
  from number_dash_cut [OF arg_cong [OF this, of number_dash] d(3,4) d(3,4)]
  show ?thesis by simp
qed

lemma parts_inj:
  assumes "plain_storage_key k" "plain_storage_key k'" "parts_of k = parts_of k'"
  shows "k = k'"
proof (cases k)
  case (JournalOf sc ident now a b uuid)
  note k = JournalOf
  then obtain sc' ident' now' a' b' uuid' where k': "k' = JournalOf sc' ident' now' a' b' uuid'" using assms(3) by (cases k') auto
  have same: "sc = sc'" "ident = ident'" "journalFile now a b uuid = journalFile now' a' b' uuid'"
    using assms(3) by (simp_all add: k k')
  have m: "journal_match (journalFile now a b uuid) = Some (now, a, b)" "journal_match (journalFile now' a' b' uuid') = Some (now', a', b')"
    using assms(1,2) by (simp_all add: k k' journal_match_file)
  have "Some (now, a, b) = Some (now', a', b')" unfolding m(1) [symmetric] m(2) [symmetric] same(3) ..
  then show ?thesis unfolding k k' same(1,2) journalFile_uuid [OF same(3)] by simp
qed (use assms(3) in \<open>cases k'; simp\<close>)+

lemma key_eq: "plain_storage_key k \<Longrightarrow> plain_storage_key k' \<Longrightarrow> key_of prefix (parts_of k) = key_of prefix (parts_of k') \<longleftrightarrow> k = k'"
  by (metis key_of_inj parts_inj parts_no_slash)

subsection \<open>What the storage may hold\<close>

fun line_key :: "storage_key \<Rightarrow> bool" where
  "line_key (JournalOf sc ident now a b uuid) \<longleftrightarrow> line_scope sc"
| "line_key (DatabaseMetaOf db) \<longleftrightarrow> line_name db"
| "line_key (CollectionMetaOf db coll) \<longleftrightarrow> line_name db \<and> line_name coll"
| "line_key (CollectionTombOf db coll) \<longleftrightarrow> line_name db \<and> line_name coll"
| "line_key (DatabaseTombOf db) \<longleftrightarrow> line_name db"

fun holds_body :: "host \<Rightarrow> string \<Rightarrow> string set \<Rightarrow> storage_key \<Rightarrow> body \<Rightarrow> bool" where
  "holds_body h ident used (JournalOf sc i now a b uuid) body \<longleftrightarrow>
     i = ident \<and> uuid \<in> used \<and> (\<exists>ops. body = JournalBody ops \<and> (\<forall>op \<in> set ops. journal_op h sc op) \<and> ops_seqs ops = (a, b))"
| "holds_body h ident used (DatabaseMetaOf db) body \<longleftrightarrow> (\<exists>m. body = MetaBody m)"
| "holds_body h ident used (CollectionMetaOf db coll) body \<longleftrightarrow> (\<exists>m. body = MetaBody m)"
| "holds_body h ident used (CollectionTombOf db coll) body \<longleftrightarrow> body = TombBody"
| "holds_body h ident used (DatabaseTombOf db) body \<longleftrightarrow> body = TombBody"

definition disk_ok :: "host \<Rightarrow> string \<Rightarrow> string \<Rightarrow> string set \<Rightarrow> body objects \<Rightarrow> bool" where
  "disk_ok h prefix ident used objects \<longleftrightarrow>
     (\<forall>key body. storage_get key objects = Some body \<longrightarrow>
        (\<exists>k. plain_storage_key k \<and> line_key k \<and> key = key_of prefix (parts_of k) \<and> holds_body h ident used k body))"

lemma disk_okI:
  "(\<And>key body. storage_get key objects = Some body \<Longrightarrow>
      \<exists>k. plain_storage_key k \<and> line_key k \<and> key = key_of prefix (parts_of k) \<and> holds_body h ident used k body) \<Longrightarrow>
    disk_ok h prefix ident used objects"
  unfolding disk_ok_def by blast

lemma disk_okD:
  "disk_ok h prefix ident used objects \<Longrightarrow> storage_get key objects = Some body \<Longrightarrow>
    \<exists>k. plain_storage_key k \<and> line_key k \<and> key = key_of prefix (parts_of k) \<and> holds_body h ident used k body"
  unfolding disk_ok_def by blast

lemma disk_fetch:
  assumes "disk_ok h prefix ident used objects" "plain_storage_key k" "fetch prefix objects k = Some body"
  shows "line_key k" "holds_body h ident used k body"
proof -
  obtain k' where k': "plain_storage_key k'" "line_key k'" "key_of prefix (parts_of k) = key_of prefix (parts_of k')" "holds_body h ident used k' body"
    using disk_okD [OF assms(1) assms(3) [unfolded fetch_def]] by blast
  have "k = k'" using key_eq [OF assms(2) k'(1)] k'(3) by simp
  then show "line_key k" "holds_body h ident used k body" using k' by simp_all
qed

definition disk_view :: "string \<Rightarrow> body objects \<Rightarrow> held" where
  "disk_view prefix objects =
     \<lparr>av_ops = {op. \<exists>sc ident now a b uuid ops. plain_storage_key (JournalOf sc ident now a b uuid) \<and>
          fetch prefix objects (JournalOf sc ident now a b uuid) = Some (JournalBody ops) \<and> op \<in> set ops},
      av_dbTombs = {db. line_name db \<and> fetch prefix objects (DatabaseTombOf db) \<noteq> None},
      av_collTombs = {t. line_name (fst t) \<and> line_name (snd t) \<and> fetch prefix objects (CollectionTombOf (fst t) (snd t)) \<noteq> None},
      av_dbMeta = (\<lambda>db. if line_name db then (case fetch prefix objects (DatabaseMetaOf db) of Some (MetaBody m) \<Rightarrow> Some m | _ \<Rightarrow> None) else None),
      av_collMeta = (\<lambda>t. if line_name (fst t) \<and> line_name (snd t)
          then (case fetch prefix objects (CollectionMetaOf (fst t) (snd t)) of Some (MetaBody m) \<Rightarrow> Some m | _ \<Rightarrow> None) else None)\<rparr>"

subsection \<open>One storage operation\<close>

fun act_ok :: "host \<Rightarrow> vact \<Rightarrow> bool" where
  "act_ok h (VJournal sc ops) \<longleftrightarrow> line_scope sc \<and> (\<forall>op \<in> set ops. journal_op h sc op)"
| "act_ok h (VDropDb db) \<longleftrightarrow> line_name db"
| "act_ok h (VTombDb db) \<longleftrightarrow> line_name db"
| "act_ok h (VUntombDb db) \<longleftrightarrow> line_name db"
| "act_ok h (VDbMeta db m) \<longleftrightarrow> line_name db"
| "act_ok h (VDropColl t) \<longleftrightarrow> line_name (fst t) \<and> line_name (snd t)"
| "act_ok h (VTombColl t) \<longleftrightarrow> line_name (fst t) \<and> line_name (snd t)"
| "act_ok h (VUntombColl t) \<longleftrightarrow> line_name (fst t) \<and> line_name (snd t)"
| "act_ok h (VCollMeta t m) \<longleftrightarrow> line_name (fst t) \<and> line_name (snd t)"

fun act_fetch :: "string \<Rightarrow> nat \<Rightarrow> string \<Rightarrow> vact \<Rightarrow> storage_key \<Rightarrow> body option \<Rightarrow> body option" where
  "act_fetch ident now uuid (VDropDb db) k old =
     (if (case k of JournalOf sc _ _ _ _ _ \<Rightarrow> sc_db sc = db | DatabaseMetaOf d \<Rightarrow> d = db | CollectionMetaOf d _ \<Rightarrow> d = db
          | CollectionTombOf d _ \<Rightarrow> d = db | DatabaseTombOf d \<Rightarrow> False) then None else old)"
| "act_fetch ident now uuid (VTombDb db) k old = (if k = DatabaseTombOf db then Some TombBody else old)"
| "act_fetch ident now uuid (VDropColl t) k old =
     (if (case k of JournalOf sc _ _ _ _ _ \<Rightarrow> sc_db sc = fst t \<and> sc_coll sc = snd t | CollectionMetaOf d c \<Rightarrow> d = fst t \<and> c = snd t | _ \<Rightarrow> False)
      then None else old)"
| "act_fetch ident now uuid (VTombColl t) k old = (if k = CollectionTombOf (fst t) (snd t) then Some TombBody else old)"
| "act_fetch ident now uuid (VUntombDb db) k old = (if k = DatabaseTombOf db then None else old)"
| "act_fetch ident now uuid (VDbMeta db m) k old = (if k = DatabaseMetaOf db then Some (MetaBody m) else old)"
| "act_fetch ident now uuid (VUntombColl t) k old = (if k = CollectionTombOf (fst t) (snd t) then None else old)"
| "act_fetch ident now uuid (VCollMeta t m) k old = (if k = CollectionMetaOf (fst t) (snd t) then Some (MetaBody m) else old)"
| "act_fetch ident now uuid (VJournal sc ops) k old =
     (if k = JournalOf sc ident now (fst (ops_seqs ops)) (snd (ops_seqs ops)) uuid then Some (JournalBody ops) else old)"

lemma line_name_ne: "line_name s \<Longrightarrow> s \<noteq> []"
  by (simp add: line_name_def)

lemma line_plain_scope: "line_scope sc \<Longrightarrow> plain_scope sc"
  by (simp add: line_scope_def plain_scope_def line_name_def)

lemma foldl_bound: "(a :: nat) < n \<Longrightarrow> \<forall>x \<in> set xs. x < n \<Longrightarrow> foldl min a xs < n \<and> foldl max a xs < n"
  by (induction xs arbitrary: a) auto

lemma ops_seqs_bound:
  assumes "\<forall>op \<in> set ops. op_seq op < n" "0 < n"
  shows "fst (ops_seqs ops) < n" "snd (ops_seqs ops) < n"
proof -
  have "fst (ops_seqs ops) < n \<and> snd (ops_seqs ops) < n"
  proof (cases ops)
    case (Cons op ops')
    then show ?thesis using foldl_bound [of "op_seq op" n "map op_seq ops'"] assms by (simp add: ops_seqs_def)
  qed (simp add: ops_seqs_def assms)
  then show "fst (ops_seqs ops) < n" "snd (ops_seqs ops) < n" by simp_all
qed

definition fresh_stamp :: "nat \<Rightarrow> string \<Rightarrow> string set \<Rightarrow> bool" where
  "fresh_stamp now uuid used \<longleftrightarrow> now < 2 ^ 53 \<and> plain_uuid uuid \<and> uuid \<notin> used"

lemma journal_key_plain:
  assumes "act_ok h (VJournal sc ops)" "fresh_stamp now uuid used" "ident \<noteq> []"
  shows "plain_storage_key (JournalOf sc ident now (fst (ops_seqs ops)) (snd (ops_seqs ops)) uuid)"
  using assms ops_seqs_bound [of ops "2 ^ 53"] line_plain_scope by (auto simp: fresh_stamp_def journal_op_def)

lemma fetch_action:
  assumes k: "plain_storage_key k" and act: "act_ok h a" "fresh_stamp now uuid used" "pc_node cfg \<noteq> []" and prefix: "prefix = pc_prefix cfg"
  shows "fetch prefix (run_action cfg now uuid (conc prefix a) objects) k = act_fetch (pc_node cfg) now uuid a k (fetch prefix objects k)"
proof (cases a)
  case (VDropDb db)
  then show ?thesis using below_database [OF k, of prefix db] by (simp add: fetch_def get_deletePrefix)
next
  case (VDropColl t)
  then show ?thesis using below_collection [OF k, of prefix "fst t" "snd t"] by (simp add: fetch_def get_deletePrefix)
next
  case (VTombDb db)
  then show ?thesis using key_eq [OF k, of "DatabaseTombOf db" prefix] act(1) line_name_ne by (simp add: fetch_def get_put key_of_parts [symmetric])
next
  case (VUntombDb db)
  then show ?thesis using key_eq [OF k, of "DatabaseTombOf db" prefix] act(1) line_name_ne by (simp add: fetch_def get_delete key_of_parts [symmetric])
next
  case (VTombColl t)
  then show ?thesis using key_eq [OF k, of "CollectionTombOf (fst t) (snd t)" prefix] act(1) line_name_ne
    by (simp add: fetch_def get_put key_of_parts [symmetric])
next
  case (VUntombColl t)
  then show ?thesis using key_eq [OF k, of "CollectionTombOf (fst t) (snd t)" prefix] act(1) line_name_ne
    by (simp add: fetch_def get_delete key_of_parts [symmetric])
next
  case (VDbMeta db m)
  then show ?thesis using key_eq [OF k, of "DatabaseMetaOf db" prefix] act(1) line_name_ne by (simp add: fetch_def get_put key_of_parts [symmetric])
next
  case (VCollMeta t m)
  then show ?thesis using key_eq [OF k, of "CollectionMetaOf (fst t) (snd t)" prefix] act(1) line_name_ne
    by (simp add: fetch_def get_put key_of_parts [symmetric])
next
  case (VJournal sc ops)
  have "plain_storage_key (JournalOf sc (pc_node cfg) now (fst (ops_seqs ops)) (snd (ops_seqs ops)) uuid)"
    using journal_key_plain [OF _ act(2,3)] act(1) VJournal by blast
  from key_eq [OF k this, of prefix] show ?thesis
    by (simp add: VJournal fetch_def writeJournalSegment_def get_put prefix [symmetric] key_of_parts(1) [symmetric] case_prod_unfold del: parts_of.simps)
qed

lemma holds_mono: "holds_body h ident used k body \<Longrightarrow> used \<subseteq> used' \<Longrightarrow> holds_body h ident used' k body"
  by (cases k) auto

lemma action_key:
  assumes "storage_get key (run_action cfg now uuid (conc prefix a) objects) = Some body"
    and act: "act_ok h a" "fresh_stamp now uuid used" "pc_node cfg \<noteq> []" and prefix: "prefix = pc_prefix cfg"
  shows "storage_get key objects = Some body \<or> (\<exists>k. plain_storage_key k \<and> line_key k \<and> key = key_of prefix (parts_of k))"
proof (cases a)
  case (VTombDb db)
  then show ?thesis using assms line_name_ne by (auto simp: get_put key_of_parts [symmetric] split: if_splits intro: exI [of _ "DatabaseTombOf db"])
next
  case (VTombColl t)
  then show ?thesis using assms line_name_ne
    by (auto simp: get_put key_of_parts [symmetric] split: if_splits intro: exI [of _ "CollectionTombOf (fst t) (snd t)"])
next
  case (VDbMeta db m)
  then show ?thesis using assms line_name_ne by (auto simp: get_put key_of_parts [symmetric] split: if_splits intro: exI [of _ "DatabaseMetaOf db"])
next
  case (VCollMeta t m)
  then show ?thesis using assms line_name_ne
    by (auto simp: get_put key_of_parts [symmetric] split: if_splits intro: exI [of _ "CollectionMetaOf (fst t) (snd t)"])
next
  case (VJournal sc ops)
  define k where "k = JournalOf sc (pc_node cfg) now (fst (ops_seqs ops)) (snd (ops_seqs ops)) uuid"
  have "plain_storage_key k" "line_key k"
    using journal_key_plain [OF act(1) [unfolded VJournal] act(2,3)] act(1) by (simp_all add: k_def VJournal)
  moreover have "journalKey prefix sc (pc_node cfg) now (fst (ops_seqs ops)) (snd (ops_seqs ops)) uuid = key_of prefix (parts_of k)"
    by (simp only: k_def key_of_parts)
  ultimately show ?thesis using assms(1)
    by (auto simp: VJournal writeJournalSegment_def get_put prefix [symmetric] case_prod_unfold split: if_splits)
qed (use assms in \<open>auto simp: get_deletePrefix get_delete split: if_splits\<close>)

definition fetch_view :: "(storage_key \<Rightarrow> body option) \<Rightarrow> held" where
  "fetch_view F =
     \<lparr>av_ops = {op. \<exists>sc ident now a b uuid ops. plain_storage_key (JournalOf sc ident now a b uuid) \<and>
          F (JournalOf sc ident now a b uuid) = Some (JournalBody ops) \<and> op \<in> set ops},
      av_dbTombs = {db. line_name db \<and> F (DatabaseTombOf db) \<noteq> None},
      av_collTombs = {t. line_name (fst t) \<and> line_name (snd t) \<and> F (CollectionTombOf (fst t) (snd t)) \<noteq> None},
      av_dbMeta = (\<lambda>db. if line_name db then (case F (DatabaseMetaOf db) of Some (MetaBody m) \<Rightarrow> Some m | _ \<Rightarrow> None) else None),
      av_collMeta = (\<lambda>t. if line_name (fst t) \<and> line_name (snd t)
          then (case F (CollectionMetaOf (fst t) (snd t)) of Some (MetaBody m) \<Rightarrow> Some m | _ \<Rightarrow> None) else None)\<rparr>"

lemma disk_view_fetch: "disk_view prefix objects = fetch_view (fetch prefix objects)"
  by (simp add: disk_view_def fetch_view_def)

lemma fetch_ops:
  "op \<in> av_ops (fetch_view F) \<longleftrightarrow> (\<exists>sc ident now a b uuid ops. plain_storage_key (JournalOf sc ident now a b uuid) \<and>
     F (JournalOf sc ident now a b uuid) = Some (JournalBody ops) \<and> op \<in> set ops)"
  by (simp add: fetch_view_def)

lemma journal_op_at: "journal_op h sc op \<Longrightarrow> op_db op = sc_db sc \<and> op_coll op = sc_coll sc"
  by (auto simp: journal_op_def op_scope_def)

text \<open>The journals after one operation: those that were there and are not dropped, and the new one.\<close>

lemma act_fetch_ops:
  assumes F: "\<And>k. plain_storage_key k \<Longrightarrow> F k = act_fetch ident now uuid a k (G k)"
    and G: "\<And>k body. plain_storage_key k \<Longrightarrow> G k = Some body \<Longrightarrow> holds_body h ident used k body"
    and act: "act_ok h a" "fresh_stamp now uuid used" "ident \<noteq> []"
  shows "av_ops (fetch_view F) = av_ops (act_view (fetch_view G) a)"
proof (intro set_eqI)
  fix op
  have at: "op_db op = sc_db sc \<and> op_coll op = sc_coll sc"
    if "plain_storage_key (JournalOf sc i n x y u)" "G (JournalOf sc i n x y u) = Some (JournalBody ops)" "op \<in> set ops" for sc i n x y u ops
    using G [OF that(1,2)] that(3) journal_op_at by auto
  show "op \<in> av_ops (fetch_view F) \<longleftrightarrow> op \<in> av_ops (act_view (fetch_view G) a)"
  proof (cases a)
    case (VDropDb db)
    have "op \<in> av_ops (fetch_view F) \<longleftrightarrow> (\<exists>sc i n x y u ops. plain_storage_key (JournalOf sc i n x y u) \<and>
        G (JournalOf sc i n x y u) = Some (JournalBody ops) \<and> op \<in> set ops \<and> sc_db sc \<noteq> db)"
      unfolding fetch_ops by (simp add: F VDropDb cong: conj_cong del: plain_storage_key.simps) blast
    also have "\<dots> \<longleftrightarrow> op \<in> av_ops (fetch_view G) \<and> op_db op \<noteq> db" unfolding fetch_ops using at by metis
    finally show ?thesis by (simp add: VDropDb)
  next
    case (VDropColl t)
    have "op \<in> av_ops (fetch_view F) \<longleftrightarrow> (\<exists>sc i n x y u ops. plain_storage_key (JournalOf sc i n x y u) \<and>
        G (JournalOf sc i n x y u) = Some (JournalBody ops) \<and> op \<in> set ops \<and> \<not> (sc_db sc = fst t \<and> sc_coll sc = snd t))"
      unfolding fetch_ops by (simp add: F VDropColl cong: conj_cong del: plain_storage_key.simps) blast
    also have "\<dots> \<longleftrightarrow> op \<in> av_ops (fetch_view G) \<and> at_of op \<noteq> t" unfolding fetch_ops at_of_def using at by (metis prod.collapse prod.inject)
    finally show ?thesis by (simp add: VDropColl)
  next
    case (VJournal sc ops)
    define k where "k = JournalOf sc ident now (fst (ops_seqs ops)) (snd (ops_seqs ops)) uuid"
    have k: "plain_storage_key k" using journal_key_plain [OF act(1) [unfolded VJournal] act(2,3)] by (simp add: k_def)
    have none: "G k = None"
    proof (rule ccontr)
      assume "G k \<noteq> None"
      then obtain body where "G k = Some body" by blast
      then have "uuid \<in> used" using G [OF k] by (auto simp: k_def)
      then show False using act(2) by (simp add: fresh_stamp_def)
    qed
    have FG: "F k' = (if k' = k then Some (JournalBody ops) else G k')" if "plain_storage_key k'" for k'
      using F [OF that] by (simp add: VJournal k_def)
    show ?thesis
    proof
      assume "op \<in> av_ops (fetch_view F)"
      then obtain sc' i n x y u ops' where j: "plain_storage_key (JournalOf sc' i n x y u)" "F (JournalOf sc' i n x y u) = Some (JournalBody ops')" "op \<in> set ops'"
        unfolding fetch_ops by blast
      show "op \<in> av_ops (act_view (fetch_view G) a)"
      proof (cases "JournalOf sc' i n x y u = k")
        case True
        then show ?thesis using j FG [OF j(1)] by (simp add: VJournal)
      next
        case False
        then have "op \<in> av_ops (fetch_view G)" using j FG [OF j(1)] unfolding fetch_ops by metis
        then show ?thesis by (simp add: VJournal)
      qed
    next
      assume "op \<in> av_ops (act_view (fetch_view G) a)"
      then consider "op \<in> av_ops (fetch_view G)" | "op \<in> set ops" by (auto simp: VJournal)
      then show "op \<in> av_ops (fetch_view F)"
      proof cases
        case 1
        then obtain sc' i n x y u ops' where j: "plain_storage_key (JournalOf sc' i n x y u)" "G (JournalOf sc' i n x y u) = Some (JournalBody ops')" "op \<in> set ops'"
          unfolding fetch_ops by blast
        then have "JournalOf sc' i n x y u \<noteq> k" using none by auto
        then show ?thesis unfolding fetch_ops using j FG [OF j(1)] by metis
      next
        case 2
        have "F k = Some (JournalBody ops)" using FG [OF k] by simp
        then show ?thesis unfolding fetch_ops using 2 k unfolding k_def by blast
      qed
    qed
  qed (unfold fetch_ops, simp_all add: F fetch_ops cong: conj_cong del: plain_storage_key.simps)
qed

lemma act_fetch_view:
  assumes F: "\<And>k. plain_storage_key k \<Longrightarrow> F k = act_fetch ident now uuid a k (G k)"
    and G: "\<And>k body. plain_storage_key k \<Longrightarrow> G k = Some body \<Longrightarrow> holds_body h ident used k body"
    and act: "act_ok h a" "fresh_stamp now uuid used" "ident \<noteq> []"
  shows "fetch_view F = act_view (fetch_view G) a"
proof (rule view_eqI)
  have F': "line_name db \<Longrightarrow> F (DatabaseTombOf db) = act_fetch ident now uuid a (DatabaseTombOf db) (G (DatabaseTombOf db))"
    "line_name db \<Longrightarrow> F (DatabaseMetaOf db) = act_fetch ident now uuid a (DatabaseMetaOf db) (G (DatabaseMetaOf db))"
    "line_name db \<Longrightarrow> line_name coll \<Longrightarrow> F (CollectionTombOf db coll) = act_fetch ident now uuid a (CollectionTombOf db coll) (G (CollectionTombOf db coll))"
    "line_name db \<Longrightarrow> line_name coll \<Longrightarrow> F (CollectionMetaOf db coll) = act_fetch ident now uuid a (CollectionMetaOf db coll) (G (CollectionMetaOf db coll))"
    for db coll using F line_name_ne by simp_all
  show "av_ops (fetch_view F) = av_ops (act_view (fetch_view G) a)" by (rule act_fetch_ops [OF F G act])
  show "av_dbTombs (fetch_view F) = av_dbTombs (act_view (fetch_view G) a)"
    using act(1) by (cases a) (auto simp: fetch_view_def F' split: if_splits)
  show "av_collTombs (fetch_view F) = av_collTombs (act_view (fetch_view G) a)"
    using act(1) by (cases a) (auto simp: fetch_view_def F' prod_eq_iff split: if_splits)
  show "av_dbMeta (fetch_view F) = av_dbMeta (act_view (fetch_view G) a)"
    using act(1) by (cases a) (auto simp: fetch_view_def F' fun_eq_iff)
  show "av_collMeta (fetch_view F) = av_collMeta (act_view (fetch_view G) a)"
    using act(1) by (cases a) (auto simp: fetch_view_def F' fun_eq_iff prod_eq_iff)
qed

lemma disk_action:
  assumes ok: "disk_ok h (pc_prefix cfg) (pc_node cfg) used objects" and act: "act_ok h a" "fresh_stamp now uuid used" "pc_node cfg \<noteq> []"
  defines "objects' \<equiv> run_action cfg now uuid (conc (pc_prefix cfg) a) objects"
  shows "disk_ok h (pc_prefix cfg) (pc_node cfg) (insert uuid used) objects'"
    "disk_view (pc_prefix cfg) objects' = act_view (disk_view (pc_prefix cfg) objects) a"
proof -
  note F = fetch_action [OF _ act refl, of _ objects, folded objects'_def]
  note G = disk_fetch [OF ok]
  show "disk_view (pc_prefix cfg) objects' = act_view (disk_view (pc_prefix cfg) objects) a"
    unfolding disk_view_fetch by (rule act_fetch_view [OF F G(2) act])
  show "disk_ok h (pc_prefix cfg) (pc_node cfg) (insert uuid used) objects'"
  proof (rule disk_okI)
    fix key body assume get: "storage_get key objects' = Some body"
    obtain k where k: "plain_storage_key k" "line_key k" "key = key_of (pc_prefix cfg) (parts_of k)"
      using action_key [OF get [unfolded objects'_def] act refl] disk_okD [OF ok] by blast
    have new: "act_fetch (pc_node cfg) now uuid a k (fetch (pc_prefix cfg) objects k) = Some body"
      using F [OF k(1)] get k(3) by (simp add: fetch_def)
    have "holds_body h (pc_node cfg) (insert uuid used) k body"
    proof (cases "fetch (pc_prefix cfg) objects k = Some body")
      case True
      then show ?thesis using holds_mono [OF G(2) [OF k(1)]] by blast
    next
      case False
      then show ?thesis using new act(1) by (cases a) (auto split: if_splits)
    qed
    then show "\<exists>k. plain_storage_key k \<and> line_key k \<and> key = key_of (pc_prefix cfg) (parts_of k) \<and> holds_body h (pc_node cfg) (insert uuid used) k body"
      using k by blast
  qed
qed

lemma batch_act_ok:
  assumes "queue_ok h b" and "a \<in> set (batch_acts cfg b)"
  shows "act_ok h a"
proof -
  have names: "line_name (fst t) \<and> line_name (snd t)" if mem: "t \<in> batch_colls b \<or> batch_metas b t \<noteq> None" for t
  proof -
    have "\<exists>key. key \<in> set (jm_keys (bt_meta b)) \<union> set (bt_collDrops b) \<and> t = parseCollectionKey key"
    proof (cases "t \<in> batch_colls b")
      case False
      then obtain m where m: "jm_get (bt_meta b) (persistCollectionKey (fst t) (snd t)) = Some m" using mem by (auto simp: batch_metas_def)
      then have "persistCollectionKey (fst t) (snd t) \<in> set (jm_keys (bt_meta b))" by (metis jm_has_iff option.distinct(1))
      then show ?thesis using meta_key [OF assms(1) m] by (intro exI [of _ "persistCollectionKey (fst t) (snd t)"]) simp
    qed (auto simp: batch_colls_def)
    then obtain key where "key \<in> set (jm_keys (bt_meta b)) \<union> set (bt_collDrops b)" "t = parseCollectionKey key" by blast
    then show ?thesis using batch_okD(5) [OF assms(1)] parse_collection by fastforce
  qed
  have db: "line_name d" if "d \<in> set (bt_dbDrops b) \<or> jm_has (bt_databases b) d" for d
    using that batch_okD(4) [OF assms(1), of d] jm_has_iff [of "bt_databases b" d] by blast
  show ?thesis using batch_act_cases [OF assms] names db by (cases a) auto
qed

end
