(* ===== verification/PersistRun.thy ===== *)
theory PersistRun
  imports PersistDisk
begin

text \<open>
  Runs of the persistence manager. \<open>persist_inv\<close> says that the queues on top of the flush under way on top of the storage are the history of
  the node's changes; every step keeps it, so when nothing is queued and no flush is under way the storage holds the history.
\<close>

subsection \<open>The invariant\<close>

definition flight_view :: "persist_config \<Rightarrow> batch \<Rightarrow> store_action list \<Rightarrow> held \<Rightarrow> held \<Rightarrow> bool" where
  "flight_view cfg b actions stored w \<longleftrightarrow>
     (\<exists>as. actions = map (conc (pc_prefix cfg)) as \<and> set as \<subseteq> set (batch_acts cfg b) \<and> foldl act_view stored as = w \<and> batch_view b stored = w)"

definition persist_inv :: "host \<Rightarrow> persist_config \<Rightarrow> string set \<Rightarrow> persist \<Rightarrow> disk \<Rightarrow> held \<Rightarrow> bool" where
  "persist_inv h cfg used ps dk v \<longleftrightarrow>
     queue_ok h (ps_queued ps) \<and> disk_ok h (pc_prefix cfg) (pc_node cfg) used (dk_objects dk) \<and>
     (ps_truncating ps \<longrightarrow> (\<exists>b. ps_flushing ps = Some (b, []))) \<and>
     (case ps_flushing ps of
        None \<Rightarrow> batch_view (ps_queued ps) (disk_view (pc_prefix cfg) (dk_objects dk)) = v
      | Some (b, actions) \<Rightarrow> queue_ok h b \<and>
          (\<exists>w. flight_view cfg b actions (disk_view (pc_prefix cfg) (dk_objects dk)) w \<and> batch_view (ps_queued ps) w = v))"

lemma persist_inv_cong:
  assumes "persist_inv h cfg used ps dk v" "ps_queued ps' = ps_queued ps" "ps_flushing ps' = ps_flushing ps"
    "ps_truncating ps' \<longrightarrow> (\<exists>b. ps_flushing ps = Some (b, []))" "dk_objects dk' = dk_objects dk"
  shows "persist_inv h cfg used ps' dk' v"
  using assms(1,4) unfolding persist_inv_def assms(2,3,5) by blast

lemma persist_invD:
  assumes "persist_inv h cfg used ps dk v"
  shows "queue_ok h (ps_queued ps)" "disk_ok h (pc_prefix cfg) (pc_node cfg) used (dk_objects dk)"
    "ps_flushing ps = None \<Longrightarrow> batch_view (ps_queued ps) (disk_view (pc_prefix cfg) (dk_objects dk)) = v"
    "ps_flushing ps = Some (b, actions) \<Longrightarrow> queue_ok h b"
    "ps_flushing ps = Some (b, actions) \<Longrightarrow>
      \<exists>w. flight_view cfg b actions (disk_view (pc_prefix cfg) (dk_objects dk)) w \<and> batch_view (ps_queued ps) w = v"
    "ps_truncating ps \<Longrightarrow> \<exists>b. ps_flushing ps = Some (b, [])"
  using assms by (simp_all add: persist_inv_def)

lemma begin_inv:
  assumes "persist_inv h cfg used ps dk v"
  shows "persist_inv h cfg used (beginFlush cfg ps) dk v"
proof (cases "ps_flushing ps \<noteq> None \<or> ps_flushPaused ps \<or> batch_empty (ps_queued ps)")
  case False
  note d = persist_invD [OF assms]
  have none: "ps_flushing ps = None" using False by blast
  have "flight_view cfg (ps_queued ps) (flush_actions cfg (ps_queued ps)) (disk_view (pc_prefix cfg) (dk_objects dk)) v"
    unfolding flight_view_def flush_actions_conc
    by (rule exI [of _ "batch_acts cfg (ps_queued ps)"]) (simp add: batch_acts_view [OF d(1)] d(3) [OF none])
  then show ?thesis using False d(1,2,6) empty_batch_ok by (auto simp: beginFlush_def persist_inv_def)
qed (use assms in \<open>auto simp: beginFlush_def\<close>)

text \<open>A change of the queue.\<close>

lemma queue_inv:
  assumes "persist_inv h cfg used ps dk v" and "queue_ok h q'" and "\<And>w. batch_view q' w = f (batch_view (ps_queued ps) w)"
    and "ps_queued ps' = q'" "ps_flushing ps' = ps_flushing ps" "ps_truncating ps' = ps_truncating ps"
  shows "persist_inv h cfg used ps' dk (f v)"
  using assms by (auto simp: persist_inv_def split: option.splits)

lemma wal_frame [simp]:
  "ps_queued (queueLocalWal cfg entry ps) = ps_queued ps" "ps_flushing (queueLocalWal cfg entry ps) = ps_flushing ps"
  "ps_truncating (queueLocalWal cfg entry ps) = ps_truncating ps"
  by (simp_all add: queueLocalWal_def)

lemma wal_fold_frame:
  "ps_queued (foldl (\<lambda>ps chunk. queueLocalWal cfg (WalOps chunk) ps) ps chunks) = ps_queued ps"
  "ps_flushing (foldl (\<lambda>ps chunk. queueLocalWal cfg (WalOps chunk) ps) ps chunks) = ps_flushing ps"
  "ps_truncating (foldl (\<lambda>ps chunk. queueLocalWal cfg (WalOps chunk) ps) ps chunks) = ps_truncating ps"
  by (induction chunks arbitrary: ps) simp_all

definition change_op_ok :: "host \<Rightarrow> rop \<Rightarrow> bool" where
  "change_op_ok h op \<longleftrightarrow> line_scope (op_scope h op) \<and> op_id op \<noteq> [] \<and> truthy (op_shard op) \<and> clone_op op = op \<and> op_seq op < 2 ^ 53"

lemma queueOp_inv:
  assumes "persist_inv h cfg used ps dk v" "change_op_ok h op"
  shows "persist_inv h cfg used (snd (queueOp h cfg op ps)) dk (add_ops {op} v)"
proof -
  have op: "line_scope (op_scope h op)" "op_seq op < 2 ^ 53" "clone_op op = op" using assms(2) by (simp_all add: change_op_ok_def)
  have names: "op_db op \<noteq> []" "op_coll op \<noteq> []" "op_id op \<noteq> []" "truthy (op_shard op)"
    using assms(2) by (auto simp: change_op_ok_def line_scope_def op_scope_def line_name_def)
  define key where "key = persistScopeKey (op_scope h op)"
  define pending where "pending = (case jm_get (bt_pending (ps_queued ps)) key of None \<Rightarrow> [] | Some ops \<Rightarrow> ops) @ [op]"
  have len: "length pending = Suc (length (case jm_get (bt_pending (ps_queued ps)) key of None \<Rightarrow> [] | Some ops \<Rightarrow> ops))"
    by (simp add: pending_def)
  define q' where "q' = (ps_queued ps)\<lparr>bt_pending := jm_set key pending (bt_pending (ps_queued ps))\<rparr>"
  define ps1 where "ps1 = markDirty key op (ps\<lparr>ps_queued := q'\<rparr>)"
  note q = queue_operation [OF persist_invD(1) [OF assms(1)] op(1,2), folded key_def, folded pending_def, folded q'_def]
  have ps1: "persist_inv h cfg used ps1 dk (add_ops {op} v)"
    by (rule queue_inv [OF assms(1) q(1,2)]) (simp_all add: ps1_def markDirty_def Let_def)
  have "snd (queueOp h cfg op ps) = (if pc_opBatchSize cfg \<le> length pending then beginFlush cfg ps1 else ps1)"
    using names len by (simp add: queueOp_def Let_def op(3) key_def [symmetric] pending_def [symmetric] q'_def [symmetric] ps1_def [symmetric])
  then show ?thesis using ps1 begin_inv by simp
qed

lemma add_ops_twice: "add_ops A (add_ops B v) = add_ops (A \<union> B) v" "add_ops {} v = v"
  by (simp_all add: add_ops_def ac_simps)

lemma queueOps_inv:
  assumes "persist_inv h cfg used ps dk v" "\<forall>op \<in> set ops. change_op_ok h op"
  shows "persist_inv h cfg used (queueOps h cfg ops ps) dk (add_ops (set ops) v)"
proof -
  have each: "persist_inv h cfg used (snd (queue_each h cfg ops ps)) dk (add_ops (set ops) v)" using assms
  proof (induction ops arbitrary: ps v)
    case (Cons op ops)
    have "persist_inv h cfg used (snd (queue_each h cfg ops (snd (queueOp h cfg op ps)))) dk (add_ops (set ops) (add_ops {op} v))"
      using Cons queueOp_inv by simp
    then show ?case by (simp add: add_ops_twice case_prod_unfold)
  qed (simp add: add_ops_twice)
  show ?thesis unfolding queueOps_def case_prod_unfold
    by (rule persist_inv_cong [OF each]) (use persist_invD(6) [OF each] in \<open>auto simp: wal_fold_frame split: option.splits\<close>)
qed

subsection \<open>Steps\<close>

text \<open>Names have no line breaks, values are JSON, a segment has its own id. Two things are not handled by the code and are excluded: a database
that is made again while its deletion is still queued, and a failed flush when something it had taken was dropped meanwhile.\<close>

fun change_ok :: "host \<Rightarrow> batch \<Rightarrow> node_change \<Rightarrow> bool" where
  "change_ok h q (CDatabase db meta) \<longleftrightarrow> line_name db \<and> truthy meta \<and> db \<notin> set (bt_dbDrops q)"
| "change_ok h q (CDropDatabase db) \<longleftrightarrow> line_name db"
| "change_ok h q (CDropCollection db coll) \<longleftrightarrow> line_name db \<and> line_name coll"
| "change_ok h q (CMeta db coll meta) \<longleftrightarrow> line_name db \<and> line_name coll \<and> truthy meta"
| "change_ok h q (COps ops) \<longleftrightarrow> (\<forall>op \<in> set ops. change_op_ok h op)"
| "change_ok h q CSnapshot \<longleftrightarrow> True"

fun event_ok :: "host \<Rightarrow> string set \<Rightarrow> persist \<Rightarrow> persist_event \<Rightarrow> bool" where
  "event_ok h used ps (Change ch) \<longleftrightarrow> change_ok h (ps_queued ps) ch"
| "event_ok h used ps (FlushStep now uuid) \<longleftrightarrow> fresh_stamp now uuid used"
| "event_ok h used ps FlushFail \<longleftrightarrow> (case ps_flushing ps of None \<Rightarrow> True | Some (b, actions) \<Rightarrow> redo_safe b (ps_queued ps))"
| "event_ok h used ps _ \<longleftrightarrow> True"

fun used_by :: "persist_event \<Rightarrow> string set \<Rightarrow> string set" where
  "used_by (FlushStep now uuid) used = insert uuid used"
| "used_by _ used = used"

fun event_view :: "held \<Rightarrow> persist_event \<Rightarrow> held" where
  "event_view v (Change ch) = change_view v ch"
| "event_view v _ = v"

fun calm_run :: "host \<Rightarrow> persist_config \<Rightarrow> string set \<Rightarrow> persist \<times> disk \<Rightarrow> persist_event list \<Rightarrow> bool" where
  "calm_run h cfg used w [] \<longleftrightarrow> True"
| "calm_run h cfg used w (e # es) \<longleftrightarrow> event_ok h used (fst w) e \<and> calm_run h cfg (used_by e used) (persist_step h cfg w e) es"

lemma change_inv:
  assumes "persist_inv h cfg used ps dk v" "change_ok h (ps_queued ps) ch"
  shows "persist_inv h cfg used (persist_onChange h cfg ch ps) dk (change_view v ch)"
proof (cases ch)
  case (CDatabase db meta)
  then have c: "line_name db" "truthy meta" "db \<notin> set (bt_dbDrops (ps_queued ps))" using assms(2) by simp_all
  note q = queue_database [OF persist_invD(1) [OF assms(1)] c(1,3), of "json_clone meta"]
  show ?thesis unfolding CDatabase persist_onChange.simps change_view.simps
    by (rule queue_inv [OF assms(1) q]) (use c line_name_ne in \<open>simp_all add: queueDatabase_def Let_def\<close>)
next
  case (CDropDatabase db)
  then have c: "line_name db" using assms(2) by simp
  note q = queue_database_drop [OF persist_invD(1) [OF assms(1)] c]
  show ?thesis unfolding CDropDatabase persist_onChange.simps change_view.simps
    by (rule queue_inv [OF assms(1) q]) (use c line_name_ne in \<open>simp_all add: queueDatabaseDrop_def Let_def\<close>)
next
  case (CDropCollection db coll)
  then have c: "line_name db" "line_name coll" using assms(2) by simp_all
  note q = queue_collection_drop [OF persist_invD(1) [OF assms(1)] c]
  show ?thesis unfolding CDropCollection persist_onChange.simps change_view.simps
    by (rule queue_inv [OF assms(1) q]) (use c line_name_ne in \<open>simp_all add: queueCollectionDrop_def Let_def\<close>)
next
  case (CMeta db coll meta)
  then have c: "line_name db" "line_name coll" "truthy meta" using assms(2) by simp_all
  note q = queue_collection_meta [OF persist_invD(1) [OF assms(1)] c(1,2), of "json_clone meta"]
  show ?thesis unfolding CMeta persist_onChange.simps change_view.simps
    by (rule queue_inv [OF assms(1) q]) (use c line_name_ne in \<open>simp_all add: queueMeta_def Let_def\<close>)
next
  case (COps ops)
  then show ?thesis using queueOps_inv [OF assms(1)] assms(2) by simp
qed (use assms(1) in simp)

lemma flight_step:
  assumes "queue_ok h b" "flight_view cfg b (action # rest) stored w"
  obtains a where "action = conc (pc_prefix cfg) a" "act_ok h a" "flight_view cfg b rest (act_view stored a) w"
proof -
  obtain as where as: "action # rest = map (conc (pc_prefix cfg)) as" "set as \<subseteq> set (batch_acts cfg b)"
      "foldl act_view stored as = w" "batch_view b stored = w"
    using assms(2) unfolding flight_view_def by (elim exE conjE)
  obtain a as' where a: "as = a # as'" "action = conc (pc_prefix cfg) a" "rest = map (conc (pc_prefix cfg)) as'"
    using as(1) by (cases as) auto
  have mem: "a \<in> set (batch_acts cfg b)" using as(2) a(1) by simp
  have "flight_view cfg b rest (act_view stored a) w"
    unfolding flight_view_def by (rule exI [of _ as']) (use as a batch_absorbs [OF assms(1) mem] in simp)
  then show thesis using that a(2) batch_act_ok [OF assms(1) mem] by blast
qed

lemma step_inv:
  assumes inv: "persist_inv h cfg used ps dk v" and ev: "event_ok h used ps e" and node: "pc_node cfg \<noteq> []"
    and s: "persist_step h cfg (ps, dk) e = (ps', dk')"
  shows "persist_inv h cfg (used_by e used) ps' dk' (event_view v e)"
proof (cases e)
  case (Change ch)
  then show ?thesis using change_inv [OF inv] ev s by auto
next
  case Flush
  then show ?thesis using begin_inv [OF inv] s by auto
next
  case (FlushStep now uuid)
  have stamp: "fresh_stamp now uuid used" using ev FlushStep by simp
  show ?thesis
  proof (cases "\<exists>b action rest. ps_flushing ps = Some (b, action # rest)")
    case True
    then obtain b action rest where f: "ps_flushing ps = Some (b, action # rest)" by blast
    note d = persist_invD [OF inv]
    obtain w where w: "flight_view cfg b (action # rest) (disk_view (pc_prefix cfg) (dk_objects dk)) w" "batch_view (ps_queued ps) w = v"
      using d(5) [OF f] by blast
    obtain a where a: "action = conc (pc_prefix cfg) a" "act_ok h a" "flight_view cfg b rest (act_view (disk_view (pc_prefix cfg) (dk_objects dk)) a) w"
      using flight_step [OF d(4) [OF f] w(1)] by blast
    note k = disk_action [OF d(2) a(2) stamp node]
    have "ps' = ps\<lparr>ps_flushing := Some (b, rest)\<rparr>" "dk' = dk\<lparr>dk_objects := run_action cfg now uuid action (dk_objects dk)\<rparr>"
      using s f by (simp_all add: FlushStep)
    moreover have "\<not> ps_truncating ps" using d(6) f by auto
    ultimately show ?thesis using k d(1) d(4) [OF f] a(1,3) w(2) by (auto simp: FlushStep persist_inv_def)
  next
    case False
    then have same: "ps' = ps" "dk' = dk" using s by (auto simp: FlushStep split: option.splits list.splits)
    have "disk_ok h (pc_prefix cfg) (pc_node cfg) (insert uuid used) (dk_objects dk)"
    proof (rule disk_okI)
      fix key body assume "storage_get key (dk_objects dk) = Some body"
      from disk_okD [OF persist_invD(2) [OF inv] this] show "\<exists>k. plain_storage_key k \<and> line_key k \<and> key = key_of (pc_prefix cfg) (parts_of k) \<and>
          holds_body h (pc_node cfg) (insert uuid used) k body" using holds_mono by blast
    qed
    then show ?thesis using inv by (simp add: same FlushStep persist_inv_def)
  qed
next
  case FlushEnd
  show ?thesis
  proof (cases "\<exists>b. ps_flushing ps = Some (b, []) \<and> \<not> ps_truncating ps \<and> \<not> may_truncate cfg ps")
    case True
    then obtain b where f: "ps_flushing ps = Some (b, [])" "\<not> ps_truncating ps" by blast
    then have "ps' = ps\<lparr>ps_flushing := None\<rparr>" "dk' = dk" using s True by (auto simp: FlushEnd)
    moreover have "batch_view (ps_queued ps) (disk_view (pc_prefix cfg) (dk_objects dk)) = v"
      using persist_invD(5) [OF inv f(1)] by (auto simp: flight_view_def)
    ultimately show ?thesis using persist_invD(1,2) [OF inv] f(2) by (simp add: FlushEnd persist_inv_def)
  next
    case False
    have "ps_queued ps' = ps_queued ps \<and> ps_flushing ps' = ps_flushing ps \<and> (ps_truncating ps' \<longrightarrow> (\<exists>b. ps_flushing ps = Some (b, []))) \<and> dk' = dk"
      using s False persist_invD(6) [OF inv] by (auto simp: FlushEnd split: option.splits list.splits if_splits)
    then show ?thesis unfolding FlushEnd by (auto intro: persist_inv_cong [OF inv])
  qed
next
  case FlushFail
  show ?thesis
  proof (cases "ps_flushing ps")
    case None
    then show ?thesis using inv s by (simp add: FlushFail)
  next
    case (Some f)
    obtain b actions where f: "ps_flushing ps = Some (b, actions)" using Some by (cases f) simp
    have safe: "redo_safe b (ps_queued ps)" using ev f by (simp add: FlushFail)
    note d = persist_invD [OF inv]
    obtain w where w: "batch_view b (disk_view (pc_prefix cfg) (dk_objects dk)) = w" "batch_view (ps_queued ps) w = v"
      using d(5) [OF f] by (auto simp: flight_view_def)
    have "ps' = ps\<lparr>ps_flushing := None, ps_truncating := False, ps_queued := requeue b (ps_queued ps)\<rparr>" "dk' = dk" using s f by (simp_all add: FlushFail)
    then show ?thesis using d(2) requeue_ok [OF d(4) [OF f] d(1)] requeue_view [OF d(4) [OF f] d(1) safe] w
      by (simp add: FlushFail persist_inv_def)
  qed
next
  case WalTruncate
  show ?thesis
  proof (cases "ps_truncating ps")
    case True
    then obtain b where f: "ps_flushing ps = Some (b, [])" using persist_invD(6) [OF inv] by blast
    have "ps' = ps\<lparr>ps_flushing := None, ps_truncating := False\<rparr>" "dk' = dk\<lparr>dk_wal := []\<rparr>" using s True by (simp_all add: WalTruncate)
    moreover have "batch_view (ps_queued ps) (disk_view (pc_prefix cfg) (dk_objects dk)) = v"
      using persist_invD(5) [OF inv f] by (auto simp: flight_view_def)
    ultimately show ?thesis using persist_invD(1,2) [OF inv] by (simp add: WalTruncate persist_inv_def)
  qed (use inv s in \<open>simp add: WalTruncate\<close>)
next
  case WalFlush
  then show ?thesis using s persist_invD(6) [OF inv] by (auto intro: persist_inv_cong [OF inv] split: if_splits)
next
  case WalDone
  then show ?thesis using s persist_invD(6) [OF inv] by (auto intro: persist_inv_cong [OF inv] split: option.splits)
next
  case (WalFail n)
  then show ?thesis using s persist_invD(6) [OF inv] by (auto intro: persist_inv_cong [OF inv] split: option.splits)
qed

lemma run_inv:
  assumes "persist_inv h cfg used ps dk v" "calm_run h cfg used (ps, dk) es" "pc_node cfg \<noteq> []"
    and "foldl (persist_step h cfg) (ps, dk) es = (ps', dk')"
  shows "\<exists>used'. persist_inv h cfg used' ps' dk' (foldl event_view v es)"
  using assms
proof (induction es arbitrary: used ps dk v)
  case Nil
  then show ?case by auto
next
  case (Cons e es)
  obtain ps1 dk1 where s: "persist_step h cfg (ps, dk) e = (ps1, dk1)" by (cases "persist_step h cfg (ps, dk) e")
  have e: "event_ok h used ps e" "calm_run h cfg (used_by e used) (ps1, dk1) es" using Cons.prems(2) s by simp_all
  from Cons.IH [OF step_inv [OF Cons.prems(1) e(1) Cons.prems(3) s] e(2) Cons.prems(3)] Cons.prems(4) s show ?case by simp
qed

definition emptyDisk :: disk where
  "emptyDisk = \<lparr>dk_objects = [], dk_wal = []\<rparr>"

lemma new_inv: "persist_inv h cfg used newPersist emptyDisk empty_view"
proof -
  have "disk_ok h (pc_prefix cfg) (pc_node cfg) used []" by (simp add: disk_ok_def storage_get_def)
  moreover have "disk_view (pc_prefix cfg) [] = empty_view"
    unfolding disk_view_def empty_view_def fetch_def storage_get_def map_of.simps option.case if_cancel by simp
  ultimately show ?thesis by (simp add: persist_inv_def newPersist_def emptyDisk_def empty_batch_ok)
qed

text \<open>Nothing is queued and no flush is under way.\<close>

definition idle :: "persist \<Rightarrow> bool" where
  "idle ps \<longleftrightarrow> ps_flushing ps = None \<and> batch_empty (ps_queued ps)"

text \<open>C3: Flushes lose nothing: whatever changes arrive before, between and during flushes, however the flushes interleave with them and with
the write-ahead log, and wherever flushes fail and are taken up again, as soon as nothing is queued and no flush is under way the storage
holds exactly the history of the changes: the operations that no later deletion took away, the tombstones and the last metadata.\<close>

theorem flushed_storage_holds_history:
  assumes "foldl (persist_step h cfg) (newPersist, emptyDisk) es = (ps, dk)" and "calm_run h cfg {} (newPersist, emptyDisk) es"
    and "pc_node cfg \<noteq> []" and "idle ps"
  shows "disk_view (pc_prefix cfg) (dk_objects dk) = foldl event_view empty_view es"
proof -
  obtain used where inv: "persist_inv h cfg used ps dk (foldl event_view empty_view es)" using run_inv [OF new_inv assms(2,3,1)] by blast
  have "ps_flushing ps = None" "ps_queued ps = empty_batch" using assms(4) by (simp_all add: idle_def batch_empty_iff)
  then show ?thesis using persist_invD(3) [OF inv] empty_batch_ok(2) by simp
qed

definition sample_persist :: persist_config where
  "sample_persist = \<lparr>pc_prefix = ''objydb'', pc_node = ''n'', pc_opBatchSize = 1000, pc_journalMaxBytes = 4096, pc_localWal = None,
     pc_opBytes = (\<lambda>op. 100)\<rparr>"

definition journal_put :: rop where
  "journal_put = op_one\<lparr>op_shard := JStr ''s''\<rparr>"

text \<open>A flush that fails after its first storage operation and is taken up again.\<close>

definition sample_events :: "persist_event list" where
  "sample_events = [Change (COps [journal_put]), Flush, FlushStep 1 ''u'', FlushFail, Flush, FlushStep 2 ''v'', FlushEnd]"

lemma journal_put_ok: "change_op_ok plain_host journal_put"
  by (simp add: change_op_ok_def journal_put_def op_one_def line_scope_def op_scope_def line_name_def newline_def char_of_def clone_op_def)

lemma sample_run:
  "\<exists>ps dk. foldl (persist_step plain_host sample_persist) (newPersist, emptyDisk) sample_events = (ps, dk) \<and> idle ps \<and>
     calm_run plain_host sample_persist {} (newPersist, emptyDisk) sample_events"
proof -
  have q: "queueOps plain_host sample_persist [journal_put] newPersist =
      markDirty (persistScopeKey (op_scope plain_host journal_put)) journal_put
        (newPersist\<lparr>ps_queued := empty_batch\<lparr>bt_pending := [(persistScopeKey (op_scope plain_host journal_put), [journal_put])]\<rparr>\<rparr>)"
    by (simp add: queueOps_def queueOp_def sample_persist_def journal_put_def op_one_def clone_op_def newPersist_def empty_batch_def Let_def)
  have batch: "flush_actions sample_persist (empty_batch\<lparr>bt_pending := [(key, [journal_put])]\<rparr>) = [PutJournal (parseScopeKey key) [journal_put]]" for key
    by (simp add: flush_actions_def empty_batch_def writeJournalBatch_def chunkOpsForRecord_def sample_persist_def)
  have stamps: "fresh_stamp 1 ''u'' {}" "fresh_stamp 2 ''v'' {''u''}" by (simp_all add: fresh_stamp_def plain_uuid_def line_break_def)
  have op: "clone_op journal_put = journal_put" using journal_put_ok by (simp add: change_op_ok_def)
  have again: "requeue (empty_batch\<lparr>bt_pending := [(key, [journal_put])]\<rparr>) empty_batch = empty_batch\<lparr>bt_pending := [(key, [journal_put])]\<rparr>" for key
    by (simp add: requeue_def empty_batch_def requeueBatches_def requeueMeta_def requeueDrops_def)
  have busy: "\<not> batch_empty (empty_batch\<lparr>bt_pending := [(key, [journal_put])]\<rparr>)" "batch_empty empty_batch" for key
    by (simp_all add: batch_empty_def empty_batch_def)
  define p1 where "p1 = queueOps plain_host sample_persist [journal_put] newPersist"
  define key where "key = persistScopeKey (op_scope plain_host journal_put)"
  have p1: "ps_queued p1 = empty_batch\<lparr>bt_pending := [(key, [journal_put])]\<rparr>" "ps_flushing p1 = None" "\<not> ps_flushPaused p1" "\<not> ps_truncating p1"
    unfolding p1_def q by (simp_all add: markDirty_def newPersist_def key_def Let_def)
  have "redo_safe b empty_batch" for b by (simp add: redo_safe_def empty_batch_def)
  moreover have "\<not> may_truncate sample_persist ps" for ps by (simp add: may_truncate_def sample_persist_def)
  ultimately show ?thesis
    using journal_put_ok stamps busy p1
    by (simp add: sample_events_def p1_def [symmetric] beginFlush_def batch again idle_def del: run_action.simps)
qed

theorem flushed_storage_holds_history_witness:
  "\<exists>ps dk. foldl (persist_step plain_host sample_persist) (newPersist, emptyDisk) sample_events = (ps, dk) \<and>
     disk_view ''objydb'' (dk_objects dk) = add_ops {journal_put} empty_view"
proof -
  obtain ps dk where r: "foldl (persist_step plain_host sample_persist) (newPersist, emptyDisk) sample_events = (ps, dk)" "idle ps"
      "calm_run plain_host sample_persist {} (newPersist, emptyDisk) sample_events" using sample_run by blast
  have "disk_view (pc_prefix sample_persist) (dk_objects dk) = foldl event_view empty_view sample_events"
    by (rule flushed_storage_holds_history [OF r(1,3) _ r(2)]) (simp add: sample_persist_def)
  moreover have "foldl event_view empty_view sample_events = add_ops {journal_put} empty_view" by (simp add: sample_events_def)
  ultimately show ?thesis using r(1) by (intro exI [of _ ps] exI [of _ dk]) (simp add: sample_persist_def)
qed

end
