(* ===== verification/Restore.thy ===== *)
theory Restore
  imports Persist NodeSync
begin

text \<open>
  Restoring a node from its storage (\<open>restore\<close> and \<open>restoreScope\<close> of src/src/persistence.js): the tombstones, the metadata, then for every scope
  its snapshot and the journals it does not cover, and the write-ahead log at the end. While a topology is resharding, rows and operations
  go to the shards of the new map.

  An error ends the restore after the bulk load has been closed. The reports of progress and the statistics are left out, as is the
  checkpoint that follows a restore while resharding.
\<close>

datatype restore_error =
    BadKey
  | BadBody
  | SegmentMissing
  | SegmentFormat
  | NodeFailed node_error
  | StoreRejected store_error
  | ShardsOverlap string

text \<open>\<open>restoreScopes\<close>, \<open>restoreSnapshotId\<close> and the size of a batch.\<close>

record restore_config =
  rc_prefix :: string
  rc_scopes :: "scope list option"
  rc_snapshotId :: "string option"
  rc_batchSize :: nat
  rc_localWal :: bool

definition RESTORE_APPLY_BATCH_SIZE :: nat where
  "RESTORE_APPLY_BATCH_SIZE = 10000"

subsection \<open>Steps that may fail\<close>

type_synonym 'a node_step = "node \<Rightarrow> (restore_error + 'a) \<times> node"

definition then_step :: "'a node_step \<Rightarrow> ('a \<Rightarrow> 'b node_step) \<Rightarrow> 'b node_step" where
  "then_step f g n = (case f n of (Inl e, n1) \<Rightarrow> (Inl e, n1) | (Inr x, n1) \<Rightarrow> g x n1)"

definition done_step :: "'a \<Rightarrow> 'a node_step" where
  "done_step x n = (Inr x, n)"

definition check_step :: "restore_error + 'a \<Rightarrow> 'a node_step" where
  "check_step r n = (r, n)"

fun each_step :: "('b \<Rightarrow> 'a \<Rightarrow> 'b node_step) \<Rightarrow> 'b \<Rightarrow> 'a list \<Rightarrow> 'b node_step" where
  "each_step f acc [] n = (Inr acc, n)"
| "each_step f acc (x # xs) n = (case f acc x n of (Inl e, n1) \<Rightarrow> (Inl e, n1) | (Inr acc1, n1) \<Rightarrow> each_step f acc1 xs n1)"

definition store_step_of :: "(dstore \<Rightarrow> (store_error + 'a) \<times> dstore) \<Rightarrow> unit node_step" where
  "store_step_of f n = (case f (nd_db n) of
     (Inl e, s) \<Rightarrow> (Inl (StoreRejected e), n\<lparr>nd_db := s\<rparr>) | (Inr x, s) \<Rightarrow> (Inr (), n\<lparr>nd_db := s\<rparr>))"

definition key_result :: "uri_error + 'a \<Rightarrow> restore_error + 'a" where
  "key_result r = (case r of Inl e \<Rightarrow> Inl BadKey | Inr x \<Rightarrow> Inr x)"

subsection \<open>What the keys name\<close>

definition uniqueScopes :: "host \<Rightarrow> string list \<Rightarrow> string \<Rightarrow> uri_error + scope list" where
  "uniqueScopes h keys prefix =
     res_bind (res_map (\<lambda>key. parseScopeFromKey key prefix) keys) (\<lambda>found.
       let scopes = foldl (\<lambda>m sc. jm_set (persistScopeKey sc) sc m) [] (List.map_filter id found)
       in Inr (js_sort (\<lambda>a b. localeCompare h (persistScopeKey a) (persistScopeKey b)) (jm_vals scopes)))"

definition collectionTombstones :: "string list \<Rightarrow> string \<Rightarrow> uri_error + string list" where
  "collectionTombstones keys prefix =
     res_bind (res_map (\<lambda>key. parseCollectionTombstoneFromKey key prefix) keys) (\<lambda>found.
       Inr (js_unique (map (\<lambda>(db, coll). persistCollectionKey db coll) (List.map_filter id found))))"

text \<open>An empty name is not added.\<close>

definition databaseTombstones :: "string list \<Rightarrow> string \<Rightarrow> uri_error + string list" where
  "databaseTombstones keys prefix =
     res_bind (res_map (\<lambda>key. parseDatabaseTombstoneFromKey key prefix) keys) (\<lambda>found.
       Inr (js_unique (filter (\<lambda>db. db \<noteq> []) (List.map_filter id found))))"

subsection \<open>What is to be restored\<close>

definition matchesRestoreCollection :: "scope \<Rightarrow> scope \<Rightarrow> bool" where
  "matchesRestoreCollection sc target \<longleftrightarrow>
     (sc_db target = GLOBAL_DATABASE \<or> sc_db target = sc_db sc) \<and> (sc_coll target = GLOBAL_COLLECTION \<or> sc_coll target = sc_coll sc)"

definition matchesRestoreTarget :: "scope \<Rightarrow> scope \<Rightarrow> bool" where
  "matchesRestoreTarget sc target \<longleftrightarrow> matchesRestoreCollection sc target \<and> sc_shard target = sc_shard sc"

definition restoreTargets :: "host \<Rightarrow> restore_config \<Rightarrow> node \<Rightarrow> scope list" where
  "restoreTargets h rc n =
     (case rc_scopes rc of
        Some scopes \<Rightarrow> scopes
      | None \<Rightarrow> map (\<lambda>(shard, peers). \<lparr>sc_db = GLOBAL_DATABASE, sc_coll = GLOBAL_COLLECTION, sc_shard = shard\<rparr>) (ownedShardTargets h n))"

definition isManagedReshard :: "node \<Rightarrow> bool" where
  "isManagedReshard n \<longleftrightarrow> (case sd_topology (nd_shardMap n) of None \<Rightarrow> False | Some t \<Rightarrow> tp_state t = Resharding)"

definition reshardSourceShards :: "node \<Rightarrow> string list" where
  "reshardSourceShards n =
     (case sd_topology (nd_shardMap n) of
        None \<Rightarrow> []
      | Some t \<Rightarrow> if tp_state t = Resharding then (case tp_source t of None \<Rightarrow> [] | Some s \<Rightarrow> tsrc_shards s) else [])"

definition restoreAllTargets :: "node \<Rightarrow> scope list \<Rightarrow> bool" where
  "restoreAllTargets n targets \<longleftrightarrow> targets = [] \<and> (\<not> has_url n \<or> syncTargets (nd_shardMap n) = [])"

definition filterRestoreScopes :: "host \<Rightarrow> restore_config \<Rightarrow> node \<Rightarrow> scope list \<Rightarrow> scope list" where
  "filterRestoreScopes h rc n scopes =
     (let targets = restoreTargets h rc n in
      if isManagedReshard n
      then filter (\<lambda>sc. sc_shard sc \<in> set (reshardSourceShards n) \<and>
             (restoreAllTargets n targets \<or> list_ex (matchesRestoreCollection sc) targets)) scopes
      else if restoreAllTargets n targets then scopes
      else filter (\<lambda>sc. list_ex (matchesRestoreTarget sc) targets) scopes)"

definition filterCatchUpScopes :: "host \<Rightarrow> restore_config \<Rightarrow> node \<Rightarrow> scope list \<Rightarrow> scope option \<Rightarrow> scope list" where
  "filterCatchUpScopes h rc n scopes wanted =
     (case wanted of None \<Rightarrow> filterRestoreScopes h rc n scopes | Some target \<Rightarrow> filter (\<lambda>sc. matchesRestoreTarget sc target) scopes)"

definition objectMatchesRestoreTargets :: "node \<Rightarrow> string \<Rightarrow> string \<Rightarrow> string \<Rightarrow> scope list \<Rightarrow> bool" where
  "objectMatchesRestoreTargets n db coll key targets =
     list_ex (matchesRestoreTarget \<lparr>sc_db = db, sc_coll = coll, sc_shard = nodeShardFor n key\<rparr>) targets"

definition row_id :: "snap_row \<Rightarrow> string" where
  "row_id row = (case sr_id row of None \<Rightarrow> ''undefined'' | Some key \<Rightarrow> key)"

definition filterRestoreObject :: "host \<Rightarrow> restore_config \<Rightarrow> node \<Rightarrow> scope \<Rightarrow> snap_row \<Rightarrow> snap_row option" where
  "filterRestoreObject h rc n sc row =
     (if \<not> isManagedReshard n then Some row
      else if \<not> restoreAllTargets n (restoreTargets h rc n) \<and>
           \<not> objectMatchesRestoreTargets n (sc_db sc) (sc_coll sc) (row_id row) (restoreTargets h rc n) then None
      else Some (row\<lparr>sr_shard := JStr (nodeShardFor n (row_id row))\<rparr>))"

definition or_name :: "string \<Rightarrow> string \<Rightarrow> string" where
  "or_name a b = (if a = [] then b else a)"

definition filterRestoreOps :: "host \<Rightarrow> restore_config \<Rightarrow> node \<Rightarrow> scope \<Rightarrow> rop list \<Rightarrow> rop list" where
  "filterRestoreOps h rc n sc ops =
     (if \<not> isManagedReshard n then ops
      else map (\<lambda>op. op\<lparr>op_shard := JStr (nodeShardFor n (op_id op))\<rparr>)
             (filter (\<lambda>op. restoreAllTargets n (restoreTargets h rc n) \<or>
                objectMatchesRestoreTargets n (or_name (op_db op) (sc_db sc)) (or_name (op_coll op) (sc_coll sc)) (op_id op) (restoreTargets h rc n)) ops))"

text \<open>\<open>opScope\<close>: the shard of an operation that has none is that of its object.\<close>

definition opScope :: "host \<Rightarrow> node \<Rightarrow> rop \<Rightarrow> scope" where
  "opScope h n op =
     \<lparr>sc_db = op_db op, sc_coll = op_coll op,
      sc_shard = (if truthy (op_shard op) then js_to_string h (op_shard op) else or_name (nodeShardFor n (op_id op)) DEFAULT_SHARD)\<rparr>"

definition filterLocalWalOps :: "host \<Rightarrow> restore_config \<Rightarrow> node \<Rightarrow> rop list \<Rightarrow> rop list" where
  "filterLocalWalOps h rc n ops =
     (let targets = restoreTargets h rc n in
      if isManagedReshard n
      then map (\<lambda>op. op\<lparr>op_shard := JStr (nodeShardFor n (op_id op))\<rparr>)
             (filter (\<lambda>op. restoreAllTargets n targets \<or> objectMatchesRestoreTargets n (op_db op) (op_coll op) (op_id op) targets) ops)
      else if restoreAllTargets n targets then ops
      else filter (\<lambda>op. list_ex (matchesRestoreTarget (opScope h n op)) targets) ops)"

subsection \<open>Cursors\<close>

definition rememberRestoredCursor :: "string \<Rightarrow> scope \<Rightarrow> rop list \<Rightarrow> node \<Rightarrow> node" where
  "rememberRestoredCursor source sc ops n =
     (if source = [] \<or> source = ''persistence'' then n
      else let key = cursorKey source (Some sc);
               seen = foldl (\<lambda>seen op. max seen (op_seq op)) (seen_of (nd_lastSeen n) key) ops
           in if seen = 0 then n else n\<lparr>nd_lastSeen := jm_set key seen (nd_lastSeen n)\<rparr>)"

definition rememberRestoredCursors :: "host \<Rightarrow> string \<Rightarrow> rop list \<Rightarrow> node \<Rightarrow> node" where
  "rememberRestoredCursors h source ops n =
     foldl (\<lambda>n (key, sc, scoped). rememberRestoredCursor source sc scoped n) n
       (foldl (\<lambda>m op. let sc = opScope h n op; key = persistScopeKey sc
                      in jm_set key (sc, (case jm_get m key of None \<Rightarrow> [] | Some (sc', scoped) \<Rightarrow> scoped) @ [op]) m) [] ops)"

definition rememberSnapshotCursors :: "scope \<Rightarrow> (string, nat) jmap \<Rightarrow> node \<Rightarrow> node" where
  "rememberSnapshotCursors sc cursors n =
     foldl (\<lambda>n (source, seq). if source = [] \<or> source = ''persistence'' then n else raise_seen (cursorKey source (Some sc)) seq n) n cursors"

definition normalizeSnapshotCursors :: "manifest \<Rightarrow> (string, nat) jmap" where
  "normalizeSnapshotCursors m =
     (if mf_node m = [] then mf_cursors m
      else jm_set (mf_node m) (max (seen_of (mf_cursors m) (mf_node m)) (mf_seq m)) (mf_cursors m))"

subsection \<open>Tombstones and metadata\<close>

definition restoreDatabaseTombstones :: "string list \<Rightarrow> node \<Rightarrow> node" where
  "restoreDatabaseTombstones dbs n = n\<lparr>nd_db := foldl (\<lambda>s db. snd (deleteDatabase db s)) (nd_db n) dbs\<rparr>"

definition restoreCollectionTombstones :: "string list \<Rightarrow> node \<Rightarrow> node" where
  "restoreCollectionTombstones keys n =
     n\<lparr>nd_db := foldl (\<lambda>s key. case parseCollectionKey key of (db, coll) \<Rightarrow> snd (deleteCollection db coll s)) (nd_db n) keys\<rparr>"

definition restoreDatabaseMeta :: "string \<Rightarrow> body objects \<Rightarrow> unit \<Rightarrow> string \<Rightarrow> unit node_step" where
  "restoreDatabaseMeta prefix objects u key =
     then_step (check_step (key_result (parseDatabaseMetaFromKey key prefix))) (\<lambda>target n.
       case target of
         None \<Rightarrow> (Inr (), n)
       | Some db \<Rightarrow>
           if isDatabaseDeleted (nd_db n) db then (Inr (), n)
           else (case storage_get key objects of
                   None \<Rightarrow> (Inr (), n)
                 | Some (MetaBody meta) \<Rightarrow> store_step_of (setDatabaseMeta db meta) n
                 | Some _ \<Rightarrow> (Inl BadBody, n)))"

definition restoreDatabaseMetadata :: "string \<Rightarrow> body objects \<Rightarrow> string list \<Rightarrow> unit node_step" where
  "restoreDatabaseMetadata prefix objects keys = each_step (restoreDatabaseMeta prefix objects) () keys"

definition restoreMeta :: "host \<Rightarrow> string \<Rightarrow> body objects \<Rightarrow> unit \<Rightarrow> string \<Rightarrow> unit node_step" where
  "restoreMeta h prefix objects u key =
     then_step (check_step (key_result (parseMetaFromKey key prefix))) (\<lambda>target n.
       case target of
         None \<Rightarrow> (Inr (), n)
       | Some (db, coll) \<Rightarrow>
           if isDatabaseDeleted (nd_db n) db \<or> isCollectionDeleted (nd_db n) db coll then (Inr (), n)
           else (case storage_get key objects of
                   None \<Rightarrow> (Inr (), n)
                 | Some (MetaBody meta) \<Rightarrow> store_step_of (setCollectionMeta h db coll meta) n
                 | Some _ \<Rightarrow> (Inl BadBody, n)))"

definition restoreMetadata :: "host \<Rightarrow> string \<Rightarrow> body objects \<Rightarrow> string list \<Rightarrow> unit node_step" where
  "restoreMetadata h prefix objects keys = each_step (restoreMeta h prefix objects) () keys"

subsection \<open>Snapshots\<close>

definition restoreManifestMetadata :: "host \<Rightarrow> scope \<Rightarrow> manifest \<Rightarrow> unit node_step" where
  "restoreManifestMetadata h sc m =
     then_step (if is_obj (mf_databaseMeta m) then store_step_of (setDatabaseMeta (sc_db sc) (json_clone (mf_databaseMeta m))) else done_step ())
       (\<lambda>u. if is_obj (mf_collectionMeta m)
            then store_step_of (setCollectionMeta h (sc_db sc) (sc_coll sc) (json_clone (mf_collectionMeta m))) else done_step ())"

definition ensureRestoreManifestContext :: "host \<Rightarrow> scope \<Rightarrow> manifest \<Rightarrow> unit node_step" where
  "ensureRestoreManifestContext h sc m =
     then_step (\<lambda>n. if getDatabaseMeta (nd_db n) (sc_db sc) \<noteq> None then (Inr (), n)
                    else store_step_of (setDatabaseMeta (sc_db sc) (json_clone (or_empty (mf_databaseMeta m)))) n)
       (\<lambda>u n. if getCollection (nd_db n) (sc_db sc) (sc_coll sc) \<noteq> None then (Inr (), n)
              else store_step_of (setCollectionMeta h (sc_db sc) (sc_coll sc) (json_clone (or_empty (mf_collectionMeta m)))) n)"

text \<open>\<open>applyRows\<close> of one batch; an empty one is left out.\<close>

definition apply_rows :: "host \<Rightarrow> scope \<Rightarrow> manifest \<Rightarrow> nat \<Rightarrow> snap_row list \<Rightarrow> nat node_step" where
  "apply_rows h sc m objects rows n =
     (if rows = [] then (Inr objects, n)
      else let source = (if mf_node m = [] then ''persistence'' else mf_node m) in
        (case nodeSnapshotObjects h (sc_db sc) (sc_coll sc) rows (mf_seq m) (Some (sc_shard sc)) (cursorKey source (Some sc)) n of
           (Inl e, n1) \<Rightarrow> (Inl (NodeFailed e), n1)
         | (Inr applied, n1) \<Rightarrow> (Inr (objects + applied), n1)))"

fun in_batches :: "nat \<Rightarrow> 'a list \<Rightarrow> 'a list \<Rightarrow> 'a list list" where
  "in_batches k batch [] = [batch]"
| "in_batches k batch (x # xs) = (if length batch + 1 < k then in_batches k (batch @ [x]) xs else (batch @ [x]) # in_batches k [] xs)"

definition restoreSnapshotSegment :: "host \<Rightarrow> restore_config \<Rightarrow> body objects \<Rightarrow> scope \<Rightarrow> manifest \<Rightarrow> nat \<Rightarrow> string \<times> nat \<Rightarrow> nat node_step" where
  "restoreSnapshotSegment h rc objects sc m acc segment n =
     (if \<not> ends_with ''.jsonl'' (fst segment) then (Inl SegmentFormat, n)
      else (case storage_get (fst segment) objects of
              None \<Rightarrow> (Inl SegmentMissing, n)
            | Some (SegmentBody rows) \<Rightarrow>
                each_step (apply_rows h sc m) acc (in_batches RESTORE_APPLY_BATCH_SIZE [] (List.map_filter (filterRestoreObject h rc n sc) rows)) n
            | Some _ \<Rightarrow> (Inl BadBody, n)))"

definition manifest_key :: "restore_config \<Rightarrow> scope \<Rightarrow> string" where
  "manifest_key rc sc =
     (case rc_snapshotId rc of
        Some ident \<Rightarrow> scopePrefix (rc_prefix rc) sc @ ''/snapshots/'' @ ident @ ''/manifest.json''
      | None \<Rightarrow> scopePrefix (rc_prefix rc) sc @ ''/latest.json'')"

text \<open>The manifest that was restored and the number of its objects, if there is one.\<close>

definition restoreSnapshot :: "host \<Rightarrow> restore_config \<Rightarrow> body objects \<Rightarrow> scope \<Rightarrow> (manifest \<times> nat) option node_step" where
  "restoreSnapshot h rc objects sc n =
     (case storage_get (manifest_key rc sc) objects of
        None \<Rightarrow> (Inr None, n)
      | Some (ManifestBody m) \<Rightarrow>
          then_step (if rc_snapshotId rc \<noteq> None then restoreManifestMetadata h sc m else ensureRestoreManifestContext h sc m)
            (\<lambda>u. then_step (each_step (restoreSnapshotSegment h rc objects sc m) 0 (mf_segments m)) (\<lambda>count. done_step (Some (m, count)))) n
      | Some _ \<Rightarrow> (Inl BadBody, n))"

subsection \<open>Journals\<close>

definition applyRestoredJournalOps :: "host \<Rightarrow> restore_config \<Rightarrow> string \<Rightarrow> scope \<Rightarrow> string \<Rightarrow> rop list \<Rightarrow> nat node_step" where
  "applyRestoredJournalOps h rc source sc key ops n =
     (let filtered = filterRestoreOps h rc n sc ops in
      if filtered = [] then (Inr 0, n)
      else (case applyRemote h filtered (''persistence:'' @ key) n of
              (Inl e, n1) \<Rightarrow> (Inl (NodeFailed e), n1)
            | (Inr count, n1) \<Rightarrow> (Inr (length filtered), rememberRestoredCursor source sc filtered n1)))"

definition maxLocalSeqForOps :: "rop list \<Rightarrow> string \<Rightarrow> nat" where
  "maxLocalSeqForOps ops ident = foldl (\<lambda>m op. if op_from op = ident then max m (op_seq op) else m) 0 ops"

text \<open>One batch: the largest own sequence number so far and the operations applied.\<close>

definition journal_batch :: "host \<Rightarrow> restore_config \<Rightarrow> string \<Rightarrow> scope \<Rightarrow> string \<Rightarrow> nat \<Rightarrow> rop list \<Rightarrow> nat node_step" where
  "journal_batch h rc source sc key maxSeq ops n =
     (if ops = [] then (Inr maxSeq, n)
      else then_step (applyRestoredJournalOps h rc source sc key ops) (\<lambda>applied n1. (Inr (max maxSeq (maxLocalSeqForOps ops (nd_id n1))), n1)) n)"

definition restoreJournalSegment :: "host \<Rightarrow> restore_config \<Rightarrow> body objects \<Rightarrow> scope \<Rightarrow> string \<Rightarrow> (string, nat) jmap \<Rightarrow> nat node_step" where
  "restoreJournalSegment h rc objects sc key cursors n =
     (if \<not> ends_with ''.jsonl'' key then (Inl SegmentFormat, n)
      else then_step (check_step (key_result (parseJournalKey key (rc_prefix rc)))) (\<lambda>info n.
        let source = (case info of None \<Rightarrow> ''persistence'' | Some i \<Rightarrow> or_name (ji_node i) ''persistence'');
            covered = seen_of cursors source
        in (case storage_get key objects of
              None \<Rightarrow> (Inl SegmentMissing, n)
            | Some (JournalBody ops) \<Rightarrow>
                each_step (journal_batch h rc source sc key) (nd_seq n)
                  (in_batches (rc_batchSize rc) [] (filter (\<lambda>op. covered < op_seq op) ops)) n
            | Some _ \<Rightarrow> (Inl BadBody, n))) n)"

definition journal_keys :: "string \<Rightarrow> scope \<Rightarrow> string list \<Rightarrow> string list" where
  "journal_keys prefix sc keys =
     sort (filter (\<lambda>key. starts_with (scopePrefix prefix sc @ ''/journal/'') key \<and> ends_with ''.jsonl'' key) keys)"

definition restore_journal :: "host \<Rightarrow> restore_config \<Rightarrow> body objects \<Rightarrow> scope \<Rightarrow> (string, nat) jmap \<Rightarrow> nat \<Rightarrow> string \<Rightarrow> nat node_step" where
  "restore_journal h rc objects sc cursors maxSeq key =
     then_step (check_step (key_result (parseJournalKey key (rc_prefix rc)))) (\<lambda>info n.
       let covered = (case info of None \<Rightarrow> 0 | Some i \<Rightarrow> seen_of cursors (ji_node i)) in
       if (case info of None \<Rightarrow> False | Some i \<Rightarrow> 0 < ji_lastSeq i \<and> ji_lastSeq i \<le> covered) then (Inr maxSeq, n)
       else then_step (restoreJournalSegment h rc objects sc key cursors) (\<lambda>seq n1. (Inr (max maxSeq seq), n1)) n)"

subsection \<open>The whole restore\<close>

definition restore_scope_snapshot :: "host \<Rightarrow> restore_config \<Rightarrow> body objects \<Rightarrow> (string, (string, nat) jmap) jmap \<times> nat \<Rightarrow> scope \<Rightarrow>
    ((string, (string, nat) jmap) jmap \<times> nat) node_step" where
  "restore_scope_snapshot h rc objects acc sc =
     then_step (restoreSnapshot h rc objects sc) (\<lambda>restored n.
       case restored of
         None \<Rightarrow> (Inr (jm_set (persistScopeKey sc) [] (fst acc), snd acc), n)
       | Some (m, count) \<Rightarrow>
           let cursors = normalizeSnapshotCursors m
           in (Inr (jm_set (persistScopeKey sc) cursors (fst acc), if mf_node m = nd_id n then max (snd acc) (mf_seq m) else snd acc),
               rememberSnapshotCursors sc cursors n))"

definition restore_scope_journals :: "host \<Rightarrow> restore_config \<Rightarrow> body objects \<Rightarrow> string list \<Rightarrow> (string, (string, nat) jmap) jmap \<Rightarrow>
    nat \<Rightarrow> scope \<Rightarrow> nat node_step" where
  "restore_scope_journals h rc objects keys snapshots maxSeq sc =
     (let cursors = (case jm_get snapshots (persistScopeKey sc) of None \<Rightarrow> [] | Some c \<Rightarrow> c)
      in each_step (restore_journal h rc objects sc cursors) maxSeq (journal_keys (rc_prefix rc) sc keys))"

definition restoreScopeSet :: "host \<Rightarrow> restore_config \<Rightarrow> body objects \<Rightarrow> string list \<Rightarrow> scope list \<Rightarrow> nat \<Rightarrow> nat node_step" where
  "restoreScopeSet h rc objects keys scopes maxSeq =
     then_step (each_step (restore_scope_snapshot h rc objects) ([], maxSeq) scopes) (\<lambda>(snapshots, maxSeq1).
       each_step (restore_scope_journals h rc objects keys snapshots) maxSeq1 (if rc_snapshotId rc = None then scopes else []))"

definition restore_wal_record :: "host \<Rightarrow> restore_config \<Rightarrow> nat \<times> nat \<Rightarrow> wal_record \<Rightarrow> (nat \<times> nat) node_step" where
  "restore_wal_record h rc acc r n =
     (case acc of (line, maxSeq) \<Rightarrow>
        (case wr_entry r of
           WalOps ops0 \<Rightarrow>
             let ops = filterLocalWalOps h rc n ops0; source = or_name (wr_node r) ''local-wal'' in
             (case applyRemote h ops (''local-wal:'' @ decimal (line + 1)) n of
                (Inl e, n1) \<Rightarrow> (Inl (NodeFailed e), n1)
              | (Inr count, n1) \<Rightarrow> (Inr (line + 1, max maxSeq (maxLocalSeqForOps ops (nd_id n1))), rememberRestoredCursors h source ops n1))
         | WalDatabase db meta \<Rightarrow>
             if db \<noteq> [] \<and> is_obj meta
             then then_step (store_step_of (setDatabaseMeta db (json_clone meta))) (\<lambda>u. done_step (line + 1, maxSeq)) n else (Inr (line + 1, maxSeq), n)
         | WalDropDatabase db \<Rightarrow>
             (Inr (line + 1, maxSeq), if db = [] then n else n\<lparr>nd_db := snd (deleteDatabase db (nd_db n))\<rparr>)
         | WalMeta db coll meta \<Rightarrow>
             if db \<noteq> [] \<and> coll \<noteq> [] \<and> is_obj meta
             then then_step (store_step_of (setCollectionMeta h db coll (json_clone meta))) (\<lambda>u. done_step (line + 1, maxSeq)) n
             else (Inr (line + 1, maxSeq), n)
         | WalDropCollection db coll \<Rightarrow>
             (Inr (line + 1, maxSeq), if db = [] \<or> coll = [] then n else n\<lparr>nd_db := snd (deleteCollection db coll (nd_db n))\<rparr>)))"

definition restoreLocalWal :: "host \<Rightarrow> restore_config \<Rightarrow> wal_record list \<Rightarrow> nat node_step" where
  "restoreLocalWal h rc records n =
     then_step (each_step (restore_wal_record h rc) (0, nd_seq n) records) (\<lambda>(line, maxSeq). done_step maxSeq) n"

text \<open>The part between the beginning and the end of the bulk load; the result is the largest own sequence number.\<close>

definition restore_loaded :: "host \<Rightarrow> restore_config \<Rightarrow> disk \<Rightarrow> string list \<Rightarrow> string list \<Rightarrow> string list \<Rightarrow> scope list \<Rightarrow> nat node_step" where
  "restore_loaded h rc dk keys deleted tombstones scopes n =
     (let objects = dk_objects dk; n1 = restoreCollectionTombstones tombstones (restoreDatabaseTombstones deleted n) in
      then_step (restoreDatabaseMetadata (rc_prefix rc) objects keys) (\<lambda>u.
      then_step (restoreMetadata h (rc_prefix rc) objects keys) (\<lambda>u.
      then_step (restoreScopeSet h rc objects keys scopes (nd_seq n)) (\<lambda>maxSeq.
        if rc_localWal rc \<and> rc_snapshotId rc = None
        then then_step (restoreLocalWal h rc (dk_wal dk)) (\<lambda>walSeq. done_step (max maxSeq walSeq))
        else done_step maxSeq))) n1)"

definition restored_scopes :: "host \<Rightarrow> restore_config \<Rightarrow> node \<Rightarrow> string list \<Rightarrow> restore_error + string list \<times> string list \<times> scope list" where
  "restored_scopes h rc n keys =
     res_bind (key_result (databaseTombstones keys (rc_prefix rc))) (\<lambda>deleted.
     res_bind (key_result (collectionTombstones keys (rc_prefix rc))) (\<lambda>tombstones.
     res_bind (key_result (uniqueScopes h keys (rc_prefix rc))) (\<lambda>scopes.
     Inr (deleted, tombstones,
       filter (\<lambda>sc. sc_db sc \<notin> set deleted \<and> persistCollectionKey (sc_db sc) (sc_coll sc) \<notin> set tombstones) (filterRestoreScopes h rc n scopes)))))"

definition end_restore :: "nat \<Rightarrow> node \<Rightarrow> node" where
  "end_restore maxSeq n =
     (let n1 = n\<lparr>nd_seq := max (nd_seq n) maxSeq\<rparr> in if nd_log n1 = [] then n1\<lparr>nd_trimmed := max (nd_trimmed n1) (nd_seq n1)\<rparr> else n1)"

definition restore :: "host \<Rightarrow> restore_config \<Rightarrow> disk \<Rightarrow> unit node_step" where
  "restore h rc dk n =
     (let keys = storage_list (rootPrefix (rc_prefix rc)) (dk_objects dk) in
      case restored_scopes h rc n keys of
        Inl e \<Rightarrow> (Inl e, n\<lparr>nd_db := endBulkLoad (nd_db n)\<rparr>)
      | Inr (deleted, tombstones, scopes) \<Rightarrow>
          (case restore_loaded h rc dk keys deleted tombstones scopes (n\<lparr>nd_db := beginBulkLoad (nd_db n)\<rparr>) of
             (Inl e, n1) \<Rightarrow> (Inl e, n1\<lparr>nd_db := endBulkLoad (nd_db n1)\<rparr>)
           | (Inr maxSeq, n1) \<Rightarrow>
               let n2 = end_restore maxSeq (n1\<lparr>nd_db := endBulkLoad (nd_db n1)\<rparr>) in
               if isManagedReshard n2
               then (case find (\<lambda>s. s \<in> set (reshardSourceShards n2)) (jm_keys (sd_shards (nd_shardMap n2))) of
                       Some s \<Rightarrow> (Inl (ShardsOverlap s), n2) | None \<Rightarrow> (Inr (), n2))
               else (Inr (), n2)))"

end
