(* ===== verification/Spec2Isabelle.thy ===== *)
theory Spec2Isabelle
  imports Clock Patch Permissions ObjectStore ShapeStore RidQueue PlanExact Hooks CollErrors CollTier NodeSync Router PersistRun Restore
begin

text \<open>
  A verification library for ObjyDB.
\<close>

end
